(* ===== verification/Busbar_Prelude.thy ===== *)
theory Busbar_Prelude
  imports Complex_Main "HOL-Library.Monad_Syntax"
begin

text \<open>
  Shared vocabulary of the development: the integer types of the source written as
  naturals and integers with their saturation and wrap-around spelled out, the one
  floating-point operation the breaker uses, panics as \<open>None\<close>, and the list facts
  the components share.

  A value of Rust type \<open>u64\<close> is a \<open>nat\<close>; every operation of the source that can leave
  the range of the type is written with the function below that does what Rust does
  there (\<open>saturating_add\<close> and friends for the saturating methods, \<open>wrap_u32\<close>,
  \<open>wrap_u64\<close> and \<open>wrap_i64\<close> for the atomics' \<open>fetch_add\<close>, which wraps).
\<close>

section \<open>Fact collections\<close>

named_theorems arith_defs \<open>definitions of the machine arithmetic\<close>
named_theorems cell_defs \<open>definitions of the breaker cell operations\<close>
named_theorems store_defs \<open>definitions of the lane store operations\<close>

section \<open>Machine integers\<close>

type_synonym u64 = nat
type_synonym u32 = nat
type_synonym i64 = int
type_synonym usize = nat

definition u64_max :: nat where
  "u64_max = 18446744073709551615"

definition u32_max :: nat where
  "u32_max = 4294967295"

definition i64_max :: int where
  "i64_max = 9223372036854775807"

definition i64_min :: int where
  "i64_min = - 9223372036854775808"

definition saturating_add :: "u64 \<Rightarrow> u64 \<Rightarrow> u64" where
  [arith_defs]: "saturating_add a b = min (a + b) u64_max"

definition saturating_sub :: "u64 \<Rightarrow> u64 \<Rightarrow> u64" where
  [arith_defs]: "saturating_sub a b = a - b"

definition saturating_mul :: "u64 \<Rightarrow> u64 \<Rightarrow> u64" where
  [arith_defs]: "saturating_mul a b = min (a * b) u64_max"

definition wrap_u64 :: "nat \<Rightarrow> u64" where
  [arith_defs]: "wrap_u64 n = n mod 18446744073709551616"

definition wrap_u32 :: "nat \<Rightarrow> u32" where
  [arith_defs]: "wrap_u32 n = n mod 4294967296"

definition wrap_i64 :: "int \<Rightarrow> i64" where
  [arith_defs]: "wrap_i64 x =
     (x + 9223372036854775808) mod 18446744073709551616 - 9223372036854775808"

text \<open>\<open>Ord::clamp\<close> asserts \<open>lo \<le> hi\<close> and panics otherwise.\<close>

definition clamp :: "nat \<Rightarrow> nat \<Rightarrow> nat \<Rightarrow> nat option" where
  [arith_defs]: "clamp x lo hi = (if lo \<le> hi then Some (if x < lo then lo else if hi < x then hi else x) else None)"

lemma saturating_add_le [simp, intro]: "saturating_add a b \<le> u64_max"
  by (simp add: saturating_add_def)

lemma saturating_add_ge: "a \<le> u64_max \<Longrightarrow> a \<le> saturating_add a b"
  by (simp add: saturating_add_def)

lemma saturating_add_exact [simp]: "a + b \<le> u64_max \<Longrightarrow> saturating_add a b = a + b"
  by (simp add: saturating_add_def)

lemma saturating_add_mono: "b \<le> c \<Longrightarrow> saturating_add a b \<le> saturating_add a c"
  by (auto simp: saturating_add_def)

lemma wrap_u64_less [simp]: "wrap_u64 n \<le> u64_max"
proof -
  have "n mod 18446744073709551616 < 18446744073709551616" by simp
  then show ?thesis unfolding wrap_u64_def u64_max_def by linarith
qed

lemma wrap_u32_less [simp]: "wrap_u32 n \<le> u32_max"
proof -
  have "n mod 4294967296 < 4294967296" by simp
  then show ?thesis unfolding wrap_u32_def u32_max_def by linarith
qed

lemma wrap_u64_exact: "n \<le> u64_max \<Longrightarrow> wrap_u64 n = n"
  by (simp add: wrap_u64_def u64_max_def)

lemma wrap_u32_exact: "n \<le> u32_max \<Longrightarrow> wrap_u32 n = n"
  by (simp add: wrap_u32_def u32_max_def)

lemma wrap_i64_exact: "i64_min \<le> x \<Longrightarrow> x \<le> i64_max \<Longrightarrow> wrap_i64 x = x"
  by (simp add: wrap_i64_def i64_min_def i64_max_def)

lemma wrap_i64_range: "i64_min \<le> wrap_i64 x \<and> wrap_i64 x \<le> i64_max"
proof -
  have "0 \<le> (x + 9223372036854775808) mod 18446744073709551616"
    and "(x + 9223372036854775808) mod 18446744073709551616 < (18446744073709551616::int)"
    by simp_all
  then show ?thesis unfolding wrap_i64_def i64_min_def i64_max_def by linarith
qed

lemma clamp_Some_iff: "(\<exists>y. clamp x lo hi = Some y) \<longleftrightarrow> lo \<le> hi"
  by (simp add: clamp_def)

lemma clamp_bounds: "clamp x lo hi = Some y \<Longrightarrow> lo \<le> y \<and> y \<le> hi"
  by (auto simp: clamp_def split: if_splits)

section \<open>Division of two counters as \<open>f64\<close>\<close>

text \<open>
  The trip decision divides two counters as \<open>f64\<close> and compares the quotient with a
  configured \<open>f64\<close>. Counters below \<open>2 ^ 53\<close> convert exactly; the quotient of two such
  positive counters is a normal \<open>f64\<close>: a 53-bit significand, rounded half to even. A
  finite \<open>f64\<close> is the rational it denotes.
\<close>

definition round_half_even :: "nat \<Rightarrow> nat \<Rightarrow> nat" where
  "round_half_even n d =
     (let q = n div d; r = n mod d in
      if 2 * r < d then q else if d < 2 * r then q + 1 else if even q then q else q + 1)"

function f64_shift :: "nat \<Rightarrow> nat \<Rightarrow> nat \<Rightarrow> nat" where
  "f64_shift n d e = (if 106 \<le> e \<or> d * 2 ^ 52 \<le> n * 2 ^ e then e else f64_shift n d (Suc e))"
  by pat_completeness auto
termination
  by (relation "measure (\<lambda>(n, d, e). 106 - e)") auto

declare f64_shift.simps [simp del]

text \<open>The scan starts at 0, so the quotient itself is covered when it is below \<open>2 ^ 53\<close>.\<close>

definition f64_div :: "nat \<Rightarrow> nat \<Rightarrow> rat" where
  "f64_div n d =
     (if n = 0 then 0
      else let e = f64_shift n d 0 in of_nat (round_half_even (n * 2 ^ e) d) / of_nat (2 ^ e))"

lemma round_half_even_ge: "0 < d \<Longrightarrow> k * d \<le> n \<Longrightarrow> k \<le> round_half_even n d"
proof -
  assume d: "0 < d" and k: "k * d \<le> n"
  have "k \<le> n div d" using d k by (simp add: less_eq_div_iff_mult_less_eq)
  then show ?thesis by (simp add: round_half_even_def Let_def)
qed

lemma round_half_even_le: "0 < d \<Longrightarrow> 2 * d * round_half_even n d \<le> 2 * n + d"
proof -
  assume d: "0 < d"
  define q r where "q = n div d" and "r = n mod d"
  have n: "n = d * q + r" by (simp add: q_def r_def)
  have "round_half_even n d = q \<or> round_half_even n d = q + 1 \<and> d \<le> 2 * r"
    by (auto simp: round_half_even_def Let_def q_def r_def)
  then show ?thesis using n by (auto simp: algebra_simps)
qed

lemma f64_shift_ge: "e \<le> f64_shift n d e"
  by (induction n d e rule: f64_shift.induct) (subst f64_shift.simps, auto)

text \<open>
  The rounding error is at most half a unit in the last place, and a quotient that
  reaches a dyadic rational with few enough bits is rounded to something that still
  reaches it.
\<close>

lemma f64_div_le: "0 < d \<Longrightarrow> f64_div n d \<le> of_nat n / of_nat d + 1 / of_nat (2 * 2 ^ f64_shift n d 0)"
proof -
  assume d: "0 < d"
  define e where "e = f64_shift n d 0"
  have le: "2 * d * round_half_even (n * 2 ^ e) d \<le> 2 * (n * 2 ^ e) + d"
    by (rule round_half_even_le [OF d])
  have "(of_nat (2 * d * round_half_even (n * 2 ^ e) d) :: rat) \<le> of_nat (2 * (n * 2 ^ e) + d)"
    using le by (simp only: of_nat_le_iff)
  then have "(of_nat (round_half_even (n * 2 ^ e) d) :: rat) / of_nat (2 ^ e)
      \<le> of_nat n / of_nat d + 1 / of_nat (2 * 2 ^ e)"
    using d by (simp add: field_simps)
  then show ?thesis
    by (auto simp: f64_div_def Let_def e_def)
qed

lemma f64_div_ge_dyadic:
  assumes d: "0 < d" and reach: "a * d \<le> n * 2 ^ k" and k: "k \<le> f64_shift n d 0"
  shows "of_nat a / of_nat (2 ^ k) \<le> f64_div n d"
proof (cases "n = 0")
  case True
  with d reach have "a = 0" by simp
  with True show ?thesis by (simp add: f64_div_def)
next
  case False
  define e where "e = f64_shift n d 0"
  have split: "(2::nat) ^ e = 2 ^ k * 2 ^ (e - k)"
    using k by (simp add: e_def flip: power_add)
  have "a * 2 ^ (e - k) * d = a * d * 2 ^ (e - k)" by simp
  also have "\<dots> \<le> n * 2 ^ k * 2 ^ (e - k)" using reach by (intro mult_right_mono) auto
  also have "\<dots> = n * 2 ^ e" by (simp add: split)
  finally have "a * 2 ^ (e - k) \<le> round_half_even (n * 2 ^ e) d"
    by (rule round_half_even_ge [OF d])
  then have "(of_nat (a * 2 ^ (e - k)) :: rat) \<le> of_nat (round_half_even (n * 2 ^ e) d)"
    by (simp only: of_nat_le_iff)
  then have "(of_nat a :: rat) / of_nat (2 ^ k) \<le> of_nat (round_half_even (n * 2 ^ e) d) / of_nat (2 ^ e)"
    by (simp add: split field_simps)
  with False show ?thesis by (simp add: f64_div_def Let_def e_def)
qed

lemma f64_shift_le_half:
  assumes "n \<le> d" and "0 < d"
  shows "52 \<le> f64_shift n d 0"
proof -
  have "52 \<le> f64_shift n d e" if "e \<le> 52" for e
    using that assms
  proof (induction n d e rule: f64_shift.induct)
    case (1 n d e)
    show ?case
    proof (cases "e = 52")
      case True
      then show ?thesis using f64_shift_ge [of 52 n d] by simp
    next
      case False
      with "1.prems" have "e < 52" by simp
      have "(2::nat) ^ e < 2 ^ 52" by (rule power_strict_increasing) (use \<open>e < 52\<close> in auto)
      then have "d * 2 ^ e < d * 2 ^ 52" using "1.prems" by (simp only: mult_less_cancel1)
      then have "n * 2 ^ e < d * 2 ^ 52"
        using "1.prems" by (meson le_less_trans mult_le_mono1)
      moreover have "52 \<le> f64_shift n d (Suc e)"
        using "1.IH" \<open>e < 52\<close> "1.prems" calculation by simp
      ultimately show ?thesis using \<open>e < 52\<close> by (simp add: f64_shift.simps [of n d e])
    qed
  qed
  then show ?thesis by simp
qed

text \<open>
  At the threshold one half the rounded comparison decides exactly what the exact one does,
  for every denominator the outcome window can produce.
\<close>

lemma f64_div_half_iff:
  assumes "n \<le> d" and "0 < d" and "d \<le> 1024"
  shows "1 / 2 \<le> f64_div n d \<longleftrightarrow> d \<le> 2 * n"
proof
  assume "d \<le> 2 * n"
  then show "1 / 2 \<le> f64_div n d"
    using f64_div_ge_dyadic [of d 1 n 1] f64_shift_le_half [of n d] assms by simp
next
  assume half: "1 / 2 \<le> f64_div n d"
  show "d \<le> 2 * n"
  proof (rule ccontr)
    assume "\<not> d \<le> 2 * n"
    then have lt: "2 * n + 1 \<le> d" by simp
    have "(2::nat) ^ 52 \<le> 2 ^ f64_shift n d 0"
      using f64_shift_le_half [of n d] assms by (intro power_increasing) auto
    then have "(of_nat (2 * 2 ^ 52) :: rat) \<le> of_nat (2 * 2 ^ f64_shift n d 0)"
      by (simp only: of_nat_le_iff mult_le_mono2)
    then have big: "(2 * 2 ^ 52 :: rat) \<le> of_nat (2 * 2 ^ f64_shift n d 0)" by simp
    have "1 / of_nat (2 * 2 ^ f64_shift n d 0) \<le> (1 / (2 * 2 ^ 52) :: rat)"
      using big by (intro divide_left_mono) auto
    then have "1 / 2 \<le> of_nat n / of_nat d + (1 / (2 * 2 ^ 52) :: rat)"
      using half f64_div_le [of d n] assms by linarith
    moreover have "of_nat n / of_nat d + (1 / 2048 :: rat) \<le> 1 / 2"
    proof -
      have "(of_nat (2 * n + 1) :: rat) \<le> of_nat d"
        using lt by (simp only: of_nat_le_iff)
      moreover have "(of_nat d :: rat) \<le> of_nat 1024"
        using assms(3) by (simp only: of_nat_le_iff)
      ultimately have "(of_nat n :: rat) * 2048 + of_nat d \<le> 1024 * of_nat d" by simp
      then show ?thesis using assms(2) by (simp add: field_simps)
    qed
    ultimately show False by simp
  qed
qed

section \<open>Calls that may fail\<close>

text \<open>
  A call to a service is answered, refused without effect, or carried out while its acknowledgement
  is lost.
\<close>

datatype Fault = Answered | Refused | AckLost

section \<open>Step relations with an invariant\<close>

text \<open>
  A component with state is a start predicate and a step relation labelled by events;
  \<open>trace\<close> runs it over a list of events. The locale states what an invariant has to
  satisfy and gives it for whole runs; each state machine of the development interprets it.
\<close>

inductive trace :: "('s \<Rightarrow> 'e \<Rightarrow> 's \<Rightarrow> bool) \<Rightarrow> 's \<Rightarrow> 'e list \<Rightarrow> 's \<Rightarrow> bool" for step where
  trace_nil: "trace step s [] s"
| trace_snoc: "trace step s es t \<Longrightarrow> step t e u \<Longrightarrow> trace step s (es @ [e]) u"

definition reach :: "('s \<Rightarrow> bool) \<Rightarrow> ('s \<Rightarrow> 'e \<Rightarrow> 's \<Rightarrow> bool) \<Rightarrow> 's \<Rightarrow> bool" where
  "reach init step t \<longleftrightarrow> (\<exists>s es. init s \<and> trace step s es t)"

lemma trace_single: "step s e t \<Longrightarrow> trace step s [e] t"
  using trace_snoc [OF trace_nil, of step s e t] by simp

lemma trace_cons: "trace step t es u \<Longrightarrow> step s e t \<Longrightarrow> trace step s (e # es) u"
  by (induction rule: trace.induct) (auto intro: trace_single dest: trace_snoc)

lemma trace_append: "trace step t fs u \<Longrightarrow> trace step s es t \<Longrightarrow> trace step s (es @ fs) u"
proof (induction rule: trace.induct)
  case (trace_nil t)
  then show ?case by simp
next
  case (trace_snoc t fs u e v)
  then have "trace step s ((es @ fs) @ [e]) v" by (blast intro: trace.trace_snoc)
  then show ?case by simp
qed

lemma reach_init: "init s \<Longrightarrow> reach init step s"
  unfolding reach_def by (blast intro: trace_nil)

lemma reach_step: "reach init step s \<Longrightarrow> step s e t \<Longrightarrow> reach init step t"
  unfolding reach_def by (blast intro: trace_snoc)

locale invariant_system =
  fixes init :: "'s \<Rightarrow> bool" and step :: "'s \<Rightarrow> 'e \<Rightarrow> 's \<Rightarrow> bool" and inv :: "'s \<Rightarrow> bool"
  assumes init_inv: "init s \<Longrightarrow> inv s"
    and step_inv: "inv s \<Longrightarrow> step s e t \<Longrightarrow> inv t"
begin

lemma trace_inv: "trace step s es t \<Longrightarrow> inv s \<Longrightarrow> inv t"
  by (induction rule: trace.induct) (auto intro: step_inv)

lemma reach_inv: "reach init step s \<Longrightarrow> inv s"
  unfolding reach_def by (blast intro: trace_inv init_inv)

text \<open>
  A property that every harmless step keeps, under the invariant, survives any run made
  of harmless steps.
\<close>

lemma trace_stable:
  assumes "trace step s es t" and "inv s" and "P s"
    and "\<And>s e t. inv s \<Longrightarrow> P s \<Longrightarrow> step s e t \<Longrightarrow> harmless e \<Longrightarrow> P t"
    and "list_all harmless es"
  shows "P t"
  using assms
proof (induction rule: trace.induct)
  case (trace_nil s)
  then show ?case by simp
next
  case (trace_snoc s es t e u)
  then have "P t" and "inv t" by (auto intro: trace_inv)
  with trace_snoc.prems trace_snoc.hyps show ?case by (simp add: list_all_append)
qed

end

end
