(* ===== verification/Breaker_Classify.thy ===== *)
theory Breaker_Classify
  imports Busbar_Prelude
begin

text \<open>
  The two-stage failure classifier of \<open>src/crates/busbar/src/breaker.rs\<close>: the parse of an
  upstream \<open>Retry-After\<close> header, the provider normaliser \<open>normalize_raw_error\<close> (operator
  \<open>error_map\<close>, the built-in context-length code, the HTTP status) and the protocol-agnostic
  \<open>classify\<close>. The lemmas fix what each HTTP status becomes, when the operator's map wins,
  and that an outage reported with a 5xx status is never turned into a disposition that
  spares the lane by a context-length mapping.
\<close>

section \<open>Types\<close>

datatype StatusClass =
  RateLimit | Overloaded | ServerError | Timeout | Network | Auth | Billing | ClientError
  | ContextLength

datatype Disposition = ClientFault | TransientUpstream | HardDown | ContextLengthDisp

record RawUpstreamError =
  http_status :: nat
  provider_code :: "string option"
  structured_type :: "string option"
  retry_after_secs :: "u64 option"

record CanonicalSignal =
  signal_class :: StatusClass
  provider_signal :: "string option"
  retry_after :: "u64 option"

definition HTTP_OVERLOADED :: nat where
  "HTTP_OVERLOADED = 529"

definition PROVIDER_CODE_CONTEXT_LENGTH :: string where
  "PROVIDER_CODE_CONTEXT_LENGTH = ''context_length_exceeded''"

section \<open>Operations\<close>

definition status_class_from_str :: "string \<Rightarrow> StatusClass option" where
  "status_class_from_str s =
     (if s = ''rate_limit'' then Some RateLimit
      else if s = ''overloaded'' then Some Overloaded
      else if s = ''server_error'' then Some ServerError
      else if s = ''timeout'' then Some Timeout
      else if s = ''network'' then Some Network
      else if s = ''auth'' then Some Auth
      else if s = ''billing'' then Some Billing
      else if s = ''client_error'' then Some ClientError
      else if s = ''context_length'' then Some ContextLength
      else None)"

fun classify :: "CanonicalSignal \<Rightarrow> Disposition" where
  "classify sig =
     (case signal_class sig of
        RateLimit \<Rightarrow> TransientUpstream
      | Overloaded \<Rightarrow> TransientUpstream
      | ServerError \<Rightarrow> TransientUpstream
      | Timeout \<Rightarrow> TransientUpstream
      | Network \<Rightarrow> TransientUpstream
      | Auth \<Rightarrow> HardDown
      | Billing \<Rightarrow> HardDown
      | ClientError \<Rightarrow> ClientFault
      | ContextLength \<Rightarrow> ContextLengthDisp)"

text \<open>
  The process-wide set of \<open>error_map\<close> values already warned about, most recent first: a
  value is added (and logged) once.
\<close>

definition warn_unrecognized_error_map_value :: "string list \<Rightarrow> string \<Rightarrow> string list" where
  "warn_unrecognized_error_map_value seen v = (if v \<in> set seen then seen else v # seen)"

text \<open>Rust's \<open>str::parse::<u64>\<close>: an optional plus sign, then at least one digit, no overflow.\<close>

definition digit_value :: "char \<Rightarrow> nat option" where
  "digit_value c = (if 48 \<le> (of_char c :: nat) \<and> (of_char c :: nat) \<le> 57 then Some (of_char c - 48) else None)"

fun parse_digits :: "nat \<Rightarrow> string \<Rightarrow> nat option" where
  "parse_digits acc [] = Some acc"
| "parse_digits acc (c # cs) =
     (case digit_value c of
        None \<Rightarrow> None
      | Some d \<Rightarrow> (if acc * 10 + d \<le> u64_max then parse_digits (acc * 10 + d) cs else None))"

definition parse_u64 :: "string \<Rightarrow> nat option" where
  "parse_u64 s =
     (let body = (case s of c # cs \<Rightarrow> if c = CHR ''+'' then cs else s | [] \<Rightarrow> s)
      in if body = [] then None else parse_digits 0 body)"

text \<open>\<open>str::trim\<close> on a header value, whose only white space is the blank and the tab.\<close>

definition header_space :: "char \<Rightarrow> bool" where
  "header_space c = (c = CHR '' '' \<or> c = CHR 0x09)"

definition header_trim :: "string \<Rightarrow> string" where
  "header_trim s = rev (dropWhile header_space (rev (dropWhile header_space s)))"

text \<open>
  \<open>header\<close> is the \<open>Retry-After\<close> header as a string, when present and valid text.
  \<open>parse_http_date\<close> is the parser of the \<open>httpdate\<close> crate, which gives the instant in
  nanoseconds; \<open>now_ns\<close> is the clock. A date in the past counts as zero seconds.
\<close>

definition parse_retry_after :: "(string \<Rightarrow> int option) \<Rightarrow> int \<Rightarrow> string option \<Rightarrow> u64 option" where
  "parse_retry_after parse_http_date now_ns header =
     do {
       raw \<leftarrow> header;
       let s = header_trim raw;
       case parse_u64 s of
         Some n \<Rightarrow> Some n
       | None \<Rightarrow> do {
           date \<leftarrow> parse_http_date s;
           Some (if now_ns \<le> date then nat ((date - now_ns) div 1000000000) else 0)
         }
     }"

definition is_5xx :: "nat \<Rightarrow> bool" where
  "is_5xx st = (500 \<le> st \<and> st < 600)"

definition class_by_http_status :: "nat \<Rightarrow> StatusClass" where
  "class_by_http_status st =
     (if st = 401 \<or> st = 403 then Auth
      else if st = 429 then RateLimit
      else if st = 408 then Timeout
      else if st = HTTP_OVERLOADED then Overloaded
      else if 500 \<le> st \<and> st < 600 then ServerError
      else if 400 \<le> st \<and> st < 500 then ClientError
      else ClientError)"

text \<open>
  The whole normaliser. \<open>Inl\<close> of the first two steps is the early return of the source;
  \<open>Inr\<close> carries what the step leaves for the next one.
\<close>

definition normalize_by_code ::
  "RawUpstreamError \<Rightarrow> (string \<rightharpoonup> string) \<Rightarrow> string list \<Rightarrow>
     (CanonicalSignal + string option) \<times> string list" where
  "normalize_by_code raw error_map seen =
     (case provider_code raw of
        None \<Rightarrow> (Inr None, seen)
      | Some code \<Rightarrow>
          let mapped = error_map code;
              early = (case mapped of
                         None \<Rightarrow> None
                       | Some m \<Rightarrow>
                           (case status_class_from_str m of
                              None \<Rightarrow> None
                            | Some cls \<Rightarrow>
                                if \<not> (cls = ContextLength \<and> is_5xx (http_status raw)) then Some cls else None));
              seen' = (case mapped of
                         None \<Rightarrow> seen
                       | Some m \<Rightarrow>
                           (if status_class_from_str m = None
                            then warn_unrecognized_error_map_value seen m else seen))
          in (case early of
                Some cls \<Rightarrow>
                  (Inl \<lparr>signal_class = cls, provider_signal = Some code, retry_after = retry_after_secs raw\<rparr>, seen')
              | None \<Rightarrow>
                  if code = PROVIDER_CODE_CONTEXT_LENGTH \<and> (http_status raw = 400 \<or> http_status raw = 413)
                  then (Inl \<lparr>signal_class = ContextLength, provider_signal = Some code,
                             retry_after = retry_after_secs raw\<rparr>, seen')
                  else (Inr (Some code), seen')))"

definition normalize_by_type ::
  "RawUpstreamError \<Rightarrow> (string \<rightharpoonup> string) \<Rightarrow> string option \<Rightarrow> string list \<Rightarrow>
     CanonicalSignal option \<times> string list" where
  "normalize_by_type raw error_map psig seen =
     (case structured_type raw of
        None \<Rightarrow> (None, seen)
      | Some ty \<Rightarrow>
          let mapped = error_map ty;
              cls = Option.bind mapped status_class_from_str;
              seen' = (case mapped of
                         None \<Rightarrow> seen
                       | Some m \<Rightarrow>
                           (if status_class_from_str m = None
                            then warn_unrecognized_error_map_value seen m else seen))
          in (case cls of
                None \<Rightarrow> (None, seen')
              | Some c \<Rightarrow>
                  (if \<not> (c = ContextLength \<and> is_5xx (http_status raw))
                   then (Some \<lparr>signal_class = c,
                               provider_signal = (case psig of None \<Rightarrow> Some ty | Some p \<Rightarrow> Some p),
                               retry_after = retry_after_secs raw\<rparr>, seen')
                   else (None, seen'))))"

definition normalize_raw_error ::
  "RawUpstreamError \<Rightarrow> (string \<rightharpoonup> string) \<Rightarrow> string list \<Rightarrow> CanonicalSignal \<times> string list" where
  "normalize_raw_error raw error_map seen =
     (case normalize_by_code raw error_map seen of
        (Inl sig, seen1) \<Rightarrow> (sig, seen1)
      | (Inr psig, seen1) \<Rightarrow>
          (case normalize_by_type raw error_map psig seen1 of
             (Some sig, seen2) \<Rightarrow> (sig, seen2)
           | (None, seen2) \<Rightarrow>
               (\<lparr>signal_class = class_by_http_status (http_status raw), provider_signal = psig,
                 retry_after = retry_after_secs raw\<rparr>, seen2)))"

section \<open>Lemmas\<close>

text \<open>The class the operator's map gives a code or a type, with the 5xx guard applied.\<close>

definition effective_class :: "(string \<rightharpoonup> string) \<Rightarrow> nat \<Rightarrow> string option \<Rightarrow> StatusClass option" where
  "effective_class error_map st key =
     (case Option.bind (Option.bind key error_map) status_class_from_str of
        None \<Rightarrow> None
      | Some c \<Rightarrow> if c = ContextLength \<and> is_5xx st then None else Some c)"

lemma class_by_http_status_5xx:
  "is_5xx st \<Longrightarrow> class_by_http_status st = (if st = 529 then Overloaded else ServerError)"
  by (auto simp: is_5xx_def class_by_http_status_def HTTP_OVERLOADED_def)

lemma parse_digits_bound: "acc \<le> u64_max \<Longrightarrow> parse_digits acc s = Some n \<Longrightarrow> n \<le> u64_max"
  by (induction acc s rule: parse_digits.induct) (auto split: option.splits if_splits)

lemma parse_u64_bound: "parse_u64 s = Some n \<Longrightarrow> n \<le> u64_max"
  using parse_digits_bound [of 0] by (auto simp: parse_u64_def Let_def simp del: parse_digits.simps split: if_splits)

lemma fst_normalize_by_code:
  "fst (normalize_by_code raw m seen) =
     (case effective_class m (http_status raw) (provider_code raw) of
        Some c \<Rightarrow> Inl \<lparr>signal_class = c, provider_signal = provider_code raw, retry_after = retry_after_secs raw\<rparr>
      | None \<Rightarrow>
          if provider_code raw = Some PROVIDER_CODE_CONTEXT_LENGTH \<and> http_status raw \<in> {400, 413}
          then Inl \<lparr>signal_class = ContextLength, provider_signal = provider_code raw,
                     retry_after = retry_after_secs raw\<rparr>
          else Inr (provider_code raw))"
  by (simp add: normalize_by_code_def effective_class_def Let_def split: option.split)

lemma fst_normalize_by_type:
  "fst (normalize_by_type raw m psig seen) =
     map_option (\<lambda>c. \<lparr>signal_class = c,
        provider_signal = (case psig of None \<Rightarrow> structured_type raw | Some p \<Rightarrow> Some p),
        retry_after = retry_after_secs raw\<rparr>)
       (effective_class m (http_status raw) (structured_type raw))"
  by (simp add: normalize_by_type_def effective_class_def Let_def split: option.split)

lemma fst_normalize_raw_error:
  "fst (normalize_raw_error raw m seen) =
     (case fst (normalize_by_code raw m seen) of
        Inl sig \<Rightarrow> sig
      | Inr psig \<Rightarrow>
          (case fst (normalize_by_type raw m psig (snd (normalize_by_code raw m seen))) of
             Some sig \<Rightarrow> sig
           | None \<Rightarrow> \<lparr>signal_class = class_by_http_status (http_status raw), provider_signal = psig,
                       retry_after = retry_after_secs raw\<rparr>))"
  by (simp add: normalize_raw_error_def split: prod.split sum.split option.split)

lemmas fst_normalize = fst_normalize_raw_error fst_normalize_by_code fst_normalize_by_type

lemma normalize_retry_after: "retry_after (fst (normalize_raw_error raw m seen)) = retry_after_secs raw"
  unfolding fst_normalize
  by (cases "effective_class m (http_status raw) (provider_code raw)";
      cases "effective_class m (http_status raw) (structured_type raw)") auto

lemma effective_class_5xx: "is_5xx st \<Longrightarrow> effective_class m st k \<noteq> Some ContextLength"
  by (simp add: effective_class_def split: option.split)

lemma normalize_5xx_not_context_length:
  assumes "is_5xx (http_status raw)"
  shows "signal_class (fst (normalize_raw_error raw m seen)) \<noteq> ContextLength"
proof -
  have "http_status raw \<noteq> 400" "http_status raw \<noteq> 413" using assms by (auto simp: is_5xx_def)
  then show ?thesis
    unfolding fst_normalize
    using effective_class_5xx [OF assms, of m "provider_code raw"]
      effective_class_5xx [OF assms, of m "structured_type raw"] class_by_http_status_5xx [OF assms]
    by (cases "effective_class m (http_status raw) (provider_code raw)";
        cases "effective_class m (http_status raw) (structured_type raw)") auto
qed

lemma effective_class_unmapped: "\<forall>k. m k = None \<Longrightarrow> effective_class m st k = None"
  by (cases k) (simp_all add: effective_class_def)

text \<open>The set of values warned about only grows, and each value is added once.\<close>

lemma warn_seen [simp]: "set seen \<subseteq> set (warn_unrecognized_error_map_value seen v)"
  "distinct seen \<Longrightarrow> distinct (warn_unrecognized_error_map_value seen v)"
  by (auto simp: warn_unrecognized_error_map_value_def)

lemma warn_seen_subsetD [intro]: "x \<in> set seen \<Longrightarrow> x \<in> set (warn_unrecognized_error_map_value seen v)"
  by (auto simp: warn_unrecognized_error_map_value_def)

lemma snd_normalize_by_code:
  "snd (normalize_by_code raw m seen) = seen \<or>
   (\<exists>v. snd (normalize_by_code raw m seen) = warn_unrecognized_error_map_value seen v)"
  by (simp add: normalize_by_code_def Let_def split: option.split) blast

lemma snd_normalize_by_type:
  "snd (normalize_by_type raw m psig seen) = seen \<or>
   (\<exists>v. snd (normalize_by_type raw m psig seen) = warn_unrecognized_error_map_value seen v)"
  by (simp add: normalize_by_type_def Let_def split: option.split) blast

lemma normalize_seen:
  "set seen \<subseteq> set (snd (normalize_raw_error raw m seen))"
  "distinct seen \<Longrightarrow> distinct (snd (normalize_raw_error raw m seen))"
proof -
  define s1 where "s1 = snd (normalize_by_code raw m seen)"
  have s1: "set seen \<subseteq> set s1" "distinct seen \<Longrightarrow> distinct s1"
    using snd_normalize_by_code [of raw m seen] unfolding s1_def by (auto simp: warn_seen)
  have s2: "set s1 \<subseteq> set (snd (normalize_by_type raw m psig s1))"
    "distinct s1 \<Longrightarrow> distinct (snd (normalize_by_type raw m psig s1))" for psig
    using snd_normalize_by_type [of raw m psig s1] by (auto simp: warn_seen)
  have eq: "snd (normalize_raw_error raw m seen) =
      (case fst (normalize_by_code raw m seen) of
         Inl _ \<Rightarrow> s1 | Inr psig \<Rightarrow> snd (normalize_by_type raw m psig s1))"
    by (simp add: normalize_raw_error_def s1_def split: prod.split sum.split option.split)
  show "set seen \<subseteq> set (snd (normalize_raw_error raw m seen))"
    unfolding eq using s1(1) s2(1) by (auto split: sum.split)
  show "distinct seen \<Longrightarrow> distinct (snd (normalize_raw_error raw m seen))"
    unfolding eq using s1(2) s2(2) by (auto split: sum.split)
qed

section \<open>Properties\<close>

text \<open>
  C33: an upstream failure reported with a 5xx status is never classified as the no-penalty
  context-length disposition, whatever the provider code, the structured type and the
  operator's \<open>error_map\<close> say; and a 5xx the operator has not mapped is always transient.
\<close>

theorem outage_is_never_context_length:
  assumes "is_5xx (http_status raw)"
  shows "classify (fst (normalize_raw_error raw error_map seen)) \<noteq> ContextLengthDisp
       \<and> ((\<forall>k. error_map k = None) \<longrightarrow>
            classify (fst (normalize_raw_error raw error_map seen)) = TransientUpstream)"
proof
  show "classify (fst (normalize_raw_error raw error_map seen)) \<noteq> ContextLengthDisp"
    using normalize_5xx_not_context_length [OF assms, of error_map seen]
    by (simp split: StatusClass.splits)
  show "(\<forall>k. error_map k = None) \<longrightarrow>
         classify (fst (normalize_raw_error raw error_map seen)) = TransientUpstream"
    using assms class_by_http_status_5xx [OF assms]
    by (auto simp: fst_normalize effective_class_unmapped is_5xx_def)
qed

theorem outage_is_never_context_length_witness:
  "classify (fst (normalize_raw_error
      \<lparr>http_status = 503, provider_code = Some ''1234'', structured_type = None, retry_after_secs = None\<rparr>
      [''1234'' \<mapsto> ''context_length''] [])) \<noteq> ContextLengthDisp
   \<and> classify (fst (normalize_raw_error
      \<lparr>http_status = 503, provider_code = Some ''context_length_exceeded'', structured_type = None,
        retry_after_secs = None\<rparr> Map.empty [])) = TransientUpstream"
proof
  show "classify (fst (normalize_raw_error
      \<lparr>http_status = 503, provider_code = Some ''1234'', structured_type = None, retry_after_secs = None\<rparr>
      [''1234'' \<mapsto> ''context_length''] [])) \<noteq> ContextLengthDisp"
    by (rule outage_is_never_context_length [THEN conjunct1]) (simp add: is_5xx_def)
  show "classify (fst (normalize_raw_error
      \<lparr>http_status = 503, provider_code = Some ''context_length_exceeded'', structured_type = None,
        retry_after_secs = None\<rparr> Map.empty [])) = TransientUpstream"
    by (rule outage_is_never_context_length [THEN conjunct2, rule_format]) (simp_all add: is_5xx_def)
qed

text \<open>
  The precedence of the normaliser. A provider code the operator mapped to a known class
  decides the class (context length on a 5xx apart); otherwise the built-in context-length
  code decides on 400 and 413 only; otherwise a mapped structured type decides; otherwise the
  HTTP status does. The upstream's \<open>Retry-After\<close> is passed on unchanged in every case.
\<close>

lemma normalize_precedence:
  "signal_class (fst (normalize_raw_error raw error_map seen)) =
     (case effective_class error_map (http_status raw) (provider_code raw) of
        Some c \<Rightarrow> c
      | None \<Rightarrow>
          if provider_code raw = Some PROVIDER_CODE_CONTEXT_LENGTH \<and> http_status raw \<in> {400, 413}
          then ContextLength
          else case effective_class error_map (http_status raw) (structured_type raw) of
                 Some c \<Rightarrow> c
               | None \<Rightarrow> class_by_http_status (http_status raw))
   \<and> retry_after (fst (normalize_raw_error raw error_map seen)) = retry_after_secs raw"
proof (rule conjI [OF _ normalize_retry_after])
  show "signal_class (fst (normalize_raw_error raw error_map seen)) =
     (case effective_class error_map (http_status raw) (provider_code raw) of
        Some c \<Rightarrow> c
      | None \<Rightarrow>
          if provider_code raw = Some PROVIDER_CODE_CONTEXT_LENGTH \<and> http_status raw \<in> {400, 413}
          then ContextLength
          else case effective_class error_map (http_status raw) (structured_type raw) of
                 Some c \<Rightarrow> c
               | None \<Rightarrow> class_by_http_status (http_status raw))"
    unfolding fst_normalize_raw_error fst_normalize_by_code fst_normalize_by_type
    by (cases "effective_class error_map (http_status raw) (provider_code raw)";
        cases "effective_class error_map (http_status raw) (structured_type raw)") auto
qed

end
