(* ===== verification/Breaker_Cell.thy ===== *)
theory Breaker_Cell
  imports Busbar_Prelude
begin

text \<open>
  One circuit-breaker cell: \<open>src/crates/busbar/src/store/in_memory/breaker.rs\<close> with the
  breaker configuration of \<open>store/in_memory/mod.rs\<close> and the state encoding of
  \<open>store/mod.rs\<close>. A \<open>BreakerCell\<close> is a record of its atomics; the source runs the same
  functions on a \<open>LaneState\<close> through the trait \<open>BreakerCellAccess\<close>, and the lane store
  keeps such a record inside each lane for that reason. Each function that changes the
  state-cooldown pair runs under the cell's transition lock, so it is one definition here,
  from the cell before to the cell after. A panic (the assertion of \<open>Ord::clamp\<close> in the
  cooldown computation) is \<open>None\<close>.
\<close>

unbundle bit_operations_syntax

section \<open>State encoding and configuration\<close>

definition ST_CLOSED :: nat where "ST_CLOSED = 0"
definition ST_OPEN :: nat where "ST_OPEN = 1"
definition ST_HALF_OPEN :: nat where "ST_HALF_OPEN = 2"

lemmas st_defs = ST_CLOSED_def ST_OPEN_def ST_HALF_OPEN_def

lemma st_distinct [simp]:
  "ST_CLOSED \<noteq> ST_OPEN" "ST_OPEN \<noteq> ST_CLOSED" "ST_CLOSED \<noteq> ST_HALF_OPEN"
  "ST_HALF_OPEN \<noteq> ST_CLOSED" "ST_OPEN \<noteq> ST_HALF_OPEN" "ST_HALF_OPEN \<noteq> ST_OPEN"
  by (simp_all add: st_defs)

definition restored_breaker_state :: "nat \<Rightarrow> nat" where
  "restored_breaker_state st = (if st = ST_HALF_OPEN then ST_OPEN else st)"

definition OUTCOME_WINDOW_CAPACITY :: nat where
  "OUTCOME_WINDOW_CAPACITY = 1024"

datatype TripMode = ErrorRate | Consecutive

record TripConfig =
  trip_mode :: TripMode
  window_s :: u64
  threshold :: rat
  min_requests :: usize
  consecutive_n :: u32

definition default_TripConfig :: TripConfig where
  "default_TripConfig = \<lparr>trip_mode = ErrorRate, window_s = 30, threshold = 1 / 2,
     min_requests = 5, consecutive_n = 3\<rparr>"

record BreakerCfg =
  base_cooldown_secs :: u64
  max_cooldown_secs :: u64
  honor_retry_after :: bool
  trip :: TripConfig

definition default_BreakerCfg :: BreakerCfg where
  "default_BreakerCfg = \<lparr>base_cooldown_secs = 15, max_cooldown_secs = 120,
     honor_retry_after = True, trip = default_TripConfig\<rparr>"

section \<open>The sliding window of outcomes\<close>

record OutcomeWindow =
  entries :: "(u64 \<times> bool) list"
  capacity :: usize

definition window_new :: "usize \<Rightarrow> OutcomeWindow" where
  "window_new cap = \<lparr>entries = [], capacity = cap\<rparr>"

definition window_push :: "OutcomeWindow \<Rightarrow> u64 \<Rightarrow> bool \<Rightarrow> OutcomeWindow" where
  "window_push w ts is_error =
     w\<lparr>entries := (if length (entries w) \<ge> capacity w then tl (entries w) else entries w) @ [(ts, is_error)]\<rparr>"

definition count_in_window :: "OutcomeWindow \<Rightarrow> u64 \<Rightarrow> u64 \<Rightarrow> nat" where
  "count_in_window w now win =
     length (filter (\<lambda>(ts, _). ts \<ge> saturating_sub now win) (entries w))"

definition error_count_in_window :: "OutcomeWindow \<Rightarrow> u64 \<Rightarrow> u64 \<Rightarrow> nat" where
  "error_count_in_window w now win =
     length (filter (\<lambda>(ts, is_error). ts \<ge> saturating_sub now win \<and> is_error) (entries w))"

definition window_clear :: "OutcomeWindow \<Rightarrow> OutcomeWindow" where
  "window_clear w = w\<lparr>entries := []\<rparr>"

section \<open>The cell\<close>

record BreakerCell =
  breaker_state :: nat
  streak :: u32
  cooldown_until :: u64
  probe_in_flight :: bool
  probe_epoch :: u64
  err :: u64
  outcome_window :: OutcomeWindow
  current_weight :: i64

definition cell_new :: BreakerCell where
  "cell_new = \<lparr>breaker_state = ST_CLOSED, streak = 0, cooldown_until = 0, probe_in_flight = False,
     probe_epoch = 0, err = 0, outcome_window = window_new OUTCOME_WINDOW_CAPACITY, current_weight = 0\<rparr>"

datatype BreakerVerdict = VReady | VOpen (v_until: u64) | VHalfOpen | VProbeWinnable

datatype BreakerState = BClosed | BOpen (b_until: u64) | BHalfOpen

definition breaker_verdict :: "BreakerCell \<Rightarrow> u64 \<Rightarrow> BreakerVerdict" where
  [cell_defs]: "breaker_verdict c now =
     (if breaker_state c = ST_CLOSED then
        (if now \<ge> cooldown_until c then VReady else VOpen (cooldown_until c))
      else if breaker_state c = ST_OPEN then
        (if now \<ge> cooldown_until c then VProbeWinnable else VOpen (cooldown_until c))
      else if breaker_state c = ST_HALF_OPEN then VHalfOpen
      else VOpen u64_max)"

definition cell_ready_breaker :: "BreakerCell \<Rightarrow> u64 \<Rightarrow> bool" where
  [cell_defs]: "cell_ready_breaker c now =
     (case breaker_verdict c now of VReady \<Rightarrow> True | VProbeWinnable \<Rightarrow> True | _ \<Rightarrow> False)"

definition cell_breaker_state :: "BreakerCell \<Rightarrow> BreakerState" where
  "cell_breaker_state c =
     (if breaker_state c = ST_CLOSED then BClosed
      else if breaker_state c = ST_OPEN then BOpen (cooldown_until c)
      else if breaker_state c = ST_HALF_OPEN then BHalfOpen
      else BClosed)"

definition should_trip :: "BreakerCell \<Rightarrow> u64 \<Rightarrow> BreakerCfg \<Rightarrow> bool" where
  "should_trip c now cfg =
     (case trip_mode (trip cfg) of
        ErrorRate \<Rightarrow>
          (let count = count_in_window (outcome_window c) now (window_s (trip cfg)) in
           if count < min_requests (trip cfg) then False
           else let errors = error_count_in_window (outcome_window c) now (window_s (trip cfg))
                in f64_div errors count \<ge> threshold (trip cfg))
      | Consecutive \<Rightarrow> streak c \<ge> consecutive_n (trip cfg))"

text \<open>
  The jitter seed mixes the clock, the address of the cell and the streak with the FNV step
  on \<open>u128\<close>. Clock and address come from the environment.
\<close>

record jitter_env =
  time_seed :: nat
  cell_id :: nat

definition FNV1A_OFFSET_BASIS :: nat where "FNV1A_OFFSET_BASIS = 14695981039346656037"
definition FNV1A_PRIME :: nat where "FNV1A_PRIME = 1099511628211"

definition jitter_seed :: "jitter_env \<Rightarrow> u32 \<Rightarrow> nat" where
  "jitter_seed env st =
     foldl (\<lambda>seed part. ((seed XOR part) * FNV1A_PRIME) mod 2 ^ 128) FNV1A_OFFSET_BASIS
       [time_seed env, cell_id env, st]"

definition backoff_secs :: "BreakerCell \<Rightarrow> BreakerCfg \<Rightarrow> u64" where
  "backoff_secs c cfg =
     (if streak c = 0 then base_cooldown_secs cfg
      else let shift = min (streak c) 63;
               shifted = base_cooldown_secs cfg * 2 ^ shift
           in min (if shifted \<le> u64_max then shifted else u64_max) (max_cooldown_secs cfg))"

definition jittered_secs :: "jitter_env \<Rightarrow> u32 \<Rightarrow> u64 \<Rightarrow> u64" where
  "jittered_secs env st duration =
     (let jitter_range = max (duration div 10) 1;
          span = 2 * jitter_range + 1;
          unbiased = jitter_seed env st mod span;
          jitter = int unbiased - int jitter_range
      in if jitter \<ge> 0 then saturating_add duration (nat jitter)
         else saturating_sub duration (nat (- jitter)))"

definition compute_cooldown_with_retry_after ::
  "jitter_env \<Rightarrow> BreakerCell \<Rightarrow> BreakerCfg \<Rightarrow> u64 option \<Rightarrow> u64 \<Rightarrow> u64 option" where
  "compute_cooldown_with_retry_after env c cfg ra max_honored =
     do {
       let duration = backoff_secs c cfg;
       clamped \<leftarrow> clamp (jittered_secs env (streak c) duration) (max (duration div 2) 1) (max_cooldown_secs cfg);
       Some (case (honor_retry_after cfg, ra) of
               (True, Some r) \<Rightarrow> max clamped (min r max_honored)
             | (False, Some _) \<Rightarrow> clamped
             | (_, None) \<Rightarrow> clamped)
     }"

definition cell_open_locked ::
  "jitter_env \<Rightarrow> BreakerCell \<Rightarrow> u64 \<Rightarrow> BreakerCfg \<Rightarrow> u64 option \<Rightarrow> u64 \<Rightarrow> BreakerCell option" where
  "cell_open_locked env c now cfg ra max_honored =
     do {
       duration \<leftarrow> compute_cooldown_with_retry_after env c cfg ra max_honored;
       Some (c\<lparr>cooldown_until := saturating_add now duration, breaker_state := ST_OPEN,
               probe_in_flight := False\<rparr>)
     }"

definition cell_closed_locked :: "BreakerCell \<Rightarrow> BreakerCell" where
  [cell_defs]: "cell_closed_locked c =
     c\<lparr>streak := 0, outcome_window := window_clear (outcome_window c), cooldown_until := 0,
       breaker_state := ST_CLOSED, probe_in_flight := False\<rparr>"

definition cell_closed_if_recoverable :: "BreakerCell \<Rightarrow> u64 \<Rightarrow> u64 \<Rightarrow> BreakerCell \<times> bool" where
  [cell_defs]: "cell_closed_if_recoverable c now observed_cooldown =
     (if cooldown_until c > observed_cooldown then (c, False)
      else let suppressed = (breaker_state c \<noteq> ST_CLOSED \<or> cooldown_until c > now)
           in (if suppressed then cell_closed_locked c else c, suppressed))"

definition cell_release_probe :: "BreakerCell \<Rightarrow> BreakerCell" where
  [cell_defs]: "cell_release_probe c =
     (if breaker_state c = ST_HALF_OPEN then c\<lparr>breaker_state := ST_OPEN\<rparr> else c)\<lparr>probe_in_flight := False\<rparr>"

definition cell_release_probe_owned :: "BreakerCell \<Rightarrow> u64 \<Rightarrow> BreakerCell" where
  [cell_defs]: "cell_release_probe_owned c owned_epoch =
     (if probe_epoch c \<noteq> owned_epoch then c
      else (if breaker_state c = ST_HALF_OPEN then c\<lparr>breaker_state := ST_OPEN\<rparr> else c)\<lparr>probe_in_flight := False\<rparr>)"

definition cell_acquire_breaker :: "BreakerCell \<Rightarrow> u64 \<Rightarrow> BreakerCell \<times> bool" where
  [cell_defs]: "cell_acquire_breaker c now =
     (if breaker_state c = ST_CLOSED then (c, now \<ge> cooldown_until c)
      else if breaker_state c = ST_OPEN then
        (if now \<ge> cooldown_until c
         then (c\<lparr>breaker_state := ST_HALF_OPEN, probe_epoch := wrap_u64 (probe_epoch c + 1),
                 probe_in_flight := True\<rparr>, True)
         else (c, False))
      else (c, False))"

definition cell_record_failure ::
  "jitter_env \<Rightarrow> BreakerCell \<Rightarrow> u64 \<Rightarrow> BreakerCfg \<Rightarrow> u64 option \<Rightarrow> u64 \<Rightarrow> (BreakerCell \<times> bool) option" where
  "cell_record_failure env c now cfg ra max_honored =
     (let c1 = c\<lparr>outcome_window := window_push (outcome_window c) now True, err := wrap_u64 (err c + 1)\<rparr> in
      if breaker_state c1 = ST_CLOSED then
        (let c2 = c1\<lparr>streak := wrap_u32 (streak c1 + 1)\<rparr> in
         if should_trip c2 now cfg
         then do { c3 \<leftarrow> cell_open_locked env c2 now cfg ra max_honored; Some (c3, True) }
         else do {
           duration \<leftarrow> compute_cooldown_with_retry_after env c2 cfg ra max_honored;
           Some (c2\<lparr>cooldown_until := saturating_add now duration\<rparr>, False) })
      else if breaker_state c1 = ST_HALF_OPEN then
        (let c2 = c1\<lparr>streak := wrap_u32 (streak c1 + 1)\<rparr> in
         do { c3 \<leftarrow> cell_open_locked env c2 now cfg ra max_honored; Some (c3, False) })
      else Some (c1, False))"

definition cell_record_success :: "BreakerCell \<Rightarrow> u64 \<Rightarrow> BreakerCell \<times> bool" where
  [cell_defs]: "cell_record_success c now =
     (let c1 = (if breaker_state c \<noteq> ST_OPEN then c\<lparr>streak := 0\<rparr> else c);
          c2 = c1\<lparr>outcome_window := window_push (outcome_window c1) now False\<rparr>
      in if breaker_state c2 = ST_HALF_OPEN then (cell_closed_locked c2, True) else (c2, False))"

text \<open>
  The trip of a hard-down fault, which \<open>record_hard_down_for\<close> and
  \<open>record_hard_down_all_cells\<close> perform on a cell under its lock.
\<close>

definition cell_hard_down :: "BreakerCell \<Rightarrow> u64 \<Rightarrow> u64 \<Rightarrow> BreakerCell" where
  [cell_defs]: "cell_hard_down c now hard_down_secs =
     c\<lparr>cooldown_until := saturating_add now hard_down_secs, breaker_state := ST_OPEN,
       probe_in_flight := False\<rparr>"

section \<open>Window lemmas\<close>

lemma length_window_push:
  "0 < capacity w \<Longrightarrow> length (entries w) \<le> capacity w \<Longrightarrow>
   length (entries (window_push w ts b)) = min (length (entries w) + 1) (capacity w)"
  by (cases "entries w") (auto simp: window_push_def)

lemma capacity_window_push [simp]: "capacity (window_push w ts b) = capacity w"
  by (simp add: window_push_def)

lemma window_clear_simps [simp]: "entries (window_clear w) = []" "capacity (window_clear w) = capacity w"
  by (simp_all add: window_clear_def)

lemma error_count_le_count: "error_count_in_window w now win \<le> count_in_window w now win"
proof -
  have "length (filter (\<lambda>(ts, e). ts \<ge> a \<and> e) xs) \<le> length (filter (\<lambda>(ts, _). ts \<ge> a) xs)"
    for a :: nat and xs :: "(nat \<times> bool) list"
    by (induction xs) auto
  then show ?thesis by (simp add: error_count_in_window_def count_in_window_def)
qed

lemma count_in_window_le: "count_in_window w now win \<le> length (entries w)"
  by (simp add: count_in_window_def)

section \<open>Cooldown lemmas\<close>

text \<open>What the configuration validator guarantees of a breaker block.\<close>

definition cooldown_cfg_ok :: "BreakerCfg \<Rightarrow> bool" where
  "cooldown_cfg_ok cfg \<longleftrightarrow>
     1 \<le> base_cooldown_secs cfg \<and> base_cooldown_secs cfg \<le> max_cooldown_secs cfg \<and> max_cooldown_secs cfg \<le> u64_max"

lemma backoff_le_max: "cooldown_cfg_ok cfg \<Longrightarrow> backoff_secs c cfg \<le> max_cooldown_secs cfg"
  by (auto simp: backoff_secs_def cooldown_cfg_ok_def Let_def)

lemma backoff_ge_1: "cooldown_cfg_ok cfg \<Longrightarrow> 1 \<le> backoff_secs c cfg"
  by (auto simp: backoff_secs_def cooldown_cfg_ok_def Let_def u64_max_def Suc_le_eq)

text \<open>The shift saturates: up to 63 the backoff is the exact doubling, cut at the maximum.\<close>

lemma backoff_exact:
  assumes "streak c \<noteq> 0" and "max_cooldown_secs cfg \<le> u64_max"
  shows "backoff_secs c cfg = min (base_cooldown_secs cfg * 2 ^ min (streak c) 63) (max_cooldown_secs cfg)"
  using assms by (simp add: backoff_secs_def Let_def min_def)

text \<open>A doubling past the 63rd cannot matter: the maximum is below \<open>2 ^ 64\<close> already.\<close>

lemma backoff_doubling:
  assumes "cooldown_cfg_ok cfg" and "0 < streak c"
  shows "backoff_secs c cfg =
    (if streak c \<le> 63 then min (base_cooldown_secs cfg * 2 ^ streak c) (max_cooldown_secs cfg)
     else min (base_cooldown_secs cfg * 2 ^ 63) (max_cooldown_secs cfg))"
  using assms by (simp add: backoff_exact cooldown_cfg_ok_def min_def)

lemma jittered_bounds:
  assumes "d \<le> u64_max"
  shows "d - max (d div 10) 1 \<le> jittered_secs env st d \<and> jittered_secs env st d \<le> d + max (d div 10) 1"
proof -
  define r where "r = max (d div 10) 1"
  define u where "u = jitter_seed env st mod (2 * r + 1)"
  have u: "u \<le> 2 * r" unfolding u_def using mod_less_divisor [of "2 * r + 1" "jitter_seed env st"] by linarith
  have "jittered_secs env st d =
      (if int u - int r \<ge> 0 then saturating_add d (nat (int u - int r))
       else saturating_sub d (nat (- (int u - int r))))"
    unfolding jittered_secs_def Let_def r_def u_def by (rule refl)
  also have "\<dots> = (if r \<le> u then saturating_add d (u - r) else d - (r - u))"
    by (auto simp: saturating_sub_def nat_diff_distrib)
  finally have "jittered_secs env st d = (if r \<le> u then saturating_add d (u - r) else d - (r - u))" .
  moreover have "d \<le> saturating_add d (u - r)" "saturating_add d (u - r) \<le> d + (u - r)"
    using assms by (auto simp: saturating_add_def)
  ultimately show ?thesis using u unfolding r_def [symmetric] by auto
qed

lemma compute_cooldown_Some_iff:
  "(\<exists>d. compute_cooldown_with_retry_after env c cfg ra mh = Some d) \<longleftrightarrow>
   max (backoff_secs c cfg div 2) 1 \<le> max_cooldown_secs cfg"
  by (auto simp: compute_cooldown_with_retry_after_def Let_def clamp_def bind_eq_Some_conv)

lemma compute_cooldown_total:
  "cooldown_cfg_ok cfg \<Longrightarrow> \<exists>d. compute_cooldown_with_retry_after env c cfg ra mh = Some d"
  using backoff_le_max [of cfg c] unfolding compute_cooldown_Some_iff
  by (auto simp: cooldown_cfg_ok_def)

lemma compute_cooldown_bounds:
  assumes "compute_cooldown_with_retry_after env c cfg ra mh = Some d"
  shows "max (backoff_secs c cfg div 2) 1 \<le> d" and "d \<le> max (max_cooldown_secs cfg) mh"
    and "honor_retry_after cfg \<Longrightarrow> ra = Some r \<Longrightarrow> min r mh \<le> d"
    and "\<not> honor_retry_after cfg \<or> ra = None \<Longrightarrow> d \<le> max_cooldown_secs cfg"
  using assms
  by (auto simp: compute_cooldown_with_retry_after_def Let_def bind_eq_Some_conv
      dest!: clamp_bounds split: bool.splits option.splits)

section \<open>The invariant of a cell\<close>

definition cell_wf :: "BreakerCell \<Rightarrow> bool" where
  "cell_wf c \<longleftrightarrow>
     breaker_state c \<in> {ST_CLOSED, ST_OPEN, ST_HALF_OPEN}
   \<and> (probe_in_flight c \<longleftrightarrow> breaker_state c = ST_HALF_OPEN)
   \<and> capacity (outcome_window c) = OUTCOME_WINDOW_CAPACITY
   \<and> length (entries (outcome_window c)) \<le> OUTCOME_WINDOW_CAPACITY
   \<and> streak c \<le> u32_max \<and> cooldown_until c \<le> u64_max
   \<and> probe_epoch c \<le> u64_max \<and> err c \<le> u64_max"

lemma window_push_wf:
  "capacity w = OUTCOME_WINDOW_CAPACITY \<Longrightarrow> length (entries w) \<le> OUTCOME_WINDOW_CAPACITY \<Longrightarrow>
   length (entries (window_push w ts b)) \<le> OUTCOME_WINDOW_CAPACITY"
  by (simp add: length_window_push OUTCOME_WINDOW_CAPACITY_def)

lemma cell_wf_new [simp]: "cell_wf cell_new"
  by (simp add: cell_wf_def cell_new_def window_new_def)

lemma cell_wf_open_locked:
  "cell_wf c \<Longrightarrow> cell_open_locked env c now cfg ra mh = Some c' \<Longrightarrow> cell_wf c'"
  by (auto simp: cell_open_locked_def cell_wf_def bind_eq_Some_conv)

lemma cell_wf_closed_locked:
  "capacity (outcome_window c) = OUTCOME_WINDOW_CAPACITY \<Longrightarrow> probe_epoch c \<le> u64_max \<Longrightarrow>
   err c \<le> u64_max \<Longrightarrow> cell_wf (cell_closed_locked c)"
  by (simp add: cell_closed_locked_def cell_wf_def)

lemma cell_wf_push_err:
  "cell_wf c \<Longrightarrow> cell_wf (c\<lparr>outcome_window := window_push (outcome_window c) now b, err := wrap_u64 e\<rparr>)"
  by (simp add: cell_wf_def window_push_wf)

lemma cell_wf_streak: "cell_wf c \<Longrightarrow> cell_wf (c\<lparr>streak := wrap_u32 n\<rparr>)"
  by (simp add: cell_wf_def)

lemma cell_wf_cooldown: "cell_wf c \<Longrightarrow> cell_wf (c\<lparr>cooldown_until := saturating_add a b\<rparr>)"
  by (simp add: cell_wf_def)

lemma cell_wf_record_failure:
  assumes "cell_wf c" and "cell_record_failure env c now cfg ra mh = Some (c', t)"
  shows "cell_wf c'"
  using assms
  by (auto simp: cell_record_failure_def Let_def bind_eq_Some_conv split: if_splits
      intro!: cell_wf_cooldown cell_wf_streak cell_wf_push_err
      dest!: cell_wf_open_locked [rotated])

lemma cell_wf_record_success: "cell_wf c \<Longrightarrow> cell_wf (fst (cell_record_success c now))"
  by (auto simp: cell_record_success_def Let_def cell_wf_def window_push_wf cell_closed_locked_def)

lemma cell_wf_acquire: "cell_wf c \<Longrightarrow> cell_wf (fst (cell_acquire_breaker c now))"
  by (auto simp: cell_acquire_breaker_def cell_wf_def)

lemma cell_wf_release: "cell_wf c \<Longrightarrow> cell_wf (cell_release_probe c)"
  by (auto simp: cell_release_probe_def cell_wf_def)

lemma cell_wf_release_owned: "cell_wf c \<Longrightarrow> cell_wf (cell_release_probe_owned c e)"
  by (auto simp: cell_release_probe_owned_def cell_wf_def)

lemma cell_wf_recoverable: "cell_wf c \<Longrightarrow> cell_wf (fst (cell_closed_if_recoverable c now obs))"
  by (auto simp: cell_closed_if_recoverable_def Let_def cell_wf_def cell_closed_locked_def)

lemma cell_wf_hard_down: "cell_wf c \<Longrightarrow> cell_wf (cell_hard_down c now secs)"
  by (simp add: cell_hard_down_def cell_wf_def)

lemma cell_wf_weight [simp]: "cell_wf (c\<lparr>current_weight := x\<rparr>) = cell_wf c"
  by (simp add: cell_wf_def)

lemmas cell_wf_intros =
  cell_wf_record_success cell_wf_acquire cell_wf_release cell_wf_release_owned
  cell_wf_recoverable cell_wf_hard_down

lemma cell_record_failure_total:
  assumes "cooldown_cfg_ok cfg"
  shows "\<exists>c' t. cell_record_failure env c now cfg ra mh = Some (c', t)"
  using compute_cooldown_total [OF assms]
  by (fastforce simp: cell_record_failure_def Let_def cell_open_locked_def bind_eq_Some_conv)

lemma failure_state:
  assumes "cell_wf c" and "cell_record_failure env c now cfg ra mh = Some (c', t)"
  shows "breaker_state c' = (if breaker_state c = ST_CLOSED \<and> \<not> t then ST_CLOSED else ST_OPEN)"
    and "t \<Longrightarrow> breaker_state c = ST_CLOSED"
  using assms
  by (auto simp: cell_record_failure_def cell_open_locked_def Let_def bind_eq_Some_conv cell_wf_def
      split: if_splits)

end
