(* ===== verification/Cell_Machine.thy ===== *)
theory Cell_Machine
  imports Breaker_Cell
begin

text \<open>
  A breaker cell under concurrent use. Every critical section of a cell runs under its
  transition lock, so an execution is a sequence of the operations of \<open>Breaker_Cell\<close> in some
  order, with arguments (clocks, observed cooldowns, owner tokens) that may be stale: the
  step relation \<open>cell_step\<close> allows any of them at any time. The lemmas show the invariant of
  reachable cells, the single-flight discipline of the recovery probe, that a stale owner
  token cannot disturb a newer probe, that no cell is benched for good, and that the cell
  refines the three-state machine of the design record \<open>docs/adr/0002-circuit-breaker.md\<close>.
\<close>

section \<open>Steps\<close>

datatype cell_event =
    Acquire u64
  | RecordFailure jitter_env u64 BreakerCfg "u64 option"
  | RecordSuccess u64
  | CellHardDown u64
  | RecoverClose u64 u64
  | ReleaseProbe
  | ReleaseProbeOwned u64
  | AddWeight i64
  | ResetWeight

inductive cell_step :: "u64 \<Rightarrow> u64 \<Rightarrow> BreakerCell \<Rightarrow> cell_event \<Rightarrow> BreakerCell \<Rightarrow> bool"
  for max_honored hard_down_secs where
  acquire: "cell_step max_honored hard_down_secs c (Acquire now) (fst (cell_acquire_breaker c now))"
| failure: "cell_record_failure env c now cfg ra max_honored = Some (c', t) \<Longrightarrow>
    cell_step max_honored hard_down_secs c (RecordFailure env now cfg ra) c'"
| success: "cell_step max_honored hard_down_secs c (RecordSuccess now) (fst (cell_record_success c now))"
| hard_down: "cell_step max_honored hard_down_secs c (CellHardDown now) (cell_hard_down c now hard_down_secs)"
| recover: "cell_step max_honored hard_down_secs c (RecoverClose now observed)
    (fst (cell_closed_if_recoverable c now observed))"
| release: "cell_step max_honored hard_down_secs c ReleaseProbe (cell_release_probe c)"
| release_owned: "cell_step max_honored hard_down_secs c (ReleaseProbeOwned e) (cell_release_probe_owned c e)"
| add_weight: "cell_step max_honored hard_down_secs c (AddWeight w)
    (c\<lparr>current_weight := wrap_i64 (current_weight c + w)\<rparr>)"
| reset_weight: "cell_step max_honored hard_down_secs c ResetWeight (c\<lparr>current_weight := 0\<rparr>)"

inductive_cases cell_step_cases [elim!]: "cell_step mh hds c e c'"

lemma cell_step_wf: "cell_wf c \<Longrightarrow> cell_step mh hds c e c' \<Longrightarrow> cell_wf c'"
  by (auto intro: cell_wf_intros cell_wf_record_failure)

interpretation cell_sys: invariant_system "\<lambda>c. c = cell_new" "cell_step mh hds" cell_wf
  by unfold_locales (simp, rule cell_step_wf)

text \<open>The cells any interleaving of operations can produce from a new cell.\<close>

lemma cell_reach_new: "reach (\<lambda>c. c = cell_new) (cell_step mh hds) cell_new"
  by (rule reach_init) (rule refl)

lemma cell_reach_step:
  "reach (\<lambda>c. c = cell_new) (cell_step mh hds) c \<Longrightarrow> cell_step mh hds c e d \<Longrightarrow>
   reach (\<lambda>c. c = cell_new) (cell_step mh hds) d"
  by (rule reach_step)

section \<open>The single-flight probe\<close>

text \<open>The events that settle the probe with owner token \<open>ep\<close>.\<close>

fun settles :: "u64 \<Rightarrow> cell_event \<Rightarrow> bool" where
  "settles ep (RecordFailure _ _ _ _) = True"
| "settles ep (RecordSuccess _) = True"
| "settles ep (CellHardDown _) = True"
| "settles ep (RecoverClose _ _) = True"
| "settles ep ReleaseProbe = True"
| "settles ep (ReleaseProbeOwned e) = (e = ep)"
| "settles ep (Acquire _) = False"
| "settles ep (AddWeight _) = False"
| "settles ep ResetWeight = False"

definition probing :: "u64 \<Rightarrow> BreakerCell \<Rightarrow> bool" where
  "probing ep c \<longleftrightarrow> breaker_state c = ST_HALF_OPEN \<and> probe_epoch c = ep \<and> probe_in_flight c"

lemma probing_step:
  "probing ep c \<Longrightarrow> cell_step mh hds c e c' \<Longrightarrow> \<not> settles ep e \<Longrightarrow> probing ep c'"
  by (auto simp: probing_def cell_acquire_breaker_def cell_release_probe_owned_def)

lemma half_open_acquire_fails: "breaker_state c = ST_HALF_OPEN \<Longrightarrow> cell_acquire_breaker c now = (c, False)"
  by (simp add: cell_acquire_breaker_def)

lemma acquire_iff_ready: "snd (cell_acquire_breaker c now) \<longleftrightarrow> cell_ready_breaker c now"
  by (simp add: cell_acquire_breaker_def cell_ready_breaker_def breaker_verdict_def)

section \<open>Owner tokens\<close>

definition wins_probe :: "BreakerCell \<Rightarrow> cell_event \<Rightarrow> bool" where
  "wins_probe c e \<longleftrightarrow>
     (case e of Acquire now \<Rightarrow> breaker_state c = ST_OPEN \<and> snd (cell_acquire_breaker c now) | _ \<Rightarrow> False)"

inductive probe_wins :: "u64 \<Rightarrow> u64 \<Rightarrow> BreakerCell \<Rightarrow> cell_event list \<Rightarrow> nat \<Rightarrow> BreakerCell \<Rightarrow> bool"
  for mh hds where
  wins_nil: "probe_wins mh hds c [] 0 c"
| wins_snoc: "probe_wins mh hds c es n d \<Longrightarrow> cell_step mh hds d e d' \<Longrightarrow>
    probe_wins mh hds c (es @ [e]) (n + (if wins_probe d e then 1 else 0)) d'"

lemma probe_epoch_failure:
  "cell_record_failure env c now cfg ra mh = Some (c', t) \<Longrightarrow> probe_epoch c' = probe_epoch c"
  by (auto simp: cell_record_failure_def cell_open_locked_def Let_def bind_eq_Some_conv split: if_splits)

lemma probe_epoch_step:
  "cell_step mh hds c e c' \<Longrightarrow>
   probe_epoch c' = (if wins_probe c e then wrap_u64 (probe_epoch c + 1) else probe_epoch c)"
  by (auto simp: wins_probe_def cell_acquire_breaker_def cell_record_success_def cell_closed_locked_def
      cell_closed_if_recoverable_def cell_release_probe_def cell_release_probe_owned_def Let_def
      cell_hard_down_def probe_epoch_failure)

lemma wrap_u64_Suc: "wrap_u64 (wrap_u64 n + 1) = wrap_u64 (n + 1)"
  by (simp add: wrap_u64_def mod_Suc_eq)

lemma probe_epoch_counts_wins:
  "probe_wins mh hds c es n d \<Longrightarrow> probe_epoch c \<le> u64_max \<Longrightarrow> probe_epoch d = wrap_u64 (probe_epoch c + n)"
proof (induction rule: probe_wins.induct)
  case (wins_nil c)
  then show ?case by (simp add: wrap_u64_exact)
next
  case (wins_snoc c es n d e d')
  then show ?case using probe_epoch_step [OF wins_snoc.hyps(2)] wrap_u64_Suc by simp
qed

lemma wrap_u64_neq: "e \<le> u64_max \<Longrightarrow> 0 < n \<Longrightarrow> n \<le> u64_max \<Longrightarrow> wrap_u64 (e + n) \<noteq> e"
proof -
  assume e: "e \<le> u64_max" and n: "0 < n" "n \<le> u64_max"
  have "wrap_u64 (e + n) = (if e + n \<le> u64_max then e + n else e + n - 18446744073709551616)"
    using e n by (simp add: wrap_u64_def u64_max_def mod_if)
  then show ?thesis using n by (auto simp: u64_max_def)
qed

lemma stale_owner_is_noop:
  assumes "probe_wins mh hds c es n d" and "probe_epoch c \<le> u64_max" and "0 < n" and "n \<le> u64_max"
  shows "cell_release_probe_owned d (probe_epoch c) = d"
  using probe_epoch_counts_wins [OF assms(1,2)] wrap_u64_neq [OF assms(2-4)]
  by (simp add: cell_release_probe_owned_def)

section \<open>The three-state machine\<close>

text \<open>
  The abstract breaker: closed, open, half open, with the transitions the design record
  allows for each kind of event.
\<close>

datatype fsm = FClosed | FOpen | FHalfOpen

datatype fsm_event = EAcquire | EFailure | ESuccess | EHardDown | ERecover | ERelease | EWeight

inductive fsm_step :: "fsm \<Rightarrow> fsm_event \<Rightarrow> fsm \<Rightarrow> bool" where
  fsm_acquire_skip: "fsm_step s EAcquire s"
| fsm_acquire_probe: "fsm_step FOpen EAcquire FHalfOpen"
| fsm_failure_below: "fsm_step FClosed EFailure FClosed"
| fsm_failure_trip: "fsm_step FClosed EFailure FOpen"
| fsm_failure_open: "fsm_step FOpen EFailure FOpen"
| fsm_failure_reopen: "fsm_step FHalfOpen EFailure FOpen"
| fsm_success_closed: "fsm_step FClosed ESuccess FClosed"
| fsm_success_open: "fsm_step FOpen ESuccess FOpen"
| fsm_success_recover: "fsm_step FHalfOpen ESuccess FClosed"
| fsm_hard_down: "fsm_step s EHardDown FOpen"
| fsm_recover_skip: "fsm_step s ERecover s"
| fsm_recover_close: "fsm_step s ERecover FClosed"
| fsm_release_skip: "fsm_step s ERelease s"
| fsm_release_probe: "fsm_step FHalfOpen ERelease FOpen"
| fsm_weight: "fsm_step s EWeight s"

inductive_simps fsm_step_simps [simp]:
  "fsm_step s EAcquire t" "fsm_step s EFailure t" "fsm_step s ESuccess t" "fsm_step s EHardDown t"
  "fsm_step s ERecover t" "fsm_step s ERelease t" "fsm_step s EWeight t"

definition abs_cell :: "BreakerCell \<Rightarrow> fsm" where
  "abs_cell c = (if breaker_state c = ST_CLOSED then FClosed
     else if breaker_state c = ST_OPEN then FOpen else FHalfOpen)"

fun abs_event :: "cell_event \<Rightarrow> fsm_event" where
  "abs_event (Acquire _) = EAcquire"
| "abs_event (RecordFailure _ _ _ _) = EFailure"
| "abs_event (RecordSuccess _) = ESuccess"
| "abs_event (CellHardDown _) = EHardDown"
| "abs_event (RecoverClose _ _) = ERecover"
| "abs_event ReleaseProbe = ERelease"
| "abs_event (ReleaseProbeOwned _) = ERelease"
| "abs_event (AddWeight _) = EWeight"
| "abs_event ResetWeight = EWeight"

lemma abs_step:
  assumes "cell_wf c" and "cell_step mh hds c e c'"
  shows "fsm_step (abs_cell c) (abs_event e) (abs_cell c')"
  using assms(2)
proof (cases rule: cell_step.cases)
  case (failure env now cfg ra t)
  then show ?thesis
    using failure_state [OF assms(1) failure(2)] by (auto simp: abs_cell_def)
qed (use assms(1) in \<open>auto simp: abs_cell_def cell_wf_def cell_acquire_breaker_def cell_record_success_def
      cell_closed_locked_def cell_hard_down_def cell_closed_if_recoverable_def cell_release_probe_def
      cell_release_probe_owned_def Let_def\<close>)

section \<open>Properties\<close>

text \<open>
  C39: in every cell that any interleaving of the cell operations can produce, the state
  encoding is one of the three legal values, a probe is in flight exactly when the cell is
  half open, the outcome window never exceeds its capacity of 1024 and the counters stay in
  the range of their types.
\<close>

theorem reachable_cell_invariant:
  assumes "reach (\<lambda>c. c = cell_new) (cell_step max_honored hard_down_secs) c"
  shows "breaker_state c \<in> {ST_CLOSED, ST_OPEN, ST_HALF_OPEN}
       \<and> (probe_in_flight c \<longleftrightarrow> breaker_state c = ST_HALF_OPEN)
       \<and> length (entries (outcome_window c)) \<le> 1024
       \<and> cooldown_until c \<le> u64_max \<and> streak c \<le> u32_max \<and> probe_epoch c \<le> u64_max"
  using cell_sys.reach_inv [OF assms] by (simp add: cell_wf_def OUTCOME_WINDOW_CAPACITY_def)

theorem reachable_cell_invariant_witness:
  "length (entries (outcome_window (fst (cell_record_success cell_new 7)))) \<le> 1024"
proof -
  have "reach (\<lambda>c. c = cell_new) (cell_step 86400 1800) (fst (cell_record_success cell_new 7))"
    by (rule cell_reach_step [OF cell_reach_new cell_step.success])
  from reachable_cell_invariant [OF this] show ?thesis by simp
qed

lemma probing_trace:
  assumes "trace (cell_step mh hds) c es d" and "cell_wf c" and "probing ep c" and "list_all (\<lambda>e. \<not> settles ep e) es"
  shows "probing ep d"
  by (rule cell_sys.trace_stable [where P = "probing ep" and harmless = "\<lambda>e. \<not> settles ep e", OF assms(1-3) _ assms(4)])
    (rule probing_step)

text \<open>
  C1: the recovery probe is single flight. From a cell whose probe is in flight, whatever
  other callers do (attempt to acquire, release a token that is not the owner's, move weights)
  the cell stays half open with the same owner token and every further acquisition fails,
  until an outcome, a recovery or the owner's release settles the probe.
\<close>

theorem probe_single_flight:
  assumes "trace (cell_step max_honored hard_down_secs) c es d" and "cell_wf c"
    and "breaker_state c = ST_HALF_OPEN" and "\<forall>e \<in> set es. \<not> settles (probe_epoch c) e"
  shows "breaker_state d = ST_HALF_OPEN \<and> probe_epoch d = probe_epoch c \<and> probe_in_flight d
       \<and> (\<forall>now. cell_acquire_breaker d now = (d, False))"
  using probing_trace [OF assms(1,2)] assms(2-4) by (simp add: probing_def cell_wf_def half_open_acquire_fails list_all_iff)

theorem probe_single_flight_witness:
  "breaker_state (fst (cell_acquire_breaker (fst (cell_acquire_breaker
      (cell_new\<lparr>breaker_state := ST_OPEN, cooldown_until := 5\<rparr>) 9)) 10)) = ST_HALF_OPEN"
proof -
  let ?c = "fst (cell_acquire_breaker (cell_new\<lparr>breaker_state := ST_OPEN, cooldown_until := 5\<rparr>) 9)"
  have half: "breaker_state ?c = ST_HALF_OPEN" by (simp add: cell_acquire_breaker_def)
  have wf: "cell_wf ?c"
    by (rule cell_wf_acquire) (simp add: cell_wf_def cell_new_def window_new_def u64_max_def)
  have "trace (cell_step 86400 1800) ?c [Acquire 10] (fst (cell_acquire_breaker ?c 10))"
    by (rule trace_single) (rule cell_step.acquire)
  from probe_single_flight [OF this wf half] show ?thesis by simp
qed

text \<open>
  A late release cannot revert a newer probe. If at least one probe (and fewer than
  \<open>2 ^ 64\<close>) was won on a cell since a caller captured its owner token, releasing with that
  token leaves the cell unchanged.
\<close>

lemma stale_release_cannot_revert:
  assumes "probe_wins max_honored hard_down_secs c es n d" and "cell_wf c" and "0 < n" and "n \<le> u64_max"
  shows "cell_release_probe_owned d (probe_epoch c) = d"
  using stale_owner_is_noop [OF assms(1) _ assms(3,4)] assms(2) by (simp add: cell_wf_def)

text \<open>
  No cell is benched for good. Once the owner of a probe in flight has released it, and
  the clock has passed the cell's cooldown, the next acquisition succeeds; and for a cell
  without a probe in flight the clock alone is enough.
\<close>

lemma cell_never_benched:
  assumes "reach (\<lambda>c. c = cell_new) (cell_step max_honored hard_down_secs) c"
    and "cooldown_until c \<le> now"
  shows "snd (cell_acquire_breaker (cell_release_probe_owned c (probe_epoch c)) now)
       \<and> (\<not> probe_in_flight c \<longrightarrow> snd (cell_acquire_breaker c now))"
  using cell_sys.reach_inv [OF assms(1)] assms(2)
  by (auto simp: cell_wf_def cell_acquire_breaker_def cell_release_probe_owned_def)

text \<open>
  C38: the cell refines the three-state breaker. Every operation, seen through the state
  encoding, is a transition the design allows for that kind of event: only an acquisition
  opens the half-open window, only a success of the half-open probe or an out-of-band
  recovery closes, a failure of the probe reopens, a hard-down always opens.
\<close>

theorem cell_refines_fsm:
  assumes "reach (\<lambda>c. c = cell_new) (cell_step max_honored hard_down_secs) c"
    and "cell_step max_honored hard_down_secs c e c'"
  shows "fsm_step (abs_cell c) (abs_event e) (abs_cell c')"
  by (rule abs_step [OF cell_sys.reach_inv [OF assms(1)] assms(2)])

theorem cell_refines_fsm_witness:
  "fsm_step (abs_cell cell_new) EHardDown (abs_cell (cell_hard_down cell_new 100 1800))"
  using cell_refines_fsm [OF cell_reach_new cell_step.hard_down [of 86400 1800 cell_new 100]]
  by simp

end
