(* ===== verification/Breaker_Config.thy ===== *)
theory Breaker_Config
  imports Breaker_Cell
begin

text \<open>
  The parsed breaker block of a pool (\<open>BreakerCfg\<close>, \<open>BreakerTripConfig\<close> and their defaults in
  \<open>src/crates/busbar/src/config/mod.rs\<close>), its conversion to the runtime configuration
  (\<open>From<&config::BreakerCfg>\<close> in \<open>store/in_memory/mod.rs\<close>) and the validator's rule 6
  (\<open>config_validate/mod.rs\<close>). The lemmas show that a configuration the validator accepts
  makes every breaker operation panic free, bound the cooldowns, and say exactly when a
  failure trips a cell.
\<close>

section \<open>Parsed configuration\<close>

datatype BreakerTripMode = CfgErrorRate | CfgConsecutive

text \<open>A threshold is the rational a finite \<open>f64\<close> denotes.\<close>

record BreakerTripConfig =
  cfg_mode :: BreakerTripMode
  cfg_window_secs :: u64
  cfg_threshold :: rat
  cfg_min_requests :: usize
  cfg_consecutive_n :: u32

record ParsedBreakerCfg =
  cfg_base_cooldown_secs :: u64
  cfg_max_cooldown_secs :: u64
  cfg_trip :: "BreakerTripConfig option"

text \<open>What the parser fills in for a \<open>trip\<close> block that omits every field.\<close>

definition serde_default_trip :: BreakerTripConfig where
  "serde_default_trip = \<lparr>cfg_mode = CfgErrorRate, cfg_window_secs = 30, cfg_threshold = 1 / 2,
     cfg_min_requests = 5, cfg_consecutive_n = 3\<rparr>"

text \<open>The derived \<open>Default\<close> instance: the default mode and zero in every number.\<close>

definition derived_default_trip :: BreakerTripConfig where
  "derived_default_trip = \<lparr>cfg_mode = CfgErrorRate, cfg_window_secs = 0, cfg_threshold = 0,
     cfg_min_requests = 0, cfg_consecutive_n = 0\<rparr>"

definition parsed_BreakerCfg_default :: ParsedBreakerCfg where
  "parsed_BreakerCfg_default = \<lparr>cfg_base_cooldown_secs = 15, cfg_max_cooldown_secs = 120,
     cfg_trip = Some derived_default_trip\<rparr>"

fun from_trip_mode :: "BreakerTripMode \<Rightarrow> TripMode" where
  "from_trip_mode CfgErrorRate = ErrorRate"
| "from_trip_mode CfgConsecutive = Consecutive"

definition breaker_cfg_from :: "ParsedBreakerCfg \<Rightarrow> BreakerCfg" where
  "breaker_cfg_from c =
     \<lparr>base_cooldown_secs = cfg_base_cooldown_secs c, max_cooldown_secs = cfg_max_cooldown_secs c,
      honor_retry_after = True,
      trip = (case cfg_trip c of
                None \<Rightarrow> default_TripConfig
              | Some t \<Rightarrow> \<lparr>trip_mode = from_trip_mode (cfg_mode t), window_s = cfg_window_secs t,
                          threshold = cfg_threshold t, min_requests = cfg_min_requests t,
                          consecutive_n = cfg_consecutive_n t\<rparr>)\<rparr>"

section \<open>Validation, rule 6\<close>

datatype breaker_cfg_error =
    ZeroBaseCooldown | ZeroMaxCooldown | MaxBelowBase | ZeroMinRequests | ZeroWindow
  | ThresholdOutOfRange | ZeroConsecutive

definition validate_trip :: "BreakerTripConfig \<Rightarrow> breaker_cfg_error list" where
  "validate_trip t =
     (if cfg_min_requests t = 0 then [ZeroMinRequests] else [])
   @ (if cfg_window_secs t = 0 then [ZeroWindow] else [])
   @ (case cfg_mode t of
        CfgErrorRate \<Rightarrow> (if \<not> (cfg_threshold t > 0 \<and> cfg_threshold t \<le> 1) then [ThresholdOutOfRange] else [])
      | CfgConsecutive \<Rightarrow> (if cfg_consecutive_n t = 0 then [ZeroConsecutive] else []))"

definition validate_breaker :: "ParsedBreakerCfg \<Rightarrow> breaker_cfg_error list" where
  "validate_breaker b =
     (if cfg_base_cooldown_secs b = 0 then [ZeroBaseCooldown] else [])
   @ (if cfg_max_cooldown_secs b = 0 then [ZeroMaxCooldown] else [])
   @ (if cfg_max_cooldown_secs b < cfg_base_cooldown_secs b then [MaxBelowBase] else [])
   @ (case cfg_trip b of None \<Rightarrow> [] | Some t \<Rightarrow> validate_trip t)"

text \<open>The numbers a parsed block can hold: the fields are \<open>u64\<close>.\<close>

definition parsed_in_range :: "ParsedBreakerCfg \<Rightarrow> bool" where
  "parsed_in_range b \<longleftrightarrow> cfg_base_cooldown_secs b \<le> u64_max \<and> cfg_max_cooldown_secs b \<le> u64_max"

section \<open>Lemmas\<close>

lemma validate_breaker_ok:
  assumes "validate_breaker b = []" and "parsed_in_range b"
  shows "cooldown_cfg_ok (breaker_cfg_from b)"
  using assms
  by (auto simp: validate_breaker_def cooldown_cfg_ok_def breaker_cfg_from_def parsed_in_range_def
      split: if_splits)

lemma breaker_cfg_from_simps [simp]:
  "base_cooldown_secs (breaker_cfg_from b) = cfg_base_cooldown_secs b"
  "max_cooldown_secs (breaker_cfg_from b) = cfg_max_cooldown_secs b"
  "honor_retry_after (breaker_cfg_from b)"
  by (simp_all add: breaker_cfg_from_def)

lemma should_trip_half:
  assumes "length (entries (outcome_window c)) \<le> 1024"
    and "trip_mode (trip cfg) = ErrorRate" and "threshold (trip cfg) = 1 / 2" and "0 < min_requests (trip cfg)"
  shows "should_trip c now cfg \<longleftrightarrow>
    min_requests (trip cfg) \<le> count_in_window (outcome_window c) now (window_s (trip cfg))
    \<and> count_in_window (outcome_window c) now (window_s (trip cfg))
        \<le> 2 * error_count_in_window (outcome_window c) now (window_s (trip cfg))"
proof -
  let ?n = "count_in_window (outcome_window c) now (window_s (trip cfg))"
  let ?e = "error_count_in_window (outcome_window c) now (window_s (trip cfg))"
  have le: "?e \<le> ?n" by (rule error_count_le_count)
  have "?n \<le> 1024" using count_in_window_le [of "outcome_window c"] assms(1) by (rule order_trans)
  then have "1 / 2 \<le> f64_div ?e ?n \<longleftrightarrow> ?n \<le> 2 * ?e" if "0 < ?n"
    using f64_div_half_iff [OF le that] by simp
  then show ?thesis using assms(2-4) by (auto simp: should_trip_def Let_def)
qed

lemma record_failure_closed:
  assumes "breaker_state c = ST_CLOSED" and "cell_record_failure env c now cfg ra mh = Some (c', t)"
  shows "t \<longleftrightarrow> should_trip
      (c\<lparr>outcome_window := window_push (outcome_window c) now True, err := wrap_u64 (err c + 1),
         streak := wrap_u32 (streak c + 1)\<rparr>) now cfg"
  using assms by (auto simp: cell_record_failure_def Let_def bind_eq_Some_conv split: if_splits)

lemma record_failure_open:
  assumes "breaker_state c = ST_OPEN"
  shows "cell_record_failure env c now cfg ra mh =
    Some (c\<lparr>outcome_window := window_push (outcome_window c) now True, err := wrap_u64 (err c + 1)\<rparr>, False)"
  using assms by (simp add: cell_record_failure_def)

text \<open>When a failure arms a cooldown, it is the computed one, counted from now.\<close>

lemma record_failure_arms:
  assumes "breaker_state c = ST_CLOSED \<or> breaker_state c = ST_HALF_OPEN"
    and "cell_record_failure env c now cfg ra mh = Some (c', t)"
  shows "\<exists>d. compute_cooldown_with_retry_after env
       (c\<lparr>outcome_window := window_push (outcome_window c) now True, err := wrap_u64 (err c + 1),
          streak := wrap_u32 (streak c + 1)\<rparr>) cfg ra mh = Some d
     \<and> cooldown_until c' = saturating_add now d"
  using assms
  by (auto simp: cell_record_failure_def cell_open_locked_def Let_def bind_eq_Some_conv split: if_splits)

section \<open>Properties\<close>

text \<open>
  C34: a breaker configuration the validator accepts never makes the cooldown computation
  panic, and the cooldown it computes is at least one second, at least half the escalated
  backoff, at least the upstream's \<open>Retry-After\<close> up to the honoured ceiling, and at most the
  larger of the configured maximum and that ceiling.
\<close>

theorem validated_cooldown_bounds:
  assumes "validate_breaker b = []" and "parsed_in_range b"
  shows "\<exists>d. compute_cooldown_with_retry_after env c (breaker_cfg_from b) ra max_honored = Some d
       \<and> 1 \<le> d \<and> backoff_secs c (breaker_cfg_from b) div 2 \<le> d
       \<and> d \<le> max (cfg_max_cooldown_secs b) max_honored
       \<and> (\<forall>r. ra = Some r \<longrightarrow> min r max_honored \<le> d)
       \<and> (ra = None \<longrightarrow> d \<le> cfg_max_cooldown_secs b)"
proof -
  obtain d where d: "compute_cooldown_with_retry_after env c (breaker_cfg_from b) ra max_honored = Some d"
    using compute_cooldown_total [OF validate_breaker_ok [OF assms]] by blast
  from compute_cooldown_bounds [OF d] d show ?thesis by auto
qed

theorem validated_cooldown_bounds_witness:
  "\<exists>d. compute_cooldown_with_retry_after \<lparr>time_seed = 5, cell_id = 6\<rparr> cell_new
        (breaker_cfg_from \<lparr>cfg_base_cooldown_secs = 1, cfg_max_cooldown_secs = 60, cfg_trip = None\<rparr>)
        (Some 18446744073709551615) 86400 = Some d \<and> 86400 \<le> d \<and> d \<le> 86400"
proof -
  let ?b = "\<lparr>cfg_base_cooldown_secs = 1, cfg_max_cooldown_secs = 60, cfg_trip = None\<rparr>"
  have "validate_breaker ?b = []" and "parsed_in_range ?b"
    by (simp_all add: validate_breaker_def parsed_in_range_def u64_max_def)
  from validated_cooldown_bounds [OF this, of "\<lparr>time_seed = 5, cell_id = 6\<rparr>" cell_new
      "Some 18446744073709551615" 86400]
  show ?thesis by auto
qed

text \<open>
  What a recorded failure does to a cell, on every branch, under a configuration the
  validator accepts: it always returns; it trips (state open, and the result says so) exactly
  when the cell was closed and the trip condition holds of the window and streak with this
  failure counted; a failure of the half-open probe reopens without counting as a trip; and
  whenever the cell was not already open, the new cooldown ends after now and no later than
  now plus the larger of the configured maximum and the honoured ceiling. On an open cell only
  the window and the error counter change.
\<close>

lemma record_failure_behaviour:
  assumes "validate_breaker b = []" and "parsed_in_range b" and "cell_wf c"
    and "now + max (cfg_max_cooldown_secs b) max_honored \<le> u64_max"
  shows "\<exists>c' t. cell_record_failure env c now (breaker_cfg_from b) ra max_honored = Some (c', t)
     \<and> cell_wf c'
     \<and> (t \<longleftrightarrow> breaker_state c = ST_CLOSED \<and> should_trip
          (c\<lparr>outcome_window := window_push (outcome_window c) now True, err := wrap_u64 (err c + 1),
             streak := wrap_u32 (streak c + 1)\<rparr>) now (breaker_cfg_from b))
     \<and> breaker_state c' = (if breaker_state c = ST_CLOSED \<and> \<not> t then ST_CLOSED else ST_OPEN)
     \<and> (if breaker_state c = ST_OPEN
        then c' = c\<lparr>outcome_window := window_push (outcome_window c) now True, err := wrap_u64 (err c + 1)\<rparr>
        else now < cooldown_until c' \<and> cooldown_until c' \<le> now + max (cfg_max_cooldown_secs b) max_honored)"
proof -
  let ?cfg = "breaker_cfg_from b"
  obtain c' t where rec: "cell_record_failure env c now ?cfg ra max_honored = Some (c', t)"
    using cell_record_failure_total [OF validate_breaker_ok [OF assms(1,2)]] by blast
  have arms: "now < cooldown_until c' \<and> cooldown_until c' \<le> now + max (cfg_max_cooldown_secs b) max_honored"
    if "breaker_state c \<noteq> ST_OPEN"
  proof -
    from that assms(3) have "breaker_state c = ST_CLOSED \<or> breaker_state c = ST_HALF_OPEN"
      by (auto simp: cell_wf_def)
    from record_failure_arms [OF this rec] obtain d c2 where
      "compute_cooldown_with_retry_after env c2 ?cfg ra max_honored = Some d"
      and "cooldown_until c' = saturating_add now d" by blast
    then show ?thesis using compute_cooldown_bounds(1,2) [of env c2 ?cfg ra max_honored d] assms(4)
      by simp
  qed
  have state: "breaker_state c' = (if breaker_state c = ST_CLOSED \<and> \<not> t then ST_CLOSED else ST_OPEN)"
    and trip: "t \<Longrightarrow> breaker_state c = ST_CLOSED"
    using failure_state [OF assms(3) rec] by blast+
  show ?thesis
  proof (intro exI conjI)
    show "cell_record_failure env c now ?cfg ra max_honored = Some (c', t)" by (rule rec)
    show "cell_wf c'" by (rule cell_wf_record_failure [OF assms(3) rec])
    show "t \<longleftrightarrow> breaker_state c = ST_CLOSED \<and> should_trip
        (c\<lparr>outcome_window := window_push (outcome_window c) now True, err := wrap_u64 (err c + 1),
           streak := wrap_u32 (streak c + 1)\<rparr>) now ?cfg"
      using trip record_failure_closed [OF _ rec] by blast
    show "breaker_state c' = (if breaker_state c = ST_CLOSED \<and> \<not> t then ST_CLOSED else ST_OPEN)"
      by (rule state)
    show "if breaker_state c = ST_OPEN
        then c' = c\<lparr>outcome_window := window_push (outcome_window c) now True, err := wrap_u64 (err c + 1)\<rparr>
        else now < cooldown_until c' \<and> cooldown_until c' \<le> now + max (cfg_max_cooldown_secs b) max_honored"
    proof (cases "breaker_state c = ST_OPEN")
      case True
      from record_failure_open [OF this] rec True show ?thesis by simp
    qed (use arms in simp)
  qed
qed

text \<open>
  With the default error-rate settings the floating-point trip decision is the exact one:
  the cell trips iff the window holds at least the minimum number of requests and at least half
  of them are errors. No rounding of the quotient can move the decision.
\<close>

lemma default_trip_is_exact:
  assumes "cell_wf c"
  shows "should_trip c now default_BreakerCfg \<longleftrightarrow>
    5 \<le> count_in_window (outcome_window c) now 30
    \<and> count_in_window (outcome_window c) now 30 \<le> 2 * error_count_in_window (outcome_window c) now 30"
  using should_trip_half [of c default_BreakerCfg now] assms
  by (simp add: default_BreakerCfg_def default_TripConfig_def cell_wf_def OUTCOME_WINDOW_CAPACITY_def)

text \<open>
  The breaker block of \<open>BreakerCfg::default()\<close> is not the documented one. Its trip block is
  the derived all-zero default: the validator would reject it three times over, and a cell
  under it trips on the very first failure, where the serde defaults need five requests.
\<close>

lemma parsed_default_trips_on_first_failure:
  "validate_breaker parsed_BreakerCfg_default = [ZeroMinRequests, ZeroWindow, ThresholdOutOfRange]
   \<and> map_option snd (cell_record_failure env cell_new now (breaker_cfg_from parsed_BreakerCfg_default) None mh)
       = Some True
   \<and> map_option snd (cell_record_failure env cell_new now
       (breaker_cfg_from (parsed_BreakerCfg_default\<lparr>cfg_trip := Some serde_default_trip\<rparr>)) None mh)
       = Some False"
proof -
  define c where "c = cell_new\<lparr>outcome_window := window_push (outcome_window cell_new) now True,
      err := wrap_u64 (err cell_new + 1), streak := wrap_u32 (streak cell_new + 1)\<rparr>"
  have count: "count_in_window (outcome_window c) now w = 1" "error_count_in_window (outcome_window c) now w = 1" for w
    by (simp_all add: c_def cell_new_def window_new_def window_push_def count_in_window_def
        error_count_in_window_def saturating_sub_def)
  have "(0::rat) \<le> f64_div 1 1" by (simp add: f64_div_def Let_def)
  then have zero: "should_trip c now (breaker_cfg_from parsed_BreakerCfg_default)"
    by (simp add: should_trip_def breaker_cfg_from_def parsed_BreakerCfg_default_def derived_default_trip_def
        count Let_def)
  have five: "\<not> should_trip c now
      (breaker_cfg_from (parsed_BreakerCfg_default\<lparr>cfg_trip := Some serde_default_trip\<rparr>))"
    by (simp add: should_trip_def breaker_cfg_from_def parsed_BreakerCfg_default_def serde_default_trip_def
        count Let_def)
  have ok: "cooldown_cfg_ok (breaker_cfg_from parsed_BreakerCfg_default)"
    "cooldown_cfg_ok (breaker_cfg_from (parsed_BreakerCfg_default\<lparr>cfg_trip := Some serde_default_trip\<rparr>))"
    by (simp_all add: cooldown_cfg_ok_def parsed_BreakerCfg_default_def u64_max_def)
  have closed: "breaker_state cell_new = ST_CLOSED" by (simp add: cell_new_def)
  show ?thesis
    using cell_record_failure_total [OF ok(1), of env cell_new now None mh]
      cell_record_failure_total [OF ok(2), of env cell_new now None mh]
      record_failure_closed [OF closed] zero five
    by (auto simp: c_def validate_breaker_def validate_trip_def parsed_BreakerCfg_default_def
        derived_default_trip_def)
qed

end
