(* ===== verification/Lane_Store.thy ===== *)
theory Lane_Store
  imports Breaker_Cell
begin

text \<open>
  The lane store \<open>HealthState\<close> of \<open>src/crates/busbar/src/store/in_memory/mod.rs\<close>: the lanes
  with their lane-global state, the lazily created per-pool breaker cells and the operations
  that record outcomes, gate admission and keep the lifetime request budget. Every operation
  is a function from the store to the store and its result; \<open>None\<close> is a panic (an index past
  the lane vector, or the assertion in the cooldown computation). The clock is an argument,
  and one operation is one step: the interleaving of the critical sections of a single cell
  is the subject of \<open>Cell_Machine\<close>.

  The concurrency semaphore is code of the \<open>tokio\<close> crate. Its operations are the argument
  \<open>sem_ops\<close>, over any type of semaphores; what the store relies on is \<open>semaphore_laws\<close>.
\<close>

section \<open>Types\<close>

record 'sem sem_ops =
  available_permits_of :: "'sem \<Rightarrow> nat"
  try_acquire_of :: "'sem \<Rightarrow> 'sem option"
  release_of :: "'sem \<Rightarrow> 'sem"

definition semaphore_laws :: "'sem sem_ops \<Rightarrow> bool" where
  "semaphore_laws ops \<longleftrightarrow>
     (\<forall>s. (try_acquire_of ops s = None) = (available_permits_of ops s = 0))
   \<and> (\<forall>s s'. try_acquire_of ops s = Some s' \<longrightarrow>
        available_permits_of ops s = Suc (available_permits_of ops s'))
   \<and> (\<forall>s. available_permits_of ops (release_of ops s) = Suc (available_permits_of ops s))"

text \<open>A counting semaphore has the laws: the number of permits left is the semaphore.\<close>

definition counting_sem :: "nat sem_ops" where
  "counting_sem = \<lparr>available_permits_of = (\<lambda>n. n), try_acquire_of = (\<lambda>n. if n = 0 then None else Some (n - 1)),
     release_of = Suc\<rparr>"

lemma counting_sem_laws: "semaphore_laws counting_sem"
  by (simp add: semaphore_laws_def counting_sem_def)

definition MAX_PERMITS :: nat where
  "MAX_PERMITS = 2305843009213693951"

record 'sem LaneState =
  ls_model :: string
  ls_provider :: string
  ls_max :: usize
  ls_sem :: 'sem
  ls_limited :: bool
  ls_dead :: bool
  ls_budget :: i64
  ls_ok :: u64
  ls_client_fault :: u64
  ls_latency_ewma_bits :: u64
  ls_trips :: u64
  ls_last_trip_at :: u64
  ls_dead_reason :: string
  ls_cell :: BreakerCell

record 'sem HealthState =
  lanes :: "'sem LaneState list"
  pool_cells :: "usize \<rightharpoonup> (string \<times> BreakerCell) list"
  hard_down_cooldown_secs :: u64
  max_honored_retry_after_secs :: u64
  pool_shards :: "(string \<times> usize) list"

record 'sem LaneData =
  ld_model :: string
  ld_provider :: string
  ld_max :: usize
  ld_sem :: 'sem
  ld_limited :: bool
  ld_budget :: i64
  ld_cooldown_until :: u64
  ld_streak :: u32
  ld_dead :: bool
  ld_dead_reason :: string
  ld_ok :: u64
  ld_err :: u64
  ld_client_fault :: u64

datatype Unavailable =
    Dead | BudgetExhausted | BreakerOpen u64 | ProbeInFlight | AtCapacity "u64 option" | Shedding

datatype Permit = Bounded | Unbounded

record Admit =
  admit_permit :: Permit
  admit_probe_epoch :: u64

section \<open>Recovery hints\<close>

definition PROBE_RETRY_FLOOR_MS :: nat where "PROBE_RETRY_FLOOR_MS = 250"
definition SHED_RETRY_FLOOR_MS :: nat where "SHED_RETRY_FLOOR_MS = 1000"
definition AT_CAPACITY_RECOVERY_FLOOR_MS :: nat where "AT_CAPACITY_RECOVERY_FLOOR_MS = 2000"

fun recovery_hint_ms :: "Unavailable \<Rightarrow> u64 \<Rightarrow> u64 option" where
  "recovery_hint_ms Dead now = None"
| "recovery_hint_ms BudgetExhausted now = None"
| "recovery_hint_ms (BreakerOpen until) now = Some (saturating_mul (saturating_sub until now) 1000)"
| "recovery_hint_ms ProbeInFlight now = Some PROBE_RETRY_FLOOR_MS"
| "recovery_hint_ms (AtCapacity drain) now =
     Some (case drain of None \<Rightarrow> AT_CAPACITY_RECOVERY_FLOOR_MS | Some d \<Rightarrow> d)"
| "recovery_hint_ms Shedding now = Some SHED_RETRY_FLOOR_MS"

fun variant_name :: "Unavailable \<Rightarrow> string" where
  "variant_name Dead = ''dead''"
| "variant_name BudgetExhausted = ''budget_exhausted''"
| "variant_name (BreakerOpen _) = ''breaker_open''"
| "variant_name ProbeInFlight = ''probe_in_flight''"
| "variant_name (AtCapacity _) = ''at_capacity''"
| "variant_name Shedding = ''shedding''"

section \<open>Construction and access\<close>

definition lane_of_data :: "'sem LaneData \<Rightarrow> 'sem LaneState" where
  "lane_of_data ld =
     \<lparr>ls_model = ld_model ld, ls_provider = ld_provider ld, ls_max = ld_max ld, ls_sem = ld_sem ld,
      ls_limited = ld_limited ld, ls_dead = ld_dead ld, ls_budget = ld_budget ld, ls_ok = ld_ok ld,
      ls_client_fault = ld_client_fault ld, ls_latency_ewma_bits = 0, ls_trips = 0, ls_last_trip_at = 0,
      ls_dead_reason = ld_dead_reason ld,
      ls_cell = cell_new\<lparr>cooldown_until := ld_cooldown_until ld, streak := ld_streak ld, err := ld_err ld\<rparr>\<rparr>"

definition new_with_limits :: "'sem LaneData list \<Rightarrow> u64 \<Rightarrow> u64 \<Rightarrow> 'sem HealthState" where
  "new_with_limits lds hard_down max_honored =
     \<lparr>lanes = map lane_of_data lds, pool_cells = Map.empty, hard_down_cooldown_secs = hard_down,
      max_honored_retry_after_secs = max_honored, pool_shards = []\<rparr>"

definition get_lane :: "'sem HealthState \<Rightarrow> usize \<Rightarrow> 'sem LaneState option" where
  [store_defs]: "get_lane h lane = (if lane < length (lanes h) then Some (lanes h ! lane) else None)"

definition put_lane :: "'sem HealthState \<Rightarrow> usize \<Rightarrow> 'sem LaneState \<Rightarrow> 'sem HealthState" where
  [store_defs]: "put_lane h lane ls = h\<lparr>lanes := (lanes h)[lane := ls]\<rparr>"

definition lane_cells :: "'sem HealthState \<Rightarrow> usize \<Rightarrow> (string \<times> BreakerCell) list" where
  [store_defs]: "lane_cells h lane = (case pool_cells h lane of None \<Rightarrow> [] | Some cs \<Rightarrow> cs)"

definition inherited_cell :: "'sem LaneState \<Rightarrow> BreakerCell" where
  "inherited_cell ls =
     cell_new\<lparr>breaker_state := (if breaker_state (ls_cell ls) = ST_HALF_OPEN then ST_OPEN
                               else breaker_state (ls_cell ls)),
              cooldown_until := cooldown_until (ls_cell ls), streak := streak (ls_cell ls)\<rparr>"

definition cell_of :: "'sem HealthState \<Rightarrow> string \<Rightarrow> usize \<Rightarrow> ('sem HealthState \<times> BreakerCell) option" where
  "cell_of h pool lane =
     (if pool = [] then do { ls \<leftarrow> get_lane h lane; Some (h, ls_cell ls) }
      else case map_of (lane_cells h lane) pool of
             Some c \<Rightarrow> Some (h, c)
           | None \<Rightarrow> do {
               ls \<leftarrow> get_lane h lane;
               let c = inherited_cell ls;
               Some (h\<lparr>pool_cells := (pool_cells h)(lane \<mapsto> lane_cells h lane @ [(pool, c)])\<rparr>, c) })"

text \<open>Writing through the shared reference that \<open>cell\<close> handed out.\<close>

definition set_pool_cell :: "(string \<times> BreakerCell) list \<Rightarrow> string \<Rightarrow> BreakerCell \<Rightarrow> (string \<times> BreakerCell) list" where
  "set_pool_cell cs pool c = map (\<lambda>(p, x). if p = pool then (p, c) else (p, x)) cs"

definition put_cell :: "'sem HealthState \<Rightarrow> string \<Rightarrow> usize \<Rightarrow> BreakerCell \<Rightarrow> 'sem HealthState" where
  "put_cell h pool lane c =
     (if pool = []
      then h\<lparr>lanes := (lanes h)[lane := (lanes h ! lane)\<lparr>ls_cell := c\<rparr>]\<rparr>
      else h\<lparr>pool_cells := (pool_cells h)(lane := map_option (\<lambda>cs. set_pool_cell cs pool c) (pool_cells h lane))\<rparr>)"

section \<open>SWRR shards\<close>

definition SWRR_SHARDS :: nat where "SWRR_SHARDS = 64"

text \<open>FNV-1a on the bytes of the name, in \<open>u64\<close> arithmetic.\<close>

definition fnv1a_u64 :: "string \<Rightarrow> u64" where
  "fnv1a_u64 s =
     foldl (\<lambda>hash byte. wrap_u64 ((hash XOR of_char byte) * FNV1A_PRIME)) FNV1A_OFFSET_BASIS s"

definition swrr_shard_index :: "string \<Rightarrow> usize" where
  "swrr_shard_index pool = fnv1a_u64 pool AND (SWRR_SHARDS - 1)"

definition swrr_shard :: "'sem HealthState \<Rightarrow> string \<Rightarrow> 'sem HealthState \<times> usize" where
  "swrr_shard h pool =
     (case map_of (pool_shards h) pool of
        Some idx \<Rightarrow> (h, idx)
      | None \<Rightarrow>
          let idx = swrr_shard_index pool in
          (if pool \<in> fst ` set (pool_shards h) then h
           else h\<lparr>pool_shards := pool_shards h @ [(pool, idx)]\<rparr>, idx))"

definition reset_swrr_for :: "'sem HealthState \<Rightarrow> string \<Rightarrow> usize \<Rightarrow> 'sem HealthState option" where
  "reset_swrr_for h pool lane =
     do {
       let h1 = fst (swrr_shard h pool);
       (h2, c) \<leftarrow> cell_of h1 pool lane;
       Some (put_cell h2 pool lane (c\<lparr>current_weight := 0\<rparr>))
     }"

section \<open>Admission gates\<close>

definition lane_admissible :: "'sem HealthState \<Rightarrow> usize \<Rightarrow> bool option" where
  "lane_admissible h lane =
     do {
       ls \<leftarrow> get_lane h lane;
       Some (if ls_dead ls then False else if ls_limited ls \<and> ls_budget ls \<le> 0 then False else True)
     }"

definition usable_for :: "'sem HealthState \<Rightarrow> string \<Rightarrow> usize \<Rightarrow> u64 \<Rightarrow> ('sem HealthState \<times> bool) option" where
  "usable_for h pool lane now =
     do {
       adm \<leftarrow> lane_admissible h lane;
       if \<not> adm then Some (h, False)
       else do {
         (h1, c) \<leftarrow> cell_of h pool lane;
         let (c1, won) = cell_acquire_breaker c now;
         Some (put_cell h1 pool lane c1, won) }
     }"

definition ready_for :: "'sem HealthState \<Rightarrow> string \<Rightarrow> usize \<Rightarrow> u64 \<Rightarrow> ('sem HealthState \<times> bool) option" where
  "ready_for h pool lane now =
     do {
       adm \<leftarrow> lane_admissible h lane;
       if \<not> adm then Some (h, False)
       else do { (h1, c) \<leftarrow> cell_of h pool lane; Some (h1, cell_ready_breaker c now) }
     }"

definition breaker_state_for :: "'sem HealthState \<Rightarrow> string \<Rightarrow> usize \<Rightarrow> ('sem HealthState \<times> BreakerState) option" where
  "breaker_state_for h pool lane =
     do {
       ls \<leftarrow> get_lane h lane;
       if ls_dead ls then Some (h, BOpen u64_max)
       else do { (h1, c) \<leftarrow> cell_of h pool lane; Some (h1, cell_breaker_state c) }
     }"

definition cooldown_remaining_for :: "'sem HealthState \<Rightarrow> string \<Rightarrow> usize \<Rightarrow> u64 \<Rightarrow> ('sem HealthState \<times> u64) option" where
  "cooldown_remaining_for h pool lane now =
     do { (h1, c) \<leftarrow> cell_of h pool lane; Some (h1, saturating_sub (cooldown_until c) now) }"

definition lane_usable_any_cell :: "'sem HealthState \<Rightarrow> usize \<Rightarrow> u64 \<Rightarrow> bool option" where
  "lane_usable_any_cell h lane now =
     do {
       adm \<leftarrow> lane_admissible h lane;
       ls \<leftarrow> get_lane h lane;
       Some (if \<not> adm then False
             else if lane_cells h lane \<noteq> []
                  then list_ex (\<lambda>(_, c). cell_ready_breaker c now) (lane_cells h lane)
                  else cell_ready_breaker (ls_cell ls) now)
     }"

definition lane_max_cooldown_remaining :: "'sem HealthState \<Rightarrow> usize \<Rightarrow> u64 \<Rightarrow> u64 option" where
  "lane_max_cooldown_remaining h lane now =
     do {
       ls \<leftarrow> get_lane h lane;
       Some (foldl (\<lambda>worst (_, c). max worst (saturating_sub (cooldown_until c) now))
               (saturating_sub (cooldown_until (ls_cell ls)) now) (lane_cells h lane))
     }"

definition lane_max_streak :: "'sem HealthState \<Rightarrow> usize \<Rightarrow> u32 option" where
  "lane_max_streak h lane =
     do {
       ls \<leftarrow> get_lane h lane;
       Some (foldl (\<lambda>worst (_, c). max worst (streak c)) (streak (ls_cell ls)) (lane_cells h lane))
     }"

section \<open>Recording outcomes\<close>

definition bump_trips :: "'sem LaneState \<Rightarrow> u64 \<Rightarrow> 'sem LaneState" where
  "bump_trips ls now = ls\<lparr>ls_trips := wrap_u64 (ls_trips ls + 1), ls_last_trip_at := now\<rparr>"

definition record_failure_for ::
  "jitter_env \<Rightarrow> 'sem HealthState \<Rightarrow> string \<Rightarrow> usize \<Rightarrow> u64 \<Rightarrow> BreakerCfg \<Rightarrow> u64 option \<Rightarrow>
     ('sem HealthState \<times> bool) option" where
  "record_failure_for env h pool lane now cfg ra =
     do {
       ls \<leftarrow> get_lane h lane;
       if ls_dead ls then Some (h, False)
       else do {
         (h1, c) \<leftarrow> cell_of h pool lane;
         (c1, tripped) \<leftarrow> cell_record_failure env c now cfg ra (max_honored_retry_after_secs h);
         let h2 = put_cell h1 pool lane c1;
         ls2 \<leftarrow> get_lane h2 lane;
         let ls3 = (if pool \<noteq> [] then ls2\<lparr>ls_cell := (ls_cell ls2)\<lparr>err := wrap_u64 (err (ls_cell ls2) + 1)\<rparr>\<rparr> else ls2);
         let ls4 = (if tripped then bump_trips ls3 now else ls3);
         Some (put_lane h2 lane ls4, tripped) }
     }"

definition record_success_for ::
  "'sem HealthState \<Rightarrow> string \<Rightarrow> usize \<Rightarrow> u64 \<Rightarrow> 'sem HealthState option" where
  "record_success_for h pool lane now =
     do {
       ls \<leftarrow> get_lane h lane;
       if ls_dead ls then Some (put_lane h lane (ls\<lparr>ls_ok := wrap_u64 (ls_ok ls + 1)\<rparr>))
       else do {
         (h1, c) \<leftarrow> cell_of h pool lane;
         let (c1, recovered) = cell_record_success c now;
         let h2 = put_cell h1 pool lane c1;
         h3 \<leftarrow> (if recovered then reset_swrr_for h2 pool lane else Some h2);
         ls3 \<leftarrow> get_lane h3 lane;
         Some (put_lane h3 lane (ls3\<lparr>ls_ok := wrap_u64 (ls_ok ls3 + 1)\<rparr>)) }
     }"

definition record_hard_down_for ::
  "'sem HealthState \<Rightarrow> string \<Rightarrow> usize \<Rightarrow> string \<Rightarrow> u64 \<Rightarrow> 'sem HealthState option" where
  "record_hard_down_for h pool lane reason now =
     do {
       ls \<leftarrow> get_lane h lane;
       let h0 = put_lane h lane (ls\<lparr>ls_dead_reason := reason\<rparr>);
       (h1, c) \<leftarrow> cell_of h0 pool lane;
       let was_closed = (breaker_state c = ST_CLOSED);
       let h2 = put_cell h1 pool lane (cell_hard_down c now (hard_down_cooldown_secs h));
       ls2 \<leftarrow> get_lane h2 lane;
       Some (if was_closed then put_lane h2 lane (bump_trips ls2 now) else h2)
     }"

definition record_client_fault :: "'sem HealthState \<Rightarrow> usize \<Rightarrow> 'sem HealthState option" where
  "record_client_fault h lane =
     do {
       ls \<leftarrow> get_lane h lane;
       Some (put_lane h lane (ls\<lparr>ls_client_fault := wrap_u64 (ls_client_fault ls + 1)\<rparr>))
     }"

text \<open>The operations on every cell of a lane: the default cell, then the pools' cells in order.\<close>

definition record_hard_down_all_cells ::
  "'sem HealthState \<Rightarrow> usize \<Rightarrow> string \<Rightarrow> u64 \<Rightarrow> ('sem HealthState \<times> bool) option" where
  "record_hard_down_all_cells h lane reason now =
     do {
       ls \<leftarrow> get_lane h lane;
       let hd_secs = hard_down_cooldown_secs h;
       let default_was_closed = (breaker_state (ls_cell ls) = ST_CLOSED);
       let ls1 = ls\<lparr>ls_dead_reason := reason, ls_cell := cell_hard_down (ls_cell ls) now hd_secs\<rparr>;
       let ls2 = (if default_was_closed then bump_trips ls1 now else ls1);
       Some ((put_lane h lane ls2)\<lparr>pool_cells := (pool_cells h)(lane :=
               map_option (map (\<lambda>(p, c). (p, cell_hard_down c now hd_secs))) (pool_cells h lane))\<rparr>,
             default_was_closed)
     }"

definition observe_suppressed :: "BreakerCell \<Rightarrow> u64 \<Rightarrow> u64 option" where
  "observe_suppressed c now =
     (if breaker_state c \<noteq> ST_CLOSED \<or> cooldown_until c > now then Some (cooldown_until c) else None)"

definition recover_close :: "BreakerCell \<Rightarrow> u64 \<Rightarrow> BreakerCell \<times> bool" where
  "recover_close c now =
     (case observe_suppressed c now of
        Some observed \<Rightarrow> cell_closed_if_recoverable c now observed
      | None \<Rightarrow> (c, False))"

text \<open>
  The SWRR accumulator of a cell that was really closed is zeroed under its pool's shard lock,
  after which the shard of that pool has been looked up.
\<close>

definition recover_cell :: "BreakerCell \<Rightarrow> u64 \<Rightarrow> BreakerCell" where
  "recover_cell c now =
     (let (c1, closed) = recover_close c now in if closed then c1\<lparr>current_weight := 0\<rparr> else c1)"

definition touch_shards :: "'sem HealthState \<Rightarrow> string list \<Rightarrow> 'sem HealthState" where
  "touch_shards h pools = foldl (\<lambda>h p. fst (swrr_shard h p)) h pools"

definition recover_lane :: "'sem HealthState \<Rightarrow> usize \<Rightarrow> u64 \<Rightarrow> 'sem HealthState option" where
  "recover_lane h lane now =
     do {
       ls \<leftarrow> get_lane h lane;
       let closed = (if snd (recover_close (ls_cell ls) now) then [[]] else [])
                  @ map fst (filter (\<lambda>(_, c). snd (recover_close c now)) (lane_cells h lane));
       let h1 = (put_lane h lane (ls\<lparr>ls_cell := recover_cell (ls_cell ls) now\<rparr>))
                  \<lparr>pool_cells := (pool_cells h)(lane :=
                     map_option (map (\<lambda>(p, c). (p, recover_cell c now))) (pool_cells h lane))\<rparr>;
       Some (touch_shards h1 closed)
     }"

definition success_cell :: "BreakerCell \<Rightarrow> u64 \<Rightarrow> BreakerCell" where
  "success_cell c now =
     (let (c1, recovered) = cell_record_success c now
      in if recovered then c1\<lparr>current_weight := 0\<rparr> else c1)"

definition record_probe_success_all_cells :: "'sem HealthState \<Rightarrow> usize \<Rightarrow> u64 \<Rightarrow> 'sem HealthState option" where
  "record_probe_success_all_cells h lane now =
     do {
       ls \<leftarrow> get_lane h lane;
       if ls_dead ls then Some (put_lane h lane (ls\<lparr>ls_ok := wrap_u64 (ls_ok ls + 1)\<rparr>))
       else do {
         let recovered = (if snd (cell_record_success (ls_cell ls) now) then [[]] else [])
                  @ map fst (filter (\<lambda>(_, c). snd (cell_record_success c now)) (lane_cells h lane));
         let h1 = (put_lane h lane (ls\<lparr>ls_cell := success_cell (ls_cell ls) now,
                                       ls_ok := wrap_u64 (ls_ok ls + 1)\<rparr>))
                  \<lparr>pool_cells := (pool_cells h)(lane :=
                     map_option (map (\<lambda>(p, c). (p, success_cell c now))) (pool_cells h lane))\<rparr>;
         Some (touch_shards h1 recovered) }
     }"

fun fail_cells ::
  "(string \<Rightarrow> jitter_env) \<Rightarrow> u64 \<Rightarrow> (string \<Rightarrow> BreakerCfg) \<Rightarrow> u64 option \<Rightarrow> u64 \<Rightarrow>
     (string \<times> BreakerCell) list \<Rightarrow> (string \<times> BreakerCell) list option" where
  "fail_cells env now resolve_cfg ra max_honored [] = Some []"
| "fail_cells env now resolve_cfg ra max_honored ((p, c) # cs) =
     do {
       (c1, _) \<leftarrow> cell_record_failure (env p) c now (resolve_cfg p) ra max_honored;
       cs1 \<leftarrow> fail_cells env now resolve_cfg ra max_honored cs;
       Some ((p, c1) # cs1)
     }"

definition record_probe_failure_all_cells ::
  "(string \<Rightarrow> jitter_env) \<Rightarrow> 'sem HealthState \<Rightarrow> usize \<Rightarrow> u64 \<Rightarrow> (string \<Rightarrow> BreakerCfg) \<Rightarrow> u64 option \<Rightarrow>
     'sem HealthState option" where
  "record_probe_failure_all_cells env h lane now resolve_cfg ra =
     do {
       ls \<leftarrow> get_lane h lane;
       if ls_dead ls then Some h
       else do {
         (c1, _) \<leftarrow> cell_record_failure (env []) (ls_cell ls) now (resolve_cfg []) ra (max_honored_retry_after_secs h);
         let h1 = put_lane h lane (ls\<lparr>ls_cell := c1\<rparr>);
         case pool_cells h lane of
           None \<Rightarrow> Some h1
         | Some cs \<Rightarrow> do {
             cs1 \<leftarrow> fail_cells env now resolve_cfg ra (max_honored_retry_after_secs h) cs;
             Some (h1\<lparr>pool_cells := (pool_cells h)(lane \<mapsto> cs1)\<rparr>) } }
     }"

definition lane_needs_probe :: "'sem HealthState \<Rightarrow> usize \<Rightarrow> u64 \<Rightarrow> bool option" where
  "lane_needs_probe h lane now =
     do {
       ls \<leftarrow> get_lane h lane;
       let suppressed = (\<lambda>c. breaker_state c \<noteq> ST_CLOSED \<or> cooldown_until c > now);
       Some (suppressed (ls_cell ls) \<or> list_ex (\<lambda>(_, c). suppressed c) (lane_cells h lane))
     }"

section \<open>Permits and the lifetime budget\<close>

definition available_permits :: "'sem sem_ops \<Rightarrow> 'sem HealthState \<Rightarrow> usize \<Rightarrow> nat option" where
  "available_permits ops h lane = do { ls \<leftarrow> get_lane h lane; Some (available_permits_of ops (ls_sem ls)) }"

definition try_acquire ::
  "'sem sem_ops \<Rightarrow> 'sem HealthState \<Rightarrow> usize \<Rightarrow> ('sem HealthState \<times> Permit option) option" where
  "try_acquire ops h lane =
     do {
       ls \<leftarrow> get_lane h lane;
       if ls_max ls \<ge> MAX_PERMITS then Some (h, Some Unbounded)
       else case try_acquire_of ops (ls_sem ls) of
              None \<Rightarrow> Some (h, None)
            | Some s \<Rightarrow> Some (put_lane h lane (ls\<lparr>ls_sem := s\<rparr>), Some Bounded)
     }"

definition lane_budget_remaining :: "'sem HealthState \<Rightarrow> usize \<Rightarrow> i64 option option" where
  "lane_budget_remaining h lane =
     do { ls \<leftarrow> get_lane h lane; Some (if ls_limited ls then Some (ls_budget ls) else None) }"

definition spend_budget :: "'sem HealthState \<Rightarrow> usize \<Rightarrow> ('sem HealthState \<times> bool) option" where
  "spend_budget h lane =
     do {
       ls \<leftarrow> get_lane h lane;
       if \<not> ls_limited ls then Some (h, True)
       else if ls_budget ls \<le> 0 then Some (h, False)
       else Some (put_lane h lane (ls\<lparr>ls_budget := ls_budget ls - 1\<rparr>), True)
     }"

definition refund_budget :: "'sem HealthState \<Rightarrow> usize \<Rightarrow> 'sem HealthState option" where
  "refund_budget h lane =
     do {
       ls \<leftarrow> get_lane h lane;
       if \<not> ls_limited ls then Some h
       else Some (put_lane h lane (ls\<lparr>ls_budget := wrap_i64 (ls_budget ls + 1)\<rparr>))
     }"

text \<open>
  The latency average of a lane, kept as the bits of an \<open>f64\<close> with \<open>0\<close> for no sample yet.
  \<open>sample\<close> is the bits of the measured latency when it is finite and positive, \<open>blend\<close> the
  floating-point step \<open>ALPHA * sample + (1 - ALPHA) * previous\<close> on bits; an update that would land
  on the sentinel is dropped. The retries of the compare-and-swap loop are one step.
\<close>

definition record_latency_in ::
  "(nat \<Rightarrow> nat \<Rightarrow> nat) \<Rightarrow> u64 option \<Rightarrow> 'sem HealthState \<Rightarrow> usize \<Rightarrow> 'sem HealthState option" where
  "record_latency_in blend sample h lane =
     (case sample of
        None \<Rightarrow> Some h
      | Some bits \<Rightarrow> do {
          ls \<leftarrow> get_lane h lane;
          let next_bits = (if ls_latency_ewma_bits ls = 0 then bits else blend bits (ls_latency_ewma_bits ls));
          Some (if next_bits = 0 then h else put_lane h lane (ls\<lparr>ls_latency_ewma_bits := next_bits\<rparr>)) })"

section \<open>Reading and writing cells\<close>

definition peek_cell :: "'sem HealthState \<Rightarrow> string \<Rightarrow> usize \<Rightarrow> BreakerCell option" where
  "peek_cell h pool lane =
     (if pool = [] then map_option ls_cell (get_lane h lane) else map_of (lane_cells h lane) pool)"

text \<open>
  The contract between the cells and their users: a cell can be fetched (and is created then,
  if it does not exist), a fetched cell can be written back, and neither disturbs another cell.
  A read-modify-write of one cell is all a per-cell operation of the store does.
\<close>

locale cell_directory =
  fixes peek :: "'s \<Rightarrow> string \<Rightarrow> usize \<Rightarrow> 'c option"
    and fetch :: "'s \<Rightarrow> string \<Rightarrow> usize \<Rightarrow> ('s \<times> 'c) option"
    and put :: "'s \<Rightarrow> string \<Rightarrow> usize \<Rightarrow> 'c \<Rightarrow> 's"
  assumes fetch_peek: "fetch s p l = Some (t, c) \<Longrightarrow> peek t p l = Some c"
    and fetch_existing: "peek s p l = Some c \<Longrightarrow> fetch s p l = Some (s, c)"
    and fetch_other: "fetch s p l = Some (t, c) \<Longrightarrow> (q, m) \<noteq> (p, l) \<Longrightarrow> peek t q m = peek s q m"
    and put_same: "peek s p l = Some c0 \<Longrightarrow> peek (put s p l c) p l = Some c"
    and put_other: "(q, m) \<noteq> (p, l) \<Longrightarrow> peek (put s p l c) q m = peek s q m"
begin

lemma rmw_same: "fetch s p l = Some (t, c) \<Longrightarrow> peek (put t p l d) p l = Some d"
  by (blast intro: put_same fetch_peek)

lemma rmw_other:
  "fetch s p l = Some (t, c) \<Longrightarrow> (q, m) \<noteq> (p, l) \<Longrightarrow> peek (put t p l d) q m = peek s q m"
  using put_other fetch_other by metis

lemma rmw_fetch: "fetch s p l = Some (t, c) \<Longrightarrow> fetch (put t p l d) p l = Some (put t p l d, d)"
  by (blast intro: fetch_existing rmw_same)

lemma rmw_lookup:
  "fetch s p l = Some (t, c) \<Longrightarrow>
   peek (put t p l d) q m = (if q = p \<and> m = l then Some d else peek s q m)"
  using rmw_same [of s p l t c d] rmw_other [of s p l t c q m d] by auto

end

lemma map_of_set_pool_cell:
  "map_of (set_pool_cell cs pool c) p =
     (if p = pool then map_option (\<lambda>_. c) (map_of cs pool) else map_of cs p)"
  by (induction cs) (auto simp: set_pool_cell_def)

lemma fst_set_pool_cell [simp]: "map fst (set_pool_cell cs pool c) = map fst cs"
  by (induction cs) (auto simp: set_pool_cell_def)

lemma get_lane_Some: "get_lane h lane = Some ls \<Longrightarrow> lane < length (lanes h)"
  by (simp add: get_lane_def split: if_splits)

lemma get_lane_put_lane:
  "get_lane (put_lane h lane ls) m =
     (if m = lane then map_option (\<lambda>_. ls) (get_lane h lane) else get_lane h m)"
  by (simp add: get_lane_def put_lane_def)

lemma lane_cells_put_lane [simp]: "lane_cells (put_lane h lane ls) m = lane_cells h m"
  by (simp add: lane_cells_def put_lane_def)

lemma lane_cells_shards [simp]: "lane_cells (h\<lparr>pool_shards := x\<rparr>) m = lane_cells h m"
  by (simp add: lane_cells_def)

lemma get_lane_shards [simp]: "get_lane (h\<lparr>pool_shards := x\<rparr>) m = get_lane h m"
  by (simp add: get_lane_def)

lemma get_lane_pool_cells [simp]: "get_lane (h\<lparr>pool_cells := x\<rparr>) m = get_lane h m"
  by (simp add: get_lane_def)

interpretation cells: cell_directory peek_cell cell_of put_cell
proof unfold_locales
  fix s t :: "'a HealthState" and p l c
  assume "cell_of s p l = Some (t, c)"
  then show "peek_cell t p l = Some c"
    by (auto simp: cell_of_def peek_cell_def bind_eq_Some_conv Let_def lane_cells_def map_add_def
        split: if_splits option.splits)
next
  fix s :: "'a HealthState" and p l c
  assume "peek_cell s p l = Some c"
  then show "cell_of s p l = Some (s, c)"
    by (auto simp: cell_of_def peek_cell_def split: if_splits)
next
  fix s t :: "'a HealthState" and p l c q m
  assume "cell_of s p l = Some (t, c)" and "(q, m) \<noteq> (p, l)"
  then show "peek_cell t q m = peek_cell s q m"
    by (auto simp: cell_of_def peek_cell_def bind_eq_Some_conv Let_def lane_cells_def map_add_def
        split: if_splits option.splits)
next
  fix s :: "'a HealthState" and p l c0 c
  assume "peek_cell s p l = Some c0"
  then show "peek_cell (put_cell s p l c) p l = Some c"
    by (auto simp: peek_cell_def put_cell_def get_lane_def lane_cells_def map_of_set_pool_cell
        split: if_splits option.splits)
next
  fix s :: "'a HealthState" and p q :: string and l m :: usize and c
  assume "(q, m) \<noteq> (p, l)"
  then show "peek_cell (put_cell s p l c) q m = peek_cell s q m"
    by (auto simp: peek_cell_def put_cell_def get_lane_def lane_cells_def map_of_set_pool_cell nth_list_update
        split: if_splits option.splits)
qed

lemma swrr_shard_frame [simp]:
  "lanes (fst (swrr_shard h p)) = lanes h" "pool_cells (fst (swrr_shard h p)) = pool_cells h"
  "hard_down_cooldown_secs (fst (swrr_shard h p)) = hard_down_cooldown_secs h"
  "max_honored_retry_after_secs (fst (swrr_shard h p)) = max_honored_retry_after_secs h"
  by (simp_all add: swrr_shard_def Let_def split: option.split)

lemma peek_cong: "lanes h = lanes g \<Longrightarrow> pool_cells h = pool_cells g \<Longrightarrow> peek_cell h p l = peek_cell g p l"
  by (simp add: peek_cell_def get_lane_def lane_cells_def)

lemma peek_swrr_shard [simp]: "peek_cell (fst (swrr_shard h q)) p l = peek_cell h p l"
  by (rule peek_cong) simp_all

lemma touch_shards_frame [simp]:
  "lanes (touch_shards h ps) = lanes h" "pool_cells (touch_shards h ps) = pool_cells h"
  "hard_down_cooldown_secs (touch_shards h ps) = hard_down_cooldown_secs h"
  "max_honored_retry_after_secs (touch_shards h ps) = max_honored_retry_after_secs h"
  by (induction ps arbitrary: h) (simp_all add: touch_shards_def)

section \<open>The invariant of the store\<close>

text \<open>
  Every cell is well formed, a pool has one cell per lane, the pool's cells belong to a lane of
  the store and the shard memo holds what the hash gives. The lifetime budget of a limited lane
  is not negative.
\<close>

definition lane_wf :: "'sem LaneState \<Rightarrow> bool" where
  "lane_wf ls \<longleftrightarrow> cell_wf (ls_cell ls) \<and> (ls_limited ls \<longrightarrow> 0 \<le> ls_budget ls \<and> ls_budget ls \<le> i64_max)"

definition pool_wf :: "(string \<times> BreakerCell) list \<Rightarrow> bool" where
  "pool_wf cs \<longleftrightarrow> distinct (map fst cs) \<and> [] \<notin> fst ` set cs \<and> list_all (\<lambda>(_, c). cell_wf c) cs"

definition shards_wf :: "(string \<times> usize) list \<Rightarrow> bool" where
  "shards_wf ms \<longleftrightarrow> distinct (map fst ms) \<and> list_all (\<lambda>(p, i). i = swrr_shard_index p) ms"

definition store_wf :: "'sem HealthState \<Rightarrow> bool" where
  "store_wf h \<longleftrightarrow>
     list_all lane_wf (lanes h)
   \<and> (\<forall>lane cs. pool_cells h lane = Some cs \<longrightarrow> lane < length (lanes h) \<and> pool_wf cs)
   \<and> shards_wf (pool_shards h)"

lemma store_wf_lane: "store_wf h \<Longrightarrow> get_lane h lane = Some ls \<Longrightarrow> lane_wf ls"
  by (auto simp: store_wf_def get_lane_def list_all_length split: if_splits)

lemma store_wf_pool: "store_wf h \<Longrightarrow> pool_wf (lane_cells h lane)"
  by (auto simp: store_wf_def lane_cells_def pool_wf_def split: option.split)

lemma store_wf_cell: "store_wf h \<Longrightarrow> peek_cell h p l = Some c \<Longrightarrow> cell_wf c"
  using store_wf_pool [of h l] store_wf_lane [of h l]
  by (auto simp: peek_cell_def lane_wf_def pool_wf_def list_all_iff split: if_splits dest!: map_of_SomeD)

lemma store_wf_put_lane: "store_wf h \<Longrightarrow> lane_wf ls \<Longrightarrow> store_wf (put_lane h lane ls)"
  by (auto simp: store_wf_def put_lane_def list_all_iff dest!: set_update_subset_insert [THEN subsetD])

lemma store_wf_pool_cells:
  "store_wf h \<Longrightarrow> pool_wf cs \<Longrightarrow> lane < length (lanes h) \<Longrightarrow>
   store_wf (h\<lparr>pool_cells := (pool_cells h)(lane \<mapsto> cs)\<rparr>)"
  by (auto simp: store_wf_def)

lemma pool_wf_set: "pool_wf cs \<Longrightarrow> cell_wf c \<Longrightarrow> pool_wf (set_pool_cell cs p c)"
  by (induction cs) (auto simp: pool_wf_def set_pool_cell_def image_iff split: if_splits)

lemma pool_wf_map:
  "pool_wf cs \<Longrightarrow> (\<And>c. cell_wf c \<Longrightarrow> cell_wf (f c)) \<Longrightarrow> pool_wf (map (\<lambda>(p, c). (p, f c)) cs)"
  by (force simp: pool_wf_def list_all_iff comp_def case_prod_unfold)

lemma inherited_cell_wf: "cell_wf (ls_cell ls) \<Longrightarrow> cell_wf (inherited_cell ls)"
  by (auto simp: cell_wf_def inherited_cell_def cell_new_def window_new_def)

lemma store_wf_cell_of:
  assumes "store_wf h" and "cell_of h p l = Some (h', c)"
  shows "store_wf h' \<and> cell_wf c"
proof (cases "peek_cell h p l")
  case (Some d)
  then have "h' = h" and "d = c" using assms(2) cells.fetch_existing [OF Some] by auto
  with assms(1) Some show ?thesis by (auto dest: store_wf_cell)
next
  case None
  then obtain ls where ls: "get_lane h l = Some ls" and p: "p \<noteq> []"
    and new: "map_of (lane_cells h l) p = None" "c = inherited_cell ls"
    and h': "h' = h\<lparr>pool_cells := (pool_cells h)(l \<mapsto> lane_cells h l @ [(p, c)])\<rparr>"
    using assms(2) by (auto simp: cell_of_def peek_cell_def bind_eq_Some_conv Let_def split: if_splits option.splits)
  have c: "cell_wf c" using store_wf_lane [OF assms(1) ls] new(2) by (simp add: lane_wf_def inherited_cell_wf)
  have "pool_wf (lane_cells h l @ [(p, c)])"
    using store_wf_pool [OF assms(1), of l] c p new(1) by (auto simp: pool_wf_def map_of_eq_None_iff)
  then show ?thesis
    using store_wf_pool_cells [OF assms(1)] get_lane_Some [OF ls] h' c by blast
qed

lemma store_wf_put_cell:
  assumes "store_wf h" and "cell_wf c"
  shows "store_wf (put_cell h p l c)"
proof (cases "p = [] \<and> l < length (lanes h)")
  case True
  then have "lane_wf (lanes h ! l)" using assms(1) by (auto simp: store_wf_def list_all_length)
  then have "lane_wf ((lanes h ! l)\<lparr>ls_cell := c\<rparr>)" using assms(2) by (simp add: lane_wf_def)
  with True show ?thesis
    using store_wf_put_lane [OF assms(1)] by (simp add: put_cell_def put_lane_def)
next
  case False
  then show ?thesis
    using assms pool_wf_set [OF _ assms(2)] by (auto simp: store_wf_def put_cell_def list_update_beyond)
qed

lemma swrr_shard_index_memo:
  "shards_wf (pool_shards h) \<Longrightarrow>
   snd (swrr_shard h p) = swrr_shard_index p \<and> shards_wf (pool_shards (fst (swrr_shard h p)))"
  by (auto simp: swrr_shard_def shards_wf_def list_all_iff map_of_eq_None_iff Let_def
      split: option.split dest!: map_of_SomeD)

lemma store_wf_swrr_shard: "store_wf h \<Longrightarrow> store_wf (fst (swrr_shard h p))"
  by (simp add: store_wf_def swrr_shard_index_memo)

lemma store_wf_touch_shards: "store_wf h \<Longrightarrow> store_wf (touch_shards h ps)"
  unfolding touch_shards_def by (induction ps arbitrary: h) (auto intro: store_wf_swrr_shard)

lemmas store_wf_intros =
  store_wf_put_lane store_wf_put_cell store_wf_swrr_shard store_wf_touch_shards store_wf_pool_cells

section \<open>Sample stores\<close>

text \<open>A lane with two permits and a budget, and the store with one such lane, for the examples.\<close>

definition sample_lane :: "nat LaneData" where
  "sample_lane =
     \<lparr>ld_model = ''m'', ld_provider = ''p'', ld_max = 2, ld_sem = 2, ld_limited = True, ld_budget = 10,
      ld_cooldown_until = 0, ld_streak = 0, ld_dead = False, ld_dead_reason = [], ld_ok = 0, ld_err = 0,
      ld_client_fault = 0\<rparr>"

definition sample_store :: "nat HealthState" where
  "sample_store = new_with_limits [sample_lane] 1800 86400"

lemmas sample_simps = sample_store_def sample_lane_def new_with_limits_def lane_of_data_def

lemma sample_store_wf: "store_wf sample_store"
  by (simp add: sample_simps store_wf_def lane_wf_def shards_wf_def cell_new_def cell_wf_def window_new_def i64_max_def)

end
