(* ===== verification/Lane_Availability.thy ===== *)
theory Lane_Availability
  imports Lane_Store
begin

text \<open>
  The availability half of the lane store, \<open>src/crates/busbar/src/store/in_memory/availability.rs\<close>:
  the read-only classification of a lane, the admission that takes the concurrency permit and
  the recovery probe, and the lane-global aggregate that \<open>/stats\<close> renders. \<open>Result\<close> is a sum
  with the error on the left.

  Admission reads the breaker, takes the permit and then acquires the probe. The first two and
  the last are separate critical sections of the source; they are separate definitions here
  (\<open>admit_gate\<close>, \<open>admit_commit\<close>), so that the lost race between them, which the source
  handles, can happen in the model.
\<close>

section \<open>The lane-global aggregate\<close>

fun verdict_rank :: "BreakerVerdict \<Rightarrow> nat" where
  "verdict_rank VReady = 3"
| "verdict_rank VProbeWinnable = 2"
| "verdict_rank VHalfOpen = 1"
| "verdict_rank (VOpen _) = 0"

fun better :: "BreakerVerdict \<Rightarrow> BreakerVerdict \<Rightarrow> BreakerVerdict" where
  "better (VOpen ua) (VOpen ub) = VOpen (min ua ub)"
| "better a b = (if verdict_rank a \<ge> verdict_rank b then a else b)"

fun reduce_verdicts :: "BreakerVerdict list \<Rightarrow> BreakerVerdict option" where
  "reduce_verdicts [] = None"
| "reduce_verdicts (v # vs) = Some (foldl better v vs)"

definition lane_breaker_verdict :: "'sem HealthState \<Rightarrow> usize \<Rightarrow> u64 \<Rightarrow> BreakerVerdict option" where
  "lane_breaker_verdict h lane now =
     (if lane_cells h lane \<noteq> []
      then Some (case reduce_verdicts (map (\<lambda>(_, c). breaker_verdict c now) (lane_cells h lane)) of
                   None \<Rightarrow> VReady | Some v \<Rightarrow> v)
      else do { ls \<leftarrow> get_lane h lane; Some (breaker_verdict (ls_cell ls) now) })"

definition classify_lane_from_verdict ::
  "'sem sem_ops \<Rightarrow> 'sem HealthState \<Rightarrow> usize \<Rightarrow> BreakerVerdict \<Rightarrow> (Unavailable + unit) option" where
  "classify_lane_from_verdict ops h lane verdict =
     do {
       ls \<leftarrow> get_lane h lane;
       if ls_dead ls then Some (Inl Dead)
       else if ls_limited ls \<and> ls_budget ls \<le> 0 then Some (Inl BudgetExhausted)
       else case verdict of
              VOpen until \<Rightarrow> Some (Inl (BreakerOpen until))
            | VHalfOpen \<Rightarrow> Some (Inl ProbeInFlight)
            | _ \<Rightarrow> do {
                permits \<leftarrow> available_permits ops h lane;
                Some (if permits = 0 then Inl (AtCapacity None) else Inr ()) }
     }"

definition classify_lane ::
  "'sem sem_ops \<Rightarrow> 'sem HealthState \<Rightarrow> usize \<Rightarrow> u64 \<Rightarrow> (Unavailable + unit) option" where
  "classify_lane ops h lane now =
     do { v \<leftarrow> lane_breaker_verdict h lane now; classify_lane_from_verdict ops h lane v }"

definition lane_breaker_state_from_verdict ::
  "'sem HealthState \<Rightarrow> usize \<Rightarrow> BreakerVerdict \<Rightarrow> u64 \<Rightarrow> BreakerState option" where
  "lane_breaker_state_from_verdict h lane verdict now =
     do {
       ls \<leftarrow> get_lane h lane;
       Some (if ls_dead ls then BOpen u64_max
             else case verdict of
                    VReady \<Rightarrow> BClosed
                  | VHalfOpen \<Rightarrow> BHalfOpen
                  | VProbeWinnable \<Rightarrow> BOpen now
                  | VOpen until \<Rightarrow> BOpen until)
     }"

definition lane_breaker_state :: "'sem HealthState \<Rightarrow> usize \<Rightarrow> u64 \<Rightarrow> BreakerState option" where
  "lane_breaker_state h lane now =
     do { v \<leftarrow> lane_breaker_verdict h lane now; lane_breaker_state_from_verdict h lane v now }"

section \<open>Classification and admission on one cell\<close>

definition classify ::
  "'sem sem_ops \<Rightarrow> 'sem HealthState \<Rightarrow> string \<Rightarrow> usize \<Rightarrow> u64 \<Rightarrow> ('sem HealthState \<times> (Unavailable + unit)) option" where
  "classify ops h pool lane now =
     do {
       ls \<leftarrow> get_lane h lane;
       if ls_dead ls then Some (h, Inl Dead)
       else if ls_limited ls \<and> ls_budget ls \<le> 0 then Some (h, Inl BudgetExhausted)
       else do {
         (h1, c) \<leftarrow> cell_of h pool lane;
         case breaker_verdict c now of
           VOpen until \<Rightarrow> Some (h1, Inl (BreakerOpen until))
         | VHalfOpen \<Rightarrow> Some (h1, Inl ProbeInFlight)
         | _ \<Rightarrow> do {
             permits \<leftarrow> available_permits ops h1 lane;
             Some (h1, if permits = 0 then Inl (AtCapacity None) else Inr ()) } }
     }"

text \<open>The gates that \<open>try_admit\<close> and \<open>try_admit_breaker\<close> share: dead, budget, the breaker's verdict.\<close>

fun verdict_refusal :: "BreakerVerdict \<Rightarrow> Unavailable option" where
  "verdict_refusal (VOpen until) = Some (BreakerOpen until)"
| "verdict_refusal VHalfOpen = Some ProbeInFlight"
| "verdict_refusal VReady = None"
| "verdict_refusal VProbeWinnable = None"

definition admit_gate ::
  "'sem HealthState \<Rightarrow> string \<Rightarrow> usize \<Rightarrow> u64 \<Rightarrow> ('sem HealthState \<times> Unavailable option) option" where
  "admit_gate h pool lane now =
     do {
       ls \<leftarrow> get_lane h lane;
       if ls_dead ls then Some (h, Some Dead)
       else if ls_limited ls \<and> ls_budget ls \<le> 0 then Some (h, Some BudgetExhausted)
       else do {
         (h1, c) \<leftarrow> cell_of h pool lane;
         Some (h1, verdict_refusal (breaker_verdict c now)) }
     }"

text \<open>The probe acquisition under the cell's lock, and the owner token read right after it.\<close>

definition admit_probe ::
  "'sem HealthState \<Rightarrow> string \<Rightarrow> usize \<Rightarrow> u64 \<Rightarrow> ('sem HealthState \<times> u64 option) option" where
  "admit_probe h pool lane now =
     do {
       (h1, c) \<leftarrow> cell_of h pool lane;
       let (c1, won) = cell_acquire_breaker c now;
       Some (put_cell h1 pool lane c1, if won then Some (probe_epoch c1) else None)
     }"

definition drop_permit :: "'sem sem_ops \<Rightarrow> 'sem HealthState \<Rightarrow> usize \<Rightarrow> Permit \<Rightarrow> 'sem HealthState option" where
  "drop_permit ops h lane permit =
     (case permit of
        Unbounded \<Rightarrow> Some h
      | Bounded \<Rightarrow> do {
          ls \<leftarrow> get_lane h lane;
          Some (put_lane h lane (ls\<lparr>ls_sem := release_of ops (ls_sem ls)\<rparr>)) })"

definition admit_commit ::
  "'sem sem_ops \<Rightarrow> 'sem HealthState \<Rightarrow> string \<Rightarrow> usize \<Rightarrow> u64 \<Rightarrow> Permit \<Rightarrow>
     ('sem HealthState \<times> (Unavailable + Admit)) option" where
  "admit_commit ops h pool lane now permit =
     do {
       (h1, epoch) \<leftarrow> admit_probe h pool lane now;
       case epoch of
         None \<Rightarrow> do { h2 \<leftarrow> drop_permit ops h1 lane permit; Some (h2, Inl ProbeInFlight) }
       | Some e \<Rightarrow> Some (h1, Inr \<lparr>admit_permit = permit, admit_probe_epoch = e\<rparr>)
     }"

definition try_admit ::
  "'sem sem_ops \<Rightarrow> 'sem HealthState \<Rightarrow> string \<Rightarrow> usize \<Rightarrow> u64 \<Rightarrow>
     ('sem HealthState \<times> (Unavailable + Admit)) option" where
  "try_admit ops h pool lane now =
     do {
       (h1, refused) \<leftarrow> admit_gate h pool lane now;
       case refused of
         Some u \<Rightarrow> Some (h1, Inl u)
       | None \<Rightarrow> do {
           (h2, permit) \<leftarrow> try_acquire ops h1 lane;
           case permit of
             None \<Rightarrow> Some (h2, Inl (AtCapacity None))
           | Some p \<Rightarrow> admit_commit ops h2 pool lane now p }
     }"

definition lane_semaphore :: "'sem HealthState \<Rightarrow> usize \<Rightarrow> 'sem option option" where
  "lane_semaphore h lane =
     do { ls \<leftarrow> get_lane h lane; Some (if ls_max ls \<ge> MAX_PERMITS then None else Some (ls_sem ls)) }"

definition try_admit_breaker ::
  "'sem HealthState \<Rightarrow> string \<Rightarrow> usize \<Rightarrow> u64 \<Rightarrow> ('sem HealthState \<times> (Unavailable + u64)) option" where
  "try_admit_breaker h pool lane now =
     do {
       (h1, refused) \<leftarrow> admit_gate h pool lane now;
       case refused of
         Some u \<Rightarrow> Some (h1, Inl u)
       | None \<Rightarrow> do {
           (h2, epoch) \<leftarrow> admit_probe h1 pool lane now;
           Some (h2, case epoch of None \<Rightarrow> Inl ProbeInFlight | Some e \<Rightarrow> Inr e) }
     }"

definition release_probe_in :: "'sem HealthState \<Rightarrow> string \<Rightarrow> usize \<Rightarrow> 'sem HealthState option" where
  "release_probe_in h pool lane =
     do { (h1, c) \<leftarrow> cell_of h pool lane; Some (put_cell h1 pool lane (cell_release_probe c)) }"

definition probe_epoch_in :: "'sem HealthState \<Rightarrow> string \<Rightarrow> usize \<Rightarrow> ('sem HealthState \<times> u64) option" where
  "probe_epoch_in h pool lane = do { (h1, c) \<leftarrow> cell_of h pool lane; Some (h1, probe_epoch c) }"

definition release_probe_owned_in ::
  "'sem HealthState \<Rightarrow> string \<Rightarrow> usize \<Rightarrow> u64 \<Rightarrow> 'sem HealthState option" where
  "release_probe_owned_in h pool lane owned_epoch =
     do { (h1, c) \<leftarrow> cell_of h pool lane; Some (put_cell h1 pool lane (cell_release_probe_owned c owned_epoch)) }"

definition breaker_state_snapshot_in ::
  "'sem HealthState \<Rightarrow> string \<Rightarrow> usize \<Rightarrow> ('sem HealthState \<times> BreakerState) option" where
  "breaker_state_snapshot_in h pool lane = breaker_state_for h pool lane"

definition DEFAULT_ERROR_RATE_WINDOW_S :: u64 where
  "DEFAULT_ERROR_RATE_WINDOW_S = 30"

definition error_rate_in :: "'sem HealthState \<Rightarrow> string \<Rightarrow> usize \<Rightarrow> u64 \<Rightarrow> ('sem HealthState \<times> rat option) option" where
  "error_rate_in h pool lane now =
     do {
       (h1, c) \<leftarrow> cell_of h pool lane;
       let count = count_in_window (outcome_window c) now DEFAULT_ERROR_RATE_WINDOW_S;
       Some (h1, if count = 0 then None
                 else Some (f64_div (error_count_in_window (outcome_window c) now DEFAULT_ERROR_RATE_WINDOW_S) count))
     }"

section \<open>The \<open>/stats\<close> snapshot\<close>

record LaneSnapshot =
  sn_model :: string
  sn_provider :: string
  sn_max_concurrent :: usize
  sn_inflight :: i64
  sn_free_slots :: usize
  sn_available :: "usize option"
  sn_at_capacity :: bool
  sn_availability :: "Unavailable + unit"
  sn_breaker_state :: BreakerState
  sn_ok :: u64
  sn_err :: u64
  sn_client_fault :: u64
  sn_usable :: bool
  sn_dead :: bool
  sn_dead_reason :: string
  sn_cooldown_remaining_s :: u64
  sn_streak :: u32
  sn_budget :: i64
  sn_trips :: u64
  sn_last_trip_at :: u64

definition snapshot :: "'sem sem_ops \<Rightarrow> 'sem HealthState \<Rightarrow> usize \<Rightarrow> u64 \<Rightarrow> LaneSnapshot option" where
  "snapshot ops h lane t =
     do {
       ls \<leftarrow> get_lane h lane;
       verdict \<leftarrow> lane_breaker_verdict h lane t;
       let permits = available_permits_of ops (ls_sem ls);
       availability \<leftarrow> classify_lane_from_verdict ops h lane verdict;
       state \<leftarrow> lane_breaker_state_from_verdict h lane verdict t;
       usable \<leftarrow> lane_usable_any_cell h lane t;
       cooldown \<leftarrow> lane_max_cooldown_remaining h lane t;
       worst \<leftarrow> lane_max_streak h lane;
       Some \<lparr>sn_model = ls_model ls, sn_provider = ls_provider ls, sn_max_concurrent = ls_max ls,
             sn_inflight = wrap_i64 (int (ls_max ls - permits)), sn_free_slots = permits,
             sn_available = (if ls_max ls \<ge> MAX_PERMITS then None else Some permits),
             sn_at_capacity = (ls_max ls < MAX_PERMITS \<and> permits = 0),
             sn_availability = availability, sn_breaker_state = state,
             sn_ok = ls_ok ls, sn_err = err (ls_cell ls), sn_client_fault = ls_client_fault ls,
             sn_usable = usable, sn_dead = ls_dead ls, sn_dead_reason = ls_dead_reason ls,
             sn_cooldown_remaining_s = cooldown, sn_streak = worst,
             sn_budget = (if ls_limited ls then ls_budget ls else - 1),
             sn_trips = ls_trips ls, sn_last_trip_at = ls_last_trip_at ls\<rparr>
     }"

section \<open>Admission lemmas\<close>

lemma classify_by_gate:
  "classify ops h p l now =
     do {
       (h1, refused) \<leftarrow> admit_gate h p l now;
       case refused of
         Some u \<Rightarrow> Some (h1, Inl u)
       | None \<Rightarrow> do {
           permits \<leftarrow> available_permits ops h1 l;
           Some (h1, if permits = 0 then Inl (AtCapacity None) else Inr ()) }
     }"
proof (cases "get_lane h l")
  case None
  then show ?thesis by (simp add: classify_def admit_gate_def)
next
  case (Some ls)
  then show ?thesis
  proof (cases "cell_of h p l")
    case (Some hc)
    then show ?thesis
      using \<open>get_lane h l = Some ls\<close>
      by (cases "breaker_verdict (snd hc) now") (simp_all add: classify_def admit_gate_def case_prod_unfold)
  qed (simp add: classify_def admit_gate_def)
qed

lemma cell_of_lanes: "cell_of h p l = Some (h1, c) \<Longrightarrow> lanes h1 = lanes h"
  by (auto simp: cell_of_def bind_eq_Some_conv Let_def split: if_splits option.splits)

lemma cell_of_total: "l < length (lanes h) \<Longrightarrow> \<exists>h1 c. cell_of h p l = Some (h1, c)"
  by (auto simp: cell_of_def get_lane_def Let_def split: option.split)

lemma cell_of_keeps: "cell_of h p l = Some (h1, c) \<Longrightarrow> peek_cell h q m = Some d \<Longrightarrow> peek_cell h1 q m = Some d"
  using cells.fetch_other [of h p l h1 c q m] cells.fetch_existing [of h p l d] by (cases "(q, m) = (p, l)") auto

text \<open>What a passed gate says of the cell: admission is possible, up to the race for the probe.\<close>

lemma verdict_refusal_None: "verdict_refusal (breaker_verdict c now) = None \<longleftrightarrow> cell_ready_breaker c now"
  by (cases "breaker_verdict c now") (simp_all add: cell_ready_breaker_def)

lemma admit_gate_cases:
  assumes "admit_gate h p l now = Some (h1, refused)"
  shows "lanes h1 = lanes h"
    and "peek_cell h q m = Some d \<Longrightarrow> peek_cell h1 q m = Some d"
    and "refused = None \<Longrightarrow> \<exists>c. peek_cell h1 p l = Some c \<and> cell_ready_breaker c now"
    and "refused = None \<Longrightarrow> lane_admissible h l = Some True"
  using assms
  by (auto simp: admit_gate_def bind_eq_Some_conv verdict_refusal_None lane_admissible_def
      dest: cell_of_lanes cell_of_keeps cells.fetch_peek split: if_splits)

lemma admit_gate_total: "l < length (lanes h) \<Longrightarrow> \<exists>h1 r. admit_gate h p l now = Some (h1, r)"
  using cell_of_total [of l h p] by (auto simp: admit_gate_def get_lane_def)

lemma acquire_ready: "cell_ready_breaker c now \<Longrightarrow> snd (cell_acquire_breaker c now)"
  by (auto simp: cell_ready_breaker_def breaker_verdict_def cell_acquire_breaker_def ST_CLOSED_def ST_OPEN_def
      ST_HALF_OPEN_def split: BreakerVerdict.splits if_splits)

lemma admit_probe_of_peek:
  assumes "peek_cell h p l = Some c"
  shows "admit_probe h p l now =
    Some (put_cell h p l (fst (cell_acquire_breaker c now)),
          if snd (cell_acquire_breaker c now) then Some (probe_epoch (fst (cell_acquire_breaker c now))) else None)"
  using cells.fetch_existing [OF assms] by (simp add: admit_probe_def case_prod_unfold Let_def)

lemma available_permits_lanes: "lanes h1 = lanes h \<Longrightarrow> available_permits ops h1 l = available_permits ops h l"
  by (simp add: available_permits_def get_lane_def)

lemma try_acquire_lookup:
  assumes "try_acquire ops h l = Some (h1, p)"
  shows "peek_cell h1 q m = peek_cell h q m"
  using assms
  by (auto simp: try_acquire_def bind_eq_Some_conv peek_cell_def get_lane_put_lane split: if_splits option.splits)

lemma available_permits_put_cell: "available_permits ops (put_cell h p l c) m = available_permits ops h m"
  by (cases "m = l") (auto simp: available_permits_def put_cell_def get_lane_def)

text \<open>The store really has a permit to give on every unbounded lane; a semaphore of that size has.\<close>

definition unbounded_has_permits :: "'sem sem_ops \<Rightarrow> 'sem HealthState \<Rightarrow> bool" where
  "unbounded_has_permits ops h \<longleftrightarrow>
     list_all (\<lambda>ls. MAX_PERMITS \<le> ls_max ls \<longrightarrow> 0 < available_permits_of ops (ls_sem ls)) (lanes h)"

lemma try_acquire_iff:
  assumes "semaphore_laws ops" and "unbounded_has_permits ops h" and "l < length (lanes h)"
  shows "\<exists>h1 p. try_acquire ops h l = Some (h1, p) \<and> (p = None) = (available_permits ops h l = Some 0)"
  using assms
  by (auto simp: try_acquire_def available_permits_def get_lane_def semaphore_laws_def unbounded_has_permits_def
      list_all_length split: option.split)

lemma try_acquire_None: "try_acquire ops h l = Some (h1, None) \<Longrightarrow> h1 = h"
  by (auto simp: try_acquire_def bind_eq_Some_conv split: if_splits option.splits)

text \<open>Without interference the probe cannot be lost once the gate has passed.\<close>

lemma try_admit_after_gate:
  assumes "admit_gate h p l now = Some (h1, None)" and "try_acquire ops h1 l = Some (h2, Some permit)"
  shows "\<exists>c. peek_cell h1 p l = Some c \<and> cell_ready_breaker c now \<and>
    try_admit ops h p l now =
      Some (put_cell h2 p l (fst (cell_acquire_breaker c now)),
            Inr \<lparr>admit_permit = permit, admit_probe_epoch = probe_epoch (fst (cell_acquire_breaker c now))\<rparr>)"
proof -
  obtain c where c: "peek_cell h1 p l = Some c" "cell_ready_breaker c now"
    using admit_gate_cases(3) [OF assms(1)] by blast
  then have "peek_cell h2 p l = Some c" by (simp add: try_acquire_lookup [OF assms(2)])
  with c assms show ?thesis
    by (simp add: try_admit_def admit_commit_def admit_probe_of_peek acquire_ready)
qed

section \<open>Properties of classification and admission\<close>

text \<open>
  C32: the read-only classification never drifts from admission. For every lane of the store,
  neither panics, \<open>try_admit\<close> refuses exactly when \<open>classify\<close> reports an obstacle and then with
  the same reason, and a refusal leaves the store the classification leaves: in particular a
  lane at capacity keeps its recovery probe.
\<close>

theorem admit_agrees_with_classify:
  assumes "semaphore_laws ops" and "unbounded_has_permits ops h" and "l < length (lanes h)"
  shows "\<exists>h1 r h2 s. classify ops h p l now = Some (h1, r) \<and> try_admit ops h p l now = Some (h2, s)
       \<and> (\<forall>u. (r = Inl u) = (s = Inl u)) \<and> (\<forall>u. s = Inl u \<longrightarrow> h2 = h1)"
proof -
  obtain h1 refused where g: "admit_gate h p l now = Some (h1, refused)"
    using admit_gate_total [OF assms(3)] by blast
  show ?thesis
  proof (cases refused)
    case (Some u)
    with g show ?thesis by (simp add: classify_by_gate try_admit_def)
  next
    case None
    have "lanes h1 = lanes h" by (rule admit_gate_cases(1) [OF g])
    then have l: "l < length (lanes h1)" "unbounded_has_permits ops h1"
      using assms(2,3) by (simp_all add: unbounded_has_permits_def)
    obtain h2 q where q: "try_acquire ops h1 l = Some (h2, q)" "(q = None) = (available_permits ops h1 l = Some 0)"
      using try_acquire_iff [OF assms(1) l(2,1)] by blast
    obtain n where n: "available_permits ops h1 l = Some n"
      using l(1) by (simp add: available_permits_def get_lane_def)
    show ?thesis
    proof (cases q)
      case qN: None
      with q have "h2 = h1" by (simp add: try_acquire_None)
      with qN q n g None show ?thesis by (simp add: classify_by_gate try_admit_def)
    next
      case (Some permit)
      with try_admit_after_gate [of h p l now h1 ops h2 permit] q n g None show ?thesis
        by (auto simp: classify_by_gate)
    qed
  qed
qed

theorem admit_agrees_with_classify_witness:
  "\<exists>h1 r h2 s. classify counting_sem sample_store ''pool'' 0 5 = Some (h1, r)
       \<and> try_admit counting_sem sample_store ''pool'' 0 5 = Some (h2, s)
       \<and> (\<forall>u. (r = Inl u) = (s = Inl u)) \<and> (\<forall>u. s = Inl u \<longrightarrow> h2 = h1)"
  by (rule admit_agrees_with_classify [OF counting_sem_laws])
    (simp_all add: unbounded_has_permits_def sample_simps MAX_PERMITS_def)

lemma try_acquire_permits:
  assumes "semaphore_laws ops" and "try_acquire ops h l = Some (h1, Some permit)"
  shows "\<exists>ls n. get_lane h l = Some ls \<and> (permit = Unbounded) = (MAX_PERMITS \<le> ls_max ls)
       \<and> available_permits ops h1 l = Some n
       \<and> available_permits ops h l = Some (n + (if permit = Bounded then 1 else 0))"
  using assms
  by (auto simp: try_acquire_def bind_eq_Some_conv available_permits_def get_lane_put_lane semaphore_laws_def
      split: if_splits option.splits)

lemma try_admit_Ok:
  assumes "try_admit ops h p l now = Some (h2, Inr a)"
  obtains h1 h3 c where "admit_gate h p l now = Some (h1, None)"
    and "try_acquire ops h1 l = Some (h3, Some (admit_permit a))"
    and "peek_cell h1 p l = Some c" and "cell_ready_breaker c now"
    and "h2 = put_cell h3 p l (fst (cell_acquire_breaker c now))"
    and "admit_probe_epoch a = probe_epoch (fst (cell_acquire_breaker c now))"
proof -
  obtain h1 h3 permit where g: "admit_gate h p l now = Some (h1, None)"
    and q: "try_acquire ops h1 l = Some (h3, Some permit)"
    using assms by (auto simp: try_admit_def bind_eq_Some_conv split: option.splits)
  from try_admit_after_gate [OF this] assms show thesis
    by (auto intro!: that [OF g] simp: q)
qed

text \<open>
  What an admission does. The lane was admissible and its cell ready; the permit is
  unbounded exactly on an unbounded lane and otherwise takes one from the semaphore; a closed
  cell is untouched, an open one is now half-open with the probe held under the epoch the
  admission returns, which is the next one; every other cell is untouched.
\<close>

lemma admission_effect:
  assumes "semaphore_laws ops" and "try_admit ops h p l now = Some (h2, Inr a)"
  shows "\<exists>h1 c d n ls. cell_of h p l = Some (h1, c) \<and> cell_ready_breaker c now
    \<and> lane_admissible h l = Some True \<and> get_lane h l = Some ls
    \<and> (admit_permit a = Unbounded) = (MAX_PERMITS \<le> ls_max ls)
    \<and> available_permits ops h2 l = Some n
    \<and> available_permits ops h l = Some (n + (if admit_permit a = Bounded then 1 else 0))
    \<and> peek_cell h2 p l = Some d \<and> admit_probe_epoch a = probe_epoch d
    \<and> d = (if breaker_state c = ST_CLOSED then c
           else c\<lparr>breaker_state := ST_HALF_OPEN, probe_epoch := wrap_u64 (probe_epoch c + 1), probe_in_flight := True\<rparr>)
    \<and> (\<forall>q m. (q, m) \<noteq> (p, l) \<longrightarrow> peek_cell h2 q m = peek_cell h q m)"
proof -
  obtain h1 h3 c where g: "admit_gate h p l now = Some (h1, None)"
    and q: "try_acquire ops h1 l = Some (h3, Some (admit_permit a))"
    and c: "peek_cell h1 p l = Some c" "cell_ready_breaker c now"
    and h2: "h2 = put_cell h3 p l (fst (cell_acquire_breaker c now))"
    and e: "admit_probe_epoch a = probe_epoch (fst (cell_acquire_breaker c now))"
    by (rule try_admit_Ok [OF assms(2)])
  obtain b where b: "cell_of h p l = Some (h1, b)"
    using g by (auto simp: admit_gate_def bind_eq_Some_conv split: if_splits)
  with cells.fetch_peek [OF b] c(1) have f: "cell_of h p l = Some (h1, c)" by simp
  have lanes: "lanes h1 = lanes h" by (rule admit_gate_cases(1) [OF g])
  have acq: "fst (cell_acquire_breaker c now) = (if breaker_state c = ST_CLOSED then c
           else c\<lparr>breaker_state := ST_HALF_OPEN, probe_epoch := wrap_u64 (probe_epoch c + 1), probe_in_flight := True\<rparr>)"
    using c(2) by (auto simp: cell_ready_breaker_def breaker_verdict_def cell_acquire_breaker_def
        split: if_splits)
  have "peek_cell h2 p l = Some (fst (cell_acquire_breaker c now))"
    unfolding h2 using c(1) by (intro cells.put_same) (simp add: try_acquire_lookup [OF q])
  moreover have "peek_cell h2 q' m = peek_cell h q' m" if "(q', m) \<noteq> (p, l)" for q' m
    using cells.put_other [OF that, of h3 "fst (cell_acquire_breaker c now)"] cells.fetch_other [OF f that]
    by (simp add: h2 try_acquire_lookup [OF q])
  moreover obtain ls n where "get_lane h1 l = Some ls" "(admit_permit a = Unbounded) = (MAX_PERMITS \<le> ls_max ls)"
    "available_permits ops h3 l = Some n"
    "available_permits ops h1 l = Some (n + (if admit_permit a = Bounded then 1 else 0))"
    using try_acquire_permits [OF assms(1) q] by blast
  moreover have "available_permits ops h2 l = available_permits ops h3 l"
    by (simp add: h2 available_permits_put_cell)
  moreover have "get_lane h1 l = get_lane h l" by (simp add: get_lane_def lanes)
  ultimately show ?thesis
    using f c(2) admit_gate_cases(4) [OF g] e acq available_permits_lanes [OF lanes, of ops l] by metis
qed

text \<open>
  Losing the race for the probe costs nothing. Whatever happened to the store between the
  gate and the acquisition, the acquisition does not panic; if it loses, the reason is a probe
  in flight, the permit is back in the semaphore and no cell has changed; if it wins, the
  permit is kept.
\<close>

lemma lost_race_returns_permit:
  assumes "semaphore_laws ops" and "l < length (lanes h)"
  shows "\<exists>h2 r n n2. admit_commit ops h p l now permit = Some (h2, r)
    \<and> available_permits ops h l = Some n \<and> available_permits ops h2 l = Some n2
    \<and> (case r of
         Inl u \<Rightarrow> u = ProbeInFlight \<and> n2 = n + (if permit = Bounded then 1 else 0)
              \<and> (\<forall>q m c. peek_cell h q m = Some c \<longrightarrow> peek_cell h2 q m = Some c)
       | Inr a \<Rightarrow> admit_permit a = permit \<and> n2 = n)"
proof -
  obtain h1 c where f: "cell_of h p l = Some (h1, c)" using cell_of_total [OF assms(2)] by blast
  let ?d = "fst (cell_acquire_breaker c now)" let ?h = "put_cell h1 p l ?d"
  have lanes: "lanes h1 = lanes h" by (rule cell_of_lanes [OF f])
  obtain n where n: "available_permits ops h l = Some n"
    using assms(2) by (simp add: available_permits_def get_lane_def)
  then have n1: "available_permits ops ?h l = Some n"
    by (simp add: available_permits_put_cell available_permits_lanes [OF lanes])
  then obtain ls where ls: "get_lane ?h l = Some ls" "available_permits_of ops (ls_sem ls) = n"
    by (auto simp: available_permits_def bind_eq_Some_conv)
  show ?thesis
  proof (cases "snd (cell_acquire_breaker c now)")
    case True
    with f n n1 show ?thesis
      by (simp add: admit_commit_def admit_probe_def case_prod_unfold Let_def)
  next
    case False
    then have d: "?d = c" by (auto simp: cell_acquire_breaker_def split: if_splits)
    have keep: "peek_cell ?h q m = Some x" if "peek_cell h q m = Some x" for q m x
      using cells.rmw_lookup [OF f, of ?d q m] that cells.fetch_existing [of h p l x] f
      by (auto simp: d split: if_splits)
    let ?rel = "put_lane ?h l (ls\<lparr>ls_sem := release_of ops (ls_sem ls)\<rparr>)"
    have "peek_cell ?rel q m = peek_cell ?h q m" for q m
      using ls by (auto simp: peek_cell_def get_lane_put_lane)
    moreover have "available_permits ops ?rel l = Some (Suc n)"
      using ls assms(1) by (simp add: available_permits_def get_lane_put_lane semaphore_laws_def)
    ultimately show ?thesis
      using f n n1 ls False keep
      by (cases permit) (simp_all add: admit_commit_def admit_probe_def drop_permit_def case_prod_unfold Let_def)
  qed
qed

section \<open>The aggregate agrees with routing\<close>

definition admits :: "BreakerVerdict \<Rightarrow> bool" where
  "admits v \<longleftrightarrow> v = VReady \<or> v = VProbeWinnable"

lemma admits_ready: "cell_ready_breaker c now \<longleftrightarrow> admits (breaker_verdict c now)"
  by (auto simp: cell_ready_breaker_def admits_def split: BreakerVerdict.split)

lemma better_admits: "admits (better a b) \<longleftrightarrow> admits a \<or> admits b"
  by (cases a; cases b) (simp_all add: admits_def)

lemma foldl_better_admits: "admits (foldl better v vs) \<longleftrightarrow> admits v \<or> list_ex admits vs"
  by (induction vs arbitrary: v) (auto simp: better_admits)

lemma better_Open: "better a b = VOpen t \<longleftrightarrow> (\<exists>x y. a = VOpen x \<and> b = VOpen y \<and> t = min x y)"
  by (cases a; cases b) auto

text \<open>The aggregate is open only if every cell is, and then until the first of them recovers.\<close>

lemma foldl_better_Open:
  "foldl better v vs = VOpen t \<Longrightarrow>
     (\<forall>x \<in> set (v # vs). \<exists>u. x = VOpen u \<and> t \<le> u) \<and> VOpen t \<in> set (v # vs)"
proof (induction vs arbitrary: v)
  case Nil
  then show ?case by simp
next
  case (Cons w vs)
  from Cons.IH [of "better v w"] Cons.prems
  have all: "\<forall>x \<in> set vs. \<exists>u. x = VOpen u \<and> t \<le> u" and bw: "\<exists>u. better v w = VOpen u \<and> t \<le> u"
    and m: "VOpen t = better v w \<or> VOpen t \<in> set vs" by auto
  from bw obtain x y where xy: "v = VOpen x" "w = VOpen y" "t \<le> min x y" by (auto simp: better_Open)
  with all m show ?case by (auto simp: min_def split: if_splits)
qed

definition routed_cells :: "'sem HealthState \<Rightarrow> usize \<Rightarrow> BreakerCell list" where
  "routed_cells h lane =
     (if lane_cells h lane \<noteq> [] then map snd (lane_cells h lane)
      else case get_lane h lane of None \<Rightarrow> [] | Some ls \<Rightarrow> [ls_cell ls])"

lemma lane_verdict_routed:
  assumes "l < length (lanes h)"
  shows "\<exists>c cs. routed_cells h l = c # cs
    \<and> lane_breaker_verdict h l now = Some (foldl better (breaker_verdict c now) (map (\<lambda>c. breaker_verdict c now) cs))"
proof (cases "lane_cells h l")
  case Nil
  with assms show ?thesis by (simp add: routed_cells_def lane_breaker_verdict_def get_lane_def)
next
  case (Cons pc pcs)
  then show ?thesis
    by (simp add: routed_cells_def lane_breaker_verdict_def case_prod_unfold comp_def)
qed

lemma lane_usable_routed:
  assumes "l < length (lanes h)"
  shows "lane_usable_any_cell h l now =
    Some (lane_admissible h l = Some True \<and> list_ex (\<lambda>c. cell_ready_breaker c now) (routed_cells h l))"
  using assms
  by (auto simp: lane_usable_any_cell_def lane_admissible_def get_lane_def routed_cells_def list_ex_iff case_prod_unfold)

text \<open>
  What \<open>/stats\<close> reports of a lane is what routing would do. The snapshot of a lane of the
  store never panics; its usability bit is set exactly when its availability is \<open>Ok\<close> or only
  capacity is missing; an availability of \<open>BreakerOpen until\<close> means that every cell traffic is
  routed through is open and that the first of them recovers at \<open>until\<close>.
\<close>

lemma stats_agree_with_routing:
  assumes "l < length (lanes h)"
  shows "\<exists>sn. snapshot ops h l now = Some sn
    \<and> (sn_usable sn \<longleftrightarrow> sn_availability sn = Inr () \<or> sn_availability sn = Inl (AtCapacity None))
    \<and> classify_lane ops h l now = Some (sn_availability sn)
    \<and> lane_breaker_state h l now = Some (sn_breaker_state sn)
    \<and> (\<forall>t. sn_availability sn = Inl (BreakerOpen t) \<longrightarrow>
         (\<forall>c \<in> set (routed_cells h l). \<exists>u. breaker_verdict c now = VOpen u \<and> t \<le> u)
       \<and> (\<exists>c \<in> set (routed_cells h l). breaker_verdict c now = VOpen t))"
proof -
  obtain ls where ls: "get_lane h l = Some ls" using assms by (simp add: get_lane_def)
  obtain c cs v where r: "routed_cells h l = c # cs" and v: "lane_breaker_verdict h l now = Some v"
    and vd: "v = foldl better (breaker_verdict c now) (map (\<lambda>c. breaker_verdict c now) cs)"
    using lane_verdict_routed [OF assms] by blast
  have adm: "lane_admissible h l = Some (\<not> ls_dead ls \<and> \<not> (ls_limited ls \<and> ls_budget ls \<le> 0))"
    using ls by (auto simp: lane_admissible_def)
  have "classify_lane_from_verdict ops h l v \<noteq> None"
    using ls by (cases v) (simp_all add: classify_lane_from_verdict_def available_permits_def)
  then obtain r where a: "classify_lane_from_verdict ops h l v = Some r" by blast
  have adv: "admits v \<longleftrightarrow> list_ex (\<lambda>c. cell_ready_breaker c now) (routed_cells h l)"
    unfolding vd r by (simp add: foldl_better_admits admits_ready list_ex_iff)
  have us: "(lane_admissible h l = Some True \<and> admits v) \<longleftrightarrow> r = Inr () \<or> r = Inl (AtCapacity None)"
    using a ls unfolding adm
    by (cases v) (auto simp: classify_lane_from_verdict_def available_permits_def admits_def split: if_splits)
  have opn: "(\<forall>c \<in> set (routed_cells h l). \<exists>u. breaker_verdict c now = VOpen u \<and> t \<le> u)
       \<and> (\<exists>c \<in> set (routed_cells h l). breaker_verdict c now = VOpen t)" if "r = Inl (BreakerOpen t)" for t
  proof -
    have "v = VOpen t"
      using that a ls by (cases v) (auto simp: classify_lane_from_verdict_def available_permits_def split: if_splits)
    from foldl_better_Open [OF vd [symmetric, unfolded this]] show ?thesis unfolding r by force
  qed
  show ?thesis
    using a ls v adv us opn
    by (auto simp: snapshot_def lane_breaker_state_from_verdict_def lane_usable_routed [OF assms] classify_lane_def
        lane_breaker_state_def lane_max_cooldown_remaining_def lane_max_streak_def Let_def)
qed

end
