(* ===== verification/Lane_Swrr.thy ===== *)
theory Lane_Swrr
  imports Lane_Store
begin

text \<open>
  Smooth weighted round-robin: \<open>select_weighted_for\<close> of
  \<open>src/crates/busbar/src/store/in_memory/mod.rs\<close> on the lane store, the reference algorithm on
  a plain vector of accumulators, and the proof that a cycle of selections gives every
  member exactly its weight.
\<close>

section \<open>Selection on the store\<close>

text \<open>The healthy members, in candidate order; a cell is fetched (created) for every admissible one.\<close>

fun swrr_healthy ::
  "'sem HealthState \<Rightarrow> string \<Rightarrow> u64 \<Rightarrow> (usize \<times> u32) list \<Rightarrow> ('sem HealthState \<times> (usize \<times> i64) list) option" where
  "swrr_healthy h pool now [] = Some (h, [])"
| "swrr_healthy h pool now ((candidate, weight) # rest) =
     (if weight = 0 then swrr_healthy h pool now rest
      else do {
        adm \<leftarrow> lane_admissible h candidate;
        if \<not> adm then swrr_healthy h pool now rest
        else do {
          (h1, c) \<leftarrow> cell_of h pool candidate;
          (h2, hs) \<leftarrow> swrr_healthy h1 pool now rest;
          Some (h2, if cell_ready_breaker c now then (candidate, int weight) # hs else hs) } })"

definition add_weight :: "'sem HealthState \<Rightarrow> string \<Rightarrow> usize \<Rightarrow> i64 \<Rightarrow> 'sem HealthState option" where
  "add_weight h pool lane w =
     do {
       (h1, c) \<leftarrow> cell_of h pool lane;
       Some (put_cell h1 pool lane (c\<lparr>current_weight := wrap_i64 (current_weight c + w)\<rparr>))
     }"

fun add_weights :: "'sem HealthState \<Rightarrow> string \<Rightarrow> (usize \<times> i64) list \<Rightarrow> 'sem HealthState option" where
  "add_weights h pool [] = Some h"
| "add_weights h pool ((lane, w) # hs) = do { h1 \<leftarrow> add_weight h pool lane w; add_weights h1 pool hs }"

fun swrr_best ::
  "'sem HealthState \<Rightarrow> string \<Rightarrow> (usize \<times> i64) list \<Rightarrow> usize option \<Rightarrow> i64 \<Rightarrow> usize option option" where
  "swrr_best h pool [] best best_weight = Some best"
| "swrr_best h pool ((lane, _) # hs) best best_weight =
     do {
       c \<leftarrow> peek_cell h pool lane;
       if current_weight c > best_weight then swrr_best h pool hs (Some lane) (current_weight c)
       else swrr_best h pool hs best best_weight
     }"

definition select_weighted_for ::
  "'sem HealthState \<Rightarrow> string \<Rightarrow> usize list \<Rightarrow> u32 list \<Rightarrow> u64 \<Rightarrow> ('sem HealthState \<times> usize option) option" where
  "select_weighted_for h pool candidates weights now =
     do {
       (h1, healthy) \<leftarrow> swrr_healthy h pool now (zip candidates weights);
       if healthy = [] then Some (h1, None)
       else do {
         let h2 = fst (swrr_shard h1 pool);
         let total = sum_list (map snd healthy);
         h3 \<leftarrow> add_weights h2 pool healthy;
         best \<leftarrow> swrr_best h3 pool healthy None i64_min;
         case best of
           None \<Rightarrow> Some (h3, None)
         | Some lane \<Rightarrow> do { h4 \<leftarrow> add_weight h3 pool lane (- total); Some (h4, Some lane) } }
     }"

section \<open>The reference algorithm\<close>

text \<open>
  One round on a vector of accumulators: every member gains its weight, the first one with the
  largest accumulator is chosen and pays the total.
\<close>

fun first_max :: "int list \<Rightarrow> nat" where
  "first_max [] = 0"
| "first_max [a] = 0"
| "first_max (a # as) = (let j = first_max as in if as ! j > a then Suc j else 0)"

definition swrr_gain :: "int list \<Rightarrow> int list \<Rightarrow> int list" where
  "swrr_gain ws cw = map2 (+) cw ws"

definition swrr_round :: "int list \<Rightarrow> int list \<Rightarrow> int list \<times> nat" where
  "swrr_round ws cw =
     (let a = swrr_gain ws cw; b = first_max a in (a[b := a ! b - sum_list ws], b))"

primrec swrr_rounds :: "nat \<Rightarrow> int list \<Rightarrow> int list \<Rightarrow> int list \<times> nat list" where
  "swrr_rounds 0 ws cw = (cw, [])"
| "swrr_rounds (Suc k) ws cw =
     (let (cw1, ps) = swrr_rounds k ws cw; (cw2, p) = swrr_round ws cw1 in (cw2, ps @ [p]))"

lemma first_max_less: "as \<noteq> [] \<Longrightarrow> first_max as < length as"
  by (induction as rule: first_max.induct) (auto simp: Let_def)

lemma first_max_ge: "i < length as \<Longrightarrow> as ! i \<le> as ! first_max as"
proof (induction as arbitrary: i rule: first_max.induct)
  case (3 a b as)
  then have "\<And>j. j < length (b # as) \<Longrightarrow> (b # as) ! j \<le> (b # as) ! first_max (b # as)" by blast
  then show ?case
    using "3.prems" by (cases i) (force simp: Let_def)+
qed auto

lemma sum_list_update_int:
  "i < length xs \<Longrightarrow> sum_list (xs[i := v]) = sum_list xs - xs ! i + (v :: int)"
  by (induction xs arbitrary: i) (auto split: nat.split)

lemma length_gain [simp]: "length (swrr_gain ws cw) = min (length cw) (length ws)"
  by (simp add: swrr_gain_def)

lemma sum_gain: "length cw = length ws \<Longrightarrow> sum_list (swrr_gain ws cw) = sum_list cw + sum_list ws"
  unfolding swrr_gain_def by (induction cw ws rule: list_induct2) auto

lemma round_simps:
  "fst (swrr_round ws cw) = (swrr_gain ws cw)
     [first_max (swrr_gain ws cw) := swrr_gain ws cw ! first_max (swrr_gain ws cw) - sum_list ws]"
  "snd (swrr_round ws cw) = first_max (swrr_gain ws cw)"
  by (simp_all add: swrr_round_def Let_def)

lemma nth_gain: "length cw = length ws \<Longrightarrow> i < length ws \<Longrightarrow> swrr_gain ws cw ! i = cw ! i + ws ! i"
  by (simp add: swrr_gain_def)

lemma picked_less: "length cw = length ws \<Longrightarrow> ws \<noteq> [] \<Longrightarrow> first_max (swrr_gain ws cw) < length ws"
proof -
  assume len: "length cw = length ws" and ne: "ws \<noteq> []"
  then have "length (swrr_gain ws cw) = length ws" by simp
  with ne first_max_less [of "swrr_gain ws cw"] show ?thesis by force
qed

lemma round_conserves:
  assumes "length cw = length ws" and "ws \<noteq> []"
  shows "sum_list (fst (swrr_round ws cw)) = sum_list cw"
proof -
  have "first_max (swrr_gain ws cw) < length (swrr_gain ws cw)" using picked_less [OF assms] assms by simp
  from sum_list_update_int [OF this] show ?thesis
    unfolding round_simps(1) sum_gain [OF assms(1)] by simp
qed

text \<open>The largest accumulator is positive when their sum is, so whoever pays stays above minus the total.\<close>

lemma sum_list_nonpos_int: "\<forall>x \<in> set as. x \<le> (0::int) \<Longrightarrow> sum_list as \<le> 0"
  by (induction as) auto

lemma max_pos: "as \<noteq> [] \<Longrightarrow> 0 < sum_list as \<Longrightarrow> 0 < as ! first_max (as :: int list)"
proof (rule ccontr)
  assume "as \<noteq> []" and pos: "0 < sum_list as" and "\<not> 0 < as ! first_max as"
  then have "\<forall>x \<in> set as. x \<le> 0" using first_max_ge [of _ as] by (force simp: in_set_conv_nth)
  with pos sum_list_nonpos_int show False by force
qed

lemma sum_list_pos_int: "ws \<noteq> [] \<Longrightarrow> \<forall>w \<in> set ws. 0 < w \<Longrightarrow> 0 < sum_list (ws :: int list)"
proof (induction ws)
  case (Cons w ws)
  then show ?case by (cases "ws = []") (auto intro: add_pos_pos)
qed simp

definition balanced :: "int list \<Rightarrow> int list \<Rightarrow> bool" where
  "balanced ws cw \<longleftrightarrow>
     length cw = length ws \<and> sum_list cw = 0 \<and> (\<forall>i < length ws. - sum_list ws < cw ! i)"

lemma round_balanced:
  assumes "balanced ws cw" and "ws \<noteq> []" and "\<forall>w \<in> set ws. 0 < w"
  shows "balanced ws (fst (swrr_round ws cw))"
proof -
  let ?a = "swrr_gain ws cw" let ?b = "first_max ?a"
  have len: "length cw = length ws" "length ?a = length ws" and sum: "sum_list cw = 0"
    and low: "\<And>i. i < length ws \<Longrightarrow> - sum_list ws < cw ! i"
    using assms(1) by (auto simp: balanced_def)
  have tot: "0 < sum_list ws" by (rule sum_list_pos_int [OF assms(2,3)])
  have ne: "?a \<noteq> []" using len assms(2) by (metis length_0_conv)
  have "0 < ?a ! ?b" using max_pos [OF ne] tot sum sum_gain [OF len(1)] by simp
  moreover have "- sum_list ws < ?a ! i" if "i < length ws" for i
    using low [OF that] nth_gain [OF len(1) that] assms(3) that by (smt (verit) nth_mem)
  ultimately have "- sum_list ws < (?a[?b := ?a ! ?b - sum_list ws]) ! i" if "i < length ws" for i
    using that len by (cases "i = ?b") auto
  with round_conserves [OF len(1) assms(2)] len sum show ?thesis
    by (simp add: balanced_def round_simps)
qed

text \<open>What the accumulators record: the weight earned so far less the total for every time chosen.\<close>

lemma rounds_account:
  assumes "ws \<noteq> []" and "\<forall>w \<in> set ws. 0 < w" and "swrr_rounds k ws (replicate (length ws) 0) = (cw, ps)"
  shows "balanced ws cw \<and> length ps = k \<and> set ps \<subseteq> {..<length ws}
    \<and> (\<forall>i < length ws. cw ! i = int k * ws ! i - sum_list ws * int (count_list ps i))"
  using assms(3)
proof (induction k arbitrary: cw ps)
  case 0
  have "0 < sum_list ws" by (rule sum_list_pos_int [OF assms(1,2)])
  with 0 show ?case by (auto simp: balanced_def sum_list_replicate)
next
  case (Suc k)
  obtain cw1 ps1 where r: "swrr_rounds k ws (replicate (length ws) 0) = (cw1, ps1)" by fastforce
  note IH = Suc.IH [OF r]
  have len: "length cw1 = length ws" using IH by (simp add: balanced_def)
  let ?b = "first_max (swrr_gain ws cw1)"
  have b: "?b < length ws" by (rule picked_less [OF len assms(1)])
  have eq: "cw = fst (swrr_round ws cw1)" "ps = ps1 @ [?b]"
    using Suc.prems r by (auto simp: case_prod_unfold round_simps Let_def)
  have "cw ! i = int (Suc k) * ws ! i - sum_list ws * int (count_list ps i)" if "i < length ws" for i
    using that IH len b nth_gain [OF len that]
    by (cases "i = ?b") (auto simp: eq round_simps algebra_simps)
  with IH b show ?case
    using round_balanced [OF _ assms(1,2), of cw1] by (auto simp: eq)
qed

lemma sum_list_nth_int: "sum_list (xs :: int list) = (\<Sum>i < length xs. xs ! i)"
  by (simp add: sum_list_sum_nth atLeast0LessThan)

lemma rounds_cycle:
  assumes "ws \<noteq> []" and "\<forall>w \<in> set ws. 0 < w"
    and "swrr_rounds (nat (sum_list ws)) ws (replicate (length ws) 0) = (cw, ps)"
  shows "cw = replicate (length ws) 0" and "i < length ws \<Longrightarrow> int (count_list ps i) = ws ! i"
proof -
  have tot: "0 < sum_list ws" by (rule sum_list_pos_int [OF assms(1,2)])
  note acc = rounds_account [OF assms]
  have cw: "cw ! i = sum_list ws * (ws ! i - int (count_list ps i))" if "i < length ws" for i
    using acc that tot by (simp add: algebra_simps)
  have le: "int (count_list ps i) \<le> ws ! i" if i: "i < length ws" for i
  proof (rule ccontr)
    assume "\<not> ?thesis"
    then have "sum_list ws * (ws ! i - int (count_list ps i)) \<le> sum_list ws * (- 1)"
      using tot by (intro mult_left_mono) auto
    with cw [OF i] acc i show False by (simp add: balanced_def) fastforce
  qed
  have "(\<Sum>i < length ws. int (count_list ps i)) = (\<Sum>i < length ws. ws ! i)"
  proof -
    have "(\<Sum>i < length ws. int (count_list ps i)) = int (sum (count_list ps) {..<length ws})" by simp
    also have "\<dots> = int (length ps)" using sum_count_set [of ps "{..<length ws}"] acc by simp
    also have "\<dots> = sum_list ws" using acc tot by simp
    finally show ?thesis by (simp add: sum_list_nth_int)
  qed
  then have all: "\<forall>i \<in> {..<length ws}. int (count_list ps i) = ws ! i"
    using sum_mono_inv [of "\<lambda>i. int (count_list ps i)" "{..<length ws}" "\<lambda>i. ws ! i"] le by auto
  then show "i < length ws \<Longrightarrow> int (count_list ps i) = ws ! i" by simp
  show "cw = replicate (length ws) 0"
    using acc all cw by (intro nth_equalityI) (auto simp: balanced_def)
qed

section \<open>The store runs the reference algorithm\<close>

text \<open>
  The cell an operation would work on, created or not, and the members a selection considers.
\<close>

definition cell_view :: "'sem HealthState \<Rightarrow> string \<Rightarrow> usize \<Rightarrow> BreakerCell option" where
  "cell_view h p l = map_option snd (cell_of h p l)"

definition swrr_member :: "'sem HealthState \<Rightarrow> string \<Rightarrow> u64 \<Rightarrow> usize \<Rightarrow> bool" where
  "swrr_member h p now l \<longleftrightarrow>
     lane_admissible h l = Some True
   \<and> (case cell_view h p l of None \<Rightarrow> False | Some c \<Rightarrow> cell_ready_breaker c now)"

lemma view_peek: "peek_cell h p l = Some c \<Longrightarrow> cell_view h p l = Some c"
  by (simp add: cell_view_def cells.fetch_existing)

lemma cell_of_view: "cell_of h p l = Some (h1, c) \<Longrightarrow> cell_view h p l = Some c"
  by (simp add: cell_view_def)

lemma cell_view_alt:
  "cell_view h p l =
     (case peek_cell h p l of
        Some c \<Rightarrow> Some c
      | None \<Rightarrow> if p = [] then None else map_option inherited_cell (get_lane h l))"
  by (auto simp: cell_view_def cell_of_def peek_cell_def Let_def split: option.split)

lemma cell_of_get_lane: "cell_of h p l = Some (h1, c) \<Longrightarrow> get_lane h1 m = get_lane h m"
  by (auto simp: cell_of_def bind_eq_Some_conv Let_def split: if_splits option.splits)

lemma fetch_keeps_view:
  assumes "cell_of h p l = Some (h1, c)"
  shows "cell_view h1 p m = cell_view h p m"
proof (cases "m = l")
  case True
  then show ?thesis using view_peek [OF cells.fetch_peek [OF assms]] cell_of_view [OF assms] by simp
next
  case False
  then show ?thesis
    using cells.fetch_other [OF assms, of p m] cell_of_get_lane [OF assms, of m] by (simp add: cell_view_alt split: option.split)
qed

lemma get_lane_put_cell: "m \<noteq> l \<or> p \<noteq> [] \<Longrightarrow> get_lane (put_cell h p l c) m = get_lane h m"
  by (auto simp: get_lane_def put_cell_def)

lemma lane_admissible_put_cell [simp]: "lane_admissible (put_cell h p l c) m = lane_admissible h m"
  by (cases "m = l"; cases "l < length (lanes h)") (auto simp: lane_admissible_def get_lane_def put_cell_def)

lemma put_view:
  assumes "peek_cell h p l = Some c0"
  shows "cell_view (put_cell h p l c) p m = (if m = l then Some c else cell_view h p m)"
proof (cases "m = l")
  case True
  then show ?thesis using view_peek [OF cells.put_same [OF assms]] by simp
next
  case False
  then show ?thesis
    using cells.put_other [of p m p l h c] get_lane_put_cell [of m l p h c] by (simp add: cell_view_alt split: option.split)
qed

text \<open>What a selection never changes: which cells of the pool exist and the lane-global gates.\<close>

definition same_gates :: "string \<Rightarrow> 'sem HealthState \<Rightarrow> 'sem HealthState \<Rightarrow> bool" where
  "same_gates p h h1 \<longleftrightarrow>
     (\<forall>m. lane_admissible h1 m = lane_admissible h m) \<and> length (lanes h1) = length (lanes h)
   \<and> (\<forall>m. peek_cell h p m \<noteq> None \<longrightarrow> peek_cell h1 p m \<noteq> None)"

lemma same_gates_refl [simp]: "same_gates p h h"
  by (simp add: same_gates_def)

lemma same_gates_trans: "same_gates p h h1 \<Longrightarrow> same_gates p h1 h2 \<Longrightarrow> same_gates p h h2"
  by (simp add: same_gates_def)

lemma fetch_gates:
  assumes "cell_of h p l = Some (h1, c)"
  shows "same_gates p h h1"
proof -
  have "lanes h1 = lanes h"
    using assms by (auto simp: cell_of_def bind_eq_Some_conv Let_def split: if_splits option.splits)
  moreover have "peek_cell h1 p m \<noteq> None" if "peek_cell h p m \<noteq> None" for m
    using cells.fetch_peek [OF assms] cells.fetch_other [OF assms, of p m] that by (cases "m = l") auto
  ultimately show ?thesis by (simp add: same_gates_def lane_admissible_def get_lane_def)
qed

lemma length_lanes_put_cell [simp]: "length (lanes (put_cell h p l c)) = length (lanes h)"
  by (simp add: put_cell_def)

lemma put_gates: "peek_cell h p l = Some c0 \<Longrightarrow> same_gates p h (put_cell h p l c)"
  unfolding same_gates_def
  using cells.put_same [of h p l c0 c] cells.put_other [of p _ p l h c] by auto (metis option.distinct(1))

lemma cell_of_Some: "cell_view h p l = Some c \<Longrightarrow> \<exists>h1. cell_of h p l = Some (h1, c)"
  by (auto simp: cell_view_def)

lemma add_weight_spec:
  assumes "cell_view h p l = Some c"
  shows "\<exists>h1. add_weight h p l w = Some h1 \<and> same_gates p h h1 \<and> peek_cell h1 p l \<noteq> None
    \<and> (\<forall>m. cell_view h1 p m =
          (if m = l then Some (c\<lparr>current_weight := wrap_i64 (current_weight c + w)\<rparr>) else cell_view h p m))"
proof -
  obtain h1 where f: "cell_of h p l = Some (h1, c)" using cell_of_Some [OF assms] by blast
  note pk = cells.fetch_peek [OF f]
  let ?c = "c\<lparr>current_weight := wrap_i64 (current_weight c + w)\<rparr>"
  have "same_gates p h (put_cell h1 p l ?c)" by (rule same_gates_trans [OF fetch_gates [OF f] put_gates [OF pk]])
  with f show ?thesis
    using put_view [OF pk, of ?c] fetch_keeps_view [OF f] cells.put_same [OF pk, of ?c]
    by (simp add: add_weight_def)
qed

definition bump :: "i64 \<Rightarrow> BreakerCell \<Rightarrow> BreakerCell" where
  "bump w c = c\<lparr>current_weight := wrap_i64 (current_weight c + w)\<rparr>"

lemma add_weights_spec:
  assumes "distinct (map fst hs)" and "\<forall>l \<in> fst ` set hs. cell_view h p l \<noteq> None"
  shows "\<exists>h1. add_weights h p hs = Some h1 \<and> same_gates p h h1
    \<and> (\<forall>l \<in> fst ` set hs. peek_cell h1 p l \<noteq> None)
    \<and> (\<forall>m. cell_view h1 p m =
          (case map_of hs m of None \<Rightarrow> cell_view h p m | Some w \<Rightarrow> map_option (bump w) (cell_view h p m)))"
  using assms
proof (induction hs arbitrary: h)
  case Nil
  then show ?case by simp
next
  case (Cons lw hs)
  obtain l w where lw: "lw = (l, w)" by fastforce
  with Cons.prems obtain c where c: "cell_view h p l = Some c" by fastforce
  obtain h1 where h1: "add_weight h p l w = Some h1" "same_gates p h h1" "peek_cell h1 p l \<noteq> None"
    and v1: "\<And>m. cell_view h1 p m = (if m = l then Some (bump w c) else cell_view h p m)"
    using add_weight_spec [OF c, of w] by (auto simp: bump_def)
  have "\<forall>m \<in> fst ` set hs. cell_view h1 p m \<noteq> None" using Cons.prems(2) by (auto simp: v1)
  with Cons.IH [of h1] Cons.prems(1) obtain h2 where h2: "add_weights h1 p hs = Some h2" "same_gates p h1 h2"
    "\<forall>l \<in> fst ` set hs. peek_cell h2 p l \<noteq> None"
    and v2: "\<And>m. cell_view h2 p m =
      (case map_of hs m of None \<Rightarrow> cell_view h1 p m | Some w \<Rightarrow> map_option (bump w) (cell_view h1 p m))"
    by auto
  have l: "map_of hs l = None" using Cons.prems(1) lw by (simp add: map_of_eq_None_iff)
  have "cell_view h2 p m =
      (case map_of (lw # hs) m of None \<Rightarrow> cell_view h p m | Some w \<Rightarrow> map_option (bump w) (cell_view h p m))" for m
    using v2 [of m] v1 [of m] l c lw by (auto split: option.split)
  moreover have "peek_cell h2 p l \<noteq> None" using h1(3) h2(2) by (simp add: same_gates_def)
  ultimately show ?case
    using h1 h2 lw by (auto intro: same_gates_trans)
qed

lemma swrr_member_gates:
  "same_gates p h h1 \<Longrightarrow> cell_view h1 p l = cell_view h p l \<Longrightarrow> swrr_member h1 p now l = swrr_member h p now l"
  by (simp add: swrr_member_def same_gates_def)

definition healthy_of :: "'sem HealthState \<Rightarrow> string \<Rightarrow> u64 \<Rightarrow> (usize \<times> u32) list \<Rightarrow> (usize \<times> i64) list" where
  "healthy_of h p now cws =
     map (\<lambda>(l, w). (l, int w)) (filter (\<lambda>(l, w). w \<noteq> 0 \<and> swrr_member h p now l) cws)"

lemma healthy_of_cong:
  "(\<And>l. swrr_member h1 p now l = swrr_member h p now l) \<Longrightarrow> healthy_of h1 p now cws = healthy_of h p now cws"
  by (simp add: healthy_of_def)

lemma swrr_healthy_spec:
  assumes "\<forall>(l, w) \<in> set cws. l < length (lanes h)"
  shows "\<exists>h1. swrr_healthy h p now cws = Some (h1, healthy_of h p now cws) \<and> same_gates p h h1
    \<and> (\<forall>m. cell_view h1 p m = cell_view h p m)"
  using assms
proof (induction cws arbitrary: h)
  case Nil
  then show ?case by (simp add: healthy_of_def)
next
  case (Cons cw cws)
  obtain l w where cw: "cw = (l, w)" by fastforce
  have l: "l < length (lanes h)" using Cons.prems cw by simp
  then obtain adm where adm: "lane_admissible h l = Some adm"
    by (simp add: lane_admissible_def get_lane_def)
  show ?case
  proof (cases "w = 0 \<or> \<not> adm")
    case True
    with Cons.IH [of h] Cons.prems adm cw show ?thesis
      by (auto simp: healthy_of_def swrr_member_def)
  next
    case False
    have "cell_of h p l \<noteq> None"
      using l by (simp add: cell_of_def get_lane_def Let_def split: option.split)
    then obtain h1 c where f: "cell_of h p l = Some (h1, c)" by auto
    note g = fetch_gates [OF f]
    have mem: "swrr_member h1 p now m = swrr_member h p now m" for m
      by (rule swrr_member_gates [OF g fetch_keeps_view [OF f]])
    have "\<forall>(l, w) \<in> set cws. l < length (lanes h1)" using Cons.prems g by (auto simp: same_gates_def)
    from Cons.IH [OF this] obtain h2 where h2: "swrr_healthy h1 p now cws = Some (h2, healthy_of h p now cws)"
      "same_gates p h1 h2" "\<And>m. cell_view h2 p m = cell_view h1 p m"
      by (auto simp: healthy_of_cong [OF mem])
    have "swrr_member h p now l = cell_ready_breaker c now"
      using adm False cell_of_view [OF f] by (simp add: swrr_member_def)
    with False cw adm f h2 same_gates_trans [OF g h2(2)] fetch_keeps_view [OF f] show ?thesis
      by (auto simp: healthy_of_def)
  qed
qed

text \<open>The search for the largest accumulator, on the values it reads.\<close>

fun best_of :: "(usize \<times> int) list \<Rightarrow> usize option \<Rightarrow> int \<Rightarrow> usize option" where
  "best_of [] best bw = best"
| "best_of ((l, x) # xs) best bw = (if x > bw then best_of xs (Some l) x else best_of xs best bw)"

lemma swrr_best_of:
  "\<forall>l \<in> fst ` set hs. peek_cell h p l \<noteq> None \<Longrightarrow>
   swrr_best h p hs best bw = Some (best_of (map (\<lambda>(l, _). (l, current_weight (the (cell_view h p l)))) hs) best bw)"
  by (induction hs arbitrary: best bw) (auto simp: view_peek)

lemma best_of_first_max:
  "length ls = length xs \<Longrightarrow>
   best_of (zip ls xs) best bw = (if \<forall>x \<in> set xs. x \<le> bw then best else Some (ls ! first_max xs))"
proof (induction ls xs arbitrary: best bw rule: list_induct2)
  case (Cons l ls x xs)
  show ?case
  proof (cases "xs = []")
    case True
    with Cons.hyps show ?thesis by auto
  next
    case False
    have j: "first_max xs < length xs" by (rule first_max_less [OF False])
    have all: "(\<forall>y \<in> set xs. y \<le> a) \<longleftrightarrow> xs ! first_max xs \<le> a" for a
      by (metis first_max_ge in_set_conv_nth j order_trans)
    have "first_max (x # xs) = (if xs ! first_max xs > x then Suc (first_max xs) else 0)"
      using False by (cases xs) (auto simp: Let_def)
    then show ?thesis by (auto simp: Cons.IH all)
  qed
qed simp

definition acc_of :: "'sem HealthState \<Rightarrow> string \<Rightarrow> usize \<Rightarrow> i64" where
  "acc_of h p l = current_weight (the (cell_view h p l))"

definition gained :: "'sem HealthState \<Rightarrow> string \<Rightarrow> (usize \<times> i64) list \<Rightarrow> i64 list" where
  "gained h p hs = map (\<lambda>(l, w). wrap_i64 (acc_of h p l + w)) hs"

definition pick_of :: "'sem HealthState \<Rightarrow> string \<Rightarrow> (usize \<times> i64) list \<Rightarrow> usize option" where
  "pick_of h p hs =
     (if \<forall>x \<in> set (gained h p hs). x \<le> i64_min then None else Some (map fst hs ! first_max (gained h p hs)))"

lemma pick_of_mem:
  assumes "pick_of h p hs = Some l"
  shows "l \<in> fst ` set hs"
proof -
  have "hs \<noteq> []" using assms by (auto simp: pick_of_def gained_def split: if_splits)
  then have "first_max (gained h p hs) < length hs"
    using first_max_less [of "gained h p hs"] by (simp add: gained_def)
  then show ?thesis using assms by (auto simp: pick_of_def split: if_splits)
qed

lemma swrr_shard_gates: "same_gates p h (fst (swrr_shard h q))"
  by (simp add: same_gates_def lane_admissible_def get_lane_def)

lemma swrr_shard_view: "cell_view (fst (swrr_shard h q)) p m = cell_view h p m"
  by (simp add: cell_view_alt get_lane_def split: option.split)

lemma healthy_of_view: "l \<in> fst ` set (healthy_of h p now cws) \<Longrightarrow> cell_view h p l \<noteq> None"
  by (auto simp: healthy_of_def swrr_member_def split: option.splits)

lemma distinct_healthy: "distinct (map fst cws) \<Longrightarrow> distinct (map fst (healthy_of h p now cws))"
  by (simp add: healthy_of_def comp_def case_prod_unfold distinct_map_filter)

lemma select_spec:
  assumes "distinct cs" and "\<forall>l \<in> set cs. l < length (lanes h)" and "hs = healthy_of h p now (zip cs ws)"
  shows "\<exists>h'. select_weighted_for h p cs ws now = Some (h', pick_of h p hs) \<and> same_gates p h h'
    \<and> (\<forall>m. cell_view h' p m =
         map_option (\<lambda>c. let d = (case map_of hs m of None \<Rightarrow> c | Some w \<Rightarrow> bump w c)
                         in if pick_of h p hs = Some m then bump (- sum_list (map snd hs)) d else d)
           (cell_view h p m))"
proof -
  have "\<forall>(l, w) \<in> set (zip cs ws). l < length (lanes h)" using assms(2) by (auto dest: set_zip_leftD)
  from swrr_healthy_spec [OF this, of p now] obtain h1 where
    h1: "swrr_healthy h p now (zip cs ws) = Some (h1, hs)" "same_gates p h h1"
    and v1: "\<And>m. cell_view h1 p m = cell_view h p m"
    by (auto simp: assms(3))
  have dist: "distinct (map fst hs)"
    unfolding assms(3) by (intro distinct_healthy) (use assms(1) in \<open>simp add: map_fst_zip_take\<close>)
  let ?h2 = "fst (swrr_shard h1 p)"
  have view: "\<forall>l \<in> fst ` set hs. cell_view ?h2 p l \<noteq> None"
    by (simp only: swrr_shard_view v1 assms(3)) (intro ballI, erule healthy_of_view)
  obtain h3 where h3: "add_weights ?h2 p hs = Some h3" "same_gates p ?h2 h3" "\<forall>l \<in> fst ` set hs. peek_cell h3 p l \<noteq> None"
    and v3: "\<And>m. cell_view h3 p m =
      (case map_of hs m of None \<Rightarrow> cell_view h p m | Some w \<Rightarrow> map_option (bump w) (cell_view h p m))"
    using add_weights_spec [OF dist view, unfolded swrr_shard_view v1] by blast
  have g3: "same_gates p h h3" by (rule same_gates_trans [OF same_gates_trans [OF h1(2) swrr_shard_gates] h3(2)])
  have acc: "current_weight (the (cell_view h3 p l)) = wrap_i64 (acc_of h p l + w)" if "(l, w) \<in> set hs" for l w
  proof -
    have "map_of hs l = Some w" using dist that by simp
    moreover have "l \<in> fst ` set hs" using that by (rule image_eqI [rotated]) simp
    then obtain c where "cell_view h p l = Some c"
      using view unfolding swrr_shard_view v1 by blast
    ultimately show ?thesis by (simp add: v3 acc_of_def bump_def)
  qed
  then have "map (\<lambda>(l, _). (l, current_weight (the (cell_view h3 p l)))) hs = zip (map fst hs) (gained h p hs)"
    unfolding gained_def by (auto simp: zip_map_map zip_same_conv_map)
  with swrr_best_of [OF h3(3), of None i64_min] have best: "swrr_best h3 p hs None i64_min = Some (pick_of h p hs)"
    by (simp add: best_of_first_max pick_of_def gained_def)
  show ?thesis
  proof (cases "pick_of h p hs")
    case None
    have "hs \<noteq> [] \<Longrightarrow> select_weighted_for h p cs ws now = Some (h3, None)"
      using h1 h3 best None by (simp add: select_weighted_for_def)
    moreover have "hs = [] \<Longrightarrow> select_weighted_for h p cs ws now = Some (h1, None)"
      using h1 by (simp add: select_weighted_for_def)
    ultimately show ?thesis
      using None g3 h1(2) by (cases "hs = []") (auto simp: v1 v3 option.map_ident option.map_comp split: option.split)
  next
    case (Some l)
    then have l: "l \<in> fst ` set hs" by (rule pick_of_mem)
    then have ne: "hs \<noteq> []" by auto
    from l obtain d where d: "cell_view h3 p l = Some d"
      using h3(3) view_peek by fastforce
    obtain h4 where "add_weight h3 p l (- sum_list (map snd hs)) = Some h4" "same_gates p h3 h4"
      "\<And>m. cell_view h4 p m = (if m = l then Some (bump (- sum_list (map snd hs)) d) else cell_view h3 p m)"
      using add_weight_spec [OF d, of "- sum_list (map snd hs)", folded bump_def] by blast
    then show ?thesis
      using h1 h3 best Some ne d g3
      by (auto simp: select_weighted_for_def v3 option.map_comp comp_def option.map_ident intro: same_gates_trans split: option.split)
  qed
qed

section \<open>Fairness on the store\<close>

lemma ready_later: "cell_ready_breaker c now \<Longrightarrow> now \<le> t \<Longrightarrow> cell_ready_breaker c t"
  by (auto simp: cell_ready_breaker_def breaker_verdict_def split: if_splits)

lemma member_later: "swrr_member h p now l \<Longrightarrow> now \<le> t \<Longrightarrow> swrr_member h p t l"
  by (auto simp: swrr_member_def intro: ready_later split: option.splits)

lemma ready_bump [simp]: "cell_ready_breaker (bump w c) now = cell_ready_breaker c now"
  by (simp add: cell_ready_breaker_def breaker_verdict_def bump_def)

lemma member_bumped:
  assumes "same_gates p h h'" and "cell_view h' p l = map_option f (cell_view h p l)"
    and "\<And>c. cell_ready_breaker (f c) now = cell_ready_breaker c now"
  shows "swrr_member h' p now l = swrr_member h p now l"
  using assms by (auto simp: swrr_member_def same_gates_def split: option.split)

lemma balanced_upper:
  assumes "balanced ws cw" and "i < length ws"
  shows "cw ! i + sum_list ws \<le> int (length ws) * sum_list ws"
proof -
  have "cw ! i + sum_list ws \<le> (\<Sum>j < length ws. cw ! j + sum_list ws)"
    using assms by (intro member_le_sum) (force simp: balanced_def)+
  also have "\<dots> = sum_list cw + int (length ws) * sum_list ws"
    using assms(1) by (simp add: sum.distrib sum_list_nth_int balanced_def)
  finally show ?thesis using assms(1) by (simp add: balanced_def)
qed

lemma gain_in_range:
  assumes "balanced ws cw" and "\<forall>w \<in> set ws. 0 < w" and "ws \<noteq> []"
    and "int (length ws) * sum_list ws \<le> i64_max" and "i < length ws"
  shows "- sum_list ws < swrr_gain ws cw ! i" and "swrr_gain ws cw ! i \<le> int (length ws) * sum_list ws"
proof -
  have w: "0 < ws ! i" "ws ! i \<le> sum_list ws"
    using assms(2,5) member_le_sum [of i "{..<length ws}" "\<lambda>j. ws ! j"] by (auto simp: sum_list_nth_int less_imp_le)
  have len: "length cw = length ws" using assms(1) by (simp add: balanced_def)
  show "- sum_list ws < swrr_gain ws cw ! i" "swrr_gain ws cw ! i \<le> int (length ws) * sum_list ws"
    using balanced_upper [OF assms(1,5)] w assms(1,5) nth_gain [OF len assms(5)] by (auto simp: balanced_def)
qed

lemma zip_all_healthy:
  assumes "length ws = length cs" and "\<forall>w \<in> set ws. 0 < w" and "\<forall>l \<in> set cs. swrr_member h p now l"
  shows "healthy_of h p now (zip cs ws) = zip cs (map int ws)"
proof -
  have "filter (\<lambda>(l, w). w \<noteq> 0 \<and> swrr_member h p now l) (zip cs ws) = zip cs ws"
    using assms by (intro filter_True) (auto dest: set_zip_leftD set_zip_rightD)
  then show ?thesis by (simp add: healthy_of_def zip_map2)
qed

lemma selection_is_round:
  assumes "distinct cs" and "\<forall>l \<in> set cs. l < length (lanes h)" and "length ws = length cs" and "cs \<noteq> []"
    and "\<forall>w \<in> set ws. 0 < w" and "\<forall>l \<in> set cs. swrr_member h p now l"
    and "balanced (map int ws) (map (acc_of h p) cs)"
    and "int (length cs) * sum_list (map int ws) \<le> i64_max"
  shows "\<exists>h'. select_weighted_for h p cs ws now =
      Some (h', Some (cs ! snd (swrr_round (map int ws) (map (acc_of h p) cs))))
    \<and> map (acc_of h' p) cs = fst (swrr_round (map int ws) (map (acc_of h p) cs))
    \<and> length (lanes h') = length (lanes h) \<and> (\<forall>l t. swrr_member h' p t l = swrr_member h p t l)"
proof -
  let ?W = "map int ws" let ?A = "map (acc_of h p) cs" let ?G = "swrr_gain ?W ?A" let ?b = "first_max ?G"
  let ?hs = "zip cs ?W"
  have W: "\<forall>w \<in> set ?W. 0 < w" "?W \<noteq> []" "length ?W = length cs" "length ?A = length ?W"
    using assms(3-5) by auto
  note range = gain_in_range [OF assms(7) W(1,2)]
  have pos: "0 < sum_list ?W" by (rule sum_list_pos_int [OF W(2,1)])
  have "1 * sum_list ?W \<le> int (length cs) * sum_list ?W"
    using pos assms(4) by (intro mult_right_mono) (cases cs, auto)
  with pos assms(8) have tot: "0 < sum_list ?W" "sum_list ?W \<le> i64_max" by linarith+
  have small: "- sum_list ?W < ?G ! i" "?G ! i \<le> i64_max" "i64_min < ?G ! i" if "i < length cs" for i
    using range [of i] that W(3) assms(8) tot by (auto simp: i64_max_def i64_min_def)
  have lenG: "length ?G = length cs" using W by simp
  have top: "0 < ?G ! ?b"
    using max_pos [of ?G] lenG assms(4,7) tot sum_gain [OF W(4)] by (force simp: balanced_def)
  have gn: "wrap_i64 (acc_of h p (cs ! i) + ?W ! i) = ?G ! i" if "i < length cs" for i
    using small [OF that] that W nth_gain [OF W(4), of i] by (simp add: wrap_i64_exact less_imp_le)
  have "gained h p ?hs = ?G"
    using lenG W(3) gn by (intro nth_equalityI) (auto simp: gained_def)
  moreover have b: "?b < length cs" using picked_less [OF W(4,2)] W(3) by simp
  moreover have "\<not> (\<forall>x \<in> set ?G. x \<le> i64_min)"
    using small(3) [OF b] b lenG nth_mem [of ?b ?G] by (metis not_less)
  moreover have "map fst ?hs = cs" using W(3) by simp
  ultimately have pick: "pick_of h p ?hs = Some (cs ! ?b)" by (simp add: pick_of_def)
  have snd_hs: "map snd ?hs = ?W" using W(3) by simp
  obtain h' where h': "select_weighted_for h p cs ws now = Some (h', Some (cs ! ?b))" "same_gates p h h'"
    and v: "\<And>m. cell_view h' p m =
         map_option (\<lambda>c. let d = (case map_of ?hs m of None \<Rightarrow> c | Some w \<Rightarrow> bump w c)
                         in if cs ! ?b = m then bump (- sum_list ?W) d else d) (cell_view h p m)"
    using select_spec [OF assms(1,2) zip_all_healthy [OF assms(3,5,6), symmetric],
        unfolded pick snd_hs option.inject] by blast
  have "acc_of h' p (cs ! i) = fst (swrr_round ?W ?A) ! i" if i: "i < length cs" for i
  proof -
    obtain c where c: "cell_view h p (cs ! i) = Some c"
      using assms(6) i by (auto simp: swrr_member_def split: option.splits dest: nth_mem)
    have "map_of ?hs (cs ! i) = Some (?W ! i)"
      using assms(1) i W(3) by (intro map_of_is_SomeI) (auto simp: in_set_zip)
    with v [of "cs ! i"] c gn [OF i] have "acc_of h' p (cs ! i) =
        (if cs ! ?b = cs ! i then wrap_i64 (?G ! i + - sum_list ?W) else ?G ! i)"
      by (simp add: acc_of_def bump_def)
    also have "\<dots> = (if ?b = i then ?G ! i - sum_list ?W else ?G ! i)"
    proof (cases "?b = i")
      case True
      have "wrap_i64 (?G ! i + - sum_list ?W) = ?G ! i + - sum_list ?W"
        using top small [OF i] tot True by (intro wrap_i64_exact) (auto simp: i64_max_def i64_min_def)
      with True show ?thesis by simp
    qed (use b i assms(1) in \<open>simp add: nth_eq_iff_index_eq\<close>)
    finally show ?thesis using i lenG by (auto simp: round_simps)
  qed
  then have "map (acc_of h' p) cs = fst (swrr_round ?W ?A)"
    using lenG by (intro nth_equalityI) (auto simp: round_simps)
  moreover have "swrr_member h' p t l = swrr_member h p t l" for l t
    by (rule member_bumped [OF h'(2) v]) (simp add: Let_def split: option.split)
  ultimately show ?thesis using h' by (auto simp: same_gates_def round_simps)
qed

lemma swrr_rounds_Cons:
  "swrr_rounds (Suc k) ws cw =
     (fst (swrr_rounds k ws (fst (swrr_round ws cw))),
      snd (swrr_round ws cw) # snd (swrr_rounds k ws (fst (swrr_round ws cw))))"
proof (induction k)
  case (Suc k)
  have "swrr_rounds (Suc (Suc k)) ws cw =
      (fst (swrr_round ws (fst (swrr_rounds (Suc k) ws cw))),
       snd (swrr_rounds (Suc k) ws cw) @ [snd (swrr_round ws (fst (swrr_rounds (Suc k) ws cw)))])"
    by (simp add: case_prod_unfold Let_def)
  then show ?case unfolding Suc.IH by (simp add: case_prod_unfold Let_def)
qed (simp add: case_prod_unfold Let_def)

text \<open>A run of selections, one at each of the given times.\<close>

fun select_times ::
  "'sem HealthState \<Rightarrow> string \<Rightarrow> usize list \<Rightarrow> u32 list \<Rightarrow> u64 list \<Rightarrow> ('sem HealthState \<times> usize option list) option" where
  "select_times h pool cs ws [] = Some (h, [])"
| "select_times h pool cs ws (t # ts) =
     do {
       (h1, r) \<leftarrow> select_weighted_for h pool cs ws t;
       (h2, rs) \<leftarrow> select_times h1 pool cs ws ts;
       Some (h2, r # rs)
     }"

lemma selections_are_rounds:
  assumes "distinct cs" and "length ws = length cs" and "cs \<noteq> []" and "\<forall>w \<in> set ws. 0 < w"
    and "int (length cs) * sum_list (map int ws) \<le> i64_max"
    and "\<forall>l \<in> set cs. l < length (lanes h)" and "\<forall>l \<in> set cs. swrr_member h p now l"
    and "balanced (map int ws) (map (acc_of h p) cs)" and "\<forall>t \<in> set ts. now \<le> t"
  shows "\<exists>h'. select_times h p cs ws ts =
      Some (h', map (\<lambda>i. Some (cs ! i)) (snd (swrr_rounds (length ts) (map int ws) (map (acc_of h p) cs))))
    \<and> map (acc_of h' p) cs = fst (swrr_rounds (length ts) (map int ws) (map (acc_of h p) cs))"
  using assms(6-9)
proof (induction ts arbitrary: h)
  case Nil
  then show ?case by simp
next
  case (Cons t ts)
  let ?A = "map (acc_of h p) cs"
  have W: "map int ws \<noteq> []" "\<forall>w \<in> set (map int ws). 0 < w" using assms(2-4) by auto
  have "\<forall>l \<in> set cs. swrr_member h p t l" using Cons.prems by (auto intro: member_later)
  from selection_is_round [OF assms(1) Cons.prems(1) assms(2-4) this Cons.prems(3) assms(5)]
  obtain h1 where h1: "select_weighted_for h p cs ws t = Some (h1, Some (cs ! snd (swrr_round (map int ws) ?A)))"
    "map (acc_of h1 p) cs = fst (swrr_round (map int ws) ?A)" "length (lanes h1) = length (lanes h)"
    "\<And>l t. swrr_member h1 p t l = swrr_member h p t l"
    by blast
  have bal: "balanced (map int ws) (map (acc_of h1 p) cs)"
    unfolding h1(2) by (rule round_balanced [OF Cons.prems(3) W])
  obtain h2 where "select_times h1 p cs ws ts =
      Some (h2, map (\<lambda>i. Some (cs ! i)) (snd (swrr_rounds (length ts) (map int ws) (map (acc_of h1 p) cs))))"
    "map (acc_of h2 p) cs = fst (swrr_rounds (length ts) (map int ws) (map (acc_of h1 p) cs))"
    using Cons.IH [of h1] Cons.prems h1(3,4) bal by auto
  then show ?case
    using h1(1,2) by (simp add: swrr_rounds_Cons del: swrr_rounds.simps)
qed

lemma count_picks:
  "distinct cs \<Longrightarrow> set ps \<subseteq> {..<length cs} \<Longrightarrow> i < length cs \<Longrightarrow>
   count_list (map (\<lambda>j. Some (cs ! j)) ps) (Some (cs ! i)) = count_list ps i"
  by (induction ps) (auto simp: nth_eq_iff_index_eq)

lemma sum_list_bound: "\<forall>w \<in> set ws. w \<le> b \<Longrightarrow> sum_list (map int ws) \<le> int (length ws) * int b"
  by (induction ws) (auto simp: algebra_simps)

lemma sum_list_int: "sum_list (map int ws) = int (sum_list ws)"
  by (induction ws) auto

lemma weights_fit:
  assumes "n \<le> 32768" and "\<forall>w \<in> set ws. w \<le> u32_max" and "length ws = n"
  shows "int n * sum_list (map int ws) \<le> i64_max"
proof -
  have "sum_list (map int ws) \<le> int n * int u32_max" using sum_list_bound [OF assms(2)] assms(3) by simp
  also have "\<dots> \<le> 32768 * int u32_max" using assms(1) by (intro mult_right_mono) auto
  finally have "int n * sum_list (map int ws) \<le> int n * (32768 * int u32_max)" by (intro mult_left_mono) auto
  also have "\<dots> \<le> 32768 * (32768 * int u32_max)" using assms(1) by (intro mult_right_mono) auto
  finally show ?thesis by (simp add: u32_max_def i64_max_def)
qed

text \<open>
  C2: the selection is exactly proportional. Take up to 32768 distinct ready members with
  positive 32-bit weights and fresh accumulators. Then as many selections as the weights sum to,
  at any times from then on, choose each member exactly as often as its weight says, never
  overflow the accumulators, and leave them at zero again.
\<close>

theorem swrr_fair_cycle:
  assumes "distinct cs" and "cs \<noteq> []" and "length cs \<le> 32768" and "length ws = length cs"
    and "\<forall>w \<in> set ws. 0 < w \<and> w \<le> u32_max"
    and "\<forall>l \<in> set cs. l < length (lanes h) \<and> swrr_member h pool now l \<and> acc_of h pool l = 0"
    and "length ts = sum_list ws" and "\<forall>t \<in> set ts. now \<le> t"
  shows "\<exists>h' rs. select_times h pool cs ws ts = Some (h', rs)
    \<and> (\<forall>i < length cs. count_list rs (Some (cs ! i)) = ws ! i)
    \<and> (\<forall>l \<in> set cs. acc_of h' pool l = 0)"
proof -
  let ?W = "map int ws"
  have W: "?W \<noteq> []" "\<forall>w \<in> set ?W. 0 < w" using assms(2,4,5) by auto
  have zero: "map (acc_of h pool) cs = replicate (length ?W) 0"
    using assms(4,6) by (intro nth_equalityI) auto
  have bal: "balanced ?W (replicate (length ?W) 0)"
    using rounds_account [OF W, of 0] by simp
  have tot: "nat (sum_list ?W) = length ts" by (simp add: assms(7) sum_list_int)
  obtain cw ps where r: "swrr_rounds (length ts) ?W (replicate (length ?W) 0) = (cw, ps)" by fastforce
  note cyc = rounds_cycle [OF W, unfolded tot, OF r]
  have ps: "set ps \<subseteq> {..<length cs}" using rounds_account [OF W r] assms(4) by simp
  have "\<exists>h'. select_times h pool cs ws ts = Some (h', map (\<lambda>i. Some (cs ! i)) ps) \<and> map (acc_of h' pool) cs = cw"
    using selections_are_rounds [OF assms(1,4,2) _ weights_fit [OF assms(3) _ assms(4)], of h pool now ts]
      assms(5,6,8) bal r by (simp add: zero)
  then obtain h' where "select_times h pool cs ws ts = Some (h', map (\<lambda>i. Some (cs ! i)) ps)"
    and acc: "map (acc_of h' pool) cs = replicate (length ws) 0"
    using cyc(1) by auto
  moreover have "acc_of h' pool l = 0" if "l \<in> set cs" for l
    using acc that by (metis imageI in_set_replicate list.set_map)
  moreover have "count_list (map (\<lambda>i. Some (cs ! i)) ps) (Some (cs ! i)) = ws ! i" if "i < length cs" for i
    using cyc(2) [of i] that assms(4) by (simp add: count_picks [OF assms(1) ps that])
  ultimately show ?thesis by blast
qed

theorem swrr_fair_cycle_witness:
  "\<exists>h' rs. select_times (new_with_limits [sample_lane, sample_lane] 1800 86400) ''pool'' [0, 1] [1, 2] [5, 6, 9]
      = Some (h', rs) \<and> count_list rs (Some 0) = 1 \<and> count_list rs (Some 1) = 2"
proof -
  let ?h = "new_with_limits [sample_lane, sample_lane] 1800 86400"
  have "\<forall>l \<in> set [0, 1]. l < length (lanes ?h) \<and> swrr_member ?h ''pool'' 5 l \<and> acc_of ?h ''pool'' l = 0"
    by (simp add: sample_simps swrr_member_def acc_of_def cell_view_def cell_of_def get_lane_def lane_cells_def
        lane_admissible_def inherited_cell_def cell_new_def cell_ready_breaker_def breaker_verdict_def Let_def)
  from swrr_fair_cycle [OF _ _ _ _ _ this, of "[1, 2]" "[5, 6, 9]"] show ?thesis
    by (force simp: u32_max_def less_Suc_eq)
qed

text \<open>
  A selection only ever chooses a member that may serve. It never panics on lanes of the
  store; the chosen lane is a candidate with a non-zero weight that is not dead, has budget and
  whose breaker admits; when no candidate is like that it chooses none; and it changes nothing
  but the accumulators of the pool's cells.
\<close>

lemma swrr_selects_healthy:
  assumes "distinct cs" and "\<forall>l \<in> set cs. l < length (lanes h)"
  shows "\<exists>h' r. select_weighted_for h pool cs ws now = Some (h', r)
    \<and> (\<forall>l. r = Some l \<longrightarrow> (\<exists>w. (l, w) \<in> set (zip cs ws) \<and> w \<noteq> 0 \<and> swrr_member h pool now l))
    \<and> ((\<forall>(l, w) \<in> set (zip cs ws). w = 0 \<or> \<not> swrr_member h pool now l) \<longrightarrow> r = None)
    \<and> (\<forall>m. \<exists>x. cell_view h' pool m = map_option (current_weight_update (\<lambda>_. x)) (cell_view h pool m))
    \<and> (\<forall>m. lane_admissible h' m = lane_admissible h m)"
proof -
  define hs where "hs = healthy_of h pool now (zip cs ws)"
  obtain h' where sel: "select_weighted_for h pool cs ws now = Some (h', pick_of h pool hs)" and g: "same_gates pool h h'"
    and v: "\<And>m. cell_view h' pool m =
         map_option (\<lambda>c. let d = (case map_of hs m of None \<Rightarrow> c | Some w \<Rightarrow> bump w c)
                         in if pick_of h pool hs = Some m then bump (- sum_list (map snd hs)) d else d)
           (cell_view h pool m)"
    using select_spec [OF assms hs_def] by blast
  have "\<exists>w. (l, w) \<in> set (zip cs ws) \<and> w \<noteq> 0 \<and> swrr_member h pool now l" if "pick_of h pool hs = Some l" for l
    using pick_of_mem [OF that] by (auto simp: hs_def healthy_of_def)
  moreover have "pick_of h pool hs = None"
    if "\<forall>(l, w) \<in> set (zip cs ws). w = 0 \<or> \<not> swrr_member h pool now l"
  proof -
    have "hs = []" using that by (auto simp: hs_def healthy_of_def filter_empty_conv)
    then show ?thesis by (simp add: pick_of_def gained_def)
  qed
  moreover have "\<exists>x. cell_view h' pool m = map_option (current_weight_update (\<lambda>_. x)) (cell_view h pool m)" for m
  proof (cases "cell_view h pool m")
    case (Some c)
    then have "\<exists>x. cell_view h' pool m = Some (c\<lparr>current_weight := x\<rparr>)"
      by (auto simp: v bump_def Let_def split: option.split) (metis BreakerCell.surjective BreakerCell.update_convs(8))+
    with Some show ?thesis by simp
  qed (simp add: v)
  ultimately show ?thesis using sel g unfolding same_gates_def by blast
qed

end
