(* ===== verification/Store_Machine.thy ===== *)
theory Store_Machine
  imports Lane_Availability Lane_Swrr
begin

text \<open>
  The lane store as a state machine: one step is one operation of the store, in any order and
  with any arguments, the clock included. The invariant is \<open>store_wf\<close>; the lifetime budget
  is metered by a ghost count of the spends that have not been refunded.
\<close>

section \<open>Operations keep the invariant and the meters\<close>

definition meters :: "'sem HealthState \<Rightarrow> (bool \<times> i64) list" where
  "meters h = map (\<lambda>ls. (ls_limited ls, ls_budget ls)) (lanes h)"

definition keeps :: "'sem HealthState \<Rightarrow> 'sem HealthState \<Rightarrow> bool" where
  "keeps h h1 \<longleftrightarrow> (store_wf h \<longrightarrow> store_wf h1) \<and> meters h1 = meters h"

lemma keeps_refl [simp]: "keeps h h"
  by (simp add: keeps_def)

lemma keeps_trans: "keeps h h1 \<Longrightarrow> keeps h1 h2 \<Longrightarrow> keeps h h2"
  by (simp add: keeps_def)

lemma meters_put_cell [simp]: "meters (put_cell h p l c) = meters h"
  by (cases "l < length (lanes h)")
    (auto simp: meters_def put_cell_def map_update list_update_beyond intro!: nth_equalityI simp: nth_list_update)

lemma meters_put_lane:
  "get_lane h l = Some ls \<Longrightarrow> ls_limited ls' = ls_limited ls \<Longrightarrow> ls_budget ls' = ls_budget ls \<Longrightarrow>
   meters (put_lane h l ls') = meters h"
  by (auto simp: meters_def put_lane_def get_lane_def map_update intro!: nth_equalityI simp: nth_list_update split: if_splits)

lemma keeps_fetch: "cell_of h p l = Some (h1, c) \<Longrightarrow> keeps h h1"
  by (auto simp: keeps_def meters_def cell_of_lanes dest: store_wf_cell_of)

lemma keeps_rmw:
  "cell_of h p l = Some (h1, c) \<Longrightarrow> (cell_wf c \<Longrightarrow> cell_wf d) \<Longrightarrow> keeps h (put_cell h1 p l d)"
  using store_wf_cell_of [of h p l h1 c] store_wf_put_cell [of h1 d p l] cell_of_lanes [of h p l h1 c]
  by (simp add: keeps_def) (simp add: meters_def)

lemma keeps_put_lane:
  "get_lane h l = Some ls \<Longrightarrow> ls_limited ls' = ls_limited ls \<Longrightarrow> ls_budget ls' = ls_budget ls \<Longrightarrow>
   (cell_wf (ls_cell ls) \<Longrightarrow> cell_wf (ls_cell ls')) \<Longrightarrow> keeps h (put_lane h l ls')"
  using store_wf_lane [of h l ls] meters_put_lane [of h l ls ls']
  by (auto simp: keeps_def lane_wf_def intro!: store_wf_put_lane)

lemma keeps_shard: "keeps h (fst (swrr_shard h p))"
  by (simp add: keeps_def meters_def store_wf_swrr_shard)

lemma keeps_touch: "keeps h (touch_shards h ps)"
  by (simp add: keeps_def meters_def store_wf_touch_shards)

lemma keeps_pool:
  assumes "get_lane h l = Some ls" and "store_wf h \<Longrightarrow> pool_wf cs"
  shows "keeps h (h\<lparr>pool_cells := (pool_cells h)(l \<mapsto> cs)\<rparr>)"
  using assms get_lane_Some [OF assms(1)] by (auto simp: keeps_def meters_def intro: store_wf_pool_cells)

lemma keeps_pool_map:
  assumes "get_lane h l = Some ls" and "\<And>c. cell_wf c \<Longrightarrow> cell_wf (f c)"
  shows "keeps h (h\<lparr>pool_cells := (pool_cells h)(l := map_option (map (\<lambda>(p, c). (p, f c))) (pool_cells h l))\<rparr>)"
proof (cases "pool_cells h l")
  case None
  then have "(pool_cells h)(l := None) = pool_cells h" by auto
  with None show ?thesis by simp
next
  case (Some cs)
  with keeps_pool [OF assms(1), of "map (\<lambda>(p, c). (p, f c)) cs"] assms(2) show ?thesis
    by (auto simp: store_wf_def intro: pool_wf_map)
qed

lemma get_lane_after_fetch: "cell_of h p l = Some (h1, c) \<Longrightarrow> get_lane (put_cell h1 p l d) l = Some ls \<Longrightarrow>
   \<exists>ls0. get_lane h l = Some ls0"
  by (auto simp: get_lane_def put_cell_def cell_of_lanes split: if_splits)

section \<open>Each operation\<close>

definition failed_lane :: "string \<Rightarrow> 'sem LaneState \<Rightarrow> bool \<Rightarrow> u64 \<Rightarrow> 'sem LaneState" where
  "failed_lane p ls t now =
     (let ls3 = (if p \<noteq> [] then ls\<lparr>ls_cell := (ls_cell ls)\<lparr>err := wrap_u64 (err (ls_cell ls) + 1)\<rparr>\<rparr> else ls)
      in if t then bump_trips ls3 now else ls3)"

lemma failed_lane_keeps:
  "ls_limited (failed_lane p ls t now) = ls_limited ls" "ls_budget (failed_lane p ls t now) = ls_budget ls"
  "cell_wf (ls_cell ls) \<Longrightarrow> cell_wf (ls_cell (failed_lane p ls t now))"
  by (simp_all add: failed_lane_def bump_trips_def cell_wf_def Let_def)

lemma keeps_record_failure_for:
  assumes "record_failure_for env h p l now cfg ra = Some (h1, t)"
  shows "keeps h h1"
proof -
  obtain ls where ls: "get_lane h l = Some ls"
    using assms by (auto simp: record_failure_for_def bind_eq_Some_conv)
  show ?thesis
  proof (cases "ls_dead ls")
    case True
    with assms ls show ?thesis by (simp add: record_failure_for_def)
  next
    case False
    with assms ls obtain h2 c c1 ls2 where f: "cell_of h p l = Some (h2, c)"
      and r: "cell_record_failure env c now cfg ra (max_honored_retry_after_secs h) = Some (c1, t)"
      and g: "get_lane (put_cell h2 p l c1) l = Some ls2"
      and h1: "h1 = put_lane (put_cell h2 p l c1) l (failed_lane p ls2 t now)"
      by (auto simp: record_failure_for_def bind_eq_Some_conv Let_def failed_lane_def)
    have "keeps h (put_cell h2 p l c1)" by (rule keeps_rmw [OF f cell_wf_record_failure [OF _ r]])
    moreover have "keeps (put_cell h2 p l c1) h1" unfolding h1 by (rule keeps_put_lane [OF g failed_lane_keeps])
    ultimately show ?thesis by (rule keeps_trans)
  qed
qed

lemma keeps_reset_swrr_for:
  assumes "reset_swrr_for h p l = Some h1"
  shows "keeps h h1"
proof -
  obtain h2 c where f: "cell_of (fst (swrr_shard h p)) p l = Some (h2, c)"
    and h1: "h1 = put_cell h2 p l (c\<lparr>current_weight := 0\<rparr>)"
    using assms by (auto simp: reset_swrr_for_def bind_eq_Some_conv)
  show ?thesis unfolding h1 by (rule keeps_trans [OF keeps_shard keeps_rmw [OF f]]) simp
qed

lemma keeps_record_success_for:
  assumes "record_success_for h p l now = Some h1"
  shows "keeps h h1"
proof -
  obtain ls where ls: "get_lane h l = Some ls"
    using assms by (auto simp: record_success_for_def bind_eq_Some_conv)
  show ?thesis
  proof (cases "ls_dead ls")
    case True
    with assms ls show ?thesis by (auto simp: record_success_for_def intro!: keeps_put_lane)
  next
    case False
    with assms ls obtain h2 c where f: "cell_of h p l = Some (h2, c)"
      by (auto simp: record_success_for_def bind_eq_Some_conv)
    obtain c1 rec where cs: "cell_record_success c now = (c1, rec)" by fastforce
    have "\<exists>h3 ls3. (if rec then reset_swrr_for (put_cell h2 p l c1) p l else Some (put_cell h2 p l c1)) = Some h3
        \<and> get_lane h3 l = Some ls3 \<and> h1 = put_lane h3 l (ls3\<lparr>ls_ok := wrap_u64 (ls_ok ls3 + 1)\<rparr>)"
      using assms ls False f cs
      by (cases rec) (auto simp: record_success_for_def bind_eq_Some_conv Let_def)
    then obtain h3 ls3 where h3: "(if rec then reset_swrr_for (put_cell h2 p l c1) p l else Some (put_cell h2 p l c1)) = Some h3"
      and g: "get_lane h3 l = Some ls3" and h1: "h1 = put_lane h3 l (ls3\<lparr>ls_ok := wrap_u64 (ls_ok ls3 + 1)\<rparr>)"
      by blast
    have k1: "keeps h (put_cell h2 p l c1)"
      using keeps_rmw [OF f cell_wf_record_success [of c now]] cs by simp
    have "keeps h h3"
      using h3 k1 by (auto split: if_splits intro: keeps_trans keeps_reset_swrr_for)
    then show ?thesis unfolding h1 by (rule keeps_trans) (auto intro!: keeps_put_lane [OF g])
  qed
qed

lemma keeps_record_hard_down_for:
  assumes "record_hard_down_for h p l reason now = Some h1"
  shows "keeps h h1"
proof -
  obtain ls h2 c ls2 where ls: "get_lane h l = Some ls"
    and f: "cell_of (put_lane h l (ls\<lparr>ls_dead_reason := reason\<rparr>)) p l = Some (h2, c)"
    and g: "get_lane (put_cell h2 p l (cell_hard_down c now (hard_down_cooldown_secs h))) l = Some ls2"
    and h1: "h1 = (if breaker_state c = ST_CLOSED
        then put_lane (put_cell h2 p l (cell_hard_down c now (hard_down_cooldown_secs h))) l (bump_trips ls2 now)
        else put_cell h2 p l (cell_hard_down c now (hard_down_cooldown_secs h)))"
    using assms by (auto simp: record_hard_down_for_def bind_eq_Some_conv Let_def)
  have k0: "keeps h (put_lane h l (ls\<lparr>ls_dead_reason := reason\<rparr>))" by (rule keeps_put_lane [OF ls]) simp_all
  have k1: "keeps h (put_cell h2 p l (cell_hard_down c now (hard_down_cooldown_secs h)))"
    by (rule keeps_trans [OF k0 keeps_rmw [OF f cell_wf_hard_down]])
  show ?thesis
    unfolding h1 using k1 keeps_trans [OF k1 keeps_put_lane [OF g, of "bump_trips ls2 now"]]
    by (simp add: bump_trips_def)
qed

text \<open>The operations on all cells: the lane first, then its pools' cells by a map.\<close>

lemma keeps_all_cells:
  assumes "get_lane h l = Some ls" and "ls_limited ls' = ls_limited ls" and "ls_budget ls' = ls_budget ls"
    and "cell_wf (ls_cell ls) \<Longrightarrow> cell_wf (ls_cell ls')" and "\<And>c. cell_wf c \<Longrightarrow> cell_wf (f c)"
  shows "keeps h ((put_lane h l ls')\<lparr>pool_cells :=
    (pool_cells h)(l := map_option (map (\<lambda>(p, c). (p, f c))) (pool_cells h l))\<rparr>)"
proof -
  have "get_lane (put_lane h l ls') l = Some ls'" using assms(1) by (simp add: get_lane_put_lane)
  from keeps_trans [OF keeps_put_lane [OF assms(1-4)] keeps_pool_map [OF this assms(5)]] show ?thesis
    by (simp add: put_lane_def)
qed

lemma keeps_record_hard_down_all_cells:
  assumes "record_hard_down_all_cells h l reason now = Some (h1, t)"
  shows "keeps h h1"
  using assms
  by (auto simp: record_hard_down_all_cells_def bind_eq_Some_conv Let_def bump_trips_def
      intro!: keeps_all_cells cell_wf_hard_down)

lemma cell_wf_recover_cell: "cell_wf c \<Longrightarrow> cell_wf (recover_cell c now)"
  using cell_wf_recoverable [of c now]
  by (auto simp: recover_cell_def recover_close_def case_prod_unfold Let_def split: option.split)

lemma cell_wf_success_cell: "cell_wf c \<Longrightarrow> cell_wf (success_cell c now)"
  using cell_wf_record_success [of c now] by (simp add: success_cell_def case_prod_unfold Let_def)

lemma keeps_recover_lane: "recover_lane h l now = Some h1 \<Longrightarrow> keeps h h1"
  by (auto simp: recover_lane_def bind_eq_Some_conv Let_def
      intro!: keeps_trans [OF _ keeps_touch] keeps_all_cells cell_wf_recover_cell)

lemma keeps_record_probe_success_all_cells: "record_probe_success_all_cells h l now = Some h1 \<Longrightarrow> keeps h h1"
  by (auto simp: record_probe_success_all_cells_def bind_eq_Some_conv Let_def split: if_splits
      intro!: keeps_put_lane keeps_trans [OF _ keeps_touch] keeps_all_cells cell_wf_success_cell)

lemma fail_cells_wf:
  "fail_cells env now rc ra mh cs = Some ds \<Longrightarrow>
     map fst ds = map fst cs \<and> (list_all (\<lambda>(_, c). cell_wf c) cs \<longrightarrow> list_all (\<lambda>(_, c). cell_wf c) ds)"
  by (induction cs arbitrary: ds) (auto simp: bind_eq_Some_conv, metis cell_wf_record_failure)

lemma keeps_record_probe_failure_all_cells:
  assumes "record_probe_failure_all_cells env h l now rc ra = Some h1"
  shows "keeps h h1"
proof -
  obtain ls where ls: "get_lane h l = Some ls"
    using assms by (auto simp: record_probe_failure_all_cells_def bind_eq_Some_conv)
  show ?thesis
  proof (cases "ls_dead ls")
    case True
    with assms ls show ?thesis by (simp add: record_probe_failure_all_cells_def)
  next
    case False
    with assms ls obtain c1 t where r: "cell_record_failure (env []) (ls_cell ls) now (rc []) ra (max_honored_retry_after_secs h) = Some (c1, t)"
      by (auto simp: record_probe_failure_all_cells_def bind_eq_Some_conv)
    let ?h = "put_lane h l (ls\<lparr>ls_cell := c1\<rparr>)"
    have k: "keeps h ?h" by (rule keeps_put_lane [OF ls]) (auto intro: cell_wf_record_failure [OF _ r])
    show ?thesis
    proof (cases "pool_cells h l")
      case None
      with assms ls False r k show ?thesis by (simp add: record_probe_failure_all_cells_def Let_def)
    next
      case (Some cs)
      with assms ls False r obtain ds where d: "fail_cells env now rc ra (max_honored_retry_after_secs h) cs = Some ds"
        and h1: "h1 = ?h\<lparr>pool_cells := (pool_cells ?h)(l \<mapsto> ds)\<rparr>"
        by (auto simp: record_probe_failure_all_cells_def Let_def bind_eq_Some_conv put_lane_def)
      have "pool_wf ds" if "store_wf ?h"
      proof -
        have "pool_cells ?h l = Some cs" using Some by (simp add: put_lane_def)
        with that have "pool_wf cs" by (auto simp: store_wf_def)
        moreover have "fst ` set ds = fst ` set cs" using fail_cells_wf [OF d] by (metis list.set_map)
        ultimately show ?thesis using fail_cells_wf [OF d] by (simp add: pool_wf_def)
      qed
      with keeps_pool [of ?h l "ls\<lparr>ls_cell := c1\<rparr>" ds] ls have "keeps ?h h1"
        unfolding h1 by (simp add: get_lane_put_lane)
      with k show ?thesis by (rule keeps_trans)
    qed
  qed
qed

lemma keeps_record_client_fault: "record_client_fault h l = Some h1 \<Longrightarrow> keeps h h1"
  by (auto simp: record_client_fault_def bind_eq_Some_conv intro!: keeps_put_lane)

lemma keeps_release_probe_in: "release_probe_in h p l = Some h1 \<Longrightarrow> keeps h h1"
  by (auto simp: release_probe_in_def bind_eq_Some_conv elim: keeps_rmw intro: cell_wf_release)

lemma keeps_release_probe_owned_in: "release_probe_owned_in h p l e = Some h1 \<Longrightarrow> keeps h h1"
  by (auto simp: release_probe_owned_in_def bind_eq_Some_conv elim: keeps_rmw intro: cell_wf_release_owned)

lemma keeps_admit_gate: "admit_gate h p l now = Some (h1, r) \<Longrightarrow> keeps h h1"
  by (auto simp: admit_gate_def bind_eq_Some_conv split: if_splits intro: keeps_fetch)

lemma keeps_admit_probe: "admit_probe h p l now = Some (h1, r) \<Longrightarrow> keeps h h1"
  using cell_wf_acquire
  by (fastforce simp: admit_probe_def bind_eq_Some_conv case_prod_unfold Let_def intro: keeps_rmw)

lemma keeps_try_acquire: "try_acquire ops h l = Some (h1, r) \<Longrightarrow> keeps h h1"
  by (auto simp: try_acquire_def bind_eq_Some_conv split: if_splits option.splits intro!: keeps_put_lane)

lemma keeps_drop_permit: "drop_permit ops h l p = Some h1 \<Longrightarrow> keeps h h1"
  by (auto simp: drop_permit_def bind_eq_Some_conv split: Permit.splits intro!: keeps_put_lane)

lemma keeps_admit_commit: "admit_commit ops h p l now permit = Some (h1, r) \<Longrightarrow> keeps h h1"
  by (auto simp: admit_commit_def bind_eq_Some_conv split: option.splits
      intro: keeps_trans keeps_admit_probe keeps_drop_permit)

lemma keeps_try_admit: "try_admit ops h p l now = Some (h1, r) \<Longrightarrow> keeps h h1"
  by (auto simp: try_admit_def bind_eq_Some_conv split: option.splits
      dest!: keeps_admit_gate keeps_try_acquire keeps_admit_commit intro: keeps_trans) (metis keeps_trans)

lemma keeps_try_admit_breaker: "try_admit_breaker h p l now = Some (h1, r) \<Longrightarrow> keeps h h1"
  by (auto simp: try_admit_breaker_def bind_eq_Some_conv split: option.splits
      dest!: keeps_admit_gate keeps_admit_probe intro: keeps_trans)

lemma keeps_usable_for: "usable_for h p l now = Some (h1, won) \<Longrightarrow> keeps h h1"
  using cell_wf_acquire
  by (fastforce simp: usable_for_def bind_eq_Some_conv case_prod_unfold Let_def split: if_splits intro: keeps_rmw)

lemma keeps_swrr_healthy: "swrr_healthy h p now cws = Some (h1, hs) \<Longrightarrow> keeps h h1"
proof (induction cws arbitrary: h hs)
  case (Cons lw rest)
  obtain l w where lw: "lw = (l, w)" by fastforce
  show ?case
  proof (cases "w \<noteq> 0 \<and> lane_admissible h l = Some True")
    case True
    with Cons.prems lw obtain h2 c hs' where "cell_of h p l = Some (h2, c)"
      and "swrr_healthy h2 p now rest = Some (h1, hs')"
      by (auto simp: bind_eq_Some_conv)
    with Cons.IH show ?thesis by (blast intro: keeps_trans keeps_fetch)
  next
    case False
    with Cons.prems lw have "swrr_healthy h p now rest = Some (h1, hs)"
      by (auto simp: bind_eq_Some_conv split: if_splits)
    with Cons.IH show ?thesis by blast
  qed
qed simp

lemma keeps_add_weight: "add_weight h p l w = Some h1 \<Longrightarrow> keeps h h1"
  by (auto simp: add_weight_def bind_eq_Some_conv elim: keeps_rmw)

lemma keeps_add_weights: "add_weights h p hs = Some h1 \<Longrightarrow> keeps h h1"
  by (induction hs arbitrary: h) (auto simp: bind_eq_Some_conv, metis keeps_trans keeps_add_weight)

lemma keeps_select_weighted_for:
  assumes "select_weighted_for h p cs ws now = Some (h1, r)"
  shows "keeps h h1"
proof -
  obtain h2 hs where h2: "swrr_healthy h p now (zip cs ws) = Some (h2, hs)"
    using assms by (auto simp: select_weighted_for_def bind_eq_Some_conv)
  have k: "keeps h (fst (swrr_shard h2 p))" by (rule keeps_trans [OF keeps_swrr_healthy [OF h2] keeps_shard])
  show ?thesis
    using assms h2 k keeps_swrr_healthy [OF h2]
    by (auto simp: select_weighted_for_def bind_eq_Some_conv Let_def split: if_splits option.splits
        dest!: keeps_add_weights keeps_add_weight intro: keeps_trans)
qed

lemma keeps_record_latency_in: "record_latency_in blend sample h l = Some h1 \<Longrightarrow> keeps h h1"
  by (auto simp: record_latency_in_def bind_eq_Some_conv Let_def split: option.splits if_splits intro!: keeps_put_lane)

section \<open>The machine\<close>

inductive store_op :: "'sem sem_ops \<Rightarrow> 'sem HealthState \<Rightarrow> 'sem HealthState \<Rightarrow> bool" for ops where
  op_try_admit: "try_admit ops h p l now = Some (h1, r) \<Longrightarrow> store_op ops h h1"
| op_gate: "admit_gate h p l now = Some (h1, u) \<Longrightarrow> store_op ops h h1"
| op_read: "cell_of h p l = Some (h1, c) \<Longrightarrow> store_op ops h h1"
| op_usable: "usable_for h p l now = Some (h1, won) \<Longrightarrow> store_op ops h h1"
| op_acquire: "try_acquire ops h l = Some (h1, q) \<Longrightarrow> store_op ops h h1"
| op_commit: "admit_commit ops h p l now q' = Some (h1, r) \<Longrightarrow> store_op ops h h1"
| op_admit_breaker: "try_admit_breaker h p l now = Some (h1, r') \<Longrightarrow> store_op ops h h1"
| op_drop: "drop_permit ops h l q' = Some h1 \<Longrightarrow> store_op ops h h1"
| op_release: "release_probe_in h p l = Some h1 \<Longrightarrow> store_op ops h h1"
| op_release_owned: "release_probe_owned_in h p l e = Some h1 \<Longrightarrow> store_op ops h h1"
| op_select: "select_weighted_for h p cs ws now = Some (h1, k) \<Longrightarrow> store_op ops h h1"
| op_failure: "record_failure_for env h p l now cfg ra = Some (h1, t) \<Longrightarrow> store_op ops h h1"
| op_success: "record_success_for h p l now = Some h1 \<Longrightarrow> store_op ops h h1"
| op_hard_down: "record_hard_down_for h p l reason now = Some h1 \<Longrightarrow> store_op ops h h1"
| op_hard_down_all: "record_hard_down_all_cells h l reason now = Some (h1, t) \<Longrightarrow> store_op ops h h1"
| op_client_fault: "record_client_fault h l = Some h1 \<Longrightarrow> store_op ops h h1"
| op_recover: "recover_lane h l now = Some h1 \<Longrightarrow> store_op ops h h1"
| op_probe_success: "record_probe_success_all_cells h l now = Some h1 \<Longrightarrow> store_op ops h h1"
| op_probe_failure: "record_probe_failure_all_cells envs h l now rc ra = Some h1 \<Longrightarrow> store_op ops h h1"
| op_latency: "record_latency_in blend sample h l = Some h1 \<Longrightarrow> store_op ops h h1"

lemma store_op_keeps: "store_op ops h h1 \<Longrightarrow> keeps h h1"
  by (induction rule: store_op.induct)
    (blast intro: keeps_try_admit keeps_admit_gate keeps_fetch keeps_usable_for keeps_try_acquire keeps_admit_commit keeps_try_admit_breaker
      keeps_drop_permit keeps_release_probe_in keeps_release_probe_owned_in keeps_select_weighted_for
      keeps_record_failure_for keeps_record_success_for keeps_record_hard_down_for keeps_record_hard_down_all_cells
      keeps_record_client_fault keeps_recover_lane keeps_record_probe_success_all_cells
      keeps_record_probe_failure_all_cells keeps_record_latency_in)+

text \<open>
  The ghost component counts, per lane, the spends that were charged and not refunded. A refund
  is only issued for a charge of the same request (\<open>proxy/engine\<close> keeps the flag that says so).
\<close>

datatype store_event = EvOp | EvSpend usize bool | EvRefund usize

inductive store_step ::
  "'sem sem_ops \<Rightarrow> 'sem HealthState \<times> (usize \<Rightarrow> nat) \<Rightarrow> store_event \<Rightarrow> 'sem HealthState \<times> (usize \<Rightarrow> nat) \<Rightarrow> bool"
  for ops where
  step_op: "store_op ops h h1 \<Longrightarrow> store_step ops (h, g) EvOp (h1, g)"
| step_spend: "spend_budget h l = Some (h1, charged) \<Longrightarrow>
    store_step ops (h, g) (EvSpend l charged) (h1, if charged then g(l := Suc (g l)) else g)"
| step_refund: "refund_budget h l = Some h1 \<Longrightarrow> 0 < g l \<Longrightarrow>
    store_step ops (h, g) (EvRefund l) (h1, g(l := g l - 1))"

inductive_cases store_step_cases: "store_step ops s e t"

definition store_init :: "'sem HealthState \<Rightarrow> 'sem HealthState \<times> (usize \<Rightarrow> nat) \<Rightarrow> bool" where
  "store_init h0 s \<longleftrightarrow> store_wf h0 \<and> s = (h0, \<lambda>_. 0)"

definition metered :: "'sem HealthState \<Rightarrow> 'sem HealthState \<Rightarrow> (usize \<Rightarrow> nat) \<Rightarrow> bool" where
  "metered h0 h g \<longleftrightarrow>
     length (meters h) = length (meters h0)
   \<and> (\<forall>l < length (meters h0). fst (meters h ! l) = fst (meters h0 ! l)
        \<and> (fst (meters h0 ! l) \<longrightarrow> snd (meters h ! l) + int (g l) = snd (meters h0 ! l)))"

definition store_inv :: "'sem HealthState \<Rightarrow> 'sem HealthState \<times> (usize \<Rightarrow> nat) \<Rightarrow> bool" where
  "store_inv h0 s \<longleftrightarrow> store_wf h0 \<and> store_wf (fst s) \<and> metered h0 (fst s) (snd s)"

lemma meters_nth: "get_lane h l = Some ls \<Longrightarrow> l < length (meters h) \<and> meters h ! l = (ls_limited ls, ls_budget ls)"
  by (auto simp: meters_def get_lane_def split: if_splits)

lemma meters_put: "get_lane h l = Some ls \<Longrightarrow> meters (put_lane h l ls') = (meters h)[l := (ls_limited ls', ls_budget ls')]"
  by (simp add: meters_def put_lane_def map_update)

lemma metered_spend:
  assumes "metered h0 h g" and "store_wf h" and "spend_budget h l = Some (h1, charged)"
  shows "metered h0 h1 (if charged then g(l := Suc (g l)) else g) \<and> store_wf h1"
proof -
  obtain ls where ls: "get_lane h l = Some ls" using assms(3) by (auto simp: spend_budget_def bind_eq_Some_conv)
  have wf: "lane_wf ls" by (rule store_wf_lane [OF assms(2) ls])
  show ?thesis
    using assms ls wf meters_nth [OF ls]
    by (auto simp: spend_budget_def metered_def meters_put [OF ls] nth_list_update lane_wf_def
        intro!: store_wf_put_lane split: if_splits)
qed

lemma metered_refund:
  assumes "metered h0 h g" and "store_wf h" and "store_wf h0" and "refund_budget h l = Some h1" and "0 < g l"
  shows "metered h0 h1 (g(l := g l - 1)) \<and> store_wf h1"
proof -
  obtain ls where ls: "get_lane h l = Some ls" using assms(4) by (auto simp: refund_budget_def bind_eq_Some_conv)
  note m = meters_nth [OF ls]
  then have "l < length (lanes h0)" using assms(1) by (simp add: metered_def meters_def)
  then obtain ls0 where ls0: "get_lane h0 l = Some ls0" by (simp add: get_lane_def)
  have wf: "lane_wf ls" "lane_wf ls0" using store_wf_lane assms(2,3) ls ls0 by blast+
  have lim: "ls_limited ls = ls_limited ls0" "ls_limited ls \<Longrightarrow> ls_budget ls + int (g l) = ls_budget ls0"
    using assms(1) m meters_nth [OF ls0] by (auto simp: metered_def)
  show ?thesis
  proof (cases "ls_limited ls")
    case True
    have "wrap_i64 (ls_budget ls + 1) = ls_budget ls + 1"
      using True lim wf assms(5) by (intro wrap_i64_exact) (auto simp: lane_wf_def i64_min_def)
    with True ls assms(4) have h1: "h1 = put_lane h l (ls\<lparr>ls_budget := ls_budget ls + 1\<rparr>)"
      by (simp add: refund_budget_def)
    have "store_wf h1"
      unfolding h1 using True lim wf assms(2,5) by (intro store_wf_put_lane) (auto simp: lane_wf_def)
    moreover have "metered h0 h1 (g(l := g l - 1))"
      using assms(1,5) m True
      by (auto simp: h1 metered_def meters_put [OF ls] nth_list_update int_ops)
    ultimately show ?thesis by blast
  next
    case False
    with ls assms(4) have "h1 = h" by (simp add: refund_budget_def)
    with False lim assms(1,2) m meters_nth [OF ls0] show ?thesis by (auto simp: metered_def)
  qed
qed

interpretation store_sys: invariant_system "store_init h0" "store_step ops" "store_inv h0" for h0 ops
proof
  fix s :: "'a HealthState \<times> (usize \<Rightarrow> nat)"
  assume "store_init h0 s"
  then show "store_inv h0 s" by (auto simp: store_init_def store_inv_def metered_def)
next
  fix s t :: "'a HealthState \<times> (usize \<Rightarrow> nat)" and e
  assume "store_inv h0 s" and "store_step ops s e t"
  from this(2,1) show "store_inv h0 t"
  proof cases
    case (step_op h h1 g)
    with \<open>store_inv h0 s\<close> store_op_keeps [OF step_op(4)] show ?thesis
      by (simp add: store_inv_def keeps_def metered_def)
  next
    case (step_spend h l h1 charged g)
    with \<open>store_inv h0 s\<close> metered_spend [of h0 h g l h1 charged] show ?thesis by (auto simp: store_inv_def)
  next
    case (step_refund h l h1 g)
    with \<open>store_inv h0 s\<close> metered_refund [of h0 h g l h1] show ?thesis by (auto simp: store_inv_def)
  qed
qed

section \<open>Properties of the store\<close>

text \<open>
  In every store that any sequence of operations can produce from a well-formed one, every
  cell of every lane is well formed (its state is one of the three, the probe flag is set
  exactly in the half-open state, its outcome window is within capacity), a pool has one cell
  per lane, and the memoised shard of a pool is the hashed one.
\<close>

lemma reachable_store_invariant:
  assumes "reach (store_init h0) (store_step ops) (h, g)"
  shows "(\<forall>p l c. peek_cell h p l = Some c \<longrightarrow> cell_wf c)
    \<and> (\<forall>l. distinct (map fst (lane_cells h l)))
    \<and> (\<forall>p. snd (swrr_shard h p) = swrr_shard_index p)"
proof -
  have wf: "store_wf h" using store_sys.reach_inv [OF assms] by (simp add: store_inv_def)
  then have "shards_wf (pool_shards h)" by (simp add: store_wf_def)
  with store_wf_cell [OF wf] store_wf_pool [OF wf] show ?thesis
    by (auto simp: pool_wf_def dest: swrr_shard_index_memo)
qed

text \<open>
  C31: the lifetime budget is a hard ceiling. Whatever the operations and however spends and
  refunds interleave, the budget of a limited lane is never negative, and what is left plus
  the requests charged and not refunded is exactly the configured cap; so never more than the
  cap is outstanding.
\<close>

theorem budget_is_hard_ceiling:
  assumes "reach (store_init h0) (store_step ops) (h, g)"
    and "get_lane h0 l = Some ls0" and "ls_limited ls0"
  shows "\<exists>ls. get_lane h l = Some ls \<and> ls_limited ls \<and> 0 \<le> ls_budget ls
    \<and> ls_budget ls + int (g l) = ls_budget ls0 \<and> int (g l) \<le> ls_budget ls0"
proof -
  have inv: "store_wf h" "metered h0 h g" using store_sys.reach_inv [OF assms(1)] by (simp_all add: store_inv_def)
  note m0 = meters_nth [OF assms(2)]
  with inv(2) have "l < length (lanes h)" by (simp add: metered_def meters_def)
  then obtain ls where ls: "get_lane h l = Some ls" by (simp add: get_lane_def)
  have "ls_limited ls \<and> ls_budget ls + int (g l) = ls_budget ls0"
    using inv(2) m0 meters_nth [OF ls] assms(3) by (auto simp: metered_def)
  with store_wf_lane [OF inv(1) ls] ls show ?thesis by (auto simp: lane_wf_def)
qed

theorem budget_is_hard_ceiling_witness:
  "\<exists>h. spend_budget sample_store 0 = Some (h, True) \<and> (\<exists>ls. get_lane h 0 = Some ls \<and> ls_budget ls + 1 = 10)"
proof -
  have "\<exists>h. spend_budget sample_store 0 = Some (h, True)"
    by (simp add: spend_budget_def sample_simps get_lane_def)
  then obtain h where h: "spend_budget sample_store 0 = Some (h, True)" by blast
  have "reach (store_init sample_store) (store_step counting_sem) (sample_store, \<lambda>_. 0)"
    by (rule reach_init) (simp add: store_init_def sample_store_wf)
  from reach_step [OF this store_step.step_spend [OF h]]
  have r: "reach (store_init sample_store) (store_step counting_sem) (h, (\<lambda>_. 0)(0 := Suc 0))" by simp
  have "get_lane sample_store 0 = Some (lane_of_data sample_lane)" "ls_limited (lane_of_data sample_lane)"
    "ls_budget (lane_of_data sample_lane) = 10"
    by (simp_all add: sample_simps get_lane_def)
  with budget_is_hard_ceiling [OF r this(1,2)] h show ?thesis by auto
qed

lemma peek_put_lane:
  "get_lane h l = Some ls \<Longrightarrow>
   peek_cell (put_lane h l ls') q m = (if q = [] \<and> m = l then Some (ls_cell ls') else peek_cell h q m)"
  by (auto simp: peek_cell_def get_lane_put_lane)

text \<open>
  Failures are isolated per pool and counted once per lane. Recording a failure for a
  (pool, lane) pair on a lane that is not administratively down applies the breaker's failure
  to that pair's cell; every other cell of the store keeps its breaker, its window and its
  cooldown: the one trace it leaves elsewhere is that the lane's error counter, kept in the
  lane's default cell, goes up by one.
\<close>

lemma failure_isolated_per_pool:
  assumes "record_failure_for env h p l now cfg ra = Some (h1, tripped)" and "p \<noteq> []"
    and "get_lane h l = Some ls" and "\<not> ls_dead ls"
  shows "\<exists>c c1. cell_view h p l = Some c
    \<and> cell_record_failure env c now cfg ra (max_honored_retry_after_secs h) = Some (c1, tripped)
    \<and> peek_cell h1 p l = Some c1
    \<and> peek_cell h1 [] l = Some ((ls_cell ls)\<lparr>err := wrap_u64 (err (ls_cell ls) + 1)\<rparr>)
    \<and> (\<forall>q m. (q, m) \<noteq> (p, l) \<and> (q, m) \<noteq> ([], l) \<longrightarrow> peek_cell h1 q m = peek_cell h q m)"
proof -
  obtain h2 c c1 ls2 where f: "cell_of h p l = Some (h2, c)"
    and r: "cell_record_failure env c now cfg ra (max_honored_retry_after_secs h) = Some (c1, tripped)"
    and g: "get_lane (put_cell h2 p l c1) l = Some ls2"
    and h1: "h1 = put_lane (put_cell h2 p l c1) l (failed_lane p ls2 tripped now)"
    using assms(1,3,4) by (auto simp: record_failure_for_def bind_eq_Some_conv Let_def failed_lane_def)
  have "ls2 = ls"
    using g assms(2,3) cell_of_get_lane [OF f, of l] by (simp add: get_lane_put_cell)
  then have "ls_cell (failed_lane p ls2 tripped now) = (ls_cell ls)\<lparr>err := wrap_u64 (err (ls_cell ls) + 1)\<rparr>"
    using assms(2) by (simp add: failed_lane_def bump_trips_def Let_def)
  with cells.rmw_lookup [OF f, of c1] cell_of_view [OF f] r assms(2) show ?thesis
    unfolding h1 peek_put_lane [OF g] by auto
qed

text \<open>How an operation on every cell of a lane shows in the cells, existing or inherited later.\<close>

lemma map_of_map_snd: "map_of (map (\<lambda>(p, c). (p, f c)) cs) p = map_option f (map_of cs p)"
  by (induction cs) auto

lemma view_all_cells:
  assumes "get_lane h l = Some ls"
    and "lanes h1 = (lanes h)[l := ls']"
    and "pool_cells h1 = (pool_cells h)(l := map_option (map (\<lambda>(p, c). (p, f c))) (pool_cells h l))"
    and "ls_cell ls' = f (ls_cell ls)"
  shows "cell_view h1 p l = Some (case peek_cell h p l of Some c \<Rightarrow> f c | None \<Rightarrow> inherited_cell ls')"
proof -
  have g: "get_lane h1 l = Some ls'" using get_lane_Some [OF assms(1)] assms(2) by (simp add: get_lane_def)
  have "lane_cells h1 l = map (\<lambda>(p, c). (p, f c)) (lane_cells h l)"
    using assms(3) by (simp add: lane_cells_def split: option.split)
  then show ?thesis
    using g assms(1,4) by (auto simp: cell_view_alt peek_cell_def map_of_map_snd split: option.split)
qed

lemma ready_for_view:
  assumes "cell_view h p l = Some c" and "get_lane h l = Some ls"
  shows "\<exists>h1. ready_for h p l now = Some (h1, lane_admissible h l = Some True \<and> cell_ready_breaker c now)"
proof -
  obtain h1 where f: "cell_of h p l = Some (h1, c)" using cell_of_Some [OF assms(1)] by blast
  obtain a where "lane_admissible h l = Some a" using assms(2) by (simp add: lane_admissible_def)
  with f show ?thesis by (cases a) (simp_all add: ready_for_def)
qed

lemma hard_down_not_ready:
  assumes "now < saturating_add t0 secs"
  shows "\<not> cell_ready_breaker (cell_hard_down c t0 secs) now"
    and "ls_cell ls = cell_hard_down c t0 secs \<Longrightarrow> \<not> cell_ready_breaker (inherited_cell ls) now"
  using assms
  by (simp_all add: cell_ready_breaker_def breaker_verdict_def cell_hard_down_def inherited_cell_def
      ST_CLOSED_def ST_OPEN_def ST_HALF_OPEN_def)

lemma recover_cell_ready:
  assumes "t0 \<le> now" and "cell_wf c"
  shows "cell_ready_breaker (recover_cell c t0) now"
    and "ls_cell ls = recover_cell c t0 \<Longrightarrow> cell_ready_breaker (inherited_cell ls) now"
  using assms
  by (auto simp: cell_ready_breaker_def breaker_verdict_def recover_cell_def recover_close_def observe_suppressed_def
      cell_closed_if_recoverable_def cell_closed_locked_def inherited_cell_def Let_def
      ST_CLOSED_def ST_OPEN_def ST_HALF_OPEN_def split: if_splits)

text \<open>
  A hard-down takes the whole lane out. After \<open>record_hard_down_all_cells\<close> no pool, not even
  one whose cell of this lane does not exist yet, finds the lane ready before the hard-down
  cooldown is over; the lane is not marked dead and keeps its budget, so it can come back.
\<close>

lemma hard_down_suppresses_every_pool:
  assumes "record_hard_down_all_cells h l reason t0 = Some (h1, tripped)"
    and "now < saturating_add t0 (hard_down_cooldown_secs h)"
  shows "(\<exists>h2. ready_for h1 pool l now = Some (h2, False)) \<and> lane_admissible h1 l = lane_admissible h l"
proof -
  obtain ls where ls: "get_lane h l = Some ls"
    using assms(1) by (auto simp: record_hard_down_all_cells_def bind_eq_Some_conv)
  define ls' where "ls' = (let ls1 = ls\<lparr>ls_dead_reason := reason, ls_cell := cell_hard_down (ls_cell ls) t0 (hard_down_cooldown_secs h)\<rparr>
      in if breaker_state (ls_cell ls) = ST_CLOSED then bump_trips ls1 t0 else ls1)"
  have c': "ls_cell ls' = cell_hard_down (ls_cell ls) t0 (hard_down_cooldown_secs h)"
    and gates: "ls_dead ls' = ls_dead ls" "ls_limited ls' = ls_limited ls" "ls_budget ls' = ls_budget ls"
    by (simp_all add: ls'_def bump_trips_def Let_def)
  have h1: "h1 = (put_lane h l ls')\<lparr>pool_cells := (pool_cells h)(l :=
      map_option (map (\<lambda>(p, c). (p, cell_hard_down c t0 (hard_down_cooldown_secs h)))) (pool_cells h l))\<rparr>"
    using assms(1) ls by (auto simp: record_hard_down_all_cells_def Let_def ls'_def)
  have g1: "get_lane h1 l = Some ls'" using ls by (simp add: h1 get_lane_put_lane)
  have "cell_view h1 pool l = Some (case peek_cell h pool l of
      Some c \<Rightarrow> cell_hard_down c t0 (hard_down_cooldown_secs h) | None \<Rightarrow> inherited_cell ls')"
    by (rule view_all_cells [where f = "\<lambda>c. cell_hard_down c t0 (hard_down_cooldown_secs h)", OF ls _ _ c'])
      (simp_all add: h1 put_lane_def)
  then obtain d where "cell_view h1 pool l = Some d" and "\<not> cell_ready_breaker d now"
    using hard_down_not_ready [OF assms(2)] c' by (auto split: option.splits)
  with ready_for_view [OF this(1) g1, of now] gates ls g1 show ?thesis
    by (auto simp: lane_admissible_def)
qed

text \<open>
  A successful health probe brings the whole lane back. After \<open>recover_lane\<close> on a
  reachable store every pool, existing cell or not, finds the lane ready from then on, unless
  the lane is administratively dead or out of budget.
\<close>

lemma recovery_readmits_every_pool:
  assumes "reach (store_init h0) (store_step ops) (h, g)" and "recover_lane h l t0 = Some h1" and "t0 \<le> now"
    and "lane_admissible h l = Some True"
  shows "\<exists>h2. ready_for h1 pool l now = Some (h2, True)"
proof -
  have wf: "store_wf h" using store_sys.reach_inv [OF assms(1)] by (simp add: store_inv_def)
  obtain ls where ls: "get_lane h l = Some ls" using assms(2) by (auto simp: recover_lane_def bind_eq_Some_conv)
  let ?ls = "ls\<lparr>ls_cell := recover_cell (ls_cell ls) t0\<rparr>"
  have h1: "lanes h1 = (lanes h)[l := ?ls]"
      "pool_cells h1 = (pool_cells h)(l := map_option (map (\<lambda>(p, c). (p, recover_cell c t0))) (pool_cells h l))"
    using assms(2) ls by (auto simp: recover_lane_def Let_def put_lane_def)
  have g1: "get_lane h1 l = Some ?ls" using get_lane_Some [OF ls] h1(1) by (simp add: get_lane_def)
  have adm: "lane_admissible h1 l = Some True" using assms(4) ls g1 by (auto simp: lane_admissible_def split: if_splits)
  have v: "cell_view h1 pool l = Some (case peek_cell h pool l of
      Some c \<Rightarrow> recover_cell c t0 | None \<Rightarrow> inherited_cell ?ls)"
    by (rule view_all_cells [where f = "\<lambda>c. recover_cell c t0", OF ls h1]) simp
  have "cell_wf (ls_cell ls)" using store_wf_lane [OF wf ls] by (simp add: lane_wf_def)
  with recover_cell_ready(1) [OF assms(3)] recover_cell_ready(2) [OF assms(3), of "ls_cell ls" ?ls]
    store_wf_cell [OF wf, of pool l]
  have "\<exists>d. cell_view h1 pool l = Some d \<and> cell_ready_breaker d now"
    by (auto simp: v split: option.split)
  with ready_for_view [OF _ g1, of pool _ now] adm show ?thesis by fastforce
qed

end
