(* ===== verification/Lane_Restore.thy ===== *)
theory Lane_Restore
  imports Store_Machine "HOL-Library.AList"
begin

text \<open>
  Carrying lane health across a configuration apply or a restart: \<open>export_health\<close>
  (\<open>store/in_memory/availability.rs\<close>), \<open>restore_health_impl\<close> and
  \<open>new_with_limits_restored\<close> (\<open>store/in_memory/mod.rs\<close>). Lanes are matched by
  identity, the pair of model and provider. The lemmas show that a restore yields a well-formed
  store in which no probe is in flight, that a lowered cap binds at once, and that exporting
  what was restored gives the snapshot back.
\<close>

section \<open>Snapshots\<close>

record PoolCellHealthSnapshot =
  pc_pool :: string
  pc_breaker_state :: u64
  pc_cooldown_until :: u64
  pc_streak :: u32
  pc_err :: u64

record LaneHealthSnapshot =
  hs_model :: string
  hs_provider :: string
  hs_budget :: i64
  hs_breaker_state :: u64
  hs_cooldown_until :: u64
  hs_streak :: u32
  hs_dead :: bool
  hs_dead_reason :: string
  hs_ok :: u64
  hs_err :: u64
  hs_client_fault :: u64
  hs_latency_ewma_bits :: u64
  hs_trips :: u64
  hs_last_trip_at :: u64
  hs_cells :: "PoolCellHealthSnapshot list"

definition export_cell :: "string \<times> BreakerCell \<Rightarrow> PoolCellHealthSnapshot" where
  "export_cell pc =
     \<lparr>pc_pool = fst pc, pc_breaker_state = breaker_state (snd pc), pc_cooldown_until = cooldown_until (snd pc),
      pc_streak = streak (snd pc), pc_err = err (snd pc)\<rparr>"

definition export_lane :: "'sem LaneState \<Rightarrow> (string \<times> BreakerCell) list \<Rightarrow> LaneHealthSnapshot" where
  "export_lane ls cs =
     \<lparr>hs_model = ls_model ls, hs_provider = ls_provider ls,
      hs_budget = (if ls_limited ls then ls_budget ls else - 1),
      hs_breaker_state = breaker_state (ls_cell ls), hs_cooldown_until = cooldown_until (ls_cell ls),
      hs_streak = streak (ls_cell ls), hs_dead = ls_dead ls, hs_dead_reason = ls_dead_reason ls,
      hs_ok = ls_ok ls, hs_err = err (ls_cell ls), hs_client_fault = ls_client_fault ls,
      hs_latency_ewma_bits = ls_latency_ewma_bits ls, hs_trips = ls_trips ls, hs_last_trip_at = ls_last_trip_at ls,
      hs_cells = map export_cell cs\<rparr>"

definition export_health :: "'sem HealthState \<Rightarrow> LaneHealthSnapshot list" where
  "export_health h =
     map (\<lambda>idx. export_lane (lanes h ! idx) (lane_cells h idx)) [0..<length (lanes h)]"

lemma length_export [simp]: "length (export_health h) = length (lanes h)"
  by (simp add: export_health_def)

section \<open>Restore\<close>

definition restore_cell :: "PoolCellHealthSnapshot \<Rightarrow> BreakerCell \<Rightarrow> BreakerCell" where
  "restore_cell cs c =
     c\<lparr>breaker_state := restored_breaker_state (pc_breaker_state cs), cooldown_until := pc_cooldown_until cs,
       streak := pc_streak cs, err := pc_err cs\<rparr>"

text \<open>Into the first cell of that pool if there is one, else into a new cell at the end.\<close>

definition restore_into :: "(string \<times> BreakerCell) list \<Rightarrow> PoolCellHealthSnapshot \<Rightarrow> (string \<times> BreakerCell) list" where
  "restore_into cells cs =
     (case map_of cells (pc_pool cs) of
        Some c \<Rightarrow> AList.update (pc_pool cs) (restore_cell cs c) cells
      | None \<Rightarrow> cells @ [(pc_pool cs, restore_cell cs cell_new)])"

definition restore_lane_state :: "LaneHealthSnapshot \<Rightarrow> 'sem LaneState \<Rightarrow> 'sem LaneState" where
  "restore_lane_state snap ls =
     ls\<lparr>ls_budget := (if ls_limited ls \<and> hs_budget snap \<ge> 0 then min (hs_budget snap) (ls_budget ls) else ls_budget ls),
        ls_dead := hs_dead snap, ls_dead_reason := hs_dead_reason snap, ls_ok := hs_ok snap,
        ls_client_fault := hs_client_fault snap, ls_latency_ewma_bits := hs_latency_ewma_bits snap,
        ls_trips := hs_trips snap, ls_last_trip_at := hs_last_trip_at snap,
        ls_cell := (ls_cell ls)\<lparr>breaker_state := restored_breaker_state (hs_breaker_state snap),
          cooldown_until := hs_cooldown_until snap, streak := hs_streak snap, err := hs_err snap\<rparr>\<rparr>"

definition restore_lane :: "LaneHealthSnapshot list \<Rightarrow> 'sem HealthState \<Rightarrow> usize \<Rightarrow> 'sem HealthState" where
  "restore_lane restored h idx =
     (let ls = lanes h ! idx in
      case find (\<lambda>s. hs_model s = ls_model ls \<and> hs_provider s = ls_provider ls) restored of
        None \<Rightarrow> h
      | Some snap \<Rightarrow>
          h\<lparr>lanes := (lanes h)[idx := restore_lane_state snap ls],
            pool_cells := (pool_cells h)(idx \<mapsto> foldl restore_into (lane_cells h idx) (hs_cells snap))\<rparr>)"

definition restore_health_impl :: "'sem HealthState \<Rightarrow> LaneHealthSnapshot list \<Rightarrow> 'sem HealthState" where
  "restore_health_impl h restored = foldl (restore_lane restored) h [0..<length (lanes h)]"

definition new_with_limits_restored ::
  "'sem LaneData list \<Rightarrow> u64 \<Rightarrow> u64 \<Rightarrow> LaneHealthSnapshot list \<Rightarrow> 'sem HealthState" where
  "new_with_limits_restored lds hard_down max_honored restored =
     restore_health_impl (new_with_limits lds hard_down max_honored) restored"

section \<open>Restoring lane by lane\<close>

lemma restore_lane_frame [simp]:
  "length (lanes (restore_lane R h i)) = length (lanes h)"
  "pool_shards (restore_lane R h i) = pool_shards h"
  "j \<noteq> i \<Longrightarrow> lanes (restore_lane R h i) ! j = lanes h ! j"
  "j \<noteq> i \<Longrightarrow> pool_cells (restore_lane R h i) j = pool_cells h j"
  by (simp_all add: restore_lane_def Let_def split: option.split)

text \<open>What a restore makes of one lane depends on that lane alone.\<close>

lemma restore_lane_local:
  assumes "lanes g ! i = lanes h ! i" and "pool_cells g i = pool_cells h i" and "i < length (lanes g)" and "i < length (lanes h)"
  shows "lanes (restore_lane R g i) ! i = lanes (restore_lane R h i) ! i"
    and "pool_cells (restore_lane R g i) i = pool_cells (restore_lane R h i) i"
  using assms by (simp_all add: restore_lane_def Let_def lane_cells_def split: option.split)

lemma restore_fold:
  assumes "distinct is" and "set is \<subseteq> {..<length (lanes h)}"
  shows "length (lanes (foldl (restore_lane R) h is)) = length (lanes h)
    \<and> pool_shards (foldl (restore_lane R) h is) = pool_shards h
    \<and> (\<forall>i. lanes (foldl (restore_lane R) h is) ! i = (if i \<in> set is then lanes (restore_lane R h i) else lanes h) ! i
       \<and> pool_cells (foldl (restore_lane R) h is) i = (if i \<in> set is then pool_cells (restore_lane R h i) else pool_cells h) i)"
  using assms
proof (induction "is" arbitrary: h)
  case Nil
  then show ?case by simp
next
  case (Cons k ks)
  let ?h = "restore_lane R h k"
  have IH: "length (lanes (foldl (restore_lane R) ?h ks)) = length (lanes ?h)"
    "pool_shards (foldl (restore_lane R) ?h ks) = pool_shards ?h"
    "\<And>i. lanes (foldl (restore_lane R) ?h ks) ! i = (if i \<in> set ks then lanes (restore_lane R ?h i) else lanes ?h) ! i"
    "\<And>i. pool_cells (foldl (restore_lane R) ?h ks) i = (if i \<in> set ks then pool_cells (restore_lane R ?h i) else pool_cells ?h) i"
    using Cons.IH [of ?h] Cons.prems by simp_all
  have loc: "lanes (restore_lane R ?h i) ! i = lanes (restore_lane R h i) ! i"
    "pool_cells (restore_lane R ?h i) i = pool_cells (restore_lane R h i) i" if "i \<in> set ks" for i
  proof -
    have "i \<noteq> k" and "i < length (lanes h)" using that Cons.prems by auto
    then have "lanes ?h ! i = lanes h ! i" "pool_cells ?h i = pool_cells h i" "i < length (lanes ?h)" "i < length (lanes h)"
      by simp_all
    then show "lanes (restore_lane R ?h i) ! i = lanes (restore_lane R h i) ! i"
      "pool_cells (restore_lane R ?h i) i = pool_cells (restore_lane R h i) i"
      by (rule restore_lane_local)+
  qed
  have "lanes (foldl (restore_lane R) h (k # ks)) ! i = (if i \<in> set (k # ks) then lanes (restore_lane R h i) else lanes h) ! i"
    "pool_cells (foldl (restore_lane R) h (k # ks)) i = (if i \<in> set (k # ks) then pool_cells (restore_lane R h i) else pool_cells h) i"
    for i
    using IH(3,4) [of i] loc [of i] Cons.prems(1) by (cases "i = k"; auto)+
  with IH(1,2) show ?case by simp
qed

lemma restore_health_lanes:
  "length (lanes (restore_health_impl h R)) = length (lanes h)"
  "pool_shards (restore_health_impl h R) = pool_shards h"
  "i < length (lanes h) \<Longrightarrow> lanes (restore_health_impl h R) ! i = lanes (restore_lane R h i) ! i"
  "i < length (lanes h) \<Longrightarrow> pool_cells (restore_health_impl h R) i = pool_cells (restore_lane R h i) i"
  "\<not> i < length (lanes h) \<Longrightarrow> pool_cells (restore_health_impl h R) i = pool_cells h i"
  using restore_fold [of "[0..<length (lanes h)]" h R] by (simp_all add: restore_health_impl_def atLeast0LessThan)

section \<open>Well-formed snapshots\<close>

definition snap_wf :: "LaneHealthSnapshot \<Rightarrow> bool" where
  "snap_wf s \<longleftrightarrow>
     hs_breaker_state s \<in> {ST_CLOSED, ST_OPEN, ST_HALF_OPEN} \<and> hs_cooldown_until s \<le> u64_max
   \<and> hs_streak s \<le> u32_max \<and> hs_err s \<le> u64_max \<and> hs_budget s \<le> i64_max
   \<and> distinct (map pc_pool (hs_cells s)) \<and> [] \<notin> pc_pool ` set (hs_cells s)
   \<and> list_all (\<lambda>c. pc_breaker_state c \<in> {ST_CLOSED, ST_OPEN, ST_HALF_OPEN} \<and> pc_cooldown_until c \<le> u64_max
        \<and> pc_streak c \<le> u32_max \<and> pc_err c \<le> u64_max) (hs_cells s)"

definition lane_data_wf :: "'sem LaneData \<Rightarrow> bool" where
  "lane_data_wf ld \<longleftrightarrow>
     ld_cooldown_until ld \<le> u64_max \<and> ld_streak ld \<le> u32_max \<and> ld_err ld \<le> u64_max
   \<and> (ld_limited ld \<longrightarrow> 0 \<le> ld_budget ld \<and> ld_budget ld \<le> i64_max)"

lemma lane_of_data_wf: "lane_data_wf ld \<Longrightarrow> lane_wf (lane_of_data ld)"
  by (simp add: lane_data_wf_def lane_wf_def lane_of_data_def cell_wf_def cell_new_def window_new_def)

text \<open>A probe is never in flight in a fresh cell, and the restored state is never half-open.\<close>

definition settled :: "BreakerCell \<Rightarrow> bool" where
  "settled c \<longleftrightarrow> cell_wf c \<and> breaker_state c \<noteq> ST_HALF_OPEN"

lemma restored_not_half_open: "restored_breaker_state x \<noteq> ST_HALF_OPEN"
  by (simp add: restored_breaker_state_def ST_OPEN_def ST_HALF_OPEN_def)

lemma settled_restore_cell:
  assumes "settled c" and "pc_breaker_state s \<in> {ST_CLOSED, ST_OPEN, ST_HALF_OPEN}" and "pc_cooldown_until s \<le> u64_max"
    and "pc_streak s \<le> u32_max" and "pc_err s \<le> u64_max"
  shows "settled (restore_cell s c)"
proof -
  have "restored_breaker_state (pc_breaker_state s) \<in> {ST_CLOSED, ST_OPEN, ST_HALF_OPEN}"
    using assms(2) by (auto simp: restored_breaker_state_def)
  with assms show ?thesis
    using restored_not_half_open [of "pc_breaker_state s"] by (simp add: settled_def restore_cell_def cell_wf_def)
qed

text \<open>A restore into a lane without cells creates them in the snapshot's order.\<close>

lemma restore_into_fresh:
  "distinct (map fst cs @ map pc_pool ss) \<Longrightarrow>
   foldl restore_into cs ss = cs @ map (\<lambda>s. (pc_pool s, restore_cell s cell_new)) ss"
proof (induction ss arbitrary: cs)
  case (Cons s ss)
  then have "map_of cs (pc_pool s) = None" by (auto simp: map_of_eq_None_iff)
  then have "restore_into cs s = cs @ [(pc_pool s, restore_cell s cell_new)]" by (simp add: restore_into_def)
  with Cons show ?case by simp
qed simp

lemma restored_pool_wf:
  assumes "snap_wf s"
  shows "pool_wf (foldl restore_into [] (hs_cells s))"
    and "\<forall>x \<in> set (foldl restore_into [] (hs_cells s)). settled (snd x)"
proof -
  have eq: "foldl restore_into [] (hs_cells s) = map (\<lambda>s. (pc_pool s, restore_cell s cell_new)) (hs_cells s)"
    using assms restore_into_fresh [of "[]" "hs_cells s"] by (simp add: snap_wf_def)
  have "settled cell_new" by (simp add: settled_def cell_new_def ST_CLOSED_def ST_HALF_OPEN_def)
      (simp add: cell_wf_def window_new_def ST_CLOSED_def ST_HALF_OPEN_def)
  then have all: "\<forall>x \<in> set (hs_cells s). settled (restore_cell x cell_new)"
    using assms by (auto simp: snap_wf_def list_all_iff intro!: settled_restore_cell)
  then show "\<forall>x \<in> set (foldl restore_into [] (hs_cells s)). settled (snd x)" unfolding eq by auto
  show "pool_wf (foldl restore_into [] (hs_cells s))"
    unfolding eq using assms all
    by (auto simp: pool_wf_def snap_wf_def settled_def list_all_iff comp_def)
qed

section \<open>Properties of a restore\<close>

definition match_of :: "LaneHealthSnapshot list \<Rightarrow> 'sem LaneData \<Rightarrow> LaneHealthSnapshot option" where
  "match_of R ld = find (\<lambda>s. hs_model s = ld_model ld \<and> hs_provider s = ld_provider ld) R"

lemma match_of_mem: "match_of R ld = Some s \<Longrightarrow> s \<in> set R"
  by (auto simp: match_of_def find_Some_iff)

lemma restored_lane:
  assumes "i < length lds"
  shows "lanes (new_with_limits_restored lds hds mh R) ! i =
      (case match_of R (lds ! i) of None \<Rightarrow> lane_of_data (lds ! i) | Some s \<Rightarrow> restore_lane_state s (lane_of_data (lds ! i)))"
    and "pool_cells (new_with_limits_restored lds hds mh R) i =
      map_option (\<lambda>s. foldl restore_into [] (hs_cells s)) (match_of R (lds ! i))"
  using assms restore_health_lanes(3,4) [of i "new_with_limits lds hds mh" R]
  by (simp_all add: new_with_limits_restored_def new_with_limits_def restore_lane_def Let_def match_of_def
      lane_of_data_def lane_cells_def split: option.split)

lemma length_restored [simp]: "length (lanes (new_with_limits_restored lds hds mh R)) = length lds"
  by (simp add: new_with_limits_restored_def restore_health_lanes new_with_limits_def)

lemma restored_pool_cells_None: "\<not> i < length lds \<Longrightarrow> pool_cells (new_with_limits_restored lds hds mh R) i = None"
  using restore_health_lanes(5) [of i "new_with_limits lds hds mh" R]
  by (simp add: new_with_limits_restored_def) (simp add: new_with_limits_def)

lemma restored_lane_wf:
  assumes "lane_data_wf ld" and "snap_wf s"
  shows "lane_wf (restore_lane_state s (lane_of_data ld))"
    and "breaker_state (ls_cell (restore_lane_state s (lane_of_data ld))) \<noteq> ST_HALF_OPEN"
proof -
  have st: "restored_breaker_state (hs_breaker_state s) \<in> {ST_CLOSED, ST_OPEN, ST_HALF_OPEN}"
    using assms(2) by (auto simp: snap_wf_def restored_breaker_state_def)
  show "breaker_state (ls_cell (restore_lane_state s (lane_of_data ld))) \<noteq> ST_HALF_OPEN"
    by (simp add: restore_lane_state_def restored_not_half_open)
  show "lane_wf (restore_lane_state s (lane_of_data ld))"
    using assms st restored_not_half_open [of "hs_breaker_state s"]
    by (auto simp: lane_wf_def restore_lane_state_def lane_of_data_def cell_wf_def cell_new_def window_new_def
        snap_wf_def lane_data_wf_def)
qed

text \<open>
  A restored store is sound. From well-formed lanes and well-formed snapshots the restored
  store satisfies the invariant, and no cell of it, default or per pool, is half-open: no lane
  starts wedged on a probe that nobody holds.
\<close>

lemma restore_is_sound:
  assumes "list_all lane_data_wf lds" and "list_all snap_wf R"
  shows "store_wf (new_with_limits_restored lds hds mh R)
    \<and> (\<forall>p l c. peek_cell (new_with_limits_restored lds hds mh R) p l = Some c \<longrightarrow>
          breaker_state c \<noteq> ST_HALF_OPEN \<and> \<not> probe_in_flight c)"
proof -
  let ?h = "new_with_limits_restored lds hds mh R"
  have ld: "lane_data_wf (lds ! i)" if "i < length lds" for i using assms(1) that by (simp add: list_all_length)
  have sn: "snap_wf s" if "match_of R ld = Some s" for ld :: "'a LaneData" and s
    using match_of_mem [OF that] assms(2) by (simp add: list_all_iff)
  have lanes: "lane_wf (lanes ?h ! i) \<and> breaker_state (ls_cell (lanes ?h ! i)) \<noteq> ST_HALF_OPEN" if "i < length lds" for i
    using restored_lane(1) [OF that, of hds mh R] restored_lane_wf [OF ld [OF that]] lane_of_data_wf [OF ld [OF that]] sn
    by (auto split: option.split simp: lane_of_data_def cell_new_def ST_CLOSED_def ST_HALF_OPEN_def)
  have pools: "i < length lds \<and> pool_wf cs \<and> (\<forall>x \<in> set cs. settled (snd x))" if "pool_cells ?h i = Some cs" for i cs
  proof -
    have i: "i < length lds" using that restored_pool_cells_None by (metis option.distinct(1))
    then show ?thesis using that restored_lane(2) [OF i, of hds mh R] restored_pool_wf sn by auto
  qed
  have "shards_wf (pool_shards ?h)"
    by (simp add: new_with_limits_restored_def restore_health_lanes new_with_limits_def shards_wf_def)
  then have wf: "store_wf ?h" using lanes pools by (auto simp: store_wf_def list_all_length)
  have "breaker_state c \<noteq> ST_HALF_OPEN" if "peek_cell ?h p l = Some c" for p l c
    using that lanes [of l] pools [of l]
    by (auto simp: peek_cell_def get_lane_def lane_cells_def settled_def split: if_splits option.splits dest!: map_of_SomeD)
  with store_wf_cell [OF wf] wf show ?thesis by (auto simp: cell_wf_def)
qed

definition sample_snapshot :: LaneHealthSnapshot where
  "sample_snapshot =
     \<lparr>hs_model = ''m'', hs_provider = ''p'', hs_budget = 4, hs_breaker_state = ST_HALF_OPEN, hs_cooldown_until = 77,
      hs_streak = 2, hs_dead = False, hs_dead_reason = [], hs_ok = 8, hs_err = 3, hs_client_fault = 1,
      hs_latency_ewma_bits = 0, hs_trips = 1, hs_last_trip_at = 60,
      hs_cells = [\<lparr>pc_pool = ''pool'', pc_breaker_state = ST_OPEN, pc_cooldown_until = 90, pc_streak = 3, pc_err = 3\<rparr>]\<rparr>"

text \<open>What a lane of the new configuration carries over from its snapshot.\<close>

definition carried_cell :: "PoolCellHealthSnapshot \<Rightarrow> PoolCellHealthSnapshot" where
  "carried_cell c = c\<lparr>pc_breaker_state := restored_breaker_state (pc_breaker_state c)\<rparr>"

definition carried :: "'sem LaneData \<Rightarrow> LaneHealthSnapshot \<Rightarrow> LaneHealthSnapshot" where
  "carried ld s =
     s\<lparr>hs_budget := (if \<not> ld_limited ld then - 1
                     else if hs_budget s < 0 then ld_budget ld else min (hs_budget s) (ld_budget ld)),
       hs_breaker_state := restored_breaker_state (hs_breaker_state s), hs_cells := map carried_cell (hs_cells s)\<rparr>"

lemma export_restored_cell: "export_cell (pc_pool s, restore_cell s cell_new) = carried_cell s"
  by (cases s) (simp add: export_cell_def restore_cell_def carried_cell_def)

lemma export_restored_lane:
  "hs_model s = ld_model ld \<Longrightarrow> hs_provider s = ld_provider ld \<Longrightarrow>
   export_lane (restore_lane_state s (lane_of_data ld)) (map (\<lambda>s. (pc_pool s, restore_cell s cell_new)) (hs_cells s))
   = carried ld s"
  by (cases s) (simp add: export_lane_def restore_lane_state_def lane_of_data_def carried_def export_restored_cell comp_def)

lemma restored_export_nth:
  assumes "list_all snap_wf R" and "i < length lds"
  shows "export_health (new_with_limits_restored lds hds mh R) ! i =
    (case match_of R (lds ! i) of
       None \<Rightarrow> export_lane (lane_of_data (lds ! i)) []
     | Some s \<Rightarrow> carried (lds ! i) s)"
proof -
  let ?h = "new_with_limits_restored lds hds mh R"
  have ex: "export_health ?h ! i = export_lane (lanes ?h ! i) (lane_cells ?h i)"
    using assms(2) by (simp add: export_health_def)
  show ?thesis
  proof (cases "match_of R (lds ! i)")
    case None
    with ex restored_lane [OF assms(2), of hds mh R] show ?thesis by (simp add: lane_cells_def)
  next
    case (Some s)
    then have id: "hs_model s = ld_model (lds ! i)" "hs_provider s = ld_provider (lds ! i)"
      by (auto simp: match_of_def find_Some_iff)
    have "distinct (map pc_pool (hs_cells s))"
      using match_of_mem [OF Some] assms(1) by (auto simp: list_all_iff snap_wf_def)
    then have "foldl restore_into [] (hs_cells s) = map (\<lambda>s. (pc_pool s, restore_cell s cell_new)) (hs_cells s)"
      using restore_into_fresh [of "[]" "hs_cells s"] by simp
    with ex restored_lane [OF assms(2), of hds mh R] Some export_restored_lane [OF id] show ?thesis
      by (simp add: lane_cells_def)
  qed
qed

text \<open>
  Health is carried by identity. Whatever lanes the new configuration has and in whatever
  order, a lane whose model and provider appear in the snapshot exports, after the restore,
  exactly that snapshot, with a half-open state turned to open and the remaining budget cut to
  the new cap; a budget is never carried from or to an unlimited lane; a lane without a
  snapshot starts fresh.
\<close>

lemma restore_carries_by_identity:
  assumes "list_all snap_wf R" and "i < length lds"
  shows "export_health (new_with_limits_restored lds hds mh R) ! i =
    (case match_of R (lds ! i) of
       None \<Rightarrow> export_lane (lane_of_data (lds ! i)) []
     | Some s \<Rightarrow> carried (lds ! i) s)"
  by (rule restored_export_nth [OF assms])

text \<open>Export of a well-formed store is well formed, so the two operations compose.\<close>

lemma export_wf:
  assumes "store_wf h" and "s \<in> set (export_health h)" 
  shows "snap_wf s"
proof -
  obtain i where i: "i < length (lanes h)" and s: "s = export_lane (lanes h ! i) (lane_cells h i)"
    using assms(2) by (auto simp: export_health_def)
  have lw: "lane_wf (lanes h ! i)" using store_wf_lane [OF assms(1), of i] i by (simp add: get_lane_def)
  have pw: "pool_wf (lane_cells h i)" by (rule store_wf_pool [OF assms(1)])
  have pools: "map (pc_pool \<circ> export_cell) cs = map fst cs" for cs by (simp add: export_cell_def comp_def)
  have "list_all (\<lambda>c. pc_breaker_state c \<in> {ST_CLOSED, ST_OPEN, ST_HALF_OPEN} \<and> pc_cooldown_until c \<le> u64_max
        \<and> pc_streak c \<le> u32_max \<and> pc_err c \<le> u64_max) (map export_cell cs)"
    if "list_all (\<lambda>(_, c). cell_wf c) cs" for cs
    using that by (induction cs) (auto simp: export_cell_def cell_wf_def)
  with lw pw show ?thesis
    unfolding s snap_wf_def export_lane_def
    by (simp add: lane_wf_def cell_wf_def pool_wf_def pools i64_max_def image_image) (simp add: export_cell_def)
qed

lemma find_export:
  assumes "distinct (map (\<lambda>ls. (ls_model ls, ls_provider ls)) (lanes h))" and "i < length (lanes h)"
    and "ld_model ld = ls_model (lanes h ! i)" and "ld_provider ld = ls_provider (lanes h ! i)"
  shows "match_of (export_health h) ld = Some (export_health h ! i)"
proof -
  let ?key = "\<lambda>ls. (ls_model ls, ls_provider ls)"
  have key: "hs_model (export_health h ! j) = ls_model (lanes h ! j)" "hs_provider (export_health h ! j) = ls_provider (lanes h ! j)"
    if "j < length (lanes h)" for j
    using that by (simp_all add: export_health_def export_lane_def)
  have "?key (lanes h ! j) \<noteq> ?key (lanes h ! i)" if "j < i" for j
    using assms(1,2) that nth_eq_iff_index_eq [OF assms(1), of j i] by auto
  then show ?thesis
    using assms(2-4) key by (auto simp: match_of_def find_Some_iff export_health_def [of h] intro!: exI [of _ i])
qed

text \<open>
  C37: a restart loses nothing. If the lanes have distinct identities and the new configuration
  has the same lanes with the same limits and caps no lower than what is left, then exporting
  the restored store gives the snapshot that was taken, up to half-open turning to open.
\<close>

theorem export_restore_roundtrip:
  assumes "store_wf h" and "distinct (map (\<lambda>ls. (ls_model ls, ls_provider ls)) (lanes h))"
    and "list_all2 (\<lambda>ld ls. ld_model ld = ls_model ls \<and> ld_provider ld = ls_provider ls \<and> ld_limited ld = ls_limited ls
          \<and> (ls_limited ls \<longrightarrow> ls_budget ls \<le> ld_budget ld)) lds (lanes h)"
  shows "export_health (new_with_limits_restored lds hds mh (export_health h)) =
    map (\<lambda>s. s\<lparr>hs_breaker_state := restored_breaker_state (hs_breaker_state s), hs_cells := map carried_cell (hs_cells s)\<rparr>)
      (export_health h)"
proof (rule nth_equalityI)
  let ?r = "new_with_limits_restored lds hds mh (export_health h)"
  have len: "length lds = length (lanes h)" using assms(3) by (rule list_all2_lengthD)
  show "length (export_health ?r) = length (map (\<lambda>s. s\<lparr>hs_breaker_state := restored_breaker_state (hs_breaker_state s),
      hs_cells := map carried_cell (hs_cells s)\<rparr>) (export_health h))"
    by (simp add: len)
  fix i assume "i < length (export_health ?r)"
  then have i: "i < length lds" by simp
  let ?ls = "lanes h ! i" and ?ld = "lds ! i"
  have ld: "ld_model ?ld = ls_model ?ls" "ld_provider ?ld = ls_provider ?ls" "ld_limited ?ld = ls_limited ?ls"
    "ls_limited ?ls \<Longrightarrow> ls_budget ?ls \<le> ld_budget ?ld"
    using assms(3) i by (auto simp: list_all2_conv_all_nth)
  have bud: "ls_limited ?ls \<Longrightarrow> 0 \<le> ls_budget ?ls"
    using store_wf_lane [OF assms(1), of i ?ls] i len by (simp add: lane_wf_def get_lane_def)
  have ex: "export_health h ! i = export_lane ?ls (lane_cells h i)" using i len by (simp add: export_health_def)
  have wf: "list_all snap_wf (export_health h)" using export_wf [OF assms(1)] by (simp add: list_all_iff)
  have m: "match_of (export_health h) ?ld = Some (export_health h ! i)"
    by (rule find_export [OF assms(2) _ ld(1,2)]) (use i len in simp)
  have "carried ?ld (export_health h ! i) = (export_health h ! i)\<lparr>
      hs_breaker_state := restored_breaker_state (hs_breaker_state (export_health h ! i)),
      hs_cells := map carried_cell (hs_cells (export_health h ! i))\<rparr>"
    unfolding ex using ld(3,4) bud by (auto simp: carried_def export_lane_def)
  with restored_export_nth [OF wf i, of hds mh] m i len
  show "export_health ?r ! i = map (\<lambda>s. s\<lparr>hs_breaker_state := restored_breaker_state (hs_breaker_state s),
      hs_cells := map carried_cell (hs_cells s)\<rparr>) (export_health h) ! i"
    by simp
qed

theorem export_restore_roundtrip_witness:
  "export_health (new_with_limits_restored [sample_lane] 1800 86400 (export_health sample_store)) =
    map (\<lambda>s. s\<lparr>hs_breaker_state := restored_breaker_state (hs_breaker_state s), hs_cells := map carried_cell (hs_cells s)\<rparr>)
      (export_health sample_store)"
  by (rule export_restore_roundtrip [OF sample_store_wf]) (simp_all add: sample_simps)

end
