(* ===== verification/Lane_Select.thy ===== *)
theory Lane_Select
  imports Store_Machine
begin

text \<open>
  Lane selection for one request, \<open>src/crates/busbar/src/proxy/select.rs\<close>: the request context
  with its deadline and exclusions, the compliance restricts re-applied on every failover hop,
  and \<open>pick_among\<close>: the sticky lane of the session, then the routing policy's ranked walk or the
  weighted selection, each candidate through the one admission \<open>try_admit\<close>.

  The clock is read several times in one pick; \<open>clock k\<close> is what the \<open>k\<close>-th reading gives. The
  retry loop is bounded by fuel: every round that does not return excludes one more candidate,
  so one round more than there are candidates is always enough (\<open>pick_loop_total\<close>).
  The millisecond deadline \<open>deadline_wall\<close> of the context serves the queueing path only and is
  left out.
\<close>

section \<open>Types\<close>

record WeightedLane =
  wl_idx :: usize
  wl_weight :: u32
  wl_reasoning :: "bool option"
  wl_attempt_timeout_ms :: "u64 option"

datatype PolicyOnError = Weighted | Reject | First

record RestrictConstraint =
  tags_any :: "string list"
  on_empty :: PolicyOnError
  restrict_name :: string

record MemberMeta =
  meta_tags :: "string list"

record RequestCtx =
  deadline :: u64
  excluded :: "usize set"
  visited_pools :: "string set"
  active_restricts :: "RestrictConstraint list"
  excluded_reasons :: "(usize \<times> Unavailable) list"
  request_id :: u64

section \<open>The request context\<close>

definition ctx_new :: "u64 \<Rightarrow> u64 \<Rightarrow> u64 \<Rightarrow> RequestCtx" where
  "ctx_new start deadline_secs rid =
     \<lparr>deadline = saturating_add start deadline_secs, excluded = {}, visited_pools = {}, active_restricts = [],
      excluded_reasons = [], request_id = rid\<rparr>"

definition eligible :: "(usize \<rightharpoonup> MemberMeta) option \<Rightarrow> RestrictConstraint \<Rightarrow> WeightedLane \<Rightarrow> bool" where
  "eligible members r wl =
     (case Option.bind members (\<lambda>m. m (wl_idx wl)) of
        None \<Rightarrow> False
      | Some meta \<Rightarrow> list_ex (\<lambda>t. list_ex (\<lambda>w. w = t) (tags_any r)) (meta_tags meta))"

fun enforce_loop ::
  "(usize \<rightharpoonup> MemberMeta) option \<Rightarrow> RestrictConstraint list \<Rightarrow> WeightedLane list \<Rightarrow> string + WeightedLane list" where
  "enforce_loop members [] cands = Inr cands"
| "enforce_loop members (r # rs) cands =
     (let restricted = filter (eligible members r) cands in
      if restricted = [] then
        (if on_empty r = Weighted then enforce_loop members rs cands else Inl (restrict_name r))
      else enforce_loop members rs restricted)"

definition enforce_restricts ::
  "RequestCtx \<Rightarrow> (string \<rightharpoonup> (usize \<rightharpoonup> MemberMeta)) \<Rightarrow> string \<Rightarrow> WeightedLane list \<Rightarrow> string + WeightedLane list" where
  "enforce_restricts ctx pool_runtime pool_name cands =
     enforce_loop (pool_runtime pool_name) (active_restricts ctx) cands"

definition expired :: "RequestCtx \<Rightarrow> u64 \<Rightarrow> bool" where
  "expired ctx now \<longleftrightarrow> now \<ge> deadline ctx"

definition remaining :: "RequestCtx \<Rightarrow> u64 \<Rightarrow> u64" where
  "remaining ctx now = saturating_sub (deadline ctx) now"

definition exclude :: "RequestCtx \<Rightarrow> usize \<Rightarrow> RequestCtx" where
  "exclude ctx idx = ctx\<lparr>excluded := insert idx (excluded ctx)\<rparr>"

definition fill_candidates :: "RequestCtx \<Rightarrow> WeightedLane list \<Rightarrow> WeightedLane list" where
  "fill_candidates ctx cands = filter (\<lambda>wl. wl_idx wl \<notin> excluded ctx) cands"

definition mark_pool_visited :: "RequestCtx \<Rightarrow> string \<Rightarrow> RequestCtx" where
  "mark_pool_visited ctx pool = ctx\<lparr>visited_pools := insert pool (visited_pools ctx)\<rparr>"

definition is_pool_visited :: "RequestCtx \<Rightarrow> string \<Rightarrow> bool" where
  "is_pool_visited ctx pool \<longleftrightarrow> pool \<in> visited_pools ctx"

definition stable_hash :: "string \<Rightarrow> u64" where
  "stable_hash s = fnv1a_u64 s"

section \<open>The probe guard\<close>

record ProbeGuard =
  pg_pool :: string
  pg_lane :: usize
  pg_armed :: bool
  pg_epoch :: u64

definition probe_guard_drop :: "'sem HealthState \<Rightarrow> ProbeGuard \<Rightarrow> 'sem HealthState option" where
  "probe_guard_drop h g = (if pg_armed g then release_probe_owned_in h (pg_pool g) (pg_lane g) (pg_epoch g) else Some h)"

section \<open>Picking a lane\<close>

text \<open>The first ranked lane that is a candidate with a non-zero weight and ready.\<close>

fun find_preferred ::
  "'sem HealthState \<Rightarrow> string \<Rightarrow> (usize \<times> u32) list \<Rightarrow> u64 \<Rightarrow> usize list \<Rightarrow> ('sem HealthState \<times> usize option) option" where
  "find_preferred h pool cws now [] = Some (h, None)"
| "find_preferred h pool cws now (idx # order) =
     (if (case map_of cws idx of None \<Rightarrow> False | Some w \<Rightarrow> w \<noteq> 0)
      then do {
        (h1, ready) \<leftarrow> ready_for h pool idx now;
        if ready then Some (h1, Some idx) else find_preferred h1 pool cws now order }
      else find_preferred h pool cws now order)"

definition select_lane ::
  "'sem HealthState \<Rightarrow> string \<Rightarrow> usize list \<Rightarrow> u32 list \<Rightarrow> usize list option \<Rightarrow> u64 \<Rightarrow>
     ('sem HealthState \<times> usize option) option" where
  "select_lane h pool candidates weights policy_order now =
     (case policy_order of
        Some order \<Rightarrow> do {
          (h1, preferred) \<leftarrow> find_preferred h pool (zip candidates weights) now order;
          case preferred of
            Some idx \<Rightarrow> Some (h1, Some idx)
          | None \<Rightarrow> select_weighted_for h1 pool candidates weights now }
      | None \<Rightarrow> select_weighted_for h pool candidates weights now)"

type_synonym pick = "usize \<times> Permit \<times> u64"

fun pick_loop ::
  "nat \<Rightarrow> 'sem sem_ops \<Rightarrow> (nat \<Rightarrow> u64) \<Rightarrow> nat \<Rightarrow> 'sem HealthState \<Rightarrow> WeightedLane list \<Rightarrow> RequestCtx \<Rightarrow> usize set \<Rightarrow>
     string \<Rightarrow> usize list option \<Rightarrow> ('sem HealthState \<times> RequestCtx \<times> pick option) option" where
  "pick_loop 0 ops clock k h cands ctx local_excluded pool policy_order = None"
| "pick_loop (Suc fuel) ops clock k h cands ctx local_excluded pool policy_order =
     (if expired ctx (clock k) then Some (h, ctx, None)
      else
        let filtered = filter (\<lambda>wl. wl_idx wl \<notin> local_excluded) (fill_candidates ctx cands) in
        if filtered = [] then Some (h, ctx, None)
        else do {
          (h1, picked) \<leftarrow> select_lane h pool (map wl_idx filtered) (map wl_weight filtered) policy_order (clock (k + 1));
          case picked of
            None \<Rightarrow> Some (h1, ctx, None)
          | Some lane \<Rightarrow> do {
              (h2, r) \<leftarrow> try_admit ops h1 pool lane (clock (k + 2));
              case r of
                Inr admit \<Rightarrow> Some (h2, ctx, Some (lane, admit_permit admit, admit_probe_epoch admit))
              | Inl reason \<Rightarrow>
                  pick_loop fuel ops clock (k + 3) h2 cands
                    (ctx\<lparr>excluded_reasons := excluded_reasons ctx @ [(lane, reason)]\<rparr>)
                    (insert lane local_excluded) pool policy_order } })"

definition pick_among ::
  "'sem sem_ops \<Rightarrow> (nat \<Rightarrow> u64) \<Rightarrow> 'sem HealthState \<Rightarrow> WeightedLane list \<Rightarrow> RequestCtx \<Rightarrow> u64 option \<Rightarrow> string \<Rightarrow>
     usize list option \<Rightarrow> ('sem HealthState \<times> RequestCtx \<times> pick option) option" where
  "pick_among ops clock h cands ctx0 affinity_key_hash pool policy_order =
     (let ctx = ctx0\<lparr>excluded_reasons := []\<rparr>;
          fuel = Suc (length cands)
      in case affinity_key_hash of
           None \<Rightarrow> pick_loop fuel ops clock 1 h cands ctx {} pool policy_order
         | Some hash \<Rightarrow>
             (if cands = [] then pick_loop fuel ops clock 1 h cands ctx {} pool policy_order
              else
                let wl = cands ! (hash mod length cands); sticky = wl_idx wl in
                if wl_weight wl \<noteq> 0 \<and> sticky \<notin> excluded ctx
                then do {
                  (h1, r) \<leftarrow> try_admit ops h pool sticky (clock 0);
                  case r of
                    Inr admit \<Rightarrow> Some (h1, ctx, Some (sticky, admit_permit admit, admit_probe_epoch admit))
                  | Inl reason \<Rightarrow>
                      pick_loop fuel ops clock 1 h1 cands (ctx\<lparr>excluded_reasons := [(sticky, reason)]\<rparr>) {} pool policy_order }
                else pick_loop fuel ops clock 1 h cands ctx {} pool policy_order))"

section \<open>Restricts\<close>

lemma enforce_loop_Ok:
  "enforce_loop members rs cands = Inr out \<Longrightarrow>
     set out \<subseteq> set cands
   \<and> (\<forall>r \<in> set rs. on_empty r \<noteq> Weighted \<longrightarrow> (\<forall>wl \<in> set out. eligible members r wl))
   \<and> (cands \<noteq> [] \<longrightarrow> out \<noteq> [])"
proof (induction members rs cands rule: enforce_loop.induct)
  case (2 members r rs cands)
  let ?f = "filter (eligible members r) cands"
  show ?case
  proof (cases "?f = []")
    case True
    with "2.prems" "2.IH"(1) show ?thesis by (auto simp: Let_def split: if_splits)
  next
    case False
    with "2.prems" have "enforce_loop members rs ?f = Inr out" by (simp add: Let_def)
    with "2.IH"(2) [OF refl False] False show ?thesis by auto
  qed
qed simp

lemma enforce_loop_Err:
  "enforce_loop members rs cands = Inl name \<Longrightarrow>
     \<exists>r \<in> set rs. restrict_name r = name \<and> on_empty r \<noteq> Weighted"
  by (induction members rs cands rule: enforce_loop.induct) (auto simp: Let_def split: if_splits)

text \<open>
  A compliance restrict survives every failover hop. What \<open>enforce_restricts\<close> lets through is
  part of the hop's candidates, every lane of it carries an eligible tag of every restrict that
  is not an advisory one, and it is not empty when the hop had candidates; when it refuses, it
  names a fail-closed restrict.
\<close>

lemma restricts_hold_on_every_hop:
  "case enforce_restricts ctx pool_runtime pool cands of
     Inr out \<Rightarrow>
       set out \<subseteq> set cands \<and> (cands \<noteq> [] \<longrightarrow> out \<noteq> [])
     \<and> (\<forall>r \<in> set (active_restricts ctx). on_empty r \<noteq> Weighted \<longrightarrow>
          (\<forall>wl \<in> set out. \<exists>m meta t. pool_runtime pool = Some m \<and> m (wl_idx wl) = Some meta
             \<and> t \<in> set (meta_tags meta) \<and> t \<in> set (tags_any r)))
   | Inl name \<Rightarrow> \<exists>r \<in> set (active_restricts ctx). restrict_name r = name \<and> on_empty r \<noteq> Weighted"
proof (cases "enforce_restricts ctx pool_runtime pool cands")
  case (Inl name)
  then show ?thesis by (auto simp: enforce_restricts_def dest: enforce_loop_Err)
next
  case (Inr out)
  have "\<exists>m meta t. pool_runtime pool = Some m \<and> m (wl_idx wl) = Some meta \<and> t \<in> set (meta_tags meta) \<and> t \<in> set (tags_any r)"
    if "eligible (pool_runtime pool) r wl" for r wl
    using that by (auto simp: eligible_def list_ex_iff bind_eq_Some_conv split: option.splits)
  with enforce_loop_Ok [of "pool_runtime pool" "active_restricts ctx" cands out] Inr show ?thesis
    by (simp add: enforce_restricts_def)
qed

section \<open>The selection step\<close>

lemma lanes_length_keeps: "keeps h h1 \<Longrightarrow> length (lanes h1) = length (lanes h)"
  by (metis keeps_def length_map meters_def)

lemma store_ops_keeps: "(store_op ops)\<^sup>*\<^sup>* h h1 \<Longrightarrow> keeps h h1"
  by (induction rule: rtranclp_induct) (auto intro: keeps_trans store_op_keeps)

lemma ready_for_op: "ready_for h p l now = Some (h1, r) \<Longrightarrow> (store_op ops)\<^sup>*\<^sup>* h h1"
  by (auto simp: ready_for_def bind_eq_Some_conv split: if_splits intro: store_op.op_read)

lemma ready_for_total: "l < length (lanes h) \<Longrightarrow> \<exists>h1 r. ready_for h p l now = Some (h1, r)"
  using cell_of_total [of l h p] by (auto simp: ready_for_def lane_admissible_def get_lane_def)

lemma find_preferred_spec:
  assumes "\<forall>l \<in> fst ` set cws. l < length (lanes h)"
  shows "\<exists>h1 r. find_preferred h pool cws now order = Some (h1, r) \<and> (store_op ops)\<^sup>*\<^sup>* h h1
    \<and> (\<forall>l. r = Some l \<longrightarrow> (\<exists>w. (l, w) \<in> set cws \<and> w \<noteq> 0))"
  using assms
proof (induction order arbitrary: h)
  case (Cons idx order)
  show ?case
  proof (cases "case map_of cws idx of None \<Rightarrow> False | Some w \<Rightarrow> w \<noteq> 0")
    case False
    with Cons show ?thesis by simp
  next
    case True
    then obtain w where w: "(idx, w) \<in> set cws" "w \<noteq> 0" by (auto split: option.splits dest: map_of_SomeD)
    with Cons.prems have "idx < length (lanes h)" by force
    then obtain h1 r where r: "ready_for h pool idx now = Some (h1, r)" using ready_for_total by blast
    have op: "(store_op ops)\<^sup>*\<^sup>* h h1" by (rule ready_for_op [OF r])
    have "\<forall>l \<in> fst ` set cws. l < length (lanes h1)"
      using Cons.prems lanes_length_keeps [OF store_ops_keeps [OF op]] by simp
    from Cons.IH [OF this] op r w True show ?thesis
      by (cases r) (auto intro: rtranclp_trans)
  qed
qed auto

lemma select_lane_spec:
  assumes "distinct cs" and "\<forall>l \<in> set cs. l < length (lanes h)"
  shows "\<exists>h1 r. select_lane h pool cs ws order now = Some (h1, r) \<and> (store_op ops)\<^sup>*\<^sup>* h h1
    \<and> (\<forall>l. r = Some l \<longrightarrow> (\<exists>w. (l, w) \<in> set (zip cs ws) \<and> w \<noteq> 0))"
proof -
  have sel: "\<exists>g1 r. select_weighted_for g pool cs ws now = Some (g1, r) \<and> (store_op ops)\<^sup>*\<^sup>* g g1
    \<and> (\<forall>l. r = Some l \<longrightarrow> (\<exists>w. (l, w) \<in> set (zip cs ws) \<and> w \<noteq> 0))"
    if "length (lanes g) = length (lanes h)" for g :: "'a HealthState"
  proof -
    have rng: "\<forall>l \<in> set cs. l < length (lanes g)" using assms(2) that by simp
    obtain g1 where s: "select_weighted_for g pool cs ws now = Some (g1, pick_of g pool (healthy_of g pool now (zip cs ws)))"
      using select_spec [OF assms(1) rng refl] by blast
    moreover have "\<exists>w. (l, w) \<in> set (zip cs ws) \<and> w \<noteq> 0"
      if "pick_of g pool (healthy_of g pool now (zip cs ws)) = Some l" for l
      using pick_of_mem [OF that] by (auto simp: healthy_of_def)
    ultimately show ?thesis by (blast intro: store_op.op_select)
  qed
  show ?thesis
  proof (cases order)
    case None
    with sel [OF refl] show ?thesis by (simp add: select_lane_def)
  next
    case (Some ord)
    have "\<forall>l \<in> fst ` set (zip cs ws). l < length (lanes h)" using assms(2) by (auto dest: set_zip_leftD)
    from find_preferred_spec [where pool = pool and now = now and order = ord and ops = ops, OF this] obtain h1 r where
      f: "find_preferred h pool (zip cs ws) now ord = Some (h1, r)" "(store_op ops)\<^sup>*\<^sup>* h h1"
      "\<forall>l. r = Some l \<longrightarrow> (\<exists>w. (l, w) \<in> set (zip cs ws) \<and> w \<noteq> 0)" by blast
    with Some sel [OF lanes_length_keeps [OF store_ops_keeps [OF f(2)]]] show ?thesis
      by (cases r) (auto simp: select_lane_def intro: rtranclp_trans)
  qed
qed

section \<open>The retry loop\<close>

definition open_cands :: "RequestCtx \<Rightarrow> usize set \<Rightarrow> WeightedLane list \<Rightarrow> WeightedLane list" where
  "open_cands ctx local_excluded cands =
     filter (\<lambda>wl. wl_idx wl \<notin> local_excluded) (fill_candidates ctx cands)"

lemma distinct_open_cands: "distinct (map wl_idx cands) \<Longrightarrow> distinct (map wl_idx (open_cands ctx loc cands))"
  by (simp add: open_cands_def fill_candidates_def distinct_map_filter)

lemma open_cands_sub: "set (open_cands ctx loc cands) \<subseteq> set cands"
  by (auto simp: open_cands_def fill_candidates_def)

lemma open_cands_shrink:
  assumes "l \<in> wl_idx ` set (open_cands ctx loc cands)"
  shows "length (open_cands (ctx\<lparr>excluded_reasons := rs\<rparr>) (insert l loc) cands) < length (open_cands ctx loc cands)"
proof -
  have eq: "open_cands (ctx\<lparr>excluded_reasons := rs\<rparr>) (insert l loc) cands
      = filter (\<lambda>wl. wl_idx wl \<noteq> l) (open_cands ctx loc cands)"
    by (auto simp: open_cands_def fill_candidates_def intro!: filter_cong)
  show ?thesis unfolding eq using assms by (auto intro!: length_filter_less)
qed

lemma try_admit_total:
  assumes "l < length (lanes h)"
  shows "\<exists>h1 r. try_admit ops h p l now = Some (h1, r)"
proof -
  obtain h1 u where g: "admit_gate h p l now = Some (h1, u)" using admit_gate_total [OF assms] by blast
  have l1: "l < length (lanes h1)" using assms admit_gate_cases(1) [OF g] by simp
  then have "try_acquire ops h1 l \<noteq> None"
    by (simp add: try_acquire_def get_lane_def split: option.split)
  then obtain h2 q where q: "try_acquire ops h1 l = Some (h2, q)" by auto
  show ?thesis
  proof (cases u)
    case (Some x)
    with g show ?thesis by (simp add: try_admit_def)
  next
    case None
    show ?thesis
    proof (cases q)
      case qN: None
      with None g q show ?thesis by (simp add: try_admit_def)
    next
      case (Some permit)
      from try_admit_after_gate [OF g [unfolded None] q [unfolded Some]] show ?thesis by blast
    qed
  qed
qed

text \<open>
  One round, for a pick that has candidates left and time: it selects some lane or none, and the
  lane it selects is an open candidate with a non-zero weight.
\<close>

lemma pick_round:
  assumes "distinct (map wl_idx cands)" and "\<forall>wl \<in> set cands. wl_idx wl < length (lanes h)"
  obtains h1 picked where
    "select_lane h pool (map wl_idx (open_cands ctx loc cands)) (map wl_weight (open_cands ctx loc cands)) order now
       = Some (h1, picked)"
    and "(store_op ops)\<^sup>*\<^sup>* h h1" and "length (lanes h1) = length (lanes h)"
    and "\<And>l. picked = Some l \<Longrightarrow> \<exists>wl \<in> set (open_cands ctx loc cands). wl_idx wl = l \<and> wl_weight wl \<noteq> 0"
proof -
  let ?o = "open_cands ctx loc cands"
  have "\<forall>l \<in> set (map wl_idx ?o). l < length (lanes h)" using assms(2) open_cands_sub by fastforce
  from select_lane_spec [OF distinct_open_cands [OF assms(1)] this, of pool "map wl_weight ?o" order now ops]
  obtain h1 picked where "select_lane h pool (map wl_idx ?o) (map wl_weight ?o) order now = Some (h1, picked)"
    and op: "(store_op ops)\<^sup>*\<^sup>* h h1"
    and pk: "\<forall>l. picked = Some l \<longrightarrow> (\<exists>w. (l, w) \<in> set (zip (map wl_idx ?o) (map wl_weight ?o)) \<and> w \<noteq> 0)" by blast
  moreover have "set (zip (map wl_idx ?o) (map wl_weight ?o)) = (\<lambda>wl. (wl_idx wl, wl_weight wl)) ` set ?o"
    by (simp add: zip_map_map zip_same_conv_map)
  ultimately show thesis using that lanes_length_keeps [OF store_ops_keeps [OF op]] by fastforce
qed

lemma pick_loop_unfold:
  "pick_loop (Suc fuel) ops clock k h cands ctx loc pool order =
     (if expired ctx (clock k) \<or> open_cands ctx loc cands = [] then Some (h, ctx, None)
      else do {
          (h1, picked) \<leftarrow> select_lane h pool (map wl_idx (open_cands ctx loc cands))
             (map wl_weight (open_cands ctx loc cands)) order (clock (k + 1));
          case picked of
            None \<Rightarrow> Some (h1, ctx, None)
          | Some lane \<Rightarrow> do {
              (h2, r) \<leftarrow> try_admit ops h1 pool lane (clock (k + 2));
              case r of
                Inr admit \<Rightarrow> Some (h2, ctx, Some (lane, admit_permit admit, admit_probe_epoch admit))
              | Inl reason \<Rightarrow>
                  pick_loop fuel ops clock (k + 3) h2 cands
                    (ctx\<lparr>excluded_reasons := excluded_reasons ctx @ [(lane, reason)]\<rparr>)
                    (insert lane loc) pool order } })"
  by (cases "expired ctx (clock k)"; cases "open_cands ctx loc cands = []")
    (simp_all only: pick_loop.simps Let_def open_cands_def if_True if_False simp_thms)

declare pick_loop.simps(2) [simp del]

text \<open>What a pick promises of its result, relative to the store and the context it started from.\<close>

definition pick_ok ::
  "'sem sem_ops \<Rightarrow> string \<Rightarrow> WeightedLane list \<Rightarrow> 'sem HealthState \<Rightarrow> RequestCtx \<Rightarrow> 'sem HealthState \<times> RequestCtx \<times> pick option \<Rightarrow> bool" where
  "pick_ok ops pool cands h ctx res \<longleftrightarrow>
     (case res of (h', ctx', r) \<Rightarrow>
        (\<exists>rs. ctx' = ctx\<lparr>excluded_reasons := excluded_reasons ctx @ rs\<rparr>
            \<and> (\<forall>(l, u) \<in> set rs. l \<in> wl_idx ` set cands))
      \<and> (store_op ops)\<^sup>*\<^sup>* h h'
      \<and> (\<forall>l permit epoch. r = Some (l, permit, epoch) \<longrightarrow>
           (\<exists>wl hp t. wl \<in> set cands \<and> wl_idx wl = l \<and> wl_weight wl \<noteq> 0 \<and> l \<notin> excluded ctx
              \<and> (store_op ops)\<^sup>*\<^sup>* h hp
              \<and> try_admit ops hp pool l t = Some (h', Inr \<lparr>admit_permit = permit, admit_probe_epoch = epoch\<rparr>))))"

lemma pick_ok_admitted:
  assumes "try_admit ops hp pool (wl_idx wl) t = Some (h', Inr admit)" and "(store_op ops)\<^sup>*\<^sup>* h hp"
    and "wl \<in> set cands" and "wl_weight wl \<noteq> 0" and "wl_idx wl \<notin> excluded ctx"
  shows "pick_ok ops pool cands h ctx (h', ctx, Some (wl_idx wl, admit_permit admit, admit_probe_epoch admit))"
proof -
  have "admit = \<lparr>admit_permit = admit_permit admit, admit_probe_epoch = admit_probe_epoch admit\<rparr>" by simp
  with assms(1) have adm: "try_admit ops hp pool (wl_idx wl) t =
      Some (h', Inr \<lparr>admit_permit = admit_permit admit, admit_probe_epoch = admit_probe_epoch admit\<rparr>)" by metis
  have "(store_op ops)\<^sup>*\<^sup>* h h'" using assms(2) store_op.op_try_admit [OF assms(1)] by (rule rtranclp.rtrancl_into_rtrancl)
  moreover have "\<exists>rs. ctx = ctx\<lparr>excluded_reasons := excluded_reasons ctx @ rs\<rparr> \<and> (\<forall>(l, u) \<in> set rs. l \<in> wl_idx ` set cands)"
    by (rule exI [of _ "[]"]) simp
  ultimately show ?thesis unfolding pick_ok_def using adm assms(2-5) by blast
qed

lemma pick_ok_later:
  assumes "pick_ok ops pool cands h2 (ctx\<lparr>excluded_reasons := excluded_reasons ctx @ [(l, u)]\<rparr>) res"
    and "(store_op ops)\<^sup>*\<^sup>* h h2" and "l \<in> wl_idx ` set cands"
  shows "pick_ok ops pool cands h ctx res"
proof -
  obtain h' ctx' r where res: "res = (h', ctx', r)" by (cases res) auto
  from assms(1) obtain rs where "ctx' = ctx\<lparr>excluded_reasons := excluded_reasons ctx @ ((l, u) # rs)\<rparr>"
    "\<forall>(l, u) \<in> set rs. l \<in> wl_idx ` set cands"
    by (auto simp: pick_ok_def res)
  with assms(3) have "\<exists>rs. ctx' = ctx\<lparr>excluded_reasons := excluded_reasons ctx @ rs\<rparr>
            \<and> (\<forall>(l, u) \<in> set rs. l \<in> wl_idx ` set cands)"
    by (intro exI [of _ "(l, u) # rs"]) auto
  with assms(1,2) show ?thesis
    unfolding pick_ok_def res by (auto intro: rtranclp_trans) (metis rtranclp_trans)
qed

lemma pick_loop_ok:
  assumes "distinct (map wl_idx cands)" and "\<forall>wl \<in> set cands. wl_idx wl < length (lanes h)"
    and "length (open_cands ctx loc cands) < fuel"
  shows "\<exists>res. pick_loop fuel ops clock k h cands ctx loc pool order = Some res \<and> pick_ok ops pool cands h ctx res"
  using assms(2,3)
proof (induction fuel arbitrary: k h ctx loc)
  case (Suc fuel)
  have stay: "pick_ok ops pool cands h ctx (h1, ctx, None)" if "(store_op ops)\<^sup>*\<^sup>* h h1" for h1
    using that by (auto simp: pick_ok_def intro!: exI [of _ "[]"])
  show ?case
  proof (cases "expired ctx (clock k) \<or> open_cands ctx loc cands = []")
    case True
    with stay [of h] show ?thesis by (simp add: pick_loop_unfold)
  next
    case False
    obtain h1 picked where s: "select_lane h pool (map wl_idx (open_cands ctx loc cands))
        (map wl_weight (open_cands ctx loc cands)) order (clock (k + 1)) = Some (h1, picked)"
      and op: "(store_op ops)\<^sup>*\<^sup>* h h1" and len: "length (lanes h1) = length (lanes h)"
      and pk: "\<And>l. picked = Some l \<Longrightarrow> \<exists>wl \<in> set (open_cands ctx loc cands). wl_idx wl = l \<and> wl_weight wl \<noteq> 0"
      using pick_round [OF assms(1) Suc.prems(1)] by blast
    show ?thesis
    proof (cases picked)
      case None
      with False s stay [OF op] show ?thesis by (simp add: pick_loop_unfold)
    next
      case (Some l)
      then obtain wl where wl: "wl \<in> set (open_cands ctx loc cands)" "wl_idx wl = l" "wl_weight wl \<noteq> 0" using pk by blast
      then have wlc: "wl \<in> set cands" "l \<notin> excluded ctx" by (auto simp: open_cands_def fill_candidates_def)
      have "l < length (lanes h1)" using wl(2) wlc(1) Suc.prems(1) len by auto
      then obtain h2 r where a: "try_admit ops h1 pool l (clock (k + 2)) = Some (h2, r)" using try_admit_total by blast
      have op2: "(store_op ops)\<^sup>*\<^sup>* h h2" using op store_op.op_try_admit [OF a] by (rule rtranclp.rtrancl_into_rtrancl)
      show ?thesis
      proof (cases r)
        case (Inr admit)
        have "pick_ok ops pool cands h ctx (h2, ctx, Some (l, admit_permit admit, admit_probe_epoch admit))"
          using pick_ok_admitted [of ops h1 pool wl "clock (k + 2)" h2 admit h cands ctx] a Inr wl wlc op by simp
        with False s a Some Inr show ?thesis by (simp add: pick_loop_unfold)
      next
        case (Inl reason)
        let ?ctx = "ctx\<lparr>excluded_reasons := excluded_reasons ctx @ [(l, reason)]\<rparr>"
        have rng: "\<forall>wl \<in> set cands. wl_idx wl < length (lanes h2)"
          using Suc.prems(1) lanes_length_keeps [OF store_ops_keeps [OF op2]] by simp
        have "length (open_cands ?ctx (insert l loc) cands) < fuel"
          using open_cands_shrink [of l ctx loc cands "excluded_reasons ctx @ [(l, reason)]"] wl Suc.prems(2) by force
        from Suc.IH [OF rng this, of "k + 3"] obtain res where
          "pick_loop fuel ops clock (k + 3) h2 cands ?ctx (insert l loc) pool order = Some res"
          "pick_ok ops pool cands h2 ?ctx res" by blast
        with pick_ok_later [OF this(2) op2] wl(2) wlc(1) False s a Some Inl show ?thesis
          by (auto simp: pick_loop_unfold)
      qed
    qed
  qed
qed simp

section \<open>Properties of a pick\<close>

lemma open_cands_length: "length (open_cands ctx loc cands) < Suc (length cands)"
  using length_filter_le order_trans by (fastforce simp: open_cands_def fill_candidates_def less_Suc_eq_le)

lemma pick_among_plain:
  "(case aff of None \<Rightarrow> True | Some hash \<Rightarrow> cands = [] \<or> wl_weight (cands ! (hash mod length cands)) = 0
      \<or> wl_idx (cands ! (hash mod length cands)) \<in> excluded ctx) \<Longrightarrow>
   pick_among ops clock h cands ctx aff pool order
     = pick_loop (Suc (length cands)) ops clock 1 h cands (ctx\<lparr>excluded_reasons := []\<rparr>) {} pool order"
  by (cases aff) (auto simp: pick_among_def Let_def)

lemma pick_among_ok:
  assumes "distinct (map wl_idx cands)" and "\<forall>wl \<in> set cands. wl_idx wl < length (lanes h)"
  shows "\<exists>res. pick_among ops clock h cands ctx aff pool order = Some res
    \<and> pick_ok ops pool cands h (ctx\<lparr>excluded_reasons := []\<rparr>) res"
proof -
  let ?ctx = "ctx\<lparr>excluded_reasons := []\<rparr>"
  have loop: "\<exists>res. pick_loop (Suc (length cands)) ops clock 1 g cands c {} pool order = Some res \<and> pick_ok ops pool cands g c res"
    if "length (lanes g) = length (lanes h)" for g c
    by (rule pick_loop_ok [OF assms(1) _ open_cands_length]) (use assms(2) that in simp)
  consider "pick_among ops clock h cands ctx aff pool order = pick_loop (Suc (length cands)) ops clock 1 h cands ?ctx {} pool order"
    | hash where "aff = Some hash" "cands \<noteq> []" "wl_weight (cands ! (hash mod length cands)) \<noteq> 0"
        "wl_idx (cands ! (hash mod length cands)) \<notin> excluded ctx"
    using pick_among_plain [where aff = aff and cands = cands and ctx = ctx] by (cases aff) fastforce+
  then show ?thesis
  proof cases
    case 1
    with loop [OF refl, of ?ctx] show ?thesis by simp
  next
    case (2 hash)
    let ?wl = "cands ! (hash mod length cands)"
    have wl: "?wl \<in> set cands" using 2 by (intro nth_mem) simp
    then obtain h1 r where a: "try_admit ops h pool (wl_idx ?wl) (clock 0) = Some (h1, r)"
      using try_admit_total assms(2) by blast
    have op: "(store_op ops)\<^sup>*\<^sup>* h h1" using store_op.op_try_admit [OF a] by blast
    show ?thesis
    proof (cases r)
      case (Inr admit)
      have "pick_ok ops pool cands h ?ctx (h1, ?ctx, Some (wl_idx ?wl, admit_permit admit, admit_probe_epoch admit))"
        using pick_ok_admitted [of ops h pool ?wl "clock 0" h1 admit h cands ?ctx] a Inr wl 2 by simp
      with 2 a Inr show ?thesis by (simp add: pick_among_def Let_def)
    next
      case (Inl reason)
      let ?c = "?ctx\<lparr>excluded_reasons := excluded_reasons ?ctx @ [(wl_idx ?wl, reason)]\<rparr>"
      obtain res where "pick_loop (Suc (length cands)) ops clock 1 h1 cands ?c {} pool order = Some res"
        "pick_ok ops pool cands h1 ?c res"
        using loop [OF lanes_length_keeps [OF store_ops_keeps [OF op]]] by blast
      with pick_ok_later [OF this(2) op] wl 2 a Inl show ?thesis by (auto simp: pick_among_def Let_def)
    qed
  qed
qed

text \<open>
  C3: a pick always ends and never picks a lane it must not. For distinct candidates that are
  lanes of the store it returns after at most one round per candidate; it leaves the request's
  exclusions, restricts and visited pools alone and only notes why candidates refused; and the
  lane it returns is a candidate, not excluded, not drained, admitted by \<open>try_admit\<close> on a store
  that only store operations produced, holding the permit and the owner token returned.
\<close>

theorem pick_among_sound:
  assumes "distinct (map wl_idx cands)" and "\<forall>wl \<in> set cands. wl_idx wl < length (lanes h)"
  shows "\<exists>h' rs r. pick_among ops clock h cands ctx aff pool order = Some (h', ctx\<lparr>excluded_reasons := rs\<rparr>, r)
    \<and> (\<forall>(l, u) \<in> set rs. l \<in> wl_idx ` set cands)
    \<and> (store_op ops)\<^sup>*\<^sup>* h h'
    \<and> (\<forall>l permit epoch. r = Some (l, permit, epoch) \<longrightarrow>
         (\<exists>wl hp t. wl \<in> set cands \<and> wl_idx wl = l \<and> wl_weight wl \<noteq> 0 \<and> l \<notin> excluded ctx
            \<and> (store_op ops)\<^sup>*\<^sup>* h hp
            \<and> try_admit ops hp pool l t = Some (h', Inr \<lparr>admit_permit = permit, admit_probe_epoch = epoch\<rparr>)))"
proof -
  obtain h' ctx' r where p: "pick_among ops clock h cands ctx aff pool order = Some (h', ctx', r)"
    and ok: "pick_ok ops pool cands h (ctx\<lparr>excluded_reasons := []\<rparr>) (h', ctx', r)"
    using pick_among_ok [OF assms, of ops clock ctx aff pool order] by auto
  from ok obtain rs where rs: "ctx' = ctx\<lparr>excluded_reasons := rs\<rparr>" "\<forall>(l, u) \<in> set rs. l \<in> wl_idx ` set cands"
    by (auto simp: pick_ok_def)
  from ok have "(store_op ops)\<^sup>*\<^sup>* h h'" and "\<forall>l permit epoch. r = Some (l, permit, epoch) \<longrightarrow>
         (\<exists>wl hp t. wl \<in> set cands \<and> wl_idx wl = l \<and> wl_weight wl \<noteq> 0 \<and> l \<notin> excluded ctx
            \<and> (store_op ops)\<^sup>*\<^sup>* h hp
            \<and> try_admit ops hp pool l t = Some (h', Inr \<lparr>admit_permit = permit, admit_probe_epoch = epoch\<rparr>))"
    by (simp_all add: pick_ok_def)
  with p rs show ?thesis by blast
qed

definition sample_cands :: "WeightedLane list" where
  "sample_cands = [\<lparr>wl_idx = 0, wl_weight = 1, wl_reasoning = None, wl_attempt_timeout_ms = None\<rparr>]"

theorem pick_among_sound_witness:
  "\<exists>h' rs r. pick_among counting_sem (\<lambda>_. 5) sample_store sample_cands (ctx_new 0 30 1) None ''pool'' None
     = Some (h', (ctx_new 0 30 1)\<lparr>excluded_reasons := rs\<rparr>, r)"
proof -
  have "distinct (map wl_idx sample_cands)" and "\<forall>wl \<in> set sample_cands. wl_idx wl < length (lanes sample_store)"
    by (simp_all add: sample_cands_def sample_simps)
  from pick_among_sound [OF this, of counting_sem "\<lambda>_. 5" "ctx_new 0 30 1" None "''pool''" None]
  show ?thesis by blast
qed

text \<open>
  Session affinity. A session whose key hashes to a candidate that is neither drained nor
  excluded is served by that very lane whenever the lane admits it; and the lane depends on
  the key and the candidate list alone.
\<close>

lemma sticky_lane_wins:
  assumes "cands \<noteq> []" and "wl = cands ! (stable_hash key mod length cands)"
    and "wl_weight wl \<noteq> 0" and "wl_idx wl \<notin> excluded ctx"
    and "try_admit ops h pool (wl_idx wl) (clock 0) = Some (h1, Inr admit)"
  shows "pick_among ops clock h cands ctx (Some (stable_hash key)) pool order
    = Some (h1, ctx\<lparr>excluded_reasons := []\<rparr>, Some (wl_idx wl, admit_permit admit, admit_probe_epoch admit))"
  using assms by (simp add: pick_among_def Let_def)

end
