(* ===== verification/Event_Stream.thy ===== *)
theory Event_Stream
  imports Busbar_Prelude
begin

text \<open>
  The codec of AWS event-stream frames, \<open>src/crates/busbar/src/eventstream.rs\<close>: the incremental
  decoder that pulls complete frames off the front of a reassembly buffer, and the encoder.
  A byte is a \<open>char\<close>, which has 256 values, and a Rust string is the list of its UTF-8 bytes.

  The checksum is the function of the \<open>crc32fast\<close> crate, an argument; the decoder does not look at
  it. The JSON encoding of an exception message is the function of \<open>serde_json\<close>, an argument
  too. The lemmas show the round trip through encoder and decoder, that decoding does not
  depend on how the bytes are cut into chunks, and that the buffer stays bounded.
\<close>

type_synonym byte = char
type_synonym bytes = string

section \<open>Constants\<close>

definition MAX_FRAME_BYTES :: nat where "MAX_FRAME_BYTES = 16 * 1024 * 1024"
definition PRELUDE_LEN :: nat where "PRELUDE_LEN = 12"
definition CRC_BYTES :: nat where "CRC_BYTES = 4"
definition MIN_FRAME_BYTES :: nat where "MIN_FRAME_BYTES = PRELUDE_LEN + CRC_BYTES"
definition HDR_EVENT_TYPE :: bytes where "HDR_EVENT_TYPE = '':event-type''"
definition HDR_CONTENT_TYPE :: bytes where "HDR_CONTENT_TYPE = '':content-type''"
definition HDR_MESSAGE_TYPE :: bytes where "HDR_MESSAGE_TYPE = '':message-type''"
definition HDR_EXCEPTION_TYPE :: bytes where "HDR_EXCEPTION_TYPE = '':exception-type''"
definition MSG_TYPE_EVENT :: bytes where "MSG_TYPE_EVENT = ''event''"
definition MSG_TYPE_EXCEPTION :: bytes where "MSG_TYPE_EXCEPTION = ''exception''"
definition HDR_TYPE_STRING :: nat where "HDR_TYPE_STRING = 7"
definition APPLICATION_JSON :: bytes where "APPLICATION_JSON = ''application/json''"

lemmas frame_consts = PRELUDE_LEN_def CRC_BYTES_def MIN_FRAME_BYTES_def

section \<open>Big-endian integers and UTF-8\<close>

definition to_be32 :: "nat \<Rightarrow> bytes" where
  "to_be32 n = [char_of (n div 16777216), char_of (n div 65536), char_of (n div 256), char_of n]"

definition to_be16 :: "nat \<Rightarrow> bytes" where
  "to_be16 n = [char_of (n div 256), char_of n]"

definition from_be32 :: "byte \<Rightarrow> byte \<Rightarrow> byte \<Rightarrow> byte \<Rightarrow> nat" where
  "from_be32 a b c d = of_char a * 16777216 + of_char b * 65536 + of_char c * 256 + of_char d"

definition from_be16 :: "byte \<Rightarrow> byte \<Rightarrow> nat" where
  "from_be16 a b = of_char a * 256 + of_char b"

text \<open>\<open>str::from_utf8\<close> accepts exactly the well-formed UTF-8 sequences.\<close>

definition cont :: "byte \<Rightarrow> bool" where
  "cont c = (128 \<le> (of_char c :: nat) \<and> (of_char c :: nat) < 192)"

definition in_range :: "byte \<Rightarrow> nat \<Rightarrow> nat \<Rightarrow> bool" where
  "in_range c lo hi = (lo \<le> of_char c \<and> of_char c \<le> hi)"

fun valid_utf8 :: "bytes \<Rightarrow> bool" where
  "valid_utf8 [] = True"
| "valid_utf8 (a # xs) =
     (if (of_char a :: nat) < 128 then valid_utf8 xs
      else case xs of
        [] \<Rightarrow> False
      | b # ys \<Rightarrow>
          if in_range a 194 223 then cont b \<and> valid_utf8 ys
          else case ys of
            [] \<Rightarrow> False
          | c # zs \<Rightarrow>
              if in_range a 224 224 then in_range b 160 191 \<and> cont c \<and> valid_utf8 zs
              else if in_range a 225 236 \<or> in_range a 238 239 then cont b \<and> cont c \<and> valid_utf8 zs
              else if in_range a 237 237 then in_range b 128 159 \<and> cont c \<and> valid_utf8 zs
              else case zs of
                [] \<Rightarrow> False
              | d # us \<Rightarrow>
                  if in_range a 240 240 then in_range b 144 191 \<and> cont c \<and> cont d \<and> valid_utf8 us
                  else if in_range a 241 243 then cont b \<and> cont c \<and> cont d \<and> valid_utf8 us
                  else if in_range a 244 244 then in_range b 128 143 \<and> cont c \<and> cont d \<and> valid_utf8 us
                  else False)"

section \<open>Headers\<close>

record FrameHeaders =
  fh_event_type :: "bytes option"
  fh_message_type :: "bytes option"
  fh_exception_type :: "bytes option"

definition no_headers :: FrameHeaders where
  "no_headers = \<lparr>fh_event_type = None, fh_message_type = None, fh_exception_type = None\<rparr>"

definition fixed_width :: "nat \<Rightarrow> nat option" where
  "fixed_width value_type =
     (if value_type = 0 \<or> value_type = 1 then Some 0
      else if value_type = 2 then Some 1
      else if value_type = 3 then Some 2
      else if value_type = 4 then Some 4
      else if value_type = 5 then Some 8
      else if value_type = 8 then Some 8
      else if value_type = 9 then Some 16
      else None)"

text \<open>One header off a non-empty block: its name, its value if it has a length prefix, the rest; \<open>None\<close> stops the scan.\<close>

definition header_step :: "bytes \<Rightarrow> (bytes \<times> bytes option \<times> bytes) option" where
  "header_step h =
     (let name_len = of_char (hd h) in
      if length h < 1 + name_len + 1 then None
      else
        let name = take name_len (drop 1 h);
            value_type = of_char (h ! (1 + name_len));
            p = 1 + name_len + 1
        in if value_type = 6 \<or> value_type = HDR_TYPE_STRING then
             if length h < p + 2 then None
             else
               let vlen = from_be16 (h ! p) (h ! (p + 1)) in
               if length h < p + 2 + vlen then None
               else Some (name, Some (take vlen (drop (p + 2) h)), drop (p + 2 + vlen) h)
           else case fixed_width value_type of
                  Some w \<Rightarrow> (if length h < p + w then None else Some (name, None, drop (p + w) h))
                | None \<Rightarrow> None)"

definition record_header :: "FrameHeaders \<Rightarrow> bytes \<Rightarrow> bytes option \<Rightarrow> FrameHeaders" where
  "record_header found name v =
     (case Option.bind v (\<lambda>v. if valid_utf8 v then Some v else None) of
        None \<Rightarrow> found
      | Some v \<Rightarrow>
          if name = HDR_EVENT_TYPE then found\<lparr>fh_event_type := Some v\<rparr>
          else if name = HDR_MESSAGE_TYPE then found\<lparr>fh_message_type := Some v\<rparr>
          else if name = HDR_EXCEPTION_TYPE then found\<lparr>fh_exception_type := Some v\<rparr>
          else found)"

lemma header_step_shrinks: "h \<noteq> [] \<Longrightarrow> header_step h = Some (name, v, rest) \<Longrightarrow> length rest < length h"
  by (auto simp: header_step_def Let_def split: if_splits option.splits)

function parse_loop :: "FrameHeaders \<Rightarrow> bytes \<Rightarrow> FrameHeaders" where
  "parse_loop found h =
     (if h = [] then found
      else case header_step h of
             None \<Rightarrow> found
           | Some (name, v, rest) \<Rightarrow> parse_loop (record_header found name v) rest)"
  by pat_completeness auto
termination
  by (relation "measure (\<lambda>(found, h). length h)") (auto dest: header_step_shrinks)

declare parse_loop.simps [simp del]

definition parse_frame_headers :: "bytes \<Rightarrow> FrameHeaders" where
  "parse_frame_headers h = parse_loop no_headers h"

definition lowercase_first :: "bytes \<Rightarrow> bytes" where
  "lowercase_first s =
     (case s of
        [] \<Rightarrow> []
      | c # cs \<Rightarrow> (if in_range c 65 90 then char_of (of_char c + 32 :: nat) else c) # cs)"

text \<open>\<open>rsplit(['#', '/'])\<close>: the pieces between delimiters, last piece first.\<close>

definition is_delim :: "byte \<Rightarrow> bool" where
  "is_delim c = (c = CHR ''#'' \<or> c = CHR ''/'')"

fun split_delims :: "bytes \<Rightarrow> bytes \<Rightarrow> bytes list" where
  "split_delims acc [] = [rev acc]"
| "split_delims acc (c # cs) = (if is_delim c then rev acc # split_delims [] cs else split_delims (c # acc) cs)"

definition bare_name :: "bytes \<Rightarrow> bytes" where
  "bare_name exc = (case find (\<lambda>s. s \<noteq> []) (rev (split_delims [] exc)) of None \<Rightarrow> exc | Some s \<Rightarrow> s)"

definition event_type_for_frame :: "bytes \<Rightarrow> bytes" where
  "event_type_for_frame headers =
     (let parsed = parse_frame_headers headers;
          event = (case fh_event_type parsed of None \<Rightarrow> [] | Some e \<Rightarrow> e)
      in if fh_message_type parsed = Some MSG_TYPE_EXCEPTION
         then (case fh_exception_type parsed of Some exc \<Rightarrow> lowercase_first (bare_name exc) | None \<Rightarrow> event)
         else event)"

section \<open>The decoder\<close>

datatype DrainStatus = DrainOk | MalformedPrelude

definition total_len_of :: "bytes \<Rightarrow> nat" where
  "total_len_of rem = from_be32 (rem ! 0) (rem ! 1) (rem ! 2) (rem ! 3)"

definition headers_len_of :: "bytes \<Rightarrow> nat" where
  "headers_len_of rem = from_be32 (rem ! 4) (rem ! 5) (rem ! 6) (rem ! 7)"

definition malformed :: "bytes \<Rightarrow> bool" where
  "malformed rem \<longleftrightarrow>
     \<not> (MIN_FRAME_BYTES \<le> total_len_of rem \<and> total_len_of rem \<le> MAX_FRAME_BYTES)
   \<or> headers_len_of rem > total_len_of rem - MIN_FRAME_BYTES"

definition decode_frame :: "bytes \<Rightarrow> bytes \<times> bytes" where
  "decode_frame rem =
     (event_type_for_frame (take (headers_len_of rem) (drop PRELUDE_LEN rem)),
      take (total_len_of rem - CRC_BYTES - (PRELUDE_LEN + headers_len_of rem)) (drop (PRELUDE_LEN + headers_len_of rem) rem))"

text \<open>
  The loop, on what is left of the buffer after \<open>pos\<close> bytes; \<open>sink\<close> collects the consumed bytes
  when the caller wants them.
\<close>

function drain_loop ::
  "bytes \<Rightarrow> nat \<Rightarrow> (bytes \<times> bytes) list \<Rightarrow> bytes option \<Rightarrow> (bytes \<times> bytes) list \<times> DrainStatus \<times> nat \<times> bytes option" where
  "drain_loop rem pos out sink =
     (if length rem < PRELUDE_LEN then (out, DrainOk, pos, sink)
      else if malformed rem then (out, MalformedPrelude, pos, sink)
      else if length rem < total_len_of rem then (out, DrainOk, pos, sink)
      else drain_loop (drop (total_len_of rem) rem) (pos + total_len_of rem) (out @ [decode_frame rem])
             (map_option (\<lambda>s. s @ take (total_len_of rem) rem) sink))"
  by pat_completeness auto
termination
  by (relation "measure (\<lambda>(rem, pos, out, sink). length rem)") (auto simp: malformed_def frame_consts)

declare drain_loop.simps [simp del]

text \<open>The buffer afterwards comes first in the result; the rest is what the source returns, and the sink.\<close>

definition drain_frames_checked ::
  "bytes \<Rightarrow> bytes option \<Rightarrow> bytes \<times> (bytes \<times> bytes) list \<times> DrainStatus \<times> nat \<times> bytes option" where
  "drain_frames_checked buf sink =
     (case drain_loop buf 0 [] sink of
        (out, status, pos, sink1) \<Rightarrow>
          ((case status of DrainOk \<Rightarrow> drop pos buf | MalformedPrelude \<Rightarrow> []), out, status, pos, sink1))"

section \<open>The encoder\<close>

definition push_string_header :: "bytes \<Rightarrow> bytes \<Rightarrow> bytes \<Rightarrow> bytes \<times> bool" where
  "push_string_header headers name v =
     (if length name > 255 \<or> length v > 65535 then (headers, False)
      else (headers @ [char_of (length name)] @ name @ [char_of HDR_TYPE_STRING] @ to_be16 (length v) @ v, True))"

definition frame_open :: bytes where
  "frame_open = replicate PRELUDE_LEN (char_of (0 :: nat))"

definition frame_close :: "(bytes \<Rightarrow> nat) \<Rightarrow> bytes \<Rightarrow> bytes \<Rightarrow> bytes" where
  "frame_close crc32 frame payload =
     (let headers_len = length frame - PRELUDE_LEN;
          total_len = PRELUDE_LEN + headers_len + length payload + CRC_BYTES
      in if total_len > MAX_FRAME_BYTES then []
         else let lens = to_be32 total_len @ to_be32 headers_len;
                  body = lens @ to_be32 (crc32 lens) @ drop PRELUDE_LEN frame @ payload
              in body @ to_be32 (crc32 body))"

text \<open>The three headers in order; each is pushed only if those before it fitted.\<close>

definition push_three :: "bytes \<Rightarrow> (bytes \<times> bytes) \<Rightarrow> (bytes \<times> bytes) \<Rightarrow> (bytes \<times> bytes) \<Rightarrow> bytes option" where
  "push_three frame a b c =
     (let (f1, ok1) = push_string_header frame (fst a) (snd a) in
      if \<not> ok1 then None
      else let (f2, ok2) = push_string_header f1 (fst b) (snd b) in
           if \<not> ok2 then None
           else let (f3, ok3) = push_string_header f2 (fst c) (snd c) in if \<not> ok3 then None else Some f3)"

definition encode_frame :: "(bytes \<Rightarrow> nat) \<Rightarrow> bytes \<Rightarrow> bytes \<Rightarrow> bytes" where
  "encode_frame crc32 event_type payload =
     (case push_three frame_open (HDR_EVENT_TYPE, event_type) (HDR_CONTENT_TYPE, APPLICATION_JSON)
             (HDR_MESSAGE_TYPE, MSG_TYPE_EVENT) of
        None \<Rightarrow> []
      | Some frame \<Rightarrow> frame_close crc32 frame payload)"

definition FALLBACK_MESSAGE :: bytes where
  "FALLBACK_MESSAGE = [CHR 0x7B, CHR 0x22] @ ''message'' @ [CHR 0x22] @ '':'' @ [CHR 0x22]
     @ ''An internal server error occurred.'' @ [CHR 0x22, CHR 0x7D]"

definition encode_exception_frame :: "(bytes \<Rightarrow> nat) \<Rightarrow> (bytes \<Rightarrow> bytes option) \<Rightarrow> bytes \<Rightarrow> bytes \<Rightarrow> bytes" where
  "encode_exception_frame crc32 json_message exception_type message =
     (let payload = (case json_message message of Some p \<Rightarrow> p | None \<Rightarrow> FALLBACK_MESSAGE) in
      case push_three frame_open (HDR_EXCEPTION_TYPE, exception_type) (HDR_CONTENT_TYPE, APPLICATION_JSON)
             (HDR_MESSAGE_TYPE, MSG_TYPE_EXCEPTION) of
        None \<Rightarrow> []
      | Some frame \<Rightarrow> frame_close crc32 frame payload)"

section \<open>How the loop cuts the buffer\<close>

text \<open>A complete frame is exactly as long as its prelude says; a tail stops the loop.\<close>

definition complete_frame :: "bytes \<Rightarrow> bool" where
  "complete_frame f \<longleftrightarrow> PRELUDE_LEN \<le> length f \<and> \<not> malformed f \<and> total_len_of f = length f"

definition bad_tail :: "bytes \<Rightarrow> bool" where
  "bad_tail t \<longleftrightarrow> PRELUDE_LEN \<le> length t \<and> malformed t"

definition pending_tail :: "bytes \<Rightarrow> bool" where
  "pending_tail t \<longleftrightarrow> length t < PRELUDE_LEN \<or> \<not> malformed t \<and> length t < total_len_of t"

lemma prelude_reads_front:
  assumes "PRELUDE_LEN \<le> length f"
  shows "total_len_of (f @ r) = total_len_of f" and "headers_len_of (f @ r) = headers_len_of f"
    and "malformed (f @ r) = malformed f"
  using assms by (auto simp: total_len_of_def headers_len_of_def malformed_def nth_append frame_consts)

lemma malformed_bounds:
  assumes "\<not> malformed f"
  shows "16 \<le> total_len_of f" and "total_len_of f \<le> MAX_FRAME_BYTES"
    and "headers_len_of f + 16 \<le> total_len_of f"
  using assms by (auto simp: malformed_def frame_consts)

lemma decode_frame_append:
  assumes "complete_frame f"
  shows "decode_frame (f @ r) = decode_frame f"
  using assms malformed_bounds [of f]
  by (simp add: complete_frame_def decode_frame_def prelude_reads_front frame_consts)

lemma drain_loop_frame:
  assumes "complete_frame f"
  shows "drain_loop (f @ r) pos out sink =
           drain_loop r (pos + length f) (out @ [decode_frame f]) (map_option (\<lambda>s. s @ f) sink)"
  using assms
  by (subst drain_loop.simps)
     (simp add: complete_frame_def prelude_reads_front decode_frame_append)

lemma drain_loop_frames:
  assumes "\<forall>f \<in> set fs. complete_frame f"
  shows "drain_loop (concat fs @ r) pos out sink =
           drain_loop r (pos + length (concat fs)) (out @ map decode_frame fs)
             (map_option (\<lambda>s. s @ concat fs) sink)"
  using assms
  by (induction fs arbitrary: pos out sink)
     (auto simp: drain_loop_frame option.map_comp comp_def option.map_ident add.assoc)

lemma drain_loop_tail:
  "bad_tail t \<Longrightarrow> drain_loop t pos out sink = (out, MalformedPrelude, pos, sink)"
  "pending_tail t \<Longrightarrow> drain_loop t pos out sink = (out, DrainOk, pos, sink)"
  by (subst drain_loop.simps, auto simp: bad_tail_def pending_tail_def)+

lemma drain_frames_tail:
  assumes "\<forall>f \<in> set fs. complete_frame f"
  shows "pending_tail t \<Longrightarrow> drain_frames_checked (concat fs @ t) sink =
           (t, map decode_frame fs, DrainOk, length (concat fs), map_option (\<lambda>s. s @ concat fs) sink)"
    and "bad_tail t \<Longrightarrow> drain_frames_checked (concat fs @ t) sink =
           ([], map decode_frame fs, MalformedPrelude, length (concat fs), map_option (\<lambda>s. s @ concat fs) sink)"
  using assms by (simp_all add: drain_frames_checked_def drain_loop_frames drain_loop_tail)

lemma first_frame_split:
  assumes "PRELUDE_LEN \<le> length b" and "\<not> malformed b" and "total_len_of b \<le> length b"
  shows "complete_frame (take (total_len_of b) b)"
proof -
  let ?f = "take (total_len_of b) b"
  have len: "PRELUDE_LEN \<le> length ?f"
    using assms malformed_bounds [of b] by (simp add: frame_consts)
  show ?thesis
    using prelude_reads_front [OF len, of "drop (total_len_of b) b"] assms len
    by (simp add: complete_frame_def)
qed

text \<open>Every buffer is a run of complete frames and one tail that stops the loop.\<close>

lemma buffer_cut:
  obtains fs t where "b = concat fs @ t" and "\<forall>f \<in> set fs. complete_frame f" and "bad_tail t \<or> pending_tail t"
proof (induction "length b" arbitrary: b thesis rule: less_induct)
  case less
  show ?case
  proof (cases "PRELUDE_LEN \<le> length b \<and> \<not> malformed b \<and> total_len_of b \<le> length b")
    case True
    let ?n = "total_len_of b"
    have "length (drop ?n b) < length b"
      using True malformed_bounds(1) [of b] by (cases b) (auto simp: frame_consts)
    then obtain fs t where "drop ?n b = concat fs @ t" "\<forall>f \<in> set fs. complete_frame f" "bad_tail t \<or> pending_tail t"
      using less.hyps by blast
    with True show ?thesis
      using less.prems [of "take ?n b # fs" t] first_frame_split [of b]
      by (metis append.assoc append_take_drop_id concat.simps(2) set_ConsD)
  next
    case False
    then have "bad_tail b \<or> pending_tail b" by (auto simp: bad_tail_def pending_tail_def)
    then show ?thesis using less.prems [of "[]" b] by simp
  qed
qed

lemma bad_tail_append: "bad_tail t \<Longrightarrow> bad_tail (t @ b)"
  by (simp add: bad_tail_def prelude_reads_front)

lemma bad_not_pending: "bad_tail t \<Longrightarrow> \<not> pending_tail t"
  by (auto simp: bad_tail_def pending_tail_def)

lemma pending_tail_bound: "pending_tail t \<Longrightarrow> length t < MAX_FRAME_BYTES"
  using malformed_bounds [of t] by (auto simp: pending_tail_def frame_consts MAX_FRAME_BYTES_def)

section \<open>Chunks\<close>

text \<open>
  A caller that appends each chunk to its buffer, drains, and gives the stream up on a
  malformed prelude; it keeps the events and the verbatim bytes in order.
\<close>

fun drain_chunks :: "bytes \<Rightarrow> bytes list \<Rightarrow> bytes \<times> (bytes \<times> bytes) list \<times> DrainStatus \<times> bytes" where
  "drain_chunks buf [] = (buf, [], DrainOk, [])"
| "drain_chunks buf (c # cs) =
     (case drain_frames_checked (buf @ c) (Some []) of
        (rest, out, MalformedPrelude, n, sink) \<Rightarrow> (rest, out, MalformedPrelude, the sink)
      | (rest, out, DrainOk, n, sink) \<Rightarrow>
          (case drain_chunks rest cs of
             (rest1, out1, status, bytes) \<Rightarrow> (rest1, out @ out1, status, the sink @ bytes)))"

lemma drain_chunks_cut:
  assumes "pending_tail buf"
  shows "\<exists>fs t. buf @ concat cs = concat fs @ t \<and> (\<forall>f \<in> set fs. complete_frame f) \<and>
           (pending_tail t \<and> drain_chunks buf cs = (t, map decode_frame fs, DrainOk, concat fs)
          \<or> bad_tail t \<and> drain_chunks buf cs = ([], map decode_frame fs, MalformedPrelude, concat fs))"
  using assms
proof (induction cs arbitrary: buf)
  case Nil
  then show ?case by (intro exI [of _ "[]"] exI [of _ buf]) simp
next
  case (Cons c cs)
  obtain fs t where cut: "buf @ c = concat fs @ t" "\<forall>f \<in> set fs. complete_frame f" "bad_tail t \<or> pending_tail t"
    by (rule buffer_cut)
  show ?case
  proof (cases "bad_tail t")
    case True
    then show ?thesis
      using cut bad_tail_append [OF True, of "concat cs"] drain_frames_tail(2) [OF cut(2) True]
      by (intro exI [of _ fs] exI [of _ "t @ concat cs"]) simp
  next
    case False
    then have pend: "pending_tail t" using cut by simp
    obtain gs u where rest: "t @ concat cs = concat gs @ u" "\<forall>f \<in> set gs. complete_frame f"
      "pending_tail u \<and> drain_chunks t cs = (u, map decode_frame gs, DrainOk, concat gs)
     \<or> bad_tail u \<and> drain_chunks t cs = ([], map decode_frame gs, MalformedPrelude, concat gs)"
      using Cons.IH [OF pend] by blast
    have whole: "buf @ concat (c # cs) = concat (fs @ gs) @ u"
      using cut(1) rest(1) by (metis append.assoc concat.simps(2) concat_append)
    show ?thesis
      using whole cut(2) rest(2,3) drain_frames_tail(1) [OF cut(2) pend] cut(1)
      by (intro exI [of _ "fs @ gs"] exI [of _ u]) auto
  qed
qed

text \<open>
  Decoding does not depend on how the network cuts the stream. Whatever the chunks are, the
  caller that drains after each one gets the events, the status, the remaining buffer and the
  verbatim bytes that one pass over the whole stream gives, malformed streams included.
\<close>

lemma decoding_is_chunk_independent:
  "drain_chunks [] chunks =
     (case drain_frames_checked (concat chunks) (Some []) of
        (rest, out, status, n, sink) \<Rightarrow> (rest, out, status, the sink))"
proof -
  have "pending_tail []" by (simp add: pending_tail_def frame_consts)
  from drain_chunks_cut [OF this, of chunks] show ?thesis
    by (auto simp: drain_frames_tail)
qed

text \<open>
  A pass conserves the bytes and keeps the buffer bounded. The bytes copied to the sink are
  exactly the consumed front of the buffer; when the pass ends well they are followed by what
  stays buffered, which is always shorter than the largest frame, so no declared length can
  make the caller buffer without bound. On a malformed prelude the buffer is emptied.
\<close>

lemma drain_conserves_and_bounds:
  "case drain_frames_checked buf (Some []) of
     (rest, out, status, n, sink) \<Rightarrow>
       sink = Some (take n buf) \<and> n \<le> length buf \<and> length rest < MAX_FRAME_BYTES
     \<and> rest = (case status of DrainOk \<Rightarrow> drop n buf | MalformedPrelude \<Rightarrow> [])"
proof -
  obtain fs t where cut: "buf = concat fs @ t" "\<forall>f \<in> set fs. complete_frame f" "bad_tail t \<or> pending_tail t"
    by (rule buffer_cut)
  then show ?thesis
    using pending_tail_bound [of t]
    by (auto simp: drain_frames_tail MAX_FRAME_BYTES_def)
qed


section \<open>Round trip\<close>

lemma of_char_char_of_nat [simp]: "(of_char (char_of (n :: nat)) :: nat) = n mod 256"
  by simp

lemma from_to_be32 [simp]:
  assumes "n < 4294967296"
  shows "from_be32 (char_of (n div 16777216)) (char_of (n div 65536)) (char_of (n div 256)) (char_of n) = n"
proof -
  have cut: "n = n div 256 * 256 + n mod 256"
    "n div 256 = n div 256 div 256 * 256 + n div 256 mod 256"
    "n div 256 div 256 = n div 256 div 256 div 256 * 256 + n div 256 div 256 mod 256"
    by (rule div_mult_mod_eq [symmetric])+
  have nested: "n div 65536 = n div 256 div 256" "n div 16777216 = n div 256 div 256 div 256"
    by (simp_all flip: div_mult2_eq)
  have "n div 16777216 < 256" using assms by (simp add: less_mult_imp_div_less)
  then have "n div 256 div 256 div 256 mod 256 = n div 256 div 256 div 256"
    unfolding nested by (rule mod_less)
  then show ?thesis
    using cut unfolding from_be32_def of_char_char_of_nat nested by linarith
qed

lemma from_to_be16 [simp]: "n < 65536 \<Longrightarrow> from_be16 (char_of (n div 256)) (char_of n) = n"
  by (simp add: from_be16_def less_mult_imp_div_less mod_less)

definition string_header :: "bytes \<Rightarrow> bytes \<Rightarrow> bytes" where
  "string_header name v = [char_of (length name)] @ name @ [char_of HDR_TYPE_STRING] @ to_be16 (length v) @ v"

lemma header_step_string:
  assumes "length name \<le> 255" and "length v \<le> 65535"
  shows "header_step (string_header name v @ rest) = Some (name, Some v, rest)"
  using assms
  by (simp add: header_step_def string_header_def to_be16_def HDR_TYPE_STRING_def nth_append Let_def
      numeral_3_eq_3)

lemma parse_loop_nil [simp]: "parse_loop found [] = found"
  by (simp add: parse_loop.simps)

lemma parse_loop_string:
  assumes "length name \<le> 255" and "length v \<le> 65535"
  shows "parse_loop found (string_header name v @ rest) = parse_loop (record_header found name (Some v)) rest"
proof -
  have "string_header name v \<noteq> []" by (simp add: string_header_def)
  then show ?thesis by (subst parse_loop.simps) (simp add: header_step_string assms)
qed

lemma push_string_header_split:
  "push_string_header h name v =
     (if length name \<le> 255 \<and> length v \<le> 65535 then (h @ string_header name v, True) else (h, False))"
  by (auto simp: push_string_header_def string_header_def)

lemmas header_names = HDR_EVENT_TYPE_def HDR_CONTENT_TYPE_def HDR_MESSAGE_TYPE_def HDR_EXCEPTION_TYPE_def
  MSG_TYPE_EVENT_def MSG_TYPE_EXCEPTION_def APPLICATION_JSON_def


lemma length_string_header: "length (string_header name v) = 4 + length name + length v"
  by (simp add: string_header_def to_be16_def)

text \<open>What \<open>frame_close\<close> writes around a header block and a payload that fit together.\<close>

definition closed_frame :: "(bytes \<Rightarrow> nat) \<Rightarrow> bytes \<Rightarrow> bytes \<Rightarrow> bytes" where
  "closed_frame crc32 h payload = frame_close crc32 (frame_open @ h) payload"

lemma frame_close_drops:
  "16 + length h + length payload > MAX_FRAME_BYTES \<Longrightarrow> closed_frame crc32 h payload = []"
  by (simp add: closed_frame_def frame_close_def frame_open_def frame_consts Let_def)

lemma length_to_be32 [simp]: "length (to_be32 n) = 4"
  by (simp add: to_be32_def)

lemma closed_frame_layout:
  assumes "16 + length h + length payload \<le> MAX_FRAME_BYTES"
    and "lens = to_be32 (16 + length h + length payload) @ to_be32 (length h)"
    and "body = lens @ to_be32 (crc32 lens) @ h @ payload"
  shows "closed_frame crc32 h payload = body @ to_be32 (crc32 body)"
  using assms
  by (simp add: closed_frame_def frame_close_def frame_open_def frame_consts Let_def add.assoc)

lemma total_len_of_be32: "n < 4294967296 \<Longrightarrow> total_len_of (to_be32 n @ r) = n"
  by (simp add: total_len_of_def to_be32_def)

lemma headers_len_of_be32: "length a = 4 \<Longrightarrow> n < 4294967296 \<Longrightarrow> headers_len_of (a @ to_be32 n @ r) = n"
  by (simp add: headers_len_of_def to_be32_def nth_append)

lemma closed_frame_decodes:
  assumes fits: "16 + length h + length payload \<le> MAX_FRAME_BYTES"
  shows "complete_frame (closed_frame crc32 h payload)"
    and "decode_frame (closed_frame crc32 h payload) = (event_type_for_frame h, payload)"
proof -
  let ?f = "closed_frame crc32 h payload" and ?n = "16 + length h + length payload"
  obtain pre post where f: "?f = to_be32 ?n @ to_be32 (length h) @ pre @ h @ payload @ post"
    and len: "length pre = 4" "length post = 4"
    using closed_frame_layout [OF fits refl refl, of crc32] by simp
  have small: "?n < 4294967296" "length h < 4294967296"
    using fits by (simp_all add: MAX_FRAME_BYTES_def)
  have prelude: "total_len_of ?f = ?n" "headers_len_of ?f = length h"
    unfolding f using small by (simp_all add: total_len_of_be32 headers_len_of_be32)
  have lens: "length ?f = ?n" by (simp add: f len)
  show "complete_frame ?f"
    using fits lens prelude by (simp add: complete_frame_def malformed_def frame_consts)
  have "drop 12 ?f = h @ payload @ post"
    by (simp add: f len)
  moreover from this have "drop (12 + length h) ?f = payload @ post"
    by (metis add.commute append_eq_conv_conj drop_drop)
  ultimately show "decode_frame ?f = (event_type_for_frame h, payload)"
    using prelude by (simp add: decode_frame_def frame_consts)
qed

section \<open>Event frames\<close>

definition event_headers :: "bytes \<Rightarrow> bytes" where
  "event_headers event_type = string_header HDR_EVENT_TYPE event_type
     @ string_header HDR_CONTENT_TYPE APPLICATION_JSON @ string_header HDR_MESSAGE_TYPE MSG_TYPE_EVENT"

definition exception_headers :: "bytes \<Rightarrow> bytes" where
  "exception_headers exc = string_header HDR_EXCEPTION_TYPE exc
     @ string_header HDR_CONTENT_TYPE APPLICATION_JSON @ string_header HDR_MESSAGE_TYPE MSG_TYPE_EXCEPTION"

lemma encode_frame_unfold:
  "encode_frame crc32 event_type payload =
     (if length event_type \<le> 65535 then closed_frame crc32 (event_headers event_type) payload else [])"
  by (simp add: encode_frame_def push_three_def push_string_header_split
      closed_frame_def event_headers_def header_names Let_def)

lemma encode_exception_unfold:
  "encode_exception_frame crc32 json_message exc message =
     (if length exc \<le> 65535
      then closed_frame crc32 (exception_headers exc)
             (case json_message message of Some p \<Rightarrow> p | None \<Rightarrow> FALLBACK_MESSAGE)
      else [])"
  by (simp add: encode_exception_frame_def push_three_def push_string_header_split
      closed_frame_def exception_headers_def header_names Let_def)

lemma event_type_of_event:
  assumes "valid_utf8 e" and "length e \<le> 65535"
  shows "event_type_for_frame (event_headers e) = e"
  using assms
  by (simp add: event_type_for_frame_def parse_frame_headers_def event_headers_def parse_loop_string
      parse_loop_string [where rest = "[]", simplified] record_header_def no_headers_def header_names)

lemma event_type_of_exception:
  assumes "valid_utf8 exc" and "length exc \<le> 65535"
  shows "event_type_for_frame (exception_headers exc) = lowercase_first (bare_name exc)"
  using assms
  by (simp add: event_type_for_frame_def parse_frame_headers_def exception_headers_def parse_loop_string
      parse_loop_string [where rest = "[]", simplified] record_header_def no_headers_def header_names)


definition event_fits :: "bytes \<times> bytes \<Rightarrow> bool" where
  "event_fits ev \<longleftrightarrow> length (fst ev) \<le> 65535 \<and> 86 + length (fst ev) + length (snd ev) \<le> MAX_FRAME_BYTES"

lemma length_event_headers: "length (event_headers e) = 70 + length e"
  by (simp add: event_headers_def length_string_header header_names)

lemma length_exception_headers: "length (exception_headers e) = 78 + length e"
  by (simp add: exception_headers_def length_string_header header_names)

lemma encode_frame_drops: "\<not> event_fits (e, p) \<Longrightarrow> encode_frame crc32 e p = []"
  by (auto simp: event_fits_def encode_frame_unfold frame_close_drops length_event_headers)

lemma encode_frame_decodes:
  assumes "event_fits (e, p)" and "valid_utf8 e"
  shows "complete_frame (encode_frame crc32 e p)" and "decode_frame (encode_frame crc32 e p) = (e, p)"
  using assms closed_frame_decodes [of "event_headers e" p crc32]
  by (simp_all add: event_fits_def encode_frame_unfold length_event_headers event_type_of_event)

lemma encoded_frames:
  assumes "\<forall>ev \<in> set evs. valid_utf8 (fst ev)"
  shows "\<exists>fs. concat (map (\<lambda>(e, p). encode_frame crc32 e p) evs) = concat fs
           \<and> (\<forall>f \<in> set fs. complete_frame f) \<and> map decode_frame fs = filter event_fits evs"
  using assms
proof (induction evs)
  case (Cons ev evs)
  obtain e p where ev: "ev = (e, p)" by fastforce
  obtain fs where fs: "concat (map (\<lambda>(e, p). encode_frame crc32 e p) evs) = concat fs"
    "\<forall>f \<in> set fs. complete_frame f" "map decode_frame fs = filter event_fits evs"
    using Cons by auto
  show ?case
  proof (cases "event_fits (e, p)")
    case True
    then show ?thesis
      using fs encode_frame_decodes [OF True] Cons.prems
      by (intro exI [of _ "encode_frame crc32 e p # fs"]) (simp add: ev)
  next
    case False
    then show ?thesis
      using fs by (intro exI [of _ fs]) (simp add: ev encode_frame_drops)
  qed
qed simp

text \<open>
  C40: Encoder and decoder are inverse. Any sequence of events, encoded one after the other with
  any checksum function and followed by the beginning of a next frame, decodes to the same
  events in the same order; an event too large for a frame is left out and damages no other.
  The pass ends well, leaves the partial frame buffered, and forwards the frames verbatim.
\<close>

theorem encode_drain_roundtrip:
  assumes "\<forall>ev \<in> set evs. valid_utf8 (fst ev)" and "pending_tail t"
    and "wire = concat (map (\<lambda>(e, p). encode_frame crc32 e p) evs)"
  shows "drain_frames_checked (wire @ t) (Some sink) =
           (t, filter event_fits evs, DrainOk, length wire, Some (sink @ wire))"
proof -
  obtain fs where "wire = concat fs" "\<forall>f \<in> set fs. complete_frame f" "map decode_frame fs = filter event_fits evs"
    using encoded_frames [OF assms(1)] assms(3) by blast
  then show ?thesis
    using assms(2) by (simp add: drain_frames_tail)
qed

theorem encode_drain_roundtrip_witness:
  "drain_frames_checked
     (concat (map (\<lambda>(e, p). encode_frame length e p) [(''messageStart'', ''a''), (''messageStop'', ''b'')]) @ ''xyz'')
     (Some []) =
   (''xyz'', [(''messageStart'', ''a''), (''messageStop'', ''b'')], DrainOk,
    length (concat (map (\<lambda>(e, p). encode_frame length e p) [(''messageStart'', ''a''), (''messageStop'', ''b'')])),
    Some (concat (map (\<lambda>(e, p). encode_frame length e p) [(''messageStart'', ''a''), (''messageStop'', ''b'')])))"
proof -
  have utf8: "\<forall>ev \<in> set [(''messageStart'', ''a''), (''messageStop'', ''b'')]. valid_utf8 (fst ev)"
    by simp
  have tail: "pending_tail ''xyz''"
    by (simp add: pending_tail_def frame_consts)
  have fits: "filter event_fits [(''messageStart'', ''a''), (''messageStop'', ''b'')]
    = [(''messageStart'', ''a''), (''messageStop'', ''b'')]"
    by (simp add: event_fits_def MAX_FRAME_BYTES_def)
  show ?thesis
    using encode_drain_roundtrip [OF utf8 tail refl, of length "[]"] fits by simp
qed


section \<open>Exception frames\<close>

lemma split_delims_ne: "split_delims acc xs \<noteq> []"
  by (induction acc xs rule: split_delims.induct) auto

lemma split_delims_snoc:
  "split_delims acc (xs @ [c]) =
     (if is_delim c then split_delims acc xs @ [[]]
      else butlast (split_delims acc xs) @ [last (split_delims acc xs) @ [c]])"
  by (induction acc xs rule: split_delims.induct) (auto simp: split_delims_ne)

lemma last_split_delims:
  "last (split_delims [] xs) = rev (takeWhile (\<lambda>c. \<not> is_delim c) (rev xs))"
  by (induction xs rule: rev_induct) (auto simp: split_delims_snoc)

lemma find_split_delims:
  "find (\<lambda>s. s \<noteq> []) (rev (split_delims [] xs)) =
     (if \<forall>c \<in> set xs. is_delim c then None
      else Some (rev (takeWhile (\<lambda>c. \<not> is_delim c) (dropWhile is_delim (rev xs)))))"
  by (induction xs rule: rev_induct) (auto simp: split_delims_snoc last_split_delims)

text \<open>\<open>bare_name\<close> without the pieces: the last run of characters that are no delimiters.\<close>

lemma bare_name_eq:
  "bare_name exc =
     (if \<forall>c \<in> set exc. is_delim c then exc
      else rev (takeWhile (\<lambda>c. \<not> is_delim c) (dropWhile is_delim (rev exc))))"
  by (simp add: bare_name_def find_split_delims)

lemma bare_name_token:
  assumes "name \<noteq> []" and "\<forall>c \<in> set name. \<not> is_delim c" and "\<forall>c \<in> set post. is_delim c"
    and "pre = [] \<or> is_delim (last pre)"
  shows "bare_name (pre @ name @ post) = name"
proof -
  have "dropWhile is_delim (rev post @ rev name @ rev pre) = dropWhile is_delim (rev name @ rev pre)"
    using assms(3) by (intro dropWhile_append2) simp
  also have "\<dots> = rev name @ rev pre"
    using assms(1,2) by (cases name rule: rev_cases) simp_all
  finally have skip: "dropWhile is_delim (rev post @ rev name @ rev pre) = rev name @ rev pre" .
  have "takeWhile (\<lambda>c. \<not> is_delim c) (rev name @ rev pre)
      = rev name @ takeWhile (\<lambda>c. \<not> is_delim c) (rev pre)"
    using assms(2) by (intro takeWhile_append2) simp
  also have "takeWhile (\<lambda>c. \<not> is_delim c) (rev pre) = []"
    using assms(4) by (cases pre rule: rev_cases) simp_all
  finally have stop: "takeWhile (\<lambda>c. \<not> is_delim c) (rev name @ rev pre) = rev name" by simp
  have some: "\<not> (\<forall>c \<in> set (pre @ name @ post). is_delim c)"
    using assms(1,2) by (cases name) auto
  show ?thesis
    unfolding bare_name_eq if_not_P [OF some] using skip stop by simp
qed

text \<open>
  A mid-stream exception is never lost. The frame the encoder writes for an exception name,
  qualified by a namespace or not and with or without trailing delimiters, decodes to exactly
  one event, whose type is the bare exception name with its first letter lowercased, which is
  not empty, and whose payload is the JSON message.
\<close>

lemma exception_frame_is_typed:
  assumes "valid_utf8 (pre @ name @ post)"
    and "name \<noteq> []" and "\<forall>c \<in> set name. \<not> is_delim c"
    and "\<forall>c \<in> set post. is_delim c" and "pre = [] \<or> is_delim (last pre)"
    and "length (pre @ name @ post) \<le> 65535"
    and "json_message message = Some payload" and "length payload \<le> 16000000"
  shows "(\<exists>n. drain_frames_checked (encode_exception_frame crc32 json_message (pre @ name @ post) message) None =
            ([], [(lowercase_first name, payload)], DrainOk, n, None))
       \<and> lowercase_first name \<noteq> []"
proof
  let ?exc = "pre @ name @ post"
  let ?f = "encode_exception_frame crc32 json_message ?exc message"
  have "16 + length (exception_headers ?exc) + length payload \<le> MAX_FRAME_BYTES"
    using assms(6,8) by (simp add: length_exception_headers MAX_FRAME_BYTES_def)
  then have dec: "complete_frame ?f" "decode_frame ?f = (lowercase_first name, payload)"
    using closed_frame_decodes assms(1,6,7) bare_name_token [OF assms(2-5)]
    by (simp_all add: encode_exception_unfold event_type_of_exception)
  have "pending_tail []" by (simp add: pending_tail_def frame_consts)
  then show "\<exists>n. drain_frames_checked ?f None = ([], [(lowercase_first name, payload)], DrainOk, n, None)"
    using drain_frames_tail(1) [of "[?f]" "[]" None] dec by simp
  show "lowercase_first name \<noteq> []"
    using assms(2) by (simp add: lowercase_first_def split: list.splits)
qed

text \<open>
  What the encoder writes is a valid message for a strict client: it is nothing, exactly when
  the event does not fit, or a frame whose declared length is its length, whose prelude
  checksum is that of the first eight bytes and whose message checksum is that of everything
  before it.
\<close>

lemma encoded_frame_is_valid:
  "if event_fits (e, p)
   then complete_frame (encode_frame crc32 e p)
      \<and> take 4 (drop 8 (encode_frame crc32 e p)) = to_be32 (crc32 (take 8 (encode_frame crc32 e p)))
      \<and> drop (length (encode_frame crc32 e p) - 4) (encode_frame crc32 e p)
          = to_be32 (crc32 (take (length (encode_frame crc32 e p) - 4) (encode_frame crc32 e p)))
   else encode_frame crc32 e p = []"
proof (cases "event_fits (e, p)")
  case True
  then have fits: "16 + length (event_headers e) + length p \<le> MAX_FRAME_BYTES"
    and enc: "encode_frame crc32 e p = closed_frame crc32 (event_headers e) p"
    by (simp_all add: event_fits_def length_event_headers encode_frame_unfold)
  show ?thesis
    using True closed_frame_decodes(1) [OF fits, of crc32] closed_frame_layout [OF fits refl refl, of crc32]
    by (simp add: enc)
next
  case False
  then show ?thesis by (simp add: encode_frame_drops)
qed

end
