(* ===== verification/Budget_Window.thy ===== *)
theory Budget_Window
  imports Busbar_Prelude "HOL-Library.Signed_Division"
begin

text \<open>
  Accounting windows of the limit engine, \<open>src/crates/busbar/src/governance/mod.rs\<close>: the start
  and the end of the minute, hour, day, month or all-time window that holds an instant, and the
  civil-calendar arithmetic behind the month. Days are \<open>i64\<close> and stay far inside its range (a
  \<open>u64\<close> of seconds has fewer than \<open>2 ^ 48\<close> days), so they are integers; \<open>/\<close> on \<open>i64\<close> truncates,
  which is \<open>signed_divide\<close>.

  The lemmas show that the two conversions agree with the proleptic Gregorian calendar, and that
  the windows of one word partition time.
\<close>

section \<open>Definitions\<close>

definition SECS_PER_DAY :: nat where "SECS_PER_DAY = 86400"

definition WINDOW_TOTAL :: string where "WINDOW_TOTAL = ''total''"
definition WINDOW_DAY :: string where "WINDOW_DAY = ''day''"
definition WINDOW_MONTH :: string where "WINDOW_MONTH = ''month''"
definition WINDOW_MINUTE :: string where "WINDOW_MINUTE = ''minute''"
definition WINDOW_HOUR :: string where "WINDOW_HOUR = ''hour''"

abbreviation quot :: "int \<Rightarrow> int \<Rightarrow> int" where
  "quot \<equiv> signed_divide"

definition civil_from_days :: "i64 \<Rightarrow> i64 \<times> i64 \<times> i64" where
  "civil_from_days z0 =
     (let z = z0 + 719468;
          era = quot (if z \<ge> 0 then z else z - 146096) 146097;
          doe = z - era * 146097;
          yoe = quot (doe - quot doe 1460 + quot doe 36524 - quot doe 146096) 365;
          y = yoe + era * 400;
          doy = doe - (365 * yoe + quot yoe 4 - quot yoe 100);
          mp = quot (5 * doy + 2) 153;
          d = doy - quot (153 * mp + 2) 5 + 1;
          m = (if mp < 10 then mp + 3 else mp - 9)
      in (if m \<le> 2 then y + 1 else y, m, d))"

definition days_from_civil :: "i64 \<Rightarrow> i64 \<Rightarrow> i64 \<Rightarrow> i64" where
  "days_from_civil y0 m d =
     (let y = (if m \<le> 2 then y0 - 1 else y0);
          era = quot (if y \<ge> 0 then y else y - 399) 400;
          yoe = y - era * 400;
          doy = quot (153 * (if m > 2 then m - 3 else m + 9) + 2) 5 + d - 1;
          doe = yoe * 365 + quot yoe 4 - quot yoe 100 + doy
      in era * 146097 + doe - 719468)"

text \<open>The month arms convert the day number to \<open>u64\<close>; it is never negative.\<close>

definition budget_window :: "string \<Rightarrow> u64 \<Rightarrow> u64" where
  "budget_window period now =
     (if period = WINDOW_MINUTE then now div 60 * 60
      else if period = WINDOW_HOUR then now div 3600 * 3600
      else if period = WINDOW_DAY then now div SECS_PER_DAY * SECS_PER_DAY
      else if period = WINDOW_MONTH then
        (case civil_from_days (int (now div SECS_PER_DAY)) of
           (y, m, _) \<Rightarrow> nat (days_from_civil y m 1) * SECS_PER_DAY)
      else 0)"

definition window_end :: "string \<Rightarrow> u64 \<Rightarrow> u64 option" where
  "window_end period now =
     (if period = WINDOW_MINUTE then Some (now div 60 * 60 + 60)
      else if period = WINDOW_HOUR then Some (now div 3600 * 3600 + 3600)
      else if period = WINDOW_DAY then Some (now div SECS_PER_DAY * SECS_PER_DAY + SECS_PER_DAY)
      else if period = WINDOW_MONTH then
        (case civil_from_days (int (now div SECS_PER_DAY)) of
           (y, m, _) \<Rightarrow>
             (case (if m = 12 then (y + 1, 1) else (y, m + 1)) of
                (ny, nm) \<Rightarrow> Some (nat (days_from_civil ny nm 1) * SECS_PER_DAY)))
      else None)"

section \<open>Years and months counted from March\<close>

text \<open>Days before the first of March of a year, and before a month of that year.\<close>

definition year_days :: "int \<Rightarrow> int" where
  "year_days y = 365 * y + y div 4 - y div 100 + y div 400"

definition month_days :: "int \<Rightarrow> int" where
  "month_days mp = (153 * mp + 2) div 5"

lemma quot_nonneg: "0 \<le> a \<Longrightarrow> 0 < b \<Longrightarrow> quot a b = a div b"
  by (cases "a = 0") (simp_all add: signed_divide_int_def)

lemma quot_floor:
  assumes "0 < b" and c: "c = b - 1"
  shows "quot (if 0 \<le> a then a else a - c) b = a div b"
proof (cases "0 \<le> a")
  case False
  have "b - 1 - a = b * - (a div b) + (b - 1 - a mod b)"
    by (simp add: minus_mult_div_eq_mod algebra_simps)
  moreover have "0 \<le> b - 1 - a mod b" "b - 1 - a mod b < b"
    using assms pos_mod_bound [of b a] pos_mod_sign [of b a] by linarith+
  ultimately have "(b - 1 - a) div b = - (a div b)"
    by (rule int_div_pos_eq)
  then show ?thesis
    using False assms by (simp add: signed_divide_int_def c)
qed (use assms in \<open>simp add: quot_nonneg\<close>)

lemma quot_eras:
  "quot (if 0 \<le> z then z else z - 146096) 146097 = z div 146097"
  "quot (if 0 \<le> y then y else y - 399) 400 = y div 400"
  by (rule quot_floor; simp)+

subsection \<open>From a date to its day\<close>

lemma year_days_era:
  assumes r: "0 \<le> r" "r < 400"
  shows "year_days (400 * e + r) = 146097 * e + (365 * r + r div 4 - r div 100)"
proof -
  have "400 * e + r = r + 4 * (100 * e)" "400 * e + r = r + 100 * (4 * e)" by simp_all
  then have "(400 * e + r) div 4 = 100 * e + r div 4" "(400 * e + r) div 100 = 4 * e + r div 100"
    by (metis add.commute div_mult_self2 zero_neq_numeral)+
  moreover have "(400 * e + r) div 400 = e"
    by (rule int_div_pos_eq [where r = r]) (use r in \<open>simp_all only: refl\<close>)
  ultimately show ?thesis unfolding year_days_def by (simp only: ring_distribs)
qed

definition march_year :: "int \<Rightarrow> int \<Rightarrow> int" where
  "march_year y m = (if m \<le> 2 then y - 1 else y)"

definition march_month :: "int \<Rightarrow> int" where
  "march_month m = (if m > 2 then m - 3 else m + 9)"

lemma days_from_civil_eq:
  assumes "1 \<le> m"
  shows "days_from_civil y m d = year_days (march_year y m) + month_days (march_month m) + d - 1 - 719468"
proof -
  define Y e r where "Y = march_year y m" and "e = Y div 400" and "r = Y mod 400"
  have Y: "Y = 400 * e + r" and r: "0 \<le> r" "r < 400"
    by (simp_all add: e_def r_def)
  have "days_from_civil y m d = e * 146097 + (r * 365 + quot r 4 - quot r 100
      + (quot (153 * march_month m + 2) 5 + d - 1)) - 719468"
    unfolding days_from_civil_def Let_def quot_eras
    by (simp add: Y_def march_year_def march_month_def e_def r_def minus_div_mult_eq_mod)
  also have "\<dots> = year_days Y + month_days (march_month m) + d - 1 - 719468"
    using assms r unfolding Y year_days_era [OF r] by (simp add: quot_nonneg month_days_def march_month_def)
  finally show ?thesis by (simp add: Y_def)
qed

lemma div_succ: "a div n \<le> (a + 1) div n" "(a + 1) div n \<le> a div n + 1" if "0 < n" for a n :: int
proof -
  show "a div n \<le> (a + 1) div n" using that by (simp add: zdiv_mono1)
  have "(a + 1) div n \<le> (a + n) div n" using that by (intro zdiv_mono1) simp_all
  then show "(a + 1) div n \<le> a div n + 1" using that by simp
qed

lemma year_days_step: "year_days y + 365 \<le> year_days (y + 1)"
proof -
  have add_up: "365 * y + a - b + c + 365 \<le> 365 * (y + 1) + a' - b' + c'"
    if "b' - b \<le> a' - a" "c \<le> c'" for a a' b b' c c' :: int
    using that by (simp add: algebra_simps)
  define p q where "p = y div 4" and "q = (y + 1) div 4"
  have centuries: "y div 100 = p div 25" "(y + 1) div 100 = q div 25"
    unfolding p_def q_def by (simp_all flip: zdiv_zmult2_eq)
  have "p \<le> q" "q \<le> p + 1" unfolding p_def q_def by (rule div_succ; simp)+
  then consider "q = p" | "q = p + 1" by linarith
  then have "q div 25 - p div 25 \<le> q - p"
    using div_succ(2) [of 25 p] by cases simp_all
  then show ?thesis
    unfolding year_days_def centuries p_def [symmetric] q_def [symmetric]
    by (rule add_up) (rule div_succ, simp)
qed

lemma year_days_mono: "a \<le> b \<Longrightarrow> year_days a \<le> year_days b"
proof (induction b rule: int_ge_induct)
  case (step b)
  then show ?case using year_days_step [of b] by simp
qed simp

subsection \<open>The year of a day in its era\<close>

definition spread :: "int \<Rightarrow> int" where
  "spread doe = doe - doe div 1460 + doe div 36524 - doe div 146096"

lemma spread_step:
  assumes "0 \<le> d" and "d < 146096"
  shows "spread d \<le> spread (d + 1)"
proof (cases "d = 146095")
  case False
  have add_up: "d - a + b - c \<le> d + 1 - a' + b' - c'"
    if "a' \<le> a + 1" "b \<le> b'" "c = 0" "c' = 0" for a a' b b' c c' :: int
    using that by linarith
  have "(d + 1) div 1460 \<le> (d + 1460) div 1460" "d div 36524 \<le> (d + 1) div 36524"
    by (rule zdiv_mono1; simp)+
  moreover have "(d + 1460) div 1460 = d div 1460 + 1" by simp
  ultimately have "(d + 1) div 1460 \<le> d div 1460 + 1" "d div 36524 \<le> (d + 1) div 36524" by simp_all
  moreover have "d div 146096 = 0" "(d + 1) div 146096 = 0"
    by (rule div_pos_pos_trivial; use assms False in linarith)+
  ultimately show ?thesis unfolding spread_def by (rule add_up)
qed (simp add: spread_def)

lemma spread_mono:
  assumes "a \<le> b" and "0 \<le> a" and "b \<le> 146096"
  shows "spread a \<le> spread b"
  using assms
proof (induction b rule: int_ge_induct)
  case (step b)
  then show ?case using spread_step [of b] by simp
qed simp

text \<open>A year of an era as century, leap cycle and rest.\<close>

lemma spread_at_year:
  assumes c: "0 \<le> c" "c \<le> 3" and q: "0 \<le> q" "q \<le> 24" and r: "0 \<le> r" "r \<le> 3"
  shows "year_days (100 * c + 4 * q + r) = 36524 * c + 1461 * q + 365 * r"
    and "spread (36524 * c + 1461 * q + 365 * r) = 365 * (100 * c + 4 * q + r)"
    and "0 < c + q + r \<Longrightarrow> spread (36524 * c + 1461 * q + 365 * r - 1) < 365 * (100 * c + 4 * q + r)"
proof -
  let ?y = "100 * c + 4 * q + r" and ?s = "36524 * c + 1461 * q + 365 * r"
  have "?y div 4 = 25 * c + q" "?y div 100 = c" "?y div 400 = 0"
    using c q r by (intro int_div_pos_eq [where r = r] int_div_pos_eq [where r = "4 * q + r"]
        int_div_pos_eq [where r = ?y]; simp)+
  then show "year_days ?y = ?s" by (simp add: year_days_def)
  have "?s div 1460 = 25 * c + q" "?s div 36524 = c" "?s div 146096 = 0"
    using c q r by (intro int_div_pos_eq [where r = "24 * c + q + 365 * r"]
        int_div_pos_eq [where r = "1461 * q + 365 * r"] int_div_pos_eq [where r = ?s]; simp)+
  then show "spread ?s = 365 * ?y" by (simp add: spread_def)
  assume "0 < c + q + r"
  then have "(?s - 1) div 1460 = 25 * c + q"
    using c q r by (intro int_div_pos_eq [where r = "24 * c + q + 365 * r - 1"]) simp_all
  moreover have "(?s - 1) div 36524 \<le> ?s div 36524" by (rule zdiv_mono1) simp_all
  moreover have "(?s - 1) div 146096 = 0"
    using c q r \<open>0 < c + q + r\<close> by (intro int_div_pos_eq [where r = "?s - 1"]) simp_all
  ultimately show "spread (?s - 1) < 365 * ?y"
    using \<open>?s div 36524 = c\<close> by (simp add: spread_def)
qed

lemma year_digits:
  fixes y :: int
  assumes "0 \<le> y" and "y < 400"
  obtains c q r where "y = 100 * c + 4 * q + r" "0 \<le> c" "c \<le> 3" "0 \<le> q" "q \<le> 24" "0 \<le> r" "r \<le> 3"
proof (rule that [of "y div 100" "y mod 100 div 4" "y mod 100 mod 4"])
  show "y = 100 * (y div 100) + 4 * (y mod 100 div 4) + y mod 100 mod 4" by simp
  show "y div 100 \<le> 3" "y mod 100 div 4 \<le> 24" "y mod 100 mod 4 \<le> 3"
    using assms by presburger+
qed (use assms in \<open>simp_all add: pos_imp_zdiv_nonneg_iff\<close>)

lemma spread_year:
  assumes "0 \<le> y" and "y < 400"
  shows "spread (year_days y) = 365 * y" and "spread (year_days (y + 1) - 1) < 365 * (y + 1)"
proof -
  show "spread (year_days y) = 365 * y"
    using assms by (rule year_digits) (simp add: spread_at_year)
  show "spread (year_days (y + 1) - 1) < 365 * (y + 1)"
  proof (cases "y = 399")
    case True
    then show ?thesis by (simp add: spread_def year_days_def)
  next
    case False
    then have "0 \<le> y + 1" "y + 1 < 400" using assms by simp_all
    then obtain c q r where y: "y + 1 = 100 * c + 4 * q + r" "0 \<le> c" "c \<le> 3" "0 \<le> q" "q \<le> 24" "0 \<le> r" "r \<le> 3"
      by (rule year_digits)
    then have "0 < c + q + r" using assms by linarith
    then show ?thesis unfolding y(1) using y spread_at_year(1,3) [of c q r] by simp
  qed
qed

lemma div_mult_bounds: "n * (a div n) \<le> a" "a < n * (a div n) + n" if "0 < n" for a n :: int
  using that mult_div_mod_eq [of n a] pos_mod_sign [of n a] pos_mod_bound [of n a] by linarith+

lemma year_of_era:
  assumes "0 \<le> doe" and "doe < 146097"
  defines "y \<equiv> spread doe div 365"
  shows "0 \<le> y" and "y < 400" and "year_days y \<le> doe" and "doe < year_days (y + 1)"
proof -
  have "spread 0 \<le> spread doe" "spread doe \<le> spread 146096"
    using assms by (auto intro: spread_mono)
  then have "0 \<le> spread doe" "spread doe < 365 * 400" by (simp_all add: spread_def)
  then show y: "0 \<le> y" "y < 400"
    by (simp_all add: y_def pos_imp_zdiv_nonneg_iff)
  have at_y: "365 * y \<le> spread doe" "spread doe < 365 * (y + 1)"
    using div_mult_bounds [of 365 "spread doe"] by (simp_all add: y_def algebra_simps)
  have bound: "year_days k \<le> 146097" if "k \<le> 400" for k
    using that year_days_mono [of k 400] by (simp add: year_days_def)
  show "year_days y \<le> doe"
  proof (rule ccontr)
    assume less: "\<not> year_days y \<le> doe"
    then have "0 < y" using y assms by (cases "y = 0") (auto simp: year_days_def)
    have "spread doe \<le> spread (year_days y - 1)"
      using less assms bound [of y] y by (intro spread_mono) simp_all
    then show False using spread_year(2) [of "y - 1"] y at_y \<open>0 < y\<close> by simp
  qed
  show "doe < year_days (y + 1)"
  proof (rule ccontr)
    assume more: "\<not> doe < year_days (y + 1)"
    then have "y + 1 < 400"
      using y assms(2) year_days_mono [of 400 "y + 1"] by (cases "y + 1 = 400") (simp_all add: year_days_def [of 400])
    moreover have "spread (year_days (y + 1)) \<le> spread doe"
      using more assms y year_days_mono [of 0 "y + 1"] by (intro spread_mono) (simp_all add: year_days_def [of 0])
    ultimately show False using spread_year(1) [of "y + 1"] y at_y by simp
  qed
qed


subsection \<open>From a day to its date\<close>

lemma month_of_day:
  assumes "0 \<le> doy" and "doy \<le> 365"
  defines "mp \<equiv> (5 * doy + 2) div 153"
  shows "0 \<le> mp" and "mp \<le> 11" and "month_days mp \<le> doy" and "doy < month_days (mp + 1)"
proof -
  have mp: "153 * mp \<le> 5 * doy + 2" "5 * doy + 2 < 153 * mp + 153"
    using div_mult_bounds [of 153 "5 * doy + 2"] by (simp_all add: mp_def)
  then show "0 \<le> mp" "mp \<le> 11" using assms(1,2) by linarith+
  have "5 * month_days mp \<le> 153 * mp + 2" "153 * mp + 155 < 5 * month_days (mp + 1) + 5"
    using div_mult_bounds [of 5 "153 * mp + 2"] div_mult_bounds [of 5 "153 * (mp + 1) + 2"]
    by (simp_all add: month_days_def)
  then show "month_days mp \<le> doy" "doy < month_days (mp + 1)" using mp by linarith+
qed

lemma year_days_step_le: "year_days (y + 1) \<le> year_days y + 366"
proof -
  have "y div 4 \<le> (y + 1) div 4" "(y + 1) div 4 \<le> y div 4 + 1" "y div 100 \<le> (y + 1) div 100"
    by (rule div_succ; simp)+
  moreover have "(y + 1) div 400 - y div 400 \<le> (y + 1) div 100 - y div 100"
  proof -
    define p q where "p = y div 100" and "q = (y + 1) div 100"
    have eras: "y div 400 = p div 4" "(y + 1) div 400 = q div 4"
      unfolding p_def q_def by (simp_all flip: zdiv_zmult2_eq)
    have "p \<le> q" "q \<le> p + 1" unfolding p_def q_def by (rule div_succ; simp)+
    then consider "q = p" | "q = p + 1" by linarith
    then have "q div 4 - p div 4 \<le> q - p" using div_succ(2) [of 4 p] by cases simp_all
    then show ?thesis by (simp only: eras p_def [symmetric] q_def [symmetric])
  qed
  moreover have "365 * (y + 1) + a' - b' + c' \<le> 365 * y + a - b + c + 366"
    if "a \<le> a'" "a' \<le> a + 1" "b \<le> b'" "c' - c \<le> b' - b" for a a' b b' c c' :: int
    using that by (simp add: algebra_simps)
  ultimately show ?thesis unfolding year_days_def by metis
qed

text \<open>A date as a year and a month counted from March, and the day the month begins.\<close>

definition month_start :: "int \<Rightarrow> int \<Rightarrow> int" where
  "month_start y mp = year_days y + month_days mp - 719468"

definition next_month_start :: "int \<Rightarrow> int \<Rightarrow> int" where
  "next_month_start y mp = (if mp = 11 then month_start (y + 1) 0 else month_start y (mp + 1))"

definition civil_month :: "int \<Rightarrow> int \<Rightarrow> int \<times> int" where
  "civil_month y mp = (let m = (if mp < 10 then mp + 3 else mp - 9) in (if m \<le> 2 then y + 1 else y, m))"

lemma civil_from_days_cases:
  obtains y mp where "0 \<le> mp" and "mp \<le> 11"
    and "month_start y mp \<le> z" and "z < next_month_start y mp"
    and "civil_from_days z = (fst (civil_month y mp), snd (civil_month y mp), z - month_start y mp + 1)"
proof -
  define Z where "Z = z + 719468"
  define era where "era = Z div 146097"
  define doe where "doe = Z - era * 146097"
  define yoe where "yoe = spread doe div 365"
  define doy where "doy = doe - (365 * yoe + yoe div 4 - yoe div 100)"
  define mp where "mp = (5 * doy + 2) div 153"
  have doe: "0 \<le> doe" "doe < 146097"
    by (simp_all add: doe_def era_def minus_div_mult_eq_mod)
  note yoe = year_of_era [OF doe, folded yoe_def]
  have in_era: "year_days yoe = 365 * yoe + yoe div 4 - yoe div 100"
    using year_days_era [of yoe 0] yoe by simp
  have doy: "0 \<le> doy" "doy \<le> 365"
    using yoe year_days_step_le [of yoe] by (simp_all add: doy_def in_era)
  note mp = month_of_day [OF doy, folded mp_def]
  define y where "y = 400 * era + yoe"
  have year: "year_days y = 146097 * era + year_days yoe"
    unfolding y_def in_era by (rule year_days_era) (use yoe in simp_all)
  have "year_days (y + 1) = 146097 * era + year_days (yoe + 1)"
  proof (cases "yoe = 399")
    case True
    then have "y + 1 = 400 * (era + 1) + 0" by (simp add: y_def)
    then have "year_days (y + 1) = year_days (400 * (era + 1) + 0)" by (rule arg_cong)
    also have "\<dots> = 146097 * (era + 1)" by (subst year_days_era) simp_all
    finally have "year_days (y + 1) = 146097 * (era + 1)" .
    then show ?thesis using True by (simp add: year_days_def [of 400])
  next
    case False
    then show ?thesis
      using year_days_era [of "yoe + 1" era] year_days_era [of "yoe + 1" 0] yoe by (simp add: y_def add.assoc)
  qed
  then have next_year: "z + 719468 < year_days (y + 1)"
    using yoe(4) by (simp add: doe_def Z_def)
  have z: "z = year_days y + doy - 719468"
    by (simp add: year doy_def in_era doe_def Z_def)
  have start: "month_start y mp \<le> z" "z < next_month_start y mp"
    using mp next_year by (simp_all add: month_start_def next_month_start_def z month_days_def [of 0])
  have "0 \<le> spread doe" using spread_mono [of 0 doe] doe by (simp add: spread_def [of 0])
  then have quot_days: "quot doe 1460 = doe div 1460" "quot doe 36524 = doe div 36524" "quot doe 146096 = doe div 146096"
    and quot_year: "quot (spread doe) 365 = yoe" "quot yoe 4 = yoe div 4" "quot yoe 100 = yoe div 100"
    and quot_month: "quot (5 * doy + 2) 153 = mp" "quot (153 * mp + 2) 5 = month_days mp"
    using doe yoe doy mp by (simp_all add: quot_nonneg yoe_def mp_def month_days_def)
  have "civil_from_days z = (fst (civil_month y mp), snd (civil_month y mp), z - month_start y mp + 1)"
    unfolding civil_from_days_def Let_def Z_def [symmetric] quot_eras era_def [symmetric] doe_def [symmetric]
      quot_days spread_def [symmetric] quot_year doy_def [symmetric] quot_month
    by (simp add: civil_month_def Let_def y_def month_start_def z)
  then show ?thesis using mp start by (intro that)
qed


subsection \<open>Months partition the days\<close>

lemma month_days_bounds:
  assumes "0 \<le> a" and "a < b" and "b \<le> 11"
  shows "month_days (a + 1) \<le> month_days b" and "month_days b \<le> 337"
  using assms by (auto simp: month_days_def intro!: zdiv_mono1 order.trans [OF zdiv_mono1 [of _ "153 * 11 + 2" 5]])

lemma next_month_le:
  assumes "0 \<le> a" and "a \<le> 11" and "0 \<le> b" and "b \<le> 11" and "x < y \<or> x = y \<and> a < b"
  shows "next_month_start x a \<le> month_start y b"
  using assms(5)
proof
  assume "x < y"
  have "next_month_start x a \<le> year_days (x + 1) - 719468"
    using assms month_days_bounds(2) [of a "a + 1"] year_days_step [of x]
    by (auto simp: next_month_start_def month_start_def month_days_def [of 0])
  also have "\<dots> \<le> month_start y b"
    using \<open>x < y\<close> year_days_mono [of "x + 1" y] assms(3)
    by (simp add: month_start_def month_days_def pos_imp_zdiv_nonneg_iff add_increasing2)
  finally show ?thesis .
next
  assume "x = y \<and> a < b"
  then show ?thesis
    using assms month_days_bounds(1) [of a b] by (auto simp: next_month_start_def month_start_def)
qed

lemma month_unique:
  assumes "0 \<le> a" "a \<le> 11" "month_start x a \<le> z" "z < next_month_start x a"
    and "0 \<le> b" "b \<le> 11" "month_start y b \<le> z" "z < next_month_start y b"
  shows "x = y \<and> a = b"
proof (rule ccontr)
  assume "\<not> ?thesis"
  then have "(x < y \<or> x = y \<and> a < b) \<or> (y < x \<or> y = x \<and> b < a)" by auto
  then show False
    using next_month_le [of a b x y] next_month_le [of b a y x] assms by linarith
qed

lemma civil_month_ok:
  assumes "0 \<le> mp" and "mp \<le> 11"
  shows "civil_month y mp = (y', m) \<Longrightarrow> 1 \<le> m \<and> m \<le> 12 \<and> march_year y' m = y \<and> march_month m = mp"
  using assms by (auto simp: civil_month_def march_year_def march_month_def Let_def split: if_splits)

lemma civil_month_march:
  assumes "1 \<le> m" and "m \<le> 12"
  shows "civil_month (march_year y m) (march_month m) = (y, m)"
    and "0 \<le> march_month m" and "march_month m \<le> 11"
  using assms by (auto simp: civil_month_def march_year_def march_month_def Let_def)

lemma civil_from_days_in_month:
  assumes "0 \<le> mp" "mp \<le> 11" "month_start y mp \<le> z" "z < next_month_start y mp"
  shows "civil_from_days z = (fst (civil_month y mp), snd (civil_month y mp), z - month_start y mp + 1)"
  using civil_from_days_cases [of z] month_unique [of mp y z] assms by metis

subsection \<open>Months have the lengths of the calendar\<close>

definition leap_year :: "int \<Rightarrow> bool" where
  "leap_year y \<longleftrightarrow> 4 dvd y \<and> (\<not> 100 dvd y \<or> 400 dvd y)"

definition days_in_month :: "int \<Rightarrow> int \<Rightarrow> int" where
  "days_in_month y m =
     (if m = 2 then (if leap_year y then 29 else 28) else if m \<in> {4, 6, 9, 11} then 30 else 31)"

definition valid_date :: "int \<Rightarrow> int \<Rightarrow> int \<Rightarrow> bool" where
  "valid_date y m d \<longleftrightarrow> 1 \<le> m \<and> m \<le> 12 \<and> 1 \<le> d \<and> d \<le> days_in_month y m"

lemma div_succ_eq: "(a + 1) div n = a div n + of_bool (n dvd a + 1)" if "0 < n" for a n :: int
proof (cases "n dvd a + 1")
  case True
  then obtain k where k: "a + 1 = n * k" by blast
  then have "a = n * (k - 1) + (n - 1)" by (simp add: algebra_simps)
  then have "a div n = k - 1" using that by (intro int_div_pos_eq [where r = "n - 1"]) simp_all
  then show ?thesis using k that True by simp
next
  case False
  have "(a + 1) mod n \<noteq> 0" using False by (simp add: dvd_eq_mod_eq_0)
  then have "a = n * ((a + 1) div n) + ((a + 1) mod n - 1)" "0 \<le> (a + 1) mod n - 1" "(a + 1) mod n - 1 < n"
    using that pos_mod_sign [of n "a + 1"] pos_mod_bound [of n "a + 1"] mult_div_mod_eq [of n "a + 1"] by linarith+
  then have "a div n = (a + 1) div n" by (rule int_div_pos_eq)
  then show ?thesis using False by simp
qed

lemma year_length: "year_days (y + 1) = year_days y + (if leap_year (y + 1) then 366 else 365)"
proof -
  have "(100 :: int) dvd 400" "(4 :: int) dvd 100" by simp_all
  then have "400 dvd y + 1 \<Longrightarrow> 100 dvd y + 1" "100 dvd y + 1 \<Longrightarrow> 4 dvd y + 1"
    by (blast intro: dvd_trans)+
  moreover have "of_bool P - of_bool Q + of_bool R = (if P \<and> (\<not> Q \<or> R) then 1 else (0 :: int))"
    if "R \<Longrightarrow> Q" "Q \<Longrightarrow> P" for P Q R
    using that by (cases P; cases Q; cases R) simp_all
  ultimately have of: "of_bool (4 dvd y + 1) - of_bool (100 dvd y + 1) + of_bool (400 dvd y + 1)
      = (if leap_year (y + 1) then 1 else (0 :: int))"
    unfolding leap_year_def by blast
  have "365 * (y + 1) + (a + i) - (b + j) + (c + k) = 365 * y + a - b + c + 365 + (i - j + k)"
    for a b c i j k :: int by (simp add: algebra_simps)
  then have "year_days (y + 1) = year_days y + 365
      + (of_bool (4 dvd y + 1) - of_bool (100 dvd y + 1) + of_bool (400 dvd y + 1))"
    unfolding year_days_def div_succ_eq [of 4 y, simplified] div_succ_eq [of 100 y, simplified]
      div_succ_eq [of 400 y, simplified] .
  then show ?thesis unfolding of by simp
qed

lemma month_length:
  assumes "0 \<le> mp" and "mp \<le> 11" and "civil_month y mp = (y', m)"
  shows "next_month_start y mp = month_start y mp + days_in_month y' m"
proof (cases "mp = 11")
  case True
  then have "y' = y + 1" "m = 2" using assms(3) by (simp_all add: civil_month_def)
  then show ?thesis
    by (simp add: True next_month_start_def month_start_def month_days_def days_in_month_def year_length)
next
  case False
  then have "mp = 0 \<or> mp = 1 \<or> mp = 2 \<or> mp = 3 \<or> mp = 4 \<or> mp = 5 \<or> mp = 6 \<or> mp = 7 \<or> mp = 8 \<or> mp = 9 \<or> mp = 10"
    using assms(1,2) by presburger
  then show ?thesis
    using assms(3)
    by (elim disjE) (simp_all add: next_month_start_def month_start_def month_days_def days_in_month_def civil_month_def)
qed

lemma month_start_days:
  assumes "0 \<le> mp" and "mp \<le> 11" and "civil_month y mp = (y', m)"
  shows "days_from_civil y' m d = month_start y mp + d - 1"
  using civil_month_ok [OF assms] by (simp add: days_from_civil_eq month_start_def)

text \<open>
  The day conversions are the Gregorian calendar. The date computed for any day, before or
  after the epoch, has a month from 1 to 12 and a day within the length that month has in that
  year, leap years included, and converts back to the day; and every such date is the date of
  the day it converts to. The epoch is the first of January 1970.
\<close>

lemma civil_calendar_bijection:
  "(case civil_from_days z of (y, m, d) \<Rightarrow> valid_date y m d \<and> days_from_civil y m d = z)
 \<and> (valid_date y' m' d' \<longrightarrow> civil_from_days (days_from_civil y' m' d') = (y', m', d'))
 \<and> days_from_civil 1970 1 1 = 0"
proof (intro conjI impI)
  obtain y mp where r: "0 \<le> mp" "mp \<le> 11" "month_start y mp \<le> z" "z < next_month_start y mp"
    "civil_from_days z = (fst (civil_month y mp), snd (civil_month y mp), z - month_start y mp + 1)"
    by (rule civil_from_days_cases)
  obtain Y M where c: "civil_month y mp = (Y, M)" by fastforce
  show "case civil_from_days z of (y, m, d) \<Rightarrow> valid_date y m d \<and> days_from_civil y m d = z"
    using r civil_month_ok [OF r(1,2) c] month_length [OF r(1,2) c] month_start_days [OF r(1,2) c]
    by (simp add: c valid_date_def)
next
  assume valid: "valid_date y' m' d'"
  let ?y = "march_year y' m'" and ?mp = "march_month m'"
  have m: "1 \<le> m'" "m' \<le> 12" and d: "1 \<le> d'" "d' \<le> days_in_month y' m'"
    using valid by (simp_all add: valid_date_def)
  note c = civil_month_march(1) [OF m, of y'] civil_month_march(2,3) [OF m]
  have day: "days_from_civil y' m' d' = month_start ?y ?mp + d' - 1"
    using c by (intro month_start_days) simp_all
  have "civil_from_days (month_start ?y ?mp + d' - 1) = (y', m', d')"
    using civil_from_days_in_month [OF c(2,3), of ?y "month_start ?y ?mp + d' - 1"] d month_length [OF c(2,3,1)]
    by (simp add: c(1))
  then show "civil_from_days (days_from_civil y' m' d') = (y', m', d')" by (simp add: day)
next
  show "days_from_civil 1970 1 1 = 0" by (simp add: days_from_civil_eq march_year_def march_month_def
        year_days_def month_days_def)
qed

section \<open>Windows partition time\<close>

lemma fixed_window:
  fixes n t :: nat
  assumes "0 < n"
  shows "t div n * n = now div n * n \<longleftrightarrow> now div n * n \<le> t \<and> t < now div n * n + n"
proof -
  have "t div n = now div n \<longleftrightarrow> now div n * n \<le> t \<and> t < (now div n + 1) * n"
    using assms by (metis Suc_eq_plus1 div_nat_eqI dividend_less_div_times div_times_less_eq_dividend
        mult.commute mult_Suc add.commute)
  then show ?thesis using assms by (simp add: algebra_simps)
qed


text \<open>The first day of the month of a day, and of the month after.\<close>

definition first_of_month :: "int \<Rightarrow> int" where
  "first_of_month k = (case civil_from_days k of (y, m, _) \<Rightarrow> days_from_civil y m 1)"

definition first_of_next :: "int \<Rightarrow> int" where
  "first_of_next k =
     (case civil_from_days k of (y, m, _) \<Rightarrow>
        (case (if m = 12 then (y + 1, 1) else (y, m + 1)) of (ny, nm) \<Rightarrow> days_from_civil ny nm 1))"

lemma first_of_month_eq:
  assumes "0 \<le> mp" "mp \<le> 11" "month_start y mp \<le> k" "k < next_month_start y mp"
  shows "first_of_month k = month_start y mp" and "first_of_next k = next_month_start y mp"
proof -
  obtain y' m where c: "civil_month y mp = (y', m)" by fastforce
  have cfd: "civil_from_days k = (y', m, k - month_start y mp + 1)"
    using civil_from_days_in_month [OF assms] by (simp add: c)
  show "first_of_month k = month_start y mp"
    using month_start_days [OF assms(1,2) c, of 1] by (simp add: first_of_month_def cfd)
  define y2 mp2 where "y2 = (if mp = 11 then y + 1 else y)" and "mp2 = (if mp = 11 then 0 else mp + 1)"
  have step: "civil_month y2 mp2 = (if m = 12 then (y' + 1, 1) else (y', m + 1))"
    using c assms(1,2) by (auto simp: civil_month_def y2_def mp2_def Let_def split: if_splits)
  have bounds: "0 \<le> mp2" "mp2 \<le> 11" using assms(1,2) by (simp_all add: mp2_def)
  obtain ny nm where n: "civil_month y2 mp2 = (ny, nm)" by fastforce
  have "first_of_next k = days_from_civil ny nm 1"
    using step n by (cases "m = 12") (simp_all add: first_of_next_def cfd)
  also have "\<dots> = month_start y2 mp2"
    using month_start_days [OF bounds n, of 1] by simp
  also have "\<dots> = next_month_start y mp"
    by (simp add: next_month_start_def y2_def mp2_def)
  finally show "first_of_next k = next_month_start y mp" .
qed

lemma month_frame:
  "first_of_month k \<le> k" "k < first_of_next k"
  "first_of_month j = first_of_month k \<longleftrightarrow> first_of_month k \<le> j \<and> j < first_of_next k"
proof -
  obtain y a where k: "0 \<le> a" "a \<le> 11" "month_start y a \<le> k" "k < next_month_start y a"
    by (rule civil_from_days_cases)
  note fk = first_of_month_eq [OF k]
  obtain x b where j: "0 \<le> b" "b \<le> 11" "month_start x b \<le> j" "j < next_month_start x b"
    by (rule civil_from_days_cases)
  note fj = first_of_month_eq [OF j]
  show "first_of_month k \<le> k" "k < first_of_next k" using k by (simp_all add: fk)
  show "first_of_month j = first_of_month k \<longleftrightarrow> first_of_month k \<le> j \<and> j < first_of_next k"
  proof
    assume "first_of_month j = first_of_month k"
    then have eq: "month_start x b = month_start y a" using fk fj by simp
    have "month_start y a < next_month_start y a" "month_start x b < next_month_start x b"
      using k j by linarith+
    then have "x = y \<and> b = a"
      using eq k(1,2) j(1,2) by (intro month_unique [of b x "month_start y a" a y]) simp_all
    then show "first_of_month k \<le> j \<and> j < first_of_next k" using j fk by simp
  next
    assume "first_of_month k \<le> j \<and> j < first_of_next k"
    then show "first_of_month j = first_of_month k"
      using first_of_month_eq(1) [OF k(1,2), of y j] fk by simp
  qed
qed

lemma first_of_month_nonneg:
  assumes "0 \<le> k"
  shows "0 \<le> first_of_month k"
proof (rule ccontr)
  assume "\<not> 0 \<le> first_of_month k"
  then have "first_of_month k \<le> 0 \<and> 0 < first_of_next k" using assms month_frame(2) [of k] by simp
  then have "first_of_month 0 = first_of_month k" using month_frame(3) [of 0 k] by simp
  moreover have "first_of_month 0 = 0"
    by (rule trans [OF first_of_month_eq(1) [of 10 1969]])
       (simp_all add: month_start_def next_month_start_def year_days_def month_days_def)
  ultimately show False using \<open>\<not> 0 \<le> first_of_month k\<close> by simp
qed

lemma nat_day_range:
  assumes "0 \<le> a" and "0 \<le> b"
  shows "nat a * 86400 \<le> t \<and> t < nat b * 86400 \<longleftrightarrow> a \<le> int (t div 86400) \<and> int (t div 86400) < b"
proof -
  have "nat a * 86400 \<le> t \<longleftrightarrow> nat a \<le> t div 86400" by (simp add: less_eq_div_iff_mult_less_eq)
  moreover have "t < nat b * 86400 \<longleftrightarrow> t div 86400 < nat b" by (simp add: div_less_iff_less_mult)
  ultimately show ?thesis using assms by (simp add: nat_le_iff zless_nat_eq_int_zless)
qed

lemmas window_words = WINDOW_TOTAL_def WINDOW_DAY_def WINDOW_MONTH_def WINDOW_MINUTE_def WINDOW_HOUR_def

lemma month_window:
  "budget_window WINDOW_MONTH t = nat (first_of_month (int (t div 86400))) * 86400"
  "window_end WINDOW_MONTH t = Some (nat (first_of_next (int (t div 86400))) * 86400)"
  by (simp_all add: budget_window_def window_end_def window_words first_of_month_def first_of_next_def SECS_PER_DAY_def
      split: prod.splits)

lemma month_window_frame:
  fixes now t :: nat
  defines "s \<equiv> nat (first_of_month (int (now div 86400))) * 86400"
    and "e \<equiv> nat (first_of_next (int (now div 86400))) * 86400"
  shows "s \<le> now" and "now < e"
    and "nat (first_of_month (int (t div 86400))) * 86400 = s \<longleftrightarrow> s \<le> t \<and> t < e"
proof -
  let ?k = "int (now div 86400)" and ?j = "int (t div 86400)"
  have nonneg: "0 \<le> first_of_month ?k" "0 \<le> first_of_month ?j" "0 \<le> first_of_next ?k"
    using first_of_month_nonneg month_frame(2) [of ?k] by (simp_all add: order.strict_implies_order)
  have "s \<le> now \<and> now < e"
    unfolding s_def e_def using nat_day_range [OF nonneg(1,3)] month_frame(1,2) [of ?k] by simp
  then show "s \<le> now" "now < e" by simp_all
  have "nat (first_of_month ?j) * 86400 = s \<longleftrightarrow> first_of_month ?j = first_of_month ?k"
    using nonneg by (simp add: s_def eq_nat_nat_iff)
  then show "nat (first_of_month ?j) * 86400 = s \<longleftrightarrow> s \<le> t \<and> t < e"
    unfolding s_def e_def nat_day_range [OF nonneg(1,3)] month_frame(3) .
qed

lemma window_frame:
  "case window_end p now of
     None \<Rightarrow> (\<forall>t. budget_window p t = 0)
   | Some e \<Rightarrow> budget_window p now \<le> now \<and> now < e
       \<and> (\<forall>t. (budget_window p t = budget_window p now) = (budget_window p now \<le> t \<and> t < e))"
proof -
  have fixed: "case Some (now div n * n + n) of
      None \<Rightarrow> (\<forall>t. t div n * n = 0)
    | Some e \<Rightarrow> now div n * n \<le> now \<and> now < e
        \<and> (\<forall>t. (t div n * n = now div n * n) = (now div n * n \<le> t \<and> t < e))" if "0 < n" for n
    using fixed_window [OF that, of _ now] fixed_window [OF that, of now now] by simp
  consider "p = WINDOW_MONTH" | "p = WINDOW_MINUTE" | "p = WINDOW_HOUR" | "p = WINDOW_DAY"
    | "p \<notin> {WINDOW_MONTH, WINDOW_MINUTE, WINDOW_HOUR, WINDOW_DAY}" by blast
  then show ?thesis
  proof cases
    case 1
    then show ?thesis using month_window_frame(1,2) [of now] month_window_frame(3) [where now = now] by (simp add: month_window)
  next
    case 2
    then show ?thesis using fixed [of 60] by (simp add: budget_window_def window_end_def)
  next
    case 3
    then show ?thesis using fixed [of 3600] by (simp add: budget_window_def window_end_def window_words)
  next
    case 4
    then show ?thesis
      using fixed [of SECS_PER_DAY] by (simp add: budget_window_def window_end_def window_words SECS_PER_DAY_def)
  qed (simp add: budget_window_def window_end_def)
qed

text \<open>
  The accounting windows of every window word partition time. An instant lies in its own
  window, the window ends strictly later, and another instant has the same window exactly when
  it lies between its start and its end; a word without an end, the all-time one or an unknown
  one, has a single window from zero.
\<close>

lemma windows_partition_time:
  "case window_end p now of
     None \<Rightarrow> (\<forall>t. budget_window p t = 0)
   | Some e \<Rightarrow> budget_window p now \<le> now \<and> now < e
       \<and> (\<forall>t. (budget_window p t = budget_window p now) = (budget_window p now \<le> t \<and> t < e))"
  by (rule window_frame)

end
