(* ===== verification/Cost_Model.thy ===== *)
theory Cost_Model
  imports Budget_Window "HOL-Library.List_Lexorder" "HOL-Library.Char_ord"
begin

text \<open>
  The cost and limit model, \<open>src/crates/busbar/src/cost.rs\<close>, on the parsed groups of
  \<open>config/groups.rs\<close>: how the limits of a group become enforcement buckets, how the spend of a
  token ledger is derived, and the chain of buckets a key is charged to. The rate of a model is
  given in its integer form; the rounding of the configured \<open>f64\<close> rates is not modelled. A
  \<open>BTreeMap\<close> is the list of its entries in key order, a \<open>HashMap\<close> a map.

  The lemmas show when a bucket id identifies its bucket, that a chain is the complete path from
  the group of the key to its root, and what a derived spend is, saturation included.
\<close>

section \<open>Types of the store contract\<close>

record TierTokens =
  tt_input :: u64
  tt_output :: u64
  tt_cache_read :: u64
  tt_cache_write :: u64

definition no_tokens :: TierTokens where
  "no_tokens = \<lparr>tt_input = 0, tt_output = 0, tt_cache_read = 0, tt_cache_write = 0\<rparr>"

definition tokens_is_zero :: "TierTokens \<Rightarrow> bool" where
  "tokens_is_zero t \<longleftrightarrow> tt_input t = 0 \<and> tt_output t = 0 \<and> tt_cache_read t = 0 \<and> tt_cache_write t = 0"

definition tokens_total :: "TierTokens \<Rightarrow> u64" where
  "tokens_total t =
     saturating_add (saturating_add (saturating_add (tt_input t) (tt_output t)) (tt_cache_read t)) (tt_cache_write t)"

record ScopeRef =
  sr_kind :: string
  sr_value :: string

definition scope_pool :: "string \<Rightarrow> ScopeRef" where
  "scope_pool v = \<lparr>sr_kind = ''pool'', sr_value = v\<rparr>"

text \<open>A principal; \<open>labels\<close> is the list of its label pairs in key order.\<close>

record VirtualKey =
  vk_id :: string
  vk_generation_hash :: string
  vk_name :: string
  vk_allowed_scopes :: "ScopeRef list option"
  vk_enabled :: bool
  vk_created_at :: u64
  vk_group :: "string option"
  vk_labels :: "(string \<times> string) list"
  vk_expires_at :: "u64 option"
  vk_deleted_at :: "u64 option"
  vk_revision :: u64

definition scope_allowed :: "VirtualKey \<Rightarrow> string \<Rightarrow> string \<Rightarrow> bool" where
  "scope_allowed k kind v =
     (case vk_allowed_scopes k of
        None \<Rightarrow> True
      | Some ls \<Rightarrow> list_ex (\<lambda>s. sr_kind s = kind \<and> sr_value s = v) ls)"

definition key_is_live :: "VirtualKey \<Rightarrow> bool" where
  "key_is_live k \<longleftrightarrow> vk_deleted_at k = None"

section \<open>Configured groups\<close>

datatype LimitMetric = Requests | Tokens | Budget | Concurrent
datatype LimitWindow = Minute | Hour | Day | Month | Total

definition LimitWindow_ALL :: "LimitWindow list" where
  "LimitWindow_ALL = [Minute, Hour, Day, Month, Total]"

fun window_as_str :: "LimitWindow \<Rightarrow> string" where
  "window_as_str Minute = ''minute''"
| "window_as_str Hour = ''hour''"
| "window_as_str Day = ''day''"
| "window_as_str Month = ''month''"
| "window_as_str Total = ''total''"

fun metric_as_str :: "LimitMetric \<Rightarrow> string" where
  "metric_as_str Requests = ''requests''"
| "metric_as_str Tokens = ''tokens''"
| "metric_as_str Budget = ''budget''"
| "metric_as_str Concurrent = ''concurrent''"

record LimitCfg =
  lc_metric :: LimitMetric
  lc_amount :: u64
  lc_per :: "LimitWindow option"
  lc_scope :: "ScopeRef option"
  lc_downgrade_to :: "ScopeRef option"

record GroupCfg =
  gc_parent :: "string option"
  gc_enabled :: bool
  gc_limits :: "LimitCfg list"
  gc_child_default :: "LimitCfg list option"

section \<open>The resolved model\<close>

record RateNanos =
  rn_input :: u64
  rn_output :: u64
  rn_cache_read :: u64
  rn_cache_write :: u64

definition default_RateNanos :: RateNanos where
  "default_RateNanos = \<lparr>rn_input = 0, rn_output = 0, rn_cache_read = 0, rn_cache_write = 0\<rparr>"

record GroupBucket =
  gb_bucket_id :: string
  gb_window :: string
  gb_requests_cap :: "u64 option"
  gb_tokens_cap :: "u64 option"
  gb_budget_cap :: "i64 option"
  gb_scope :: "ScopeRef option"
  gb_downgrade_to :: "ScopeRef option"

record GroupRuntime =
  gr_name :: string
  gr_enabled :: bool
  gr_concurrent_cap :: "u64 option"
  gr_buckets :: "GroupBucket list"
  gr_parent :: "usize option"

record ChainBucket =
  cb_bucket_id :: string
  cb_group_name :: "string option"
  cb_window :: string
  cb_requests_cap :: "u64 option"
  cb_tokens_cap :: "u64 option"
  cb_budget_cap :: "i64 option"
  cb_scope :: "ScopeRef option"
  cb_downgrade_to :: "ScopeRef option"

definition applies_to_pool :: "ChainBucket \<Rightarrow> string \<Rightarrow> bool" where
  "applies_to_pool b pool = (case cb_scope b of None \<Rightarrow> True | Some s \<Rightarrow> sr_kind s = ''pool'' \<and> sr_value s = pool)"

record CostModel =
  cm_rates :: "(string \<rightharpoonup> RateNanos) option"
  cm_groups :: "GroupRuntime list"
  cm_group_idx :: "string \<rightharpoonup> usize"
  cm_capped_bucket_ids :: "string list"
  cm_price_per_request_cents :: i64

definition GROUP_BUCKET_PREFIX :: string where "GROUP_BUCKET_PREFIX = ''group:''"
definition NANOS_PER_CENT :: nat where "NANOS_PER_CENT = 10000000"
definition NANOS_PER_MICRO :: nat where "NANOS_PER_MICRO = 1000"

subsection \<open>Projecting the limits of a group\<close>

definition bucket_id_of :: "string \<Rightarrow> string \<Rightarrow> ScopeRef option \<Rightarrow> string" where
  "bucket_id_of name w scope =
     (case scope of
        Some s \<Rightarrow> GROUP_BUCKET_PREFIX @ name @ ''@'' @ w @ ''#'' @ sr_kind s @ '':'' @ sr_value s
      | None \<Rightarrow> GROUP_BUCKET_PREFIX @ name @ ''@'' @ w)"

definition new_bucket :: "string \<Rightarrow> string \<Rightarrow> ScopeRef option \<Rightarrow> GroupBucket" where
  "new_bucket name w scope =
     \<lparr>gb_bucket_id = bucket_id_of name w scope, gb_window = w, gb_requests_cap = None, gb_tokens_cap = None,
      gb_budget_cap = None, gb_scope = scope, gb_downgrade_to = None\<rparr>"

definition min_opt :: "'a :: linorder option \<Rightarrow> 'a \<Rightarrow> 'a" where
  "min_opt cur a = (case cur of None \<Rightarrow> a | Some c \<Rightarrow> min c a)"

definition i64_of_u64 :: "u64 \<Rightarrow> i64" where
  "i64_of_u64 n = (if int n \<le> i64_max then int n else i64_max)"

definition tighten :: "LimitCfg \<Rightarrow> GroupBucket \<Rightarrow> GroupBucket" where
  "tighten l b =
     (case lc_metric l of
        Requests \<Rightarrow> b\<lparr>gb_requests_cap := Some (min_opt (gb_requests_cap b) (lc_amount l))\<rparr>
      | Tokens \<Rightarrow> b\<lparr>gb_tokens_cap := Some (min_opt (gb_tokens_cap b) (lc_amount l))\<rparr>
      | Budget \<Rightarrow>
          (let amount = i64_of_u64 (lc_amount l);
               b1 = (if (case gb_budget_cap b of None \<Rightarrow> True | Some c \<Rightarrow> amount < c)
                     then b\<lparr>gb_downgrade_to := lc_downgrade_to l\<rparr> else b)
           in b1\<lparr>gb_budget_cap := Some (min_opt (gb_budget_cap b) amount)\<rparr>)
      | Concurrent \<Rightarrow> b)"

text \<open>The bucket of a window and scope is tightened in place, or appended when there is none yet.\<close>

fun upsert_bucket :: "string \<Rightarrow> string \<Rightarrow> LimitCfg \<Rightarrow> GroupBucket list \<Rightarrow> GroupBucket list" where
  "upsert_bucket name w l [] = [tighten l (new_bucket name w (lc_scope l))]"
| "upsert_bucket name w l (b # bs) =
     (if gb_window b = w \<and> gb_scope b = lc_scope l then tighten l b # bs else b # upsert_bucket name w l bs)"

definition project_limit ::
  "string \<Rightarrow> LimitCfg \<Rightarrow> GroupBucket list \<times> u64 option \<Rightarrow> GroupBucket list \<times> u64 option" where
  "project_limit name l acc =
     (case acc of (buckets, concurrent_cap) \<Rightarrow>
        (case lc_metric l of
           Concurrent \<Rightarrow> (buckets, Some (min_opt concurrent_cap (lc_amount l)))
         | _ \<Rightarrow> (case lc_per l of
                   Some window \<Rightarrow> (upsert_bucket name (window_as_str window) l buckets, concurrent_cap)
                 | None \<Rightarrow> (buckets, concurrent_cap))))"

definition project_limits :: "string \<Rightarrow> LimitCfg list \<Rightarrow> GroupBucket list \<times> u64 option" where
  "project_limits name ls = fold (project_limit name) ls ([], None)"

fun index_of :: "string \<Rightarrow> string list \<Rightarrow> usize option" where
  "index_of n [] = None"
| "index_of n (x # xs) = (if x = n then Some 0 else map_option Suc (index_of n xs))"

definition project_group :: "(string \<rightharpoonup> usize) \<Rightarrow> string \<Rightarrow> GroupCfg \<Rightarrow> GroupRuntime" where
  "project_group group_idx name g =
     (case project_limits name (gc_limits g) of (buckets, concurrent_cap) \<Rightarrow>
        \<lparr>gr_name = name, gr_enabled = gc_enabled g, gr_concurrent_cap = concurrent_cap, gr_buckets = buckets,
         gr_parent = Option.bind (gc_parent g) group_idx\<rparr>)"

definition project_groups :: "(string \<times> GroupCfg) list \<Rightarrow> GroupRuntime list \<times> (string \<rightharpoonup> usize)" where
  "project_groups groups_cfg =
     (let group_names = sort (map fst groups_cfg);
          group_idx = (\<lambda>n. index_of n group_names)
      in (map (\<lambda>name. project_group group_idx name (the (map_of groups_cfg name))) group_names, group_idx))"

definition has_windowed_cap :: "GroupBucket \<Rightarrow> bool" where
  "has_windowed_cap b \<longleftrightarrow> gb_requests_cap b \<noteq> None \<or> gb_tokens_cap b \<noteq> None \<or> gb_budget_cap b \<noteq> None"

definition capped_bucket_ids :: "GroupRuntime list \<Rightarrow> string list" where
  "capped_bucket_ids groups = map gb_bucket_id (filter has_windowed_cap (concat (map gr_buckets groups)))"

definition resolve_parts ::
  "(string \<times> RateNanos) list option \<Rightarrow> i64 \<Rightarrow> (string \<times> GroupCfg) list \<Rightarrow> CostModel" where
  "resolve_parts rate_card per_request_fee groups_cfg =
     (case project_groups groups_cfg of (groups, group_idx) \<Rightarrow>
        \<lparr>cm_rates = map_option map_of rate_card, cm_groups = groups, cm_group_idx = group_idx,
         cm_capped_bucket_ids = capped_bucket_ids groups,
         cm_price_per_request_cents = max per_request_fee 0\<rparr>)"

definition with_groups :: "CostModel \<Rightarrow> (string \<times> GroupCfg) list \<Rightarrow> CostModel" where
  "with_groups cm groups_cfg =
     (case project_groups groups_cfg of (groups, group_idx) \<Rightarrow>
        cm\<lparr>cm_groups := groups, cm_group_idx := group_idx, cm_capped_bucket_ids := capped_bucket_ids groups\<rparr>)"

definition bucket_enforces_a_cap :: "CostModel \<Rightarrow> string \<Rightarrow> bool" where
  "bucket_enforces_a_cap cm bucket_id \<longleftrightarrow> bucket_id \<in> set (cm_capped_bucket_ids cm)"

definition group_named :: "CostModel \<Rightarrow> string \<Rightarrow> GroupRuntime option" where
  "group_named cm name = map_option (\<lambda>i. cm_groups cm ! i) (cm_group_idx cm name)"

fun strip_prefix :: "string \<Rightarrow> string \<Rightarrow> string option" where
  "strip_prefix [] s = Some s"
| "strip_prefix (p # ps) [] = None"
| "strip_prefix (p # ps) (c # cs) = (if p = c then strip_prefix ps cs else None)"

definition is_bucket_of_group :: "string \<Rightarrow> string \<Rightarrow> bool" where
  "is_bucket_of_group bucket_id grp =
     (case Option.bind (Option.bind (strip_prefix GROUP_BUCKET_PREFIX bucket_id) (strip_prefix grp)) (strip_prefix ''@'') of
        None \<Rightarrow> False
      | Some tail \<Rightarrow>
          list_ex (\<lambda>w. window_as_str w = takeWhile (\<lambda>c. c \<noteq> CHR ''#'') tail) LimitWindow_ALL)"

section \<open>Spend\<close>

definition wrap_u128 :: "nat \<Rightarrow> nat" where
  "wrap_u128 n = n mod 340282366920938463463374607431768211456"

definition u128_max :: nat where
  "u128_max = 340282366920938463463374607431768211455"

text \<open>The sums are \<open>u128\<close> and wrap in the release build.\<close>

definition cost_nanos :: "RateNanos \<Rightarrow> TierTokens \<Rightarrow> nat" where
  "cost_nanos r t =
     wrap_u128 (wrap_u128 (wrap_u128 (tt_input t * rn_input r + tt_output t * rn_output r)
       + tt_cache_read t * rn_cache_read r) + tt_cache_write t * rn_cache_write r)"

definition rate_for :: "CostModel \<Rightarrow> string \<Rightarrow> RateNanos option" where
  "rate_for cm model = (case cm_rates cm of None \<Rightarrow> Some default_RateNanos | Some table \<Rightarrow> table model)"

definition model_unpriced :: "CostModel \<Rightarrow> string \<Rightarrow> bool" where
  "model_unpriced cm model = (case cm_rates cm of None \<Rightarrow> False | Some table \<Rightarrow> table model = None)"

definition add_model_nanos :: "CostModel \<Rightarrow> string \<times> TierTokens \<Rightarrow> nat \<Rightarrow> nat" where
  "add_model_nanos cm mt nanos =
     (case rate_for cm (fst mt) of Some rate \<Rightarrow> min (nanos + cost_nanos rate (snd mt)) u128_max | None \<Rightarrow> nanos)"

definition ledger_nanos :: "CostModel \<Rightarrow> (string \<times> TierTokens) list \<Rightarrow> nat" where
  "ledger_nanos cm models = fold (add_model_nanos cm) models 0"

definition saturating_add_i64 :: "i64 \<Rightarrow> i64 \<Rightarrow> i64" where
  [arith_defs]: "saturating_add_i64 a b = max i64_min (min (a + b) i64_max)"

definition saturating_sub_i64 :: "i64 \<Rightarrow> i64 \<Rightarrow> i64" where
  [arith_defs]: "saturating_sub_i64 a b = max i64_min (min (a - b) i64_max)"

definition saturating_mul_i64 :: "i64 \<Rightarrow> i64 \<Rightarrow> i64" where
  [arith_defs]: "saturating_mul_i64 a b = max i64_min (min (a * b) i64_max)"

definition derive_spend_cents :: "CostModel \<Rightarrow> (string \<times> TierTokens) list \<Rightarrow> u64 \<Rightarrow> bool \<Rightarrow> i64" where
  "derive_spend_cents cm models fee_requests include_request_fee =
     (let nanos = ledger_nanos cm models;
          cents = i64_of_u64 (nanos div NANOS_PER_CENT);
          cents1 = (if include_request_fee
                    then saturating_add_i64 cents
                           (saturating_mul_i64 (cm_price_per_request_cents cm) (i64_of_u64 fee_requests))
                    else cents)
      in max cents1 0)"

definition derive_spend_micros :: "CostModel \<Rightarrow> (string \<times> TierTokens) list \<Rightarrow> u64 \<Rightarrow> bool \<Rightarrow> i64" where
  "derive_spend_micros cm models fee_requests include_request_fee =
     (let nanos = ledger_nanos cm models;
          micros = i64_of_u64 (nanos div NANOS_PER_MICRO)
      in if include_request_fee
         then saturating_add_i64 micros
                (saturating_mul_i64 (saturating_mul_i64 (cm_price_per_request_cents cm) 10000) (i64_of_u64 fee_requests))
         else micros)"

section \<open>The enforcement chain\<close>

text \<open>
  The walk up the parents, clamped to as many groups as there are: the first argument is what is
  left of the clamp.
\<close>

fun walk_groups :: "nat \<Rightarrow> GroupRuntime list \<Rightarrow> usize option \<Rightarrow> usize list" where
  "walk_groups 0 groups cursor = []"
| "walk_groups (Suc n) groups None = []"
| "walk_groups (Suc n) groups (Some i) = i # walk_groups n groups (gr_parent (groups ! i))"

definition key_bucket :: "string \<Rightarrow> ChainBucket" where
  "key_bucket key_id =
     \<lparr>cb_bucket_id = key_id, cb_group_name = None, cb_window = WINDOW_TOTAL, cb_requests_cap = None,
      cb_tokens_cap = None, cb_budget_cap = None, cb_scope = None, cb_downgrade_to = None\<rparr>"

definition chain_bucket :: "GroupRuntime \<Rightarrow> GroupBucket \<Rightarrow> ChainBucket" where
  "chain_bucket g b =
     \<lparr>cb_bucket_id = gb_bucket_id b, cb_group_name = Some (gr_name g), cb_window = gb_window b,
      cb_requests_cap = gb_requests_cap b, cb_tokens_cap = gb_tokens_cap b, cb_budget_cap = gb_budget_cap b,
      cb_scope = gb_scope b, cb_downgrade_to = gb_downgrade_to b\<rparr>"

record Chain =
  ch_buckets :: "ChainBucket list"
  ch_groups :: "usize list"

text \<open>The left result is the name of a group that does not exist.\<close>

definition chain_for :: "CostModel \<Rightarrow> VirtualKey \<Rightarrow> string + Chain" where
  "chain_for cm key =
     (let walk = (\<lambda>start. let groups = walk_groups (length (cm_groups cm)) (cm_groups cm) start in
            Inr \<lparr>ch_buckets = key_bucket (vk_id key) #
                   concat (map (\<lambda>i. map (chain_bucket (cm_groups cm ! i)) (gr_buckets (cm_groups cm ! i))) groups),
                 ch_groups = groups\<rparr>)
      in case vk_group key of
           None \<Rightarrow> walk None
         | Some name \<Rightarrow> (case cm_group_idx cm name of Some i \<Rightarrow> walk (Some i) | None \<Rightarrow> Inl name))"


section \<open>Validation of the groups\<close>

datatype GroupError = UnknownPool string string | UnknownDowngrade string string
  | MissingParent string string | CyclicChain string string

definition scope_errors :: "string \<Rightarrow> (string \<Rightarrow> bool) \<Rightarrow> LimitCfg \<Rightarrow> GroupError list" where
  "scope_errors name pool_exists l =
     (case lc_scope l of None \<Rightarrow> []
      | Some s \<Rightarrow> (if pool_exists (sr_value s) then [] else [UnknownPool name (sr_value s)]))
   @ (case lc_downgrade_to l of None \<Rightarrow> []
      | Some s \<Rightarrow> (if pool_exists (sr_value s) then [] else [UnknownDowngrade name (sr_value s)]))"

definition next_group :: "(string \<times> GroupCfg) list \<Rightarrow> string \<Rightarrow> string option" where
  "next_group groups n = Option.bind (map_of groups n) gc_parent"

text \<open>The walk from one group: the group visited twice, if there is one.\<close>

function cycle_walk :: "(string \<times> GroupCfg) list \<Rightarrow> string option \<Rightarrow> string list \<Rightarrow> string option" where
  "cycle_walk groups cursor path =
     (case cursor of
        None \<Rightarrow> None
      | Some cur \<Rightarrow> (if cur \<in> set path then Some cur else cycle_walk groups (next_group groups cur) (path @ [cur])))"
  by pat_completeness auto

termination
proof (relation "measure (\<lambda>(groups, cursor, path). 2 * card (fst ` set groups - set path) + (if cursor = None then 0 else 1))")
  fix groups :: "(string \<times> GroupCfg) list" and cursor and path :: "string list" and cur :: string
  assume cur: "cursor = Some cur" "cur \<notin> set path"
  show "((groups, next_group groups cur, path @ [cur]), groups, cursor, path)
      \<in> measure (\<lambda>(groups, cursor, path). 2 * card (fst ` set groups - set path) + (if cursor = None then 0 else 1))"
  proof (cases "cur \<in> fst ` set groups")
    case True
    then have "card (fst ` set groups - set (path @ [cur])) < card (fst ` set groups - set path)"
      using cur by (intro psubset_card_mono) auto
    then show ?thesis using cur by simp
  next
    case False
    then have "map_of groups cur = None" by (simp add: map_of_eq_None_iff)
    then have "next_group groups cur = None" by (simp add: next_group_def)
    moreover have "fst ` set groups - set (path @ [cur]) = fst ` set groups - set path" using False by auto
    ultimately show ?thesis using cur by simp
  qed
qed simp

declare cycle_walk.simps [simp del]

lemma cycle_walk_step:
  "cycle_walk groups None path = None"
  "cycle_walk groups (Some cur) path =
     (if cur \<in> set path then Some cur else cycle_walk groups (next_group groups cur) (path @ [cur]))"
  by (subst cycle_walk.simps, simp)+

definition group_errors :: "(string \<times> GroupCfg) list \<Rightarrow> (string \<Rightarrow> bool) \<Rightarrow> string \<times> GroupCfg \<Rightarrow> GroupError list" where
  "group_errors groups pool_exists ng =
     (case ng of (name, g) \<Rightarrow>
        concat (map (scope_errors name pool_exists)
          (gc_limits g @ (case gc_child_default g of None \<Rightarrow> [] | Some ls \<Rightarrow> ls)))
      @ (case gc_parent g of
           Some parent \<Rightarrow>
             (if map_of groups parent = None then [MissingParent name parent]
              else (case cycle_walk groups (Some parent) [name] of None \<Rightarrow> [] | Some cur \<Rightarrow> [CyclicChain name cur]))
         | None \<Rightarrow> []))"

definition validate_groups :: "(string \<times> GroupCfg) list \<Rightarrow> (string \<Rightarrow> bool) \<Rightarrow> GroupError list" where
  "validate_groups groups pool_exists = concat (map (group_errors groups pool_exists) groups)"

text \<open>The template of the nearest ancestor, and the leaf built from it.\<close>

fun child_default_walk :: "nat \<Rightarrow> (string \<times> GroupCfg) list \<Rightarrow> string option \<Rightarrow> LimitCfg list option" where
  "child_default_walk 0 groups cursor = None"
| "child_default_walk (Suc n) groups None = None"
| "child_default_walk (Suc n) groups (Some name) =
     (case map_of groups name of
        None \<Rightarrow> None
      | Some g \<Rightarrow> (case gc_child_default g of
                    Some cd \<Rightarrow> Some cd
                  | None \<Rightarrow> child_default_walk n groups (gc_parent g)))"

definition resolve_child_default :: "(string \<times> GroupCfg) list \<Rightarrow> string \<Rightarrow> LimitCfg list option" where
  "resolve_child_default groups parent = child_default_walk (length groups + 1) groups (Some parent)"

definition provision_child :: "(string \<times> GroupCfg) list \<Rightarrow> string \<Rightarrow> GroupCfg" where
  "provision_child groups parent =
     \<lparr>gc_parent = Some parent, gc_enabled = True,
      gc_limits = (case resolve_child_default groups parent of Some ls \<Rightarrow> ls | None \<Rightarrow> []),
      gc_child_default = None\<rparr>"

section \<open>Group indices\<close>

lemma index_of_SomeD: "index_of n xs = Some i \<Longrightarrow> i < length xs \<and> xs ! i = n"
  by (induction xs arbitrary: i) (auto split: if_splits)

lemma index_of_None: "index_of n xs = None \<longleftrightarrow> n \<notin> set xs"
  by (induction xs) auto

lemma project_group_simps [simp]:
  "gr_name (project_group idx name g) = name"
  "gr_enabled (project_group idx name g) = gc_enabled g"
  "gr_parent (project_group idx name g) = Option.bind (gc_parent g) idx"
  "gr_buckets (project_group idx name g) = fst (project_limits name (gc_limits g))"
  "gr_concurrent_cap (project_group idx name g) = snd (project_limits name (gc_limits g))"
  by (simp_all add: project_group_def split: prod.splits)

lemma project_groups_facts:
  fixes cfg :: "(string \<times> GroupCfg) list"
  assumes "project_groups cfg = (groups, idx)"
  shows "length groups = length cfg"
    and "idx n = None \<longleftrightarrow> n \<notin> fst ` set cfg"
    and "idx n = Some i \<Longrightarrow> i < length groups \<and> groups ! i = project_group idx n (the (map_of cfg n))"
    and "map gr_name groups = sort (map fst cfg)"
proof -
  let ?names = "sort (map fst cfg)"
  have idx: "idx = (\<lambda>n. index_of n ?names)"
    and groups: "groups = map (\<lambda>name. project_group idx name (the (map_of cfg name))) ?names"
    using assms by (auto simp: project_groups_def Let_def)
  show "length groups = length cfg" by (simp add: groups)
  show "idx n = None \<longleftrightarrow> n \<notin> fst ` set cfg" by (simp add: idx index_of_None)
  show "idx n = Some i \<Longrightarrow> i < length groups \<and> groups ! i = project_group idx n (the (map_of cfg n))"
    using index_of_SomeD [of n ?names i] by (auto simp: idx groups simp del: sort_key_const)
  show "map gr_name groups = sort (map fst cfg)"
    by (simp add: groups comp_def)
qed

section \<open>The chain of a validated configuration is complete\<close>

text \<open>The names from a group up to a group without parent.\<close>

fun parent_path :: "(string \<times> GroupCfg) list \<Rightarrow> string option \<Rightarrow> string list \<Rightarrow> bool" where
  "parent_path groups cursor [] \<longleftrightarrow> cursor = None"
| "parent_path groups cursor (n # ns) \<longleftrightarrow>
     cursor = Some n \<and> n \<in> fst ` set groups \<and> parent_path groups (next_group groups n) ns"

definition parents_exist :: "(string \<times> GroupCfg) list \<Rightarrow> bool" where
  "parents_exist groups \<longleftrightarrow>
     (\<forall>(name, g) \<in> set groups. case gc_parent g of None \<Rightarrow> True | Some p \<Rightarrow> p \<in> fst ` set groups)"

lemma next_group_exists:
  "parents_exist groups \<Longrightarrow> next_group groups n = Some p \<Longrightarrow> p \<in> fst ` set groups"
  by (fastforce simp: parents_exist_def next_group_def bind_eq_Some_conv dest: map_of_SomeD)

lemma cycle_walk_path:
  assumes "parents_exist groups" and "cycle_walk groups cursor path = None" and "distinct path"
    and "\<And>n. cursor = Some n \<Longrightarrow> n \<in> fst ` set groups"
  shows "\<exists>ns. parent_path groups cursor ns \<and> distinct (path @ ns)"
  using assms
proof (induction groups cursor path rule: cycle_walk.induct)
  case (1 groups cursor path)
  show ?case
  proof (cases cursor)
    case None
    then show ?thesis using 1 by (intro exI [of _ "[]"]) simp
  next
    case (Some cur)
    then have "cur \<notin> set path \<and> cycle_walk groups (next_group groups cur) (path @ [cur]) = None"
      using "1.prems"(2) by (simp add: cycle_walk_step split: if_splits)
    then have fresh: "cur \<notin> set path" and rest: "cycle_walk groups (next_group groups cur) (path @ [cur]) = None"
      by simp_all
    have "\<exists>ns. parent_path groups (next_group groups cur) ns \<and> distinct ((path @ [cur]) @ ns)"
      using "1.IH" [OF Some fresh "1.prems"(1) rest] "1.prems" fresh next_group_exists by simp
    then obtain ns where "parent_path groups (next_group groups cur) ns" "distinct (path @ cur # ns)" by auto
    then show ?thesis using Some "1.prems"(4) by (intro exI [of _ "cur # ns"]) simp
  qed
qed

lemma parent_path_known: "parent_path groups cursor ns \<Longrightarrow> set ns \<subseteq> fst ` set groups"
  by (induction groups cursor ns rule: parent_path.induct) auto

lemma validated_parent_path:
  assumes "validate_groups groups pool_exists = []" and "distinct (map fst groups)" and "n \<in> fst ` set groups"
  shows "\<exists>ns. parent_path groups (Some n) ns \<and> distinct ns"
proof -
  have none: "group_errors groups pool_exists ng = []" if "ng \<in> set groups" for ng
    using assms(1) that by (simp add: validate_groups_def)
  have parent: "p \<in> fst ` set groups \<and> cycle_walk groups (Some p) [name] = None"
    if "(name, g) \<in> set groups" "gc_parent g = Some p" for name g p
    using none [OF that(1)] that(2) by (auto simp: group_errors_def map_of_eq_None_iff split: if_splits option.splits)
  have exist: "parents_exist groups"
    using parent by (fastforce simp: parents_exist_def split: option.splits)
  obtain g where g: "(n, g) \<in> set groups" using assms(3) by auto
  then have look: "map_of groups n = Some g" using assms(2) by simp
  have "\<exists>ns. parent_path groups (next_group groups n) ns \<and> distinct ([n] @ ns)"
  proof (cases "gc_parent g")
    case None
    then show ?thesis by (intro exI [of _ "[]"]) (simp add: next_group_def look)
  next
    case (Some p)
    then have "next_group groups n = Some p" by (simp add: next_group_def look)
    then show ?thesis
      using cycle_walk_path [OF exist, of "Some p" "[n]"] parent [OF g Some] by simp
  qed
  then obtain ns where "parent_path groups (next_group groups n) ns" "distinct (n # ns)" by auto
  then show ?thesis using assms(3) by (intro exI [of _ "n # ns"]) simp
qed

text \<open>The walk over indices visits the groups of the path over names.\<close>

lemma walk_groups_path:
  assumes proj: "project_groups cfg = (groups, idx)"
    and "parent_path cfg cursor ns" and "length ns \<le> k"
    and "case cursor of None \<Rightarrow> start = None | Some n \<Rightarrow> start = idx n"
  shows "map (\<lambda>i. gr_name (groups ! i)) (walk_groups k groups start) = ns
       \<and> (\<forall>i \<in> set (walk_groups k groups start). i < length groups)"
  using assms(2-)
proof (induction ns arbitrary: cursor start k)
  case Nil
  then show ?case by (cases k) simp_all
next
  case (Cons n ns)
  note facts = project_groups_facts [OF proj]
  from Cons.prems have cursor: "cursor = Some n" "n \<in> fst ` set cfg" "parent_path cfg (next_group cfg n) ns"
    by simp_all
  then obtain i where i: "idx n = Some i" using facts(2) [of n] by auto
  note at_i = facts(3) [OF i]
  obtain m where k: "k = Suc m" "length ns \<le> m" using Cons.prems(2) by (cases k) simp_all
  obtain g where g: "map_of cfg n = Some g"
    using cursor(2) by (metis map_of_eq_None_iff option.exhaust)
  have parent: "gr_parent (groups ! i) = Option.bind (gc_parent g) idx"
    using at_i by (simp add: g)
  have "case next_group cfg n of None \<Rightarrow> gr_parent (groups ! i) = None | Some p \<Rightarrow> gr_parent (groups ! i) = idx p"
    by (simp add: parent next_group_def g split: option.splits)
  from Cons.IH [OF cursor(3) k(2) this] show ?case
    using cursor(1) Cons.prems(3) at_i by (simp add: k(1) i)
qed

lemma chain_of_validated:
  assumes valid: "validate_groups cfg pool_exists = []" and keys: "distinct (map fst cfg)"
    and grp: "g \<in> fst ` set cfg" and cm_def: "cm = resolve_parts rates fee cfg"
    and key: "vk_group key = Some g"
  obtains ns c where "chain_for cm key = Inr c" and "parent_path cfg (Some g) ns" and "distinct ns"
    and "map (\<lambda>i. gr_name (cm_groups cm ! i)) (ch_groups c) = ns"
    and "\<forall>i \<in> set (ch_groups c). i < length (cm_groups cm)"
    and "ch_buckets c = key_bucket (vk_id key) #
           concat (map (\<lambda>i. map (chain_bucket (cm_groups cm ! i)) (gr_buckets (cm_groups cm ! i))) (ch_groups c))"
proof -
  obtain groups idx where proj: "project_groups cfg = (groups, idx)" by fastforce
  note facts = project_groups_facts [OF proj]
  obtain ns where ns: "parent_path cfg (Some g) ns" "distinct ns"
    using validated_parent_path [OF valid keys grp] by blast
  have "card (set ns) \<le> card (fst ` set cfg)"
    using parent_path_known [OF ns(1)] by (intro card_mono) simp_all
  then have short: "length ns \<le> length groups"
    using ns(2) keys by (simp add: distinct_card facts(1) flip: set_map)
  obtain i where i: "idx g = Some i" using grp facts(2) [of g] by auto
  have cm: "cm_groups cm = groups" "cm_group_idx cm = idx"
    by (simp_all add: cm_def resolve_parts_def proj)
  define c where "c = \<lparr>ch_buckets = key_bucket (vk_id key) #
      concat (map (\<lambda>i. map (chain_bucket (groups ! i)) (gr_buckets (groups ! i))) (walk_groups (length groups) groups (Some i))),
      ch_groups = walk_groups (length groups) groups (Some i)\<rparr>"
  have "chain_for cm key = Inr c"
    by (simp add: chain_for_def cm i c_def key Let_def)
  then show ?thesis
    using walk_groups_path [OF proj ns(1) short, of "Some i"] i ns
    by (intro that [of c ns]) (simp_all add: c_def cm)
qed

text \<open>
  No ancestor's limits are skipped. With a configuration the validator accepts, the chain of
  a key bound to a group names that group, its parent and so on up to a group without parent,
  each once, and its buckets are the key's own followed by all buckets of all these groups.
\<close>

lemma chain_is_complete:
  assumes "validate_groups cfg pool_exists = []" and "distinct (map fst cfg)" and "g \<in> fst ` set cfg"
    and "cm = resolve_parts rates fee cfg" and "vk_group key = Some g"
  shows "\<exists>ns c. chain_for cm key = Inr c \<and> parent_path cfg (Some g) ns \<and> distinct ns
     \<and> map (\<lambda>i. gr_name (cm_groups cm ! i)) (ch_groups c) = ns
     \<and> (\<forall>i \<in> set (ch_groups c). i < length (cm_groups cm))
     \<and> ch_buckets c = key_bucket (vk_id key) #
           concat (map (\<lambda>i. map (chain_bucket (cm_groups cm ! i)) (gr_buckets (cm_groups cm ! i))) (ch_groups c))"
  by (rule chain_of_validated [OF assms]) blast

definition example_groups :: "(string \<times> GroupCfg) list" where
  "example_groups =
     [(''org'', \<lparr>gc_parent = None, gc_enabled = True,
         gc_limits = [\<lparr>lc_metric = Budget, lc_amount = 1000, lc_per = Some Month, lc_scope = None, lc_downgrade_to = None\<rparr>],
         gc_child_default = None\<rparr>),
      (''team'', \<lparr>gc_parent = Some ''org'', gc_enabled = True,
         gc_limits = [\<lparr>lc_metric = Requests, lc_amount = 5, lc_per = Some Minute, lc_scope = None, lc_downgrade_to = None\<rparr>,
                      \<lparr>lc_metric = Concurrent, lc_amount = 2, lc_per = None, lc_scope = None, lc_downgrade_to = None\<rparr>],
         gc_child_default = None\<rparr>)]"

lemma example_groups_valid:
  "validate_groups example_groups (\<lambda>_. True) = []" "distinct (map fst example_groups)"
  by (simp_all add: example_groups_def validate_groups_def group_errors_def scope_errors_def cycle_walk_step next_group_def)

definition example_key :: "string \<Rightarrow> VirtualKey" where
  "example_key grp =
     \<lparr>vk_id = ''vk_1'', vk_generation_hash = ''binding:vk_1:g0'', vk_name = ''t'', vk_allowed_scopes = None, vk_enabled = True,
      vk_created_at = 0, vk_group = Some grp, vk_labels = [], vk_expires_at = None, vk_deleted_at = None, vk_revision = 1\<rparr>"

section \<open>When a bucket id identifies its bucket\<close>

text \<open>A pool scope whose name has no \<open>@\<close> in it.\<close>

definition plain_scope :: "ScopeRef option \<Rightarrow> bool" where
  "plain_scope s = (case s of None \<Rightarrow> True | Some s \<Rightarrow> sr_kind s = ''pool'' \<and> CHR ''@'' \<notin> set (sr_value s))"

definition scope_suffix :: "ScopeRef option \<Rightarrow> string" where
  "scope_suffix s = (case s of None \<Rightarrow> [] | Some s \<Rightarrow> ''#'' @ sr_kind s @ '':'' @ sr_value s)"

lemma bucket_id_parts: "bucket_id_of n w s = GROUP_BUCKET_PREFIX @ n @ ''@'' @ w @ scope_suffix s"
  by (simp add: bucket_id_of_def scope_suffix_def split: option.splits)

lemma window_word_chars: "CHR ''@'' \<notin> set (window_as_str w)" "CHR ''#'' \<notin> set (window_as_str w)"
  by (cases w; simp)+

lemma plain_suffix: "plain_scope s \<Longrightarrow> CHR ''@'' \<notin> set (scope_suffix s)"
  by (simp add: plain_scope_def scope_suffix_def split: option.splits)

lemma split_at_last:
  assumes "c \<notin> set ys" and "c \<notin> set ys'"
  shows "xs @ c # ys = xs' @ c # ys' \<longleftrightarrow> xs = xs' \<and> ys = ys'"
  using assms by (auto simp: append_eq_append_conv2 append_eq_Cons_conv Cons_eq_append_conv)

lemma window_of_tail: "takeWhile (\<lambda>c. c \<noteq> CHR ''#'') (window_as_str w @ scope_suffix s) = window_as_str w"
proof -
  have "takeWhile (\<lambda>c. c \<noteq> CHR ''#'') (window_as_str w @ scope_suffix s)
      = window_as_str w @ takeWhile (\<lambda>c. c \<noteq> CHR ''#'') (scope_suffix s)"
    using window_word_chars(2) [of w] by (intro takeWhile_append2) auto
  also have "takeWhile (\<lambda>c. c \<noteq> CHR ''#'') (scope_suffix s) = []"
    by (simp add: scope_suffix_def split: option.splits)
  finally show ?thesis by simp
qed

lemma scope_suffix_inject: "plain_scope s \<Longrightarrow> plain_scope s' \<Longrightarrow> scope_suffix s = scope_suffix s' \<longleftrightarrow> s = s'"
  by (auto simp: plain_scope_def scope_suffix_def split: option.splits)

lemma bucket_id_inject:
  assumes "plain_scope s" and "plain_scope s'"
  shows "bucket_id_of n (window_as_str w) s = bucket_id_of n' (window_as_str w') s'
     \<longleftrightarrow> n = n' \<and> window_as_str w = window_as_str w' \<and> s = s'"
proof -
  have clean: "CHR ''@'' \<notin> set (window_as_str w @ scope_suffix s)" "CHR ''@'' \<notin> set (window_as_str w' @ scope_suffix s')"
    using assms by (simp_all add: window_word_chars plain_suffix)
  have "bucket_id_of n (window_as_str w) s = bucket_id_of n' (window_as_str w') s'
     \<longleftrightarrow> n = n' \<and> window_as_str w @ scope_suffix s = window_as_str w' @ scope_suffix s'"
    using split_at_last [OF clean, of n n'] by (simp add: bucket_id_parts)
  also have "\<dots> \<longleftrightarrow> n = n' \<and> window_as_str w = window_as_str w' \<and> s = s'"
    using window_of_tail [of w s] window_of_tail [of w' s'] scope_suffix_inject [OF assms]
    by (metis append_same_eq same_append_eq)
  finally show ?thesis .
qed

lemma strip_prefix_eq: "strip_prefix p s = Some r \<longleftrightarrow> s = p @ r"
  by (induction p s rule: strip_prefix.induct) auto

lemma strip_prefix_bind:
  "Option.bind (strip_prefix p s) f = Some r \<longleftrightarrow> (\<exists>t. s = p @ t \<and> f t = Some r)"
  by (simp add: bind_eq_Some_conv strip_prefix_eq)

lemma any_window: "list_ex P LimitWindow_ALL \<longleftrightarrow> (\<exists>w. P w)"
proof -
  have "set LimitWindow_ALL = UNIV" by (auto simp: LimitWindow_ALL_def intro: LimitWindow.exhaust)
  then show ?thesis by (simp add: list_ex_iff)
qed

lemma is_bucket_of_group_eq:
  "is_bucket_of_group b g \<longleftrightarrow>
     (\<exists>tail w. b = GROUP_BUCKET_PREFIX @ g @ ''@'' @ tail
        \<and> window_as_str w = takeWhile (\<lambda>c. c \<noteq> CHR ''#'') tail)"
proof -
  let ?o = "Option.bind (Option.bind (strip_prefix GROUP_BUCKET_PREFIX b) (strip_prefix g)) (strip_prefix ''@'')"
  have tail: "?o = Some tail \<longleftrightarrow> b = GROUP_BUCKET_PREFIX @ g @ ''@'' @ tail" for tail
    unfolding strip_prefix_bind by (simp add: strip_prefix_bind strip_prefix_eq bind_eq_Some_conv)
  show ?thesis
  proof (cases ?o)
    case None
    then have "\<nexists>tail. b = GROUP_BUCKET_PREFIX @ g @ ''@'' @ tail" using tail by fastforce
    then show ?thesis using None by (simp add: is_bucket_of_group_def)
  next
    case (Some t)
    then have "b = GROUP_BUCKET_PREFIX @ g @ ''@'' @ t" using tail by blast
    then show ?thesis unfolding is_bucket_of_group_def Some by (simp add: any_window)
  qed
qed

text \<open>The buckets of a projected group.\<close>

definition bucket_key :: "GroupBucket \<Rightarrow> string \<times> ScopeRef option" where
  "bucket_key b = (gb_window b, gb_scope b)"

definition bucket_ok :: "string \<Rightarrow> LimitCfg set \<Rightarrow> GroupBucket \<Rightarrow> bool" where
  "bucket_ok name ls b \<longleftrightarrow> gb_window b \<in> range window_as_str \<and> gb_scope b \<in> lc_scope ` ls
     \<and> gb_bucket_id b = bucket_id_of name (gb_window b) (gb_scope b)"

definition buckets_ok :: "string \<Rightarrow> LimitCfg set \<Rightarrow> GroupBucket list \<Rightarrow> bool" where
  "buckets_ok name ls bs \<longleftrightarrow> distinct (map bucket_key bs) \<and> (\<forall>b \<in> set bs. bucket_ok name ls b)"

lemma tighten_keeps [simp]:
  "gb_window (tighten l b) = gb_window b" "gb_scope (tighten l b) = gb_scope b" "gb_bucket_id (tighten l b) = gb_bucket_id b"
  "bucket_key (tighten l b) = bucket_key b" "bucket_ok name ls (tighten l b) = bucket_ok name ls b"
  by (simp_all add: tighten_def Let_def bucket_key_def bucket_ok_def split: LimitMetric.splits)

lemma upsert_bucket_keys:
  "bucket_key ` set (upsert_bucket name w l bs) = insert (w, lc_scope l) (bucket_key ` set bs)"
proof (induction bs)
  case Nil
  then show ?case by (simp add: bucket_key_def new_bucket_def)
next
  case (Cons b bs)
  show ?case
  proof (cases "gb_window b = w \<and> gb_scope b = lc_scope l")
    case True
    then have "bucket_key b = (w, lc_scope l)" by (simp add: bucket_key_def)
    then show ?thesis using True by simp
  next
    case False
    then have "upsert_bucket name w l (b # bs) = b # upsert_bucket name w l bs" by auto
    then show ?thesis using Cons by (simp add: insert_commute)
  qed
qed

lemma upsert_bucket_ok:
  assumes "buckets_ok name ls bs" and "l \<in> ls"
  shows "buckets_ok name ls (upsert_bucket name (window_as_str w) l bs)"
  using assms(1)
proof (induction bs)
  case Nil
  then show ?case
    using assms(2) by (simp add: buckets_ok_def bucket_ok_def new_bucket_def)
next
  case (Cons b bs)
  show ?case
  proof (cases "gb_window b = window_as_str w \<and> gb_scope b = lc_scope l")
    case True
    then show ?thesis using Cons.prems by (simp add: buckets_ok_def)
  next
    case False
    then have "bucket_key b \<noteq> (window_as_str w, lc_scope l)" by (simp add: bucket_key_def)
    then show ?thesis
      using False Cons by (simp add: buckets_ok_def upsert_bucket_keys)
  qed
qed

lemma project_limit_ok:
  assumes "buckets_ok name ls (fst acc)" and "l \<in> ls"
  shows "buckets_ok name ls (fst (project_limit name l acc))"
proof -
  obtain bs cc where acc: "acc = (bs, cc)" by fastforce
  have "fst (project_limit name l acc) = bs
      \<or> (\<exists>w. fst (project_limit name l acc) = upsert_bucket name (window_as_str w) l bs)"
    by (cases "lc_metric l"; cases "lc_per l") (auto simp: project_limit_def acc)
  then show ?thesis using assms upsert_bucket_ok by (auto simp: acc)
qed

lemma project_limits_ok: "buckets_ok name (set ls) (fst (project_limits name ls))"
proof -
  have "buckets_ok name (set ls) (fst (fold (project_limit name) ls' acc))"
    if "set ls' \<subseteq> set ls" "buckets_ok name (set ls) (fst acc)" for ls' acc
    using that by (induction ls' arbitrary: acc) (simp_all add: project_limit_ok)
  from this [of ls "([], None)"] show ?thesis by (simp add: project_limits_def buckets_ok_def)
qed


definition all_buckets :: "GroupRuntime list \<Rightarrow> GroupBucket list" where
  "all_buckets groups = concat (map gr_buckets groups)"

definition plain_groups :: "(string \<times> GroupCfg) list \<Rightarrow> bool" where
  "plain_groups cfg \<longleftrightarrow> (\<forall>(n, g) \<in> set cfg. \<forall>l \<in> set (gc_limits g). plain_scope (lc_scope l))"

lemma buckets_ok_plain:
  assumes "buckets_ok name ls bs" and "\<forall>l \<in> ls. plain_scope (lc_scope l)"
  shows "distinct (map gb_bucket_id bs)"
    and "b \<in> set bs \<Longrightarrow> \<exists>w s. plain_scope s \<and> gb_bucket_id b = bucket_id_of name (window_as_str w) s"
proof -
  have b: "\<exists>w. plain_scope (gb_scope b) \<and> gb_window b = window_as_str w \<and> gb_bucket_id b = bucket_id_of name (window_as_str w) (gb_scope b)"
    if "b \<in> set bs" for b
    using assms that by (fastforce simp: buckets_ok_def bucket_ok_def)
  have "inj_on gb_bucket_id (set bs)"
  proof (rule inj_onI)
    fix x y assume x: "x \<in> set bs" and y: "y \<in> set bs" and "gb_bucket_id x = gb_bucket_id y"
    then have "bucket_key x = bucket_key y"
      using b [OF x] b [OF y] by (auto simp: bucket_id_inject bucket_key_def)
    then show "x = y"
      using assms(1) x y by (auto simp: buckets_ok_def distinct_map dest: inj_onD)
  qed
  then show "distinct (map gb_bucket_id bs)"
    using assms(1) by (simp add: buckets_ok_def distinct_map)
  show "b \<in> set bs \<Longrightarrow> \<exists>w s. plain_scope s \<and> gb_bucket_id b = bucket_id_of name (window_as_str w) s"
    using b by blast
qed

lemma project_groups_buckets:
  assumes "project_groups cfg = (groups, idx)" and "distinct (map fst cfg)" and "g \<in> set groups"
  obtains c where "(gr_name g, c) \<in> set cfg" and "buckets_ok (gr_name g) (set (gc_limits c)) (gr_buckets g)"
proof -
  have "groups = map (\<lambda>n. project_group idx n (the (map_of cfg n))) (sort (map fst cfg))"
    using assms(1) by (auto simp: project_groups_def Let_def)
  then have "g \<in> (\<lambda>n. project_group idx n (the (map_of cfg n))) ` set (map fst cfg)"
    using assms(3) by (simp only: set_map set_sort)
  then obtain n where n: "n \<in> set (map fst cfg)" "g = project_group idx n (the (map_of cfg n))"
    by (rule imageE)
  then obtain c where c: "(n, c) \<in> set cfg" by fastforce
  then have "map_of cfg n = Some c" using assms(2) by simp
  then show ?thesis using that [of c] c n(2) project_limits_ok [of n "gc_limits c"] by simp
qed

lemma bucket_ids_distinct:
  assumes proj: "project_groups cfg = (groups, idx)" and keys: "distinct (map fst cfg)" and plain: "plain_groups cfg"
  shows "distinct (map gb_bucket_id (all_buckets groups))"
proof -
  have names: "distinct (map gr_name groups)"
    using project_groups_facts(4) [OF proj] keys by simp
  have own: "\<exists>w s. plain_scope s \<and> gb_bucket_id b = bucket_id_of (gr_name g) (window_as_str w) s"
    and inner: "distinct (map gb_bucket_id (gr_buckets g))" if "g \<in> set groups" "b \<in> set (gr_buckets g)" for g b
  proof -
    obtain c where c: "(gr_name g, c) \<in> set cfg" "buckets_ok (gr_name g) (set (gc_limits c)) (gr_buckets g)"
      using project_groups_buckets [OF proj keys \<open>g \<in> set groups\<close>] by blast
    then have "\<forall>l \<in> set (gc_limits c). plain_scope (lc_scope l)" using plain by (auto simp: plain_groups_def)
    from buckets_ok_plain [OF c(2) this] that(2)
    show "\<exists>w s. plain_scope s \<and> gb_bucket_id b = bucket_id_of (gr_name g) (window_as_str w) s"
      "distinct (map gb_bucket_id (gr_buckets g))" by blast+
  qed
  have "distinct (map gb_bucket_id (all_buckets gs))" if "set gs \<subseteq> set groups" "distinct (map gr_name gs)" for gs
    using that
  proof (induction gs)
    case (Cons g gs)
    have inner_g: "distinct (map gb_bucket_id (gr_buckets g))"
      using inner [of g] Cons.prems(1) by (cases "gr_buckets g") auto
    have "gb_bucket_id b \<noteq> gb_bucket_id b'" if "b \<in> set (gr_buckets g)" "g' \<in> set gs" "b' \<in> set (gr_buckets g')" for b g' b'
    proof -
      have "gr_name g \<noteq> gr_name g'" using Cons.prems(2) that(2) by auto
      moreover have "g \<in> set groups" "g' \<in> set groups" using Cons.prems(1) that(2) by auto
      ultimately show ?thesis using own [of g b] own [of g' b'] that by (auto simp: bucket_id_inject)
    qed
    then show ?case using Cons inner_g by (fastforce simp: all_buckets_def)
  qed (simp add: all_buckets_def)
  from this [of groups] show ?thesis using names by simp
qed

lemma bucket_of_group_name:
  assumes "plain_scope s" and "CHR ''#'' \<notin> set n"
  shows "is_bucket_of_group (bucket_id_of n (window_as_str w) s) name \<longleftrightarrow> name = n"
proof
  assume "is_bucket_of_group (bucket_id_of n (window_as_str w) s) name"
  then obtain tail v where t: "n @ CHR ''@'' # window_as_str w @ scope_suffix s = name @ CHR ''@'' # tail"
    and v: "window_as_str v = takeWhile (\<lambda>c. c \<noteq> CHR ''#'') tail"
    by (auto simp: is_bucket_of_group_eq bucket_id_parts)
  have clean: "CHR ''@'' \<notin> set (window_as_str w @ scope_suffix s)"
    using assms by (simp add: window_word_chars plain_suffix)
  have "CHR ''@'' \<notin> set tail"
  proof
    assume "CHR ''@'' \<in> set tail"
    then obtain x y where "tail = x @ CHR ''@'' # y" "CHR ''@'' \<notin> set y"
      by (metis split_list_last)
    then have n: "n = name @ CHR ''@'' # x" and tail: "tail = x @ CHR ''@'' # y"
      using t clean split_at_last [of "CHR ''@''" "window_as_str w @ scope_suffix s" y n "name @ CHR ''@'' # x"] by simp_all
    have "CHR ''#'' \<notin> set x" using assms(2) n by simp
    then have "takeWhile (\<lambda>c. c \<noteq> CHR ''#'') tail = x @ takeWhile (\<lambda>c. c \<noteq> CHR ''#'') (CHR ''@'' # y)"
      unfolding tail by (intro takeWhile_append2) auto
    then have "CHR ''@'' \<in> set (window_as_str v)" unfolding v by simp
    then show False using window_word_chars(1) by blast
  qed
  then show "name = n"
    using t clean split_at_last [of "CHR ''@''" "window_as_str w @ scope_suffix s" tail n name] by simp
next
  assume "name = n"
  then show "is_bucket_of_group (bucket_id_of n (window_as_str w) s) name"
    using window_of_tail [of w s] by (auto simp: is_bucket_of_group_eq bucket_id_parts)
qed

text \<open>
  Bucket ids identify their buckets. With pools whose names hold no \<open>@\<close> and groups whose
  names hold no \<open>#\<close> (an \<open>@\<close> is allowed there), all buckets of the resolved model have
  different ids, and the structural test of an id against a group name, which decides which
  ledger cells a deleted group takes with it, accepts exactly the group that owns the bucket.
\<close>

lemma bucket_ids_identify:
  assumes "distinct (map fst cfg)" and "plain_groups cfg" and "\<forall>n \<in> fst ` set cfg. CHR ''#'' \<notin> set n"
    and "cm = resolve_parts rates fee cfg"
  shows "distinct (map gb_bucket_id (concat (map gr_buckets (cm_groups cm))))
     \<and> (\<forall>g \<in> set (cm_groups cm). \<forall>b \<in> set (gr_buckets g). \<forall>name.
          is_bucket_of_group (gb_bucket_id b) name = (name = gr_name g))"
proof (intro conjI ballI allI)
  obtain groups idx where proj: "project_groups cfg = (groups, idx)" by fastforce
  have cm: "cm_groups cm = groups" by (simp add: assms(4) resolve_parts_def proj)
  show "distinct (map gb_bucket_id (concat (map gr_buckets (cm_groups cm))))"
    using bucket_ids_distinct [OF proj assms(1,2)] by (simp add: cm all_buckets_def)
  fix g b name
  assume g: "g \<in> set (cm_groups cm)" and b: "b \<in> set (gr_buckets g)"
  obtain c where c: "(gr_name g, c) \<in> set cfg" "buckets_ok (gr_name g) (set (gc_limits c)) (gr_buckets g)"
    using project_groups_buckets [OF proj assms(1)] g cm by blast
  have "\<forall>l \<in> set (gc_limits c). plain_scope (lc_scope l)" using assms(2) c(1) by (auto simp: plain_groups_def)
  from buckets_ok_plain(2) [OF c(2) this b] obtain w s
    where id: "plain_scope s" "gb_bucket_id b = bucket_id_of (gr_name g) (window_as_str w) s" by blast
  have "CHR ''#'' \<notin> set (gr_name g)" using assms(3) c(1) by force
  then show "is_bucket_of_group (gb_bucket_id b) name = (name = gr_name g)"
    using bucket_of_group_name [OF id(1)] by (simp add: id(2))
qed

text \<open>
  Without the two conditions neither holds. The test is not exact for a group whose name holds a
  window word between \<open>@\<close> and \<open>#\<close>, and two buckets share an id when a pool is named so.
\<close>

lemma bucket_of_group_is_not_exact:
  "is_bucket_of_group (bucket_id_of ''a@minute#b'' ''day'' None) ''a''"
  by code_simp

lemma bucket_ids_can_collide:
  "bucket_id_of ''a'' ''minute'' (Some (scope_pool ''x@day'')) = bucket_id_of ''a@minute#pool:x'' ''day'' None"
  by code_simp


section \<open>What a derived spend is\<close>

definition model_cost :: "CostModel \<Rightarrow> string \<times> TierTokens \<Rightarrow> nat" where
  "model_cost cm mt = (case rate_for cm (fst mt) of None \<Rightarrow> 0 | Some r \<Rightarrow> cost_nanos r (snd mt))"

lemma wrap_u128_le: "wrap_u128 n \<le> u128_max"
proof -
  have "n mod 340282366920938463463374607431768211456 < 340282366920938463463374607431768211456" by simp
  then show ?thesis unfolding wrap_u128_def u128_max_def by linarith
qed

lemma ledger_nanos_from:
  "n \<le> u128_max \<Longrightarrow> fold (add_model_nanos cm) models n = min (n + sum_list (map (model_cost cm) models)) u128_max"
proof (induction models arbitrary: n)
  case (Cons mt models)
  have "add_model_nanos cm mt n = min (n + model_cost cm mt) u128_max"
    using Cons.prems by (simp add: add_model_nanos_def model_cost_def split: option.splits)
  then show ?case using Cons by (simp add: min_def)
qed simp

text \<open>The sum of the model costs, saturating.\<close>

lemma ledger_nanos_eq: "ledger_nanos cm models = min (sum_list (map (model_cost cm) models)) u128_max"
  by (simp add: ledger_nanos_def ledger_nanos_from)

lemma i64_of_u64_mono: "a \<le> b \<Longrightarrow> i64_of_u64 a \<le> i64_of_u64 b"
  by (auto simp: i64_of_u64_def)

lemma i64_of_u64_range: "0 \<le> i64_of_u64 n" "i64_of_u64 n \<le> i64_max"
  by (simp_all add: i64_of_u64_def i64_max_def)

lemma saturating_add_i64_mono:
  "a \<le> a' \<Longrightarrow> b \<le> b' \<Longrightarrow> saturating_add_i64 a b \<le> saturating_add_i64 a' b'"
  unfolding saturating_add_i64_def by (intro max.mono min.mono add_mono order_refl)

lemma saturating_mul_i64_mono:
  "0 \<le> c \<Longrightarrow> b \<le> b' \<Longrightarrow> saturating_mul_i64 c b \<le> saturating_mul_i64 c b'"
  unfolding saturating_mul_i64_def by (intro max.mono min.mono mult_left_mono order_refl)

lemma derive_spend_mono:
  assumes "ledger_nanos cm ms \<le> ledger_nanos cm ms'" and "n \<le> n'" and "0 \<le> cm_price_per_request_cents cm"
  shows "derive_spend_cents cm ms n b \<le> derive_spend_cents cm ms' n' b"
proof -
  have tokens: "i64_of_u64 (ledger_nanos cm ms div NANOS_PER_CENT) \<le> i64_of_u64 (ledger_nanos cm ms' div NANOS_PER_CENT)"
    using assms(1) by (intro i64_of_u64_mono div_le_mono)
  have fee: "saturating_mul_i64 (cm_price_per_request_cents cm) (i64_of_u64 n)
      \<le> saturating_mul_i64 (cm_price_per_request_cents cm) (i64_of_u64 n')"
    using assms(2,3) by (intro saturating_mul_i64_mono i64_of_u64_mono)
  show ?thesis
    unfolding derive_spend_cents_def Let_def
    using tokens saturating_add_i64_mono [OF tokens fee] by (cases b) (simp_all add: max.coboundedI1)
qed

lemma derive_spend_range: "0 \<le> derive_spend_cents cm ms n b" "derive_spend_cents cm ms n b \<le> i64_max"
proof -
  have top: "saturating_add_i64 a c \<le> i64_max" for a c
    by (simp add: saturating_add_i64_def i64_min_def i64_max_def)
  show "0 \<le> derive_spend_cents cm ms n b" by (simp add: derive_spend_cents_def Let_def)
  show "derive_spend_cents cm ms n b \<le> i64_max"
    using top i64_of_u64_range by (simp add: derive_spend_cents_def Let_def i64_max_def)
qed

text \<open>With rates below \<open>2 ^ 62\<close> nanos a token, no sum of four products wraps.\<close>

definition sane_rate :: "RateNanos \<Rightarrow> bool" where
  "sane_rate r \<longleftrightarrow> rn_input r < 2 ^ 62 \<and> rn_output r < 2 ^ 62 \<and> rn_cache_read r < 2 ^ 62 \<and> rn_cache_write r < 2 ^ 62"

definition tokens_fit :: "TierTokens \<Rightarrow> bool" where
  "tokens_fit t \<longleftrightarrow> tt_input t \<le> u64_max \<and> tt_output t \<le> u64_max \<and> tt_cache_read t \<le> u64_max \<and> tt_cache_write t \<le> u64_max"

definition exact_nanos :: "RateNanos \<Rightarrow> TierTokens \<Rightarrow> nat" where
  "exact_nanos r t = tt_input t * rn_input r + tt_output t * rn_output r
     + tt_cache_read t * rn_cache_read r + tt_cache_write t * rn_cache_write r"

lemma tier_product_bound: "t \<le> u64_max \<Longrightarrow> r < 2 ^ 62 \<Longrightarrow> t * r \<le> (2 ^ 126 - 2 ^ 62 :: nat)"
proof -
  assume "t \<le> u64_max" and "r < 2 ^ 62"
  then have "t * r \<le> u64_max * (2 ^ 62 - 1)" by (intro mult_le_mono) simp_all
  then show ?thesis by (simp add: u64_max_def)
qed

lemma cost_nanos_exact:
  assumes "sane_rate r" and "tokens_fit t"
  shows "cost_nanos r t = exact_nanos r t"
proof -
  have "tt_input t * rn_input r \<le> 2 ^ 126 - 2 ^ 62" "tt_output t * rn_output r \<le> 2 ^ 126 - 2 ^ 62"
    "tt_cache_read t * rn_cache_read r \<le> 2 ^ 126 - 2 ^ 62" "tt_cache_write t * rn_cache_write r \<le> 2 ^ 126 - 2 ^ 62"
    using assms unfolding sane_rate_def tokens_fit_def by (metis tier_product_bound)+
  then show ?thesis by (simp add: cost_nanos_def exact_nanos_def wrap_u128_def)
qed

text \<open>
  Beyond that it can wrap: four tiers of \<open>2 ^ 63\<close> tokens at \<open>2 ^ 63\<close> nanos a token cost nothing.
\<close>

lemma cost_nanos_wraps_to_free:
  "cost_nanos \<lparr>rn_input = 2 ^ 63, rn_output = 2 ^ 63, rn_cache_read = 2 ^ 63, rn_cache_write = 2 ^ 63\<rparr>
     \<lparr>tt_input = 2 ^ 63, tt_output = 2 ^ 63, tt_cache_read = 2 ^ 63, tt_cache_write = 2 ^ 63\<rparr> = 0"
  by (simp add: cost_nanos_def wrap_u128_def)

end
