(* ===== verification/Gov_Ledger.thy ===== *)
theory Gov_Ledger
  imports Cost_Model Lane_Store
begin

text \<open>
  The limit engine of governance, \<open>src/crates/busbar/src/governance/\<close>: the token ledger cell of a
  bucket (\<open>mod.rs\<close>) and the admission, accrual, refund and eviction of \<open>state.rs\<close>. The 64 shards
  are one map from bucket id to cell: the shard of an id is a function of the id, so it only
  matters for the sweep, which visits the shards of a request one by one. An admission holds all
  its shard locks from the check to the charge and is one step.

  The theory defines the operations and what each does to a cell; the invariants of their
  compositions are in \<open>Gov_Machine\<close>.
\<close>

section \<open>Ledger cells\<close>

record ModelCell =
  mc_model :: string
  mc_cur :: TierTokens
  mc_flushed :: TierTokens

record BudgetCell =
  bc_window_start :: u64
  bc_requests :: u64
  bc_billable_requests :: u64
  bc_flushed_requests :: u64
  bc_flushed_billable_requests :: u64
  bc_models :: "ModelCell list"
  bc_dirty :: bool
  bc_last_touch :: u64

definition cell_fresh :: "u64 \<Rightarrow> BudgetCell" where
  "cell_fresh window_start =
     \<lparr>bc_window_start = window_start, bc_requests = 0, bc_billable_requests = 0, bc_flushed_requests = 0,
      bc_flushed_billable_requests = 0, bc_models = [], bc_dirty = False, bc_last_touch = 0\<rparr>"

definition add_tokens :: "TierTokens \<Rightarrow> TierTokens \<Rightarrow> TierTokens" where
  "add_tokens cur t =
     \<lparr>tt_input = saturating_add (tt_input cur) (tt_input t), tt_output = saturating_add (tt_output cur) (tt_output t),
      tt_cache_read = saturating_add (tt_cache_read cur) (tt_cache_read t),
      tt_cache_write = saturating_add (tt_cache_write cur) (tt_cache_write t)\<rparr>"

text \<open>The first cell of the model is credited; a new one is appended when there is none.\<close>

fun accrue_models :: "string \<Rightarrow> TierTokens \<Rightarrow> ModelCell list \<Rightarrow> ModelCell list" where
  "accrue_models model t [] = [\<lparr>mc_model = model, mc_cur = add_tokens no_tokens t, mc_flushed = no_tokens\<rparr>]"
| "accrue_models model t (m # ms) =
     (if mc_model m = model then m\<lparr>mc_cur := add_tokens (mc_cur m) t\<rparr> # ms else m # accrue_models model t ms)"

definition cell_accrue :: "string \<Rightarrow> TierTokens \<Rightarrow> BudgetCell \<Rightarrow> BudgetCell" where
  "cell_accrue model t c = c\<lparr>bc_models := accrue_models model t (bc_models c)\<rparr>"

definition model_views :: "BudgetCell \<Rightarrow> (string \<times> TierTokens) list" where
  "model_views c = map (\<lambda>m. (mc_model m, mc_cur m)) (bc_models c)"

definition prune_dead_models :: "BudgetCell \<Rightarrow> BudgetCell" where
  "prune_dead_models c =
     c\<lparr>bc_models := filter (\<lambda>m. tokens_total (mc_cur m) \<noteq> 0 \<or> tokens_total (mc_flushed m) \<noteq> 0) (bc_models c)\<rparr>"

definition cell_total_tokens :: "BudgetCell \<Rightarrow> u64" where
  "cell_total_tokens c = foldl (\<lambda>acc m. saturating_add acc (tokens_total (mc_cur m))) 0 (bc_models c)"

section \<open>State\<close>

record Gov =
  gs_budget :: "string \<rightharpoonup> BudgetCell"
  gs_sweep_ticker :: "usize \<Rightarrow> u32"
  gs_concurrent :: "string \<rightharpoonup> i64"

definition GOV_SHARDS :: nat where "GOV_SHARDS = 64"

definition shard_index :: "string \<Rightarrow> usize" where
  "shard_index key_id = fnv1a_u64 key_id AND (GOV_SHARDS - 1)"

text \<open>Why an admission is refused: the blocking limit, a frozen group, or a group that does not exist.\<close>

datatype LimitBlocked =
    LimitBlock (lb_group: string) (lb_metric: string) (lb_window: "string option") (lb_pool: "string option")
      (lb_downgrade_to: "string option") (lb_retry_after: "u64 option")
  | DisabledBlock string
  | MissingGroup string

text \<open>A grant holds one gauge per capped group, by the name of the group.\<close>

record AdmitGrant =
  ag_gauges :: "string list"

section \<open>Accrual\<close>

text \<open>The cell a charge or an accrual lands on: a stale one is replaced, a newer one is kept.\<close>

definition live_cell :: "u64 \<Rightarrow> BudgetCell option \<Rightarrow> BudgetCell" where
  "live_cell window cell =
     (case cell of Some c \<Rightarrow> (if window > bc_window_start c then cell_fresh window else c) | None \<Rightarrow> cell_fresh window)"

definition accrue_bucket :: "string \<Rightarrow> string \<Rightarrow> string \<Rightarrow> TierTokens \<Rightarrow> u64 \<Rightarrow> Gov \<Rightarrow> Gov" where
  "accrue_bucket bucket_id budget_period model t now g =
     (let window = budget_window budget_period now;
          cell = cell_accrue model t (live_cell window (gs_budget g bucket_id))
      in g\<lparr>gs_budget := (gs_budget g)(bucket_id \<mapsto> cell\<lparr>bc_dirty := True, bc_last_touch := now\<rparr>)\<rparr>)"

definition pool_buckets :: "Chain \<Rightarrow> string \<Rightarrow> ChainBucket list" where
  "pool_buckets chain pool = filter (\<lambda>b. applies_to_pool b pool) (ch_buckets chain)"

definition record_usage ::
  "CostModel \<Rightarrow> VirtualKey \<Rightarrow> string \<Rightarrow> string \<Rightarrow> TierTokens \<Rightarrow> u64 \<Rightarrow> Gov \<Rightarrow> Gov" where
  "record_usage cost key pool model t now g =
     (if tokens_is_zero t then g
      else case chain_for cost key of
             Inl _ \<Rightarrow> accrue_bucket (vk_id key) WINDOW_TOTAL model t now g
           | Inr chain \<Rightarrow>
               fold (\<lambda>b. accrue_bucket (cb_bucket_id b) (cb_window b) model t now) (pool_buckets chain pool) g)"

section \<open>Admission\<close>

subsection \<open>Concurrency gauges\<close>

definition concurrent_gauge :: "string \<Rightarrow> (string \<rightharpoonup> i64) \<Rightarrow> (string \<rightharpoonup> i64)" where
  "concurrent_gauge grp gauges = (case gauges grp of Some _ \<Rightarrow> gauges | None \<Rightarrow> gauges(grp \<mapsto> 0))"

definition gauge_sub :: "string \<Rightarrow> (string \<rightharpoonup> i64) \<Rightarrow> (string \<rightharpoonup> i64)" where
  "gauge_sub grp gauges = (case gauges grp of Some v \<Rightarrow> gauges(grp \<mapsto> wrap_i64 (v - 1)) | None \<Rightarrow> gauges)"

definition drop_grant :: "AdmitGrant \<Rightarrow> (string \<rightharpoonup> i64) \<Rightarrow> (string \<rightharpoonup> i64)" where
  "drop_grant grant gauges = fold gauge_sub (ag_gauges grant) gauges"

text \<open>The left result is the group whose gauge is full, with the holds taken so far released.\<close>

fun take_gauges ::
  "GroupRuntime list \<Rightarrow> usize list \<Rightarrow> AdmitGrant \<Rightarrow> (string \<rightharpoonup> i64) \<Rightarrow> (string \<rightharpoonup> i64) \<times> (string + AdmitGrant)" where
  "take_gauges groups [] grant gauges = (gauges, Inr grant)"
| "take_gauges groups (gi # gis) grant gauges =
     (case gr_concurrent_cap (groups ! gi) of
        None \<Rightarrow> take_gauges groups gis grant gauges
      | Some cap \<Rightarrow>
          let name = gr_name (groups ! gi);
              gauges1 = concurrent_gauge name gauges;
              v = the (gauges1 name)
          in if v < i64_of_u64 cap
             then take_gauges groups gis \<lparr>ag_gauges = ag_gauges grant @ [name]\<rparr> (gauges1(name \<mapsto> v + 1))
             else (drop_grant grant gauges1, Inl name))"

subsection \<open>Eviction\<close>

definition still_enforces_a_cap :: "CostModel \<Rightarrow> string \<Rightarrow> bool" where
  "still_enforces_a_cap cost bucket_id = bucket_enforces_a_cap cost bucket_id"

definition max_window :: u64 where
  "max_window = 31 * SECS_PER_DAY"

definition sweep_keeps :: "CostModel \<Rightarrow> u64 \<Rightarrow> string \<Rightarrow> BudgetCell \<Rightarrow> bool" where
  "sweep_keeps cost now bucket_id c =
     (if bc_window_start c \<noteq> 0 then saturating_add (bc_window_start c) max_window > now
      else still_enforces_a_cap cost bucket_id \<or> bc_dirty c \<or> saturating_add (bc_last_touch c) max_window > now)"

definition sweep_shard :: "CostModel \<Rightarrow> u64 \<Rightarrow> usize \<Rightarrow> (string \<rightharpoonup> BudgetCell) \<Rightarrow> (string \<rightharpoonup> BudgetCell)" where
  "sweep_shard cost now sh budget =
     (\<lambda>id. if shard_index id = sh
           then case budget id of
                  Some c \<Rightarrow> (if sweep_keeps cost now id c then Some (prune_dead_models c) else None)
                | None \<Rightarrow> None
           else budget id)"

definition acquire_shard :: "u32 \<Rightarrow> CostModel \<Rightarrow> u64 \<Rightarrow> usize \<Rightarrow> Gov \<Rightarrow> Gov" where
  "acquire_shard rate_sweep_interval cost now sh g =
     (let ticker = wrap_u32 (gs_sweep_ticker g sh + 1);
          g1 = g\<lparr>gs_sweep_ticker := (gs_sweep_ticker g)(sh := ticker)\<rparr>
      in if ticker mod rate_sweep_interval = 0 then g1\<lparr>gs_budget := sweep_shard cost now sh (gs_budget g1)\<rparr> else g1)"

text \<open>The shards of the buckets in ascending order, each once.\<close>

definition shard_order :: "ChainBucket list \<Rightarrow> usize list" where
  "shard_order buckets = remdups_adj (sort (map (\<lambda>b. shard_index (cb_bucket_id b)) buckets))"

subsection \<open>Check and charge\<close>

definition blocked_metric :: "CostModel \<Rightarrow> (string \<rightharpoonup> BudgetCell) \<Rightarrow> u64 \<Rightarrow> ChainBucket \<Rightarrow> string option" where
  "blocked_metric cost budget now b =
     (if cb_requests_cap b = None \<and> cb_tokens_cap b = None \<and> cb_budget_cap b = None then None
      else
        let window = budget_window (cb_window b) now;
            fee = cm_price_per_request_cents cost;
            (requests, tokens, derived) =
              (case budget (cb_bucket_id b) of
                 Some cell \<Rightarrow>
                   (if bc_window_start cell \<ge> window
                    then (bc_requests cell,
                          if cb_tokens_cap b \<noteq> None then cell_total_tokens cell else 0,
                          if cb_budget_cap b \<noteq> None
                          then derive_spend_cents cost (model_views cell) (bc_billable_requests cell) True else 0)
                    else (0, 0, 0))
               | None \<Rightarrow> (0, 0, 0))
        in if (case cb_requests_cap b of Some cap \<Rightarrow> saturating_add requests 1 > cap | None \<Rightarrow> False)
           then Some ''requests''
           else if (case cb_tokens_cap b of Some cap \<Rightarrow> tokens \<ge> cap | None \<Rightarrow> False) then Some ''tokens''
           else if (case cb_budget_cap b of Some cap \<Rightarrow> derived \<ge> cap \<or> saturating_add_i64 derived fee > cap | None \<Rightarrow> False)
           then Some ''budget''
           else None)"

definition limit_block :: "u64 \<Rightarrow> ChainBucket \<Rightarrow> string \<Rightarrow> LimitBlocked" where
  "limit_block now b metric =
     LimitBlock (the (cb_group_name b)) metric (Some (cb_window b)) (map_option sr_value (cb_scope b))
       (if metric = ''budget'' then map_option sr_value (cb_downgrade_to b) else None)
       (map_option (\<lambda>end_t. max (saturating_sub end_t now) 1) (window_end (cb_window b) now))"

fun check_buckets :: "CostModel \<Rightarrow> (string \<rightharpoonup> BudgetCell) \<Rightarrow> u64 \<Rightarrow> ChainBucket list \<Rightarrow> LimitBlocked option" where
  "check_buckets cost budget now [] = None"
| "check_buckets cost budget now (b # bs) =
     (case blocked_metric cost budget now b of
        Some metric \<Rightarrow> Some (limit_block now b metric)
      | None \<Rightarrow> check_buckets cost budget now bs)"

definition charge_bucket :: "u64 \<Rightarrow> ChainBucket \<Rightarrow> (string \<rightharpoonup> BudgetCell) \<Rightarrow> (string \<rightharpoonup> BudgetCell)" where
  "charge_bucket now b budget =
     (let window = budget_window (cb_window b) now;
          cell = live_cell window (budget (cb_bucket_id b))
      in budget(cb_bucket_id b \<mapsto>
           cell\<lparr>bc_requests := saturating_add (bc_requests cell) 1,
                bc_billable_requests := saturating_add (bc_billable_requests cell) 1,
                bc_dirty := True, bc_last_touch := now\<rparr>))"

fun frozen_group :: "GroupRuntime list \<Rightarrow> usize list \<Rightarrow> string option" where
  "frozen_group groups [] = None"
| "frozen_group groups (gi # gis) =
     (if \<not> gr_enabled (groups ! gi) then Some (gr_name (groups ! gi)) else frozen_group groups gis)"

text \<open>The windowed limits, once the gauges are taken.\<close>

definition admit_windowed ::
  "u32 \<Rightarrow> CostModel \<Rightarrow> ChainBucket list \<Rightarrow> u64 \<Rightarrow> AdmitGrant \<Rightarrow> Gov \<Rightarrow> Gov \<times> (LimitBlocked + AdmitGrant)" where
  "admit_windowed rate_sweep_interval cost buckets now grant g =
     (let g1 = fold (acquire_shard rate_sweep_interval cost now) (shard_order buckets) g
      in case check_buckets cost (gs_budget g1) now buckets of
           Some blocked \<Rightarrow> (g1\<lparr>gs_concurrent := drop_grant grant (gs_concurrent g1)\<rparr>, Inl blocked)
         | None \<Rightarrow> (g1\<lparr>gs_budget := fold (charge_bucket now) buckets (gs_budget g1)\<rparr>, Inr grant))"

definition gov_try_admit ::
  "u32 \<Rightarrow> CostModel \<Rightarrow> VirtualKey \<Rightarrow> string \<Rightarrow> u64 \<Rightarrow> Gov \<Rightarrow> Gov \<times> (LimitBlocked + AdmitGrant)" where
  "gov_try_admit rate_sweep_interval cost key pool now g =
     (case chain_for cost key of
        Inl missing \<Rightarrow> (g, Inl (MissingGroup missing))
      | Inr chain \<Rightarrow>
          let buckets = pool_buckets chain pool in
          case frozen_group (cm_groups cost) (ch_groups chain) of
            Some name \<Rightarrow> (g, Inl (DisabledBlock name))
          | None \<Rightarrow>
              (case take_gauges (cm_groups cost) (ch_groups chain) \<lparr>ag_gauges = []\<rparr> (gs_concurrent g) of
                 (gauges, Inl name) \<Rightarrow>
                   (g\<lparr>gs_concurrent := gauges\<rparr>, Inl (LimitBlock name ''concurrent'' None None None None))
               | (gauges, Inr grant) \<Rightarrow>
                   admit_windowed rate_sweep_interval cost buckets now grant (g\<lparr>gs_concurrent := gauges\<rparr>)))"

section \<open>Refund\<close>

definition refund_bucket :: "string \<Rightarrow> string \<Rightarrow> u64 \<Rightarrow> Gov \<Rightarrow> Gov" where
  "refund_bucket bucket_id budget_period now g =
     (let window = budget_window budget_period now in
      case gs_budget g bucket_id of
        Some cell \<Rightarrow>
          (if bc_window_start cell = window
           then g\<lparr>gs_budget := (gs_budget g)(bucket_id \<mapsto>
                    cell\<lparr>bc_billable_requests := saturating_sub (bc_billable_requests cell) 1, bc_dirty := True\<rparr>)\<rparr>
           else g)
      | None \<Rightarrow> g)"

definition refund_request :: "CostModel \<Rightarrow> VirtualKey \<Rightarrow> string \<Rightarrow> u64 \<Rightarrow> Gov \<Rightarrow> Gov" where
  "refund_request cost key pool now g =
     (case chain_for cost key of
        Inl _ \<Rightarrow> refund_bucket (vk_id key) WINDOW_TOTAL now g
      | Inr chain \<Rightarrow> fold (\<lambda>b. refund_bucket (cb_bucket_id b) (cb_window b) now) (pool_buckets chain pool) g)"


section \<open>What a cell reads as\<close>

text \<open>The counters an admission in a window sees: those of the cell of that window or a newer one.\<close>

definition reading :: "(string \<rightharpoonup> BudgetCell) \<Rightarrow> string \<Rightarrow> u64 \<Rightarrow> BudgetCell option" where
  "reading budget bid window =
     (case budget bid of Some c \<Rightarrow> (if window \<le> bc_window_start c then Some c else None) | None \<Rightarrow> None)"

definition cell_spend :: "CostModel \<Rightarrow> BudgetCell \<Rightarrow> i64" where
  "cell_spend cost c = derive_spend_cents cost (model_views c) (bc_billable_requests c) True"

definition counters :: "CostModel \<Rightarrow> BudgetCell option \<Rightarrow> u64 \<times> u64 \<times> i64" where
  "counters cost c =
     (case c of Some c \<Rightarrow> (bc_requests c, cell_total_tokens c, cell_spend cost c) | None \<Rightarrow> (0, 0, 0))"

definition blocked_by :: "i64 \<Rightarrow> ChainBucket \<Rightarrow> u64 \<times> u64 \<times> i64 \<Rightarrow> string option" where
  "blocked_by fee b rts =
     (case rts of (requests, tokens, derived) \<Rightarrow>
        if (case cb_requests_cap b of Some cap \<Rightarrow> saturating_add requests 1 > cap | None \<Rightarrow> False) then Some ''requests''
        else if (case cb_tokens_cap b of Some cap \<Rightarrow> tokens \<ge> cap | None \<Rightarrow> False) then Some ''tokens''
        else if (case cb_budget_cap b of Some cap \<Rightarrow> derived \<ge> cap \<or> saturating_add_i64 derived fee > cap | None \<Rightarrow> False)
        then Some ''budget''
        else None)"

lemma blocked_metric_reading:
  "blocked_metric cost budget now b =
     blocked_by (cm_price_per_request_cents cost) b
       (counters cost (reading budget (cb_bucket_id b) (budget_window (cb_window b) now)))"
proof (cases "budget (cb_bucket_id b)")
  case None
  then show ?thesis
    by (simp add: blocked_metric_def blocked_by_def counters_def reading_def Let_def)
next
  case (Some c)
  show ?thesis
    by (cases "cb_tokens_cap b"; cases "cb_budget_cap b"; cases "cb_requests_cap b")
       (simp_all add: Some blocked_metric_def blocked_by_def counters_def reading_def cell_spend_def Let_def)
qed

section \<open>The sweep does not change what a capped bucket reads as\<close>

lemma total_zero:
  assumes "tokens_total t = 0"
  shows "tt_input t = 0 \<and> tt_output t = 0 \<and> tt_cache_read t = 0 \<and> tt_cache_write t = 0"
proof -
  have "saturating_add a b = 0 \<Longrightarrow> a = 0 \<and> b = 0" for a b
    by (auto simp: saturating_add_def min_def u64_max_def split: if_splits)
  then show ?thesis using assms unfolding tokens_total_def by metis
qed

lemma total_bound: "tokens_total t \<le> u64_max"
  by (simp add: tokens_total_def)

lemma prune_total_tokens: "cell_total_tokens (prune_dead_models c) = cell_total_tokens c"
proof -
  have "foldl (\<lambda>acc m. saturating_add acc (tokens_total (mc_cur m))) n
      (filter (\<lambda>m. tokens_total (mc_cur m) \<noteq> 0 \<or> tokens_total (mc_flushed m) \<noteq> 0) ms)
    = foldl (\<lambda>acc m. saturating_add acc (tokens_total (mc_cur m))) n ms" if "n \<le> u64_max" for n and ms :: "ModelCell list"
    using that by (induction ms arbitrary: n) simp_all
  then show ?thesis by (simp add: cell_total_tokens_def prune_dead_models_def)
qed

lemma model_cost_zero: "tokens_total t = 0 \<Longrightarrow> model_cost cm (m, t) = 0"
  by (auto simp: model_cost_def cost_nanos_def wrap_u128_def dest!: total_zero split: option.splits)

lemma prune_spend: "cell_spend cost (prune_dead_models c) = cell_spend cost c"
proof -
  have "sum_list (map (model_cost cost) (map (\<lambda>m. (mc_model m, mc_cur m))
      (filter (\<lambda>m. tokens_total (mc_cur m) \<noteq> 0 \<or> tokens_total (mc_flushed m) \<noteq> 0) ms)))
    = sum_list (map (model_cost cost) (map (\<lambda>m. (mc_model m, mc_cur m)) ms))" for ms :: "ModelCell list"
    by (induction ms) (auto simp: model_cost_zero)
  then have "ledger_nanos cost (model_views (prune_dead_models c)) = ledger_nanos cost (model_views c)"
    unfolding ledger_nanos_eq model_views_def by (simp add: prune_dead_models_def del: map_map)
  then show ?thesis
    by (simp add: cell_spend_def derive_spend_cents_def prune_dead_models_def)
qed

lemma prune_simps [simp]:
  "bc_window_start (prune_dead_models c) = bc_window_start c" "bc_requests (prune_dead_models c) = bc_requests c"
  "bc_billable_requests (prune_dead_models c) = bc_billable_requests c"
  "bc_dirty (prune_dead_models c) = bc_dirty c" "bc_last_touch (prune_dead_models c) = bc_last_touch c"
  by (simp_all add: prune_dead_models_def)

lemma counters_prune [simp]: "counters cost (Some (prune_dead_models c)) = counters cost (Some c)"
  by (simp add: counters_def prune_total_tokens prune_spend)

text \<open>No window is longer than the age at which a cell is evicted.\<close>

lemma window_length:
  assumes "window_end p t = Some e"
  shows "e \<le> budget_window p t + max_window"
proof (cases "p = WINDOW_MONTH")
  case True
  have "first_of_next k \<le> first_of_month k + 31" for k
  proof -
    obtain y a where k: "0 \<le> a" "a \<le> 11" "month_start y a \<le> k" "k < next_month_start y a"
      by (rule civil_from_days_cases)
    obtain y' m where c: "civil_month y a = (y', m)" by fastforce
    show ?thesis
      using month_length [OF k(1,2) c] first_of_month_eq [OF k] by (simp add: days_in_month_def)
  qed
  then have "nat (first_of_next (int (t div 86400))) \<le> nat (first_of_month (int (t div 86400)) + 31)"
    by (intro nat_mono) blast
  also have "\<dots> = nat (first_of_month (int (t div 86400))) + 31"
    using first_of_month_nonneg [of "int (t div 86400)"] by (simp add: nat_add_distrib)
  finally have "nat (first_of_next (int (t div 86400))) \<le> nat (first_of_month (int (t div 86400))) + 31" .
  then show ?thesis
    using assms True by (auto simp: month_window max_window_def SECS_PER_DAY_def)
next
  case False
  then show ?thesis
    using assms by (auto simp: window_end_def budget_window_def max_window_def SECS_PER_DAY_def split: if_splits)
qed

text \<open>A cell whose window is that of its bucket at some time, as every charge leaves it.\<close>

definition window_of :: "string \<Rightarrow> u64 \<Rightarrow> bool" where
  "window_of w start \<longleftrightarrow> (\<exists>t. start = budget_window w t)"

lemma evicted_is_stale:
  assumes "\<not> saturating_add start max_window > now" and "now \<le> t" and "t < u64_max" and "window_of w start" and "start \<noteq> 0"
  shows "start < budget_window w t"
proof -
  obtain s where s: "start = budget_window w s" using assms(4) by (auto simp: window_of_def)
  have "start + max_window \<le> t"
    using assms(1-3) by (auto simp: saturating_add_def not_less min_def split: if_splits)
  show ?thesis
  proof (cases "window_end w t")
    case None
    then show ?thesis using window_frame [of w t] s assms(5) by simp
  next
    case (Some e)
    have "t < e" using window_frame [of w t] Some by simp
    then show ?thesis using window_length [OF Some] \<open>start + max_window \<le> t\<close> by linarith
  qed
qed


lemma sweep_reading:
  assumes "still_enforces_a_cap cost bid" and "\<And>c. budget bid = Some c \<Longrightarrow> window_of w (bc_window_start c)"
    and "now \<le> t" and "t < u64_max"
  shows "counters cost (reading (sweep_shard cost now sh budget) bid (budget_window w t))
       = counters cost (reading budget bid (budget_window w t))"
proof (cases "budget bid")
  case None
  then show ?thesis by (simp add: reading_def sweep_shard_def)
next
  case (Some c)
  have "bc_window_start c < budget_window w t" if "\<not> sweep_keeps cost now bid c"
    using that assms(1) evicted_is_stale [OF _ assms(3,4) assms(2) [OF Some]]
    by (auto simp: sweep_keeps_def split: if_splits)
  then show ?thesis by (auto simp: Some reading_def sweep_shard_def counters_def prune_total_tokens prune_spend)
qed

text \<open>What a sweep leaves of a cell: nothing, or the cell without dead models.\<close>

lemma sweep_shard_cell:
  "sweep_shard cost now sh budget bid = Some c \<Longrightarrow>
     \<exists>c0. budget bid = Some c0 \<and> (c = c0 \<or> c = prune_dead_models c0)"
  by (auto simp: sweep_shard_def split: if_splits option.splits)

lemma acquire_shard_simps [simp]:
  "gs_concurrent (acquire_shard iv cost now sh g) = gs_concurrent g"
  by (simp add: acquire_shard_def Let_def)

lemma acquire_shard_budget:
  "gs_budget (acquire_shard iv cost now sh g) = gs_budget g
 \<or> gs_budget (acquire_shard iv cost now sh g) = sweep_shard cost now sh (gs_budget g)"
  by (simp add: acquire_shard_def Let_def)

text \<open>Cells whose windows are windows of their buckets; \<open>wd\<close> gives the window word of a bucket id.\<close>

definition windows_ok :: "(string \<rightharpoonup> string) \<Rightarrow> (string \<rightharpoonup> BudgetCell) \<Rightarrow> bool" where
  "windows_ok wd budget \<longleftrightarrow>
     (\<forall>bid c w. budget bid = Some c \<longrightarrow> wd bid = Some w \<longrightarrow> window_of w (bc_window_start c))"

lemma acquire_cell:
  assumes "gs_budget (acquire_shard iv cost now sh g) bid = Some c"
  shows "\<exists>c0. gs_budget g bid = Some c0 \<and> bc_window_start c = bc_window_start c0 \<and> bc_requests c = bc_requests c0
     \<and> bc_billable_requests c = bc_billable_requests c0 \<and> cell_total_tokens c = cell_total_tokens c0"
  using acquire_shard_budget [of iv cost now sh g] assms
  by (auto dest!: sweep_shard_cell simp: prune_total_tokens)

lemma acquire_all_cell:
  assumes "gs_budget (fold (acquire_shard iv cost now) shs g) bid = Some c"
  shows "\<exists>c0. gs_budget g bid = Some c0 \<and> bc_window_start c = bc_window_start c0 \<and> bc_requests c = bc_requests c0
     \<and> bc_billable_requests c = bc_billable_requests c0 \<and> cell_total_tokens c = cell_total_tokens c0"
  using assms
proof (induction shs arbitrary: g)
  case (Cons sh shs)
  then obtain c1 where "gs_budget (acquire_shard iv cost now sh g) bid = Some c1"
    "bc_window_start c = bc_window_start c1" "bc_requests c = bc_requests c1"
    "bc_billable_requests c = bc_billable_requests c1" "cell_total_tokens c = cell_total_tokens c1" by fastforce
  then show ?case using acquire_cell by fastforce
qed simp

lemma acquire_all_concurrent [simp]: "gs_concurrent (fold (acquire_shard iv cost now) shs g) = gs_concurrent g"
  by (induction shs arbitrary: g) simp_all

lemma windows_ok_acquire:
  "windows_ok wd (gs_budget g) \<Longrightarrow> windows_ok wd (gs_budget (fold (acquire_shard iv cost now) shs g))"
  unfolding windows_ok_def by (metis acquire_all_cell)

lemma acquire_reading:
  assumes "still_enforces_a_cap cost bid" and "windows_ok wd (gs_budget g)" and "wd bid = Some w"
    and "now \<le> t" and "t < u64_max"
  shows "counters cost (reading (gs_budget (fold (acquire_shard iv cost now) shs g)) bid (budget_window w t))
       = counters cost (reading (gs_budget g) bid (budget_window w t))"
  using assms(2)
proof (induction shs arbitrary: g)
  case (Cons sh shs)
  have "counters cost (reading (gs_budget (acquire_shard iv cost now sh g)) bid (budget_window w t))
      = counters cost (reading (gs_budget g) bid (budget_window w t))"
    using acquire_shard_budget [of iv cost now sh g] sweep_reading [OF assms(1) _ assms(4,5)] Cons.prems assms(3)
    by (auto simp: windows_ok_def)
  moreover have "windows_ok wd (gs_budget (acquire_shard iv cost now sh g))"
    using windows_ok_acquire [OF Cons.prems, of iv cost now "[sh]"] by simp
  ultimately show ?case using Cons.IH by simp
qed simp

section \<open>Gauges\<close>

definition gauge_value :: "(string \<rightharpoonup> i64) \<Rightarrow> string \<Rightarrow> i64" where
  "gauge_value gauges grp = (case gauges grp of Some v \<Rightarrow> v | None \<Rightarrow> 0)"

lemma gauge_value_concurrent [simp]: "gauge_value (concurrent_gauge grp gauges) x = gauge_value gauges x"
  by (auto simp: gauge_value_def concurrent_gauge_def split: option.splits)

lemma gauge_value_upd [simp]: "gauge_value (gauges(grp \<mapsto> v)) x = (if x = grp then v else gauge_value gauges x)"
  by (simp add: gauge_value_def)

lemma concurrent_gauge_present: "concurrent_gauge grp gauges grp = Some (gauge_value gauges grp)"
  by (simp add: concurrent_gauge_def gauge_value_def split: option.splits)

text \<open>Gauges that have been handed out as \<open>h\<close> counts; releasing subtracts without wrapping.\<close>

definition gauges_hold :: "(string \<rightharpoonup> i64) \<Rightarrow> (string \<Rightarrow> nat) \<Rightarrow> bool" where
  "gauges_hold gauges h \<longleftrightarrow> (\<forall>x. gauge_value gauges x = int (h x) \<and> int (h x) \<le> i64_max \<and> (0 < h x \<longrightarrow> gauges x \<noteq> None))"

lemma gauge_sub_hold:
  assumes "gauges_hold gauges h" and "0 < h x"
  shows "gauges_hold (gauge_sub x gauges) (h(x := h x - 1))"
proof -
  obtain v where "gauges x = Some v" using assms by (auto simp: gauges_hold_def)
  then have v: "gauges x = Some v" "v = int (h x)" "int (h x) \<le> i64_max"
    using assms(1) by (simp_all add: gauges_hold_def gauge_value_def) (metis option.simps(5))+
  have "wrap_i64 (v - 1) = v - 1"
    using v assms(2) by (intro wrap_i64_exact) (simp_all add: i64_min_def i64_max_def)
  then have sub: "gauge_sub x gauges = gauges(x \<mapsto> int (h x) - 1)" using v by (simp add: gauge_sub_def)
  have "gauge_value gauges y = int (h y)" "int (h y) \<le> i64_max" "0 < h y \<longrightarrow> gauges y \<noteq> None" for y
    using assms(1) by (simp_all add: gauges_hold_def)
  moreover have "int (h x - 1) = int (h x) - 1" using assms(2) by simp
  moreover have "int (h x) - 1 \<le> i64_max" using v by linarith
  ultimately show ?thesis unfolding gauges_hold_def sub by simp
qed

lemma drop_gauges_hold:
  assumes "gauges_hold gauges h" and "\<And>x. count_list xs x \<le> h x"
  shows "gauges_hold (fold gauge_sub xs gauges) (\<lambda>x. h x - count_list xs x)"
  using assms
proof (induction xs arbitrary: gauges h)
  case (Cons y ys)
  have pos: "0 < h y" using Cons.prems(2) [of y] by simp
  have "count_list ys x \<le> (h(y := h y - 1)) x" for x
    using Cons.prems(2) [of x] by (auto split: if_splits)
  from Cons.IH [OF gauge_sub_hold [OF Cons.prems(1) pos] this] show ?case
    by (simp, elim back_subst [where P = "gauges_hold _"], auto)
qed simp


definition gauges_capped :: "GroupRuntime list \<Rightarrow> (string \<rightharpoonup> i64) \<Rightarrow> bool" where
  "gauges_capped groups gauges \<longleftrightarrow>
     (\<forall>g \<in> set groups. \<forall>cap. gr_concurrent_cap g = Some cap \<longrightarrow> gauge_value gauges (gr_name g) \<le> int cap)"

lemma gauges_hold_concurrent [simp]: "gauges_hold gauges h \<Longrightarrow> gauges_hold (concurrent_gauge grp gauges) h"
  unfolding gauges_hold_def gauge_value_concurrent by (auto simp: concurrent_gauge_def split: option.splits)

lemma gauges_capped_concurrent [simp]: "gauges_capped groups (concurrent_gauge grp gauges) = gauges_capped groups gauges"
  by (simp add: gauges_capped_def)

lemma gauge_sub_value_le: "gauges_hold gauges h \<Longrightarrow> 0 < h x \<Longrightarrow> gauge_value (gauge_sub x gauges) y \<le> gauge_value gauges y"
  using gauge_sub_hold [of gauges h x] by (auto simp: gauges_hold_def split: if_splits)

lemma drop_gauges_capped:
  assumes "gauges_hold gauges h" and "\<And>x. count_list xs x \<le> h x" and "gauges_capped groups gauges"
  shows "gauges_capped groups (fold gauge_sub xs gauges)"
proof -
  have "gauge_value (fold gauge_sub xs gauges) x \<le> gauge_value gauges x" for x
    using drop_gauges_hold [OF assms(1,2)] assms(1) by (simp add: gauges_hold_def)
  then show ?thesis using assms(3) unfolding gauges_capped_def by (meson order_trans)
qed

lemma take_gauges_hold:
  assumes "gauges_hold gauges h" and "\<And>x. count_list (ag_gauges grant) x \<le> h x" and "gauges_capped groups gauges"
    and "distinct (map gr_name groups)" and "\<forall>gi \<in> set gis. gi < length groups"
    and "take_gauges groups gis grant gauges = (gauges', r)"
  shows "gauges_capped groups gauges'
    \<and> (case r of
         Inl _ \<Rightarrow> gauges_hold gauges' (\<lambda>x. h x - count_list (ag_gauges grant) x)
       | Inr grant' \<Rightarrow> (\<exists>new. ag_gauges grant' = ag_gauges grant @ new \<and> gauges_hold gauges' (\<lambda>x. h x + count_list new x)))"
  using assms
proof (induction gis arbitrary: gauges h grant)
  case Nil
  then show ?case by auto
next
  case (Cons gi gis)
  let ?name = "gr_name (groups ! gi)"
  show ?case
  proof (cases "gr_concurrent_cap (groups ! gi)")
    case None
    then have "take_gauges groups gis grant gauges = (gauges', r)" "\<forall>gi \<in> set gis. gi < length groups"
      using Cons.prems(5,6) by simp_all
    then show ?thesis using Cons.IH Cons.prems(1-4) by blast
  next
    case (Some cap)
    let ?g1 = "concurrent_gauge ?name gauges" and ?v = "gauge_value gauges ?name"
    have v: "the (?g1 ?name) = ?v" by (simp add: concurrent_gauge_present)
    show ?thesis
    proof (cases "?v < i64_of_u64 cap")
      case True
      let ?h = "h(?name := h ?name + 1)" and ?g2 = "?g1(?name \<mapsto> ?v + 1)"
      have small: "?v + 1 \<le> i64_max" "?v + 1 \<le> int cap"
        using True i64_of_u64_range(2) [of cap] by (auto simp: i64_of_u64_def split: if_splits)
      have hold: "gauges_hold ?g2 ?h"
        using gauges_hold_concurrent [OF Cons.prems(1)] small Cons.prems(1) by (auto simp: gauges_hold_def)
      have counts: "count_list (ag_gauges \<lparr>ag_gauges = ag_gauges grant @ [?name]\<rparr>) x \<le> ?h x" for x
        using Cons.prems(2) [of x] by (cases "x = ?name") simp_all
      have in_range: "gi < length groups" using Cons.prems(5) by simp
      have capped: "gauges_capped groups ?g2"
      proof -
        have "g = groups ! gi" if "g \<in> set groups" "gr_name g = ?name" for g
          using that Cons.prems(4) in_range by (metis distinct_map inj_onD nth_mem)
        then have "cap' = cap" if "g \<in> set groups" "gr_name g = ?name" "gr_concurrent_cap g = Some cap'" for g cap'
          using that Some by fastforce
        then show ?thesis
          using Cons.prems(3) small(2) unfolding gauges_capped_def by fastforce
      qed
      have rest: "take_gauges groups gis \<lparr>ag_gauges = ag_gauges grant @ [?name]\<rparr> ?g2 = (gauges', r)"
        using Cons.prems(6) True by (simp add: Some v Let_def)
      have rest_in: "\<forall>gi \<in> set gis. gi < length groups" using Cons.prems(5) by simp
      note ih = Cons.IH [OF hold counts capped Cons.prems(4) rest_in rest]
      show ?thesis
      proof (cases r)
        case (Inl n)
        have "(\<lambda>x. ?h x - count_list (ag_gauges grant @ [?name]) x) = (\<lambda>x. h x - count_list (ag_gauges grant) x)"
          by auto
        then show ?thesis using ih Inl by simp
      next
        case (Inr gr)
        then obtain new where new: "ag_gauges gr = ag_gauges grant @ ?name # new" "gauges_hold gauges' (\<lambda>x. ?h x + count_list new x)"
          using ih by auto
        have "(\<lambda>x. ?h x + count_list new x) = (\<lambda>x. h x + count_list (?name # new) x)" by auto
        then show ?thesis
          using new Inr ih by (auto intro!: exI [of _ "?name # new"])
      qed
    next
      case False
      then have "gauges' = drop_grant grant ?g1" "r = Inl ?name"
        using Cons.prems(6) by (simp_all add: Some v Let_def)
      then show ?thesis
        using drop_gauges_hold [of ?g1 h "ag_gauges grant"] drop_gauges_capped [of ?g1 h "ag_gauges grant" groups] Cons.prems
        by (simp add: drop_grant_def)
    qed
  qed
qed

end
