(* ===== verification/Usage_Flush.thy ===== *)
theory Usage_Flush
  imports Gov_Ledger
begin

text \<open>
  The write-behind of the token ledger: the durable ledger of a bucket and window and the signed
  deltas it accumulates (\<open>src/crates/api/src/store.rs\<close>), the flush of the dirty cells and the
  hydration at boot (\<open>src/crates/busbar/src/governance/state.rs\<close>). The store is an interface,
  the locale \<open>usage_store\<close>; \<open>Memory_Store\<close> provides it.

  A flush takes the snapshots of the dirty cells under the shard locks and writes them off the
  locks, so a charge may fall between a snapshot and its acknowledgement: the steps of the machine
  \<open>fleet_step\<close> are the snapshot, the write and the acknowledgement of one cell. An acknowledgement
  may be lost after the write landed, and the window of a cell may roll over, before, between and
  after the pieces of a flush. The invariant says that the durable ledger is the sum of what
  the nodes have acknowledged, of what was written twice, and of what cells that rolled over had sent.
\<close>

section \<open>Durable ledgers and deltas\<close>

record TierTokensDelta =
  td_input :: i64
  td_output :: i64
  td_cache_read :: i64
  td_cache_write :: i64

definition delta_is_zero :: "TierTokensDelta \<Rightarrow> bool" where
  "delta_is_zero d \<longleftrightarrow> td_input d = 0 \<and> td_output d = 0 \<and> td_cache_read d = 0 \<and> td_cache_write d = 0"

record ModelTokensDelta =
  md_model :: string
  md_tokens :: TierTokensDelta

record UsageDelta =
  ud_requests :: i64
  ud_billable_requests :: i64
  ud_models :: "ModelTokensDelta list"

definition usage_delta_is_zero :: "UsageDelta \<Rightarrow> bool" where
  "usage_delta_is_zero d \<longleftrightarrow>
     ud_requests d = 0 \<and> ud_billable_requests d = 0 \<and> list_all (\<lambda>m. delta_is_zero (md_tokens m)) (ud_models d)"

record ModelTokens =
  mt_model :: string
  mt_tokens :: TierTokens

record UsageLedger =
  ul_requests :: u64
  ul_billable_requests :: u64
  ul_models :: "ModelTokens list"

definition empty_ledger :: UsageLedger where
  "empty_ledger = \<lparr>ul_requests = 0, ul_billable_requests = 0, ul_models = []\<rparr>"

definition saturating_add_signed :: "u64 \<Rightarrow> i64 \<Rightarrow> u64" where
  "saturating_add_signed a d = (if int a + d < 0 then 0 else min (nat (int a + d)) u64_max)"

definition tokens_for :: "string \<Rightarrow> UsageLedger \<Rightarrow> TierTokens option" where
  "tokens_for model l = map_option mt_tokens (find (\<lambda>m. mt_model m = model) (ul_models l))"

definition ledger_total_tokens :: "UsageLedger \<Rightarrow> u64" where
  "ledger_total_tokens l = foldl (\<lambda>acc m. saturating_add acc (tokens_total (mt_tokens m))) 0 (ul_models l)"

definition apply_tier_delta :: "TierTokensDelta \<Rightarrow> TierTokens \<Rightarrow> TierTokens" where
  "apply_tier_delta d t =
     \<lparr>tt_input = saturating_add_signed (tt_input t) (td_input d),
      tt_output = saturating_add_signed (tt_output t) (td_output d),
      tt_cache_read = saturating_add_signed (tt_cache_read t) (td_cache_read d),
      tt_cache_write = saturating_add_signed (tt_cache_write t) (td_cache_write d)\<rparr>"

fun apply_model_delta :: "ModelTokensDelta \<Rightarrow> ModelTokens list \<Rightarrow> ModelTokens list" where
  "apply_model_delta d [] = [\<lparr>mt_model = md_model d, mt_tokens = apply_tier_delta (md_tokens d) no_tokens\<rparr>]"
| "apply_model_delta d (m # ms) =
     (if mt_model m = md_model d then m\<lparr>mt_tokens := apply_tier_delta (md_tokens d) (mt_tokens m)\<rparr> # ms
      else m # apply_model_delta d ms)"

definition apply_delta :: "UsageDelta \<Rightarrow> UsageLedger \<Rightarrow> UsageLedger" where
  "apply_delta d l =
     \<lparr>ul_requests = saturating_add_signed (ul_requests l) (ud_requests d),
      ul_billable_requests = saturating_add_signed (ul_billable_requests l) (ud_billable_requests d),
      ul_models = fold apply_model_delta (ud_models d) (ul_models l)\<rparr>"

section \<open>Flush\<close>

record DirtySnap =
  ds_bucket_id :: string
  ds_window :: u64
  ds_delta :: UsageDelta
  ds_cur_requests :: u64
  ds_cur_billable_requests :: u64
  ds_cur_models :: "(string \<times> TierTokens) list"

text \<open>\<open>signed\<close> of the source: a counter clamped into the signed range.\<close>

definition signed_counter :: "u64 \<Rightarrow> i64" where
  "signed_counter v = i64_of_u64 v"

definition tier_delta :: "ModelCell \<Rightarrow> TierTokensDelta" where
  "tier_delta m =
     \<lparr>td_input = signed_counter (tt_input (mc_cur m)) - signed_counter (tt_input (mc_flushed m)),
      td_output = signed_counter (tt_output (mc_cur m)) - signed_counter (tt_output (mc_flushed m)),
      td_cache_read = signed_counter (tt_cache_read (mc_cur m)) - signed_counter (tt_cache_read (mc_flushed m)),
      td_cache_write = signed_counter (tt_cache_write (mc_cur m)) - signed_counter (tt_cache_write (mc_flushed m))\<rparr>"

definition model_deltas :: "ModelCell list \<Rightarrow> ModelTokensDelta list" where
  "model_deltas ms =
     map (\<lambda>m. \<lparr>md_model = mc_model m, md_tokens = tier_delta m\<rparr>) (filter (\<lambda>m. \<not> delta_is_zero (tier_delta m)) ms)"

definition snap_cell :: "string \<Rightarrow> BudgetCell \<Rightarrow> DirtySnap" where
  "snap_cell bid c =
     \<lparr>ds_bucket_id = bid, ds_window = bc_window_start c,
      ds_delta = \<lparr>ud_requests = signed_counter (bc_requests c) - signed_counter (bc_flushed_requests c),
                  ud_billable_requests = signed_counter (bc_billable_requests c) - signed_counter (bc_flushed_billable_requests c),
                  ud_models = model_deltas (bc_models c)\<rparr>,
      ds_cur_requests = bc_requests c, ds_cur_billable_requests = bc_billable_requests c,
      ds_cur_models = model_views c\<rparr>"

fun take_dirty :: "string list \<Rightarrow> (string \<rightharpoonup> BudgetCell) \<Rightarrow> DirtySnap list \<times> (string \<rightharpoonup> BudgetCell)" where
  "take_dirty [] budget = ([], budget)"
| "take_dirty (bid # bids) budget =
     (case budget bid of
        Some c \<Rightarrow>
          (if bc_dirty c
           then (case take_dirty bids (budget(bid \<mapsto> c\<lparr>bc_dirty := False\<rparr>)) of (snaps, b) \<Rightarrow> (snap_cell bid c # snaps, b))
           else take_dirty bids budget)
      | None \<Rightarrow> take_dirty bids budget)"

text \<open>Advance the baseline of the first cell of a model.\<close>

fun ack_model :: "string \<times> TierTokens \<Rightarrow> ModelCell list \<Rightarrow> ModelCell list" where
  "ack_model mt [] = []"
| "ack_model mt (m # ms) = (if mc_model m = fst mt then m\<lparr>mc_flushed := snd mt\<rparr> # ms else m # ack_model mt ms)"

definition ack_cell :: "DirtySnap \<Rightarrow> BudgetCell \<Rightarrow> BudgetCell" where
  "ack_cell s c =
     (if bc_window_start c = ds_window s
      then c\<lparr>bc_flushed_requests := ds_cur_requests s, bc_flushed_billable_requests := ds_cur_billable_requests s,
             bc_models := fold ack_model (ds_cur_models s) (bc_models c)\<rparr>
      else c)"

definition nack_cell :: "DirtySnap \<Rightarrow> BudgetCell \<Rightarrow> BudgetCell" where
  "nack_cell s c = (if bc_window_start c = ds_window s then c\<lparr>bc_dirty := True\<rparr> else c)"

definition on_cell :: "(BudgetCell \<Rightarrow> BudgetCell) \<Rightarrow> string \<Rightarrow> (string \<rightharpoonup> BudgetCell) \<Rightarrow> (string \<rightharpoonup> BudgetCell)" where
  "on_cell f bid budget = (case budget bid of Some c \<Rightarrow> budget(bid \<mapsto> f c) | None \<Rightarrow> budget)"

text \<open>
  One snapshot written to the store. The store is a state \<open>st\<close> with its \<open>add_usage\<close>, whose result
  is \<open>None\<close> for an error; a delta of zero needs no write.
\<close>

definition flush_snap ::
  "(string \<Rightarrow> u64 \<Rightarrow> UsageDelta \<Rightarrow> 'st \<Rightarrow> 'st option) \<Rightarrow> DirtySnap \<Rightarrow>
   (string \<rightharpoonup> BudgetCell) \<times> 'st \<times> nat \<Rightarrow> (string \<rightharpoonup> BudgetCell) \<times> 'st \<times> nat" where
  "flush_snap add_usage s acc =
     (case acc of (budget, st, flushed) \<Rightarrow>
        (case (if usage_delta_is_zero (ds_delta s) then Some st
               else add_usage (ds_bucket_id s) (ds_window s) (ds_delta s) st) of
           Some st' \<Rightarrow> (on_cell (ack_cell s) (ds_bucket_id s) budget, st', Suc flushed)
         | None \<Rightarrow> (on_cell (nack_cell s) (ds_bucket_id s) budget, st, flushed)))"

definition flush_budgets ::
  "(string \<Rightarrow> u64 \<Rightarrow> UsageDelta \<Rightarrow> 'st \<Rightarrow> 'st option) \<Rightarrow> string list \<Rightarrow> Gov \<Rightarrow> 'st \<Rightarrow> Gov \<times> 'st \<times> nat" where
  "flush_budgets add_usage bids g st =
     (case take_dirty bids (gs_budget g) of (snaps, budget) \<Rightarrow>
        (case fold (flush_snap add_usage) snaps (budget, st, 0) of (budget', st', flushed) \<Rightarrow>
           (g\<lparr>gs_budget := budget'\<rparr>, st', flushed)))"

section \<open>Hydration at boot\<close>

definition hydrated_cell :: "u64 \<Rightarrow> u64 \<Rightarrow> UsageLedger \<Rightarrow> BudgetCell" where
  "hydrated_cell window now l =
     (cell_fresh window)\<lparr>bc_last_touch := now,
        bc_requests := ul_requests l, bc_flushed_requests := ul_requests l,
        bc_billable_requests := ul_billable_requests l, bc_flushed_billable_requests := ul_billable_requests l,
        bc_models := map (\<lambda>m. \<lparr>mc_model = mt_model m, mc_cur = mt_tokens m, mc_flushed = mt_tokens m\<rparr>) (ul_models l)\<rparr>"

fun hydrate_buckets ::
  "(string \<Rightarrow> u64 \<Rightarrow> UsageLedger option) \<Rightarrow> u64 \<Rightarrow> (string \<times> string) list \<Rightarrow> Gov \<Rightarrow> Gov option" where
  "hydrate_buckets get_usage now [] g = Some g"
| "hydrate_buckets get_usage now ((bid, period) # bs) g =
     (let window = budget_window period now in
      case get_usage bid window of
        None \<Rightarrow> None
      | Some l \<Rightarrow>
          if ul_requests l = 0 \<and> ul_models l = [] then hydrate_buckets get_usage now bs g
          else hydrate_buckets get_usage now bs (g\<lparr>gs_budget := (gs_budget g)(bid \<mapsto> hydrated_cell window now l)\<rparr>))"

definition hydrate_budgets ::
  "CostModel \<Rightarrow> VirtualKey list option \<Rightarrow> (string \<Rightarrow> u64 \<Rightarrow> UsageLedger option) \<Rightarrow> u64 \<Rightarrow> Gov \<Rightarrow> Gov option" where
  "hydrate_budgets cost list_keys get_usage now g =
     Option.bind list_keys (\<lambda>keys.
       hydrate_buckets get_usage now
         (map (\<lambda>k. (vk_id k, WINDOW_TOTAL)) keys @
          map (\<lambda>b. (gb_bucket_id b, gb_window b)) (concat (map gr_buckets (cm_groups cost)))) g)"

section \<open>Counters\<close>

text \<open>One counter of a cell, a ledger or a delta: a request count, or one tier of one model.\<close>

datatype Tier = InputTier | OutputTier | CacheReadTier | CacheWriteTier
datatype Counter = RequestCount | BillableCount | TokenCount string Tier

fun tier_of :: "Tier \<Rightarrow> TierTokens \<Rightarrow> u64" where
  "tier_of InputTier t = tt_input t"
| "tier_of OutputTier t = tt_output t"
| "tier_of CacheReadTier t = tt_cache_read t"
| "tier_of CacheWriteTier t = tt_cache_write t"

fun tier_of_delta :: "Tier \<Rightarrow> TierTokensDelta \<Rightarrow> i64" where
  "tier_of_delta InputTier t = td_input t"
| "tier_of_delta OutputTier t = td_output t"
| "tier_of_delta CacheReadTier t = td_cache_read t"
| "tier_of_delta CacheWriteTier t = td_cache_write t"

definition model_count :: "string \<Rightarrow> Tier \<Rightarrow> (string \<times> TierTokens) list \<Rightarrow> u64" where
  "model_count m tier ms = (case map_of ms m of Some t \<Rightarrow> tier_of tier t | None \<Rightarrow> 0)"

definition acked_views :: "BudgetCell \<Rightarrow> (string \<times> TierTokens) list" where
  "acked_views c = map (\<lambda>m. (mc_model m, mc_flushed m)) (bc_models c)"

definition ledger_views :: "UsageLedger \<Rightarrow> (string \<times> TierTokens) list" where
  "ledger_views l = map (\<lambda>m. (mt_model m, mt_tokens m)) (ul_models l)"

fun cell_count :: "Counter \<Rightarrow> BudgetCell \<Rightarrow> u64" where
  "cell_count RequestCount c = bc_requests c"
| "cell_count BillableCount c = bc_billable_requests c"
| "cell_count (TokenCount m tier) c = model_count m tier (model_views c)"

fun acked_count :: "Counter \<Rightarrow> BudgetCell \<Rightarrow> u64" where
  "acked_count RequestCount c = bc_flushed_requests c"
| "acked_count BillableCount c = bc_flushed_billable_requests c"
| "acked_count (TokenCount m tier) c = model_count m tier (acked_views c)"

fun ledger_count :: "Counter \<Rightarrow> UsageLedger \<Rightarrow> u64" where
  "ledger_count RequestCount l = ul_requests l"
| "ledger_count BillableCount l = ul_billable_requests l"
| "ledger_count (TokenCount m tier) l = model_count m tier (ledger_views l)"

fun snap_count :: "Counter \<Rightarrow> DirtySnap \<Rightarrow> u64" where
  "snap_count RequestCount s = ds_cur_requests s"
| "snap_count BillableCount s = ds_cur_billable_requests s"
| "snap_count (TokenCount m tier) s = model_count m tier (ds_cur_models s)"

definition model_delta_count :: "string \<Rightarrow> Tier \<Rightarrow> ModelTokensDelta list \<Rightarrow> i64" where
  "model_delta_count m tier ds = sum_list (map (\<lambda>d. if md_model d = m then tier_of_delta tier (md_tokens d) else 0) ds)"

fun delta_count :: "Counter \<Rightarrow> UsageDelta \<Rightarrow> i64" where
  "delta_count RequestCount d = ud_requests d"
| "delta_count BillableCount d = ud_billable_requests d"
| "delta_count (TokenCount m tier) d = model_delta_count m tier (ud_models d)"

abbreviation models_distinct :: "BudgetCell \<Rightarrow> bool" where
  "models_distinct c \<equiv> distinct (map mc_model (bc_models c))"

lemma model_count_simps [simp]:
  "model_count m tier [] = 0"
  "model_count m tier ((n, t) # ms) = (if n = m then tier_of tier t else model_count m tier ms)"
  by (simp_all add: model_count_def)

lemma model_count_absent: "m \<notin> fst ` set ms \<Longrightarrow> model_count m tier ms = 0"
  unfolding model_count_def by (metis map_of_eq_None_iff option.simps(4))

lemma model_delta_count_simps [simp]:
  "model_delta_count m tier [] = 0"
  "model_delta_count m tier (d # ds) = (if md_model d = m then tier_of_delta tier (md_tokens d) else 0) + model_delta_count m tier ds"
  by (simp_all add: model_delta_count_def)

lemma model_delta_absent: "m \<notin> md_model ` set ds \<Longrightarrow> model_delta_count m tier ds = 0"
  by (induction ds) auto

subsection \<open>Applying a delta\<close>

lemma tier_apply [simp]:
  "tier_of tier (apply_tier_delta d t) = saturating_add_signed (tier_of tier t) (tier_of_delta tier d)"
  by (cases tier) (simp_all add: apply_tier_delta_def)

lemma tier_none [simp]: "tier_of tier no_tokens = 0"
  by (cases tier) (simp_all add: no_tokens_def)

lemma saturating_add_signed_0 [simp]: "a \<le> u64_max \<Longrightarrow> saturating_add_signed a 0 = a"
  by (simp add: saturating_add_signed_def)

lemma saturating_add_signed_exact:
  "0 \<le> int a + d \<Longrightarrow> int a + d \<le> int u64_max \<Longrightarrow> int (saturating_add_signed a d) = int a + d"
  by (simp add: saturating_add_signed_def min_def nat_le_iff)

lemma saturating_add_signed_le [simp]: "saturating_add_signed a d \<le> u64_max"
  by (simp add: saturating_add_signed_def)

definition ledger_fits :: "UsageLedger \<Rightarrow> bool" where
  "ledger_fits l \<longleftrightarrow> (\<forall>k. ledger_count k l \<le> u64_max)"

lemma apply_model_count:
  "model_count m tier (map (\<lambda>m. (mt_model m, mt_tokens m)) (apply_model_delta d ms)) =
     (if md_model d = m
      then saturating_add_signed (model_count m tier (map (\<lambda>m. (mt_model m, mt_tokens m)) ms)) (tier_of_delta tier (md_tokens d))
      else model_count m tier (map (\<lambda>m. (mt_model m, mt_tokens m)) ms))"
  by (induction ms) auto

lemma apply_models_count:
  assumes "distinct (map md_model ds)" and "model_count m tier (map (\<lambda>m. (mt_model m, mt_tokens m)) ms) \<le> u64_max"
  shows "model_count m tier (map (\<lambda>m. (mt_model m, mt_tokens m)) (fold apply_model_delta ds ms)) =
     saturating_add_signed (model_count m tier (map (\<lambda>m. (mt_model m, mt_tokens m)) ms)) (model_delta_count m tier ds)"
  using assms
proof (induction ds arbitrary: ms)
  case (Cons d ds)
  then show ?case
    by (cases "md_model d = m") (simp_all add: apply_model_count model_delta_absent)
qed simp

lemma apply_delta_count:
  assumes "distinct (map md_model (ud_models d))" and "ledger_fits l"
  shows "ledger_count k (apply_delta d l) = saturating_add_signed (ledger_count k l) (delta_count k d)"
proof (cases k)
  case (TokenCount m tier)
  have "ledger_count k l \<le> u64_max" using assms(2) by (simp add: ledger_fits_def)
  then show ?thesis
    using apply_models_count [OF assms(1), of m tier "ul_models l"] by (simp add: TokenCount apply_delta_def ledger_views_def)
qed (simp_all add: apply_delta_def)

lemma apply_delta_fits: "distinct (map md_model (ud_models d)) \<Longrightarrow> ledger_fits l \<Longrightarrow> ledger_fits (apply_delta d l)"
  using apply_delta_count by (simp add: ledger_fits_def)

lemma zero_tier_delta: "delta_is_zero d \<Longrightarrow> tier_of_delta tier d = 0"
  by (cases tier) (simp_all add: delta_is_zero_def)

lemma zero_models_count: "list_all (\<lambda>m. delta_is_zero (md_tokens m)) ds \<Longrightarrow> model_delta_count m tier ds = 0"
  by (induction ds) (simp_all add: zero_tier_delta)

lemma usage_delta_zero_count: "usage_delta_is_zero d \<Longrightarrow> delta_count k d = 0"
  by (cases k) (simp_all add: usage_delta_is_zero_def zero_models_count)

subsection \<open>Snapshots\<close>

lemma tier_delta_count [simp]:
  "tier_of_delta tier (tier_delta m) = signed_counter (tier_of tier (mc_cur m)) - signed_counter (tier_of tier (mc_flushed m))"
  by (cases tier) (simp_all add: tier_delta_def)

lemma signed_counter_0 [simp]: "signed_counter 0 = 0"
  by (simp add: signed_counter_def i64_of_u64_def i64_max_def)

lemma signed_counter_nonneg [simp]: "0 \<le> signed_counter n"
  by (simp add: signed_counter_def i64_of_u64_range)

lemma model_deltas_count:
  assumes "distinct (map mc_model ms)"
  shows "model_delta_count m tier (model_deltas ms) =
     signed_counter (model_count m tier (map (\<lambda>m. (mc_model m, mc_cur m)) ms))
   - signed_counter (model_count m tier (map (\<lambda>m. (mc_model m, mc_flushed m)) ms))"
  using assms
proof (induction ms)
  case (Cons x ms)
  have "model_delta_count m tier (model_deltas (x # ms))
      = (if mc_model x = m then tier_of_delta tier (tier_delta x) else 0) + model_delta_count m tier (model_deltas ms)"
    using zero_tier_delta [of "tier_delta x" tier] by (simp add: model_deltas_def)
  moreover have "model_delta_count m tier (model_deltas ms) = 0" if "mc_model x = m"
    using Cons.prems that by (intro model_delta_absent) (auto simp: model_deltas_def)
  ultimately show ?case using Cons by (auto split: if_splits)
qed (simp add: model_deltas_def)

lemma snap_delta_count:
  "models_distinct c \<Longrightarrow> delta_count k (ds_delta (snap_cell bid c)) = signed_counter (cell_count k c) - signed_counter (acked_count k c)"
  by (cases k) (simp_all add: snap_cell_def model_deltas_count model_views_def acked_views_def)

lemma snap_count_cell [simp]: "snap_count k (snap_cell bid c) = cell_count k c"
  by (cases k) (simp_all add: snap_cell_def)

lemma snap_models_distinct:
  "models_distinct c \<Longrightarrow> distinct (map md_model (ud_models (ds_delta (snap_cell bid c))))"
  by (simp add: snap_cell_def model_deltas_def comp_def distinct_map_filter)

subsection \<open>Acknowledgements\<close>

lemma ack_model_views:
  "map (\<lambda>m. (mc_model m, mc_cur m)) (ack_model mt ms) = map (\<lambda>m. (mc_model m, mc_cur m)) ms"
  by (induction ms) auto

lemma ack_model_names [simp]: "map mc_model (ack_model mt ms) = map mc_model ms"
  by (induction ms) auto

lemma ack_models_names [simp]: "map mc_model (fold ack_model ts ms) = map mc_model ms"
  by (induction ts arbitrary: ms) simp_all

lemma ack_models_views:
  "map (\<lambda>m. (mc_model m, mc_cur m)) (fold ack_model ts ms) = map (\<lambda>m. (mc_model m, mc_cur m)) ms"
  by (induction ts arbitrary: ms) (simp_all add: ack_model_views)

lemma ack_model_count:
  "model_count m tier (map (\<lambda>m. (mc_model m, mc_flushed m)) (ack_model mt ms)) =
     (if fst mt = m \<and> m \<in> mc_model ` set ms then tier_of tier (snd mt)
      else model_count m tier (map (\<lambda>m. (mc_model m, mc_flushed m)) ms))"
  by (cases mt) (induction ms, auto)

lemma ack_models_count:
  assumes "distinct (map fst ts)"
  shows "model_count m tier (map (\<lambda>m. (mc_model m, mc_flushed m)) (fold ack_model ts ms)) =
     (if m \<in> fst ` set ts \<and> m \<in> mc_model ` set ms then model_count m tier ts
      else model_count m tier (map (\<lambda>m. (mc_model m, mc_flushed m)) ms))"
  using assms
proof (induction ts arbitrary: ms)
  case (Cons mt ts)
  have "mc_model ` set (ack_model mt ms) = mc_model ` set ms"
    using ack_model_names [of mt ms] by (metis set_map)
  then show ?case
    using Cons by (cases mt) (auto simp: ack_model_count)
qed simp

section \<open>The fleet\<close>

text \<open>
  What the engine relies on of a store: a write lands on its row only, and \<open>keeps\<close> says which
  windows the retention of the store spares at a time.
\<close>

locale usage_store =
  fixes get_usage :: "'st \<Rightarrow> string \<Rightarrow> u64 \<Rightarrow> UsageLedger"
    and add_usage :: "u64 \<Rightarrow> string \<Rightarrow> u64 \<Rightarrow> UsageDelta \<Rightarrow> 'st \<Rightarrow> 'st option"
    and keeps :: "u64 \<Rightarrow> u64 \<Rightarrow> bool"
  assumes add_here: "add_usage now b w d st = Some st' \<Longrightarrow> keeps now w \<Longrightarrow> get_usage st' b w = apply_delta d (get_usage st b w)"
    and add_elsewhere: "add_usage now b' w' d st = Some st' \<Longrightarrow> keeps now w \<Longrightarrow> (b', w') \<noteq> (b, w) \<Longrightarrow>
      get_usage st' b w = get_usage st b w"

text \<open>
  Between the snapshot of a cell and its acknowledgement the delta is or is not in the store yet; a
  snapshot whose cell has rolled over before the write is adrift.
\<close>

datatype FlushPhase = Idle | Snapped DirtySnap | Written DirtySnap | Adrift DirtySnap

record FleetNode =
  fn_gov :: Gov
  fn_phase :: FlushPhase

text \<open>
  The ghosts of a fleet, for each counter of the bucket window: what was written to the store and
  not acknowledged, so that it is written again; what the cells that rolled over had counted;
  and what of that never reached the store.
\<close>

record 'st Fleet =
  fl_nodes :: "nat \<Rightarrow> FleetNode"
  fl_store :: 'st
  fl_doubled :: "Counter \<Rightarrow> int"
  fl_retired :: "Counter \<Rightarrow> int"
  fl_dropped :: "Counter \<Rightarrow> int"

definition cell_in :: "u64 \<Rightarrow> BudgetCell option \<Rightarrow> BudgetCell" where
  "cell_in w cell = (case cell of Some c \<Rightarrow> if bc_window_start c = w then c else cell_fresh w | None \<Rightarrow> cell_fresh w)"

definition node_cell :: "string \<Rightarrow> u64 \<Rightarrow> FleetNode \<Rightarrow> BudgetCell" where
  "node_cell bid w n = cell_in w (gs_budget (fn_gov n) bid)"

text \<open>What a node has counted in the window, and what of it has been sent to the store.\<close>

definition counted :: "Counter \<Rightarrow> string \<Rightarrow> u64 \<Rightarrow> FleetNode \<Rightarrow> int" where
  "counted k bid w n = signed_counter (cell_count k (node_cell bid w n))"

definition sent :: "Counter \<Rightarrow> string \<Rightarrow> u64 \<Rightarrow> FleetNode \<Rightarrow> int" where
  "sent k bid w n = signed_counter (acked_count k (node_cell bid w n))
     + (case fn_phase n of Written s \<Rightarrow> delta_count k (ds_delta s) | _ \<Rightarrow> 0)"

definition away :: "u64 \<Rightarrow> BudgetCell option \<Rightarrow> bool" where
  "away w cell \<longleftrightarrow> (case cell of Some c \<Rightarrow> bc_window_start c \<noteq> w | None \<Rightarrow> True)"

text \<open>
  What a node does to its cell of the bucket in the window: the admission's charge, the accrual,
  the refund, the pruning of a sweep, anything in another window of the bucket, and anything that
  leaves the cell alone.
\<close>

inductive cell_work :: "string \<Rightarrow> u64 \<Rightarrow> Gov \<Rightarrow> Gov \<Rightarrow> bool" for bid w where
  charge: "cb_bucket_id b = bid \<Longrightarrow> bc_window_start (live_cell (budget_window (cb_window b) now) (gs_budget g bid)) = w \<Longrightarrow>
    cell_work bid w g (g\<lparr>gs_budget := charge_bucket now b (gs_budget g)\<rparr>)"
| accrue: "bc_window_start (live_cell (budget_window p now) (gs_budget g bid)) = w \<Longrightarrow>
    cell_work bid w g (accrue_bucket bid p model t now g)"
| refund: "cell_work bid w g (refund_bucket bid p now g)"
| prune: "gs_budget g bid = Some c \<Longrightarrow> cell_work bid w g (g\<lparr>gs_budget := (gs_budget g)(bid \<mapsto> prune_dead_models c)\<rparr>)"
| elsewhere: "away w (gs_budget g bid) \<Longrightarrow> away w (gs_budget g' bid) \<Longrightarrow> cell_work bid w g g'"
| other: "gs_budget g' bid = gs_budget g bid \<Longrightarrow> cell_work bid w g g'"

definition set_node :: "nat \<Rightarrow> Gov \<Rightarrow> FlushPhase \<Rightarrow> 'st Fleet \<Rightarrow> 'st Fleet" where
  "set_node i g ph f = f\<lparr>fl_nodes := (fl_nodes f)(i := \<lparr>fn_gov = g, fn_phase = ph\<rparr>)\<rparr>"

definition in_range :: "UsageLedger \<Rightarrow> UsageDelta \<Rightarrow> bool" where
  "in_range l d \<longleftrightarrow> (\<forall>k. 0 \<le> int (ledger_count k l) + delta_count k d \<and> int (ledger_count k l) + delta_count k d \<le> int u64_max)"

fun rolled_phase :: "FlushPhase \<Rightarrow> FlushPhase" where
  "rolled_phase Idle = Idle"
| "rolled_phase (Snapped s) = Adrift s"
| "rolled_phase (Written s) = Idle"
| "rolled_phase (Adrift s) = Adrift s"

text \<open>
  A write lands within the retention of the store and the range of its counters. Its
  acknowledgement may be lost (\<open>lost\<close>): the node takes the delta for unwritten and marks the
  cell. A cell leaves the window (\<open>rolled\<close>) when an admission of a later window resets it or a
  sweep evicts it; the flush in flight then finds no cell to mark. It is not resurrected in the
  old window while that flush is still in flight.
\<close>

inductive fleet_step ::
  "('st \<Rightarrow> string \<Rightarrow> u64 \<Rightarrow> UsageLedger) \<Rightarrow> (u64 \<Rightarrow> string \<Rightarrow> u64 \<Rightarrow> UsageDelta \<Rightarrow> 'st \<Rightarrow> 'st option) \<Rightarrow>
   (u64 \<Rightarrow> u64 \<Rightarrow> bool) \<Rightarrow> nat \<Rightarrow> string \<Rightarrow> u64 \<Rightarrow> 'st Fleet \<Rightarrow> nat \<Rightarrow> 'st Fleet \<Rightarrow> bool"
  for get_usage add_usage keeps N bid w where
  work: "i < N \<Longrightarrow> fl_nodes f i = \<lparr>fn_gov = g, fn_phase = ph\<rparr> \<Longrightarrow> cell_work bid w g g' \<Longrightarrow>
    (case ph of Adrift s \<Rightarrow> away w (gs_budget g' bid) | _ \<Rightarrow> True) \<Longrightarrow>
    fleet_step get_usage add_usage keeps N bid w f i (set_node i g' ph f)"
| snapshot: "i < N \<Longrightarrow> fl_nodes f i = \<lparr>fn_gov = g, fn_phase = Idle\<rparr> \<Longrightarrow> gs_budget g bid = Some c \<Longrightarrow>
    bc_window_start c = w \<Longrightarrow> bc_dirty c \<Longrightarrow>
    fleet_step get_usage add_usage keeps N bid w f i
      (set_node i (g\<lparr>gs_budget := (gs_budget g)(bid \<mapsto> c\<lparr>bc_dirty := False\<rparr>)\<rparr>) (Snapped (snap_cell bid c)) f)"
| zero_delta: "i < N \<Longrightarrow> fl_nodes f i = \<lparr>fn_gov = g, fn_phase = Snapped s\<rparr> \<Longrightarrow> usage_delta_is_zero (ds_delta s) \<Longrightarrow>
    fleet_step get_usage add_usage keeps N bid w f i (set_node i g (Written s) f)"
| written: "i < N \<Longrightarrow> fl_nodes f i = \<lparr>fn_gov = g, fn_phase = Snapped s\<rparr> \<Longrightarrow>
    add_usage now (ds_bucket_id s) (ds_window s) (ds_delta s) (fl_store f) = Some st' \<Longrightarrow> keeps now w \<Longrightarrow>
    in_range (get_usage (fl_store f) bid w) (ds_delta s) \<Longrightarrow>
    fleet_step get_usage add_usage keeps N bid w f i (set_node i g (Written s) (f\<lparr>fl_store := st'\<rparr>))"
| lost: "i < N \<Longrightarrow> fl_nodes f i = \<lparr>fn_gov = g, fn_phase = Snapped s\<rparr> \<Longrightarrow>
    add_usage now (ds_bucket_id s) (ds_window s) (ds_delta s) (fl_store f) = Some st' \<Longrightarrow> keeps now w \<Longrightarrow>
    in_range (get_usage (fl_store f) bid w) (ds_delta s) \<Longrightarrow>
    fleet_step get_usage add_usage keeps N bid w f i
      (set_node i (g\<lparr>gs_budget := on_cell (nack_cell s) (ds_bucket_id s) (gs_budget g)\<rparr>) Idle
        (f\<lparr>fl_store := st', fl_doubled := (\<lambda>k. fl_doubled f k + delta_count k (ds_delta s))\<rparr>))"
| failed: "i < N \<Longrightarrow> fl_nodes f i = \<lparr>fn_gov = g, fn_phase = Snapped s\<rparr> \<Longrightarrow>
    fleet_step get_usage add_usage keeps N bid w f i
      (set_node i (g\<lparr>gs_budget := on_cell (nack_cell s) (ds_bucket_id s) (gs_budget g)\<rparr>) Idle f)"
| acked: "i < N \<Longrightarrow> fl_nodes f i = \<lparr>fn_gov = g, fn_phase = Written s\<rparr> \<Longrightarrow>
    fleet_step get_usage add_usage keeps N bid w f i
      (set_node i (g\<lparr>gs_budget := on_cell (ack_cell s) (ds_bucket_id s) (gs_budget g)\<rparr>) Idle f)"
| rolled: "i < N \<Longrightarrow> fl_nodes f i = \<lparr>fn_gov = g, fn_phase = ph\<rparr> \<Longrightarrow> gs_budget g bid = Some c \<Longrightarrow>
    bc_window_start c = w \<Longrightarrow> away w (gs_budget g' bid) \<Longrightarrow>
    fleet_step get_usage add_usage keeps N bid w f i
      (set_node i g' (rolled_phase ph)
        (f\<lparr>fl_retired := (\<lambda>k. fl_retired f k + counted k bid w (fl_nodes f i)),
           fl_dropped := (\<lambda>k. fl_dropped f k + counted k bid w (fl_nodes f i) - sent k bid w (fl_nodes f i))\<rparr>))"
| stray_written: "i < N \<Longrightarrow> fl_nodes f i = \<lparr>fn_gov = g, fn_phase = Adrift s\<rparr> \<Longrightarrow>
    add_usage now (ds_bucket_id s) (ds_window s) (ds_delta s) (fl_store f) = Some st' \<Longrightarrow> keeps now w \<Longrightarrow>
    in_range (get_usage (fl_store f) bid w) (ds_delta s) \<Longrightarrow> mark = ack_cell s \<or> mark = nack_cell s \<Longrightarrow>
    fleet_step get_usage add_usage keeps N bid w f i
      (set_node i (g\<lparr>gs_budget := on_cell mark (ds_bucket_id s) (gs_budget g)\<rparr>) Idle
        (f\<lparr>fl_store := st', fl_dropped := (\<lambda>k. fl_dropped f k - delta_count k (ds_delta s))\<rparr>))"
| stray_failed: "i < N \<Longrightarrow> fl_nodes f i = \<lparr>fn_gov = g, fn_phase = Adrift s\<rparr> \<Longrightarrow>
    mark = nack_cell s \<or> mark = ack_cell s \<and> usage_delta_is_zero (ds_delta s) \<Longrightarrow>
    fleet_step get_usage add_usage keeps N bid w f i
      (set_node i (g\<lparr>gs_budget := on_cell mark (ds_bucket_id s) (gs_budget g)\<rparr>) Idle f)"
| other_row: "i < N \<Longrightarrow> add_usage now b' w' d (fl_store f) = Some st' \<Longrightarrow> keeps now w \<Longrightarrow> (b', w') \<noteq> (bid, w) \<Longrightarrow>
    fleet_step get_usage add_usage keeps N bid w f i (f\<lparr>fl_store := st'\<rparr>)"

inductive_cases fleet_step_cases: "fleet_step get_usage add_usage keeps N bid w f i f'"

subsection \<open>The invariant of a node\<close>

definition cell_fits :: "BudgetCell \<Rightarrow> bool" where
  "cell_fits c \<longleftrightarrow> (\<forall>k. cell_count k c \<le> u64_max)"

definition snap_ok :: "string \<Rightarrow> DirtySnap \<Rightarrow> BudgetCell \<Rightarrow> bool" where
  "snap_ok bid s c \<longleftrightarrow> ds_bucket_id s = bid \<and> ds_window s = bc_window_start c
     \<and> distinct (map fst (ds_cur_models s)) \<and> distinct (map md_model (ud_models (ds_delta s)))
     \<and> (\<forall>k. delta_count k (ds_delta s) = signed_counter (snap_count k s) - signed_counter (acked_count k c))
     \<and> (\<forall>m tier. snap_count (TokenCount m tier) s \<le> cell_count (TokenCount m tier) c)
     \<and> (\<forall>m tier. m \<notin> fst ` set (ds_cur_models s) \<longrightarrow> acked_count (TokenCount m tier) c = 0)"

definition phase_ok :: "string \<Rightarrow> FlushPhase \<Rightarrow> BudgetCell \<Rightarrow> bool" where
  "phase_ok bid ph c \<longleftrightarrow>
     (case ph of
        Idle \<Rightarrow> \<not> bc_dirty c \<longrightarrow> (\<forall>k. cell_count k c = acked_count k c)
      | Snapped s \<Rightarrow> snap_ok bid s c \<and> (\<not> bc_dirty c \<longrightarrow> (\<forall>k. cell_count k c = snap_count k s))
      | Written s \<Rightarrow> snap_ok bid s c \<and> (\<not> bc_dirty c \<longrightarrow> (\<forall>k. cell_count k c = snap_count k s))
      | Adrift s \<Rightarrow> ds_bucket_id s = bid \<and> ds_window s = bc_window_start c \<and> distinct (map md_model (ud_models (ds_delta s))))"

definition node_ok :: "string \<Rightarrow> u64 \<Rightarrow> FleetNode \<Rightarrow> bool" where
  "node_ok bid w n \<longleftrightarrow>
     models_distinct (node_cell bid w n) \<and> cell_fits (node_cell bid w n) \<and> phase_ok bid (fn_phase n) (node_cell bid w n)
     \<and> (case fn_phase n of Idle \<Rightarrow> True | Adrift s \<Rightarrow> away w (gs_budget (fn_gov n) bid)
        | _ \<Rightarrow> \<exists>c. gs_budget (fn_gov n) bid = Some c \<and> bc_window_start c = w)"

text \<open>What every piece of work keeps of the cell, and what it may change only with the dirty flag up.\<close>

definition cell_kept :: "BudgetCell \<Rightarrow> BudgetCell \<Rightarrow> bool" where
  "cell_kept c c' \<longleftrightarrow> bc_window_start c' = bc_window_start c
     \<and> (models_distinct c \<longrightarrow> models_distinct c') \<and> (cell_fits c \<longrightarrow> cell_fits c')
     \<and> (\<forall>k. acked_count k c' = acked_count k c)
     \<and> (cell_fits c \<longrightarrow> (\<forall>m tier. cell_count (TokenCount m tier) c \<le> cell_count (TokenCount m tier) c'))
     \<and> (\<not> bc_dirty c' \<longrightarrow> \<not> bc_dirty c \<and> (\<forall>k. cell_count k c' = cell_count k c))"

lemma cell_kept_refl: "cell_kept c c"
  by (simp add: cell_kept_def)

lemma kept_phase: "cell_kept c c' \<Longrightarrow> cell_fits c \<Longrightarrow> phase_ok bid ph c \<Longrightarrow> phase_ok bid ph c'"
  by (fastforce simp: cell_kept_def phase_ok_def snap_ok_def split: FlushPhase.splits intro: order_trans)

lemma add_tokens_tier [simp]: "tier_of tier (add_tokens a t) = saturating_add (tier_of tier a) (tier_of tier t)"
  by (cases tier) (simp_all add: add_tokens_def)

lemma accrue_models_names:
  "mc_model ` set (accrue_models model t ms) = insert model (mc_model ` set ms)"
  "distinct (map mc_model ms) \<Longrightarrow> distinct (map mc_model (accrue_models model t ms))"
proof -
  show names: "mc_model ` set (accrue_models model t ms) = insert model (mc_model ` set ms)" for ms
    by (induction ms) auto
  show "distinct (map mc_model ms) \<Longrightarrow> distinct (map mc_model (accrue_models model t ms))"
    by (induction ms) (auto simp: names)
qed

lemma accrue_models_count:
  "model_count m tier (map (\<lambda>m. (mc_model m, mc_cur m)) (accrue_models model t ms)) =
     (if m = model then saturating_add (model_count m tier (map (\<lambda>m. (mc_model m, mc_cur m)) ms)) (tier_of tier t)
      else model_count m tier (map (\<lambda>m. (mc_model m, mc_cur m)) ms))"
  "model_count m tier (map (\<lambda>m. (mc_model m, mc_flushed m)) (accrue_models model t ms)) =
     model_count m tier (map (\<lambda>m. (mc_model m, mc_flushed m)) ms)"
  by (induction ms) auto

lemma accrue_kept: "cell_kept c ((cell_accrue model t c)\<lparr>bc_dirty := True, bc_last_touch := now\<rparr>)"
proof -
  let ?c = "(cell_accrue model t c)\<lparr>bc_dirty := True, bc_last_touch := now\<rparr>"
  have acked: "acked_count k ?c = acked_count k c" for k
    by (cases k) (simp_all add: cell_accrue_def acked_views_def accrue_models_count)
  have count: "cell_count k ?c = (case k of TokenCount m tier \<Rightarrow>
      if m = model then saturating_add (cell_count k c) (tier_of tier t) else cell_count k c | _ \<Rightarrow> cell_count k c)" for k
    by (cases k) (simp_all add: cell_accrue_def model_views_def accrue_models_count)
  have fits: "cell_fits c \<Longrightarrow> cell_fits ?c"
    unfolding cell_fits_def count by (auto split: Counter.splits simp del: cell_count.simps)
  have grows: "cell_fits c \<Longrightarrow> cell_count (TokenCount m tier) c \<le> cell_count (TokenCount m tier) ?c" for m tier
    unfolding count by (auto simp: cell_fits_def intro: saturating_add_ge simp del: cell_count.simps)
  show ?thesis
    using acked fits grows by (simp add: cell_kept_def cell_accrue_def accrue_models_names del: cell_count.simps acked_count.simps)
qed

lemma charge_kept:
  "cell_kept c (c\<lparr>bc_requests := saturating_add (bc_requests c) 1,
                  bc_billable_requests := saturating_add (bc_billable_requests c) 1,
                  bc_dirty := True, bc_last_touch := now\<rparr>)" (is "cell_kept c ?c")
proof -
  have "acked_count k ?c = acked_count k c" for k by (cases k) (simp_all add: acked_views_def)
  moreover have "cell_fits ?c" if "cell_fits c"
    unfolding cell_fits_def
  proof
    show "cell_count k ?c \<le> u64_max" for k
      using that cell_fits_def [of c] by (cases k) (auto simp: model_views_def dest: spec [of _ k])
  qed
  ultimately show ?thesis by (simp add: cell_kept_def model_views_def)
qed

lemma refund_kept:
  "cell_kept c (c\<lparr>bc_billable_requests := saturating_sub (bc_billable_requests c) 1, bc_dirty := True\<rparr>)" (is "cell_kept c ?c")
proof -
  have "acked_count k ?c = acked_count k c" for k by (cases k) (simp_all add: acked_views_def)
  moreover have "cell_fits ?c" if "cell_fits c"
    unfolding cell_fits_def
  proof
    show "cell_count k ?c \<le> u64_max" for k
      using that cell_fits_def [of c] by (cases k) (auto simp: model_views_def saturating_sub_def dest: spec [of _ k])
  qed
  ultimately show ?thesis by (simp add: cell_kept_def model_views_def)
qed

lemma total_zero_tier: "tokens_total t = 0 \<Longrightarrow> tier_of tier t = 0"
  using total_zero [of t] by (cases tier) simp_all

lemma prune_count:
  assumes "distinct (map mc_model ms)"
  shows "model_count m tier (map (\<lambda>m. (mc_model m, mc_cur m))
           (filter (\<lambda>m. tokens_total (mc_cur m) \<noteq> 0 \<or> tokens_total (mc_flushed m) \<noteq> 0) ms))
       = model_count m tier (map (\<lambda>m. (mc_model m, mc_cur m)) ms)"
    and "model_count m tier (map (\<lambda>m. (mc_model m, mc_flushed m))
           (filter (\<lambda>m. tokens_total (mc_cur m) \<noteq> 0 \<or> tokens_total (mc_flushed m) \<noteq> 0) ms))
       = model_count m tier (map (\<lambda>m. (mc_model m, mc_flushed m)) ms)"
  using assms
  by (induction ms) (auto simp: total_zero_tier image_image intro!: model_count_absent)

lemma prune_kept:
  assumes "models_distinct c"
  shows "cell_kept c (prune_dead_models c)"
proof -
  have views: "model_count m tier (model_views (prune_dead_models c)) = model_count m tier (model_views c)"
    "model_count m tier (acked_views (prune_dead_models c)) = model_count m tier (acked_views c)" for m tier
    using prune_count [OF assms, of m tier] by (simp_all add: model_views_def acked_views_def prune_dead_models_def)
  have "cell_count k (prune_dead_models c) = cell_count k c" for k
    by (cases k) (simp_all add: views)
  moreover have "acked_count k (prune_dead_models c) = acked_count k c" for k
    by (cases k) (simp_all add: views, simp_all add: prune_dead_models_def)
  ultimately show ?thesis
    using assms by (simp add: cell_kept_def cell_fits_def prune_dead_models_def distinct_map_filter)
qed

lemma live_cell_in: "bc_window_start (live_cell x cell) = w \<Longrightarrow> live_cell x cell = cell_in w cell"
  by (auto simp: live_cell_def cell_in_def cell_fresh_def split: option.splits if_splits)

lemma cell_in_window [simp]: "bc_window_start (cell_in w cell) = w"
  by (simp add: cell_in_def cell_fresh_def split: option.splits)

lemma cell_in_away: "away w cell \<Longrightarrow> cell_in w cell = cell_fresh w"
  by (auto simp: away_def cell_in_def split: option.splits)

lemma cell_in_Some [simp]: "bc_window_start c = w \<Longrightarrow> cell_in w (Some c) = c"
  by (simp add: cell_in_def)

lemma cell_work_kept:
  assumes "cell_work bid w g g'" and "models_distinct (cell_in w (gs_budget g bid))"
  shows "cell_kept (cell_in w (gs_budget g bid)) (cell_in w (gs_budget g' bid))
    \<and> ((\<exists>c. gs_budget g bid = Some c \<and> bc_window_start c = w) \<longrightarrow> (\<exists>c. gs_budget g' bid = Some c \<and> bc_window_start c = w))"
  using assms(1)
proof cases
  case (charge b now)
  let ?c = "live_cell (budget_window (cb_window b) now) (gs_budget g bid)"
  have at: "gs_budget g' bid = Some (?c\<lparr>bc_requests := saturating_add (bc_requests ?c) 1,
      bc_billable_requests := saturating_add (bc_billable_requests ?c) 1, bc_dirty := True, bc_last_touch := now\<rparr>)"
    using charge by (simp add: charge_bucket_def Let_def)
  then show ?thesis
    using charge_kept [of ?c now] charge(3) live_cell_in [OF charge(3)] by simp
next
  case (accrue p now model t)
  let ?c = "live_cell (budget_window p now) (gs_budget g bid)"
  have at: "gs_budget g' bid = Some ((cell_accrue model t ?c)\<lparr>bc_dirty := True, bc_last_touch := now\<rparr>)"
    using accrue by (simp add: accrue_bucket_def Let_def)
  have "bc_window_start (cell_accrue model t ?c) = w" using accrue(2) by (simp add: cell_accrue_def)
  then show ?thesis
    using accrue_kept [of ?c now model t] accrue(2) live_cell_in [OF accrue(2)] at by simp
next
  case (refund p now)
  show ?thesis
  proof (cases "\<exists>c. gs_budget g bid = Some c \<and> bc_window_start c = budget_window p now")
    case True
    then obtain c where c: "gs_budget g bid = Some c" "bc_window_start c = budget_window p now" by blast
    then have at: "gs_budget g' bid = Some (c\<lparr>bc_billable_requests := saturating_sub (bc_billable_requests c) 1, bc_dirty := True\<rparr>)"
      using refund by (simp add: refund_bucket_def Let_def)
    then show ?thesis
      using refund_kept [of c] c cell_kept_refl by (cases "bc_window_start c = w") (simp_all add: cell_in_def)
  next
    case False
    then have "g' = g" using refund by (auto simp: refund_bucket_def Let_def split: option.splits)
    then show ?thesis by (simp add: cell_kept_refl)
  qed
next
  case (prune c)
  then show ?thesis
    using assms(2) prune_kept [of c] cell_kept_refl by (cases "bc_window_start c = w") (simp_all add: cell_in_def)
next
  case elsewhere
  then show ?thesis by (auto simp: cell_in_away cell_kept_refl away_def)
next
  case other
  then show ?thesis by (simp add: cell_kept_refl)
qed

lemma node_ok_work:
  assumes "node_ok bid w \<lparr>fn_gov = g, fn_phase = ph\<rparr>" and "cell_work bid w g g'"
    and "case ph of Adrift s \<Rightarrow> away w (gs_budget g' bid) | _ \<Rightarrow> True"
  shows "node_ok bid w \<lparr>fn_gov = g', fn_phase = ph\<rparr>"
    and "acked_count k (cell_in w (gs_budget g' bid)) = acked_count k (cell_in w (gs_budget g bid))"
proof -
  have ok: "models_distinct (cell_in w (gs_budget g bid))" "cell_fits (cell_in w (gs_budget g bid))"
    "phase_ok bid ph (cell_in w (gs_budget g bid))"
    using assms(1) by (simp_all add: node_ok_def node_cell_def)
  note kept = cell_work_kept [OF assms(2) ok(1)]
  show "acked_count k (cell_in w (gs_budget g' bid)) = acked_count k (cell_in w (gs_budget g bid))"
    using kept by (simp add: cell_kept_def)
  show "node_ok bid w \<lparr>fn_gov = g', fn_phase = ph\<rparr>"
    using assms(1,3) ok kept kept_phase [OF _ ok(2,3)]
    by (cases ph) (simp_all add: node_ok_def node_cell_def cell_kept_def)
qed

subsection \<open>Snapshot and acknowledgement\<close>

lemma snap_cell_ok:
  assumes "models_distinct c"
  shows "snap_ok bid (snap_cell bid c) (c\<lparr>bc_dirty := False\<rparr>)"
proof -
  have "acked_count k (c\<lparr>bc_dirty := False\<rparr>) = acked_count k c" "cell_count k (c\<lparr>bc_dirty := False\<rparr>) = cell_count k c" for k
    by (cases k; simp add: acked_views_def model_views_def)+
  moreover have "acked_count (TokenCount m tier) c = 0" if "m \<notin> fst ` set (ds_cur_models (snap_cell bid c))" for m tier
    using that by (auto simp: snap_cell_def model_views_def acked_views_def image_image intro!: model_count_absent)
  moreover have "distinct (map fst (ds_cur_models (snap_cell bid c)))"
    using assms by (simp add: snap_cell_def model_views_def comp_def)
  ultimately show ?thesis
    using assms snap_delta_count [OF assms] snap_models_distinct [OF assms]
    by (simp add: snap_ok_def del: cell_count.simps acked_count.simps snap_count.simps delta_count.simps)
       (simp add: snap_cell_def)
qed

lemma dirty_flag_counts [simp]:
  "cell_count k (c\<lparr>bc_dirty := d\<rparr>) = cell_count k c" "acked_count k (c\<lparr>bc_dirty := d\<rparr>) = acked_count k c"
  by (cases k; simp add: acked_views_def model_views_def)+

lemma ack_cell_acked:
  assumes "snap_ok bid s c"
  shows "acked_count k (ack_cell s c) = snap_count k s"
proof (cases k)
  case (TokenCount m tier)
  have names: "distinct (map fst (ds_cur_models s))" using assms by (simp add: snap_ok_def)
  have count: "acked_count k (ack_cell s c) =
      (if m \<in> fst ` set (ds_cur_models s) \<and> m \<in> mc_model ` set (bc_models c) then snap_count k s else acked_count k c)"
    using assms ack_models_count [OF names, of m tier "bc_models c"]
    by (simp add: TokenCount ack_cell_def acked_views_def snap_ok_def)
  show ?thesis
  proof (cases "m \<in> fst ` set (ds_cur_models s)")
    case True
    have "snap_count k s = 0 \<and> acked_count k c = 0" if "m \<notin> mc_model ` set (bc_models c)"
    proof -
      have "cell_count k c = 0" "acked_count k c = 0"
        using that by (auto simp: TokenCount model_views_def acked_views_def image_image intro!: model_count_absent)
      moreover have "snap_count k s \<le> cell_count k c"
        using assms unfolding snap_ok_def TokenCount by blast
      ultimately show ?thesis by simp
    qed
    then show ?thesis using count True by simp
  next
    case False
    then have "acked_count k c = 0" using assms unfolding snap_ok_def TokenCount by blast
    moreover have "snap_count k s = 0" using False by (simp add: TokenCount model_count_absent)
    ultimately show ?thesis using count False by simp
  qed
qed (use assms in \<open>simp_all add: ack_cell_def snap_ok_def\<close>)

lemma ack_cell_kept:
  "cell_count k (ack_cell s c) = cell_count k c" "bc_window_start (ack_cell s c) = bc_window_start c"
  "bc_dirty (ack_cell s c) = bc_dirty c" "models_distinct (ack_cell s c) = models_distinct c"
  by (cases k; simp add: ack_cell_def model_views_def ack_models_views) (simp_all add: ack_cell_def)

lemma node_ok_snapshot:
  assumes "node_ok bid w \<lparr>fn_gov = g, fn_phase = Idle\<rparr>" and "gs_budget g bid = Some c" and "bc_window_start c = w"
  shows "node_ok bid w \<lparr>fn_gov = g\<lparr>gs_budget := (gs_budget g)(bid \<mapsto> c\<lparr>bc_dirty := False\<rparr>)\<rparr>, fn_phase = Snapped (snap_cell bid c)\<rparr>"
  using assms snap_cell_ok [of c bid] by (simp add: node_ok_def node_cell_def phase_ok_def cell_fits_def)

lemma node_ok_settled:
  assumes "node_ok bid w \<lparr>fn_gov = g, fn_phase = ph\<rparr>" and "ph = Snapped s \<or> ph = Written s"
  shows "\<exists>c. gs_budget g bid = Some c \<and> bc_window_start c = w \<and> snap_ok bid s c
     \<and> gs_budget (g\<lparr>gs_budget := on_cell f (ds_bucket_id s) (gs_budget g)\<rparr>) bid = Some (f c)"
  using assms by (auto simp: node_ok_def node_cell_def phase_ok_def snap_ok_def on_cell_def)

lemma node_ok_failed:
  assumes "node_ok bid w \<lparr>fn_gov = g, fn_phase = Snapped s\<rparr>"
  shows "node_ok bid w \<lparr>fn_gov = g\<lparr>gs_budget := on_cell (nack_cell s) (ds_bucket_id s) (gs_budget g)\<rparr>, fn_phase = Idle\<rparr>"
    and "acked_count k (cell_in w (on_cell (nack_cell s) (ds_bucket_id s) (gs_budget g) bid)) = acked_count k (cell_in w (gs_budget g bid))"
  using node_ok_settled [OF assms, of s "nack_cell s"] assms
  by (auto simp: node_ok_def node_cell_def phase_ok_def cell_fits_def nack_cell_def snap_ok_def)

lemma node_ok_acked:
  assumes "node_ok bid w \<lparr>fn_gov = g, fn_phase = Written s\<rparr>"
  shows "node_ok bid w \<lparr>fn_gov = g\<lparr>gs_budget := on_cell (ack_cell s) (ds_bucket_id s) (gs_budget g)\<rparr>, fn_phase = Idle\<rparr>"
    and "signed_counter (acked_count k (cell_in w (on_cell (ack_cell s) (ds_bucket_id s) (gs_budget g) bid)))
       = signed_counter (acked_count k (cell_in w (gs_budget g bid))) + delta_count k (ds_delta s)"
proof -
  obtain c where c: "gs_budget g bid = Some c" "bc_window_start c = w" "snap_ok bid s c"
    and after: "gs_budget (g\<lparr>gs_budget := on_cell (ack_cell s) (ds_bucket_id s) (gs_budget g)\<rparr>) bid = Some (ack_cell s c)"
    using node_ok_settled [OF assms, of s "ack_cell s"] by blast
  note acked = ack_cell_acked [OF c(3)]
  show "signed_counter (acked_count k (cell_in w (on_cell (ack_cell s) (ds_bucket_id s) (gs_budget g) bid)))
      = signed_counter (acked_count k (cell_in w (gs_budget g bid))) + delta_count k (ds_delta s)"
    using c after acked [of k] by (simp add: ack_cell_kept snap_ok_def)
  show "node_ok bid w \<lparr>fn_gov = g\<lparr>gs_budget := on_cell (ack_cell s) (ds_bucket_id s) (gs_budget g)\<rparr>, fn_phase = Idle\<rparr>"
    using assms c after acked by (simp add: node_ok_def node_cell_def phase_ok_def cell_fits_def ack_cell_kept)
qed

section \<open>The durable ledger is the sum of what the nodes acknowledged\<close>

definition fleet_sum :: "(FleetNode \<Rightarrow> int) \<Rightarrow> nat \<Rightarrow> 'st Fleet \<Rightarrow> int" where
  "fleet_sum F N f = (\<Sum>i<N. F (fl_nodes f i))"

lemma fleet_sum_set:
  assumes "i < N"
  shows "fleet_sum F N (set_node i g ph f) = fleet_sum F N f - F (fl_nodes f i) + F \<lparr>fn_gov = g, fn_phase = ph\<rparr>"
proof -
  have split: "fleet_sum F N f = F (fl_nodes f i) + (\<Sum>j\<in>{..<N} - {i}. F (fl_nodes f j))" for f :: "'st Fleet"
    using assms by (simp add: fleet_sum_def sum.remove)
  have "(\<Sum>j\<in>{..<N} - {i}. F (fl_nodes (set_node i g ph f) j)) = (\<Sum>j\<in>{..<N} - {i}. F (fl_nodes f j))"
    by (intro sum.cong) (auto simp: set_node_def)
  moreover have "fl_nodes (set_node i g ph f) i = \<lparr>fn_gov = g, fn_phase = ph\<rparr>" by (simp add: set_node_def)
  ultimately show ?thesis using split [of f] split [of "set_node i g ph f"] by simp
qed

lemma set_node_simps [simp]: "fl_store (set_node i g ph f) = fl_store f"
  "fl_nodes (set_node i g ph f) j = (if j = i then \<lparr>fn_gov = g, fn_phase = ph\<rparr> else fl_nodes f j)"
  by (simp_all add: set_node_def)

lemma set_node_ghosts [simp]:
  "fl_doubled (set_node i g ph f) = fl_doubled f" "fl_retired (set_node i g ph f) = fl_retired f"
  "fl_dropped (set_node i g ph f) = fl_dropped f"
  by (simp_all add: set_node_def)

lemma fleet_sum_store [simp]: "fleet_sum F N (fl_store_update h f) = fleet_sum F N f"
  "fleet_sum F N (fl_doubled_update u f) = fleet_sum F N f" "fleet_sum F N (fl_retired_update u f) = fleet_sum F N f"
  "fleet_sum F N (fl_dropped_update u f) = fleet_sum F N f"
  by (simp_all add: fleet_sum_def)

definition fleet_inv ::
  "('st \<Rightarrow> string \<Rightarrow> u64 \<Rightarrow> UsageLedger) \<Rightarrow> nat \<Rightarrow> string \<Rightarrow> u64 \<Rightarrow> 'st Fleet \<Rightarrow> 'st Fleet \<Rightarrow> bool" where
  "fleet_inv get_usage N bid w f0 f \<longleftrightarrow>
     (\<forall>i<N. node_ok bid w (fl_nodes f i)) \<and> ledger_fits (get_usage (fl_store f) bid w)
     \<and> (\<forall>k. int (ledger_count k (get_usage (fl_store f) bid w))
             - (fleet_sum (sent k bid w) N f + fl_doubled f k + fl_retired f k - fl_dropped f k)
           = int (ledger_count k (get_usage (fl_store f0) bid w)) - fleet_sum (sent k bid w) N f0)"

lemma fleet_node_ok: "fleet_inv get_usage N bid w f0 f \<Longrightarrow> i < N \<Longrightarrow> fl_nodes f i = n \<Longrightarrow> node_ok bid w n"
  by (auto simp: fleet_inv_def)

lemma fleet_fits: "fleet_inv get_usage N bid w f0 f \<Longrightarrow> ledger_fits (get_usage (fl_store f) bid w)"
  by (simp add: fleet_inv_def)

text \<open>A step of one node keeps the invariant when its own account stays balanced.\<close>

definition account :: "('st \<Rightarrow> string \<Rightarrow> u64 \<Rightarrow> UsageLedger) \<Rightarrow> string \<Rightarrow> u64 \<Rightarrow> Counter \<Rightarrow> FleetNode \<Rightarrow> 'st Fleet \<Rightarrow> int" where
  "account get_usage bid w k n f =
     int (ledger_count k (get_usage (fl_store f) bid w)) - (sent k bid w n + fl_doubled f k + fl_retired f k - fl_dropped f k)"

lemma fleet_inv_change:
  assumes "fleet_inv get_usage N bid w f0 f" and "i < N" and "node_ok bid w \<lparr>fn_gov = g, fn_phase = ph\<rparr>"
    and "ledger_fits (get_usage (fl_store f2) bid w)" and "fl_nodes f2 = fl_nodes f"
    and "\<And>k. account get_usage bid w k \<lparr>fn_gov = g, fn_phase = ph\<rparr> f2 = account get_usage bid w k (fl_nodes f i) f"
  shows "fleet_inv get_usage N bid w f0 (set_node i g ph f2)"
proof -
  have sums: "fleet_sum F N f2 = fleet_sum F N f" for F by (simp add: fleet_sum_def assms(5))
  have "int (ledger_count k (get_usage (fl_store f2) bid w))
      - (fleet_sum (sent k bid w) N (set_node i g ph f2) + fl_doubled f2 k + fl_retired f2 k - fl_dropped f2 k)
    = int (ledger_count k (get_usage (fl_store f0) bid w)) - fleet_sum (sent k bid w) N f0" for k
  proof -
    have "int (ledger_count k (get_usage (fl_store f) bid w))
        - (fleet_sum (sent k bid w) N f + fl_doubled f k + fl_retired f k - fl_dropped f k)
      = int (ledger_count k (get_usage (fl_store f0) bid w)) - fleet_sum (sent k bid w) N f0"
      using assms(1) by (simp only: fleet_inv_def)
    then show ?thesis using assms(6) [of k] by (simp add: fleet_sum_set [OF assms(2)] sums account_def assms(5))
  qed
  then show ?thesis using assms(1-5) by (simp only: fleet_inv_def set_node_simps set_node_ghosts) simp
qed

lemma fleet_inv_set:
  assumes "fleet_inv get_usage N bid w f0 f" and "i < N" and "node_ok bid w \<lparr>fn_gov = g, fn_phase = ph\<rparr>"
    and "\<And>k. sent k bid w \<lparr>fn_gov = g, fn_phase = ph\<rparr> = sent k bid w (fl_nodes f i)"
  shows "fleet_inv get_usage N bid w f0 (set_node i g ph f)"
  by (rule fleet_inv_change [OF assms(1-3)]) (use assms(1,4) in \<open>simp_all add: account_def fleet_inv_def\<close>)

text \<open>A snapshot that rolls away, and one whose cell is gone.\<close>

lemma cell_fresh_counts:
  "cell_count k (cell_fresh w) = 0" "acked_count k (cell_fresh w) = 0" "models_distinct (cell_fresh w)" "bc_window_start (cell_fresh w) = w"
  by (cases k; simp add: cell_fresh_def model_views_def acked_views_def)+

lemma node_ok_rolled:
  assumes "node_ok bid w \<lparr>fn_gov = g, fn_phase = ph\<rparr>" and "gs_budget g bid = Some c" and "bc_window_start c = w"
    and "away w (gs_budget g' bid)"
  shows "node_ok bid w \<lparr>fn_gov = g', fn_phase = rolled_phase ph\<rparr>"
  using assms
  by (cases ph) (simp_all add: node_ok_def node_cell_def cell_in_away phase_ok_def snap_ok_def cell_fits_def cell_fresh_counts)

lemma on_cell_away:
  assumes "away (ds_window s) (gs_budget g (ds_bucket_id s))" and "mark = ack_cell s \<or> mark = nack_cell s"
  shows "g\<lparr>gs_budget := on_cell mark (ds_bucket_id s) (gs_budget g)\<rparr> = g"
proof -
  have "on_cell mark (ds_bucket_id s) (gs_budget g) = gs_budget g"
    using assms by (auto simp: on_cell_def away_def ack_cell_def nack_cell_def split: option.splits)
  then show ?thesis by simp
qed

lemma node_ok_stray:
  assumes "node_ok bid w \<lparr>fn_gov = g, fn_phase = Adrift s\<rparr>" and "mark = ack_cell s \<or> mark = nack_cell s"
  shows "node_ok bid w \<lparr>fn_gov = g, fn_phase = Idle\<rparr>" and "g\<lparr>gs_budget := on_cell mark (ds_bucket_id s) (gs_budget g)\<rparr> = g"
    and "ds_bucket_id s = bid" and "ds_window s = w" and "distinct (map md_model (ud_models (ds_delta s)))"
proof -
  have ok: "away w (gs_budget g bid)" "phase_ok bid (Adrift s) (cell_in w (gs_budget g bid))"
    using assms(1) by (simp_all add: node_ok_def node_cell_def)
  then show row: "ds_bucket_id s = bid" "ds_window s = w" "distinct (map md_model (ud_models (ds_delta s)))"
    by (simp_all add: phase_ok_def)
  show "g\<lparr>gs_budget := on_cell mark (ds_bucket_id s) (gs_budget g)\<rparr> = g"
    by (rule on_cell_away [OF _ assms(2)]) (simp add: row ok(1))
  show "node_ok bid w \<lparr>fn_gov = g, fn_phase = Idle\<rparr>"
    using assms(1) ok(1) by (simp add: node_ok_def node_cell_def phase_ok_def cell_in_away cell_fresh_counts)
qed

context usage_store
begin

text \<open>What a write within range does to the counters of its row.\<close>

lemma write_lands:
  assumes "add_usage now bid w d st = Some st'" and "keeps now w" and "distinct (map md_model (ud_models d))"
    and "ledger_fits (get_usage st bid w)" and "in_range (get_usage st bid w) d"
  shows "int (ledger_count k (get_usage st' bid w)) = int (ledger_count k (get_usage st bid w)) + delta_count k d"
    and "ledger_fits (get_usage st' bid w)"
proof -
  have new: "get_usage st' bid w = apply_delta d (get_usage st bid w)" by (rule add_here [OF assms(1,2)])
  show "int (ledger_count k (get_usage st' bid w)) = int (ledger_count k (get_usage st bid w)) + delta_count k d"
    using assms(5) saturating_add_signed_exact [of "ledger_count k (get_usage st bid w)" "delta_count k d"]
    by (simp add: new apply_delta_count [OF assms(3,4)] in_range_def)
  show "ledger_fits (get_usage st' bid w)" by (simp add: new apply_delta_fits [OF assms(3,4)])
qed

lemma snapped_row:
  assumes "node_ok bid w \<lparr>fn_gov = g, fn_phase = Snapped s\<rparr>"
  shows "ds_bucket_id s = bid" and "ds_window s = w" and "distinct (map md_model (ud_models (ds_delta s)))"
    and "node_ok bid w \<lparr>fn_gov = g, fn_phase = Written s\<rparr>"
  using assms by (simp_all add: node_ok_def node_cell_def phase_ok_def snap_ok_def)

lemma fleet_step_inv:
  assumes "fleet_inv get_usage N bid w f0 f" and "fleet_step get_usage add_usage keeps N bid w f i f'"
  shows "fleet_inv get_usage N bid w f0 f'"
  using assms(2)
proof cases
  case (work g ph g')
  have ok: "node_ok bid w \<lparr>fn_gov = g, fn_phase = ph\<rparr>" by (rule fleet_node_ok [OF assms(1) work(2,3)])
  show ?thesis
    unfolding work(1)
    by (rule fleet_inv_set [OF assms(1) work(2) node_ok_work(1) [OF ok work(4,5)]])
       (simp add: work(3) sent_def node_cell_def node_ok_work(2) [OF ok work(4,5)])
next
  case (snapshot g c)
  have ok: "node_ok bid w \<lparr>fn_gov = g, fn_phase = Idle\<rparr>" by (rule fleet_node_ok [OF assms(1) snapshot(2,3)])
  show ?thesis
    unfolding snapshot(1)
    by (rule fleet_inv_set [OF assms(1) snapshot(2) node_ok_snapshot [OF ok snapshot(4,5)]])
       (simp add: snapshot(3-5) sent_def node_cell_def)
next
  case (zero_delta g s)
  have ok: "node_ok bid w \<lparr>fn_gov = g, fn_phase = Snapped s\<rparr>" by (rule fleet_node_ok [OF assms(1) zero_delta(2,3)])
  then have "node_ok bid w \<lparr>fn_gov = g, fn_phase = Written s\<rparr>"
    by (simp add: node_ok_def node_cell_def phase_ok_def)
  then show ?thesis
    unfolding zero_delta(1)
    by (rule fleet_inv_set [OF assms(1) zero_delta(2)])
       (simp add: zero_delta(3) sent_def node_cell_def usage_delta_zero_count [OF zero_delta(4)])
next
  case (written g s now st')
  have ok: "node_ok bid w \<lparr>fn_gov = g, fn_phase = Snapped s\<rparr>" by (rule fleet_node_ok [OF assms(1) written(2,3)])
  note row = snapped_row [OF ok]
  note lands = write_lands [OF written(4) [unfolded row(1,2)] written(5) row(3) fleet_fits [OF assms(1)] written(6)]
  show ?thesis
    unfolding written(1)
    by (rule fleet_inv_change [OF assms(1) written(2) row(4)])
       (simp_all add: lands written(3) account_def sent_def node_cell_def)
next
  case (lost g s now st')
  have ok: "node_ok bid w \<lparr>fn_gov = g, fn_phase = Snapped s\<rparr>" by (rule fleet_node_ok [OF assms(1) lost(2,3)])
  note row = snapped_row [OF ok]
  note lands = write_lands [OF lost(4) [unfolded row(1,2)] lost(5) row(3) fleet_fits [OF assms(1)] lost(6)]
  show ?thesis
    unfolding lost(1)
    by (rule fleet_inv_change [OF assms(1) lost(2) node_ok_failed(1) [OF ok]])
       (simp_all add: lands lost(3) account_def sent_def node_cell_def node_ok_failed(2) [OF ok])
next
  case (failed g s)
  have ok: "node_ok bid w \<lparr>fn_gov = g, fn_phase = Snapped s\<rparr>" by (rule fleet_node_ok [OF assms(1) failed(2,3)])
  show ?thesis
    unfolding failed(1)
    by (rule fleet_inv_set [OF assms(1) failed(2) node_ok_failed(1) [OF ok]])
       (simp add: failed(3) sent_def node_cell_def node_ok_failed(2) [OF ok])
next
  case (acked g s)
  have ok: "node_ok bid w \<lparr>fn_gov = g, fn_phase = Written s\<rparr>" by (rule fleet_node_ok [OF assms(1) acked(2,3)])
  show ?thesis
    unfolding acked(1)
    by (rule fleet_inv_set [OF assms(1) acked(2) node_ok_acked(1) [OF ok]])
       (simp add: acked(3) sent_def node_cell_def node_ok_acked(2) [OF ok])
next
  case (rolled g ph c g')
  have ok: "node_ok bid w \<lparr>fn_gov = g, fn_phase = ph\<rparr>" by (rule fleet_node_ok [OF assms(1) rolled(2,3)])
  have "sent k bid w \<lparr>fn_gov = g', fn_phase = rolled_phase ph\<rparr> = 0" for k
    by (cases ph)
      (simp_all add: sent_def node_cell_def cell_in_away [OF rolled(6)] cell_fresh_counts signed_counter_def
        i64_of_u64_def i64_max_def)
  then show ?thesis
    unfolding rolled(1)
    by (intro fleet_inv_change [OF assms(1) rolled(2) node_ok_rolled [OF ok rolled(4-6)]]) (simp_all add: account_def fleet_fits [OF assms(1)])
next
  case (stray_written g s now st' mark)
  have ok: "node_ok bid w \<lparr>fn_gov = g, fn_phase = Adrift s\<rparr>" by (rule fleet_node_ok [OF assms(1) stray_written(2,3)])
  note row = node_ok_stray [OF ok stray_written(7)]
  note lands = write_lands [OF stray_written(4) [unfolded row(3,4)] stray_written(5) row(5) fleet_fits [OF assms(1)] stray_written(6)]
  show ?thesis
    unfolding stray_written(1) row(2)
    by (rule fleet_inv_change [OF assms(1) stray_written(2) row(1)])
       (simp_all add: lands stray_written(3) account_def sent_def node_cell_def)
next
  case (stray_failed g s mark)
  have ok: "node_ok bid w \<lparr>fn_gov = g, fn_phase = Adrift s\<rparr>" by (rule fleet_node_ok [OF assms(1) stray_failed(2,3)])
  have "mark = ack_cell s \<or> mark = nack_cell s" using stray_failed(4) by blast
  note row = node_ok_stray [OF ok this]
  show ?thesis
    unfolding stray_failed(1) row(2)
    by (rule fleet_inv_set [OF assms(1) stray_failed(2) row(1)]) (simp add: stray_failed(3) sent_def node_cell_def)
next
  case (other_row now b' w' d st')
  then have "get_usage st' bid w = get_usage (fl_store f) bid w" by (intro add_elsewhere) auto
  then show ?thesis using assms(1) other_row by (simp add: fleet_inv_def)
qed

end

text \<open>All flushes acknowledged and every cell clean; also how a node starts.\<close>

definition fleet_quiet :: "nat \<Rightarrow> string \<Rightarrow> u64 \<Rightarrow> 'st Fleet \<Rightarrow> bool" where
  "fleet_quiet N bid w f \<longleftrightarrow> (\<forall>i<N. fn_phase (fl_nodes f i) = Idle \<and> \<not> bc_dirty (node_cell bid w (fl_nodes f i)))"

definition fleet_start :: "('st \<Rightarrow> string \<Rightarrow> u64 \<Rightarrow> UsageLedger) \<Rightarrow> nat \<Rightarrow> string \<Rightarrow> u64 \<Rightarrow> 'st Fleet \<Rightarrow> bool" where
  "fleet_start get_usage N bid w f \<longleftrightarrow>
     ledger_fits (get_usage (fl_store f) bid w)
     \<and> fl_doubled f = (\<lambda>k. 0) \<and> fl_retired f = (\<lambda>k. 0) \<and> fl_dropped f = (\<lambda>k. 0)
     \<and> (\<forall>i<N. fn_phase (fl_nodes f i) = Idle \<and> models_distinct (node_cell bid w (fl_nodes f i))
           \<and> cell_fits (node_cell bid w (fl_nodes f i))
           \<and> (\<forall>k. cell_count k (node_cell bid w (fl_nodes f i)) = acked_count k (node_cell bid w (fl_nodes f i))))"

lemma fleet_start_inv: "fleet_start get_usage N bid w f \<Longrightarrow> fleet_inv get_usage N bid w f f"
  by (simp add: fleet_start_def fleet_inv_def node_ok_def phase_ok_def)

context usage_store
begin

lemma fleet_additive:
  assumes "fleet_start get_usage N bid w f0" and "trace (fleet_step get_usage add_usage keeps N bid w) f0 es f"
    and "fleet_quiet N bid w f"
  shows "int (ledger_count k (get_usage (fl_store f) bid w))
       = int (ledger_count k (get_usage (fl_store f0) bid w))
         + (fleet_sum (counted k bid w) N f + fl_retired f k - fleet_sum (counted k bid w) N f0)
         + fl_doubled f k - fl_dropped f k"
proof -
  have inv: "fleet_inv get_usage N bid w f0 f"
    using assms(2,1)
    by (induction rule: trace.induct) (auto intro: fleet_start_inv fleet_step_inv)
  have "fleet_sum (sent k bid w) N f0 = fleet_sum (counted k bid w) N f0"
    using assms(1) by (simp add: fleet_sum_def fleet_start_def sent_def counted_def)
  moreover have "fleet_sum (sent k bid w) N f = fleet_sum (counted k bid w) N f"
    using assms(3) inv
    by (simp add: fleet_sum_def fleet_quiet_def fleet_inv_def sent_def counted_def node_ok_def phase_ok_def)
  moreover have "int (ledger_count k (get_usage (fl_store f) bid w))
      - (fleet_sum (sent k bid w) N f + fl_doubled f k + fl_retired f k - fl_dropped f k)
      = int (ledger_count k (get_usage (fl_store f0) bid w)) - fleet_sum (sent k bid w) N f0"
    using inv by (simp only: fleet_inv_def)
  ultimately show ?thesis by simp
qed

end

end
