(* ===== verification/Gov_Machine.thy ===== *)
theory Gov_Machine
  imports Usage_Flush
begin

text \<open>
  The limit engine under concurrent use. An admission runs under the gauges' compare-and-swap and
  its shard locks, an accrual, a refund and the pieces of a flush under a shard lock each, so an
  execution is a sequence of these operations: the step relation \<open>gov_step\<close>, for a fixed cost
  model. The clock of an admission is pinned at ingress, so admissions come in any order of their
  clocks: one that arrives late, dated before the latest clock of the run, is checked and charged
  where its bucket's cell is. An accrual and a refund carry the pinned clock of an earlier
  admission. The history of the admissions is a ghost component.

  The lemmas show that no ordering admits more requests than a cap allows, that the gauges count the
  grants that are alive, and that refusals charge nothing.
\<close>

section \<open>Models and keys\<close>

text \<open>
  A cost model resolved from groups the validator accepts, with pools whose names hold no \<open>@\<close>,
  and a key whose id is no group bucket's.
\<close>

definition sound_model :: "CostModel \<Rightarrow> bool" where
  "sound_model cost \<longleftrightarrow> (\<exists>cfg pool_exists rates fee.
     validate_groups cfg pool_exists = [] \<and> distinct (map fst cfg) \<and> plain_groups cfg \<and> cost = resolve_parts rates fee cfg)"

definition plain_key :: "VirtualKey \<Rightarrow> bool" where
  "plain_key key \<longleftrightarrow> strip_prefix GROUP_BUCKET_PREFIX (vk_id key) = None"

definition group_bucket :: "CostModel \<Rightarrow> GroupBucket \<Rightarrow> bool" where
  "group_bucket cost b \<longleftrightarrow> b \<in> set (all_buckets (cm_groups cost))"

lemma sound_model_names: "sound_model cost \<Longrightarrow> distinct (map gr_name (cm_groups cost))"
  and sound_model_ids: "sound_model cost \<Longrightarrow> distinct (map gb_bucket_id (all_buckets (cm_groups cost)))"
proof -
  assume "sound_model cost"
  then obtain cfg pool_exists rates fee where cfg: "distinct (map fst cfg)" "plain_groups cfg" "cost = resolve_parts rates fee cfg"
    by (auto simp: sound_model_def)
  obtain groups idx where proj: "project_groups cfg = (groups, idx)" by fastforce
  have cm: "cm_groups cost = groups" by (simp add: cfg(3) resolve_parts_def proj)
  show "distinct (map gr_name (cm_groups cost))"
    using project_groups_facts(4) [OF proj] cfg(1) by (simp add: cm)
  show "distinct (map gb_bucket_id (all_buckets (cm_groups cost)))"
    using bucket_ids_distinct [OF proj cfg(1,2)] by (simp add: cm)
qed

lemma sound_model_prefix:
  assumes "sound_model cost" and "group_bucket cost b"
  shows "strip_prefix GROUP_BUCKET_PREFIX (gb_bucket_id b) \<noteq> None"
proof -
  obtain cfg pool_exists rates fee where cfg: "distinct (map fst cfg)" "plain_groups cfg" "cost = resolve_parts rates fee cfg"
    using assms(1) by (auto simp: sound_model_def)
  obtain groups idx where proj: "project_groups cfg = (groups, idx)" by fastforce
  have cm: "cm_groups cost = groups" by (simp add: cfg(3) resolve_parts_def proj)
  obtain g where g: "g \<in> set groups" "b \<in> set (gr_buckets g)"
    using assms(2) by (auto simp: group_bucket_def all_buckets_def cm)
  obtain c where c: "(gr_name g, c) \<in> set cfg" "buckets_ok (gr_name g) (set (gc_limits c)) (gr_buckets g)"
    using project_groups_buckets [OF proj cfg(1) g(1)] by blast
  have "\<forall>l \<in> set (gc_limits c). plain_scope (lc_scope l)" using cfg(2) c(1) by (auto simp: plain_groups_def)
  from buckets_ok_plain(2) [OF c(2) this g(2)] obtain w s
    where "gb_bucket_id b = bucket_id_of (gr_name g) (window_as_str w) s" by blast
  then show ?thesis
    using strip_prefix_eq [of GROUP_BUCKET_PREFIX "gb_bucket_id b"] by (fastforce simp: bucket_id_parts)
qed

lemma distinct_concat_parts:
  assumes "distinct (map f (concat (map h xs)))"
  shows "x \<in> set xs \<Longrightarrow> distinct (map f (h x))"
    and "x \<in> set xs \<Longrightarrow> y \<in> set xs \<Longrightarrow> x \<noteq> y \<Longrightarrow> f ` set (h x) \<inter> f ` set (h y) = {}"
  using assms
proof (induction xs)
  case (Cons a xs)
  { case 1 then show ?case using Cons by auto }
  { case 2
    have out: "f ` set (h a) \<inter> f ` set (h z) = {}" if "z \<in> set xs" for z
      using 2(4) that by (auto simp: image_iff)
    have "distinct (map f (concat (map h xs)))" using 2(4) by simp
    then have rest: "f ` set (h x) \<inter> f ` set (h y) = {}" if "x \<in> set xs" "y \<in> set xs"
      using Cons.IH(2) 2(3) that by blast
    consider "x \<in> set xs" "y \<in> set xs" | "x = a" "y \<in> set xs" | "y = a" "x \<in> set xs"
      using 2(1-3) by auto
    then show ?case
      by cases (use rest out in \<open>auto simp: Int_commute\<close>) }
qed simp_all

lemma distinct_concat_subset:
  assumes "distinct (map f (concat (map h xs)))" and "distinct ys" and "set ys \<subseteq> set xs"
  shows "distinct (map f (concat (map h ys)))"
  using assms(2,3)
proof (induction ys)
  case (Cons y ys)
  then have y: "distinct (map f (h y))" using distinct_concat_parts(1) [OF assms(1)] by simp
  have "f ` set (h y) \<inter> f ` set (h z) = {}" if "z \<in> set ys" for z
    using Cons.prems that by (intro distinct_concat_parts(2) [OF assms(1)]) auto
  then have "f ` set (h y) \<inter> f ` set (concat (map h ys)) = {}" by auto
  then show ?case using Cons y by (auto simp: image_Un)
qed simp

text \<open>The chain of any key: its own bucket, then buckets of the model, no id twice.\<close>

lemma chain_shape:
  assumes "sound_model cost" and "plain_key key" and "chain_for cost key = Inr chain"
  shows "distinct (map cb_bucket_id (ch_buckets chain))"
    and "b \<in> set (ch_buckets chain) \<Longrightarrow> b = key_bucket (vk_id key)
           \<or> (\<exists>g \<in> set (cm_groups cost). \<exists>gb \<in> set (gr_buckets g). b = chain_bucket g gb)"
    and "\<forall>gi \<in> set (ch_groups chain). gi < length (cm_groups cost)"
    and "distinct (map (\<lambda>gi. gr_name (cm_groups cost ! gi)) (ch_groups chain))"
proof -
  obtain cfg pool_exists rates fee where cfg: "validate_groups cfg pool_exists = []" "distinct (map fst cfg)"
    "plain_groups cfg" "cost = resolve_parts rates fee cfg"
    using assms(1) by (auto simp: sound_model_def)
  obtain groups idx where proj: "project_groups cfg = (groups, idx)" by fastforce
  have cm: "cm_groups cost = groups" "cm_group_idx cost = idx" by (simp_all add: cfg(4) resolve_parts_def proj)
  have shape: "ch_buckets chain = key_bucket (vk_id key) #
        concat (map (\<lambda>i. map (chain_bucket (groups ! i)) (gr_buckets (groups ! i))) (ch_groups chain))
      \<and> (\<forall>i \<in> set (ch_groups chain). i < length groups)
      \<and> distinct (map (\<lambda>gi. gr_name (groups ! gi)) (ch_groups chain))"
  proof (cases "vk_group key")
    case None
    then show ?thesis
      using assms(3) by (cases "length groups") (auto simp: chain_for_def Let_def cm)
  next
    case (Some n)
    then obtain i where i: "idx n = Some i"
      using assms(3) by (auto simp: chain_for_def cm split: option.splits)
    then have n: "n \<in> fst ` set cfg" using project_groups_facts(2) [OF proj, of n] by auto
    obtain ns c where c: "chain_for cost key = Inr c" "distinct ns"
      "map (\<lambda>i. gr_name (cm_groups cost ! i)) (ch_groups c) = ns" "\<forall>i \<in> set (ch_groups c). i < length (cm_groups cost)"
      "ch_buckets c = key_bucket (vk_id key) #
         concat (map (\<lambda>i. map (chain_bucket (cm_groups cost ! i)) (gr_buckets (cm_groups cost ! i))) (ch_groups c))"
      by (rule chain_of_validated [OF cfg(1,2) n cfg(4) Some])
    have "c = chain" using c(1) assms(3) by simp
    then show ?thesis using c(2-) by (simp add: cm(1))
  qed
  then show "\<forall>gi \<in> set (ch_groups chain). gi < length (cm_groups cost)"
    and "distinct (map (\<lambda>gi. gr_name (cm_groups cost ! gi)) (ch_groups chain))" by (simp_all add: cm)
  show mem: "b \<in> set (ch_buckets chain) \<Longrightarrow> b = key_bucket (vk_id key)
      \<or> (\<exists>g \<in> set (cm_groups cost). \<exists>gb \<in> set (gr_buckets g). b = chain_bucket g gb)" for b
    using shape by (auto simp: cm)
  let ?gs = "map (\<lambda>i. groups ! i) (ch_groups chain)"
  have ids: "map cb_bucket_id (ch_buckets chain) = vk_id key # map gb_bucket_id (concat (map gr_buckets ?gs))"
    using shape by (simp add: key_bucket_def map_concat comp_def chain_bucket_def)
  have "distinct (map gr_name ?gs)" using shape by (simp add: comp_def)
  then have "distinct ?gs" by (simp only: distinct_map)
  then have sub: "distinct (map gb_bucket_id (concat (map gr_buckets ?gs)))"
    using sound_model_ids [OF assms(1)] shape unfolding all_buckets_def cm
    by (elim distinct_concat_subset) auto
  have "vk_id key \<notin> set (map gb_bucket_id (concat (map gr_buckets ?gs)))"
  proof
    assume "vk_id key \<in> set (map gb_bucket_id (concat (map gr_buckets ?gs)))"
    then obtain gi b where "gi \<in> set (ch_groups chain)" "b \<in> set (gr_buckets (groups ! gi))" "gb_bucket_id b = vk_id key" by auto
    then have "group_bucket cost b" using shape by (auto simp: group_bucket_def all_buckets_def cm)
    from sound_model_prefix [OF assms(1) this] show False
      using assms(2) \<open>gb_bucket_id b = vk_id key\<close> by (simp add: plain_key_def)
  qed
  then show "distinct (map cb_bucket_id (ch_buckets chain))" using sub by (simp add: ids)
qed

lemma ids_inject:
  "sound_model cost \<Longrightarrow> group_bucket cost b \<Longrightarrow> group_bucket cost b' \<Longrightarrow> gb_bucket_id b = gb_bucket_id b' \<Longrightarrow> b = b'"
  using sound_model_ids [of cost] by (auto simp: group_bucket_def distinct_map dest: inj_onD)

text \<open>A bucket of a chain with the id of a group bucket is that bucket.\<close>

lemma chain_bucket_of:
  assumes "sound_model cost" and "plain_key key" and "chain_for cost key = Inr chain" and "group_bucket cost gb"
    and "b \<in> set (ch_buckets chain)" and "cb_bucket_id b = gb_bucket_id gb"
  shows "cb_window b = gb_window gb \<and> cb_requests_cap b = gb_requests_cap gb"
proof -
  consider "b = key_bucket (vk_id key)" | g b' where "g \<in> set (cm_groups cost)" "b' \<in> set (gr_buckets g)" "b = chain_bucket g b'"
    using chain_shape(2) [OF assms(1-3,5)] by blast
  then show ?thesis
  proof cases
    case 1
    then show ?thesis
      using sound_model_prefix [OF assms(1,4)] assms(2,6) by (simp add: key_bucket_def plain_key_def)
  next
    case (2 g b')
    then have "group_bucket cost b'" by (auto simp: group_bucket_def all_buckets_def)
    then have "b' = gb" using ids_inject [OF assms(1) _ assms(4)] 2(3) assms(6) by (simp add: chain_bucket_def)
    then show ?thesis using 2(3) by (simp add: chain_bucket_def)
  qed
qed

lemma capped_bucket_enforced:
  assumes "sound_model cost" and "group_bucket cost gb" and "has_windowed_cap gb"
  shows "still_enforces_a_cap cost (gb_bucket_id gb)"
proof -
  obtain cfg rates fee where cost: "cost = resolve_parts rates fee cfg" using assms(1) by (auto simp: sound_model_def)
  obtain groups idx where proj: "project_groups cfg = (groups, idx)" by fastforce
  show ?thesis
    using assms(2,3)
    by (auto simp: cost resolve_parts_def proj still_enforces_a_cap_def bucket_enforces_a_cap_def capped_bucket_ids_def
        group_bucket_def all_buckets_def)
qed

section \<open>Windows run forward\<close>

lemma window_mono:
  assumes "t \<le> t'"
  shows "budget_window w t \<le> budget_window w t'"
proof (cases "window_end w t'")
  case None
  then show ?thesis using window_frame [of w t'] by simp
next
  case (Some e)
  then have frame: "budget_window w t' \<le> t'" "t' < e"
    "\<And>s. (budget_window w s = budget_window w t') = (budget_window w t' \<le> s \<and> s < e)"
    using window_frame [of w t'] by auto
  show ?thesis
  proof (cases "budget_window w t' \<le> t")
    case True
    then show ?thesis using frame assms by (metis le_less_trans order_refl)
  next
    case False
    have "budget_window w t \<le> t" using window_frame [of w t] by (auto split: option.splits)
    then show ?thesis using False by simp
  qed
qed

section \<open>Runs\<close>

record GovRun =
  run_gov :: Gov
  run_grants :: "AdmitGrant list"
  run_clock :: u64
  run_history :: "(VirtualKey \<times> string \<times> u64) list"
  run_late :: "string \<Rightarrow> u64 \<Rightarrow> nat"

datatype GovEvent =
    Admit VirtualKey string u64
  | Release AdmitGrant
  | Usage VirtualKey string string TierTokens u64
  | Refund VirtualKey string u64
  | FlushTake string
  | FlushAck DirtySnap
  | FlushRetry DirtySnap

text \<open>
  The ghosts of a run: the admissions that came on time, and how many late ones the ledger charged to
  each window of each bucket; \<open>placed\<close> reads off where it put one.
\<close>

definition placed :: "CostModel \<Rightarrow> VirtualKey \<Rightarrow> string \<Rightarrow> Gov \<Rightarrow> string \<Rightarrow> u64 \<Rightarrow> nat" where
  "placed cost key pool g bid window =
     (case chain_for cost key of
        Inl _ \<Rightarrow> 0
      | Inr chain \<Rightarrow>
          of_bool (list_ex (\<lambda>b. cb_bucket_id b = bid) (pool_buckets chain pool)
            \<and> map_option bc_window_start (gs_budget g bid) = Some window))"

definition after_admit :: "CostModel \<Rightarrow> VirtualKey \<Rightarrow> string \<Rightarrow> u64 \<Rightarrow> Gov \<Rightarrow> AdmitGrant \<Rightarrow> GovRun \<Rightarrow> GovRun" where
  "after_admit cost key pool now g grant r =
     (if run_clock r \<le> now
      then r\<lparr>run_gov := g, run_grants := grant # run_grants r, run_clock := now, run_history := run_history r @ [(key, pool, now)]\<rparr>
      else r\<lparr>run_gov := g, run_grants := grant # run_grants r,
             run_late := (\<lambda>bid window. run_late r bid window + placed cost key pool g bid window)\<rparr>)"

inductive gov_step :: "u32 \<Rightarrow> CostModel \<Rightarrow> GovRun \<Rightarrow> GovEvent \<Rightarrow> GovRun \<Rightarrow> bool" for iv cost where
  admitted: "gov_try_admit iv cost key pool now (run_gov r) = (g, Inr grant) \<Longrightarrow> plain_key key \<Longrightarrow>
    max (run_clock r) now < u64_max \<Longrightarrow>
    gov_step iv cost r (Admit key pool now) (after_admit cost key pool now g grant r)"
| refused: "gov_try_admit iv cost key pool now (run_gov r) = (g, Inl blocked) \<Longrightarrow> plain_key key \<Longrightarrow>
    max (run_clock r) now < u64_max \<Longrightarrow>
    gov_step iv cost r (Admit key pool now) (r\<lparr>run_gov := g, run_clock := max (run_clock r) now\<rparr>)"
| released: "grant \<in> set (run_grants r) \<Longrightarrow>
    gov_step iv cost r (Release grant)
      (r\<lparr>run_gov := (run_gov r)\<lparr>gs_concurrent := drop_grant grant (gs_concurrent (run_gov r))\<rparr>,
         run_grants := remove1 grant (run_grants r)\<rparr>)"
| usage: "plain_key key \<Longrightarrow> t \<le> run_clock r \<Longrightarrow>
    gov_step iv cost r (Usage key pool model tokens t) (r\<lparr>run_gov := record_usage cost key pool model tokens t (run_gov r)\<rparr>)"
| refund: "plain_key key \<Longrightarrow> t \<le> run_clock r \<Longrightarrow>
    gov_step iv cost r (Refund key pool t) (r\<lparr>run_gov := refund_request cost key pool t (run_gov r)\<rparr>)"
| flush_take: "gs_budget (run_gov r) bid = Some c \<Longrightarrow>
    gov_step iv cost r (FlushTake bid)
      (r\<lparr>run_gov := (run_gov r)\<lparr>gs_budget := (gs_budget (run_gov r))(bid \<mapsto> c\<lparr>bc_dirty := False\<rparr>)\<rparr>\<rparr>)"
| flush_ack: "gov_step iv cost r (FlushAck s)
      (r\<lparr>run_gov := (run_gov r)\<lparr>gs_budget := on_cell (ack_cell s) (ds_bucket_id s) (gs_budget (run_gov r))\<rparr>\<rparr>)"
| flush_retry: "gov_step iv cost r (FlushRetry s)
      (r\<lparr>run_gov := (run_gov r)\<lparr>gs_budget := on_cell (nack_cell s) (ds_bucket_id s) (gs_budget (run_gov r))\<rparr>\<rparr>)"

inductive_cases gov_step_cases: "gov_step iv cost r e r'"

definition gov_init :: "GovRun \<Rightarrow> bool" where
  "gov_init r \<longleftrightarrow> gs_budget (run_gov r) = Map.empty \<and> gs_concurrent (run_gov r) = Map.empty
     \<and> run_grants r = [] \<and> run_history r = [] \<and> run_late r = (\<lambda>bid window. 0)"

text \<open>The reference: how many admissions of a history fall into a window of a bucket.\<close>

definition admitted_to :: "CostModel \<Rightarrow> string \<Rightarrow> u64 \<Rightarrow> VirtualKey \<times> string \<times> u64 \<Rightarrow> bool" where
  "admitted_to cost bid window a =
     (case a of (key, pool, now) \<Rightarrow>
        case chain_for cost key of
          Inl _ \<Rightarrow> False
        | Inr chain \<Rightarrow> list_ex (\<lambda>b. cb_bucket_id b = bid \<and> budget_window (cb_window b) now = window) (pool_buckets chain pool))"

definition admissions_in :: "CostModel \<Rightarrow> string \<Rightarrow> u64 \<Rightarrow> (VirtualKey \<times> string \<times> u64) list \<Rightarrow> nat" where
  "admissions_in cost bid window history = length (filter (admitted_to cost bid window) history)"

definition live_holds :: "AdmitGrant list \<Rightarrow> string \<Rightarrow> nat" where
  "live_holds grants grp = count_list (concat (map ag_gauges grants)) grp"

section \<open>What the operations do to a cell\<close>

definition ledger_ok :: "string \<Rightarrow> u64 \<Rightarrow> BudgetCell option \<Rightarrow> u64 \<Rightarrow> bool" where
  "ledger_ok w clock cell n \<longleftrightarrow>
     (case cell of
        Some c \<Rightarrow> bc_window_start c \<le> budget_window w clock \<and> window_of w (bc_window_start c)
          \<and> n = (if bc_window_start c = budget_window w clock then bc_requests c else 0)
      | None \<Rightarrow> n = 0)"

lemma ledger_ok_same:
  "ledger_ok w clock (Some c) n \<Longrightarrow> bc_window_start c' = bc_window_start c \<Longrightarrow> bc_requests c' = bc_requests c \<Longrightarrow>
   ledger_ok w clock (Some c') n"
  by (simp add: ledger_ok_def)

lemma ledger_ok_live:
  assumes "ledger_ok w clock cell n" and "t \<le> clock"
  shows "ledger_ok w clock (Some (live_cell (budget_window w t) cell)) n"
  using assms window_mono [OF assms(2), of w]
  by (auto simp: ledger_ok_def live_cell_def cell_fresh_def window_of_def split: option.splits)

lemma ledger_ok_accrue:
  assumes "ledger_ok w clock (gs_budget g bid) n" and "t \<le> clock" and "b = bid \<Longrightarrow> p = w"
  shows "ledger_ok w clock (gs_budget (accrue_bucket b p model tokens t g) bid) n"
proof (cases "b = bid")
  case True
  then show ?thesis
    using ledger_ok_same [OF ledger_ok_live [OF assms(1,2)]] assms(3) by (simp add: accrue_bucket_def Let_def cell_accrue_def)
qed (use assms in \<open>simp add: accrue_bucket_def Let_def\<close>)

lemma ledger_ok_refund:
  assumes "ledger_ok w clock (gs_budget g bid) n"
  shows "ledger_ok w clock (gs_budget (refund_bucket b p t g) bid) n"
  using assms by (auto simp: refund_bucket_def Let_def ledger_ok_def split: option.splits)

lemma ledger_ok_on_cell:
  assumes "ledger_ok w clock (budget bid) n" and "\<And>c. bc_window_start (f c) = bc_window_start c \<and> bc_requests (f c) = bc_requests c"
  shows "ledger_ok w clock (on_cell f b budget bid) n"
  using assms by (auto simp: on_cell_def ledger_ok_def split: option.splits)

lemma ledger_ok_fold:
  assumes "ledger_ok w clock (gs_budget g bid) n"
    and "\<And>b g. b \<in> set bs \<Longrightarrow> ledger_ok w clock (gs_budget g bid) n \<Longrightarrow> ledger_ok w clock (gs_budget (f b g) bid) n"
  shows "ledger_ok w clock (gs_budget (fold f bs g) bid) n"
  using assms by (induction bs arbitrary: g) simp_all

lemma ledger_ok_usage:
  assumes "sound_model cost" and "plain_key key" and "group_bucket cost gb" and "t \<le> clock"
    and "ledger_ok (gb_window gb) clock (gs_budget g (gb_bucket_id gb)) n"
  shows "ledger_ok (gb_window gb) clock (gs_budget (record_usage cost key pool model tokens t g) (gb_bucket_id gb)) n"
proof (cases "chain_for cost key")
  case (Inl m)
  have "vk_id key \<noteq> gb_bucket_id gb"
    using sound_model_prefix [OF assms(1,3)] assms(2) by (auto simp: plain_key_def)
  then show ?thesis
    using assms(5) ledger_ok_accrue [OF assms(5,4)] by (simp add: record_usage_def Inl)
next
  case (Inr chain)
  have "ledger_ok (gb_window gb) clock (gs_budget (fold (\<lambda>b. accrue_bucket (cb_bucket_id b) (cb_window b) model tokens t)
      (pool_buckets chain pool) g) (gb_bucket_id gb)) n"
  proof (rule ledger_ok_fold [OF assms(5)])
    fix b and g :: Gov
    assume "b \<in> set (pool_buckets chain pool)" and ok: "ledger_ok (gb_window gb) clock (gs_budget g (gb_bucket_id gb)) n"
    then have "b \<in> set (ch_buckets chain)" by (simp add: pool_buckets_def)
    then show "ledger_ok (gb_window gb) clock
        (gs_budget (accrue_bucket (cb_bucket_id b) (cb_window b) model tokens t g) (gb_bucket_id gb)) n"
      using ledger_ok_accrue [OF ok assms(4)] chain_bucket_of [OF assms(1,2) Inr assms(3)] by blast
  qed
  then show ?thesis using assms(5) by (simp add: record_usage_def Inr)
qed

lemma ledger_ok_refund_request:
  assumes "ledger_ok w clock (gs_budget g bid) n"
  shows "ledger_ok w clock (gs_budget (refund_request cost key pool t g) bid) n"
  using assms
  by (auto simp: refund_request_def intro!: ledger_ok_refund ledger_ok_fold split: sum.splits)

lemma ledger_ok_advance:
  assumes "ledger_ok w clock cell n" and "clock \<le> now"
  shows "ledger_ok w now cell (if budget_window w now = budget_window w clock then n else 0)"
  using assms window_mono [OF assms(2), of w] by (auto simp: ledger_ok_def split: option.splits if_splits)

section \<open>Admissions\<close>

lemma charge_all_cell:
  assumes "distinct (map cb_bucket_id bs)"
  shows "fold (charge_bucket now) bs budget bid =
     (case find (\<lambda>b. cb_bucket_id b = bid) bs of
        None \<Rightarrow> budget bid
      | Some b \<Rightarrow>
          let cell = live_cell (budget_window (cb_window b) now) (budget bid)
          in Some (cell\<lparr>bc_requests := saturating_add (bc_requests cell) 1,
                        bc_billable_requests := saturating_add (bc_billable_requests cell) 1,
                        bc_dirty := True, bc_last_touch := now\<rparr>))"
  using assms
proof (induction bs arbitrary: budget)
  case (Cons b bs)
  have "find (\<lambda>b. cb_bucket_id b = bid) bs = None" if "cb_bucket_id b = bid"
    using Cons.prems that unfolding find_None_iff by simp (metis imageI)
  then show ?case
    using Cons by (auto simp: charge_bucket_def Let_def split: option.splits)
qed simp

lemma check_buckets_None: "check_buckets cost budget now bs = None \<longleftrightarrow> (\<forall>b \<in> set bs. blocked_metric cost budget now b = None)"
  by (induction bs) (auto split: option.splits)

text \<open>The three outcomes of an admission.\<close>

lemma try_admit_cases:
  assumes "gov_try_admit iv cost key pool now g = (g', res)"
  obtains (early) b where "g' = g" "res = Inl b"
  | (gauge) chain gauges b where "chain_for cost key = Inr chain" "frozen_group (cm_groups cost) (ch_groups chain) = None"
      "take_gauges (cm_groups cost) (ch_groups chain) \<lparr>ag_gauges = []\<rparr> (gs_concurrent g) = (gauges, Inl b)"
      "g' = g\<lparr>gs_concurrent := gauges\<rparr>" "res = Inl (LimitBlock b ''concurrent'' None None None None)"
  | (limit) chain gauges grant g1 b where "chain_for cost key = Inr chain" "frozen_group (cm_groups cost) (ch_groups chain) = None"
      "take_gauges (cm_groups cost) (ch_groups chain) \<lparr>ag_gauges = []\<rparr> (gs_concurrent g) = (gauges, Inr grant)"
      "g1 = fold (acquire_shard iv cost now) (shard_order (pool_buckets chain pool)) (g\<lparr>gs_concurrent := gauges\<rparr>)"
      "check_buckets cost (gs_budget g1) now (pool_buckets chain pool) = Some b"
      "g' = g1\<lparr>gs_concurrent := drop_grant grant gauges\<rparr>" "res = Inl b"
  | (admitted) chain gauges grant g1 where "chain_for cost key = Inr chain" "frozen_group (cm_groups cost) (ch_groups chain) = None"
      "take_gauges (cm_groups cost) (ch_groups chain) \<lparr>ag_gauges = []\<rparr> (gs_concurrent g) = (gauges, Inr grant)"
      "g1 = fold (acquire_shard iv cost now) (shard_order (pool_buckets chain pool)) (g\<lparr>gs_concurrent := gauges\<rparr>)"
      "check_buckets cost (gs_budget g1) now (pool_buckets chain pool) = None"
      "g' = g1\<lparr>gs_budget := fold (charge_bucket now) (pool_buckets chain pool) (gs_budget g1)\<rparr>" "res = Inr grant"
proof (cases "chain_for cost key")
  case (Inl m)
  then show ?thesis using assms early by (auto simp: gov_try_admit_def)
next
  case (Inr chain)
  note chain = this
  show ?thesis
  proof (cases "frozen_group (cm_groups cost) (ch_groups chain)")
    case (Some n)
    then show ?thesis using assms early chain by (auto simp: gov_try_admit_def Let_def)
  next
    case None
    obtain gauges r where taken: "take_gauges (cm_groups cost) (ch_groups chain) \<lparr>ag_gauges = []\<rparr> (gs_concurrent g) = (gauges, r)"
      by fastforce
    show ?thesis
    proof (cases r)
      case (Inl n)
      then show ?thesis using assms gauge [OF chain None] taken chain None by (auto simp: gov_try_admit_def Let_def)
    next
      case (Inr grant)
      define g1 where "g1 = fold (acquire_shard iv cost now) (shard_order (pool_buckets chain pool)) (g\<lparr>gs_concurrent := gauges\<rparr>)"
      have g: "(g', res) = admit_windowed iv cost (pool_buckets chain pool) now grant (g\<lparr>gs_concurrent := gauges\<rparr>)"
        using assms taken chain None Inr by (simp add: gov_try_admit_def Let_def)
      show ?thesis
      proof (cases "check_buckets cost (gs_budget g1) now (pool_buckets chain pool)")
        case (Some b)
        have "gs_concurrent g1 = gauges" by (simp add: g1_def)
        then show ?thesis
          using limit [OF chain None taken [unfolded Inr] g1_def Some] g Some by (simp add: admit_windowed_def Let_def flip: g1_def)
      next
        case no_block: None
        then show ?thesis
          using admitted [OF chain None taken [unfolded Inr] g1_def no_block] g by (simp add: admit_windowed_def Let_def flip: g1_def)
      qed
    qed
  qed
qed

lemma ledger_ok_sweep:
  assumes "ledger_ok w clock (budget bid) n" and "still_enforces_a_cap cost bid" and "now \<le> clock" and "clock < u64_max"
  shows "ledger_ok w clock (sweep_shard cost now sh budget bid) n"
proof (cases "budget bid")
  case (Some c)
  have "bc_window_start c < budget_window w clock" if "\<not> sweep_keeps cost now bid c"
    using that assms evicted_is_stale [of now "bc_window_start c" clock w]
    by (auto simp: sweep_keeps_def ledger_ok_def Some split: if_splits)
  then show ?thesis using assms(1) by (auto simp: sweep_shard_def Some ledger_ok_def)
qed (use assms in \<open>simp add: sweep_shard_def\<close>)

lemma ledger_ok_acquire:
  assumes "ledger_ok w clock (gs_budget g bid) n" and "still_enforces_a_cap cost bid" and "now \<le> clock" and "clock < u64_max"
  shows "ledger_ok w clock (gs_budget (fold (acquire_shard iv cost now) shs g) bid) n"
proof (rule ledger_ok_fold [OF assms(1)])
  fix sh and g :: Gov
  assume "ledger_ok w clock (gs_budget g bid) n"
  then show "ledger_ok w clock (gs_budget (acquire_shard iv cost now sh g) bid) n"
    using acquire_shard_budget [of iv cost now sh g] ledger_ok_sweep [OF _ assms(2-4), of w "gs_budget g" n sh] by auto
qed

lemma ledger_ok_reading:
  "ledger_ok w now (budget bid) n \<Longrightarrow> fst (counters cost (reading budget bid (budget_window w now))) = n"
  by (auto simp: ledger_ok_def reading_def counters_def split: option.splits)

text \<open>A cell that is charged: the window it holds is the clock's or an older one.\<close>

lemma ledger_ok_charged:
  assumes "ledger_ok w clock cell n" and "now \<le> clock" and "n < u64_max" and "c = live_cell (budget_window w now) cell"
  shows "ledger_ok w clock (Some (c\<lparr>bc_requests := saturating_add (bc_requests c) 1,
      bc_billable_requests := saturating_add (bc_billable_requests c) 1, bc_dirty := True, bc_last_touch := now\<rparr>))
      (n + of_bool (bc_window_start c = budget_window w clock))"
proof -
  have "ledger_ok w clock (Some c) n" using ledger_ok_live [OF assms(1,2)] assms(4) by simp
  then show ?thesis using assms(3) by (auto simp: ledger_ok_def)
qed

lemma live_cell_on_time: "ledger_ok w now cell n \<Longrightarrow> bc_window_start (live_cell (budget_window w now) cell) = budget_window w now"
  by (auto simp: ledger_ok_def live_cell_def cell_fresh_def split: option.splits)

text \<open>An admission that is not blocked finds the cell it charges below the cap.\<close>

lemma not_blocked_requests:
  assumes "blocked_metric cost budget now b = None" and "cb_requests_cap b = Some cap" and "cap < u64_max"
  shows "bc_requests (live_cell (budget_window (cb_window b) now) (budget (cb_bucket_id b))) < cap"
proof -
  let ?n = "bc_requests (live_cell (budget_window (cb_window b) now) (budget (cb_bucket_id b)))"
  let ?read = "counters cost (reading budget (cb_bucket_id b) (budget_window (cb_window b) now))"
  have "fst ?read = ?n" by (auto simp: counters_def reading_def live_cell_def cell_fresh_def split: option.split)
  then obtain t d where "?read = (?n, t, d)" by (metis prod.collapse)
  then have "\<not> saturating_add ?n 1 > cap"
    using assms(1) unfolding blocked_metric_reading by (auto simp: blocked_by_def assms(2) split: if_splits)
  then show ?thesis using assms(3) by (auto simp: saturating_add_def min_def split: if_splits)
qed

subsection \<open>Counting admissions\<close>

lemma pool_bucket_in_chain: "b \<in> set (pool_buckets chain pool) \<Longrightarrow> b \<in> set (ch_buckets chain)"
  by (simp add: pool_buckets_def)

lemma admitted_to_window:
  assumes "sound_model cost" and "group_bucket cost gb" and "plain_key key"
    and "admitted_to cost (gb_bucket_id gb) window (key, pool, t)"
  shows "window = budget_window (gb_window gb) t"
  using assms(4) chain_bucket_of [OF assms(1,3) _ assms(2)]
  by (auto simp: admitted_to_def list_ex_iff dest!: pool_bucket_in_chain split: sum.splits)

lemma admissions_snoc:
  "admissions_in cost bid window (history @ [a]) = admissions_in cost bid window history + (if admitted_to cost bid window a then 1 else 0)"
  by (simp add: admissions_in_def)

lemma admissions_later:
  assumes "sound_model cost" and "group_bucket cost gb" and "\<forall>(key, pool, t) \<in> set history. plain_key key \<and> t \<le> clock"
    and "budget_window (gb_window gb) clock < window"
  shows "admissions_in cost (gb_bucket_id gb) window history = 0"
proof -
  have "\<not> admitted_to cost (gb_bucket_id gb) window a" if "a \<in> set history" for a
  proof -
    obtain key pool t where a: "a = (key, pool, t)" by (cases a)
    then have key: "plain_key key" "t \<le> clock" using assms(3) that by auto
    then have "budget_window (gb_window gb) t < window" using window_mono [of t clock "gb_window gb"] assms(4) by simp
    then show ?thesis using admitted_to_window [OF assms(1,2) key(1), of window pool t] a by auto
  qed
  then show ?thesis by (simp add: admissions_in_def filter_empty_conv)
qed

subsection \<open>The invariant\<close>

text \<open>What was charged to a window: the admissions it took on time, and the late ones put there.\<close>

definition charged_to :: "CostModel \<Rightarrow> GovRun \<Rightarrow> string \<Rightarrow> u64 \<Rightarrow> nat" where
  "charged_to cost r bid window = admissions_in cost bid window (run_history r) + run_late r bid window"

definition cap_held :: "CostModel \<Rightarrow> GovRun \<Rightarrow> GroupBucket \<Rightarrow> u64 \<Rightarrow> bool" where
  "cap_held cost r gb cap \<longleftrightarrow>
     (let w = gb_window gb; bid = gb_bucket_id gb; cur = budget_window w (run_clock r) in
      ledger_ok w (run_clock r) (gs_budget (run_gov r) bid) (charged_to cost r bid cur)
      \<and> charged_to cost r bid cur \<le> cap
      \<and> (\<forall>window. admissions_in cost bid window (run_history r) \<le> cap)
      \<and> (\<forall>window > cur. run_late r bid window = 0))"

text \<open>The cells of capped buckets carry windows of their buckets, none from the future.\<close>

definition windows_held :: "CostModel \<Rightarrow> u64 \<Rightarrow> (string \<rightharpoonup> BudgetCell) \<Rightarrow> bool" where
  "windows_held cost clock budget \<longleftrightarrow>
     (\<forall>gb. group_bucket cost gb \<longrightarrow> has_windowed_cap gb \<longrightarrow> (\<exists>n. ledger_ok (gb_window gb) clock (budget (gb_bucket_id gb)) n))"

lemma windows_held_step:
  assumes "windows_held cost clock budget"
    and "\<And>gb n. group_bucket cost gb \<Longrightarrow> has_windowed_cap gb \<Longrightarrow> ledger_ok (gb_window gb) clock (budget (gb_bucket_id gb)) n \<Longrightarrow>
           \<exists>n. ledger_ok (gb_window gb) clock' (budget' (gb_bucket_id gb)) n"
  shows "windows_held cost clock' budget'"
  using assms unfolding windows_held_def by blast

definition gov_inv :: "CostModel \<Rightarrow> GovRun \<Rightarrow> bool" where
  "gov_inv cost r \<longleftrightarrow>
     gauges_hold (gs_concurrent (run_gov r)) (live_holds (run_grants r))
     \<and> gauges_capped (cm_groups cost) (gs_concurrent (run_gov r))
     \<and> (\<forall>(key, pool, t) \<in> set (run_history r). plain_key key \<and> t \<le> run_clock r)
     \<and> windows_held cost (run_clock r) (gs_budget (run_gov r))
     \<and> (\<forall>gb cap. group_bucket cost gb \<longrightarrow> gb_requests_cap gb = Some cap \<longrightarrow> cap < u64_max \<longrightarrow> cap_held cost r gb cap)"

lemma cap_held_advance:
  assumes "sound_model cost" and "group_bucket cost gb" and "cap_held cost r gb cap" and "run_clock r \<le> now"
    and "\<forall>(key, pool, t) \<in> set (run_history r). plain_key key \<and> t \<le> run_clock r"
  shows "cap_held cost (r\<lparr>run_clock := now\<rparr>) gb cap"
proof -
  let ?w = "gb_window gb" and ?bid = "gb_bucket_id gb"
  let ?cur = "budget_window ?w (run_clock r)" and ?new = "budget_window ?w now"
  have ok: "ledger_ok ?w (run_clock r) (gs_budget (run_gov r) ?bid) (charged_to cost r ?bid ?cur)"
    using assms(3) by (simp add: cap_held_def Let_def)
  have mono: "?cur \<le> ?new" by (rule window_mono [OF assms(4)])
  have "charged_to cost r ?bid ?new = (if ?new = ?cur then charged_to cost r ?bid ?cur else 0)"
    using mono admissions_later [OF assms(1,2,5), of ?new] assms(3) by (auto simp: charged_to_def cap_held_def Let_def)
  moreover have "charged_to cost (r\<lparr>run_clock := now\<rparr>) ?bid ?new = charged_to cost r ?bid ?new" by (simp add: charged_to_def)
  ultimately show ?thesis
    using ledger_ok_advance [OF ok assms(4)] assms(3) mono by (auto simp: cap_held_def Let_def split: if_splits)
qed

lemma cap_held_budget:
  assumes "cap_held cost r gb cap" and "run_clock r' = run_clock r" and "run_history r' = run_history r" and "run_late r' = run_late r"
    and "\<And>n. ledger_ok (gb_window gb) (run_clock r) (gs_budget (run_gov r) (gb_bucket_id gb)) n \<Longrightarrow>
              ledger_ok (gb_window gb) (run_clock r) (gs_budget (run_gov r') (gb_bucket_id gb)) n"
  shows "cap_held cost r' gb cap"
  using assms by (simp add: cap_held_def charged_to_def Let_def)

lemma requests_cap_windowed: "gb_requests_cap gb = Some cap \<Longrightarrow> has_windowed_cap gb"
  by (simp add: has_windowed_cap_def)

lemma find_id_SomeD: "find (\<lambda>b. cb_bucket_id b = bid) bs = Some b \<Longrightarrow> b \<in> set bs \<and> cb_bucket_id b = bid"
  by (metis (mono_tags, lifting) find_Some_iff nth_mem)

lemma find_id_NoneD: "find (\<lambda>b. cb_bucket_id b = bid) bs = None \<Longrightarrow> b \<in> set bs \<Longrightarrow> cb_bucket_id b \<noteq> bid"
  by (auto simp: find_None_iff)

lemma cap_held_admitted:
  assumes sound: "sound_model cost" and gb: "group_bucket cost gb" and cap: "gb_requests_cap gb = Some cap" "cap < u64_max"
    and held: "cap_held cost (r\<lparr>run_clock := max (run_clock r) now\<rparr>) gb cap" and clock: "max (run_clock r) now < u64_max"
    and key: "plain_key key" and chain: "chain_for cost key = Inr chain"
    and g1: "g1 = fold (acquire_shard iv cost now) shs ((run_gov r)\<lparr>gs_concurrent := gauges\<rparr>)"
    and free: "check_buckets cost (gs_budget g1) now (pool_buckets chain pool) = None"
    and g: "gs_budget g = fold (charge_bucket now) (pool_buckets chain pool) (gs_budget g1)"
  shows "cap_held cost (after_admit cost key pool now g grant r) gb cap"
proof -
  let ?w = "gb_window gb" and ?bid = "gb_bucket_id gb" and ?bs = "pool_buckets chain pool" and ?clk = "max (run_clock r) now"
  let ?cur = "budget_window ?w ?clk" and ?r' = "after_admit cost key pool now g grant r"
  let ?n = "charged_to cost r ?bid ?cur"
  have same_r: "charged_to cost (r\<lparr>run_clock := ?clk\<rparr>) = charged_to cost r" by (simp add: charged_to_def fun_eq_iff)
  have r': "run_clock ?r' = ?clk" "run_gov ?r' = g" by (auto simp: after_admit_def)
  have ok: "ledger_ok ?w ?clk (gs_budget g1 ?bid) ?n"
    unfolding g1
    using held capped_bucket_enforced [OF sound gb requests_cap_windowed [OF cap(1)]] clock
    by (intro ledger_ok_acquire) (simp_all add: cap_held_def Let_def same_r)
  have distinct: "distinct (map cb_bucket_id ?bs)"
    using chain_shape(1) [OF sound key chain] by (simp add: pool_buckets_def distinct_map_filter)
  note cell = charge_all_cell [OF distinct, of now "gs_budget g1" ?bid, folded g]
  have counts: "admissions_in cost ?bid window (run_history r) \<le> cap" "?n \<le> cap" "?cur < window \<Longrightarrow> run_late r ?bid window = 0" for window
    using held by (simp_all add: cap_held_def Let_def same_r)
  show ?thesis
  proof (cases "find (\<lambda>b. cb_bucket_id b = ?bid) ?bs")
    case None
    then have "\<not> admitted_to cost ?bid window (key, pool, now)" "placed cost key pool g ?bid window = 0" for window
      using find_id_NoneD [OF None] by (auto simp: admitted_to_def placed_def chain list_ex_iff)
    then have "admissions_in cost ?bid window (run_history ?r') = admissions_in cost ?bid window (run_history r)"
      "run_late ?r' ?bid window = run_late r ?bid window" for window
      by (auto simp: after_admit_def admissions_snoc)
    then show ?thesis
      using ok counts cell None r' by (simp add: cap_held_def charged_to_def Let_def)
  next
    case (Some b)
    then have b: "b \<in> set ?bs" "cb_bucket_id b = ?bid" using find_id_SomeD by blast+
    then have same: "cb_window b = ?w" "cb_requests_cap b = Some cap"
      using chain_bucket_of [OF sound key chain gb pool_bucket_in_chain [OF b(1)] b(2)] cap by simp_all
    define c where "c = live_cell (budget_window ?w now) (gs_budget g1 ?bid)"
    have "blocked_metric cost (gs_budget g1) now b = None" using free b(1) by (simp add: check_buckets_None)
    from not_blocked_requests [OF this same(2) cap(2)] have less: "bc_requests c < cap" by (simp add: c_def same(1) b(2))
    have live: "ledger_ok ?w ?clk (Some c) ?n" using ledger_ok_live [OF ok, of now] by (simp add: c_def)
    then have n: "?n = (if bc_window_start c = ?cur then bc_requests c else 0)" "bc_window_start c \<le> ?cur" by (simp_all add: ledger_ok_def)
    have "?n < u64_max" using n less cap(2) by (simp split: if_splits)
    from ledger_ok_charged [OF ok _ this c_def]
    have charged: "ledger_ok ?w ?clk (gs_budget g ?bid) (?n + of_bool (bc_window_start c = ?cur))"
      using cell Some same by (simp add: Let_def c_def)
    have start: "map_option bc_window_start (gs_budget g ?bid) = Some (bc_window_start c)"
      using cell Some same by (simp add: Let_def c_def)
    have to: "admitted_to cost ?bid window (key, pool, now) \<longleftrightarrow> window = budget_window ?w now" for window
      using admitted_to_window [OF sound gb key, of window pool now] b same
      by (auto simp: admitted_to_def chain list_ex_iff)
    have put: "placed cost key pool g ?bid window = of_bool (window = bc_window_start c)" for window
      using b start by (auto simp: placed_def chain list_ex_iff)
    have total: "charged_to cost ?r' ?bid ?cur = ?n + of_bool (bc_window_start c = ?cur)"
    proof (cases "run_clock r \<le> now")
      case True
      then have "bc_window_start c = ?cur" using live_cell_on_time [of ?w now "gs_budget g1 ?bid"] ok by (simp add: c_def max_def)
      with True show ?thesis by (simp add: charged_to_def after_admit_def admissions_snoc to max_def)
    next
      case False
      then show ?thesis by (simp add: charged_to_def after_admit_def put)
    qed
    have "charged_to cost ?r' ?bid ?cur \<le> cap" using total n less by (simp split: if_splits)
    moreover have "admissions_in cost ?bid window (run_history ?r') \<le> cap" for window
    proof (cases "run_clock r \<le> now \<and> window = ?cur")
      case True
      then have "admissions_in cost ?bid window (run_history ?r') \<le> charged_to cost ?r' ?bid ?cur" by (simp add: charged_to_def)
      with \<open>charged_to cost ?r' ?bid ?cur \<le> cap\<close> show ?thesis by simp
    next
      case False
      then have "admissions_in cost ?bid window (run_history ?r') = admissions_in cost ?bid window (run_history r)"
        by (auto simp: after_admit_def admissions_snoc to max_def)
      with counts(1) show ?thesis by simp
    qed
    moreover have "run_late ?r' ?bid window = 0" if "?cur < window" for window
      using counts(3) [OF that] n(2) that by (auto simp: after_admit_def put)
    ultimately show ?thesis
      using charged total by (simp add: cap_held_def Let_def r')
  qed
qed

lemma windows_held_acquire:
  assumes "sound_model cost" and "windows_held cost clock budget" and "clock \<le> clk" and "now \<le> clk" and "clk < u64_max"
    and "gs_budget g = budget"
  shows "windows_held cost clk (gs_budget (fold (acquire_shard iv cost now) shs g))"
proof (rule windows_held_step [OF assms(2)])
  fix gb n
  assume gb: "group_bucket cost gb" "has_windowed_cap gb" and ok: "ledger_ok (gb_window gb) clock (budget (gb_bucket_id gb)) n"
  show "\<exists>n. ledger_ok (gb_window gb) clk (gs_budget (fold (acquire_shard iv cost now) shs g) (gb_bucket_id gb)) n"
    using ledger_ok_acquire [OF _ capped_bucket_enforced [OF assms(1) gb] assms(4,5)] ledger_ok_advance [OF ok assms(3)] assms(6)
    by blast
qed

lemma windows_held_charged:
  assumes sound: "sound_model cost" and key: "plain_key key" and chain: "chain_for cost key = Inr chain"
    and held: "windows_held cost clk budget" and now: "now \<le> clk"
  shows "windows_held cost clk (fold (charge_bucket now) (pool_buckets chain pool) budget)"
proof (rule windows_held_step [OF held])
  fix gb n
  assume gb: "group_bucket cost gb" and ok: "ledger_ok (gb_window gb) clk (budget (gb_bucket_id gb)) n"
  let ?bs = "pool_buckets chain pool"
  have distinct: "distinct (map cb_bucket_id ?bs)"
    using chain_shape(1) [OF sound key chain] by (simp add: pool_buckets_def distinct_map_filter)
  note cell = charge_all_cell [OF distinct, of now budget "gb_bucket_id gb"]
  show "\<exists>n. ledger_ok (gb_window gb) clk (fold (charge_bucket now) ?bs budget (gb_bucket_id gb)) n"
  proof (cases "find (\<lambda>b. cb_bucket_id b = gb_bucket_id gb) ?bs")
    case None
    then show ?thesis using ok cell by auto
  next
    case (Some b)
    then have "b \<in> set ?bs" "cb_bucket_id b = gb_bucket_id gb" using find_id_SomeD by blast+
    then have "cb_window b = gb_window gb"
      using chain_bucket_of [OF sound key chain gb pool_bucket_in_chain] by blast
    then show ?thesis
      using ledger_ok_live [OF ok now] cell Some by (auto simp: Let_def ledger_ok_def)
  qed
qed

lemma gov_inv_admit:
  assumes sound: "sound_model cost" and inv: "gov_inv cost r" and key: "plain_key key"
    and clock: "max (run_clock r) now < u64_max"
    and admit: "gov_try_admit iv cost key pool now (run_gov r) = (g, res)"
    and r': "r' = (case res of
        Inl _ \<Rightarrow> r\<lparr>run_gov := g, run_clock := max (run_clock r) now\<rparr>
      | Inr grant \<Rightarrow> after_admit cost key pool now g grant r)"
  shows "gov_inv cost r'"
proof -
  let ?clk = "max (run_clock r) now"
  let ?r1 = "r\<lparr>run_clock := ?clk\<rparr>" and ?groups = "cm_groups cost"
  have hold: "gauges_hold (gs_concurrent (run_gov r)) (live_holds (run_grants r))"
    and capped: "gauges_capped ?groups (gs_concurrent (run_gov r))"
    and past: "\<forall>(key, pool, t) \<in> set (run_history r). plain_key key \<and> t \<le> run_clock r"
    and windows: "windows_held cost (run_clock r) (gs_budget (run_gov r))"
    using inv by (simp_all add: gov_inv_def)
  have windows': "windows_held cost ?clk (gs_budget (fold (acquire_shard iv cost now) shs ((run_gov r)\<lparr>gs_concurrent := gauges\<rparr>)))"
    for shs gauges
    by (rule windows_held_acquire [OF sound windows _ _ clock]) simp_all
  have windows0: "windows_held cost ?clk (gs_budget (run_gov r))"
    using windows'[of "[]" "gs_concurrent (run_gov r)"] by simp
  have held: "cap_held cost ?r1 gb cap" if "group_bucket cost gb" "gb_requests_cap gb = Some cap" "cap < u64_max" for gb cap
  proof -
    have "cap_held cost r gb cap" using inv that unfolding gov_inv_def by blast
    then show ?thesis by (rule cap_held_advance [OF sound that(1) _ _ past]) simp
  qed
  have past': "\<forall>(key, pool, t) \<in> set (run_history r). plain_key key \<and> t \<le> ?clk" using past by fastforce
  have acquired: "cap_held cost r' gb cap"
    if "group_bucket cost gb" "gb_requests_cap gb = Some cap" "cap < u64_max"
      and "gs_budget (run_gov r') = gs_budget (fold (acquire_shard iv cost now) shs ((run_gov r)\<lparr>gs_concurrent := gauges\<rparr>))"
      and "run_clock r' = ?clk" "run_history r' = run_history r" "run_late r' = run_late r" for gb cap shs gauges r'
  proof (rule cap_held_budget [OF held [OF that(1-3)]])
    fix n
    assume "ledger_ok (gb_window gb) (run_clock ?r1) (gs_budget (run_gov ?r1) (gb_bucket_id gb)) n"
    then have "ledger_ok (gb_window gb) ?clk (gs_budget ((run_gov r)\<lparr>gs_concurrent := gauges\<rparr>) (gb_bucket_id gb)) n" by simp
    from ledger_ok_acquire [OF this capped_bucket_enforced [OF sound that(1) requests_cap_windowed [OF that(2)]] _ clock]
    show "ledger_ok (gb_window gb) (run_clock ?r1) (gs_budget (run_gov r') (gb_bucket_id gb)) n" using that(4) by simp
  qed (use that in simp_all)
  from admit show ?thesis
  proof (cases rule: try_admit_cases)
    case early
    then show ?thesis
      using hold capped past' held r' windows0 by (simp add: gov_inv_def cap_held_def charged_to_def Let_def)
  next
    case (gauge chain gauges b)
    have range: "\<forall>gi \<in> set (ch_groups chain). gi < length ?groups" by (rule chain_shape(3) [OF sound key gauge(1)])
    have "gauges_capped ?groups gauges \<and> gauges_hold gauges (live_holds (run_grants r))"
      using take_gauges_hold [OF hold _ capped sound_model_names [OF sound] range gauge(3)] by simp
    then show ?thesis
      using past' held r' gauge(4,5) windows0 by (simp add: gov_inv_def cap_held_def charged_to_def Let_def)
  next
    case (limit chain gauges grant g1 b)
    have range: "\<forall>gi \<in> set (ch_groups chain). gi < length ?groups" by (rule chain_shape(3) [OF sound key limit(1)])
    have taken: "gauges_capped ?groups gauges" "gauges_hold gauges (\<lambda>x. live_holds (run_grants r) x + count_list (ag_gauges grant) x)"
      using take_gauges_hold [OF hold _ capped sound_model_names [OF sound] range limit(3)] by auto
    have "gauges_hold (drop_grant grant gauges) (live_holds (run_grants r))" "gauges_capped ?groups (drop_grant grant gauges)"
      using drop_gauges_hold [OF taken(2), of "ag_gauges grant"] drop_gauges_capped [OF taken(2) _ taken(1), of "ag_gauges grant"]
      by (simp_all add: drop_grant_def)
    moreover have "cap_held cost r' gb cap" if "group_bucket cost gb" "gb_requests_cap gb = Some cap" "cap < u64_max" for gb cap
      using acquired [OF that, of r'] r' limit(4,6,7) by simp
    ultimately show ?thesis
      using past' r' limit(4,6,7) windows' by (simp add: gov_inv_def)
  next
    case (admitted chain gauges grant g1)
    have range: "\<forall>gi \<in> set (ch_groups chain). gi < length ?groups" by (rule chain_shape(3) [OF sound key admitted(1)])
    have taken: "gauges_capped ?groups gauges" "gauges_hold gauges (\<lambda>x. live_holds (run_grants r) x + count_list (ag_gauges grant) x)"
      using take_gauges_hold [OF hold _ capped sound_model_names [OF sound] range admitted(3)] by auto
    have "gs_concurrent g = gauges" using admitted(4,6) by simp
    moreover have "live_holds (grant # run_grants r) = (\<lambda>x. live_holds (run_grants r) x + count_list (ag_gauges grant) x)"
      by (auto simp: live_holds_def)
    moreover have r'': "r' = after_admit cost key pool now g grant r" using r' admitted(7) by simp
    moreover have "cap_held cost r' gb cap" if "group_bucket cost gb" "gb_requests_cap gb = Some cap" "cap < u64_max" for gb cap
      unfolding r''
      by (rule cap_held_admitted [OF sound that held [OF that] clock key admitted(1,4,5)]) (use admitted(6) in simp)
    moreover have "windows_held cost ?clk (gs_budget g)"
      using windows_held_charged [OF sound key admitted(1), of ?clk "gs_budget g1" now pool] windows' admitted(4,6) by simp
    moreover have "run_gov r' = g" "run_grants r' = grant # run_grants r" "run_clock r' = ?clk"
      "\<forall>(key, pool, t) \<in> set (run_history r'). plain_key key \<and> t \<le> ?clk"
      using past' key by (auto simp: r'' after_admit_def)
    ultimately show ?thesis
      using taken by (simp add: gov_inv_def)
  qed
qed

lemma gov_inv_budget:
  assumes "gov_inv cost r" and "gs_concurrent g = gs_concurrent (run_gov r)"
    and "\<And>gb n. group_bucket cost gb \<Longrightarrow> ledger_ok (gb_window gb) (run_clock r) (gs_budget (run_gov r) (gb_bucket_id gb)) n \<Longrightarrow>
           ledger_ok (gb_window gb) (run_clock r) (gs_budget g (gb_bucket_id gb)) n"
  shows "gov_inv cost (r\<lparr>run_gov := g\<rparr>)"
proof -
  have "windows_held cost (run_clock r) (gs_budget (run_gov r))" using assms(1) by (simp add: gov_inv_def)
  then have "windows_held cost (run_clock r) (gs_budget g)"
    by (rule windows_held_step) (use assms(3) in blast)
  moreover have "cap_held cost (r\<lparr>run_gov := g\<rparr>) gb cap"
    if "group_bucket cost gb" "gb_requests_cap gb = Some cap" "cap < u64_max" for gb cap
  proof (rule cap_held_budget [of cost r])
    show "cap_held cost r gb cap" using assms(1) that unfolding gov_inv_def by blast
  qed (simp_all add: assms(3) that(1))
  ultimately show ?thesis using assms(1,2) by (simp add: gov_inv_def)
qed

lemma concurrent_kept [simp]:
  "gs_concurrent (accrue_bucket bid p model t now g) = gs_concurrent g"
  "gs_concurrent (refund_bucket bid p now g) = gs_concurrent g"
  by (auto simp: accrue_bucket_def refund_bucket_def Let_def split: option.splits)

lemma concurrent_kept_fold:
  "(\<And>b g. gs_concurrent (f b g) = gs_concurrent g) \<Longrightarrow> gs_concurrent (fold f bs g) = gs_concurrent g"
  by (induction bs arbitrary: g) simp_all

lemma concurrent_kept_request [simp]:
  "gs_concurrent (record_usage cost key pool model tokens t g) = gs_concurrent g"
  "gs_concurrent (refund_request cost key pool t g) = gs_concurrent g"
  by (auto simp: record_usage_def refund_request_def intro!: concurrent_kept_fold split: sum.splits)

lemma live_holds_remove: "grant \<in> set grants \<Longrightarrow> live_holds grants x = count_list (ag_gauges grant) x + live_holds (remove1 grant grants) x"
  by (induction grants) (auto simp: live_holds_def)

lemma gov_inv_release:
  assumes "gov_inv cost r" and "grant \<in> set (run_grants r)"
  shows "gov_inv cost (r\<lparr>run_gov := (run_gov r)\<lparr>gs_concurrent := drop_grant grant (gs_concurrent (run_gov r))\<rparr>,
    run_grants := remove1 grant (run_grants r)\<rparr>)"
proof -
  note holds = live_holds_remove [OF assms(2)]
  have "gauges_hold (drop_grant grant (gs_concurrent (run_gov r))) (live_holds (remove1 grant (run_grants r)))"
    "gauges_capped (cm_groups cost) (drop_grant grant (gs_concurrent (run_gov r)))"
    using assms(1) drop_gauges_hold [of "gs_concurrent (run_gov r)" "live_holds (run_grants r)" "ag_gauges grant"]
      drop_gauges_capped [of "gs_concurrent (run_gov r)" "live_holds (run_grants r)" "ag_gauges grant" "cm_groups cost"]
    by (simp_all add: drop_grant_def gov_inv_def holds)
  then show ?thesis using assms(1) by (simp add: gov_inv_def cap_held_def charged_to_def Let_def)
qed

lemma gov_step_inv:
  assumes sound: "sound_model cost" and inv: "gov_inv cost r" and step: "gov_step iv cost r e r'"
  shows "gov_inv cost r'"
  using step
proof cases
  case (admitted key pool now g grant)
  show ?thesis by (rule gov_inv_admit [OF sound inv admitted(4,5,3)]) (simp add: admitted)
next
  case (refused key pool now g blocked)
  show ?thesis by (rule gov_inv_admit [OF sound inv refused(4,5,3)]) (simp add: refused)
next
  case (released grant)
  then show ?thesis using gov_inv_release [OF inv] by simp
next
  case (usage key t pool model tokens)
  show ?thesis
    unfolding usage by (rule gov_inv_budget [OF inv]) (simp_all add: ledger_ok_usage [OF sound usage(3) _ usage(4)])
next
  case (refund key t pool)
  show ?thesis
    unfolding refund by (rule gov_inv_budget [OF inv]) (simp_all add: ledger_ok_refund_request)
next
  case (flush_take bid c)
  show ?thesis
    unfolding flush_take by (rule gov_inv_budget [OF inv]) (use flush_take(3) in \<open>auto simp: ledger_ok_def\<close>)
next
  case (flush_ack s)
  show ?thesis
    unfolding flush_ack by (rule gov_inv_budget [OF inv]) (auto intro!: ledger_ok_on_cell simp: ack_cell_def)
next
  case (flush_retry s)
  show ?thesis
    unfolding flush_retry by (rule gov_inv_budget [OF inv]) (auto intro!: ledger_ok_on_cell simp: nack_cell_def)
qed

lemma gov_init_inv: "gov_init r \<Longrightarrow> gov_inv cost r"
  by (auto simp: gov_init_def gov_inv_def gauges_hold_def gauges_capped_def gauge_value_def live_holds_def
      windows_held_def ledger_ok_def cap_held_def charged_to_def admissions_in_def i64_max_def Let_def)

text \<open>The start of a run as an initial condition that also carries what is assumed of the model.\<close>

interpretation gov_sys: invariant_system "\<lambda>r. gov_init r \<and> sound_model cost" "gov_step iv cost"
    "\<lambda>r. gov_inv cost r \<and> sound_model cost" for iv cost
  by unfold_locales (auto intro: gov_init_inv gov_step_inv)

lemma gov_reach_inv:
  assumes "sound_model cost" and "reach gov_init (gov_step iv cost) r"
  shows "gov_inv cost r"
proof -
  obtain r0 es where "gov_init r0" "trace (gov_step iv cost) r0 es r" using assms(2) by (auto simp: reach_def)
  then show ?thesis using gov_sys.trace_inv gov_init_inv assms(1) by blast
qed

section \<open>An example run\<close>

definition example_model :: CostModel where
  "example_model = resolve_parts None 1 example_groups"

definition example_chain :: Chain where
  "example_chain =
     \<lparr>ch_buckets =
        [key_bucket ''vk_1'',
         \<lparr>cb_bucket_id = ''group:team@minute'', cb_group_name = Some ''team'', cb_window = ''minute'', cb_requests_cap = Some 5,
          cb_tokens_cap = None, cb_budget_cap = None, cb_scope = None, cb_downgrade_to = None\<rparr>,
         \<lparr>cb_bucket_id = ''group:org@month'', cb_group_name = Some ''org'', cb_window = ''month'', cb_requests_cap = None,
          cb_tokens_cap = None, cb_budget_cap = Some 1000, cb_scope = None, cb_downgrade_to = None\<rparr>],
      ch_groups = [1, 0]\<rparr>"

definition example_start :: GovRun where
  "example_start =
     \<lparr>run_gov = \<lparr>gs_budget = Map.empty, gs_sweep_ticker = (\<lambda>_. 0), gs_concurrent = Map.empty\<rparr>,
      run_grants = [], run_clock = 0, run_history = [], run_late = (\<lambda>bid window. 0)\<rparr>"

definition example_bucket :: GroupBucket where
  "example_bucket =
     \<lparr>gb_bucket_id = ''group:team@minute'', gb_window = ''minute'', gb_requests_cap = Some 5, gb_tokens_cap = None,
      gb_budget_cap = None, gb_scope = None, gb_downgrade_to = None\<rparr>"

lemma example_model_sound: "sound_model example_model"
  using example_groups_valid
  by (fastforce simp: sound_model_def example_model_def plain_groups_def plain_scope_def example_groups_def)

lemma example_key_plain: "plain_key (example_key grp)"
  by (simp add: plain_key_def example_key_def GROUP_BUCKET_PREFIX_def)

lemma example_chain_for: "chain_for example_model (example_key ''team'') = Inr example_chain"
  by code_simp

lemma example_bucket_in: "group_bucket example_model example_bucket" "gb_requests_cap example_bucket = Some 5"
proof -
  have "list_ex (\<lambda>b. b = example_bucket) (all_buckets (cm_groups example_model))" by code_simp
  then show "group_bucket example_model example_bucket" by (simp add: group_bucket_def list_ex_iff)
qed (simp add: example_bucket_def)

lemma acquire_empty: "gs_budget g = Map.empty \<Longrightarrow> gs_budget (fold (acquire_shard iv cost now) shs g) = Map.empty"
proof (induction shs arbitrary: g)
  case (Cons sh shs)
  have "gs_budget (acquire_shard iv cost now sh g) = Map.empty"
    using acquire_shard_budget [of iv cost now sh g] Cons.prems by (auto simp: sweep_shard_def)
  then show ?case using Cons.IH by simp
qed simp

lemma example_not_frozen: "frozen_group (cm_groups example_model) (ch_groups example_chain) = None"
  by code_simp

lemma example_takes:
  "take_gauges (cm_groups example_model) (ch_groups example_chain) \<lparr>ag_gauges = []\<rparr> Map.empty
     = ([''team'' \<mapsto> 1], Inr \<lparr>ag_gauges = [''team'']\<rparr>)"
proof -
  have "gr_concurrent_cap (cm_groups example_model ! 1) = Some 2" "gr_concurrent_cap (cm_groups example_model ! 0) = None"
    "gr_name (cm_groups example_model ! 1) = ''team''"
    by code_simp+
  then show ?thesis
    by (simp add: example_chain_def concurrent_gauge_def i64_of_u64_def i64_max_def Let_def)
qed

lemma example_unblocked: "check_buckets example_model Map.empty now (pool_buckets example_chain ''p'') = None"
proof -
  have "blocked_metric example_model Map.empty now b = blocked_by 1 b (0, 0, 0)" for b
    unfolding blocked_metric_reading
    by (simp add: reading_def counters_def example_model_def resolve_parts_def split: prod.splits)
  then show ?thesis
    by (simp add: check_buckets_None example_chain_def pool_buckets_def applies_to_pool_def key_bucket_def blocked_by_def
        saturating_add_def u64_max_def saturating_add_i64_def i64_max_def i64_min_def)
qed

lemma example_admitted:
  "\<exists>g. gov_try_admit 256 example_model (example_key ''team'') ''p'' now (run_gov example_start) = (g, Inr \<lparr>ag_gauges = [''team'']\<rparr>)"
  by (simp add: gov_try_admit_def example_chain_for example_not_frozen example_takes example_start_def Let_def
      admit_windowed_def acquire_empty example_unblocked)

text \<open>A run of one admission.\<close>

lemma example_run:
  obtains r where "reach gov_init (gov_step 256 example_model) r" and "run_history r = [(example_key ''team'', ''p'', 100)]"
    and "run_clock r = 100" and "run_grants r = [\<lparr>ag_gauges = [''team'']\<rparr>]"
proof -
  obtain g where g: "gov_try_admit 256 example_model (example_key ''team'') ''p'' 100 (run_gov example_start)
      = (g, Inr \<lparr>ag_gauges = [''team'']\<rparr>)"
    using example_admitted by blast
  have "reach gov_init (gov_step 256 example_model) example_start"
    by (rule reach_init) (simp add: gov_init_def example_start_def)
  moreover have "gov_step 256 example_model example_start (Admit (example_key ''team'') ''p'' 100)
      (after_admit example_model (example_key ''team'') ''p'' 100 g \<lparr>ag_gauges = [''team'']\<rparr> example_start)"
    by (rule gov_step.admitted [where iv = 256 and cost = example_model, OF g example_key_plain])
       (simp add: example_start_def u64_max_def)
  ultimately have "reach gov_init (gov_step 256 example_model)
      (after_admit example_model (example_key ''team'') ''p'' 100 g \<lparr>ag_gauges = [''team'']\<rparr> example_start)"
    by (rule reach_step)
  then show ?thesis by (rule that) (simp_all add: after_admit_def example_start_def)
qed

section \<open>What holds of every run\<close>

text \<open>
  C12: A requests cap is hard. Whatever the order of admissions, usage records, refunds, releases
  and flushes, no window of a bucket with a requests cap takes more admissions than the cap of those
  that arrive in the order of their clocks. An admission that arrives late, dated before the latest
  clock of the run, is counted where the ledger puts it: the counter the next admission reads in the
  current window is exactly the number of admissions of that window and of the late ones charged
  to it, together at most the cap, across rollovers and evictions.
\<close>

theorem requests_cap_is_hard:
  assumes "sound_model cost" and "reach gov_init (gov_step iv cost) r"
    and "group_bucket cost gb" and "gb_requests_cap gb = Some cap" and "cap < u64_max"
    and "current = budget_window (gb_window gb) (run_clock r)"
  shows "(\<forall>window. admissions_in cost (gb_bucket_id gb) window (run_history r) \<le> cap)
    \<and> fst (counters cost (reading (gs_budget (run_gov r)) (gb_bucket_id gb) current))
        = admissions_in cost (gb_bucket_id gb) current (run_history r) + run_late r (gb_bucket_id gb) current
    \<and> admissions_in cost (gb_bucket_id gb) current (run_history r) + run_late r (gb_bucket_id gb) current \<le> cap"
proof -
  have "cap_held cost r gb cap" using gov_reach_inv [OF assms(1,2)] assms(3-5) unfolding gov_inv_def by blast
  then show ?thesis by (auto simp: cap_held_def charged_to_def Let_def assms(6) intro: ledger_ok_reading)
qed

theorem requests_cap_is_hard_witness:
  "\<exists>r :: GovRun. run_history r = [(example_key ''team'', ''p'', 100)] \<and> (\<forall>w. admissions_in example_model ''group:team@minute'' w (run_history r) \<le> 5)
     \<and> fst (counters example_model (reading (gs_budget (run_gov r)) ''group:team@minute'' 60)) = 1 + run_late r ''group:team@minute'' 60"
proof -
  obtain r where r: "reach gov_init (gov_step 256 example_model) r" "run_history r = [(example_key ''team'', ''p'', 100)]" "run_clock r = 100"
    by (rule example_run)
  have bucket: "gb_bucket_id example_bucket = ''group:team@minute''" "60 = budget_window (gb_window example_bucket) (run_clock r)"
    by (simp_all add: example_bucket_def budget_window_def window_words r(3))
  have "admissions_in example_model ''group:team@minute'' 60 (run_history r) = 1"
    by (simp add: r(2) admissions_in_def admitted_to_def example_chain_for example_chain_def pool_buckets_def applies_to_pool_def
        key_bucket_def budget_window_def window_words)
  then show ?thesis
    using requests_cap_is_hard [OF example_model_sound r(1) example_bucket_in _ bucket(2)] r(2)
    unfolding bucket(1) by - (intro exI [of _ r], simp add: u64_max_def)
qed

text \<open>
  The concurrency gauges count the grants. In every run the gauge of a group is the number of
  live grants that hold it, and it never exceeds the concurrent cap of the group; a refused
  admission leaves no hold behind.
\<close>

lemma gauges_count_live_grants:
  assumes "sound_model cost" and "reach gov_init (gov_step iv cost) r"
  shows "(\<forall>x. gauge_value (gs_concurrent (run_gov r)) x = int (live_holds (run_grants r) x))
    \<and> (\<forall>g \<in> set (cm_groups cost). \<forall>cap. gr_concurrent_cap g = Some cap \<longrightarrow> live_holds (run_grants r) (gr_name g) \<le> cap)"
  using gov_reach_inv [OF assms] by (auto simp: gov_inv_def gauges_hold_def gauges_capped_def)

section \<open>A refusal charges nothing, an admission everything\<close>

lemma take_gauges_names:
  "take_gauges groups gis grant gauges = (gauges', Inr grant') \<Longrightarrow>
   ag_gauges grant' = ag_gauges grant @ map (\<lambda>gi. gr_name (groups ! gi)) (filter (\<lambda>gi. gr_concurrent_cap (groups ! gi) \<noteq> None) gis)"
proof (induction gis arbitrary: grant gauges)
  case (Cons gi gis)
  show ?case
  proof (cases "gr_concurrent_cap (groups ! gi)")
    case None
    then show ?thesis using Cons by simp
  next
    case (Some cap)
    then have "\<exists>gauges1. take_gauges groups gis \<lparr>ag_gauges = ag_gauges grant @ [gr_name (groups ! gi)]\<rparr> gauges1 = (gauges', Inr grant')"
      using Cons.prems by (auto simp: Let_def split: if_splits)
    then show ?thesis using Cons.IH Some by fastforce
  qed
qed simp

definition same_counts :: "BudgetCell \<Rightarrow> BudgetCell \<Rightarrow> bool" where
  "same_counts c c0 \<longleftrightarrow> bc_window_start c = bc_window_start c0 \<and> bc_requests c = bc_requests c0
     \<and> bc_billable_requests c = bc_billable_requests c0 \<and> cell_total_tokens c = cell_total_tokens c0"

text \<open>What the amortized sweep may leave of the cells: nothing new, nothing counted differently.\<close>

definition only_swept :: "(string \<rightharpoonup> BudgetCell) \<Rightarrow> (string \<rightharpoonup> BudgetCell) \<Rightarrow> bool" where
  "only_swept budget budget' \<longleftrightarrow> (\<forall>bid c. budget' bid = Some c \<longrightarrow> (\<exists>c0. budget bid = Some c0 \<and> same_counts c c0))"

lemma only_swept_acquire: "only_swept (gs_budget g) (gs_budget (fold (acquire_shard iv cost now) shs g))"
  using acquire_all_cell by (fastforce simp: only_swept_def same_counts_def)

lemma only_swept_refl: "only_swept b b"
  by (auto simp: only_swept_def same_counts_def)

text \<open>
  C13: An admission is all or nothing. A refusal leaves every gauge as it was and changes no
  counter of any cell; an admission passed the limits of every bucket of its chain, charges exactly
  the buckets its pool takes part in, each one request, and raises exactly the gauges of the
  capped groups of the chain, which its grant names.
\<close>

theorem admission_is_all_or_nothing:
  assumes "sound_model cost" and "reach gov_init (gov_step iv cost) r" and "plain_key key"
    and "gov_try_admit iv cost key pool now (run_gov r) = (g', res)"
  shows "case res of
      Inl _ \<Rightarrow> (\<forall>x. gauge_value (gs_concurrent g') x = gauge_value (gs_concurrent (run_gov r)) x)
         \<and> only_swept (gs_budget (run_gov r)) (gs_budget g')
    | Inr grant \<Rightarrow> \<exists>chain swept. chain_for cost key = Inr chain \<and> only_swept (gs_budget (run_gov r)) swept
         \<and> (\<forall>gi \<in> set (ch_groups chain). gr_enabled (cm_groups cost ! gi))
         \<and> (\<forall>b \<in> set (pool_buckets chain pool). blocked_metric cost swept now b = None)
         \<and> (\<forall>bid. gs_budget g' bid =
              (case find (\<lambda>b. cb_bucket_id b = bid) (pool_buckets chain pool) of
                 None \<Rightarrow> swept bid
               | Some b \<Rightarrow>
                   let cell = live_cell (budget_window (cb_window b) now) (swept bid)
                   in Some (cell\<lparr>bc_requests := saturating_add (bc_requests cell) 1,
                                 bc_billable_requests := saturating_add (bc_billable_requests cell) 1,
                                 bc_dirty := True, bc_last_touch := now\<rparr>)))
         \<and> ag_gauges grant = map (\<lambda>gi. gr_name (cm_groups cost ! gi))
              (filter (\<lambda>gi. gr_concurrent_cap (cm_groups cost ! gi) \<noteq> None) (ch_groups chain))
         \<and> (\<forall>x. gauge_value (gs_concurrent g') x = gauge_value (gs_concurrent (run_gov r)) x + int (count_list (ag_gauges grant) x))"
proof -
  let ?groups = "cm_groups cost" and ?g = "run_gov r"
  have inv: "gauges_hold (gs_concurrent ?g) (live_holds (run_grants r))" "gauges_capped ?groups (gs_concurrent ?g)"
    using gov_reach_inv [OF assms(1,2)] by (simp_all add: gov_inv_def)
  have held: "gauge_value gs x = int (h x)" if "gauges_hold gs h" for gs h x using that by (simp add: gauges_hold_def)
  note taken = take_gauges_hold [OF inv(1) _ inv(2) sound_model_names [OF assms(1)] chain_shape(3) [OF assms(1,3)]]
  from assms(4) show ?thesis
  proof (cases rule: try_admit_cases)
    case early
    then show ?thesis by (simp add: only_swept_refl)
  next
    case (gauge chain gauges b)
    have "gauges_hold gauges (live_holds (run_grants r))" using taken [OF _ gauge(1,3)] by simp
    then show ?thesis using gauge(4,5) held [OF inv(1)] held by (simp add: only_swept_refl)
  next
    case (limit chain gauges grant g1 b)
    have "gauges_hold gauges (\<lambda>x. live_holds (run_grants r) x + count_list (ag_gauges grant) x)"
      using taken [OF _ limit(1,3)] by auto
    from drop_gauges_hold [OF this, of "ag_gauges grant"]
    have "gauges_hold (drop_grant grant gauges) (live_holds (run_grants r))" by (simp add: drop_grant_def)
    then show ?thesis
      using limit(4,6,7) held [OF inv(1)] held only_swept_acquire [of "?g\<lparr>gs_concurrent := gauges\<rparr>"] by simp
  next
    case (admitted chain gauges grant g1)
    have hold: "gauges_hold gauges (\<lambda>x. live_holds (run_grants r) x + count_list (ag_gauges grant) x)"
      using taken [OF _ admitted(1,3)] by auto
    have conc: "gs_concurrent g' = gauges" using admitted(4,6) by simp
    have enabled: "frozen_group ?groups gis = None \<Longrightarrow> \<forall>gi \<in> set gis. gr_enabled (?groups ! gi)" for gis
      by (induction gis) (simp_all split: if_splits)
    have distinct: "distinct (map cb_bucket_id (pool_buckets chain pool))"
      using chain_shape(1) [OF assms(1,3) admitted(1)] by (simp add: pool_buckets_def distinct_map_filter)
    have after: "gs_budget g' = fold (charge_bucket now) (pool_buckets chain pool) (gs_budget g1)" using admitted(6) by simp
    show ?thesis
      unfolding admitted(7) sum.case
    proof (intro exI [of _ chain] exI [of _ "gs_budget g1"] conjI)
      show "only_swept (gs_budget ?g) (gs_budget g1)"
        using only_swept_acquire [of "?g\<lparr>gs_concurrent := gauges\<rparr>"] admitted(4) by simp
      show "\<forall>x. gauge_value (gs_concurrent g') x = gauge_value (gs_concurrent ?g) x + int (count_list (ag_gauges grant) x)"
        using held [OF inv(1)] held [OF hold] conc by simp
      show "ag_gauges grant = map (\<lambda>gi. gr_name (?groups ! gi)) (filter (\<lambda>gi. gr_concurrent_cap (?groups ! gi) \<noteq> None) (ch_groups chain))"
        using take_gauges_names [OF admitted(3)] by simp
      show "\<forall>gi \<in> set (ch_groups chain). gr_enabled (?groups ! gi)" by (rule enabled [OF admitted(2)])
      show "\<forall>b \<in> set (pool_buckets chain pool). blocked_metric cost (gs_budget g1) now b = None"
        using admitted(5) by (simp only: check_buckets_None)
    qed (simp_all only: after charge_all_cell [OF distinct] admitted(1) simp_thms)
  qed
qed

theorem admission_is_all_or_nothing_witness:
  "\<exists>g'. (\<exists>grant. gov_try_admit 256 example_model (example_key ''team'') ''p'' 100 (run_gov example_start) = (g', Inr grant)
     \<and> ag_gauges grant = [''team'']) \<and> gauge_value (gs_concurrent g') ''team'' = 1"
proof -
  obtain g' where g: "gov_try_admit 256 example_model (example_key ''team'') ''p'' 100 (run_gov example_start)
      = (g', Inr \<lparr>ag_gauges = [''team'']\<rparr>)"
    using example_admitted by blast
  have "reach gov_init (gov_step 256 example_model) example_start"
    by (rule reach_init) (simp add: gov_init_def example_start_def)
  from admission_is_all_or_nothing [OF example_model_sound this example_key_plain g]
  have "gauge_value (gs_concurrent g') ''team'' = 1"
    by (auto simp: example_start_def gauge_value_def)
  then show ?thesis using g by auto
qed

section \<open>Eviction is not observable\<close>

text \<open>The verdict of an admission that evicts nothing.\<close>

definition admission_verdict :: "CostModel \<Rightarrow> VirtualKey \<Rightarrow> string \<Rightarrow> u64 \<Rightarrow> Gov \<Rightarrow> LimitBlocked + AdmitGrant" where
  "admission_verdict cost key pool now g =
     (case chain_for cost key of
        Inl missing \<Rightarrow> Inl (MissingGroup missing)
      | Inr chain \<Rightarrow>
          (case frozen_group (cm_groups cost) (ch_groups chain) of
             Some name \<Rightarrow> Inl (DisabledBlock name)
           | None \<Rightarrow>
               (case snd (take_gauges (cm_groups cost) (ch_groups chain) \<lparr>ag_gauges = []\<rparr> (gs_concurrent g)) of
                  Inl name \<Rightarrow> Inl (LimitBlock name ''concurrent'' None None None None)
                | Inr grant \<Rightarrow>
                    (case check_buckets cost (gs_budget g) now (pool_buckets chain pool) of
                       Some blocked \<Rightarrow> Inl blocked
                     | None \<Rightarrow> Inr grant))))"

lemma check_buckets_cong:
  assumes "\<And>b. b \<in> set bs \<Longrightarrow> blocked_metric cost budget now b = blocked_metric cost budget' now b"
  shows "check_buckets cost budget now bs = check_buckets cost budget' now bs"
  using assms by (induction bs) (auto split: option.splits)

lemma uncapped_never_blocks:
  "cb_requests_cap b = None \<Longrightarrow> cb_tokens_cap b = None \<Longrightarrow> cb_budget_cap b = None \<Longrightarrow> blocked_metric cost budget now b = None"
  by (simp add: blocked_metric_def)

lemma sweep_keeps_verdict:
  assumes sound: "sound_model cost" and key: "plain_key key" and chain: "chain_for cost key = Inr chain"
    and windows: "windows_held cost clock (gs_budget g)" and now: "now < u64_max" and b: "b \<in> set (ch_buckets chain)"
  shows "blocked_metric cost (gs_budget (fold (acquire_shard iv cost now) shs g)) now b = blocked_metric cost (gs_budget g) now b"
proof (cases "cb_requests_cap b = None \<and> cb_tokens_cap b = None \<and> cb_budget_cap b = None")
  case True
  then show ?thesis by (simp add: uncapped_never_blocks)
next
  case False
  then obtain gr gb where gb: "gr \<in> set (cm_groups cost)" "gb \<in> set (gr_buckets gr)" "b = chain_bucket gr gb"
    using chain_shape(2) [OF sound key chain b] by (auto simp: key_bucket_def)
  then have gbk: "group_bucket cost gb" "has_windowed_cap gb"
    using False by (auto simp: group_bucket_def all_buckets_def has_windowed_cap_def chain_bucket_def)
  let ?wd = "\<lambda>x. if x = gb_bucket_id gb then Some (gb_window gb) else None"
  have "windows_ok ?wd (gs_budget g)"
    using windows gbk by (fastforce simp: windows_ok_def windows_held_def ledger_ok_def)
  from acquire_reading [OF capped_bucket_enforced [OF sound gbk] this _ order_refl now]
  show ?thesis by (simp add: blocked_metric_reading gb(3) chain_bucket_def)
qed

text \<open>
  Eviction is not observable. In every run the verdict of the next admission is the one of
  the engine that never sweeps, whatever the sweep tickers and the sweep interval are: the sweep of
  a shard drops only cells no limit of this request can still read.
\<close>

lemma eviction_never_changes_a_verdict:
  assumes "sound_model cost" and "reach gov_init (gov_step iv cost) r" and "plain_key key" and "now < u64_max"
  shows "snd (gov_try_admit iv' cost key pool now (run_gov r)) = admission_verdict cost key pool now (run_gov r)"
proof -
  have windows: "windows_held cost (run_clock r) (gs_budget (run_gov r))"
    using gov_reach_inv [OF assms(1,2)] by (simp add: gov_inv_def)
  obtain g' res where admit: "gov_try_admit iv' cost key pool now (run_gov r) = (g', res)" by fastforce
  have same: "check_buckets cost (gs_budget (fold (acquire_shard iv' cost now) shs ((run_gov r)\<lparr>gs_concurrent := gauges\<rparr>))) now (pool_buckets chain pool)
      = check_buckets cost (gs_budget (run_gov r)) now (pool_buckets chain pool)"
    if "chain_for cost key = Inr chain" for chain shs gauges
    using sweep_keeps_verdict [OF assms(1,3) that _ assms(4) pool_bucket_in_chain, of "run_clock r" "(run_gov r)\<lparr>gs_concurrent := gauges\<rparr>"] windows
    by (intro check_buckets_cong) simp
  show ?thesis
  proof (cases "chain_for cost key")
    case (Inl m)
    then show ?thesis by (simp add: gov_try_admit_def admission_verdict_def)
  next
    case (Inr chain)
    then show ?thesis
      by (auto simp: gov_try_admit_def admission_verdict_def admit_windowed_def Let_def same [OF Inr] split: option.splits sum.splits prod.splits)
  qed
qed

end
