(* ===== verification/Memory_Store.thy ===== *)
theory Memory_Store
  imports Gov_Machine "HOL-Library.AList"
begin

text \<open>
  The default store backend, \<open>src/crates/store-memory/src/lib.rs\<close>, under the contract of the
  \<open>Store\<close> trait (\<open>src/crates/api/src/store.rs\<close>): virtual keys with their tombstones, row-looked-up
  credentials, the usage and metering ledgers, the revocation denylist and the store-global
  revision. A hash map is an association list without repeated keys (\<open>AList.update\<close> is its
  insert); what an enumeration of the source leaves unordered comes in the order of the list. Every
  operation of the source runs under its write guards and is one step. The wall clock of a sweep
  is an argument.
\<close>

section \<open>Rows\<close>

datatype SecretForm = NoSecret | Recoverable | Digest

record CredentialMeta =
  cr_id :: string
  cr_key_id :: string
  cr_kind :: string
  cr_slot :: nat
  cr_public_id :: string
  cr_secret_form :: SecretForm
  cr_created_at :: u64
  cr_updated_at :: u64
  cr_expires_at :: "u64 option"
  cr_revoked_at :: "u64 option"
  cr_revoke_reason :: "string option"
  cr_revision :: u64

definition cred_is_live :: "CredentialMeta \<Rightarrow> u64 \<Rightarrow> bool" where
  "cred_is_live c now \<longleftrightarrow> cr_revoked_at c = None \<and> (case cr_expires_at c of None \<Rightarrow> True | Some e \<Rightarrow> now < e)"

record CredentialSecret =
  cs_meta :: CredentialMeta
  cs_secret :: string

definition plaintext :: "CredentialSecret \<Rightarrow> string option" where
  "plaintext c = strip_prefix ''v1:plain:'' (cs_secret c)"

record MeteringDelta =
  me_key_id :: string
  me_bucket :: u64
  me_model :: string
  me_provider :: string
  me_tokens :: TierTokens
  me_requests :: u64
  me_billable_requests :: u64
  me_key_group_at_use :: string
  me_pricing_version :: string

record MeteringRow =
  mr_key_id :: string
  mr_model :: string
  mr_provider :: string
  mr_tokens :: TierTokens
  mr_requests :: u64
  mr_billable_requests :: u64
  mr_key_group_at_use :: string
  mr_pricing_version :: string

record MemoryStore =
  ms_keys :: "(string \<times> VirtualKey) list"
  ms_creds :: "(string \<times> CredentialSecret) list"
  ms_usage :: "((string \<times> u64) \<times> UsageLedger) list"
  ms_metering :: "((string \<times> u64 \<times> string \<times> string) \<times> MeteringRow) list"
  ms_denylist :: "string list"
  ms_usage_sweep_ticker :: u64
  ms_metering_sweep_ticker :: u64
  ms_keys_sweep_ticker :: u64
  ms_creds_sweep_ticker :: u64
  ms_revision :: u64

definition memory_new :: MemoryStore where
  "memory_new =
     \<lparr>ms_keys = [], ms_creds = [], ms_usage = [], ms_metering = [], ms_denylist = [], ms_usage_sweep_ticker = 0,
      ms_metering_sweep_ticker = 0, ms_keys_sweep_ticker = 0, ms_creds_sweep_ticker = 0, ms_revision = 0\<rparr>"

definition MAX_RETENTION_SECS :: u64 where "MAX_RETENTION_SECS = 31 * 86400"
definition SWEEP_INTERVAL :: u64 where "SWEEP_INTERVAL = 256"

datatype StoreError =
    PutKeyTombstoned string
  | DeleteUnknownKey string
  | ScrubUnknownKey string
  | ScrubLiveKey string
  | SlotHoldsLiveCredential nat string string
  | PublicIdInUse string string
  | RevokeUnknownCredential string

definition next_revision :: "MemoryStore \<Rightarrow> u64" where
  "next_revision s = wrap_u64 (ms_revision s + 1)"

definition sweep_due :: "u64 \<Rightarrow> bool" where
  "sweep_due ticker \<longleftrightarrow> ticker mod SWEEP_INTERVAL = 0"

section \<open>Keys\<close>

definition key_retained :: "u64 \<Rightarrow> string \<times> VirtualKey \<Rightarrow> bool" where
  "key_retained now kv = (case vk_deleted_at (snd kv) of None \<Rightarrow> True | Some d \<Rightarrow> saturating_add d MAX_RETENTION_SECS > now)"

definition put_key :: "u64 \<Rightarrow> VirtualKey \<Rightarrow> MemoryStore \<Rightarrow> StoreError + MemoryStore" where
  "put_key now key s =
     (if vk_deleted_at key = None \<and>
         (case map_of (ms_keys s) (vk_id key) of Some existing \<Rightarrow> vk_deleted_at existing \<noteq> None | None \<Rightarrow> False)
      then Inl (PutKeyTombstoned (vk_id key))
      else
        let rev = next_revision s;
            ks = AList.update (vk_id key) (key\<lparr>vk_revision := rev\<rparr>) (ms_keys s);
            ticker = wrap_u64 (ms_keys_sweep_ticker s + 1)
        in Inr (s\<lparr>ms_revision := rev, ms_keys_sweep_ticker := ticker,
                  ms_keys := if sweep_due ticker then filter (key_retained now) ks else ks\<rparr>))"

definition get_key :: "string \<Rightarrow> MemoryStore \<Rightarrow> VirtualKey option" where
  "get_key k s = map_of (ms_keys s) k"

definition list_keys :: "MemoryStore \<Rightarrow> VirtualKey list" where
  "list_keys s = sort_key vk_created_at (map snd (ms_keys s))"

definition delete_key :: "u64 \<Rightarrow> string \<Rightarrow> MemoryStore \<Rightarrow> StoreError + MemoryStore" where
  "delete_key now k s =
     (case map_of (ms_keys s) k of
        None \<Rightarrow> Inl (DeleteUnknownKey k)
      | Some key \<Rightarrow>
          if vk_deleted_at key \<noteq> None then Inr s
          else
            let rev = next_revision s in
            Inr (s\<lparr>ms_revision := rev,
                   ms_keys := AList.update k (key\<lparr>vk_enabled := False, vk_deleted_at := Some now, vk_revision := rev\<rparr>) (ms_keys s),
                   ms_usage := filter (\<lambda>r. fst (fst r) \<noteq> k) (ms_usage s),
                   ms_creds := filter (\<lambda>c. cr_key_id (cs_meta (snd c)) \<noteq> k) (ms_creds s)\<rparr>))"

definition scrub_key :: "string \<Rightarrow> MemoryStore \<Rightarrow> StoreError + MemoryStore" where
  "scrub_key k s =
     (case map_of (ms_keys s) k of
        None \<Rightarrow> Inl (ScrubUnknownKey k)
      | Some key \<Rightarrow>
          if vk_deleted_at key = None then Inl (ScrubLiveKey k)
          else
            let rev = next_revision s in
            Inr (s\<lparr>ms_revision := rev,
                   ms_keys := AList.update k (key\<lparr>vk_name := [], vk_labels := [], vk_revision := rev\<rparr>) (ms_keys s)\<rparr>))"

definition list_keys_since :: "u64 \<Rightarrow> MemoryStore \<Rightarrow> VirtualKey list" where
  "list_keys_since since s = filter (\<lambda>k. vk_revision k > since) (map snd (ms_keys s))"

section \<open>Ledgers\<close>

definition get_usage :: "MemoryStore \<Rightarrow> string \<Rightarrow> u64 \<Rightarrow> UsageLedger" where
  "get_usage s bucket_id window_start = (case map_of (ms_usage s) (bucket_id, window_start) of Some l \<Rightarrow> l | None \<Rightarrow> empty_ledger)"

definition put_usage :: "string \<Rightarrow> u64 \<Rightarrow> UsageLedger \<Rightarrow> MemoryStore \<Rightarrow> MemoryStore" where
  "put_usage bucket_id window_start ledger s = s\<lparr>ms_usage := AList.update (bucket_id, window_start) ledger (ms_usage s)\<rparr>"

definition add_usage :: "u64 \<Rightarrow> string \<Rightarrow> u64 \<Rightarrow> UsageDelta \<Rightarrow> MemoryStore \<Rightarrow> MemoryStore" where
  "add_usage now bucket_id window_start delta s =
     (let us = AList.update (bucket_id, window_start) (apply_delta delta (get_usage s bucket_id window_start)) (ms_usage s);
          ticker = wrap_u64 (ms_usage_sweep_ticker s + 1)
      in s\<lparr>ms_usage_sweep_ticker := ticker,
           ms_usage := if sweep_due ticker then filter (\<lambda>r. saturating_add (snd (fst r)) MAX_RETENTION_SECS > now) us else us\<rparr>)"

definition metering_key :: "MeteringDelta \<Rightarrow> string \<times> u64 \<times> string \<times> string" where
  "metering_key d = (me_key_id d, me_bucket d, me_model d, me_provider d)"

definition new_metering_row :: "MeteringDelta \<Rightarrow> MeteringRow" where
  "new_metering_row d =
     \<lparr>mr_key_id = me_key_id d, mr_model = me_model d, mr_provider = me_provider d, mr_tokens = no_tokens, mr_requests = 0,
      mr_billable_requests = 0, mr_key_group_at_use = me_key_group_at_use d, mr_pricing_version = me_pricing_version d\<rparr>"

definition add_metering :: "u64 \<Rightarrow> MeteringDelta \<Rightarrow> MemoryStore \<Rightarrow> MemoryStore" where
  "add_metering now d s =
     (let e = (case map_of (ms_metering s) (metering_key d) of Some r \<Rightarrow> r | None \<Rightarrow> new_metering_row d);
          e' = e\<lparr>mr_tokens := add_tokens (mr_tokens e) (me_tokens d),
                 mr_requests := saturating_add (mr_requests e) (me_requests d),
                 mr_billable_requests := saturating_add (mr_billable_requests e) (me_billable_requests d)\<rparr>;
          m = AList.update (metering_key d) e' (ms_metering s);
          ticker = wrap_u64 (ms_metering_sweep_ticker s + 1)
      in s\<lparr>ms_metering_sweep_ticker := ticker,
           ms_metering := if sweep_due ticker then filter (\<lambda>r. saturating_add (fst (snd (fst r))) MAX_RETENTION_SECS > now) m else m\<rparr>)"

definition list_metering :: "u64 \<Rightarrow> MemoryStore \<Rightarrow> MeteringRow list" where
  "list_metering bucket s = map snd (filter (\<lambda>r. fst (snd (fst r)) = bucket) (ms_metering s))"

section \<open>Credentials and the denylist\<close>

definition slot_occupied :: "CredentialMeta \<Rightarrow> MemoryStore \<Rightarrow> bool" where
  "slot_occupied m s =
     list_ex (\<lambda>(_, c). cr_id (cs_meta c) \<noteq> cr_id m \<and> cr_key_id (cs_meta c) = cr_key_id m \<and> cr_kind (cs_meta c) = cr_kind m
        \<and> cr_slot (cs_meta c) = cr_slot m \<and> cr_revoked_at (cs_meta c) = None) (ms_creds s)"

definition public_id_taken :: "CredentialMeta \<Rightarrow> MemoryStore \<Rightarrow> bool" where
  "public_id_taken m s =
     list_ex (\<lambda>(_, c). cr_id (cs_meta c) \<noteq> cr_id m \<and> cr_kind (cs_meta c) = cr_kind m
        \<and> cr_public_id (cs_meta c) = cr_public_id m) (ms_creds s)"

definition cred_retained :: "u64 \<Rightarrow> string \<times> CredentialSecret \<Rightarrow> bool" where
  "cred_retained now kv =
     (case cr_revoked_at (cs_meta (snd kv)) of None \<Rightarrow> True | Some t \<Rightarrow> saturating_add t MAX_RETENTION_SECS > now)"

definition put_credential :: "u64 \<Rightarrow> CredentialSecret \<Rightarrow> MemoryStore \<Rightarrow> StoreError + MemoryStore" where
  "put_credential now secret s =
     (let m = cs_meta secret in
      if slot_occupied m s then Inl (SlotHoldsLiveCredential (cr_slot m) (cr_key_id m) (cr_kind m))
      else if public_id_taken m s then Inl (PublicIdInUse (cr_public_id m) (cr_kind m))
      else
        let rev = next_revision s;
            cs = AList.update (cr_id m) (secret\<lparr>cs_meta := m\<lparr>cr_revision := rev\<rparr>\<rparr>) (ms_creds s);
            ticker = wrap_u64 (ms_creds_sweep_ticker s + 1)
        in Inr (s\<lparr>ms_revision := rev, ms_creds_sweep_ticker := ticker,
                  ms_creds := if sweep_due ticker then filter (cred_retained now) cs else cs\<rparr>))"

text \<open>The default of the trait, which the memory store does not override: two writes in sequence.\<close>

definition put_key_with_credential :: "u64 \<Rightarrow> VirtualKey \<Rightarrow> CredentialSecret \<Rightarrow> MemoryStore \<Rightarrow> MemoryStore \<times> StoreError option" where
  "put_key_with_credential now key secret s =
     (case put_key now key s of
        Inl e \<Rightarrow> (s, Some e)
      | Inr s1 \<Rightarrow> (case put_credential now secret s1 of Inl e \<Rightarrow> (s1, Some e) | Inr s2 \<Rightarrow> (s2, None)))"

definition list_credentials :: "string \<Rightarrow> MemoryStore \<Rightarrow> CredentialMeta list" where
  "list_credentials k s = filter (\<lambda>c. cr_key_id c = k) (map (\<lambda>c. cs_meta (snd c)) (ms_creds s))"

definition lookup_credential_secret :: "string \<Rightarrow> string \<Rightarrow> MemoryStore \<Rightarrow> CredentialSecret option" where
  "lookup_credential_secret kind public_id s =
     find (\<lambda>c. cr_kind (cs_meta c) = kind \<and> cr_public_id (cs_meta c) = public_id) (map snd (ms_creds s))"

definition revoke_credential :: "u64 \<Rightarrow> string \<Rightarrow> string \<Rightarrow> MemoryStore \<Rightarrow> StoreError + MemoryStore" where
  "revoke_credential now cid reason s =
     (case map_of (ms_creds s) cid of
        None \<Rightarrow> Inl (RevokeUnknownCredential cid)
      | Some c \<Rightarrow>
          if cr_revoked_at (cs_meta c) \<noteq> None then Inr s
          else
            let rev = next_revision s;
                m = (cs_meta c)\<lparr>cr_revoked_at := Some now, cr_revoke_reason := Some reason, cr_revision := rev\<rparr>
            in Inr (s\<lparr>ms_revision := rev, ms_creds := AList.update cid (c\<lparr>cs_meta := m\<rparr>) (ms_creds s)\<rparr>))"

definition list_credentials_since :: "u64 \<Rightarrow> MemoryStore \<Rightarrow> CredentialSecret list" where
  "list_credentials_since since s = filter (\<lambda>c. cr_revision (cs_meta c) > since) (map snd (ms_creds s))"

definition add_denylist :: "string \<Rightarrow> MemoryStore \<Rightarrow> MemoryStore" where
  "add_denylist sub s = s\<lparr>ms_denylist := List.insert sub (ms_denylist s)\<rparr>"

definition list_denylist :: "MemoryStore \<Rightarrow> string list" where
  "list_denylist s = ms_denylist s"

section \<open>The usage ledger as the engine's store\<close>

definition window_retained :: "u64 \<Rightarrow> u64 \<Rightarrow> bool" where
  "window_retained now w \<longleftrightarrow> saturating_add w MAX_RETENTION_SECS > now"

lemma map_of_retained: "P k \<Longrightarrow> map_of (filter (\<lambda>r. P (fst r)) kvs) k = map_of kvs k"
  by (induction kvs) auto

lemma add_usage_rows:
  assumes "window_retained now w"
  shows "get_usage (add_usage now b' w' d s) b w =
    (if (b', w') = (b, w) then apply_delta d (get_usage s b w) else get_usage s b w)"
proof -
  have "map_of (filter (\<lambda>r. saturating_add (snd (fst r)) MAX_RETENTION_SECS > now) us) (b, w) = map_of us (b, w)"
    for us :: "((string \<times> u64) \<times> UsageLedger) list"
    using assms by (intro map_of_retained) (simp add: window_retained_def)
  then show ?thesis
    by (simp add: get_usage_def add_usage_def Let_def update_conv')
qed

interpretation mem_usage: usage_store get_usage "\<lambda>now b w d s. Some (add_usage now b w d s)" window_retained
  by unfold_locales (auto simp: add_usage_rows)

text \<open>
  C14: The write-behind flush is additive. Any number of engines flush their cells of a bucket
  window into one store, charges and refunds fall between a snapshot and its acknowledgement,
  writes fail and are retried, acknowledgements are lost after the write landed, and cells roll
  over or are evicted at any point of a flush. Once every cell is clean and acknowledged, every
  counter of the durable ledger has grown by what the engines counted since they started, those
  cells included that have left the window; plus exactly the deltas whose acknowledgement was lost,
  which are written twice; less exactly what the cells that left the window had counted and never
  got into the store. Each counter is clamped to the signed range the deltas have. This holds for
  a window the store retains at every write (the sweep drops the all-time window like any other
  that started long ago) and as long as no durable counter leaves its range.
\<close>

theorem fleet_flush_is_additive:
  assumes "fleet_start get_usage N bid w f0"
    and "trace (fleet_step get_usage (\<lambda>now b w d s. Some (add_usage now b w d s)) window_retained N bid w) f0 es f"
    and "fleet_quiet N bid w f"
  shows "int (ledger_count k (get_usage (fl_store f) bid w))
       = int (ledger_count k (get_usage (fl_store f0) bid w))
         + (fleet_sum (counted k bid w) N f + fl_retired f k - fleet_sum (counted k bid w) N f0)
         + fl_doubled f k - fl_dropped f k"
  by (rule mem_usage.fleet_additive [OF assms])

lemma fresh_counts [simp]:
  "cell_count k (cell_fresh w) = 0" "acked_count k (cell_fresh w) = 0" "ledger_count k empty_ledger = 0"
  by (cases k; simp add: cell_fresh_def model_views_def acked_views_def empty_ledger_def ledger_views_def)+

text \<open>One engine, one charge, one flush.\<close>

definition example_fleet :: "MemoryStore Fleet" where
  "example_fleet =
     \<lparr>fl_nodes = (\<lambda>_. \<lparr>fn_gov = \<lparr>gs_budget = [''b'' \<mapsto> cell_fresh 0], gs_sweep_ticker = (\<lambda>_. 0), gs_concurrent = Map.empty\<rparr>,
                         fn_phase = Idle\<rparr>),
      fl_store = memory_new, fl_doubled = (\<lambda>k. 0), fl_retired = (\<lambda>k. 0), fl_dropped = (\<lambda>k. 0)\<rparr>"

theorem fleet_flush_is_additive_witness:
  "\<exists>f :: MemoryStore Fleet. fleet_quiet 1 ''b'' 0 f \<and> ledger_count RequestCount (get_usage (fl_store f) ''b'' 0) = 1"
proof -
  let ?step = "fleet_step get_usage (\<lambda>now b w d s. Some (add_usage now b w d s)) window_retained 1 ''b'' 0"
  let ?G = "fn_gov (fl_nodes example_fleet 0)"
  define c where "c = (cell_fresh 0)\<lparr>bc_requests := 1, bc_billable_requests := 1, bc_dirty := True, bc_last_touch := 0\<rparr>"
  define s where "s = snap_cell ''b'' c"
  define g1 where "g1 = ?G\<lparr>gs_budget := charge_bucket 0 (key_bucket ''b'') (gs_budget ?G)\<rparr>"
  define g2 where "g2 = g1\<lparr>gs_budget := (gs_budget g1)(''b'' \<mapsto> c\<lparr>bc_dirty := False\<rparr>)\<rparr>"
  define g3 where "g3 = g2\<lparr>gs_budget := on_cell (ack_cell s) (ds_bucket_id s) (gs_budget g2)\<rparr>"
  define f1 where "f1 = set_node 0 g1 Idle example_fleet"
  define f2 where "f2 = set_node 0 g2 (Snapped s) f1"
  define st where "st = add_usage 0 ''b'' 0 (ds_delta s) memory_new"
  define f3 where "f3 = set_node 0 g2 (Written s) (f2\<lparr>fl_store := st\<rparr>)"
  define f4 where "f4 = set_node 0 g3 Idle f3"
  have total: "budget_window ''total'' t = 0" for t by (simp add: budget_window_def window_words)
  have g1: "gs_budget g1 ''b'' = Some c"
    by (simp add: g1_def example_fleet_def charge_bucket_def key_bucket_def window_words total live_cell_def c_def cell_fresh_def
        saturating_add_def u64_max_def Let_def)
  have snap: "ds_bucket_id s = ''b''" "ds_window s = 0" by (simp_all add: s_def snap_cell_def c_def cell_fresh_def)
  have delta: "delta_count k (ds_delta s) = (case k of TokenCount _ _ \<Rightarrow> 0 | _ \<Rightarrow> 1)" for k
    by (cases k) (simp_all add: s_def snap_cell_def c_def cell_fresh_def model_deltas_def signed_counter_def i64_of_u64_def i64_max_def)
  have cells: "node_cell ''b'' 0 (fl_nodes example_fleet 0) = cell_fresh 0"
    by (simp add: node_cell_def example_fleet_def cell_in_def cell_fresh_def)
  have "cell_work ''b'' 0 ?G g1"
    unfolding g1_def by (rule cell_work.charge)
      (simp_all add: example_fleet_def key_bucket_def window_words total live_cell_def cell_fresh_def)
  then have s1: "?step example_fleet 0 f1"
    unfolding f1_def by (intro fleet_step.work [where g = ?G]) (simp_all add: example_fleet_def)
  have s2: "?step f1 0 f2"
    unfolding f2_def g2_def s_def by (rule fleet_step.snapshot) (simp_all add: f1_def g1, simp_all add: c_def cell_fresh_def)
  have s3: "?step f2 0 f3"
  proof -
    have "in_range (get_usage memory_new ''b'' 0) (ds_delta s)"
      unfolding in_range_def delta by (auto simp: get_usage_def memory_new_def empty_ledger_def u64_max_def ledger_views_def split: Counter.splits)
    then show ?thesis
      unfolding f3_def by (intro fleet_step.written [where now = 0])
        (simp_all add: f2_def f1_def snap st_def example_fleet_def window_retained_def MAX_RETENTION_SECS_def saturating_add_def u64_max_def)
  qed
  have s4: "?step f3 0 f4"
    unfolding f4_def g3_def by (rule fleet_step.acked) (simp_all add: f3_def)
  have run: "trace ?step example_fleet [0, 0, 0, 0] f4"
    by (rule trace_cons [where step = ?step, OF trace_cons [where step = ?step, OF trace_cons [where step = ?step,
          OF trace_single [where step = ?step, OF s4] s3] s2] s1])
  have start: "fleet_start get_usage 1 ''b'' 0 example_fleet"
    by (auto simp: fleet_start_def cells ledger_fits_def cell_fits_def)
       (simp_all add: example_fleet_def get_usage_def memory_new_def cell_fresh_def)
  have g3: "gs_budget g3 ''b'' = Some (ack_cell s (c\<lparr>bc_dirty := False\<rparr>))"
    by (simp add: g3_def g2_def on_cell_def snap)
  have last: "node_cell ''b'' 0 (fl_nodes f4 0) = ack_cell s (c\<lparr>bc_dirty := False\<rparr>)"
    by (simp add: f4_def node_cell_def g3 cell_in_def ack_cell_kept) (simp add: c_def cell_fresh_def)
  have quiet: "fleet_quiet 1 ''b'' 0 f4"
    using last by (simp add: fleet_quiet_def ack_cell_kept f4_def)
  have "counted RequestCount ''b'' 0 (fl_nodes f4 0) = 1" "counted RequestCount ''b'' 0 (fl_nodes example_fleet 0) = 0"
    unfolding counted_def last cells by (simp_all only: ack_cell_kept dirty_flag_counts)
      (simp_all add: c_def cell_fresh_def signed_counter_def i64_of_u64_def i64_max_def)
  then have "int (ledger_count RequestCount (get_usage (fl_store f4) ''b'' 0)) = 1"
    unfolding fleet_flush_is_additive [OF start run quiet]
    by (simp add: fleet_sum_def f4_def f3_def f2_def f1_def)
      (simp add: example_fleet_def get_usage_def memory_new_def empty_ledger_def)
  then show ?thesis using quiet by (intro exI [of _ f4]) simp
qed

text \<open>A hydrated cell is a legitimate start: it counts what the ledger holds, all of it acknowledged.\<close>

lemma hydrated_counts:
  "cell_count k (hydrated_cell w now l) = ledger_count k l" "acked_count k (hydrated_cell w now l) = ledger_count k l"
  by (cases k; simp add: hydrated_cell_def model_views_def acked_views_def ledger_views_def comp_def)+

section \<open>Runs of the store\<close>

datatype StoreOp =
    PutKey VirtualKey
  | DeleteKey string
  | ScrubKey string
  | PutUsage string u64 UsageLedger
  | AddUsage string u64 UsageDelta
  | AddMetering MeteringDelta
  | PutCredential CredentialSecret
  | RevokeCredential string string
  | AddDenylist string

fun store_apply :: "u64 \<Rightarrow> StoreOp \<Rightarrow> MemoryStore \<Rightarrow> StoreError + MemoryStore" where
  "store_apply now (PutKey key) s = put_key now key s"
| "store_apply now (DeleteKey k) s = delete_key now k s"
| "store_apply now (ScrubKey k) s = scrub_key k s"
| "store_apply now (PutUsage b w l) s = Inr (put_usage b w l s)"
| "store_apply now (AddUsage b w d) s = Inr (add_usage now b w d s)"
| "store_apply now (AddMetering d) s = Inr (add_metering now d s)"
| "store_apply now (PutCredential c) s = put_credential now c s"
| "store_apply now (RevokeCredential c reason) s = revoke_credential now c reason s"
| "store_apply now (AddDenylist sub) s = Inr (add_denylist sub s)"

inductive mem_step :: "MemoryStore \<Rightarrow> u64 \<times> StoreOp \<Rightarrow> MemoryStore \<Rightarrow> bool" where
  applied: "store_apply now op s = Inr s' \<Longrightarrow> mem_step s (now, op) s'"

inductive_simps mem_step_simps: "mem_step s (now, op) s'"

lemmas mem_op_defs = put_key_def delete_key_def scrub_key_def put_usage_def add_usage_def add_metering_def
  put_credential_def revoke_credential_def add_denylist_def Let_def

definition cred_clash :: "CredentialMeta \<Rightarrow> CredentialMeta \<Rightarrow> bool" where
  "cred_clash m m' \<longleftrightarrow> cr_id m \<noteq> cr_id m' \<and>
     (cr_kind m = cr_kind m' \<and> cr_public_id m = cr_public_id m'
      \<or> cr_key_id m = cr_key_id m' \<and> cr_kind m = cr_kind m' \<and> cr_slot m = cr_slot m'
        \<and> cr_revoked_at m = None \<and> cr_revoked_at m' = None)"

definition mem_wf :: "MemoryStore \<Rightarrow> bool" where
  "mem_wf s \<longleftrightarrow>
     distinct (map fst (ms_keys s)) \<and> (\<forall>(k, key) \<in> set (ms_keys s). vk_id key = k)
     \<and> distinct (map fst (ms_creds s)) \<and> (\<forall>(k, c) \<in> set (ms_creds s). cr_id (cs_meta c) = k)
     \<and> (\<forall>(k, c) \<in> set (ms_creds s). \<forall>(k', c') \<in> set (ms_creds s). \<not> cred_clash (cs_meta c) (cs_meta c'))"

lemma AList_update_set: "x \<in> set (AList.update k v kvs) \<Longrightarrow> x = (k, v) \<or> x \<in> set kvs"
  by (induction kvs) (auto split: if_splits)

lemma AList_update_other: "distinct (map fst kvs) \<Longrightarrow> x \<in> set (AList.update k v kvs) \<Longrightarrow> x = (k, v) \<or> x \<in> set kvs \<and> fst x \<noteq> k"
  by (induction kvs) (auto split: if_splits)

lemma cred_clash_sym: "cred_clash m m' = cred_clash m' m"
  by (auto simp: cred_clash_def)

lemma wf_no_clash:
  assumes "mem_wf s" and "(k, c) \<in> set (ms_creds s)" and "(k', c') \<in> set (ms_creds s)"
  shows "\<not> cred_clash (cs_meta c) (cs_meta c')"
proof -
  have "\<forall>(k, c) \<in> set (ms_creds s). \<forall>(k', c') \<in> set (ms_creds s). \<not> cred_clash (cs_meta c) (cs_meta c')"
    using assms(1) by (simp add: mem_wf_def)
  from bspec [OF this assms(2)] have "\<forall>(k', c') \<in> set (ms_creds s). \<not> cred_clash (cs_meta c) (cs_meta c')" by simp
  from bspec [OF this assms(3)] show ?thesis by simp
qed

text \<open>Replacing one credential by one that clashes with none of the others keeps the invariant.\<close>

lemma wf_creds_update:
  assumes "mem_wf s" and "cr_id (cs_meta c) = k"
    and "\<And>k' c'. (k', c') \<in> set (ms_creds s) \<Longrightarrow> k' \<noteq> k \<Longrightarrow> \<not> cred_clash (cs_meta c) (cs_meta c')"
  shows "mem_wf (s\<lparr>ms_creds := filter P (AList.update k c (ms_creds s))\<rparr>)"
proof -
  let ?cs = "AList.update k c (ms_creds s)"
  have dist: "distinct (map fst (ms_creds s))" using assms(1) by (simp add: mem_wf_def)
  have "\<not> cred_clash (cs_meta (snd x)) (cs_meta (snd y))" if xy: "x \<in> set ?cs" "y \<in> set ?cs" for x y
  proof -
    have new: "\<not> cred_clash (cs_meta c) (cs_meta (snd z))" if "z \<in> set ?cs" for z
    proof (cases "z = (k, c)")
      case True
      then show ?thesis by (simp add: cred_clash_def)
    next
      case False
      then have "(fst z, snd z) \<in> set (ms_creds s)" "fst z \<noteq> k"
        using AList_update_other [OF dist that] by auto
      then show ?thesis by (rule assms(3))
    qed
    consider "x = (k, c)" | "y = (k, c)" | "x \<in> set (ms_creds s)" "y \<in> set (ms_creds s)"
      using AList_update_set [OF xy(1)] AList_update_set [OF xy(2)] by blast
    then show ?thesis
    proof cases
      case 1
      then show ?thesis using new [OF xy(2)] by simp
    next
      case 2
      then show ?thesis using new [OF xy(1)] by (simp add: cred_clash_sym)
    next
      case 3
      then show ?thesis using wf_no_clash [OF assms(1), of "fst x" "snd x" "fst y" "snd y"] by simp
    qed
  qed
  moreover have "\<forall>x \<in> set ?cs. cr_id (cs_meta (snd x)) = fst x"
    using assms(1,2) AList_update_set by (fastforce simp: mem_wf_def)
  ultimately show ?thesis
    using assms(1) dist by (auto simp: mem_wf_def distinct_update distinct_map_filter case_prod_beta)
qed

lemma wf_creds_filter: "mem_wf s \<Longrightarrow> mem_wf (s\<lparr>ms_creds := filter P (ms_creds s)\<rparr>)"
  by (auto simp: mem_wf_def distinct_map_filter)

lemma wf_keys_update:
  assumes "mem_wf s" and "vk_id key = k"
  shows "mem_wf (s\<lparr>ms_keys := filter P (AList.update k key (ms_keys s))\<rparr>)"
proof -
  have "vk_id (snd x) = fst x" if "x \<in> set (AList.update k key (ms_keys s))" for x
    using AList_update_set [OF that] assms by (auto simp: mem_wf_def)
  then show ?thesis
    using assms(1) by (auto simp: mem_wf_def distinct_update distinct_map_filter)
qed

lemma wf_frame:
  "ms_keys s' = ms_keys s \<Longrightarrow> ms_creds s' = ms_creds s \<Longrightarrow> mem_wf s' \<longleftrightarrow> mem_wf s"
  by (simp add: mem_wf_def)

lemma wf_step_cases:
  assumes "store_apply now op s = Inr s'" and wf: "mem_wf s"
  shows "mem_wf s'"
proof (cases op)
  case (PutKey key)
  obtain P where "ms_keys s' = filter P (AList.update (vk_id key) (key\<lparr>vk_revision := next_revision s\<rparr>) (ms_keys s))"
    "ms_creds s' = ms_creds s"
    using assms(1) by (auto simp: PutKey put_key_def Let_def split: if_splits intro: that [of "\<lambda>_. True"])
  then show ?thesis
    using wf_keys_update [OF wf, of "key\<lparr>vk_revision := next_revision s\<rparr>" "vk_id key" P]
    by (simp add: wf_frame [of "s\<lparr>ms_keys := _\<rparr>" s'])
next
  case (DeleteKey k)
  show ?thesis
  proof (cases "s' = s")
    case False
    then obtain key where key: "map_of (ms_keys s) k = Some key"
      and s': "ms_keys s' = AList.update k (key\<lparr>vk_enabled := False, vk_deleted_at := Some now, vk_revision := next_revision s\<rparr>) (ms_keys s)"
        "ms_creds s' = filter (\<lambda>c. cr_key_id (cs_meta (snd c)) \<noteq> k) (ms_creds s)"
      using assms(1) by (auto simp: DeleteKey delete_key_def Let_def split: option.splits if_splits)
    have "vk_id key = k" using wf map_of_SomeD [OF key] by (auto simp: mem_wf_def)
    then have "mem_wf (s\<lparr>ms_keys := ms_keys s'\<rparr>)"
      using wf_keys_update [OF wf, of _ k "\<lambda>_. True"] by (simp add: s'(1))
    from wf_creds_filter [OF this, of "\<lambda>c. cr_key_id (cs_meta (snd c)) \<noteq> k"]
    show ?thesis by (rule iffD2 [OF wf_frame, rotated 2]) (simp_all add: s')
  qed (use wf in simp)
next
  case (ScrubKey k)
  then obtain key where key: "map_of (ms_keys s) k = Some key"
    and s': "ms_keys s' = AList.update k (key\<lparr>vk_name := [], vk_labels := [], vk_revision := next_revision s\<rparr>) (ms_keys s)"
      "ms_creds s' = ms_creds s"
    using assms(1) by (auto simp: scrub_key_def Let_def split: option.splits if_splits)
  have "vk_id key = k" using wf map_of_SomeD [OF key] by (auto simp: mem_wf_def)
  then have "mem_wf (s\<lparr>ms_keys := ms_keys s'\<rparr>)"
    using wf_keys_update [OF wf, of _ k "\<lambda>_. True"] by (simp add: s'(1))
  then show ?thesis by (simp add: mem_wf_def s')
next
  case (PutCredential c)
  let ?m = "cs_meta c"
  obtain P where s': "ms_creds s' = filter P (AList.update (cr_id ?m) (c\<lparr>cs_meta := ?m\<lparr>cr_revision := next_revision s\<rparr>\<rparr>) (ms_creds s))"
    "ms_keys s' = ms_keys s" and free: "\<not> slot_occupied ?m s" "\<not> public_id_taken ?m s"
    using assms(1) by (auto simp: PutCredential put_credential_def Let_def split: if_splits intro: that [of "\<lambda>_. True"])
  have "\<not> cred_clash (?m\<lparr>cr_revision := next_revision s\<rparr>) (cs_meta c')" if "(k', c') \<in> set (ms_creds s)" "k' \<noteq> cr_id ?m" for k' c'
  proof -
    have "cr_id (cs_meta c') = k'" using wf that(1) by (auto simp: mem_wf_def)
    then show ?thesis
      using free that by (auto simp: cred_clash_def slot_occupied_def public_id_taken_def list_ex_iff)
  qed
  then have "mem_wf (s\<lparr>ms_creds := ms_creds s'\<rparr>)"
    using wf_creds_update [OF wf, of "c\<lparr>cs_meta := ?m\<lparr>cr_revision := next_revision s\<rparr>\<rparr>" "cr_id ?m" P] by (simp add: s'(1))
  then show ?thesis by (simp add: mem_wf_def s')
next
  case (RevokeCredential cid reason)
  show ?thesis
  proof (cases "s' = s")
    case False
    then obtain c where c: "map_of (ms_creds s) cid = Some c" and s': "ms_keys s' = ms_keys s"
      "ms_creds s' = AList.update cid (c\<lparr>cs_meta := (cs_meta c)\<lparr>cr_revoked_at := Some now, cr_revoke_reason := Some reason,
         cr_revision := next_revision s\<rparr>\<rparr>) (ms_creds s)"
      using assms(1) by (auto simp: RevokeCredential revoke_credential_def Let_def split: option.splits if_splits)
    note c = map_of_SomeD [OF c]
    let ?c = "c\<lparr>cs_meta := (cs_meta c)\<lparr>cr_revoked_at := Some now, cr_revoke_reason := Some reason, cr_revision := next_revision s\<rparr>\<rparr>"
    have cid: "cr_id (cs_meta c) = cid" using wf c by (auto simp: mem_wf_def)
    have clash: "\<not> cred_clash (cs_meta c) (cs_meta c')" if "(k', c') \<in> set (ms_creds s)" for k' c'
      by (rule wf_no_clash [OF wf c that])
    have "\<not> cred_clash (cs_meta ?c) (cs_meta c')" if "(k', c') \<in> set (ms_creds s)" for k' c'
      using clash [OF that] by (auto simp: cred_clash_def)
    then have "mem_wf (s\<lparr>ms_creds := filter (\<lambda>_. True) (AList.update cid ?c (ms_creds s))\<rparr>)"
      using cid by (intro wf_creds_update [OF wf]) simp_all
    then have "mem_wf (s\<lparr>ms_creds := ms_creds s'\<rparr>)" by (simp add: s'(2))
    then show ?thesis by (simp add: mem_wf_def s'(1))
  qed (use wf in simp)
qed (rule iffD2 [OF wf_frame wf];
     use assms(1) in \<open>auto simp: put_usage_def add_usage_def add_metering_def add_denylist_def Let_def\<close>)+

interpretation mem_sys: invariant_system "\<lambda>s. s = memory_new" mem_step mem_wf
proof
  show "s = memory_new \<Longrightarrow> mem_wf s" for s by (simp add: memory_new_def mem_wf_def)
  show "mem_wf s \<Longrightarrow> mem_step s e t \<Longrightarrow> mem_wf t" for s e t
    using wf_step_cases by (cases e) (auto simp: mem_step_simps)
qed

section \<open>Credentials\<close>

lemma find_unique:
  assumes "x \<in> set xs" and "P x" and "\<And>y. y \<in> set xs \<Longrightarrow> P y \<Longrightarrow> y = x"
  shows "find P xs = Some x"
  using assms
proof (induction xs)
  case (Cons a xs)
  show ?case
  proof (cases "P a")
    case True
    then have "a = x" by (rule Cons.prems(3) [OF list.set_intros(1)])
    then show ?thesis using True by simp
  next
    case False
    then have "x \<in> set xs" using Cons.prems(1,2) by auto
    then have "find P xs = Some x" using Cons.prems(3) by (intro Cons.IH Cons.prems(2)) (simp_all only: list.set_intros(2))
    then show ?thesis using False by simp
  qed
qed simp

lemma length_filter_le_1:
  assumes "distinct xs" and "\<And>x y. x \<in> set xs \<Longrightarrow> y \<in> set xs \<Longrightarrow> P x \<Longrightarrow> P y \<Longrightarrow> x = y"
  shows "length (filter P xs) \<le> 1"
proof (cases "filter P xs")
  case (Cons a ys)
  have "distinct (filter P xs)" using assms(1) by simp
  moreover have "y = a" if "y \<in> set ys" for y
  proof -
    have "y \<in> set (filter P xs)" "a \<in> set (filter P xs)" using that by (simp_all only: Cons list.set_intros)
    then show ?thesis using assms(2) [of y a] by simp
  qed
  ultimately have "ys = []" unfolding Cons by (cases ys) auto
  then show ?thesis by (simp add: Cons)
qed simp

text \<open>
  A credential handle resolves to one credential. In every run of the store the lookup of a
  stored credential's kind and public id finds that credential and no other, also across keys, and
  a key never holds two live credentials of a kind in one slot.
\<close>

lemma credential_handles_are_unique:
  assumes "reach (\<lambda>s. s = memory_new) mem_step s" and "c \<in> set (map snd (ms_creds s))"
  shows "lookup_credential_secret (cr_kind (cs_meta c)) (cr_public_id (cs_meta c)) s = Some c
    \<and> length (filter (\<lambda>m. cr_kind m = kind \<and> cr_slot m = slot \<and> cr_revoked_at m = None) (list_credentials k s)) \<le> 1"
proof
  have wf: "mem_wf s" by (rule mem_sys.reach_inv [OF assms(1)])
  have ids: "cr_id (cs_meta c) = k" if "(k, c) \<in> set (ms_creds s)" for k c
    using wf that by (auto simp: mem_wf_def)
  have dist: "distinct (map fst (ms_creds s))" using wf by (simp add: mem_wf_def)
  have same: "x = y" if "x \<in> set (ms_creds s)" "y \<in> set (ms_creds s)" "cr_id (cs_meta (snd x)) = cr_id (cs_meta (snd y))" for x y
  proof -
    have "fst x = fst y" using ids [of "fst x" "snd x"] ids [of "fst y" "snd y"] that by simp
    then show ?thesis using dist that(1,2) by (auto simp: distinct_map dest: inj_onD)
  qed
  have clash: "\<not> cred_clash (cs_meta (snd x)) (cs_meta (snd y))" if "x \<in> set (ms_creds s)" "y \<in> set (ms_creds s)" for x y
    using wf_no_clash [OF wf, of "fst x" "snd x" "fst y" "snd y"] that by simp
  show "lookup_credential_secret (cr_kind (cs_meta c)) (cr_public_id (cs_meta c)) s = Some c"
    unfolding lookup_credential_secret_def
  proof (rule find_unique [OF assms(2)])
    fix y
    assume "y \<in> set (map snd (ms_creds s))" "cr_kind (cs_meta y) = cr_kind (cs_meta c) \<and> cr_public_id (cs_meta y) = cr_public_id (cs_meta c)"
    moreover obtain p q where pq: "p \<in> set (ms_creds s)" "snd p = y" "q \<in> set (ms_creds s)" "snd q = c"
      using assms(2) calculation(1) by auto
    ultimately have "cr_id (cs_meta (snd p)) = cr_id (cs_meta (snd q))"
      using clash [OF pq(1,3)] by (simp add: cred_clash_def)
    then have "p = q" by (rule same [OF pq(1,3)])
    then show "y = c" using pq by simp
  qed simp
  have "map cr_id (map (\<lambda>c. cs_meta (snd c)) (ms_creds s)) = map fst (ms_creds s)"
    using ids by (auto intro: map_cong)
  then have "distinct (map cr_id (map (\<lambda>c. cs_meta (snd c)) (ms_creds s)))" using dist by (simp only:)
  then have "distinct (map (\<lambda>c. cs_meta (snd c)) (ms_creds s))" by (simp only: distinct_map)
  then show "length (filter (\<lambda>m. cr_kind m = kind \<and> cr_slot m = slot \<and> cr_revoked_at m = None) (list_credentials k s)) \<le> 1"
    unfolding list_credentials_def
  proof (intro length_filter_le_1)
    fix m m'
    assume "m \<in> set (filter (\<lambda>c. cr_key_id c = k) (map (\<lambda>c. cs_meta (snd c)) (ms_creds s)))"
      "m' \<in> set (filter (\<lambda>c. cr_key_id c = k) (map (\<lambda>c. cs_meta (snd c)) (ms_creds s)))"
    then obtain x y where xy: "x \<in> set (ms_creds s)" "m = cs_meta (snd x)" "cr_key_id m = k"
      "y \<in> set (ms_creds s)" "m' = cs_meta (snd y)" "cr_key_id m' = k" by auto
    assume "cr_kind m = kind \<and> cr_slot m = slot \<and> cr_revoked_at m = None"
      "cr_kind m' = kind \<and> cr_slot m' = slot \<and> cr_revoked_at m' = None"
    then have "cr_id m = cr_id m'" using clash [OF xy(1,4)] xy by (auto simp: cred_clash_def)
    then show "m = m'" using same [OF xy(1,4)] xy by simp
  qed simp
qed

section \<open>Tombstones\<close>

lemma map_of_filter_Some: "map_of kvs k = Some v \<Longrightarrow> distinct (map fst kvs) \<Longrightarrow> P (k, v) \<Longrightarrow> map_of (filter P kvs) k = Some v"
  by (simp add: distinct_map_filter)

definition tombstoned :: "string \<Rightarrow> u64 \<Rightarrow> MemoryStore \<Rightarrow> bool" where
  "tombstoned k d s \<longleftrightarrow> (case get_key k s of Some key \<Rightarrow> vk_deleted_at key = Some d | None \<Rightarrow> False)"

text \<open>An operation within the retention of the tombstone that does not itself write a tombstone for the id.\<close>

fun spares :: "string \<Rightarrow> u64 \<Rightarrow> u64 \<times> StoreOp \<Rightarrow> bool" where
  "spares k d (now, op) \<longleftrightarrow> now < saturating_add d MAX_RETENTION_SECS \<and>
     (case op of PutKey key \<Rightarrow> vk_id key \<noteq> k \<or> vk_deleted_at key = None | _ \<Rightarrow> True)"

lemma tombstoned_step:
  assumes wf: "mem_wf s" and dead: "tombstoned k d s" and step: "mem_step s e t" and ok: "spares k d e"
  shows "tombstoned k d t"
proof -
  obtain now op where e: "e = (now, op)" by fastforce
  obtain key where key: "map_of (ms_keys s) k = Some key" "vk_deleted_at key = Some d"
    using dead by (auto simp: tombstoned_def get_key_def split: option.splits)
  have dist: "distinct (map fst (ms_keys s))" using wf by (simp add: mem_wf_def)
  have applied: "store_apply now op s = Inr t" using step by (simp add: e mem_step_simps)
  show ?thesis
  proof (cases op)
    case (PutKey new)
    then have other: "vk_id new \<noteq> k" using applied key ok by (auto simp: put_key_def e split: if_splits)
    let ?ks = "AList.update (vk_id new) (new\<lparr>vk_revision := next_revision s\<rparr>) (ms_keys s)"
    have at: "map_of ?ks k = Some key" using other key by (simp add: update_conv')
    have keep: "key_retained now (k, key)" using ok key(2) by (simp add: key_retained_def e)
    have "map_of (filter (key_retained now) ?ks) k = Some key"
      using map_of_filter_Some [OF at, of "key_retained now"] keep by (simp add: dist distinct_update)
    moreover have "ms_keys t = ?ks \<or> ms_keys t = filter (key_retained now) ?ks"
      using applied by (auto simp: PutKey put_key_def Let_def split: if_splits)
    ultimately show ?thesis using at key(2) by (auto simp: tombstoned_def get_key_def)
  next
    case (DeleteKey k')
    then show ?thesis
      using applied key by (cases "k' = k") (auto simp: delete_key_def Let_def tombstoned_def get_key_def update_conv' split: option.splits if_splits)
  next
    case (ScrubKey k')
    then show ?thesis
      using applied key by (auto simp: scrub_key_def Let_def tombstoned_def get_key_def update_conv' split: option.splits if_splits)
  qed (use applied dead in \<open>auto simp: mem_op_defs tombstoned_def get_key_def split: option.splits if_splits\<close>)
qed

text \<open>
  A tombstone holds. Whatever the store is asked for in the 31 days after a key was deleted,
  short of writing another tombstone over it, the row stays deleted: the key does not read as live,
  every attempt to write it live again is refused, and deleting it again changes nothing.
\<close>

lemma tombstone_holds:
  assumes "reach (\<lambda>s. s = memory_new) mem_step s" and "tombstoned k d s"
    and "trace mem_step s es t" and "list_all (spares k d) es"
  shows "(\<exists>key. get_key k t = Some key \<and> vk_deleted_at key = Some d \<and> \<not> key_is_live key)
    \<and> (\<forall>now key. put_key now (key\<lparr>vk_id := k, vk_deleted_at := None\<rparr>) t = Inl (PutKeyTombstoned k))
    \<and> (\<forall>now. delete_key now k t = Inr t)"
proof -
  have "tombstoned k d t"
    by (rule mem_sys.trace_stable [where P = "tombstoned k d" and harmless = "spares k d",
          OF assms(3) mem_sys.reach_inv [OF assms(1)] assms(2) tombstoned_step assms(4)])
  then show ?thesis
    by (auto simp: tombstoned_def get_key_def key_is_live_def put_key_def delete_key_def split: option.splits)
qed

section \<open>Incremental hydration\<close>

lemma step_rows:
  assumes "mem_step s e t" and "ms_revision s < u64_max"
  shows "ms_revision t = ms_revision s \<or> ms_revision t = Suc (ms_revision s)"
    and "(k, key) \<in> set (ms_keys t) \<Longrightarrow> (k, key) \<in> set (ms_keys s) \<or> vk_revision key = Suc (ms_revision s)"
    and "(k, c) \<in> set (ms_creds t) \<Longrightarrow> (k, c) \<in> set (ms_creds s) \<or> cr_revision (cs_meta c) = Suc (ms_revision s)"
proof -
  obtain now op where e: "e = (now, op)" by fastforce
  have applied: "store_apply now op s = Inr t" using assms(1) by (simp add: e mem_step_simps)
  have rev: "next_revision s = Suc (ms_revision s)"
    using assms(2) by (simp add: next_revision_def wrap_u64_exact)
  show "ms_revision t = ms_revision s \<or> ms_revision t = Suc (ms_revision s)"
    using applied by (cases op) (auto simp: mem_op_defs rev split: option.splits if_splits)
  show "(k, key) \<in> set (ms_keys t) \<Longrightarrow> (k, key) \<in> set (ms_keys s) \<or> vk_revision key = Suc (ms_revision s)"
    using applied by (cases op) (auto simp: mem_op_defs rev split: option.splits if_splits dest!: AList_update_set)
  show "(k, c) \<in> set (ms_creds t) \<Longrightarrow> (k, c) \<in> set (ms_creds s) \<or> cr_revision (cs_meta c) = Suc (ms_revision s)"
    using applied by (cases op) (auto simp: mem_op_defs rev split: option.splits if_splits dest!: AList_update_set)
qed

lemma trace_rows:
  assumes "trace mem_step s es t" and "ms_revision s + length es \<le> u64_max"
  shows "ms_revision s \<le> ms_revision t \<and> ms_revision t \<le> ms_revision s + length es
    \<and> (\<forall>(k, key) \<in> set (ms_keys t). (k, key) \<in> set (ms_keys s) \<or> vk_revision key > ms_revision s)
    \<and> (\<forall>(k, c) \<in> set (ms_creds t). (k, c) \<in> set (ms_creds s) \<or> cr_revision (cs_meta c) > ms_revision s)"
  using assms
proof (induction rule: trace.induct)
  case (trace_snoc s es t e u)
  then have IH: "ms_revision s \<le> ms_revision t" "ms_revision t \<le> ms_revision s + length es"
    "\<forall>(k, key) \<in> set (ms_keys t). (k, key) \<in> set (ms_keys s) \<or> vk_revision key > ms_revision s"
    "\<forall>(k, c) \<in> set (ms_creds t). (k, c) \<in> set (ms_creds s) \<or> cr_revision (cs_meta c) > ms_revision s" by simp_all
  then have "ms_revision t < u64_max" using trace_snoc.prems by simp
  note rows = step_rows [OF trace_snoc.hyps(2) this]
  show ?case
    using IH rows by fastforce
qed auto

text \<open>
  The delta misses no change. An engine that remembers the store's revision and later asks
  for everything newer gets every key row and every credential that was written in between, if it
  is still there, whatever else happened to the store.
\<close>

lemma delta_sees_every_change:
  assumes "reach (\<lambda>s. s = memory_new) mem_step s" and "trace mem_step s es t" and "ms_revision s + length es \<le> u64_max"
  shows "(\<forall>k key. get_key k t = Some key \<longrightarrow> get_key k s = Some key \<or> key \<in> set (list_keys_since (ms_revision s) t))
    \<and> (\<forall>c \<in> snd ` set (ms_creds t). c \<in> snd ` set (ms_creds s) \<or> c \<in> set (list_credentials_since (ms_revision s) t))"
proof -
  have wf: "mem_wf s" by (rule mem_sys.reach_inv [OF assms(1)])
  note rows = trace_rows [OF assms(2,3)]
  have "get_key k s = Some key \<or> key \<in> set (list_keys_since (ms_revision s) t)" if "get_key k t = Some key" for k key
  proof -
    have at: "(k, key) \<in> set (ms_keys t)" using that by (simp add: get_key_def map_of_SomeD)
    then consider "(k, key) \<in> set (ms_keys s)" | "vk_revision key > ms_revision s" using rows by auto
    then show ?thesis
    proof cases
      case 1
      then show ?thesis using wf by (simp add: get_key_def mem_wf_def)
    next
      case 2
      then show ?thesis using at by (force simp: list_keys_since_def)
    qed
  qed
  moreover have "c \<in> snd ` set (ms_creds s) \<or> c \<in> set (list_credentials_since (ms_revision s) t)"
    if "c \<in> snd ` set (ms_creds t)" for c
  proof -
    obtain k where at: "(k, c) \<in> set (ms_creds t)" using \<open>c \<in> snd ` set (ms_creds t)\<close> by auto
    then have "(k, c) \<in> set (ms_creds s) \<or> cr_revision (cs_meta c) > ms_revision s" using rows by auto
    then show ?thesis using at by (force simp: list_credentials_since_def)
  qed
  ultimately show ?thesis by blast
qed

section \<open>Examples\<close>

definition example_cred :: "string \<Rightarrow> string \<Rightarrow> string \<Rightarrow> CredentialSecret" where
  "example_cred cid k public_id =
     \<lparr>cs_meta = \<lparr>cr_id = cid, cr_key_id = k, cr_kind = ''sigv4'', cr_slot = 0, cr_public_id = public_id, cr_secret_form = Recoverable,
        cr_created_at = 0, cr_updated_at = 0, cr_expires_at = None, cr_revoked_at = None, cr_revoke_reason = None, cr_revision = 0\<rparr>,
      cs_secret = ''v1:plain:s''\<rparr>"

definition example_vk :: "string \<Rightarrow> VirtualKey" where
  "example_vk k = (example_key ''team'')\<lparr>vk_id := k\<rparr>"

lemma example_vk_simps [simp]: "vk_id (example_vk k) = k" "vk_deleted_at (example_vk k) = None"
  by (simp_all add: example_vk_def example_key_def)

lemma example_cred_simps [simp]:
  "cr_id (cs_meta (example_cred cid k p)) = cid" "cr_key_id (cs_meta (example_cred cid k p)) = k"
  "cr_kind (cs_meta (example_cred cid k p)) = ''sigv4''" "cr_slot (cs_meta (example_cred cid k p)) = 0"
  "cr_public_id (cs_meta (example_cred cid k p)) = p" "cr_revoked_at (cs_meta (example_cred cid k p)) = None"
  by (simp_all add: example_cred_def)

lemmas example_eval = put_key_def put_credential_def delete_key_def memory_new_def next_revision_def wrap_u64_def sweep_due_def
  SWEEP_INTERVAL_def slot_occupied_def public_id_taken_def Let_def

lemma example_put_key:
  "put_key now (example_vk k) memory_new =
     Inr (memory_new\<lparr>ms_keys := [(k, (example_vk k)\<lparr>vk_revision := 1\<rparr>)], ms_revision := 1, ms_keys_sweep_ticker := 1\<rparr>)"
  by (simp add: example_eval)

lemma mem_start: "reach (\<lambda>s. s = memory_new) mem_step memory_new"
  by (rule reach_init) (rule refl)

text \<open>
  Where the store parts from what its documentation says of it. The default mint is not atomic: a
  credential that is refused leaves the key behind, live. After the retention of a tombstone its
  id can be issued again. The sweep of the usage ledger drops the all-time rows, which the engine
  never drops. A denylist entry does not move the revision.
\<close>

lemma mint_is_not_atomic:
  "\<exists>s t e. put_key_with_credential 0 (example_vk ''vk_2'') (example_cred ''c2'' ''vk_2'' ''AKIA'') s = (t, Some e)
     \<and> get_key ''vk_2'' s = None \<and> (\<exists>key. get_key ''vk_2'' t = Some key \<and> key_is_live key)"
proof -
  let ?s = "memory_new\<lparr>ms_creds := [(''c1'', example_cred ''c1'' ''vk_1'' ''AKIA'')]\<rparr>"
  have "put_key_with_credential 0 (example_vk ''vk_2'') (example_cred ''c2'' ''vk_2'' ''AKIA'') ?s
      = (?s\<lparr>ms_keys := [(''vk_2'', (example_vk ''vk_2'')\<lparr>vk_revision := 1\<rparr>)], ms_revision := 1, ms_keys_sweep_ticker := 1\<rparr>,
         Some (PublicIdInUse ''AKIA'' ''sigv4''))"
    by (simp add: put_key_with_credential_def example_eval)
  then show ?thesis by (fastforce simp: get_key_def key_is_live_def memory_new_def)
qed

lemma id_is_reissued_after_retention:
  "\<exists>s t. tombstoned ''vk_1'' 0 s \<and> put_key MAX_RETENTION_SECS (example_vk ''vk_2'') s = Inr t
     \<and> (\<exists>u. put_key MAX_RETENTION_SECS (example_vk ''vk_1'') t = Inr u)"
proof -
  let ?dead = "(example_vk ''vk_1'')\<lparr>vk_deleted_at := Some 0\<rparr>"
  let ?s = "memory_new\<lparr>ms_keys := [(''vk_1'', ?dead)], ms_keys_sweep_ticker := 255\<rparr>"
  have "tombstoned ''vk_1'' 0 ?s" by (simp add: tombstoned_def get_key_def)
  moreover have "put_key MAX_RETENTION_SECS (example_vk ''vk_2'') ?s
      = Inr (?s\<lparr>ms_keys := [(''vk_2'', (example_vk ''vk_2'')\<lparr>vk_revision := 1\<rparr>)], ms_revision := 1, ms_keys_sweep_ticker := 256\<rparr>)"
    by (simp add: example_eval key_retained_def MAX_RETENTION_SECS_def saturating_add_def u64_max_def)
  moreover have "\<exists>u. put_key MAX_RETENTION_SECS (example_vk ''vk_1'')
      (?s\<lparr>ms_keys := [(''vk_2'', (example_vk ''vk_2'')\<lparr>vk_revision := 1\<rparr>)], ms_revision := 1, ms_keys_sweep_ticker := 256\<rparr>) = Inr u"
    by (simp add: put_key_def Let_def)
  ultimately show ?thesis by blast
qed

lemma all_time_row_is_swept:
  "get_usage (add_usage MAX_RETENTION_SECS b' 60 d (memory_new\<lparr>ms_usage := [((b, 0), l)], ms_usage_sweep_ticker := 255\<rparr>)) b 0 = empty_ledger"
  by (simp add: add_usage_def get_usage_def Let_def sweep_due_def SWEEP_INTERVAL_def wrap_u64_def MAX_RETENTION_SECS_def
      saturating_add_def u64_max_def)

lemma denylist_keeps_revision: "ms_revision (add_denylist sub s) = ms_revision s"
  by (simp add: add_denylist_def)

end
