(* ===== verification/Busbar_Text.thy ===== *)
theory Busbar_Text
  imports Busbar_Prelude
begin

text \<open>
  Text as the source handles it: splitting at a separator, numbers in decimal as \<open>format!\<close> prints
  them, and \<open>str::parse\<close> of a \<open>u64\<close>. Bytes are characters.
\<close>

text \<open>The parts before and after the first occurrence of a character.\<close>

fun split_once :: "char \<Rightarrow> string \<Rightarrow> (string \<times> string) option" where
  "split_once c [] = None"
| "split_once c (x # xs) =
     (if x = c then Some ([], xs) else map_option (\<lambda>(a, b). (x # a, b)) (split_once c xs))"

lemma split_once_first: "c \<notin> set xs \<Longrightarrow> split_once c (xs @ c # ys) = Some (xs, ys)"
  by (induction xs) auto

text \<open>A number in decimal, and the reading of a \<open>u64\<close> with its optional plus sign.\<close>

definition digit :: "nat \<Rightarrow> char" where
  "digit n = char_of (48 + n)"

fun to_decimal :: "nat \<Rightarrow> string" where
  "to_decimal n = (if n < 10 then [digit n] else to_decimal (n div 10) @ [digit (n mod 10)])"

declare to_decimal.simps [simp del]

definition is_digit :: "char \<Rightarrow> bool" where
  "is_digit c \<longleftrightarrow> 48 \<le> (of_char c :: nat) \<and> (of_char c :: nat) \<le> 57"

fun digits_value :: "nat \<Rightarrow> string \<Rightarrow> nat" where
  "digits_value acc [] = acc"
| "digits_value acc (c # cs) = digits_value (acc * 10 + ((of_char c :: nat) - 48)) cs"

definition parse_u64 :: "string \<Rightarrow> u64 option" where
  "parse_u64 s =
     (let ds = (case s of c # cs \<Rightarrow> if c = CHR ''+'' then cs else s | [] \<Rightarrow> []) in
      if ds \<noteq> [] \<and> list_all is_digit ds \<and> digits_value 0 ds \<le> u64_max then Some (digits_value 0 ds) else None)"

lemma digit_simps [simp]:
  assumes "n < 10"
  shows "is_digit (digit n)" and "(of_char (digit n) :: nat) = 48 + n" and "digit n \<noteq> CHR ''+''"
proof -
  have code: "(of_char (digit n) :: nat) = 48 + n"
    using assms by (simp add: digit_def take_bit_eq_mod)
  show "(of_char (digit n) :: nat) = 48 + n" by (rule code)
  show "is_digit (digit n)" using code assms by (simp add: is_digit_def)
  have "(of_char CHR ''+'' :: nat) = 43" by simp
  then show "digit n \<noteq> CHR ''+''" using code by (intro notI) simp
qed

lemma digits_value_append: "digits_value acc (xs @ ys) = digits_value (digits_value acc xs) ys"
  by (induction acc xs rule: digits_value.induct) simp_all

lemma to_decimal_digits: "list_all is_digit (to_decimal n) \<and> to_decimal n \<noteq> [] \<and> hd (to_decimal n) \<noteq> CHR ''+''"
proof (induction n rule: to_decimal.induct)
  case (1 n)
  show ?case
  proof (cases "n < 10")
    case True
    then show ?thesis by (simp add: to_decimal.simps [of n])
  next
    case False
    then show ?thesis using 1 by (simp add: to_decimal.simps [of n])
  qed
qed

lemma digits_value_decimal: "digits_value 0 (to_decimal n) = n"
proof (induction n rule: to_decimal.induct)
  case (1 n)
  show ?case
  proof (cases "n < 10")
    case True
    then show ?thesis by (simp add: to_decimal.simps [of n])
  next
    case False
    then show ?thesis using 1 by (simp add: to_decimal.simps [of n] digits_value_append)
  qed
qed

lemma parse_decimal: "n \<le> u64_max \<Longrightarrow> parse_u64 (to_decimal n) = Some n"
proof -
  assume fits: "n \<le> u64_max"
  obtain c cs where dec: "to_decimal n = c # cs" using to_decimal_digits [of n] by (cases "to_decimal n") auto
  then have "c \<noteq> CHR ''+''" and "list_all is_digit (c # cs)" using to_decimal_digits [of n] by simp_all
  moreover have "digits_value 0 (c # cs) = n" using digits_value_decimal [of n] by (simp only: dec)
  ultimately show ?thesis using fits by (simp add: parse_u64_def dec del: digits_value.simps)
qed

end
