(* ===== verification/Gov_Token.thy ===== *)
theory Gov_Token
  imports Cost_Model Busbar_Text
begin

text \<open>
  Signed virtual-key tokens, \<open>src/crates/busbar/src/governance/signing.rs\<close>, the binding generation
  of \<open>governance/mod.rs\<close> that a rotation changes, and the revocation denylist with its re-sync,
  \<open>governance/revocation.rs\<close>.

  The cryptographic and encoding crates are a record of functions \<open>Crypto\<close>; what the code relies on
  of them is \<open>crypto_laws\<close>, each law documented behaviour of the crate. Bytes are characters. The
  re-sync is a machine: a check may schedule one read of the store, the read returns at any later
  time with a result or an error, and its result is merged later still. The lemmas show that a
  minted token verifies until it expires, what an accepted token is authenticated by, that at most
  one read is outstanding, and that a failed read never stops the next one.
\<close>

section \<open>Strings\<close>

lemma strip_prefix_append [simp]: "strip_prefix p (p @ s) = Some s"
  by (induction p) auto

lemma strip_prefix_Some: "strip_prefix p s = Some r \<Longrightarrow> s = p @ r"
  by (induction p s rule: strip_prefix.induct) (auto split: if_splits)

section \<open>Cryptography\<close>

record TokenClaims =
  tc_sub :: string
  tc_exp :: u64
  tc_kid :: string
  tc_generation :: "string option"

record Crypto =
  b64_encode :: "string \<Rightarrow> string"
  b64_decode :: "string \<Rightarrow> string option"
  claims_to_json :: "TokenClaims \<Rightarrow> string"
  claims_from_json :: "string \<Rightarrow> TokenClaims option"
  ed_public :: "string \<Rightarrow> string"
  ed_sign :: "string \<Rightarrow> string \<Rightarrow> string"
  ed_verify :: "string \<Rightarrow> string \<Rightarrow> string \<Rightarrow> bool"
  hmac_sha256 :: "string \<Rightarrow> string \<Rightarrow> string"
  hex_encode :: "string \<Rightarrow> string"

definition crypto_laws :: "Crypto \<Rightarrow> bool" where
  "crypto_laws cr \<longleftrightarrow>
     (\<forall>b. b64_decode cr (b64_encode cr b) = Some b \<and> CHR ''.'' \<notin> set (b64_encode cr b))
     \<and> (\<forall>c. tc_exp c \<le> u64_max \<longrightarrow> claims_from_json cr (claims_to_json cr c) = Some c)
     \<and> (\<forall>k m. length (ed_sign cr k m) = 64 \<and> ed_verify cr (ed_public cr k) m (ed_sign cr k m))
     \<and> (\<forall>b. CHR '':'' \<notin> set (hex_encode cr b))"

section \<open>Tokens\<close>

definition TOKEN_PREFIX :: string where "TOKEN_PREFIX = ''bbk_''"
definition DEFAULT_KID :: string where "DEFAULT_KID = ''k1''"

datatype VerifyError = Malformed | UnknownKid | BadSignature | Expired

record TokenSigner =
  sg_key :: string
  sg_kid :: string

definition verifying_key :: "Crypto \<Rightarrow> TokenSigner \<Rightarrow> string" where
  "verifying_key cr s = ed_public cr (sg_key s)"

definition mint :: "Crypto \<Rightarrow> TokenSigner \<Rightarrow> string \<Rightarrow> u64 \<Rightarrow> string option \<Rightarrow> string" where
  "mint cr s sub expiry generation =
     (let claims = \<lparr>tc_sub = sub, tc_exp = expiry, tc_kid = sg_kid s, tc_generation = generation\<rparr>;
          payload = claims_to_json cr claims;
          sig = ed_sign cr (sg_key s) payload
      in TOKEN_PREFIX @ b64_encode cr payload @ ''.'' @ b64_encode cr sig)"

record TokenVerifier =
  tv_keys :: "string \<rightharpoonup> string"

definition verifier_single :: "string \<Rightarrow> string \<Rightarrow> TokenVerifier" where
  "verifier_single kid key = \<lparr>tv_keys = [kid \<mapsto> key]\<rparr>"

definition verify :: "Crypto \<Rightarrow> TokenVerifier \<Rightarrow> string \<Rightarrow> u64 \<Rightarrow> VerifyError + TokenClaims" where
  "verify cr v token now =
     (case strip_prefix TOKEN_PREFIX token of None \<Rightarrow> Inl Malformed
      | Some body \<Rightarrow>
     (case split_once (CHR ''.'') body of None \<Rightarrow> Inl Malformed
      | Some (payload_b64, sig_b64) \<Rightarrow>
     (case b64_decode cr payload_b64 of None \<Rightarrow> Inl Malformed
      | Some payload \<Rightarrow>
     (case b64_decode cr sig_b64 of None \<Rightarrow> Inl Malformed
      | Some sig \<Rightarrow>
      if length sig \<noteq> 64 then Inl Malformed else
     (case claims_from_json cr payload of None \<Rightarrow> Inl Malformed
      | Some claims \<Rightarrow>
     (case tv_keys v (tc_kid claims) of None \<Rightarrow> Inl UnknownKid
      | Some key \<Rightarrow>
      if \<not> ed_verify cr key payload sig then Inl BadSignature
      else if tc_exp claims \<le> now then Inl Expired
      else Inr claims))))))"

text \<open>Signer and verifier are swapped as one unit, the verifier derived from the signer.\<close>

record SigningMaterial =
  sm_signer :: TokenSigner
  sm_verifier :: TokenVerifier

definition signing_material_new :: "Crypto \<Rightarrow> TokenSigner \<Rightarrow> SigningMaterial" where
  "signing_material_new cr s =
     \<lparr>sm_signer = s, sm_verifier = verifier_single (sg_kid s) (verifying_key cr s)\<rparr>"

lemma verify_mint:
  assumes "crypto_laws cr" and "expiry \<le> u64_max"
  shows "verify cr v (mint cr s sub expiry generation) now =
    (case tv_keys v (sg_kid s) of None \<Rightarrow> Inl UnknownKid
     | Some key \<Rightarrow>
         let claims = \<lparr>tc_sub = sub, tc_exp = expiry, tc_kid = sg_kid s, tc_generation = generation\<rparr> in
         if \<not> ed_verify cr key (claims_to_json cr claims) (ed_sign cr (sg_key s) (claims_to_json cr claims))
         then Inl BadSignature
         else if expiry \<le> now then Inl Expired else Inr claims)"
  using assms
  by (auto simp: verify_def mint_def Let_def crypto_laws_def split_once_first split: option.split)

section \<open>Binding generations\<close>

definition VK_ID_PREFIX :: string where "VK_ID_PREFIX = ''vk_''"
definition BINDING_MARKER_PREFIX :: string where "BINDING_MARKER_PREFIX = ''binding:''"
definition SELF_KEY_GROUP_PREFIX :: string where "SELF_KEY_GROUP_PREFIX = ''user:''"

definition binding_marker :: "string \<Rightarrow> string \<Rightarrow> string" where
  "binding_marker k generation = BINDING_MARKER_PREFIX @ k @ '':'' @ generation"

definition binding_generation :: "string \<Rightarrow> string option" where
  "binding_generation generation_hash =
     Option.bind (strip_prefix BINDING_MARKER_PREFIX generation_hash) (\<lambda>r. map_option snd (split_once (CHR '':'') r))"

definition generation_matches :: "string \<Rightarrow> string option \<Rightarrow> bool" where
  "generation_matches generation_hash presented \<longleftrightarrow> binding_generation generation_hash = presented"

lemma binding_generation_marker [simp]: "CHR '':'' \<notin> set k \<Longrightarrow> binding_generation (binding_marker k g) = Some g"
  by (simp add: binding_generation_def binding_marker_def split_once_first)

section \<open>The revocation denylist\<close>

definition REVOCATION_SYNC_TTL_SECS :: u64 where "REVOCATION_SYNC_TTL_SECS = 5"

record RevocationSync =
  rv_set :: "string set"
  rv_synced_at :: u64
  rv_attempted_at :: u64
  rv_inflight :: bool

definition revocation_new :: "string list \<Rightarrow> u64 \<Rightarrow> RevocationSync" where
  "revocation_new initial now =
     \<lparr>rv_set = set initial, rv_synced_at = now, rv_attempted_at = now, rv_inflight = False\<rparr>"

definition rv_contains :: "string \<Rightarrow> RevocationSync \<Rightarrow> bool" where
  "rv_contains sub r \<longleftrightarrow> sub \<in> rv_set r"

definition rv_insert :: "string \<Rightarrow> RevocationSync \<Rightarrow> RevocationSync" where
  "rv_insert sub r = r\<lparr>rv_set := insert sub (rv_set r)\<rparr>"

text \<open>
  The entry point of the request path. The second result says whether a read was scheduled. Load
  and compare-exchange of \<open>attempted_at\<close> are one step: the caller that loses the exchange returns
  as the one that finds the window taken.
\<close>

definition refresh_if_stale :: "u64 \<Rightarrow> RevocationSync \<Rightarrow> RevocationSync \<times> bool" where
  "refresh_if_stale now r =
     (if saturating_sub now (rv_synced_at r) < REVOCATION_SYNC_TTL_SECS then (r, False)
      else if saturating_sub now (rv_attempted_at r) < REVOCATION_SYNC_TTL_SECS then (r, False)
      else
        let r1 = r\<lparr>rv_attempted_at := now\<rparr> in
        if rv_inflight r1 then (r1, False) else (r1\<lparr>rv_inflight := True\<rparr>, True))"

text \<open>
  The scheduled read, in the two steps other work can fall between: the store has answered and
  the bound is released, then the answer is merged. \<open>None\<close> is a store error.
\<close>

definition refresh_release :: "RevocationSync \<Rightarrow> RevocationSync" where
  "refresh_release r = r\<lparr>rv_inflight := False\<rparr>"

definition refresh_merge :: "u64 \<Rightarrow> string list option \<Rightarrow> RevocationSync \<Rightarrow> RevocationSync" where
  "refresh_merge now result r =
     (case result of
        Some subs \<Rightarrow> r\<lparr>rv_set := rv_set r \<union> set subs, rv_synced_at := max (rv_synced_at r) now\<rparr>
      | None \<Rightarrow> r)"

definition refresh_blocking :: "u64 \<Rightarrow> string list option \<Rightarrow> RevocationSync \<Rightarrow> RevocationSync" where
  "refresh_blocking now result r = refresh_merge now result (refresh_release r)"

subsection \<open>The re-sync as a machine\<close>

text \<open>The reads outstanding in the store, and the answers not yet merged, each with the time of its check.\<close>

record SyncRun =
  sr_sync :: RevocationSync
  sr_reading :: "u64 list"
  sr_answers :: "(u64 \<times> string list option) list"
  sr_clock :: u64

datatype SyncEvent = Check u64 | Answer u64 "string list option" | Merge | Revoke string

inductive sync_step :: "SyncRun \<Rightarrow> SyncEvent \<Rightarrow> SyncRun \<Rightarrow> bool" where
  check: "sr_clock s \<le> now \<Longrightarrow> refresh_if_stale now (sr_sync s) = (r, started) \<Longrightarrow>
     sync_step s (Check now)
       (s\<lparr>sr_sync := r, sr_reading := (if started then now # sr_reading s else sr_reading s), sr_clock := now\<rparr>)"
| answer: "sr_reading s = before @ now # after \<Longrightarrow>
     sync_step s (Answer now result)
       (s\<lparr>sr_sync := refresh_release (sr_sync s), sr_reading := before @ after, sr_answers := (now, result) # sr_answers s\<rparr>)"
| merge: "sr_answers s = before @ (now, result) # after \<Longrightarrow>
     sync_step s Merge (s\<lparr>sr_sync := refresh_merge now result (sr_sync s), sr_answers := before @ after\<rparr>)"
| revoke: "sync_step s (Revoke sub) (s\<lparr>sr_sync := rv_insert sub (sr_sync s)\<rparr>)"

inductive_cases sync_step_cases: "sync_step s e t"

definition sync_init :: "SyncRun \<Rightarrow> bool" where
  "sync_init s \<longleftrightarrow> (\<exists>initial. sr_sync s = revocation_new initial (sr_clock s)) \<and> sr_reading s = [] \<and> sr_answers s = []"

definition sync_inv :: "SyncRun \<Rightarrow> bool" where
  "sync_inv s \<longleftrightarrow>
     (if rv_inflight (sr_sync s) then length (sr_reading s) = 1 else sr_reading s = [])
     \<and> rv_synced_at (sr_sync s) \<le> rv_attempted_at (sr_sync s) \<and> rv_attempted_at (sr_sync s) \<le> sr_clock s
     \<and> (\<forall>now \<in> set (sr_reading s) \<union> fst ` set (sr_answers s). now \<le> rv_attempted_at (sr_sync s))"

lemmas sync_defs = refresh_if_stale_def refresh_release_def refresh_merge_def rv_insert_def
  saturating_sub_def REVOCATION_SYNC_TTL_SECS_def Let_def

lemma refresh_if_stale_cases:
  assumes "refresh_if_stale now r = (r', started)"
  obtains "r' = r" "\<not> started"
  | "rv_attempted_at r < now" "rv_inflight r" "r' = r\<lparr>rv_attempted_at := now\<rparr>" "\<not> started"
  | "rv_attempted_at r < now" "\<not> rv_inflight r" "r' = r\<lparr>rv_attempted_at := now, rv_inflight := True\<rparr>" "started"
proof (cases "saturating_sub now (rv_synced_at r) < REVOCATION_SYNC_TTL_SECS
    \<or> saturating_sub now (rv_attempted_at r) < REVOCATION_SYNC_TTL_SECS")
  case True
  then have "r' = r" "\<not> started" using assms by (auto simp: refresh_if_stale_def split: if_splits)
  then show thesis by (rule that(1))
next
  case False
  then have late: "rv_attempted_at r < now" unfolding saturating_sub_def REVOCATION_SYNC_TTL_SECS_def by linarith
  show thesis
  proof (cases "rv_inflight r")
    case True
    then show thesis using assms False by (intro that(2) late) (simp_all add: refresh_if_stale_def Let_def)
  next
    case free: False
    then show thesis using assms False by (intro that(3) late) (simp_all add: refresh_if_stale_def Let_def)
  qed
qed

lemma sync_inv_step: "sync_inv s \<Longrightarrow> sync_step s e t \<Longrightarrow> sync_inv t"
proof (erule sync_step_cases)
  fix now r started
  assume inv: "sync_inv s" and clock: "sr_clock s \<le> now" and res: "refresh_if_stale now (sr_sync s) = (r, started)"
    and t: "t = s\<lparr>sr_sync := r, sr_reading := (if started then now # sr_reading s else sr_reading s), sr_clock := now\<rparr>"
  have jobs: "\<forall>j \<in> set (sr_reading s) \<union> fst ` set (sr_answers s). j \<le> rv_attempted_at (sr_sync s)"
    using inv by (simp add: sync_inv_def)
  have later: "\<forall>j \<in> set (sr_reading s) \<union> fst ` set (sr_answers s). j \<le> now" if "rv_attempted_at (sr_sync s) < now"
  proof
    fix j
    assume "j \<in> set (sr_reading s) \<union> fst ` set (sr_answers s)"
    then have "j \<le> rv_attempted_at (sr_sync s)" by (rule bspec [OF jobs])
    then show "j \<le> now" using that by simp
  qed
  from res show "sync_inv t"
  proof (cases rule: refresh_if_stale_cases)
    case 1
    then show ?thesis using inv clock by (simp add: t sync_inv_def)
  next
    case 2
    then show ?thesis using inv later [OF 2(1)] by (simp add: t sync_inv_def)
  next
    case 3
    then show ?thesis using inv later [OF 3(1)] by (simp add: t sync_inv_def)
  qed
next
  fix before now "after" result
  assume inv: "sync_inv s" and job: "sr_reading s = before @ now # after"
    and t: "t = s\<lparr>sr_sync := refresh_release (sr_sync s), sr_reading := before @ after, sr_answers := (now, result) # sr_answers s\<rparr>"
  then have "before = []" "after = []" by (auto simp: sync_inv_def split: if_splits)
  then show "sync_inv t" using inv job t by (auto simp: sync_inv_def sync_defs split: if_splits)
next
  fix before now result "after"
  assume inv: "sync_inv s" and job: "sr_answers s = before @ (now, result) # after"
    and t: "t = s\<lparr>sr_sync := refresh_merge now result (sr_sync s), sr_answers := before @ after\<rparr>"
  then show "sync_inv t" by (auto simp: sync_inv_def sync_defs split: option.splits)
next
  fix sub
  assume "sync_inv s" "t = s\<lparr>sr_sync := rv_insert sub (sr_sync s)\<rparr>"
  then show "sync_inv t" by (simp add: sync_inv_def sync_defs)
qed

interpretation sync_sys: invariant_system sync_init sync_step sync_inv
proof
  show "sync_init s \<Longrightarrow> sync_inv s" for s by (auto simp: sync_init_def sync_inv_def revocation_new_def)
  show "sync_inv s \<Longrightarrow> sync_step s e t \<Longrightarrow> sync_inv t" for s e t by (rule sync_inv_step)
qed

lemma sync_set_grows:
  assumes "sync_step s e t"
  shows "rv_set (sr_sync s) \<subseteq> rv_set (sr_sync t)"
  using assms by (cases rule: sync_step.cases) (auto simp: sync_defs split: if_splits option.splits)

lemma sync_set_grows_trace: "trace sync_step s es t \<Longrightarrow> rv_set (sr_sync s) \<subseteq> rv_set (sr_sync t)"
  by (induction rule: trace.induct) (auto dest: sync_set_grows)

text \<open>
  The re-sync of the denylist is bounded and never wedges. At most one read of the store is
  outstanding; a check schedules the next one exactly when none is outstanding and a whole window
  has passed since the last attempt, whether that attempt succeeded, failed or is still to be
  merged; and no subject ever leaves the denylist.
\<close>

lemma revocation_sync_is_bounded:
  assumes "reach sync_init sync_step s" and "trace sync_step s es t"
  shows "length (sr_reading t) \<le> 1
    \<and> (\<forall>now. snd (refresh_if_stale now (sr_sync t))
          = (sr_reading t = [] \<and> rv_attempted_at (sr_sync t) + REVOCATION_SYNC_TTL_SECS \<le> now))
    \<and> (\<forall>sub. rv_contains sub (sr_sync s) \<longrightarrow> rv_contains sub (sr_sync t))"
proof (intro conjI allI impI)
  have inv: "sync_inv t" by (rule sync_sys.trace_inv [OF assms(2) sync_sys.reach_inv [OF assms(1)]])
  then show "length (sr_reading t) \<le> 1" by (auto simp: sync_inv_def split: if_splits)
  show "snd (refresh_if_stale now (sr_sync t))
      = (sr_reading t = [] \<and> rv_attempted_at (sr_sync t) + REVOCATION_SYNC_TTL_SECS \<le> now)" for now
    using inv by (auto simp: sync_inv_def sync_defs split: if_splits)
  show "rv_contains sub (sr_sync t)" if "rv_contains sub (sr_sync s)" for sub
    using sync_set_grows_trace [OF assms(2)] that by (auto simp: rv_contains_def)
qed

definition sync_start :: SyncRun where
  "sync_start = \<lparr>sr_sync = revocation_new [''vk_1''] 100, sr_reading = [], sr_answers = [], sr_clock = 100\<rparr>"

section \<open>Example cryptography\<close>

text \<open>Concrete functions that satisfy the laws: two letters a byte, a tagged text, a keyed prefix.\<close>

definition letter :: "nat \<Rightarrow> char" where
  "letter n = char_of (97 + n)"

definition letters :: "string \<Rightarrow> string" where
  "letters s = concat (map (\<lambda>c. let n = (of_char c :: nat) in [letter (n div 16), letter (n mod 16)]) s)"

fun unletters :: "string \<Rightarrow> string option" where
  "unletters [] = Some []"
| "unletters [x] = None"
| "unletters (x # y # r) = map_option (Cons (char_of (((of_char x :: nat) - 97) * 16 + ((of_char y :: nat) - 97)))) (unletters r)"

lemma letter_code: "n < 16 \<Longrightarrow> (of_char (letter n) :: nat) = 97 + n"
  by (simp add: letter_def take_bit_eq_mod)

lemma unletters_letters: "unletters (letters s) = Some s"
proof (induction s)
  case Nil
  then show ?case by (simp add: letters_def)
next
  case (Cons c s)
  have "(of_char c :: nat) < 256" by simp
  then have "(of_char c :: nat) div 16 < 16" by (intro less_mult_imp_div_less) simp
  then have "((of_char (letter ((of_char c :: nat) div 16)) :: nat) - 97) * 16 + ((of_char (letter ((of_char c :: nat) mod 16)) :: nat) - 97)
      = of_char c"
    by (simp add: letter_code)
  then have "char_of (((of_char (letter ((of_char c :: nat) div 16)) :: nat) - 97) * 16
       + ((of_char (letter ((of_char c :: nat) mod 16)) :: nat) - 97)) = c"
    by (simp only: char_of_char)
  moreover have "letters (c # s) = letter ((of_char c :: nat) div 16) # letter ((of_char c :: nat) mod 16) # letters s"
    by (simp add: letters_def Let_def)
  ultimately show ?case using Cons.IH by simp
qed

lemma letters_range:
  assumes "x \<in> set (letters s)"
  shows "97 \<le> (of_char x :: nat) \<and> (of_char x :: nat) \<le> 112"
proof -
  obtain c where "x = letter ((of_char c :: nat) div 16) \<or> x = letter ((of_char c :: nat) mod 16)"
    using assms by (auto simp: letters_def Let_def)
  moreover have "(of_char c :: nat) < 256" by simp
  then have "(of_char c :: nat) div 16 < 16" "(of_char c :: nat) mod 16 < 16"
    by (intro less_mult_imp_div_less) simp_all
  ultimately show ?thesis by (auto simp: letter_code)
qed

lemma letters_avoid: "c \<in> {CHR ''.'', CHR '':'', CHR ''z''} \<Longrightarrow> c \<notin> set (letters s)"
proof
  assume "c \<in> {CHR ''.'', CHR '':'', CHR ''z''}" and "c \<in> set (letters s)"
  moreover have "(of_char CHR ''.'' :: nat) = 46" "(of_char CHR '':'' :: nat) = 58" "(of_char CHR ''z'' :: nat) = 122" by simp_all
  ultimately show False using letters_range [of c s] by auto
qed

definition example_to_json :: "TokenClaims \<Rightarrow> string" where
  "example_to_json c = letters (tc_sub c) @ ''z'' @ letters (tc_kid c) @ ''z'' @
     (case tc_generation c of None \<Rightarrow> [] | Some g \<Rightarrow> ''y'' @ letters g) @ ''z'' @ to_decimal (tc_exp c)"

definition example_from_json :: "string \<Rightarrow> TokenClaims option" where
  "example_from_json s =
     (case split_once (CHR ''z'') s of None \<Rightarrow> None | Some (a, r) \<Rightarrow>
     (case split_once (CHR ''z'') r of None \<Rightarrow> None | Some (b, r') \<Rightarrow>
     (case split_once (CHR ''z'') r' of None \<Rightarrow> None | Some (c, d) \<Rightarrow>
     (case (unletters a, unletters b, parse_u64 d, case c of [] \<Rightarrow> Some None | y # g \<Rightarrow> map_option Some (unletters g)) of
        (Some sub, Some kid, Some e, Some g) \<Rightarrow> Some \<lparr>tc_sub = sub, tc_exp = e, tc_kid = kid, tc_generation = g\<rparr>
      | _ \<Rightarrow> None))))"

lemma example_json: "tc_exp c \<le> u64_max \<Longrightarrow> example_from_json (example_to_json c) = Some c"
proof -
  assume fits: "tc_exp c \<le> u64_max"
  let ?g = "case tc_generation c of None \<Rightarrow> [] | Some g \<Rightarrow> ''y'' @ letters g"
  have "CHR ''z'' \<notin> set ?g" using letters_avoid [of "CHR ''z''"] by (simp split: option.split)
  then show ?thesis
    using fits letters_avoid [of "CHR ''z''"]
    by (simp add: example_to_json_def example_from_json_def split_once_first unletters_letters parse_decimal
        split: option.split)
qed

definition example_sign :: "string \<Rightarrow> string \<Rightarrow> string" where
  "example_sign k m = take 64 ((k @ m) @ replicate 64 (CHR ''x''))"

definition example_crypto :: Crypto where
  "example_crypto =
     \<lparr>b64_encode = letters, b64_decode = unletters, claims_to_json = example_to_json, claims_from_json = example_from_json,
      ed_public = (\<lambda>k. k), ed_sign = example_sign, ed_verify = (\<lambda>k m sig. sig = example_sign k m),
      hmac_sha256 = (\<lambda>k m. rev m), hex_encode = letters\<rparr>"

lemma example_sign_length: "length (example_sign k m) = 64"
  unfolding example_sign_def by (subst length_take) (simp del: append_assoc)

lemma example_crypto_laws: "crypto_laws example_crypto"
  using letters_avoid [of "CHR ''.''"] letters_avoid [of "CHR '':''"]
  by (simp add: crypto_laws_def example_crypto_def unletters_letters example_json example_sign_length)

lemma split_once_Some: "split_once c s = Some (a, b) \<longleftrightarrow> s = a @ c # b \<and> c \<notin> set a"
  by (induction c s arbitrary: a b rule: split_once.induct) (auto simp: Cons_eq_append_conv)

text \<open>What a verifier accepts, in terms of the token itself.\<close>

lemma verify_accepts:
  "verify cr v token now = Inr claims \<longleftrightarrow>
    (\<exists>p64 s64 payload sig key. token = TOKEN_PREFIX @ p64 @ CHR ''.'' # s64 \<and> CHR ''.'' \<notin> set p64
       \<and> b64_decode cr p64 = Some payload \<and> b64_decode cr s64 = Some sig \<and> length sig = 64
       \<and> claims_from_json cr payload = Some claims \<and> tv_keys v (tc_kid claims) = Some key
       \<and> ed_verify cr key payload sig \<and> now < tc_exp claims)"
  (is "_ \<longleftrightarrow> (\<exists>p64 s64 payload sig key. ?P p64 s64 payload sig key)")
proof
  assume "verify cr v token now = Inr claims"
  then obtain body p64 s64 payload sig key where "strip_prefix TOKEN_PREFIX token = Some body" "split_once (CHR ''.'') body = Some (p64, s64)"
    "b64_decode cr p64 = Some payload" "b64_decode cr s64 = Some sig" "length sig = 64" "claims_from_json cr payload = Some claims"
    "tv_keys v (tc_kid claims) = Some key" "ed_verify cr key payload sig" "now < tc_exp claims"
    unfolding verify_def by (auto simp: not_le split: option.splits prod.splits if_splits)
  then have "?P p64 s64 payload sig key" by (auto simp: strip_prefix_Some split_once_Some)
  then show "\<exists>p64 s64 payload sig key. ?P p64 s64 payload sig key" by blast
next
  assume "\<exists>p64 s64 payload sig key. ?P p64 s64 payload sig key"
  then show "verify cr v token now = Inr claims" by (auto simp: verify_def split_once_first)
qed

text \<open>
  C36: Tokens round-trip and are authenticated. A minted token verifies under its signer with
  exactly the claims it was minted for until the second of its expiry, and is reported as expired
  from then on; a verifier of another key id does not know it. A verifier accepts a token exactly
  when it consists of the prefix, an encoded payload and an encoded signature of 64 bytes, the
  payload states the claims, the claims name the key id of the verifier and are not expired, and
  the signature in the token is valid for the payload in the token under the key of the verifier.
\<close>

theorem token_roundtrip:
  assumes "crypto_laws cr" and "expiry \<le> u64_max"
  shows "verify cr (sm_verifier (signing_material_new cr s)) (mint cr s sub expiry generation) now
      = (if expiry \<le> now then Inl Expired
         else Inr \<lparr>tc_sub = sub, tc_exp = expiry, tc_kid = sg_kid s, tc_generation = generation\<rparr>)
    \<and> (sg_kid s' \<noteq> sg_kid s \<longrightarrow>
         verify cr (sm_verifier (signing_material_new cr s')) (mint cr s sub expiry generation) now = Inl UnknownKid)
    \<and> (\<forall>token claims. verify cr (sm_verifier (signing_material_new cr s')) token now = Inr claims \<longleftrightarrow>
         (\<exists>p64 s64 payload sig. token = TOKEN_PREFIX @ p64 @ CHR ''.'' # s64 \<and> CHR ''.'' \<notin> set p64
            \<and> b64_decode cr p64 = Some payload \<and> b64_decode cr s64 = Some sig \<and> length sig = 64
            \<and> claims_from_json cr payload = Some claims \<and> tc_kid claims = sg_kid s'
            \<and> ed_verify cr (ed_public cr (sg_key s')) payload sig \<and> now < tc_exp claims))"
proof (intro conjI impI allI)
  note mint = verify_mint [OF assms, where s = s and sub = sub and generation = generation and now = now]
  show "verify cr (sm_verifier (signing_material_new cr s)) (mint cr s sub expiry generation) now
      = (if expiry \<le> now then Inl Expired
         else Inr \<lparr>tc_sub = sub, tc_exp = expiry, tc_kid = sg_kid s, tc_generation = generation\<rparr>)"
    using assms(1) by (simp add: mint signing_material_new_def verifier_single_def verifying_key_def crypto_laws_def)
  show "verify cr (sm_verifier (signing_material_new cr s')) (mint cr s sub expiry generation) now = Inl UnknownKid"
    if "sg_kid s' \<noteq> sg_kid s"
    using that by (simp add: mint signing_material_new_def verifier_single_def)
  have keys: "tv_keys (sm_verifier (signing_material_new cr s')) kid = Some key \<longleftrightarrow> kid = sg_kid s' \<and> key = ed_public cr (sg_key s')" for kid key
    by (auto simp: signing_material_new_def verifier_single_def verifying_key_def)
  show "verify cr (sm_verifier (signing_material_new cr s')) token now = Inr claims \<longleftrightarrow>
         (\<exists>p64 s64 payload sig. token = TOKEN_PREFIX @ p64 @ CHR ''.'' # s64 \<and> CHR ''.'' \<notin> set p64
            \<and> b64_decode cr p64 = Some payload \<and> b64_decode cr s64 = Some sig \<and> length sig = 64
            \<and> claims_from_json cr payload = Some claims \<and> tc_kid claims = sg_kid s'
            \<and> ed_verify cr (ed_public cr (sg_key s')) payload sig \<and> now < tc_exp claims)" for token claims
    unfolding verify_accepts keys by blast
qed

theorem token_roundtrip_witness:
  "verify example_crypto (sm_verifier (signing_material_new example_crypto \<lparr>sg_key = ''seed'', sg_kid = DEFAULT_KID\<rparr>))
     (mint example_crypto \<lparr>sg_key = ''seed'', sg_kid = DEFAULT_KID\<rparr> ''vk_1'' 100 (Some ''g'')) 99
   = Inr \<lparr>tc_sub = ''vk_1'', tc_exp = 100, tc_kid = ''k1'', tc_generation = Some ''g''\<rparr>"
  using token_roundtrip [OF example_crypto_laws, of 100 "\<lparr>sg_key = ''seed'', sg_kid = DEFAULT_KID\<rparr>" "''vk_1''" "Some ''g''" 99]
  by (simp add: u64_max_def DEFAULT_KID_def)

end
