(* ===== verification/Gov_Keys.thy ===== *)
theory Gov_Keys
  imports Memory_Store Gov_Token
begin

text \<open>
  Key governance, \<open>src/crates/busbar/src/governance/state.rs\<close>: the caches that resolve a credential
  on the request path, and the operations that mint, revoke, rotate, update and delete a key or
  issue and refresh a self-serve key, over the modelled store.

  Every call to the store may fail: the environment says of the \<open>n\<close>-th call whether it is answered,
  refused without effect, or carried out with its acknowledgement lost. An operation is a function
  from the state to the state it leaves, also on an error, and its result. Random bytes are
  arguments, \<open>None\<close> when the entropy source fails; a hash map is iterated in an order the environment
  gives. The lock that serialises refresh and revoke makes each operation one step.

  The locale \<open>op_frame\<close> states once what each primitive effect of an operation keeps of a relation
  between states; in it every operation keeps the relation. Its interpretations give that a
  revocation and a deletion are final.
\<close>

section \<open>Fallible operations\<close>

datatype KeyError =
    StoreFailed StoreError
  | Unavailable
  | NoSigningKey
  | NoEntropy
  | ProbesExhausted
  | RevocationDurable string
  | RotationDurable string
  | SelfRolledBack string
  | SelfInconsistent string
  | SelfStaleCache string

record Env =
  en_crypto :: Crypto
  en_fault :: "nat \<Rightarrow> Fault"
  en_clock :: u64
  en_order :: "string list"

record KeyState =
  ks_store :: MemoryStore
  ks_calls :: nat
  ks_by_id :: "string \<rightharpoonup> VirtualKey"
  ks_by_credential :: "string \<times> string \<rightharpoonup> VirtualKey \<times> CredentialSecret"
  ks_signing :: "SigningMaterial option"
  ks_denylist :: RevocationSync
  ks_gov :: Gov

type_synonym 'a op = "KeyState \<Rightarrow> KeyState \<times> (KeyError + 'a)"

definition ok :: "'a \<Rightarrow> 'a op" where
  "ok x s = (s, Inr x)"

definition fail :: "KeyError \<Rightarrow> 'a op" where
  "fail e s = (s, Inl e)"

definition and_then :: "'a op \<Rightarrow> ('a \<Rightarrow> 'b op) \<Rightarrow> 'b op" where
  "and_then m f s = (case m s of (s', Inl e) \<Rightarrow> (s', Inl e) | (s', Inr x) \<Rightarrow> f x s')"

definition change :: "(KeyState \<Rightarrow> KeyState) \<Rightarrow> unit op" where
  "change f s = (f s, Inr ())"

text \<open>Run an operation and continue with its result, error or not.\<close>

definition attempt :: "'a op \<Rightarrow> (KeyError + 'a \<Rightarrow> 'b op) \<Rightarrow> 'b op" where
  "attempt m f s = (case m s of (s', r) \<Rightarrow> f r s')"

definition read_call :: "Env \<Rightarrow> (MemoryStore \<Rightarrow> 'a) \<Rightarrow> 'a op" where
  "read_call e f s =
     (s\<lparr>ks_calls := Suc (ks_calls s)\<rparr>,
      if en_fault e (ks_calls s) = Answered then Inr (f (ks_store s)) else Inl Unavailable)"

definition write_call :: "Env \<Rightarrow> (MemoryStore \<Rightarrow> MemoryStore \<times> StoreError option) \<Rightarrow> unit op" where
  "write_call e f s =
     (let s' = s\<lparr>ks_calls := Suc (ks_calls s)\<rparr>;
          (st, err) = f (ks_store s)
      in case en_fault e (ks_calls s) of
           Answered \<Rightarrow> (s'\<lparr>ks_store := st\<rparr>, case err of None \<Rightarrow> Inr () | Some x \<Rightarrow> Inl (StoreFailed x))
         | Refused \<Rightarrow> (s', Inl Unavailable)
         | AckLost \<Rightarrow> (s'\<lparr>ks_store := st\<rparr>, Inl Unavailable))"

definition result_of :: "(MemoryStore \<Rightarrow> StoreError + MemoryStore) \<Rightarrow> MemoryStore \<Rightarrow> MemoryStore \<times> StoreError option" where
  "result_of f st = (case f st of Inl x \<Rightarrow> (st, Some x) | Inr st' \<Rightarrow> (st', None))"

definition entropy :: "string option \<Rightarrow> string op" where
  "entropy raw = (case raw of None \<Rightarrow> fail NoEntropy | Some b \<Rightarrow> ok b)"

definition signer_of :: "SigningMaterial op" where
  "signer_of s = (s, case ks_signing s of None \<Rightarrow> Inl NoSigningKey | Some m \<Rightarrow> Inr m)"

section \<open>Caches\<close>

definition load :: "MemoryStore \<Rightarrow> string \<rightharpoonup> VirtualKey" where
  "load st = fold (\<lambda>k m. m(vk_id k \<mapsto> k)) (filter (\<lambda>k. vk_deleted_at k = None) (list_keys st)) Map.empty"

definition load_by_credential ::
  "(string \<rightharpoonup> VirtualKey) \<Rightarrow> u64 \<Rightarrow> MemoryStore \<Rightarrow> (string \<times> string \<rightharpoonup> VirtualKey \<times> CredentialSecret)" where
  "load_by_credential by_id now st =
     fold (\<lambda>cred m.
        if \<not> cred_is_live (cs_meta cred) now then m
        else case by_id (cr_key_id (cs_meta cred)) of
               None \<Rightarrow> m
             | Some key \<Rightarrow> m((cr_kind (cs_meta cred), cr_public_id (cs_meta cred)) \<mapsto> (key, cred)))
       (list_credentials_since 0 st) Map.empty"

definition refresh :: "Env \<Rightarrow> unit op" where
  "refresh e =
     and_then (read_call e load) (\<lambda>fresh.
     and_then (read_call e (load_by_credential fresh (en_clock e))) (\<lambda>fresh_cred.
     change (\<lambda>s. s\<lparr>ks_by_id := fresh, ks_by_credential := fresh_cred\<rparr>)))"

definition evict_key_from_caches :: "string \<Rightarrow> KeyState \<Rightarrow> KeyState" where
  "evict_key_from_caches k s =
     s\<lparr>ks_by_id := (ks_by_id s)(k := None),
       ks_by_credential := (\<lambda>h. case ks_by_credential s h of
          Some (key, c) \<Rightarrow> if vk_id key \<noteq> k then Some (key, c) else None | None \<Rightarrow> None)\<rparr>"

definition new_with_signer :: "Env \<Rightarrow> TokenSigner option \<Rightarrow> unit op" where
  "new_with_signer e signer =
     and_then (read_call e load) (\<lambda>by_id.
     and_then (read_call e (load_by_credential by_id (en_clock e))) (\<lambda>by_credential.
     and_then (read_call e list_denylist) (\<lambda>denylist.
     change (\<lambda>s. s\<lparr>ks_by_id := by_id, ks_by_credential := by_credential,
       ks_signing := map_option (signing_material_new (en_crypto e)) signer,
       ks_denylist := revocation_new denylist (en_clock e),
       ks_gov := \<lparr>gs_budget = Map.empty, gs_sweep_ticker = (\<lambda>_. 0), gs_concurrent = Map.empty\<rparr>\<rparr>))))"

definition set_signing_key :: "Env \<Rightarrow> TokenSigner option \<Rightarrow> KeyState \<Rightarrow> KeyState" where
  "set_signing_key e signer s = s\<lparr>ks_signing := map_option (signing_material_new (en_crypto e)) signer\<rparr>"

section \<open>The request path\<close>

definition lookup_by_sub :: "string \<Rightarrow> KeyState \<Rightarrow> VirtualKey option" where
  "lookup_by_sub sub s = ks_by_id s sub"

definition lookup_credential :: "string \<Rightarrow> string \<Rightarrow> KeyState \<Rightarrow> (VirtualKey \<times> CredentialSecret) option" where
  "lookup_credential kind public_id s = ks_by_credential s (kind, public_id)"

definition sync_revocations_if_stale :: "u64 \<Rightarrow> KeyState \<Rightarrow> KeyState" where
  "sync_revocations_if_stale now s = s\<lparr>ks_denylist := fst (refresh_if_stale now (ks_denylist s))\<rparr>"

definition is_revoked_at :: "string \<Rightarrow> u64 \<Rightarrow> KeyState \<Rightarrow> KeyState \<times> bool" where
  "is_revoked_at sub now s =
     (let s1 = sync_revocations_if_stale now s in (s1, rv_contains sub (ks_denylist s1)))"

definition verify_token :: "Crypto \<Rightarrow> string \<Rightarrow> u64 \<Rightarrow> KeyState \<Rightarrow> KeyState \<times> VirtualKey option" where
  "verify_token cr token now s =
     (case ks_signing s of None \<Rightarrow> (s, None)
      | Some material \<Rightarrow>
     (case verify cr (sm_verifier material) token now of Inl _ \<Rightarrow> (s, None)
      | Inr claims \<Rightarrow>
          let s1 = sync_revocations_if_stale now s in
          if rv_contains (tc_sub claims) (ks_denylist s1) then (s1, None)
          else case lookup_by_sub (tc_sub claims) s1 of
                 Some key \<Rightarrow>
                   if vk_enabled key \<and> generation_matches (vk_generation_hash key) (tc_generation claims)
                   then (s1, Some key) else (s1, None)
               | None \<Rightarrow> (s1, None)))"

section \<open>Revocation, deletion, rotation\<close>

fun revoke_creds :: "Env \<Rightarrow> string \<Rightarrow> CredentialMeta list \<Rightarrow> (string \<times> string) list op" where
  "revoke_creds e reason [] = ok []"
| "revoke_creds e reason (c # cs) =
     (if cr_revoked_at c = None
      then and_then (write_call e (result_of (revoke_credential (en_clock e) (cr_id c) reason))) (\<lambda>_.
           and_then (revoke_creds e reason cs) (\<lambda>rest. ok ((cr_kind c, cr_public_id c) # rest)))
      else revoke_creds e reason cs)"

definition revoke_row :: "Env \<Rightarrow> string option \<Rightarrow> VirtualKey option \<Rightarrow> VirtualKey option op" where
  "revoke_row e raw row =
     (case row of
        Some key \<Rightarrow>
          if vk_deleted_at key = None
          then and_then (entropy raw) (\<lambda>g.
               let key' = key\<lparr>vk_generation_hash := binding_marker (vk_id key) (hex_encode (en_crypto e) g), vk_enabled := False\<rparr> in
               and_then (write_call e (result_of (put_key (en_clock e) key'))) (\<lambda>_. ok (Some key')))
          else ok None
      | None \<Rightarrow> ok None)"

definition patch_revoked :: "string \<Rightarrow> VirtualKey option \<Rightarrow> (string \<times> string) list \<Rightarrow> KeyState \<Rightarrow> KeyState" where
  "patch_revoked sub new_key revoked s =
     s\<lparr>ks_denylist := rv_insert sub (ks_denylist s),
       ks_by_id := (case new_key of Some key \<Rightarrow> (ks_by_id s)(sub \<mapsto> key) | None \<Rightarrow> ks_by_id s),
       ks_by_credential := fold (\<lambda>h m. m(h := None)) revoked (ks_by_credential s)\<rparr>"

definition revoke :: "Env \<Rightarrow> string \<Rightarrow> string \<Rightarrow> string option \<Rightarrow> unit op" where
  "revoke e sub reason raw =
     and_then (read_call e (list_credentials sub)) (\<lambda>creds.
     and_then (revoke_creds e reason creds) (\<lambda>revoked.
     and_then (write_call e (\<lambda>st. (add_denylist sub st, None))) (\<lambda>_.
     and_then (read_call e (get_key sub)) (\<lambda>row.
     and_then (revoke_row e raw row) (\<lambda>new_key.
     change (patch_revoked sub new_key revoked))))))"

definition drop_cell :: "string \<Rightarrow> KeyState \<Rightarrow> KeyState" where
  "drop_cell k s = s\<lparr>ks_gov := (ks_gov s)\<lparr>gs_budget := (gs_budget (ks_gov s))(k := None)\<rparr>\<rparr>"

definition gov_delete_key :: "Env \<Rightarrow> string \<Rightarrow> unit op" where
  "gov_delete_key e k =
     and_then (write_call e (result_of (delete_key (en_clock e) k))) (\<lambda>_.
     and_then (change (evict_key_from_caches k)) (\<lambda>_.
     attempt (refresh e) (\<lambda>refreshed.
     and_then (change (drop_cell k)) (\<lambda>_.
     case refreshed of Inl _ \<Rightarrow> fail (RevocationDurable k) | Inr _ \<Rightarrow> ok ()))))"

definition reclaim_group_cells :: "string \<Rightarrow> KeyState \<Rightarrow> KeyState" where
  "reclaim_group_cells grp s =
     s\<lparr>ks_gov := (ks_gov s)\<lparr>gs_budget := (\<lambda>k. if is_bucket_of_group k grp then None else gs_budget (ks_gov s) k)\<rparr>\<rparr>"

record RotatedCredential =
  rc_key :: VirtualKey
  rc_token :: string
  rc_exp :: u64

definition rotate_key :: "Env \<Rightarrow> string \<Rightarrow> u64 \<Rightarrow> string option \<Rightarrow> RotatedCredential option op" where
  "rotate_key e k expiry raw =
     and_then (read_call e (get_key k)) (\<lambda>row.
     case row of None \<Rightarrow> ok None
     | Some key \<Rightarrow>
       if vk_deleted_at key \<noteq> None then ok None
       else
         and_then signer_of (\<lambda>material.
         and_then (entropy raw) (\<lambda>g.
         let generation = hex_encode (en_crypto e) g;
             key' = key\<lparr>vk_generation_hash := binding_marker (vk_id key) generation\<rparr> in
         and_then (write_call e (result_of (put_key (en_clock e) key'))) (\<lambda>_.
         attempt (refresh e) (\<lambda>refreshed.
         case refreshed of
           Inl _ \<Rightarrow> and_then (change (evict_key_from_caches k)) (\<lambda>_. fail (RotationDurable k))
         | Inr _ \<Rightarrow>
             ok (Some \<lparr>rc_key = key', rc_token = mint (en_crypto e) (sm_signer material) (vk_id key') expiry (Some generation),
                       rc_exp = expiry\<rparr>))))))"

definition update_key :: "Env \<Rightarrow> string \<Rightarrow> bool option \<Rightarrow> string option option \<Rightarrow> VirtualKey option op" where
  "update_key e k enabled grp =
     and_then (read_call e (get_key k)) (\<lambda>row.
     case row of None \<Rightarrow> ok None
     | Some key \<Rightarrow>
       if vk_deleted_at key \<noteq> None then ok None
       else
         let key1 = (case enabled of Some b \<Rightarrow> key\<lparr>vk_enabled := b\<rparr> | None \<Rightarrow> key);
             key2 = (case grp of Some g \<Rightarrow> key1\<lparr>vk_group := g\<rparr> | None \<Rightarrow> key1) in
         and_then (write_call e (result_of (put_key (en_clock e) key2))) (\<lambda>_.
         and_then (refresh e) (\<lambda>_. ok (Some key2))))"

section \<open>Minting\<close>

record NewKeySpec =
  nk_name :: string
  nk_allowed_pools :: "string list option"
  nk_group :: "string option"
  nk_labels :: "(string \<times> string) list"

definition binding_row ::
  "string \<Rightarrow> string \<Rightarrow> string \<Rightarrow> string list option \<Rightarrow> string option \<Rightarrow> (string \<times> string) list \<Rightarrow> u64 \<Rightarrow> VirtualKey" where
  "binding_row k generation nm pools grp labels now =
     \<lparr>vk_id = k, vk_generation_hash = binding_marker k generation, vk_name = nm,
      vk_allowed_scopes = map_option (map scope_pool) pools, vk_enabled = True, vk_created_at = now, vk_group = grp,
      vk_labels = labels, vk_expires_at = None, vk_deleted_at = None, vk_revision = 0\<rparr>"

definition mint_signed ::
  "Env \<Rightarrow> NewKeySpec \<Rightarrow> u64 \<Rightarrow> u64 \<Rightarrow> string option \<Rightarrow> string option \<Rightarrow> (VirtualKey \<times> string) op" where
  "mint_signed e spec expiry now raw_id raw_generation =
     and_then signer_of (\<lambda>material.
     and_then (entropy raw_id) (\<lambda>b.
     and_then (entropy raw_generation) (\<lambda>g.
     let k = VK_ID_PREFIX @ hex_encode (en_crypto e) b;
         generation = hex_encode (en_crypto e) g;
         binding = binding_row k generation (nk_name spec) (nk_allowed_pools spec) (nk_group spec) (nk_labels spec) now in
     and_then (write_call e (result_of (put_key (en_clock e) binding))) (\<lambda>_.
     and_then (refresh e) (\<lambda>_.
     ok (binding, mint (en_crypto e) (sm_signer material) k expiry (Some generation)))))))"

definition aws_credential :: "string \<Rightarrow> string \<Rightarrow> string \<Rightarrow> string \<Rightarrow> u64 \<Rightarrow> CredentialSecret" where
  "aws_credential cred_id k access_key_id secret_access_key now =
     \<lparr>cs_meta = \<lparr>cr_id = cred_id, cr_key_id = k, cr_kind = ''sigv4'', cr_slot = 0, cr_public_id = access_key_id,
        cr_secret_form = Recoverable, cr_created_at = now, cr_updated_at = now, cr_expires_at = None,
        cr_revoked_at = None, cr_revoke_reason = None, cr_revision = 0\<rparr>,
      cs_secret = ''v1:plain:'' @ secret_access_key\<rparr>"

definition mint_signed_with_aws ::
  "Env \<Rightarrow> NewKeySpec \<Rightarrow> u64 \<Rightarrow> u64 \<Rightarrow> string option \<Rightarrow> string option \<Rightarrow> string option \<Rightarrow> string option \<Rightarrow> string option
   \<Rightarrow> (VirtualKey \<times> string \<times> string \<times> string) op" where
  "mint_signed_with_aws e spec expiry now raw_id raw_generation access secret raw_cred =
     and_then signer_of (\<lambda>material.
     and_then (entropy raw_id) (\<lambda>b.
     and_then (entropy raw_generation) (\<lambda>g.
     and_then (entropy access) (\<lambda>access_key_id.
     and_then (entropy secret) (\<lambda>secret_access_key.
     and_then (entropy raw_cred) (\<lambda>c.
     let k = VK_ID_PREFIX @ hex_encode (en_crypto e) b;
         generation = hex_encode (en_crypto e) g;
         binding = binding_row k generation (nk_name spec) (nk_allowed_pools spec) (nk_group spec) (nk_labels spec) now;
         cred = aws_credential (''cred_'' @ hex_encode (en_crypto e) c) k access_key_id secret_access_key now in
     and_then (write_call e (put_key_with_credential (en_clock e) binding cred)) (\<lambda>_.
     and_then (refresh e) (\<lambda>_.
     ok (binding, mint (en_crypto e) (sm_signer material) k expiry (Some generation), access_key_id, secret_access_key)))))))))"

section \<open>Self-serve keys\<close>

definition derive_self_subject :: "Crypto \<Rightarrow> string \<Rightarrow> string \<Rightarrow> u64 \<Rightarrow> string" where
  "derive_self_subject cr seed user_sub epoch =
     VK_ID_PREFIX @ hex_encode cr (take 16 (hmac_sha256 cr seed (SELF_KEY_GROUP_PREFIX @ user_sub @ ''#'' @ to_decimal epoch)))"

definition current_self_binding :: "Env \<Rightarrow> string \<Rightarrow> KeyState \<Rightarrow> VirtualKey option" where
  "current_self_binding e user_sub s =
     find (\<lambda>k. vk_enabled k \<and> vk_deleted_at k = None \<and> vk_group k = Some (SELF_KEY_GROUP_PREFIX @ user_sub))
       (List.map_filter (ks_by_id s) (en_order e))"

definition MAX_PROBES :: nat where "MAX_PROBES = 64"

fun probe_epochs :: "Env \<Rightarrow> string \<Rightarrow> string \<Rightarrow> u64 \<Rightarrow> nat \<Rightarrow> u64 \<Rightarrow> (string \<times> u64) op" where
  "probe_epochs e seed user_sub start 0 stride = fail ProbesExhausted"
| "probe_epochs e seed user_sub start (Suc n) stride =
     (let epoch = saturating_add start stride;
          k = derive_self_subject (en_crypto e) seed user_sub epoch in
      and_then (read_call e (get_key k)) (\<lambda>row.
      if case row of Some key \<Rightarrow> vk_deleted_at key \<noteq> None | None \<Rightarrow> False
      then probe_epochs e seed user_sub start n (if stride = 0 then 1 else saturating_mul stride 2)
      else ok (k, epoch)))"

definition first_free_self_epoch :: "Env \<Rightarrow> string \<Rightarrow> string \<Rightarrow> u64 \<Rightarrow> (string \<times> u64) op" where
  "first_free_self_epoch e seed user_sub start = probe_epochs e seed user_sub start MAX_PROBES 0"

definition write_self_binding ::
  "Env \<Rightarrow> SigningMaterial \<Rightarrow> string \<Rightarrow> string list option \<Rightarrow> u64 \<Rightarrow> u64 \<Rightarrow> u64 \<Rightarrow> (VirtualKey \<times> string) op" where
  "write_self_binding e material user_sub allowed_pools epoch expiry now =
     and_then (first_free_self_epoch e (sg_key (sm_signer material)) user_sub epoch) (\<lambda>(k, free).
     let generation = to_decimal free;
         binding = binding_row k generation (''self-serve key ('' @ user_sub @ '')'') allowed_pools
           (Some (SELF_KEY_GROUP_PREFIX @ user_sub)) [] now in
     and_then (write_call e (result_of (put_key (en_clock e) binding))) (\<lambda>_.
     and_then (refresh e) (\<lambda>_.
     ok (binding, mint (en_crypto e) (sm_signer material) k expiry (Some generation)))))"

definition remint :: "Env \<Rightarrow> SigningMaterial \<Rightarrow> VirtualKey \<Rightarrow> u64 \<Rightarrow> string" where
  "remint e material key expiry =
     mint (en_crypto e) (sm_signer material) (vk_id key) expiry (binding_generation (vk_generation_hash key))"

definition issue_existing ::
  "Env \<Rightarrow> SigningMaterial \<Rightarrow> string list option \<Rightarrow> u64 \<Rightarrow> VirtualKey \<Rightarrow> (VirtualKey \<times> string) op" where
  "issue_existing e material allowed_pools expiry existing =
     (let new_scopes = map_option (map scope_pool) allowed_pools in
      if new_scopes \<noteq> vk_allowed_scopes existing
      then let updated = existing\<lparr>vk_allowed_scopes := new_scopes\<rparr> in
           and_then (write_call e (result_of (put_key (en_clock e) updated))) (\<lambda>_.
           and_then (refresh e) (\<lambda>_. ok (updated, remint e material updated expiry)))
      else ok (existing, remint e material existing expiry))"

definition issue_self :: "Env \<Rightarrow> string \<Rightarrow> string list option \<Rightarrow> u64 \<Rightarrow> u64 \<Rightarrow> (VirtualKey \<times> string) op" where
  "issue_self e user_sub allowed_pools expiry now =
     and_then signer_of (\<lambda>material s.
     case current_self_binding e user_sub s of
       Some existing \<Rightarrow> issue_existing e material allowed_pools expiry existing s
     | None \<Rightarrow> write_self_binding e material user_sub allowed_pools 0 expiry now s)"

definition next_epoch :: "VirtualKey \<Rightarrow> u64" where
  "next_epoch key =
     (let cur = (case Option.bind (binding_generation (vk_generation_hash key)) parse_u64 of Some n \<Rightarrow> n | None \<Rightarrow> 0)
      in saturating_add cur 1)"

text \<open>The prior binding is tombstoned once the new one is written; a failure rolls the new one back.\<close>

definition retire_binding :: "Env \<Rightarrow> string \<Rightarrow> VirtualKey \<times> string \<Rightarrow> (VirtualKey \<times> string) op" where
  "retire_binding e old out =
     attempt (write_call e (result_of (delete_key (en_clock e) old))) (\<lambda>deleted.
     case deleted of
       Inl _ \<Rightarrow> attempt (gov_delete_key e (vk_id (fst out))) (\<lambda>rolled.
         case rolled of Inr _ \<Rightarrow> fail (SelfRolledBack old) | Inl _ \<Rightarrow> fail (SelfInconsistent old))
     | Inr _ \<Rightarrow> attempt (refresh e) (\<lambda>refreshed.
         case refreshed of
           Inl _ \<Rightarrow> and_then (change (evict_key_from_caches old)) (\<lambda>_. fail (SelfStaleCache old))
         | Inr _ \<Rightarrow> ok out))"

definition refresh_self :: "Env \<Rightarrow> string \<Rightarrow> string list option \<Rightarrow> u64 \<Rightarrow> u64 \<Rightarrow> (VirtualKey \<times> string) op" where
  "refresh_self e user_sub allowed_pools expiry now =
     and_then signer_of (\<lambda>material s.
     case current_self_binding e user_sub s of
       None \<Rightarrow> write_self_binding e material user_sub allowed_pools 0 expiry now s
     | Some existing \<Rightarrow>
         and_then (write_self_binding e material user_sub allowed_pools (next_epoch existing) expiry now) (\<lambda>out.
         if vk_id existing = vk_id (fst out) then ok out else retire_binding e (vk_id existing) out) s)"

end
