(* ===== verification/Key_Machine.thy ===== *)
theory Key_Machine
  imports Gov_Keys
begin

text \<open>
  The key operations of a node in any order, with the writes of its peers to the shared store,
  restarts, lost acknowledgements and refused calls between and inside them. The locale \<open>op_frame\<close>
  lists the primitive effects an operation is made of; a relation that every effect keeps is kept
  by every operation. Its interpretations carry the three theorems: a revocation is final, a
  deletion is final for as long as the store retains the tombstone, and a rotation takes effect at
  once, whether or not the caches could be reloaded.
\<close>

section \<open>What a successful step means\<close>

named_theorems step_iff \<open>what a result of an operation says of its steps\<close>

lemma and_then_Inr [step_iff]:
  "and_then m f s = (s', Inr y) \<longleftrightarrow> (\<exists>s1 x. m s = (s1, Inr x) \<and> f x s1 = (s', Inr y))"
  by (simp add: and_then_def split: prod.split sum.split)

lemma ok_Inr [step_iff]: "ok x s = (s', Inr y) \<longleftrightarrow> s' = s \<and> y = x"
  by (auto simp: ok_def)

lemma fail_Inr [step_iff]: "fail e s \<noteq> (s', Inr y)"
  by (simp add: fail_def)

lemma change_Inr [step_iff]: "change f s = (s', r) \<longleftrightarrow> s' = f s \<and> r = Inr ()"
  by (auto simp: change_def)

lemma entropy_Inr [step_iff]: "entropy raw s = (s', Inr g) \<longleftrightarrow> s' = s \<and> raw = Some g"
  by (auto simp: entropy_def ok_def fail_def split: option.splits)

lemma signer_Inr [step_iff]: "signer_of s = (s', Inr m) \<longleftrightarrow> s' = s \<and> ks_signing s = Some m"
  by (auto simp: signer_of_def split: option.splits)

lemma read_Inr [step_iff]:
  "read_call e f s = (s', Inr x) \<longleftrightarrow>
     en_fault e (ks_calls s) = Answered \<and> s' = s\<lparr>ks_calls := Suc (ks_calls s)\<rparr> \<and> x = f (ks_store s)"
  by (auto simp: read_call_def)

lemma write_Inr [step_iff]:
  "write_call e f s = (s', Inr u) \<longleftrightarrow>
     (\<exists>st. en_fault e (ks_calls s) = Answered \<and> f (ks_store s) = (st, None) \<and> s' = s\<lparr>ks_calls := Suc (ks_calls s), ks_store := st\<rparr>)"
  by (auto simp: write_call_def Let_def split: prod.splits Fault.splits option.splits)

lemma result_of_None [step_iff]: "result_of f st = (st', None) \<longleftrightarrow> f st = Inr st'"
  by (simp add: result_of_def split: sum.split)

lemma refresh_Inr [step_iff]:
  "refresh e s = (s', Inr u) \<longleftrightarrow>
     en_fault e (ks_calls s) = Answered \<and> en_fault e (Suc (ks_calls s)) = Answered
     \<and> s' = s\<lparr>ks_calls := ks_calls s + 2, ks_by_id := load (ks_store s),
               ks_by_credential := load_by_credential (load (ks_store s)) (en_clock e) (ks_store s)\<rparr>"
  by (auto simp: refresh_def step_iff)

lemma refresh_cases:
  obtains n x where "refresh e s = (s\<lparr>ks_calls := n\<rparr>, Inl x)"
  | n where "refresh e s = (s\<lparr>ks_calls := n, ks_by_id := load (ks_store s),
      ks_by_credential := load_by_credential (load (ks_store s)) (en_clock e) (ks_store s)\<rparr>, Inr ())"
proof (cases "en_fault e (ks_calls s) = Answered \<and> en_fault e (Suc (ks_calls s)) = Answered")
  case True
  then show thesis by (intro that(2) [of "ks_calls s + 2"]) (simp add: step_iff)
next
  case False
  then show thesis
    by (cases "en_fault e (ks_calls s) = Answered")
       (auto simp: refresh_def and_then_def read_call_def intro: that(1))
qed

section \<open>What the caches hold\<close>

lemma fold_upd_map_of:
  "fold (\<lambda>k m. m(vk_id k \<mapsto> k)) ks m0 = m0 ++ map_of (rev (map (\<lambda>k. (vk_id k, k)) ks))"
  by (induction ks arbitrary: m0) (auto simp: map_add_def fun_eq_iff split: option.split)

lemma load_get_key:
  assumes "mem_wf st"
  shows "load st k = (case get_key k st of Some key \<Rightarrow> if vk_deleted_at key = None then Some key else None | None \<Rightarrow> None)"
proof -
  let ?live = "filter (\<lambda>k. vk_deleted_at k = None) (list_keys st)"
  have ids: "vk_id key = k" if "(k, key) \<in> set (ms_keys st)" for k key using assms that by (auto simp: mem_wf_def)
  have dist: "distinct (map fst (ms_keys st))" using assms by (simp add: mem_wf_def)
  have row: "get_key (vk_id key) st = Some key" if key: "key \<in> set (list_keys st)" for key
  proof -
    obtain k where at: "(k, key) \<in> set (ms_keys st)" using key by (auto simp: list_keys_def)
    then have "vk_id key = k" by (rule ids)
    then show ?thesis using at dist by (simp add: get_key_def)
  qed
  have member: "key \<in> set (list_keys st)" "vk_id key = k" if "get_key k st = Some key" for k key
  proof -
    have at: "(k, key) \<in> set (ms_keys st)" using that by (simp add: get_key_def map_of_SomeD)
    then show "vk_id key = k" by (rule ids)
    show "key \<in> set (list_keys st)" using imageI [OF at, of snd] by (simp add: list_keys_def)
  qed
  have eq: "load st k = map_of (rev (map (\<lambda>k. (vk_id k, k)) ?live)) k"
    by (simp add: load_def fold_upd_map_of)
  show ?thesis
  proof (cases "load st k")
    case None
    then have none: "vk_id key \<noteq> k" if "key \<in> set ?live" for key
      using that by (auto simp: eq map_of_eq_None_iff image_image)
    have "vk_deleted_at key \<noteq> None" if "get_key k st = Some key" for key
      using none [of key] member [OF that] by auto
    then show ?thesis using None by (cases "get_key k st") auto
  next
    case (Some key)
    then have "(k, key) \<in> set (rev (map (\<lambda>k. (vk_id k, k)) ?live))" by (intro map_of_SomeD) (simp only: eq)
    then have "vk_id key = k" "key \<in> set (list_keys st)" "vk_deleted_at key = None" by auto
    then show ?thesis using Some row [of key] by simp
  qed
qed

lemma load_by_credential_keys:
  "load_by_credential by_id now st h = Some (key, c) \<Longrightarrow> by_id (cr_key_id (cs_meta c)) = Some key"
proof -
  have "fold (\<lambda>cred m. if \<not> cred_is_live (cs_meta cred) now then m
      else case by_id (cr_key_id (cs_meta cred)) of None \<Rightarrow> m
        | Some key \<Rightarrow> m((cr_kind (cs_meta cred), cr_public_id (cs_meta cred)) \<mapsto> (key, cred))) cs m h = Some (key, c) \<Longrightarrow>
      (\<And>h key c. m h = Some (key, c) \<Longrightarrow> by_id (cr_key_id (cs_meta c)) = Some key) \<Longrightarrow> by_id (cr_key_id (cs_meta c)) = Some key" for cs m
  proof (induction cs arbitrary: m)
    case (Cons a cs)
    show ?case
      by (rule Cons.IH [OF Cons.prems(1) [unfolded fold_Cons comp_def]])
         (auto split: if_splits option.splits intro: Cons.prems(2))
  qed auto
  then show "load_by_credential by_id now st h = Some (key, c) \<Longrightarrow> by_id (cr_key_id (cs_meta c)) = Some key"
    unfolding load_by_credential_def by fastforce
qed

lemma put_key_row:
  assumes "put_key now key st = Inr st'" and "vk_deleted_at key = None"
  shows "get_key (vk_id key) st' = Some (key\<lparr>vk_revision := next_revision st\<rparr>)"
proof -
  have first: "map_of (filter P kvs) k = Some v" if "map_of kvs k = Some v" "P (k, v)"
    for P :: "string \<times> VirtualKey \<Rightarrow> bool" and kvs k v
    using that by (induction kvs) (auto split: if_splits)
  show ?thesis
    using assms first [of "AList.update (vk_id key) (key\<lparr>vk_revision := next_revision st\<rparr>) (ms_keys st)" "vk_id key"
        "key\<lparr>vk_revision := next_revision st\<rparr>" "key_retained now"]
    by (auto simp: put_key_def get_key_def Let_def key_retained_def update_conv' split: if_splits)
qed

section \<open>The effects of an operation\<close>

text \<open>
  The relation is indexed by the clock of the environment. \<open>local\<close> covers everything but the
  store, the caches and the denylist; the others are one store call or one swap of a cache each.
\<close>

definition keeps :: "(KeyState \<Rightarrow> KeyState \<Rightarrow> bool) \<Rightarrow> 'a op \<Rightarrow> bool" where
  "keeps R m \<longleftrightarrow> (\<forall>s. R s (fst (m s)))"

definition cache_of :: "u64 \<Rightarrow> MemoryStore \<Rightarrow> (string \<times> string \<rightharpoonup> VirtualKey \<times> CredentialSecret)" where
  "cache_of now st = load_by_credential (load st) now st"

locale op_frame =
  fixes R :: "u64 \<Rightarrow> KeyState \<Rightarrow> KeyState \<Rightarrow> bool"
  assumes refl: "R now s s"
    and trans: "R now s t \<Longrightarrow> R now t u \<Longrightarrow> R now s u"
    and local: "R now s (s\<lparr>ks_calls := n, ks_signing := m, ks_gov := g\<rparr>)"
    and put: "vk_deleted_at key = None \<Longrightarrow> put_key now key (ks_store s) = Inr st \<Longrightarrow> R now s (s\<lparr>ks_store := st\<rparr>)"
    and put_cred: "put_credential now c (ks_store s) = Inr st \<Longrightarrow> R now s (s\<lparr>ks_store := st\<rparr>)"
    and delete: "delete_key now k (ks_store s) = Inr st \<Longrightarrow> R now s (s\<lparr>ks_store := st\<rparr>)"
    and revoke_cred: "revoke_credential now cid reason (ks_store s) = Inr st \<Longrightarrow> R now s (s\<lparr>ks_store := st\<rparr>)"
    and deny: "R now s (s\<lparr>ks_store := add_denylist sub (ks_store s)\<rparr>)"
    and reload: "R now s (s\<lparr>ks_by_id := load (ks_store s), ks_by_credential := cache_of now (ks_store s)\<rparr>)"
    and evict: "R now s (evict_key_from_caches k s)"
    and sync: "rv_set (ks_denylist s) \<subseteq> rv_set d \<Longrightarrow> R now s (s\<lparr>ks_denylist := d\<rparr>)"
begin

lemma calls: "R now s (s\<lparr>ks_calls := n\<rparr>)"
  using local [where now = now and s = s and n = n and m = "ks_signing s" and g = "ks_gov s"] by simp

lemma keeps_ok: "keeps (R now) (ok x)"
  by (simp add: keeps_def ok_def refl)

lemma keeps_fail: "keeps (R now) (fail x)"
  by (simp add: keeps_def fail_def refl)

lemma keeps_entropy: "keeps (R now) (entropy raw)"
  by (cases raw) (simp_all add: keeps_def entropy_def ok_def fail_def refl)

lemma keeps_signer: "keeps (R now) signer_of"
  by (simp add: keeps_def signer_of_def refl)

lemma keeps_read: "keeps (R now) (read_call e f)"
  by (simp add: keeps_def read_call_def calls)

lemma keeps_attempt:
  assumes "keeps (R now) m" and "\<And>x. keeps (R now) (f x)"
  shows "keeps (R now) (attempt m f)"
  unfolding keeps_def
proof
  fix s :: KeyState
  obtain s1 r where m: "m s = (s1, r)" by fastforce
  have "R now s s1" using assms(1) m by (auto simp: keeps_def dest!: spec [of _ s])
  moreover have "R now s1 (fst (f r s1))" using assms(2) by (simp add: keeps_def)
  ultimately show "R now s (fst (attempt m f s))" using trans by (simp add: attempt_def m)
qed

lemma keeps_and_then:
  assumes "keeps (R now) m" and "\<And>x. keeps (R now) (f x)"
  shows "keeps (R now) (and_then m f)"
proof -
  have "and_then m f = attempt m (\<lambda>r. case r of Inl x \<Rightarrow> fail x | Inr y \<Rightarrow> f y)"
    by (auto simp: fun_eq_iff and_then_def attempt_def fail_def split: prod.split sum.split)
  then show ?thesis using assms by (auto intro!: keeps_attempt keeps_fail split: sum.split)
qed

lemma keeps_option:
  assumes "keeps R' m" and "\<And>x. P x \<Longrightarrow> keeps R' (f x)" and "\<And>s x. c s = Some x \<Longrightarrow> P x"
  shows "keeps R' (\<lambda>s. case c s of None \<Rightarrow> m s | Some x \<Rightarrow> f x s)"
  using assms by (auto simp: keeps_def split: option.split)

lemma keeps_change: "(\<And>s. R now s (f s)) \<Longrightarrow> keeps (R now) (change f)"
  by (simp add: keeps_def change_def)

lemma keeps_write:
  assumes "\<And>s st err. f (ks_store s) = (st, err) \<Longrightarrow> R now s (s\<lparr>ks_store := st\<rparr>)"
  shows "keeps (R now) (write_call e f)"
  unfolding keeps_def
proof
  fix s :: KeyState
  obtain st err where f: "f (ks_store s) = (st, err)" by fastforce
  have "R now s (s\<lparr>ks_store := st\<rparr>\<lparr>ks_calls := Suc (ks_calls s)\<rparr>)"
    by (rule trans [OF assms [OF f] calls])
  moreover have "s\<lparr>ks_calls := Suc (ks_calls s), ks_store := st\<rparr> = s\<lparr>ks_store := st\<rparr>\<lparr>ks_calls := Suc (ks_calls s)\<rparr>"
    by simp
  ultimately have "R now s (s\<lparr>ks_calls := Suc (ks_calls s), ks_store := st\<rparr>)" by (simp only:)
  then show "R now s (fst (write_call e f s))"
    by (simp add: write_call_def f calls Let_def split: Fault.split)
qed

lemma keeps_result_of:
  assumes "\<And>s st. f (ks_store s) = Inr st \<Longrightarrow> R now s (s\<lparr>ks_store := st\<rparr>)"
  shows "keeps (R now) (write_call e (result_of f))"
  using assms refl by (intro keeps_write) (auto simp: result_of_def split: sum.splits)

lemma keeps_put: "vk_deleted_at key = None \<Longrightarrow> keeps (R now) (write_call e (result_of (put_key now key)))"
  by (intro keeps_result_of) (rule put)

lemma keeps_delete: "keeps (R now) (write_call e (result_of (delete_key now k)))"
  by (intro keeps_result_of) (rule delete)

lemma keeps_revoke_cred: "keeps (R now) (write_call e (result_of (revoke_credential now cid reason)))"
  by (intro keeps_result_of) (rule revoke_cred)

lemma keeps_deny: "keeps (R now) (write_call e (\<lambda>st. (add_denylist sub st, None)))"
  by (intro keeps_write) (auto intro: deny)

lemma keeps_put_with_credential:
  assumes "vk_deleted_at key = None"
  shows "keeps (R now) (write_call e (put_key_with_credential now key c))"
proof (intro keeps_write)
  fix s :: KeyState and st err
  assume "put_key_with_credential now key c (ks_store s) = (st, err)"
  then consider "st = ks_store s"
    | "put_key now key (ks_store s) = Inr st"
    | st1 where "put_key now key (ks_store s) = Inr st1" "put_credential now c st1 = Inr st"
    by (auto simp: put_key_with_credential_def split: sum.splits)
  then show "R now s (s\<lparr>ks_store := st\<rparr>)"
  proof cases
    case 1
    then show ?thesis using refl by simp
  next
    case 2
    then show ?thesis by (rule put [OF assms])
  next
    case 3
    have "R now (s\<lparr>ks_store := st1\<rparr>) (s\<lparr>ks_store := st1\<rparr>\<lparr>ks_store := st\<rparr>)" using 3(2) by (intro put_cred) simp
    then show ?thesis using trans [OF put [OF assms 3(1)]] by simp
  qed
qed

lemma keeps_refresh: "keeps (R (en_clock e)) (refresh e)"
  unfolding keeps_def
proof
  fix s :: KeyState
  show "R (en_clock e) s (fst (refresh e s))"
  proof (cases rule: refresh_cases [of e s])
    case (1 n x)
    then show ?thesis by (simp add: calls)
  next
    case (2 n)
    then have eq: "fst (refresh e s)
      = s\<lparr>ks_by_id := load (ks_store s), ks_by_credential := cache_of (en_clock e) (ks_store s)\<rparr>\<lparr>ks_calls := n\<rparr>"
      by (simp add: cache_of_def)
    show ?thesis unfolding eq by (rule trans [OF reload calls])
  qed
qed

lemmas keeps_rules = keeps_ok keeps_fail keeps_entropy keeps_signer keeps_read keeps_and_then keeps_attempt
  keeps_change keeps_put keeps_delete keeps_revoke_cred keeps_deny keeps_put_with_credential keeps_refresh

lemma keeps_drop_cell: "keeps (R now) (change (drop_cell k))"
proof (rule keeps_change)
  fix s :: KeyState
  show "R now s (drop_cell k s)"
    using local [where now = now and s = s and n = "ks_calls s" and m = "ks_signing s"] by (simp add: drop_cell_def)
qed

lemma keeps_evict: "keeps (R now) (change (evict_key_from_caches k))"
  by (intro keeps_change evict)

lemma keeps_gov_delete_key: "keeps (R (en_clock e)) (gov_delete_key e k)"
  unfolding gov_delete_key_def
  by (intro keeps_rules keeps_drop_cell keeps_evict) (auto intro: keeps_rules split: sum.split)

lemma keeps_rotate_key: "keeps (R (en_clock e)) (rotate_key e k expiry raw)"
  unfolding rotate_key_def Let_def
  by (intro keeps_rules) (auto intro!: keeps_rules keeps_evict split: option.split sum.split)

lemma keeps_update_key: "keeps (R (en_clock e)) (update_key e k enabled grp)"
  unfolding update_key_def Let_def
  by (intro keeps_rules) (auto intro!: keeps_rules split: option.split)

lemma keeps_mint_signed: "keeps (R (en_clock e)) (mint_signed e spec expiry now raw_id raw_generation)"
  unfolding mint_signed_def Let_def by (intro keeps_rules) (simp add: binding_row_def)

lemma keeps_mint_signed_with_aws:
  "keeps (R (en_clock e)) (mint_signed_with_aws e spec expiry now raw_id raw_generation access secret raw_cred)"
  unfolding mint_signed_with_aws_def Let_def by (intro keeps_rules) (simp add: binding_row_def)

lemma keeps_probe: "keeps (R now) (probe_epochs e seed user_sub start n stride)"
proof (induction n arbitrary: stride)
  case (Suc n)
  then show ?case by (auto simp: Let_def intro!: keeps_rules)
qed (simp add: keeps_fail)

lemma keeps_write_self_binding:
  "keeps (R (en_clock e)) (write_self_binding e material user_sub allowed_pools epoch expiry now)"
  unfolding write_self_binding_def first_free_self_epoch_def Let_def
  by (intro keeps_and_then keeps_probe) (auto intro!: keeps_rules simp: binding_row_def split: prod.split)

lemma current_self_binding_live: "current_self_binding e user_sub s = Some key \<Longrightarrow> vk_deleted_at key = None"
  by (auto simp: current_self_binding_def find_Some_iff)

lemma keeps_issue_existing:
  assumes "vk_deleted_at existing = None"
  shows "keeps (R (en_clock e)) (issue_existing e material allowed_pools expiry existing)"
  using assms by (simp add: issue_existing_def Let_def keeps_rules)

lemma keeps_issue_self: "keeps (R (en_clock e)) (issue_self e user_sub allowed_pools expiry now)"
  unfolding issue_self_def
  by (intro keeps_and_then keeps_signer keeps_option [where P = "\<lambda>k. vk_deleted_at k = None"] keeps_write_self_binding
      keeps_issue_existing) (auto dest: current_self_binding_live)

lemma keeps_retire_binding: "keeps (R (en_clock e)) (retire_binding e old out)"
  unfolding retire_binding_def
  by (intro keeps_attempt keeps_delete) (auto intro!: keeps_rules keeps_evict keeps_gov_delete_key split: sum.split)

lemma keeps_refresh_self: "keeps (R (en_clock e)) (refresh_self e user_sub allowed_pools expiry now)"
  unfolding refresh_self_def
  by (intro keeps_and_then keeps_signer keeps_option [where P = "\<lambda>_. True"] keeps_write_self_binding)
     (auto intro: keeps_retire_binding keeps_ok)

lemma keeps_revoke_creds: "keeps (R (en_clock e)) (revoke_creds e reason cs)"
  by (induction cs) (auto intro!: keeps_rules)

lemma keeps_revoke_row: "keeps (R (en_clock e)) (revoke_row e raw row)"
  unfolding revoke_row_def Let_def by (auto intro!: keeps_rules split: option.split)

end

text \<open>
  A revocation ends with a patch of the caches from the row it has just written, which is live in
  the store at that moment.
\<close>

definition row_live :: "string \<Rightarrow> KeyState \<Rightarrow> bool" where
  "row_live k s \<longleftrightarrow> (\<exists>key. get_key k (ks_store s) = Some key \<and> vk_deleted_at key = None)"

definition boot :: "Env \<Rightarrow> TokenSigner option \<Rightarrow> KeyState \<Rightarrow> KeyState" where
  "boot e signer s = (case new_with_signer e signer s of (s', Inr _) \<Rightarrow> s' | (_, Inl _) \<Rightarrow> s)"

locale key_frame = op_frame R for R +
  assumes patch: "(\<And>key. new_key = Some key \<Longrightarrow> vk_id key = sub \<and> row_live sub s) \<Longrightarrow> R now s (patch_revoked sub new_key revoked s)"
    and restart: "R now s (s\<lparr>ks_by_id := load (ks_store s), ks_by_credential := cache_of now (ks_store s),
      ks_denylist := revocation_new (list_denylist (ks_store s)) now\<rparr>)"
    and row_id: "R now s t \<Longrightarrow> mem_wf (ks_store s) \<Longrightarrow> mem_wf (ks_store t)"
begin

lemma revoke_row_result:
  assumes "revoke_row e raw (get_key sub (ks_store s0)) s = (s', Inr (Some key))" and "mem_wf (ks_store s0)"
  shows "vk_id key = sub \<and> row_live sub s'"
proof -
  obtain row st g where row: "get_key sub (ks_store s0) = Some row" "vk_deleted_at row = None"
    and key: "key = row\<lparr>vk_generation_hash := binding_marker (vk_id row) (hex_encode (en_crypto e) g), vk_enabled := False\<rparr>"
    and put: "put_key (en_clock e) key (ks_store s) = Inr st" "ks_store s' = st"
    using assms(1) by (auto simp: revoke_row_def Let_def step_iff split: option.splits if_splits)
  have "vk_id row = sub" using assms(2) row(1) by (auto simp: mem_wf_def get_key_def dest!: map_of_SomeD)
  then show ?thesis
    using put_key_row [OF put(1)] put(2) row(2) by (simp add: key row_live_def)
qed

definition keeps_wf :: "u64 \<Rightarrow> 'a op \<Rightarrow> bool" where
  "keeps_wf now m \<longleftrightarrow> (\<forall>s. mem_wf (ks_store s) \<longrightarrow> R now s (fst (m s)))"

lemma keeps_wf_keeps: "keeps (R now) m \<Longrightarrow> keeps_wf now m"
  by (simp add: keeps_def keeps_wf_def)

lemma keeps_wf_and_then:
  assumes "keeps (R now) m" and "\<And>x. keeps_wf now (f x)"
  shows "keeps_wf now (and_then m f)"
  unfolding keeps_wf_def
proof (intro allI impI)
  fix s :: KeyState
  assume wf: "mem_wf (ks_store s)"
  obtain s1 r where m: "m s = (s1, r)" by fastforce
  have r1: "R now s s1" using assms(1) m by (auto simp: keeps_def dest!: spec [of _ s])
  then have "R now s1 (fst (f x s1))" for x using assms(2) row_id [OF r1 wf] by (simp add: keeps_wf_def)
  then show "R now s (fst (and_then m f s))" using r1 trans by (auto simp: and_then_def m split: sum.split)
qed

lemma keeps_wf_read:
  assumes "\<And>s. mem_wf (ks_store s) \<Longrightarrow> R now s (fst (f (g (ks_store s)) s))"
  shows "keeps_wf now (and_then (read_call e g) f)"
  unfolding keeps_wf_def
proof (intro allI impI)
  fix s :: KeyState
  assume wf: "mem_wf (ks_store s)"
  let ?s = "s\<lparr>ks_calls := Suc (ks_calls s)\<rparr>"
  have "R now ?s (fst (f (g (ks_store s)) ?s))" using assms [of ?s] wf by simp
  then show "R now s (fst (and_then (read_call e g) f s))"
    using trans [OF calls] by (auto simp: and_then_def read_call_def calls)
qed

lemma keeps_revoke: "keeps_wf (en_clock e) (revoke e sub reason raw)"
  unfolding revoke_def
proof (rule keeps_wf_and_then [OF keeps_read], rule keeps_wf_and_then [OF keeps_revoke_creds], rule keeps_wf_and_then [OF keeps_deny],
    rule keeps_wf_read)
  fix revoked and s :: KeyState
  assume wf: "mem_wf (ks_store s)"
  obtain s1 r where row: "revoke_row e raw (get_key sub (ks_store s)) s = (s1, r)" by fastforce
  have r1: "R (en_clock e) s s1" using keeps_revoke_row [of e raw "get_key sub (ks_store s)"] row by (auto simp: keeps_def dest!: spec [of _ s])
  have "R (en_clock e) s1 (patch_revoked sub new_key revoked s1)" if "r = Inr new_key" for new_key
    using revoke_row_result [of e raw sub s s s1] row that wf by (intro patch) auto
  then show "R (en_clock e) s (fst (and_then (revoke_row e raw (get_key sub (ks_store s)))
      (\<lambda>new_key. change (patch_revoked sub new_key revoked)) s))"
    using r1 trans by (auto simp: and_then_def row change_def split: sum.split)
qed

lemma keeps_boot: "R (en_clock e) s (boot e signer s)"
proof (cases "new_with_signer e signer s")
  case (Pair s' r)
  show ?thesis
  proof (cases r)
    case (Inr u)
    let ?s1 = "s\<lparr>ks_by_id := load (ks_store s), ks_by_credential := cache_of (en_clock e) (ks_store s),
      ks_denylist := revocation_new (list_denylist (ks_store s)) (en_clock e)\<rparr>"
    let ?g = "\<lparr>gs_budget = Map.empty, gs_sweep_ticker = (\<lambda>_. 0), gs_concurrent = Map.empty\<rparr>"
    let ?s2 = "?s1\<lparr>ks_calls := ks_calls s + 3, ks_signing := map_option (signing_material_new (en_crypto e)) signer, ks_gov := ?g\<rparr>"
    have "s' = ?s2" using Pair Inr by (simp add: new_with_signer_def step_iff cache_of_def)
    then have "boot e signer s = ?s2" by (simp only: boot_def Pair Inr prod.case sum.case)
    moreover have "R (en_clock e) s ?s2" by (rule trans [OF restart local])
    ultimately show ?thesis by simp
  qed (simp add: boot_def Pair refl)
qed

end

section \<open>The machine of a node\<close>

datatype KeyEvent =
    Verify string
  | Answer bool u64
  | MintSigned NewKeySpec u64 u64 "string option" "string option"
  | MintAws NewKeySpec u64 u64 "string option" "string option" "string option" "string option" "string option"
  | RevokeSub string string "string option"
  | DeleteKeyOp string
  | RotateKey string u64 "string option"
  | UpdateKey string "bool option" "string option option"
  | IssueSelf string "string list option" u64 u64
  | RefreshSelf string "string list option" u64 u64
  | SetSigner "TokenSigner option"
  | ReclaimGroup string
  | Restart "TokenSigner option"
  | ColdRestart "TokenSigner option"
  | Peer StoreOp

text \<open>
  The answer to an outstanding read of the denylist is one event; whether the store answered is
  its first argument. \<open>Peer\<close> is a write of another node to the shared store. A restart over a durable
  store finds its rows again; a restart of a process whose store is the in-memory one, which never
  refuses a call, finds nothing.
\<close>

fun key_apply :: "Env \<Rightarrow> KeyEvent \<Rightarrow> KeyState \<Rightarrow> KeyState" where
  "key_apply e (Verify token) s = fst (verify_token (en_crypto e) token (en_clock e) s)"
| "key_apply e (Answer answered now) s =
     (if rv_inflight (ks_denylist s)
      then s\<lparr>ks_denylist := refresh_blocking now (if answered then Some (list_denylist (ks_store s)) else None) (ks_denylist s)\<rparr>
      else s)"
| "key_apply e (MintSigned spec expiry now b g) s = fst (mint_signed e spec expiry now b g s)"
| "key_apply e (MintAws spec expiry now b g a x c) s = fst (mint_signed_with_aws e spec expiry now b g a x c s)"
| "key_apply e (RevokeSub sub reason raw) s = fst (revoke e sub reason raw s)"
| "key_apply e (DeleteKeyOp k) s = fst (gov_delete_key e k s)"
| "key_apply e (RotateKey k expiry raw) s = fst (rotate_key e k expiry raw s)"
| "key_apply e (UpdateKey k enabled grp) s = fst (update_key e k enabled grp s)"
| "key_apply e (IssueSelf sub pools expiry now) s = fst (issue_self e sub pools expiry now s)"
| "key_apply e (RefreshSelf sub pools expiry now) s = fst (refresh_self e sub pools expiry now s)"
| "key_apply e (SetSigner signer) s = set_signing_key e signer s"
| "key_apply e (ReclaimGroup grp) s = reclaim_group_cells grp s"
| "key_apply e (Restart signer) s = boot e signer s"
| "key_apply e (ColdRestart signer) s = boot (e\<lparr>en_fault := (\<lambda>n. Answered)\<rparr>) signer (s\<lparr>ks_store := memory_new\<rparr>)"
| "key_apply e (Peer op) s = (case store_apply (en_clock e) op (ks_store s) of Inr st \<Rightarrow> s\<lparr>ks_store := st\<rparr> | Inl _ \<Rightarrow> s)"

inductive key_step :: "KeyState \<Rightarrow> Env \<times> KeyEvent \<Rightarrow> KeyState \<Rightarrow> bool" where
  event: "key_step s (e, ev) (key_apply e ev s)"

inductive_cases key_step_cases: "key_step s (e, ev) t"

text \<open>An event after which the store still has its rows.\<close>

fun warm :: "Env \<times> KeyEvent \<Rightarrow> bool" where
  "warm (e, ev) \<longleftrightarrow> (case ev of ColdRestart signer \<Rightarrow> False | _ \<Rightarrow> True)"

lemma verify_token_state:
  "fst (verify_token cr token now s) = s \<or> fst (verify_token cr token now s) = sync_revocations_if_stale now s"
  by (auto simp: verify_token_def Let_def split: option.split sum.split)

lemma stale_set [simp]: "rv_set (fst (refresh_if_stale now r)) = rv_set r"
  by (auto simp: refresh_if_stale_def Let_def)

context key_frame
begin

lemma event_keeps:
  assumes "mem_wf (ks_store s)" and "warm (e, ev)"
    and "\<And>op st. ev = Peer op \<Longrightarrow> store_apply (en_clock e) op (ks_store s) = Inr st \<Longrightarrow> R (en_clock e) s (s\<lparr>ks_store := st\<rparr>)"
  shows "R (en_clock e) s (key_apply e ev s)"
proof -
  note all = keeps_gov_delete_key keeps_rotate_key keeps_update_key keeps_mint_signed keeps_mint_signed_with_aws
    keeps_issue_self keeps_refresh_self
  have run: "R (en_clock e) s (fst (m s))" if "keeps (R (en_clock e)) m" for m :: "'x op" using that by (simp add: keeps_def)
  show ?thesis
  proof (cases ev)
    case (Verify token)
    have "R (en_clock e) s (sync_revocations_if_stale now s)" for now
      unfolding sync_revocations_if_stale_def by (rule sync) simp
    then show ?thesis using verify_token_state [of "en_crypto e" token "en_clock e" s] refl by (auto simp: Verify)
  next
    case (Answer answered now)
    have "R (en_clock e) s (s\<lparr>ks_denylist := refresh_blocking now result (ks_denylist s)\<rparr>)" for result
      by (rule sync) (auto simp: refresh_blocking_def refresh_merge_def refresh_release_def split: option.split)
    then show ?thesis using refl by (simp add: Answer)
  next
    case (RevokeSub sub reason raw)
    then show ?thesis using keeps_revoke [of e sub reason raw] assms(1) by (simp add: keeps_wf_def)
  next
    case (SetSigner signer)
    then show ?thesis
      using local [where now = "en_clock e" and s = s and n = "ks_calls s" and g = "ks_gov s"] by (simp add: set_signing_key_def)
  next
    case (ReclaimGroup grp)
    then show ?thesis
      using local [where now = "en_clock e" and s = s and n = "ks_calls s" and m = "ks_signing s"] by (simp add: reclaim_group_cells_def)
  next
    case (ColdRestart signer)
    then show ?thesis using assms(2) by simp
  next
    case (Peer op)
    then show ?thesis using assms(3) refl by (auto split: sum.split)
  qed (simp_all add: keeps_boot run all)
qed

end

section \<open>What a token is worth\<close>

definition token_claims :: "Crypto \<Rightarrow> KeyState \<Rightarrow> string \<Rightarrow> u64 \<Rightarrow> TokenClaims option" where
  "token_claims cr s token now =
     (case ks_signing s of None \<Rightarrow> None
      | Some m \<Rightarrow> (case verify cr (sm_verifier m) token now of Inl _ \<Rightarrow> None | Inr claims \<Rightarrow> Some claims))"

lemma verify_token_result:
  "snd (verify_token cr token now s) =
     (case token_claims cr s token now of None \<Rightarrow> None
      | Some c \<Rightarrow>
          if rv_contains (tc_sub c) (ks_denylist s) then None
          else case ks_by_id s (tc_sub c) of None \<Rightarrow> None
               | Some key \<Rightarrow>
                   if vk_enabled key \<and> generation_matches (vk_generation_hash key) (tc_generation c) then Some key else None)"
  by (simp add: verify_token_def token_claims_def lookup_by_sub_def sync_revocations_if_stale_def rv_contains_def Let_def
      split: option.split sum.split)

lemma is_revoked_result: "snd (is_revoked_at sub now s) = rv_contains sub (ks_denylist s)"
  by (simp add: is_revoked_at_def sync_revocations_if_stale_def rv_contains_def Let_def)

section \<open>Revocation is final\<close>

definition denied :: "string \<Rightarrow> KeyState \<Rightarrow> bool" where
  "denied sub s \<longleftrightarrow> sub \<in> set (ms_denylist (ks_store s)) \<and> rv_contains sub (ks_denylist s)"

definition denial_kept :: "u64 \<Rightarrow> KeyState \<Rightarrow> KeyState \<Rightarrow> bool" where
  "denial_kept now s t \<longleftrightarrow> (\<forall>sub. denied sub s \<longrightarrow> denied sub t) \<and> (mem_wf (ks_store s) \<longrightarrow> mem_wf (ks_store t))"

lemma store_apply_denylist: "store_apply now op st = Inr st' \<Longrightarrow> set (ms_denylist st) \<subseteq> set (ms_denylist st')"
  by (cases op) (auto simp: mem_op_defs split: option.splits if_splits)

lemma denial_kept_store:
  assumes "store_apply now op (ks_store s) = Inr st"
  shows "denial_kept now s (s\<lparr>ks_store := st\<rparr>)"
  using store_apply_denylist [OF assms] wf_step_cases [OF assms] by (auto simp: denial_kept_def denied_def)

interpretation denial: key_frame denial_kept
proof
  fix now s st
  show "denial_kept now s (s\<lparr>ks_store := st\<rparr>)" if "put_key now key (ks_store s) = Inr st" for key
    using that by (intro denial_kept_store [of now "PutKey key"]) simp
  show "denial_kept now s (s\<lparr>ks_store := st\<rparr>)" if "put_credential now c (ks_store s) = Inr st" for c
    using that by (intro denial_kept_store [of now "PutCredential c"]) simp
  show "denial_kept now s (s\<lparr>ks_store := st\<rparr>)" if "delete_key now k (ks_store s) = Inr st" for k
    using that by (intro denial_kept_store [of now "DeleteKey k"]) simp
  show "denial_kept now s (s\<lparr>ks_store := st\<rparr>)" if "revoke_credential now c reason (ks_store s) = Inr st" for c reason
    using that by (intro denial_kept_store [of now "RevokeCredential c reason"]) simp
  show "denial_kept now s (s\<lparr>ks_store := add_denylist sub (ks_store s)\<rparr>)" for sub
    by (intro denial_kept_store [of now "AddDenylist sub"]) simp
qed (auto simp: denial_kept_def denied_def rv_contains_def evict_key_from_caches_def patch_revoked_def rv_insert_def
      revocation_new_def list_denylist_def)

definition key_init :: "KeyState \<Rightarrow> bool" where
  "key_init s \<longleftrightarrow> reach (\<lambda>st. st = memory_new) mem_step (ks_store s)"

interpretation key_sys: invariant_system key_init key_step "\<lambda>s. mem_wf (ks_store s)"
proof
  show "key_init s \<Longrightarrow> mem_wf (ks_store s)" for s
    unfolding key_init_def by (rule mem_sys.reach_inv)
  fix s ev t
  assume wf: "mem_wf (ks_store s)" and "key_step s ev t"
  then obtain e ev' where t: "t = key_apply e ev' s" by (auto elim: key_step.cases)
  show "mem_wf (ks_store t)"
  proof (cases "warm (e, ev')")
    case True
    have "denial_kept (en_clock e) s t"
      unfolding t by (rule denial.event_keeps [OF wf True]) (auto intro: denial_kept_store)
    then show ?thesis using wf by (simp add: denial_kept_def)
  next
    case False
    then obtain signer where ev: "ev' = ColdRestart signer" by (auto split: KeyEvent.splits)
    have "mem_wf memory_new" by (rule mem_sys.reach_inv [OF mem_start])
    with denial.keeps_boot [of "e\<lparr>en_fault := (\<lambda>n. Answered)\<rparr>" "s\<lparr>ks_store := memory_new\<rparr>" signer] show ?thesis
      by (simp add: t ev denial_kept_def)
  qed
qed

lemma denied_trace: "trace key_step s es t \<Longrightarrow> mem_wf (ks_store s) \<Longrightarrow> denied sub s \<Longrightarrow> list_all warm es \<Longrightarrow> denied sub t"
proof (induction rule: trace.induct)
  case (trace_snoc s es t ev u)
  then have wf: "mem_wf (ks_store t)" by (auto intro: key_sys.trace_inv)
  obtain e ev' where ev: "ev = (e, ev')" "u = key_apply e ev' t" using trace_snoc.hyps(2) by (auto elim: key_step.cases)
  have "warm (e, ev')" using trace_snoc.prems(3) ev(1) by (simp add: list_all_append)
  then have "denial_kept (en_clock e) t u"
    unfolding ev(2) by (intro denial.event_keeps [OF wf]) (auto intro: denial_kept_store)
  then show ?case using trace_snoc by (simp add: denial_kept_def list_all_append)
qed

lemma revoke_row_denylist: "revoke_row e raw row s = (s', Inr r) \<Longrightarrow> ms_denylist (ks_store s') = ms_denylist (ks_store s)"
  by (auto simp: revoke_row_def Let_def step_iff put_key_def split: option.splits if_splits)

lemma revoke_denies: "revoke e sub reason raw s = (s1, Inr ()) \<Longrightarrow> denied sub s1"
  by (auto simp: revoke_def step_iff denied_def patch_revoked_def rv_insert_def rv_contains_def add_denylist_def
      dest!: revoke_row_denylist split: if_splits)

lemma cold_boot:
  "ks_by_id (key_apply e (ColdRestart signer) s) = Map.empty \<and> ks_by_credential (key_apply e (ColdRestart signer) s) = Map.empty
   \<and> rv_set (ks_denylist (key_apply e (ColdRestart signer) s)) = {}"
  by (simp add: boot_def new_with_signer_def and_then_def read_call_def change_def load_def list_keys_def load_by_credential_def
      list_credentials_since_def list_denylist_def memory_new_def revocation_new_def)

text \<open>
  C15: A revocation is final for as long as the store keeps its rows. Once a revoke has returned
  success, the subject reads as revoked and no token that names it is accepted again, at any later
  time, by any signing key, under any sequence of operations of the node, writes of its peers,
  failed or lost store calls, denylist reads and restarts over a durable store. A restart over the
  in-memory store forgets the revocation: the subject reads as not revoked; what protects it then
  is that no token at all and no credential is accepted until keys are written again.
\<close>

theorem revocation_is_final:
  assumes "reach key_init key_step s" and "revoke e sub reason raw s = (s1, Inr ())" and "trace key_step s1 es t"
  shows "(list_all warm es \<longrightarrow> snd (is_revoked_at sub now t)
      \<and> (\<forall>cr token c. token_claims cr t token now = Some c \<and> tc_sub c = sub \<longrightarrow> snd (verify_token cr token now t) = None))
    \<and> \<not> snd (is_revoked_at sub now (key_apply e2 (ColdRestart signer) t))
    \<and> (\<forall>cr token. snd (verify_token cr token now (key_apply e2 (ColdRestart signer) t)) = None)
    \<and> (\<forall>kind public_id. lookup_credential kind public_id (key_apply e2 (ColdRestart signer) t) = None)"
proof -
  have "mem_wf (ks_store s)" by (rule key_sys.reach_inv [OF assms(1)])
  then have "denial_kept (en_clock e) s s1"
    using denial.keeps_revoke [of e sub reason raw] assms(2) by (auto simp: denial.keeps_wf_def dest!: spec [of _ s])
  then have "mem_wf (ks_store s1)" using \<open>mem_wf (ks_store s)\<close> by (simp add: denial_kept_def)
  then have "list_all warm es \<Longrightarrow> denied sub t" by (rule denied_trace [OF assms(3) _ revoke_denies [OF assms(2)]])
  then have "list_all warm es \<longrightarrow> snd (is_revoked_at sub now t)
      \<and> (\<forall>cr token c. token_claims cr t token now = Some c \<and> tc_sub c = sub \<longrightarrow> snd (verify_token cr token now t) = None)"
    by (auto simp: is_revoked_result verify_token_result denied_def)
  with cold_boot [of e2 signer t] show ?thesis
    by (simp add: is_revoked_result verify_token_result rv_contains_def lookup_credential_def del: key_apply.simps split: option.split)
qed

section \<open>Deletion is final\<close>

definition gone :: "string \<Rightarrow> u64 \<Rightarrow> KeyState \<Rightarrow> bool" where
  "gone k d s \<longleftrightarrow> tombstoned k d (ks_store s) \<and> ks_by_id s k = None
     \<and> (\<forall>h key c. ks_by_credential s h = Some (key, c) \<longrightarrow> vk_id key \<noteq> k)"

definition gone_kept :: "u64 \<Rightarrow> KeyState \<Rightarrow> KeyState \<Rightarrow> bool" where
  "gone_kept now s t \<longleftrightarrow> (mem_wf (ks_store s) \<longrightarrow> mem_wf (ks_store t)
     \<and> (\<forall>k d. now < saturating_add d MAX_RETENTION_SECS \<longrightarrow> gone k d s \<longrightarrow> gone k d t))"

lemma gone_fields:
  "ks_store t = ks_store s \<Longrightarrow> ks_by_id t = ks_by_id s \<Longrightarrow> ks_by_credential t = ks_by_credential s \<Longrightarrow> gone k d t = gone k d s"
  by (simp add: gone_def)

lemma gone_kept_fields:
  "ks_store t = ks_store s \<Longrightarrow> ks_by_id t = ks_by_id s \<Longrightarrow> ks_by_credential t = ks_by_credential s \<Longrightarrow> gone_kept now s t"
  by (simp add: gone_kept_def gone_def)

lemma gone_credential: "gone k d s \<Longrightarrow> ks_by_credential s h = Some (key, c) \<Longrightarrow> vk_id key \<noteq> k"
  unfolding gone_def by blast

lemma gone_evicted:
  assumes "gone k d s"
  shows "gone k d (evict_key_from_caches k' s)"
  unfolding gone_def
proof (intro conjI allI impI)
  show "tombstoned k d (ks_store (evict_key_from_caches k' s))" using assms by (simp add: gone_def evict_key_from_caches_def)
  show "ks_by_id (evict_key_from_caches k' s) k = None" using assms by (simp add: gone_def evict_key_from_caches_def)
  show "vk_id key \<noteq> k" if "ks_by_credential (evict_key_from_caches k' s) h = Some (key, c)" for h key c
    by (rule gone_credential [OF assms, of h key c]) (use that in \<open>simp add: evict_key_from_caches_def split: option.splits prod.splits if_splits\<close>)
qed

lemma gone_kept_store:
  assumes "store_apply now op (ks_store s) = Inr st"
    and "\<And>key. op = PutKey key \<Longrightarrow> vk_deleted_at key = None"
  shows "gone_kept now s (s\<lparr>ks_store := st\<rparr>)"
  unfolding gone_kept_def
proof (intro impI conjI allI)
  assume wf: "mem_wf (ks_store s)"
  show "mem_wf (ks_store (s\<lparr>ks_store := st\<rparr>))" using wf_step_cases [OF assms(1) wf] by simp
  fix k d
  assume late: "now < saturating_add d MAX_RETENTION_SECS" and gone: "gone k d s"
  have "tombstoned k d st"
    using gone assms(2) late
    by (intro tombstoned_step [OF wf _ mem_step.applied [OF assms(1)]]) (auto simp: gone_def split: StoreOp.split)
  then show "gone k d (s\<lparr>ks_store := st\<rparr>)" using gone by (simp add: gone_def)
qed

lemma gone_reload:
  assumes "mem_wf (ks_store s)" and "tombstoned k d (ks_store s)"
  shows "gone k d (s\<lparr>ks_by_id := load (ks_store s), ks_by_credential := cache_of now (ks_store s)\<rparr>)"
proof -
  have none: "load (ks_store s) k = None"
    using assms by (auto simp: load_get_key tombstoned_def split: option.splits)
  have "vk_id key \<noteq> k" if "cache_of now (ks_store s) h = Some (key, c)" for h key c
  proof -
    have at: "load (ks_store s) (cr_key_id (cs_meta c)) = Some key"
      using that unfolding cache_of_def by (rule load_by_credential_keys)
    then have "get_key (cr_key_id (cs_meta c)) (ks_store s) = Some key"
      using assms(1) by (auto simp: load_get_key split: option.splits if_splits)
    then have "vk_id key = cr_key_id (cs_meta c)" using assms(1) by (auto simp: get_key_def mem_wf_def dest!: map_of_SomeD)
    then show ?thesis using at none by auto
  qed
  then show ?thesis using assms(2) none by (simp add: gone_def)
qed

lemma patch_revoked_store: "ks_store (patch_revoked sub new_key revoked s) = ks_store s"
  by (simp add: patch_revoked_def)

interpretation gone: key_frame gone_kept
proof
  fix now s st
  show "gone_kept now s (s\<lparr>ks_store := st\<rparr>)" if "vk_deleted_at key = None" "put_key now key (ks_store s) = Inr st" for key
    using that by (intro gone_kept_store [of now "PutKey key"]) simp_all
  show "gone_kept now s (s\<lparr>ks_store := st\<rparr>)" if "put_credential now c (ks_store s) = Inr st" for c
    using that by (intro gone_kept_store [of now "PutCredential c"]) simp_all
  show "gone_kept now s (s\<lparr>ks_store := st\<rparr>)" if "delete_key now k (ks_store s) = Inr st" for k
    using that by (intro gone_kept_store [of now "DeleteKey k"]) simp_all
  show "gone_kept now s (s\<lparr>ks_store := st\<rparr>)" if "revoke_credential now c reason (ks_store s) = Inr st" for c reason
    using that by (intro gone_kept_store [of now "RevokeCredential c reason"]) simp_all
  show "gone_kept now s (s\<lparr>ks_store := add_denylist sub (ks_store s)\<rparr>)" for sub
    by (intro gone_kept_store [of now "AddDenylist sub"]) simp_all
  show "gone_kept now s (s\<lparr>ks_by_id := load (ks_store s), ks_by_credential := cache_of now (ks_store s)\<rparr>)"
    unfolding gone_kept_def by (intro impI conjI allI gone_reload) (simp_all add: gone_def)
  show "gone_kept now s (s\<lparr>ks_by_id := load (ks_store s), ks_by_credential := cache_of now (ks_store s),
      ks_denylist := revocation_new (list_denylist (ks_store s)) now\<rparr>)"
    unfolding gone_kept_def
  proof (intro impI conjI allI)
    fix k d
    assume "mem_wf (ks_store s)" "gone k d s"
    then have "gone k d (s\<lparr>ks_by_id := load (ks_store s), ks_by_credential := cache_of now (ks_store s)\<rparr>)"
      by (intro gone_reload) (simp_all add: gone_def)
    then show "gone k d (s\<lparr>ks_by_id := load (ks_store s), ks_by_credential := cache_of now (ks_store s),
        ks_denylist := revocation_new (list_denylist (ks_store s)) now\<rparr>)"
      by (rule iffD2 [OF gone_fields, rotated 3]) simp_all
  qed simp
  show "gone_kept now s (patch_revoked sub new_key revoked s)"
    if live: "\<And>key. new_key = Some key \<Longrightarrow> vk_id key = sub \<and> row_live sub s" for new_key sub revoked
  proof -
    have fold: "fold (\<lambda>h m. m(h := None)) hs m h = Some x \<Longrightarrow> m h = Some x"
      for hs :: "(string \<times> string) list" and m :: "string \<times> string \<rightharpoonup> VirtualKey \<times> CredentialSecret" and h x
    proof (induction hs arbitrary: m)
      case (Cons a hs)
      then show ?case using Cons.IH [of "m(a := None)"] by (auto simp: fun_upd_apply split: if_splits)
    qed simp
    have other: "sub \<noteq> k" if "tombstoned k d (ks_store s)" "new_key = Some key" for k d key
      using live [OF that(2)] that(1) by (auto simp: row_live_def tombstoned_def)
    have cred: "ks_by_credential s h = Some x" if "ks_by_credential (patch_revoked sub new_key revoked s) h = Some x" for h x
      by (rule fold [of revoked]) (use that in \<open>simp add: patch_revoked_def\<close>)
    have by_id: "ks_by_id (patch_revoked sub new_key revoked s) k = ks_by_id s k" if "sub \<noteq> k \<or> new_key = None" for k
      using that by (auto simp: patch_revoked_def split: option.split)
    have "gone k d (patch_revoked sub new_key revoked s)" if gone: "gone k d s" for k d
      unfolding gone_def patch_revoked_store
    proof (intro conjI allI impI)
      have "tombstoned k d (ks_store s)" using gone by (simp add: gone_def)
      then have "sub \<noteq> k \<or> new_key = None" using other by (cases new_key) auto
      then show "ks_by_id (patch_revoked sub new_key revoked s) k = None" using by_id gone by (simp add: gone_def)
      show "vk_id key \<noteq> k" if "ks_by_credential (patch_revoked sub new_key revoked s) h = Some (key, c)" for h key c
        by (rule gone_credential [OF gone cred [OF that]])
    qed (use gone in \<open>simp add: gone_def\<close>)
    then show ?thesis by (simp add: gone_kept_def patch_revoked_store)
  qed
  show "gone_kept now s (evict_key_from_caches k s)" for k
    unfolding gone_kept_def by (intro conjI impI allI gone_evicted) (simp_all add: evict_key_from_caches_def)
  show "gone_kept now s t \<Longrightarrow> gone_kept now t u \<Longrightarrow> gone_kept now s u" for t u
    by (simp add: gone_kept_def)
  show "gone_kept now s t \<Longrightarrow> mem_wf (ks_store s) \<Longrightarrow> mem_wf (ks_store t)" for t
    by (simp add: gone_kept_def)
  show "gone_kept now s (s\<lparr>ks_calls := n, ks_signing := m, ks_gov := g\<rparr>)" for n m g
    by (rule gone_kept_fields) simp_all
  show "gone_kept now s (s\<lparr>ks_denylist := d\<rparr>)" for d
    by (rule gone_kept_fields) simp_all
  show "gone_kept now s s" by (rule gone_kept_fields) simp_all
qed

text \<open>An event within the retention of the tombstone; a peer does not write another tombstone for the key.\<close>

fun within_retention :: "string \<Rightarrow> u64 \<Rightarrow> Env \<times> KeyEvent \<Rightarrow> bool" where
  "within_retention k d (e, ev) \<longleftrightarrow> en_clock e < saturating_add d MAX_RETENTION_SECS \<and>
     (case ev of Peer op \<Rightarrow> spares k d (en_clock e, op) | ColdRestart signer \<Rightarrow> False | _ \<Rightarrow> True)"

lemma gone_event:
  assumes wf: "mem_wf (ks_store s)" and gone: "gone k d s" and ok: "within_retention k d (e, ev)"
  shows "gone k d (key_apply e ev s)"
proof (cases "\<exists>op. ev = Peer op")
  case True
  then obtain op where ev: "ev = Peer op" by blast
  show ?thesis
  proof (cases "store_apply (en_clock e) op (ks_store s)")
    case (Inr st)
    have "tombstoned k d st"
      using gone ok by (intro tombstoned_step [OF wf _ mem_step.applied [OF Inr]]) (simp_all add: gone_def ev)
    then show ?thesis using gone by (simp add: ev Inr gone_def)
  qed (simp add: ev gone)
next
  case False
  moreover have "warm (e, ev)" using ok by (auto split: KeyEvent.splits)
  ultimately have "gone_kept (en_clock e) s (key_apply e ev s)" by (intro gone.event_keeps [OF wf]) blast+
  then show ?thesis using wf gone ok by (simp add: gone_kept_def)
qed

lemma gone_trace:
  "trace key_step s es t \<Longrightarrow> mem_wf (ks_store s) \<Longrightarrow> gone k d s \<Longrightarrow> list_all (within_retention k d) es \<Longrightarrow> gone k d t"
proof (induction rule: trace.induct)
  case (trace_snoc s es t ev u)
  then have wf: "mem_wf (ks_store t)" by (auto intro: key_sys.trace_inv)
  obtain e ev' where "ev = (e, ev')" "u = key_apply e ev' t" using trace_snoc.hyps(2) by (auto elim: key_step.cases)
  then show ?case using trace_snoc gone_event [OF wf] by (simp add: list_all_append)
qed

lemma gone_evict: "tombstoned k d (ks_store s) \<Longrightarrow> gone k d (evict_key_from_caches k s)"
  by (auto simp: gone_def evict_key_from_caches_def split: option.splits if_splits)

lemma delete_tombstones:
  assumes "mem_wf (ks_store s)" and "gov_delete_key e k s = (s1, r)" and "r = Inr () \<or> r = Inl (RevocationDurable k)"
  shows "\<exists>d. gone k d s1"
proof -
  obtain st where st: "delete_key (en_clock e) k (ks_store s) = Inr st"
    and rest: "attempt (refresh e) (\<lambda>refreshed. and_then (change (drop_cell k)) (\<lambda>_.
        case refreshed of Inl _ \<Rightarrow> fail (RevocationDurable k) | Inr _ \<Rightarrow> ok ()))
      (evict_key_from_caches k (s\<lparr>ks_calls := Suc (ks_calls s), ks_store := st\<rparr>)) = (s1, r)"
    using assms(2,3) by (auto simp: gov_delete_key_def and_then_def write_call_def change_def result_of_def Let_def
        split: Fault.splits sum.splits)
  let ?s = "evict_key_from_caches k (s\<lparr>ks_calls := Suc (ks_calls s), ks_store := st\<rparr>)"
  have store: "ks_store ?s = st" by (simp add: evict_key_from_caches_def)
  have wf: "mem_wf (ks_store ?s)" using wf_step_cases [of "en_clock e" "DeleteKey k"] st assms(1) by (simp add: store)
  obtain d where d: "tombstoned k d st"
    using st by (auto simp: delete_key_def tombstoned_def get_key_def Let_def update_conv' split: option.splits if_splits)
  have "gone k d (fst (refresh e ?s))"
  proof (cases rule: refresh_cases [of e ?s])
    case (1 n x)
    have "gone k d ?s" using gone_evict [of k d "s\<lparr>ks_calls := Suc (ks_calls s), ks_store := st\<rparr>"] d by simp
    then show ?thesis by (rule iffD2 [OF gone_fields, rotated 3]) (simp_all add: 1)
  next
    case (2 n)
    have "gone k d (?s\<lparr>ks_by_id := load (ks_store ?s), ks_by_credential := cache_of (en_clock e) (ks_store ?s)\<rparr>)"
      using d by (intro gone_reload [OF wf]) (simp add: store)
    then show ?thesis by (rule iffD2 [OF gone_fields, rotated 3]) (simp_all add: 2 cache_of_def)
  qed
  moreover have "s1 = drop_cell k (fst (refresh e ?s))"
    using rest by (auto simp: attempt_def and_then_def change_def fail_def ok_def split: prod.splits sum.splits)
  ultimately have "gone k d s1" by (simp add: gone_def drop_cell_def)
  then show ?thesis by blast
qed

text \<open>
  C16: A deletion is final while its tombstone is retained. Whether the deletion returned success
  or reported that only the caches could not be reloaded, the key carries a tombstone, and for 31
  days from its time no token that names the key is accepted and no credential resolves to it,
  under any sequence of operations of the node, failed or lost store calls, restarts over a durable
  store and writes of its peers, which like the node itself write tombstones by deleting only, so
  that none puts a row with another tombstone for the key.
\<close>

theorem deletion_is_final:
  assumes "reach key_init key_step s" and "gov_delete_key e k s = (s1, r)"
    and "r = Inr () \<or> r = Inl (RevocationDurable k)"
  shows "\<exists>d. tombstoned k d (ks_store s1)
    \<and> (\<forall>es t. trace key_step s1 es t \<and> list_all (within_retention k d) es \<longrightarrow>
         (\<forall>cr token now c. token_claims cr t token now = Some c \<and> tc_sub c = k \<longrightarrow> snd (verify_token cr token now t) = None)
         \<and> (\<forall>kind public_id key c. lookup_credential kind public_id t = Some (key, c) \<longrightarrow> vk_id key \<noteq> k))"
proof -
  have wf: "mem_wf (ks_store s)" by (rule key_sys.reach_inv [OF assms(1)])
  have "denial_kept (en_clock e) s s1"
    using denial.keeps_gov_delete_key [of e k] assms(2) by (auto simp: keeps_def dest!: spec [of _ s])
  then have wf1: "mem_wf (ks_store s1)" using wf by (simp add: denial_kept_def)
  obtain d where d: "gone k d s1" using delete_tombstones [OF wf assms(2,3)] by blast
  have "gone k d t" if "trace key_step s1 es t" "list_all (within_retention k d) es" for es t
    by (rule gone_trace [OF that(1) wf1 d that(2)])
  then have later: "ks_by_id t k = None \<and> (\<forall>h key c. ks_by_credential t h = Some (key, c) \<longrightarrow> vk_id key \<noteq> k)"
    if "trace key_step s1 es t" "list_all (within_retention k d) es" for es t
    using that by (simp add: gone_def)
  have token: "snd (verify_token cr token now t) = None"
    if "trace key_step s1 es t \<and> list_all (within_retention k d) es" "token_claims cr t token now = Some c \<and> tc_sub c = k"
    for es t cr token now c
    using that later [of es t] by (simp add: verify_token_result)
  have credential: "vk_id row \<noteq> k"
    if "trace key_step s1 es t \<and> list_all (within_retention k d) es" "lookup_credential kind public_id t = Some (row, c)"
    for es t kind public_id row c
    using that later [of es t] by (auto simp: lookup_credential_def)
  show ?thesis
    using d token credential by (intro exI [of _ d] conjI allI impI) (simp add: gone_def, blast, blast)
qed

section \<open>A rotation takes effect\<close>

lemma rotate_result:
  assumes "rotate_key e k expiry (Some g) s = (s1, r)" and "(\<exists>c. r = Inr (Some c)) \<or> r = Inl (RotationDurable k)"
  obtains row st s2 m where "get_key k (ks_store s) = Some row" "vk_deleted_at row = None" "ks_signing s = Some m"
    "put_key (en_clock e) (row\<lparr>vk_generation_hash := binding_marker (vk_id row) (hex_encode (en_crypto e) g)\<rparr>) (ks_store s) = Inr st"
    "ks_store s2 = st" "ks_signing s2 = ks_signing s" "ks_denylist s2 = ks_denylist s"
    "r = Inr (Some \<lparr>rc_key = row\<lparr>vk_generation_hash := binding_marker (vk_id row) (hex_encode (en_crypto e) g)\<rparr>,
        rc_token = mint (en_crypto e) (sm_signer m) (vk_id row) expiry (Some (hex_encode (en_crypto e) g)), rc_exp = expiry\<rparr>)
       \<and> refresh e s2 = (s1, Inr ())
     \<or> r = Inl (RotationDurable k) \<and> ks_by_id s1 k = None"
proof -
  let ?gen = "hex_encode (en_crypto e) g"
  let ?s0 = "s\<lparr>ks_calls := Suc (ks_calls s)\<rparr>"
  obtain row where row: "get_key k (ks_store s) = Some row" "vk_deleted_at row = None" and read: "en_fault e (ks_calls s) = Answered"
    using assms by (auto simp: rotate_key_def and_then_def read_call_def ok_def split: option.splits if_splits)
  obtain m where m: "ks_signing s = Some m"
    using assms by (auto simp: rotate_key_def and_then_def read_call_def signer_of_def row read split: option.splits)
  let ?row = "row\<lparr>vk_generation_hash := binding_marker (vk_id row) ?gen\<rparr>"
  have rest: "and_then (write_call e (result_of (put_key (en_clock e) ?row))) (\<lambda>_. attempt (refresh e) (\<lambda>refreshed.
      case refreshed of Inl _ \<Rightarrow> and_then (change (evict_key_from_caches k)) (\<lambda>_. fail (RotationDurable k))
      | Inr _ \<Rightarrow> ok (Some \<lparr>rc_key = ?row, rc_token = mint (en_crypto e) (sm_signer m) (vk_id row) expiry (Some ?gen), rc_exp = expiry\<rparr>)))
      ?s0 = (s1, r)"
    using assms(1)
    by (simp add: rotate_key_def and_then_def [of "read_call e (get_key k)"] and_then_def [of signer_of]
        and_then_def [of "ok g"] read_call_def signer_of_def entropy_def ok_def [of g] row read m Let_def)
  obtain st where put: "put_key (en_clock e) ?row (ks_store s) = Inr st" and done1: "en_fault e (Suc (ks_calls s)) = Answered"
    using rest assms(2)
    by (auto simp: and_then_def [of "write_call e _"] write_call_def result_of_def Let_def split: Fault.splits sum.splits)
  let ?s2 = "s\<lparr>ks_calls := Suc (Suc (ks_calls s)), ks_store := st\<rparr>"
  have tail: "attempt (refresh e) (\<lambda>refreshed.
      case refreshed of Inl _ \<Rightarrow> and_then (change (evict_key_from_caches k)) (\<lambda>_. fail (RotationDurable k))
      | Inr _ \<Rightarrow> ok (Some \<lparr>rc_key = ?row, rc_token = mint (en_crypto e) (sm_signer m) (vk_id row) expiry (Some ?gen), rc_exp = expiry\<rparr>))
      ?s2 = (s1, r)"
    using rest by (simp add: and_then_def [of "write_call e _"] write_call_def result_of_def Let_def put done1)
  obtain s3 rf where rf: "refresh e ?s2 = (s3, rf)" by (cases "refresh e ?s2")
  have "r = Inr (Some \<lparr>rc_key = ?row, rc_token = mint (en_crypto e) (sm_signer m) (vk_id row) expiry (Some ?gen), rc_exp = expiry\<rparr>)
       \<and> refresh e ?s2 = (s1, Inr ())
     \<or> r = Inl (RotationDurable k) \<and> ks_by_id s1 k = None"
    using tail rf
    by (cases rf) (auto simp: attempt_def ok_def and_then_def change_def fail_def evict_key_from_caches_def split: option.splits)
  then show thesis by (intro that [of row m st ?s2]) (use row m put in simp_all)
qed

lemma refresh_frame: "refresh e s = (t, Inr ()) \<Longrightarrow> ks_by_id t = load (ks_store s) \<and> ks_signing t = ks_signing s \<and> ks_denylist t = ks_denylist s"
  by (simp add: step_iff)

text \<open>
  C17: A rotation takes effect at once. Whether it returned the new credential or reported that the
  caches could not be reloaded, every token that names the key and is accepted from then on
  carries the generation of this rotation; in the second case none is accepted at all. A returned
  token is accepted until it expires, as long as the key is enabled and not revoked.
\<close>

theorem rotation_takes_effect:
  assumes "crypto_laws (en_crypto e)" and "reach key_init key_step s" and "CHR '':'' \<notin> set k" and "expiry \<le> u64_max"
    and "rotate_key e k expiry (Some g) s = (s1, r)"
    and "(\<exists>c. r = Inr (Some c)) \<or> r = Inl (RotationDurable k)"
    and "ks_signing s = Some (signing_material_new (en_crypto e) signer)"
  shows "(\<forall>cr token now c key. token_claims cr s1 token now = Some c \<and> tc_sub c = k \<and> snd (verify_token cr token now s1) = Some key
        \<longrightarrow> tc_generation c = Some (hex_encode (en_crypto e) g) \<and> r \<noteq> Inl (RotationDurable k))
    \<and> (\<forall>cred now. r = Inr (Some cred) \<longrightarrow>
        (snd (verify_token (en_crypto e) (rc_token cred) now s1) \<noteq> None)
          = (now < expiry \<and> vk_enabled (rc_key cred) \<and> \<not> rv_contains k (ks_denylist s)))"
proof -
  have wf: "mem_wf (ks_store s)" by (rule key_sys.reach_inv [OF assms(2)])
  let ?gen = "hex_encode (en_crypto e) g"
  obtain row st s2 m where row: "get_key k (ks_store s) = Some row" "vk_deleted_at row = None" "ks_signing s = Some m"
    "put_key (en_clock e) (row\<lparr>vk_generation_hash := binding_marker (vk_id row) ?gen\<rparr>) (ks_store s) = Inr st"
    "ks_store s2 = st" "ks_signing s2 = ks_signing s" "ks_denylist s2 = ks_denylist s"
    and r: "r = Inr (Some \<lparr>rc_key = row\<lparr>vk_generation_hash := binding_marker (vk_id row) ?gen\<rparr>,
        rc_token = mint (en_crypto e) (sm_signer m) (vk_id row) expiry (Some ?gen), rc_exp = expiry\<rparr>)
       \<and> refresh e s2 = (s1, Inr ())
     \<or> r = Inl (RotationDurable k) \<and> ks_by_id s1 k = None"
    by (rule rotate_result [OF assms(5,6)])
  have k: "vk_id row = k" using wf row(1) by (auto simp: mem_wf_def get_key_def dest!: map_of_SomeD)
  have "mem_wf st" using wf_step_cases [of "en_clock e" "PutKey _", OF _ wf] row(4) by simp
  then have entry: "load st k = Some (row\<lparr>vk_generation_hash := binding_marker k ?gen, vk_revision := next_revision (ks_store s)\<rparr>)"
    using put_key_row [OF row(4)] row(2) by (simp add: load_get_key k)
  from r show ?thesis
  proof
    assume ok: "r = Inr (Some \<lparr>rc_key = row\<lparr>vk_generation_hash := binding_marker (vk_id row) ?gen\<rparr>,
        rc_token = mint (en_crypto e) (sm_signer m) (vk_id row) expiry (Some ?gen), rc_exp = expiry\<rparr>)
       \<and> refresh e s2 = (s1, Inr ())"
    then have s1: "ks_by_id s1 k = Some (row\<lparr>vk_generation_hash := binding_marker k ?gen, vk_revision := next_revision (ks_store s)\<rparr>)"
      "ks_signing s1 = Some m" "ks_denylist s1 = ks_denylist s"
      using refresh_frame [of e s2 s1] entry row by simp_all
    have m: "m = signing_material_new (en_crypto e) signer" using assms(7) row(3) by simp
    show ?thesis
      using ok assms(1,3,4) s1
      by (auto simp: verify_token_result token_claims_def generation_matches_def k m verify_mint signing_material_new_def
          verifier_single_def verifying_key_def crypto_laws_def split: if_splits option.splits sum.splits)
  next
    assume "r = Inl (RotationDurable k) \<and> ks_by_id s1 k = None"
    then show ?thesis by (auto simp: verify_token_result split: option.splits)
  qed
qed

section \<open>Self-serve keys over an existing row\<close>

text \<open>
  The first probe of a self-serve binding skips a tombstoned row only: a live row, enabled or not,
  is written over. Two consequences follow, each under an environment whose calls all succeed.
\<close>

lemma self_binding_overwrites:
  assumes "\<And>n. en_fault e n = Answered" and "epoch \<le> u64_max"
    and "k = derive_self_subject (en_crypto e) (sg_key (sm_signer m)) u epoch"
    and "get_key k (ks_store s) = Some row" and "vk_deleted_at row = None"
  shows "\<exists>t b token. write_self_binding e m u pools epoch expiry now s = (t, Inr (b, token))
     \<and> vk_id b = k \<and> vk_enabled b \<and> vk_generation_hash b = binding_marker k (to_decimal epoch)
     \<and> ks_by_id t = load (ks_store t)
     \<and> get_key k (ks_store t) = Some (b\<lparr>vk_revision := next_revision (ks_store s)\<rparr>)"
proof -
  define b where "b = binding_row k (to_decimal epoch) (''self-serve key ('' @ u @ '')'') pools (Some (SELF_KEY_GROUP_PREFIX @ u)) [] now"
  have b: "vk_id b = k" "vk_enabled b" "vk_deleted_at b = None" "vk_generation_hash b = binding_marker k (to_decimal epoch)"
    by (simp_all add: b_def binding_row_def)
  have probe: "first_free_self_epoch e (sg_key (sm_signer m)) u epoch s = (s\<lparr>ks_calls := Suc (ks_calls s)\<rparr>, Inr (k, epoch))"
    using assms by (simp add: first_free_self_epoch_def MAX_PROBES_def numeral_eq_Suc and_then_def read_call_def ok_def
        saturating_add_def Let_def)
  obtain st where put: "put_key (en_clock e) b (ks_store s) = Inr st"
    using assms(4,5) by (simp add: put_key_def get_key_def b Let_def)
  let ?t = "s\<lparr>ks_calls := Suc (Suc (ks_calls s)), ks_store := st\<rparr>"
  obtain t where t: "refresh e ?t = (t, Inr ())" "ks_by_id t = load st" "ks_store t = st"
    using assms(1) by (simp add: step_iff)
  have "write_self_binding e m u pools epoch expiry now s
      = (t, Inr (b, mint (en_crypto e) (sm_signer m) k expiry (Some (to_decimal epoch))))"
    using probe put [unfolded b_def] t assms(1)
    by (simp add: write_self_binding_def and_then_def [of "first_free_self_epoch _ _ _ _"] and_then_def [of "write_call _ _"]
        and_then_def [of "refresh _"] write_call_def result_of_def ok_def Let_def b_def)
  moreover have "get_key k st = Some (b\<lparr>vk_revision := next_revision (ks_store s)\<rparr>)" using put_key_row [OF put b(3)] b(1) by simp
  ultimately show ?thesis using b t by auto
qed

text \<open>
  After an operator rotation the generation of a binding is random and not an epoch, so the next
  refresh restarts at epoch 1. When the rotated row is the one of epoch 1, the refresh writes it
  over with generation 1, the generation it had before the rotation: the tokens the rotation had
  ended match again.
\<close>

lemma refresh_revives_rotated_generation:
  assumes "\<And>n. en_fault e n = Answered" and "ks_signing s = Some m" and "current_self_binding e u s = Some live"
    and "vk_id live = derive_self_subject (en_crypto e) (sg_key (sm_signer m)) u 1" and "CHR '':'' \<notin> set (vk_id live)"
    and "vk_generation_hash live = binding_marker (vk_id live) g" and "parse_u64 g = None"
    and "get_key (vk_id live) (ks_store s) = Some row" and "vk_deleted_at row = None"
  shows "\<exists>t b token. refresh_self e u pools expiry now s = (t, Inr (b, token)) \<and> vk_id b = vk_id live
     \<and> generation_matches (vk_generation_hash b) (Some (to_decimal 1))"
proof -
  have epoch: "next_epoch live = 1" using assms(5,6,7) by (simp add: next_epoch_def saturating_add_def u64_max_def)
  have "(1 :: u64) \<le> u64_max" by (simp add: u64_max_def)
  from self_binding_overwrites [OF assms(1) this assms(4,8,9)] obtain t b token
    where w: "write_self_binding e m u pools 1 expiry now s = (t, Inr (b, token))" and b: "vk_id b = vk_id live"
      "vk_generation_hash b = binding_marker (vk_id live) (to_decimal 1)" by blast
  have "refresh_self e u pools expiry now s = (t, Inr (b, token))"
    using assms(2,3) w b(1) epoch by (simp add: refresh_self_def and_then_def signer_of_def ok_def)
  then show ?thesis using b assms(5) by (simp add: generation_matches_def)
qed

text \<open>
  A row that an operator froze is not a current binding, so the next login writes it over, enabled.
\<close>

lemma login_undoes_freeze:
  assumes "\<And>n. en_fault e n = Answered" and "ks_signing s = Some m" and "current_self_binding e u s = None"
    and "mem_wf (ks_store s)" and "k = derive_self_subject (en_crypto e) (sg_key (sm_signer m)) u 0"
    and "get_key k (ks_store s) = Some row" and "vk_deleted_at row = None" and "\<not> vk_enabled row"
  shows "\<exists>t b token key. issue_self e u pools expiry now s = (t, Inr (b, token)) \<and> get_key k (ks_store t) = Some key
     \<and> vk_enabled key"
proof -
  have "(0 :: u64) \<le> u64_max" by simp
  from self_binding_overwrites [OF assms(1) this assms(5-7)] obtain t b token
    where w: "write_self_binding e m u pools 0 expiry now s = (t, Inr (b, token))" and b: "vk_enabled b"
      "get_key k (ks_store t) = Some (b\<lparr>vk_revision := next_revision (ks_store s)\<rparr>)" by blast
  have "issue_self e u pools expiry now s = (t, Inr (b, token))"
    using assms(2,3) w by (simp add: issue_self_def and_then_def signer_of_def)
  then show ?thesis using b by simp
qed

text \<open>A key's documented hard expiry plays no part in the verification of a token.\<close>

lemma verify_ignores_key_expiry:
  assumes "\<And>k. map_option (\<lambda>key. key\<lparr>vk_expires_at := None\<rparr>) (ks_by_id s k) = map_option (\<lambda>key. key\<lparr>vk_expires_at := None\<rparr>) (ks_by_id t k)"
    and "ks_signing s = ks_signing t" and "ks_denylist s = ks_denylist t"
  shows "(snd (verify_token cr token now s) = None) = (snd (verify_token cr token now t) = None)"
proof -
  have row: "(case ks_by_id s k of None \<Rightarrow> False | Some key \<Rightarrow> vk_enabled key \<and> generation_matches (vk_generation_hash key) g)
      = (case ks_by_id t k of None \<Rightarrow> False | Some key \<Rightarrow> vk_enabled key \<and> generation_matches (vk_generation_hash key) g)" for k g
  proof (cases "ks_by_id s k")
    case (Some a)
    then obtain b where b: "ks_by_id t k = Some b" "a\<lparr>vk_expires_at := None\<rparr> = b\<lparr>vk_expires_at := None\<rparr>"
      using assms(1) [of k] by (cases "ks_by_id t k") simp_all
    have "vk_enabled a = vk_enabled b" "vk_generation_hash a = vk_generation_hash b"
      using arg_cong [OF b(2), of vk_enabled] arg_cong [OF b(2), of vk_generation_hash] by simp_all
    then show ?thesis using Some b(1) by simp
  next
    case None
    then show ?thesis using assms(1) [of k] by simp
  qed
  show ?thesis
  proof (cases "token_claims cr s token now")
    case (Some c)
    have "token_claims cr t token now = Some c" using Some assms(2) by (simp add: token_claims_def)
    then show ?thesis
      using Some row [where k = "tc_sub c" and g = "tc_generation c"] assms(3)
      by (cases "ks_by_id s (tc_sub c)"; cases "ks_by_id t (tc_sub c)") (auto simp: verify_token_result)
  next
    case None
    then have "token_claims cr t token now = None" using assms(2) by (simp add: token_claims_def)
    then show ?thesis using None by (simp add: verify_token_result)
  qed
qed

text \<open>
  A write of a peer to the shared store, a rotation included, is not seen by the verification of a
  token until the node reloads its caches, which only its own key operations do.
\<close>

lemma peer_write_is_not_seen:
  "snd (verify_token cr token now (key_apply e (Peer op) s)) = snd (verify_token cr token now s)"
  by (cases "store_apply (en_clock e) op (ks_store s)") (simp_all add: verify_token_result token_claims_def cong: option.case_cong if_cong)

section \<open>Concrete runs\<close>

definition example_env :: Env where
  "example_env = \<lparr>en_crypto = example_crypto, en_fault = (\<lambda>_. Answered), en_clock = 100, en_order = []\<rparr>"

definition example_signer :: TokenSigner where
  "example_signer = \<lparr>sg_key = ''seed'', sg_kid = DEFAULT_KID\<rparr>"

definition example_keys :: KeyState where
  "example_keys =
     \<lparr>ks_store = memory_new\<lparr>ms_keys := [(''vk_1'', (example_vk ''vk_1'')\<lparr>vk_revision := 1\<rparr>)], ms_revision := 1, ms_keys_sweep_ticker := 1\<rparr>,
      ks_calls = 0, ks_by_id = [''vk_1'' \<mapsto> (example_vk ''vk_1'')\<lparr>vk_revision := 1\<rparr>], ks_by_credential = Map.empty,
      ks_signing = Some (signing_material_new example_crypto example_signer), ks_denylist = revocation_new [] 100,
      ks_gov = \<lparr>gs_budget = Map.empty, gs_sweep_ticker = (\<lambda>_. 0), gs_concurrent = Map.empty\<rparr>\<rparr>"

lemma example_keys_reach: "reach key_init key_step example_keys"
proof (rule reach_init)
  have "mem_step memory_new (100, PutKey (example_vk ''vk_1'')) (ks_store example_keys)"
    unfolding example_keys_def by (rule mem_step.applied) (simp add: example_put_key)
  then show "key_init example_keys" unfolding key_init_def by (rule reach_step [OF mem_start])
qed

lemmas key_eval = example_env_def example_keys_def example_vk_def memory_new_def and_then_def read_call_def write_call_def
  change_def ok_def fail_def attempt_def result_of_def entropy_def signer_of_def refresh_def load_def list_keys_def
  load_by_credential_def list_credentials_since_def get_key_def put_key_def delete_key_def Let_def next_revision_def
  wrap_u64_def sweep_due_def SWEEP_INTERVAL_def

theorem revocation_is_final_witness:
  "\<exists>s :: KeyState. revoke example_env ''vk_1'' ''leaked'' (Some ''r'') example_keys = (s, Inr ())
     \<and> snd (is_revoked_at ''vk_1'' 200 (boot example_env (Some example_signer) s))
     \<and> \<not> snd (is_revoked_at ''vk_1'' 200 (key_apply example_env (ColdRestart None) (boot example_env (Some example_signer) s)))"
proof -
  have "snd (revoke example_env ''vk_1'' ''leaked'' (Some ''r'') example_keys) = Inr ()"
    by (simp add: revoke_def revoke_row_def list_credentials_def add_denylist_def key_eval)
  then obtain s where s: "revoke example_env ''vk_1'' ''leaked'' (Some ''r'') example_keys = (s, Inr ())"
    by (cases "revoke example_env ''vk_1'' ''leaked'' (Some ''r'') example_keys") simp
  have run: "trace key_step s [(example_env, Restart (Some example_signer))] (boot example_env (Some example_signer) s)"
    by (rule trace_single) (use key_step.event [of s example_env "Restart (Some example_signer)"] in simp)
  show ?thesis using s revocation_is_final [OF example_keys_reach s run, of 200 example_env None] by (intro exI [of _ s]) simp
qed

theorem deletion_is_final_witness:
  "\<exists>(s :: KeyState) d. gov_delete_key example_env ''vk_1'' example_keys = (s, Inr ()) \<and> tombstoned ''vk_1'' d (ks_store s)"
proof -
  have "snd (gov_delete_key example_env ''vk_1'' example_keys) = Inr ()"
    by (simp add: gov_delete_key_def evict_key_from_caches_def drop_cell_def key_eval)
  then obtain s where s: "gov_delete_key example_env ''vk_1'' example_keys = (s, Inr ())"
    by (cases "gov_delete_key example_env ''vk_1'' example_keys") simp
  show ?thesis using s deletion_is_final [OF example_keys_reach s] by blast
qed

theorem rotation_takes_effect_witness:
  "\<exists>(s :: KeyState) cred. rotate_key example_env ''vk_1'' 1000 (Some ''r'') example_keys = (s, Inr (Some cred))
     \<and> snd (verify_token example_crypto (rc_token cred) 999 s) \<noteq> None"
proof -
  have "\<exists>cred. snd (rotate_key example_env ''vk_1'' 1000 (Some ''r'') example_keys) = Inr (Some cred) \<and> vk_enabled (rc_key cred)"
    by (simp add: rotate_key_def key_eval example_key_def)
  then obtain s cred where s: "rotate_key example_env ''vk_1'' 1000 (Some ''r'') example_keys = (s, Inr (Some cred))"
    and enabled: "vk_enabled (rc_key cred)"
    by (cases "rotate_key example_env ''vk_1'' 1000 (Some ''r'') example_keys") auto
  have "crypto_laws (en_crypto example_env)" by (simp add: example_env_def example_crypto_laws)
  moreover have "ks_signing example_keys = Some (signing_material_new (en_crypto example_env) example_signer)"
    by (simp add: example_keys_def example_env_def)
  moreover have "\<not> rv_contains ''vk_1'' (ks_denylist example_keys)"
    by (simp add: example_keys_def revocation_new_def rv_contains_def)
  ultimately have "snd (verify_token (en_crypto example_env) (rc_token cred) 999 s) \<noteq> None"
    using s enabled rotation_takes_effect [of example_env example_keys "''vk_1''" 1000 "''r''" s "Inr (Some cred)" example_signer]
      example_keys_reach by (simp add: u64_max_def)
  then show ?thesis using s by (intro exI [of _ s] exI [of _ cred] conjI) (simp_all add: example_env_def)
qed

end
