(* ===== verification/Audit_Log.thy ===== *)
theory Audit_Log
  imports Busbar_Text
begin

text \<open>
  The admin audit log, \<open>src/crates/busbar/src/admin/audit.rs\<close>: a hash-chained ring of entries, its
  restore from the durable store, the recording of a mutation with its pressure valve, and the
  write-through that catches the durable log up with the ring.

  The durable store is an argument: a record of its two audit methods, on a state of any type. Its
  calls may be refused, or carried out with the acknowledgement lost. SHA-256 is an argument. A
  sequence number is a natural that grows by one per recorded mutation; the wrap-around of its
  counter after \<open>2 ^ 64\<close> mutations is not modelled.
\<close>

section \<open>Entries and records\<close>

record AuditEntry =
  ae_seq :: u64
  ae_ts :: u64
  ae_action :: string
  ae_resource :: string
  ae_outcome :: string
  ae_principal :: string
  ae_prev_hash :: string
  ae_hash :: string
  ae_recorded_here :: bool

record AuditRecord =
  au_seq :: u64
  au_ts :: u64
  au_action :: string
  au_resource :: string
  au_outcome :: string
  au_principal :: string
  au_prev_hash :: string
  au_hash :: string

definition canonical :: "AuditEntry \<Rightarrow> string" where
  "canonical x =
     ae_prev_hash x @ ''|'' @ to_decimal (ae_seq x) @ ''|'' @ to_decimal (ae_ts x) @ ''|'' @ ae_action x @ ''|''
       @ ae_resource x @ ''|'' @ ae_outcome x @ ''|'' @ ae_principal x"

definition compute_hash :: "(string \<Rightarrow> string) \<Rightarrow> AuditEntry \<Rightarrow> string" where
  "compute_hash sha x = sha (canonical x)"

definition OUTCOME_APPLIED :: string where "OUTCOME_APPLIED = ''applied''"
definition OUTCOME_REJECTED :: string where "OUTCOME_REJECTED = ''rejected''"
definition MAX_AUDIT_ENTRIES :: nat where "MAX_AUDIT_ENTRIES = 1000"
definition WRITE_THROUGH_HEADROOM :: u64 where "WRITE_THROUGH_HEADROOM = MAX_AUDIT_ENTRIES - MAX_AUDIT_ENTRIES div 4"

definition to_record :: "AuditEntry \<Rightarrow> AuditRecord" where
  "to_record x =
     \<lparr>au_seq = ae_seq x, au_ts = ae_ts x, au_action = ae_action x, au_resource = ae_resource x, au_outcome = ae_outcome x,
      au_principal = ae_principal x, au_prev_hash = ae_prev_hash x, au_hash = ae_hash x\<rparr>"

definition from_record :: "AuditRecord \<Rightarrow> AuditEntry" where
  "from_record r =
     \<lparr>ae_seq = au_seq r, ae_ts = au_ts r, ae_action = au_action r, ae_resource = au_resource r, ae_outcome = au_outcome r,
      ae_principal = au_principal r, ae_prev_hash = au_prev_hash r, ae_hash = au_hash r, ae_recorded_here = False\<rparr>"

section \<open>The log and its store\<close>

text \<open>The sink is a flag: the store it points to is the one store of the run.\<close>

record AuditLog =
  al_entries :: "AuditEntry list"
  al_seq :: u64
  al_sink :: bool
  al_durable_high :: u64
  al_unreconciled :: bool
  al_last_warned_gap_seq :: u64

definition audit_new :: AuditLog where
  "audit_new =
     \<lparr>al_entries = [], al_seq = 1, al_sink = False, al_durable_high = 0, al_unreconciled = False,
      al_last_warned_gap_seq = 0\<rparr>"

definition set_sink :: "AuditLog \<Rightarrow> AuditLog" where
  "set_sink lg = lg\<lparr>al_sink := True\<rparr>"

record 's AuditStore =
  append_audit :: "AuditRecord \<Rightarrow> 's \<Rightarrow> 's \<times> bool"
  list_audit :: "'s \<Rightarrow> AuditRecord list"

definition list_audit_tail :: "'s AuditStore \<Rightarrow> nat \<Rightarrow> 's \<Rightarrow> AuditRecord list" where
  "list_audit_tail S limit st =
     (let records = list_audit S st in
      if limit < length records then drop (length records - limit) records else records)"

record 's AuditRun =
  ar_log :: AuditLog
  ar_store :: 's
  ar_calls :: nat

type_synonym faults = "nat \<Rightarrow> Fault"

definition on_log :: "(AuditLog \<Rightarrow> AuditLog) \<Rightarrow> 's AuditRun \<Rightarrow> 's AuditRun" where
  "on_log f r = r\<lparr>ar_log := f (ar_log r)\<rparr>"

definition tail_call :: "'s AuditStore \<Rightarrow> faults \<Rightarrow> nat \<Rightarrow> 's AuditRun \<Rightarrow> 's AuditRun \<times> AuditRecord list option" where
  "tail_call S e limit r =
     (r\<lparr>ar_calls := Suc (ar_calls r)\<rparr>,
      if e (ar_calls r) = Answered then Some (list_audit_tail S limit (ar_store r)) else None)"

definition append_call :: "'s AuditStore \<Rightarrow> faults \<Rightarrow> AuditRecord \<Rightarrow> 's AuditRun \<Rightarrow> 's AuditRun \<times> bool" where
  "append_call S e rd r =
     (let r' = r\<lparr>ar_calls := Suc (ar_calls r)\<rparr>;
          (st, accepted) = append_audit S rd (ar_store r)
      in case e (ar_calls r) of
           Answered \<Rightarrow> (r'\<lparr>ar_store := st\<rparr>, accepted)
         | Refused \<Rightarrow> (r', False)
         | AckLost \<Rightarrow> (r'\<lparr>ar_store := st\<rparr>, False))"

section \<open>Restore\<close>

datatype RestoreError = ReadFailed | DigestFails u64 | ChainBreaks u64

definition max_seq :: "u64 list \<Rightarrow> u64" where
  "max_seq xs = fold max xs 0"

fun check_chain :: "(string \<Rightarrow> string) \<Rightarrow> string option \<Rightarrow> AuditEntry list \<Rightarrow> RestoreError option" where
  "check_chain sha prev [] = None"
| "check_chain sha prev (x # xs) =
     (if ae_hash x \<noteq> compute_hash sha x then Some (DigestFails (ae_seq x))
      else if (case prev of Some p \<Rightarrow> ae_prev_hash x \<noteq> p | None \<Rightarrow> False) then Some (ChainBreaks (ae_seq x))
      else check_chain sha (Some (ae_hash x)) xs)"

definition restore_log :: "(string \<Rightarrow> string) \<Rightarrow> AuditRecord list option \<Rightarrow> AuditLog \<Rightarrow> AuditLog \<times> (RestoreError + nat)" where
  "restore_log sha read lg =
     (case read of
        None \<Rightarrow> (lg\<lparr>al_unreconciled := True\<rparr>, Inl ReadFailed)
      | Some [] \<Rightarrow> (lg\<lparr>al_unreconciled := False\<rparr>, Inr 0)
      | Some records \<Rightarrow>
          let entries = map from_record records;
              durable_max = max_seq (map ae_seq entries);
              lg1 = lg\<lparr>al_unreconciled := False, al_seq := max (al_seq lg) (durable_max + 1),
                         al_durable_high := max (al_durable_high lg) durable_max\<rparr>
          in case check_chain sha None entries of
               Some err \<Rightarrow> (lg1\<lparr>al_unreconciled := True\<rparr>, Inl err)
             | None \<Rightarrow> (lg1\<lparr>al_entries := drop (length entries - MAX_AUDIT_ENTRIES) entries\<rparr>, Inr (length entries)))"

definition restore_from_store ::
  "'s AuditStore \<Rightarrow> (string \<Rightarrow> string) \<Rightarrow> faults \<Rightarrow> 's AuditRun \<Rightarrow> 's AuditRun \<times> (RestoreError + nat)" where
  "restore_from_store S sha e r =
     (case tail_call S e MAX_AUDIT_ENTRIES r of
        (r1, read) \<Rightarrow> (case restore_log sha read (ar_log r1) of (lg, result) \<Rightarrow> (r1\<lparr>ar_log := lg\<rparr>, result)))"

section \<open>Write-through\<close>

text \<open>Renumber entries from a sequence number on, chained to a hash.\<close>

fun renumber :: "(string \<Rightarrow> string) \<Rightarrow> u64 \<Rightarrow> string \<Rightarrow> AuditEntry list \<Rightarrow> AuditEntry list" where
  "renumber sha n prev [] = []"
| "renumber sha n prev (x # xs) =
     (let y = x\<lparr>ae_seq := n, ae_prev_hash := prev\<rparr>;
          z = y\<lparr>ae_hash := compute_hash sha y\<rparr>
      in z # renumber sha (n + 1) (ae_hash z) xs)"

definition rebase_nondurable_suffix ::
  "(string \<Rightarrow> string) \<Rightarrow> u64 \<Rightarrow> string \<Rightarrow> AuditLog \<Rightarrow> AuditLog \<times> u64 option" where
  "rebase_nondurable_suffix sha durable_max anchor_hash lg =
     (let seeded = takeWhile (\<lambda>x. \<not> ae_recorded_here x) (al_entries lg);
          suffix = dropWhile (\<lambda>x. \<not> ae_recorded_here x) (al_entries lg)
      in case suffix of
           [] \<Rightarrow> (lg, None)
         | first # _ \<Rightarrow>
             let n = max (durable_max + 1) (ae_seq first);
                 prev = (if n = durable_max + 1 then anchor_hash else ae_prev_hash first)
             in (lg\<lparr>al_entries := seeded @ renumber sha n prev suffix, al_seq := max (al_seq lg) (n + length suffix)\<rparr>,
                 Some (n + length suffix - 1)))"

text \<open>The last of the records with the highest sequence number, as \<open>max_by_key\<close> picks it.\<close>

fun newest :: "AuditRecord list \<Rightarrow> AuditRecord option" where
  "newest [] = None"
| "newest (x # xs) =
     (case newest xs of None \<Rightarrow> Some x | Some y \<Rightarrow> if au_seq x \<le> au_seq y then Some y else Some x)"

definition adopt_floor :: "(string \<Rightarrow> string) \<Rightarrow> AuditRecord list \<Rightarrow> u64 \<Rightarrow> AuditLog \<Rightarrow> AuditLog \<times> u64" where
  "adopt_floor sha tail new_seq lg =
     (let anchor = newest tail;
          durable_max = (case anchor of Some x \<Rightarrow> au_seq x | None \<Rightarrow> 0);
          anchor_hash = (case anchor of Some x \<Rightarrow> au_hash x | None \<Rightarrow> []);
          lg1 = lg\<lparr>al_durable_high := max (al_durable_high lg) durable_max\<rparr>
      in case rebase_nondurable_suffix sha durable_max anchor_hash lg1 of
           (lg2, head) \<Rightarrow>
             (lg2\<lparr>al_seq := max (al_seq lg2) (durable_max + 1), al_unreconciled := False\<rparr>,
              case head of Some t \<Rightarrow> t | None \<Rightarrow> new_seq))"

definition recover_floor ::
  "'s AuditStore \<Rightarrow> (string \<Rightarrow> string) \<Rightarrow> faults \<Rightarrow> u64 \<Rightarrow> 's AuditRun \<Rightarrow> 's AuditRun \<times> u64 option" where
  "recover_floor S sha e new_seq r =
     (if \<not> al_unreconciled (ar_log r) then (r, Some new_seq)
      else case tail_call S e 1 r of
             (r1, None) \<Rightarrow> (r1, None)
           | (r1, Some tail) \<Rightarrow>
               (case adopt_floor sha tail new_seq (ar_log r1) of (lg, n) \<Rightarrow> (r1\<lparr>ar_log := lg\<rparr>, Some n)))"

text \<open>A tail ahead of what this node persisted detaches the sink; a failed read is no evidence.\<close>

definition check_writer :: "'s AuditStore \<Rightarrow> faults \<Rightarrow> 's AuditRun \<Rightarrow> 's AuditRun \<times> bool" where
  "check_writer S e r =
     (case tail_call S e 1 r of
        (r1, None) \<Rightarrow> (r1, True)
      | (r1, Some tail) \<Rightarrow>
          if al_durable_high (ar_log r1) < max_seq (map au_seq tail)
          then (on_log (\<lambda>l. l\<lparr>al_sink := False\<rparr>) r1, False) else (r1, True))"

definition backfill_one :: "'s AuditStore \<Rightarrow> faults \<Rightarrow> u64 \<Rightarrow> 's AuditRun \<Rightarrow> 's AuditRun \<times> bool" where
  "backfill_one S e n r =
     (case find (\<lambda>x. ae_seq x = n) (al_entries (ar_log r)) of
        None \<Rightarrow> (on_log (\<lambda>l. l\<lparr>al_last_warned_gap_seq := n\<rparr>) r, False)
      | Some x \<Rightarrow>
          (case append_call S e (to_record x) r of
             (r1, False) \<Rightarrow> (r1, False)
           | (r1, True) \<Rightarrow> (on_log (\<lambda>l. l\<lparr>al_durable_high := max (al_durable_high l) n\<rparr>) r1, True)))"

fun backfill :: "'s AuditStore \<Rightarrow> faults \<Rightarrow> u64 list \<Rightarrow> 's AuditRun \<Rightarrow> 's AuditRun" where
  "backfill S e [] r = r"
| "backfill S e (n # ns) r = (case backfill_one S e n r of (r1, True) \<Rightarrow> backfill S e ns r1 | (r1, False) \<Rightarrow> r1)"

text \<open>What a write-through does before its loop, and the sequence numbers the loop is left with.\<close>

definition write_through_start ::
  "'s AuditStore \<Rightarrow> (string \<Rightarrow> string) \<Rightarrow> faults \<Rightarrow> u64 \<Rightarrow> 's AuditRun \<Rightarrow> 's AuditRun \<times> u64 list" where
  "write_through_start S sha e new_seq r =
     (case recover_floor S sha e new_seq r of
        (r1, None) \<Rightarrow> (r1, [])
      | (r1, Some n) \<Rightarrow>
          (case check_writer S e r1 of
             (r2, False) \<Rightarrow> (r2, [])
           | (r2, True) \<Rightarrow> (r2, [al_durable_high (ar_log r2) + 1 ..< n + 1])))"

definition durable_write_through ::
  "'s AuditStore \<Rightarrow> (string \<Rightarrow> string) \<Rightarrow> faults \<Rightarrow> u64 \<Rightarrow> 's AuditRun \<Rightarrow> 's AuditRun" where
  "durable_write_through S sha e new_seq r =
     (case write_through_start S sha e new_seq r of (r1, ns) \<Rightarrow> backfill S e ns r1)"

definition flush_durable :: "'s AuditStore \<Rightarrow> (string \<Rightarrow> string) \<Rightarrow> faults \<Rightarrow> 's AuditRun \<Rightarrow> 's AuditRun" where
  "flush_durable S sha e r =
     (if \<not> al_sink (ar_log r) then r
      else case al_entries (ar_log r) of
             [] \<Rightarrow> r
           | q \<Rightarrow> durable_write_through S sha e (ae_seq (last q)) r)"

section \<open>Recording and listing\<close>

record Mutation =
  mu_action :: string
  mu_resource :: string
  mu_outcome :: string
  mu_principal :: string

definition new_entry :: "(string \<Rightarrow> string) \<Rightarrow> u64 \<Rightarrow> Mutation \<Rightarrow> AuditLog \<Rightarrow> AuditEntry" where
  "new_entry sha now m lg =
     (let prev = (case al_entries lg of [] \<Rightarrow> [] | q \<Rightarrow> ae_hash (last q));
          x = \<lparr>ae_seq = al_seq lg, ae_ts = now, ae_action = mu_action m, ae_resource = mu_resource m,
               ae_outcome = mu_outcome m, ae_principal = mu_principal m, ae_prev_hash = prev, ae_hash = [],
               ae_recorded_here = True\<rparr>
      in x\<lparr>ae_hash := compute_hash sha x\<rparr>)"

definition record_push :: "(string \<Rightarrow> string) \<Rightarrow> u64 \<Rightarrow> Mutation \<Rightarrow> AuditLog \<Rightarrow> AuditLog" where
  "record_push sha now m lg =
     (let x = new_entry sha now m lg; q = al_entries lg in
      lg\<lparr>al_seq := al_seq lg + 1, al_entries := drop (Suc (length q) - MAX_AUDIT_ENTRIES) q @ [x]\<rparr>)"

text \<open>The recorder writes inline when no flusher runs or the unpersisted tail is too long.\<close>

definition record_by ::
  "'s AuditStore \<Rightarrow> (string \<Rightarrow> string) \<Rightarrow> faults \<Rightarrow> bool \<Rightarrow> u64 \<Rightarrow> Mutation \<Rightarrow> 's AuditRun \<Rightarrow> 's AuditRun" where
  "record_by S sha e no_flusher now m r =
     (let n = al_seq (ar_log r); r1 = on_log (record_push sha now m) r in
      if al_sink (ar_log r1) \<and> (no_flusher \<or> WRITE_THROUGH_HEADROOM \<le> n - al_durable_high (ar_log r1))
      then durable_write_through S sha e n r1 else r1)"

definition list_filtered :: "nat \<Rightarrow> nat \<Rightarrow> string option \<Rightarrow> string option \<Rightarrow> AuditLog \<Rightarrow> AuditEntry list" where
  "list_filtered offset limit action resource lg =
     take limit (drop offset
       (filter (\<lambda>x. case resource of None \<Rightarrow> True | Some s \<Rightarrow> ae_resource x = s)
         (filter (\<lambda>x. case action of None \<Rightarrow> True | Some a \<Rightarrow> ae_action x = a) (rev (al_entries lg)))))"

end
