(* ===== verification/Audit_Machine.thy ===== *)
theory Audit_Machine
  imports Audit_Log "HOL-Library.Sublist"
begin

text \<open>
  The audit log in any interleaving: recorders push while one write-through at a time catches the
  durable log up, one store call a step; calls fail or lose their acknowledgement; the process
  restarts at any point. The locale \<open>audit_store\<close> is what the log needs of a durable store.
\<close>

section \<open>Chains\<close>

definition link :: "AuditRecord \<Rightarrow> AuditRecord \<Rightarrow> bool" where
  "link x y \<longleftrightarrow> au_seq y = Suc (au_seq x) \<and> au_prev_hash y = au_hash x"

definition sealed_by :: "(string \<Rightarrow> string) \<Rightarrow> AuditRecord \<Rightarrow> bool" where
  "sealed_by sha x \<longleftrightarrow> au_hash x = compute_hash sha (from_record x) \<and> 1 \<le> au_seq x"

definition chain :: "(string \<Rightarrow> string) \<Rightarrow> AuditRecord list \<Rightarrow> bool" where
  "chain sha rs \<longleftrightarrow> successively link rs \<and> list_all (sealed_by sha) rs"

lemma chain_Nil [simp]: "chain sha []"
  by (simp add: chain_def)

lemma chain_append:
  "chain sha (xs @ ys) \<longleftrightarrow> chain sha xs \<and> chain sha ys \<and> (xs = [] \<or> ys = [] \<or> link (last xs) (hd ys))"
  by (auto simp: chain_def successively_append_iff)

lemma chain_single [simp]: "chain sha [x] \<longleftrightarrow> sealed_by sha x"
  by (simp add: chain_def)

lemma chain_Cons: "chain sha (x # xs) \<longleftrightarrow> sealed_by sha x \<and> chain sha xs \<and> (xs = [] \<or> link x (hd xs))"
  using chain_append [of sha "[x]" xs] by auto

lemma chain_sealed: "chain sha rs \<Longrightarrow> y \<in> set rs \<Longrightarrow> sealed_by sha y"
  by (simp add: chain_def list_all_iff)

lemma chain_drop: "chain sha xs \<Longrightarrow> chain sha (drop n xs)"
  using chain_append [of sha "take n xs" "drop n xs"] by simp

lemma chain_increasing: "chain sha rs \<Longrightarrow> sorted_wrt (\<lambda>x y. au_seq x < au_seq y) rs"
proof (induction rs)
  case (Cons x xs)
  have tail: "sorted_wrt (\<lambda>x y. au_seq x < au_seq y) xs" using Cons by (simp add: chain_Cons)
  have "au_seq x < au_seq y" if "y \<in> set xs" for y
  proof -
    have first: "au_seq x < au_seq (hd xs)" using Cons.prems that by (auto simp: chain_Cons link_def)
    show ?thesis using that first tail by (cases xs) auto
  qed
  then show ?case using tail by simp
qed simp

lemma chain_less: "chain sha (xs @ ys) \<Longrightarrow> x \<in> set xs \<Longrightarrow> y \<in> set ys \<Longrightarrow> au_seq x < au_seq y"
  using chain_increasing [of sha "xs @ ys"] by (simp add: sorted_wrt_append)

lemma chain_unique: "chain sha rs \<Longrightarrow> x \<in> set rs \<Longrightarrow> y \<in> set rs \<Longrightarrow> au_seq x = au_seq y \<Longrightarrow> x = y"
proof (induction rs)
  case (Cons z zs)
  have "au_seq z < au_seq w" if "w \<in> set zs" for w using chain_less [of sha "[z]" zs z w] Cons.prems(1) that by simp
  then show ?case using Cons by (force simp: chain_Cons)
qed simp

lemma chain_last: "chain sha rs \<Longrightarrow> rs \<noteq> [] \<Longrightarrow> au_seq (last rs) = au_seq (hd rs) + (length rs - 1)"
proof (induction rs)
  case (Cons x xs)
  then show ?case by (cases xs) (auto simp: chain_Cons link_def)
qed simp

lemma record_entry [simp]: "to_record (from_record x) = x"
  by (simp add: to_record_def from_record_def)

lemma canonical_hash [simp]: "canonical (x\<lparr>ae_hash := h\<rparr>) = canonical x"
  by (simp add: canonical_def)

lemma canonical_record [simp]: "canonical (from_record (to_record x)) = canonical x"
  by (simp add: canonical_def from_record_def to_record_def)

lemma to_record_simps [simp]:
  "au_seq (to_record x) = ae_seq x" "au_prev_hash (to_record x) = ae_prev_hash x" "au_hash (to_record x) = ae_hash x"
  by (simp_all add: to_record_def)

lemma from_record_simps [simp]:
  "ae_seq (from_record r) = au_seq r" "ae_prev_hash (from_record r) = au_prev_hash r" "ae_hash (from_record r) = au_hash r"
  "\<not> ae_recorded_here (from_record r)"
  by (simp_all add: from_record_def)

lemma renumber_length [simp]: "length (renumber sha n prev xs) = length xs"
  by (induction xs arbitrary: n prev) (simp_all add: Let_def)

lemma renumber_hd: "xs \<noteq> [] \<Longrightarrow> ae_seq (hd (renumber sha n prev xs)) = n \<and> ae_prev_hash (hd (renumber sha n prev xs)) = prev"
  by (cases xs) (simp_all add: Let_def)

lemma renumber_Nil [simp]: "renumber sha n prev xs = [] \<longleftrightarrow> xs = []"
  by (cases xs) (simp_all add: Let_def)

lemma renumber_chain: "1 \<le> n \<Longrightarrow> chain sha (map to_record (renumber sha n prev xs))"
proof (induction xs arbitrary: n prev)
  case (Cons x xs)
  then show ?case
    using renumber_hd [of xs sha "n + 1"]
    by (auto simp: Let_def chain_Cons link_def sealed_by_def compute_hash_def hd_map)
qed simp

lemma renumber_recorded: "list_all ae_recorded_here xs \<Longrightarrow> list_all ae_recorded_here (renumber sha n prev xs)"
  by (induction xs arbitrary: n prev) (simp_all add: Let_def)

lemma renumber_last: "xs \<noteq> [] \<Longrightarrow> ae_seq (last (renumber sha n prev xs)) = n + length xs - 1"
  by (induction xs arbitrary: n prev) (auto simp: Let_def)

text \<open>Restoring a chain finds no fault in it.\<close>

lemma check_chain_ok:
  "chain sha rs \<Longrightarrow> (case prev of Some p \<Rightarrow> rs = [] \<or> au_prev_hash (hd rs) = p | None \<Rightarrow> True)
    \<Longrightarrow> check_chain sha prev (map from_record rs) = None"
proof (induction rs arbitrary: prev)
  case (Cons x xs)
  have "check_chain sha (Some (au_hash x)) (map from_record xs) = None"
    using Cons.prems by (intro Cons.IH) (auto simp: chain_Cons link_def)
  then show ?case using Cons.prems by (auto simp: chain_Cons sealed_by_def split: option.splits)
qed simp

lemma chain_max:
  assumes "chain sha rs" and "x \<in> set rs"
  shows "au_seq x \<le> au_seq (last rs)"
proof (cases "x \<in> set (butlast rs)")
  case True
  then show ?thesis using chain_less [of sha "butlast rs" "[last rs]" x "last rs"] assms by (cases rs rule: rev_cases) auto
next
  case False
  then show ?thesis using assms(2) by (cases rs rule: rev_cases) auto
qed

lemma max_seq_chain: "chain sha rs \<Longrightarrow> rs \<noteq> [] \<Longrightarrow> max_seq (map au_seq rs) = au_seq (last rs)"
proof -
  assume rs: "chain sha rs" "rs \<noteq> []"
  have "Max (set (0 # map au_seq rs)) = au_seq (last rs)"
    using rs(2) chain_max [OF rs(1)] by (intro Max_eqI) auto
  then show ?thesis unfolding max_seq_def Max.set_eq_fold .
qed

section \<open>The machine\<close>

datatype AuditEvent = Push Mutation | Start u64 | Iterate | Boot

text \<open>
  The second component is what the loop of the write-through in progress has left; the lock of the
  write-through admits one at a time. A write-through starts for an entry that was pushed before it.
  Every event carries the faults of its calls and the clock.
\<close>

type_synonym 's AuditState = "'s AuditRun \<times> u64 list"

fun audit_apply :: "'s AuditStore \<Rightarrow> (string \<Rightarrow> string) \<Rightarrow> faults \<times> u64 \<times> AuditEvent \<Rightarrow> 's AuditState \<Rightarrow> 's AuditState" where
  "audit_apply S sha (e, now, Push m) (r, pc) = (on_log (record_push sha now m) r, pc)"
| "audit_apply S sha (e, now, Start n) (r, pc) =
     (if pc = [] \<and> al_entries (ar_log r) \<noteq> [] then write_through_start S sha e n r else (r, pc))"
| "audit_apply S sha (e, now, Iterate) (r, pc) =
     (case pc of [] \<Rightarrow> (r, pc)
      | n # ns \<Rightarrow> (case backfill_one S e n r of (r1, again) \<Rightarrow> (r1, if again then ns else [])))"
| "audit_apply S sha (e, now, Boot) (r, pc) = (fst (restore_from_store S sha e (r\<lparr>ar_log := set_sink audit_new\<rparr>)), [])"

inductive audit_step ::
  "'s AuditStore \<Rightarrow> (string \<Rightarrow> string) \<Rightarrow> 's AuditState \<Rightarrow> faults \<times> u64 \<times> AuditEvent \<Rightarrow> 's AuditState \<Rightarrow> bool" for S sha where
  event: "audit_step S sha s ev (audit_apply S sha ev s)"

inductive_simps audit_step_iff: "audit_step S sha s ev t"

abbreviation durable :: "'s AuditStore \<Rightarrow> 's AuditState \<Rightarrow> AuditRecord list" where
  "durable S s \<equiv> list_audit S (ar_store (fst s))"

abbreviation ring :: "AuditLog \<Rightarrow> AuditRecord list" where
  "ring l \<equiv> map to_record (al_entries l)"

text \<open>A process starts with its boot over a store that holds a chain, for instance an empty one.\<close>

definition audit_init :: "'s AuditStore \<Rightarrow> (string \<Rightarrow> string) \<Rightarrow> 's AuditState \<Rightarrow> bool" where
  "audit_init S sha s \<longleftrightarrow>
     (\<exists>(r :: 's AuditRun) pc e now. chain sha (list_audit S (ar_store r)) \<and> s = audit_apply S sha (e, now, Boot) (r, pc))"

section \<open>The invariant\<close>

definition ring_wf :: "(string \<Rightarrow> string) \<Rightarrow> AuditLog \<Rightarrow> bool" where
  "ring_wf sha l \<longleftrightarrow> chain sha (ring l) \<and> 1 \<le> al_seq l
     \<and> (al_entries l \<noteq> [] \<longrightarrow> al_seq l = Suc (ae_seq (last (al_entries l)))) \<and> length (al_entries l) \<le> MAX_AUDIT_ENTRIES"

text \<open>
  The durable log and the ring are pieces of one chain, the ring at its end, or the ring begins
  beyond the record after the durable ones: then that record is lost and nothing is appended.
\<close>

definition agrees :: "(string \<Rightarrow> string) \<Rightarrow> AuditRecord list \<Rightarrow> AuditRecord list \<Rightarrow> bool" where
  "agrees sha L Q \<longleftrightarrow> (\<exists>A B X. A @ L @ B = X @ Q \<and> chain sha (X @ Q))
     \<or> (L \<noteq> [] \<and> (\<forall>q \<in> set Q. Suc (au_seq (last L)) < au_seq q))"

lemma agrees_empty: "chain sha Q \<Longrightarrow> agrees sha [] Q"
  unfolding agrees_def by (intro disjI1 exI [of _ Q] exI [of _ "[]"]) simp

definition reconciled :: "(string \<Rightarrow> string) \<Rightarrow> AuditRecord list \<Rightarrow> AuditLog \<Rightarrow> bool" where
  "reconciled sha L l \<longleftrightarrow> agrees sha L (ring l) \<and> (al_entries l = [] \<longrightarrow> L = [])
     \<and> (L \<noteq> [] \<longrightarrow> al_durable_high l \<le> au_seq (last L) \<and> au_seq (last L) \<le> Suc (al_durable_high l))"

definition log_inv :: "(string \<Rightarrow> string) \<Rightarrow> AuditRecord list \<Rightarrow> AuditLog \<Rightarrow> bool" where
  "log_inv sha L l \<longleftrightarrow> chain sha L \<and> ring_wf sha l
     \<and> (if al_unreconciled l then al_durable_high l = 0 \<and> list_all ae_recorded_here (al_entries l) else reconciled sha L l)"

definition audit_inv :: "'s AuditStore \<Rightarrow> (string \<Rightarrow> string) \<Rightarrow> 's AuditState \<Rightarrow> bool" where
  "audit_inv S sha s \<longleftrightarrow> log_inv sha (durable S s) (ar_log (fst s))
     \<and> (snd s \<noteq> [] \<longrightarrow> \<not> al_unreconciled (ar_log (fst s)) \<and> (\<exists>n. snd s = [Suc (al_durable_high (ar_log (fst s))) ..< n]))"

lemma new_entry_simps [simp]:
  "ae_seq (new_entry sha now m l) = al_seq l" "ae_recorded_here (new_entry sha now m l)"
  "ae_prev_hash (new_entry sha now m l) = (case al_entries l of [] \<Rightarrow> [] | q \<Rightarrow> ae_hash (last q))"
  by (simp_all add: new_entry_def Let_def)

lemma new_entry_sealed: "1 \<le> al_seq l \<Longrightarrow> sealed_by sha (to_record (new_entry sha now m l))"
  by (simp add: sealed_by_def compute_hash_def) (simp add: new_entry_def compute_hash_def canonical_def Let_def)

lemma push_simps [simp]:
  "al_entries (record_push sha now m l) = drop (Suc (length (al_entries l)) - MAX_AUDIT_ENTRIES) (al_entries l) @ [new_entry sha now m l]"
  "al_seq (record_push sha now m l) = Suc (al_seq l)" "al_durable_high (record_push sha now m l) = al_durable_high l"
  "al_unreconciled (record_push sha now m l) = al_unreconciled l" "al_sink (record_push sha now m l) = al_sink l"
  by (simp_all add: record_push_def Let_def)

lemma chain_push:
  assumes "ring_wf sha l" and "chain sha (X @ ring l)"  and "al_entries l = [] \<Longrightarrow> X = []"
  shows "chain sha (X @ ring l @ [to_record (new_entry sha now m l)])"
proof -
  have "link (last (X @ ring l)) (to_record (new_entry sha now m l))" if "al_entries l \<noteq> []"
    using that assms(1) by (cases "al_entries l") (simp_all add: link_def ring_wf_def last_map split: list.split)
  moreover have "sealed_by sha (to_record (new_entry sha now m l))" using assms(1) by (intro new_entry_sealed) (simp add: ring_wf_def)
  ultimately show ?thesis
    using assms(2,3) chain_append [of sha "X @ ring l" "[to_record (new_entry sha now m l)]"] by (cases "al_entries l = []") auto
qed

lemma push_ring:
  assumes "ring_wf sha l"
  shows "ring_wf sha (record_push sha now m l)"
proof -
  have "chain sha (ring l @ [to_record (new_entry sha now m l)])"
    using chain_push [OF assms, of "[]"] assms by (simp add: ring_wf_def)
  then have "chain sha (ring (record_push sha now m l))"
    using chain_drop [of sha "ring l @ [to_record (new_entry sha now m l)]" "Suc (length (al_entries l)) - MAX_AUDIT_ENTRIES"] assms
    by (simp add: drop_map ring_wf_def MAX_AUDIT_ENTRIES_def)
  then show ?thesis using assms by (simp add: ring_wf_def MAX_AUDIT_ENTRIES_def)
qed

lemma agrees_push:
  assumes "ring_wf sha l" and "agrees sha L (ring l)" and "al_entries l = [] \<Longrightarrow> L = []"
  shows "agrees sha L (ring (record_push sha now m l))"
proof -
  let ?new = "to_record (new_entry sha now m l)" and ?k = "Suc (length (al_entries l)) - MAX_AUDIT_ENTRIES"
  have ring': "ring (record_push sha now m l) = drop ?k (ring l) @ [?new]" by (simp add: drop_map)
  show ?thesis
  proof (cases "L = []")
    case True
    have "chain sha (ring (record_push sha now m l))" using push_ring [OF assms(1)] by (simp add: ring_wf_def)
    then show ?thesis using True agrees_empty by simp
  next
    case False
    then have q: "al_entries l \<noteq> []" using assms(3) by blast
    show ?thesis
    proof (cases "\<exists>A B X. A @ L @ B = X @ ring l \<and> chain sha (X @ ring l)")
      case True
      then obtain A B X where H: "A @ L @ B = X @ ring l" "chain sha (X @ ring l)" by blast
      have "chain sha (X @ ring l @ [?new])" by (rule chain_push [OF assms(1) H(2)]) (use q in simp)
      moreover have "X @ ring l @ [?new] = (X @ take ?k (ring l)) @ drop ?k (ring l) @ [?new]" by simp
      moreover have "A @ L @ B @ [?new] = X @ ring l @ [?new]" using H(1) by (metis append_assoc)
      ultimately show ?thesis unfolding agrees_def ring' by (intro disjI1 exI [of _ A] exI [of _ "B @ [?new]"] exI [of _ "X @ take ?k (ring l)"]) simp
    next
      case gap: False
      then have beyond: "Suc (au_seq (last L)) < au_seq q" if "q \<in> set (ring l)" for q
        using assms(2) that unfolding agrees_def by blast
      have "last (ring l) \<in> set (ring l)" using q by (intro last_in_set) simp
      then have "Suc (au_seq (last L)) < au_seq ?new"
        using beyond [of "last (ring l)"] assms(1) q by (simp add: ring_wf_def last_map)
      then have "\<forall>q \<in> set (ring (record_push sha now m l)). Suc (au_seq (last L)) < au_seq q"
        unfolding ring' using beyond in_set_dropD by fastforce
      then show ?thesis unfolding agrees_def using False by blast
    qed
  qed
qed

lemma log_inv_push: "log_inv sha L l \<Longrightarrow> log_inv sha L (record_push sha now m l)"
  using push_ring [of sha l now m] agrees_push [of sha l L now m]
  by (auto simp: log_inv_def reconciled_def list_all_iff dest: in_set_dropD)

section \<open>Restore and recovery\<close>

lemma tail_last: "list_audit_tail S (Suc 0) st = (if list_audit S st = [] then [] else [last (list_audit S st)])"
  by (cases "list_audit S st" rule: rev_cases) (auto simp: list_audit_tail_def Let_def)

lemma tail_drop: "list_audit_tail S n st = drop (length (list_audit S st) - n) (list_audit S st)"
  by (simp add: list_audit_tail_def Let_def)

lemma restore_chain:
  assumes "chain sha rs" and "rs \<noteq> []" and "length rs \<le> MAX_AUDIT_ENTRIES"
  shows "restore_log sha (Some rs) l = (l\<lparr>al_unreconciled := False, al_seq := max (al_seq l) (Suc (au_seq (last rs))),
      al_durable_high := max (al_durable_high l) (au_seq (last rs)), al_entries := map from_record rs\<rparr>, Inr (length rs))"
proof -
  have "max_seq (map ae_seq (map from_record rs)) = au_seq (last rs)" using max_seq_chain [OF assms(1,2)] by (simp add: comp_def)
  moreover have "check_chain sha None (map from_record rs) = None" using check_chain_ok [OF assms(1), of None] by simp
  ultimately show ?thesis using assms(2,3) by (cases rs) (simp_all add: restore_log_def Let_def)
qed

lemma records_entries [simp]: "to_record \<circ> from_record = (\<lambda>x. x)"
  by (rule ext) simp

lemma log_inv_boot:
  assumes "chain sha (list_audit S (ar_store r))"
  shows "log_inv sha (list_audit S (ar_store r)) (ar_log (fst (restore_from_store S sha e (r\<lparr>ar_log := set_sink audit_new\<rparr>))))"
proof -
  let ?L = "list_audit S (ar_store r)" and ?new = "set_sink audit_new"
  let ?rs = "list_audit_tail S MAX_AUDIT_ENTRIES (ar_store r)"
  have rs: "?rs = drop (length ?L - MAX_AUDIT_ENTRIES) ?L" by (rule tail_drop)
  have chain: "chain sha ?rs" unfolding rs by (rule chain_drop [OF assms])
  show ?thesis
  proof (cases "e (ar_calls r) = Answered \<and> ?L \<noteq> []")
    case True
    then have "length ?L - MAX_AUDIT_ENTRIES < length ?L" by (simp add: MAX_AUDIT_ENTRIES_def)
    then have nonempty: "?rs \<noteq> []" "last ?rs = last ?L" unfolding rs by simp_all
    have len: "length ?rs \<le> MAX_AUDIT_ENTRIES" by (simp add: rs)
    have "1 \<le> au_seq (last ?L)" using assms True by (simp add: chain_def list_all_iff sealed_by_def)
    moreover have "agrees sha ?L ?rs"
      unfolding agrees_def
      by (intro disjI1 exI [of _ "[]"] exI [of _ "take (length ?L - MAX_AUDIT_ENTRIES) ?L"]) (simp add: rs assms)
    ultimately show ?thesis
      using True assms chain nonempty len restore_chain [OF chain nonempty(1) len]
      by (simp add: restore_from_store_def tail_call_def log_inv_def reconciled_def ring_wf_def set_sink_def audit_new_def last_map)
  next
    case False
    then consider "e (ar_calls r) \<noteq> Answered" | "e (ar_calls r) = Answered" "?L = []" by blast
    then show ?thesis
      using assms
      by cases (simp_all add: restore_from_store_def restore_log_def tail_call_def log_inv_def reconciled_def ring_wf_def
          set_sink_def audit_new_def agrees_empty list_audit_tail_def)
  qed
qed

lemma chain_takes_floor:
  assumes "chain sha L" and "list_all ae_recorded_here (al_entries l)" and "al_entries l \<noteq> []" and "ring_wf sha l"
    and "al_durable_high l = 0"
  shows "log_inv sha L (fst (adopt_floor sha (if L = [] then [] else [last L]) n l))"
proof -
  let ?q = "al_entries l"
  let ?floor = "if L = [] then 0 else au_seq (last L)"
  let ?anchor = "if L = [] then [] else au_hash (last L)"
  let ?n = "max (Suc ?floor) (ae_seq (hd ?q))"
  let ?prev = "if ?n = Suc ?floor then ?anchor else ae_prev_hash (hd ?q)"
  let ?q' = "renumber sha ?n ?prev ?q"
  let ?l = "fst (adopt_floor sha (if L = [] then [] else [last L]) n l)"
  obtain x xs where q: "?q = x # xs" using assms(3) by (cases ?q) simp_all
  then have "ae_recorded_here x" using assms(2) by simp
  then have rebase: "rebase_nondurable_suffix sha ?floor ?anchor (l\<lparr>al_durable_high := ?floor\<rparr>)
      = (l\<lparr>al_durable_high := ?floor, al_entries := ?q', al_seq := max (al_seq l) (?n + length ?q)\<rparr>, Some (?n + length ?q - 1))"
    by (simp add: rebase_nondurable_suffix_def Let_def q del: renumber.simps)
  have entries: "al_entries ?l = ?q'" "al_durable_high ?l = ?floor" "\<not> al_unreconciled ?l"
    and seq: "al_seq ?l = max (max (al_seq l) (?n + length ?q)) (Suc ?floor)"
    using rebase assms(5) by (cases "L = []"; simp add: adopt_floor_def Let_def)+
  have chain': "chain sha (map to_record ?q')" by (rule renumber_chain) simp
  have last_q: "ae_seq (last ?q) = ae_seq (hd ?q) + (length ?q - 1)"
    using chain_last [of sha "ring l"] assms(3,4) by (simp add: ring_wf_def last_map hd_map)
  have len: "1 \<le> length ?q" using assms(3) by (cases ?q) simp_all
  have "al_seq ?l = Suc (ae_seq (last ?q'))"
    unfolding seq renumber_last [OF assms(3)] using assms(3,4) last_q len by (simp add: ring_wf_def)
  then have wf: "ring_wf sha ?l"
    using chain' assms(4) by (simp add: ring_wf_def entries)
  have first: "au_seq (hd (map to_record ?q')) = ?n" "au_prev_hash (hd (map to_record ?q')) = ?prev"
    using renumber_hd [OF assms(3)] assms(3) by (simp_all add: hd_map)
  have "agrees sha L (map to_record ?q')"
  proof (cases "L = []")
    case True
    then show ?thesis using agrees_empty [OF chain'] by simp
  next
    case False
    show ?thesis
    proof (cases "?n = Suc ?floor")
      case True
      then have "link (last L) (hd (map to_record ?q'))" using False first by (simp add: link_def)
      then have "chain sha (L @ map to_record ?q')" using assms(1) chain' by (simp add: chain_append)
      then show ?thesis unfolding agrees_def by (intro disjI1 exI [of _ "[]"] exI [of _ "map to_record ?q'"] exI [of _ L]) simp
    next
      case gap: False
      have "Suc (au_seq (last L)) < au_seq x" if "x \<in> set (map to_record ?q')" for x
      proof -
        have "sorted_wrt (\<lambda>x y. au_seq x < au_seq y) (map to_record ?q')" by (rule chain_increasing [OF chain'])
        then have "?n \<le> au_seq x" using first(1) that by (cases "map to_record ?q'") auto
        then show ?thesis using gap False by (simp add: max_def split: if_splits)
      qed
      then show ?thesis unfolding agrees_def using False by blast
    qed
  qed
  moreover have "L \<noteq> [] \<longrightarrow> al_durable_high ?l \<le> au_seq (last L) \<and> au_seq (last L) \<le> Suc (al_durable_high ?l)"
    unfolding entries(2) by simp
  ultimately have "reconciled sha L ?l" unfolding reconciled_def entries(1) using assms(3) by simp
  then show ?thesis unfolding log_inv_def using wf assms(1) entries(3) by simp
qed

section \<open>What the log needs of a store\<close>

text \<open>
  A record beyond all others is stored at the end or, without durable support or on an error, not at
  all; offering a stored record again changes nothing. What a store does with a different record at
  an occupied position is left open: the log never offers one.
\<close>

locale audit_store =
  fixes S :: "'s AuditStore"
  assumes append_fresh: "(\<And>x. x \<in> set (list_audit S st) \<Longrightarrow> au_seq x < au_seq y) \<Longrightarrow> append_audit S y st = (st', accepted)
      \<Longrightarrow> list_audit S st' = list_audit S st @ [y]
        \<or> list_audit S st' = list_audit S st \<and> (accepted \<longrightarrow> list_audit S st = [])"
    and append_again: "sorted_wrt (\<lambda>x y. au_seq x < au_seq y) (list_audit S st) \<Longrightarrow> y \<in> set (list_audit S st)
      \<Longrightarrow> append_audit S y st = (st', accepted) \<Longrightarrow> list_audit S st' = list_audit S st"
begin

lemma append_keeps:
  assumes inv: "log_inv sha (list_audit S st) l" "\<not> al_unreconciled l"
    and y: "y \<in> set (ring l)" "au_seq y = Suc (al_durable_high l)"
    and append: "append_audit S y st = (st', accepted)"
  shows "chain sha (list_audit S st') \<and> agrees sha (list_audit S st') (ring l)
    \<and> (list_audit S st' = list_audit S st \<or> list_audit S st' = list_audit S st @ [y])
    \<and> (list_audit S st' \<noteq> [] \<longrightarrow> (au_seq (last (list_audit S st')) = Suc (al_durable_high l)
          \<or> \<not> accepted \<and> au_seq (last (list_audit S st')) = al_durable_high l))"
proof -
  let ?L = "list_audit S st" and ?Q = "ring l"
  have chain: "chain sha ?L" "chain sha ?Q" and agrees: "agrees sha ?L ?Q"
    and high: "?L \<noteq> [] \<Longrightarrow> au_seq (last ?L) = al_durable_high l \<or> au_seq (last ?L) = Suc (al_durable_high l)"
    using inv by (auto simp: log_inv_def ring_wf_def reconciled_def le_Suc_eq)
  show ?thesis
  proof (cases "?L = []")
    case True
    obtain A B where split: "?Q = A @ y # B" using split_list [OF y(1)] by blast
    have "agrees sha [y] ?Q"
      unfolding agrees_def by (intro disjI1 exI [of _ A] exI [of _ B] exI [of _ "[]"]) (use split chain(2) in simp)
    moreover have "sealed_by sha y" by (rule chain_sealed [OF chain(2) y(1)])
    ultimately show ?thesis
      using append_fresh [OF _ append] y(2) True chain(2) agrees_empty by auto
  next
    case False
    have "\<not> (\<forall>q \<in> set ?Q. Suc (au_seq (last ?L)) < au_seq q)"
    proof
      assume "\<forall>q \<in> set ?Q. Suc (au_seq (last ?L)) < au_seq q"
      then have "Suc (au_seq (last ?L)) < au_seq y" using y(1) by blast
      then show False using y(2) high [OF False] by auto
    qed
    then obtain A B X where H: "A @ ?L @ B = X @ ?Q" "chain sha (X @ ?Q)" using agrees unfolding agrees_def by blast
    then have whole: "chain sha (A @ ?L @ B)" by simp
    have "y \<in> set (X @ ?Q)" using y(1) by simp
    then have member: "y \<in> set (A @ ?L @ B)" by (simp only: H(1))
    show ?thesis
    proof (cases "au_seq (last ?L) = al_durable_high l")
      case True
      have below: "au_seq x \<le> al_durable_high l" if "x \<in> set ?L" for x using chain_max [OF chain(1) that] True by simp
      have notA: "y \<notin> set A" using chain_less [of sha A "?L @ B" y "last ?L"] whole False y(2) True by auto
      have "y \<notin> set ?L" using below [of y] y(2) by auto
      then have inB: "y \<in> set B" using member notA by simp
      then have B: "B \<noteq> []" by auto
      then have "link (last ?L) (hd B)" using whole False by (simp add: chain_append)
      then have "au_seq (hd B) = au_seq y" using y(2) True by (simp add: link_def)
      moreover have "chain sha B" using whole by (simp add: chain_append)
      ultimately have first: "hd B = y" using chain_unique [of sha B "hd B" y] inB B by simp
      then obtain B' where B': "B = y # B'" using B by (cases B) auto
      have fresh: "list_audit S st' = ?L @ [y] \<or> list_audit S st' = ?L \<and> \<not> accepted"
        using append_fresh [OF _ append] below y(2) False by (auto simp: less_Suc_eq_le)
      have "A @ (?L @ [y]) @ B' = X @ ?Q" using H(1) by (simp add: B')
      then have "agrees sha (?L @ [y]) ?Q" unfolding agrees_def using H(2) by blast
      moreover have "chain sha ((?L @ [y]) @ B')" using whole by (simp add: B' chain_append)
      then have "chain sha (?L @ [y])" by (simp only: chain_append)
      ultimately show ?thesis using fresh agrees chain(1) y(2) True by auto
    next
      case False': False
      then have seq: "au_seq (last ?L) = au_seq y" using high [OF False] y(2) by simp
      have "last ?L \<in> set (A @ ?L @ B)" using False by simp
      then have "last ?L = y" using chain_unique [OF whole _ member seq] by blast
      then have "y \<in> set ?L" using last_in_set [OF False] by simp
      then have "list_audit S st' = ?L" using append_again [OF chain_increasing [OF chain(1)] _ append] by simp
      then show ?thesis using chain(1) agrees seq y(2) by simp
    qed
  qed
qed

lemma backfill_one_keeps:
  assumes inv: "log_inv sha (list_audit S (ar_store r)) (ar_log r)" "\<not> al_unreconciled (ar_log r)"
    and run: "backfill_one S e (Suc (al_durable_high (ar_log r))) r = (r1, again)"
  shows "log_inv sha (list_audit S (ar_store r1)) (ar_log r1) \<and> \<not> al_unreconciled (ar_log r1)
    \<and> prefix (list_audit S (ar_store r)) (list_audit S (ar_store r1))
    \<and> (again \<longrightarrow> al_durable_high (ar_log r1) = Suc (al_durable_high (ar_log r)))"
proof (cases "find (\<lambda>x. ae_seq x = Suc (al_durable_high (ar_log r))) (al_entries (ar_log r))")
  case None
  then show ?thesis
    using run inv by (auto simp: backfill_one_def on_log_def log_inv_def ring_wf_def reconciled_def)
next
  case (Some x)
  let ?l = "ar_log r" and ?y = "to_record x"
  have x: "x \<in> set (al_entries ?l)" "ae_seq x = Suc (al_durable_high ?l)"
    using Some by (auto simp: find_Some_iff)
  obtain st accepted where append: "append_audit S ?y (ar_store r) = (st, accepted)" by (cases "append_audit S ?y (ar_store r)")
  have y: "?y \<in> set (ring ?l)" "au_seq ?y = Suc (al_durable_high ?l)" using x by simp_all
  note kept = append_keeps [OF inv y append]
  have q: "al_entries ?l \<noteq> []" using x(1) by auto
  consider "e (ar_calls r) = Answered" | "e (ar_calls r) = Refused" | "e (ar_calls r) = AckLost" by (cases "e (ar_calls r)") auto
  then show ?thesis
  proof cases
    case 1
    then show ?thesis
      using run Some append kept q inv
      by (cases accepted) (auto simp: backfill_one_def append_call_def on_log_def log_inv_def ring_wf_def reconciled_def Let_def)
  next
    case 2
    then show ?thesis
      using run Some append inv by (auto simp: backfill_one_def append_call_def Let_def)
  next
    case 3
    then show ?thesis
      using run Some append kept q inv
      by (auto simp: backfill_one_def append_call_def log_inv_def ring_wf_def reconciled_def Let_def)
  qed
qed

end

lemma check_writer_keeps:
  "check_writer S e r = (r1, again) \<Longrightarrow> ar_store r1 = ar_store r
    \<and> (ar_log r1 = ar_log r \<or> ar_log r1 = (ar_log r)\<lparr>al_sink := False\<rparr>)"
  by (auto simp: check_writer_def tail_call_def on_log_def split: if_splits option.splits)

lemma log_inv_sink [simp]: "log_inv sha L (l\<lparr>al_sink := b\<rparr>) = log_inv sha L l"
  by (simp add: log_inv_def ring_wf_def reconciled_def)

lemma recover_floor_keeps:
  assumes inv: "log_inv sha (list_audit S (ar_store r)) (ar_log r)" and "al_entries (ar_log r) \<noteq> []"
    and run: "recover_floor S sha e n r = (r1, t)"
  shows "ar_store r1 = ar_store r \<and> log_inv sha (list_audit S (ar_store r)) (ar_log r1)
    \<and> (t \<noteq> None \<longrightarrow> \<not> al_unreconciled (ar_log r1))"
proof (cases "al_unreconciled (ar_log r) \<and> e (ar_calls r) = Answered")
  case True
  define tail where "tail = list_audit_tail S (Suc 0) (ar_store r)"
  have "log_inv sha (list_audit S (ar_store r)) (fst (adopt_floor sha tail n (ar_log r)))"
    unfolding tail_def tail_last using True inv assms(2) by (intro chain_takes_floor) (simp_all add: log_inv_def)
  moreover have "\<not> al_unreconciled (fst (adopt_floor sha tail n (ar_log r)))"
    by (simp add: adopt_floor_def Let_def split: prod.split)
  moreover have "r1 = r\<lparr>ar_calls := Suc (ar_calls r), ar_log := fst (adopt_floor sha tail n (ar_log r))\<rparr>"
    using run True by (auto simp: recover_floor_def tail_call_def tail_def split: prod.splits)
  ultimately show ?thesis by simp
next
  case False
  then show ?thesis using run inv by (auto simp: recover_floor_def tail_call_def split: if_splits)
qed

lemma write_through_start_keeps:
  assumes inv: "log_inv sha (list_audit S (ar_store r)) (ar_log r)" and "al_entries (ar_log r) \<noteq> []"
    and run: "write_through_start S sha e n r = (r1, ns)"
  shows "ar_store r1 = ar_store r \<and> log_inv sha (list_audit S (ar_store r)) (ar_log r1)
    \<and> (ns \<noteq> [] \<longrightarrow> \<not> al_unreconciled (ar_log r1) \<and> (\<exists>m. ns = [Suc (al_durable_high (ar_log r1)) ..< m]))"
proof -
  obtain r2 t where rec: "recover_floor S sha e n r = (r2, t)" by (cases "recover_floor S sha e n r")
  note kept = recover_floor_keeps [OF inv assms(2) rec]
  show ?thesis
  proof (cases t)
    case None
    then show ?thesis using run rec kept by (simp add: write_through_start_def)
  next
    case (Some m)
    obtain r3 again where check: "check_writer S e r2 = (r3, again)" by (cases "check_writer S e r2")
    note same = check_writer_keeps [OF check]
    have "r1 = r3" "ns \<noteq> [] \<Longrightarrow> ns = [Suc (al_durable_high (ar_log r3)) ..< Suc m]"
      using run rec check Some by (auto simp: write_through_start_def split: bool.splits simp del: upt_Suc)
    then show ?thesis using kept same Some by (auto simp del: upt_Suc)
  qed
qed

context audit_store
begin

lemma apply_keeps:
  assumes "audit_inv S sha s"
  shows "audit_inv S sha (audit_apply S sha ev s) \<and> prefix (durable S s) (durable S (audit_apply S sha ev s))"
proof -
  obtain r pc where s: "s = (r, pc)" by (cases s)
  obtain e now a where ev: "ev = (e, now, a)" by (cases ev) auto
  have inv: "log_inv sha (list_audit S (ar_store r)) (ar_log r)" using assms by (simp add: audit_inv_def s)
  show ?thesis
  proof (cases a)
    case (Push m)
    then show ?thesis
      using assms log_inv_push [OF inv] by (simp add: audit_inv_def s ev on_log_def)
  next
    case (Start n)
    then show ?thesis
      using assms write_through_start_keeps [OF inv]
      by (cases "write_through_start S sha e n r") (auto simp: audit_inv_def s ev)
  next
    case Iterate
    show ?thesis
    proof (cases pc)
      case Nil
      then show ?thesis using assms Iterate by (simp add: s ev)
    next
      case (Cons n ns)
      then obtain m where unsealed: "\<not> al_unreconciled (ar_log r)" and pc: "n # ns = [Suc (al_durable_high (ar_log r)) ..< m]"
        using assms by (auto simp: audit_inv_def s)
      have n: "n = Suc (al_durable_high (ar_log r))" "ns = [Suc (Suc (al_durable_high (ar_log r))) ..< m]"
        using pc [symmetric] by (auto simp: upt_eq_Cons_conv)
      obtain r1 again where one: "backfill_one S e n r = (r1, again)" by (cases "backfill_one S e n r")
      show ?thesis
        using backfill_one_keeps [OF inv unsealed one [unfolded n(1)]] one n
        by (auto simp: audit_inv_def s ev Iterate Cons simp del: upt_Suc)
    qed
  next
    case Boot
    have "ar_store (fst (restore_from_store S sha e (r\<lparr>ar_log := set_sink audit_new\<rparr>))) = ar_store r"
      by (simp add: restore_from_store_def tail_call_def split: prod.split)
    then show ?thesis
      using log_inv_boot [of sha S r e] inv by (simp add: audit_inv_def s ev Boot log_inv_def)
  qed
qed

lemma init_keeps: "audit_init S sha s \<Longrightarrow> audit_inv S sha s"
proof -
  assume "audit_init S sha s"
  then obtain r :: "'s AuditRun" and pc e now where chain: "chain sha (list_audit S (ar_store r))"
    and s: "s = audit_apply S sha (e, now, Boot) (r, pc)"
    by (auto simp: audit_init_def)
  have "ar_store (fst (restore_from_store S sha e (r\<lparr>ar_log := set_sink audit_new\<rparr>))) = ar_store r"
    by (simp add: restore_from_store_def tail_call_def split: prod.split)
  then show ?thesis using log_inv_boot [OF chain, of e] by (simp add: s audit_inv_def)
qed

end

sublocale audit_store \<subseteq> runs: invariant_system "audit_init S sha" "audit_step S sha" "audit_inv S sha" for sha
  by unfold_locales (auto simp: audit_step_iff apply_keeps init_keeps)

context audit_store
begin

lemma trace_prefix: "trace (audit_step S sha) s es t \<Longrightarrow> audit_inv S sha s \<Longrightarrow> prefix (durable S s) (durable S t)"
proof (induction rule: trace.induct)
  case (trace_snoc s es t e u)
  then have "audit_inv S sha t" using runs.trace_inv by blast
  then have "prefix (durable S t) (durable S u)" using trace_snoc.hyps(2) apply_keeps by (simp add: audit_step_iff)
  then show ?case using trace_snoc by (blast intro: prefix_order.trans)
qed simp

end

end
