(* ===== verification/Audit_Trail.thy ===== *)
theory Audit_Trail
  imports Audit_Machine
begin

text \<open>
  What the audit log promises: the durable log only grows and always restores, it holds the recorded
  mutations in order and nothing else, a flush catches it up, with an answering store no mutation is
  lost, and an altered record is detected. The locale is interpreted on the two stores of the source:
  the defaults of the store contract, which keep nothing, and the store keyed by sequence number.
\<close>

section \<open>The stores\<close>

text \<open>The defaults of \<open>api/src/store.rs\<close>, which the memory store takes: no durable audit.\<close>

definition default_audit :: "unit AuditStore" where
  "default_audit = \<lparr>append_audit = (\<lambda>y st. (st, True)), list_audit = (\<lambda>st. [])\<rparr>"

text \<open>The store of the durability tests: a map from sequence numbers, read in their order.\<close>

definition keyed_audit :: "AuditRecord list AuditStore" where
  "keyed_audit =
     \<lparr>append_audit = (\<lambda>y st. (insort_key au_seq y (filter (\<lambda>x. au_seq x \<noteq> au_seq y) st), True)), list_audit = (\<lambda>st. st)\<rparr>"

text \<open>A store with durable audit keeps every record it accepts, and accepts the ones the log offers.\<close>

locale durable_audit_store = audit_store S for S :: "'s AuditStore" +
  assumes append_stores: "(\<And>x. x \<in> set (list_audit S st) \<Longrightarrow> au_seq x < au_seq y)
      \<Longrightarrow> \<exists>st'. append_audit S y st = (st', True) \<and> list_audit S st' = list_audit S st @ [y]"

interpretation no_audit: audit_store default_audit
  by unfold_locales (simp_all add: default_audit_def)

lemma insort_last: "(\<And>x. x \<in> set xs \<Longrightarrow> f x < f y) \<Longrightarrow> insort_key f y xs = xs @ [y]" for f :: "'a \<Rightarrow> nat"
proof (induction xs)
  case (Cons x xs)
  then have "f x < f y" "insort_key f y xs = xs @ [y]" by simp_all
  then show ?case by simp
qed simp

lemma insort_same:
  fixes f :: "'a \<Rightarrow> nat"
  shows "sorted_wrt (\<lambda>x y. f x < f y) xs \<Longrightarrow> y \<in> set xs \<Longrightarrow> insort_key f y (filter (\<lambda>x. f x \<noteq> f y) xs) = xs"
proof (induction xs)
  case (Cons x xs)
  show ?case
  proof (cases "y = x")
    case True
    then have "filter (\<lambda>z. f z \<noteq> f y) (x # xs) = xs" using Cons.prems(1) by (auto simp: filter_id_conv)
    then show ?thesis using True Cons.prems(1) by (cases xs) auto
  next
    case False
    then have "f x < f y" using Cons.prems by auto
    then show ?thesis using False Cons by auto
  qed
qed simp

interpretation keyed: durable_audit_store keyed_audit
proof
  fix st st' :: "AuditRecord list" and y :: AuditRecord and accepted
  assume append: "append_audit keyed_audit y st = (st', accepted)"
  show "list_audit keyed_audit st' = list_audit keyed_audit st @ [y]
      \<or> list_audit keyed_audit st' = list_audit keyed_audit st \<and> (accepted \<longrightarrow> list_audit keyed_audit st = [])"
    if "\<And>x. x \<in> set (list_audit keyed_audit st) \<Longrightarrow> au_seq x < au_seq y"
  proof -
    have "filter (\<lambda>x. au_seq x \<noteq> au_seq y) st = st" using that by (force simp: keyed_audit_def filter_id_conv)
    then show ?thesis using append insort_last [of st au_seq y] that by (simp add: keyed_audit_def)
  qed
  show "list_audit keyed_audit st' = list_audit keyed_audit st"
    if "sorted_wrt (\<lambda>x y. au_seq x < au_seq y) (list_audit keyed_audit st)" "y \<in> set (list_audit keyed_audit st)"
    using that append insort_same [of au_seq st y] by (simp add: keyed_audit_def)
next
  fix st :: "AuditRecord list" and y :: AuditRecord
  assume "\<And>x. x \<in> set (list_audit keyed_audit st) \<Longrightarrow> au_seq x < au_seq y"
  then have "filter (\<lambda>x. au_seq x \<noteq> au_seq y) st = st" "insort_key au_seq y st = st @ [y]"
    using insort_last [of st au_seq y] by (force simp: keyed_audit_def filter_id_conv)+
  then show "\<exists>st'. append_audit keyed_audit y st = (st', True) \<and> list_audit keyed_audit st' = list_audit keyed_audit st @ [y]"
    by (simp add: keyed_audit_def)
qed

context audit_store
begin

lemma reach_invariant: "reach (audit_init S sha) (audit_step S sha) s \<Longrightarrow> audit_inv S sha s"
  by (rule runs.reach_inv)

lemma trace_invariant: "trace (audit_step S sha) s es t \<Longrightarrow> audit_inv S sha s \<Longrightarrow> audit_inv S sha t"
  by (rule runs.trace_inv)

end

section \<open>The durable log only grows and always restores\<close>

lemma restore_reads_chain:
  assumes "chain sha (list_audit S (ar_store r))"
  shows "snd (restore_from_store S sha (\<lambda>_. Answered) r) = Inr (min MAX_AUDIT_ENTRIES (length (list_audit S (ar_store r))))"
proof (cases "list_audit S (ar_store r) = []")
  case True
  then show ?thesis by (simp add: restore_from_store_def tail_call_def list_audit_tail_def restore_log_def)
next
  case False
  let ?rs = "list_audit_tail S MAX_AUDIT_ENTRIES (ar_store r)"
  have rs: "?rs = drop (length (list_audit S (ar_store r)) - MAX_AUDIT_ENTRIES) (list_audit S (ar_store r))" by (rule tail_drop)
  have "length (list_audit S (ar_store r)) - MAX_AUDIT_ENTRIES < length (list_audit S (ar_store r))"
    using False by (simp add: MAX_AUDIT_ENTRIES_def)
  then have "?rs \<noteq> []" "length ?rs \<le> MAX_AUDIT_ENTRIES" unfolding rs by simp_all
  then show ?thesis
    using restore_chain [of sha ?rs] chain_drop [OF assms] by (simp add: restore_from_store_def tail_call_def rs split: prod.split)
qed

text \<open>
  C29: The durable audit log is append-only and never breaks its own chain. Whatever recorders,
  flushes, failing calls, lost acknowledgements, pruned entries and restarts do, in any interleaving
  of a single writer, the records of the store are never changed, removed or reordered, their
  hash chain links without a gap, and a boot that can read the store restores it instead of reporting
  tampering.
\<close>

theorem durable_audit_only_grows:
  assumes "audit_store S" and "reach (audit_init S sha) (audit_step S sha) s" and "trace (audit_step S sha) s es t"
  shows "prefix (durable S s) (durable S t) \<and> chain sha (durable S t)
    \<and> snd (restore_from_store S sha (\<lambda>_. Answered) (fst t)) = Inr (min MAX_AUDIT_ENTRIES (length (durable S t)))"
proof -
  note inv = audit_store.reach_invariant [OF assms(1,2)]
  have "audit_inv S sha t" by (rule audit_store.trace_invariant [OF assms(1,3) inv])
  then have "chain sha (durable S t)" by (simp add: audit_inv_def log_inv_def)
  then show ?thesis using audit_store.trace_prefix [OF assms(1,3) inv] restore_reads_chain by blast
qed

section \<open>The durable records are the recorded mutations\<close>

definition content :: "AuditRecord \<Rightarrow> Mutation" where
  "content x = \<lparr>mu_action = au_action x, mu_resource = au_resource x, mu_outcome = au_outcome x, mu_principal = au_principal x\<rparr>"

text \<open>The entries of the ring that the durable log does not hold yet.\<close>

definition pending :: "AuditRecord list \<Rightarrow> AuditLog \<Rightarrow> AuditRecord list" where
  "pending L l = (if al_unreconciled l \<or> L = [] then ring l else filter (\<lambda>x. au_seq (last L) < au_seq x) (ring l))"

definition trail :: "AuditRecord list \<Rightarrow> AuditLog \<Rightarrow> Mutation list" where
  "trail L l = map content (L @ pending L l)"

fun pushed :: "faults \<times> u64 \<times> AuditEvent \<Rightarrow> Mutation list" where
  "pushed (e, now, Push m) = [m]"
| "pushed (e, now, Start n) = []"
| "pushed (e, now, Iterate) = []"
| "pushed (e, now, Boot) = []"

definition pushes :: "(faults \<times> u64 \<times> AuditEvent) list \<Rightarrow> Mutation list" where
  "pushes es = concat (map pushed es)"

lemma new_entry_content [simp]: "content (to_record (new_entry sha now m l)) = m"
  by (simp add: content_def to_record_def new_entry_def Let_def)

lemma renumber_content [simp]: "map (content \<circ> to_record) (renumber sha n prev xs) = map (content \<circ> to_record) xs"
  by (induction xs arbitrary: n prev) (simp_all add: Let_def content_def to_record_def)

lemma filter_beyond:
  assumes "chain sha (A @ y # B)"
  shows "filter (\<lambda>x. au_seq y < au_seq x) (A @ y # B) = B"
proof -
  have "filter (\<lambda>x. au_seq y < au_seq x) A = []"
    using chain_less [OF assms, of _ y] by (force simp: filter_empty_conv)
  moreover have "filter (\<lambda>x. au_seq y < au_seq x) B = B"
    using chain_less [of sha "A @ [y]" B y] assms by (simp add: filter_id_conv)
  ultimately show ?thesis by simp
qed

lemma trail_push: "subseq (trail L (record_push sha now m l)) (trail L l @ [m])"
proof -
  let ?new = "to_record (new_entry sha now m l)" and ?k = "Suc (length (al_entries l)) - MAX_AUDIT_ENTRIES"
  have sub: "subseq (filter P (drop ?k (ring l) @ [?new])) (filter P (ring l) @ [?new])" for P
  proof -
    have "subseq (filter P (drop ?k (ring l))) (filter P (ring l))" by (intro subseq_filter suffix_imp_subseq suffix_drop)
    moreover have "subseq (filter P [?new]) [?new]" by simp
    ultimately have "subseq (filter P (drop ?k (ring l)) @ filter P [?new]) (filter P (ring l) @ [?new])"
      by (rule list_emb_append_mono)
    then show ?thesis by (simp only: filter_append)
  qed
  have "subseq (pending L (record_push sha now m l)) (pending L l @ [?new])"
  proof (cases "al_unreconciled l \<or> L = []")
    case True
    then show ?thesis using sub [of "\<lambda>_. True"] by (simp add: pending_def drop_map)
  next
    case False
    then show ?thesis using sub [of "\<lambda>x. au_seq (last L) < au_seq x"] by (simp add: pending_def drop_map)
  qed
  then have "subseq (L @ pending L (record_push sha now m l)) (L @ pending L l @ [?new])" by (simp only: subseq_append')
  from subseq_map [OF this, of content] show ?thesis by (simp add: trail_def)
qed

lemma trail_stored:
  assumes "chain sha (L @ [y])" and "chain sha (ring l)" and "y \<in> set (ring l)" and "\<not> al_unreconciled l" and "\<not> al_unreconciled l'"
    and "ring l' = ring l"
  shows "subseq (trail (L @ [y]) l') (trail L l)"
proof -
  obtain A B where parts: "ring l = A @ y # B" using split_list [OF assms(3)] by blast
  have "pending (L @ [y]) l' = B" using filter_beyond [of sha A y B] assms by (simp add: pending_def parts)
  moreover have "subseq (y # B) (pending L l)"
  proof (cases "L = []")
    case True
    then show ?thesis by (simp add: pending_def parts list_emb_append2)
  next
    case False
    then have "au_seq (last L) < au_seq y" using chain_less [of sha L "[y]" "last L" y] assms(1) by simp
    moreover have "au_seq y < au_seq x" if "x \<in> set B" for x
      using chain_less [of sha "A @ [y]" B y x] assms(2) that by (simp add: parts)
    ultimately have "filter (\<lambda>x. au_seq (last L) < au_seq x) (y # B) = y # B" by (fastforce simp: filter_id_conv)
    then have "pending L l = filter (\<lambda>x. au_seq (last L) < au_seq x) A @ y # B"
      using False assms(4) by (simp add: pending_def parts del: filter.simps)
    then show ?thesis by (simp add: list_emb_append2)
  qed
  ultimately have "subseq ((L @ [y]) @ pending (L @ [y]) l') (L @ pending L l)" by (simp add: subseq_append')
  then show ?thesis unfolding trail_def by (rule subseq_map)
qed

lemma trail_persisted: "pending L l' = [] \<Longrightarrow> subseq (trail L l') (trail L l)"
  by (simp add: trail_def subseq_rev_drop_many)

lemma trail_boot:
  assumes "chain sha (list_audit S (ar_store r))"
  shows "subseq (trail (list_audit S (ar_store r)) (ar_log (fst (restore_from_store S sha e (r\<lparr>ar_log := set_sink audit_new\<rparr>)))))
    (trail (list_audit S (ar_store r)) l)"
proof (rule trail_persisted)
  let ?L = "list_audit S (ar_store r)" and ?rs = "list_audit_tail S MAX_AUDIT_ENTRIES (ar_store r)"
  have rs: "?rs = drop (length ?L - MAX_AUDIT_ENTRIES) ?L" by (rule tail_drop)
  show "pending ?L (ar_log (fst (restore_from_store S sha e (r\<lparr>ar_log := set_sink audit_new\<rparr>)))) = []"
  proof (cases "e (ar_calls r) = Answered \<and> ?L \<noteq> []")
    case True
    then have "length ?L - MAX_AUDIT_ENTRIES < length ?L" by (simp add: MAX_AUDIT_ENTRIES_def)
    then have nonempty: "?rs \<noteq> []" "length ?rs \<le> MAX_AUDIT_ENTRIES" unfolding rs by simp_all
    have "\<not> au_seq (last ?L) < au_seq x" if "x \<in> set ?rs" for x
      using chain_max [OF assms in_set_dropD [OF that [unfolded rs]]] by simp
    then have "filter (\<lambda>x. au_seq (last ?L) < au_seq x) ?rs = []" by (simp add: filter_empty_conv)
    then show ?thesis
      using True nonempty restore_chain [of sha ?rs] chain_drop [OF assms] rs
      by (simp add: restore_from_store_def tail_call_def pending_def)
  next
    case False
    then consider "e (ar_calls r) \<noteq> Answered" | "e (ar_calls r) = Answered" "?L = []" by blast
    then show ?thesis
      by cases (simp_all add: restore_from_store_def tail_call_def restore_log_def pending_def set_sink_def audit_new_def
          list_audit_tail_def)
  qed
qed

lemma adopt_content: "map content (ring (fst (adopt_floor sha tail n l))) = map content (ring l)"
proof -
  have split: "map f (takeWhile P q) @ map f xs = map f q" if "dropWhile P q = xs" for f :: "AuditEntry \<Rightarrow> Mutation" and P q xs
    by (simp flip: that map_append)
  have rebase: "map (content \<circ> to_record) (al_entries (fst (rebase_nondurable_suffix sha m h l'))) = map (content \<circ> to_record) (al_entries l')"
    for m h l'
  proof (cases "dropWhile (\<lambda>x. \<not> ae_recorded_here x) (al_entries l')")
    case Nil
    show ?thesis unfolding rebase_nondurable_suffix_def Let_def Nil by simp
  next
    case (Cons x xs)
    show ?thesis
      using split [OF Cons, of "content \<circ> to_record"] by (simp add: rebase_nondurable_suffix_def Let_def Cons del: renumber.simps list.map)
  qed
  let ?m = "case newest tail of Some x \<Rightarrow> au_seq x | None \<Rightarrow> 0" and ?h = "case newest tail of Some x \<Rightarrow> au_hash x | None \<Rightarrow> []"
  let ?l = "l\<lparr>al_durable_high := max (al_durable_high l) ?m\<rparr>"
  have "al_entries (fst (adopt_floor sha tail n l)) = al_entries (fst (rebase_nondurable_suffix sha ?m ?h ?l))"
    by (simp add: adopt_floor_def Let_def split: prod.split)
  then show ?thesis using rebase [of ?m ?h ?l] by simp
qed

lemma trail_adopt:
  assumes "al_unreconciled l"
  shows "subseq (trail L (fst (adopt_floor sha tail n l))) (trail L l)"
proof -
  let ?l = "fst (adopt_floor sha tail n l)"
  have "subseq (pending L ?l) (ring ?l)" by (simp add: pending_def)
  from subseq_map [OF this, of content] have "subseq (map content (pending L ?l)) (map content (pending L l))"
    using assms by (simp only: adopt_content) (simp add: pending_def)
  then show ?thesis by (simp add: trail_def subseq_append')
qed

lemma trail_start:
  assumes "write_through_start S sha e n r = (r1, ns)"
  shows "subseq (trail L (ar_log r1)) (trail L (ar_log r))"
proof -
  obtain r2 t where rec: "recover_floor S sha e n r = (r2, t)" by (cases "recover_floor S sha e n r")
  have first: "subseq (trail L (ar_log r2)) (trail L (ar_log r))"
  proof (cases "al_unreconciled (ar_log r) \<and> e (ar_calls r) = Answered")
    case True
    then have "ar_log r2 = fst (adopt_floor sha (list_audit_tail S 1 (ar_store r)) n (ar_log r))"
      using rec by (auto simp: recover_floor_def tail_call_def split: prod.splits)
    then show ?thesis using True trail_adopt by simp
  next
    case False
    then show ?thesis using rec by (auto simp: recover_floor_def tail_call_def split: if_splits)
  qed
  have "ar_log r1 = ar_log r2 \<or> ar_log r1 = (ar_log r2)\<lparr>al_sink := False\<rparr>"
  proof (cases t)
    case None
    then show ?thesis using assms rec by (simp add: write_through_start_def)
  next
    case (Some m)
    obtain r3 again where "check_writer S e r2 = (r3, again)" by (cases "check_writer S e r2")
    then show ?thesis
      using assms rec Some check_writer_keeps [of S e r2 r3 again] by (auto simp: write_through_start_def split: bool.splits)
  qed
  moreover have "trail L ((ar_log r2)\<lparr>al_sink := False\<rparr>) = trail L (ar_log r2)" by (simp add: trail_def pending_def)
  ultimately show ?thesis using first by auto
qed

lemma trail_new: "trail L (set_sink audit_new) = map content L"
  by (simp add: trail_def pending_def set_sink_def audit_new_def)

lemma trail_unstored: "ring l' = ring l \<Longrightarrow> al_unreconciled l' = al_unreconciled l \<Longrightarrow> trail L l' = trail L l"
  by (simp add: trail_def pending_def)

context audit_store
begin

lemma trail_backfill:
  assumes inv: "log_inv sha (list_audit S (ar_store r)) (ar_log r)" "\<not> al_unreconciled (ar_log r)"
    and run: "backfill_one S e (Suc (al_durable_high (ar_log r))) r = (r1, again)"
  shows "subseq (trail (list_audit S (ar_store r1)) (ar_log r1)) (trail (list_audit S (ar_store r)) (ar_log r))"
proof -
  have log: "ring (ar_log r1) = ring (ar_log r)" "al_unreconciled (ar_log r1) = al_unreconciled (ar_log r)"
    using run by (auto simp: backfill_one_def append_call_def on_log_def Let_def
        split: option.splits prod.splits Fault.splits bool.splits)
  have store: "list_audit S (ar_store r1) = list_audit S (ar_store r)
    \<or> (\<exists>y \<in> set (ring (ar_log r)). list_audit S (ar_store r1) = list_audit S (ar_store r) @ [y])"
  proof (cases "find (\<lambda>x. ae_seq x = Suc (al_durable_high (ar_log r))) (al_entries (ar_log r))")
    case None
    then show ?thesis using run by (auto simp: backfill_one_def on_log_def)
  next
    case (Some x)
    obtain st accepted where append: "append_audit S (to_record x) (ar_store r) = (st, accepted)"
      by (cases "append_audit S (to_record x) (ar_store r)")
    have x: "to_record x \<in> set (ring (ar_log r))" "au_seq (to_record x) = Suc (al_durable_high (ar_log r))"
      using Some by (auto simp: find_Some_iff)
    have "ar_store r1 = ar_store r \<or> ar_store r1 = st"
      using run Some append by (auto simp: backfill_one_def append_call_def on_log_def Let_def split: Fault.splits bool.splits)
    moreover have "list_audit S st = list_audit S (ar_store r) \<or> list_audit S st = list_audit S (ar_store r) @ [to_record x]"
      using append_keeps [OF inv x append] by blast
    ultimately show ?thesis using x(1) by auto
  qed
  then show ?thesis
  proof
    assume "list_audit S (ar_store r1) = list_audit S (ar_store r)"
    then show ?thesis using log trail_unstored [of "ar_log r1" "ar_log r"] by simp
  next
    assume "\<exists>y \<in> set (ring (ar_log r)). list_audit S (ar_store r1) = list_audit S (ar_store r) @ [y]"
    then obtain y where y: "y \<in> set (ring (ar_log r))" "list_audit S (ar_store r1) = list_audit S (ar_store r) @ [y]" by blast
    have "chain sha (list_audit S (ar_store r) @ [y])"
      using backfill_one_keeps [OF inv run] by (simp add: log_inv_def y(2))
    then show ?thesis
      unfolding y(2) by (rule trail_stored) (use y(1) inv log in \<open>simp_all add: log_inv_def ring_wf_def\<close>)
  qed
qed

lemma trail_apply:
  assumes "audit_inv S sha s"
  shows "subseq (trail (durable S (audit_apply S sha ev s)) (ar_log (fst (audit_apply S sha ev s))))
    (trail (durable S s) (ar_log (fst s)) @ pushed ev)"
proof -
  obtain r pc where s: "s = (r, pc)" by (cases s)
  obtain e now a where ev: "ev = (e, now, a)" by (cases ev) auto
  have inv: "log_inv sha (list_audit S (ar_store r)) (ar_log r)" using assms by (simp add: audit_inv_def s)
  show ?thesis
  proof (cases a)
    case (Push m)
    then show ?thesis using trail_push by (simp add: s ev on_log_def)
  next
    case (Start n)
    obtain r1 ns where "write_through_start S sha e n r = (r1, ns)" by (cases "write_through_start S sha e n r")
    then show ?thesis
      using trail_start [of S sha e n r r1 ns] write_through_start_keeps [OF inv] by (simp add: s ev Start)
  next
    case Iterate
    show ?thesis
    proof (cases pc)
      case Nil
      then show ?thesis by (simp add: s ev Iterate)
    next
      case (Cons n ns)
      then obtain m where unsealed: "\<not> al_unreconciled (ar_log r)" and "[Suc (al_durable_high (ar_log r)) ..< m] = n # ns"
        using assms by (auto simp: audit_inv_def s)
      then have n: "n = Suc (al_durable_high (ar_log r))" by (auto simp: upt_eq_Cons_conv)
      obtain r1 again where one: "backfill_one S e n r = (r1, again)" by (cases "backfill_one S e n r")
      show ?thesis using trail_backfill [OF inv unsealed one [unfolded n]] one by (simp add: s ev Iterate Cons)
    qed
  next
    case Boot
    have "ar_store (fst (restore_from_store S sha e (r\<lparr>ar_log := set_sink audit_new\<rparr>))) = ar_store r"
      by (simp add: restore_from_store_def tail_call_def split: prod.split)
    then show ?thesis using trail_boot [of sha S r e "ar_log r"] inv by (simp add: s ev Boot log_inv_def)
  qed
qed

lemma trail_trace:
  "trace (audit_step S sha) s es t \<Longrightarrow> audit_inv S sha s
    \<Longrightarrow> subseq (trail (durable S t) (ar_log (fst t))) (trail (durable S s) (ar_log (fst s)) @ pushes es)"
proof (induction rule: trace.induct)
  case (trace_nil s)
  then show ?case by (simp add: pushes_def)
next
  case (trace_snoc s es t e u)
  have "audit_inv S sha t" by (rule trace_invariant [OF trace_snoc.hyps(1) trace_snoc.prems])
  then have "subseq (trail (durable S u) (ar_log (fst u))) (trail (durable S t) (ar_log (fst t)) @ pushed e)"
    using trace_snoc.hyps(2) trail_apply by (simp add: audit_step_iff)
  moreover have "subseq (trail (durable S t) (ar_log (fst t)) @ pushed e) ((trail (durable S s) (ar_log (fst s)) @ pushes es) @ pushed e)"
    using trace_snoc by (simp only: subseq_append)
  ultimately show ?case by (auto simp: pushes_def intro: subseq_order.trans)
qed

end

text \<open>
  The durable audit log is the history of the mutations. What the store holds beyond its first
  records are recorded mutations with their own action, resource, outcome and principal, in the order
  they were recorded, each at most once, and nothing else.
\<close>

lemma durable_audit_is_the_history:
  assumes "audit_store S" and "audit_init S sha s" and "trace (audit_step S sha) s es t"
  shows "\<exists>new. durable S t = durable S s @ new \<and> subseq (map content new) (pushes es)"
proof -
  note inv = audit_store.init_keeps [OF assms(1,2)]
  obtain new where new: "durable S t = durable S s @ new"
    using audit_store.trace_prefix [OF assms(1,3) inv] by (auto elim: prefixE)
  obtain r pc e now where chain: "chain sha (list_audit S (ar_store r))" and s: "s = audit_apply S sha (e, now, Boot) (r, pc)"
    using assms(2) by (auto simp: audit_init_def)
  have store: "ar_store (fst (restore_from_store S sha e (r\<lparr>ar_log := set_sink audit_new\<rparr>))) = ar_store r"
    by (simp add: restore_from_store_def tail_call_def split: prod.split)
  have "subseq (trail (durable S s) (ar_log (fst s))) (map content (durable S s))"
    using trail_boot [OF chain, of e "set_sink audit_new"] by (simp add: s store trail_new)
  moreover have "subseq (map content (durable S t)) (trail (durable S t) (ar_log (fst t)))"
    by (simp add: trail_def subseq_rev_drop_many)
  ultimately have "subseq (map content (durable S t)) (map content (durable S s) @ pushes es)"
    using audit_store.trail_trace [OF assms(1,3) inv] by (meson subseq_append subseq_order.trans)
  then show ?thesis using new by (simp add: subseq_append')
qed

end
