(* ===== verification/Audit_Valve.thy ===== *)
theory Audit_Valve
  imports Audit_Trail
begin

text \<open>
  The audit log over a store that answers: a flush catches the durable log up with the ring, and the
  pressure valve of the recorder writes before the ring prunes an entry the store does not hold, so
  no mutation is ever lost. The chain detects an altered record, and what it does not detect.
\<close>

section \<open>A synchronised log\<close>

definition durable_floor :: "AuditRecord list \<Rightarrow> u64" where
  "durable_floor L = (if L = [] then 0 else au_seq (last L))"

text \<open>No acknowledgement is outstanding, and the ring still holds the record after the durable ones.\<close>

definition synced :: "(string \<Rightarrow> string) \<Rightarrow> AuditRecord list \<Rightarrow> AuditLog \<Rightarrow> bool" where
  "synced sha L l \<longleftrightarrow> log_inv sha L l \<and> \<not> al_unreconciled l \<and> al_durable_high l = durable_floor L
     \<and> (al_entries l \<noteq> [] \<longrightarrow> ae_seq (hd (al_entries l)) \<le> Suc (al_durable_high l))"

lemma chain_has:
  "chain sha rs \<Longrightarrow> rs \<noteq> [] \<Longrightarrow> au_seq (hd rs) \<le> n \<Longrightarrow> n \<le> au_seq (last rs) \<Longrightarrow> \<exists>x \<in> set rs. au_seq x = n"
proof (induction rs)
  case (Cons x xs)
  show ?case
  proof (cases "n = au_seq x")
    case False
    then have "xs \<noteq> []" using Cons.prems by auto
    moreover from this have "au_seq (hd xs) = Suc (au_seq x)" using Cons.prems(1) by (simp add: chain_Cons link_def)
    ultimately have "\<exists>x \<in> set xs. au_seq x = n" using Cons False by (simp add: chain_Cons)
    then show ?thesis by simp
  qed simp
qed simp

lemma find_ring:
  assumes "chain sha (ring l)" and "x \<in> set (al_entries l)" and "ae_seq x = n"
  shows "find (\<lambda>x. ae_seq x = n) (al_entries l) \<noteq> None
    \<and> (\<forall>z. find (\<lambda>x. ae_seq x = n) (al_entries l) = Some z \<longrightarrow> to_record z = to_record x)"
proof -
  have "find (\<lambda>x. ae_seq x = n) (al_entries l) \<noteq> None" using assms(2,3) by (auto simp: find_None_iff)
  moreover have "to_record z = to_record x" if "find (\<lambda>x. ae_seq x = n) (al_entries l) = Some z" for z
  proof -
    have "z \<in> set (al_entries l)" "ae_seq z = n" using that by (auto simp: find_Some_iff)
    then show ?thesis using chain_unique [OF assms(1), of "to_record z" "to_record x"] assms(2,3) by simp
  qed
  ultimately show ?thesis by blast
qed

lemma floor_max: "chain sha L \<Longrightarrow> x \<in> set L \<Longrightarrow> au_seq x \<le> durable_floor L"
  using chain_max by (auto simp: durable_floor_def)

lemma pending_floor:
  "chain sha (ring l) \<Longrightarrow> \<not> al_unreconciled l \<Longrightarrow> pending L l = filter (\<lambda>x. durable_floor L < au_seq x) (ring l)"
  using chain_sealed [of sha "ring l"] by (force simp: pending_def durable_floor_def sealed_by_def filter_id_conv Suc_le_eq)

text \<open>A run has stored the entries up to one of them: what is durable or pending stays the same.\<close>

definition caught_up :: "'s AuditStore \<Rightarrow> (string \<Rightarrow> string) \<Rightarrow> u64 \<Rightarrow> 's AuditRun \<Rightarrow> 's AuditRun \<Rightarrow> bool" where
  "caught_up S sha n r r1 \<longleftrightarrow> ar_log r1 = (ar_log r)\<lparr>al_durable_high := n\<rparr> \<and> synced sha (list_audit S (ar_store r1)) (ar_log r1)
    \<and> list_audit S (ar_store r1) @ pending (list_audit S (ar_store r1)) (ar_log r1)
      = list_audit S (ar_store r) @ pending (list_audit S (ar_store r)) (ar_log r)"

lemma caught_up_from:
  assumes "caught_up S sha n r' r1" and "ar_log r' = (ar_log r)\<lparr>al_durable_high := d\<rparr>"
    and "list_audit S (ar_store r') @ pending (list_audit S (ar_store r')) (ar_log r')
      = list_audit S (ar_store r) @ pending (list_audit S (ar_store r)) (ar_log r)"
  shows "caught_up S sha n r r1"
  using assms by (auto simp: caught_up_def)

context durable_audit_store
begin

lemma backfill_one_stores:
  assumes sync: "synced sha (list_audit S (ar_store r)) (ar_log r)" and q: "al_entries (ar_log r) \<noteq> []"
    and more: "al_durable_high (ar_log r) < ae_seq (last (al_entries (ar_log r)))"
  shows "\<exists>st. backfill_one S (\<lambda>_. Answered) (Suc (al_durable_high (ar_log r))) r
      = (r\<lparr>ar_calls := Suc (ar_calls r), ar_store := st,
           ar_log := (ar_log r)\<lparr>al_durable_high := Suc (al_durable_high (ar_log r))\<rparr>\<rparr>, True)
    \<and> synced sha (list_audit S st) ((ar_log r)\<lparr>al_durable_high := Suc (al_durable_high (ar_log r))\<rparr>)
    \<and> list_audit S st @ pending (list_audit S st) ((ar_log r)\<lparr>al_durable_high := Suc (al_durable_high (ar_log r))\<rparr>)
      = list_audit S (ar_store r) @ pending (list_audit S (ar_store r)) (ar_log r)"
proof -
  let ?L = "list_audit S (ar_store r)" and ?l = "ar_log r"
  let ?n = "Suc (al_durable_high ?l)"
  have inv: "log_inv sha ?L ?l" "\<not> al_unreconciled ?l" and floor: "al_durable_high ?l = durable_floor ?L"
    and hd: "ae_seq (hd (al_entries ?l)) \<le> ?n" using sync q by (simp_all add: synced_def)
  have chains: "chain sha ?L" "chain sha (ring ?l)" using inv(1) by (simp_all add: log_inv_def ring_wf_def)
  have "\<exists>y \<in> set (ring ?l). au_seq y = ?n"
    by (rule chain_has [OF chains(2)]) (use q hd more in \<open>simp_all add: hd_map last_map\<close>)
  then obtain y where y: "y \<in> set (ring ?l)" "au_seq y = ?n" by blast
  then obtain x where x: "x \<in> set (al_entries ?l)" "ae_seq x = ?n" "y = to_record x" by auto
  obtain z where z: "find (\<lambda>x. ae_seq x = ?n) (al_entries ?l) = Some z" "to_record z = y"
    using find_ring [OF chains(2) x(1,2)] x(3) by auto
  have fresh: "au_seq w < au_seq y" if "w \<in> set ?L" for w using floor_max [OF chains(1) that] floor y(2) by simp
  obtain st where st: "append_audit S y (ar_store r) = (st, True)" "list_audit S st = ?L @ [y]"
    using append_stores [OF fresh] by blast
  have one: "backfill_one S (\<lambda>_. Answered) ?n r
      = (r\<lparr>ar_calls := Suc (ar_calls r), ar_store := st, ar_log := ?l\<lparr>al_durable_high := ?n\<rparr>\<rparr>, True)"
    using z st(1) by (simp add: backfill_one_def append_call_def on_log_def max_def)
  have kept: "log_inv sha (list_audit S st) (?l\<lparr>al_durable_high := ?n\<rparr>)"
    using backfill_one_keeps [OF inv one] by simp
  obtain A B where parts: "ring ?l = A @ y # B" using split_list [OF y(1)] by blast
  have "filter (\<lambda>x. durable_floor ?L < au_seq x) A = []"
    using chain_less [of sha A "y # B" _ y] chains(2) y(2) floor by (force simp: parts filter_empty_conv)
  moreover have "filter (\<lambda>x. durable_floor ?L < au_seq x) B = B"
    using chain_less [of sha "A @ [y]" B y] chains(2) y(2) floor by (force simp: parts filter_id_conv)
  ultimately have "pending ?L ?l = y # B"
    using pending_floor [OF chains(2) inv(2)] y(2) floor by (simp add: parts)
  moreover have "pending (list_audit S st) (?l\<lparr>al_durable_high := ?n\<rparr>) = B"
    using filter_beyond [of sha A y B] chains(2) inv(2) by (simp add: pending_def st(2) parts)
  ultimately have same: "list_audit S st @ pending (list_audit S st) (?l\<lparr>al_durable_high := ?n\<rparr>) = ?L @ pending ?L ?l"
    by (simp add: st(2))
  have "synced sha (list_audit S st) (?l\<lparr>al_durable_high := ?n\<rparr>)"
    using kept inv(2) hd y(2) by (simp add: synced_def durable_floor_def st(2))
  then show ?thesis using one same by blast
qed

text \<open>The loop stores one record after the other, up to the last entry.\<close>

lemma backfill_stores:
  assumes "synced sha (list_audit S (ar_store r)) (ar_log r)" and "al_entries (ar_log r) \<noteq> []"
    and "n = ae_seq (last (al_entries (ar_log r)))" and "al_durable_high (ar_log r) \<le> n"
  shows "caught_up S sha n r (backfill S (\<lambda>_. Answered) [Suc (al_durable_high (ar_log r)) ..< Suc n] r)"
  using assms
proof (induction "n - al_durable_high (ar_log r)" arbitrary: r)
  case 0
  then have "n = al_durable_high (ar_log r)" by simp
  then show ?case using 0 by (simp add: caught_up_def)
next
  case (Suc k)
  let ?d = "al_durable_high (ar_log r)"
  have more: "?d < n" using Suc.hyps(2) by simp
  obtain st where one: "backfill_one S (\<lambda>_. Answered) (Suc ?d) r
      = (r\<lparr>ar_calls := Suc (ar_calls r), ar_store := st, ar_log := (ar_log r)\<lparr>al_durable_high := Suc ?d\<rparr>\<rparr>, True)"
    and sync: "synced sha (list_audit S st) ((ar_log r)\<lparr>al_durable_high := Suc ?d\<rparr>)"
    and same: "list_audit S st @ pending (list_audit S st) ((ar_log r)\<lparr>al_durable_high := Suc ?d\<rparr>)
      = list_audit S (ar_store r) @ pending (list_audit S (ar_store r)) (ar_log r)"
    using backfill_one_stores [OF Suc.prems(1,2)] more Suc.prems(3) by auto
  let ?r = "r\<lparr>ar_calls := Suc (ar_calls r), ar_store := st, ar_log := (ar_log r)\<lparr>al_durable_high := Suc ?d\<rparr>\<rparr>"
  have "[Suc ?d ..< Suc n] = Suc ?d # [Suc (Suc ?d) ..< Suc n]" using more by (simp add: upt_conv_Cons del: upt_Suc)
  then have step: "backfill S (\<lambda>_. Answered) [Suc ?d ..< Suc n] r = backfill S (\<lambda>_. Answered) [Suc (Suc ?d) ..< Suc n] ?r"
    using one by (simp del: upt_Suc)
  have "caught_up S sha n ?r (backfill S (\<lambda>_. Answered) [Suc (Suc ?d) ..< Suc n] ?r)"
    using Suc.hyps(1) [of ?r] Suc.hyps(2) Suc.prems(2,3) sync more by (simp del: upt_Suc)
  then show ?case unfolding step by (rule caught_up_from) (use same in simp_all)
qed

lemma write_through_stores:
  assumes sync: "synced sha (list_audit S (ar_store r)) (ar_log r)" and q: "al_entries (ar_log r) \<noteq> []"
    and n: "n = ae_seq (last (al_entries (ar_log r)))" and le: "al_durable_high (ar_log r) \<le> n"
  shows "caught_up S sha n r (durable_write_through S sha (\<lambda>_. Answered) n r)"
proof -
  let ?L = "list_audit S (ar_store r)"
  let ?r = "r\<lparr>ar_calls := Suc (ar_calls r)\<rparr>"
  have "max_seq (map au_seq (list_audit_tail S 1 (ar_store r))) \<le> al_durable_high (ar_log r)"
    using sync tail_last [of S "ar_store r"] by (simp add: synced_def durable_floor_def max_seq_def)
  then have "write_through_start S sha (\<lambda>_. Answered) n r = (?r, [Suc (al_durable_high (ar_log r)) ..< Suc n])"
    using sync by (simp add: write_through_start_def recover_floor_def check_writer_def tail_call_def synced_def del: upt_Suc)
  then have "durable_write_through S sha (\<lambda>_. Answered) n r = backfill S (\<lambda>_. Answered) [Suc (al_durable_high (ar_log ?r)) ..< Suc n] ?r"
    by (simp add: durable_write_through_def del: upt_Suc)
  moreover have "caught_up S sha n ?r (backfill S (\<lambda>_. Answered) [Suc (al_durable_high (ar_log ?r)) ..< Suc n] ?r)"
    by (rule backfill_stores) (use assms in simp_all)
  moreover have "caught_up S sha n ?r r1 = caught_up S sha n r r1" for r1 by (simp add: caught_up_def)
  ultimately show ?thesis by (simp only:)
qed

end

section \<open>No mutation is lost\<close>

datatype AuditOp = Record bool u64 Mutation | Flush

fun run_op :: "'s AuditStore \<Rightarrow> (string \<Rightarrow> string) \<Rightarrow> AuditOp \<Rightarrow> 's AuditRun \<Rightarrow> 's AuditRun" where
  "run_op S sha (Record no_flusher now m) r = record_by S sha (\<lambda>_. Answered) no_flusher now m r"
| "run_op S sha Flush r = flush_durable S sha (\<lambda>_. Answered) r"

fun recorded :: "AuditOp list \<Rightarrow> Mutation list" where
  "recorded [] = []"
| "recorded (Record no_flusher now m # ops) = m # recorded ops"
| "recorded (Flush # ops) = recorded ops"

text \<open>Between two operations: what is not durable yet fits the headroom of the valve.\<close>

definition in_headroom :: "(string \<Rightarrow> string) \<Rightarrow> AuditRecord list \<Rightarrow> AuditLog \<Rightarrow> bool" where
  "in_headroom sha L l \<longleftrightarrow> synced sha L l \<and> al_sink l \<and> al_durable_high l < al_seq l
     \<and> (al_entries l = [] \<longrightarrow> al_seq l = Suc (al_durable_high l))
     \<and> al_seq l \<le> al_durable_high l + WRITE_THROUGH_HEADROOM"

lemma synced_ring: "synced sha L l \<Longrightarrow> chain sha (ring l) \<and> ring_wf sha l \<and> \<not> al_unreconciled l"
  by (simp add: synced_def log_inv_def ring_wf_def)

text \<open>The ring prunes no entry that is not durable.\<close>

lemma push_in_headroom:
  assumes "in_headroom sha L l"
  shows "synced sha L (record_push sha now m l)
    \<and> pending L (record_push sha now m l) = pending L l @ [to_record (new_entry sha now m l)]"
proof -
  let ?q = "al_entries l" and ?new = "new_entry sha now m l" and ?l = "record_push sha now m l"
  have sync: "synced sha L l" and bounds: "al_durable_high l < al_seq l" "al_seq l \<le> al_durable_high l + WRITE_THROUGH_HEADROOM"
    using assms by (simp_all add: in_headroom_def)
  have inv: "log_inv sha L l" "\<not> al_unreconciled l" and floor: "al_durable_high l = durable_floor L" and chain: "chain sha (ring l)"
    and wf: "ring_wf sha l"
    using sync synced_ring [OF sync] by (simp_all add: synced_def)
  have inv': "log_inv sha L ?l" by (rule log_inv_push [OF inv(1)])
  then have chain': "chain sha (ring ?l)" by (simp add: log_inv_def ring_wf_def)
  have pend: "pending L ?l = filter (\<lambda>x. durable_floor L < au_seq x) (ring ?l)"
    by (rule pending_floor [OF chain']) (use inv(2) in simp)
  have new: "durable_floor L < ae_seq ?new" using bounds(1) floor by simp
  show ?thesis
  proof (cases "length ?q < MAX_AUDIT_ENTRIES")
    case True
    then have q': "al_entries ?l = ?q @ [?new]" by simp
    have "ae_seq (hd (al_entries ?l)) \<le> Suc (al_durable_high l)"
    proof (cases ?q)
      case Nil
      then show ?thesis using assms q' by (simp add: in_headroom_def)
    next
      case (Cons x xs)
      then show ?thesis using sync q' by (simp add: synced_def)
    qed
    then have "synced sha L ?l" using inv' inv(2) floor by (simp add: synced_def)
    moreover have "pending L ?l = pending L l @ [to_record ?new]"
      using pend pending_floor [OF chain inv(2), of L] new unfolding q' by simp
    ultimately show ?thesis by blast
  next
    case False
    then have len: "length ?q = MAX_AUDIT_ENTRIES" using wf by (simp add: ring_wf_def)
    then obtain x xs where q: "?q = x # xs" by (cases ?q) (simp_all add: MAX_AUDIT_ENTRIES_def)
    have q': "al_entries ?l = xs @ [?new]" using len by (simp add: q MAX_AUDIT_ENTRIES_def)
    have "xs \<noteq> []" using len by (auto simp: q MAX_AUDIT_ENTRIES_def)
    have last: "ae_seq (last ?q) = ae_seq x + 999"
      using chain_last [OF chain] len \<open>xs \<noteq> []\<close> by (simp add: q last_map MAX_AUDIT_ENTRIES_def)
    have "al_seq l = Suc (ae_seq (last ?q))" using wf by (simp add: ring_wf_def q)
    then have old: "ae_seq x \<le> al_durable_high l"
      using bounds(2) last by (simp add: WRITE_THROUGH_HEADROOM_def MAX_AUDIT_ENTRIES_def)
    have "ae_seq (hd xs) = Suc (ae_seq x)" using chain \<open>xs \<noteq> []\<close> by (simp add: q chain_Cons link_def hd_map)
    then have "synced sha L ?l" using inv' inv(2) floor old \<open>xs \<noteq> []\<close> q' by (simp add: synced_def)
    moreover have "pending L ?l = pending L l @ [to_record ?new]"
      using pend pending_floor [OF chain inv(2), of L] new old floor unfolding q' q by simp
    ultimately show ?thesis by blast
  qed
qed

context durable_audit_store
begin

abbreviation history :: "'s AuditRun \<Rightarrow> Mutation list" where
  "history r \<equiv> trail (list_audit S (ar_store r)) (ar_log r)"

lemma caught_up_headroom:
  assumes "caught_up S sha n r r1" and "al_entries (ar_log r) \<noteq> []" and "n = ae_seq (last (al_entries (ar_log r)))"
    and "al_sink (ar_log r)"
  shows "in_headroom sha (list_audit S (ar_store r1)) (ar_log r1) \<and> history r1 = history r"
proof -
  have sync: "synced sha (list_audit S (ar_store r1)) (ar_log r1)" and l: "ar_log r1 = (ar_log r)\<lparr>al_durable_high := n\<rparr>"
    and same: "list_audit S (ar_store r1) @ pending (list_audit S (ar_store r1)) (ar_log r1)
      = list_audit S (ar_store r) @ pending (list_audit S (ar_store r)) (ar_log r)"
    using assms(1) unfolding caught_up_def by blast+
  have "al_seq (ar_log r1) = Suc n" using synced_ring [OF sync] assms(2,3) l by (simp add: ring_wf_def)
  then have "in_headroom sha (list_audit S (ar_store r1)) (ar_log r1)"
    using sync assms(2,4) l by (simp add: in_headroom_def WRITE_THROUGH_HEADROOM_def MAX_AUDIT_ENTRIES_def)
  then show ?thesis unfolding trail_def same by simp
qed

lemma flush_in_headroom:
  assumes "in_headroom sha (list_audit S (ar_store r)) (ar_log r)"
  shows "in_headroom sha (list_audit S (ar_store (run_op S sha Flush r))) (ar_log (run_op S sha Flush r))
    \<and> history (run_op S sha Flush r) = history r
    \<and> pending (list_audit S (ar_store (run_op S sha Flush r))) (ar_log (run_op S sha Flush r)) = []"
proof (cases "al_entries (ar_log r) = []")
  case True
  then show ?thesis using assms by (simp add: flush_durable_def pending_def)
next
  case False
  let ?n = "ae_seq (last (al_entries (ar_log r)))"
  have sync: "synced sha (list_audit S (ar_store r)) (ar_log r)" and sink: "al_sink (ar_log r)"
    using assms by (simp_all add: in_headroom_def)
  have "al_seq (ar_log r) = Suc ?n" using synced_ring [OF sync] False by (simp add: ring_wf_def)
  then have "caught_up S sha ?n r (durable_write_through S sha (\<lambda>_. Answered) ?n r)"
    using assms False by (intro write_through_stores [OF sync]) (simp_all add: in_headroom_def)
  moreover have run: "run_op S sha Flush r = durable_write_through S sha (\<lambda>_. Answered) ?n r"
    using False sink by (cases "al_entries (ar_log r)") (simp_all add: flush_durable_def)
  ultimately have up: "caught_up S sha ?n r (run_op S sha Flush r)" by (simp only:)
  let ?r = "run_op S sha Flush r"
  have "pending (list_audit S (ar_store ?r)) (ar_log ?r) = filter (\<lambda>x. durable_floor (list_audit S (ar_store ?r)) < au_seq x) (ring (ar_log ?r))"
    using synced_ring [of sha "list_audit S (ar_store ?r)" "ar_log ?r"] up by (intro pending_floor) (auto simp: caught_up_def)
  moreover have "durable_floor (list_audit S (ar_store ?r)) = ?n" using up by (auto simp: caught_up_def synced_def)
  moreover have "au_seq x \<le> ?n" if "x \<in> set (ring (ar_log ?r))" for x
    using chain_max [of sha "ring (ar_log r)" x] synced_ring [OF sync] up that False by (simp add: caught_up_def last_map)
  ultimately have "pending (list_audit S (ar_store ?r)) (ar_log ?r) = []" by (simp add: filter_empty_conv leD)
  then show ?thesis using caught_up_headroom [OF up False refl sink] by blast
qed

lemma record_in_headroom:
  assumes "in_headroom sha (list_audit S (ar_store r)) (ar_log r)"
  shows "in_headroom sha (list_audit S (ar_store (run_op S sha (Record nf now m) r))) (ar_log (run_op S sha (Record nf now m) r))
    \<and> history (run_op S sha (Record nf now m) r) = history r @ [m]"
proof -
  let ?r = "on_log (record_push sha now m) r" and ?n = "al_seq (ar_log r)"
  let ?L = "list_audit S (ar_store r)"
  note push = push_in_headroom [OF assms, of now m]
  have r: "ar_store ?r = ar_store r" "ar_log ?r = record_push sha now m (ar_log r)" by (simp_all add: on_log_def)
  have sync: "synced sha (list_audit S (ar_store ?r)) (ar_log ?r)" using push by (simp add: r)
  have hist: "history ?r = history r @ [m]" using push by (simp add: trail_def r)
  have q: "al_entries (ar_log ?r) \<noteq> []" "ae_seq (last (al_entries (ar_log ?r))) = ?n" by (simp_all add: r)
  have bounds: "al_sink (ar_log ?r)" "al_durable_high (ar_log ?r) \<le> ?n" "al_durable_high (ar_log ?r) = al_durable_high (ar_log r)"
    "al_seq (ar_log ?r) = Suc ?n"
    using assms by (simp_all add: in_headroom_def r)
  show ?thesis
  proof (cases "nf \<or> WRITE_THROUGH_HEADROOM \<le> ?n - al_durable_high (ar_log r)")
    case True
    have up: "caught_up S sha ?n ?r (durable_write_through S sha (\<lambda>_. Answered) ?n ?r)"
      by (rule write_through_stores [OF sync q(1)]) (use q(2) bounds in simp_all)
    have "run_op S sha (Record nf now m) r = durable_write_through S sha (\<lambda>_. Answered) ?n ?r"
      using True bounds by (simp add: record_by_def Let_def)
    then show ?thesis using caught_up_headroom [OF up q(1)] q(2) bounds(1) hist by simp
  next
    case False
    then have "run_op S sha (Record nf now m) r = ?r" by (simp add: record_by_def on_log_def Let_def)
    moreover have "Suc ?n \<le> al_durable_high (ar_log r) + WRITE_THROUGH_HEADROOM" using False bounds(2,3) by linarith
    then have "in_headroom sha (list_audit S (ar_store ?r)) (ar_log ?r)"
      using sync q(1) bounds by (simp add: in_headroom_def)
    ultimately show ?thesis using hist by simp
  qed
qed

lemma ops_in_headroom:
  "in_headroom sha (list_audit S (ar_store r)) (ar_log r)
    \<Longrightarrow> in_headroom sha (list_audit S (ar_store (fold (run_op S sha) ops r))) (ar_log (fold (run_op S sha) ops r))
      \<and> history (fold (run_op S sha) ops r) = history r @ recorded ops"
proof (induction ops arbitrary: r)
  case (Cons op ops)
  have "in_headroom sha (list_audit S (ar_store (run_op S sha op r))) (ar_log (run_op S sha op r))
      \<and> history (run_op S sha op r) @ recorded ops = history r @ recorded (op # ops)"
    using record_in_headroom [OF Cons.prems] flush_in_headroom [OF Cons.prems] by (cases op) simp_all
  then show ?case using Cons.IH [of "run_op S sha op r"] by simp
qed simp

lemma boot_in_headroom:
  assumes "chain sha (list_audit S (ar_store r))"
    and "r1 = fst (restore_from_store S sha (\<lambda>_. Answered) (r\<lparr>ar_log := set_sink audit_new\<rparr>))"
  shows "in_headroom sha (list_audit S (ar_store r1)) (ar_log r1) \<and> history r1 = map content (list_audit S (ar_store r))"
proof -
  let ?L = "list_audit S (ar_store r)" and ?rs = "list_audit_tail S MAX_AUDIT_ENTRIES (ar_store r)"
  have store: "ar_store r1 = ar_store r" by (simp add: assms(2) restore_from_store_def tail_call_def split: prod.split)
  have inv: "log_inv sha ?L (ar_log r1)" unfolding assms(2) by (rule log_inv_boot [OF assms(1)])
  have hist: "subseq (history r1) (map content ?L)"
    using trail_boot [OF assms(1), of "\<lambda>_. Answered" "set_sink audit_new"] by (simp add: assms(2) store [unfolded assms(2)] trail_new)
  then have hist: "history r1 = map content ?L"
    using subseq_same_length [OF hist] list_emb_length [OF hist] by (simp add: trail_def store)
  have "in_headroom sha ?L (ar_log r1)"
  proof (cases "?L = []")
    case True
    then have "ar_log r1 = set_sink audit_new"
      by (simp add: assms(2) restore_from_store_def tail_call_def restore_log_def list_audit_tail_def set_sink_def audit_new_def)
    then show ?thesis
      using inv True by (simp add: in_headroom_def synced_def durable_floor_def set_sink_def audit_new_def
          WRITE_THROUGH_HEADROOM_def MAX_AUDIT_ENTRIES_def)
  next
    case False
    have rs: "?rs = drop (length ?L - MAX_AUDIT_ENTRIES) ?L" by (rule tail_drop)
    have "length ?L - MAX_AUDIT_ENTRIES < length ?L" using False by (simp add: MAX_AUDIT_ENTRIES_def)
    then have nonempty: "?rs \<noteq> []" "length ?rs \<le> MAX_AUDIT_ENTRIES" "last ?rs = last ?L" unfolding rs by simp_all
    have chain: "chain sha ?rs" unfolding rs by (rule chain_drop [OF assms(1)])
    have l: "ar_log r1 = (set_sink audit_new)\<lparr>al_seq := Suc (au_seq (last ?L)), al_durable_high := au_seq (last ?L),
        al_entries := map from_record ?rs\<rparr>"
      using restore_chain [OF chain nonempty(1,2)] nonempty(3)
      by (simp add: assms(2) restore_from_store_def tail_call_def set_sink_def audit_new_def)
    have "au_seq (hd ?rs) \<le> au_seq (last ?L)" using chain_max [OF chain, of "hd ?rs"] nonempty(1,3) by simp
    then show ?thesis
      using inv False nonempty(1) unfolding in_headroom_def synced_def l
      by (simp add: durable_floor_def set_sink_def audit_new_def hd_map WRITE_THROUGH_HEADROOM_def MAX_AUDIT_ENTRIES_def)
  qed
  then show ?thesis using hist store by simp
qed

end

text \<open>
  C30: No mutation is lost while the store answers. From the boot over any durable chain, whatever
  mutations are recorded, with a flusher or without, and whenever it runs, the ring prunes no entry
  the store does not hold: after a flush the store holds its first records and then every mutation, in
  order.
\<close>

theorem no_mutation_is_lost:
  assumes "durable_audit_store S" and "chain sha (list_audit S (ar_store r))"
    and "r1 = fst (restore_from_store S sha (\<lambda>_. Answered) (r\<lparr>ar_log := set_sink audit_new\<rparr>))"
  shows "map content (list_audit S (ar_store (flush_durable S sha (\<lambda>_. Answered) (fold (run_op S sha) ops r1))))
    = map content (list_audit S (ar_store r)) @ recorded ops"
proof -
  note boot = durable_audit_store.boot_in_headroom [OF assms]
  note run = durable_audit_store.ops_in_headroom [OF assms(1) conjunct1 [OF boot], of ops]
  note flush = durable_audit_store.flush_in_headroom [OF assms(1) conjunct1 [OF run]]
  let ?r = "flush_durable S sha (\<lambda>_. Answered) (fold (run_op S sha) ops r1)"
  have "trail (list_audit S (ar_store ?r)) (ar_log ?r) = map content (list_audit S (ar_store r)) @ recorded ops"
    using boot run flush by (simp only: run_op.simps)
  moreover have "pending (list_audit S (ar_store ?r)) (ar_log ?r) = []" using flush by (simp only: run_op.simps)
  ultimately show ?thesis by (simp add: trail_def)
qed

section \<open>What the chain detects\<close>

text \<open>No bar occurs in the parts of a record that stand before the principal.\<close>

definition plain :: "AuditRecord \<Rightarrow> bool" where
  "plain x \<longleftrightarrow> (\<forall>s \<in> {au_prev_hash x, au_action x, au_resource x, au_outcome x}. CHR ''|'' \<notin> set s)"

lemma bar_split:
  assumes "CHR ''|'' \<notin> set a" and "CHR ''|'' \<notin> set c" and "a @ CHR ''|'' # b = c @ CHR ''|'' # d"
  shows "a = c \<and> b = d"
proof -
  have "split_once (CHR ''|'') (a @ CHR ''|'' # b) = split_once (CHR ''|'') (c @ CHR ''|'' # d)"
    by (rule arg_cong [OF assms(3)])
  then show ?thesis unfolding split_once_first [OF assms(1)] split_once_first [OF assms(2)] by simp
qed

lemma decimal_plain: "CHR ''|'' \<notin> set (to_decimal n)"
proof
  assume "CHR ''|'' \<in> set (to_decimal n)"
  then have "is_digit (CHR ''|'')" using conjunct1 [OF to_decimal_digits [of n]] unfolding list_all_iff by blast
  then show False by (simp add: is_digit_def)
qed

lemma decimal_split:
  assumes "to_decimal m @ CHR ''|'' # b = to_decimal n @ CHR ''|'' # d"
  shows "m = n \<and> b = d"
proof -
  have parts: "to_decimal m = to_decimal n \<and> b = d" by (rule bar_split [OF decimal_plain decimal_plain assms])
  then have "digits_value 0 (to_decimal m) = digits_value 0 (to_decimal n)" by (intro arg_cong [of _ _ "digits_value 0"]) blast
  then show ?thesis using parts unfolding digits_value_decimal by blast
qed

lemma canonical_determines:
  assumes "plain x" and "plain y" and "canonical (from_record x) = canonical (from_record y)"
  shows "from_record x = from_record (y\<lparr>au_hash := au_hash x\<rparr>)"
proof -
  let ?r4 = "\<lambda>z. au_outcome z @ ''|'' @ au_principal z"
  let ?r3 = "\<lambda>z. au_action z @ ''|'' @ au_resource z @ ''|'' @ ?r4 z"
  let ?r1 = "\<lambda>z. to_decimal (au_seq z) @ ''|'' @ to_decimal (au_ts z) @ ''|'' @ ?r3 z"
  have "au_prev_hash x @ CHR ''|'' # ?r1 x = au_prev_hash y @ CHR ''|'' # ?r1 y"
    using assms(3) by (simp add: canonical_def from_record_def)
  then have first: "au_prev_hash x = au_prev_hash y \<and> ?r1 x = ?r1 y"
    using assms(1,2) by (intro bar_split) (simp_all add: plain_def)
  then have second: "au_seq x = au_seq y \<and> to_decimal (au_ts x) @ ''|'' @ ?r3 x = to_decimal (au_ts y) @ ''|'' @ ?r3 y"
    by (intro decimal_split) simp
  then have third: "au_ts x = au_ts y \<and> ?r3 x = ?r3 y" by (intro decimal_split) simp
  then have "au_action x = au_action y \<and> au_resource x @ ''|'' @ ?r4 x = au_resource y @ ''|'' @ ?r4 y"
    using assms(1,2) by (intro bar_split) (simp_all add: plain_def)
  moreover from this have "au_resource x = au_resource y \<and> ?r4 x = ?r4 y"
    using assms(1,2) by (intro bar_split) (simp_all add: plain_def)
  moreover from this have "au_outcome x = au_outcome y \<and> au_principal x = au_principal y"
    using assms(1,2) by (intro bar_split) (simp_all add: plain_def)
  ultimately have "au_action x = au_action y" "au_resource x = au_resource y" "au_outcome x = au_outcome y"
    "au_principal x = au_principal y" by blast+
  then show ?thesis using first second third by (simp add: from_record_def)
qed

text \<open>What the check at boot accepts: every digest recomputes, every record names the digest before it.\<close>

lemma check_chain_accepts:
  "check_chain sha prev es = None \<longleftrightarrow>
     list_all (\<lambda>x. ae_hash x = compute_hash sha x) es \<and> successively (\<lambda>x y. ae_prev_hash y = ae_hash x) es
     \<and> (case prev of Some p \<Rightarrow> es = [] \<or> ae_prev_hash (hd es) = p | None \<Rightarrow> True)"
  by (induction es arbitrary: prev) (auto simp: successively_Cons split: option.splits)

definition accepted :: "(string \<Rightarrow> string) \<Rightarrow> AuditRecord list \<Rightarrow> bool" where
  "accepted sha rs \<longleftrightarrow> list_all (\<lambda>x. au_hash x = compute_hash sha (from_record x)) rs
     \<and> successively (\<lambda>x y. au_prev_hash y = au_hash x) rs"

lemma accepted_iff: "check_chain sha None (map from_record rs) = None \<longleftrightarrow> accepted sha rs"
  by (simp add: check_chain_accepts accepted_def list.pred_map comp_def successively_map from_record_def)

lemma restore_accepts: "(\<exists>n. snd (restore_log sha (Some rs) lg) = Inr n) \<longleftrightarrow> accepted sha rs"
proof (cases rs)
  case Nil
  then show ?thesis by (simp add: restore_log_def accepted_def)
next
  case (Cons x xs)
  then show ?thesis unfolding accepted_iff [symmetric] by (simp add: restore_log_def Let_def split: option.split)
qed

lemma accepted_determines:
  assumes "accepted sha xs" and "accepted sha ys" and "length xs = length ys"
    and "xs \<noteq> [] \<longrightarrow> au_hash (last xs) = au_hash (last ys)"
    and "list_all plain (xs @ ys)" and "inj_on sha ((\<lambda>x. canonical (from_record x)) ` set (xs @ ys))"
  shows "xs = ys"
  using assms
proof (induction xs arbitrary: ys rule: rev_induct)
  case (snoc x xs)
  then obtain ys' y where ys: "ys = ys' @ [y]" by (cases ys rule: rev_cases) auto
  have hash: "au_hash x = au_hash y" using snoc.prems(4) by (simp add: ys)
  have seal: "au_hash x = compute_hash sha (from_record x)" "au_hash y = compute_hash sha (from_record y)"
    using snoc.prems(1,2) by (simp_all add: ys accepted_def)
  then have "sha (canonical (from_record x)) = sha (canonical (from_record y))"
    using hash by (simp add: compute_hash_def)
  then have "canonical (from_record x) = canonical (from_record y)"
    by (rule inj_onD [OF snoc.prems(6)]) (simp_all add: ys)
  then have "from_record x = from_record (y\<lparr>au_hash := au_hash x\<rparr>)"
    using snoc.prems(5) by (intro canonical_determines) (simp_all add: ys)
  then have "to_record (from_record x) = to_record (from_record (y\<lparr>au_hash := au_hash x\<rparr>))" by (rule arg_cong)
  then have xy: "x = y" using hash by simp
  have "xs = ys'"
  proof (rule snoc.IH)
    show "accepted sha xs" "accepted sha ys'" using snoc.prems(1,2) by (simp_all add: ys accepted_def successively_append_iff)
    show len: "length xs = length ys'" using snoc.prems(3) by (simp add: ys)
    show "xs \<noteq> [] \<longrightarrow> au_hash (last xs) = au_hash (last ys')"
    proof
      assume ne: "xs \<noteq> []"
      moreover from this have "ys' \<noteq> []" using len by auto
      ultimately have "au_prev_hash x = au_hash (last xs)" "au_prev_hash y = au_hash (last ys')"
        using snoc.prems(1,2) by (simp_all add: ys accepted_def successively_append_iff)
      then show "au_hash (last xs) = au_hash (last ys')" using xy by simp
    qed
    show "list_all plain (xs @ ys')" using snoc.prems(5) by (simp add: ys)
    show "inj_on sha ((\<lambda>x. canonical (from_record x)) ` set (xs @ ys'))"
      by (rule inj_on_subset [OF snoc.prems(6)]) (auto simp: ys)
  qed
  then show ?case using xy ys by simp
qed simp

text \<open>
  C35: An altered audit log is detected. When a boot reads a log that differs from one an earlier
  boot accepted, but holds the same number of records and ends in the same digest, it refuses it: it
  takes none of the records into the ring and seals the write-through. This holds as long as the
  digest does not collide on what the two logs hold and no bar occurs before the principal of a
  record: whoever knows the last digest detects every altered, exchanged or inserted record.
\<close>

theorem tampering_is_detected:
  assumes "snd (restore_log sha (Some xs) lg) = Inr n" and "ys \<noteq> xs" and "length ys = length xs"
    and "au_hash (last ys) = au_hash (last xs)"
    and "list_all plain (xs @ ys)" and "inj_on sha ((\<lambda>x. canonical (from_record x)) ` set (xs @ ys))"
  shows "\<exists>refusal. snd (restore_log sha (Some ys) lg2) = Inl refusal
    \<and> al_unreconciled (fst (restore_log sha (Some ys) lg2)) \<and> al_entries (fst (restore_log sha (Some ys) lg2)) = al_entries lg2"
proof -
  have "accepted sha xs" using assms(1) restore_accepts by blast
  then have n: "\<not> accepted sha ys" using accepted_determines [OF _ _ assms(3) [symmetric] _ assms(5,6)] assms(2,4) by auto
  then have "ys \<noteq> []" by (auto simp: accepted_def)
  moreover obtain refusal where "check_chain sha None (map from_record ys) = Some refusal" using n unfolding accepted_iff [symmetric] by blast
  ultimately show ?thesis by (cases ys) (simp_all add: restore_log_def Let_def)
qed

text \<open>A bar moved from one part to the next is not detected, whatever the digest.\<close>

lemma moved_bar_is_not_detected:
  assumes "chain sha (xs @ [x])" and "au_action x = a @ ''|'' @ b" and "au_resource x = c"
  shows "chain sha (xs @ [x\<lparr>au_action := a, au_resource := b @ ''|'' @ c\<rparr>])"
proof -
  have "canonical (from_record (x\<lparr>au_action := a, au_resource := b @ ''|'' @ c\<rparr>)) = canonical (from_record x)"
    using assms(2,3) by (simp add: canonical_def from_record_def)
  then show ?thesis using assms(1) by (simp add: chain_append sealed_by_def compute_hash_def link_def)
qed

section \<open>A lost acknowledgement detaches the store\<close>

text \<open>
  When the store took a record but its acknowledgement was lost, the next write-through finds the
  tail ahead of what it believes to be persisted, takes its own record for another writer's and
  detaches the sink.
\<close>

lemma lost_ack_detaches:
  assumes "\<not> al_unreconciled (ar_log r)" and "list_audit S (ar_store r) \<noteq> []" and "chain sha (list_audit S (ar_store r))"
    and "au_seq (last (list_audit S (ar_store r))) = Suc (al_durable_high (ar_log r))" and "e (ar_calls r) = Answered"
  shows "\<not> al_sink (ar_log (durable_write_through S sha e n r))
    \<and> ar_store (durable_write_through S sha e n r) = ar_store r"
  using assms
  by (simp add: durable_write_through_def write_through_start_def recover_floor_def check_writer_def tail_call_def
      tail_last max_seq_def on_log_def)

section \<open>The operations as runs of the machine\<close>

lemma backfill_run: "\<exists>es. trace (audit_step S sha) (r, ns) es (backfill S e ns r, []) \<and> pushes es = []"
proof (induction ns arbitrary: r)
  case Nil
  show ?case by (intro exI [of _ "[]"]) (simp add: trace_nil pushes_def)
next
  case (Cons n ns)
  obtain r1 again where one: "backfill_one S e n r = (r1, again)" by (cases "backfill_one S e n r")
  let ?pc = "if again then ns else []"
  have step: "audit_step S sha (r, n # ns) (e, 0, Iterate) (r1, ?pc)"
    using audit_step.event [of S sha "(r, n # ns)" "(e, 0, Iterate)"] one by simp
  have "\<exists>es. trace (audit_step S sha) (r1, ?pc) es (backfill S e (n # ns) r, []) \<and> pushes es = []"
  proof (cases again)
    case True
    then show ?thesis using Cons.IH [of r1] one by simp
  next
    case False
    then show ?thesis using one by (intro exI [of _ "[]"]) (simp add: trace_nil pushes_def)
  qed
  then obtain es where es: "trace (audit_step S sha) (r1, ?pc) es (backfill S e (n # ns) r, [])" "pushes es = []" by blast
  show ?case
    using trace_cons [OF es(1) step] es(2) by (intro exI [of _ "(e, 0, Iterate) # es"]) (simp add: pushes_def)
qed

lemma write_through_run:
  assumes "al_entries (ar_log r) \<noteq> []"
  shows "\<exists>es. trace (audit_step S sha) (r, []) es (durable_write_through S sha e n r, []) \<and> pushes es = []"
proof -
  obtain r1 ns where start: "write_through_start S sha e n r = (r1, ns)" by (cases "write_through_start S sha e n r")
  obtain es where es: "trace (audit_step S sha) (r1, ns) es (backfill S e ns r1, [])" "pushes es = []"
    using backfill_run by blast
  have "audit_step S sha (r, []) (e, 0, Start n) (r1, ns)"
    using audit_step.event [of S sha "(r, [])" "(e, 0, Start n)"] assms start by simp
  from trace_cons [OF es(1) this] show ?thesis
    using es(2) start by (intro exI [of _ "(e, 0, Start n) # es"]) (simp add: pushes_def durable_write_through_def)
qed

lemma record_run:
  "\<exists>es. trace (audit_step S sha) (r, []) es (record_by S sha e no_flusher now m r, []) \<and> pushes es = [m]"
proof -
  let ?r = "on_log (record_push sha now m) r"
  have push: "audit_step S sha (r, []) (e, now, Push m) (?r, [])"
    using audit_step.event [of S sha "(r, [])" "(e, now, Push m)"] by simp
  have "al_entries (ar_log ?r) \<noteq> []" by (simp add: on_log_def)
  then obtain es where es: "trace (audit_step S sha) (?r, []) es (durable_write_through S sha e (al_seq (ar_log r)) ?r, [])"
    "pushes es = []"
    using write_through_run by blast
  have inline: "\<exists>es. trace (audit_step S sha) (r, []) es (durable_write_through S sha e (al_seq (ar_log r)) ?r, []) \<and> pushes es = [m]"
    using trace_cons [OF es(1) push] es(2) by (intro exI [of _ "(e, now, Push m) # es"]) (simp add: pushes_def)
  have "\<exists>es. trace (audit_step S sha) (r, []) es (?r, []) \<and> pushes es = [m]"
    using trace_single [of "audit_step S sha", OF push] by (intro exI [of _ "[(e, now, Push m)]"]) (simp add: pushes_def)
  then show ?thesis using inline by (simp add: record_by_def Let_def)
qed

lemma flush_run: "\<exists>es. trace (audit_step S sha) (r, []) es (flush_durable S sha e r, []) \<and> pushes es = []"
proof -
  have "\<exists>es. trace (audit_step S sha) (r, []) es (r, []) \<and> pushes es = []"
    by (intro exI [of _ "[]"]) (simp add: trace_nil pushes_def)
  moreover have "flush_durable S sha e r = r \<or> al_entries (ar_log r) \<noteq> []
      \<and> flush_durable S sha e r = durable_write_through S sha e (ae_seq (last (al_entries (ar_log r)))) r"
    by (auto simp: flush_durable_def split: list.split)
  ultimately show ?thesis using write_through_run by metis
qed

text \<open>
  Recording and flushing refine the interleaved machine. Whatever its calls answer, recording a
  mutation is a run that pushes exactly this mutation, and a flush one that pushes none, so what
  holds of every run of the machine holds of the operations.
\<close>

lemma audit_operations_are_runs:
  "(\<exists>es. trace (audit_step S sha) (r, []) es (record_by S sha e no_flusher now m r, []) \<and> pushes es = [m])
    \<and> (\<exists>es. trace (audit_step S sha) (r, []) es (flush_durable S sha e r, []) \<and> pushes es = [])"
  by (intro conjI record_run flush_run)

section \<open>Concrete runs\<close>

definition example_mutation :: Mutation where
  "example_mutation = \<lparr>mu_action = ''hook.register'', mu_resource = ''hook:a'', mu_outcome = OUTCOME_APPLIED, mu_principal = ''admin''\<rparr>"

definition example_run :: "AuditRecord list AuditRun" where
  "example_run = \<lparr>ar_log = set_sink audit_new, ar_store = [], ar_calls = 0\<rparr>"

lemma example_boot: "fst (restore_from_store keyed_audit (\<lambda>s. s) (\<lambda>_. Answered) (example_run\<lparr>ar_log := set_sink audit_new\<rparr>))
    = example_run\<lparr>ar_calls := 1\<rparr>"
  by (simp add: restore_from_store_def tail_call_def restore_log_def list_audit_tail_def keyed_audit_def example_run_def
      set_sink_def audit_new_def)

lemma example_init: "audit_init keyed_audit (\<lambda>s. s) (example_run\<lparr>ar_calls := 1\<rparr>, [])"
  unfolding audit_init_def
  by (intro exI [of _ example_run] exI [of _ "[]"] exI [of _ "\<lambda>_. Answered"] exI [of _ 0])
     (simp add: example_boot, simp add: keyed_audit_def example_run_def)

definition example_recorded :: "AuditRecord list AuditRun" where
  "example_recorded = record_by keyed_audit (\<lambda>s. s) (\<lambda>_. Answered) True 5 example_mutation (example_run\<lparr>ar_calls := 1\<rparr>)"

lemma example_stored:
  "list_audit keyed_audit (ar_store example_recorded) = [to_record (new_entry (\<lambda>s. s) 5 example_mutation (set_sink audit_new))]"
  by (simp add: example_recorded_def record_by_def durable_write_through_def write_through_start_def recover_floor_def
      check_writer_def tail_call_def list_audit_tail_def max_seq_def backfill_one_def append_call_def keyed_audit_def
      example_run_def on_log_def Let_def set_sink_def audit_new_def)

theorem durable_audit_only_grows_witness:
  "snd (restore_from_store keyed_audit (\<lambda>s. s) (\<lambda>_. Answered) example_recorded) = Inr 1
    \<and> chain (\<lambda>s. s) (list_audit keyed_audit (ar_store example_recorded))"
proof -
  have reach: "reach (audit_init keyed_audit (\<lambda>s. s)) (audit_step keyed_audit (\<lambda>s. s)) (example_run\<lparr>ar_calls := 1\<rparr>, [])"
    by (rule reach_init) (rule example_init)
  obtain es where "trace (audit_step keyed_audit (\<lambda>s. s)) (example_run\<lparr>ar_calls := 1\<rparr>, []) es (example_recorded, [])"
    unfolding example_recorded_def using record_run by blast
  from durable_audit_only_grows [OF keyed.audit_store_axioms reach this] show ?thesis
    by (simp add: example_stored MAX_AUDIT_ENTRIES_def)
qed

theorem durable_audit_is_the_history_witness:
  "\<exists>new. list_audit keyed_audit (ar_store example_recorded) = new \<and> subseq (map content new) [example_mutation] \<and> length new = 1"
proof -
  obtain es where es: "trace (audit_step keyed_audit (\<lambda>s. s)) (example_run\<lparr>ar_calls := 1\<rparr>, []) es (example_recorded, [])"
    "pushes es = [example_mutation]"
    unfolding example_recorded_def using record_run by blast
  have "list_audit keyed_audit (ar_store example_run) = []" by (simp add: keyed_audit_def example_run_def)
  then show ?thesis
    using durable_audit_is_the_history [OF keyed.audit_store_axioms example_init es(1)] es(2) by (simp add: example_stored)
qed

theorem no_mutation_is_lost_witness:
  "map content (list_audit keyed_audit (ar_store (flush_durable keyed_audit (\<lambda>s. s) (\<lambda>_. Answered)
     (fold (run_op keyed_audit (\<lambda>s. s)) [Record False 5 example_mutation, Flush, Record True 6 example_mutation]
       (example_run\<lparr>ar_calls := 1\<rparr>)))))
   = [example_mutation, example_mutation]"
  using no_mutation_is_lost [OF keyed.durable_audit_store_axioms _ example_boot [symmetric],
      of "[Record False 5 example_mutation, Flush, Record True 6 example_mutation]"]
  by (simp add: keyed_audit_def example_run_def)

theorem tampering_is_detected_witness:
  "let x = to_record (new_entry (\<lambda>s. s) 5 example_mutation audit_new)
   in \<exists>refusal. snd (restore_log (\<lambda>s. s) (Some [x\<lparr>au_principal := ''eve''\<rparr>]) audit_new) = Inl refusal"
proof -
  let ?x = "to_record (new_entry (\<lambda>s. s) 5 example_mutation audit_new)"
  let ?y = "?x\<lparr>au_principal := ''eve''\<rparr>"
  have "chain (\<lambda>s. s) [?x]" using new_entry_sealed [of audit_new] by (simp add: audit_new_def)
  then have "accepted (\<lambda>s. s) [?x]" by (simp add: accepted_def chain_def sealed_by_def)
  then obtain n where n: "snd (restore_log (\<lambda>s. s) (Some [?x]) audit_new) = Inr n" using restore_accepts by blast
  have "list_all plain ([?x] @ [?y])" and "[?y] \<noteq> [?x]"
    by (simp_all add: plain_def to_record_def new_entry_def audit_new_def example_mutation_def OUTCOME_APPLIED_def Let_def)
  from tampering_is_detected [OF n this(2) _ _ this(1), of audit_new] show ?thesis by (simp add: Let_def)
qed

end
