(* ===== verification/Engine_World.thy ===== *)
theory Engine_World
  imports Lane_Select Breaker_Classify Busbar_Text Cost_Model
begin

text \<open>
  The world one request of the engine (\<open>src/crates/busbar/src/proxy/engine\<close>) runs in. The lane
  store is shared: before every operation of the request, the other requests have done whatever
  they do, which is the argument \<open>w_peers\<close>. The clock, the jitter, the upstreams and the wake-ups of
  the queue are arguments too, read at the number of the step, so a run is a function of its world.

  The request emits what it sends upstream and what it bills; the accounts of the other requests
  (the charges against the lanes' budgets and the permits they hold) are a ghost that only
  \<open>w_peers\<close> reads and writes. A world is legal when its peers keep these accounts; that
  a request keeps them itself is shown in \<open>Engine_Accounts\<close>, \<open>Engine_Books\<close> and \<open>Engine_Total\<close>.
\<close>

section \<open>Token usage\<close>

record IrUsage =
  input_tokens :: u64
  output_tokens :: u64
  cache_creation_input_tokens :: "u64 option"
  cache_read_input_tokens :: "u64 option"

definition tier_tokens :: "IrUsage \<Rightarrow> TierTokens" where
  "tier_tokens u =
     \<lparr>tt_input = input_tokens u, tt_output = output_tokens u,
      tt_cache_read = (case cache_read_input_tokens u of None \<Rightarrow> 0 | Some n \<Rightarrow> n),
      tt_cache_write = (case cache_creation_input_tokens u of None \<Rightarrow> 0 | Some n \<Rightarrow> n)\<rparr>"

section \<open>The world and the state of a run\<close>

type_synonym accounts = "(usize \<Rightarrow> nat) \<times> (usize \<Rightarrow> nat)"

text \<open>
  What an upstream does with an attempt: no response headers within the attempt's cap, a failed
  transfer, a reply, or (\<open>Hangup\<close>) the caller goes away first and the request's future is dropped.
  The body of a reply ends cleanly, is too long, or breaks off; the caller can go away during it.
\<close>

datatype ReadEnd = Complete | Truncated | TransportError

record HttpReply =
  hr_status :: nat
  hr_retry_after :: "string option"
  hr_content_type :: "string option"
  hr_body :: string
  hr_end :: ReadEnd
  hr_hangup :: bool

datatype UpstreamReply = Elapsed | SendFailed | Hangup | Replied HttpReply

datatype QueueWake = Deadline | Closed | Woken usize

record 'sem World =
  w_sem :: "'sem sem_ops"
  w_clock :: "nat \<Rightarrow> nat \<Rightarrow> u64"
  w_now_ns :: "nat \<Rightarrow> int"
  w_jitter :: "nat \<Rightarrow> jitter_env"
  w_peers :: "nat \<Rightarrow> 'sem HealthState \<times> accounts \<Rightarrow> 'sem HealthState \<times> accounts"
  w_reply :: "nat \<Rightarrow> UpstreamReply"
  w_wake :: "nat \<Rightarrow> QueueWake"
  w_latency :: "nat \<Rightarrow> u64 option"
  w_blend :: "nat \<Rightarrow> nat \<Rightarrow> nat"

record Sent =
  sn_pool :: string
  sn_lane :: usize
  sn_key :: string
  sn_path :: string
  sn_timeout_secs :: "u64 option"
  sn_headers_cap_ms :: "u64 option"

record 'sem Run =
  run_store :: "'sem HealthState"
  run_others :: accounts
  run_tick :: nat
  run_sent :: "Sent list"
  run_billed :: "(usize \<times> IrUsage option) list"

definition interleave :: "'sem World \<Rightarrow> 'sem Run \<Rightarrow> 'sem Run" where
  "interleave w s =
     (let (h, g) = w_peers w (run_tick s) (run_store s, run_others s)
      in s\<lparr>run_store := h, run_others := g, run_tick := Suc (run_tick s)\<rparr>)"

text \<open>One operation of the request on the shared store, with a result and without one.\<close>

definition step ::
  "'sem World \<Rightarrow> ((nat \<Rightarrow> u64) \<Rightarrow> jitter_env \<Rightarrow> 'sem HealthState \<Rightarrow> ('sem HealthState \<times> 'a) option) \<Rightarrow>
     'sem Run \<Rightarrow> ('sem Run \<times> 'a) option" where
  "step w f s =
     (let s1 = interleave w s in
      do {
        (h, a) \<leftarrow> f (w_clock w (run_tick s)) (w_jitter w (run_tick s)) (run_store s1);
        Some (s1\<lparr>run_store := h\<rparr>, a) })"

definition act :: "'sem World \<Rightarrow> (u64 \<Rightarrow> 'sem HealthState \<Rightarrow> 'sem HealthState option) \<Rightarrow> 'sem Run \<Rightarrow> 'sem Run option" where
  "act w f s =
     map_option fst (step w (\<lambda>clk env h. map_option (\<lambda>h1. (h1, ())) (f (clk 0) h)) s)"

section \<open>The operations of the store a request uses\<close>

definition record_transient_in ::
  "'sem World \<Rightarrow> string \<Rightarrow> usize \<Rightarrow> BreakerCfg \<Rightarrow> u64 option \<Rightarrow> 'sem Run \<Rightarrow> ('sem Run \<times> bool) option" where
  "record_transient_in w pool lane cfg ra =
     step w (\<lambda>clk env h. record_failure_for env h pool lane (clk 0) cfg ra)"

definition record_rate_limit_in ::
  "'sem World \<Rightarrow> string \<Rightarrow> usize \<Rightarrow> u64 \<Rightarrow> BreakerCfg \<Rightarrow> u64 option \<Rightarrow> 'sem Run \<Rightarrow> ('sem Run \<times> bool) option" where
  "record_rate_limit_in w pool lane now_time cfg ra =
     step w (\<lambda>clk env h. record_failure_for env h pool lane now_time cfg ra)"

definition drop_in :: "'sem World \<Rightarrow> usize \<Rightarrow> Permit \<Rightarrow> 'sem Run \<Rightarrow> 'sem Run option" where
  "drop_in w lane permit = act w (\<lambda>now h. drop_permit (w_sem w) h lane permit)"

definition release_owned :: "'sem World \<Rightarrow> string \<Rightarrow> usize \<Rightarrow> u64 \<Rightarrow> 'sem Run \<Rightarrow> 'sem Run option" where
  "release_owned w pool lane epoch = act w (\<lambda>now h. release_probe_owned_in h pool lane epoch)"

text \<open>A reading of the clock by the request, a step of its own.\<close>

definition read_clock :: "'sem World \<Rightarrow> 'sem Run \<Rightarrow> 'sem Run \<times> u64" where
  "read_clock w s = (interleave w s, w_clock w (run_tick s) 0)"

text \<open>The guard of a spent unit of the lane's budget: dropped while armed, it gives the unit back.\<close>

definition budget_guard_drop :: "'sem World \<Rightarrow> usize \<Rightarrow> bool \<Rightarrow> 'sem Run \<Rightarrow> 'sem Run option" where
  "budget_guard_drop w lane armed s = (if armed then act w (\<lambda>now h. refund_budget h lane) s else Some s)"

definition bill :: "bool \<Rightarrow> usize \<Rightarrow> IrUsage option \<Rightarrow> 'sem Run \<Rightarrow> 'sem Run" where
  "bill sink lane usage s = (if sink then s\<lparr>run_billed := run_billed s @ [(lane, usage)]\<rparr> else s)"

section \<open>Accounts\<close>

text \<open>
  \<open>own\<close> is what this request has been charged and holds, per lane; \<open>h0\<close> is the store when the
  accounts were opened. A limited lane's budget and a lane's free permits add up to what they
  were, and the lanes' limits and their deadness never change.
\<close>

definition in_balance ::
  "'sem sem_ops \<Rightarrow> 'sem HealthState \<Rightarrow> accounts \<Rightarrow> 'sem HealthState \<times> accounts \<Rightarrow> bool" where
  "in_balance ops h0 own s \<longleftrightarrow>
     (case (own, s) of ((charged, held), h, (others_charged, others_held)) \<Rightarrow>
        store_wf h \<and> length (lanes h) = length (lanes h0)
      \<and> (\<forall>l < length (lanes h0).
           ls_limited (lanes h ! l) = ls_limited (lanes h0 ! l)
         \<and> ls_max (lanes h ! l) = ls_max (lanes h0 ! l) \<and> ls_dead (lanes h ! l) = ls_dead (lanes h0 ! l)
         \<and> (ls_limited (lanes h0 ! l) \<longrightarrow>
              ls_budget (lanes h ! l) + int (charged l) + int (others_charged l) = ls_budget (lanes h0 ! l))
         \<and> available_permits_of ops (ls_sem (lanes h ! l)) + held l + others_held l
             = available_permits_of ops (ls_sem (lanes h0 ! l))))"

definition legal_peer ::
  "'sem sem_ops \<Rightarrow> 'sem HealthState \<Rightarrow> ('sem HealthState \<times> accounts \<Rightarrow> 'sem HealthState \<times> accounts) \<Rightarrow> bool" where
  "legal_peer ops h0 f \<longleftrightarrow> (\<forall>own s. in_balance ops h0 own s \<longrightarrow> in_balance ops h0 own (f s))"

definition legal_world :: "'sem HealthState \<Rightarrow> 'sem World \<Rightarrow> bool" where
  "legal_world h0 w \<longleftrightarrow> semaphore_laws (w_sem w) \<and> store_wf h0 \<and> (\<forall>t. legal_peer (w_sem w) h0 (w_peers w t))"

end
