(* ===== verification/Response_Body.thy ===== *)
theory Response_Body
  imports Engine_World
begin

text \<open>
  The body of a streamed response, \<open>FirstByteBody\<close> of
  \<open>src/crates/busbar/src/proxy/response_body.rs\<close>: it relays the upstream's chunks, holds the lane's
  permit and the spent unit of its budget while it lives, records the failure of a stream that
  breaks, and bills the tokens once. \<open>poll_next\<close> consumes what the upstream has ready; an empty list
  is an upstream that is not ready. A body ends, breaks, or is dropped by a caller that went
  away, in any poll.

  The vendor's stream translator and the JSON-array framer are deterministic objects of the
  protocol layer. Their state is the list of the chunks they were fed, and \<open>BodyOps\<close> says what they
  emit; the live-reloadable cap of the usage copy is read at the number of the step.
\<close>

section \<open>Types\<close>

record BodyOps =
  bo_feed :: "string list \<Rightarrow> string \<Rightarrow> string"
  bo_finish :: "string list \<Rightarrow> string"
  bo_aborted :: "string list \<Rightarrow> bool"
  bo_terminal_error :: "string list \<Rightarrow> bool \<Rightarrow> bool"
  bo_usage :: "string list \<Rightarrow> bool \<Rightarrow> IrUsage option"
  bo_frame :: "string list \<Rightarrow> string \<Rightarrow> string"
  bo_frame_close :: "string list \<Rightarrow> bool \<Rightarrow> string"
  bo_frame_error :: "string list \<Rightarrow> string"
  bo_mid_stream_error :: string
  bo_taps_nonstream :: bool
  bo_extract_usage :: "string \<Rightarrow> IrUsage option"
  bo_cap :: "nat \<Rightarrow> nat"

record FirstByteBody =
  fb_first_byte_sent :: bool
  fb_is_sse :: bool
  fb_permit :: "Permit option"
  fb_lane :: usize
  fb_pool :: string
  fb_cfg :: BreakerCfg
  fb_translate :: "string list option"
  fb_finished :: bool
  fb_json_array :: "string list option"
  fb_sink :: bool
  fb_budget_spent :: bool
  fb_ended :: bool
  fb_failed :: bool
  fb_nonstream :: string

datatype InnerPoll = Chunk string | Broken | Finished

datatype Poll = Pending | ReadyNone | ReadyOk string | ReadyErr

definition body_new ::
  "bool \<Rightarrow> Permit \<Rightarrow> usize \<Rightarrow> BreakerCfg \<Rightarrow> string \<Rightarrow> bool \<Rightarrow> bool \<Rightarrow> bool \<Rightarrow> bool \<Rightarrow> FirstByteBody" where
  "body_new is_sse permit lane cfg pool translates json_array sink budget_spent =
     \<lparr>fb_first_byte_sent = False, fb_is_sse = is_sse, fb_permit = Some permit, fb_lane = lane, fb_pool = pool,
      fb_cfg = cfg, fb_translate = (if translates then Some [] else None), fb_finished = False,
      fb_json_array = (if json_array then Some [] else None), fb_sink = sink, fb_budget_spent = budget_spent,
      fb_ended = False, fb_failed = False, fb_nonstream = []\<rparr>"

definition translate_aborted :: "BodyOps \<Rightarrow> FirstByteBody \<Rightarrow> bool" where
  "translate_aborted ops b = (case fb_translate b of None \<Rightarrow> False | Some fed \<Rightarrow> bo_aborted ops fed)"

definition terminal_error :: "BodyOps \<Rightarrow> FirstByteBody \<Rightarrow> bool" where
  "terminal_error ops b = (case fb_translate b of None \<Rightarrow> False | Some fed \<Rightarrow> bo_terminal_error ops fed (fb_finished b))"

text \<open>\<open>drop(self.permit.take())\<close>, and the record of a failure on the body's cell.\<close>

definition drop_body_permit :: "'sem World \<Rightarrow> FirstByteBody \<Rightarrow> 'sem Run \<Rightarrow> ('sem Run \<times> FirstByteBody) option" where
  "drop_body_permit w b s =
     (case fb_permit b of
        None \<Rightarrow> Some (s, b)
      | Some p \<Rightarrow> do { s1 \<leftarrow> drop_in w (fb_lane b) p s; Some (s1, b\<lparr>fb_permit := None\<rparr>) })"

definition body_failure :: "'sem World \<Rightarrow> FirstByteBody \<Rightarrow> 'sem Run \<Rightarrow> 'sem Run option" where
  "body_failure w b s = map_option fst (record_transient_in w (fb_pool b) (fb_lane b) (fb_cfg b) None s)"

definition body_refund :: "'sem World \<Rightarrow> FirstByteBody \<Rightarrow> 'sem Run \<Rightarrow> ('sem Run \<times> FirstByteBody) option" where
  "body_refund w b s =
     (if fb_budget_spent b
      then do { s1 \<leftarrow> act w (\<lambda>now h. refund_budget h (fb_lane b)) s; Some (s1, b\<lparr>fb_budget_spent := False\<rparr>) }
      else Some (s, b))"

section \<open>Polling\<close>

text \<open>The framer, when there is one, holds back a chunk that completes no element.\<close>

definition frame_out :: "BodyOps \<Rightarrow> FirstByteBody \<Rightarrow> string \<Rightarrow> FirstByteBody \<times> string option" where
  "frame_out ops b out =
     (case fb_json_array b of
        None \<Rightarrow> (b, Some out)
      | Some fed \<Rightarrow>
          let framed = bo_frame ops fed out
          in (b\<lparr>fb_json_array := Some (fed @ [out])\<rparr>, if framed = [] then None else Some framed))"

text \<open>The bounded copy of a non-streamed body, kept only for an operation that bills from it.\<close>

definition keep_usage_copy :: "BodyOps \<Rightarrow> nat \<Rightarrow> FirstByteBody \<Rightarrow> string \<Rightarrow> FirstByteBody" where
  "keep_usage_copy ops cap b chunk =
     (if \<not> fb_is_sse b \<and> bo_taps_nonstream ops \<and> fb_sink b \<and> length (fb_nonstream b) < cap
      then b\<lparr>fb_nonstream := fb_nonstream b @ take (cap - length (fb_nonstream b)) chunk\<rparr>
      else b)"

definition on_chunk :: "BodyOps \<Rightarrow> nat \<Rightarrow> FirstByteBody \<Rightarrow> string \<Rightarrow> FirstByteBody \<times> string option" where
  "on_chunk ops cap b0 chunk =
     (let b = b0\<lparr>fb_first_byte_sent := True\<rparr> in
      case fb_translate b of
        Some fed \<Rightarrow>
          let out = bo_feed ops fed chunk;
              b1 = b\<lparr>fb_translate := Some (fed @ [chunk])\<rparr>
          in (if fb_json_array b1 = None \<and> out = [] then (b1, None) else frame_out ops b1 out)
      | None \<Rightarrow> frame_out ops (keep_usage_copy ops cap b chunk) chunk)"

text \<open>A transfer that breaks.\<close>

definition on_error :: "BodyOps \<Rightarrow> 'sem World \<Rightarrow> FirstByteBody \<Rightarrow> 'sem Run \<Rightarrow> ('sem Run \<times> FirstByteBody \<times> Poll) option" where
  "on_error ops w b0 s =
     (let b = b0\<lparr>fb_failed := True\<rparr> in
      if fb_first_byte_sent b \<and> fb_is_sse b
      then do {
        s1 \<leftarrow> body_failure w b s;
        (s2, b2) \<leftarrow> drop_body_permit w b s1;
        Some (s2, b2\<lparr>fb_ended := True\<rparr>,
              ReadyOk (case fb_json_array b of None \<Rightarrow> bo_mid_stream_error ops | Some fed \<Rightarrow> bo_frame_error ops fed)) }
      else do {
        s1 \<leftarrow> body_failure w b s;
        (s2, b2) \<leftarrow> body_refund w b s1;
        (s3, b3) \<leftarrow> drop_body_permit w b2 s2;
        Some (s3, b3\<lparr>fb_ended := True\<rparr>, ReadyErr) })"

text \<open>
  The end of the upstream's body: the terminator, the failure of a stream that reported an error
  or whose translation was aborted, and the bill of one that did neither.
\<close>

definition end_bytes :: "BodyOps \<Rightarrow> FirstByteBody \<Rightarrow> bool \<Rightarrow> string" where
  "end_bytes ops b aborted =
     (let tail = (case fb_translate b of None \<Rightarrow> [] | Some fed \<Rightarrow> bo_finish ops fed) in
      case fb_json_array b of
        None \<Rightarrow> tail
      | Some fed \<Rightarrow>
          (if aborted then [] else bo_frame ops fed tail)
          @ bo_frame_close ops (if aborted then fed else fed @ [tail]) aborted)"

definition end_usage :: "BodyOps \<Rightarrow> FirstByteBody \<Rightarrow> IrUsage option" where
  "end_usage ops b =
     (if \<not> fb_sink b then None
      else case fb_translate b of
             Some fed \<Rightarrow> bo_usage ops fed (fb_finished b)
           | None \<Rightarrow> (if \<not> fb_is_sse b \<and> fb_nonstream b \<noteq> [] then bo_extract_usage ops (fb_nonstream b) else None))"

definition on_end :: "BodyOps \<Rightarrow> 'sem World \<Rightarrow> FirstByteBody \<Rightarrow> 'sem Run \<Rightarrow> ('sem Run \<times> FirstByteBody \<times> Poll) option" where
  "on_end ops w b s =
     do {
       let aborted = translate_aborted ops b;
       s1 \<leftarrow> (if fb_is_sse b \<and> fb_first_byte_sent b \<and> (terminal_error ops b \<or> aborted) then body_failure w b s else Some s);
       let done_bytes = end_bytes ops b aborted;
       let b1 = b\<lparr>fb_finished := True\<rparr>;
       (s2, b2) \<leftarrow> drop_body_permit w b1 s1;
       let usage = end_usage ops b2;
       let s3 = (if terminal_error ops b2 \<or> aborted then s2 else bill (fb_sink b2) (fb_lane b2) usage s2);
       Some (s3, b2\<lparr>fb_ended := True, fb_sink := False\<rparr>, if done_bytes = [] then ReadyNone else ReadyOk done_bytes)
     }"

fun poll_inner ::
  "BodyOps \<Rightarrow> 'sem World \<Rightarrow> InnerPoll list \<Rightarrow> FirstByteBody \<Rightarrow> 'sem Run \<Rightarrow>
     ('sem Run \<times> FirstByteBody \<times> InnerPoll list \<times> Poll) option" where
  "poll_inner ops w [] b s = Some (s, b, [], Pending)"
| "poll_inner ops w (Chunk c # rest) b s =
     (case on_chunk ops (bo_cap ops (run_tick s)) b c of
        (b1, None) \<Rightarrow> poll_inner ops w rest b1 s
      | (b1, Some out) \<Rightarrow> Some (s, b1, rest, ReadyOk out))"
| "poll_inner ops w (Broken # rest) b s =
     map_option (\<lambda>(s1, b1, p). (s1, b1, rest, p)) (on_error ops w b s)"
| "poll_inner ops w (Finished # rest) b s =
     map_option (\<lambda>(s1, b1, p). (s1, b1, rest, p)) (on_end ops w b s)"

definition poll_next ::
  "BodyOps \<Rightarrow> 'sem World \<Rightarrow> InnerPoll list \<Rightarrow> FirstByteBody \<Rightarrow> 'sem Run \<Rightarrow>
     ('sem Run \<times> FirstByteBody \<times> InnerPoll list \<times> Poll) option" where
  "poll_next ops w inner b s = (if fb_ended b then Some (s, b, inner, ReadyNone) else poll_inner ops w inner b s)"

section \<open>Dropping\<close>

text \<open>The \<open>Drop\<close> implementation, and then the fields: a permit still held is returned.\<close>

definition drop_bill :: "BodyOps \<Rightarrow> FirstByteBody \<Rightarrow> 'sem Run \<Rightarrow> 'sem Run" where
  "drop_bill ops b s =
     (if \<not> fb_sink b \<or> fb_failed b \<or> terminal_error ops b \<or> translate_aborted ops b then s
      else let usage = (case fb_translate b of None \<Rightarrow> None | Some fed \<Rightarrow> bo_usage ops fed (fb_finished b));
               tier = (case usage of None \<Rightarrow> no_tokens | Some u \<Rightarrow> tier_tokens u)
           in if tokens_is_zero tier then s else bill True (fb_lane b) usage s)"

definition body_drop :: "BodyOps \<Rightarrow> 'sem World \<Rightarrow> FirstByteBody \<Rightarrow> 'sem Run \<Rightarrow> ('sem Run \<times> FirstByteBody) option" where
  "body_drop ops w b s =
     do {
       (s1, b1) \<leftarrow> (if \<not> fb_ended b then body_refund w b s else Some (s, b));
       let s2 = drop_bill ops b1 s1;
       drop_body_permit w (b1\<lparr>fb_sink := False\<rparr>) s2
     }"

text \<open>
  The life of a body: the server polls it any number of times, each time with what the upstream
  has ready by then, and then drops it.
\<close>

fun poll_times ::
  "BodyOps \<Rightarrow> 'sem World \<Rightarrow> InnerPoll list \<Rightarrow> InnerPoll list list \<Rightarrow> FirstByteBody \<Rightarrow> 'sem Run \<Rightarrow>
     ('sem Run \<times> FirstByteBody \<times> Poll list) option" where
  "poll_times ops w left [] b s = Some (s, b, [])"
| "poll_times ops w left (ready # later) b s =
     do {
       (s1, b1, left1, p) \<leftarrow> poll_next ops w (left @ ready) b s;
       (s2, b2, ps) \<leftarrow> poll_times ops w left1 later b1 s1;
       Some (s2, b2, p # ps)
     }"

definition body_life ::
  "BodyOps \<Rightarrow> 'sem World \<Rightarrow> InnerPoll list list \<Rightarrow> FirstByteBody \<Rightarrow> 'sem Run \<Rightarrow>
     ('sem Run \<times> FirstByteBody \<times> Poll list) option" where
  "body_life ops w batches b s =
     do {
       (s1, b1, polls) \<leftarrow> poll_times ops w [] batches b s;
       (s2, b2) \<leftarrow> body_drop ops w b1 s1;
       Some (s2, b2, polls)
     }"

end
