(* ===== verification/Engine_Attempt.thy ===== *)
theory Engine_Attempt
  imports Response_Body
begin

text \<open>
  One attempt of a request at one lane: the dispatch core of
  \<open>src/crates/busbar/src/proxy/engine/mod.rs\<close> from the hop's body to what its reply does to the lane
  (the body of the failover loop), the delivery of a buffered translation, and \<open>forward_once\<close> of
  \<open>engine/walk.rs\<close>, the attempt of the degraded paths.

  The vendor codecs of the protocol layer are the argument \<open>Codec\<close>: the translation of a request for
  a lane, the upstream path, the error a vendor's body reports, and whether a completion decodes.
  A response is what the caller gets: an error in its own dialect, a verbatim relay, a translated
  completion, or a stream whose body lives on. \<open>Gone\<close> is a caller that went away while the engine
  waited: the request's future is dropped, and with it what its guards hold. A gate's message is
  any Unicode, kept as code points.
\<close>

section \<open>Configuration\<close>

datatype UpstreamCreds = Own | Passthrough

record AppLane =
  al_model :: string
  al_protocol :: string
  al_api_key :: string
  al_error_map :: "string \<rightharpoonup> string"
  al_context_max :: "usize option"
  al_attempt_timeout_ms :: "u64 option"
  al_reasoning :: bool

record FailoverCfg =
  fo_timeout_secs :: u64
  fo_exclusions :: "string list option"
  fo_max_hops :: usize

datatype OnExhausted = Status503 | FallbackPool string | LeastBad | Queue u64

record PoolRuntime =
  pr_members :: "usize \<rightharpoonup> MemberMeta"
  pr_failover :: "FailoverCfg option"
  pr_upstream_credentials :: "UpstreamCreds option"
  pr_breaker :: "BreakerCfg option"

record App =
  app_lanes :: "AppLane list"
  app_pool_runtime :: "string \<rightharpoonup> PoolRuntime"
  app_failover_cfg :: "FailoverCfg option"
  app_upstream_credentials :: UpstreamCreds
  app_on_exhausted :: "string \<rightharpoonup> OnExhausted"
  app_fallback_pools :: "(string \<times> WeightedLane list) list"

definition DEFAULT_FAILOVER_DEADLINE_SECS :: u64 where "DEFAULT_FAILOVER_DEADLINE_SECS = 120"
definition DEFAULT_FAILOVER_CAP :: usize where "DEFAULT_FAILOVER_CAP = 3"

definition pool_upstream_creds :: "App \<Rightarrow> string \<Rightarrow> UpstreamCreds" where
  "pool_upstream_creds app pool =
     (case Option.bind (app_pool_runtime app pool) pr_upstream_credentials of
        Some c \<Rightarrow> c
      | None \<Rightarrow> app_upstream_credentials app)"

definition resolve_breaker_cfg :: "App \<Rightarrow> string \<Rightarrow> BreakerCfg" where
  "resolve_breaker_cfg app pool =
     (case Option.bind (app_pool_runtime app pool) pr_breaker of
        Some cfg \<Rightarrow> cfg
      | None \<Rightarrow> default_BreakerCfg)"

definition pool_failover :: "App \<Rightarrow> string \<Rightarrow> FailoverCfg option" where
  "pool_failover app pool =
     (case Option.bind (app_pool_runtime app pool) pr_failover of
        Some f \<Rightarrow> Some f
      | None \<Rightarrow> app_failover_cfg app)"

text \<open>A pool's blocklist of models, and what it leaves of a candidate list.\<close>

definition excluded_models :: "App \<Rightarrow> string \<Rightarrow> string list" where
  "excluded_models app pool =
     (case Option.bind (pool_failover app pool) fo_exclusions of None \<Rightarrow> [] | Some models \<Rightarrow> models)"

definition retain_allowed :: "App \<Rightarrow> string \<Rightarrow> WeightedLane list \<Rightarrow> WeightedLane list" where
  "retain_allowed app pool cands =
     filter (\<lambda>wl. \<not> list_ex (\<lambda>m. m = al_model (app_lanes app ! wl_idx wl)) (excluded_models app pool)) cands"

section \<open>Per-attempt settings\<close>

definition member_of :: "WeightedLane list \<Rightarrow> usize \<Rightarrow> WeightedLane option" where
  "member_of cands i = find (\<lambda>w. wl_idx w = i) cands"

definition effective_attempt_timeout_ms :: "WeightedLane list \<Rightarrow> usize \<Rightarrow> u64 option \<Rightarrow> u64 option" where
  "effective_attempt_timeout_ms cands i lane_default =
     (case Option.bind (member_of cands i) wl_attempt_timeout_ms of Some ms \<Rightarrow> Some ms | None \<Rightarrow> lane_default)"

definition effective_reasoning :: "WeightedLane list \<Rightarrow> usize \<Rightarrow> bool \<Rightarrow> bool" where
  "effective_reasoning cands i lane_default =
     (case Option.bind (member_of cands i) wl_reasoning of Some r \<Rightarrow> r | None \<Rightarrow> lane_default)"

definition attempt_cap :: "u64 \<Rightarrow> u64 \<Rightarrow> u64" where
  "attempt_cap ms remaining_secs = min ms (max (saturating_mul remaining_secs 1000) 1)"

definition egress_key :: "UpstreamCreds \<Rightarrow> string option \<Rightarrow> string \<Rightarrow> string" where
  "egress_key creds caller_token api_key =
     (case creds of
        Passthrough \<Rightarrow> (case caller_token of None \<Rightarrow> [] | Some t \<Rightarrow> t)
      | Own \<Rightarrow> api_key)"

section \<open>Requests and responses\<close>

record Request =
  rq_pool :: string
  rq_ingress :: string
  rq_caller_token :: "string option"
  rq_affinity :: "u64 option"
  rq_wants_stream :: bool
  rq_json_array :: bool
  rq_body_is_json :: bool
  rq_once_stream :: bool
  rq_body_parses :: bool
  rq_content_type_json :: bool
  rq_sink :: bool

datatype Response =
    IngressError nat string string
  | Overloaded503 u64
  | GateRejected nat string "nat list"
  | Relayed nat string
  | Buffered nat string
  | Streamed FirstByteBody
  | Gone

record Codec =
  cd_head_pristine :: "usize \<Rightarrow> bool"
  cd_hop_parses :: "bool \<Rightarrow> bool"
  cd_translate :: "usize \<Rightarrow> bool \<Rightarrow> (nat \<times> string \<times> string) option"
  cd_upstream_path :: "usize \<Rightarrow> bool \<Rightarrow> string option"
  cd_http_date :: "string \<Rightarrow> int option"
  cd_extract_error :: "string \<Rightarrow> nat \<Rightarrow> string \<Rightarrow> RawUpstreamError"
  cd_error_message :: "string \<Rightarrow> string option"
  cd_auth_failure :: "string \<Rightarrow> nat \<times> string \<times> string"
  cd_streaming_types :: "string list"
  cd_is_json :: "string \<Rightarrow> bool"
  cd_decodes :: "usize \<Rightarrow> string \<Rightarrow> bool"
  cd_usage :: "usize \<Rightarrow> string \<Rightarrow> IrUsage option"
  cd_render :: "usize \<Rightarrow> string \<Rightarrow> string"
  cd_wrap_stream :: "usize \<Rightarrow> string \<Rightarrow> string option"
  cd_ingress_known :: "string \<Rightarrow> bool"
  cd_ingress_handler :: "string \<Rightarrow> bool"
  cd_translates :: "string \<Rightarrow> string \<Rightarrow> bool"

text \<open>What an attempt tells the failover loop.\<close>

datatype Hop = Return Response | Next

definition GENERIC_REJECTED_DETAIL :: string where
  "GENERIC_REJECTED_DETAIL = ''The request could not be processed.''"

definition DETAIL_INTERNAL_ERROR :: string where
  "DETAIL_INTERNAL_ERROR = ''We received an unexpected internal error. Please try again.''"

definition DETAIL_ENDPOINT_UNSUPPORTED_OPERATION :: string where
  "DETAIL_ENDPOINT_UNSUPPORTED_OPERATION = ''This endpoint does not support that operation.''"

definition DETAIL_REQUEST_TIMEOUT :: string where
  "DETAIL_REQUEST_TIMEOUT = ''The request timed out. Please retry shortly.''"

definition GENERIC_RESPONSE_ERROR_DETAIL :: string where
  "GENERIC_RESPONSE_ERROR_DETAIL = ''An internal error occurred while processing the response.''"

definition DETAIL_OVERLOADED :: string where
  "DETAIL_OVERLOADED = ''The service is temporarily overloaded. Please retry shortly.''"

definition is_success :: "nat \<Rightarrow> bool" where
  "is_success status \<longleftrightarrow> 200 \<le> status \<and> status < 300"

definition cross_protocol_error_kind :: "nat \<Rightarrow> string" where
  "cross_protocol_error_kind status =
     (if status = 401 then ''authentication_error''
      else if status = 403 then ''permission_error''
      else if status = 429 then ''rate_limit_error''
      else if status = 503 then ''overloaded''
      else if status = 504 then ''timeout''
      else if is_5xx status then ''api_error''
      else ''invalid_request_error'')"

definition error_message :: "Codec \<Rightarrow> string \<Rightarrow> string" where
  "error_message cd body = (case cd_error_message cd body of None \<Rightarrow> GENERIC_REJECTED_DETAIL | Some m \<Rightarrow> m)"

definition shape_cross_protocol_error :: "Codec \<Rightarrow> nat \<Rightarrow> string \<Rightarrow> Response" where
  "shape_cross_protocol_error cd status body =
     IngressError status (cross_protocol_error_kind status) (error_message cd body)"

fun client_fault_kind :: "StatusClass \<Rightarrow> string" where
  "client_fault_kind ContextLength = PROVIDER_CODE_CONTEXT_LENGTH"
| "client_fault_kind ClientError = ''invalid_request_error''"
| "client_fault_kind RateLimit = ''invalid_request_error''"
| "client_fault_kind Overloaded = ''invalid_request_error''"
| "client_fault_kind ServerError = ''invalid_request_error''"
| "client_fault_kind Timeout = ''invalid_request_error''"
| "client_fault_kind Network = ''invalid_request_error''"
| "client_fault_kind Auth = ''invalid_request_error''"
| "client_fault_kind Billing = ''invalid_request_error''"

definition starts_with :: "string \<Rightarrow> string \<Rightarrow> bool" where
  "starts_with s p \<longleftrightarrow> take (length p) s = p"

definition is_streaming_content_type :: "Codec \<Rightarrow> string \<Rightarrow> bool" where
  "is_streaming_content_type cd ct \<longleftrightarrow> list_ex (\<lambda>p. starts_with ct p) (cd_streaming_types cd)"

definition is_sse_reply :: "Codec \<Rightarrow> HttpReply \<Rightarrow> bool" where
  "is_sse_reply cd r =
     (case hr_content_type r of None \<Rightarrow> False | Some ct \<Rightarrow> is_streaming_content_type cd ct)"

definition crosses :: "App \<Rightarrow> Request \<Rightarrow> usize \<Rightarrow> bool" where
  "crosses app rq i \<longleftrightarrow> rq_ingress rq \<noteq> al_protocol (app_lanes app ! i)"

section \<open>Serving a completion\<close>

text \<open>
  A completion in hand: whether its usage was billed, and what is delivered, if anything can be.
\<close>

definition deliver_completion ::
  "Codec \<Rightarrow> Request \<Rightarrow> usize \<Rightarrow> HttpReply \<Rightarrow> bool \<Rightarrow> bool \<times> Response option" where
  "deliver_completion cd rq i r wants_stream =
     (if \<not> cd_is_json cd (hr_body r)
      then if cd_decodes cd i (hr_body r)
           then (True, if cd_ingress_handler cd (rq_ingress rq)
                       then Some (Buffered (hr_status r) (cd_render cd i (hr_body r))) else None)
           else (False, None)
      else if cd_decodes cd i (hr_body r) \<and> cd_ingress_known cd (rq_ingress rq)
      then (True,
            case (if wants_stream then cd_wrap_stream cd i (hr_body r) else None) of
              Some frames \<Rightarrow> Some (Buffered (hr_status r) frames)
            | None \<Rightarrow>
                if \<not> cd_ingress_handler cd (rq_ingress rq)
                then Some (IngressError 404 ''not_found_error'' DETAIL_ENDPOINT_UNSUPPORTED_OPERATION)
                else Some (Buffered (hr_status r) (cd_render cd i (hr_body r))))
      else (False, None))"

definition translate_response_cross_protocol ::
  "'sem World \<Rightarrow> Codec \<Rightarrow> Request \<Rightarrow> usize \<Rightarrow> string \<Rightarrow> BreakerCfg \<Rightarrow> HttpReply \<Rightarrow> Permit \<Rightarrow> bool \<Rightarrow> bool \<Rightarrow>
     'sem Run \<Rightarrow> ('sem Run \<times> Response) option" where
  "translate_response_cross_protocol w cd rq i pool cfg r permit budget_spent wants_stream s =
     do {
       s1 \<leftarrow> drop_in w i permit s;
       if hr_hangup r then do { s2 \<leftarrow> budget_guard_drop w i budget_spent s1; Some (s2, Gone) }
       else case hr_end r of
         TransportError \<Rightarrow> do {
           (s2, tripped) \<leftarrow> record_transient_in w pool i cfg None s1;
           s3 \<leftarrow> budget_guard_drop w i budget_spent s2;
           Some (s3, IngressError 502 ''api_error'' GENERIC_RESPONSE_ERROR_DETAIL) }
       | Truncated \<Rightarrow> Some (s1, IngressError 500 ''api_error'' GENERIC_RESPONSE_ERROR_DETAIL)
       | Complete \<Rightarrow>
           (case deliver_completion cd rq i r wants_stream of
              (billed, Some resp) \<Rightarrow>
                Some (bill (rq_sink rq \<and> billed) i (cd_usage cd i (hr_body r)) s1, resp)
            | (billed, None) \<Rightarrow> do {
                let s2 = bill (rq_sink rq \<and> billed) i (cd_usage cd i (hr_body r)) s1;
                (s3, tripped) \<leftarrow> record_transient_in w pool i cfg None s2;
                s4 \<leftarrow> budget_guard_drop w i (budget_spent \<and> \<not> billed) s3;
                Some (s4, IngressError 500 ''api_error'' GENERIC_RESPONSE_ERROR_DETAIL) })
     }"

text \<open>
  A 2xx: the success and the latency are recorded and a unit of the lane's budget is spent; then
  a translated completion is buffered, and everything else is streamed, the body holding the permit.
\<close>

definition serve_success ::
  "'sem World \<Rightarrow> App \<Rightarrow> Codec \<Rightarrow> Request \<Rightarrow> usize \<Rightarrow> string \<Rightarrow> BreakerCfg \<Rightarrow> HttpReply \<Rightarrow> Permit \<Rightarrow> bool \<Rightarrow>
     'sem Run \<Rightarrow> ('sem Run \<times> Response) option" where
  "serve_success w app cd rq i pool cfg r permit wants_stream s =
     do {
       s1 \<leftarrow> act w (\<lambda>now h. record_success_for h pool i now) s;
       s2 \<leftarrow> act w (\<lambda>now h. record_latency_in (w_blend w) (w_latency w (run_tick s1)) h i) s1;
       (s3, budget_spent) \<leftarrow> step w (\<lambda>clk env h. spend_budget h i) s2;
       let is_sse = is_sse_reply cd r;
       if crosses app rq i \<and> \<not> is_sse
       then translate_response_cross_protocol w cd rq i pool cfg r permit budget_spent wants_stream s3
       else Some (s3, Streamed (body_new is_sse permit i cfg pool
                   (is_sse \<and> cd_translates cd (rq_ingress rq) (al_protocol (app_lanes app ! i)))
                   (rq_json_array rq \<and> is_sse) (rq_sink rq) budget_spent))
     }"

section \<open>An attempt of the failover loop\<close>

text \<open>
  The hop's payload: the retained bytes as they are, or a fresh translation of the original
  body. \<open>first\<close> says that the parsed body is still carried; \<open>Some\<close> is the error that ends the request.
\<close>

definition hop_payload_error :: "App \<Rightarrow> Codec \<Rightarrow> Request \<Rightarrow> WeightedLane list \<Rightarrow> bool \<Rightarrow> usize \<Rightarrow> Response option" where
  "hop_payload_error app cd rq cands first i =
     (if \<not> crosses app rq i \<and> first \<and> cd_head_pristine cd i then None
      else if rq_body_is_json rq \<and> \<not> cd_hop_parses cd first
      then Some (IngressError 500 ''api_error'' DETAIL_INTERNAL_ERROR)
      else map_option (\<lambda>(status, kind, msg). IngressError status kind msg)
             (cd_translate cd i (effective_reasoning cands i (al_reasoning (app_lanes app ! i)))))"

text \<open>A bail before dispatch: the single-flight probe is released, by \<open>release_probe_in\<close>.\<close>

definition bail_undispatched ::
  "'sem World \<Rightarrow> string \<Rightarrow> usize \<Rightarrow> Permit \<Rightarrow> Response \<Rightarrow> 'sem Run \<Rightarrow> ('sem Run \<times> Hop) option" where
  "bail_undispatched w pool i permit resp s =
     do {
       s1 \<leftarrow> act w (\<lambda>now h. release_probe_in h pool i) s;
       s2 \<leftarrow> drop_in w i permit s1;
       Some (s2, Return resp)
     }"

text \<open>No response headers: a transient failure, and the next candidate.\<close>

definition transport_failure ::
  "'sem World \<Rightarrow> string \<Rightarrow> usize \<Rightarrow> BreakerCfg \<Rightarrow> Permit \<Rightarrow> 'sem Run \<Rightarrow> ('sem Run \<times> Hop) option" where
  "transport_failure w pool i cfg permit s =
     do {
       (s1, tripped) \<leftarrow> record_transient_in w pool i cfg None s;
       s2 \<leftarrow> drop_in w i permit s1;
       Some (s2, Next)
     }"

definition is_passthrough_40x :: "App \<Rightarrow> string \<Rightarrow> nat \<Rightarrow> bool" where
  "is_passthrough_40x app pool status \<longleftrightarrow>
     pool_upstream_creds app pool = Passthrough \<and> (status = 401 \<or> status = 403)"

definition upstream_signal :: "App \<Rightarrow> Codec \<Rightarrow> int \<Rightarrow> usize \<Rightarrow> HttpReply \<Rightarrow> CanonicalSignal" where
  "upstream_signal app cd now_ns i r =
     (let lane = app_lanes app ! i;
          raw = (cd_extract_error cd (al_protocol lane) (hr_status r) (hr_body r))
                  \<lparr>retry_after_secs := parse_retry_after (cd_http_date cd) now_ns (hr_retry_after r)\<rparr>
      in fst (normalize_raw_error raw (al_error_map lane) []))"

text \<open>
  The arms of the disposition. A fault of the caller leaves the breaker alone; the probe it may
  have won is released, checked against its owner.
\<close>

definition on_client_fault ::
  "'sem World \<Rightarrow> App \<Rightarrow> Codec \<Rightarrow> Request \<Rightarrow> usize \<Rightarrow> string \<Rightarrow> u64 \<Rightarrow> Permit \<Rightarrow> CanonicalSignal \<Rightarrow> HttpReply \<Rightarrow>
     'sem Run \<Rightarrow> ('sem Run \<times> Hop) option" where
  "on_client_fault w app cd rq i pool epoch permit sig r s =
     do {
       s1 \<leftarrow> act w (\<lambda>now h. record_client_fault h i) s;
       s2 \<leftarrow> release_owned w pool i epoch s1;
       s3 \<leftarrow> drop_in w i permit s2;
       Some (s3, Return (if crosses app rq i
                         then IngressError (hr_status r) (client_fault_kind (signal_class sig)) (error_message cd (hr_body r))
                         else Relayed (hr_status r) (hr_body r)))
     }"

definition on_transient ::
  "'sem World \<Rightarrow> usize \<Rightarrow> string \<Rightarrow> BreakerCfg \<Rightarrow> Permit \<Rightarrow> CanonicalSignal \<Rightarrow> 'sem Run \<Rightarrow> ('sem Run \<times> Hop) option" where
  "on_transient w i pool cfg permit sig s =
     do {
       (s1, tripped) \<leftarrow>
         (if signal_class sig = RateLimit
          then (let (s0, now_time) = read_clock w s in record_rate_limit_in w pool i now_time cfg (retry_after sig) s0)
          else record_transient_in w pool i cfg (retry_after sig) s);
       s2 \<leftarrow> drop_in w i permit s1;
       Some (s2, Next)
     }"

definition hard_down_reason :: "StatusClass \<Rightarrow> nat \<Rightarrow> string" where
  "hard_down_reason cls status =
     (if cls = Billing then ''billing / insufficient balance''
      else if cls = Auth then ''auth rejected (HTTP '' @ to_decimal status @ '')''
      else ''request rejected (HTTP '' @ to_decimal status @ '')'')"

definition on_hard_down ::
  "'sem World \<Rightarrow> Codec \<Rightarrow> Request \<Rightarrow> usize \<Rightarrow> Permit \<Rightarrow> CanonicalSignal \<Rightarrow> HttpReply \<Rightarrow> 'sem Run \<Rightarrow> ('sem Run \<times> Hop) option" where
  "on_hard_down w cd rq i permit sig r s =
     do {
       (s1, tripped) \<leftarrow> step w (\<lambda>clk env h.
          record_hard_down_all_cells h i (hard_down_reason (signal_class sig) (hr_status r)) (clk 0)) s;
       s2 \<leftarrow> drop_in w i permit s1;
       Some (s2, if signal_class sig = Auth
                 then (case cd_auth_failure cd (rq_ingress rq) of (st, kind, msg) \<Rightarrow> Return (IngressError st kind msg))
                 else Next)
     }"

text \<open>
  A request too large for a lane: every candidate whose known context is no larger is excluded.
\<close>

definition exclude_context :: "App \<Rightarrow> WeightedLane list \<Rightarrow> usize \<Rightarrow> RequestCtx \<Rightarrow> RequestCtx" where
  "exclude_context app cands i ctx =
     foldl (\<lambda>c cand.
        case al_context_max (app_lanes app ! wl_idx cand) of
          None \<Rightarrow> c
        | Some cand_max \<Rightarrow>
            (case al_context_max (app_lanes app ! i) of
               None \<Rightarrow> c
             | Some failed_limit \<Rightarrow> if cand_max \<le> failed_limit then exclude c (wl_idx cand) else c)) ctx cands"

definition on_context_length ::
  "'sem World \<Rightarrow> usize \<Rightarrow> string \<Rightarrow> u64 \<Rightarrow> Permit \<Rightarrow> 'sem Run \<Rightarrow> ('sem Run \<times> Hop) option" where
  "on_context_length w i pool epoch permit s =
     do {
       s1 \<leftarrow> release_owned w pool i epoch s;
       s2 \<leftarrow> drop_in w i permit s1;
       Some (s2, Next)
     }"

text \<open>A reply that is not a success: its body is read, then it is classified.\<close>

definition on_upstream_error ::
  "'sem World \<Rightarrow> App \<Rightarrow> Codec \<Rightarrow> Request \<Rightarrow> WeightedLane list \<Rightarrow> BreakerCfg \<Rightarrow> usize \<Rightarrow> Permit \<Rightarrow> u64 \<Rightarrow> HttpReply \<Rightarrow>
     RequestCtx \<Rightarrow> 'sem Run \<Rightarrow> ('sem Run \<times> RequestCtx \<times> Hop) option" where
  "on_upstream_error w app cd rq cands cfg i permit epoch r ctx s =
     (let pool = rq_pool rq in
      if hr_hangup r then do { s1 \<leftarrow> drop_in w i permit s; Some (s1, ctx, Return Gone) }
      else if is_passthrough_40x app pool (hr_status r)
      then do {
        s1 \<leftarrow> release_owned w pool i epoch s;
        s2 \<leftarrow> drop_in w i permit s1;
        Some (s2, ctx, Return (if crosses app rq i then shape_cross_protocol_error cd (hr_status r) (hr_body r)
                               else Relayed (hr_status r) (hr_body r))) }
      else
        let sig = upstream_signal app cd (w_now_ns w (run_tick s)) i r in
        case classify sig of
          ClientFault \<Rightarrow> map_option (\<lambda>(s1, hop). (s1, ctx, hop)) (on_client_fault w app cd rq i pool epoch permit sig r s)
        | TransientUpstream \<Rightarrow> map_option (\<lambda>(s1, hop). (s1, ctx, hop)) (on_transient w i pool cfg permit sig s)
        | HardDown \<Rightarrow> map_option (\<lambda>(s1, hop). (s1, ctx, hop)) (on_hard_down w cd rq i permit sig r s)
        | ContextLengthDisp \<Rightarrow>
            map_option (\<lambda>(s1, hop). (s1, exclude_context app cands i ctx, hop)) (on_context_length w i pool epoch permit s))"

text \<open>The attempt, from the payload to the reply.\<close>

definition attempt ::
  "'sem World \<Rightarrow> App \<Rightarrow> Codec \<Rightarrow> Request \<Rightarrow> WeightedLane list \<Rightarrow> bool \<Rightarrow> usize \<Rightarrow> Permit \<Rightarrow> u64 \<Rightarrow> RequestCtx \<Rightarrow>
     'sem Run \<Rightarrow> ('sem Run \<times> RequestCtx \<times> Hop) option" where
  "attempt w app cd rq cands first i permit epoch ctx s =
     (let pool = rq_pool rq; cfg = resolve_breaker_cfg app pool; lane = app_lanes app ! i in
      case hop_payload_error app cd rq cands first i of
        Some resp \<Rightarrow> map_option (\<lambda>(s1, hop). (s1, ctx, hop)) (bail_undispatched w pool i permit resp s)
      | None \<Rightarrow>
          (case cd_upstream_path cd i (rq_wants_stream rq) of
             None \<Rightarrow> map_option (\<lambda>(s1, hop). (s1, ctx, hop))
                       (bail_undispatched w pool i permit (IngressError 500 ''api_error'' DETAIL_INTERNAL_ERROR) s)
           | Some path \<Rightarrow>
               let (s0, t) = read_clock w s;
                   (s1, t1) = read_clock w s0;
                   sent = \<lparr>sn_pool = pool, sn_lane = i,
                     sn_key = egress_key (pool_upstream_creds app pool) (rq_caller_token rq) (al_api_key lane),
                     sn_path = path,
                     sn_timeout_secs = (if rq_wants_stream rq then None else Some (max (remaining ctx t) 1)),
                     sn_headers_cap_ms = map_option (\<lambda>ms. attempt_cap ms (remaining ctx t1))
                       (effective_attempt_timeout_ms cands i (al_attempt_timeout_ms lane))\<rparr>;
                   s2 = s1\<lparr>run_sent := run_sent s1 @ [sent]\<rparr>
               in case w_reply w (run_tick s2) of
                    Hangup \<Rightarrow> do { s3 \<leftarrow> drop_in w i permit s2; Some (s3, ctx, Return Gone) }
                  | Elapsed \<Rightarrow> map_option (\<lambda>(s3, hop). (s3, ctx, hop)) (transport_failure w pool i cfg permit s2)
                  | SendFailed \<Rightarrow> map_option (\<lambda>(s3, hop). (s3, ctx, hop)) (transport_failure w pool i cfg permit s2)
                  | Replied r \<Rightarrow>
                      if is_success (hr_status r)
                      then map_option (\<lambda>(s3, resp). (s3, ctx, Return resp))
                             (serve_success w app cd rq i pool cfg r permit (rq_wants_stream rq) s2)
                      else on_upstream_error w app cd rq cands cfg i permit epoch r ctx s2))"

section \<open>An attempt of the degraded paths\<close>

text \<open>
  \<open>probe\<close> is the owner token of the probe this attempt won, \<open>None\<close> when it owns none; its guard is
  armed over the whole attempt and disarmed once a success is recorded. A result \<open>None\<close> is \<open>Err(())\<close>.
\<close>

definition probe_guard_release :: "'sem World \<Rightarrow> string \<Rightarrow> usize \<Rightarrow> u64 option \<Rightarrow> 'sem Run \<Rightarrow> 'sem Run option" where
  "probe_guard_release w pool i probe s =
     (case probe of None \<Rightarrow> Some s | Some epoch \<Rightarrow> release_owned w pool i epoch s)"

definition leave_once ::
  "'sem World \<Rightarrow> string \<Rightarrow> usize \<Rightarrow> u64 option \<Rightarrow> Permit \<Rightarrow> Response option \<Rightarrow> 'sem Run \<Rightarrow> ('sem Run \<times> Response option) option" where
  "leave_once w pool i probe permit resp s =
     do { s1 \<leftarrow> probe_guard_release w pool i probe s; s2 \<leftarrow> drop_in w i permit s1; Some (s2, resp) }"

definition forward_once_dispatch ::
  "'sem World \<Rightarrow> App \<Rightarrow> Codec \<Rightarrow> Request \<Rightarrow> usize \<Rightarrow> Permit \<Rightarrow> string \<Rightarrow> u64 option \<Rightarrow> UpstreamReply \<Rightarrow>
     'sem Run \<Rightarrow> ('sem Run \<times> Response option) option" where
  "forward_once_dispatch w app cd rq i permit pool probe reply s =
     (let cfg = resolve_breaker_cfg app pool in
      case reply of
        Hangup \<Rightarrow> leave_once w pool i probe permit (Some Gone) s
      | Elapsed \<Rightarrow> do {
          (s1, tripped) \<leftarrow> record_transient_in w pool i cfg None s;
          leave_once w pool i probe permit None s1 }
      | SendFailed \<Rightarrow> do {
          (s1, tripped) \<leftarrow> record_transient_in w pool i cfg None s;
          s2 \<leftarrow> drop_in w i permit s1;
          s3 \<leftarrow> probe_guard_release w pool i probe s2;
          Some (s3, None) }
      | Replied r \<Rightarrow>
          if \<not> is_success (hr_status r)
          then if hr_hangup r then leave_once w pool i probe permit (Some Gone) s
               else do {
                 (s1, tripped) \<leftarrow> record_transient_in w pool i cfg None s;
                 leave_once w pool i probe permit
                   (Some (if crosses app rq i then shape_cross_protocol_error cd (hr_status r) (hr_body r)
                          else Relayed (hr_status r) (hr_body r))) s1 }
          else map_option (\<lambda>(s1, resp). (s1, Some resp))
                 (serve_success w app cd rq i pool cfg r permit (rq_once_stream rq) s))"

definition forward_once ::
  "'sem World \<Rightarrow> App \<Rightarrow> Codec \<Rightarrow> Request \<Rightarrow> usize \<Rightarrow> Permit \<Rightarrow> u64 \<Rightarrow> string \<Rightarrow> u64 option \<Rightarrow> bool option \<Rightarrow>
     'sem Run \<Rightarrow> ('sem Run \<times> Response option) option" where
  "forward_once w app cd rq i permit timeout_secs pool probe reasoning_override s =
     (let lane = app_lanes app ! i in
      if \<not> rq_body_parses rq \<and> rq_content_type_json rq
      then leave_once w pool i probe permit
             (Some (IngressError 400 ''invalid_request_error'' ''We could not parse the JSON body of your request.'')) s
      else case cd_translate cd i (case reasoning_override of None \<Rightarrow> al_reasoning lane | Some b \<Rightarrow> b) of
        Some (status, kind, msg) \<Rightarrow> leave_once w pool i probe permit (Some (IngressError status kind msg)) s
      | None \<Rightarrow>
          (case cd_upstream_path cd i (rq_once_stream rq) of
             None \<Rightarrow> leave_once w pool i probe permit (Some (IngressError 500 ''api_error'' DETAIL_INTERNAL_ERROR)) s
           | Some path \<Rightarrow>
               let sent = \<lparr>sn_pool = pool, sn_lane = i,
                     sn_key = egress_key (pool_upstream_creds app pool) (rq_caller_token rq) (al_api_key lane),
                     sn_path = path,
                     sn_timeout_secs = (if rq_once_stream rq then None else Some (max timeout_secs 1)),
                     sn_headers_cap_ms = map_option (\<lambda>ms. attempt_cap ms timeout_secs) (al_attempt_timeout_ms lane)\<rparr>
               in forward_once_dispatch w app cd rq i permit pool probe (w_reply w (run_tick s))
                    (s\<lparr>run_sent := run_sent s @ [sent]\<rparr>)))"

end
