(* ===== verification/Engine_Walk.thy ===== *)
theory Engine_Walk
  imports Engine_Attempt
begin

text \<open>
  The failover loop of \<open>src/crates/busbar/src/proxy/engine/mod.rs\<close> and the exhaustion modes of
  \<open>engine/walk.rs\<close>: at most one more attempt than the configured hops, each at a lane that was not
  tried before; and when no lane is left, the pool's \<open>on_exhausted\<close> mode: shed with a
  \<open>Retry-After\<close>, spill to a fallback pool, dispatch to the least bad member, or wait in the queue.

  The chain of fallback pools and the retries inside one are bounded by fuel: every link visits a
  pool not visited before, every retry excludes a lane. \<open>Engine_Total\<close> shows that the fuel given
  here is always enough.

  The program modelled is the release build (\<open>profile.release\<close> of \<open>src/Cargo.toml\<close>), in which a
  \<open>debug_assert!\<close> is compiled out. Two stand in this code, and neither has a counterpart here:
  \<open>debug_assert_within_budget\<close> at the end of \<open>handle_exhaustion_for_pool\<close>, and the one on the deadline
  in \<open>handle_queue\<close>. A debug build can abort at the first: a streamed attempt has no timeout of the
  failover budget, so the last hop may fail, and the request reach exhaustion, long after it.
\<close>

section \<open>Shedding\<close>

definition AT_CAPACITY_RETRY_AFTER_SECS :: u64 where
  "AT_CAPACITY_RETRY_AFTER_SECS = AT_CAPACITY_RECOVERY_FLOOR_MS div 1000"

text \<open>The soonest genuine cooldown of the admissible candidates. Reading a cell may create it.\<close>

fun soonest_cooldown ::
  "'sem HealthState \<Rightarrow> string \<Rightarrow> u64 \<Rightarrow> usize list \<Rightarrow> ('sem HealthState \<times> u64 option) option" where
  "soonest_cooldown h pool now [] = Some (h, None)"
| "soonest_cooldown h pool now (l # ls) =
     do {
       adm \<leftarrow> lane_admissible h l;
       if \<not> adm then soonest_cooldown h pool now ls
       else do {
         (h1, r) \<leftarrow> cooldown_remaining_for h pool l now;
         (h2, best) \<leftarrow> soonest_cooldown h1 pool now ls;
         Some (h2, if r > 0 then Some (case best of None \<Rightarrow> r | Some b \<Rightarrow> min r b) else best) }
     }"

definition retry_after_of :: "u64 option \<Rightarrow> u64" where
  "retry_after_of soonest = max (case soonest of Some secs \<Rightarrow> secs | None \<Rightarrow> AT_CAPACITY_RETRY_AFTER_SECS) 1"

definition handle_status_503 ::
  "'sem World \<Rightarrow> WeightedLane list \<Rightarrow> u64 \<Rightarrow> string \<Rightarrow> 'sem Run \<Rightarrow> ('sem Run \<times> Response) option" where
  "handle_status_503 w cands now pool s =
     do {
       (s1, soonest) \<leftarrow> step w (\<lambda>clk env h. soonest_cooldown h pool now (map wl_idx cands)) s;
       Some (s1, Overloaded503 (retry_after_of soonest))
     }"

definition shed_now :: "'sem World \<Rightarrow> WeightedLane list \<Rightarrow> string \<Rightarrow> 'sem Run \<Rightarrow> ('sem Run \<times> Response) option" where
  "shed_now w cands pool s = (let (s1, now) = read_clock w s in handle_status_503 w cands now pool s1)"

definition timed_out :: Response where
  "timed_out = IngressError 503 ''overloaded'' DETAIL_REQUEST_TIMEOUT"

text \<open>The answer of a degraded attempt, or a shed when it got none.\<close>

definition or_shed ::
  "'sem World \<Rightarrow> WeightedLane list \<Rightarrow> string \<Rightarrow> ('sem Run \<times> Response option) option \<Rightarrow> ('sem Run \<times> Response) option" where
  "or_shed w cands pool res =
     do {
       (s, answer) \<leftarrow> res;
       case answer of Some resp \<Rightarrow> Some (s, resp) | None \<Rightarrow> shed_now w cands pool s
     }"

section \<open>The least bad member\<close>

text \<open>The admissible candidates with their cooldowns, and the first of a ranking with a free permit.\<close>

fun cooldown_keys ::
  "'sem HealthState \<Rightarrow> string \<Rightarrow> u64 \<Rightarrow> usize list \<Rightarrow> ('sem HealthState \<times> (usize \<times> u64) list) option" where
  "cooldown_keys h pool now [] = Some (h, [])"
| "cooldown_keys h pool now (l # ls) =
     do {
       adm \<leftarrow> lane_admissible h l;
       if \<not> adm then cooldown_keys h pool now ls
       else do {
         (h1, r) \<leftarrow> cooldown_remaining_for h pool l now;
         (h2, rest) \<leftarrow> cooldown_keys h1 pool now ls;
         Some (h2, (l, r) # rest) }
     }"

fun first_free :: "'sem sem_ops \<Rightarrow> 'sem HealthState \<Rightarrow> usize list \<Rightarrow> ('sem HealthState \<times> (usize \<times> Permit) option) option" where
  "first_free ops h [] = Some (h, None)"
| "first_free ops h (l # ls) =
     do {
       (h1, permit) \<leftarrow> try_acquire ops h l;
       case permit of Some p \<Rightarrow> Some (h1, Some (l, p)) | None \<Rightarrow> first_free ops h1 ls
     }"

definition least_bad_dispatch ::
  "'sem sem_ops \<Rightarrow> string \<Rightarrow> u64 \<Rightarrow> WeightedLane list \<Rightarrow> 'sem HealthState \<Rightarrow> ('sem HealthState \<times> (usize \<times> Permit) option) option" where
  "least_bad_dispatch ops pool now cands h =
     do {
       (h1, keys) \<leftarrow> cooldown_keys h pool now (map wl_idx cands);
       first_free ops h1 (map fst (sort_key snd keys))
     }"

definition handle_least_bad ::
  "'sem World \<Rightarrow> App \<Rightarrow> Codec \<Rightarrow> Request \<Rightarrow> WeightedLane list \<Rightarrow> u64 \<Rightarrow> string \<Rightarrow> RequestCtx \<Rightarrow> 'sem Run \<Rightarrow>
     ('sem Run \<times> Response) option" where
  "handle_least_bad w app cd rq cands now pool ctx s =
     do {
       (s1, pick) \<leftarrow> step w (\<lambda>clk env h. least_bad_dispatch (w_sem w) pool now cands h) s;
       case pick of
         None \<Rightarrow> handle_status_503 w cands now pool s1
       | Some (i, permit) \<Rightarrow> do {
           (s2, answer) \<leftarrow> forward_once w app cd rq i permit (remaining ctx now) pool None
                            (Option.bind (member_of cands i) wl_reasoning) s1;
           case answer of Some resp \<Rightarrow> Some (s2, resp) | None \<Rightarrow> handle_status_503 w cands now pool s2 }
     }"

section \<open>The queue\<close>

text \<open>The lanes that refused for lack of a permit, once each, in the order they refused.\<close>

fun at_capacity_lanes :: "(usize \<times> Unavailable) list \<Rightarrow> usize list \<Rightarrow> usize list" where
  "at_capacity_lanes [] acc = acc"
| "at_capacity_lanes ((lane, AtCapacity d) # rs) acc =
     at_capacity_lanes rs (if lane \<in> set acc then acc else acc @ [lane])"
| "at_capacity_lanes ((lane, Dead) # rs) acc = at_capacity_lanes rs acc"
| "at_capacity_lanes ((lane, BudgetExhausted) # rs) acc = at_capacity_lanes rs acc"
| "at_capacity_lanes ((lane, BreakerOpen t) # rs) acc = at_capacity_lanes rs acc"
| "at_capacity_lanes ((lane, ProbeInFlight) # rs) acc = at_capacity_lanes rs acc"
| "at_capacity_lanes ((lane, Shedding) # rs) acc = at_capacity_lanes rs acc"

text \<open>The lanes with a semaphore: an unbounded lane has none.\<close>

definition queue_sems :: "'sem HealthState \<Rightarrow> usize list \<Rightarrow> ('sem HealthState \<times> usize list) option" where
  "queue_sems h lanes_at_cap =
     (if list_all (\<lambda>l. lane_semaphore h l \<noteq> None) lanes_at_cap
      then Some (h, filter (\<lambda>l. case lane_semaphore h l of Some (Some x) \<Rightarrow> True | _ \<Rightarrow> False) lanes_at_cap)
      else None)"

text \<open>
  The wait, raced against the deadline: the world says what ends it. A lane's permit is taken from its
  own semaphore; a wake-up with no permit there is none, and the wait ends at the deadline.
  Holding capacity, the waiter still has to pass the breaker; a lane that refuses is dropped
  from the wait set.
\<close>

fun queue_loop ::
  "nat \<Rightarrow> 'sem World \<Rightarrow> App \<Rightarrow> Codec \<Rightarrow> Request \<Rightarrow> WeightedLane list \<Rightarrow> string \<Rightarrow> RequestCtx \<Rightarrow> usize list \<Rightarrow> 'sem Run \<Rightarrow>
     ('sem Run \<times> Response) option" where
  "queue_loop 0 w app cd rq cands pool ctx at_cap s = None"
| "queue_loop (Suc fuel) w app cd rq cands pool ctx at_cap s =
     do {
       (s1, sems) \<leftarrow> step w (\<lambda>clk env h. queue_sems h at_cap) s;
       if sems = [] then shed_now w cands pool s1
       else case w_wake w (run_tick s1) of
         Deadline \<Rightarrow> shed_now w cands pool s1
       | Closed \<Rightarrow> shed_now w cands pool s1
       | Woken lane \<Rightarrow>
           if lane \<notin> set sems then shed_now w cands pool s1
           else do {
             (s2, won) \<leftarrow> step w (\<lambda>clk env h. try_acquire (w_sem w) h lane) s1;
             case won of
               None \<Rightarrow> shed_now w cands pool s2
             | Some permit \<Rightarrow> do {
                 (s3, r) \<leftarrow> step w (\<lambda>clk env h. try_admit_breaker h pool lane (clk 0)) s2;
                 case r of
                   Inr epoch \<Rightarrow>
                     (let (s4, now) = read_clock w s3
                      in or_shed w cands pool
                           (forward_once w app cd rq lane permit (remaining ctx now) pool (Some epoch)
                              (Option.bind (member_of cands lane) wl_reasoning) s4))
                 | Inl reason \<Rightarrow> do {
                     s4 \<leftarrow> drop_in w lane permit s3;
                     let left = filter (\<lambda>l. l \<noteq> lane) at_cap;
                     if left = [] then shed_now w cands pool s4
                     else queue_loop fuel w app cd rq cands pool ctx left s4 } } }
     }"

definition handle_queue ::
  "'sem World \<Rightarrow> App \<Rightarrow> Codec \<Rightarrow> Request \<Rightarrow> WeightedLane list \<Rightarrow> string \<Rightarrow> RequestCtx \<Rightarrow> 'sem Run \<Rightarrow>
     ('sem Run \<times> Response) option" where
  "handle_queue w app cd rq cands pool ctx s =
     (let at_cap = at_capacity_lanes (excluded_reasons ctx) [] in
      if at_cap = [] then shed_now w cands pool s
      else queue_loop (Suc (length at_cap)) w app cd rq cands pool ctx at_cap s)"

section \<open>Fallback pools\<close>

definition pool_members :: "App \<Rightarrow> string \<rightharpoonup> (usize \<rightharpoonup> MemberMeta)" where
  "pool_members app pool = map_option pr_members (app_pool_runtime app pool)"

definition pick_step ::
  "'sem World \<Rightarrow> WeightedLane list \<Rightarrow> u64 option \<Rightarrow> string \<Rightarrow> usize list option \<Rightarrow> RequestCtx \<Rightarrow> 'sem Run \<Rightarrow>
     ('sem Run \<times> RequestCtx \<times> pick option) option" where
  "pick_step w cands aff pool order ctx =
     step w (\<lambda>clk env h. pick_among (w_sem w) clk h cands ctx aff pool order)"

text \<open>
  The members of a fallback pool are tried one after the other; a result \<open>None\<close> is a fallback pool
  that is itself exhausted.
\<close>

fun fallback_loop ::
  "nat \<Rightarrow> 'sem World \<Rightarrow> App \<Rightarrow> Codec \<Rightarrow> Request \<Rightarrow> WeightedLane list \<Rightarrow> string \<Rightarrow> RequestCtx \<Rightarrow> 'sem Run \<Rightarrow>
     ('sem Run \<times> RequestCtx \<times> Response option) option" where
  "fallback_loop 0 w app cd rq cands pool ctx s = None"
| "fallback_loop (Suc fuel) w app cd rq cands pool ctx s =
     (let (s1, now) = read_clock w s in
      if expired ctx now then Some (s1, ctx, Some timed_out)
      else do {
        (s2, ctx1, picked) \<leftarrow> pick_step w cands None pool None ctx s1;
        case picked of
          None \<Rightarrow> Some (s2, ctx1, None)
        | Some (i, permit, epoch) \<Rightarrow>
            (let ctx2 = exclude ctx1 i; (s3, now1) = read_clock w s2 in
             do {
               (s4, answer) \<leftarrow> forward_once w app cd rq i permit (remaining ctx2 now1) pool (Some epoch)
                                (Option.bind (member_of cands i) wl_reasoning) s3;
               case answer of
                 Some resp \<Rightarrow> Some (s4, ctx2, Some resp)
               | None \<Rightarrow> fallback_loop fuel w app cd rq cands pool ctx2 s4 }) })"

definition gate_refusal :: Response where
  "gate_refusal = GateRejected 503 ''overloaded''
     (map of_char (''No upstream satisfies a required gate'' @ [CHR 0x27] @ ''s restriction. Please retry shortly.''))"

text \<open>\<open>resume\<close> is the exhaustion handling of the fallback pool itself.\<close>

definition handle_fallback_pool ::
  "(WeightedLane list \<Rightarrow> u64 \<Rightarrow> string \<Rightarrow> RequestCtx \<Rightarrow> 'sem Run \<Rightarrow> ('sem Run \<times> Response) option) \<Rightarrow>
   'sem World \<Rightarrow> App \<Rightarrow> Codec \<Rightarrow> Request \<Rightarrow> string \<Rightarrow> RequestCtx \<Rightarrow> 'sem Run \<Rightarrow> ('sem Run \<times> Response) option" where
  "handle_fallback_pool resume w app cd rq pool ctx s =
     (let (s1, now) = read_clock w s in
      if expired ctx now then Some (s1, timed_out)
      else if is_pool_visited ctx pool then shed_now w [] pool s1
      else case map_of (app_fallback_pools app) pool of
        None \<Rightarrow> shed_now w [] pool s1
      | Some members \<Rightarrow>
          (case enforce_restricts ctx (pool_members app) pool members of
             Inl name \<Rightarrow> Some (s1, gate_refusal)
           | Inr eligible_cands \<Rightarrow>
               let cands = retain_allowed app pool eligible_cands in
               do {
                 (s2, ctx1, answer) \<leftarrow>
                   fallback_loop (Suc (length cands)) w app cd rq cands pool (mark_pool_visited ctx pool) s1;
                 case answer of
                   Some resp \<Rightarrow> Some (s2, resp)
                 | None \<Rightarrow> (let (s3, now1) = read_clock w s2 in resume cands now1 pool ctx1 s3) }))"

fun handle_exhaustion_for_pool ::
  "nat \<Rightarrow> 'sem World \<Rightarrow> App \<Rightarrow> Codec \<Rightarrow> Request \<Rightarrow> WeightedLane list \<Rightarrow> u64 \<Rightarrow> string \<Rightarrow> RequestCtx \<Rightarrow> 'sem Run \<Rightarrow>
     ('sem Run \<times> Response) option" where
  "handle_exhaustion_for_pool 0 w app cd rq cands now pool ctx s = None"
| "handle_exhaustion_for_pool (Suc fuel) w app cd rq cands now pool ctx0 s =
     (let ctx = mark_pool_visited ctx0 pool in
      case (case app_on_exhausted app pool of None \<Rightarrow> Status503 | Some m \<Rightarrow> m) of
        Status503 \<Rightarrow> handle_status_503 w cands now pool s
      | FallbackPool target \<Rightarrow>
          handle_fallback_pool (handle_exhaustion_for_pool fuel w app cd rq) w app cd rq target ctx s
      | LeastBad \<Rightarrow> handle_least_bad w app cd rq cands now pool ctx s
      | Queue max_ms \<Rightarrow> handle_queue w app cd rq cands pool ctx s)"

definition exhaustion_fuel :: "App \<Rightarrow> nat" where
  "exhaustion_fuel app = Suc (length (app_fallback_pools app))"

definition exhausted ::
  "'sem World \<Rightarrow> App \<Rightarrow> Codec \<Rightarrow> Request \<Rightarrow> WeightedLane list \<Rightarrow> RequestCtx \<Rightarrow> 'sem Run \<Rightarrow> ('sem Run \<times> Response) option" where
  "exhausted w app cd rq cands ctx s =
     (let (s1, now) = read_clock w s
      in handle_exhaustion_for_pool (exhaustion_fuel app) w app cd rq cands now (rq_pool rq) ctx s1)"

section \<open>The failover loop\<close>

text \<open>The first argument counts the attempts left; \<open>first\<close> is as in \<open>hop_payload_error\<close>.\<close>

fun failover_loop ::
  "nat \<Rightarrow> 'sem World \<Rightarrow> App \<Rightarrow> Codec \<Rightarrow> Request \<Rightarrow> WeightedLane list \<Rightarrow> usize list option \<Rightarrow> bool \<Rightarrow> RequestCtx \<Rightarrow>
     'sem Run \<Rightarrow> ('sem Run \<times> Response) option" where
  "failover_loop 0 w app cd rq cands order first ctx s = exhausted w app cd rq cands ctx s"
| "failover_loop (Suc left) w app cd rq cands order first ctx s =
     (let (s1, now) = read_clock w s in
      if expired ctx now then Some (s1, timed_out)
      else do {
        (s2, ctx1, picked) \<leftarrow> pick_step w cands (rq_affinity rq) (rq_pool rq) order ctx s1;
        case picked of
          None \<Rightarrow>
            if cands = [] then Some (s2, IngressError 503 ''overloaded'' DETAIL_OVERLOADED)
            else exhausted w app cd rq cands ctx1 s2
        | Some (i, permit, epoch) \<Rightarrow> do {
            (s3, ctx2, hop) \<leftarrow> attempt w app cd rq cands first i permit epoch (exclude ctx1 i) s2;
            case hop of
              Return resp \<Rightarrow> Some (s3, resp)
            | Next \<Rightarrow> failover_loop left w app cd rq cands order False ctx2 s3 } })"

definition failover_limits :: "App \<Rightarrow> string \<Rightarrow> u64 \<times> usize" where
  "failover_limits app pool =
     (case pool_failover app pool of
        Some f \<Rightarrow> (fo_timeout_secs f, fo_max_hops f)
      | None \<Rightarrow> (DEFAULT_FAILOVER_DEADLINE_SECS, DEFAULT_FAILOVER_CAP))"

end
