(* ===== verification/Hook_Ranking.thy ===== *)
theory Hook_Ranking
  imports Busbar_Prelude "HOL-Library.Multiset"
begin

text \<open>
  The built-in ranking hooks of \<open>src/crates/hooks-ranking/src/lib.rs\<close>, and the part of the hook
  contract of \<open>src/crates/api/src/hooks.rs\<close> they share with every other hook: a candidate as it is
  projected, the decision a hook returns, and the normalisation of a ranked order.

  The signals that are \<open>f64\<close> in the code are rationals here: a projected cost, latency or headroom
  is finite (an operator's number, an average of finite positive samples, a fraction), which is
  also what the code's comparison assumes.
\<close>

section \<open>The hook contract\<close>

record Candidate =
  c_idx :: usize
  c_weight :: u32
  c_context_max :: "usize option"
  c_tags :: "string list"
  c_cost_per_mtok :: "rat option"
  c_latency_ms :: "rat option"
  c_available_concurrency :: usize
  c_budget_remaining :: "i64 option"
  c_rate_headroom :: "rat option"

text \<open>Messages of hooks are arbitrary Unicode, kept as their code points.\<close>

type_synonym code_points = "nat list"

datatype RoutingDecision =
    Prefer "usize list"
  | Abstain
  | RejectDecision nat code_points
  | RestrictDecision "string list"

text \<open>Unknown indices and repetitions are dropped; nothing left is an abstention.\<close>

fun from_ranked_loop :: "usize list \<Rightarrow> usize set \<Rightarrow> usize list \<Rightarrow> usize list \<Rightarrow> usize list" where
  "from_ranked_loop [] valid seen order = order"
| "from_ranked_loop (i # raw) valid seen order =
     (if i \<in> valid \<and> i \<notin> set seen
      then from_ranked_loop raw valid (i # seen) (order @ [i])
      else from_ranked_loop raw valid seen order)"

definition from_ranked :: "usize list \<Rightarrow> usize set \<Rightarrow> RoutingDecision" where
  "from_ranked raw valid =
     (let order = from_ranked_loop raw valid [] [] in if order = [] then Abstain else Prefer order)"

section \<open>Ranking by a signal\<close>

text \<open>The comparison of two keyed candidates, true when the first does not come after the second.\<close>

definition ranks_before ::
  "('k \<Rightarrow> 'k \<Rightarrow> bool) \<Rightarrow> usize \<times> 'k option \<Rightarrow> usize \<times> 'k option \<Rightarrow> bool" where
  "ranks_before precedes x y =
     (case (snd x, snd y) of
        (Some a, Some b) \<Rightarrow> if precedes a b then True else if precedes b a then False else fst x \<le> fst y
      | (Some a, None) \<Rightarrow> True
      | (None, Some b) \<Rightarrow> False
      | (None, None) \<Rightarrow> fst x \<le> fst y)"

fun insert_by :: "('a \<Rightarrow> 'a \<Rightarrow> bool) \<Rightarrow> 'a \<Rightarrow> 'a list \<Rightarrow> 'a list" where
  "insert_by le x [] = [x]"
| "insert_by le x (y # ys) = (if le x y then x # y # ys else y # insert_by le x ys)"

fun sort_by :: "('a \<Rightarrow> 'a \<Rightarrow> bool) \<Rightarrow> 'a list \<Rightarrow> 'a list" where
  "sort_by le [] = []"
| "sort_by le (x # xs) = insert_by le x (sort_by le xs)"

definition rank_by ::
  "('k \<Rightarrow> 'k \<Rightarrow> bool) \<Rightarrow> Candidate list \<Rightarrow> (Candidate \<Rightarrow> 'k option) \<Rightarrow> RoutingDecision" where
  "rank_by precedes candidates key =
     (let keyed = map (\<lambda>c. (c_idx c, key c)) candidates in
      if list_all (\<lambda>(i, k). k = None) keyed then Abstain
      else Prefer (map fst (sort_by (ranks_before precedes) keyed)))"

definition rank_ascending_by :: "Candidate list \<Rightarrow> (Candidate \<Rightarrow> 'k::linorder option) \<Rightarrow> RoutingDecision" where
  "rank_ascending_by candidates key = rank_by (\<lambda>a b. a < b) candidates key"

definition rank_descending_by :: "Candidate list \<Rightarrow> (Candidate \<Rightarrow> 'k::linorder option) \<Rightarrow> RoutingDecision" where
  "rank_descending_by candidates key = rank_by (\<lambda>a b. b < a) candidates key"

section \<open>The native policies\<close>

datatype NativePolicy = WeightedPolicy | CheapestPolicy | FastestPolicy | LeastBusyPolicy | UsagePolicy

fun native_decide :: "NativePolicy \<Rightarrow> Candidate list \<Rightarrow> RoutingDecision" where
  "native_decide WeightedPolicy candidates = Abstain"
| "native_decide CheapestPolicy candidates = rank_ascending_by candidates c_cost_per_mtok"
| "native_decide FastestPolicy candidates = rank_ascending_by candidates c_latency_ms"
| "native_decide LeastBusyPolicy candidates = rank_descending_by candidates (\<lambda>c. Some (c_available_concurrency c))"
| "native_decide UsagePolicy candidates = rank_descending_by candidates c_rate_headroom"

fun native_name :: "NativePolicy \<Rightarrow> string" where
  "native_name WeightedPolicy = ''weighted''"
| "native_name CheapestPolicy = ''cheapest''"
| "native_name FastestPolicy = ''fastest''"
| "native_name LeastBusyPolicy = ''least_busy''"
| "native_name UsagePolicy = ''usage''"

definition native_policy :: "string \<Rightarrow> NativePolicy option" where
  "native_policy name =
     (if name = ''weighted'' then Some WeightedPolicy
      else if name = ''cheapest'' then Some CheapestPolicy
      else if name = ''fastest'' then Some FastestPolicy
      else if name = ''least_busy'' then Some LeastBusyPolicy
      else if name = ''usage'' then Some UsagePolicy
      else None)"

section \<open>Sorting by a comparison\<close>

text \<open>
  A comparison that is total and transitive sorts; both comparisons of the native policies are.
\<close>

locale ranking =
  fixes le :: "'a \<Rightarrow> 'a \<Rightarrow> bool"
  assumes total: "le x y \<or> le y x"
    and trans: "le x y \<Longrightarrow> le y z \<Longrightarrow> le x z"
begin

lemma mset_insert: "mset (insert_by le x xs) = add_mset x (mset xs)"
  by (induction xs) auto

lemma mset_sort: "mset (sort_by le xs) = mset xs"
  by (induction xs) (simp_all add: mset_insert)

lemma set_insert: "set (insert_by le x xs) = Set.insert x (set xs)"
  by (induction xs) auto

lemma sorted_insert: "sorted_wrt le xs \<Longrightarrow> sorted_wrt le (insert_by le x xs)"
proof (induction xs)
  case (Cons y ys)
  then show ?case
    using total [of x y] by (auto simp: set_insert intro: trans)
qed simp

lemma sorted_sort: "sorted_wrt le (sort_by le xs)"
  by (induction xs) (simp_all add: sorted_insert)

end

lemma ranks_before_ranking:
  fixes precedes :: "'k \<Rightarrow> 'k \<Rightarrow> bool"
  assumes irrefl: "\<And>a. \<not> precedes a a" and tr: "\<And>a b c. precedes a b \<Longrightarrow> precedes b c \<Longrightarrow> precedes a c"
    and lin: "\<And>a b. precedes a b \<or> a = b \<or> precedes b a"
  shows "ranking (ranks_before precedes)"
proof
  have asym: "\<not> (precedes a b \<and> precedes b a)" for a b using irrefl [of a] tr [of a b a] by blast
  have both: "ranks_before precedes (i, Some a) (j, Some b) \<longleftrightarrow> precedes a b \<or> (a = b \<and> i \<le> j)" for i j a b
    using irrefl lin [of a b] asym [of a b] by (auto simp: ranks_before_def)
  have rest: "ranks_before precedes (i, Some a) (j, None)" "\<not> ranks_before precedes (i, None) (j, Some b)"
    "ranks_before precedes (i, None) (j, None) \<longleftrightarrow> i \<le> j" for i j a b
    by (simp_all add: ranks_before_def)
  fix x y z :: "usize \<times> 'k option"
  obtain i a j b k c where x: "x = (i, a)" and y: "y = (j, b)" and z: "z = (k, c)" by (metis surj_pair)
  show "ranks_before precedes x y \<or> ranks_before precedes y x"
    using lin [of "the a" "the b"] unfolding x y by (cases a; cases b) (auto simp: both rest)
  assume "ranks_before precedes x y" "ranks_before precedes y z"
  then show "ranks_before precedes x z"
    using tr [of "the a" "the b" "the c"] unfolding x y z by (cases a; cases b; cases c) (auto simp: both rest)
qed

interpretation ascending: ranking "ranks_before (\<lambda>a b :: 'k::linorder. a < b)"
  by (rule ranks_before_ranking) (auto simp: not_less order.order_iff_strict)

interpretation descending: ranking "ranks_before (\<lambda>a b :: 'k::linorder. b < a)"
  by (rule ranks_before_ranking) (auto simp: not_less order.order_iff_strict)

section \<open>What a native policy returns\<close>

text \<open>\<open>prefers\<close> is the promise: a known signal before an unknown one, the better value first.\<close>

definition prefers :: "('k \<Rightarrow> 'k \<Rightarrow> bool) \<Rightarrow> 'k option \<Rightarrow> 'k option \<Rightarrow> bool" where
  "prefers precedes a b =
     (case (a, b) of (Some x, Some y) \<Rightarrow> precedes x y | (Some x, None) \<Rightarrow> True | (None, y) \<Rightarrow> False)"

definition prefers_candidate :: "NativePolicy \<Rightarrow> Candidate \<Rightarrow> Candidate \<Rightarrow> bool" where
  "prefers_candidate p c d =
     (case p of
        WeightedPolicy \<Rightarrow> False
      | CheapestPolicy \<Rightarrow> prefers (\<lambda>a b. a < b) (c_cost_per_mtok c) (c_cost_per_mtok d)
      | FastestPolicy \<Rightarrow> prefers (\<lambda>a b. a < b) (c_latency_ms c) (c_latency_ms d)
      | LeastBusyPolicy \<Rightarrow> c_available_concurrency d < c_available_concurrency c
      | UsagePolicy \<Rightarrow> prefers (\<lambda>a b. b < a) (c_rate_headroom c) (c_rate_headroom d))"

definition has_opinion :: "NativePolicy \<Rightarrow> Candidate list \<Rightarrow> bool" where
  "has_opinion p candidates =
     (case p of
        WeightedPolicy \<Rightarrow> False
      | CheapestPolicy \<Rightarrow> list_ex (\<lambda>c. c_cost_per_mtok c \<noteq> None) candidates
      | FastestPolicy \<Rightarrow> list_ex (\<lambda>c. c_latency_ms c \<noteq> None) candidates
      | LeastBusyPolicy \<Rightarrow> candidates \<noteq> []
      | UsagePolicy \<Rightarrow> list_ex (\<lambda>c. c_rate_headroom c \<noteq> None) candidates)"

definition ranked_as :: "(Candidate \<Rightarrow> Candidate \<Rightarrow> bool) \<Rightarrow> Candidate list \<Rightarrow> usize list \<Rightarrow> bool" where
  "ranked_as better candidates order \<longleftrightarrow>
     (\<exists>cs. mset cs = mset candidates \<and> order = map c_idx cs \<and> sorted_wrt (\<lambda>c d. \<not> better d c) cs)"

lemma insert_by_map: "insert_by le (f x) (map f xs) = map f (insert_by (\<lambda>a b. le (f a) (f b)) x xs)"
  by (induction xs) auto

lemma sort_by_map: "sort_by le (map f xs) = map f (sort_by (\<lambda>a b. le (f a) (f b)) xs)"
  by (induction xs) (simp_all add: insert_by_map)

lemma ranking_vimage: "ranking le \<Longrightarrow> ranking (\<lambda>x y. le (f x) (f y))"
  unfolding ranking_def by blast

lemma ranks_before_prefers:
  assumes "\<And>a b. precedes a b \<Longrightarrow> \<not> precedes b a" and "ranks_before precedes (i, a) (j, b)"
  shows "\<not> prefers precedes b a"
  using assms by (auto simp: ranks_before_def prefers_def split: option.splits if_splits)

lemma rank_by_ranked:
  assumes r: "ranking (ranks_before precedes)" and asym: "\<And>a b. precedes a b \<Longrightarrow> \<not> precedes b a"
  shows "case rank_by precedes candidates key of
      Prefer order \<Rightarrow> list_ex (\<lambda>c. key c \<noteq> None) candidates
        \<and> ranked_as (\<lambda>c d. prefers precedes (key c) (key d)) candidates order
    | Abstain \<Rightarrow> \<not> list_ex (\<lambda>c. key c \<noteq> None) candidates
    | other \<Rightarrow> False"
proof -
  let ?f = "\<lambda>c. (c_idx c, key c)"
  let ?le = "\<lambda>c d. ranks_before precedes (?f c) (?f d)"
  let ?cs = "sort_by ?le candidates"
  have rk: "ranking ?le" by (rule ranking_vimage [OF r])
  have "sorted_wrt (\<lambda>c d. \<not> prefers precedes (key d) (key c)) ?cs"
    by (rule sorted_wrt_mono_rel [OF _ ranking.sorted_sort [OF rk]]) (rule ranks_before_prefers [OF asym])
  then have "ranked_as (\<lambda>c d. prefers precedes (key c) (key d)) candidates (map c_idx ?cs)"
    using ranking.mset_sort [OF rk] by (auto simp: ranked_as_def)
  moreover have "map fst (sort_by (ranks_before precedes) (map ?f candidates)) = map c_idx ?cs"
    by (simp add: sort_by_map)
  moreover have "list_all (\<lambda>(i, k). k = None) (map ?f candidates) = (\<not> list_ex (\<lambda>c. key c \<noteq> None) candidates)"
    by (auto simp: list_all_iff list_ex_iff)
  ultimately show ?thesis by (simp add: rank_by_def Let_def)
qed

lemma ascending_ranked:
  "case rank_ascending_by candidates key of
      Prefer order \<Rightarrow> list_ex (\<lambda>c. key c \<noteq> None) candidates
        \<and> ranked_as (\<lambda>c d. prefers (\<lambda>a b. a < b) (key c) (key d)) candidates order
    | Abstain \<Rightarrow> \<not> list_ex (\<lambda>c. key c \<noteq> None) candidates
    | other \<Rightarrow> False"
  unfolding rank_ascending_by_def by (rule rank_by_ranked [OF ascending.ranking_axioms]) auto

lemma descending_ranked:
  "case rank_descending_by candidates key of
      Prefer order \<Rightarrow> list_ex (\<lambda>c. key c \<noteq> None) candidates
        \<and> ranked_as (\<lambda>c d. prefers (\<lambda>a b. b < a) (key c) (key d)) candidates order
    | Abstain \<Rightarrow> \<not> list_ex (\<lambda>c. key c \<noteq> None) candidates
    | other \<Rightarrow> False"
  unfolding rank_descending_by_def by (rule rank_by_ranked [OF descending.ranking_axioms]) auto

lemma prefers_candidate_eqs:
  "prefers_candidate CheapestPolicy = (\<lambda>c d. prefers (\<lambda>a b. a < b) (c_cost_per_mtok c) (c_cost_per_mtok d))"
  "prefers_candidate FastestPolicy = (\<lambda>c d. prefers (\<lambda>a b. a < b) (c_latency_ms c) (c_latency_ms d))"
  "prefers_candidate LeastBusyPolicy = (\<lambda>c d. c_available_concurrency d < c_available_concurrency c)"
  "prefers_candidate UsagePolicy = (\<lambda>c d. prefers (\<lambda>a b. b < a) (c_rate_headroom c) (c_rate_headroom d))"
  by (simp_all add: fun_eq_iff prefers_candidate_def)

text \<open>
  A native ranking policy returns a permutation of the candidates it was shown, best signal
  first and every candidate without a signal behind those with one, so that it never drops a lane;
  and it abstains exactly when no candidate has its signal.
\<close>

lemma native_policy_ranks:
  "case native_decide p candidates of
     Prefer order \<Rightarrow> has_opinion p candidates \<and> ranked_as (prefers_candidate p) candidates order
   | Abstain \<Rightarrow> \<not> has_opinion p candidates
   | other \<Rightarrow> False"
proof (cases p)
  case LeastBusyPolicy
  from descending_ranked [of "\<lambda>c. Some (c_available_concurrency c)" candidates] show ?thesis
    by (cases candidates)
      (simp_all add: LeastBusyPolicy has_opinion_def prefers_candidate_eqs prefers_def split: RoutingDecision.splits)
qed (use ascending_ranked [of c_cost_per_mtok candidates] ascending_ranked [of c_latency_ms candidates]
       descending_ranked [of c_rate_headroom candidates]
     in \<open>simp_all add: has_opinion_def prefers_candidate_eqs split: RoutingDecision.splits\<close>)

section \<open>Normalising an order\<close>

lemma from_ranked_loop_app:
  "distinct order \<Longrightarrow> set seen = set order \<Longrightarrow>
   \<exists>more. from_ranked_loop raw valid seen order = order @ more \<and> distinct (order @ more)
     \<and> set (order @ more) = set order \<union> (set raw \<inter> valid)"
proof (induction raw valid seen order rule: from_ranked_loop.induct)
  case (2 i raw valid seen order)
  show ?case
  proof (cases "i \<in> valid \<and> i \<notin> set seen")
    case True
    then obtain more where "from_ranked_loop raw valid (i # seen) (order @ [i]) = (order @ [i]) @ more"
      "distinct ((order @ [i]) @ more)" "set ((order @ [i]) @ more) = set (order @ [i]) \<union> (set raw \<inter> valid)"
      using 2 by fastforce
    with True show ?thesis by (intro exI [of _ "i # more"]) auto
  next
    case False
    with 2(2) [OF False 2(3,4)] 2(4) show ?thesis by auto
  qed
qed simp

lemma from_ranked_sound:
  "case from_ranked raw valid of
     Prefer order \<Rightarrow> distinct order \<and> set order = set raw \<inter> valid \<and> order \<noteq> []
   | Abstain \<Rightarrow> set raw \<inter> valid = {}
   | other \<Rightarrow> False"
proof -
  obtain more where "from_ranked_loop raw valid [] [] = [] @ more" "distinct ([] @ more)"
    "set ([] @ more) = set [] \<union> (set raw \<inter> valid)"
    using from_ranked_loop_app [of "[]" "[]" raw valid] by auto
  then show ?thesis by (auto simp: from_ranked_def Let_def)
qed

end
