(* ===== verification/Engine_Gates.thy ===== *)
theory Engine_Gates
  imports Engine_Walk Hook_Ranking
begin

text \<open>
  The decision gates and the routing policy of a request, and the entry of the engine:
  \<open>src/crates/busbar/src/proxy/hooks.rs\<close> (\<open>decide_policy_order\<close>, \<open>run_on_error_chain\<close>,
  \<open>map_decision\<close>, \<open>coerce_on_error\<close>), the sanitizers of \<open>hooks/wire.rs\<close>, and the part of
  \<open>forward_with_pool_parsed_inner\<close> (\<open>proxy/engine/mod.rs\<close>) before the failover loop: the filter by
  operation, the rewrite pass, the blocklist, the reconciliation of the gates' verdicts in three
  steps (reject wins, restricts intersect, the last order wins), and the pool's base policy.

  A hook that is a plugin is foreign code: \<open>Hooks\<close> gives what it replies at each moment to the
  candidates it is shown, \<open>None\<close> for an error or a timeout. What else a hook is shown (the shape
  of the body, the caller, the budgets) is fixed for the request and part of that argument. A
  rewrite hook's reply is its raw JSON, read by \<open>transform_outcome\<close> of \<open>hooks/wire.rs\<close>.
\<close>

section \<open>Gates and policies\<close>

datatype Policy = Native NativePolicy | External string

record FallbackHook =
  fh_policy :: Policy
  fh_on_empty :: PolicyOnError

record ResolvedPolicy =
  rp_policy :: Policy
  rp_on_error :: PolicyOnError
  rp_on_error_chain :: "FallbackHook list"
  rp_on_empty :: PolicyOnError

text \<open>
  The value of a JSON text (\<open>serde_json::Value\<close>): a number is an integer or a float, which no
  operation here reads; the keys of an object are distinct.
\<close>

datatype Json =
    JNull
  | JBool bool
  | JInteger int
  | JFloat rat
  | JText code_points
  | JArray "Json list"
  | JObject "(string \<times> Json) list"

text \<open>A hook's reply; a JSON \<open>null\<close> is absent. The transform path reads \<open>reject\<close> and \<open>rewrite\<close> only.\<close>

record HookResponse =
  hr_order :: "usize list option"
  hr_abstain :: bool
  hr_reject :: "Json option"
  hr_restrict :: "Json option"
  hr_rewrite :: "Json option"

record RewriteReply =
  rw_messages :: "Json list"
  rw_tools :: "Json list"

datatype TransformOutcome = Rewrite RewriteReply | TransformReject nat code_points | TransformAbstain

record Hooks =
  hk_decide :: "nat \<Rightarrow> string \<Rightarrow> Candidate list \<Rightarrow> RoutingDecision option"
  hk_latency_of_bits :: "u64 \<Rightarrow> rat"
  hk_cost_per_mtok :: "string \<Rightarrow> usize \<Rightarrow> rat option"
  hk_rate_headroom :: "nat \<Rightarrow> rat option"
  hk_supports :: "string \<Rightarrow> bool"
  hk_dom_parses :: bool
  hk_serializes :: bool
  hk_applies :: "RewriteReply \<Rightarrow> bool"

text \<open>
  The gates of the process and of each pool, with their priorities, and each pool's policy; and what
  the rewrite hooks reply, \<open>None\<close> for a timeout, an error or a reply that is no response of a hook.
\<close>

record GateConfig =
  gc_global_gates :: "(nat \<times> ResolvedPolicy) list"
  gc_pool_gates :: "string \<Rightarrow> (nat \<times> ResolvedPolicy) list"
  gc_policy :: "string \<rightharpoonup> ResolvedPolicy"
  gc_rewrites :: "HookResponse option list"
  gc_pool_rewrites :: "string \<Rightarrow> HookResponse option list"

datatype PolicyOutcome =
    OrderOutcome "usize list" string
  | WeightedOutcome
  | RejectOutcome
  | RejectRequest nat code_points string
  | RestrictOutcome "string list" string PolicyOnError

section \<open>Sanitizing a rejection\<close>

definition REJECT_STATUS_DEFAULT :: nat where "REJECT_STATUS_DEFAULT = 403"
definition REJECT_MESSAGE_MAX_CHARS :: nat where "REJECT_MESSAGE_MAX_CHARS = 300"
definition REJECT_MESSAGE_DEFAULT :: code_points where
  "REJECT_MESSAGE_DEFAULT = map of_char ''Request rejected by the routing policy.''"

definition clamp_reject_status :: "nat \<Rightarrow> nat" where
  "clamp_reject_status status = (if 400 \<le> status \<and> status \<le> 499 then status else REJECT_STATUS_DEFAULT)"

text \<open>\<open>char::is_control\<close> and \<open>char::is_whitespace\<close>.\<close>

definition is_control :: "nat \<Rightarrow> bool" where
  "is_control c \<longleftrightarrow> c < 32 \<or> (127 \<le> c \<and> c < 160)"

definition is_whitespace :: "nat \<Rightarrow> bool" where
  "is_whitespace c \<longleftrightarrow> (9 \<le> c \<and> c \<le> 13) \<or> c = 32 \<or> c = 133 \<or> c = 160 \<or> c = 5760 \<or> (8192 \<le> c \<and> c \<le> 8202)
     \<or> c = 8232 \<or> c = 8233 \<or> c = 8239 \<or> c = 8287 \<or> c = 12288"

text \<open>U+2028 and U+2029, U+200B to U+200F, U+202A to U+202E, U+2066 to U+2069, and U+FEFF.\<close>

definition is_invisible :: "nat \<Rightarrow> bool" where
  "is_invisible c \<longleftrightarrow> c = 8232 \<or> c = 8233 \<or> (8203 \<le> c \<and> c \<le> 8207) \<or> (8234 \<le> c \<and> c \<le> 8238)
     \<or> (8294 \<le> c \<and> c \<le> 8297) \<or> c = 65279"

definition sanitize_reject_message :: "code_points \<Rightarrow> code_points" where
  "sanitize_reject_message raw =
     (let message = take REJECT_MESSAGE_MAX_CHARS (filter (\<lambda>c. \<not> is_control c \<and> \<not> is_invisible c) raw) in
      if list_all is_whitespace message then REJECT_MESSAGE_DEFAULT else message)"

definition reject_kind_for_status :: "nat \<Rightarrow> string" where
  "reject_kind_for_status status =
     (if status = 401 then ''authentication_error''
      else if status = 403 then ''permission_error''
      else if status = 404 then ''not_found_error''
      else if status = 408 then ''timeout''
      else if status = 429 then ''rate_limit_error''
      else ''invalid_request_error'')"

section \<open>The reply of a rewrite hook\<close>

definition json_get :: "Json \<Rightarrow> string \<Rightarrow> Json option" where
  "json_get v key = (case v of JObject members \<Rightarrow> map_of members key | _ \<Rightarrow> None)"

definition as_i64 :: "Json \<Rightarrow> int option" where
  "as_i64 v = (case v of JInteger n \<Rightarrow> if - (2 ^ 63) \<le> n \<and> n < 2 ^ 63 then Some n else None | _ \<Rightarrow> None)"

definition as_str :: "Json \<Rightarrow> code_points option" where
  "as_str v = (case v of JText t \<Rightarrow> Some t | _ \<Rightarrow> None)"

definition as_array :: "Json \<Rightarrow> Json list option" where
  "as_array v = (case v of JArray xs \<Rightarrow> Some xs | _ \<Rightarrow> None)"

definition u16_try_from :: "int \<Rightarrow> nat option" where
  "u16_try_from n = (if 0 \<le> n \<and> n < 2 ^ 16 then Some (nat n) else None)"

definition parse_reject_detail :: "Json \<Rightarrow> nat \<times> code_points" where
  "parse_reject_detail reject =
     (let status = (case Option.bind (Option.bind (json_get reject ''status'') as_i64) u16_try_from of
                      Some n \<Rightarrow> clamp_reject_status n
                    | None \<Rightarrow> REJECT_STATUS_DEFAULT);
          message = (case Option.bind (json_get reject ''message'') as_str of Some m \<Rightarrow> m | None \<Rightarrow> [])
      in (status, sanitize_reject_message message))"

definition parse_rewrite :: "Json \<Rightarrow> RewriteReply option" where
  "parse_rewrite v =
     do {
       messages \<leftarrow> Option.bind (json_get v ''messages'') as_array;
       if messages = [] then None
       else Some \<lparr>rw_messages = messages,
                  rw_tools = (case Option.bind (json_get v ''tools'') as_array of Some ts \<Rightarrow> ts | None \<Rightarrow> [])\<rparr>
     }"

text \<open>Any rejection but an explicit \<open>false\<close> rejects, however malformed its details are.\<close>

definition transform_outcome :: "HookResponse \<Rightarrow> TransformOutcome" where
  "transform_outcome parsed =
     (let rewrite_or_abstain = (case Option.bind (hr_rewrite parsed) parse_rewrite of
                                  Some rw \<Rightarrow> Rewrite rw
                                | None \<Rightarrow> TransformAbstain)
      in case hr_reject parsed of
           Some reject \<Rightarrow>
             if reject \<noteq> JBool False then (case parse_reject_detail reject of (status, message) \<Rightarrow> TransformReject status message)
             else rewrite_or_abstain
         | None \<Rightarrow> rewrite_or_abstain)"

definition transform :: "HookResponse option \<Rightarrow> TransformOutcome" where
  "transform reply = (case reply of Some parsed \<Rightarrow> transform_outcome parsed | None \<Rightarrow> TransformAbstain)"

section \<open>One decision\<close>

definition lane_latency_ms :: "Hooks \<Rightarrow> 'sem HealthState \<Rightarrow> usize \<Rightarrow> rat option option" where
  "lane_latency_ms hk h lane =
     do {
       ls \<leftarrow> get_lane h lane;
       Some (if ls_latency_ewma_bits ls = 0 then None else Some (hk_latency_of_bits hk (ls_latency_ewma_bits ls)))
     }"

definition project_candidate ::
  "Hooks \<Rightarrow> 'sem sem_ops \<Rightarrow> App \<Rightarrow> string \<Rightarrow> rat option \<Rightarrow> 'sem HealthState \<Rightarrow> WeightedLane \<Rightarrow> Candidate option" where
  "project_candidate hk ops app pool headroom h wl =
     do {
       latency \<leftarrow> lane_latency_ms hk h (wl_idx wl);
       permits \<leftarrow> available_permits ops h (wl_idx wl);
       budget \<leftarrow> lane_budget_remaining h (wl_idx wl);
       Some \<lparr>c_idx = wl_idx wl, c_weight = wl_weight wl, c_context_max = al_context_max (app_lanes app ! wl_idx wl),
             c_tags = (case Option.bind (pool_members app pool) (\<lambda>m. m (wl_idx wl)) of
                         None \<Rightarrow> [] | Some meta \<Rightarrow> meta_tags meta),
             c_cost_per_mtok = hk_cost_per_mtok hk pool (wl_idx wl), c_latency_ms = latency,
             c_available_concurrency = permits, c_budget_remaining = budget, c_rate_headroom = headroom\<rparr>
     }"

definition project_candidates ::
  "Hooks \<Rightarrow> 'sem sem_ops \<Rightarrow> App \<Rightarrow> string \<Rightarrow> rat option \<Rightarrow> WeightedLane list \<Rightarrow> 'sem HealthState \<Rightarrow> Candidate list option" where
  "project_candidates hk ops app pool headroom live h = those (map (project_candidate hk ops app pool headroom h) live)"

fun policy_name :: "Policy \<Rightarrow> string" where
  "policy_name (Native p) = native_name p"
| "policy_name (External name) = name"

fun policy_decide :: "Hooks \<Rightarrow> nat \<Rightarrow> Policy \<Rightarrow> Candidate list \<Rightarrow> RoutingDecision option" where
  "policy_decide hk t (Native p) candidates = Some (native_decide p candidates)"
| "policy_decide hk t (External name) candidates = hk_decide hk t name candidates"

definition map_decision :: "RoutingDecision \<Rightarrow> string \<Rightarrow> Candidate list \<Rightarrow> PolicyOnError \<Rightarrow> PolicyOutcome" where
  "map_decision decision name candidates oe =
     (case decision of
        Prefer order \<Rightarrow>
          (case from_ranked order (c_idx ` set candidates) of
             Prefer o' \<Rightarrow> OrderOutcome o' name
           | Abstain \<Rightarrow> WeightedOutcome
           | RejectDecision st m \<Rightarrow> WeightedOutcome
           | RestrictDecision tags \<Rightarrow> WeightedOutcome)
      | Abstain \<Rightarrow> WeightedOutcome
      | RejectDecision status message \<Rightarrow>
          RejectRequest (clamp_reject_status status) (sanitize_reject_message message) name
      | RestrictDecision tags \<Rightarrow> RestrictOutcome tags name oe)"

fun coerce_on_error :: "PolicyOnError \<Rightarrow> Candidate list \<Rightarrow> string \<Rightarrow> PolicyOutcome" where
  "coerce_on_error Weighted candidates name = WeightedOutcome"
| "coerce_on_error Reject candidates name = RejectOutcome"
| "coerce_on_error First candidates name = OrderOutcome (map c_idx candidates) name"

fun run_on_error_chain ::
  "Hooks \<Rightarrow> nat \<Rightarrow> FallbackHook list \<Rightarrow> PolicyOnError \<Rightarrow> Candidate list \<Rightarrow> string \<Rightarrow> PolicyOutcome" where
  "run_on_error_chain hk t [] terminal candidates failed = coerce_on_error terminal candidates failed"
| "run_on_error_chain hk t (fb # chain) terminal candidates failed =
     (case policy_decide hk t (fh_policy fb) candidates of
        Some decision \<Rightarrow> map_decision decision (policy_name (fh_policy fb)) candidates (fh_on_empty fb)
      | None \<Rightarrow> run_on_error_chain hk t chain terminal candidates failed)"

definition decide_policy_order ::
  "'sem World \<Rightarrow> Hooks \<Rightarrow> App \<Rightarrow> ResolvedPolicy \<Rightarrow> WeightedLane list \<Rightarrow> RequestCtx \<Rightarrow> string \<Rightarrow> 'sem Run \<Rightarrow>
     ('sem Run \<times> PolicyOutcome) option" where
  "decide_policy_order w hk app resolved cands ctx pool s =
     (let live = fill_candidates ctx cands in
      if live = [] then Some (s, WeightedOutcome)
      else do {
        (s1, candidates) \<leftarrow> step w (\<lambda>clk env h.
           map_option (Pair h) (project_candidates hk (w_sem w) app pool (hk_rate_headroom hk (run_tick s)) live h)) s;
        Some (s1,
          case policy_decide hk (run_tick s1) (rp_policy resolved) candidates of
            Some decision \<Rightarrow> map_decision decision (policy_name (rp_policy resolved)) candidates (rp_on_empty resolved)
          | None \<Rightarrow> run_on_error_chain hk (run_tick s1) (rp_on_error_chain resolved) (rp_on_error resolved) candidates
                      (policy_name (rp_policy resolved)))
      })"

section \<open>The verdicts of the gates\<close>

text \<open>The gates fire together on the candidates of the start; their outcomes come in chain order.\<close>

fun fire_gates ::
  "'sem World \<Rightarrow> Hooks \<Rightarrow> App \<Rightarrow> ResolvedPolicy list \<Rightarrow> WeightedLane list \<Rightarrow> RequestCtx \<Rightarrow> string \<Rightarrow> 'sem Run \<Rightarrow>
     ('sem Run \<times> PolicyOutcome list) option" where
  "fire_gates w hk app [] cands ctx pool s = Some (s, [])"
| "fire_gates w hk app (g # gs) cands ctx pool s =
     do {
       (s1, out) \<leftarrow> decide_policy_order w hk app g cands ctx pool s;
       (s2, outs) \<leftarrow> fire_gates w hk app gs cands ctx pool s1;
       Some (s2, out # outs)
     }"

definition gate_chain :: "GateConfig \<Rightarrow> string \<Rightarrow> ResolvedPolicy list" where
  "gate_chain gc pool = map snd (sort_key fst (gc_global_gates gc @ gc_pool_gates gc pool))"

text \<open>Step 1: the first rejection of the chain.\<close>

fun first_rejection :: "PolicyOutcome list \<Rightarrow> Response option" where
  "first_rejection [] = None"
| "first_rejection (RejectRequest status message name # outs) =
     Some (GateRejected status (reject_kind_for_status status) message)"
| "first_rejection (RejectOutcome # outs) =
     Some (GateRejected 503 ''overloaded'' (map of_char ''A required gate could not complete. Please retry shortly.''))"
| "first_rejection (OrderOutcome order name # outs) = first_rejection outs"
| "first_rejection (WeightedOutcome # outs) = first_rejection outs"
| "first_rejection (RestrictOutcome tags name oe # outs) = first_rejection outs"

text \<open>Step 2: the restricts, each remembered for the fallback pools, shrink the candidates.\<close>

definition push_restrict :: "RequestCtx \<Rightarrow> RestrictConstraint \<Rightarrow> RequestCtx" where
  "push_restrict ctx r = ctx\<lparr>active_restricts := active_restricts ctx @ [r]\<rparr>"

fun restrict_pass ::
  "(usize \<rightharpoonup> MemberMeta) option \<Rightarrow> PolicyOutcome list \<Rightarrow> RequestCtx \<Rightarrow> WeightedLane list \<Rightarrow>
     Response + RequestCtx \<times> WeightedLane list" where
  "restrict_pass members [] ctx cands = Inr (ctx, cands)"
| "restrict_pass members (RestrictOutcome tags name oe # outs) ctx cands =
     (let r = \<lparr>tags_any = tags, on_empty = oe, restrict_name = name\<rparr>;
          restricted = filter (eligible members r) cands in
      if restricted = []
      then if oe = Weighted then restrict_pass members outs (push_restrict ctx r) cands else Inl gate_refusal
      else restrict_pass members outs (push_restrict ctx r) restricted)"
| "restrict_pass members (OrderOutcome order name # outs) ctx cands = restrict_pass members outs ctx cands"
| "restrict_pass members (WeightedOutcome # outs) ctx cands = restrict_pass members outs ctx cands"
| "restrict_pass members (RejectOutcome # outs) ctx cands = restrict_pass members outs ctx cands"
| "restrict_pass members (RejectRequest st m name # outs) ctx cands = restrict_pass members outs ctx cands"

text \<open>Step 3: the last order of the chain, filtered to the surviving candidates.\<close>

fun last_order :: "usize set \<Rightarrow> PolicyOutcome list \<Rightarrow> usize list option \<Rightarrow> usize list option" where
  "last_order surviving [] acc = acc"
| "last_order surviving (OrderOutcome order name # outs) acc =
     (let filtered = filter (\<lambda>i. i \<in> surviving) order
      in last_order surviving outs (if filtered \<noteq> [] then Some filtered else None))"
| "last_order surviving (WeightedOutcome # outs) acc = last_order surviving outs acc"
| "last_order surviving (RejectOutcome # outs) acc = last_order surviving outs acc"
| "last_order surviving (RejectRequest st m name # outs) acc = last_order surviving outs acc"
| "last_order surviving (RestrictOutcome tags name oe # outs) acc = last_order surviving outs acc"

definition reconcile ::
  "(usize \<rightharpoonup> MemberMeta) option \<Rightarrow> PolicyOutcome list \<Rightarrow> RequestCtx \<Rightarrow> WeightedLane list \<Rightarrow>
     Response + RequestCtx \<times> WeightedLane list \<times> usize list option" where
  "reconcile members outs ctx cands =
     (case first_rejection outs of
        Some resp \<Rightarrow> Inl resp
      | None \<Rightarrow>
          (case restrict_pass members outs ctx cands of
             Inl resp \<Rightarrow> Inl resp
           | Inr (ctx1, cands1) \<Rightarrow> Inr (ctx1, cands1, last_order (wl_idx ` set cands1) outs None)))"

section \<open>The base policy\<close>

definition policy_refusal :: Response where
  "policy_refusal = GateRejected 503 ''overloaded''
     (map of_char (''No upstream satisfies the routing policy'' @ [CHR 0x27] @ ''s restriction. Please retry shortly.''))"

fun apply_base ::
  "(usize \<rightharpoonup> MemberMeta) option \<Rightarrow> PolicyOutcome \<Rightarrow> RequestCtx \<Rightarrow> WeightedLane list \<Rightarrow>
     Response + RequestCtx \<times> WeightedLane list \<times> usize list option" where
  "apply_base members (OrderOutcome order name) ctx cands = Inr (ctx, cands, Some order)"
| "apply_base members WeightedOutcome ctx cands = Inr (ctx, cands, None)"
| "apply_base members RejectOutcome ctx cands =
     Inl (GateRejected 503 ''overloaded''
       (map of_char ''The routing policy could not select an upstream. Please retry shortly.''))"
| "apply_base members (RejectRequest status message name) ctx cands =
     Inl (GateRejected status (reject_kind_for_status status) message)"
| "apply_base members (RestrictOutcome tags name oe) ctx cands =
     (let r = \<lparr>tags_any = tags, on_empty = oe, restrict_name = name\<rparr>;
          restricted = filter (eligible members r) cands in
      if restricted = []
      then if oe = Weighted then Inr (push_restrict ctx r, cands, None) else Inl policy_refusal
      else Inr (push_restrict ctx r, restricted, None))"

definition route ::
  "'sem World \<Rightarrow> Hooks \<Rightarrow> App \<Rightarrow> GateConfig \<Rightarrow> string \<Rightarrow> RequestCtx \<Rightarrow> WeightedLane list \<Rightarrow> 'sem Run \<Rightarrow>
     ('sem Run \<times> (Response + RequestCtx \<times> WeightedLane list \<times> usize list option)) option" where
  "route w hk app gc pool ctx cands s =
     do {
       (s1, outs) \<leftarrow> fire_gates w hk app (gate_chain gc pool) cands ctx pool s;
       case reconcile (pool_members app pool) outs ctx cands of
         Inl resp \<Rightarrow> Some (s1, Inl resp)
       | Inr (ctx1, cands1, Some order) \<Rightarrow> Some (s1, Inr (ctx1, cands1, Some order))
       | Inr (ctx1, cands1, None) \<Rightarrow>
           (case gc_policy gc pool of
              None \<Rightarrow> Some (s1, Inr (ctx1, cands1, None))
            | Some resolved \<Rightarrow> do {
                (s2, out) \<leftarrow> decide_policy_order w hk app resolved cands1 ctx1 pool s1;
                Some (s2, apply_base (pool_members app pool) out ctx1 cands1) })
     }"

section \<open>The entry of the engine\<close>

text \<open>The rewrite hooks, the process's before the pool's; a rejection stops the request.\<close>

fun apply_global_rewrites :: "Hooks \<Rightarrow> HookResponse option list \<Rightarrow> bool \<Rightarrow> (nat \<times> code_points) + bool" where
  "apply_global_rewrites hk [] applied = Inr applied"
| "apply_global_rewrites hk (reply # replies) applied =
     (case transform reply of
        Rewrite rw \<Rightarrow> apply_global_rewrites hk replies (applied \<or> hk_applies hk rw)
      | TransformReject status message \<Rightarrow> Inl (status, message)
      | TransformAbstain \<Rightarrow> apply_global_rewrites hk replies applied)"

definition rewrite_failed :: "nat \<times> code_points" where
  "rewrite_failed = (500, map of_char ''request rewrite could not be applied'')"

definition rewrite_pass :: "Hooks \<Rightarrow> GateConfig \<Rightarrow> Request \<Rightarrow> (nat \<times> code_points) option" where
  "rewrite_pass hk gc rq =
     (if (gc_rewrites gc = [] \<and> gc_pool_rewrites gc (rq_pool rq) = []) \<or> \<not> rq_body_is_json rq then None
      else if \<not> hk_dom_parses hk then Some rewrite_failed
      else case apply_global_rewrites hk (gc_rewrites gc) False of
             Inl rejection \<Rightarrow> Some rejection
           | Inr applied \<Rightarrow>
               (case apply_global_rewrites hk (gc_pool_rewrites gc (rq_pool rq)) applied of
                  Inl rejection \<Rightarrow> Some rejection
                | Inr applied \<Rightarrow> if applied \<and> \<not> hk_serializes hk then Some rewrite_failed else None))"

definition DETAIL_MODEL_UNSUPPORTED_OPERATION :: string where
  "DETAIL_MODEL_UNSUPPORTED_OPERATION = ''This model does not support that operation.''"

definition supporting :: "Hooks \<Rightarrow> App \<Rightarrow> WeightedLane list \<Rightarrow> WeightedLane list" where
  "supporting hk app cands = filter (\<lambda>wl. hk_supports hk (al_protocol (app_lanes app ! wl_idx wl))) cands"

definition forward ::
  "'sem World \<Rightarrow> App \<Rightarrow> GateConfig \<Rightarrow> Hooks \<Rightarrow> Codec \<Rightarrow> Request \<Rightarrow> WeightedLane list \<Rightarrow> u64 \<Rightarrow> 'sem Run \<Rightarrow>
     ('sem Run \<times> Response) option" where
  "forward w app gc hk cd rq cands0 rid s =
     (let kept = supporting hk app cands0 in
      if kept = [] \<and> cands0 \<noteq> [] then Some (s, IngressError 404 ''not_found_error'' DETAIL_MODEL_UNSUPPORTED_OPERATION)
      else case rewrite_pass hk gc rq of
        Some (status, message) \<Rightarrow> Some (s, GateRejected status (reject_kind_for_status status) message)
      | None \<Rightarrow>
          (let (deadline_secs, max_cap) = failover_limits app (rq_pool rq);
               (s1, now) = read_clock w s;
               ctx = ctx_new now deadline_secs rid;
               cands = retain_allowed app (rq_pool rq) kept
           in do {
             (s2, routed) \<leftarrow> route w hk app gc (rq_pool rq) ctx cands s1;
             case routed of
               Inl resp \<Rightarrow> Some (s2, resp)
             | Inr (ctx1, cands1, order) \<Rightarrow>
                 failover_loop (Suc max_cap) w app cd rq cands1 order (rq_body_is_json rq) ctx1 s2
           }))"

section \<open>Outcomes\<close>

definition clean_message :: "code_points \<Rightarrow> bool" where
  "clean_message m \<longleftrightarrow> length m \<le> REJECT_MESSAGE_MAX_CHARS \<and> list_ex (\<lambda>c. \<not> is_whitespace c) m
     \<and> list_all (\<lambda>c. \<not> is_control c \<and> \<not> is_invisible c) m"

definition well_formed_outcome :: "usize set \<Rightarrow> PolicyOutcome \<Rightarrow> bool" where
  "well_formed_outcome lanes_shown out =
     (case out of
        OrderOutcome order name \<Rightarrow> distinct order \<and> set order \<subseteq> lanes_shown
      | RejectRequest status message name \<Rightarrow> 400 \<le> status \<and> status \<le> 499 \<and> clean_message message
      | other \<Rightarrow> True)"

lemma take_all: "list_all P xs \<Longrightarrow> list_all P (take n xs)"
  by (auto simp: list_all_iff dest: in_set_takeD)

lemma default_clean: "clean_message REJECT_MESSAGE_DEFAULT"
  by (simp add: clean_message_def REJECT_MESSAGE_DEFAULT_def REJECT_MESSAGE_MAX_CHARS_def is_whitespace_def is_control_def
      is_invisible_def)

lemma sanitize_clean: "clean_message (sanitize_reject_message raw)"
proof -
  define m where "m = take REJECT_MESSAGE_MAX_CHARS (filter (\<lambda>c. \<not> is_control c \<and> \<not> is_invisible c) raw)"
  have "list_all (\<lambda>c. \<not> is_control c \<and> \<not> is_invisible c) m"
    unfolding m_def by (rule take_all) (simp add: list_all_iff)
  moreover have "length m \<le> REJECT_MESSAGE_MAX_CHARS" by (simp add: m_def)
  moreover have "list_ex (\<lambda>c. \<not> is_whitespace c) m" if "\<not> list_all is_whitespace m"
    using that by (auto simp: list_all_iff list_ex_iff)
  ultimately have "clean_message (if list_all is_whitespace m then REJECT_MESSAGE_DEFAULT else m)"
    using default_clean by (cases "list_all is_whitespace m") (simp_all add: clean_message_def)
  then show ?thesis by (simp only: sanitize_reject_message_def m_def Let_def)
qed

lemma sanitize_of_clean:
  assumes "clean_message m"
  shows "sanitize_reject_message m = m"
proof -
  have "filter (\<lambda>c. \<not> is_control c \<and> \<not> is_invisible c) m = m"
    using assms by (intro filter_True) (simp add: clean_message_def list_all_iff)
  moreover have "\<not> list_all is_whitespace m" using assms by (auto simp: clean_message_def list_all_iff list_ex_iff)
  ultimately show ?thesis using assms by (simp add: sanitize_reject_message_def clean_message_def)
qed

lemma map_decision_well_formed: "well_formed_outcome (c_idx ` set candidates) (map_decision decision name candidates oe)"
proof (cases decision)
  case (Prefer order)
  from from_ranked_sound [of order "c_idx ` set candidates"] show ?thesis
    by (auto simp: Prefer map_decision_def well_formed_outcome_def split: RoutingDecision.splits)
next
  case (RejectDecision status message)
  then show ?thesis
    by (simp add: map_decision_def well_formed_outcome_def clamp_reject_status_def REJECT_STATUS_DEFAULT_def sanitize_clean)
qed (simp_all add: map_decision_def well_formed_outcome_def)

lemma coerce_well_formed:
  "distinct (map c_idx candidates) \<Longrightarrow> well_formed_outcome (c_idx ` set candidates) (coerce_on_error terminal candidates name)"
  by (cases terminal) (simp_all add: well_formed_outcome_def)

lemma chain_well_formed:
  "distinct (map c_idx candidates) \<Longrightarrow>
   well_formed_outcome (c_idx ` set candidates) (run_on_error_chain hk t chain terminal candidates failed)"
  by (induction chain) (simp_all add: coerce_well_formed map_decision_well_formed split: option.split)

section \<open>Reconciliation\<close>

text \<open>The specification: which verdicts reject, which restrict, and which order comes last.\<close>

fun rejection :: "PolicyOutcome \<Rightarrow> Response option" where
  "rejection (RejectRequest status message name) = Some (GateRejected status (reject_kind_for_status status) message)"
| "rejection RejectOutcome =
     Some (GateRejected 503 ''overloaded'' (map of_char ''A required gate could not complete. Please retry shortly.''))"
| "rejection (OrderOutcome order name) = None"
| "rejection WeightedOutcome = None"
| "rejection (RestrictOutcome tags name oe) = None"

fun restrict_of :: "PolicyOutcome \<Rightarrow> RestrictConstraint option" where
  "restrict_of (RestrictOutcome tags name oe) = Some \<lparr>tags_any = tags, on_empty = oe, restrict_name = name\<rparr>"
| "restrict_of (RejectRequest status message name) = None"
| "restrict_of RejectOutcome = None"
| "restrict_of (OrderOutcome order name) = None"
| "restrict_of WeightedOutcome = None"

fun order_of :: "PolicyOutcome \<Rightarrow> usize list option" where
  "order_of (OrderOutcome order name) = Some order"
| "order_of (RejectRequest status message name) = None"
| "order_of RejectOutcome = None"
| "order_of WeightedOutcome = None"
| "order_of (RestrictOutcome tags name oe) = None"

lemma first_rejection_find:
  "first_rejection outs = (case List.map_filter rejection outs of [] \<Rightarrow> None | resp # later \<Rightarrow> Some resp)"
  by (induction outs rule: first_rejection.induct) (simp_all add: List.map_filter_simps)

lemma restrict_pass_enforce:
  "restrict_pass members outs ctx cands =
     (case enforce_loop members (List.map_filter restrict_of outs) cands of
        Inl name \<Rightarrow> Inl gate_refusal
      | Inr cands1 \<Rightarrow> Inr (ctx\<lparr>active_restricts := active_restricts ctx @ List.map_filter restrict_of outs\<rparr>, cands1))"
  by (induction members outs ctx cands rule: restrict_pass.induct)
    (auto simp: List.map_filter_simps Let_def push_restrict_def split: sum.splits)

lemma last_order_last:
  "last_order surviving outs acc =
     (if List.map_filter order_of outs = [] then acc
      else let filtered = filter (\<lambda>i. i \<in> surviving) (last (List.map_filter order_of outs))
           in if filtered = [] then None else Some filtered)"
  by (induction surviving outs acc rule: last_order.induct) (auto simp: List.map_filter_simps Let_def)

text \<open>
  C8: the verdicts of concurrent gates reconcile as documented, whatever their number and order. The
  first rejection of the chain is the answer; otherwise the restricts narrow the candidates
  exactly as the enforcement does that every fallback pool repeats, and all of them are
  remembered for it; and only the last order of the chain counts, cut down to the survivors,
  with no order left falling through to the base policy.
\<close>

theorem gates_reconcile:
  "reconcile members outs ctx cands =
     (case List.map_filter rejection outs of
        resp # later \<Rightarrow> Inl resp
      | [] \<Rightarrow>
          (case enforce_restricts (ctx\<lparr>active_restricts := List.map_filter restrict_of outs\<rparr>) (\<lambda>p. members) pool cands of
             Inl name \<Rightarrow> Inl gate_refusal
           | Inr cands1 \<Rightarrow>
               Inr (ctx\<lparr>active_restricts := active_restricts ctx @ List.map_filter restrict_of outs\<rparr>, cands1,
                 let orders = List.map_filter order_of outs;
                     filtered = filter (\<lambda>i. i \<in> wl_idx ` set cands1) (last orders)
                 in if orders = [] \<or> filtered = [] then None else Some filtered)))"
  by (auto simp: reconcile_def first_rejection_find restrict_pass_enforce last_order_last enforce_restricts_def Let_def
      split: list.splits sum.splits)

text \<open>A decision about the lanes shown, whichever hook of the chain made it, is well formed.\<close>

lemma project_candidate_idx: "project_candidate hk ops app pool headroom h wl = Some c \<Longrightarrow> c_idx c = wl_idx wl"
  by (auto simp: project_candidate_def bind_eq_Some_conv)

lemma project_candidates_idx:
  "project_candidates hk ops app pool headroom live h = Some candidates \<Longrightarrow> map c_idx candidates = map wl_idx live"
  unfolding project_candidates_def
  by (induction live arbitrary: candidates)
    (auto simp: bind_eq_Some_conv split: option.splits dest!: project_candidate_idx)

lemma decide_policy_order_well_formed:
  assumes "decide_policy_order w hk app resolved cands ctx pool s = Some (s1, out)" and "distinct (map wl_idx cands)"
  shows "well_formed_outcome (wl_idx ` set (fill_candidates ctx cands)) out"
proof (cases "fill_candidates ctx cands = []")
  case True
  with assms(1) show ?thesis by (simp add: decide_policy_order_def well_formed_outcome_def)
next
  case False
  then obtain candidates h where
    p: "project_candidates hk (w_sem w) app pool (hk_rate_headroom hk (run_tick s)) (fill_candidates ctx cands) h = Some candidates"
    and out: "out = (case policy_decide hk (run_tick s1) (rp_policy resolved) candidates of
            Some decision \<Rightarrow> map_decision decision (policy_name (rp_policy resolved)) candidates (rp_on_empty resolved)
          | None \<Rightarrow> run_on_error_chain hk (run_tick s1) (rp_on_error_chain resolved) (rp_on_error resolved) candidates
                      (policy_name (rp_policy resolved)))"
    using assms(1) by (auto simp: decide_policy_order_def Let_def bind_eq_Some_conv step_def)
  have idx: "map c_idx candidates = map wl_idx (fill_candidates ctx cands)" by (rule project_candidates_idx [OF p])
  moreover have "distinct (map wl_idx (fill_candidates ctx cands))"
    using assms(2) by (simp add: fill_candidates_def distinct_map_filter)
  moreover from idx have "c_idx ` set candidates = wl_idx ` set (fill_candidates ctx cands)" by (metis set_map)
  ultimately show ?thesis
    using chain_well_formed map_decision_well_formed by (metis (no_types, lifting) out option.case_eq_if)
qed

text \<open>A rejection of a rewrite hook is a client error with a clean message, whatever its reply holds.\<close>

definition client_rejection :: "nat \<times> code_points \<Rightarrow> bool" where
  "client_rejection r \<longleftrightarrow> 400 \<le> fst r \<and> fst r \<le> 499 \<and> clean_message (snd r)"

lemma parse_reject_detail_clean: "client_rejection (parse_reject_detail reject)"
  by (simp add: client_rejection_def parse_reject_detail_def Let_def sanitize_clean clamp_reject_status_def
      REJECT_STATUS_DEFAULT_def split: option.split)

lemma transform_clean: "transform reply = TransformReject status message \<Longrightarrow> client_rejection (status, message)"
  using parse_reject_detail_clean
  by (auto simp: transform_def transform_outcome_def Let_def split: option.splits if_splits prod.splits) metis+

lemma rewrites_clean: "apply_global_rewrites hk replies applied = Inl r \<Longrightarrow> client_rejection r"
  by (induction replies arbitrary: applied) (auto split: TransformOutcome.splits dest: transform_clean)

lemma rewrite_pass_clean: "rewrite_pass hk gc rq = Some r \<Longrightarrow> r = rewrite_failed \<or> client_rejection r"
  by (auto simp: rewrite_pass_def split: if_splits sum.splits dest: rewrites_clean)

end
