(* ===== verification/Engine_Accounts.thy ===== *)
theory Engine_Accounts
  imports Engine_Walk
begin

text \<open>
  The accounts of the engine. Every store operation a request uses either leaves the
  lanes' limits, budgets and semaphores alone, or takes or returns one permit, or spends or
  refunds one unit; so in a legal world every function of the engine returns (no index is out of
  range, no assertion fails, the fuel is enough) and keeps the books: what the request holds
  and has been charged is exactly what its own state says.
\<close>

section \<open>What the operations leave alone\<close>

definition statics :: "'sem HealthState \<Rightarrow> (bool \<times> usize \<times> bool \<times> i64 \<times> 'sem) list" where
  "statics h = map (\<lambda>ls. (ls_limited ls, ls_max ls, ls_dead ls, ls_budget ls, ls_sem ls)) (lanes h)"

definition still :: "'sem HealthState \<Rightarrow> 'sem HealthState \<Rightarrow> bool" where
  "still h h1 \<longleftrightarrow> (store_wf h \<longrightarrow> store_wf h1) \<and> statics h1 = statics h"

lemma still_trans: "still h h1 \<Longrightarrow> still h1 h2 \<Longrightarrow> still h h2"
  by (simp add: still_def)

lemma still_refl [simp]: "still h h"
  by (simp add: still_def)

lemma statics_put_cell [simp]: "statics (put_cell h p l c) = statics h"
  by (cases "l < length (lanes h)")
    (auto simp: statics_def put_cell_def map_update list_update_beyond intro!: nth_equalityI simp: nth_list_update)

lemma statics_put_lane:
  "get_lane h l = Some ls \<Longrightarrow> ls_limited ls' = ls_limited ls \<Longrightarrow> ls_max ls' = ls_max ls \<Longrightarrow> ls_dead ls' = ls_dead ls \<Longrightarrow>
   ls_budget ls' = ls_budget ls \<Longrightarrow> ls_sem ls' = ls_sem ls \<Longrightarrow> statics (put_lane h l ls') = statics h"
  by (auto simp: statics_def put_lane_def get_lane_def map_update intro!: nth_equalityI simp: nth_list_update split: if_splits)

lemma statics_lanes: "lanes h1 = lanes h \<Longrightarrow> statics h1 = statics h"
  by (simp add: statics_def)

lemma statics_pool_cells [simp]: "statics (h\<lparr>pool_cells := x\<rparr>) = statics h"
  by (simp add: statics_def)

lemma statics_cell_of: "cell_of h p l = Some (h1, c) \<Longrightarrow> statics h1 = statics h"
  by (rule statics_lanes [OF cell_of_lanes])

lemma statics_shard: "statics (fst (swrr_shard h p)) = statics h"
  by (simp add: statics_def)

lemma statics_reset: "reset_swrr_for h p l = Some h1 \<Longrightarrow> statics h1 = statics h"
  by (auto simp: reset_swrr_for_def bind_eq_Some_conv statics_shard dest: statics_cell_of)

lemma stillI: "keeps h h1 \<Longrightarrow> statics h1 = statics h \<Longrightarrow> still h h1"
  by (simp add: still_def keeps_def)

lemma still_record_failure:
  assumes "record_failure_for env h p l now cfg ra = Some (h1, t)"
  shows "still h h1"
proof (rule stillI [OF keeps_record_failure_for [OF assms]])
  obtain ls where ls: "get_lane h l = Some ls"
    using assms by (auto simp: record_failure_for_def bind_eq_Some_conv)
  show "statics h1 = statics h"
  proof (cases "ls_dead ls")
    case True
    with assms ls show ?thesis by (simp add: record_failure_for_def)
  next
    case False
    with assms ls obtain h2 c c1 ls2 where f: "cell_of h p l = Some (h2, c)"
      and g: "get_lane (put_cell h2 p l c1) l = Some ls2"
      and h1: "h1 = put_lane (put_cell h2 p l c1) l (failed_lane p ls2 t now)"
      by (auto simp: record_failure_for_def bind_eq_Some_conv Let_def failed_lane_def)
    have "statics h1 = statics (put_cell h2 p l c1)"
      unfolding h1 by (rule statics_put_lane [OF g]) (simp_all add: failed_lane_def bump_trips_def Let_def)
    then show ?thesis by (simp add: statics_cell_of [OF f])
  qed
qed

lemma still_record_success:
  assumes "record_success_for h p l now = Some h1"
  shows "still h h1"
proof (rule stillI [OF keeps_record_success_for [OF assms]])
  obtain ls where ls: "get_lane h l = Some ls"
    using assms by (auto simp: record_success_for_def bind_eq_Some_conv)
  show "statics h1 = statics h"
  proof (cases "ls_dead ls")
    case True
    with assms ls show ?thesis by (auto simp: record_success_for_def intro!: statics_put_lane)
  next
    case False
    with assms ls obtain h2 c where f: "cell_of h p l = Some (h2, c)"
      by (auto simp: record_success_for_def bind_eq_Some_conv)
    obtain c1 recovered where cs: "cell_record_success c now = (c1, recovered)" by fastforce
    have "\<exists>h3 ls3. (if recovered then reset_swrr_for (put_cell h2 p l c1) p l else Some (put_cell h2 p l c1)) = Some h3
        \<and> get_lane h3 l = Some ls3 \<and> h1 = put_lane h3 l (ls3\<lparr>ls_ok := wrap_u64 (ls_ok ls3 + 1)\<rparr>)"
      using assms ls False f cs
      by (cases recovered) (auto simp: record_success_for_def bind_eq_Some_conv Let_def)
    then obtain h3 ls3 where h3: "(if recovered then reset_swrr_for (put_cell h2 p l c1) p l else Some (put_cell h2 p l c1)) = Some h3"
      and g: "get_lane h3 l = Some ls3" and h1: "h1 = put_lane h3 l (ls3\<lparr>ls_ok := wrap_u64 (ls_ok ls3 + 1)\<rparr>)"
      by blast
    have "statics h3 = statics h"
      using h3 statics_cell_of [OF f] by (auto split: if_splits dest: statics_reset)
    then show ?thesis unfolding h1 by (simp add: statics_put_lane [OF g])
  qed
qed

lemma still_record_hard_down_all:
  assumes "record_hard_down_all_cells h l reason now = Some (h1, t)"
  shows "still h h1"
  by (rule stillI [OF keeps_record_hard_down_all_cells [OF assms]])
    (use assms in \<open>auto simp: record_hard_down_all_cells_def bind_eq_Some_conv Let_def bump_trips_def intro!: statics_put_lane\<close>)

lemma still_record_client_fault:
  assumes "record_client_fault h l = Some h1"
  shows "still h h1"
  by (rule stillI [OF keeps_record_client_fault [OF assms]])
    (use assms in \<open>auto simp: record_client_fault_def bind_eq_Some_conv intro!: statics_put_lane\<close>)

lemma still_record_latency:
  assumes "record_latency_in blend sample h l = Some h1"
  shows "still h h1"
  by (rule stillI [OF keeps_record_latency_in [OF assms]])
    (use assms in \<open>auto simp: record_latency_in_def bind_eq_Some_conv Let_def split: option.splits if_splits intro!: statics_put_lane\<close>)

lemma still_cell_of: "cell_of h p l = Some (h1, c) \<Longrightarrow> still h h1"
  by (rule stillI [OF keeps_fetch statics_cell_of])

lemma still_release_probe_in:
  assumes "release_probe_in h p l = Some h1"
  shows "still h h1"
  by (rule stillI [OF keeps_release_probe_in [OF assms]])
    (use assms in \<open>auto simp: release_probe_in_def bind_eq_Some_conv dest: statics_cell_of\<close>)

lemma still_release_owned:
  assumes "release_probe_owned_in h p l e = Some h1"
  shows "still h h1"
  by (rule stillI [OF keeps_release_probe_owned_in [OF assms]])
    (use assms in \<open>auto simp: release_probe_owned_in_def bind_eq_Some_conv dest: statics_cell_of\<close>)

lemma still_admit_gate:
  assumes "admit_gate h p l now = Some (h1, r)"
  shows "still h h1"
  by (rule stillI [OF keeps_admit_gate [OF assms] statics_lanes [OF admit_gate_cases(1) [OF assms]]])

lemma still_admit_probe:
  assumes "admit_probe h p l now = Some (h1, r)"
  shows "still h h1"
  by (rule stillI [OF keeps_admit_probe [OF assms]])
    (use assms in \<open>auto simp: admit_probe_def bind_eq_Some_conv case_prod_unfold Let_def dest: statics_cell_of\<close>)

lemma still_try_admit_breaker: "try_admit_breaker h p l now = Some (h1, r) \<Longrightarrow> still h h1"
  by (auto simp: try_admit_breaker_def bind_eq_Some_conv split: option.splits
      dest!: still_admit_gate still_admit_probe intro: still_trans)

lemma still_ready_for: "ready_for h p l now = Some (h1, r) \<Longrightarrow> still h h1"
  by (auto simp: ready_for_def bind_eq_Some_conv split: if_splits intro: still_cell_of)

lemma still_find_preferred: "find_preferred h p cws now order = Some (h1, r) \<Longrightarrow> still h h1"
proof (induction order arbitrary: h)
  case (Cons idx order)
  show ?case
  proof (cases "case map_of cws idx of None \<Rightarrow> False | Some w \<Rightarrow> w \<noteq> 0")
    case False
    with Cons show ?thesis by simp
  next
    case True
    with Cons.prems obtain h2 rdy where r: "ready_for h p idx now = Some (h2, rdy)"
      and next_hop: "if rdy then h1 = h2 \<and> r = Some idx else find_preferred h2 p cws now order = Some (h1, r)"
      by (auto simp: bind_eq_Some_conv split: if_splits)
    with Cons.IH [of h2] still_ready_for [OF r] show ?thesis
      by (cases rdy) (auto intro: still_trans)
  qed
qed simp

lemma statics_swrr_healthy: "swrr_healthy h p now cws = Some (h1, hs) \<Longrightarrow> statics h1 = statics h"
proof (induction cws arbitrary: h hs)
  case (Cons lw rest)
  obtain l w where lw: "lw = (l, w)" by fastforce
  show ?case
  proof (cases "w \<noteq> 0 \<and> lane_admissible h l = Some True")
    case True
    with Cons.prems lw obtain h2 c hs' where f: "cell_of h p l = Some (h2, c)"
      and "swrr_healthy h2 p now rest = Some (h1, hs')"
      by (auto simp: bind_eq_Some_conv)
    with Cons.IH statics_cell_of [OF f] show ?thesis by auto
  next
    case False
    with Cons.prems lw have "swrr_healthy h p now rest = Some (h1, hs)"
      by (auto simp: bind_eq_Some_conv split: if_splits)
    with Cons.IH show ?thesis by blast
  qed
qed simp

lemma statics_add_weight: "add_weight h p l w = Some h1 \<Longrightarrow> statics h1 = statics h"
  by (auto simp: add_weight_def bind_eq_Some_conv dest: statics_cell_of)

lemma statics_add_weights: "add_weights h p hs = Some h1 \<Longrightarrow> statics h1 = statics h"
  by (induction hs arbitrary: h) (auto simp: bind_eq_Some_conv, metis statics_add_weight)

lemma still_select_weighted:
  assumes "select_weighted_for h p cs ws now = Some (h1, r)"
  shows "still h h1"
proof (rule stillI [OF keeps_select_weighted_for [OF assms]])
  obtain h2 hs where h2: "swrr_healthy h p now (zip cs ws) = Some (h2, hs)"
    using assms by (auto simp: select_weighted_for_def bind_eq_Some_conv)
  then show "statics h1 = statics h"
    using assms statics_swrr_healthy [OF h2] statics_shard [of h2 p]
    by (auto simp: select_weighted_for_def bind_eq_Some_conv Let_def split: if_splits option.splits
        dest!: statics_add_weights statics_add_weight)
qed

lemma still_select_lane: "select_lane h p cs ws order now = Some (h1, r) \<Longrightarrow> still h h1"
  by (auto simp: select_lane_def bind_eq_Some_conv split: option.splits
      dest!: still_find_preferred still_select_weighted intro: still_trans)

lemma still_cooldown_remaining: "cooldown_remaining_for h p l now = Some (h1, r) \<Longrightarrow> still h h1"
  by (auto simp: cooldown_remaining_for_def bind_eq_Some_conv intro: still_cell_of)

text \<open>The scans over the candidates.\<close>

lemma still_soonest: "soonest_cooldown h p now ls = Some (h1, r) \<Longrightarrow> still h h1"
proof (induction ls arbitrary: h r)
  case (Cons l ls)
  obtain adm where adm: "lane_admissible h l = Some adm" using Cons.prems by (auto simp: bind_eq_Some_conv)
  show ?case
  proof (cases adm)
    case False
    with Cons adm show ?thesis by simp
  next
    case True
    with Cons.prems adm obtain h2 c best where c: "cooldown_remaining_for h p l now = Some (h2, c)"
      and "soonest_cooldown h2 p now ls = Some (h1, best)" by (auto simp: bind_eq_Some_conv)
    with Cons.IH show ?thesis by (blast intro: still_trans still_cooldown_remaining)
  qed
qed simp

lemma still_cooldown_keys: "cooldown_keys h p now ls = Some (h1, r) \<Longrightarrow> still h h1"
proof (induction ls arbitrary: h r)
  case (Cons l ls)
  obtain adm where adm: "lane_admissible h l = Some adm" using Cons.prems by (auto simp: bind_eq_Some_conv)
  show ?case
  proof (cases adm)
    case False
    with Cons adm show ?thesis by simp
  next
    case True
    with Cons.prems adm obtain h2 c rest where c: "cooldown_remaining_for h p l now = Some (h2, c)"
      and "cooldown_keys h2 p now ls = Some (h1, rest)" by (auto simp: bind_eq_Some_conv)
    with Cons.IH show ?thesis by (blast intro: still_trans still_cooldown_remaining)
  qed
qed simp

section \<open>Taking, returning, spending and refunding\<close>

definition hold :: "Permit \<Rightarrow> nat" where
  "hold p = (if p = Bounded then 1 else 0)"

definition holding :: "usize \<Rightarrow> nat \<Rightarrow> accounts \<Rightarrow> accounts" where
  "holding l n own = (fst own, (snd own)(l := snd own l + n))"

definition charging :: "usize \<Rightarrow> nat \<Rightarrow> accounts \<Rightarrow> accounts" where
  "charging l n own = ((fst own)(l := fst own l + n), snd own)"

lemma hold_simps [simp]: "hold Bounded = 1" "hold Unbounded = 0"
  by (simp_all add: hold_def)

lemma charging_0 [simp]: "charging l 0 own = own" "holding l 0 own = own"
  by (simp_all add: charging_def holding_def)

lemma holding_charging: "holding l n (charging k m own) = charging k m (holding l n own)"
  by (simp add: holding_def charging_def)

lemma statics_nth:
  "statics h1 = statics h \<Longrightarrow> length (lanes h1) = length (lanes h) \<and>
     (\<forall>l < length (lanes h). ls_limited (lanes h1 ! l) = ls_limited (lanes h ! l) \<and> ls_max (lanes h1 ! l) = ls_max (lanes h ! l)
        \<and> ls_dead (lanes h1 ! l) = ls_dead (lanes h ! l) \<and> ls_budget (lanes h1 ! l) = ls_budget (lanes h ! l)
        \<and> ls_sem (lanes h1 ! l) = ls_sem (lanes h ! l))"
  by (auto simp: statics_def list_eq_iff_nth_eq)

lemma in_balance_still: "in_balance ops h0 own (h, g) \<Longrightarrow> still h h1 \<Longrightarrow> in_balance ops h0 own (h1, g)"
  using statics_nth [of h1 h] by (auto simp: in_balance_def still_def split: prod.splits)

lemma in_balance_lanes: "in_balance ops h0 own (h, g) \<Longrightarrow> length (lanes h) = length (lanes h0) \<and> store_wf h"
  by (auto simp: in_balance_def split: prod.splits)

lemma put_lane_nth: "l < length (lanes h) \<Longrightarrow> m < length (lanes h) \<Longrightarrow>
    lanes (put_lane h l ls) ! m = (if m = l then ls else lanes h ! m)"
  by (simp add: put_lane_def)

lemma length_put_cell [simp]: "length (lanes (put_cell h p l c)) = length (lanes h)"
  by (simp add: put_cell_def)

lemma length_put_lane [simp]: "length (lanes (put_lane h l ls)) = length (lanes h)"
  by (simp add: put_lane_def)

lemma in_balance_acquire:
  assumes "semaphore_laws ops" and "in_balance ops h0 own (h, g)" and "try_acquire ops h l = Some (h1, Some p)"
  shows "in_balance ops h0 (holding l (hold p) own) (h1, g)"
proof -
  obtain ls where ls: "get_lane h l = Some ls" using assms(3) by (auto simp: try_acquire_def bind_eq_Some_conv)
  then have l: "l < length (lanes h)" "lanes h ! l = ls" by (auto simp: get_lane_def split: if_splits)
  have wf: "store_wf h1"
    using keeps_try_acquire [OF assms(3)] in_balance_lanes [OF assms(2)] by (simp add: keeps_def)
  show ?thesis
  proof (cases "ls_max ls \<ge> MAX_PERMITS")
    case True
    with assms ls have "h1 = h" "p = Unbounded" by (auto simp: try_acquire_def)
    with assms(2) show ?thesis by simp
  next
    case False
    with assms(3) ls obtain sm where sm: "try_acquire_of ops (ls_sem ls) = Some sm"
      and h1: "h1 = put_lane h l (ls\<lparr>ls_sem := sm\<rparr>)" and p: "p = Bounded"
      by (auto simp: try_acquire_def split: option.splits)
    have "available_permits_of ops (ls_sem ls) = Suc (available_permits_of ops sm)"
      using assms(1) sm by (simp add: semaphore_laws_def)
    with assms(2) wf l show ?thesis
      unfolding h1 p by (auto simp: in_balance_def holding_def put_lane_nth split: prod.splits)
  qed
qed

lemma in_balance_drop:
  assumes "semaphore_laws ops" and "in_balance ops h0 (holding l (hold p) own) (h, g)" and "drop_permit ops h l p = Some h1"
  shows "in_balance ops h0 own (h1, g)"
proof (cases p)
  case Unbounded
  with assms(2,3) show ?thesis by (simp add: drop_permit_def)
next
  case Bounded
  then obtain ls where ls: "get_lane h l = Some ls" and h1: "h1 = put_lane h l (ls\<lparr>ls_sem := release_of ops (ls_sem ls)\<rparr>)"
    using assms(3) by (auto simp: drop_permit_def bind_eq_Some_conv)
  then have l: "l < length (lanes h)" "lanes h ! l = ls" by (auto simp: get_lane_def split: if_splits)
  have "store_wf h1"
    using keeps_drop_permit [OF assms(3)] in_balance_lanes [OF assms(2)] by (simp add: keeps_def)
  moreover have "available_permits_of ops (release_of ops (ls_sem ls)) = Suc (available_permits_of ops (ls_sem ls))"
    using assms(1) by (simp add: semaphore_laws_def)
  ultimately show ?thesis
    using assms(2) l Bounded unfolding h1 by (auto simp: in_balance_def holding_def put_lane_nth split: prod.splits if_splits)
qed

lemma in_balance_unlimited:
  assumes "\<not> ls_limited (lanes h0 ! l)"
  shows "in_balance ops h0 (charging l n own) s \<longleftrightarrow> in_balance ops h0 own s"
proof -
  have "x = l \<longrightarrow> \<not> ls_limited (lanes h0 ! x)" for x using assms by simp
  then show ?thesis by (cases own; cases s) (auto simp: in_balance_def charging_def split: prod.splits)
qed

lemma in_balance_limited:
  "in_balance ops h0 own (h, g) \<Longrightarrow> l < length (lanes h) \<Longrightarrow> ls_limited (lanes h ! l) = ls_limited (lanes h0 ! l)"
  by (auto simp: in_balance_def split: prod.splits)

lemma in_balance_spend:
  assumes "in_balance ops h0 own (h, g)" and "spend_budget h l = Some (h1, spent)"
  shows "in_balance ops h0 (charging l (of_bool spent) own) (h1, g)"
proof -
  obtain ls where ls: "get_lane h l = Some ls" using assms(2) by (auto simp: spend_budget_def bind_eq_Some_conv)
  then have l: "l < length (lanes h)" "lanes h ! l = ls" by (auto simp: get_lane_def split: if_splits)
  have wf: "store_wf h" using in_balance_lanes [OF assms(1)] by simp
  have lw: "lane_wf ls" by (rule store_wf_lane [OF wf ls])
  consider "\<not> ls_limited ls" "h1 = h" | "ls_limited ls" "\<not> spent" "h1 = h"
    | "ls_limited ls" "spent" "0 < ls_budget ls" "h1 = put_lane h l (ls\<lparr>ls_budget := ls_budget ls - 1\<rparr>)"
    using assms(2) ls by (auto simp: spend_budget_def split: if_splits)
  then show ?thesis
  proof cases
    case 1
    then have "\<not> ls_limited (lanes h0 ! l)" using in_balance_limited [OF assms(1) l(1)] l(2) by simp
    with assms(1) 1 show ?thesis by (simp add: in_balance_unlimited)
  next
    case 2
    with assms(1) show ?thesis by simp
  next
    case 3
    have "store_wf h1" unfolding 3(4) by (rule store_wf_put_lane [OF wf]) (use lw 3 in \<open>auto simp: lane_wf_def\<close>)
    with assms(1) l 3 show ?thesis by (auto simp: in_balance_def charging_def put_lane_nth split: prod.splits)
  qed
qed

lemma in_balance_refund:
  assumes "store_wf h0" and "in_balance ops h0 (charging l 1 own) (h, g)" and "refund_budget h l = Some h1"
  shows "in_balance ops h0 own (h1, g)"
proof -
  obtain ls where ls: "get_lane h l = Some ls" using assms(3) by (auto simp: refund_budget_def bind_eq_Some_conv)
  then have l: "l < length (lanes h)" "lanes h ! l = ls" by (auto simp: get_lane_def split: if_splits)
  have wf: "store_wf h" and l0: "l < length (lanes h0)" using in_balance_lanes [OF assms(2)] l by auto
  have lw: "lane_wf ls" by (rule store_wf_lane [OF wf ls])
  show ?thesis
  proof (cases "ls_limited ls")
    case False
    then have "\<not> ls_limited (lanes h0 ! l)" using in_balance_limited [OF assms(2) l(1)] l(2) by simp
    with assms ls False show ?thesis by (simp add: refund_budget_def in_balance_unlimited)
  next
    case True
    have lw0: "lane_wf (lanes h0 ! l)" using store_wf_lane [OF assms(1), of l] by (simp add: get_lane_def l0)
    have le: "ls_budget ls + 1 \<le> ls_budget (lanes h0 ! l)"
      using assms(2) True l l0 by (auto simp: in_balance_def charging_def split: prod.splits)
    have "ls_limited (lanes h0 ! l)" using in_balance_limited [OF assms(2) l(1)] l(2) True by simp
    with lw lw0 le True have "wrap_i64 (ls_budget ls + 1) = ls_budget ls + 1"
      by (intro wrap_i64_exact) (auto simp: lane_wf_def i64_min_def)
    with True assms(3) ls have h1: "h1 = put_lane h l (ls\<lparr>ls_budget := ls_budget ls + 1\<rparr>)"
      by (simp add: refund_budget_def)
    have "store_wf h1" unfolding h1
      by (rule store_wf_put_lane [OF wf]) (use lw lw0 le \<open>ls_limited (lanes h0 ! l)\<close> in \<open>auto simp: lane_wf_def\<close>)
    with assms(2) True l show ?thesis unfolding h1 by (auto simp: in_balance_def charging_def put_lane_nth split: prod.splits)
  qed
qed

lemma in_balance_try_admit:
  assumes "semaphore_laws ops" and "in_balance ops h0 own (h, g)" and "try_admit ops h p l now = Some (h1, r)"
  shows "in_balance ops h0 (case r of Inl u \<Rightarrow> own | Inr a \<Rightarrow> holding l (hold (admit_permit a)) own) (h1, g)"
proof -
  obtain h2 u where gate: "admit_gate h p l now = Some (h2, u)" using assms(3) by (auto simp: try_admit_def bind_eq_Some_conv)
  have b2: "in_balance ops h0 own (h2, g)" by (rule in_balance_still [OF assms(2) still_admit_gate [OF gate]])
  show ?thesis
  proof (cases u)
    case (Some x)
    with assms(3) gate b2 show ?thesis by (auto simp: try_admit_def)
  next
    case None
    with assms(3) gate obtain h3 q where q: "try_acquire ops h2 l = Some (h3, q)" by (auto simp: try_admit_def bind_eq_Some_conv)
    show ?thesis
    proof (cases q)
      case qN: None
      with None assms(3) gate q b2 show ?thesis by (auto simp: try_admit_def dest: try_acquire_None)
    next
      case (Some permit)
      obtain c where "try_admit ops h p l now = Some (put_cell h3 p l (fst (cell_acquire_breaker c now)),
            Inr \<lparr>admit_permit = permit, admit_probe_epoch = probe_epoch (fst (cell_acquire_breaker c now))\<rparr>)"
        using try_admit_after_gate [OF gate [unfolded None] q [unfolded Some]] by blast
      with assms(3) have h1: "h1 = put_cell h3 p l (fst (cell_acquire_breaker c now))"
        and r: "r = Inr \<lparr>admit_permit = permit, admit_probe_epoch = probe_epoch (fst (cell_acquire_breaker c now))\<rparr>"
        by simp_all
      have "store_wf h1" using keeps_try_admit [OF assms(3)] in_balance_lanes [OF assms(2)] by (simp add: keeps_def)
      then have "still h3 h1" by (simp add: still_def h1)
      from in_balance_still [OF in_balance_acquire [OF assms(1) b2 q [unfolded Some]] this] show ?thesis by (simp add: r)
    qed
  qed
qed

section \<open>Runs that return\<close>

text \<open>\<open>runs m Q\<close>: the operation returns, with a result that satisfies \<open>Q\<close>.\<close>

definition runs :: "'a option \<Rightarrow> ('a \<Rightarrow> bool) \<Rightarrow> bool" where
  "runs m Q \<longleftrightarrow> (\<exists>x. m = Some x \<and> Q x)"

lemma runs_Some [simp]: "runs (Some x) Q = Q x"
  by (simp add: runs_def)

lemma runs_bind: "runs m P \<Longrightarrow> (\<And>x. P x \<Longrightarrow> runs (f x) Q) \<Longrightarrow> runs (Option.bind m f) Q"
  by (auto simp: runs_def)

lemma runs_bind2:
  "runs m (\<lambda>(a, b). P a b) \<Longrightarrow> (\<And>a b. P a b \<Longrightarrow> runs (f a b) Q) \<Longrightarrow> runs (Option.bind m (\<lambda>(a, b). f a b)) Q"
  by (auto simp: runs_def)

lemma runs_bind3:
  "runs m (\<lambda>(a, b, c). P a b c) \<Longrightarrow> (\<And>a b c. P a b c \<Longrightarrow> runs (f a b c) Q) \<Longrightarrow>
   runs (Option.bind m (\<lambda>(a, b, c). f a b c)) Q"
  by (auto simp: runs_def)

lemma runs_map: "runs m (\<lambda>x. Q (f x)) \<Longrightarrow> runs (map_option f m) Q"
  by (auto simp: runs_def)

lemma runs_mono: "runs m P \<Longrightarrow> (\<And>x. P x \<Longrightarrow> Q x) \<Longrightarrow> runs m Q"
  by (auto simp: runs_def)

section \<open>The books of a run\<close>

definition good :: "'sem World \<Rightarrow> 'sem HealthState \<Rightarrow> accounts \<Rightarrow> 'sem Run \<Rightarrow> bool" where
  "good w h0 own s \<longleftrightarrow> in_balance (w_sem w) h0 own (run_store s, run_others s)"

lemma good_interleave:
  assumes "legal_world h0 w" and "good w h0 own s"
  shows "good w h0 own (interleave w s)"
proof -
  have "in_balance (w_sem w) h0 own (w_peers w (run_tick s) (run_store s, run_others s))"
    using assms unfolding good_def legal_world_def legal_peer_def by blast
  then show ?thesis by (cases "w_peers w (run_tick s) (run_store s, run_others s)") (simp add: good_def interleave_def)
qed

lemma good_sent [simp]: "good w h0 own (s\<lparr>run_sent := x\<rparr>) = good w h0 own s"
  by (simp add: good_def)

lemma good_billed [simp]: "good w h0 own (s\<lparr>run_billed := x\<rparr>) = good w h0 own s"
  by (simp add: good_def)

lemma good_bill [simp]: "good w h0 own (bill b l u s) = good w h0 own s"
  by (simp add: bill_def)

lemma good_lanes: "good w h0 own s \<Longrightarrow> length (lanes (run_store s)) = length (lanes h0)"
  using in_balance_lanes [of "w_sem w" h0 own "run_store s" "run_others s"] by (simp add: good_def)

lemma step_runs:
  assumes "legal_world h0 w" and "good w h0 own s"
    and "\<And>clk env h g. in_balance (w_sem w) h0 own (h, g) \<Longrightarrow>
           runs (f clk env h) (\<lambda>(h1, a). in_balance (w_sem w) h0 (own' a) (h1, g) \<and> P a)"
  shows "runs (step w f s) (\<lambda>(s1, a). good w h0 (own' a) s1 \<and> P a)"
proof -
  have "in_balance (w_sem w) h0 own (run_store (interleave w s), run_others (interleave w s))"
    using good_interleave [OF assms(1,2)] by (simp only: good_def)
  from assms(3) [OF this, of "w_clock w (run_tick s)" "w_jitter w (run_tick s)"] show ?thesis
    by (auto simp: step_def good_def runs_def Let_def)
qed

lemma act_runs:
  assumes "legal_world h0 w" and "good w h0 own s"
    and "\<And>now h g. in_balance (w_sem w) h0 own (h, g) \<Longrightarrow> runs (f now h) (\<lambda>h1. in_balance (w_sem w) h0 own' (h1, g))"
  shows "runs (act w f s) (good w h0 own')"
proof -
  have "runs (step w (\<lambda>clk env h. map_option (\<lambda>h1. (h1, ())) (f (clk 0) h)) s) (\<lambda>(s1, a). good w h0 own' s1 \<and> True)"
    by (rule step_runs [OF assms(1,2)]) (use assms(3) in \<open>fastforce simp: runs_def\<close>)
  then show ?thesis by (auto simp: act_def runs_def)
qed

lemma still_runs:
  assumes "in_balance ops h0 own (h, g)" and "m \<noteq> None" and "\<And>h1 a. m = Some (h1, a) \<Longrightarrow> still h h1"
  shows "runs m (\<lambda>(h1, a). in_balance ops h0 own (h1, g))"
  using assms in_balance_still [OF assms(1)] by (auto simp: runs_def)

lemma still_runs1:
  assumes "in_balance ops h0 own (h, g)" and "m \<noteq> None" and "\<And>h1. m = Some h1 \<Longrightarrow> still h h1"
  shows "runs m (\<lambda>h1. in_balance ops h0 own (h1, g))"
  using assms in_balance_still [OF assms(1)] by (auto simp: runs_def)

section \<open>Operations of the store return\<close>

lemma get_lane_after_put: "get_lane h1 l \<noteq> None \<Longrightarrow> lanes h = lanes h1 \<Longrightarrow> get_lane (put_cell h p l c) l \<noteq> None"
  by (auto simp: get_lane_def put_cell_def split: if_splits)

lemma record_failure_returns:
  assumes "l < length (lanes h)" and "cooldown_cfg_ok cfg"
  shows "record_failure_for env h p l now cfg ra \<noteq> None"
proof -
  obtain h1 c where f: "cell_of h p l = Some (h1, c)" using cell_of_total [OF assms(1)] by blast
  obtain c1 t where c1: "cell_record_failure env c now cfg ra (max_honored_retry_after_secs h) = Some (c1, t)"
    using cell_record_failure_total [OF assms(2)] by blast
  have "length (lanes (put_cell h1 p l c1)) = length (lanes h)"
    using cell_of_lanes [OF f] by simp
  with assms(1) f c1 show ?thesis
    by (auto simp: record_failure_for_def get_lane_def Let_def)
qed

lemma record_success_returns:
  assumes "l < length (lanes h)"
  shows "record_success_for h p l now \<noteq> None"
proof -
  obtain h1 c where f: "cell_of h p l = Some (h1, c)" using cell_of_total [OF assms] by blast
  obtain c1 r where c1: "cell_record_success c now = (c1, r)" by fastforce
  have len: "length (lanes (put_cell h1 p l c1)) = length (lanes h)"
    using cell_of_lanes [OF f] by simp
  have "\<exists>h3. reset_swrr_for (put_cell h1 p l c1) p l = Some h3 \<and> length (lanes h3) = length (lanes h)"
  proof -
    let ?g = "fst (swrr_shard (put_cell h1 p l c1) p)"
    have lg: "length (lanes ?g) = length (lanes h)" using len by simp
    then obtain h2 d where g: "cell_of ?g p l = Some (h2, d)" using cell_of_total [of l ?g p] assms by metis
    with lg cell_of_lanes [OF g] show ?thesis by (simp add: reset_swrr_for_def)
  qed
  with assms f c1 len show ?thesis
    by (auto simp: record_success_for_def get_lane_def Let_def)
qed

lemma per_cell_returns:
  "l < length (lanes h) \<Longrightarrow> release_probe_in h p l \<noteq> None"
  "l < length (lanes h) \<Longrightarrow> release_probe_owned_in h p l e \<noteq> None"
  "l < length (lanes h) \<Longrightarrow> cooldown_remaining_for h p l now \<noteq> None"
  using cell_of_total [of l h p]
  by (auto simp: release_probe_in_def release_probe_owned_in_def cooldown_remaining_for_def)

lemma per_lane_returns:
  "l < length (lanes h) \<Longrightarrow> record_client_fault h l \<noteq> None"
  "l < length (lanes h) \<Longrightarrow> record_hard_down_all_cells h l reason now \<noteq> None"
  "l < length (lanes h) \<Longrightarrow> record_latency_in blend sample h l \<noteq> None"
  "l < length (lanes h) \<Longrightarrow> spend_budget h l \<noteq> None"
  "l < length (lanes h) \<Longrightarrow> refund_budget h l \<noteq> None"
  "l < length (lanes h) \<Longrightarrow> drop_permit ops h l p \<noteq> None"
  "l < length (lanes h) \<Longrightarrow> try_acquire ops h l \<noteq> None"
  "l < length (lanes h) \<Longrightarrow> lane_semaphore h l \<noteq> None"
  "l < length (lanes h) \<Longrightarrow> lane_admissible h l \<noteq> None"
  by (auto simp: record_client_fault_def record_hard_down_all_cells_def record_latency_in_def spend_budget_def
      refund_budget_def drop_permit_def try_acquire_def lane_semaphore_def lane_admissible_def get_lane_def Let_def
      split: option.splits Permit.splits)

lemma admit_breaker_returns:
  assumes "l < length (lanes h)"
  shows "try_admit_breaker h p l now \<noteq> None"
proof -
  obtain h1 u where g: "admit_gate h p l now = Some (h1, u)" using admit_gate_total [OF assms] by blast
  have l1: "l < length (lanes h1)" using assms admit_gate_cases(1) [OF g] by simp
  obtain h2 c where "cell_of h1 p l = Some (h2, c)" using cell_of_total [OF l1] by blast
  then have "admit_probe h1 p l now \<noteq> None" by (simp add: admit_probe_def case_prod_unfold Let_def)
  with g show ?thesis by (auto simp: try_admit_breaker_def split: option.split)
qed

section \<open>The operations of a request\<close>

lemma step_still_runs:
  assumes "legal_world h0 w" and "good w h0 own s" and "l < length (lanes h0)"
    and "\<And>clk env h. l < length (lanes h) \<Longrightarrow> f clk env h \<noteq> None"
    and "\<And>clk env h h1 a. f clk env h = Some (h1, a) \<Longrightarrow> still h h1"
  shows "runs (step w f s) (\<lambda>(s1, a). good w h0 own s1)"
proof -
  have "runs (step w f s) (\<lambda>(s1, a). good w h0 own s1 \<and> True)"
  proof (rule step_runs [OF assms(1,2)])
    fix clk env h g
    assume b: "in_balance (w_sem w) h0 own (h, g)"
    with assms(3) have "f clk env h \<noteq> None" using assms(4) in_balance_lanes [OF b] by simp
    with still_runs [OF b this assms(5)] show
      "runs (f clk env h) (\<lambda>(h1, a). in_balance (w_sem w) h0 own (h1, g) \<and> True)" by simp
  qed
  then show ?thesis by simp
qed

lemma act_still_runs:
  assumes "legal_world h0 w" and "good w h0 own s" and "l < length (lanes h0)"
    and "\<And>now h. l < length (lanes h) \<Longrightarrow> f now h \<noteq> None" and "\<And>now h h1. f now h = Some h1 \<Longrightarrow> still h h1"
  shows "runs (act w f s) (good w h0 own)"
proof (rule act_runs [OF assms(1,2)])
  fix now h g
  assume b: "in_balance (w_sem w) h0 own (h, g)"
  with assms(3) have "f now h \<noteq> None" using assms(4) in_balance_lanes [OF b] by simp
  from still_runs1 [OF b this assms(5)] show "runs (f now h) (\<lambda>h1. in_balance (w_sem w) h0 own (h1, g))" .
qed

named_theorems books \<open>what an operation of a request does to the books\<close>

lemma record_transient_runs [books]:
  "legal_world h0 w \<Longrightarrow> good w h0 own s \<Longrightarrow> l < length (lanes h0) \<Longrightarrow> cooldown_cfg_ok cfg \<Longrightarrow>
   runs (record_transient_in w p l cfg ra s) (\<lambda>(s1, t). good w h0 own s1)"
  unfolding record_transient_in_def
  by (rule step_still_runs) (assumption | erule (1) record_failure_returns | erule still_record_failure)+

lemma record_rate_limit_runs [books]:
  "legal_world h0 w \<Longrightarrow> good w h0 own s \<Longrightarrow> l < length (lanes h0) \<Longrightarrow> cooldown_cfg_ok cfg \<Longrightarrow>
   runs (record_rate_limit_in w p l now cfg ra s) (\<lambda>(s1, t). good w h0 own s1)"
  unfolding record_rate_limit_in_def
  by (rule step_still_runs) (assumption | erule (1) record_failure_returns | erule still_record_failure)+

lemma release_owned_runs [books]:
  "legal_world h0 w \<Longrightarrow> good w h0 own s \<Longrightarrow> l < length (lanes h0) \<Longrightarrow> runs (release_owned w p l e s) (good w h0 own)"
  unfolding release_owned_def
  by (rule act_still_runs) (assumption | erule per_cell_returns | erule still_release_owned)+

lemma read_clock_good [books]:
  "legal_world h0 w \<Longrightarrow> good w h0 own s \<Longrightarrow> read_clock w s = (s1, t) \<Longrightarrow> good w h0 own s1"
  by (auto simp: read_clock_def intro: good_interleave)

lemma drop_in_runs [books]:
  assumes "legal_world h0 w" and "good w h0 (holding l (hold p) own) s" and "l < length (lanes h0)"
  shows "runs (drop_in w l p s) (good w h0 own)"
  unfolding drop_in_def
proof (rule act_runs [OF assms(1,2)])
  fix now h g
  assume b: "in_balance (w_sem w) h0 (holding l (hold p) own) (h, g)"
  then have "drop_permit (w_sem w) h l p \<noteq> None" using in_balance_lanes [OF b] assms(3) by (intro per_lane_returns) simp
  moreover have "semaphore_laws (w_sem w)" using assms(1) by (simp add: legal_world_def)
  ultimately show "runs (drop_permit (w_sem w) h l p) (\<lambda>h1. in_balance (w_sem w) h0 own (h1, g))"
    using in_balance_drop [OF _ b] by (auto simp: runs_def)
qed

lemma refund_runs [books]:
  assumes "legal_world h0 w" and "good w h0 (charging l 1 own) s" and "l < length (lanes h0)"
  shows "runs (act w (\<lambda>now h. refund_budget h l) s) (good w h0 own)"
proof (rule act_runs [OF assms(1,2)])
  fix now h g
  assume b: "in_balance (w_sem w) h0 (charging l 1 own) (h, g)"
  then have "refund_budget h l \<noteq> None" using in_balance_lanes [OF b] assms(3) by (intro per_lane_returns) simp
  moreover have "store_wf h0" using assms(1) by (simp add: legal_world_def)
  ultimately show "runs (refund_budget h l) (\<lambda>h1. in_balance (w_sem w) h0 own (h1, g))"
    using in_balance_refund [OF _ b] by (auto simp: runs_def)
qed

lemma guard_drop_runs [books]:
  assumes "legal_world h0 w" and "good w h0 (charging l (of_bool armed) own) s" and "l < length (lanes h0)"
  shows "runs (budget_guard_drop w l armed s) (good w h0 own)"
  using refund_runs [OF assms(1) _ assms(3)] assms(2) by (cases armed) (auto simp: budget_guard_drop_def)

lemma spend_runs [books]:
  assumes "legal_world h0 w" and "good w h0 own s" and "l < length (lanes h0)"
  shows "runs (step w (\<lambda>clk env h. spend_budget h l) s) (\<lambda>(s1, spent). good w h0 (charging l (of_bool spent) own) s1)"
proof -
  have "runs (step w (\<lambda>clk env h. spend_budget h l) s)
      (\<lambda>(s1, spent). good w h0 (charging l (of_bool spent) own) s1 \<and> True)"
  proof (rule step_runs [OF assms(1,2)])
    fix clk env h g
    assume b: "in_balance (w_sem w) h0 own (h, g)"
    then have "spend_budget h l \<noteq> None" using in_balance_lanes [OF b] assms(3) by (intro per_lane_returns) simp
    then obtain h1 spent where sp: "spend_budget h l = Some (h1, spent)" by auto
    from in_balance_spend [OF b sp] show
      "runs (spend_budget h l) (\<lambda>(h1, a). in_balance (w_sem w) h0 (charging l (of_bool a) own) (h1, g) \<and> True)"
      by (simp add: sp)
  qed
  then show ?thesis by simp
qed

section \<open>Picking a lane\<close>

definition picked_own :: "pick option \<Rightarrow> accounts \<Rightarrow> accounts" where
  "picked_own r own = (case r of None \<Rightarrow> own | Some (l, permit, epoch) \<Rightarrow> holding l (hold permit) own)"

text \<open>A pick that refuses leaves the books as they were; one that succeeds holds its permit.\<close>

lemma in_balance_pick_loop:
  assumes "semaphore_laws ops"
  shows "pick_loop fuel ops clock k h cands ctx loc pool order = Some (h1, ctx1, r) \<Longrightarrow>
    in_balance ops h0 own (h, g) \<Longrightarrow> in_balance ops h0 (picked_own r own) (h1, g)"
proof (induction fuel arbitrary: k h ctx loc)
  case (Suc fuel)
  show ?case
  proof (cases "expired ctx (clock k) \<or> open_cands ctx loc cands = []")
    case True
    with Suc.prems show ?thesis by (auto simp: pick_loop_unfold picked_own_def)
  next
    case False
    with Suc.prems(1) obtain h2 sel where s: "select_lane h pool (map wl_idx (open_cands ctx loc cands))
        (map wl_weight (open_cands ctx loc cands)) order (clock (k + 1)) = Some (h2, sel)"
      by (auto simp: pick_loop_unfold bind_eq_Some_conv)
    have b2: "in_balance ops h0 own (h2, g)" by (rule in_balance_still [OF Suc.prems(2) still_select_lane [OF s]])
    show ?thesis
    proof (cases sel)
      case None
      with False s Suc.prems(1) b2 show ?thesis by (auto simp: pick_loop_unfold picked_own_def)
    next
      case (Some lane)
      with False s Suc.prems(1) obtain h3 q where a: "try_admit ops h2 pool lane (clock (k + 2)) = Some (h3, q)"
        by (auto simp: pick_loop_unfold bind_eq_Some_conv)
      note b3 = in_balance_try_admit [OF assms b2 a]
      show ?thesis
      proof (cases q)
        case (Inr admit)
        with False s Some a Suc.prems(1) b3 show ?thesis by (auto simp: pick_loop_unfold picked_own_def)
      next
        case (Inl reason)
        with False s Some a Suc.prems(1) have
          "pick_loop fuel ops clock (k + 3) h3 cands (ctx\<lparr>excluded_reasons := excluded_reasons ctx @ [(lane, reason)]\<rparr>)
             (insert lane loc) pool order = Some (h1, ctx1, r)"
          by (simp add: pick_loop_unfold)
        from Suc.IH [OF this] b3 Inl show ?thesis by simp
      qed
    qed
  qed
qed simp

lemma in_balance_pick_among:
  assumes "semaphore_laws ops" and "pick_among ops clock h cands ctx aff pool order = Some (h1, ctx1, r)"
    and "in_balance ops h0 own (h, g)"
  shows "in_balance ops h0 (picked_own r own) (h1, g)"
proof (cases "pick_among ops clock h cands ctx aff pool order
    = pick_loop (Suc (length cands)) ops clock 1 h cands (ctx\<lparr>excluded_reasons := []\<rparr>) {} pool order")
  case True
  with assms(2) show ?thesis using in_balance_pick_loop [OF assms(1) _ assms(3)] by simp
next
  case False
  then obtain hash where hash: "aff = Some hash" "cands \<noteq> []" "wl_weight (cands ! (hash mod length cands)) \<noteq> 0"
      "wl_idx (cands ! (hash mod length cands)) \<notin> excluded ctx"
    using pick_among_plain [where aff = aff and cands = cands and ctx = ctx] by (cases aff) fastforce+
  let ?l = "wl_idx (cands ! (hash mod length cands))"
  from hash assms(2) obtain h2 q where a: "try_admit ops h pool ?l (clock 0) = Some (h2, q)"
    by (auto simp: pick_among_def Let_def bind_eq_Some_conv)
  note b2 = in_balance_try_admit [OF assms(1,3) a]
  show ?thesis
  proof (cases q)
    case (Inr admit)
    with hash a assms(2) b2 show ?thesis by (auto simp: pick_among_def Let_def picked_own_def)
  next
    case (Inl reason)
    with hash a assms(2) have "pick_loop (Suc (length cands)) ops clock 1 h2 cands
        (ctx\<lparr>excluded_reasons := [(?l, reason)]\<rparr>) {} pool order = Some (h1, ctx1, r)"
      by (simp add: pick_among_def Let_def)
    from in_balance_pick_loop [OF assms(1) this] b2 Inl show ?thesis by simp
  qed
qed

end
