(* ===== verification/Engine_Books.thy ===== *)
theory Engine_Books
  imports Engine_Accounts
begin

text \<open>
  Every function of the engine returns and keeps the books. \<open>body_own\<close> is what a streamed body
  holds (the lane's permit, and the unit of budget until it is refunded or kept for good), \<open>rests\<close>
  what a response leaves: a stream holds what its body says, every other response holds no permit
  and at most the one unit of budget it was charged.
\<close>

section \<open>The life of a body\<close>

definition body_own :: "FirstByteBody \<Rightarrow> accounts \<Rightarrow> accounts" where
  "body_own b own =
     charging (fb_lane b) (of_bool (fb_budget_spent b))
       (case fb_permit b of None \<Rightarrow> own | Some p \<Rightarrow> holding (fb_lane b) (hold p) own)"

definition body_ok :: "'sem HealthState \<Rightarrow> FirstByteBody \<Rightarrow> bool" where
  "body_ok h0 b \<longleftrightarrow> fb_lane b < length (lanes h0) \<and> cooldown_cfg_ok (fb_cfg b)"

lemma body_own_frame [simp]:
  "body_own (b\<lparr>fb_first_byte_sent := x1\<rparr>) own = body_own b own" "body_own (b\<lparr>fb_translate := x2\<rparr>) own = body_own b own"
  "body_own (b\<lparr>fb_finished := x3\<rparr>) own = body_own b own" "body_own (b\<lparr>fb_json_array := x4\<rparr>) own = body_own b own"
  "body_own (b\<lparr>fb_sink := x5\<rparr>) own = body_own b own" "body_own (b\<lparr>fb_ended := x6\<rparr>) own = body_own b own"
  "body_own (b\<lparr>fb_failed := x7\<rparr>) own = body_own b own" "body_own (b\<lparr>fb_nonstream := x8\<rparr>) own = body_own b own"
  by (simp_all add: body_own_def split: option.split)

lemma body_ok_frame [simp]:
  "body_ok h0 (b\<lparr>fb_first_byte_sent := x1\<rparr>) = body_ok h0 b" "body_ok h0 (b\<lparr>fb_translate := x2\<rparr>) = body_ok h0 b"
  "body_ok h0 (b\<lparr>fb_finished := x3\<rparr>) = body_ok h0 b" "body_ok h0 (b\<lparr>fb_json_array := x4\<rparr>) = body_ok h0 b"
  "body_ok h0 (b\<lparr>fb_sink := x5\<rparr>) = body_ok h0 b" "body_ok h0 (b\<lparr>fb_ended := x6\<rparr>) = body_ok h0 b"
  "body_ok h0 (b\<lparr>fb_failed := x7\<rparr>) = body_ok h0 b" "body_ok h0 (b\<lparr>fb_nonstream := x8\<rparr>) = body_ok h0 b"
  "body_ok h0 (b\<lparr>fb_permit := x9\<rparr>) = body_ok h0 b" "body_ok h0 (b\<lparr>fb_budget_spent := x10\<rparr>) = body_ok h0 b"
  by (simp_all add: body_ok_def)

lemma drop_body_permit_runs [books]:
  assumes "legal_world h0 w" and "good w h0 (body_own b own) s" and "body_ok h0 b"
  shows "runs (drop_body_permit w b s) (\<lambda>(s1, b1). b1 = b\<lparr>fb_permit := None\<rparr> \<and> good w h0 (body_own b1 own) s1)"
proof (cases "fb_permit b")
  case None
  then have "b\<lparr>fb_permit := None\<rparr> = b" by (cases b) simp
  with None assms(2) show ?thesis by (simp add: drop_body_permit_def)
next
  case (Some p)
  have "good w h0 (holding (fb_lane b) (hold p) (charging (fb_lane b) (of_bool (fb_budget_spent b)) own)) s"
    using assms(2) Some by (simp add: body_own_def holding_charging)
  from drop_in_runs [OF assms(1) this] assms(3) Some show ?thesis
    by (auto simp: drop_body_permit_def body_own_def body_ok_def runs_def)
qed

lemma body_refund_runs [books]:
  assumes "legal_world h0 w" and "good w h0 (body_own b own) s" and "body_ok h0 b"
  shows "runs (body_refund w b s) (\<lambda>(s1, b1). b1 = b\<lparr>fb_budget_spent := False\<rparr> \<and> good w h0 (body_own b1 own) s1)"
proof (cases "fb_budget_spent b")
  case False
  then have "b\<lparr>fb_budget_spent := False\<rparr> = b" by (cases b) simp
  with False assms(2) show ?thesis by (simp add: body_refund_def)
next
  case True
  have "good w h0 (charging (fb_lane b) 1 (case fb_permit b of None \<Rightarrow> own | Some p \<Rightarrow> holding (fb_lane b) (hold p) own)) s"
    using assms(2) True by (simp add: body_own_def)
  from refund_runs [OF assms(1) this] assms(3) True show ?thesis
    by (auto simp: body_refund_def body_own_def body_ok_def runs_def split: option.splits)
qed

lemma body_failure_runs [books]:
  "legal_world h0 w \<Longrightarrow> good w h0 own s \<Longrightarrow> body_ok h0 b \<Longrightarrow> runs (body_failure w b s) (good w h0 own)"
  using record_transient_runs [of h0 w own s "fb_lane b" "fb_cfg b" "fb_pool b" None]
  by (auto simp: body_failure_def body_ok_def runs_def)

text \<open>What a poll keeps: the lane, the configuration and the books.\<close>

definition polled :: "'sem World \<Rightarrow> 'sem HealthState \<Rightarrow> accounts \<Rightarrow> FirstByteBody \<Rightarrow> 'sem Run \<Rightarrow> bool" where
  "polled w h0 own b s \<longleftrightarrow> body_ok h0 b \<and> good w h0 (body_own b own) s"

lemma on_error_runs:
  assumes "legal_world h0 w" and "polled w h0 own b s"
  shows "runs (on_error ops w b s) (\<lambda>(s1, b1, p). polled w h0 own b1 s1)"
proof -
  let ?b = "b\<lparr>fb_failed := True\<rparr>"
  have ok: "body_ok h0 ?b" and g: "good w h0 (body_own ?b own) s" using assms(2) by (simp_all add: polled_def)
  show ?thesis
    unfolding on_error_def Let_def
    using ok
    by (auto simp: polled_def intro!: runs_bind [OF body_failure_runs [OF assms(1) g ok]]
        runs_bind2 [OF drop_body_permit_runs [OF assms(1)]] runs_bind2 [OF body_refund_runs [OF assms(1)]])
qed

lemma on_end_runs:
  assumes "legal_world h0 w" and "polled w h0 own b s"
  shows "runs (on_end ops w b s) (\<lambda>(s1, b1, p). polled w h0 own b1 s1)"
proof -
  let ?b = "b\<lparr>fb_finished := True\<rparr>"
  have ok: "body_ok h0 b" and g: "good w h0 (body_own b own) s" using assms(2) by (simp_all add: polled_def)
  have fail: "runs (if fb_is_sse b \<and> fb_first_byte_sent b \<and> (terminal_error ops b \<or> translate_aborted ops b)
              then body_failure w b s else Some s) (good w h0 (body_own b own))"
    using body_failure_runs [OF assms(1) g ok] g by simp
  show ?thesis
    unfolding on_end_def Let_def
  proof (rule runs_bind [OF fail])
    fix s1 assume "good w h0 (body_own b own) s1"
    then have g1: "good w h0 (body_own ?b own) s1" and ok1: "body_ok h0 ?b" using ok by simp_all
    show "runs (do { (s2, b2) \<leftarrow> drop_body_permit w ?b s1;
          Some (if terminal_error ops b2 \<or> translate_aborted ops b then s2 else bill (fb_sink b2) (fb_lane b2) (end_usage ops b2) s2,
            b2\<lparr>fb_ended := True, fb_sink := False\<rparr>,
            if end_bytes ops b (translate_aborted ops b) = [] then ReadyNone
            else ReadyOk (end_bytes ops b (translate_aborted ops b))) })
        (\<lambda>(s1, b1, p). polled w h0 own b1 s1)"
      by (rule runs_bind2 [OF drop_body_permit_runs [OF assms(1) g1 ok1]]) (use ok in \<open>auto simp: polled_def\<close>)
  qed
qed

lemma frame_out_own:
  "frame_out ops b out = (b1, r) \<Longrightarrow> body_own b1 = body_own b \<and> body_ok h0 b1 = body_ok h0 b"
  by (auto simp: frame_out_def fun_eq_iff Let_def split: option.splits if_splits)

lemma keep_usage_copy_own:
  "body_own (keep_usage_copy ops cap b c) = body_own b" "body_ok h0 (keep_usage_copy ops cap b c) = body_ok h0 b"
  by (simp_all add: keep_usage_copy_def fun_eq_iff)

lemma on_chunk_own:
  assumes "on_chunk ops cap b c = (b1, r)"
  shows "body_own b1 = body_own b \<and> body_ok h0 b1 = body_ok h0 b"
  using assms frame_out_own [of ops _ _ _ _ h0]
  by (fastforce simp: on_chunk_def keep_usage_copy_own fun_eq_iff Let_def split: option.splits if_splits)

lemma poll_inner_runs:
  assumes "legal_world h0 w" and "polled w h0 own b s"
  shows "runs (poll_inner ops w inner b s) (\<lambda>(s1, b1, rest, p). polled w h0 own b1 s1)"
  using assms
proof (induction ops w inner b s rule: poll_inner.induct)
  case (2 ops w c rest b s)
  obtain b1 r where oc: "on_chunk ops (bo_cap ops (run_tick s)) b c = (b1, r)" by fastforce
  then have "polled w h0 own b1 s" using 2(3) on_chunk_own [OF oc, of h0] by (simp add: polled_def)
  with 2(1) [OF oc [symmetric]] 2(2) oc show ?case by (cases r) simp_all
next
  case (3 ops w rest b s)
  from on_error_runs [OF 3, of ops] show ?case
    by (auto intro!: runs_map elim: runs_mono)
next
  case (4 ops w rest b s)
  from on_end_runs [OF 4, of ops] show ?case
    by (auto intro!: runs_map elim: runs_mono)
qed simp

lemma poll_next_runs:
  "legal_world h0 w \<Longrightarrow> polled w h0 own b s \<Longrightarrow>
   runs (poll_next ops w inner b s) (\<lambda>(s1, b1, rest, p). polled w h0 own b1 s1)"
  by (simp add: poll_next_def poll_inner_runs)

lemma poll_times_runs:
  assumes "legal_world h0 w" and "polled w h0 own b s"
  shows "runs (poll_times ops w left batches b s) (\<lambda>(s1, b1, ps). polled w h0 own b1 s1)"
  using assms
proof (induction ops w left batches b s rule: poll_times.induct)
  case (2 ops w left ready later b s)
  from poll_next_runs [OF 2(2,3), of ops "left @ ready"] obtain s1 b1 left1 p where
    n: "poll_next ops w (left @ ready) b s = Some (s1, b1, left1, p)" and k: "polled w h0 own b1 s1"
    by (auto simp: runs_def)
  from 2(1) [OF n refl refl refl 2(2) k] n show ?case by (auto simp: runs_def)
qed simp

text \<open>Dropping a body gives back all that it holds, except a unit of budget kept for good.\<close>

lemma body_drop_runs:
  assumes "legal_world h0 w" and "polled w h0 own b s"
  shows "runs (body_drop ops w b s)
    (\<lambda>(s1, b1). fb_permit b1 = None \<and> fb_lane b1 = fb_lane b \<and> body_ok h0 b1 \<and> good w h0 (body_own b1 own) s1)"
proof -
  have ok: "body_ok h0 b" and g: "good w h0 (body_own b own) s" using assms(2) by (simp_all add: polled_def)
  have r: "runs (if \<not> fb_ended b then body_refund w b s else Some (s, b))
      (\<lambda>(s1, b1). good w h0 (body_own b1 own) s1 \<and> body_ok h0 b1 \<and> fb_lane b1 = fb_lane b)"
    using body_refund_runs [OF assms(1) g ok] ok g by (auto simp: runs_def)
  show ?thesis
    unfolding body_drop_def Let_def
  proof (rule runs_bind2 [OF r])
    fix s1 b1 assume a: "good w h0 (body_own b1 own) s1 \<and> body_ok h0 b1 \<and> fb_lane b1 = fb_lane b"
    then have "good w h0 (body_own (b1\<lparr>fb_sink := False\<rparr>) own) (drop_bill ops b1 s1)" by (simp add: drop_bill_def Let_def)
    with a show "runs (drop_body_permit w (b1\<lparr>fb_sink := False\<rparr>) (drop_bill ops b1 s1))
      (\<lambda>(s1, b1). fb_permit b1 = None \<and> fb_lane b1 = fb_lane b \<and> body_ok h0 b1 \<and> good w h0 (body_own b1 own) s1)"
      using drop_body_permit_runs [OF assms(1), of "b1\<lparr>fb_sink := False\<rparr>" own "drop_bill ops b1 s1"]
      by (auto simp: runs_def)
  qed
qed

lemma body_life_runs:
  assumes "legal_world h0 w" and "polled w h0 own b s"
  shows "runs (body_life ops w batches b s)
    (\<lambda>(s1, b1, ps). fb_permit b1 = None \<and> body_ok h0 b1 \<and> good w h0 (body_own b1 own) s1)"
  unfolding body_life_def
proof (rule runs_bind3 [OF poll_times_runs [OF assms]])
  fix s1 b1 ps assume "polled w h0 own b1 s1"
  from body_drop_runs [OF assms(1) this, of ops] show
    "runs (do { (s2, b2) \<leftarrow> body_drop ops w b1 s1; Some (s2, b2, ps) })
      (\<lambda>(s1, b1, ps). fb_permit b1 = None \<and> body_ok h0 b1 \<and> good w h0 (body_own b1 own) s1)"
    by (auto simp: runs_def)
qed

section \<open>What an attempt leaves\<close>

fun may_charge :: "Response \<Rightarrow> bool" where
  "may_charge (IngressError st k m) \<longleftrightarrow> True"
| "may_charge (Buffered st body) \<longleftrightarrow> True"
| "may_charge (Overloaded503 n) \<longleftrightarrow> False"
| "may_charge (GateRejected st k m) \<longleftrightarrow> False"
| "may_charge (Relayed st body) \<longleftrightarrow> False"
| "may_charge (Streamed b) \<longleftrightarrow> False"
| "may_charge Gone \<longleftrightarrow> False"

definition rests :: "'sem World \<Rightarrow> 'sem HealthState \<Rightarrow> accounts \<Rightarrow> Response \<Rightarrow> 'sem Run \<Rightarrow> bool" where
  "rests w h0 own resp s \<longleftrightarrow>
     (case resp of
        Streamed b \<Rightarrow> polled w h0 own b s \<and> fb_permit b \<noteq> None
      | other \<Rightarrow> good w h0 own s \<or> (may_charge resp \<and> (\<exists>l < length (lanes h0). good w h0 (charging l 1 own) s)))"

definition hop_rests :: "'sem World \<Rightarrow> 'sem HealthState \<Rightarrow> accounts \<Rightarrow> Hop \<Rightarrow> 'sem Run \<Rightarrow> bool" where
  "hop_rests w h0 own hop s \<longleftrightarrow> (case hop of Return resp \<Rightarrow> rests w h0 own resp s | Next \<Rightarrow> good w h0 own s)"

definition cands_ok :: "'sem HealthState \<Rightarrow> WeightedLane list \<Rightarrow> bool" where
  "cands_ok h0 cands \<longleftrightarrow> distinct (map wl_idx cands) \<and> (\<forall>wl \<in> set cands. wl_idx wl < length (lanes h0))"

definition app_ok :: "'sem HealthState \<Rightarrow> App \<Rightarrow> bool" where
  "app_ok h0 app \<longleftrightarrow> length (app_lanes app) = length (lanes h0)
     \<and> (\<forall>pool. cooldown_cfg_ok (resolve_breaker_cfg app pool))
     \<and> (\<forall>(pool, cands) \<in> set (app_fallback_pools app). cands_ok h0 cands)"

lemma rests_good:
  "good w h0 own s \<Longrightarrow> (\<And>b. resp \<noteq> Streamed b) \<Longrightarrow> rests w h0 own resp s"
  by (cases resp) (auto simp: rests_def)

lemma rests_charged:
  "good w h0 (charging l (of_bool c) own) s \<Longrightarrow> l < length (lanes h0) \<Longrightarrow> may_charge resp \<Longrightarrow> rests w h0 own resp s"
  by (cases resp; cases c) (auto simp: rests_def)

lemma charging_and:
  "good w h0 (charging l (of_bool c) own) s \<Longrightarrow> \<not> b \<Longrightarrow> good w h0 (charging l (of_bool (c \<and> \<not> b)) own) s"
  by simp

lemma translate_runs:
  assumes lw: "legal_world h0 w" and g: "good w h0 (charging i (of_bool spent) (holding i (hold permit) own)) s"
    and l: "i < length (lanes h0)" and cfg: "cooldown_cfg_ok cfg"
  shows "runs (translate_response_cross_protocol w cd rq i pool cfg r permit spent wants s) (\<lambda>(s1, resp). rests w h0 own resp s1)"
proof -
  let ?charged = "charging i (of_bool spent) own"
  have "good w h0 (holding i (hold permit) ?charged) s" using g by (simp add: holding_charging)
  note dropped = drop_in_runs [OF lw this l]
  show ?thesis
    unfolding translate_response_cross_protocol_def
  proof (rule runs_bind [OF dropped])
    fix s1 assume g1: "good w h0 ?charged s1"
    obtain billed ans where dc: "deliver_completion cd rq i r wants = (billed, ans)" by fastforce
    have undelivered: "runs (do {
          (s3, tripped) \<leftarrow> record_transient_in w pool i cfg None s2;
          s4 \<leftarrow> budget_guard_drop w i (spent \<and> \<not> billed) s3;
          Some (s4, IngressError 500 ''api_error'' GENERIC_RESPONSE_ERROR_DETAIL) }) (\<lambda>(s1, resp). rests w h0 own resp s1)"
      if g2: "good w h0 ?charged s2" for s2
    proof (rule runs_bind2 [OF record_transient_runs [OF lw g2 l cfg]])
      fix s3 t assume g3: "good w h0 ?charged s3"
      show "runs (do {
          s4 \<leftarrow> budget_guard_drop w i (spent \<and> \<not> billed) s3;
          Some (s4, IngressError 500 ''api_error'' GENERIC_RESPONSE_ERROR_DETAIL) }) (\<lambda>(s1, resp). rests w h0 own resp s1)"
      proof (cases billed)
        case True
        then show ?thesis using rests_charged [OF g3 l] by (simp add: budget_guard_drop_def)
      next
        case False
        with guard_drop_runs [OF lw g3 l] show ?thesis by (auto simp: runs_def intro: rests_good)
      qed
    qed
    have broken: "runs (do {
          (s2, tripped) \<leftarrow> record_transient_in w pool i cfg None s1;
          s3 \<leftarrow> budget_guard_drop w i spent s2;
          Some (s3, IngressError 502 ''api_error'' GENERIC_RESPONSE_ERROR_DETAIL) }) (\<lambda>(s1, resp). rests w h0 own resp s1)"
    proof (rule runs_bind2 [OF record_transient_runs [OF lw g1 l cfg]])
      fix s3 t assume "good w h0 ?charged s3"
      from guard_drop_runs [OF lw this l] show "runs (do {
          s3 \<leftarrow> budget_guard_drop w i spent s3;
          Some (s3, IngressError 502 ''api_error'' GENERIC_RESPONSE_ERROR_DETAIL) }) (\<lambda>(s1, resp). rests w h0 own resp s1)"
        by (auto simp: runs_def intro: rests_good)
    qed
    have gone: "runs (do { s2 \<leftarrow> budget_guard_drop w i spent s1; Some (s2, Gone) }) (\<lambda>(s1, resp). rests w h0 own resp s1)"
      using guard_drop_runs [OF lw g1 l] by (auto simp: runs_def intro: rests_good)
    have delivered: "may_charge resp" if "ans = Some resp" for resp
      using dc that by (auto simp: deliver_completion_def split: if_splits option.splits)
    have cut: "rests w h0 own (IngressError 500 ''api_error'' GENERIC_RESPONSE_ERROR_DETAIL) s1"
      by (rule rests_charged [OF g1 l]) simp
    have whole: "rests w h0 own resp (bill b i u s1)" if "ans = Some resp" for resp b u
      by (rule rests_charged [OF _ l delivered [OF that], where c = spent]) (simp add: g1)
    show "runs (if hr_hangup r then do { s2 \<leftarrow> budget_guard_drop w i spent s1; Some (s2, Gone) }
       else case hr_end r of
         Complete \<Rightarrow>
           (case deliver_completion cd rq i r wants of
              (billed, None) \<Rightarrow> do {
                let s2 = bill (rq_sink rq \<and> billed) i (cd_usage cd i (hr_body r)) s1;
                (s3, tripped) \<leftarrow> record_transient_in w pool i cfg None s2;
                s4 \<leftarrow> budget_guard_drop w i (spent \<and> \<not> billed) s3;
                Some (s4, IngressError 500 ''api_error'' GENERIC_RESPONSE_ERROR_DETAIL) }
            | (billed, Some resp) \<Rightarrow> Some (bill (rq_sink rq \<and> billed) i (cd_usage cd i (hr_body r)) s1, resp))
       | Truncated \<Rightarrow> Some (s1, IngressError 500 ''api_error'' GENERIC_RESPONSE_ERROR_DETAIL)
       | TransportError \<Rightarrow> do {
           (s2, tripped) \<leftarrow> record_transient_in w pool i cfg None s1;
           s3 \<leftarrow> budget_guard_drop w i spent s2;
           Some (s3, IngressError 502 ''api_error'' GENERIC_RESPONSE_ERROR_DETAIL) }) (\<lambda>(s1, resp). rests w h0 own resp s1)"
      using gone broken undelivered [of "bill b i u s1" for b u] cut whole g1
      by (cases "hr_hangup r"; cases "hr_end r"; cases ans) (simp_all add: dc Let_def)
  qed
qed

lemma record_success_act_runs [books]:
  "legal_world h0 w \<Longrightarrow> good w h0 own s \<Longrightarrow> l < length (lanes h0) \<Longrightarrow>
   runs (act w (\<lambda>now h. record_success_for h p l now) s) (good w h0 own)"
  by (rule act_still_runs) (assumption | erule record_success_returns | erule still_record_success)+

lemma record_latency_act_runs [books]:
  "legal_world h0 w \<Longrightarrow> good w h0 own s \<Longrightarrow> l < length (lanes h0) \<Longrightarrow>
   runs (act w (\<lambda>now h. record_latency_in blend sample h l) s) (good w h0 own)"
  by (rule act_still_runs) (assumption | erule per_lane_returns | erule still_record_latency)+

lemma client_fault_act_runs [books]:
  "legal_world h0 w \<Longrightarrow> good w h0 own s \<Longrightarrow> l < length (lanes h0) \<Longrightarrow>
   runs (act w (\<lambda>now h. record_client_fault h l) s) (good w h0 own)"
  by (rule act_still_runs) (assumption | erule per_lane_returns | erule still_record_client_fault)+

lemma release_act_runs [books]:
  "legal_world h0 w \<Longrightarrow> good w h0 own s \<Longrightarrow> l < length (lanes h0) \<Longrightarrow>
   runs (act w (\<lambda>now h. release_probe_in h p l) s) (good w h0 own)"
  by (rule act_still_runs) (assumption | erule per_cell_returns | erule still_release_probe_in)+

lemma hard_down_step_runs [books]:
  "legal_world h0 w \<Longrightarrow> good w h0 own s \<Longrightarrow> l < length (lanes h0) \<Longrightarrow>
   runs (step w (\<lambda>clk env h. record_hard_down_all_cells h l reason (clk 0)) s) (\<lambda>(s1, t). good w h0 own s1)"
  by (rule step_still_runs) (assumption | erule per_lane_returns | erule still_record_hard_down_all)+

lemma serve_success_runs:
  assumes lw: "legal_world h0 w" and g: "good w h0 (holding i (hold permit) own) s"
    and l: "i < length (lanes h0)" and cfg: "cooldown_cfg_ok cfg"
  shows "runs (serve_success w app cd rq i pool cfg r permit wants s) (\<lambda>(s1, resp). rests w h0 own resp s1)"
  unfolding serve_success_def
proof (rule runs_bind [OF record_success_act_runs [OF lw g l]], rule runs_bind [OF record_latency_act_runs [OF lw _ l]],
    assumption, rule runs_bind2 [OF spend_runs [OF lw _ l]], assumption)
  fix s1 s2 s3 spent
  assume g3: "good w h0 (charging i (of_bool spent) (holding i (hold permit) own)) s3"
  let ?body = "body_new (is_sse_reply cd r) permit i cfg pool
      (is_sse_reply cd r \<and> cd_translates cd (rq_ingress rq) (al_protocol (app_lanes app ! i)))
      (rq_json_array rq \<and> is_sse_reply cd r) (rq_sink rq) spent"
  have "polled w h0 own ?body s3" using g3 l cfg by (simp add: polled_def body_ok_def body_own_def body_new_def)
  then have "rests w h0 own (Streamed ?body) s3" by (simp add: rests_def body_new_def)
  with translate_runs [OF lw g3 l cfg]
  show "runs (let is_sse = is_sse_reply cd r
        in if crosses app rq i \<and> \<not> is_sse
           then translate_response_cross_protocol w cd rq i pool cfg r permit spent wants s3
           else Some (s3, Streamed (body_new is_sse permit i cfg pool
                   (is_sse \<and> cd_translates cd (rq_ingress rq) (al_protocol (app_lanes app ! i)))
                   (rq_json_array rq \<and> is_sse) (rq_sink rq) spent))) (\<lambda>(s1, resp). rests w h0 own resp s1)"
    by (simp add: Let_def)
qed

text \<open>The ways an attempt ends that return the permit.\<close>

lemma drop_then_runs:
  assumes "legal_world h0 w" and "good w h0 (holding i (hold permit) own) s" and "i < length (lanes h0)"
    and "\<And>s1. good w h0 own s1 \<Longrightarrow> Q (s1, x)"
  shows "runs (do { s1 \<leftarrow> drop_in w i permit s; Some (s1, x) }) Q"
  by (rule runs_bind [OF drop_in_runs [OF assms(1-3)]]) (simp add: assms(4))

lemma bail_runs:
  assumes "legal_world h0 w" and "good w h0 (holding i (hold permit) own) s" and "i < length (lanes h0)"
    and "\<And>b. resp \<noteq> Streamed b"
  shows "runs (bail_undispatched w pool i permit resp s) (\<lambda>(s1, hop). hop_rests w h0 own hop s1)"
  unfolding bail_undispatched_def
  by (rule runs_bind [OF release_act_runs [OF assms(1-3)]], rule drop_then_runs [OF assms(1) _ assms(3)], assumption)
    (use assms(4) in \<open>auto simp: hop_rests_def intro: rests_good\<close>)

lemma transport_failure_runs:
  assumes "legal_world h0 w" and "good w h0 (holding i (hold permit) own) s" and "i < length (lanes h0)" and "cooldown_cfg_ok cfg"
  shows "runs (transport_failure w pool i cfg permit s) (\<lambda>(s1, hop). hop_rests w h0 own hop s1)"
  unfolding transport_failure_def
  by (rule runs_bind2 [OF record_transient_runs [OF assms]], rule drop_then_runs [OF assms(1) _ assms(3)], assumption)
    (simp add: hop_rests_def)

lemma on_client_fault_runs:
  assumes "legal_world h0 w" and "good w h0 (holding i (hold permit) own) s" and "i < length (lanes h0)"
  shows "runs (on_client_fault w app cd rq i pool epoch permit sig r s) (\<lambda>(s1, hop). hop_rests w h0 own hop s1)"
  unfolding on_client_fault_def
  by (rule runs_bind [OF client_fault_act_runs [OF assms]], rule runs_bind [OF release_owned_runs [OF assms(1) _ assms(3)]],
      assumption, rule drop_then_runs [OF assms(1) _ assms(3)], assumption)
    (auto simp: hop_rests_def intro: rests_good)

lemma on_transient_runs:
  assumes "legal_world h0 w" and "good w h0 (holding i (hold permit) own) s" and "i < length (lanes h0)" and "cooldown_cfg_ok cfg"
  shows "runs (on_transient w i pool cfg permit sig s) (\<lambda>(s1, hop). hop_rests w h0 own hop s1)"
proof -
  obtain s0 t where rc: "read_clock w s = (s0, t)" by fastforce
  note g0 = read_clock_good [OF assms(1,2) rc]
  have "runs (if signal_class sig = RateLimit
          then (let (s0, now_time) = read_clock w s in record_rate_limit_in w pool i now_time cfg (retry_after sig) s0)
          else record_transient_in w pool i cfg (retry_after sig) s) (\<lambda>(s1, t). good w h0 (holding i (hold permit) own) s1)"
    using record_rate_limit_runs [OF assms(1) g0 assms(3,4)] record_transient_runs [OF assms] by (simp add: rc)
  then show ?thesis
    unfolding on_transient_def
    by (rule runs_bind2, intro drop_then_runs [OF assms(1) _ assms(3)]) (assumption | simp add: hop_rests_def)+
qed

lemma on_hard_down_runs:
  assumes "legal_world h0 w" and "good w h0 (holding i (hold permit) own) s" and "i < length (lanes h0)"
  shows "runs (on_hard_down w cd rq i permit sig r s) (\<lambda>(s1, hop). hop_rests w h0 own hop s1)"
  unfolding on_hard_down_def
  by (rule runs_bind2 [OF hard_down_step_runs [OF assms]], rule drop_then_runs [OF assms(1) _ assms(3)], assumption)
    (auto simp: hop_rests_def intro: rests_good split: prod.splits)

lemma on_context_length_runs:
  assumes "legal_world h0 w" and "good w h0 (holding i (hold permit) own) s" and "i < length (lanes h0)"
  shows "runs (on_context_length w i pool epoch permit s) (\<lambda>(s1, hop). hop_rests w h0 own hop s1)"
  unfolding on_context_length_def
  by (rule runs_bind [OF release_owned_runs [OF assms]], rule drop_then_runs [OF assms(1) _ assms(3)], assumption)
    (simp add: hop_rests_def)

text \<open>An arm of the disposition keeps the context, or widens its exclusions.\<close>

lemma runs_hop: "runs m (\<lambda>(s1, hop). R s1 hop) \<Longrightarrow> runs (map_option (\<lambda>(s1, hop). (s1, ctx, hop)) m) (\<lambda>(s1, c, hop). R s1 hop)"
  by (auto simp: runs_def)

lemma on_upstream_error_runs:
  assumes "legal_world h0 w" and "good w h0 (holding i (hold permit) own) s" and "i < length (lanes h0)" and "cooldown_cfg_ok cfg"
  shows "runs (on_upstream_error w app cd rq cands cfg i permit epoch r ctx s) (\<lambda>(s1, c, hop). hop_rests w h0 own hop s1)"
proof -
  let ?Q = "\<lambda>(s1, c, hop). hop_rests w h0 own hop s1"
  have gone: "runs (do { s1 \<leftarrow> drop_in w i permit s; Some (s1, ctx, Return Gone) }) ?Q"
    by (rule drop_then_runs [OF assms(1-3)]) (simp add: hop_rests_def rests_good)
  have passed: "runs (do {
        s1 \<leftarrow> release_owned w (rq_pool rq) i epoch s;
        s2 \<leftarrow> drop_in w i permit s1;
        Some (s2, ctx, Return (if crosses app rq i then shape_cross_protocol_error cd (hr_status r) (hr_body r)
                               else Relayed (hr_status r) (hr_body r))) }) ?Q"
    by (rule runs_bind [OF release_owned_runs [OF assms(1-3)]], rule drop_then_runs [OF assms(1) _ assms(3)], assumption)
      (auto simp: hop_rests_def shape_cross_protocol_error_def intro: rests_good)
  have ctx_len: "runs (map_option (\<lambda>(s1, hop). (s1, exclude_context app cands i ctx, hop))
      (on_context_length w i (rq_pool rq) epoch permit s)) ?Q"
    by (rule runs_hop [OF on_context_length_runs [OF assms(1-3)]])
  show ?thesis
    unfolding on_upstream_error_def Let_def
    using gone passed ctx_len runs_hop [OF on_client_fault_runs [OF assms(1-3)]] runs_hop [OF on_transient_runs [OF assms]]
      runs_hop [OF on_hard_down_runs [OF assms(1-3)]]
    by (auto split: Disposition.split)
qed

lemma attempt_runs:
  assumes lw: "legal_world h0 w" and g: "good w h0 (holding i (hold permit) own) s"
    and l: "i < length (lanes h0)" and cfg: "cooldown_cfg_ok (resolve_breaker_cfg app (rq_pool rq))"
  shows "runs (attempt w app cd rq cands first i permit epoch ctx s) (\<lambda>(s1, c, hop). hop_rests w h0 own hop s1)"
proof -
  let ?Q = "\<lambda>(s1, c, hop). hop_rests w h0 own hop s1"
  have bail: "runs (map_option (\<lambda>(s1, hop). (s1, ctx, hop)) (bail_undispatched w (rq_pool rq) i permit resp s)) ?Q"
    if "\<And>b. resp \<noteq> Streamed b" for resp
    by (rule runs_hop [OF bail_runs [OF lw g l that]])
  have pay: "resp \<noteq> Streamed b" if "hop_payload_error app cd rq cands first i = Some resp" for resp b
    using that by (auto simp: hop_payload_error_def split: if_splits)
  obtain s0 t where rc: "read_clock w s = (s0, t)" by fastforce
  obtain s1 t1 where rc1: "read_clock w s0 = (s1, t1)" by fastforce
  note g1 = read_clock_good [OF lw read_clock_good [OF lw g rc] rc1]
  have sent: "runs (case reply of
                    Hangup \<Rightarrow> do { s3 \<leftarrow> drop_in w i permit s2; Some (s3, ctx, Return Gone) }
                  | Elapsed \<Rightarrow> map_option (\<lambda>(s3, hop). (s3, ctx, hop)) (transport_failure w (rq_pool rq) i (resolve_breaker_cfg app (rq_pool rq)) permit s2)
                  | SendFailed \<Rightarrow> map_option (\<lambda>(s3, hop). (s3, ctx, hop)) (transport_failure w (rq_pool rq) i (resolve_breaker_cfg app (rq_pool rq)) permit s2)
                  | Replied r \<Rightarrow>
                      if is_success (hr_status r)
                      then map_option (\<lambda>(s3, resp). (s3, ctx, Return resp))
                             (serve_success w app cd rq i (rq_pool rq) (resolve_breaker_cfg app (rq_pool rq)) r permit (rq_wants_stream rq) s2)
                      else on_upstream_error w app cd rq cands (resolve_breaker_cfg app (rq_pool rq)) i permit epoch r ctx s2) ?Q"
    if g2: "good w h0 (holding i (hold permit) own) s2" for s2 reply
  proof (cases reply)
    case Hangup
    then show ?thesis by (auto intro!: drop_then_runs [OF lw g2 l] simp: hop_rests_def rests_good)
  next
    case (Replied r)
    have "runs (map_option (\<lambda>(s3, resp). (s3, ctx, Return resp))
         (serve_success w app cd rq i (rq_pool rq) (resolve_breaker_cfg app (rq_pool rq)) r permit (rq_wants_stream rq) s2)) ?Q"
      using serve_success_runs [OF lw g2 l cfg] by (fastforce simp: runs_def hop_rests_def)
    with Replied on_upstream_error_runs [OF lw g2 l cfg] show ?thesis by simp
  qed (use runs_hop [OF transport_failure_runs [OF lw g2 l cfg]] in simp_all)
  show ?thesis
    unfolding attempt_def Let_def rc
    by (cases "hop_payload_error app cd rq cands first i"; cases "cd_upstream_path cd i (rq_wants_stream rq)")
      (auto simp only: rc1 option.case prod.case intro!: bail sent dest: pay, simp_all add: g1)
qed

definition once_rests :: "'sem World \<Rightarrow> 'sem HealthState \<Rightarrow> accounts \<Rightarrow> 'sem Run \<times> Response option \<Rightarrow> bool" where
  "once_rests w h0 own r \<longleftrightarrow> (case snd r of Some resp \<Rightarrow> rests w h0 own resp (fst r) | None \<Rightarrow> good w h0 own (fst r))"

lemma leave_once_runs:
  assumes "legal_world h0 w" and "good w h0 (holding i (hold permit) own) s" and "i < length (lanes h0)"
    and "\<And>resp. answer = Some resp \<Longrightarrow> (\<forall>b. resp \<noteq> Streamed b)"
  shows "runs (leave_once w pool i probe permit answer s) (once_rests w h0 own)"
proof -
  have "runs (probe_guard_release w pool i probe s) (good w h0 (holding i (hold permit) own))"
    using release_owned_runs [OF assms(1-3)] assms(2) by (simp add: probe_guard_release_def split: option.split)
  then show ?thesis
    unfolding leave_once_def
    by (rule runs_bind, intro drop_then_runs [OF assms(1) _ assms(3)])
      (use assms(4) in \<open>auto simp: once_rests_def intro: rests_good split: option.split\<close>)
qed

lemma forward_once_dispatch_runs:
  assumes lw: "legal_world h0 w" and g: "good w h0 (holding i (hold permit) own) s"
    and l: "i < length (lanes h0)" and cfg: "cooldown_cfg_ok (resolve_breaker_cfg app pool)"
  shows "runs (forward_once_dispatch w app cd rq i permit pool probe reply s)
    (once_rests w h0 own)"
proof -
  let ?Q = "once_rests w h0 own"
  have recorded: "runs (do { (s1, tripped) \<leftarrow> record_transient_in w pool i (resolve_breaker_cfg app pool) None s;
      leave_once w pool i probe permit answer s1 }) ?Q"
    if "\<And>resp. answer = Some resp \<Longrightarrow> (\<forall>b. resp \<noteq> Streamed b)" for answer
    by (rule runs_bind2 [OF record_transient_runs [OF lw g l cfg]], rule leave_once_runs [OF lw _ l that])
  have released: "runs (do { s3 \<leftarrow> probe_guard_release w pool i probe s2; Some (s3, None) }) ?Q" if "good w h0 own s2" for s2
  proof (cases probe)
    case None
    with that show ?thesis by (simp add: probe_guard_release_def once_rests_def)
  next
    case (Some epoch)
    from release_owned_runs [OF lw that l, of pool epoch] Some show ?thesis
      by (auto simp: probe_guard_release_def runs_def once_rests_def)
  qed
  have failed: "runs (do { (s1, tripped) \<leftarrow> record_transient_in w pool i (resolve_breaker_cfg app pool) None s;
      s2 \<leftarrow> drop_in w i permit s1; s3 \<leftarrow> probe_guard_release w pool i probe s2; Some (s3, None) }) ?Q"
    by (rule runs_bind2 [OF record_transient_runs [OF lw g l cfg]], rule runs_bind [OF drop_in_runs [OF lw _ l]], assumption,
        rule released)
  have served: "runs (map_option (\<lambda>(s1, resp). (s1, Some resp))
      (serve_success w app cd rq i pool (resolve_breaker_cfg app pool) r permit (rq_once_stream rq) s)) ?Q" for r
    by (rule runs_map, rule runs_mono [OF serve_success_runs [OF lw g l cfg]]) (auto simp: once_rests_def)
  show ?thesis
    unfolding forward_once_dispatch_def Let_def
    by (auto intro!: recorded failed served leave_once_runs [OF lw g l]
        simp: shape_cross_protocol_error_def split: UpstreamReply.split)
qed

lemma forward_once_runs:
  assumes lw: "legal_world h0 w" and g: "good w h0 (holding i (hold permit) own) s"
    and l: "i < length (lanes h0)" and cfg: "cooldown_cfg_ok (resolve_breaker_cfg app pool)"
  shows "runs (forward_once w app cd rq i permit secs pool probe override s)
    (once_rests w h0 own)"
  unfolding forward_once_def Let_def
  by (auto intro!: leave_once_runs [OF lw g l] forward_once_dispatch_runs [OF lw _ l cfg] simp: g split: option.split)

end
