(* ===== verification/Engine_Total.thy ===== *)
theory Engine_Total
  imports Engine_Books
begin

text \<open>
  The failover loop and the exhaustion modes return and keep the books: no index is out of range,
  no assertion fails, and the fuel given to the queue, to a fallback pool and to the chain of
  fallback pools is enough in every legal world.
\<close>

section \<open>Picking\<close>

definition ctx_ok :: "'sem HealthState \<Rightarrow> RequestCtx \<Rightarrow> bool" where
  "ctx_ok h0 ctx \<longleftrightarrow> (\<forall>l \<in> fst ` set (excluded_reasons ctx). l < length (lanes h0))"

definition same_walk :: "RequestCtx \<Rightarrow> RequestCtx \<Rightarrow> bool" where
  "same_walk ctx c \<longleftrightarrow> excluded ctx \<subseteq> excluded c \<and> visited_pools c = visited_pools ctx
     \<and> active_restricts c = active_restricts ctx \<and> deadline c = deadline ctx"

definition pick_rests ::
  "'sem World \<Rightarrow> 'sem HealthState \<Rightarrow> WeightedLane list \<Rightarrow> accounts \<Rightarrow> RequestCtx \<Rightarrow> 'sem Run \<times> RequestCtx \<times> pick option \<Rightarrow> bool" where
  "pick_rests w h0 cands own ctx res \<longleftrightarrow>
     (case res of (s1, ctx1, r) \<Rightarrow>
        good w h0 (picked_own r own) s1 \<and> ctx_ok h0 ctx1 \<and> (\<exists>rs. ctx1 = ctx\<lparr>excluded_reasons := rs\<rparr>)
      \<and> (case r of None \<Rightarrow> True | Some (l, permit, epoch) \<Rightarrow> l \<in> wl_idx ` set cands \<and> l \<notin> excluded ctx))"

lemma pick_step_runs:
  assumes lw: "legal_world h0 w" and g: "good w h0 own s" and c: "cands_ok h0 cands"
  shows "runs (pick_step w cands aff pool order ctx s) (pick_rests w h0 cands own ctx)"
proof -
  let ?P = "\<lambda>(ctx1, r). ctx_ok h0 ctx1 \<and> (\<exists>rs. ctx1 = ctx\<lparr>excluded_reasons := rs\<rparr>)
      \<and> (case r of None \<Rightarrow> True | Some (l, permit, epoch) \<Rightarrow> l \<in> wl_idx ` set cands \<and> l \<notin> excluded ctx)"
  have "runs (step w (\<lambda>clk env h. pick_among (w_sem w) clk h cands ctx aff pool order) s)
      (\<lambda>(s1, a). good w h0 (picked_own (snd a) own) s1 \<and> ?P a)"
  proof (rule step_runs [OF lw g])
    fix clk :: "nat \<Rightarrow> u64" and env :: jitter_env and h g
    assume b: "in_balance (w_sem w) h0 own (h, g)"
    have rng: "\<forall>wl \<in> set cands. wl_idx wl < length (lanes h)" and ds: "distinct (map wl_idx cands)"
      using in_balance_lanes [OF b] c by (simp_all add: cands_ok_def)
    obtain h1 ctx1 r where p: "pick_among (w_sem w) clk h cands ctx aff pool order = Some (h1, ctx1, r)"
      and ok: "pick_ok (w_sem w) pool cands h (ctx\<lparr>excluded_reasons := []\<rparr>) (h1, ctx1, r)"
      using pick_among_ok [OF ds rng, of "w_sem w" clk ctx aff pool order] by (metis prod_cases3)
    have "semaphore_laws (w_sem w)" using lw by (simp add: legal_world_def)
    note b1 = in_balance_pick_among [OF this p b]
    from ok obtain rs where rs: "ctx1 = ctx\<lparr>excluded_reasons := rs\<rparr>" "\<forall>(l, u) \<in> set rs. l \<in> wl_idx ` set cands"
      by (auto simp: pick_ok_def)
    have "ctx_ok h0 ctx1"
      using rs c by (fastforce simp: ctx_ok_def cands_ok_def)
    moreover have "case r of None \<Rightarrow> True | Some (l, permit, epoch) \<Rightarrow> l \<in> wl_idx ` set cands \<and> l \<notin> excluded ctx"
      using ok by (fastforce simp: pick_ok_def split: option.split)
    ultimately show "runs (pick_among (w_sem w) clk h cands ctx aff pool order)
        (\<lambda>(h1, a). in_balance (w_sem w) h0 (picked_own (snd a) own) (h1, g) \<and> ?P a)"
      using p b1 rs(1) by auto
  qed
  then show ?thesis by (auto simp: pick_step_def pick_rests_def runs_def)
qed

lemma cands_lane: "cands_ok h0 cands \<Longrightarrow> l \<in> wl_idx ` set cands \<Longrightarrow> l < length (lanes h0)"
  by (auto simp: cands_ok_def)

lemma cands_ok_filter: "cands_ok h0 cands \<Longrightarrow> cands_ok h0 (filter P cands)"
  by (auto simp: cands_ok_def distinct_map_filter)

section \<open>Shedding\<close>

lemma admissible_returns: "l < length (lanes h) \<Longrightarrow> \<exists>adm. lane_admissible h l = Some adm"
  using per_lane_returns(9) [of l h] by blast

lemma cooldown_returns:
  assumes "l < length (lanes h)"
  obtains h1 r where "cooldown_remaining_for h p l now = Some (h1, r)" and "length (lanes h1) = length (lanes h)"
proof -
  obtain x where "cooldown_remaining_for h p l now = Some x" using per_cell_returns(3) [OF assms] by blast
  moreover obtain h1 r where "x = (h1, r)" by fastforce
  ultimately have c: "cooldown_remaining_for h p l now = Some (h1, r)" by simp
  moreover have "length (lanes h1) = length (lanes h)"
    using still_cooldown_remaining [OF c] by (auto simp: still_def statics_def dest: map_eq_imp_length_eq)
  ultimately show thesis by (rule that)
qed

lemma soonest_returns:
  "\<forall>l \<in> set ls. l < length (lanes h) \<Longrightarrow> soonest_cooldown h p now ls \<noteq> None"
proof (induction ls arbitrary: h)
  case (Cons l ls)
  obtain adm where adm: "lane_admissible h l = Some adm" using admissible_returns Cons.prems by fastforce
  obtain h1 r where c: "cooldown_remaining_for h p l now = Some (h1, r)" "length (lanes h1) = length (lanes h)"
    using cooldown_returns Cons.prems by (metis list.set_intros(1))
  have "soonest_cooldown h1 p now ls \<noteq> None" and "soonest_cooldown h p now ls \<noteq> None"
    using Cons.IH Cons.prems c(2) by simp_all
  with adm c(1) show ?case by auto
qed simp

lemma cooldown_keys_returns:
  "\<forall>l \<in> set ls. l < length (lanes h) \<Longrightarrow> cooldown_keys h p now ls \<noteq> None"
proof (induction ls arbitrary: h)
  case (Cons l ls)
  obtain adm where adm: "lane_admissible h l = Some adm" using admissible_returns Cons.prems by fastforce
  obtain h1 r where c: "cooldown_remaining_for h p l now = Some (h1, r)" "length (lanes h1) = length (lanes h)"
    using cooldown_returns Cons.prems by (metis list.set_intros(1))
  have "cooldown_keys h1 p now ls \<noteq> None" and "cooldown_keys h p now ls \<noteq> None"
    using Cons.IH Cons.prems c(2) by simp_all
  with adm c(1) show ?case by auto
qed simp

lemma cooldown_keys_within:
  "cooldown_keys h p now ls = Some (h1, keys) \<Longrightarrow> fst ` set keys \<subseteq> set ls"
  by (induction ls arbitrary: h h1 keys) (fastforce simp: bind_eq_Some_conv split: if_splits)+

lemma handle_status_503_runs:
  assumes lw: "legal_world h0 w" and g: "good w h0 own s" and c: "cands_ok h0 cands"
  shows "runs (handle_status_503 w cands now pool s) (\<lambda>(s1, resp). rests w h0 own resp s1)"
proof -
  have "runs (step w (\<lambda>clk env h. soonest_cooldown h pool now (map wl_idx cands)) s) (\<lambda>(s1, a). good w h0 own s1 \<and> True)"
  proof (rule step_runs [OF lw g])
    fix clk :: "nat \<Rightarrow> u64" and env :: jitter_env and h g
    assume b: "in_balance (w_sem w) h0 own (h, g)"
    have "soonest_cooldown h pool now (map wl_idx cands) \<noteq> None"
      using in_balance_lanes [OF b] c by (intro soonest_returns) (simp add: cands_ok_def)
    from still_runs [OF b this still_soonest] show "runs (soonest_cooldown h pool now (map wl_idx cands))
        (\<lambda>(h1, a). in_balance (w_sem w) h0 own (h1, g) \<and> True)" by simp
  qed
  then show ?thesis by (auto simp: handle_status_503_def runs_def intro: rests_good)
qed

lemma shed_now_runs:
  assumes "legal_world h0 w" and "good w h0 own s" and "cands_ok h0 cands"
  shows "runs (shed_now w cands pool s) (\<lambda>(s1, resp). rests w h0 own resp s1)"
  using handle_status_503_runs [OF assms(1) read_clock_good [OF assms(1,2)] assms(3)]
  by (simp add: shed_now_def split: prod.split)

lemma or_shed_runs:
  assumes "legal_world h0 w" and "runs m (once_rests w h0 own)" and "cands_ok h0 cands"
  shows "runs (or_shed w cands pool m) (\<lambda>(s1, resp). rests w h0 own resp s1)"
proof -
  obtain s a where m: "m = Some (s, a)" and r: "once_rests w h0 own (s, a)" using assms(2) by (auto simp: runs_def)
  then show ?thesis
    using shed_now_runs [OF assms(1) _ assms(3), of own s pool] by (cases a) (simp_all add: or_shed_def once_rests_def)
qed

section \<open>The least bad member\<close>

definition won_own :: "(usize \<times> Permit) option \<Rightarrow> accounts \<Rightarrow> accounts" where
  "won_own r own = (case r of None \<Rightarrow> own | Some (l, permit) \<Rightarrow> holding l (hold permit) own)"

lemma acquire_runs:
  assumes "semaphore_laws ops" and b: "in_balance ops h0 own (h, g)" and l: "l < length (lanes h0)"
  shows "runs (try_acquire ops h l)
    (\<lambda>(h1, r). in_balance ops h0 (won_own (map_option (Pair l) r) own) (h1, g))"
proof -
  have "try_acquire ops h l \<noteq> None" using in_balance_lanes [OF b] l by (intro per_lane_returns) simp
  then obtain h1 r where a: "try_acquire ops h l = Some (h1, r)" by auto
  show ?thesis
  proof (cases r)
    case None
    with a have "h1 = h" by (simp add: try_acquire_None)
    with a None b show ?thesis by (simp add: won_own_def)
  next
    case (Some p)
    from in_balance_acquire [OF assms(1) b a [unfolded Some]] a Some show ?thesis by (simp add: won_own_def)
  qed
qed

lemma first_free_runs:
  assumes "semaphore_laws ops" and "in_balance ops h0 own (h, g)" and "\<forall>l \<in> set ls. l < length (lanes h0)"
  shows "runs (first_free ops h ls) (\<lambda>(h1, r). in_balance ops h0 (won_own r own) (h1, g)
    \<and> (\<forall>l permit. r = Some (l, permit) \<longrightarrow> l \<in> set ls))"
  using assms(2,3)
proof (induction ls arbitrary: h)
  case (Cons l ls)
  from acquire_runs [OF assms(1) Cons.prems(1), of l] Cons.prems(2) obtain h1 r where
    a: "try_acquire ops h l = Some (h1, r)" and b: "in_balance ops h0 (won_own (map_option (Pair l) r) own) (h1, g)"
    by (auto simp: runs_def)
  show ?case
  proof (cases r)
    case None
    with b have "in_balance ops h0 own (h1, g)" by (simp add: won_own_def)
    from Cons.IH [OF this] Cons.prems(2) a None show ?thesis by (auto simp: runs_def)
  next
    case (Some permit)
    with a b show ?thesis by simp
  qed
qed (simp add: won_own_def)

lemma least_bad_dispatch_runs:
  assumes lw: "legal_world h0 w" and g: "good w h0 own s" and c: "cands_ok h0 cands"
  shows "runs (step w (\<lambda>clk env h. least_bad_dispatch (w_sem w) pool now cands h) s)
    (\<lambda>(s1, r). good w h0 (won_own r own) s1 \<and> (\<forall>l permit. r = Some (l, permit) \<longrightarrow> l \<in> wl_idx ` set cands))"
proof (rule step_runs [OF lw g])
  fix clk :: "nat \<Rightarrow> u64" and env :: jitter_env and h g
  assume b: "in_balance (w_sem w) h0 own (h, g)"
  have "cooldown_keys h pool now (map wl_idx cands) \<noteq> None"
    using in_balance_lanes [OF b] c by (intro cooldown_keys_returns) (simp add: cands_ok_def)
  then obtain h1 keys where k: "cooldown_keys h pool now (map wl_idx cands) = Some (h1, keys)" by auto
  note b1 = in_balance_still [OF b still_cooldown_keys [OF k]]
  have within: "set (map fst (sort_key snd keys)) \<subseteq> wl_idx ` set cands" using cooldown_keys_within [OF k] by simp
  have "semaphore_laws (w_sem w)" using lw by (simp add: legal_world_def)
  moreover have "\<forall>l \<in> set (map fst (sort_key snd keys)). l < length (lanes h0)"
    using within cands_lane [OF c] by blast
  ultimately have "runs (first_free (w_sem w) h1 (map fst (sort_key snd keys)))
      (\<lambda>(h1, r). in_balance (w_sem w) h0 (won_own r own) (h1, g)
        \<and> (\<forall>l permit. r = Some (l, permit) \<longrightarrow> l \<in> set (map fst (sort_key snd keys))))"
    using first_free_runs [OF _ b1] by blast
  with within show "runs (least_bad_dispatch (w_sem w) pool now cands h)
    (\<lambda>(h1, a). in_balance (w_sem w) h0 (won_own a own) (h1, g) \<and> (\<forall>l permit. a = Some (l, permit) \<longrightarrow> l \<in> wl_idx ` set cands))"
    unfolding least_bad_dispatch_def by (simp add: k) (elim runs_mono, blast)
qed

lemma handle_least_bad_runs:
  assumes lw: "legal_world h0 w" and g: "good w h0 own s" and c: "cands_ok h0 cands"
    and cfg: "cooldown_cfg_ok (resolve_breaker_cfg app pool)"
  shows "runs (handle_least_bad w app cd rq cands now pool ctx s) (\<lambda>(s1, resp). rests w h0 own resp s1)"
  unfolding handle_least_bad_def
proof (rule runs_bind2 [OF least_bad_dispatch_runs [OF lw g c]])
  fix s1 pick
  assume p: "good w h0 (won_own pick own) s1 \<and> (\<forall>l permit. pick = Some (l, permit) \<longrightarrow> l \<in> wl_idx ` set cands)"
  show "runs (case pick of
         None \<Rightarrow> handle_status_503 w cands now pool s1
       | Some (i, permit) \<Rightarrow> do {
           (s2, answer) \<leftarrow> forward_once w app cd rq i permit (remaining ctx now) pool None
                            (Option.bind (member_of cands i) wl_reasoning) s1;
           case answer of Some resp \<Rightarrow> Some (s2, resp) | None \<Rightarrow> handle_status_503 w cands now pool s2 })
      (\<lambda>(s1, resp). rests w h0 own resp s1)"
  proof (cases pick)
    case None
    with p handle_status_503_runs [OF lw _ c] show ?thesis by (simp add: won_own_def)
  next
    case (Some q)
    obtain i permit where q: "q = (i, permit)" by fastforce
    with Some p have g1: "good w h0 (holding i (hold permit) own) s1" and i: "i < length (lanes h0)"
      using cands_lane [OF c] by (simp_all add: won_own_def)
    from forward_once_runs [OF lw g1 i cfg] obtain s2 a where
      f: "forward_once w app cd rq i permit (remaining ctx now) pool None (Option.bind (member_of cands i) wl_reasoning) s1
          = Some (s2, a)" and r: "once_rests w h0 own (s2, a)"
      unfolding runs_def by (metis surj_pair)
    show ?thesis
      using f r handle_status_503_runs [OF lw _ c, of own s2 now pool] Some q
      by (cases a) (simp_all add: once_rests_def)
  qed
qed

section \<open>The queue\<close>

lemma at_capacity_lanes_within: "set (at_capacity_lanes rs acc) \<subseteq> fst ` set rs \<union> set acc"
  by (induction rs acc rule: at_capacity_lanes.induct) (auto split: if_splits)

lemma queue_sems_runs:
  assumes lw: "legal_world h0 w" and g: "good w h0 own s" and l: "\<forall>l \<in> set at_cap. l < length (lanes h0)"
  shows "runs (step w (\<lambda>clk env h. queue_sems h at_cap) s) (\<lambda>(s1, sems). good w h0 own s1 \<and> set sems \<subseteq> set at_cap)"
proof (rule step_runs [OF lw g])
  fix clk :: "nat \<Rightarrow> u64" and env :: jitter_env and h g
  assume b: "in_balance (w_sem w) h0 own (h, g)"
  have "list_all (\<lambda>l. lane_semaphore h l \<noteq> None) at_cap"
    unfolding list_all_iff using in_balance_lanes [OF b] l by (intro ballI per_lane_returns(8)) simp
  with b show "runs (queue_sems h at_cap) (\<lambda>(h1, a). in_balance (w_sem w) h0 own (h1, g) \<and> set a \<subseteq> set at_cap)"
    by (auto simp: queue_sems_def)
qed

lemma acquire_step_runs:
  assumes lw: "legal_world h0 w" and g: "good w h0 own s" and l: "l < length (lanes h0)"
  shows "runs (step w (\<lambda>clk env h. try_acquire (w_sem w) h l) s)
    (\<lambda>(s1, r). good w h0 (won_own (map_option (Pair l) r) own) s1)"
proof -
  have "runs (step w (\<lambda>clk env h. try_acquire (w_sem w) h l) s)
    (\<lambda>(s1, r). good w h0 (won_own (map_option (Pair l) r) own) s1 \<and> True)"
  proof (rule step_runs [OF lw g])
    fix clk :: "nat \<Rightarrow> u64" and env :: jitter_env and h g
    assume b: "in_balance (w_sem w) h0 own (h, g)"
    have "semaphore_laws (w_sem w)" using lw by (simp add: legal_world_def)
    from acquire_runs [OF this b l] show "runs (try_acquire (w_sem w) h l)
      (\<lambda>(h1, r). in_balance (w_sem w) h0 (won_own (map_option (Pair l) r) own) (h1, g) \<and> True)" by simp
  qed
  then show ?thesis by simp
qed

lemma admit_step_runs:
  "legal_world h0 w \<Longrightarrow> good w h0 own s \<Longrightarrow> l < length (lanes h0) \<Longrightarrow>
   runs (step w (\<lambda>clk env h. try_admit_breaker h p l (clk 0)) s) (\<lambda>(s1, r). good w h0 own s1)"
  by (rule step_still_runs) (assumption | erule admit_breaker_returns | erule still_try_admit_breaker)+

lemma runs_obtain2:
  assumes "runs m P"
  obtains a b where "m = Some (a, b)" and "P (a, b)"
  using assms by (auto simp: runs_def)

lemma queue_loop_runs:
  assumes lw: "legal_world h0 w" and c: "cands_ok h0 cands" and cfg: "cooldown_cfg_ok (resolve_breaker_cfg app pool)"
  shows "good w h0 own s \<Longrightarrow> \<forall>l \<in> set at_cap. l < length (lanes h0) \<Longrightarrow> length at_cap < fuel \<Longrightarrow>
    runs (queue_loop fuel w app cd rq cands pool ctx at_cap s) (\<lambda>(s1, resp). rests w h0 own resp s1)"
proof (induction fuel arbitrary: at_cap s)
  case (Suc fuel)
  note shed = shed_now_runs [OF lw _ c]
  obtain s1 sems where q: "step w (\<lambda>clk env h. queue_sems h at_cap) s = Some (s1, sems)"
    and g1: "good w h0 own s1" and within: "set sems \<subseteq> set at_cap"
    using queue_sems_runs [OF lw Suc.prems(1,2)] by (auto simp: runs_def)
  show ?case
  proof (cases "sems = [] \<or> (\<nexists>lane. w_wake w (run_tick s1) = Woken lane \<and> lane \<in> set sems)")
    case True
    with q shed [OF g1] show ?thesis by (auto split: QueueWake.split)
  next
    case False
    then obtain lane where wk: "w_wake w (run_tick s1) = Woken lane" "lane \<in> set sems" "sems \<noteq> []" by blast
    then have lane: "lane \<in> set at_cap" "lane < length (lanes h0)" using within Suc.prems(2) by auto
    obtain s2 won where a: "step w (\<lambda>clk env h. try_acquire (w_sem w) h lane) s1 = Some (s2, won)"
      and g2: "good w h0 (won_own (map_option (Pair lane) won) own) s2"
      using acquire_step_runs [OF lw g1 lane(2)] by (auto simp: runs_def)
    show ?thesis
    proof (cases won)
      case None
      with q a wk g2 shed show ?thesis by (simp add: won_own_def)
    next
      case (Some permit)
      with g2 have g2: "good w h0 (holding lane (hold permit) own) s2" by (simp add: won_own_def)
      obtain s3 r where b: "step w (\<lambda>clk env h. try_admit_breaker h pool lane (clk 0)) s2 = Some (s3, r)"
        and g3: "good w h0 (holding lane (hold permit) own) s3"
        using admit_step_runs [OF lw g2 lane(2), of pool] by (auto simp: runs_def)
      show ?thesis
      proof (cases r)
        case (Inr epoch)
        obtain s4 now where rc: "read_clock w s3 = (s4, now)" by fastforce
        from or_shed_runs [OF lw forward_once_runs [OF lw read_clock_good [OF lw g3 rc] lane(2) cfg] c]
        show ?thesis using q a wk Some b Inr rc by simp
      next
        case (Inl reason)
        obtain s4 where d: "drop_in w lane permit s3 = Some s4" and g4: "good w h0 own s4"
          using drop_in_runs [OF lw g3 lane(2)] by (auto simp: runs_def)
        have "length (filter (\<lambda>l. l \<noteq> lane) at_cap) < fuel"
          using lane(1) Suc.prems(3) length_filter_less [of lane at_cap "\<lambda>l. l \<noteq> lane"] by simp
        with Suc.IH [OF g4] Suc.prems(2) shed [OF g4] q a wk Some b Inl d show ?thesis by (simp add: Let_def)
      qed
    qed
  qed
qed simp

lemma handle_queue_runs:
  assumes lw: "legal_world h0 w" and g: "good w h0 own s" and c: "cands_ok h0 cands"
    and cfg: "cooldown_cfg_ok (resolve_breaker_cfg app pool)" and ctx: "ctx_ok h0 ctx"
  shows "runs (handle_queue w app cd rq cands pool ctx s) (\<lambda>(s1, resp). rests w h0 own resp s1)"
proof -
  have "\<forall>l \<in> set (at_capacity_lanes (excluded_reasons ctx) []). l < length (lanes h0)"
    using at_capacity_lanes_within [of "excluded_reasons ctx" "[]"] ctx by (auto simp: ctx_ok_def)
  from queue_loop_runs [OF lw c cfg g this] shed_now_runs [OF lw g c] show ?thesis
    by (simp add: handle_queue_def Let_def del: queue_loop.simps)
qed

section \<open>Fallback pools\<close>

text \<open>The candidates still open, the measure of the retries inside a pool.\<close>

definition open_count :: "RequestCtx \<Rightarrow> WeightedLane list \<Rightarrow> nat" where
  "open_count ctx cands = length (filter (\<lambda>wl. wl_idx wl \<notin> excluded ctx) cands)"

lemma open_count_exclude:
  assumes "l \<in> wl_idx ` set cands" and "l \<notin> excluded ctx"
  shows "open_count (exclude ctx l) cands < open_count ctx cands"
proof -
  obtain wl where wl: "wl \<in> set cands" "wl_idx wl = l" using assms(1) by auto
  have "filter (\<lambda>wl. wl_idx wl \<notin> excluded (exclude ctx l)) cands
      = filter (\<lambda>wl. wl_idx wl \<noteq> l) (filter (\<lambda>wl. wl_idx wl \<notin> excluded ctx) cands)"
    by (auto simp: exclude_def intro: filter_cong)
  moreover have "length (filter (\<lambda>wl. wl_idx wl \<noteq> l) (filter (\<lambda>wl. wl_idx wl \<notin> excluded ctx) cands)) < open_count ctx cands"
    unfolding open_count_def by (rule length_filter_less [of wl]) (use wl assms(2) in auto)
  ultimately show ?thesis by (simp only: open_count_def)
qed

lemma open_count_le: "open_count ctx cands \<le> length cands"
  by (simp add: open_count_def)

lemma open_count_frame [simp]: "open_count (ctx\<lparr>excluded_reasons := rs\<rparr>) cands = open_count ctx cands"
  by (simp add: open_count_def)

definition loop_rests ::
  "'sem World \<Rightarrow> 'sem HealthState \<Rightarrow> accounts \<Rightarrow> RequestCtx \<Rightarrow> 'sem Run \<times> RequestCtx \<times> Response option \<Rightarrow> bool" where
  "loop_rests w h0 own ctx res \<longleftrightarrow>
     (case res of (s1, ctx1, answer) \<Rightarrow>
        once_rests w h0 own (s1, answer) \<and> ctx_ok h0 ctx1 \<and> visited_pools ctx1 = visited_pools ctx)"

lemma ctx_ok_exclude [simp]: "ctx_ok h0 (exclude ctx l) = ctx_ok h0 ctx"
  by (simp add: ctx_ok_def exclude_def)

lemma visited_exclude [simp]: "visited_pools (exclude ctx l) = visited_pools ctx"
  by (simp add: exclude_def)

lemma ctx_ok_visit [simp]: "ctx_ok h0 (mark_pool_visited ctx pool) = ctx_ok h0 ctx"
  by (simp add: ctx_ok_def mark_pool_visited_def)

lemma fallback_loop_runs:
  assumes lw: "legal_world h0 w" and c: "cands_ok h0 cands" and cfg: "cooldown_cfg_ok (resolve_breaker_cfg app pool)"
  shows "good w h0 own s \<Longrightarrow> ctx_ok h0 ctx \<Longrightarrow> open_count ctx cands < fuel \<Longrightarrow>
    runs (fallback_loop fuel w app cd rq cands pool ctx s) (loop_rests w h0 own ctx)"
proof (induction fuel arbitrary: ctx s)
  case (Suc fuel)
  obtain s1 now where rc: "read_clock w s = (s1, now)" by fastforce
  note g1 = read_clock_good [OF lw Suc.prems(1) rc]
  show ?case
  proof (cases "expired ctx now")
    case True
    with g1 Suc.prems(2) show ?thesis by (simp add: rc loop_rests_def once_rests_def rests_good timed_out_def)
  next
    case False
    obtain s2 ctx1 picked where p: "pick_step w cands None pool None ctx s1 = Some (s2, ctx1, picked)"
      and r: "pick_rests w h0 cands own ctx (s2, ctx1, picked)"
      using pick_step_runs [OF lw g1 c, of None pool None ctx] by (auto simp: runs_def)
    from r obtain rs where ctx1: "ctx1 = ctx\<lparr>excluded_reasons := rs\<rparr>" "ctx_ok h0 ctx1"
      and g2: "good w h0 (picked_own picked own) s2" by (auto simp: pick_rests_def)
    show ?thesis
    proof (cases picked)
      case None
      with p g2 ctx1 False show ?thesis by (simp add: rc loop_rests_def once_rests_def picked_own_def)
    next
      case (Some q)
      obtain i permit epoch where q: "q = (i, permit, epoch)" using prod_cases3 by blast
      have i: "i \<in> wl_idx ` set cands" "i \<notin> excluded ctx" using r Some q by (simp_all add: pick_rests_def)
      have g2: "good w h0 (holding i (hold permit) own) s2" using g2 Some q by (simp add: picked_own_def)
      obtain s3 now1 where rc1: "read_clock w s2 = (s3, now1)" by fastforce
      obtain s4 answer where f: "forward_once w app cd rq i permit (remaining (exclude ctx1 i) now1) pool (Some epoch)
          (Option.bind (member_of cands i) wl_reasoning) s3 = Some (s4, answer)" and o: "once_rests w h0 own (s4, answer)"
        by (rule runs_obtain2 [OF forward_once_runs [OF lw read_clock_good [OF lw g2 rc1] cands_lane [OF c i(1)] cfg]])
      show ?thesis
      proof (cases answer)
        case None
        have "open_count (exclude ctx1 i) cands < fuel"
          using open_count_exclude [of i cands ctx1] i ctx1(1) Suc.prems(3) by simp
        moreover have "good w h0 own s4" using o None by (simp add: once_rests_def)
        ultimately have "runs (fallback_loop fuel w app cd rq cands pool (exclude ctx1 i) s4) (loop_rests w h0 own (exclude ctx1 i))"
          using Suc.IH ctx1(2) by simp
        moreover have "loop_rests w h0 own (exclude ctx1 i) = loop_rests w h0 own ctx"
          by (simp add: loop_rests_def ctx1(1) fun_eq_iff)
        ultimately show ?thesis using p False Some q f None by (simp add: rc rc1 Let_def)
      next
        case (Some resp)
        with p False \<open>picked = Some q\<close> q f o ctx1 show ?thesis
          by (simp add: rc rc1 Let_def loop_rests_def)
      qed
    qed
  qed
qed simp

lemma enforce_loop_filter:
  "enforce_loop members rs cands = Inr out \<Longrightarrow> \<exists>P. out = filter P cands"
proof (induction members rs cands rule: enforce_loop.induct)
  case (1 members cands)
  then show ?case by (intro exI [of _ "\<lambda>x. True"]) simp
next
  case (2 members r rs cands)
  then show ?case by (auto simp: Let_def filter_filter split: if_splits)
qed

lemma fallback_cands_ok:
  assumes "app_ok h0 app" and "map_of (app_fallback_pools app) pool = Some members"
    and "enforce_restricts ctx rt pool members = Inr out"
  shows "cands_ok h0 (retain_allowed app pool out)"
proof -
  have "cands_ok h0 members" using assms(1) map_of_SomeD [OF assms(2)] by (auto simp: app_ok_def)
  moreover obtain P where "out = filter P members"
    using enforce_loop_filter assms(3) unfolding enforce_restricts_def by blast
  ultimately show ?thesis by (simp add: retain_allowed_def cands_ok_filter)
qed

text \<open>The fallback pools not visited yet bound the length of the chain.\<close>

definition unvisited :: "App \<Rightarrow> RequestCtx \<Rightarrow> nat" where
  "unvisited app ctx = card (fst ` set (app_fallback_pools app) - visited_pools ctx)"

lemma unvisited_mark:
  assumes "map_of (app_fallback_pools app) pool \<noteq> None" and "pool \<notin> visited_pools ctx"
  shows "unvisited app (mark_pool_visited ctx pool) < unvisited app ctx"
  unfolding unvisited_def
  by (rule psubset_card_mono) (use assms in \<open>auto simp: mark_pool_visited_def map_of_eq_None_iff\<close>)

lemma unvisited_le: "unvisited app (mark_pool_visited ctx pool) \<le> unvisited app ctx"
  unfolding unvisited_def by (rule card_mono) (auto simp: mark_pool_visited_def)

lemma unvisited_bound: "unvisited app ctx \<le> length (app_fallback_pools app)"
proof -
  have "unvisited app ctx \<le> card (fst ` set (app_fallback_pools app))" unfolding unvisited_def by (rule card_mono) auto
  also have "\<dots> \<le> length (app_fallback_pools app)" by (metis card_length length_map set_map)
  finally show ?thesis .
qed

lemma handle_fallback_pool_runs:
  assumes lw: "legal_world h0 w" and g: "good w h0 own s" and app: "app_ok h0 app" and ctx: "ctx_ok h0 ctx"
    and resume: "\<And>cands now c s1. good w h0 own s1 \<Longrightarrow> cands_ok h0 cands \<Longrightarrow> ctx_ok h0 c \<Longrightarrow>
      unvisited app c < unvisited app ctx \<Longrightarrow> runs (resume cands now pool c s1) (\<lambda>(s1, resp). rests w h0 own resp s1)"
  shows "runs (handle_fallback_pool resume w app cd rq pool ctx s) (\<lambda>(s1, resp). rests w h0 own resp s1)"
proof -
  obtain s1 now where rc: "read_clock w s = (s1, now)" by fastforce
  note g1 = read_clock_good [OF lw g rc]
  have shed: "runs (shed_now w [] pool s1) (\<lambda>(s1, resp). rests w h0 own resp s1)"
    by (rule shed_now_runs [OF lw g1]) (simp add: cands_ok_def)
  show ?thesis
  proof (cases "expired ctx now \<or> is_pool_visited ctx pool \<or> map_of (app_fallback_pools app) pool = None")
    case True
    with shed g1 show ?thesis by (auto simp: handle_fallback_pool_def rc rests_good timed_out_def)
  next
    case False
    then obtain members where m: "map_of (app_fallback_pools app) pool = Some members" by auto
    show ?thesis
    proof (cases "enforce_restricts ctx (pool_members app) pool members")
      case (Inl name)
      with False m g1 show ?thesis by (simp add: handle_fallback_pool_def rc rests_good gate_refusal_def)
    next
      case (Inr out)
      let ?cands = "retain_allowed app pool out"
      note c = fallback_cands_ok [OF app m Inr]
      have cfg: "cooldown_cfg_ok (resolve_breaker_cfg app pool)" using app by (simp add: app_ok_def)
      have "runs (fallback_loop (Suc (length ?cands)) w app cd rq ?cands pool (mark_pool_visited ctx pool) s1)
          (loop_rests w h0 own (mark_pool_visited ctx pool))"
        by (rule fallback_loop_runs [OF lw c cfg g1]) (simp_all add: ctx le_imp_less_Suc [OF open_count_le])
      then obtain s2 ctx1 answer where
        f: "fallback_loop (Suc (length ?cands)) w app cd rq ?cands pool (mark_pool_visited ctx pool) s1 = Some (s2, ctx1, answer)"
        and o: "once_rests w h0 own (s2, answer)" and c1: "ctx_ok h0 ctx1"
        and v: "visited_pools ctx1 = visited_pools (mark_pool_visited ctx pool)"
        by (auto simp: runs_def loop_rests_def)
      show ?thesis
      proof (cases answer)
        case None
        obtain s3 now1 where rc1: "read_clock w s2 = (s3, now1)" by fastforce
        have "good w h0 own s2" using o None by (simp add: once_rests_def)
        note g3 = read_clock_good [OF lw this rc1]
        have "unvisited app ctx1 < unvisited app ctx"
          using unvisited_mark [of app pool ctx] m False v by (simp add: unvisited_def is_pool_visited_def)
        from resume [OF g3 c c1 this] show ?thesis
          using False m Inr f None rc1 by (simp add: handle_fallback_pool_def rc Let_def del: fallback_loop.simps)
      next
        case (Some resp)
        with False m Inr f o show ?thesis
          by (simp add: handle_fallback_pool_def rc Let_def once_rests_def del: fallback_loop.simps)
      qed
    qed
  qed
qed

lemma handle_exhaustion_runs:
  assumes lw: "legal_world h0 w" and app: "app_ok h0 app"
  shows "good w h0 own s \<Longrightarrow> cands_ok h0 cands \<Longrightarrow> ctx_ok h0 ctx \<Longrightarrow> unvisited app ctx < fuel \<Longrightarrow>
    runs (handle_exhaustion_for_pool fuel w app cd rq cands now pool ctx s) (\<lambda>(s1, resp). rests w h0 own resp s1)"
proof (induction fuel arbitrary: cands now pool ctx s)
  case (Suc fuel)
  have cfg: "cooldown_cfg_ok (resolve_breaker_cfg app pool)" using app by (simp add: app_ok_def)
  have ctx: "ctx_ok h0 (mark_pool_visited ctx pool)" using Suc.prems(3) by simp
  have "runs (handle_fallback_pool (handle_exhaustion_for_pool fuel w app cd rq) w app cd rq target (mark_pool_visited ctx pool) s)
      (\<lambda>(s1, resp). rests w h0 own resp s1)" for target
  proof (rule handle_fallback_pool_runs [OF lw Suc.prems(1) app ctx])
    fix cands now c and s1 :: "'a Run"
    assume "good w h0 own s1" "cands_ok h0 cands" "ctx_ok h0 c" "unvisited app c < unvisited app (mark_pool_visited ctx pool)"
    then show "runs (handle_exhaustion_for_pool fuel w app cd rq cands now target c s1) (\<lambda>(s1, resp). rests w h0 own resp s1)"
      using Suc.prems(4) unvisited_le [of app ctx pool] by (intro Suc.IH) simp_all
  qed
  with handle_status_503_runs [OF lw Suc.prems(1,2)] handle_least_bad_runs [OF lw Suc.prems(1,2) cfg]
    handle_queue_runs [OF lw Suc.prems(1,2) cfg ctx]
  show ?case by (simp add: Let_def split: option.split OnExhausted.split)
qed simp

lemma exhausted_runs:
  assumes "legal_world h0 w" and "app_ok h0 app" and "good w h0 own s" and "cands_ok h0 cands" and "ctx_ok h0 ctx"
  shows "runs (exhausted w app cd rq cands ctx s) (\<lambda>(s1, resp). rests w h0 own resp s1)"
  using handle_exhaustion_runs [OF assms(1,2) read_clock_good [OF assms(1,3)] assms(4,5)] unvisited_bound [of app ctx]
  by (simp add: exhausted_def exhaustion_fuel_def le_imp_less_Suc split: prod.split del: handle_exhaustion_for_pool.simps)

section \<open>The failover loop\<close>

text \<open>An attempt changes the context only by excluding candidates with too small a context window.\<close>

lemma on_upstream_error_ctx:
  "on_upstream_error w app cd rq cands cfg i permit epoch r ctx s = Some (s1, c, hop) \<Longrightarrow>
   c = ctx \<or> c = exclude_context app cands i ctx"
  by (auto simp: on_upstream_error_def Let_def bind_eq_Some_conv split: if_splits Disposition.splits)

lemma attempt_ctx:
  "attempt w app cd rq cands first i permit epoch ctx s = Some (s1, c, hop) \<Longrightarrow>
   c = ctx \<or> c = exclude_context app cands i ctx"
  by (auto simp: attempt_def Let_def bind_eq_Some_conv
      split: if_splits option.splits prod.splits UpstreamReply.splits dest: on_upstream_error_ctx)

lemma exclude_context_within:
  "\<exists>more. more \<subseteq> wl_idx ` set cands \<and> exclude_context app cands i ctx = ctx\<lparr>excluded := excluded ctx \<union> more\<rparr>"
proof -
  define f where "f = (\<lambda>c (cand :: WeightedLane).
        case al_context_max (app_lanes app ! wl_idx cand) of
          None \<Rightarrow> c
        | Some cand_max \<Rightarrow>
            (case al_context_max (app_lanes app ! i) of
               None \<Rightarrow> c
             | Some failed_limit \<Rightarrow> if cand_max \<le> failed_limit then exclude c (wl_idx cand) else c))"
  have "\<exists>more. more \<subseteq> wl_idx ` set cs \<and> foldl f ctx cs = ctx\<lparr>excluded := excluded ctx \<union> more\<rparr>" for cs
  proof (induction cs rule: rev_induct)
    case Nil
    show ?case by (rule exI [of _ "{}"]) simp
  next
    case (snoc wl cs)
    then obtain more where m: "more \<subseteq> wl_idx ` set cs" "foldl f ctx cs = ctx\<lparr>excluded := excluded ctx \<union> more\<rparr>" by blast
    have one: "\<exists>extra. extra \<subseteq> {wl_idx wl} \<and> f c wl = c\<lparr>excluded := excluded c \<union> extra\<rparr>" for c
    proof (cases "f c wl = c")
      case True
      then show ?thesis by (intro exI [of _ "{}"]) simp
    next
      case False
      then have "f c wl = exclude c (wl_idx wl)" by (auto simp: f_def split: option.splits if_splits)
      then show ?thesis by (intro exI [of _ "{wl_idx wl}"]) (simp add: exclude_def)
    qed
    obtain extra where e: "extra \<subseteq> {wl_idx wl}"
      "f (ctx\<lparr>excluded := excluded ctx \<union> more\<rparr>) wl = ctx\<lparr>excluded := excluded ctx \<union> more \<union> extra\<rparr>"
      using one [of "ctx\<lparr>excluded := excluded ctx \<union> more\<rparr>"] by auto
    then show ?case using m by (intro exI [of _ "more \<union> extra"]) (auto simp: Un_assoc)
  qed
  from this [of cands] show ?thesis unfolding exclude_context_def f_def .
qed

lemma attempt_ctx_ok:
  assumes "attempt w app cd rq cands first i permit epoch ctx s = Some (s1, c, hop)" and "ctx_ok h0 ctx"
  shows "ctx_ok h0 c"
proof -
  obtain more where "exclude_context app cands i ctx = ctx\<lparr>excluded := excluded ctx \<union> more\<rparr>"
    using exclude_context_within by blast
  with attempt_ctx [OF assms(1)] assms(2) show ?thesis by (auto simp: ctx_ok_def)
qed

lemma runs_obtain3:
  assumes "runs m P"
  obtains a b c where "m = Some (a, b, c)" and "P (a, b, c)"
  using assms by (auto simp: runs_def)

lemma failover_loop_runs:
  assumes lw: "legal_world h0 w" and app: "app_ok h0 app" and c: "cands_ok h0 cands"
  shows "good w h0 own s \<Longrightarrow> ctx_ok h0 ctx \<Longrightarrow>
    runs (failover_loop left w app cd rq cands order first ctx s) (\<lambda>(s1, resp). rests w h0 own resp s1)"
proof (induction left arbitrary: first ctx s)
  case 0
  from exhausted_runs [OF lw app 0(1) c 0(2)] show ?case by simp
next
  case (Suc left)
  obtain s1 now where rc: "read_clock w s = (s1, now)" by fastforce
  note g1 = read_clock_good [OF lw Suc.prems(1) rc]
  show ?case
  proof (cases "expired ctx now")
    case True
    with g1 show ?thesis by (simp add: rc rests_good timed_out_def)
  next
    case False
    obtain s2 ctx1 picked where p: "pick_step w cands (rq_affinity rq) (rq_pool rq) order ctx s1 = Some (s2, ctx1, picked)"
      and r: "pick_rests w h0 cands own ctx (s2, ctx1, picked)"
      by (rule runs_obtain3 [OF pick_step_runs [OF lw g1 c]])
    then have c1: "ctx_ok h0 ctx1" and g2: "good w h0 (picked_own picked own) s2" by (simp_all add: pick_rests_def)
    show ?thesis
    proof (cases picked)
      case None
      with g2 have "good w h0 own s2" by (simp add: picked_own_def)
      with exhausted_runs [OF lw app this c c1] p None False show ?thesis
        by (simp add: rc rests_good)
    next
      case (Some q)
      obtain i permit epoch where q: "q = (i, permit, epoch)" using prod_cases3 by blast
      have i: "i < length (lanes h0)" using r Some q cands_lane [OF c] by (simp add: pick_rests_def)
      have g2: "good w h0 (holding i (hold permit) own) s2" using g2 Some q by (simp add: picked_own_def)
      have cfg: "cooldown_cfg_ok (resolve_breaker_cfg app (rq_pool rq))" using app by (simp add: app_ok_def)
      obtain s3 ctx2 hop where a: "attempt w app cd rq cands first i permit epoch (exclude ctx1 i) s2 = Some (s3, ctx2, hop)"
        and h: "hop_rests w h0 own hop s3"
        using attempt_runs [OF lw g2 i cfg, of cd cands first epoch "exclude ctx1 i"] by (auto simp: runs_def)
      have "ctx_ok h0 ctx2" using attempt_ctx_ok [OF a] c1 by simp
      with Suc.IH [of s3 ctx2 False] h p False Some q a show ?thesis
        by (cases hop) (simp_all add: rc hop_rests_def)
    qed
  qed
qed

end
