(* ===== verification/Engine_Entry.thy ===== *)
theory Engine_Entry
  imports Engine_Gates Engine_Total
begin

text \<open>
  A whole request: the gates, the base policy, the failover loop and the life of a streamed body
  return in every legal world and keep the books.
\<close>

section \<open>Gates\<close>

lemma project_candidate_returns:
  "wl_idx wl < length (lanes h) \<Longrightarrow> \<exists>c. project_candidate hk ops app pool headroom h wl = Some c \<and> c_idx c = wl_idx wl"
  by (simp add: project_candidate_def lane_latency_ms_def available_permits_def lane_budget_remaining_def get_lane_def)

lemma project_candidates_returns:
  assumes "\<forall>wl \<in> set live. wl_idx wl < length (lanes h)"
  shows "\<exists>cs. project_candidates hk ops app pool headroom live h = Some cs \<and> map c_idx cs = map wl_idx live"
  using assms
proof (induction live)
  case (Cons wl live)
  obtain c where c: "project_candidate hk ops app pool headroom h wl = Some c" "c_idx c = wl_idx wl"
    using project_candidate_returns [of wl h hk ops app pool headroom] Cons.prems by auto
  from Cons show ?case by (auto simp: project_candidates_def c)
qed (simp add: project_candidates_def)

lemma policy_outcome_well_formed:
  assumes "distinct (map c_idx candidates)"
  shows "well_formed_outcome (c_idx ` set candidates)
    (case policy_decide hk t p candidates of
       Some decision \<Rightarrow> map_decision decision name candidates oe
     | None \<Rightarrow> run_on_error_chain hk t chain terminal candidates failed)"
  using map_decision_well_formed chain_well_formed [OF assms] by (simp split: option.split)

lemma well_formed_outcome_mono: "well_formed_outcome L out \<Longrightarrow> L \<subseteq> M \<Longrightarrow> well_formed_outcome M out"
  by (auto simp: well_formed_outcome_def split: PolicyOutcome.splits)

lemma decide_policy_order_runs:
  assumes lw: "legal_world h0 w" and g: "good w h0 own s" and c: "cands_ok h0 cands"
  shows "runs (decide_policy_order w hk app resolved cands ctx pool s)
    (\<lambda>(s1, out). good w h0 own s1 \<and> well_formed_outcome (wl_idx ` set cands) out)"
proof (cases "fill_candidates ctx cands = []")
  case True
  with g show ?thesis by (simp add: decide_policy_order_def well_formed_outcome_def)
next
  case False
  let ?live = "fill_candidates ctx cands" and ?hr = "hk_rate_headroom hk (run_tick s)"
  let ?f = "\<lambda>clk env h. map_option (Pair h) (project_candidates hk (w_sem w) app pool ?hr ?live h)"
  have live: "cands_ok h0 ?live" "wl_idx ` set ?live \<subseteq> wl_idx ` set cands"
    using cands_ok_filter [OF c] by (auto simp: fill_candidates_def)
  have "runs (step w ?f s) (\<lambda>(s1, cs). good w h0 own s1 \<and> map c_idx cs = map wl_idx ?live)"
  proof (rule step_runs [OF lw g])
    fix clk :: "nat \<Rightarrow> u64" and env :: jitter_env and h g
    assume b: "in_balance (w_sem w) h0 own (h, g)"
    have "\<forall>wl \<in> set ?live. wl_idx wl < length (lanes h)" using in_balance_lanes [OF b] live(1) by (simp add: cands_ok_def)
    from project_candidates_returns [OF this, of hk "w_sem w" app pool ?hr] b show "runs (?f clk env h)
      (\<lambda>(h1, cs). in_balance (w_sem w) h0 own (h1, g) \<and> map c_idx cs = map wl_idx ?live)"
      by (auto simp: runs_def)
  qed
  then obtain s1 cs where s1: "step w ?f s = Some (s1, cs)" and g1: "good w h0 own s1" and cs: "map c_idx cs = map wl_idx ?live"
    by (auto simp: runs_def)
  let ?out = "case policy_decide hk (run_tick s1) (rp_policy resolved) cs of
      Some decision \<Rightarrow> map_decision decision (policy_name (rp_policy resolved)) cs (rp_on_empty resolved)
    | None \<Rightarrow> run_on_error_chain hk (run_tick s1) (rp_on_error_chain resolved) (rp_on_error resolved) cs
        (policy_name (rp_policy resolved))"
  have "distinct (map c_idx cs)" using live(1) by (simp add: cs cands_ok_def)
  from policy_outcome_well_formed [OF this] have "well_formed_outcome (c_idx ` set cs) ?out" .
  moreover have "c_idx ` set cs = wl_idx ` set ?live" using cs by (metis set_map)
  ultimately have "well_formed_outcome (wl_idx ` set cands) ?out"
    using live(2) by (metis well_formed_outcome_mono)
  with g1 show ?thesis unfolding decide_policy_order_def Let_def if_not_P [OF False] by (simp only: s1 bind.simps prod.case runs_Some)
qed

lemma fire_gates_runs:
  assumes lw: "legal_world h0 w" and c: "cands_ok h0 cands"
  shows "good w h0 own s \<Longrightarrow> runs (fire_gates w hk app gates cands ctx pool s)
    (\<lambda>(s1, outs). good w h0 own s1 \<and> (\<forall>out \<in> set outs. well_formed_outcome (wl_idx ` set cands) out))"
proof (induction gates arbitrary: s)
  case (Cons gate gates)
  obtain s1 out where d: "decide_policy_order w hk app gate cands ctx pool s = Some (s1, out)"
    and g1: "good w h0 own s1" and o: "well_formed_outcome (wl_idx ` set cands) out"
    using decide_policy_order_runs [OF lw Cons.prems c, of hk app gate ctx pool] by (auto simp: runs_def)
  obtain s2 outs where "fire_gates w hk app gates cands ctx pool s1 = Some (s2, outs)" "good w h0 own s2"
    "\<forall>out \<in> set outs. well_formed_outcome (wl_idx ` set cands) out"
    using Cons.IH [OF g1] by (auto simp: runs_def)
  with d o show ?case by simp
qed simp

section \<open>Routing\<close>

text \<open>What routing hands to the failover loop, relative to the candidates it got.\<close>

definition routed_ok :: "App \<Rightarrow> string \<Rightarrow> RequestCtx \<Rightarrow> WeightedLane list \<Rightarrow> RequestCtx \<Rightarrow> WeightedLane list \<Rightarrow> bool" where
  "routed_ok app pool ctx cands ctx1 cands1 \<longleftrightarrow>
     (\<exists>P. cands1 = filter P cands)
   \<and> (\<exists>rs. ctx1 = ctx\<lparr>active_restricts := active_restricts ctx @ rs\<rparr>
        \<and> (\<forall>r \<in> set rs. on_empty r \<noteq> Weighted \<longrightarrow> list_all (eligible (pool_members app pool) r) cands1))"

lemma reconcile_routed:
  assumes "reconcile (pool_members app pool) outs ctx cands = Inr (ctx1, cands1, order)"
  shows "routed_ok app pool ctx cands ctx1 cands1"
proof -
  let ?rs = "List.map_filter restrict_of outs"
  from assms have e: "enforce_loop (pool_members app pool) ?rs cands = Inr cands1"
    and c: "ctx1 = ctx\<lparr>active_restricts := active_restricts ctx @ ?rs\<rparr>"
    by (auto simp: reconcile_def restrict_pass_enforce split: option.splits sum.splits)
  from enforce_loop_Ok [OF e] enforce_loop_filter [OF e] c show ?thesis
    unfolding routed_ok_def list_all_iff by blast
qed

lemma reconcile_refusal:
  "reconcile members outs ctx cands = Inl resp \<Longrightarrow> \<exists>st k m. resp = GateRejected st k m"
proof -
  have "first_rejection outs = Some resp \<Longrightarrow> \<exists>st k m. resp = GateRejected st k m"
    by (induction outs rule: first_rejection.induct) auto
  then show "reconcile members outs ctx cands = Inl resp \<Longrightarrow> \<exists>st k m. resp = GateRejected st k m"
    by (auto simp: reconcile_def restrict_pass_enforce gate_refusal_def split: option.splits sum.splits)
qed

lemma apply_base_routed:
  "routed_ok app pool ctx cands ctx1 cands1 \<Longrightarrow>
   apply_base (pool_members app pool) out ctx1 cands1 = Inr (ctx2, cands2, order) \<Longrightarrow> routed_ok app pool ctx cands ctx2 cands2"
proof -
  assume r: "routed_ok app pool ctx cands ctx1 cands1"
  assume a: "apply_base (pool_members app pool) out ctx1 cands1 = Inr (ctx2, cands2, order)"
  show ?thesis
  proof (cases out)
    case (RestrictOutcome tags name oe)
    let ?r = "\<lparr>tags_any = tags, on_empty = oe, restrict_name = name\<rparr>"
    from r obtain P rs where P: "cands1 = filter P cands" and rs: "ctx1 = ctx\<lparr>active_restricts := active_restricts ctx @ rs\<rparr>"
      "\<And>r. r \<in> set rs \<Longrightarrow> on_empty r \<noteq> Weighted \<Longrightarrow> list_all (eligible (pool_members app pool) r) cands1"
      unfolding routed_ok_def by blast
    from a RestrictOutcome have c2: "ctx2 = push_restrict ctx1 ?r"
      and d2: "cands2 = filter (eligible (pool_members app pool) ?r) cands1 \<or> (cands2 = cands1 \<and> oe = Weighted)"
      by (auto simp: Let_def split: if_splits)
    have "\<exists>P. cands2 = filter P cands" using d2 P by (auto simp: filter_filter)
    moreover have "ctx2 = ctx\<lparr>active_restricts := active_restricts ctx @ (rs @ [?r])\<rparr>" by (simp add: c2 rs(1) push_restrict_def)
    moreover have "list_all (eligible (pool_members app pool) q) cands2" if "q \<in> set (rs @ [?r])" "on_empty q \<noteq> Weighted" for q
      using that rs(2) [of q] d2 by (auto simp: list_all_iff)
    ultimately show ?thesis unfolding routed_ok_def by blast
  qed (use r a in auto)
qed

lemma apply_base_refusal: "apply_base members out ctx cands = Inl resp \<Longrightarrow> \<exists>st k m. resp = GateRejected st k m"
  by (cases out) (auto simp: Let_def policy_refusal_def split: if_splits)

lemma route_runs:
  assumes lw: "legal_world h0 w" and g: "good w h0 own s" and c: "cands_ok h0 cands"
  shows "runs (route w hk app gc pool ctx cands s)
    (\<lambda>(s1, r). good w h0 own s1 \<and>
       (case r of Inl resp \<Rightarrow> (\<exists>st k m. resp = GateRejected st k m)
        | Inr (ctx1, cands1, order) \<Rightarrow> routed_ok app pool ctx cands ctx1 cands1))"
proof -
  obtain s1 outs where f: "fire_gates w hk app (gate_chain gc pool) cands ctx pool s = Some (s1, outs)" and g1: "good w h0 own s1"
    using fire_gates_runs [OF lw c g, of hk app "gate_chain gc pool" ctx pool] by (auto simp: runs_def)
  show ?thesis
  proof (cases "reconcile (pool_members app pool) outs ctx cands")
    case (Inl resp)
    with f g1 reconcile_refusal [OF Inl] show ?thesis by (simp add: route_def)
  next
    case (Inr x)
    obtain ctx1 cands1 order where x: "x = (ctx1, cands1, order)" by (rule prod_cases3)
    have r: "routed_ok app pool ctx cands ctx1 cands1" by (rule reconcile_routed [OF Inr [unfolded x]])
    show ?thesis
    proof (cases "order = None \<and> gc_policy gc pool \<noteq> None")
      case False
      with f g1 Inr x r show ?thesis by (cases order) (auto simp: route_def split: option.splits)
    next
      case True
      then obtain resolved where p: "gc_policy gc pool = Some resolved" "order = None" by auto
      from r have c1: "cands_ok h0 cands1" using cands_ok_filter [OF c] unfolding routed_ok_def by blast
      obtain s2 out where d: "decide_policy_order w hk app resolved cands1 ctx1 pool s1 = Some (s2, out)" and g2: "good w h0 own s2"
        using decide_policy_order_runs [OF lw g1 c1, of hk app resolved ctx1 pool] by (auto simp: runs_def)
      have "case apply_base (pool_members app pool) out ctx1 cands1 of Inl resp \<Rightarrow> (\<exists>st k m. resp = GateRejected st k m)
        | Inr (ctx1, cands1, order) \<Rightarrow> routed_ok app pool ctx cands ctx1 cands1"
        using apply_base_refusal apply_base_routed [OF r] by (fastforce split: sum.split)
      with f g2 Inr x p d show ?thesis by (simp add: route_def)
    qed
  qed
qed

section \<open>The request\<close>

lemma forward_runs:
  assumes lw: "legal_world h0 w" and app: "app_ok h0 app" and c: "cands_ok h0 cands" and g: "good w h0 own s"
  shows "runs (forward w app gc hk cd rq cands rid s) (\<lambda>(s1, resp). rests w h0 own resp s1)"
proof (cases "(supporting hk app cands = [] \<and> cands \<noteq> []) \<or> rewrite_pass hk gc rq \<noteq> None")
  case True
  with g show ?thesis by (auto simp: forward_def Let_def rests_good split: option.splits)
next
  case False
  then have kept: "\<not> (supporting hk app cands = [] \<and> cands \<noteq> [])" and rw: "rewrite_pass hk gc rq = None" by blast+
  obtain secs max_cap where fl: "failover_limits app (rq_pool rq) = (secs, max_cap)" by fastforce
  obtain s1 now where rc: "read_clock w s = (s1, now)" by fastforce
  let ?cands = "retain_allowed app (rq_pool rq) (supporting hk app cands)" and ?ctx = "ctx_new now secs rid"
  have c1: "cands_ok h0 ?cands" using cands_ok_filter [OF cands_ok_filter [OF c]] by (simp add: retain_allowed_def supporting_def)
  obtain s2 routed where r: "route w hk app gc (rq_pool rq) ?ctx ?cands s1 = Some (s2, routed)" and g2: "good w h0 own s2"
    and ok: "case routed of Inl resp \<Rightarrow> (\<exists>st k m. resp = GateRejected st k m)
        | Inr (ctx1, cands1, order) \<Rightarrow> routed_ok app (rq_pool rq) ?ctx ?cands ctx1 cands1"
    using route_runs [OF lw read_clock_good [OF lw g rc] c1, of hk app gc "rq_pool rq" ?ctx] by (auto simp: runs_def)
  show ?thesis
  proof (cases routed)
    case (Inl resp)
    with ok obtain st k m where "resp = GateRejected st k m" by auto
    with g2 Inl fl rc r show ?thesis unfolding forward_def if_not_P [OF kept] Let_def by (simp add: rw rests_good)
  next
    case (Inr x)
    obtain ctx1 cands1 order where x: "x = (ctx1, cands1, order)" by (rule prod_cases3)
    with ok Inr have ro: "routed_ok app (rq_pool rq) ?ctx ?cands ctx1 cands1" by simp
    then have "cands_ok h0 cands1" using cands_ok_filter [OF c1] unfolding routed_ok_def by blast
    moreover have "ctx_ok h0 ctx1" using ro by (auto simp: routed_ok_def ctx_ok_def ctx_new_def)
    ultimately show ?thesis
      using failover_loop_runs [OF lw app _ g2] Inr x fl rc r
      unfolding forward_def if_not_P [OF kept] Let_def by (simp add: rw del: failover_loop.simps)
  qed
qed

end
