(* ===== verification/Engine_Log.thy ===== *)
theory Engine_Log
  imports Engine_Entry
begin

text \<open>
  What a request sends and bills. The logs of a run are read off its functions: the operations of
  the store leave them alone, an attempt adds at most one entry to each, and a streamed body at
  most one bill. Nothing here depends on what the other requests do.
\<close>

section \<open>Picks\<close>

lemma select_weighted_in:
  fixes h :: "'sem HealthState"
  shows "select_weighted_for h pool cs ws now = Some (h1, Some l) \<Longrightarrow> l \<in> set cs"
proof -
  have healthy: "swrr_healthy h pool now cws = Some (h1, hs) \<Longrightarrow> fst ` set hs \<subseteq> fst ` set cws"
    for h h1 :: "'sem HealthState" and cws hs
  proof (induction cws arbitrary: h h1 hs)
    case (Cons cw cws)
    obtain l wt where cw: "cw = (l, wt)" by fastforce
    show ?case
    proof (cases "wt = 0 \<or> lane_admissible h l = Some False")
      case True
      with Cons.prems cw have "swrr_healthy h pool now cws = Some (h1, hs)" by (auto simp: bind_eq_Some_conv split: if_splits)
      from Cons.IH [OF this] show ?thesis by auto
    next
      case False
      with Cons.prems cw obtain h2 c hs1 where "swrr_healthy h2 pool now cws = Some (h1, hs1)"
        "hs = hs1 \<or> hs = (l, int wt) # hs1"
        by (auto simp: bind_eq_Some_conv split: if_splits)
      from Cons.IH [OF this(1)] this(2) cw show ?thesis
        by (elim disjE) (simp_all add: subset_insertI2)
    qed
  qed simp
  have best: "swrr_best h pool hs b bw = Some (Some l) \<Longrightarrow> l \<in> fst ` set hs \<or> b = Some l"
    for h :: "'sem HealthState" and hs b bw l
  proof (induction hs arbitrary: b bw)
    case (Cons lw hs)
    obtain m wt where lw: "lw = (m, wt)" by fastforce
    with Cons.prems obtain b1 bw1 where "swrr_best h pool hs b1 bw1 = Some (Some l)" "b1 = b \<or> b1 = Some m"
      by (auto simp: bind_eq_Some_conv split: if_splits)
    from Cons.IH [OF this(1)] this(2) lw show ?case by auto
  qed simp
  assume "select_weighted_for h pool cs ws now = Some (h1, Some l)"
  then obtain h2 hs and h3 :: "'sem HealthState" where "swrr_healthy h pool now (zip cs ws) = Some (h2, hs)"
    "swrr_best h3 pool hs None i64_min = Some (Some l)"
    unfolding select_weighted_for_def bind_eq_Some_conv Let_def
    by (clarsimp split: if_splits option.splits simp: bind_eq_Some_conv)
  from healthy [OF this(1)] best [OF this(2)] have "l \<in> fst ` set (zip cs ws)" by auto
  then show ?thesis by (auto dest: set_zip_leftD)
qed

lemma find_preferred_in:
  "find_preferred h pool cws now order = Some (h1, Some l) \<Longrightarrow> l \<in> fst ` set cws"
proof (induction h pool cws now order arbitrary: h1 rule: find_preferred.induct)
  case (2 h pool cws now idx order)
  then show ?case
    by (auto simp: bind_eq_Some_conv split: if_splits option.splits dest: map_of_SomeD intro: rev_image_eqI)
qed simp

lemma select_lane_in: "select_lane h pool cs ws order now = Some (h1, Some l) \<Longrightarrow> l \<in> set cs"
  by (auto simp: select_lane_def bind_eq_Some_conv split: option.splits
      dest!: select_weighted_in find_preferred_in)
    (simp add: set_zip_leftD)

definition picked_in :: "WeightedLane list \<Rightarrow> RequestCtx \<Rightarrow> RequestCtx \<Rightarrow> pick option \<Rightarrow> bool" where
  "picked_in cands ctx ctx1 r \<longleftrightarrow>
     (\<exists>rs. ctx1 = ctx\<lparr>excluded_reasons := rs\<rparr>)
   \<and> (case r of None \<Rightarrow> True | Some (l, permit, epoch) \<Rightarrow> l \<in> wl_idx ` set cands \<and> l \<notin> excluded ctx)"

lemma pick_loop_in:
  "pick_loop fuel ops clock k h cands ctx loc pool order = Some (h1, ctx1, r) \<Longrightarrow> picked_in cands ctx ctx1 r"
proof (induction fuel arbitrary: k h ctx loc)
  case (Suc fuel)
  show ?case
  proof (cases "expired ctx (clock k) \<or> open_cands ctx loc cands = []")
    case True
    with Suc.prems show ?thesis by (auto simp: pick_loop_unfold picked_in_def intro: exI [of _ "excluded_reasons ctx"])
  next
    case False
    with Suc.prems obtain h2 sel where s: "select_lane h pool (map wl_idx (open_cands ctx loc cands))
        (map wl_weight (open_cands ctx loc cands)) order (clock (k + 1)) = Some (h2, sel)"
      by (auto simp: pick_loop_unfold bind_eq_Some_conv)
    show ?thesis
    proof (cases sel)
      case None
      with False s Suc.prems show ?thesis by (auto simp: pick_loop_unfold picked_in_def intro: exI [of _ "excluded_reasons ctx"])
    next
      case (Some lane)
      then have lane: "lane \<in> wl_idx ` set cands" "lane \<notin> excluded ctx"
        using select_lane_in s by (fastforce simp: open_cands_def fill_candidates_def)+
      from False s Some Suc.prems obtain h3 q where a: "try_admit ops h2 pool lane (clock (k + 2)) = Some (h3, q)"
        by (auto simp: pick_loop_unfold bind_eq_Some_conv)
      show ?thesis
      proof (cases q)
        case (Inr admit)
        with False s Some a Suc.prems lane show ?thesis
          by (auto simp: pick_loop_unfold picked_in_def intro: exI [of _ "excluded_reasons ctx"])
      next
        case (Inl reason)
        with False s Some a Suc.prems have
          "pick_loop fuel ops clock (k + 3) h3 cands (ctx\<lparr>excluded_reasons := excluded_reasons ctx @ [(lane, reason)]\<rparr>)
             (insert lane loc) pool order = Some (h1, ctx1, r)"
          by (simp add: pick_loop_unfold)
        from Suc.IH [OF this] show ?thesis by (auto simp: picked_in_def split: option.splits)
      qed
    qed
  qed
qed simp

lemma pick_among_in:
  assumes p: "pick_among ops clock h cands ctx aff pool order = Some (h1, ctx1, r)"
  shows "picked_in cands ctx ctx1 r"
proof (cases "pick_among ops clock h cands ctx aff pool order
    = pick_loop (Suc (length cands)) ops clock 1 h cands (ctx\<lparr>excluded_reasons := []\<rparr>) {} pool order")
  case True
  with p pick_loop_in [of "Suc (length cands)" ops clock 1 h cands "ctx\<lparr>excluded_reasons := []\<rparr>" "{}" pool order h1 ctx1 r]
  show ?thesis by (auto simp: picked_in_def split: option.splits)
next
  case False
  then obtain hash where hash: "aff = Some hash" "cands \<noteq> []" "wl_weight (cands ! (hash mod length cands)) \<noteq> 0"
      "wl_idx (cands ! (hash mod length cands)) \<notin> excluded ctx"
    using pick_among_plain [where aff = aff and cands = cands and ctx = ctx] by (cases aff) fastforce+
  let ?l = "wl_idx (cands ! (hash mod length cands))"
  have l: "?l \<in> wl_idx ` set cands" using hash(2) by simp
  from hash p obtain h2 q where a: "try_admit ops h pool ?l (clock 0) = Some (h2, q)"
    by (auto simp: pick_among_def Let_def bind_eq_Some_conv)
  show ?thesis
  proof (cases q)
    case (Inr admit)
    with hash a p l show ?thesis by (auto simp: pick_among_def Let_def picked_in_def)
  next
    case (Inl reason)
    with hash a p have "pick_loop (Suc (length cands)) ops clock 1 h2 cands
        (ctx\<lparr>excluded_reasons := [(?l, reason)]\<rparr>) {} pool order = Some (h1, ctx1, r)"
      by (simp add: pick_among_def Let_def)
    from pick_loop_in [OF this] show ?thesis by (auto simp: picked_in_def split: option.splits)
  qed
qed

section \<open>Quiet steps\<close>

definition quiet :: "'sem Run \<Rightarrow> 'sem Run \<Rightarrow> bool" where
  "quiet s s1 \<longleftrightarrow> run_sent s1 = run_sent s \<and> run_billed s1 = run_billed s"

named_theorems quiets \<open>operations that leave the logs alone\<close>

lemma quiet_refl [simp]: "quiet s s"
  by (simp add: quiet_def)

lemma quiet_trans: "quiet s s1 \<Longrightarrow> quiet s1 s2 \<Longrightarrow> quiet s s2"
  by (simp add: quiet_def)

lemma quiet_interleave: "quiet s (interleave w s)"
  by (simp add: quiet_def interleave_def split: prod.split)

lemma quiet_step [quiets]: "step w f s = Some (s1, a) \<Longrightarrow> quiet s s1"
  using quiet_interleave [of s w] by (auto simp: step_def Let_def bind_eq_Some_conv quiet_def)

lemma quiet_act [quiets]: "act w f s = Some s1 \<Longrightarrow> quiet s s1"
  by (auto simp: act_def dest: quiet_step)

lemma quiet_clock [quiets]: "read_clock w s = (s1, t) \<Longrightarrow> quiet s s1"
  using quiet_interleave [of s w] by (auto simp: read_clock_def)

lemma quiet_ops [quiets]:
  "record_transient_in w pool i cfg ra s = Some (s1, t) \<Longrightarrow> quiet s s1"
  "record_rate_limit_in w pool i now cfg ra s = Some (s1, t) \<Longrightarrow> quiet s s1"
  "drop_in w i permit s = Some s1 \<Longrightarrow> quiet s s1"
  "release_owned w pool i epoch s = Some s1 \<Longrightarrow> quiet s s1"
  "budget_guard_drop w i armed s = Some s1 \<Longrightarrow> quiet s s1"
  "probe_guard_release w pool i probe s = Some s1 \<Longrightarrow> quiet s s1"
  by (auto simp: record_transient_in_def record_rate_limit_in_def drop_in_def release_owned_def budget_guard_drop_def
      probe_guard_release_def split: if_splits option.splits dest: quiet_step quiet_act)

lemma quiet_leave_once [quiets]: "leave_once w pool i probe permit answer s = Some (s1, a) \<Longrightarrow> quiet s s1 \<and> a = answer"
  by (auto simp: leave_once_def bind_eq_Some_conv dest!: quiet_ops(3,6) intro: quiet_trans)

lemma quiet_bail [quiets]: "bail_undispatched w pool i permit resp s = Some (s1, hop) \<Longrightarrow> quiet s s1 \<and> hop = Return resp"
  by (auto simp: bail_undispatched_def bind_eq_Some_conv dest!: quiet_ops(3) quiet_act intro: quiet_trans)

lemma quiet_transport [quiets]: "transport_failure w pool i cfg permit s = Some (s1, hop) \<Longrightarrow> quiet s s1 \<and> hop = Next"
  by (auto simp: transport_failure_def bind_eq_Some_conv dest!: quiet_ops(1,3) intro: quiet_trans)

lemma quiet_client_fault:
  "on_client_fault w app cd rq i pool epoch permit sig r s = Some (s1, hop) \<Longrightarrow> quiet s s1 \<and> (\<forall>b. hop \<noteq> Return (Streamed b))"
  by (auto simp: on_client_fault_def bind_eq_Some_conv split: if_splits dest!: quiet_ops(3,4) quiet_act intro: quiet_trans)

lemma quiet_transient: "on_transient w i pool cfg permit sig s = Some (s1, hop) \<Longrightarrow> quiet s s1 \<and> (\<forall>b. hop \<noteq> Return (Streamed b))"
  by (auto simp: on_transient_def bind_eq_Some_conv split: if_splits prod.splits dest!: quiet_ops(1,2,3) quiet_clock
      intro: quiet_trans)

lemma quiet_hard_down:
  "on_hard_down w cd rq i permit sig r s = Some (s1, hop) \<Longrightarrow> quiet s s1 \<and> (\<forall>b. hop \<noteq> Return (Streamed b))"
  by (auto simp: on_hard_down_def bind_eq_Some_conv split: prod.splits if_splits dest!: quiet_ops(3) quiet_step intro: quiet_trans)

lemma quiet_context_length: "on_context_length w i pool epoch permit s = Some (s1, hop) \<Longrightarrow> quiet s s1 \<and> hop = Next"
  by (auto simp: on_context_length_def bind_eq_Some_conv dest!: quiet_ops(3,4) intro: quiet_trans)

lemma quiet_upstream_error:
  "on_upstream_error w app cd rq cands cfg i permit epoch r ctx s = Some (s1, c, hop) \<Longrightarrow>
   quiet s s1 \<and> (\<forall>b. hop \<noteq> Return (Streamed b))"
  by (auto simp: on_upstream_error_def Let_def bind_eq_Some_conv shape_cross_protocol_error_def
      split: if_splits Disposition.splits
      dest!: quiet_client_fault quiet_transient quiet_hard_down quiet_context_length quiet_ops(3,4) intro: quiet_trans)

section \<open>An attempt\<close>

definition sent_ok :: "App \<Rightarrow> Request \<Rightarrow> string \<Rightarrow> usize \<Rightarrow> Sent \<Rightarrow> bool" where
  "sent_ok app rq pool i x \<longleftrightarrow> sn_pool x = pool \<and> sn_lane x = i
     \<and> sn_key x = egress_key (pool_upstream_creds app pool) (rq_caller_token rq) (al_api_key (app_lanes app ! i))"

text \<open>Billing: nothing, or one entry for the lane when the answer is in hand and not a stream.\<close>

definition bills :: "Request \<Rightarrow> usize \<Rightarrow> Response option \<Rightarrow> (usize \<times> IrUsage option) list \<Rightarrow> bool" where
  "bills rq i answer bs \<longleftrightarrow>
     (bs = [] \<or> ((\<exists>u. bs = [(i, u)]) \<and> rq_sink rq \<and> answer \<noteq> None))
   \<and> (\<forall>b. answer = Some (Streamed b) \<longrightarrow> bs = [] \<and> fb_sink b = rq_sink rq \<and> fb_lane b = i \<and> \<not> fb_ended b)"

definition attempt_log ::
  "App \<Rightarrow> Request \<Rightarrow> string \<Rightarrow> usize \<Rightarrow> 'sem Run \<Rightarrow> 'sem Run \<Rightarrow> Response option \<Rightarrow> bool" where
  "attempt_log app rq pool i s s1 answer \<longleftrightarrow>
     (\<exists>xs bs. run_sent s1 = run_sent s @ xs \<and> run_billed s1 = run_billed s @ bs
        \<and> (xs = [] \<or> (\<exists>x. xs = [x] \<and> sent_ok app rq pool i x)) \<and> bills rq i answer bs)"

lemma bills_none [simp]: "(\<And>b. answer \<noteq> Some (Streamed b)) \<Longrightarrow> bills rq i answer []"
  by (simp add: bills_def)

lemma deliver_unbilled: "deliver_completion cd rq i r wants = (billed, Some resp) \<Longrightarrow> resp \<noteq> Streamed b"
  by (auto simp: deliver_completion_def split: if_splits option.splits)

lemma translate_bills:
  assumes "translate_response_cross_protocol w cd rq i pool cfg r permit spent wants s = Some (s1, resp)"
  shows "run_sent s1 = run_sent s \<and> (\<exists>bs. run_billed s1 = run_billed s @ bs \<and> bills rq i (Some resp) bs)"
proof -
  obtain billed ans where dc: "deliver_completion cd rq i r wants = (billed, ans)" by fastforce
  from assms obtain s0 where d: "drop_in w i permit s = Some s0"
    by (auto simp: translate_response_cross_protocol_def bind_eq_Some_conv)
  note q0 = quiet_ops(3) [OF d]
  have bill: "run_sent (bill c i u s0) = run_sent s \<and>
      (\<exists>bs. run_billed (bill c i u s0) = run_billed s @ bs \<and> (bs = [] \<or> ((\<exists>u. bs = [(i, u)]) \<and> c)))" for c u
    using q0 by (simp add: bill_def quiet_def)
  show ?thesis
  proof (cases "hr_hangup r \<or> hr_end r \<noteq> Complete")
    case True
    with assms d q0 show ?thesis
      by (auto simp: translate_response_cross_protocol_def bind_eq_Some_conv quiet_def split: if_splits ReadEnd.splits
          dest!: quiet_ops(1,5))
  next
    case False
    let ?sb = "bill (rq_sink rq \<and> billed) i (cd_usage cd i (hr_body r)) s0"
    obtain bs where b: "run_sent ?sb = run_sent s" "run_billed ?sb = run_billed s @ bs"
      "bs = [] \<or> ((\<exists>u. bs = [(i, u)]) \<and> rq_sink rq \<and> billed)"
      using bill [of "rq_sink rq \<and> billed" "cd_usage cd i (hr_body r)"] by blast
    have fin: "quiet ?sb s1 \<and> (\<forall>b. resp \<noteq> Streamed b)"
    proof (cases ans)
      case None
      with assms d dc False show ?thesis
        by (auto simp: translate_response_cross_protocol_def bind_eq_Some_conv Let_def dest!: quiet_ops(1,5) intro: quiet_trans)
    next
      case (Some resp0)
      with assms d dc False show ?thesis
        by (auto simp: translate_response_cross_protocol_def bind_eq_Some_conv dest: deliver_unbilled)
    qed
    with b show ?thesis by (intro conjI exI [of _ bs]) (auto simp: quiet_def bills_def)
  qed
qed

lemma serve_success_bills:
  assumes "serve_success w app cd rq i pool cfg r permit wants s = Some (s1, resp)"
  shows "run_sent s1 = run_sent s \<and> (\<exists>bs. run_billed s1 = run_billed s @ bs \<and> bills rq i (Some resp) bs)"
proof -
  from assms obtain s2 s3 s4 spent where st: "act w (\<lambda>now h. record_success_for h pool i now) s = Some s2"
    "act w (\<lambda>now h. record_latency_in (w_blend w) (w_latency w (run_tick s2)) h i) s2 = Some s3"
    "step w (\<lambda>clk env h. spend_budget h i) s3 = Some (s4, spent)"
    by (auto simp: serve_success_def bind_eq_Some_conv)
  have q: "quiet s s4" using quiet_trans [OF quiet_trans [OF quiet_act [OF st(1)] quiet_act [OF st(2)]] quiet_step [OF st(3)]] .
  show ?thesis
  proof (cases "crosses app rq i \<and> \<not> is_sse_reply cd r")
    case True
    with assms st have "translate_response_cross_protocol w cd rq i pool cfg r permit spent wants s4 = Some (s1, resp)"
      by (simp add: serve_success_def Let_def)
    from translate_bills [OF this] q show ?thesis by (auto simp: quiet_def)
  next
    case False
    with assms st q show ?thesis
      by (auto simp: serve_success_def Let_def quiet_def bills_def body_new_def split: if_splits)
  qed
qed

lemma attempt_log_quiet: "quiet s s1 \<Longrightarrow> (\<And>b. answer \<noteq> Some (Streamed b)) \<Longrightarrow> attempt_log app rq pool i s s1 answer"
  unfolding attempt_log_def quiet_def by (intro exI [of _ "[]"]) simp

lemma attempt_log_pre: "quiet s s0 \<Longrightarrow> attempt_log app rq pool i s0 s1 answer \<Longrightarrow> attempt_log app rq pool i s s1 answer"
  by (simp add: attempt_log_def quiet_def)

lemma attempt_log_sent:
  assumes "sent_ok app rq pool i x" and "run_sent s1 = run_sent (s\<lparr>run_sent := run_sent s @ [x]\<rparr>)"
    and "\<exists>bs. run_billed s1 = run_billed s @ bs \<and> bills rq i answer bs"
  shows "attempt_log app rq pool i s s1 answer"
  using assms unfolding attempt_log_def by (auto intro!: exI [of _ "[x]"])

definition answer_of :: "Hop \<Rightarrow> Response option" where
  "answer_of hop = (case hop of Return resp \<Rightarrow> Some resp | Next \<Rightarrow> None)"

lemma attempt_logs:
  assumes "attempt w app cd rq cands first i permit epoch ctx s = Some (s1, c, hop)"
  shows "attempt_log app rq (rq_pool rq) i s s1 (answer_of hop)"
proof -
  let ?pool = "rq_pool rq" and ?cfg = "resolve_breaker_cfg app (rq_pool rq)"
  have bail: "attempt_log app rq ?pool i s s1 (answer_of hop)"
    if "bail_undispatched w ?pool i permit resp s = Some (s1, hop)" "\<And>b. resp \<noteq> Streamed b" for resp
    using quiet_bail [OF that(1)] that(2) by (auto simp: answer_of_def intro: attempt_log_quiet)
  show ?thesis
  proof (cases "hop_payload_error app cd rq cands first i")
    case (Some resp)
    then have "\<And>b. resp \<noteq> Streamed b" by (auto simp: hop_payload_error_def split: if_splits)
    with bail assms Some show ?thesis by (auto simp: attempt_def Let_def)
  next
    case None
    show ?thesis
    proof (cases "cd_upstream_path cd i (rq_wants_stream rq)")
      case pn: None
      with bail assms None show ?thesis by (auto simp: attempt_def Let_def)
    next
      case (Some path)
      obtain sa t where rc: "read_clock w s = (sa, t)" by fastforce
      obtain sb t1 where rc1: "read_clock w sa = (sb, t1)" by fastforce
      have q: "quiet s sb" using quiet_trans [OF quiet_clock [OF rc] quiet_clock [OF rc1]] .
      let ?x = "\<lparr>sn_pool = ?pool, sn_lane = i,
                     sn_key = egress_key (pool_upstream_creds app ?pool) (rq_caller_token rq) (al_api_key (app_lanes app ! i)),
                     sn_path = path,
                     sn_timeout_secs = (if rq_wants_stream rq then None else Some (max (remaining ctx t) 1)),
                     sn_headers_cap_ms = map_option (\<lambda>ms. attempt_cap ms (remaining ctx t1))
                       (effective_attempt_timeout_ms cands i (al_attempt_timeout_ms (app_lanes app ! i)))\<rparr>"
      define s2 where "s2 = sb\<lparr>run_sent := run_sent sb @ [?x]\<rparr>"
      have step: "(case w_reply w (run_tick s2) of
                    Hangup \<Rightarrow> do { s3 \<leftarrow> drop_in w i permit s2; Some (s3, ctx, Return Gone) }
                  | Elapsed \<Rightarrow> map_option (\<lambda>(s3, hop). (s3, ctx, hop)) (transport_failure w ?pool i ?cfg permit s2)
                  | SendFailed \<Rightarrow> map_option (\<lambda>(s3, hop). (s3, ctx, hop)) (transport_failure w ?pool i ?cfg permit s2)
                  | Replied r \<Rightarrow>
                      if is_success (hr_status r)
                      then map_option (\<lambda>(s3, resp). (s3, ctx, Return resp))
                             (serve_success w app cd rq i ?pool ?cfg r permit (rq_wants_stream rq) s2)
                      else on_upstream_error w app cd rq cands ?cfg i permit epoch r ctx s2) = Some (s1, c, hop)"
        using assms None Some rc rc1 unfolding attempt_def Let_def s2_def by simp
      have "run_sent s1 = run_sent s2 \<and> (\<exists>bs. run_billed s1 = run_billed s2 @ bs \<and> bills rq i (answer_of hop) bs)"
      proof (cases "w_reply w (run_tick s2)")
        case Hangup
        with step show ?thesis by (auto simp: bind_eq_Some_conv answer_of_def quiet_def dest!: quiet_ops(3))
      next
        case (Replied r)
        show ?thesis
        proof (cases "is_success (hr_status r)")
          case True
          with step Replied obtain resp where
            "serve_success w app cd rq i ?pool ?cfg r permit (rq_wants_stream rq) s2 = Some (s1, resp)" "hop = Return resp"
            by auto
          with serve_success_bills [OF this(1)] show ?thesis by (simp add: answer_of_def)
        next
          case False
          with step Replied quiet_upstream_error [of w app cd rq cands ?cfg i permit epoch r ctx s2 s1 c hop] show ?thesis
            by (cases hop) (auto simp: quiet_def answer_of_def intro!: exI [of _ "[]"])
        qed
      qed (use step in \<open>auto simp: answer_of_def quiet_def dest!: quiet_transport\<close>)
      moreover have "run_sent s2 = run_sent s @ [?x]" "run_billed s2 = run_billed s" using q by (simp_all add: s2_def quiet_def)
      moreover have "sent_ok app rq ?pool i ?x" by (simp add: sent_ok_def)
      ultimately show ?thesis by (intro attempt_log_sent) simp_all
    qed
  qed
qed

lemma forward_once_logs:
  assumes "forward_once w app cd rq i permit secs pool probe override s = Some (s1, answer)"
  shows "attempt_log app rq pool i s s1 answer"
proof -
  let ?cfg = "resolve_breaker_cfg app pool"
  have leave: "attempt_log app rq pool i s s1 answer"
    if "leave_once w pool i probe permit a s = Some (s1, answer)" "\<And>b. a \<noteq> Some (Streamed b)" for a
    using quiet_leave_once [OF that(1)] that(2) by (auto intro: attempt_log_quiet)
  show ?thesis
  proof (cases "(\<not> rq_body_parses rq \<and> rq_content_type_json rq)
      \<or> cd_translate cd i (case override of None \<Rightarrow> al_reasoning (app_lanes app ! i) | Some b \<Rightarrow> b) \<noteq> None
      \<or> cd_upstream_path cd i (rq_once_stream rq) = None")
    case True
    with assms leave show ?thesis
      by (auto simp: forward_once_def Let_def split: if_splits option.splits prod.splits)
  next
    case False
    then obtain path where path: "cd_upstream_path cd i (rq_once_stream rq) = Some path" by blast
    from False have parses: "\<not> (\<not> rq_body_parses rq \<and> rq_content_type_json rq)"
      and tr: "cd_translate cd i (case override of None \<Rightarrow> al_reasoning (app_lanes app ! i) | Some b \<Rightarrow> b) = None" by blast+
    let ?x = "\<lparr>sn_pool = pool, sn_lane = i,
                     sn_key = egress_key (pool_upstream_creds app pool) (rq_caller_token rq) (al_api_key (app_lanes app ! i)),
                     sn_path = path,
                     sn_timeout_secs = (if rq_once_stream rq then None else Some (max secs 1)),
                     sn_headers_cap_ms = map_option (\<lambda>ms. attempt_cap ms secs) (al_attempt_timeout_ms (app_lanes app ! i))\<rparr>"
    define s2 where "s2 = s\<lparr>run_sent := run_sent s @ [?x]\<rparr>"
    have step: "forward_once_dispatch w app cd rq i permit pool probe (w_reply w (run_tick s)) s2 = Some (s1, answer)"
      using assms unfolding forward_once_def Let_def if_not_P [OF parses] tr path s2_def by simp
    have "run_sent s1 = run_sent s2 \<and> (\<exists>bs. run_billed s1 = run_billed s2 @ bs \<and> bills rq i answer bs)"
    proof (cases "\<exists>r. w_reply w (run_tick s) = Replied r \<and> is_success (hr_status r)")
      case True
      then obtain r where r: "w_reply w (run_tick s) = Replied r" "is_success (hr_status r)" by blast
      with step obtain resp where
        "serve_success w app cd rq i pool ?cfg r permit (rq_once_stream rq) s2 = Some (s1, resp)" "answer = Some resp"
        by (auto simp: forward_once_dispatch_def Let_def)
      with serve_success_bills [OF this(1)] show ?thesis by simp
    next
      case False
      with step have "quiet s2 s1 \<and> (\<forall>b. answer \<noteq> Some (Streamed b))"
        by (auto simp: forward_once_dispatch_def Let_def bind_eq_Some_conv shape_cross_protocol_error_def
            split: UpstreamReply.splits if_splits dest!: quiet_leave_once quiet_ops(1,3,6) intro: quiet_trans)
      then show ?thesis by (simp add: quiet_def)
    qed
    moreover have "sent_ok app rq pool i ?x" by (simp add: sent_ok_def)
    ultimately show ?thesis by (intro attempt_log_sent) (simp_all add: s2_def)
  qed
qed

section \<open>The walk\<close>

text \<open>
  The lanes a request may reach: a candidate of the pool at hand, or a member of a fallback pool
  that passed the remembered restricts and that pool's blocklist.
\<close>

definition fallback_allows :: "App \<Rightarrow> RequestCtx \<Rightarrow> string \<Rightarrow> usize \<Rightarrow> bool" where
  "fallback_allows app ctx pool lane \<longleftrightarrow>
     (case map_of (app_fallback_pools app) pool of
        None \<Rightarrow> False
      | Some members \<Rightarrow>
          (case enforce_restricts ctx (pool_members app) pool members of
             Inl name \<Rightarrow> False
           | Inr out \<Rightarrow> lane \<in> wl_idx ` set (retain_allowed app pool out)))"

definition reachable_lane :: "App \<Rightarrow> RequestCtx \<Rightarrow> string \<Rightarrow> WeightedLane list \<Rightarrow> string \<Rightarrow> usize \<Rightarrow> bool" where
  "reachable_lane app ctx pool cands p lane \<longleftrightarrow>
     (p = pool \<and> lane \<in> wl_idx ` set cands) \<or> fallback_allows app ctx p lane"

definition walk_log ::
  "App \<Rightarrow> Request \<Rightarrow> (string \<Rightarrow> usize \<Rightarrow> bool) \<Rightarrow> 'sem Run \<Rightarrow> 'sem Run \<Rightarrow> Response option \<Rightarrow> bool" where
  "walk_log app rq allowed s s1 answer \<longleftrightarrow>
     (\<exists>xs bs. run_sent s1 = run_sent s @ xs \<and> run_billed s1 = run_billed s @ bs
        \<and> (\<forall>x \<in> set xs. allowed (sn_pool x) (sn_lane x) \<and> sent_ok app rq (sn_pool x) (sn_lane x) x)
        \<and> (\<exists>i. bills rq i answer bs))"

lemma walk_log_quiet: "quiet s s1 \<Longrightarrow> (\<And>b. answer \<noteq> Some (Streamed b)) \<Longrightarrow> walk_log app rq allowed s s1 answer"
  unfolding walk_log_def quiet_def by (intro exI [of _ "[]"]) simp

lemma walk_log_pre: "quiet s s0 \<Longrightarrow> walk_log app rq allowed s0 s1 answer \<Longrightarrow> walk_log app rq allowed s s1 answer"
  by (simp add: walk_log_def quiet_def)

lemma walk_log_mono:
  "walk_log app rq allowed s s1 answer \<Longrightarrow> (\<And>p l. allowed p l \<Longrightarrow> allowed1 p l) \<Longrightarrow> walk_log app rq allowed1 s s1 answer"
  unfolding walk_log_def by blast

lemma walk_log_attempt:
  assumes "attempt_log app rq pool i s s1 answer" and "allowed pool i"
  shows "walk_log app rq allowed s s1 answer"
  using assms unfolding attempt_log_def walk_log_def by (fastforce simp: sent_ok_def)

lemma attempt_log_unanswered:
  assumes "attempt_log app rq pool i s s1 None"
  shows "\<exists>xs. run_sent s1 = run_sent s @ xs \<and> run_billed s1 = run_billed s \<and> (xs = [] \<or> (\<exists>x. xs = [x] \<and> sent_ok app rq pool i x))"
  using assms unfolding attempt_log_def by (auto simp: bills_def)

lemma walk_log_seq:
  assumes "attempt_log app rq pool i s s1 None" and "allowed pool i" and "walk_log app rq allowed s1 s2 answer"
  shows "walk_log app rq allowed s s2 answer"
proof -
  obtain xs where xs: "run_sent s1 = run_sent s @ xs" "run_billed s1 = run_billed s"
    "xs = [] \<or> (\<exists>x. xs = [x] \<and> sent_ok app rq pool i x)"
    using attempt_log_unanswered [OF assms(1)] by blast
  obtain ys bs where ys: "run_sent s2 = run_sent s1 @ ys" "run_billed s2 = run_billed s1 @ bs"
    "\<forall>x \<in> set ys. allowed (sn_pool x) (sn_lane x) \<and> sent_ok app rq (sn_pool x) (sn_lane x) x" "\<exists>i. bills rq i answer bs"
    using assms(3) unfolding walk_log_def by blast
  show ?thesis
    unfolding walk_log_def using xs ys assms(2)
    by (intro exI [of _ "xs @ ys"] exI [of _ bs]) (auto simp: sent_ok_def)
qed

lemma quiet_status_503 [quiets]:
  "handle_status_503 w cands now pool s = Some (s1, resp) \<Longrightarrow> quiet s s1 \<and> (\<forall>b. resp \<noteq> Streamed b)"
  by (auto simp: handle_status_503_def bind_eq_Some_conv dest: quiet_step)

lemma quiet_shed [quiets]: "shed_now w cands pool s = Some (s1, resp) \<Longrightarrow> quiet s s1 \<and> (\<forall>b. resp \<noteq> Streamed b)"
  by (auto simp: shed_now_def split: prod.splits dest!: quiet_status_503 quiet_clock intro: quiet_trans)

lemma shed_log: "shed_now w cands pool s = Some (s1, resp) \<Longrightarrow> walk_log app rq allowed s s1 (Some resp)"
  using quiet_shed by (intro walk_log_quiet) blast+

lemma status_503_log: "handle_status_503 w cands now pool s = Some (s1, resp) \<Longrightarrow> walk_log app rq allowed s s1 (Some resp)"
  using quiet_status_503 by (intro walk_log_quiet) blast+

lemma first_free_in: "first_free ops h ls = Some (h1, Some (l, permit)) \<Longrightarrow> l \<in> set ls"
  by (induction ls arbitrary: h) (auto simp: bind_eq_Some_conv split: option.splits)

lemma least_bad_in:
  "least_bad_dispatch ops pool now cands h = Some (h1, Some (l, permit)) \<Longrightarrow> l \<in> wl_idx ` set cands"
  by (force simp: least_bad_dispatch_def bind_eq_Some_conv dest!: first_free_in cooldown_keys_within)

lemma least_bad_log:
  assumes "handle_least_bad w app cd rq cands now pool ctx s = Some (s1, resp)"
    and allowed: "\<And>l. l \<in> wl_idx ` set cands \<Longrightarrow> allowed pool l"
  shows "walk_log app rq allowed s s1 (Some resp)"
proof -
  obtain s2 pick where p: "step w (\<lambda>clk env h. least_bad_dispatch (w_sem w) pool now cands h) s = Some (s2, pick)"
    using assms(1) by (auto simp: handle_least_bad_def bind_eq_Some_conv)
  note q = quiet_step [OF p]
  show ?thesis
  proof (cases pick)
    case None
    with assms(1) p show ?thesis by (auto simp: handle_least_bad_def intro: walk_log_pre [OF q] status_503_log)
  next
    case (Some ip)
    obtain i permit where ip: "ip = (i, permit)" by fastforce
    have i: "allowed pool i"
      using p Some ip by (auto simp: step_def Let_def bind_eq_Some_conv dest: least_bad_in intro: allowed)
    from assms(1) p Some ip obtain s3 answer where
      f: "forward_once w app cd rq i permit (remaining ctx now) pool None (Option.bind (member_of cands i) wl_reasoning) s2
        = Some (s3, answer)"
      by (auto simp: handle_least_bad_def bind_eq_Some_conv)
    note log = forward_once_logs [OF f]
    show ?thesis
    proof (cases answer)
      case None
      with assms(1) p Some ip f have "handle_status_503 w cands now pool s3 = Some (s1, resp)" by (simp add: handle_least_bad_def)
      from walk_log_pre [OF q walk_log_seq [where allowed = allowed, OF log [unfolded None] i status_503_log [OF this]]]
      show ?thesis .
    next
      case (Some resp1)
      with assms(1) p \<open>pick = Some ip\<close> ip f have "s1 = s3" "resp = resp1" by (simp_all add: handle_least_bad_def)
      with walk_log_pre [OF q walk_log_attempt [where allowed = allowed, OF log [unfolded Some] i]] show ?thesis by simp
    qed
  qed
qed

lemma queue_sems_in: "queue_sems h at_cap = Some (h1, sems) \<Longrightarrow> set sems \<subseteq> set at_cap"
  by (auto simp: queue_sems_def split: if_splits)

lemma or_shed_log:
  assumes "or_shed w cands pool m = Some (s2, resp)"
    and "\<And>s1 answer. m = Some (s1, answer) \<Longrightarrow> attempt_log app rq pool i s s1 answer" and "allowed pool i"
  shows "walk_log app rq allowed s s2 (Some resp)"
proof -
  obtain s1 answer where m: "m = Some (s1, answer)" using assms(1) by (auto simp: or_shed_def bind_eq_Some_conv)
  note log = assms(2) [OF m]
  show ?thesis
  proof (cases answer)
    case None
    with assms(1) m have "shed_now w cands pool s1 = Some (s2, resp)" by (simp add: or_shed_def)
    from walk_log_seq [where allowed = allowed, OF log [unfolded None] assms(3) shed_log [OF this]] show ?thesis .
  next
    case (Some r)
    with assms(1) m have "s2 = s1" "resp = r" by (simp_all add: or_shed_def)
    with walk_log_attempt [where allowed = allowed, OF log [unfolded Some] assms(3)] show ?thesis by simp
  qed
qed

lemma queue_loop_log:
  assumes "\<And>l. l \<in> set at_cap \<Longrightarrow> allowed pool l"
    and "queue_loop fuel w app cd rq cands pool ctx at_cap s = Some (s9, resp)"
  shows "walk_log app rq allowed s s9 (Some resp)"
  using assms
proof (induction fuel arbitrary: at_cap s)
  case (Suc fuel)
  obtain s1 sems where q: "step w (\<lambda>clk env h. queue_sems h at_cap) s = Some (s1, sems)"
    using Suc.prems(2) by (auto simp: bind_eq_Some_conv)
  note q1 = quiet_step [OF q]
  have within: "set sems \<subseteq> set at_cap" using q by (auto simp: step_def Let_def bind_eq_Some_conv dest!: queue_sems_in)
  show ?case
  proof (cases "sems = [] \<or> (\<nexists>lane. w_wake w (run_tick s1) = Woken lane \<and> lane \<in> set sems)")
    case True
    with Suc.prems(2) q have "shed_now w cands pool s1 = Some (s9, resp)" by (auto split: QueueWake.splits if_splits)
    from walk_log_pre [OF q1 shed_log [OF this]] show ?thesis .
  next
    case False
    then obtain lane where wk: "w_wake w (run_tick s1) = Woken lane" "lane \<in> set sems" "sems \<noteq> []" by blast
    have lane: "allowed pool lane" using wk(2) within Suc.prems(1) by blast
    from Suc.prems(2) q wk obtain s2 won where a: "step w (\<lambda>clk env h. try_acquire (w_sem w) h lane) s1 = Some (s2, won)"
      by (auto simp: bind_eq_Some_conv)
    note q2 = quiet_trans [OF q1 quiet_step [OF a]]
    show ?thesis
    proof (cases won)
      case None
      with Suc.prems(2) q wk a have "shed_now w cands pool s2 = Some (s9, resp)" by simp
      from walk_log_pre [OF q2 shed_log [OF this]] show ?thesis .
    next
      case (Some permit)
      with Suc.prems(2) q wk a obtain s3 r where b: "step w (\<lambda>clk env h. try_admit_breaker h pool lane (clk 0)) s2 = Some (s3, r)"
        by (auto simp: bind_eq_Some_conv)
      note q3 = quiet_trans [OF q2 quiet_step [OF b]]
      show ?thesis
      proof (cases r)
        case (Inr epoch)
        obtain s4 now where rc: "read_clock w s3 = (s4, now)" by fastforce
        let ?m = "forward_once w app cd rq lane permit (remaining ctx now) pool (Some epoch)
          (Option.bind (member_of cands lane) wl_reasoning) s4"
        have o: "or_shed w cands pool ?m = Some (s9, resp)" using Suc.prems(2) q wk a Some b Inr rc by simp
        have "walk_log app rq allowed s4 s9 (Some resp)"
          by (rule or_shed_log [where allowed = allowed, OF o _ lane]) (rule forward_once_logs)
        from walk_log_pre [OF quiet_trans [OF q3 quiet_clock [OF rc]] this] show ?thesis .
      next
        case (Inl reason)
        with Suc.prems(2) q wk a Some b obtain s4 where d: "drop_in w lane permit s3 = Some s4" by (auto simp: bind_eq_Some_conv)
        note q4 = quiet_trans [OF q3 quiet_ops(3) [OF d]]
        let ?left = "filter (\<lambda>l. l \<noteq> lane) at_cap"
        from Suc.prems(2) q wk a Some b Inl d
        have "(if ?left = [] then shed_now w cands pool s4 else queue_loop fuel w app cd rq cands pool ctx ?left s4) = Some (s9, resp)"
          by (simp add: Let_def)
        then have "walk_log app rq allowed s4 s9 (Some resp)"
          using Suc.IH [of ?left s4] Suc.prems(1) shed_log by (auto split: if_splits)
        from walk_log_pre [OF q4 this] show ?thesis .
      qed
    qed
  qed
qed simp

lemma handle_queue_log:
  assumes "handle_queue w app cd rq cands pool ctx s = Some (s1, resp)"
    and "\<And>l. l \<in> fst ` set (excluded_reasons ctx) \<Longrightarrow> allowed pool l"
  shows "walk_log app rq allowed s s1 (Some resp)"
proof (cases "at_capacity_lanes (excluded_reasons ctx) [] = []")
  case True
  with assms(1) show ?thesis by (auto simp: handle_queue_def intro: shed_log)
next
  case False
  have "allowed pool l" if "l \<in> set (at_capacity_lanes (excluded_reasons ctx) [])" for l
    by (rule assms(2)) (use that at_capacity_lanes_within [of "excluded_reasons ctx" "[]"] in auto)
  moreover have "queue_loop (Suc (length (at_capacity_lanes (excluded_reasons ctx) []))) w app cd rq cands pool ctx
      (at_capacity_lanes (excluded_reasons ctx) []) s = Some (s1, resp)"
    using assms(1) False by (simp add: handle_queue_def Let_def del: queue_loop.simps)
  ultimately show ?thesis by (rule queue_loop_log)
qed

lemma pick_loop_reasons:
  "pick_loop fuel ops clock k h cands ctx loc pool order = Some (h1, ctx1, r) \<Longrightarrow>
   fst ` set (excluded_reasons ctx1) \<subseteq> fst ` set (excluded_reasons ctx) \<union> wl_idx ` set cands"
proof (induction fuel arbitrary: k h ctx loc)
  case (Suc fuel)
  show ?case
  proof (cases "expired ctx (clock k) \<or> open_cands ctx loc cands = []")
    case True
    with Suc.prems show ?thesis by (auto simp: pick_loop_unfold)
  next
    case False
    with Suc.prems obtain h2 sel where s: "select_lane h pool (map wl_idx (open_cands ctx loc cands))
        (map wl_weight (open_cands ctx loc cands)) order (clock (k + 1)) = Some (h2, sel)"
      by (auto simp: pick_loop_unfold bind_eq_Some_conv)
    show ?thesis
    proof (cases sel)
      case None
      with False s Suc.prems show ?thesis by (auto simp: pick_loop_unfold)
    next
      case (Some lane)
      then have lane: "lane \<in> wl_idx ` set cands"
        using select_lane_in s by (fastforce simp: open_cands_def fill_candidates_def)
      from False s Some Suc.prems obtain h3 q where a: "try_admit ops h2 pool lane (clock (k + 2)) = Some (h3, q)"
        by (auto simp: pick_loop_unfold bind_eq_Some_conv)
      show ?thesis
      proof (cases q)
        case (Inr admit)
        with False s Some a Suc.prems show ?thesis by (auto simp: pick_loop_unfold)
      next
        case (Inl reason)
        with False s Some a Suc.prems have
          "pick_loop fuel ops clock (k + 3) h3 cands (ctx\<lparr>excluded_reasons := excluded_reasons ctx @ [(lane, reason)]\<rparr>)
             (insert lane loc) pool order = Some (h1, ctx1, r)"
          by (simp add: pick_loop_unfold)
        from Suc.IH [OF this] lane show ?thesis by auto
      qed
    qed
  qed
qed simp

lemma pick_among_reasons:
  assumes p: "pick_among ops clock h cands ctx aff pool order = Some (h1, ctx1, r)"
  shows "fst ` set (excluded_reasons ctx1) \<subseteq> wl_idx ` set cands"
proof (cases "pick_among ops clock h cands ctx aff pool order
    = pick_loop (Suc (length cands)) ops clock 1 h cands (ctx\<lparr>excluded_reasons := []\<rparr>) {} pool order")
  case True
  with p pick_loop_reasons [of "Suc (length cands)" ops clock 1 h cands "ctx\<lparr>excluded_reasons := []\<rparr>" "{}" pool order h1 ctx1 r]
  show ?thesis by auto
next
  case False
  then obtain hash where hash: "aff = Some hash" "cands \<noteq> []" "wl_weight (cands ! (hash mod length cands)) \<noteq> 0"
      "wl_idx (cands ! (hash mod length cands)) \<notin> excluded ctx"
    using pick_among_plain [where aff = aff and cands = cands and ctx = ctx] by (cases aff) fastforce+
  let ?l = "wl_idx (cands ! (hash mod length cands))"
  have l: "?l \<in> wl_idx ` set cands" using hash(2) by simp
  from hash p obtain h2 q where a: "try_admit ops h pool ?l (clock 0) = Some (h2, q)"
    by (auto simp: pick_among_def Let_def bind_eq_Some_conv)
  show ?thesis
  proof (cases q)
    case (Inr admit)
    with hash a p show ?thesis by (auto simp: pick_among_def Let_def)
  next
    case (Inl reason)
    with hash a p have "pick_loop (Suc (length cands)) ops clock 1 h2 cands
        (ctx\<lparr>excluded_reasons := [(?l, reason)]\<rparr>) {} pool order = Some (h1, ctx1, r)"
      by (simp add: pick_among_def Let_def)
    from pick_loop_reasons [OF this] l show ?thesis by auto
  qed
qed

lemma pick_step_log:
  assumes "pick_step w cands aff pool order ctx s = Some (s1, ctx1, r)"
  shows "quiet s s1 \<and> picked_in cands ctx ctx1 r \<and> fst ` set (excluded_reasons ctx1) \<subseteq> wl_idx ` set cands"
  using assms quiet_step [of w "\<lambda>clk env h. pick_among (w_sem w) clk h cands ctx aff pool order" s s1 "(ctx1, r)"]
  by (auto simp: pick_step_def step_def Let_def bind_eq_Some_conv dest: pick_among_in pick_among_reasons)

section \<open>Fallback pools\<close>

lemma walk_log_seq2:
  assumes "walk_log app rq allowed s s1 None" and "walk_log app rq allowed s1 s2 answer"
  shows "walk_log app rq allowed s s2 answer"
proof -
  obtain xs where xs: "run_sent s1 = run_sent s @ xs" "run_billed s1 = run_billed s"
    "\<forall>x \<in> set xs. allowed (sn_pool x) (sn_lane x) \<and> sent_ok app rq (sn_pool x) (sn_lane x) x"
    using assms(1) unfolding walk_log_def by (auto simp: bills_def)
  obtain ys bs where ys: "run_sent s2 = run_sent s1 @ ys" "run_billed s2 = run_billed s1 @ bs"
    "\<forall>x \<in> set ys. allowed (sn_pool x) (sn_lane x) \<and> sent_ok app rq (sn_pool x) (sn_lane x) x" "\<exists>i. bills rq i answer bs"
    using assms(2) unfolding walk_log_def by blast
  show ?thesis
    unfolding walk_log_def using xs ys by (intro exI [of _ "xs @ ys"] exI [of _ bs]) auto
qed

lemma fallback_loop_log:
  assumes "\<And>l. l \<in> wl_idx ` set cands \<Longrightarrow> allowed pool l"
  shows "fallback_loop fuel w app cd rq cands pool ctx s = Some (s1, ctx1, answer) \<Longrightarrow>
    walk_log app rq allowed s s1 answer \<and> active_restricts ctx1 = active_restricts ctx
    \<and> (fst ` set (excluded_reasons ctx) \<subseteq> wl_idx ` set cands \<or> answer = None \<longrightarrow>
         fst ` set (excluded_reasons ctx1) \<subseteq> wl_idx ` set cands)"
proof (induction fuel arbitrary: ctx s)
  case (Suc fuel)
  obtain s2 now where rc: "read_clock w s = (s2, now)" by fastforce
  note q2 = quiet_clock [OF rc]
  show ?case
  proof (cases "expired ctx now")
    case True
    with Suc.prems rc q2 show ?thesis by (auto simp: timed_out_def intro: walk_log_quiet)
  next
    case False
    with Suc.prems rc obtain s3 ctx2 picked where p: "pick_step w cands None pool None ctx s2 = Some (s3, ctx2, picked)"
      by (auto simp: bind_eq_Some_conv)
    note ps = pick_step_log [OF p]
    then have q3: "quiet s s3" using quiet_trans [OF q2] by blast
    show ?thesis
    proof (cases picked)
      case None
      with Suc.prems rc False p ps q3 show ?thesis by (auto simp: picked_in_def intro: walk_log_quiet)
    next
      case (Some q)
      obtain i permit epoch where q: "q = (i, permit, epoch)" using prod_cases3 by blast
      have i: "allowed pool i" using ps Some q assms by (simp add: picked_in_def)
      obtain s4 now1 where rc1: "read_clock w s3 = (s4, now1)" by fastforce
      note q4 = quiet_trans [OF q3 quiet_clock [OF rc1]]
      from Suc.prems rc False p Some q rc1 obtain s5 ans where
        f: "forward_once w app cd rq i permit (remaining (exclude ctx2 i) now1) pool (Some epoch)
          (Option.bind (member_of cands i) wl_reasoning) s4 = Some (s5, ans)"
        by (auto simp: bind_eq_Some_conv Let_def)
      note log = forward_once_logs [OF f]
      have c2: "active_restricts (exclude ctx2 i) = active_restricts ctx"
        "fst ` set (excluded_reasons (exclude ctx2 i)) \<subseteq> wl_idx ` set cands"
        using ps by (auto simp: picked_in_def exclude_def)
      show ?thesis
      proof (cases ans)
        case None
        with Suc.prems rc False p Some q rc1 f have
          "fallback_loop fuel w app cd rq cands pool (exclude ctx2 i) s5 = Some (s1, ctx1, answer)"
          by (simp add: Let_def)
        note ih = Suc.IH [OF this]
        from ih c2 walk_log_pre [OF q4 walk_log_seq [where allowed = allowed, OF log [unfolded None] i]] show ?thesis
          by auto
      next
        case (Some resp)
        with Suc.prems rc False p \<open>picked = Some q\<close> q rc1 f have "s1 = s5" "answer = Some resp" "ctx1 = exclude ctx2 i"
          by (simp_all add: Let_def)
        with c2 walk_log_pre [OF q4 walk_log_attempt [where allowed = allowed, OF log [unfolded Some] i]] show ?thesis
          by simp
      qed
    qed
  qed
qed simp

lemma handle_fallback_pool_log:
  assumes f: "handle_fallback_pool resume w app cd rq pool ctx s = Some (s1, resp)"
    and resume: "\<And>cands now c s2. resume cands now pool c s2 = Some (s1, resp) \<Longrightarrow>
      active_restricts c = active_restricts ctx \<Longrightarrow> fst ` set (excluded_reasons c) \<subseteq> wl_idx ` set cands \<Longrightarrow>
      (\<And>l. l \<in> wl_idx ` set cands \<Longrightarrow> fallback_allows app ctx pool l) \<Longrightarrow>
      walk_log app rq (fallback_allows app ctx) s2 s1 (Some resp)"
  shows "walk_log app rq (fallback_allows app ctx) s s1 (Some resp)"
proof -
  obtain s2 now where rc: "read_clock w s = (s2, now)" by fastforce
  note q = quiet_clock [OF rc]
  show ?thesis
  proof (cases "expired ctx now \<or> is_pool_visited ctx pool \<or> map_of (app_fallback_pools app) pool = None")
    case True
    with f rc q show ?thesis
      by (auto simp: handle_fallback_pool_def timed_out_def split: if_splits
          intro: walk_log_quiet walk_log_pre [OF q shed_log])
  next
    case False
    then obtain members where m: "map_of (app_fallback_pools app) pool = Some members" by auto
    show ?thesis
    proof (cases "enforce_restricts ctx (pool_members app) pool members")
      case (Inl name)
      with f rc q False m show ?thesis
        by (auto simp: handle_fallback_pool_def gate_refusal_def intro: walk_log_quiet)
    next
      case (Inr out)
      let ?cands = "retain_allowed app pool out" and ?ctx = "mark_pool_visited ctx pool"
      have al: "l \<in> wl_idx ` set ?cands \<Longrightarrow> fallback_allows app ctx pool l" for l
        using m Inr by (simp add: fallback_allows_def)
      from f rc False m Inr obtain s3 ctx1 answer where
        l: "fallback_loop (Suc (length ?cands)) w app cd rq ?cands pool ?ctx s2 = Some (s3, ctx1, answer)"
        by (auto simp: handle_fallback_pool_def Let_def bind_eq_Some_conv simp del: fallback_loop.simps)
      note log = fallback_loop_log [where allowed = "fallback_allows app ctx", OF al l]
      show ?thesis
      proof (cases answer)
        case None
        obtain s4 now1 where rc1: "read_clock w s3 = (s4, now1)" by fastforce
        from f rc False m Inr l None rc1 have r: "resume ?cands now1 pool ctx1 s4 = Some (s1, resp)"
          by (simp add: handle_fallback_pool_def Let_def del: fallback_loop.simps)
        have "walk_log app rq (fallback_allows app ctx) s4 s1 (Some resp)"
          by (rule resume [OF r _ _ al]) (use log None in \<open>auto simp: mark_pool_visited_def\<close>)
        from walk_log_pre [OF quiet_clock [OF rc1] this] log None show ?thesis
          using walk_log_pre [OF q walk_log_seq2] by auto
      next
        case (Some r)
        with f rc False m Inr l have "s1 = s3" "resp = r"
          by (simp_all add: handle_fallback_pool_def Let_def del: fallback_loop.simps)
        with log Some walk_log_pre [OF q] show ?thesis by simp
      qed
    qed
  qed
qed

lemma fallback_allows_cong:
  assumes "active_restricts c = active_restricts ctx"
  shows "fallback_allows app c = fallback_allows app ctx"
proof -
  have eq: "enforce_restricts c = enforce_restricts ctx" using assms by (simp add: enforce_restricts_def fun_eq_iff)
  show ?thesis unfolding fallback_allows_def fun_eq_iff eq by simp
qed

lemma handle_exhaustion_log:
  "handle_exhaustion_for_pool fuel w app cd rq cands now pool ctx s = Some (s1, resp) \<Longrightarrow>
   fst ` set (excluded_reasons ctx) \<subseteq> wl_idx ` set cands \<Longrightarrow>
   walk_log app rq (reachable_lane app ctx pool cands) s s1 (Some resp)"
proof (induction fuel arbitrary: cands now pool ctx s)
  case (Suc fuel)
  let ?ctx = "mark_pool_visited ctx pool" and ?allowed = "reachable_lane app ctx pool cands"
  have own: "l \<in> wl_idx ` set cands \<Longrightarrow> ?allowed pool l" for l by (simp add: reachable_lane_def)
  have ctx: "active_restricts ?ctx = active_restricts ctx" "excluded_reasons ?ctx = excluded_reasons ctx"
    by (simp_all add: mark_pool_visited_def)
  show ?case
  proof (cases "case app_on_exhausted app pool of None \<Rightarrow> Status503 | Some m \<Rightarrow> m")
    case Status503
    with Suc.prems(1) show ?thesis by (auto simp: Let_def intro: status_503_log)
  next
    case (FallbackPool target)
    have f: "handle_fallback_pool (handle_exhaustion_for_pool fuel w app cd rq) w app cd rq target ?ctx s = Some (s1, resp)"
      using Suc.prems(1) FallbackPool by (simp add: Let_def)
    have "walk_log app rq (fallback_allows app ?ctx) s s1 (Some resp)"
    proof (rule handle_fallback_pool_log [OF f])
      fix cands1 now1 c s2
      assume r: "handle_exhaustion_for_pool fuel w app cd rq cands1 now1 target c s2 = Some (s1, resp)"
        and c: "active_restricts c = active_restricts ?ctx" "fst ` set (excluded_reasons c) \<subseteq> wl_idx ` set cands1"
        and al: "\<And>l. l \<in> wl_idx ` set cands1 \<Longrightarrow> fallback_allows app ?ctx target l"
      from Suc.IH [OF r c(2)] show "walk_log app rq (fallback_allows app ?ctx) s2 s1 (Some resp)"
        by (rule walk_log_mono) (use al fallback_allows_cong [OF c(1)] in \<open>auto simp: reachable_lane_def\<close>)
    qed
    then show ?thesis
      by (rule walk_log_mono) (simp add: reachable_lane_def fallback_allows_cong [OF ctx(1)])
  next
    case LeastBad
    with Suc.prems(1) have "handle_least_bad w app cd rq cands now pool ?ctx s = Some (s1, resp)" by (simp add: Let_def)
    then show ?thesis by (rule least_bad_log) (rule own)
  next
    case (Queue ms)
    with Suc.prems(1) have "handle_queue w app cd rq cands pool ?ctx s = Some (s1, resp)" by (simp add: Let_def)
    then show ?thesis
    proof (rule handle_queue_log)
      fix l assume "l \<in> fst ` set (excluded_reasons ?ctx)"
      then have "l \<in> wl_idx ` set cands" using Suc.prems(2) unfolding ctx(2) by blast
      then show "?allowed pool l" by (rule own)
    qed
  qed
qed simp

lemma exhausted_log:
  assumes "exhausted w app cd rq cands ctx s = Some (s1, resp)"
    and "fst ` set (excluded_reasons ctx) \<subseteq> wl_idx ` set cands"
  shows "walk_log app rq (reachable_lane app ctx (rq_pool rq) cands) s s1 (Some resp)"
proof -
  obtain s2 now where rc: "read_clock w s = (s2, now)" by fastforce
  have "handle_exhaustion_for_pool (exhaustion_fuel app) w app cd rq cands now (rq_pool rq) ctx s2 = Some (s1, resp)"
    using assms(1) rc by (simp add: exhausted_def del: handle_exhaustion_for_pool.simps)
  from walk_log_pre [OF quiet_clock [OF rc] handle_exhaustion_log [OF this assms(2)]] show ?thesis .
qed

section \<open>The failover loop\<close>

text \<open>
  First the attempts of the loop, \<open>n\<close> at most and each at another lane, then what the exhaustion sends.
\<close>

definition failover_log ::
  "App \<Rightarrow> Request \<Rightarrow> WeightedLane list \<Rightarrow> nat \<Rightarrow> RequestCtx \<Rightarrow> 'sem Run \<Rightarrow> 'sem Run \<Rightarrow> Response \<Rightarrow> bool" where
  "failover_log app rq cands n ctx s s1 resp \<longleftrightarrow>
     (\<exists>ys zs bs. run_sent s1 = run_sent s @ ys @ zs \<and> run_billed s1 = run_billed s @ bs
        \<and> length ys \<le> n \<and> distinct (map sn_lane ys)
        \<and> (\<forall>y \<in> set ys. sent_ok app rq (rq_pool rq) (sn_lane y) y \<and> sn_lane y \<in> wl_idx ` set cands - excluded ctx)
        \<and> (\<forall>z \<in> set zs. sent_ok app rq (sn_pool z) (sn_lane z) z
             \<and> reachable_lane app ctx (rq_pool rq) cands (sn_pool z) (sn_lane z))
        \<and> (\<exists>i. bills rq i (Some resp) bs))"

lemma failover_log_walk:
  "walk_log app rq (reachable_lane app ctx (rq_pool rq) cands) s s1 (Some resp) \<Longrightarrow> failover_log app rq cands n ctx s s1 resp"
  unfolding walk_log_def failover_log_def by (elim exE) (rule exI [of _ "[]"], auto)

lemma failover_log_pre: "quiet s s0 \<Longrightarrow> failover_log app rq cands n ctx s0 s1 resp \<Longrightarrow> failover_log app rq cands n ctx s s1 resp"
  by (simp add: failover_log_def quiet_def)

lemma failover_log_cons:
  assumes "attempt_log app rq (rq_pool rq) i s s1 None" and i: "i \<in> wl_idx ` set cands" "i \<notin> excluded ctx"
    and c: "active_restricts c = active_restricts ctx" "insert i (excluded ctx) \<subseteq> excluded c"
    and "failover_log app rq cands n c s1 s2 resp"
  shows "failover_log app rq cands (Suc n) ctx s s2 resp"
proof -
  obtain xs where xs: "run_sent s1 = run_sent s @ xs" "run_billed s1 = run_billed s"
    "xs = [] \<or> (\<exists>x. xs = [x] \<and> sent_ok app rq (rq_pool rq) i x)"
    using attempt_log_unanswered [OF assms(1)] by blast
  obtain ys zs bs where ys: "run_sent s2 = run_sent s1 @ ys @ zs" "run_billed s2 = run_billed s1 @ bs"
    "length ys \<le> n" "distinct (map sn_lane ys)"
    and y: "\<And>y. y \<in> set ys \<Longrightarrow> sent_ok app rq (rq_pool rq) (sn_lane y) y \<and> sn_lane y \<in> wl_idx ` set cands - excluded c"
    and z: "\<And>z. z \<in> set zs \<Longrightarrow> sent_ok app rq (sn_pool z) (sn_lane z) z
             \<and> reachable_lane app c (rq_pool rq) cands (sn_pool z) (sn_lane z)" and b: "\<exists>i. bills rq i (Some resp) bs"
    using assms(6) unfolding failover_log_def by blast
  have "reachable_lane app c = reachable_lane app ctx"
    by (simp add: fun_eq_iff reachable_lane_def fallback_allows_cong [OF c(1)])
  moreover have "i \<notin> sn_lane ` set ys" using y c(2) by blast
  ultimately show ?thesis
    unfolding failover_log_def using xs ys i b y z c(2)
    by (intro exI [of _ "xs @ ys"] exI [of _ zs] exI [of _ bs]) (fastforce simp: sent_ok_def)
qed

lemma attempt_ctx_log:
  assumes "attempt w app cd rq cands first i permit epoch ctx s = Some (s1, c, hop)"
  shows "active_restricts c = active_restricts ctx \<and> excluded ctx \<subseteq> excluded c \<and> excluded_reasons c = excluded_reasons ctx"
proof -
  obtain more where "exclude_context app cands i ctx = ctx\<lparr>excluded := excluded ctx \<union> more\<rparr>"
    using exclude_context_within by blast
  with attempt_ctx [OF assms] show ?thesis by auto
qed

lemma failover_loop_log:
  "failover_loop left w app cd rq cands order first ctx s = Some (s9, resp) \<Longrightarrow>
   fst ` set (excluded_reasons ctx) \<subseteq> wl_idx ` set cands \<Longrightarrow> failover_log app rq cands left ctx s s9 resp"
proof (induction left arbitrary: first ctx s)
  case 0
  then show ?case by (auto intro: failover_log_walk exhausted_log)
next
  case (Suc left)
  obtain s1 now where rc: "read_clock w s = (s1, now)" by fastforce
  note q1 = quiet_clock [OF rc]
  show ?case
  proof (cases "expired ctx now")
    case True
    with Suc.prems(1) rc q1 show ?thesis by (auto simp: timed_out_def intro: failover_log_walk walk_log_quiet)
  next
    case False
    with Suc.prems(1) rc obtain s2 ctx1 picked where
      p: "pick_step w cands (rq_affinity rq) (rq_pool rq) order ctx s1 = Some (s2, ctx1, picked)"
      by (auto simp: bind_eq_Some_conv)
    note ps = pick_step_log [OF p]
    then have q2: "quiet s s2" and c1: "active_restricts ctx1 = active_restricts ctx" "excluded ctx1 = excluded ctx"
      using quiet_trans [OF q1] by (auto simp: picked_in_def)
    have same: "failover_log app rq cands n ctx1 s s9 resp = failover_log app rq cands n ctx s s9 resp" for n
      by (simp add: failover_log_def c1 reachable_lane_def fallback_allows_cong [OF c1(1)])
    show ?thesis
    proof (cases picked)
      case None
      show ?thesis
      proof (cases "cands = []")
        case True
        with Suc.prems(1) rc False p None q2 show ?thesis by (auto intro: failover_log_walk walk_log_quiet)
      next
        case nonempty: False
        with Suc.prems(1) rc False p None have "exhausted w app cd rq cands ctx1 s2 = Some (s9, resp)" by simp
        from failover_log_walk [OF walk_log_pre [OF q2 exhausted_log [OF this]]] ps same show ?thesis by blast
      qed
    next
      case (Some q)
      obtain i permit epoch where q: "q = (i, permit, epoch)" using prod_cases3 by blast
      have i: "i \<in> wl_idx ` set cands" "i \<notin> excluded ctx" using ps Some q by (simp_all add: picked_in_def)
      from Suc.prems(1) rc False p Some q obtain s3 ctx2 hop where
        a: "attempt w app cd rq cands first i permit epoch (exclude ctx1 i) s2 = Some (s3, ctx2, hop)"
        by (auto simp: bind_eq_Some_conv)
      note log = attempt_log_pre [OF q2 attempt_logs [OF a]]
      have c2: "active_restricts ctx2 = active_restricts ctx" "insert i (excluded ctx) \<subseteq> excluded ctx2"
        "fst ` set (excluded_reasons ctx2) \<subseteq> wl_idx ` set cands"
        using attempt_ctx_log [OF a] c1 ps by (auto simp: exclude_def)
      show ?thesis
      proof (cases hop)
        case (Return r)
        with Suc.prems(1) rc False p Some q a have "s9 = s3" "resp = r" by simp_all
        moreover obtain xs bs where "run_sent s3 = run_sent s @ xs" "run_billed s3 = run_billed s @ bs"
          "xs = [] \<or> (\<exists>x. xs = [x] \<and> sent_ok app rq (rq_pool rq) i x)" "bills rq i (Some r) bs"
          using log Return unfolding attempt_log_def by (auto simp: answer_of_def)
        ultimately show ?thesis
          unfolding failover_log_def using i
          by (intro exI [of _ xs] exI [of _ "[]"] exI [of _ bs]) (auto simp: sent_ok_def)
      next
        case Next
        with Suc.prems(1) rc False p Some q a have
          "failover_loop left w app cd rq cands order False ctx2 s3 = Some (s9, resp)" by simp
        from Suc.IH [OF this c2(3)] log Next show ?thesis
          by (intro failover_log_cons [OF _ i c2(1,2)]) (simp_all add: answer_of_def)
      qed
    qed
  qed
qed

end
