(* ===== verification/Engine_Request.thy ===== *)
theory Engine_Request
  imports Engine_Log Cell_Machine
begin

text \<open>
  A request from its arrival to the end of its body: \<open>forward\<close> and, when the answer is a stream,
  the life of the body, and the properties of the whole.
\<close>

section \<open>What routing sends on\<close>

lemma fire_gates_quiet: "fire_gates w hk app gates cands ctx pool s = Some (s1, outs) \<Longrightarrow> quiet s s1"
  by (induction gates arbitrary: s outs)
    (auto simp: bind_eq_Some_conv decide_policy_order_def Let_def split: if_splits dest!: quiet_step intro: quiet_trans)

lemma decide_quiet: "decide_policy_order w hk app resolved cands ctx pool s = Some (s1, out) \<Longrightarrow> quiet s s1"
  by (auto simp: decide_policy_order_def Let_def bind_eq_Some_conv split: if_splits dest!: quiet_step)

lemma route_log:
  assumes "route w hk app gc pool ctx cands s = Some (s1, r)"
  shows "quiet s s1 \<and> (case r of Inl resp \<Rightarrow> (\<exists>st k m. resp = GateRejected st k m)
        | Inr (ctx1, cands1, order) \<Rightarrow> routed_ok app pool ctx cands ctx1 cands1)"
proof -
  obtain s2 outs where f: "fire_gates w hk app (gate_chain gc pool) cands ctx pool s = Some (s2, outs)"
    using assms by (auto simp: route_def bind_eq_Some_conv)
  note q = fire_gates_quiet [OF f]
  show ?thesis
  proof (cases "reconcile (pool_members app pool) outs ctx cands")
    case (Inl resp)
    with assms f have "r = Inl resp" "s1 = s2" by (simp_all add: route_def)
    with q reconcile_refusal [OF Inl] show ?thesis by simp
  next
    case (Inr x)
    obtain ctx1 cands1 order where x: "x = (ctx1, cands1, order)" by (rule prod_cases3)
    have ro: "routed_ok app pool ctx cands ctx1 cands1" by (rule reconcile_routed [OF Inr [unfolded x]])
    show ?thesis
    proof (cases "order = None \<and> gc_policy gc pool \<noteq> None")
      case False
      with assms f Inr x have "r = Inr (ctx1, cands1, order)" "s1 = s2" by (auto simp: route_def split: option.splits)
      with q ro show ?thesis by simp
    next
      case True
      then obtain resolved where p: "gc_policy gc pool = Some resolved" "order = None" by auto
      with assms f Inr x obtain out where d: "decide_policy_order w hk app resolved cands1 ctx1 pool s2 = Some (s1, out)"
        and r: "r = apply_base (pool_members app pool) out ctx1 cands1"
        by (auto simp: route_def bind_eq_Some_conv)
      from quiet_trans [OF q decide_quiet [OF d]] r show ?thesis
        using apply_base_refusal apply_base_routed [OF ro] by (fastforce split: sum.split)
    qed
  qed
qed

text \<open>The candidates and the context \<open>forward\<close> routes with.\<close>

definition entry_ctx :: "'sem World \<Rightarrow> App \<Rightarrow> Request \<Rightarrow> u64 \<Rightarrow> 'sem Run \<Rightarrow> RequestCtx" where
  "entry_ctx w app rq rid s = ctx_new (snd (read_clock w s)) (fst (failover_limits app (rq_pool rq))) rid"

definition entry_cands :: "App \<Rightarrow> Hooks \<Rightarrow> Request \<Rightarrow> WeightedLane list \<Rightarrow> WeightedLane list" where
  "entry_cands app hk rq cands = retain_allowed app (rq_pool rq) (supporting hk app cands)"

lemma forward_cases:
  assumes "forward w app gc hk cd rq cands rid s = Some (s1, resp)"
  obtains (early) "quiet s s1" "\<And>b. resp \<noteq> Streamed b"
    | (routed) s2 ctx1 cands1 order where
        "route w hk app gc (rq_pool rq) (entry_ctx w app rq rid s) (entry_cands app hk rq cands) (fst (read_clock w s))
           = Some (s2, Inr (ctx1, cands1, order))"
        "failover_log app rq cands1 (Suc (snd (failover_limits app (rq_pool rq)))) ctx1 s s1 resp"
        "routed_ok app (rq_pool rq) (entry_ctx w app rq rid s) (entry_cands app hk rq cands) ctx1 cands1"
proof (cases "(supporting hk app cands = [] \<and> cands \<noteq> []) \<or> rewrite_pass hk gc rq \<noteq> None")
  case True
  with assms show thesis by (intro early) (auto simp: forward_def Let_def split: if_splits option.splits)
next
  case False
  then have kept: "\<not> (supporting hk app cands = [] \<and> cands \<noteq> [])" and rw: "rewrite_pass hk gc rq = None" by blast+
  obtain secs max_cap where fl: "failover_limits app (rq_pool rq) = (secs, max_cap)" by fastforce
  obtain s0 now where rc: "read_clock w s = (s0, now)" by fastforce
  have run: "do { (s2, routed) \<leftarrow> route w hk app gc (rq_pool rq) (entry_ctx w app rq rid s) (entry_cands app hk rq cands) s0;
             case routed of
               Inl resp \<Rightarrow> Some (s2, resp)
             | Inr (ctx1, cands1, order) \<Rightarrow>
                 failover_loop (Suc max_cap) w app cd rq cands1 order (rq_body_is_json rq) ctx1 s2 } = Some (s1, resp)"
    using assms fl rc unfolding forward_def if_not_P [OF kept] Let_def entry_ctx_def entry_cands_def
    by (simp add: rw del: failover_loop.simps)
  then obtain s2 r where ro: "route w hk app gc (rq_pool rq) (entry_ctx w app rq rid s) (entry_cands app hk rq cands) s0 = Some (s2, r)"
    by (auto simp: bind_eq_Some_conv)
  note rl = route_log [OF ro]
  have q: "quiet s s2" using quiet_trans [OF quiet_clock [OF rc]] rl by blast
  show thesis
  proof (cases r)
    case (Inl resp0)
    with run ro rl q show thesis by (intro early) auto
  next
    case (Inr x)
    obtain ctx1 cands1 order where x: "x = (ctx1, cands1, order)" by (rule prod_cases3)
    from run ro Inr x have fo: "failover_loop (Suc max_cap) w app cd rq cands1 order (rq_body_is_json rq) ctx1 s2 = Some (s1, resp)"
      by (simp del: failover_loop.simps)
    from rl Inr x have ok: "routed_ok app (rq_pool rq) (entry_ctx w app rq rid s) (entry_cands app hk rq cands) ctx1 cands1" by simp
    then have "excluded_reasons ctx1 = []" by (auto simp: routed_ok_def entry_ctx_def ctx_new_def)
    with failover_log_pre [OF q failover_loop_log [OF fo]] ro Inr x ok fl rc show thesis by (intro routed) simp_all
  qed
qed

section \<open>The verdicts of a request\<close>

text \<open>
  Every verdict that was given on the way to the failover loop, whatever was made of it: those of
  the gates, and that of the pool's base policy when the gates left no order and it was consulted.
\<close>

definition verdicts ::
  "'sem World \<Rightarrow> Hooks \<Rightarrow> App \<Rightarrow> GateConfig \<Rightarrow> string \<Rightarrow> RequestCtx \<Rightarrow> WeightedLane list \<Rightarrow> 'sem Run \<Rightarrow>
     PolicyOutcome list option" where
  "verdicts w hk app gc pool ctx cands s =
     do {
       (s1, outs) \<leftarrow> fire_gates w hk app (gate_chain gc pool) cands ctx pool s;
       case reconcile (pool_members app pool) outs ctx cands of
         Inl resp \<Rightarrow> Some outs
       | Inr (ctx1, cands1, order) \<Rightarrow>
           (case (order, gc_policy gc pool) of
              (None, Some resolved) \<Rightarrow>
                map_option (\<lambda>(s2, out). outs @ [out]) (decide_policy_order w hk app resolved cands1 ctx1 pool s1)
            | _ \<Rightarrow> Some outs)
     }"

definition restricts_of :: "PolicyOutcome list \<Rightarrow> RestrictConstraint list" where
  "restricts_of outs = List.map_filter restrict_of outs"

lemma apply_base_records:
  "apply_base members out ctx cands = Inr (ctx1, cands1, order) \<Longrightarrow>
   active_restricts ctx1 = active_restricts ctx @ restricts_of [out]"
  by (cases out) (auto simp: restricts_of_def List.map_filter_simps push_restrict_def Let_def split: if_splits)

lemma reconcile_records:
  "reconcile members outs ctx cands = Inr (ctx1, cands1, order) \<Longrightarrow>
   active_restricts ctx1 = active_restricts ctx @ restricts_of outs"
  by (auto simp: reconcile_def restrict_pass_enforce restricts_of_def split: option.splits sum.splits)

lemma restricts_of_append: "restricts_of (xs @ ys) = restricts_of xs @ restricts_of ys"
  by (simp add: restricts_of_def List.map_filter_def)

lemma route_records:
  assumes "route w hk app gc pool ctx cands s = Some (s1, Inr (ctx1, cands1, order))"
  shows "\<exists>vs. verdicts w hk app gc pool ctx cands s = Some vs
    \<and> active_restricts ctx1 = active_restricts ctx @ restricts_of vs"
proof -
  obtain s2 outs where f: "fire_gates w hk app (gate_chain gc pool) cands ctx pool s = Some (s2, outs)"
    using assms by (auto simp: route_def bind_eq_Some_conv)
  obtain ctx2 cands2 order2 where r: "reconcile (pool_members app pool) outs ctx cands = Inr (ctx2, cands2, order2)"
    using assms f by (cases "reconcile (pool_members app pool) outs ctx cands") (auto simp: route_def)
  note recorded = reconcile_records [OF r]
  show ?thesis
  proof (cases "order2 = None \<and> gc_policy gc pool \<noteq> None")
    case False
    with assms f r have "ctx1 = ctx2" by (auto simp: route_def split: option.splits)
    moreover have "verdicts w hk app gc pool ctx cands s = Some outs"
      using False f r by (auto simp: verdicts_def split: option.splits)
    ultimately show ?thesis using recorded by blast
  next
    case True
    then obtain resolved where p: "gc_policy gc pool = Some resolved" "order2 = None" by auto
    with assms f r obtain out where d: "decide_policy_order w hk app resolved cands2 ctx2 pool s2 = Some (s1, out)"
      and b: "apply_base (pool_members app pool) out ctx2 cands2 = Inr (ctx1, cands1, order)"
      by (auto simp: route_def bind_eq_Some_conv)
    have "verdicts w hk app gc pool ctx cands s = Some (outs @ [out])"
      using p f r d by (simp add: verdicts_def)
    with apply_base_records [OF b] recorded show ?thesis by (simp add: restricts_of_append)
  qed
qed

section \<open>Where a request may go\<close>

text \<open>
  The promise about one send: the lane is a candidate of the request's pool or a member of a
  fallback pool, its model is not blocklisted by the pool it is reached through, it satisfies
  every compliance restrict, and the key it carries is the one the pool's credentials rule gives.
\<close>

definition permitted :: "App \<Rightarrow> Request \<Rightarrow> WeightedLane list \<Rightarrow> RestrictConstraint list \<Rightarrow> Sent \<Rightarrow> bool" where
  "permitted app rq cands rs x \<longleftrightarrow>
     list_ex (\<lambda>wl. wl_idx wl = sn_lane x
         \<and> \<not> List.member (excluded_models app (sn_pool x)) (al_model (app_lanes app ! sn_lane x))
         \<and> list_all (\<lambda>r. on_empty r = Weighted \<or> eligible (pool_members app (sn_pool x)) r wl) rs)
       ((if sn_pool x = rq_pool rq then cands else [])
        @ (case map_of (app_fallback_pools app) (sn_pool x) of None \<Rightarrow> [] | Some members \<Rightarrow> members))
   \<and> sn_key x = egress_key (pool_upstream_creds app (sn_pool x)) (rq_caller_token rq) (al_api_key (app_lanes app ! sn_lane x))"

lemma in_retain_allowed:
  "wl \<in> set (retain_allowed app pool cands) \<longleftrightarrow>
   wl \<in> set cands \<and> \<not> List.member (excluded_models app pool) (al_model (app_lanes app ! wl_idx wl))"
  by (auto simp: retain_allowed_def list_ex_iff)

lemma permitted_primary:
  assumes "routed_ok app (rq_pool rq) ctx (entry_cands app hk rq cands) ctx1 cands1" and "active_restricts ctx = []"
    and "sent_ok app rq (rq_pool rq) (sn_lane x) x" and "sn_lane x \<in> wl_idx ` set cands1"
  shows "permitted app rq cands (active_restricts ctx1) x"
proof -
  obtain P rs where P: "cands1 = filter P (entry_cands app hk rq cands)"
    and rs: "ctx1 = ctx\<lparr>active_restricts := active_restricts ctx @ rs\<rparr>"
    and el: "\<And>r. r \<in> set rs \<Longrightarrow> on_empty r \<noteq> Weighted \<Longrightarrow> list_all (eligible (pool_members app (rq_pool rq)) r) cands1"
    using assms(1) unfolding routed_ok_def by blast
  obtain wl where wl: "wl \<in> set cands1" "wl_idx wl = sn_lane x" using assms(4) by auto
  then have "wl \<in> set (entry_cands app hk rq cands)" using P by simp
  then have "wl \<in> set cands" "\<not> List.member (excluded_models app (rq_pool rq)) (al_model (app_lanes app ! sn_lane x))"
    using wl(2) by (auto simp: entry_cands_def in_retain_allowed supporting_def)
  moreover have "list_all (\<lambda>r. on_empty r = Weighted \<or> eligible (pool_members app (rq_pool rq)) r wl) (active_restricts ctx1)"
    using el wl(1) rs assms(2) by (auto simp: list_all_iff)
  ultimately show ?thesis
    using assms(3) wl(2) by (auto simp: permitted_def sent_ok_def list_ex_iff)
qed

lemma permitted_fallback:
  assumes "sent_ok app rq (sn_pool x) (sn_lane x) x" and "fallback_allows app ctx1 (sn_pool x) (sn_lane x)"
  shows "permitted app rq cands (active_restricts ctx1) x"
proof -
  obtain members out where m: "map_of (app_fallback_pools app) (sn_pool x) = Some members"
    and e: "enforce_restricts ctx1 (pool_members app) (sn_pool x) members = Inr out"
    and l: "sn_lane x \<in> wl_idx ` set (retain_allowed app (sn_pool x) out)"
    using assms(2) by (auto simp: fallback_allows_def split: option.splits sum.splits)
  then obtain wl where wl: "wl \<in> set out" "wl_idx wl = sn_lane x"
    "\<not> List.member (excluded_models app (sn_pool x)) (al_model (app_lanes app ! sn_lane x))"
    by (auto simp: in_retain_allowed)
  have "enforce_loop (pool_members app (sn_pool x)) (active_restricts ctx1) members = Inr out"
    using e by (simp add: enforce_restricts_def)
  from enforce_loop_Ok [OF this] enforce_loop_filter [OF this] wl(1)
  have "wl \<in> set members" "list_all (\<lambda>r. on_empty r = Weighted \<or> eligible (pool_members app (sn_pool x)) r wl) (active_restricts ctx1)"
    by (auto simp: list_all_iff)
  with assms(1) m wl show ?thesis by (auto simp: permitted_def sent_ok_def list_ex_iff)
qed

section \<open>A body bills once\<close>

definition body_log :: "'sem Run \<Rightarrow> FirstByteBody \<Rightarrow> 'sem Run \<Rightarrow> FirstByteBody \<Rightarrow> bool" where
  "body_log s b s1 b1 \<longleftrightarrow>
     run_sent s1 = run_sent s \<and> fb_lane b1 = fb_lane b \<and> (fb_sink b1 \<longrightarrow> fb_sink b)
   \<and> (run_billed s1 = run_billed s
        \<or> (\<exists>u. run_billed s1 = run_billed s @ [(fb_lane b, u)]) \<and> fb_sink b \<and> \<not> fb_sink b1)"

lemma body_log_refl: "body_log s b s b"
  by (simp add: body_log_def)

lemma body_log_trans: "body_log s b s1 b1 \<Longrightarrow> body_log s1 b1 s2 b2 \<Longrightarrow> body_log s b s2 b2"
  unfolding body_log_def by auto

lemma body_log_quiet: "quiet s s1 \<Longrightarrow> fb_lane b1 = fb_lane b \<Longrightarrow> fb_sink b1 = fb_sink b \<Longrightarrow> body_log s b s1 b1"
  by (simp add: body_log_def quiet_def)

lemma body_quiet:
  "drop_body_permit w b s = Some (s1, b1) \<Longrightarrow> quiet s s1 \<and> fb_lane b1 = fb_lane b \<and> fb_sink b1 = fb_sink b"
  "body_refund w b s = Some (s1, b1) \<Longrightarrow> quiet s s1 \<and> fb_lane b1 = fb_lane b \<and> fb_sink b1 = fb_sink b"
  "body_failure w b s = Some s1 \<Longrightarrow> quiet s s1"
  by (auto simp: drop_body_permit_def body_refund_def body_failure_def bind_eq_Some_conv split: option.splits if_splits
      dest: quiet_ops quiet_act)

lemma on_error_log: "on_error ops w b s = Some (s1, b1, p) \<Longrightarrow> body_log s b s1 b1"
  by (auto simp: on_error_def Let_def bind_eq_Some_conv split: if_splits dest!: body_quiet
      intro!: body_log_quiet intro: quiet_trans)

lemma on_end_log:
  assumes "on_end ops w b s = Some (s1, b1, p)"
  shows "body_log s b s1 b1"
proof -
  let ?aborted = "translate_aborted ops b"
  from assms obtain s2 where f: "(if fb_is_sse b \<and> fb_first_byte_sent b \<and> (terminal_error ops b \<or> ?aborted)
      then body_failure w b s else Some s) = Some s2"
    by (auto simp: on_end_def Let_def bind_eq_Some_conv)
  have q: "quiet s s2" using f body_quiet(3) by (auto split: if_splits)
  from assms f obtain s3 b2 where d: "drop_body_permit w (b\<lparr>fb_finished := True\<rparr>) s2 = Some (s3, b2)"
    and r: "s1 = (if terminal_error ops b2 \<or> ?aborted then s3 else bill (fb_sink b2) (fb_lane b2) (end_usage ops b2) s3)"
      "b1 = b2\<lparr>fb_ended := True, fb_sink := False\<rparr>"
    by (auto simp: on_end_def Let_def bind_eq_Some_conv)
  from body_quiet(1) [OF d] q have "quiet s s3" "fb_lane b2 = fb_lane b" "fb_sink b2 = fb_sink b"
    by (auto intro: quiet_trans)
  then show ?thesis by (auto simp: r body_log_def bill_def quiet_def)
qed

lemma on_chunk_same: "on_chunk ops cap b c = (b1, r) \<Longrightarrow> fb_lane b1 = fb_lane b \<and> fb_sink b1 = fb_sink b"
  by (auto simp: on_chunk_def frame_out_def keep_usage_copy_def Let_def split: option.splits if_splits)

lemma poll_inner_log: "poll_inner ops w inner b s = Some (s1, b1, rest, p) \<Longrightarrow> body_log s b s1 b1"
proof (induction ops w inner b s rule: poll_inner.induct)
  case (2 ops w c rest' b s)
  obtain b2 r where oc: "on_chunk ops (bo_cap ops (run_tick s)) b c = (b2, r)" by fastforce
  have l: "body_log s b s b2" using on_chunk_same [OF oc] by (intro body_log_quiet) simp_all
  show ?case
  proof (cases r)
    case None
    with 2 oc have "body_log s b2 s1 b1" by auto
    from body_log_trans [OF l this] show ?thesis .
  next
    case (Some out)
    with 2 oc l show ?thesis by auto
  qed
qed (auto intro: body_log_refl on_error_log on_end_log)

lemma poll_next_log: "poll_next ops w inner b s = Some (s1, b1, rest, p) \<Longrightarrow> body_log s b s1 b1"
  by (auto simp: poll_next_def body_log_refl split: if_splits dest: poll_inner_log)

lemma poll_times_log: "poll_times ops w left batches b s = Some (s1, b1, ps) \<Longrightarrow> body_log s b s1 b1"
proof (induction ops w left batches b s arbitrary: ps rule: poll_times.induct)
  case (2 ops w left ready later b s)
  from 2(2) obtain s2 b2 left2 p ps1 where n: "poll_next ops w (left @ ready) b s = Some (s2, b2, left2, p)"
    and t: "poll_times ops w left2 later b2 s2 = Some (s1, b1, ps1)"
    by (auto simp: bind_eq_Some_conv)
  from body_log_trans [OF poll_next_log [OF n] 2(1) [OF n refl refl refl t]] show ?case .
qed (auto intro: body_log_refl)

lemma body_drop_log:
  assumes "body_drop ops w b s = Some (s1, b1)"
  shows "run_sent s1 = run_sent s \<and> (run_billed s1 = run_billed s \<or> (\<exists>u. run_billed s1 = run_billed s @ [(fb_lane b, u)]) \<and> fb_sink b)"
proof -
  from assms obtain s2 b2 where r: "(if \<not> fb_ended b then body_refund w b s else Some (s, b)) = Some (s2, b2)"
    and d: "drop_body_permit w (b2\<lparr>fb_sink := False\<rparr>) (drop_bill ops b2 s2) = Some (s1, b1)"
    by (auto simp: body_drop_def Let_def bind_eq_Some_conv)
  have "quiet s s2" "fb_lane b2 = fb_lane b" "fb_sink b2 = fb_sink b"
    using r by (auto split: if_splits dest: body_quiet(2))
  moreover have "quiet (drop_bill ops b2 s2) s1" using body_quiet(1) [OF d] by blast
  ultimately show ?thesis by (auto simp: drop_bill_def Let_def bill_def quiet_def split: if_splits)
qed

lemma body_life_log:
  assumes "body_life ops w batches b s = Some (s1, b1, ps)"
  shows "run_sent s1 = run_sent s \<and> (run_billed s1 = run_billed s \<or> (\<exists>u. run_billed s1 = run_billed s @ [(fb_lane b, u)]) \<and> fb_sink b)"
proof -
  from assms obtain s2 b2 where p: "poll_times ops w [] batches b s = Some (s2, b2, ps)"
    and d: "body_drop ops w b2 s2 = Some (s1, b1)"
    by (auto simp: body_life_def bind_eq_Some_conv)
  from poll_times_log [OF p] body_drop_log [OF d] show ?thesis unfolding body_log_def by auto
qed

section \<open>The whole request\<close>

definition request_life ::
  "'sem World \<Rightarrow> App \<Rightarrow> GateConfig \<Rightarrow> Hooks \<Rightarrow> Codec \<Rightarrow> BodyOps \<Rightarrow> Request \<Rightarrow> WeightedLane list \<Rightarrow> u64 \<Rightarrow>
     InnerPoll list list \<Rightarrow> 'sem Run \<Rightarrow> ('sem Run \<times> Response) option" where
  "request_life w app gc hk cd ops rq cands rid batches s =
     do {
       (s1, resp) \<leftarrow> forward w app gc hk cd rq cands rid s;
       case resp of
         Streamed b \<Rightarrow> do { (s2, b1, polls) \<leftarrow> body_life ops w batches b s1; Some (s2, resp) }
       | other \<Rightarrow> Some (s1, resp)
     }"

lemma body_own_released:
  "fb_permit b = None \<Longrightarrow> body_own b own = charging (fb_lane b) (of_bool (fb_budget_spent b)) own"
  by (simp add: body_own_def)

lemma request_life_runs:
  assumes lw: "legal_world h0 w" and app: "app_ok h0 app" and c: "cands_ok h0 cands" and g: "good w h0 own s"
  shows "runs (request_life w app gc hk cd ops rq cands rid batches s)
    (\<lambda>(s1, resp). \<exists>l n. n \<le> 1 \<and> good w h0 (charging l n own) s1)"
proof -
  obtain s1 resp where f: "forward w app gc hk cd rq cands rid s = Some (s1, resp)" and r: "rests w h0 own resp s1"
    using forward_runs [OF assms, of gc hk cd rq rid] by (auto simp: runs_def)
  show ?thesis
  proof (cases "\<exists>b. resp = Streamed b")
    case True
    then obtain b where b: "resp = Streamed b" by blast
    with r have p: "polled w h0 own b s1" by (simp add: rests_def)
    obtain s2 b1 ps where l: "body_life ops w batches b s1 = Some (s2, b1, ps)" and n: "fb_permit b1 = None"
      and g2: "good w h0 (body_own b1 own) s2"
      using body_life_runs [OF lw p, of ops batches] by (auto simp: runs_def)
    have "good w h0 (charging (fb_lane b1) (of_bool (fb_budget_spent b1)) own) s2"
      using g2 by (simp add: body_own_released [OF n])
    moreover have "of_bool (fb_budget_spent b1) \<le> (1::nat)" by simp
    ultimately show ?thesis using f b l by (auto simp: request_life_def)
  next
    case False
    have "\<exists>l n. n \<le> 1 \<and> good w h0 (charging l n own) s1"
    proof (cases "good w h0 own s1")
      case True
      then have "good w h0 (charging 0 0 own) s1" by simp
      then show ?thesis by blast
    next
      case ng: False
      with r False have "\<exists>l. good w h0 (charging l 1 own) s1" by (cases resp) (auto simp: rests_def)
      then show ?thesis by (metis order_refl)
    qed
    with f False show ?thesis by (cases resp) (auto simp: request_life_def)
  qed
qed

section \<open>Properties\<close>

text \<open>A world with no other request in it, and a gateway with one lane and one pool, to run examples in.\<close>

definition lonely_world :: "(nat \<Rightarrow> UpstreamReply) \<Rightarrow> nat World" where
  "lonely_world replies =
     \<lparr>w_sem = counting_sem, w_clock = (\<lambda>t k. 5), w_now_ns = (\<lambda>t. 5), w_jitter = (\<lambda>t. \<lparr>time_seed = 1, cell_id = 0\<rparr>),
      w_peers = (\<lambda>t s. s), w_reply = replies, w_wake = (\<lambda>t. Deadline), w_latency = (\<lambda>t. None), w_blend = (\<lambda>a b. a)\<rparr>"

definition sample_app :: App where
  "sample_app =
     \<lparr>app_lanes = [\<lparr>al_model = ''m'', al_protocol = ''openai'', al_api_key = ''k'', al_error_map = (\<lambda>x. None),
                    al_context_max = None, al_attempt_timeout_ms = None, al_reasoning = False\<rparr>],
      app_pool_runtime = (\<lambda>p. None), app_failover_cfg = None, app_upstream_credentials = Own,
      app_on_exhausted = (\<lambda>p. None), app_fallback_pools = []\<rparr>"

definition sample_gates :: GateConfig where
  "sample_gates = \<lparr>gc_global_gates = [], gc_pool_gates = (\<lambda>p. []), gc_policy = (\<lambda>p. None), gc_rewrites = [], gc_pool_rewrites = (\<lambda>p. [])\<rparr>"

definition sample_hooks :: Hooks where
  "sample_hooks = \<lparr>hk_decide = (\<lambda>t n cs. None), hk_latency_of_bits = (\<lambda>b. 0), hk_cost_per_mtok = (\<lambda>p l. None),
     hk_rate_headroom = (\<lambda>t. None), hk_supports = (\<lambda>p. True), hk_dom_parses = True, hk_serializes = True, hk_applies = (\<lambda>rw. True)\<rparr>"

definition sample_codec :: Codec where
  "sample_codec = \<lparr>cd_head_pristine = (\<lambda>i. True), cd_hop_parses = (\<lambda>f. True), cd_translate = (\<lambda>i r. None),
     cd_upstream_path = (\<lambda>i st. Some ''/v1''), cd_http_date = (\<lambda>x. None),
     cd_extract_error = (\<lambda>p st b. \<lparr>http_status = st, provider_code = None, structured_type = None, retry_after_secs = None\<rparr>), cd_error_message = (\<lambda>b. None),
     cd_auth_failure = (\<lambda>p. (401, ''authentication_error'', [])), cd_streaming_types = [], cd_is_json = (\<lambda>b. True),
     cd_decodes = (\<lambda>i b. True), cd_usage = (\<lambda>i b. None), cd_render = (\<lambda>i b. b), cd_wrap_stream = (\<lambda>i b. None),
     cd_ingress_known = (\<lambda>p. True), cd_ingress_handler = (\<lambda>p. True), cd_translates = (\<lambda>a b. False)\<rparr>"

definition sample_request :: Request where
  "sample_request = \<lparr>rq_pool = ''pool'', rq_ingress = ''openai'', rq_caller_token = None, rq_affinity = Some 0,
     rq_wants_stream = False, rq_json_array = False, rq_body_is_json = True, rq_once_stream = False,
     rq_body_parses = True, rq_content_type_json = True, rq_sink = True\<rparr>"

definition sample_body_ops :: BodyOps where
  "sample_body_ops = \<lparr>bo_feed = (\<lambda>fed c. c), bo_finish = (\<lambda>fed. []), bo_aborted = (\<lambda>fed. False),
     bo_terminal_error = (\<lambda>fed f. False), bo_usage = (\<lambda>fed f. None), bo_frame = (\<lambda>fed c. c),
     bo_frame_close = (\<lambda>fed a. []), bo_frame_error = (\<lambda>fed. []), bo_mid_stream_error = [], bo_taps_nonstream = False,
     bo_extract_usage = (\<lambda>b. None), bo_cap = (\<lambda>t. 0)\<rparr>"

definition sample_run :: "nat Run" where
  "sample_run = \<lparr>run_store = sample_store, run_others = (\<lambda>l. 0, \<lambda>l. 0), run_tick = 0, run_sent = [], run_billed = []\<rparr>"

lemma lonely_legal: "legal_world sample_store (lonely_world replies)"
  by (simp add: legal_world_def lonely_world_def counting_sem_laws sample_store_wf legal_peer_def)

lemma sample_app_ok: "app_ok sample_store sample_app"
  by (simp add: app_ok_def sample_app_def resolve_breaker_cfg_def sample_simps default_BreakerCfg_def cooldown_cfg_ok_def
      u64_max_def)

lemma sample_cands_ok: "cands_ok sample_store sample_cands"
  by (simp add: cands_ok_def sample_cands_def sample_simps)

lemma sample_balanced:
  "in_balance counting_sem sample_store (\<lambda>l. 0, \<lambda>l. 0) (run_store sample_run, run_others sample_run)"
  by (simp add: in_balance_def sample_run_def sample_store_wf)

lemma lonely_sem: "w_sem (lonely_world replies) = counting_sem"
  by (simp add: lonely_world_def)

text \<open>
  C6: every request is answered. Whatever the other requests do within the rules, whatever the
  upstreams, the hooks and the clock do, the gates, the failover loop, the queue and the chain of
  fallback pools come to an end with a response: no loop runs on and no index is out of range. This
  is the release build, where a \<open>debug_assert!\<close> is compiled out (see \<open>Engine_Walk\<close>).
\<close>

theorem every_request_is_answered:
  assumes "legal_world h0 w" and "app_ok h0 app" and "cands_ok h0 cands"
    and "in_balance (w_sem w) h0 own (run_store s, run_others s)"
  shows "\<exists>s1 resp. forward w app gc hk cd rq cands rid s = Some (s1, resp)"
proof -
  have "good w h0 own s" using assms(4) by (simp add: good_def)
  from forward_runs [OF assms(1-3) this, of gc hk cd rq rid] show ?thesis by (auto simp: runs_def)
qed

theorem every_request_is_answered_witness:
  "\<exists>s1 resp. forward (lonely_world (\<lambda>t. Elapsed)) sample_app sample_gates sample_hooks sample_codec sample_request sample_cands 1
     sample_run = Some (s1, resp)"
proof -
  have "in_balance (w_sem (lonely_world (\<lambda>t. Elapsed))) sample_store (\<lambda>l. 0, \<lambda>l. 0) (run_store sample_run, run_others sample_run)"
    unfolding lonely_sem by (rule sample_balanced)
  from every_request_is_answered [OF lonely_legal sample_app_ok sample_cands_ok this] show ?thesis .
qed

text \<open>
  C4: a request closes its books. When its response is out and a streamed body has lived and died,
  in any way and at any point, the request holds no permit of any lane and has been charged at
  most one unit of one lane's budget; every permit and every refunded unit is back, and the
  accounts of all other requests are whole.
\<close>

theorem request_closes_its_books:
  assumes "legal_world h0 w" and "app_ok h0 app" and "cands_ok h0 cands"
    and "in_balance (w_sem w) h0 (charged, held) (run_store s, run_others s)"
  shows "\<exists>s1 resp lane n. request_life w app gc hk cd ops rq cands rid batches s = Some (s1, resp) \<and> n \<le> 1
    \<and> in_balance (w_sem w) h0 (charged(lane := charged lane + n), held) (run_store s1, run_others s1)"
proof -
  have "good w h0 (charged, held) s" using assms(4) by (simp add: good_def)
  from request_life_runs [OF assms(1-3) this, of gc hk cd ops rq rid batches] show ?thesis
    by (auto simp: runs_def good_def charging_def)
qed

theorem request_closes_its_books_witness:
  "\<exists>s1 resp lane n. request_life (lonely_world (\<lambda>t. Elapsed)) sample_app sample_gates sample_hooks sample_codec sample_body_ops
       sample_request sample_cands 1 [[Chunk ''a''], [Finished]] sample_run = Some (s1, resp) \<and> n \<le> 1
     \<and> in_balance counting_sem sample_store ((\<lambda>l. 0)(lane := 0 + n), \<lambda>l. 0) (run_store s1, run_others s1)"
proof -
  have "in_balance (w_sem (lonely_world (\<lambda>t. Elapsed))) sample_store (\<lambda>l. 0, \<lambda>l. 0) (run_store sample_run, run_others sample_run)"
    unfolding lonely_sem by (rule sample_balanced)
  from request_closes_its_books [OF lonely_legal sample_app_ok sample_cands_ok this] show ?thesis
    unfolding lonely_sem .
qed

text \<open>
  C5: a request stays within its bounds on every hop. All that it sends goes to a lane of its pool or
  of a fallback pool, never to a model that pool blocklists, never to a lane that a fail-closed
  compliance restrict in a verdict of the gates or of the base policy rules out (the restricts are
  read off the verdicts themselves, whatever the engine kept of them), and always with the key that
  the pool's credentials rule gives; the failover loop makes at most one more attempt than the configured hops,
  each at a different lane. Nothing is sent when routing refuses the request.
\<close>

theorem request_stays_in_bounds:
  assumes "forward w app gc hk cd rq cands rid s = Some (s1, resp)"
  shows "run_sent s1 = run_sent s \<or>
    (\<exists>s2 ctx1 cands1 order vs ys zs.
       route w hk app gc (rq_pool rq) (entry_ctx w app rq rid s) (entry_cands app hk rq cands) (fst (read_clock w s))
         = Some (s2, Inr (ctx1, cands1, order))
     \<and> verdicts w hk app gc (rq_pool rq) (entry_ctx w app rq rid s) (entry_cands app hk rq cands) (fst (read_clock w s))
         = Some vs
     \<and> run_sent s1 = run_sent s @ ys @ zs
     \<and> length ys \<le> Suc (snd (failover_limits app (rq_pool rq))) \<and> distinct (map sn_lane ys)
     \<and> list_all (\<lambda>y. sn_pool y = rq_pool rq) ys
     \<and> list_all (permitted app rq cands (restricts_of vs)) (ys @ zs))"
  using assms
proof (cases rule: forward_cases)
  case early
  then show ?thesis by (simp add: quiet_def)
next
  case (routed s2 ctx1 cands1 order)
  have none: "active_restricts (entry_ctx w app rq rid s) = []" by (simp add: entry_ctx_def ctx_new_def)
  obtain ys zs where sent: "run_sent s1 = run_sent s @ ys @ zs" and n: "length ys \<le> Suc (snd (failover_limits app (rq_pool rq)))"
    and d: "distinct (map sn_lane ys)"
    and y: "\<forall>y \<in> set ys. sent_ok app rq (rq_pool rq) (sn_lane y) y \<and> sn_lane y \<in> wl_idx ` set cands1 - excluded ctx1"
    and z: "\<forall>z \<in> set zs. sent_ok app rq (sn_pool z) (sn_lane z) z
             \<and> reachable_lane app ctx1 (rq_pool rq) cands1 (sn_pool z) (sn_lane z)"
    using routed(2) unfolding failover_log_def by blast
  have "permitted app rq cands (active_restricts ctx1) x" if "x \<in> set ys" for x
    using y that by (intro permitted_primary [OF routed(3) none]) auto
  moreover have "permitted app rq cands (active_restricts ctx1) x" if "x \<in> set zs" for x
    using z that permitted_fallback permitted_primary [OF routed(3) none] unfolding reachable_lane_def by metis
  moreover have "sn_pool x = rq_pool rq" if "x \<in> set ys" for x using y that by (simp add: sent_ok_def)
  ultimately have all: "list_all (\<lambda>y. sn_pool y = rq_pool rq) ys \<and> list_all (permitted app rq cands (active_restricts ctx1)) (ys @ zs)"
    by (auto simp: list_all_iff)
  obtain vs where vs: "verdicts w hk app gc (rq_pool rq) (entry_ctx w app rq rid s) (entry_cands app hk rq cands)
      (fst (read_clock w s)) = Some vs" and "active_restricts ctx1 = restricts_of vs"
    using route_records [OF routed(1)] none by auto
  with all have "list_all (\<lambda>y. sn_pool y = rq_pool rq) ys \<and> list_all (permitted app rq cands (restricts_of vs)) (ys @ zs)" by simp
  with routed(1) vs sent n d show ?thesis by blast
qed

text \<open>A run that sends: the session sticks to the lane, and the caller hangs up on it.\<close>

lemma hangup_sends:
  "map_option (\<lambda>(s1, resp). map sn_lane (run_sent s1))
      (forward (lonely_world (\<lambda>t. Hangup)) sample_app sample_gates sample_hooks sample_codec sample_request sample_cands 1
         sample_run) = Some [0]"
  by (simp add: forward_def supporting_def rewrite_pass_def failover_limits_def pool_failover_def read_clock_def
      interleave_def retain_allowed_def excluded_models_def route_def gate_chain_def reconcile_def
      sample_app_def sample_gates_def sample_hooks_def sample_codec_def sample_request_def sample_cands_def sample_run_def
      lonely_world_def ctx_new_def expired_def saturating_add_def u64_max_def DEFAULT_FAILOVER_DEADLINE_SECS_def DEFAULT_FAILOVER_CAP_def
      pick_step_def step_def pick_among_def try_admit_def admit_gate_def admit_commit_def admit_probe_def try_acquire_def counting_sem_def
        sample_simps get_lane_def cell_of_def lane_cells_def inherited_cell_def cell_new_def breaker_verdict_def
        cell_acquire_breaker_def put_lane_def put_cell_def MAX_PERMITS_def Let_def
      attempt_def hop_payload_error_def crosses_def exclude_def drop_in_def act_def drop_permit_def)

theorem request_stays_in_bounds_witness:
  "\<exists>s1 resp. forward (lonely_world (\<lambda>t. Hangup)) sample_app sample_gates sample_hooks sample_codec sample_request sample_cands 1
     sample_run = Some (s1, resp) \<and> map sn_lane (run_sent s1) = [0]
   \<and> (run_sent s1 = run_sent sample_run \<or>
      (\<exists>s2 ctx1 cands1 order vs ys zs.
         route (lonely_world (\<lambda>t. Hangup)) sample_hooks sample_app sample_gates (rq_pool sample_request)
             (entry_ctx (lonely_world (\<lambda>t. Hangup)) sample_app sample_request 1 sample_run)
             (entry_cands sample_app sample_hooks sample_request sample_cands)
             (fst (read_clock (lonely_world (\<lambda>t. Hangup)) sample_run))
           = Some (s2, Inr (ctx1, cands1, order))
       \<and> verdicts (lonely_world (\<lambda>t. Hangup)) sample_hooks sample_app sample_gates (rq_pool sample_request)
             (entry_ctx (lonely_world (\<lambda>t. Hangup)) sample_app sample_request 1 sample_run)
             (entry_cands sample_app sample_hooks sample_request sample_cands)
             (fst (read_clock (lonely_world (\<lambda>t. Hangup)) sample_run))
           = Some vs
       \<and> run_sent s1 = run_sent sample_run @ ys @ zs
       \<and> length ys \<le> Suc (snd (failover_limits sample_app (rq_pool sample_request))) \<and> distinct (map sn_lane ys)
       \<and> list_all (\<lambda>y. sn_pool y = rq_pool sample_request) ys
       \<and> list_all (permitted sample_app sample_request sample_cands (restricts_of vs)) (ys @ zs)))"
proof -
  have lane: "map_option (\<lambda>(s1, resp). map sn_lane (run_sent s1))
      (forward (lonely_world (\<lambda>t. Hangup)) sample_app sample_gates sample_hooks sample_codec sample_request sample_cands 1
         sample_run) = Some [0]"
    by (rule hangup_sends)
  then obtain s1 resp where f: "forward (lonely_world (\<lambda>t. Hangup)) sample_app sample_gates sample_hooks sample_codec
      sample_request sample_cands 1 sample_run = Some (s1, resp)" and l: "map sn_lane (run_sent s1) = [0]"
    by auto
  show ?thesis
    by (rule exI [of _ s1], rule exI [of _ resp]) (intro conjI f l request_stays_in_bounds [OF f])
qed

text \<open>
  C9: no hook, whatever it replies, can make the gateway say more than a hook may. What the decision
  of a gate or policy comes to, its chain of fallback hooks and its terminal \<open>on_error\<close> included,
  is either no rejection by a hook or a client error with a short printable message that is safe to
  log; an order it gives names only lanes that were shown, each once. A rewrite hook's rejection,
  read from whatever JSON the hook replied, is such a client error too: the only other refusal of
  the rewrite pass is the gateway's own. Sanitizing a message again changes nothing.
\<close>

theorem hook_replies_are_contained:
  assumes "distinct (map wl_idx cands)"
    and "decide_policy_order w hk app resolved cands ctx pool s = Some (s1, out)"
  shows "well_formed_outcome (wl_idx ` set (fill_candidates ctx cands)) out
    \<and> pred_option (\<lambda>r. r = rewrite_failed \<or> client_rejection r) (rewrite_pass hk gc rq)
    \<and> sanitize_reject_message (sanitize_reject_message raw) = sanitize_reject_message raw"
  using decide_policy_order_well_formed [OF assms(2,1)] rewrite_pass_clean [of hk gc rq]
    sanitize_of_clean [OF sanitize_clean, of raw]
  by (auto simp: pred_option_def)

text \<open>A hook that rejects with the status of a success and a message that hides a control character.\<close>

definition hostile_hooks :: Hooks where
  "hostile_hooks = sample_hooks\<lparr>hk_decide := (\<lambda>t n cs. Some (RejectDecision 200 [27, 72, 105]))\<rparr>"

definition hostile_gates :: GateConfig where
  "hostile_gates = sample_gates\<lparr>gc_rewrites :=
     [None, Some \<lparr>hr_order = None, hr_abstain = False,
                  hr_reject = Some (JObject [(''status'', JInteger 70000), (''message'', JText [8238, 78, 111])]),
                  hr_restrict = None, hr_rewrite = None\<rparr>]\<rparr>"

definition hostile_policy :: ResolvedPolicy where
  "hostile_policy = \<lparr>rp_policy = External ''h'', rp_on_error = Weighted, rp_on_error_chain = [], rp_on_empty = Weighted\<rparr>"

theorem hook_replies_are_contained_witness:
  "\<exists>s1 out. decide_policy_order (lonely_world (\<lambda>t. Hangup)) hostile_hooks sample_app hostile_policy sample_cands
       (entry_ctx (lonely_world (\<lambda>t. Hangup)) sample_app sample_request 1 sample_run) ''p'' sample_run = Some (s1, out)
     \<and> out = RejectRequest 403 [72, 105] ''h''
     \<and> rewrite_pass hostile_hooks hostile_gates sample_request = Some (403, [78, 111])
     \<and> well_formed_outcome (wl_idx ` set (fill_candidates
          (entry_ctx (lonely_world (\<lambda>t. Hangup)) sample_app sample_request 1 sample_run) sample_cands)) out
     \<and> pred_option (\<lambda>r. r = rewrite_failed \<or> client_rejection r) (rewrite_pass hostile_hooks hostile_gates sample_request)
     \<and> sanitize_reject_message (sanitize_reject_message [27]) = sanitize_reject_message [27]"
proof -
  let ?ctx = "entry_ctx (lonely_world (\<lambda>t. Hangup)) sample_app sample_request 1 sample_run"
  have d: "map_option snd (decide_policy_order (lonely_world (\<lambda>t. Hangup)) hostile_hooks sample_app hostile_policy sample_cands
      ?ctx ''p'' sample_run) = Some (RejectRequest 403 [72, 105] ''h'')"
    by (simp add: decide_policy_order_def fill_candidates_def entry_ctx_def ctx_new_def step_def lonely_world_def hostile_hooks_def
        sample_hooks_def hostile_policy_def sample_cands_def sample_run_def sample_app_def sample_simps project_candidates_def
        project_candidate_def lane_latency_ms_def get_lane_def available_permits_def lane_budget_remaining_def counting_sem_def
        map_decision_def clamp_reject_status_def REJECT_STATUS_DEFAULT_def sanitize_reject_message_def is_control_def
        is_invisible_def is_whitespace_def REJECT_MESSAGE_MAX_CHARS_def read_clock_def interleave_def failover_limits_def
        pool_failover_def pool_members_def Let_def)
  have r: "rewrite_pass hostile_hooks hostile_gates sample_request = Some (403, [78, 111])"
    by (simp add: rewrite_pass_def hostile_hooks_def hostile_gates_def sample_hooks_def sample_gates_def sample_request_def
        transform_def transform_outcome_def parse_reject_detail_def json_get_def as_i64_def as_str_def u16_try_from_def
        clamp_reject_status_def REJECT_STATUS_DEFAULT_def sanitize_reject_message_def is_control_def
        is_invisible_def is_whitespace_def REJECT_MESSAGE_MAX_CHARS_def Let_def)
  from d obtain s1 where f: "decide_policy_order (lonely_world (\<lambda>t. Hangup)) hostile_hooks sample_app hostile_policy sample_cands
      ?ctx ''p'' sample_run = Some (s1, RejectRequest 403 [72, 105] ''h'')" by auto
  have "distinct (map wl_idx sample_cands)" by (simp add: sample_cands_def)
  from hook_replies_are_contained [OF this f, of hostile_gates sample_request "[27]"] f r show ?thesis by blast
qed

text \<open>
  C7: a request is billed at most once, and never when it has no usage to report to, over every
  failover hop, the exhaustion path, and the whole life of a streamed body.
\<close>

theorem request_is_billed_once:
  assumes "request_life w app gc hk cd ops rq cands rid batches s = Some (s1, resp)"
  shows "\<exists>added. run_billed s1 = run_billed s @ added \<and> length added \<le> of_bool (rq_sink rq)"
proof -
  obtain s2 where f: "forward w app gc hk cd rq cands rid s = Some (s2, resp)"
    using assms unfolding request_life_def bind_eq_Some_conv
    by (fastforce simp: bind_eq_Some_conv split: Response.splits)
  have "\<exists>bs i. run_billed s2 = run_billed s @ bs \<and> bills rq i (Some resp) bs"
    using f
  proof (cases rule: forward_cases)
    case early
    then show ?thesis by (auto simp: quiet_def intro!: exI [of _ "[]"])
  next
    case (routed s3 ctx1 cands1 order)
    from routed(2) show ?thesis unfolding failover_log_def by blast
  qed
  then obtain bs i where b: "run_billed s2 = run_billed s @ bs" "bills rq i (Some resp) bs" by blast
  show ?thesis
  proof (cases "\<exists>b. resp = Streamed b")
    case True
    then obtain b where resp: "resp = Streamed b" by blast
    with b have "bs = []" "fb_sink b = rq_sink rq" by (simp_all add: bills_def)
    from assms f resp obtain s3 b1 ps where "body_life ops w batches b s2 = Some (s3, b1, ps)" "s1 = s3"
      by (auto simp: request_life_def bind_eq_Some_conv)
    with body_life_log [OF this(1)] b \<open>bs = []\<close> \<open>fb_sink b = rq_sink rq\<close> show ?thesis by auto
  next
    case False
    with assms f have "s1 = s2" by (cases resp) (auto simp: request_life_def)
    with b show ?thesis by (auto simp: bills_def)
  qed
qed

theorem request_is_billed_once_witness:
  "\<exists>s1 resp added. request_life (lonely_world (\<lambda>t. Hangup)) sample_app sample_gates sample_hooks sample_codec sample_body_ops
       sample_request sample_cands 1 [] sample_run = Some (s1, resp)
     \<and> run_billed s1 = run_billed sample_run @ added \<and> length added \<le> of_bool (rq_sink sample_request)"
proof -
  have "good (lonely_world (\<lambda>t. Hangup)) sample_store (\<lambda>l. 0, \<lambda>l. 0) sample_run"
    unfolding good_def lonely_sem by (rule sample_balanced)
  from request_life_runs [OF lonely_legal sample_app_ok sample_cands_ok this, of sample_gates sample_hooks sample_codec
      sample_body_ops sample_request 1 "[]"]
  obtain s1 resp where
    r: "request_life (lonely_world (\<lambda>t. Hangup)) sample_app sample_gates sample_hooks sample_codec sample_body_ops
       sample_request sample_cands 1 [] sample_run = Some (s1, resp)"
    by (auto simp: runs_def)
  from request_is_billed_once [OF r] r show ?thesis by blast
qed

section \<open>A caller that hangs up\<close>

lemma drop_permit_peek: "drop_permit ops h l permit = Some h1 \<Longrightarrow> peek_cell h1 p m = peek_cell h p m"
  by (auto simp: drop_permit_def peek_cell_def lane_cells_def put_lane_def get_lane_def nth_list_update
      split: Permit.splits if_splits)

lemma lonely_step: "w_peers w = (\<lambda>t x. x) \<Longrightarrow> run_store (interleave w s) = run_store s"
  by (simp add: interleave_def)

lemma lonely_drop:
  assumes "w_peers w = (\<lambda>t x. x)" and "drop_in w i permit s = Some s1"
  shows "peek_cell (run_store s1) p m = peek_cell (run_store s) p m"
  using assms by (auto simp: drop_in_def act_def step_def Let_def lonely_step bind_eq_Some_conv dest: drop_permit_peek)

lemma lonely_release:
  assumes "w_peers w = (\<lambda>t x. x)" and "release_owned w p i epoch s = Some s1" and "peek_cell (run_store s) p i = Some c"
  shows "peek_cell (run_store s1) p i = Some (cell_release_probe_owned c epoch)"
proof -
  from assms(1,2) obtain h1 where r: "release_probe_owned_in (run_store s) p i epoch = Some h1" "run_store s1 = h1"
    by (auto simp: release_owned_def act_def step_def Let_def lonely_step bind_eq_Some_conv)
  from cells.fetch_existing [OF assms(3)] have f: "cell_of (run_store s) p i = Some (run_store s, c)" .
  with r have "h1 = put_cell (run_store s) p i (cell_release_probe_owned c epoch)" by (simp add: release_probe_owned_in_def)
  with r(2) cells.put_same [OF assms(3)] show ?thesis by simp
qed

text \<open>The recovering cell of the witness: half-open, its probe won under epoch 1.\<close>

definition probing_cell :: BreakerCell where
  "probing_cell = cell_new\<lparr>breaker_state := ST_HALF_OPEN, probe_in_flight := True, probe_epoch := 1\<rparr>"

definition probing_run :: "nat Run" where
  "probing_run = sample_run\<lparr>run_store := sample_store\<lparr>pool_cells := [0 \<mapsto> [(''pool'', probing_cell)]]\<rparr>\<rparr>"

definition probing_ctx :: RequestCtx where
  "probing_ctx = ctx_new 5 120 1"

lemmas probing_simps = probing_cell_def probing_run_def probing_ctx_def sample_run_def lonely_world_def sample_app_def
  sample_codec_def sample_request_def sample_cands_def

lemma probing_peek: "peek_cell (run_store probing_run) (rq_pool sample_request) 0 = Some probing_cell"
  by (simp add: probing_run_def sample_request_def peek_cell_def lane_cells_def)

lemma probing_attempt:
  "\<exists>s1 c. attempt (lonely_world (\<lambda>t. Hangup)) sample_app sample_codec sample_request sample_cands True 0 Unbounded 1 probing_ctx
     probing_run = Some (s1, c, Return Gone)"
  by (simp add: probing_simps attempt_def hop_payload_error_def crosses_def read_clock_def interleave_def drop_in_def act_def
      step_def drop_permit_def Let_def)

lemma probing_forward_once:
  "\<exists>s2. forward_once (lonely_world (\<lambda>t. Hangup)) sample_app sample_codec sample_request 0 Unbounded 10 (rq_pool sample_request)
     (Some 1) None probing_run = Some (s2, Some Gone)"
  by (simp add: probing_simps forward_once_def forward_once_dispatch_def leave_once_def probe_guard_release_def release_owned_def
      interleave_def drop_in_def act_def step_def drop_permit_def Let_def release_probe_owned_in_def cell_of_def lane_cells_def)

text \<open>
  C10: a caller that hangs up strands the recovery probe. An attempt of the failover loop that won
  the single-flight probe and whose caller goes away while it waits for the upstream, while nobody
  else touches the cell, leaves it half-open with the probe in flight. From there on, through any
  sequence of operations of the cell that records no outcome, recovers or resets nothing and does
  not release the lost token, the breaker grants no acquisition at any time; what settles it is an
  outcome of a request that was already under way or that went around the admission
  (\<open>least_bad\<close>), or a health probe. The same attempt on a degraded path, where the probe is
  guarded, gives the probe back and the cell is open again.
\<close>

theorem hangup_strands_the_probe:
  assumes "w_peers w = (\<lambda>t x. x)" and "w_reply w = (\<lambda>t. Hangup)"
    and "peek_cell (run_store s) (rq_pool rq) i = Some cell"
    and "breaker_state cell = ST_HALF_OPEN" and "probe_epoch cell = epoch"
    and "attempt w app cd rq cands first i permit epoch ctx s = Some (s1, c, Return Gone)"
    and "forward_once w app cd rq i permit secs (rq_pool rq) (Some epoch) override s = Some (s2, Some Gone)"
    and "cell_wf cell" and "trace (cell_step max_honored hard_down_secs) cell es later"
    and "list_all (\<lambda>e. \<not> settles epoch e) es"
  shows "peek_cell (run_store s1) (rq_pool rq) i = Some cell
    \<and> breaker_state later = ST_HALF_OPEN \<and> cell_acquire_breaker later now = (later, False)
    \<and> peek_cell (run_store s2) (rq_pool rq) i = Some (cell\<lparr>breaker_state := ST_OPEN, probe_in_flight := False\<rparr>)"
proof -
  let ?peek = "\<lambda>t :: 'a Run. peek_cell (run_store t) (rq_pool rq) i"
  have quiet_peek: "?peek (s0\<lparr>run_sent := x\<rparr>) = ?peek s0" for s0 x by simp
  have clock: "?peek (fst (read_clock w s0)) = ?peek s0" for s0
    using assms(1) by (simp add: read_clock_def lonely_step)
  have "?peek s1 = ?peek s"
    using assms(2,6) unfolding attempt_def Let_def
    by (auto simp: bind_eq_Some_conv bail_undispatched_def hop_payload_error_def
        split: option.splits prod.splits if_splits dest!: lonely_drop [OF assms(1), where p = "rq_pool rq" and m = i]
        simp: clock [unfolded read_clock_def, simplified] read_clock_def lonely_step [OF assms(1)])
  moreover have "?peek s2 = Some (cell_release_probe_owned cell epoch)"
  proof -
    have "leave_once w (rq_pool rq) i (Some epoch) permit (Some Gone) s0 = Some (s2, Some Gone) \<Longrightarrow> ?peek s0 = Some cell \<Longrightarrow>
      ?peek s2 = Some (cell_release_probe_owned cell epoch)" for s0
      by (auto simp: leave_once_def probe_guard_release_def bind_eq_Some_conv
          dest!: lonely_release [OF assms(1)] lonely_drop [OF assms(1), where p = "rq_pool rq" and m = i])
    with assms(2,3,7) show ?thesis
      unfolding forward_once_def forward_once_dispatch_def Let_def
      by (auto simp: leave_once_def bind_eq_Some_conv split: option.splits prod.splits if_splits)
  qed
  moreover have "cell_release_probe_owned cell epoch = cell\<lparr>breaker_state := ST_OPEN, probe_in_flight := False\<rparr>"
    using assms(4,5) by (simp add: cell_release_probe_owned_def)
  moreover have "probing epoch later"
    by (rule probing_trace [OF assms(9,8) _ assms(10)]) (use assms(4,5,8) in \<open>simp add: probing_def cell_wf_def\<close>)
  then have "breaker_state later = ST_HALF_OPEN \<and> cell_acquire_breaker later now = (later, False)"
    by (simp add: probing_def half_open_acquire_fails)
  ultimately show ?thesis using assms(3) by simp
qed

theorem hangup_strands_the_probe_witness:
  "\<exists>s1 c s2. attempt (lonely_world (\<lambda>t. Hangup)) sample_app sample_codec sample_request sample_cands True 0 Unbounded 1 probing_ctx
       probing_run = Some (s1, c, Return Gone)
     \<and> forward_once (lonely_world (\<lambda>t. Hangup)) sample_app sample_codec sample_request 0 Unbounded 10 (rq_pool sample_request)
         (Some 1) None probing_run = Some (s2, Some Gone)
     \<and> peek_cell (run_store s1) (rq_pool sample_request) 0 = Some probing_cell
     \<and> cell_acquire_breaker probing_cell 1000000 = (probing_cell, False)
     \<and> peek_cell (run_store s2) (rq_pool sample_request) 0
         = Some (probing_cell\<lparr>breaker_state := ST_OPEN, probe_in_flight := False\<rparr>)"
proof -
  obtain s1 c where a: "attempt (lonely_world (\<lambda>t. Hangup)) sample_app sample_codec sample_request sample_cands True 0 Unbounded 1
      probing_ctx probing_run = Some (s1, c, Return Gone)"
    using probing_attempt by blast
  obtain s2 where f: "forward_once (lonely_world (\<lambda>t. Hangup)) sample_app sample_codec sample_request 0 Unbounded 10
      (rq_pool sample_request) (Some 1) None probing_run = Some (s2, Some Gone)"
    using probing_forward_once by blast
  have w: "w_peers (lonely_world (\<lambda>t. Hangup)) = (\<lambda>t x. x)" "w_reply (lonely_world (\<lambda>t. Hangup)) = (\<lambda>t. Hangup)"
    "breaker_state probing_cell = ST_HALF_OPEN" "probe_epoch probing_cell = 1"
    by (simp_all add: lonely_world_def probing_cell_def)
  have wf: "cell_wf probing_cell"
    by (simp add: probing_cell_def cell_wf_def cell_new_def window_new_def u64_max_def)
  have refused: "cell_acquire_breaker probing_cell 5 = (probing_cell, False)" using w(3) by (rule half_open_acquire_fails)
  have "trace (cell_step 86400 1800) probing_cell [Acquire 5] (fst (cell_acquire_breaker probing_cell 5))"
    by (rule trace_single) (rule cell_step.acquire)
  then have "trace (cell_step 86400 1800) probing_cell [Acquire 5] probing_cell" by (simp add: refused)
  from hangup_strands_the_probe [OF w(1,2) probing_peek w(3,4) a f wf this, of 1000000] a f show ?thesis by auto
qed

end
