(* ===== verification/Health_Probe.thy ===== *)
theory Health_Probe
  imports Engine_Request
begin

text \<open>
  Active health probing, \<open>src/crates/busbar/src/health.rs\<close>: what a probe of a lane does to the
  store, run among the requests of a world of \<open>Engine_World\<close>, and the schedule the probers of
  successive configuration snapshots share.

  A prober has no caller, so whatever is not a reply within the timeout is a transport error. The
  probe sends the lane's own key; the credential provider, the body and the path of the probe
  belong to the protocol layer and are arguments.
\<close>

section \<open>A probe\<close>

datatype HealthMode = NoProbing | DeadMode | ActiveMode

record LaneProbe =
  lp_mode :: HealthMode
  lp_interval_secs :: "u64 option"
  lp_timeout_secs :: "u64 option"
  lp_path_base :: bool
  lp_path :: string
  lp_credential_ready :: "nat \<Rightarrow> bool"
  lp_jitter :: "nat \<Rightarrow> string \<Rightarrow> jitter_env"

text \<open>A lane without a key, with a base path of its own, or whose credential is not minted yet is not probed.\<close>

definition probe_skipped :: "App \<Rightarrow> LaneProbe \<Rightarrow> usize \<Rightarrow> nat \<Rightarrow> bool" where
  "probe_skipped app lp i t \<longleftrightarrow>
     al_api_key (app_lanes app ! i) = [] \<or> lp_path_base lp \<or> \<not> lp_credential_ready lp t"

definition probe_reply :: "UpstreamReply \<Rightarrow> HttpReply option" where
  "probe_reply reply = (case reply of Replied r \<Rightarrow> Some r | Elapsed \<Rightarrow> None | SendFailed \<Rightarrow> None | Hangup \<Rightarrow> None)"

definition probe_succeeded :: "'sem World \<Rightarrow> usize \<Rightarrow> 'sem Run \<Rightarrow> 'sem Run option" where
  "probe_succeeded w i s =
     do {
       (s1, needed) \<leftarrow> step w (\<lambda>clk env h. map_option (Pair h) (lane_needs_probe h i (clk 0))) s;
       s2 \<leftarrow> (if needed then act w (\<lambda>now h. recover_lane h i now) s1 else Some s1);
       act w (\<lambda>now h. record_probe_success_all_cells h i now) s2
     }"

definition probe_hard_down_reason :: string where
  "probe_hard_down_reason = ''health-probe hard-down (auth/billing)''"

definition probe_transient :: "'sem World \<Rightarrow> App \<Rightarrow> LaneProbe \<Rightarrow> usize \<Rightarrow> u64 option \<Rightarrow> 'sem Run \<Rightarrow> 'sem Run option" where
  "probe_transient w app lp i ra s =
     act w (\<lambda>now h. record_probe_failure_all_cells (lp_jitter lp (run_tick s)) h i now (resolve_breaker_cfg app) ra) s"

definition probe_disposition ::
  "'sem World \<Rightarrow> App \<Rightarrow> LaneProbe \<Rightarrow> usize \<Rightarrow> Disposition \<Rightarrow> u64 option \<Rightarrow> 'sem Run \<Rightarrow> 'sem Run option" where
  "probe_disposition w app lp i d ra s =
     (case d of
        HardDown \<Rightarrow> act w (\<lambda>now h. map_option fst (record_hard_down_all_cells h i probe_hard_down_reason now)) s
      | TransientUpstream \<Rightarrow> probe_transient w app lp i ra s
      | ClientFault \<Rightarrow> Some s
      | ContextLengthDisp \<Rightarrow> Some s)"

definition probe_timeout :: "u64 \<Rightarrow> LaneProbe \<Rightarrow> u64" where
  "probe_timeout process_default lp = max (case lp_timeout_secs lp of Some n \<Rightarrow> n | None \<Rightarrow> process_default) 1"

definition probe_lane ::
  "'sem World \<Rightarrow> App \<Rightarrow> Codec \<Rightarrow> LaneProbe \<Rightarrow> usize \<Rightarrow> u64 \<Rightarrow> 'sem Run \<Rightarrow> 'sem Run option" where
  "probe_lane w app cd lp i timeout s =
     (let lane = app_lanes app ! i in
      if probe_skipped app lp i (run_tick s) then Some s
      else
        let s1 = s\<lparr>run_sent := run_sent s @ [\<lparr>sn_pool = [], sn_lane = i, sn_key = al_api_key lane, sn_path = lp_path lp,
                     sn_timeout_secs = Some timeout, sn_headers_cap_ms = None\<rparr>]\<rparr> in
        case probe_reply (w_reply w (run_tick s)) of
          None \<Rightarrow> probe_disposition w app lp i TransientUpstream None s1
        | Some r \<Rightarrow>
            if is_success (hr_status r) then probe_succeeded w i s1
            else
              let now_ns = w_now_ns w (run_tick s) in
              probe_disposition w app lp i (classify (upstream_signal app cd now_ns i r))
                (parse_retry_after (cd_http_date cd) now_ns (hr_retry_after r)) s1)"

text \<open>A tick of the lane's prober: in dead mode only a suppressed lane is probed.\<close>

definition prober_tick ::
  "'sem World \<Rightarrow> App \<Rightarrow> Codec \<Rightarrow> LaneProbe \<Rightarrow> u64 \<Rightarrow> usize \<Rightarrow> 'sem Run \<Rightarrow> 'sem Run option" where
  "prober_tick w app cd lp default_timeout i s =
     (case lp_mode lp of
        NoProbing \<Rightarrow> Some s
      | ActiveMode \<Rightarrow> probe_lane w app cd lp i (probe_timeout default_timeout lp) s
      | DeadMode \<Rightarrow> do {
          (s1, should) \<leftarrow> step w (\<lambda>clk env h. map_option (Pair h) (lane_needs_probe h i (clk 0))) s;
          if should then probe_lane w app cd lp i (probe_timeout default_timeout lp) s1 else Some s1 })"

section \<open>The books\<close>

lemma statics_touch: "statics (touch_shards h ps) = statics h"
  unfolding touch_shards_def by (induction ps arbitrary: h) (simp_all add: statics_shard)

lemma still_recover_lane: "recover_lane h l now = Some h1 \<Longrightarrow> still h h1"
  by (rule stillI [OF keeps_recover_lane], assumption)
    (auto simp: recover_lane_def bind_eq_Some_conv Let_def statics_touch intro!: statics_put_lane)

lemma still_probe_success: "record_probe_success_all_cells h l now = Some h1 \<Longrightarrow> still h h1"
  by (rule stillI [OF keeps_record_probe_success_all_cells], assumption)
    (auto simp: record_probe_success_all_cells_def bind_eq_Some_conv Let_def statics_touch intro!: statics_put_lane
      split: if_splits)

lemma statics_put_own_cell [simp]: "get_lane h l = Some ls \<Longrightarrow> statics (put_lane h l (ls\<lparr>ls_cell := c\<rparr>)) = statics h"
  by (rule statics_put_lane) simp_all

lemma still_probe_failure:
  "record_probe_failure_all_cells env h l now cfg ra = Some h1 \<Longrightarrow> still h h1"
  by (rule stillI [OF keeps_record_probe_failure_all_cells], assumption)
    (auto simp: record_probe_failure_all_cells_def bind_eq_Some_conv Let_def split: if_splits option.splits)

lemma fail_cells_returns: "(\<And>p. cooldown_cfg_ok (cfg p)) \<Longrightarrow> fail_cells env now cfg ra mh cs \<noteq> None"
proof (induction cs)
  case (Cons pc cs)
  obtain p c where pc: "pc = (p, c)" by (cases pc)
  obtain c1 t where "cell_record_failure (env p) c now (cfg p) ra mh = Some (c1, t)"
    using cell_record_failure_total [OF Cons.prems] by blast
  with Cons.IH [OF Cons.prems] show ?case by (auto simp: pc)
qed simp

lemma probe_outcomes_return:
  assumes "l < length (lanes h)"
  shows "lane_needs_probe h l now \<noteq> None" and "recover_lane h l now \<noteq> None"
    and "record_probe_success_all_cells h l now \<noteq> None"
  using assms by (simp_all add: lane_needs_probe_def recover_lane_def record_probe_success_all_cells_def get_lane_def Let_def)

lemma probe_failure_returns:
  assumes "l < length (lanes h)" and "\<And>p. cooldown_cfg_ok (cfg p)"
  shows "record_probe_failure_all_cells env h l now cfg ra \<noteq> None"
proof -
  obtain ls where ls: "get_lane h l = Some ls" using assms(1) by (simp add: get_lane_def)
  obtain c1 t where "cell_record_failure (env []) (ls_cell ls) now (cfg []) ra (max_honored_retry_after_secs h) = Some (c1, t)"
    using cell_record_failure_total [OF assms(2)] by blast
  moreover have "\<exists>ds. fail_cells env now cfg ra (max_honored_retry_after_secs h) cs = Some ds" for cs
    using fail_cells_returns [where cfg = cfg, OF assms(2)] by blast
  ultimately show ?thesis
    using ls by (cases "pool_cells h l") (auto simp: record_probe_failure_all_cells_def Let_def bind_eq_Some_conv)
qed

lemma needs_probe_runs:
  assumes "legal_world h0 w" and "good w h0 own s" and "l < length (lanes h0)"
  shows "runs (step w (\<lambda>clk env h. map_option (Pair h) (lane_needs_probe h l (clk 0))) s) (\<lambda>(s1, b). good w h0 own s1)"
  by (rule step_still_runs [OF assms]) (use probe_outcomes_return in \<open>auto\<close>)

lemma probe_succeeded_runs:
  assumes "legal_world h0 w" and "good w h0 own s" and "l < length (lanes h0)"
  shows "runs (probe_succeeded w l s) (good w h0 own)"
  unfolding probe_succeeded_def
proof (rule runs_bind2 [OF needs_probe_runs [OF assms]])
  fix s1 needed assume g: "good w h0 own s1"
  show "runs (Option.bind (if needed then act w (\<lambda>now h. recover_lane h l now) s1 else Some s1)
      (act w (\<lambda>now h. record_probe_success_all_cells h l now))) (good w h0 own)"
  proof (rule runs_bind [where P = "good w h0 own"])
    show "runs (if needed then act w (\<lambda>now h. recover_lane h l now) s1 else Some s1) (good w h0 own)"
      using g act_still_runs [OF assms(1) g assms(3) probe_outcomes_return(2) still_recover_lane] by simp
  next
    fix s2 assume "good w h0 own s2"
    then show "runs (act w (\<lambda>now h. record_probe_success_all_cells h l now) s2) (good w h0 own)"
      by (rule act_still_runs [OF assms(1) _ assms(3) probe_outcomes_return(3) still_probe_success])
  qed
qed

lemma probe_disposition_runs:
  assumes "legal_world h0 w" and "app_ok h0 app" and "good w h0 own s" and "l < length (lanes h0)"
  shows "runs (probe_disposition w app lp l d ra s) (good w h0 own)"
proof (cases d)
  case HardDown
  have "runs (act w (\<lambda>now h. map_option fst (record_hard_down_all_cells h l probe_hard_down_reason now)) s) (good w h0 own)"
    by (rule act_still_runs [OF assms(1,3,4)]) (use per_lane_returns(2) still_record_hard_down_all in \<open>auto\<close>)
  with HardDown show ?thesis by (simp add: probe_disposition_def)
next
  case TransientUpstream
  have "cooldown_cfg_ok (resolve_breaker_cfg app p)" for p using assms(2) by (simp add: app_ok_def)
  then have "runs (probe_transient w app lp l ra s) (good w h0 own)"
    unfolding probe_transient_def
    by (intro act_still_runs [OF assms(1,3,4)] probe_failure_returns still_probe_failure)
  with TransientUpstream show ?thesis by (simp add: probe_disposition_def)
qed (simp_all add: probe_disposition_def assms(3))

lemma probe_lane_runs:
  assumes "legal_world h0 w" and "app_ok h0 app" and "good w h0 own s" and "l < length (lanes h0)"
  shows "runs (probe_lane w app cd lp l timeout s) (good w h0 own)"
  using assms(3)
  by (auto simp: probe_lane_def Let_def intro!: probe_disposition_runs [OF assms(1,2) _ assms(4)]
      probe_succeeded_runs [OF assms(1) _ assms(4)] split: option.split)

lemma prober_tick_runs:
  assumes "legal_world h0 w" and "app_ok h0 app" and "good w h0 own s" and "l < length (lanes h0)"
  shows "runs (prober_tick w app cd lp process_default l s) (good w h0 own)"
proof (cases "lp_mode lp")
  case DeadMode
  have "runs (prober_tick w app cd lp process_default l s) (good w h0 own)"
    unfolding prober_tick_def DeadMode HealthMode.case
    by (rule runs_bind2 [OF needs_probe_runs [OF assms(1,3,4)]]) (simp add: probe_lane_runs [OF assms(1,2) _ assms(4)])
  then show ?thesis .
qed (simp_all add: prober_tick_def assms(3) probe_lane_runs [OF assms])

section \<open>Readmission\<close>

text \<open>A settled cell is closed and in no cooldown; \<open>lane_settled\<close> says it of the cell any pool finds.\<close>

definition settled :: "BreakerCell \<Rightarrow> u64 \<Rightarrow> bool" where
  "settled c now \<longleftrightarrow> breaker_state c = ST_CLOSED \<and> cooldown_until c \<le> now"

definition lane_settled :: "'sem HealthState \<Rightarrow> usize \<Rightarrow> u64 \<Rightarrow> bool" where
  "lane_settled h l now \<longleftrightarrow> (\<forall>pool. case cell_view h pool l of None \<Rightarrow> False | Some c \<Rightarrow> settled c now)"

lemma settled_ready: "settled c now \<Longrightarrow> cell_ready_breaker c now"
  by (simp add: settled_def cell_ready_breaker_def breaker_verdict_def)

lemma settled_inherited: "settled (ls_cell ls) now \<Longrightarrow> settled (inherited_cell ls) now"
  by (simp add: settled_def inherited_cell_def ST_CLOSED_def ST_HALF_OPEN_def)

lemma settled_success: "settled c now \<Longrightarrow> settled (success_cell c t) now"
  by (auto simp: settled_def success_cell_def cell_record_success_def Let_def ST_CLOSED_def ST_HALF_OPEN_def ST_OPEN_def)

lemma settled_recover: "t \<le> now \<Longrightarrow> settled (recover_cell c t) now"
  by (auto simp: settled_def recover_cell_def recover_close_def observe_suppressed_def cell_closed_if_recoverable_def
      cell_closed_locked_def Let_def split: if_splits)

lemma settled_all_cells:
  assumes "get_lane h l = Some ls" and "lanes h1 = (lanes h)[l := ls']"
    and "pool_cells h1 = (pool_cells h)(l := map_option (map (\<lambda>(p, c). (p, f c))) (pool_cells h l))"
    and "ls_cell ls' = f (ls_cell ls)"
    and "settled (f (ls_cell ls)) now" and "\<And>p c. peek_cell h p l = Some c \<Longrightarrow> settled (f c) now"
  shows "lane_settled h1 l now"
  unfolding lane_settled_def
proof
  fix pool
  note v = view_all_cells [OF assms(1-4), of pool]
  show "case cell_view h1 pool l of None \<Rightarrow> False | Some c \<Rightarrow> settled c now"
  proof (cases "peek_cell h pool l")
    case None
    with v settled_inherited [of ls' now] assms(4,5) show ?thesis by simp
  next
    case (Some c)
    with v assms(6) [OF Some] show ?thesis by simp
  qed
qed

lemma recover_settles:
  assumes "recover_lane h l t = Some h1" and "t \<le> now"
  shows "lane_settled h1 l now"
proof -
  obtain ls where ls: "get_lane h l = Some ls" using assms(1) by (auto simp: recover_lane_def bind_eq_Some_conv)
  show ?thesis
    by (rule settled_all_cells [OF ls, where f = "\<lambda>c. recover_cell c t" and ls' = "ls\<lparr>ls_cell := recover_cell (ls_cell ls) t\<rparr>"])
      (use assms ls in \<open>auto simp: recover_lane_def Let_def put_lane_def settled_recover\<close>)
qed

lemma lane_settled_cells:
  assumes "lane_settled h l now" and "get_lane h l = Some ls"
  shows "settled (ls_cell ls) now" and "peek_cell h p l = Some c \<Longrightarrow> settled c now"
proof -
  have "cell_view h [] l = Some (ls_cell ls)" using assms(2) by (simp add: cell_view_alt peek_cell_def)
  with assms(1) show "settled (ls_cell ls) now" by (auto simp: lane_settled_def dest: spec [of _ "[]"])
  show "settled c now" if "peek_cell h p l = Some c"
    using assms(1) view_peek [OF that] by (auto simp: lane_settled_def dest: spec [of _ p])
qed

lemma success_keeps_settled:
  assumes "record_probe_success_all_cells h l t = Some h1" and "lane_settled h l now"
  shows "lane_settled h1 l now"
proof -
  obtain ls where ls: "get_lane h l = Some ls" using assms(1) by (auto simp: record_probe_success_all_cells_def bind_eq_Some_conv)
  note c = lane_settled_cells [OF assms(2) ls]
  show ?thesis
  proof (cases "ls_dead ls")
    case True
    have "lane_settled (put_lane h l (ls\<lparr>ls_ok := wrap_u64 (ls_ok ls + 1)\<rparr>)) l now"
      by (rule settled_all_cells [OF ls, where f = "\<lambda>c. c" and ls' = "ls\<lparr>ls_ok := wrap_u64 (ls_ok ls + 1)\<rparr>"])
        (use c in \<open>auto simp: put_lane_def option.map_id\<close>)
    with True assms(1) ls show ?thesis by (simp add: record_probe_success_all_cells_def)
  next
    case False
    show ?thesis
      by (rule settled_all_cells [OF ls, where f = "\<lambda>c. success_cell c t"
            and ls' = "ls\<lparr>ls_cell := success_cell (ls_cell ls) t, ls_ok := wrap_u64 (ls_ok ls + 1)\<rparr>"])
        (use assms(1) ls False c in \<open>auto simp: record_probe_success_all_cells_def Let_def put_lane_def settled_success\<close>)
  qed
qed

section \<open>Properties\<close>

text \<open>A quiet world, whose clock does not run past \<open>now\<close>: nothing but the probe touches the store.\<close>

definition quiet_world :: "'sem World \<Rightarrow> u64 \<Rightarrow> bool" where
  "quiet_world w now \<longleftrightarrow> w_peers w = (\<lambda>t x. x) \<and> (\<forall>t. w_clock w t 0 \<le> now)"

lemma tick_quiet_step:
  "quiet_world w now \<Longrightarrow> step w f s = Some (s1, a) \<Longrightarrow>
   f (w_clock w (run_tick s)) (w_jitter w (run_tick s)) (run_store s) = Some (run_store s1, a)"
  by (auto simp: quiet_world_def step_def Let_def lonely_step bind_eq_Some_conv)

lemma tick_quiet_act:
  "quiet_world w now \<Longrightarrow> act w f s = Some s1 \<Longrightarrow> f (w_clock w (run_tick s) 0) (run_store s) = Some (run_store s1)"
  by (auto simp: act_def dest!: tick_quiet_step)

lemma tick_quiet_clock: "quiet_world w now \<Longrightarrow> w_clock w t 0 \<le> now"
  by (simp add: quiet_world_def)

lemma not_needed_settled:
  assumes "lane_needs_probe h l t = Some False" and "t \<le> now"
  shows "lane_settled h l now"
proof -
  obtain ls where ls: "get_lane h l = Some ls" and ns: "\<not> (breaker_state (ls_cell ls) \<noteq> ST_CLOSED \<or> cooldown_until (ls_cell ls) > t)"
    and nc: "list_all (\<lambda>(_, c). \<not> (breaker_state c \<noteq> ST_CLOSED \<or> cooldown_until c > t)) (lane_cells h l)"
    using assms(1) by (auto simp: lane_needs_probe_def bind_eq_Some_conv list_all_iff list_ex_iff)
  have d: "settled (ls_cell ls) now" using ns assms(2) by (simp add: settled_def)
  have p: "settled c now" if "map_of (lane_cells h l) pool = Some c" for pool c
    using nc map_of_SomeD [OF that] assms(2) by (fastforce simp: list_all_iff settled_def)
  show ?thesis
    unfolding lane_settled_def cell_view_alt peek_cell_def
    using ls d p settled_inherited [OF d] by (auto split: option.split)
qed

lemma probe_success_settles:
  assumes "quiet_world w now" and "probe_succeeded w l s = Some s1"
  shows "lane_settled (run_store s1) l now"
proof -
  obtain s2 needed s3 where n: "step w (\<lambda>clk env h. map_option (Pair h) (lane_needs_probe h l (clk 0))) s = Some (s2, needed)"
    and r: "(if needed then act w (\<lambda>now h. recover_lane h l now) s2 else Some s2) = Some s3"
    and o: "act w (\<lambda>now h. record_probe_success_all_cells h l now) s3 = Some s1"
    using assms(2) by (auto simp: probe_succeeded_def bind_eq_Some_conv)
  have "lane_settled (run_store s3) l now"
  proof (cases needed)
    case True
    with r have "act w (\<lambda>now h. recover_lane h l now) s2 = Some s3" by simp
    from recover_settles [OF tick_quiet_act [OF assms(1) this] tick_quiet_clock [OF assms(1)]] show ?thesis .
  next
    case False
    with r tick_quiet_step [OF assms(1) n] have "lane_needs_probe (run_store s3) l (w_clock w (run_tick s) 0) = Some False"
      by auto
    from not_needed_settled [OF this tick_quiet_clock [OF assms(1)]] show ?thesis .
  qed
  from success_keeps_settled [OF tick_quiet_act [OF assms(1) o] this] show ?thesis .
qed

lemma lane_settled_ready:
  assumes "lane_settled h l now" and "lane_admissible h l = Some True"
  shows "\<exists>h1. ready_for h pool l now = Some (h1, True)"
proof -
  obtain ls where ls: "get_lane h l = Some ls" using assms(2) by (auto simp: lane_admissible_def bind_eq_Some_conv)
  obtain c where "cell_view h pool l = Some c" "settled c now"
    using assms(1) by (auto simp: lane_settled_def dest: spec [of _ pool] split: option.splits)
  with ready_for_view [OF this(1) ls, of now] assms(2) settled_ready [OF this(2)] show ?thesis by auto
qed

lemma statics_admissible:
  assumes "statics h1 = statics h"
  shows "lane_admissible h1 l = lane_admissible h l"
proof -
  have n: "length (lanes h1) = length (lanes h)" using arg_cong [OF assms, of length] by (simp add: statics_def)
  show ?thesis
  proof (cases "l < length (lanes h)")
    case True
    with n arg_cong [OF assms, of "\<lambda>xs. xs ! l"] show ?thesis
      by (simp add: statics_def lane_admissible_def get_lane_def)
  next
    case False
    with n show ?thesis by (simp add: lane_admissible_def get_lane_def)
  qed
qed

lemma probe_success_statics:
  assumes "quiet_world w now" and "probe_succeeded w l s = Some s1"
  shows "statics (run_store s1) = statics (run_store s)"
proof -
  obtain s2 needed s3 where n: "step w (\<lambda>clk env h. map_option (Pair h) (lane_needs_probe h l (clk 0))) s = Some (s2, needed)"
    and r: "(if needed then act w (\<lambda>now h. recover_lane h l now) s2 else Some s2) = Some s3"
    and o: "act w (\<lambda>now h. record_probe_success_all_cells h l now) s3 = Some s1"
    using assms(2) by (auto simp: probe_succeeded_def bind_eq_Some_conv)
  have "run_store s2 = run_store s" using tick_quiet_step [OF assms(1) n] by auto
  moreover have "statics (run_store s3) = statics (run_store s2)"
    using r still_recover_lane [OF tick_quiet_act [OF assms(1)]] by (auto simp: still_def split: if_splits)
  moreover have "statics (run_store s1) = statics (run_store s3)"
    using still_probe_success [OF tick_quiet_act [OF assms(1) o]] by (simp add: still_def)
  ultimately show ?thesis by simp
qed

lemma probe_lane_readmits:
  assumes "quiet_world w now" and "lane_admissible (run_store s) i = Some True"
    and "w_reply w = (\<lambda>t. Replied r)" and "is_success (hr_status r)" and "\<And>t. \<not> probe_skipped app lp i t"
    and "probe_lane w app cd lp i timeout s = Some s1"
  shows "lane_settled (run_store s1) i now \<and> lane_admissible (run_store s1) i = Some True"
proof -
  obtain s0 where p: "probe_succeeded w i s0 = Some s1" and s0: "run_store s0 = run_store s"
    using assms(3-6) by (auto simp: probe_lane_def probe_reply_def Let_def)
  from statics_admissible [OF probe_success_statics [OF assms(1) p]] probe_success_settles [OF assms(1) p] assms(2) s0
  show ?thesis by simp
qed

lemma probe_tick_settles:
  assumes "quiet_world w now" and "lane_admissible (run_store s) i = Some True"
    and "w_reply w = (\<lambda>t. Replied r)" and "is_success (hr_status r)" and "\<And>t. \<not> probe_skipped app lp i t"
    and "lp_mode lp \<noteq> NoProbing" and "prober_tick w app cd lp process_default i s = Some s1"
  shows "lane_settled (run_store s1) i now \<and> lane_admissible (run_store s1) i = Some True"
proof -
  show ?thesis
  proof (cases "lp_mode lp")
    case ActiveMode
    with assms(7) have "probe_lane w app cd lp i (probe_timeout process_default lp) s = Some s1" by (simp add: prober_tick_def)
    from probe_lane_readmits [OF assms(1-5) this] show ?thesis .
  next
    case DeadMode
    then obtain s2 needed where n: "step w (\<lambda>clk env h. map_option (Pair h) (lane_needs_probe h i (clk 0))) s = Some (s2, needed)"
      and p: "(if needed then probe_lane w app cd lp i (probe_timeout process_default lp) s2 else Some s2) = Some s1"
      using assms(7) by (auto simp: prober_tick_def bind_eq_Some_conv)
    have n1: "lane_needs_probe (run_store s) i (w_clock w (run_tick s) 0) = Some needed" and s2: "run_store s2 = run_store s"
      using tick_quiet_step [OF assms(1) n] by auto
    show ?thesis
    proof (cases needed)
      case True
      with p have "probe_lane w app cd lp i (probe_timeout process_default lp) s2 = Some s1" by simp
      from probe_lane_readmits [OF assms(1) _ assms(3-5) this] assms(2) s2 show ?thesis by simp
    next
      case False
      with p s2 n1 not_needed_settled [OF _ tick_quiet_clock [OF assms(1)]] assms(2) show ?thesis by auto
    qed
  qed (use assms(6) in simp)
qed

text \<open>
  C11: a probe that the upstream answers brings the lane back in every pool, whatever state its
  cells were in: a lane that is neither dead nor out of budget, and that no request touches while
  the tick runs, is ready for every pool when the tick ends. So a recovery probe that a caller
  stranded is repaired by the next tick of a prober, and by nothing when the lane is not probed. A
  prober in dead mode probes exactly the lanes with a suppressed cell, the half-open ones included.

  What requests do during a tick is not part of this claim. A close checks again, under the lock,
  the cooldown that was observed before it, so a cell that a request armed in between stays
  suppressed: the \<open>RecoverClose\<close> of \<open>Cell_Machine\<close>, with an observation that may be stale.
\<close>

theorem probe_readmits:
  assumes "legal_world h0 w" and "app_ok h0 app" and "i < length (lanes h0)"
    and "in_balance (w_sem w) h0 own (run_store s, run_others s)"
    and "quiet_world w now" and "lane_admissible (run_store s) i = Some True"
    and "w_reply w = (\<lambda>t. Replied r)" and "is_success (hr_status r)" and "\<And>t. \<not> probe_skipped app lp i t"
    and "lp_mode lp \<noteq> NoProbing"
  shows "\<exists>s1 h1. prober_tick w app cd lp process_default i s = Some s1 \<and> ready_for (run_store s1) pool i now = Some (h1, True)"
proof -
  have "good w h0 own s" using assms(4) by (simp add: good_def)
  with prober_tick_runs [OF assms(1,2) _ assms(3)] obtain s1 where s1: "prober_tick w app cd lp process_default i s = Some s1"
    by (fastforce simp: runs_def)
  from probe_tick_settles [OF assms(5-10) s1] lane_settled_ready s1 show ?thesis by blast
qed

text \<open>The stranded probe of \<open>hangup_strands_the_probe\<close>, repaired.\<close>

definition sample_probe :: LaneProbe where
  "sample_probe = \<lparr>lp_mode = DeadMode, lp_interval_secs = None, lp_timeout_secs = None, lp_path_base = False,
     lp_path = ''/v1'', lp_credential_ready = (\<lambda>t. True), lp_jitter = (\<lambda>t p. \<lparr>time_seed = 1, cell_id = 0\<rparr>)\<rparr>"

definition sample_reply :: HttpReply where
  "sample_reply = \<lparr>hr_status = 200, hr_retry_after = None, hr_content_type = None, hr_body = [], hr_end = Complete,
     hr_hangup = False\<rparr>"

lemma probing_balanced: "in_balance counting_sem sample_store (\<lambda>l. 0, \<lambda>l. 0) (run_store probing_run, run_others probing_run)"
proof -
  have "lanes sample_store \<noteq> []" by (simp add: sample_simps)
  with sample_store_wf show ?thesis
    by (auto simp: in_balance_def probing_run_def sample_run_def store_wf_def pool_wf_def probing_cell_def cell_wf_def
        cell_new_def window_new_def u64_max_def i64_max_def split: if_splits)
qed

theorem probe_readmits_witness:
  "\<exists>s1 h1. prober_tick (lonely_world (\<lambda>t. Replied sample_reply)) sample_app sample_codec sample_probe 5 0 probing_run = Some s1
     \<and> ready_for (run_store s1) ''pool'' 0 9 = Some (h1, True)"
proof -
  let ?w = "lonely_world (\<lambda>t. Replied sample_reply)"
  have i: "0 < length (lanes sample_store)" by (simp add: sample_simps)
  have b: "in_balance (w_sem ?w) sample_store (\<lambda>l. 0, \<lambda>l. 0) (run_store probing_run, run_others probing_run)"
    unfolding lonely_sem by (rule probing_balanced)
  have q: "quiet_world ?w 9" by (simp add: quiet_world_def lonely_world_def)
  have a: "lane_admissible (run_store probing_run) 0 = Some True"
    by (simp add: probing_run_def sample_run_def lane_admissible_def sample_simps get_lane_def)
  have r: "w_reply ?w = (\<lambda>t. Replied sample_reply)" "is_success (hr_status sample_reply)"
    by (simp_all add: lonely_world_def sample_reply_def is_success_def)
  have p: "\<not> probe_skipped sample_app sample_probe 0 t" for t
    by (simp add: probe_skipped_def sample_app_def sample_probe_def)
  have m: "lp_mode sample_probe \<noteq> NoProbing" by (simp add: sample_probe_def)
  show ?thesis by (rule probe_readmits [OF lonely_legal sample_app_ok i b q a r p m])
qed

text \<open>
  A probe comes to an end and keeps everybody's books. Whatever the upstream answers and the
  requests around it do, a tick of a prober returns, and it neither takes nor returns a permit or a
  unit of a lane's budget: the accounts of all requests are what they were.
\<close>

lemma probing_keeps_the_books:
  assumes "legal_world h0 w" and "app_ok h0 app" and "i < length (lanes h0)"
    and "in_balance (w_sem w) h0 own (run_store s, run_others s)"
  shows "\<exists>s1. prober_tick w app cd lp process_default i s = Some s1
    \<and> in_balance (w_sem w) h0 own (run_store s1, run_others s1)"
proof -
  have "good w h0 own s" using assms(4) by (simp add: good_def)
  from prober_tick_runs [OF assms(1,2) this assms(3), of cd lp process_default] show ?thesis by (auto simp: runs_def good_def)
qed

end
