(* ===== verification/Probe_Schedule.thy ===== *)
theory Probe_Schedule
  imports Health_Probe
begin

text \<open>
  The schedule of the probers of one lane, \<open>ProbeSchedule\<close> and \<open>spawn_probers\<close> of
  \<open>src/crates/busbar/src/health.rs\<close>. Every change of the configuration announces a new generation
  and spawns a prober of its own, which inherits the shared deadline; older probers notice at their
  next tick. Announcing, spawning, the check of the generation and the exchange of the
  deadline are single atomic operations of the source and steps of their own here, so any
  interleaving of swaps and ticks is a run. Times are milliseconds since the origin.

  The timer is tokio's, which skips missed ticks. It is the argument \<open>after\<close>: the next tick of a
  timer that was due at one time and is served at another.
\<close>

section \<open>The shared schedule\<close>

definition UNSCHEDULED :: u64 where "UNSCHEDULED = u64_max"

definition advance_owned_deadline :: "u64 \<Rightarrow> u64 \<Rightarrow> u64 \<Rightarrow> u64 \<times> u64" where
  "advance_owned_deadline slot owned next_deadline =
     (if slot = owned then (next_deadline, next_deadline) else (slot, slot))"

definition probe_interval_ms :: "u64 \<Rightarrow> LaneProbe \<Rightarrow> u64" where
  "probe_interval_ms process_default lp =
     wrap_u64 (max (case lp_interval_secs lp of Some n \<Rightarrow> n | None \<Rightarrow> process_default) 1 * 1000)"

datatype ProberPhase = Waiting | Probing

record Prober =
  pr_interval :: u64
  pr_owned :: u64
  pr_due :: u64
  pr_phase :: ProberPhase

text \<open>\<open>ps_mark\<close> is a ghost: when the lane was last probed, or first scheduled.\<close>

record ProbeSchedule =
  ps_generation :: nat
  ps_deadline :: u64
  ps_announced :: "nat \<rightharpoonup> u64"
  ps_probers :: "nat \<rightharpoonup> Prober"
  ps_clock :: u64
  ps_mark :: u64

definition schedule_new :: ProbeSchedule where
  "schedule_new = \<lparr>ps_generation = 0, ps_deadline = UNSCHEDULED, ps_announced = Map.empty, ps_probers = Map.empty,
     ps_clock = 0, ps_mark = 0\<rparr>"

definition announce :: "u64 \<Rightarrow> ProbeSchedule \<Rightarrow> ProbeSchedule" where
  "announce interval s =
     (let g = Suc (ps_generation s) in s\<lparr>ps_generation := g, ps_announced := (ps_announced s)(g \<mapsto> interval)\<rparr>)"

definition spawn_prober :: "nat \<Rightarrow> u64 \<Rightarrow> ProbeSchedule \<Rightarrow> ProbeSchedule" where
  "spawn_prober g interval s =
     (let first = saturating_add (ps_clock s) interval;
          deadline = min (ps_deadline s) first
      in s\<lparr>ps_announced := (ps_announced s)(g := None), ps_deadline := deadline,
           ps_mark := (if ps_deadline s = UNSCHEDULED then ps_clock s else ps_mark s),
           ps_probers := (ps_probers s)(g \<mapsto> \<lparr>pr_interval = interval, pr_owned = deadline, pr_due = deadline, pr_phase = Waiting\<rparr>)\<rparr>)"

text \<open>A tick: a superseded prober exits, the current one goes on to probe.\<close>

definition serve_tick :: "(u64 \<Rightarrow> u64 \<Rightarrow> u64 \<Rightarrow> u64) \<Rightarrow> nat \<Rightarrow> Prober \<Rightarrow> ProbeSchedule \<Rightarrow> ProbeSchedule" where
  "serve_tick after g p s =
     (if g \<noteq> ps_generation s then s\<lparr>ps_probers := (ps_probers s)(g := None)\<rparr>
      else s\<lparr>ps_probers := (ps_probers s)(g \<mapsto>
               p\<lparr>pr_phase := Probing, pr_due := after (pr_due p) (ps_clock s) (pr_interval p)\<rparr>)\<rparr>)"

definition advance_and_probe :: "nat \<Rightarrow> Prober \<Rightarrow> ProbeSchedule \<Rightarrow> ProbeSchedule" where
  "advance_and_probe g p s =
     (let (slot, owned) = advance_owned_deadline (ps_deadline s) (pr_owned p) (saturating_add (ps_clock s) (pr_interval p))
      in s\<lparr>ps_deadline := slot, ps_mark := ps_clock s,
           ps_probers := (ps_probers s)(g \<mapsto> p\<lparr>pr_owned := owned, pr_phase := Waiting\<rparr>)\<rparr>)"

section \<open>The machine\<close>

datatype schedule_event = Announce u64 | Spawn nat | Tick nat | Probe nat | Elapse u64

text \<open>\<open>longest\<close> bounds the configured intervals.\<close>

inductive schedule_step ::
  "(u64 \<Rightarrow> u64 \<Rightarrow> u64 \<Rightarrow> u64) \<Rightarrow> u64 \<Rightarrow> ProbeSchedule \<Rightarrow> schedule_event \<Rightarrow> ProbeSchedule \<Rightarrow> bool"
  for after longest where
  announced: "0 < v \<Longrightarrow> v \<le> longest \<Longrightarrow> schedule_step after longest s (Announce v) (announce v s)"
| spawned: "ps_announced s g = Some v \<Longrightarrow> schedule_step after longest s (Spawn g) (spawn_prober g v s)"
| ticked: "ps_probers s g = Some p \<Longrightarrow> pr_phase p = Waiting \<Longrightarrow> pr_due p \<le> ps_clock s \<Longrightarrow>
    schedule_step after longest s (Tick g) (serve_tick after g p s)"
| probed: "ps_probers s g = Some p \<Longrightarrow> pr_phase p = Probing \<Longrightarrow>
    schedule_step after longest s (Probe g) (advance_and_probe g p s)"
| elapsed: "ps_clock s \<le> t \<Longrightarrow> schedule_step after longest s (Elapse t) (s\<lparr>ps_clock := t\<rparr>)"

inductive_cases schedule_stepE: "schedule_step after longest s e t"

text \<open>What is relied on of the timer: the next tick is later, and at most one period later.\<close>

definition timer_laws :: "(u64 \<Rightarrow> u64 \<Rightarrow> u64 \<Rightarrow> u64) \<Rightarrow> bool" where
  "timer_laws after \<longleftrightarrow>
     (\<forall>due t period. 0 < period \<longrightarrow> due \<le> t \<longrightarrow> t < after due t period \<and> after due t period \<le> t + period)"

definition skip_missed :: "u64 \<Rightarrow> u64 \<Rightarrow> u64 \<Rightarrow> u64" where
  "skip_missed due t period = t + period - (t - due) mod period"

lemma skip_missed_laws: "timer_laws skip_missed"
  unfolding timer_laws_def
proof (intro allI impI)
  fix due t period :: u64
  assume "0 < period"
  then have "(t - due) mod period < period" by simp
  then show "t < skip_missed due t period \<and> skip_missed due t period \<le> t + period"
    unfolding skip_missed_def by arith
qed

text \<open>
  The invariant: the deadline and every waiting prober are due within the longest interval of the
  last probe.
\<close>

definition prober_ok :: "u64 \<Rightarrow> ProbeSchedule \<Rightarrow> Prober \<Rightarrow> bool" where
  "prober_ok longest s p \<longleftrightarrow> 0 < pr_interval p \<and> pr_interval p \<le> longest
     \<and> pr_due p \<le> (case pr_phase p of Waiting \<Rightarrow> ps_mark s | Probing \<Rightarrow> ps_clock s) + longest"

definition schedule_ok :: "u64 \<Rightarrow> ProbeSchedule \<Rightarrow> bool" where
  "schedule_ok longest s \<longleftrightarrow>
     ps_mark s \<le> ps_clock s
   \<and> (ps_deadline s \<noteq> UNSCHEDULED \<longrightarrow> ps_deadline s \<le> ps_mark s + longest) \<and> ps_deadline s \<le> UNSCHEDULED
   \<and> (\<forall>g. case ps_announced s g of None \<Rightarrow> True | Some v \<Rightarrow> 0 < v \<and> v \<le> longest)
   \<and> (\<forall>g. case ps_probers s g of None \<Rightarrow> True | Some p \<Rightarrow> prober_ok longest s p)"

lemma saturating_add_bound: "saturating_add a b \<le> a + b"
  by (simp add: saturating_add_def)

lemma prober_ok_updates [simp]:
  "prober_ok longest (s\<lparr>ps_generation := x\<rparr>) p = prober_ok longest s p"
  "prober_ok longest (s\<lparr>ps_announced := y\<rparr>) p = prober_ok longest s p"
  "prober_ok longest (s\<lparr>ps_probers := z\<rparr>) p = prober_ok longest s p"
  by (simp_all add: prober_ok_def split: ProberPhase.split)

lemma prober_ok_mono:
  "prober_ok longest s p \<Longrightarrow> ps_mark s \<le> ps_mark t \<Longrightarrow> ps_clock s \<le> ps_clock t \<Longrightarrow> prober_ok longest t p"
  by (auto simp: prober_ok_def split: ProberPhase.splits)

lemma schedule_okD:
  assumes "schedule_ok longest s"
  shows "ps_mark s \<le> ps_clock s" and "ps_deadline s \<noteq> UNSCHEDULED \<Longrightarrow> ps_deadline s \<le> ps_mark s + longest"
    and "ps_deadline s \<le> UNSCHEDULED"
    and "ps_announced s g = Some v \<Longrightarrow> 0 < v \<and> v \<le> longest" and "ps_probers s g = Some p \<Longrightarrow> prober_ok longest s p"
  using assms by (auto simp: schedule_ok_def split: option.splits)

lemma schedule_okI:
  assumes "ps_mark t \<le> ps_clock t" and "ps_deadline t \<noteq> UNSCHEDULED \<Longrightarrow> ps_deadline t \<le> ps_mark t + longest"
    and "ps_deadline t \<le> UNSCHEDULED"
    and "\<And>g v. ps_announced t g = Some v \<Longrightarrow> 0 < v \<and> v \<le> longest"
    and "\<And>g p. ps_probers t g = Some p \<Longrightarrow> prober_ok longest t p"
  shows "schedule_ok longest t"
  using assms by (auto simp: schedule_ok_def split: option.split)

lemma spawn_ok:
  assumes ok: "schedule_ok longest s" and v: "0 < v" "v \<le> longest"
  shows "schedule_ok longest (spawn_prober g v s)"
proof -
  let ?t = "spawn_prober g v s"
  let ?first = "saturating_add (ps_clock s) v"
  have f: "?first \<le> ps_clock s + longest" "?first \<le> UNSCHEDULED"
    using saturating_add_bound [of "ps_clock s" v] v(2) by (simp_all add: UNSCHEDULED_def)
  have mark: "ps_mark s \<le> ps_mark ?t" "ps_mark ?t \<le> ps_clock s"
    using schedule_okD(1) [OF ok] by (simp_all add: spawn_prober_def Let_def)
  have eqs: "ps_deadline ?t = min (ps_deadline s) ?first"
      "ps_mark ?t = (if ps_deadline s = UNSCHEDULED then ps_clock s else ps_mark s)"
    by (simp_all add: spawn_prober_def Let_def)
  have d: "ps_deadline ?t \<le> ps_mark ?t + longest" "ps_deadline ?t \<le> UNSCHEDULED"
  proof -
    show "ps_deadline ?t \<le> UNSCHEDULED" using f(2) by (simp add: eqs)
    show "ps_deadline ?t \<le> ps_mark ?t + longest"
    proof (cases "ps_deadline s = UNSCHEDULED")
      case True
      with f(1) show ?thesis by (simp add: eqs min_le_iff_disj)
    next
      case False
      with schedule_okD(2) [OF ok False] show ?thesis by (simp add: eqs min_le_iff_disj)
    qed
  qed
  show ?thesis
  proof (rule schedule_okI)
    fix g' p assume p: "ps_probers ?t g' = Some p"
    have "ps_probers ?t = (ps_probers s)(g \<mapsto>
        \<lparr>pr_interval = v, pr_owned = ps_deadline ?t, pr_due = ps_deadline ?t, pr_phase = Waiting\<rparr>)"
      by (simp add: spawn_prober_def Let_def)
    with p consider "p = \<lparr>pr_interval = v, pr_owned = ps_deadline ?t, pr_due = ps_deadline ?t, pr_phase = Waiting\<rparr>"
      | "ps_probers s g' = Some p"
      by (cases "g' = g") simp_all
    then show "prober_ok longest ?t p"
    proof cases
      case 1
      with v d show ?thesis by (simp add: prober_ok_def)
    next
      case 2
      from prober_ok_mono [OF schedule_okD(5) [OF ok 2] mark(1)] show ?thesis by (simp add: spawn_prober_def Let_def)
    qed
  next
    fix g' u assume "ps_announced ?t g' = Some u"
    then have "ps_announced s g' = Some u" by (simp add: spawn_prober_def Let_def split: if_splits)
    from schedule_okD(4) [OF ok this] show "0 < u \<and> u \<le> longest" .
  qed (use mark d in \<open>simp_all add: spawn_prober_def Let_def\<close>)
qed

lemma tick_ok:
  assumes laws: "timer_laws after" and ok: "schedule_ok longest s" and p: "ps_probers s g = Some p"
    and due: "pr_due p \<le> ps_clock s"
  shows "schedule_ok longest (serve_tick after g p s)"
proof -
  have pok: "0 < pr_interval p" "pr_interval p \<le> longest" using schedule_okD(5) [OF ok p] by (simp_all add: prober_ok_def)
  have "after (pr_due p) (ps_clock s) (pr_interval p) \<le> ps_clock s + pr_interval p"
    using laws pok(1) due by (simp add: timer_laws_def)
  with pok have "prober_ok longest s (p\<lparr>pr_phase := Probing, pr_due := after (pr_due p) (ps_clock s) (pr_interval p)\<rparr>)"
    by (simp add: prober_ok_def)
  with schedule_okD [OF ok] show ?thesis
    by (intro schedule_okI) (auto simp: serve_tick_def split: if_splits)
qed

lemma probe_ok:
  assumes ok: "schedule_ok longest s" and p: "ps_probers s g = Some p" and phase: "pr_phase p = Probing"
  shows "schedule_ok longest (advance_and_probe g p s)"
proof -
  let ?t = "advance_and_probe g p s"
  let ?later = "saturating_add (ps_clock s) (pr_interval p)"
  have pok: "0 < pr_interval p" "pr_interval p \<le> longest" "pr_due p \<le> ps_clock s + longest"
    using schedule_okD(5) [OF ok p] phase by (simp_all add: prober_ok_def)
  have t: "ps_mark ?t = ps_clock s" "ps_clock ?t = ps_clock s" "ps_announced ?t = ps_announced s"
    by (simp_all add: advance_and_probe_def case_prod_unfold Let_def)
  have "?later \<le> ps_clock s + longest" "?later \<le> UNSCHEDULED"
    using saturating_add_bound [of "ps_clock s" "pr_interval p"] pok(2) by (simp_all add: UNSCHEDULED_def)
  then have d: "ps_deadline ?t \<noteq> UNSCHEDULED \<Longrightarrow> ps_deadline ?t \<le> ps_mark ?t + longest" "ps_deadline ?t \<le> UNSCHEDULED"
    using schedule_okD(1-3) [OF ok]
    by (auto simp: advance_and_probe_def advance_owned_deadline_def split: if_splits)
  show ?thesis
  proof (rule schedule_okI)
    fix g' q assume "ps_probers ?t g' = Some q"
    then consider "pr_interval q = pr_interval p" "pr_due q = pr_due p" "pr_phase q = Waiting" | "ps_probers s g' = Some q"
      by (auto simp: advance_and_probe_def case_prod_unfold Let_def split: if_splits)
    then show "prober_ok longest ?t q"
    proof cases
      case 1
      with pok t show ?thesis by (simp add: prober_ok_def)
    next
      case 2
      from prober_ok_mono [OF schedule_okD(5) [OF ok 2]] schedule_okD(1) [OF ok] t show ?thesis by simp
    qed
  qed (use d t schedule_okD(4) [OF ok] in simp_all)
qed

lemma schedule_step_ok:
  assumes "timer_laws after" and "schedule_ok longest s" and "schedule_step after longest s e t"
  shows "schedule_ok longest t"
  using assms(3)
proof cases
  case (announced v)
  with schedule_okD [OF assms(2)] show ?thesis
    by (intro schedule_okI) (auto simp: announce_def Let_def split: if_splits)
next
  case (spawned g v)
  from spawn_ok [OF assms(2)] schedule_okD(4) [OF assms(2) spawned(3)] spawned(2) show ?thesis by blast
next
  case (ticked g p)
  with tick_ok [OF assms(1,2)] show ?thesis by blast
next
  case (probed g p)
  with probe_ok [OF assms(2)] show ?thesis by blast
next
  case (elapsed u)
  with schedule_okD [OF assms(2)] prober_ok_mono [of longest s _ t] show ?thesis
    by (intro schedule_okI) (auto intro: order_trans)
qed

interpretation schedule_sys: invariant_system "\<lambda>s. s = schedule_new" "schedule_step skip_missed longest" "schedule_ok longest"
  by unfold_locales
    (simp add: schedule_ok_def schedule_new_def UNSCHEDULED_def, rule schedule_step_ok [OF skip_missed_laws])

text \<open>
  Probing never goes dark. However often and however fast the configuration is swapped, and
  in whatever order generations are announced and spawned and their probers tick and probe, the prober
  of every generation, the current one included, is due within the longest interval of the last
  probe of the lane (or of its first scheduling), so no burst of swaps puts the next probe off.
\<close>

lemma probing_never_goes_dark:
  assumes "reach (\<lambda>s. s = schedule_new) (schedule_step skip_missed longest) s"
    and "ps_probers s g = Some p" and "pr_phase p = Waiting"
  shows "pr_due p \<le> ps_mark s + longest \<and> ps_mark s \<le> ps_clock s"
  using schedule_sys.reach_inv [OF assms(1)] schedule_okD(1,5) assms(2,3) by (fastforce simp: prober_ok_def)

text \<open>A superseded prober that waits exits at its next tick without a probe.\<close>

definition superseded :: "nat \<Rightarrow> ProbeSchedule \<Rightarrow> bool" where
  "superseded g s \<longleftrightarrow> g < ps_generation s \<and> ps_announced s g = None
     \<and> (case ps_probers s g of None \<Rightarrow> True | Some p \<Rightarrow> pr_phase p = Waiting)"

lemma superseded_step: "superseded g s \<Longrightarrow> schedule_step after longest s e t \<Longrightarrow> superseded g t \<and> e \<noteq> Probe g"
  by (erule schedule_stepE)
    (auto simp: superseded_def announce_def spawn_prober_def serve_tick_def advance_and_probe_def case_prod_unfold Let_def
      split: if_splits option.splits)

lemma superseded_is_silent:
  assumes "trace (schedule_step after longest) s es t" and "superseded g s"
  shows "superseded g t \<and> Probe g \<notin> set es"
  using assms
proof (induction rule: trace.induct)
  case (trace_snoc s es t e u)
  with superseded_step [of g t after longest e u] show ?case by auto
qed simp

text \<open>
  One prober can pass the check of the generation, be superseded, and still probe; its successor
  inherits the elapsed deadline and probes as well. Two generations then probe at the same instant.
\<close>

lemmas schedule_simps = announce_def spawn_prober_def serve_tick_def advance_and_probe_def advance_owned_deadline_def
  schedule_new_def UNSCHEDULED_def saturating_add_def skip_missed_def u64_max_def

definition racing_events :: "schedule_event list" where
  "racing_events = [Announce 30000, Spawn 1, Elapse 30000, Tick 1, Announce 30000, Spawn 2, Probe 1, Tick 2, Probe 2]"

lemma generations_probe_together: "\<exists>t. trace (schedule_step skip_missed 30000) schedule_new racing_events t \<and> ps_clock t = 30000"
proof -
  let ?step = "schedule_step skip_missed 30000"
  let ?s1 = "announce 30000 schedule_new"
  let ?s2 = "spawn_prober 1 30000 ?s1"
  let ?s3 = "?s2\<lparr>ps_clock := 30000\<rparr>"
  let ?p3 = "\<lparr>pr_interval = 30000, pr_owned = 30000, pr_due = 30000, pr_phase = Waiting\<rparr>"
  let ?s4 = "serve_tick skip_missed 1 ?p3 ?s3"
  let ?s5 = "announce 30000 ?s4"
  let ?s6 = "spawn_prober 2 30000 ?s5"
  let ?p6 = "\<lparr>pr_interval = 30000, pr_owned = 30000, pr_due = 60000, pr_phase = Probing\<rparr>"
  let ?s7 = "advance_and_probe 1 ?p6 ?s6"
  let ?s8 = "serve_tick skip_missed 2 ?p3 ?s7"
  let ?s9 = "advance_and_probe 2 ?p6 ?s8"
  have "?step schedule_new (Announce 30000) ?s1" by (rule announced) simp_all
  moreover have "?step ?s1 (Spawn 1) ?s2" by (rule spawned) (simp add: schedule_simps)
  moreover have "?step ?s2 (Elapse 30000) ?s3" by (rule elapsed) (simp add: schedule_simps)
  moreover have "?step ?s3 (Tick 1) ?s4" by (rule ticked) (simp_all add: schedule_simps)
  moreover have "?step ?s4 (Announce 30000) ?s5" by (rule announced) simp_all
  moreover have "?step ?s5 (Spawn 2) ?s6" by (rule spawned) (simp add: schedule_simps)
  moreover have "?step ?s6 (Probe 1) ?s7" by (rule probed) (simp_all add: schedule_simps)
  moreover have "?step ?s7 (Tick 2) ?s8" by (rule ticked) (simp_all add: schedule_simps)
  moreover have "?step ?s8 (Probe 2) ?s9" by (rule probed) (simp_all add: schedule_simps)
  ultimately have "trace ?step schedule_new racing_events ?s9"
    unfolding racing_events_def by (blast intro: trace_cons trace.intros)
  moreover have "ps_clock ?s9 = 30000" by (simp add: schedule_simps)
  ultimately show ?thesis by blast
qed

end
