(* ===== verification/Auth_Cache.thy ===== *)
theory Auth_Cache
  imports Busbar_Prelude "HOL-Library.AList"
begin

text \<open>
  The contract of an auth module (\<open>src/crates/api/src/auth.rs\<close>) and the credential cache
  \<open>src/crates/busbar/src/auth_cache.rs\<close>, which remembers verdicts per module and hashed credential.

  The hash map is an association list with distinct keys; nothing depends on its order, because
  the insertion numbers are distinct. SHA-256 is an argument; its hex digest is never empty.
  An authentication captures the flush generation, consults modules and puts its verdicts
  later, so in the machine below these are separate steps, with flushes in between.
\<close>

section \<open>Modules\<close>

record Principal =
  pn_id :: string
  pn_name :: "string option"
  pn_roles :: "string list"
  pn_ttl_secs :: "u64 option"

definition from_id :: "string \<Rightarrow> Principal" where
  "from_id i = \<lparr>pn_id = i, pn_name = None, pn_roles = [], pn_ttl_secs = None\<rparr>"

datatype AuthOutcome = Identify Principal | Reject | Pass

section \<open>The cache\<close>

definition DEFAULT_IDENTIFY_TTL_SECS :: u64 where "DEFAULT_IDENTIFY_TTL_SECS = 300"
definition MAX_IDENTIFY_TTL_SECS :: u64 where "MAX_IDENTIFY_TTL_SECS = 3600"
definition PASS_TTL_SECS :: u64 where "PASS_TTL_SECS = 5"
definition MAX_ENTRIES :: usize where "MAX_ENTRIES = 4096"

datatype CachedVerdict = CachedIdentify Principal | CachedPass

record CacheEntry =
  ce_expires_at :: u64
  ce_inserted_seq :: u64
  ce_verdict :: CachedVerdict

type_synonym CacheKey = "string \<times> string"

record CacheState =
  cc_entries :: "(CacheKey \<times> CacheEntry) list"
  cc_seq :: u64
  cc_flush_gen :: u64

definition cache_new :: CacheState where
  "cache_new = \<lparr>cc_entries = [], cc_seq = 0, cc_flush_gen = 0\<rparr>"

definition cache_generation :: "CacheState \<Rightarrow> u64" where
  "cache_generation c = cc_flush_gen c"

fun verdict_outcome :: "CachedVerdict \<Rightarrow> AuthOutcome" where
  "verdict_outcome (CachedIdentify p) = Identify p"
| "verdict_outcome CachedPass = Pass"

definition cache_get :: "(string \<Rightarrow> string) \<Rightarrow> string \<Rightarrow> string \<Rightarrow> u64 \<Rightarrow> CacheState \<Rightarrow> CacheState \<times> AuthOutcome option" where
  "cache_get sha name credential now c =
     (let key = (name, sha credential) in
      case map_of (cc_entries c) key of
        Some e \<Rightarrow> (if ce_expires_at e > now then (c, Some (verdict_outcome (ce_verdict e)))
                   else (c\<lparr>cc_entries := AList.delete key (cc_entries c)\<rparr>, None))
      | None \<Rightarrow> (c, None))"

definition pass_jitter :: "string \<Rightarrow> u64" where
  "pass_jitter hash = of_char (hd hash) mod 3"

definition cacheable_verdict :: "string \<Rightarrow> AuthOutcome \<Rightarrow> (CachedVerdict \<times> u64) option" where
  "cacheable_verdict hash outcome = (case outcome of
     Identify p \<Rightarrow> Some (CachedIdentify p,
       min (case pn_ttl_secs p of Some t \<Rightarrow> t | None \<Rightarrow> DEFAULT_IDENTIFY_TTL_SECS) MAX_IDENTIFY_TTL_SECS)
   | Pass \<Rightarrow> Some (CachedPass, PASS_TTL_SECS + pass_jitter hash)
   | Reject \<Rightarrow> None)"

text \<open>\<open>min_by_key\<close>: the first entry with the least insertion number.\<close>

fun oldest :: "(CacheKey \<times> CacheEntry) list \<Rightarrow> CacheKey option" where
  "oldest [] = None"
| "oldest ((k, e) # es) = (case oldest es of
     None \<Rightarrow> Some k
   | Some k2 \<Rightarrow> (case map_of es k2 of
       Some e2 \<Rightarrow> (if ce_inserted_seq e \<le> ce_inserted_seq e2 then Some k else Some k2)
     | None \<Rightarrow> Some k))"

definition make_room :: "u64 \<Rightarrow> (CacheKey \<times> CacheEntry) list \<Rightarrow> (CacheKey \<times> CacheEntry) list" where
  "make_room now es =
     (if MAX_ENTRIES \<le> length es
      then let live = filter (\<lambda>(_, e). ce_expires_at e > now) es in
           if MAX_ENTRIES \<le> length live
           then (case oldest live of Some k \<Rightarrow> AList.delete k live | None \<Rightarrow> live)
           else live
      else es)"

definition cache_put :: "(string \<Rightarrow> string) \<Rightarrow> string \<Rightarrow> string \<Rightarrow> AuthOutcome \<Rightarrow> u64 \<Rightarrow> u64 \<Rightarrow> CacheState \<Rightarrow> CacheState" where
  "cache_put sha name credential outcome now gen c =
     (let hash = sha credential in
      case cacheable_verdict hash outcome of
        None \<Rightarrow> c
      | Some (verdict, ttl) \<Rightarrow>
          if cc_flush_gen c \<noteq> gen then c
          else let s = wrap_u64 (cc_seq c + 1) in
               c\<lparr>cc_seq := s,
                 cc_entries := AList.update (name, hash)
                   \<lparr>ce_expires_at = wrap_u64 (now + ttl), ce_inserted_seq = s, ce_verdict = verdict\<rparr>
                   (make_room now (cc_entries c))\<rparr>)"

definition flush_module :: "string \<Rightarrow> CacheState \<Rightarrow> CacheState \<times> usize" where
  "flush_module name c =
     (let es = filter (\<lambda>((m, _), _). m \<noteq> name) (cc_entries c)
      in (c\<lparr>cc_flush_gen := wrap_u64 (cc_flush_gen c + 1), cc_entries := es\<rparr>, length (cc_entries c) - length es))"

definition flush_all :: "CacheState \<Rightarrow> CacheState \<times> usize" where
  "flush_all c = (c\<lparr>cc_flush_gen := wrap_u64 (cc_flush_gen c + 1), cc_entries := []\<rparr>, length (cc_entries c))"

section \<open>Operations keep the cache bounded\<close>

definition cache_wf :: "CacheState \<Rightarrow> bool" where
  "cache_wf c \<longleftrightarrow> distinct (map fst (cc_entries c)) \<and> length (cc_entries c) \<le> MAX_ENTRIES"

lemma oldest_in: "oldest es = Some k \<Longrightarrow> k \<in> fst ` set es"
  by (induction es arbitrary: k) (auto split: option.splits if_splits)

lemma oldest_some: "es \<noteq> [] \<Longrightarrow> \<exists>k. oldest es = Some k"
  by (induction es) (auto split: option.splits)

lemma distinct_delete: "distinct (map fst es) \<Longrightarrow> distinct (map fst (AList.delete k es))"
  by (rule AList.distinct_delete)

lemma distinct_live: "distinct (map fst es) \<Longrightarrow> distinct (map fst (filter P es))"
  by (induction es) auto

lemma length_delete_present:
  assumes "k \<in> fst ` set es"
  shows "length (AList.delete k es) < length es"
proof -
  obtain v where "(k, v) \<in> set es" using assms by auto
  then show ?thesis unfolding AList.delete_eq by (rule length_filter_less) simp
qed

lemma make_room_subset: "set (make_room now es) \<subseteq> set es"
  by (auto simp: make_room_def Let_def AList.delete_eq split: option.splits)

lemma make_room_distinct: "distinct (map fst es) \<Longrightarrow> distinct (map fst (make_room now es))"
  by (auto simp: make_room_def Let_def distinct_live intro: AList.distinct_delete split: option.splits)

lemma make_room_room:
  assumes "length es \<le> MAX_ENTRIES"
  shows "length (make_room now es) < MAX_ENTRIES"
proof -
  let ?live = "filter (\<lambda>(_, e). ce_expires_at e > now) es"
  have le: "length ?live \<le> MAX_ENTRIES" using assms length_filter_le [of _ es] order_trans by blast
  show ?thesis
  proof (cases "MAX_ENTRIES \<le> length es \<and> MAX_ENTRIES \<le> length ?live")
    case True
    then have "?live \<noteq> []" by (auto simp: MAX_ENTRIES_def)
    then obtain k where "oldest ?live = Some k" using oldest_some by blast
    with True le length_delete_present [OF oldest_in [OF this]] show ?thesis by (simp add: make_room_def Let_def)
  qed (auto simp: make_room_def Let_def)
qed

lemma length_update_le: "length (AList.update k v es) \<le> Suc (length es)"
  by (induction es) auto

lemma put_wf:
  assumes "cache_wf c"
  shows "cache_wf (cache_put sha m cred o' now gen c)"
proof -
  have "length (AList.update k v (make_room now (cc_entries c))) \<le> MAX_ENTRIES" for k v
    using make_room_room [of "cc_entries c" now] length_update_le [of k v "make_room now (cc_entries c)"] assms
    by (simp add: cache_wf_def)
  with assms show ?thesis
    by (auto simp: cache_wf_def cache_put_def Let_def make_room_distinct AList.distinct_update split: option.splits)
qed

lemma get_wf: "cache_wf c \<Longrightarrow> cache_wf (fst (cache_get sha m cred now c))"
  using AList.length_delete_le [of "(m, sha cred)" "cc_entries c"]
  by (auto simp: cache_wf_def cache_get_def Let_def AList.distinct_delete split: option.splits intro: le_trans)

lemma flush_wf: "cache_wf c \<Longrightarrow> cache_wf (fst (flush_module m c))" "cache_wf (fst (flush_all c))"
  using length_filter_le [of "\<lambda>((m', _), _). m' \<noteq> m" "cc_entries c"]
  by (auto simp: cache_wf_def flush_module_def flush_all_def Let_def distinct_live simp del: length_filter_le)

section \<open>Authentications and flushes\<close>

text \<open>
  An authentication begins by capturing the generation and puts verdicts afterwards. Ghosts: events
  are numbered; \<open>kr_flushed\<close> is the last flush that covered a module, \<open>kr_born\<close>
  the beginning of the authentication whose verdict an entry holds, \<open>kr_stamp\<close> its clock.
\<close>

record CacheRun =
  kr_cache :: CacheState
  kr_pending :: "nat \<rightharpoonup> u64 \<times> nat"
  kr_events :: nat
  kr_flushes :: nat
  kr_flushed :: "string \<Rightarrow> nat"
  kr_born :: "CacheKey \<Rightarrow> nat"
  kr_stamp :: "CacheKey \<Rightarrow> u64"

datatype CacheEvent =
    Begin nat | Put nat string string AuthOutcome u64 | Get string string u64 | FlushModule string | FlushAll

definition run_new :: CacheRun where
  "run_new = \<lparr>kr_cache = cache_new, kr_pending = Map.empty, kr_events = 0, kr_flushes = 0, kr_flushed = (\<lambda>m. 0),
     kr_born = (\<lambda>k. 0), kr_stamp = (\<lambda>k. 0)\<rparr>"

definition put_lands :: "AuthOutcome \<Rightarrow> u64 \<Rightarrow> CacheState \<Rightarrow> bool" where
  "put_lands outcome gen c \<longleftrightarrow> outcome \<noteq> Reject \<and> cc_flush_gen c = gen"

fun cache_apply :: "(string \<Rightarrow> string) \<Rightarrow> CacheEvent \<Rightarrow> CacheRun \<Rightarrow> CacheRun" where
  "cache_apply sha (Begin i) s =
     s\<lparr>kr_pending := (kr_pending s)(i \<mapsto> (cache_generation (kr_cache s), Suc (kr_events s))), kr_events := Suc (kr_events s)\<rparr>"
| "cache_apply sha (Put i name cred outcome now) s =
     (case kr_pending s i of
        None \<Rightarrow> s\<lparr>kr_events := Suc (kr_events s)\<rparr>
      | Some (gen, born) \<Rightarrow>
          if put_lands outcome gen (kr_cache s)
          then s\<lparr>kr_cache := cache_put sha name cred outcome now gen (kr_cache s), kr_events := Suc (kr_events s),
                 kr_born := (kr_born s)((name, sha cred) := born), kr_stamp := (kr_stamp s)((name, sha cred) := now)\<rparr>
          else s\<lparr>kr_cache := cache_put sha name cred outcome now gen (kr_cache s), kr_events := Suc (kr_events s)\<rparr>)"
| "cache_apply sha (Get name cred now) s =
     s\<lparr>kr_cache := fst (cache_get sha name cred now (kr_cache s)), kr_events := Suc (kr_events s)\<rparr>"
| "cache_apply sha (FlushModule name) s =
     s\<lparr>kr_cache := fst (flush_module name (kr_cache s)), kr_events := Suc (kr_events s), kr_flushes := Suc (kr_flushes s),
       kr_flushed := (kr_flushed s)(name := Suc (kr_events s))\<rparr>"
| "cache_apply sha FlushAll s =
     s\<lparr>kr_cache := fst (flush_all (kr_cache s)), kr_events := Suc (kr_events s), kr_flushes := Suc (kr_flushes s),
       kr_flushed := (\<lambda>m. Suc (kr_events s))\<rparr>"

definition cache_step :: "(string \<Rightarrow> string) \<Rightarrow> CacheRun \<Rightarrow> CacheEvent \<Rightarrow> CacheRun \<Rightarrow> bool" where
  "cache_step sha s e t \<longleftrightarrow> t = cache_apply sha e s"

text \<open>An entry fits its stamp: it lives at most an hour when it identifies, seven seconds when it passes.\<close>

definition entry_ok :: "u64 \<Rightarrow> CacheEntry \<Rightarrow> bool" where
  "entry_ok stamp e \<longleftrightarrow> ce_expires_at e \<le> stamp + (case ce_verdict e of CachedIdentify p \<Rightarrow> MAX_IDENTIFY_TTL_SECS | CachedPass \<Rightarrow> 7)"

definition entries_ok :: "CacheRun \<Rightarrow> bool" where
  "entries_ok s \<longleftrightarrow> (\<forall>k e. (k, e) \<in> set (cc_entries (kr_cache s)) \<longrightarrow> entry_ok (kr_stamp s k) e)"

definition fresh_entries :: "CacheRun \<Rightarrow> bool" where
  "fresh_entries s \<longleftrightarrow> (\<forall>k e. (k, e) \<in> set (cc_entries (kr_cache s)) \<longrightarrow> kr_flushed s (fst k) < kr_born s k)"

definition fresh_pending :: "CacheRun \<Rightarrow> bool" where
  "fresh_pending s \<longleftrightarrow> (\<forall>i gen born. kr_pending s i = Some (gen, born) \<longrightarrow>
     gen \<le> kr_flushes s \<and> (gen = kr_flushes s \<longrightarrow> (\<forall>m. kr_flushed s m < born)))"

definition cache_run_ok :: "CacheRun \<Rightarrow> bool" where
  "cache_run_ok s \<longleftrightarrow> cache_wf (kr_cache s) \<and> entries_ok s
     \<and> (kr_flushes s \<le> u64_max \<longrightarrow> cc_flush_gen (kr_cache s) = kr_flushes s \<and> fresh_entries s \<and> fresh_pending s)
     \<and> (\<forall>m. kr_flushed s m \<le> kr_events s)"

lemma in_update:
  assumes "(k', e') \<in> set (AList.update k v es)" and "distinct (map fst es)"
  shows "(k', e') = (k, v) \<or> (k', e') \<in> set es \<and> k' \<noteq> k"
proof -
  have d: "distinct (map fst (AList.update k v es))" using assms(2) by (rule AList.distinct_update)
  then have m: "map_of (AList.update k v es) k' = Some e'" using assms(1) by simp
  show ?thesis
  proof (cases "k' = k")
    case True
    with m show ?thesis by (simp add: AList.update_conv)
  next
    case False
    with m have "map_of es k' = Some e'" by (simp add: AList.update_conv)
    from map_of_SomeD [OF this] False show ?thesis by simp
  qed
qed

lemma put_entries:
  assumes "(k, e) \<in> set (cc_entries (cache_put sha name cred outcome now gen c))" and "cache_wf c"
  shows "(k, e) \<in> set (cc_entries c) \<and> (put_lands outcome gen c \<longrightarrow> k \<noteq> (name, sha cred))
    \<or> put_lands outcome gen c \<and> k = (name, sha cred) \<and> entry_ok now e"
proof (cases "put_lands outcome gen c")
  case False
  with assms(1) show ?thesis
    by (auto simp: put_lands_def cache_put_def cacheable_verdict_def Let_def split: option.splits AuthOutcome.splits)
next
  case True
  obtain verdict ttl where v: "cacheable_verdict (sha cred) outcome = Some (verdict, ttl)"
    using True by (cases outcome) (auto simp: put_lands_def cacheable_verdict_def)
  have t: "ttl \<le> (case verdict of CachedIdentify p \<Rightarrow> MAX_IDENTIFY_TTL_SECS | CachedPass \<Rightarrow> 7)"
    using v by (cases outcome)
      (auto simp: cacheable_verdict_def PASS_TTL_SECS_def pass_jitter_def MAX_IDENTIFY_TTL_SECS_def less_Suc_eq_le [symmetric]
        split: option.splits intro: order_trans [OF mod_less_divisor [THEN less_imp_le]])
  let ?e = "\<lparr>ce_expires_at = wrap_u64 (now + ttl), ce_inserted_seq = wrap_u64 (cc_seq c + 1), ce_verdict = verdict\<rparr>"
  have "(k, e) \<in> set (AList.update (name, sha cred) ?e (make_room now (cc_entries c)))"
    using assms(1) True v by (simp add: cache_put_def put_lands_def Let_def)
  from in_update [OF this make_room_distinct] assms(2) have "(k, e) = ((name, sha cred), ?e)
      \<or> (k, e) \<in> set (make_room now (cc_entries c)) \<and> k \<noteq> (name, sha cred)" by (simp add: cache_wf_def)
  moreover have "entry_ok now ?e"
    using t mod_less_eq_dividend [of "now + ttl" 18446744073709551616] by (simp add: entry_ok_def wrap_u64_def)
  ultimately show ?thesis using make_room_subset True by fastforce
qed

lemma flush_gen_simps:
  "cc_flush_gen (cache_put sha name cred outcome now gen c) = cc_flush_gen c"
  "cc_flush_gen (fst (cache_get sha name cred now c)) = cc_flush_gen c"
  "cc_flush_gen (fst (flush_module name c)) = wrap_u64 (cc_flush_gen c + 1)"
  "cc_flush_gen (fst (flush_all c)) = wrap_u64 (cc_flush_gen c + 1)"
  by (auto simp: cache_put_def cache_get_def flush_module_def flush_all_def Let_def split: option.splits)

lemma get_entries: "set (cc_entries (fst (cache_get sha name cred now c))) \<subseteq> set (cc_entries c)"
  by (auto simp: cache_get_def Let_def AList.delete_eq split: option.splits)

lemma flush_entries:
  "(k, e) \<in> set (cc_entries (fst (flush_module name c))) \<Longrightarrow> (k, e) \<in> set (cc_entries c) \<and> fst k \<noteq> name"
  "cc_entries (fst (flush_all c)) = []"
  by (auto simp: flush_module_def flush_all_def Let_def)

lemma cache_run_okI:
  assumes "cache_wf (kr_cache s)" and "entries_ok s" and "\<And>m. kr_flushed s m \<le> kr_events s"
    and "kr_flushes s \<le> u64_max \<Longrightarrow> cc_flush_gen (kr_cache s) = kr_flushes s"
    and "kr_flushes s \<le> u64_max \<Longrightarrow> fresh_entries s" and "kr_flushes s \<le> u64_max \<Longrightarrow> fresh_pending s"
  shows "cache_run_ok s"
  using assms by (simp add: cache_run_ok_def)

lemma cache_run_okD:
  assumes "cache_run_ok s"
  shows "cache_wf (kr_cache s)" "entries_ok s" "kr_flushed s m \<le> kr_events s"
    "kr_flushes s \<le> u64_max \<Longrightarrow> cc_flush_gen (kr_cache s) = kr_flushes s"
    "kr_flushes s \<le> u64_max \<Longrightarrow> fresh_entries s" "kr_flushes s \<le> u64_max \<Longrightarrow> fresh_pending s"
  using assms by (simp_all add: cache_run_ok_def)

lemma flush_count: "Suc n \<le> u64_max \<Longrightarrow> wrap_u64 (n + 1) = Suc n"
  by (simp add: wrap_u64_def u64_max_def)

lemma put_keeps_ok:
  assumes ok: "cache_run_ok s" and p: "kr_pending s i = Some (gen, born)"
  shows "cache_run_ok (cache_apply sha (Put i name cred outcome now) s)"
proof (rule cache_run_okI)
  let ?t = "cache_apply sha (Put i name cred outcome now) s"
  note d = cache_run_okD [OF ok]
  have c: "kr_cache ?t = cache_put sha name cred outcome now gen (kr_cache s)" by (simp add: p)
  have same: "kr_flushes ?t = kr_flushes s" "kr_flushed ?t = kr_flushed s" "kr_pending ?t = kr_pending s"
    "kr_events ?t = Suc (kr_events s)" by (simp_all add: p)
  show "cache_wf (kr_cache ?t)" unfolding c by (rule put_wf [OF d(1)])
  show "entries_ok ?t"
    unfolding entries_ok_def c
    using put_entries [OF _ d(1)] d(2) by (auto simp: p entries_ok_def) blast+
  show "kr_flushed ?t m \<le> kr_events ?t" for m unfolding same using d(3) [of m] by simp
  assume n: "kr_flushes ?t \<le> u64_max"
  with same have ns: "kr_flushes s \<le> u64_max" by simp
  show "cc_flush_gen (kr_cache ?t) = kr_flushes ?t" unfolding c same flush_gen_simps by (rule d(4) [OF ns])
  show "fresh_pending ?t" using d(6) [OF ns] unfolding fresh_pending_def same .
  have b: "put_lands outcome gen (kr_cache s) \<Longrightarrow> kr_flushed s m < born" for m
    using d(6) [OF ns] d(4) [OF ns] p by (auto simp: fresh_pending_def put_lands_def)
  show "fresh_entries ?t"
    unfolding fresh_entries_def c
    using put_entries [OF _ d(1)] d(5) [OF ns] b by (auto simp: p fresh_entries_def) blast+
qed

lemma cache_step_ok: "cache_run_ok s \<Longrightarrow> cache_step sha s e t \<Longrightarrow> cache_run_ok t"
proof -
  assume ok: "cache_run_ok s" and "cache_step sha s e t"
  then have t: "t = cache_apply sha e s" by (simp add: cache_step_def)
  note d = cache_run_okD [OF ok]
  show ?thesis
  proof (cases e)
    case (Begin i)
    show ?thesis
      by (rule cache_run_okI) (use d in \<open>auto simp: t Begin entries_ok_def fresh_entries_def fresh_pending_def cache_generation_def less_Suc_eq_le le_SucI\<close>)
  next
    case (Put i name cred outcome now)
    show ?thesis
    proof (cases "kr_pending s i")
      case None
      show ?thesis
        by (rule cache_run_okI) (use d in \<open>auto simp: t Put None entries_ok_def fresh_entries_def fresh_pending_def le_SucI\<close>)
    next
      case (Some x)
      with put_keeps_ok [OF ok] show ?thesis by (cases x) (auto simp: t Put)
    qed
  next
    case (Get name cred now)
    show ?thesis
    proof (rule cache_run_okI)
      show "cache_wf (kr_cache t)" using d(1) by (simp add: t Get get_wf)
      show "entries_ok t" using d(2) get_entries by (fastforce simp: t Get entries_ok_def)
      show "kr_flushed t m \<le> kr_events t" for m using d(3) [of m] by (simp add: t Get)
      assume "kr_flushes t \<le> u64_max"
      then have n: "kr_flushes s \<le> u64_max" by (simp add: t Get)
      show "cc_flush_gen (kr_cache t) = kr_flushes t" using d(4) [OF n] by (simp add: t Get flush_gen_simps)
      show "fresh_entries t" using d(5) [OF n] get_entries by (fastforce simp: t Get fresh_entries_def)
      show "fresh_pending t" using d(6) [OF n] by (simp add: t Get fresh_pending_def)
    qed
  next
    case (FlushModule name)
    show ?thesis
    proof (rule cache_run_okI)
      show "cache_wf (kr_cache t)" using d(1) by (simp add: t FlushModule flush_wf)
      show "entries_ok t" using d(2) flush_entries(1) by (fastforce simp: t FlushModule entries_ok_def)
      show "kr_flushed t m \<le> kr_events t" for m using d(3) [of m] by (simp add: t FlushModule)
      assume "kr_flushes t \<le> u64_max"
      then have c: "Suc (kr_flushes s) \<le> u64_max" and n: "kr_flushes s \<le> u64_max" by (simp_all add: t FlushModule)
      show "cc_flush_gen (kr_cache t) = kr_flushes t"
        using d(4) [OF n] flush_count [OF c] by (simp add: t FlushModule flush_gen_simps)
      show "fresh_entries t" using d(5) [OF n] flush_entries(1) by (fastforce simp: t FlushModule fresh_entries_def)
      show "fresh_pending t"
        unfolding fresh_pending_def using d(6) [OF n] by (fastforce simp: t FlushModule fresh_pending_def)
    qed
  next
    case FlushAll
    show ?thesis
    proof (rule cache_run_okI)
      show "cache_wf (kr_cache t)" by (simp add: t FlushAll flush_wf)
      show "entries_ok t" by (simp add: t FlushAll entries_ok_def flush_entries)
      show "kr_flushed t m \<le> kr_events t" for m by (simp add: t FlushAll)
      assume "kr_flushes t \<le> u64_max"
      then have c: "Suc (kr_flushes s) \<le> u64_max" and n: "kr_flushes s \<le> u64_max" by (simp_all add: t FlushAll)
      show "cc_flush_gen (kr_cache t) = kr_flushes t"
        using d(4) [OF n] flush_count [OF c] by (simp add: t FlushAll flush_gen_simps)
      show "fresh_entries t" by (simp add: t FlushAll fresh_entries_def flush_entries)
      show "fresh_pending t"
        unfolding fresh_pending_def using d(6) [OF n] by (fastforce simp: t FlushAll fresh_pending_def)
    qed
  qed
qed

interpretation cache_sys: invariant_system "\<lambda>s. s = run_new" "cache_step sha" cache_run_ok
  by unfold_locales
    (simp add: cache_run_ok_def cache_wf_def entries_ok_def fresh_entries_def fresh_pending_def run_new_def cache_new_def,
      rule cache_step_ok)

text \<open>
  C22: a flush is an instant revocation. Whatever authentications are in flight and however their
  puts, lookups and other flushes fall around it, a verdict the cache serves comes from an
  authentication that began after the last flush of its module.
\<close>

theorem flush_is_instant:
  assumes "reach (\<lambda>s. s = run_new) (cache_step sha) s" and "kr_flushes s \<le> u64_max"
    and "cache_get sha name cred now (kr_cache s) = (c, Some outcome)"
  shows "kr_flushed s name < kr_born s (name, sha cred)"
proof -
  obtain e where "map_of (cc_entries (kr_cache s)) (name, sha cred) = Some e"
    using assms(3) by (auto simp: cache_get_def Let_def split: option.splits)
  from map_of_SomeD [OF this] cache_run_okD(5) [OF cache_sys.reach_inv [OF assms(1)] assms(2)]
  show ?thesis by (auto simp: fresh_entries_def)
qed

text \<open>
  The cache is bounded in space and time. It never holds more than 4096 verdicts, each
  credential once; what it serves is never a rejection, and at most an hour old when it
  identifies, seven seconds when it passes, whatever life the module suggests.
\<close>

lemma cache_is_bounded:
  assumes "reach (\<lambda>s. s = run_new) (cache_step sha) s"
    and "cache_get sha name cred now (kr_cache s) = (c, Some outcome)"
  shows "length (cc_entries (kr_cache s)) \<le> 4096 \<and> distinct (map fst (cc_entries (kr_cache s)))
    \<and> (case outcome of Identify p \<Rightarrow> now < kr_stamp s (name, sha cred) + 3600
        | Pass \<Rightarrow> now < kr_stamp s (name, sha cred) + 7 | Reject \<Rightarrow> False)"
proof -
  note ok = cache_sys.reach_inv [OF assms(1)]
  obtain e where e: "map_of (cc_entries (kr_cache s)) (name, sha cred) = Some e" "now < ce_expires_at e"
    "outcome = verdict_outcome (ce_verdict e)"
    using assms(2) by (auto simp: cache_get_def Let_def split: option.splits if_splits)
  from map_of_SomeD [OF e(1)] cache_run_okD(2) [OF ok] have "entry_ok (kr_stamp s (name, sha cred)) e"
    by (auto simp: entries_ok_def)
  with e(2,3) cache_run_okD(1) [OF ok] show ?thesis
    by (cases "ce_verdict e") (auto simp: entry_ok_def cache_wf_def MAX_ENTRIES_def MAX_IDENTIFY_TTL_SECS_def)
qed

text \<open>An authentication in flight across a flush leaves nothing; one that begins after it does.\<close>

definition flush_events :: "CacheEvent list" where
  "flush_events = [Begin 1, FlushModule ''oidc'', Put 1 ''oidc'' ''t'' (Identify (from_id ''alice'')) 10, Begin 2,
     Put 2 ''oidc'' ''t'' (Identify (from_id ''bob'')) 20]"

definition flush_run :: CacheRun where
  "flush_run = fold (cache_apply id) flush_events run_new"

lemma flush_run_reach: "reach (\<lambda>s. s = run_new) (cache_step sha) (fold (cache_apply sha) es run_new)"
proof (induction es rule: rev_induct)
  case (snoc e es)
  from reach_step [OF snoc] show ?case by (simp add: cache_step_def)
qed (simp add: reach_init)

lemmas cache_simps = cache_new_def run_new_def cache_generation_def cache_put_def cache_get_def cacheable_verdict_def from_id_def
  DEFAULT_IDENTIFY_TTL_SECS_def MAX_IDENTIFY_TTL_SECS_def MAX_ENTRIES_def make_room_def flush_module_def wrap_u64_def
  put_lands_def Let_def

lemma flush_run_get:
  "cache_get id ''oidc'' ''t'' 30 (kr_cache flush_run) = (kr_cache flush_run, Some (Identify (from_id ''bob'')))"
  "kr_flushes flush_run = 1"
  by (simp_all add: flush_run_def flush_events_def cache_simps)

theorem flush_is_instant_witness:
  "kr_flushed flush_run ''oidc'' < kr_born flush_run (''oidc'', ''t'')"
proof -
  have "kr_flushes flush_run \<le> u64_max" by (simp add: flush_run_get u64_max_def)
  from flush_is_instant [OF flush_run_reach [of id flush_events, folded flush_run_def] this flush_run_get(1)]
  show ?thesis by simp
qed

end
