(* ===== verification/Auth_Chain.thy ===== *)
theory Auth_Chain
  imports Auth_Cache Gov_Keys
begin

text \<open>
  The data-plane auth chain of \<open>src/crates/busbar/src/auth/mod.rs\<close>: the modules in order, the
  credential cache around them, the built-in verifier of signed keys behind them; and what an
  identity is worth: the key synthesised from its role bindings (\<open>governance/mod.rs\<close>).

  The cache is shared: before every access other requests and the admin plane may have changed it,
  by the function \<open>peers\<close> of the number of accesses so far. A module is its answer and whether it
  may be cached; the offloading of plugin calls to other threads answers or denies.
\<close>

section \<open>The chain\<close>

datatype ChainVerdict = Identified string Principal "VirtualKey option" | OpenDoor | ChainDenied

record AuthModule =
  am_cacheable :: bool
  am_authenticate :: "string option \<Rightarrow> AuthOutcome"

record AuthMiddleware =
  aw_keys_in_chain :: bool
  aw_chain :: "(string \<times> AuthModule) list"
  aw_has_plugin_module :: bool

record SharedCache =
  sh_cache :: CacheState
  sh_accesses :: nat

type_synonym Peers = "nat \<Rightarrow> CacheState \<Rightarrow> CacheState"

definition shared :: "Peers \<Rightarrow> (CacheState \<Rightarrow> CacheState \<times> 'a) \<Rightarrow> SharedCache \<Rightarrow> SharedCache \<times> 'a" where
  "shared peers f c = (let (s, a) = f (peers (sh_accesses c) (sh_cache c)) in (\<lparr>sh_cache = s, sh_accesses = Suc (sh_accesses c)\<rparr>, a))"

definition shared_put :: "Peers \<Rightarrow> (string \<Rightarrow> string) \<Rightarrow> string \<Rightarrow> AuthOutcome \<Rightarrow> u64 \<Rightarrow> u64 \<Rightarrow> string \<Rightarrow> SharedCache \<Rightarrow> SharedCache" where
  "shared_put peers sha cred outcome now gen name c =
     fst (shared peers (\<lambda>s. (cache_put sha name cred outcome now gen s, ())) c)"

definition KEYS_MODULE :: string where "KEYS_MODULE = ''keys''"

definition principal_from_vkey :: "VirtualKey \<Rightarrow> Principal" where
  "principal_from_vkey key = \<lparr>pn_id = vk_id key, pn_name = Some (vk_name key), pn_roles = [], pn_ttl_secs = None\<rparr>"

definition keys_arm_verdict :: "Crypto \<Rightarrow> KeyState option \<Rightarrow> string option \<Rightarrow> u64 \<Rightarrow> KeyState option \<times> ChainVerdict" where
  "keys_arm_verdict cr gov candidate now =
     (case candidate of
        None \<Rightarrow> (gov, ChainDenied)
      | Some token \<Rightarrow>
          if token = [] then (gov, ChainDenied)
          else case gov of
            None \<Rightarrow> (gov, ChainDenied)
          | Some ks \<Rightarrow> (case verify_token cr token now ks of
              (ks1, Some key) \<Rightarrow> (Some ks1, Identified KEYS_MODULE (principal_from_vkey key) (Some key))
            | (ks1, None) \<Rightarrow> (Some ks1, ChainDenied)))"

text \<open>
  The modules in order. \<open>here\<close>: the cache is consulted for this module. What passed on a miss is
  only remembered until some module identifies; then the passes and the identity are put.
\<close>

definition cache_here :: "AuthModule \<Rightarrow> SharedCache option \<Rightarrow> string option \<Rightarrow> bool" where
  "cache_here m c candidate \<longleftrightarrow> c \<noteq> None \<and> candidate \<noteq> None \<and> am_cacheable m"

definition chain_lookup ::
  "Peers \<Rightarrow> (string \<Rightarrow> string) \<Rightarrow> u64 \<Rightarrow> string \<Rightarrow> AuthModule \<Rightarrow> string option \<Rightarrow> SharedCache option \<Rightarrow> SharedCache option \<times> AuthOutcome option" where
  "chain_lookup peers sha now name m candidate c =
     (case (c, candidate) of
        (Some ch, Some cred) \<Rightarrow>
          if am_cacheable m
          then (let (ch1, hit) = shared peers (cache_get sha name cred now) ch in (Some ch1, hit))
          else (c, None)
      | _ \<Rightarrow> (c, None))"

definition chain_commit ::
  "Peers \<Rightarrow> (string \<Rightarrow> string) \<Rightarrow> u64 \<Rightarrow> u64 \<Rightarrow> string \<Rightarrow> AuthModule \<Rightarrow> Principal \<Rightarrow> string list \<Rightarrow> string option
   \<Rightarrow> SharedCache option \<Rightarrow> SharedCache option" where
  "chain_commit peers sha now gen name m p pending candidate c =
     (case (c, candidate) of
        (Some ch, Some cred) \<Rightarrow>
          let ch1 = fold (shared_put peers sha cred Pass now gen) pending ch in
          Some (if cache_here m c candidate then shared_put peers sha cred (Identify p) now gen name ch1 else ch1)
      | _ \<Rightarrow> c)"

fun chain_loop ::
  "Peers \<Rightarrow> (string \<Rightarrow> string) \<Rightarrow> u64 \<Rightarrow> u64 \<Rightarrow> string option \<Rightarrow> (string \<times> AuthModule) list \<Rightarrow> string list \<Rightarrow> SharedCache option
   \<Rightarrow> SharedCache option \<times> ChainVerdict option" where
  "chain_loop peers sha now gen candidate [] pending c = (c, None)"
| "chain_loop peers sha now gen candidate ((name, m) # rest) pending c =
     (let (c1, hit) = chain_lookup peers sha now name m candidate c;
          outcome = (case hit of Some o' \<Rightarrow> o' | None \<Rightarrow> am_authenticate m candidate);
          pending1 = (if hit = None \<and> cache_here m c candidate \<and> outcome = Pass then pending @ [name] else pending)
      in case outcome of
           Identify p \<Rightarrow> (chain_commit peers sha now gen name m p pending1 candidate c1, Some (Identified name p None))
         | Reject \<Rightarrow> (c1, Some ChainDenied)
         | Pass \<Rightarrow> chain_loop peers sha now gen candidate rest pending1 c1)"

definition chain_generation :: "Peers \<Rightarrow> SharedCache option \<Rightarrow> SharedCache option \<times> u64" where
  "chain_generation peers c = (case c of
     None \<Rightarrow> (None, 0)
   | Some ch \<Rightarrow> (let (ch1, g) = shared peers (\<lambda>s. (s, cache_generation s)) ch in (Some ch1, g)))"

definition run_chain_cached ::
  "Peers \<Rightarrow> (string \<Rightarrow> string) \<Rightarrow> Crypto \<Rightarrow> u64 \<Rightarrow> AuthMiddleware \<Rightarrow> string option \<Rightarrow> SharedCache option \<times> KeyState option
   \<Rightarrow> (SharedCache option \<times> KeyState option) \<times> ChainVerdict" where
  "run_chain_cached peers sha cr now aw candidate s =
     (if aw_chain aw = [] \<and> \<not> aw_keys_in_chain aw then (s, OpenDoor)
      else
        let (c1, gen) = chain_generation peers (fst s);
            (c2, verdict) = chain_loop peers sha now gen candidate (aw_chain aw) [] c1
        in case verdict of
             Some v \<Rightarrow> ((c2, snd s), v)
           | None \<Rightarrow>
               if aw_keys_in_chain aw
               then (let (gov1, v) = keys_arm_verdict cr (snd s) candidate now in ((c2, gov1), v))
               else ((c2, snd s), ChainDenied))"

text \<open>
  On the request path a chain with plugins runs on another thread. That can fail in three ways, no
  permit in time, a panic, all of them denials: \<open>offloaded\<close> says whether it worked.
\<close>

definition run_chain_on_request_path ::
  "Peers \<Rightarrow> (string \<Rightarrow> string) \<Rightarrow> Crypto \<Rightarrow> u64 \<Rightarrow> bool \<Rightarrow> AuthMiddleware \<Rightarrow> string option \<Rightarrow> SharedCache \<times> KeyState option
   \<Rightarrow> (SharedCache \<times> KeyState option) \<times> ChainVerdict" where
  "run_chain_on_request_path peers sha cr now offloaded aw candidate s =
     (if aw_chain aw = [] \<and> \<not> aw_keys_in_chain aw then (s, OpenDoor)
      else if aw_has_plugin_module aw \<and> \<not> offloaded then (s, ChainDenied)
      else let ((c1, gov1), v) = run_chain_cached peers sha cr now aw candidate (Some (fst s), snd s)
           in ((case c1 of Some c \<Rightarrow> c | None \<Rightarrow> fst s, gov1), v))"

section \<open>What an identity is worth\<close>

record RoleBindingCfg =
  rb_allowed_pools :: "string list option"
  rb_group :: "string option"
  rb_admin_scope :: "string option"

type_synonym RoleTable = "string \<rightharpoonup> RoleBindingCfg"
type_synonym RoleBindings = "string \<rightharpoonup> RoleTable"

definition granting_bindings :: "RoleTable \<Rightarrow> Principal \<Rightarrow> RoleBindingCfg list" where
  "granting_bindings table p = List.map_filter table (pn_roles p)"

definition add_pools :: "string list \<Rightarrow> string list \<Rightarrow> string list" where
  "add_pools new pools = fold (\<lambda>p ps. if p \<in> set ps then ps else ps @ [p]) new pools"

definition union_step :: "RoleBindingCfg \<Rightarrow> string list \<times> bool \<Rightarrow> string list \<times> bool" where
  "union_step b acc = (case rb_allowed_pools b of
     None \<Rightarrow> (fst acc, True) | Some new \<Rightarrow> (add_pools new (fst acc), snd acc))"

definition pool_union :: "RoleBindingCfg list \<Rightarrow> string list \<times> bool" where
  "pool_union bs = fold union_step bs ([], False)"

definition first_group :: "RoleBindingCfg list \<Rightarrow> string option" where
  "first_group bs = (case List.map_filter rb_group bs of [] \<Rightarrow> None | g # _ \<Rightarrow> Some g)"

definition reserved_id :: "string \<Rightarrow> bool" where
  "reserved_id i \<longleftrightarrow> strip_prefix GROUP_BUCKET_PREFIX i \<noteq> None \<or> strip_prefix VK_ID_PREFIX i \<noteq> None"

definition principal_key :: "Principal \<Rightarrow> string list option \<Rightarrow> string option \<Rightarrow> VirtualKey" where
  "principal_key p pools grp =
     \<lparr>vk_id = pn_id p, vk_generation_hash = ''principal:'' @ pn_id p,
      vk_name = (case pn_name p of Some n \<Rightarrow> n | None \<Rightarrow> pn_id p),
      vk_allowed_scopes = map_option (map scope_pool) pools, vk_enabled = True, vk_created_at = 0, vk_group = grp,
      vk_labels = [], vk_expires_at = None, vk_deleted_at = None, vk_revision = 0\<rparr>"

definition synthesize_principal_key :: "Principal \<Rightarrow> RoleTable option \<Rightarrow> VirtualKey option" where
  "synthesize_principal_key p bindings =
     (if reserved_id (pn_id p) then None
      else case bindings of
        None \<Rightarrow> None
      | Some table \<Rightarrow>
          let granting = granting_bindings table p; (pools, everything) = pool_union granting in
          if granting = [] then None
          else if everything then Some (principal_key p None (first_group granting))
          else if pools = [] then None
          else Some (principal_key p (Some pools) (first_group granting)))"

section \<open>The chain and its specification\<close>

text \<open>What a chain decides when it asks every module: the first that does not pass.\<close>

definition first_verdict :: "(string \<times> AuthModule) list \<Rightarrow> string option \<Rightarrow> ChainVerdict option" where
  "first_verdict chain candidate =
     (case dropWhile (\<lambda>(name, m). am_authenticate m candidate = Pass) chain of
        [] \<Rightarrow> None
      | (name, m) # _ \<Rightarrow> (case am_authenticate m candidate of
          Identify p \<Rightarrow> Some (Identified name p None) | Reject \<Rightarrow> Some ChainDenied | Pass \<Rightarrow> None))"

text \<open>
  A cache whose rows say what their modules say, for the credentials \<open>C\<close>. Other requests change the
  cache in ways that keep this, as the requests below do.
\<close>

definition truthful :: "(string \<Rightarrow> string) \<Rightarrow> string set \<Rightarrow> (string \<times> AuthModule) list \<Rightarrow> CacheState \<Rightarrow> bool" where
  "truthful sha C chain c \<longleftrightarrow>
     (\<forall>name cred m e. ((name, sha cred), e) \<in> set (cc_entries c) \<longrightarrow> (name, m) \<in> set chain \<longrightarrow> cred \<in> C \<longrightarrow>
        verdict_outcome (ce_verdict e) = am_authenticate m (Some cred))"

definition kept_by :: "Peers \<Rightarrow> (CacheState \<Rightarrow> bool) \<Rightarrow> bool" where
  "kept_by peers P \<longleftrightarrow> (\<forall>k c. P c \<longrightarrow> P (peers k c))"

definition all_cached :: "(CacheState \<Rightarrow> bool) \<Rightarrow> SharedCache option \<Rightarrow> bool" where
  "all_cached P c \<longleftrightarrow> (case c of None \<Rightarrow> True | Some ch \<Rightarrow> P (sh_cache ch))"

lemma truthful_subset:
  "truthful sha C chain c \<Longrightarrow> set (cc_entries c1) \<subseteq> set (cc_entries c) \<Longrightarrow> truthful sha C chain c1"
  unfolding truthful_def by blast

lemma get_subset: "set (cc_entries (fst (cache_get sha name cred now c))) \<subseteq> set (cc_entries c)"
  by (auto simp: cache_get_def Let_def AList.delete_eq split: option.splits if_splits)

lemma get_row: "snd (cache_get sha name cred now c) = Some o' \<Longrightarrow>
    \<exists>e. ((name, sha cred), e) \<in> set (cc_entries c) \<and> o' = verdict_outcome (ce_verdict e)"
  by (auto simp: cache_get_def Let_def dest: map_of_SomeD split: option.splits if_splits)

lemma room_subset: "set (make_room now es) \<subseteq> set es"
  by (auto simp: make_room_def Let_def AList.delete_eq split: option.splits if_splits)

lemma update_subset: "set (AList.update k v es) \<subseteq> insert (k, v) (set es)"
  by (induction es) auto

lemma cacheable_outcome: "cacheable_verdict hash outcome = Some (v, ttl) \<Longrightarrow> verdict_outcome v = outcome"
  by (auto simp: cacheable_verdict_def split: AuthOutcome.splits)

lemma put_truthful:
  assumes "truthful sha C chain c" and "inj_on sha C" and "distinct (map fst chain)"
    and "(name, m) \<in> set chain" and "cred \<in> C" and "outcome = am_authenticate m (Some cred)"
  shows "truthful sha C chain (cache_put sha name cred outcome now gen c)"
proof (cases "cacheable_verdict (sha cred) outcome = None \<or> cc_flush_gen c \<noteq> gen")
  case True
  with assms(1) show ?thesis by (auto simp: cache_put_def Let_def split: option.splits)
next
  case False
  then obtain v ttl where v: "cacheable_verdict (sha cred) outcome = Some (v, ttl)" by auto
  let ?s = "wrap_u64 (cc_seq c + 1)"
  let ?e = "\<lparr>ce_expires_at = wrap_u64 (now + ttl), ce_inserted_seq = ?s, ce_verdict = v\<rparr>"
  have rows: "set (cc_entries (cache_put sha name cred outcome now gen c)) \<subseteq> insert ((name, sha cred), ?e) (set (cc_entries c))"
    using False v update_subset [of "(name, sha cred)" ?e "make_room now (cc_entries c)"] room_subset [of now "cc_entries c"]
    by (auto simp: cache_put_def Let_def)
  have "verdict_outcome (ce_verdict e) = am_authenticate m2 (Some cred2)"
    if r: "((name2, sha cred2), e) \<in> set (cc_entries (cache_put sha name cred outcome now gen c))"
      and m2: "(name2, m2) \<in> set chain" and c2: "cred2 \<in> C" for name2 cred2 e m2
  proof (cases "((name2, sha cred2), e) \<in> set (cc_entries c)")
    case True
    with assms(1) m2 c2 show ?thesis unfolding truthful_def by blast
  next
    case False
    with r rows have "name2 = name" "sha cred2 = sha cred" "e = ?e" by auto
    moreover from this(2) have "cred2 = cred" using assms(2,5) c2 by (simp add: inj_on_eq_iff)
    moreover have "m2 = m" using assms(3,4) m2 \<open>name2 = name\<close> by (metis eq_key_imp_eq_value)
    ultimately show ?thesis using cacheable_outcome [OF v] assms(6) by simp
  qed
  then show ?thesis unfolding truthful_def by blast
qed

lemma shared_put_truthful:
  assumes "truthful sha C chain (sh_cache ch)" and "kept_by peers (truthful sha C chain)"
    and "inj_on sha C" and "distinct (map fst chain)" and "(name, m) \<in> set chain" and "cred \<in> C" and "outcome = am_authenticate m (Some cred)"
  shows "truthful sha C chain (sh_cache (shared_put peers sha cred outcome now gen name ch))"
proof -
  have "truthful sha C chain (peers (sh_accesses ch) (sh_cache ch))" using assms(1,2) by (simp add: kept_by_def)
  from put_truthful [OF this assms(3-7)] show ?thesis by (simp add: shared_put_def shared_def)
qed

definition passed :: "(string \<times> AuthModule) list \<Rightarrow> string option \<Rightarrow> string \<Rightarrow> bool" where
  "passed chain candidate name \<longleftrightarrow> (\<exists>m. (name, m) \<in> set chain \<and> am_authenticate m candidate = Pass)"

lemma puts_truthful:
  assumes "truthful sha C chain (sh_cache ch)" and "kept_by peers (truthful sha C chain)"
    and "inj_on sha C" and "distinct (map fst chain)" and "cred \<in> C" and "list_all (passed chain (Some cred)) names"
  shows "truthful sha C chain (sh_cache (fold (shared_put peers sha cred Pass now gen) names ch))"
  using assms(1,6)
proof (induction names arbitrary: ch)
  case (Cons n names)
  then obtain m where m: "(n, m) \<in> set chain" "Pass = am_authenticate m (Some cred)" by (auto simp: passed_def)
  from shared_put_truthful [OF Cons.prems(1) assms(2-4) m(1) assms(5) m(2)] Cons show ?case by simp
qed simp

lemma commit_truthful:
  assumes "all_cached (truthful sha C chain) c" and "kept_by peers (truthful sha C chain)"
    and "inj_on sha C" and "distinct (map fst chain)" and "(name, m) \<in> set chain" and "set_option candidate \<subseteq> C"
    and "list_all (passed chain candidate) pending" and "am_authenticate m candidate = Identify p"
  shows "all_cached (truthful sha C chain) (chain_commit peers sha now gen name m p pending candidate c)"
proof (cases "\<exists>ch cred. c = Some ch \<and> candidate = Some cred")
  case True
  then obtain ch cred where c: "c = Some ch" "candidate = Some cred" by blast
  have t: "truthful sha C chain (sh_cache ch)" and cred: "cred \<in> C" using assms(1,6) c by (simp_all add: all_cached_def)
  from puts_truthful [OF t assms(2-4) cred] assms(7) c(2)
  have "truthful sha C chain (sh_cache (fold (shared_put peers sha cred Pass now gen) pending ch))" by simp
  from this shared_put_truthful [OF this assms(2-5) cred] assms(8) c show ?thesis
    by (simp add: chain_commit_def all_cached_def Let_def)
next
  case False
  with assms(1) show ?thesis by (auto simp: chain_commit_def split: option.splits)
qed

lemma lookup_truthful:
  assumes "all_cached (truthful sha C chain) c" and "kept_by peers (truthful sha C chain)" and "set_option candidate \<subseteq> C"
    and "(name, m) \<in> set chain" and "chain_lookup peers sha now name m candidate c = (c1, hit)"
  shows "all_cached (truthful sha C chain) c1 \<and> (hit \<noteq> None \<longrightarrow> hit = Some (am_authenticate m candidate))"
proof (cases "\<exists>ch cred. c = Some ch \<and> candidate = Some cred \<and> am_cacheable m")
  case True
  then obtain ch cred where c: "c = Some ch" "candidate = Some cred" "am_cacheable m" by blast
  let ?s = "peers (sh_accesses ch) (sh_cache ch)"
  have h: "truthful sha C chain ?s" and cred: "cred \<in> C" using assms(1-3) c by (simp_all add: all_cached_def kept_by_def)
  have c1: "c1 = Some \<lparr>sh_cache = fst (cache_get sha name cred now ?s), sh_accesses = Suc (sh_accesses ch)\<rparr>"
    and hit: "hit = snd (cache_get sha name cred now ?s)"
    using assms(5) c by (auto simp: chain_lookup_def shared_def case_prod_unfold Let_def)
  have "hit = Some (am_authenticate m candidate)" if "hit = Some o'" for o'
    using get_row that h assms(4) cred c(2) unfolding hit truthful_def by metis
  with truthful_subset [OF h get_subset] c1 show ?thesis by (auto simp: all_cached_def)
next
  case False
  with assms(1,5) show ?thesis by (auto simp: chain_lookup_def split: option.splits if_splits)
qed

lemma chain_loop_agrees:
  assumes "all_cached (truthful sha C whole) c" and "kept_by peers (truthful sha C whole)"
    and "inj_on sha C" and "distinct (map fst whole)" and "set_option candidate \<subseteq> C"
    and "set chain \<subseteq> set whole" and "list_all (passed whole candidate) pending"
  shows "snd (chain_loop peers sha now gen candidate chain pending c) = first_verdict chain candidate
    \<and> all_cached (truthful sha C whole) (fst (chain_loop peers sha now gen candidate chain pending c))"
  using assms(1,6,7)
proof (induction chain arbitrary: pending c)
  case (Cons x rest)
  obtain name m where x: "x = (name, m)" by (cases x)
  then have m: "(name, m) \<in> set whole" using Cons.prems(2) by simp
  obtain c1 hit where l: "chain_lookup peers sha now name m candidate c = (c1, hit)" by (meson surj_pair)
  from lookup_truthful [OF Cons.prems(1) assms(2,5) m l]
  have h: "all_cached (truthful sha C whole) c1" and hit: "hit \<noteq> None \<longrightarrow> hit = Some (am_authenticate m candidate)" by auto
  have o': "(case hit of Some o' \<Rightarrow> o' | None \<Rightarrow> am_authenticate m candidate) = am_authenticate m candidate"
    using hit by (cases hit) auto
  let ?pending = "if hit = None \<and> cache_here m c candidate \<and> am_authenticate m candidate = Pass then pending @ [name] else pending"
  have "am_authenticate m candidate = Pass \<Longrightarrow> passed whole candidate name" using m by (auto simp: passed_def)
  with Cons.prems(3) have p: "list_all (passed whole candidate) ?pending" by simp
  show ?case
  proof (cases "am_authenticate m candidate")
    case (Identify p')
    from commit_truthful [OF h assms(2-4) m assms(5) Cons.prems(3) Identify] Identify show ?thesis
      by (simp add: x l o' first_verdict_def Let_def)
  next
    case Reject
    with h show ?thesis by (simp add: x l o' first_verdict_def Let_def)
  next
    case Pass
    have "set rest \<subseteq> set whole" using Cons.prems(2) by simp
    from Cons.IH [OF h this p] Pass show ?thesis by (simp add: x l o' first_verdict_def Let_def)
  qed
qed (simp add: first_verdict_def)

lemma generation_truthful:
  "all_cached P c \<Longrightarrow> kept_by peers P \<Longrightarrow> all_cached P (fst (chain_generation peers c))"
  by (auto simp: all_cached_def kept_by_def chain_generation_def shared_def Let_def split: option.splits)

text \<open>
  What the chain has to decide, without a cache: an open door only without any module and without
  the signed keys; otherwise the first module that does not pass; otherwise a token that verifies,
  if the chain takes signed keys; otherwise a denial.
\<close>

definition chain_spec :: "Crypto \<Rightarrow> u64 \<Rightarrow> AuthMiddleware \<Rightarrow> string option \<Rightarrow> KeyState option \<Rightarrow> KeyState option \<times> ChainVerdict" where
  "chain_spec cr now aw candidate gov =
     (case first_verdict (aw_chain aw) candidate of
        Some v \<Rightarrow> (gov, v)
      | None \<Rightarrow>
          if aw_chain aw = [] \<and> \<not> aw_keys_in_chain aw then (gov, OpenDoor)
          else (case (gov, candidate) of
             (Some ks, Some (b # token)) \<Rightarrow>
               if aw_keys_in_chain aw
               then (Some (fst (verify_token cr (b # token) now ks)),
                     case snd (verify_token cr (b # token) now ks) of
                       Some key \<Rightarrow> Identified ''keys'' \<lparr>pn_id = vk_id key, pn_name = Some (vk_name key), pn_roles = [], pn_ttl_secs = None\<rparr> (Some key)
                     | None \<Rightarrow> ChainDenied)
               else (gov, ChainDenied)
           | _ \<Rightarrow> (gov, ChainDenied)))"

lemma run_chain_agrees:
  assumes "all_cached (truthful sha C (aw_chain aw)) c" and "kept_by peers (truthful sha C (aw_chain aw))"
    and "inj_on sha C" and "distinct (map fst (aw_chain aw))" and "set_option candidate \<subseteq> C"
    and "run_chain_cached peers sha cr now aw candidate (c, gov) = ((c1, gov1), v)"
  shows "(gov1, v) = chain_spec cr now aw candidate gov \<and> all_cached (truthful sha C (aw_chain aw)) c1"
proof (cases "aw_chain aw = [] \<and> \<not> aw_keys_in_chain aw")
  case True
  with assms(1,6) show ?thesis by (simp add: run_chain_cached_def chain_spec_def first_verdict_def)
next
  case False
  obtain c2 gen where g: "chain_generation peers c = (c2, gen)" by (meson surj_pair)
  have "all_cached (truthful sha C (aw_chain aw)) c2" using generation_truthful [OF assms(1,2)] g by simp
  from chain_loop_agrees [OF this assms(2-5) order_refl, of "[]"] obtain c3
    where l: "chain_loop peers sha now gen candidate (aw_chain aw) [] c2 = (c3, first_verdict (aw_chain aw) candidate)"
      and t: "all_cached (truthful sha C (aw_chain aw)) c3"
    by (metis list.pred_inject(1) prod.collapse)
  show ?thesis
  proof (cases "first_verdict (aw_chain aw) candidate")
    case (Some w)
    with assms(6) False t show ?thesis by (auto simp: run_chain_cached_def chain_spec_def g l)
  next
    case None
    with assms(6) False t show ?thesis
      by (auto simp: run_chain_cached_def chain_spec_def g l keys_arm_verdict_def KEYS_MODULE_def principal_from_vkey_def
          split: option.splits if_splits prod.splits list.splits)
  qed
qed

text \<open>A history of requests over one cache, and what it has to answer.\<close>

fun served ::
  "Peers \<Rightarrow> (string \<Rightarrow> string) \<Rightarrow> Crypto \<Rightarrow> AuthMiddleware \<Rightarrow> (u64 \<times> string option) list \<Rightarrow> SharedCache option \<times> KeyState option
   \<Rightarrow> SharedCache option \<times> ChainVerdict list" where
  "served peers sha cr aw [] s = (fst s, [])"
| "served peers sha cr aw ((now, candidate) # qs) s =
     (let (s1, v) = run_chain_cached peers sha cr now aw candidate s; (c, vs) = served peers sha cr aw qs s1 in (c, v # vs))"

fun served_spec :: "Crypto \<Rightarrow> AuthMiddleware \<Rightarrow> (u64 \<times> string option) list \<Rightarrow> KeyState option \<Rightarrow> ChainVerdict list" where
  "served_spec cr aw [] gov = []"
| "served_spec cr aw ((now, candidate) # qs) gov =
     (let (gov1, v) = chain_spec cr now aw candidate gov in v # served_spec cr aw qs gov1)"

lemma served_agrees:
  assumes "kept_by peers (truthful sha C (aw_chain aw))" and "inj_on sha C" and "distinct (map fst (aw_chain aw))"
    and "list_all (\<lambda>(now, candidate). set_option candidate \<subseteq> C) qs" and "all_cached (truthful sha C (aw_chain aw)) c"
  shows "snd (served peers sha cr aw qs (c, gov)) = served_spec cr aw qs gov
    \<and> all_cached (truthful sha C (aw_chain aw)) (fst (served peers sha cr aw qs (c, gov)))"
  using assms(4,5)
proof (induction qs arbitrary: c gov)
  case (Cons x qs)
  obtain now candidate where x: "x = (now, candidate)" by (cases x)
  obtain c1 gov1 v where r: "run_chain_cached peers sha cr now aw candidate (c, gov) = ((c1, gov1), v)" by (metis prod.collapse)
  have "set_option candidate \<subseteq> C" using Cons.prems(1) x by simp
  from run_chain_agrees [OF Cons.prems(2) assms(1-3) this r]
  have spec: "chain_spec cr now aw candidate gov = (gov1, v)" and t: "all_cached (truthful sha C (aw_chain aw)) c1" by simp_all
  have "list_all (\<lambda>(now, candidate). set_option candidate \<subseteq> C) qs" using Cons.prems(1) by simp
  from Cons.IH [OF this t, of gov1] show ?case by (simp add: x r spec case_prod_unfold Let_def)
qed simp

text \<open>
  C21: the cache changes no verdict. Over any history of requests that starts with an empty cache,
  whatever credentials they present and at whatever times, every request is decided as the modules
  and the verifier of signed keys decide it when nothing is cached, as long as the answer of a module
  depends on the credential alone and no two of the credentials have the same digest. The rows left
  behind are true to the modules again, which is all that is asked of the requests of others.
\<close>

theorem cached_chain_agrees:
  assumes "kept_by peers (truthful sha C (aw_chain aw))" and "inj_on sha C" and "distinct (map fst (aw_chain aw))"
    and "list_all (\<lambda>(now, candidate). set_option candidate \<subseteq> C) qs"
  shows "snd (served peers sha cr aw qs (Some \<lparr>sh_cache = cache_new, sh_accesses = n\<rparr>, gov)) = served_spec cr aw qs gov
    \<and> all_cached (truthful sha C (aw_chain aw)) (fst (served peers sha cr aw qs (Some \<lparr>sh_cache = cache_new, sh_accesses = n\<rparr>, gov)))"
  by (rule served_agrees [OF assms]) (simp add: all_cached_def truthful_def cache_new_def)

section \<open>A denial admits nothing to the cache\<close>

definition live_rows :: "u64 \<Rightarrow> CacheState \<Rightarrow> (CacheKey \<times> CacheEntry) set" where
  "live_rows now c = {(k, e). map_of (cc_entries c) k = Some e \<and> now < ce_expires_at e}"

lemma get_live_rows: "live_rows now (fst (cache_get sha name cred now c)) = live_rows now c"
  by (auto simp: live_rows_def cache_get_def Let_def AList.delete_conv' split: option.splits if_splits)

lemma get_seq: "cc_seq (fst (cache_get sha name cred now c)) = cc_seq c"
  by (auto simp: cache_get_def Let_def split: option.splits)

definition same_rows :: "u64 \<Rightarrow> SharedCache option \<Rightarrow> SharedCache option \<Rightarrow> bool" where
  "same_rows now c c1 \<longleftrightarrow> (case (c, c1) of
     (Some a, Some b) \<Rightarrow> live_rows now (sh_cache b) = live_rows now (sh_cache a) \<and> cc_seq (sh_cache b) = cc_seq (sh_cache a)
   | (None, None) \<Rightarrow> True | _ \<Rightarrow> False)"

definition alone :: Peers where "alone = (\<lambda>k c. c)"

lemma same_rows_trans: "same_rows now a b \<Longrightarrow> same_rows now b c \<Longrightarrow> same_rows now a c"
  by (auto simp: same_rows_def split: option.splits)

lemma lookup_same_rows:
  "chain_lookup alone sha now name m candidate c = (c1, hit) \<Longrightarrow> same_rows now c c1"
  by (auto simp: chain_lookup_def shared_def alone_def same_rows_def get_live_rows get_seq case_prod_unfold Let_def
      split: option.splits if_splits)

lemma chain_loop_denied:
  assumes "chain_loop alone sha now gen candidate chain pending c = (c1, v)" and "\<And>name p. v \<noteq> Some (Identified name p None)"
  shows "same_rows now c c1"
  using assms
proof (induction chain arbitrary: pending c)
  case Nil
  then show ?case by (auto simp: same_rows_def split: option.splits)
next
  case (Cons x rest)
  obtain name m where x: "x = (name, m)" by (cases x)
  obtain c2 hit where l: "chain_lookup alone sha now name m candidate c = (c2, hit)" by (meson surj_pair)
  note r = lookup_same_rows [OF l]
  let ?o = "case hit of Some o' \<Rightarrow> o' | None \<Rightarrow> am_authenticate m candidate"
  show ?case
  proof (cases ?o)
    case (Identify p)
    with Cons.prems show ?thesis by (auto simp: x l Let_def)
  next
    case Reject
    with Cons.prems(1) r show ?thesis by (auto simp: x l Let_def)
  next
    case Pass
    let ?pending = "if hit = None \<and> cache_here m c candidate \<and> ?o = Pass then pending @ [name] else pending"
    have "chain_loop alone sha now gen candidate rest ?pending c2 = (c1, v)"
      using Cons.prems(1) Pass by (simp add: x l Let_def)
    from same_rows_trans [OF r Cons.IH [OF this Cons.prems(2)]] show ?thesis .
  qed
qed

lemma generation_same_rows: "same_rows now c (fst (chain_generation alone c))"
  by (auto simp: chain_generation_def shared_def alone_def same_rows_def Let_def split: option.splits)

text \<open>
  Unauthenticated traffic admits nothing to the cache. A run of the chain that no module
  identifies leaves every live row as it was and inserts none, so it can evict nobody.
\<close>

lemma denied_run_admits_nothing:
  assumes "run_chain_cached alone sha cr now aw candidate (Some c, gov) = ((Some c1, gov1), v)"
    and "\<And>name p. v \<noteq> Identified name p None"
  shows "live_rows now (sh_cache c1) = live_rows now (sh_cache c) \<and> cc_seq (sh_cache c1) = cc_seq (sh_cache c)"
proof (cases "aw_chain aw = [] \<and> \<not> aw_keys_in_chain aw")
  case True
  with assms(1) show ?thesis by (simp add: run_chain_cached_def)
next
  case False
  obtain c2 gen where g: "chain_generation alone (Some c) = (c2, gen)" by (meson surj_pair)
  obtain c3 w where l: "chain_loop alone sha now gen candidate (aw_chain aw) [] c2 = (c3, w)" by (meson surj_pair)
  have c3: "c3 = Some c1" and w: "w \<noteq> None \<Longrightarrow> w = Some v"
    using assms(1) False by (auto simp: run_chain_cached_def g l Let_def case_prod_unfold split: option.splits if_splits)
  have "\<And>name p. w \<noteq> Some (Identified name p None)" using w assms(2) by fastforce
  from same_rows_trans [OF generation_same_rows [of now "Some c" , unfolded g fst_conv] chain_loop_denied [OF l this]]
  show ?thesis by (simp add: same_rows_def c3)
qed

section \<open>A hit renews itself\<close>

text \<open>
  An identity found in the cache is put again, with a new life. \<open>requests\<close> runs the chain once per
  time; \<open>spaced\<close>: each request comes before the life given by the one before ends.
\<close>

definition identify_ttl :: "Principal \<Rightarrow> u64" where
  "identify_ttl p = min (case pn_ttl_secs p of Some t \<Rightarrow> t | None \<Rightarrow> DEFAULT_IDENTIFY_TTL_SECS) MAX_IDENTIFY_TTL_SECS"

fun requests ::
  "(string \<Rightarrow> string) \<Rightarrow> Crypto \<Rightarrow> AuthMiddleware \<Rightarrow> string \<Rightarrow> u64 list \<Rightarrow> SharedCache option \<times> KeyState option \<Rightarrow> ChainVerdict list" where
  "requests sha cr aw cred [] s = []"
| "requests sha cr aw cred (now # ts) s =
     (let (s1, v) = run_chain_cached alone sha cr now aw (Some cred) s in v # requests sha cr aw cred ts s1)"

fun spaced :: "u64 \<Rightarrow> u64 \<Rightarrow> u64 list \<Rightarrow> bool" where
  "spaced ttl t [] = True"
| "spaced ttl t (u # us) = (t \<le> u \<and> u < t + ttl \<and> u + ttl \<le> u64_max \<and> spaced ttl u us)"

definition row_until :: "(string \<Rightarrow> string) \<Rightarrow> string \<Rightarrow> string \<Rightarrow> Principal \<Rightarrow> u64 \<Rightarrow> CacheState \<Rightarrow> bool" where
  "row_until sha name cred p t c \<longleftrightarrow>
     (\<exists>e. map_of (cc_entries c) (name, sha cred) = Some e \<and> ce_verdict e = CachedIdentify p \<and> ce_expires_at e = t)"

lemma put_row:
  "now + identify_ttl p \<le> u64_max \<Longrightarrow>
   row_until sha name cred p (now + identify_ttl p) (cache_put sha name cred (Identify p) now (cache_generation c) c)"
  by (simp add: row_until_def cache_put_def cacheable_verdict_def identify_ttl_def cache_generation_def Let_def
      AList.update_conv wrap_u64_def u64_max_def split: option.split)

lemma hit_renews:
  assumes "aw_chain aw = (name, m) # rest" and "am_cacheable m" and "row_until sha name cred p t (sh_cache c)" and "now < t"
    and "now + identify_ttl p \<le> u64_max"
  shows "\<exists>c1. run_chain_cached alone sha cr now aw (Some cred) (Some c, gov) = ((Some c1, gov), Identified name p None)
    \<and> row_until sha name cred p (now + identify_ttl p) (sh_cache c1)"
proof -
  have get: "cache_get sha name cred now (sh_cache c) = (sh_cache c, Some (Identify p))"
    using assms(3,4) by (auto simp: row_until_def cache_get_def)
  show ?thesis
    using put_row [OF assms(5), of sha name cred "sh_cache c"] assms(1,2)
    by (simp add: run_chain_cached_def chain_generation_def shared_def alone_def chain_lookup_def get chain_commit_def
        cache_here_def shared_put_def Let_def)
qed

text \<open>
  A cached identity outlives its module. Once a credential is cached, requests that
  follow one another within its time to live are all admitted with that identity, for as long as
  they go on, whatever the module would answer meanwhile: the hour that bounds a
  revocation is counted from the last use.
\<close>

lemma cached_identity_is_renewed_by_use:
  assumes "aw_chain aw = (name, m) # rest" and "am_cacheable m"
    and "row_until sha name cred p (t + identify_ttl p) (sh_cache c)" and "spaced (identify_ttl p) t ts"
  shows "requests sha cr aw cred ts (Some c, gov) = replicate (length ts) (Identified name p None)"
  using assms(3,4)
proof (induction ts arbitrary: t c)
  case (Cons u us)
  then have u: "u < t + identify_ttl p" "u + identify_ttl p \<le> u64_max" "spaced (identify_ttl p) u us" by simp_all
  from hit_renews [OF assms(1,2) Cons.prems(1) u(1,2)] obtain c1
    where r: "run_chain_cached alone sha cr u aw (Some cred) (Some c, gov) = ((Some c1, gov), Identified name p None)"
      and row: "row_until sha name cred p (u + identify_ttl p) (sh_cache c1)" by blast
  from Cons.IH [OF row u(3)] show ?case by (simp add: r)
qed simp

text \<open>An identity provider that now rejects everyone, and a credential it once identified.\<close>

definition closed_idp :: AuthMiddleware where
  "closed_idp = \<lparr>aw_keys_in_chain = True, aw_chain = [(''oidc'', \<lparr>am_cacheable = True, am_authenticate = (\<lambda>t. Reject)\<rparr>)],
     aw_has_plugin_module = True\<rparr>"

definition remembered :: SharedCache where
  "remembered = \<lparr>sh_cache = cache_put id ''oidc'' ''t'' (Identify (from_id ''alice'')) 1000 0 cache_new, sh_accesses = 0\<rparr>"

lemma cached_identity_is_renewed_by_use_witness:
  "requests id example_crypto closed_idp ''t'' [1200, 1400, 1600] (Some remembered, None)
     = replicate 3 (Identified ''oidc'' (from_id ''alice'') None)
   \<and> am_authenticate (snd (hd (aw_chain closed_idp))) (Some ''t'') = Reject"
proof -
  let ?m = "\<lparr>am_cacheable = True, am_authenticate = (\<lambda>t. Reject)\<rparr>"
  have ttl: "identify_ttl (from_id ''alice'') = 300"
    by (simp add: identify_ttl_def from_id_def DEFAULT_IDENTIFY_TTL_SECS_def MAX_IDENTIFY_TTL_SECS_def)
  have c: "aw_chain closed_idp = [(''oidc'', ?m)]" "am_cacheable ?m" by (simp_all add: closed_idp_def)
  have r: "row_until id ''oidc'' ''t'' (from_id ''alice'') (1000 + identify_ttl (from_id ''alice'')) (sh_cache remembered)"
    using put_row [of 1000 "from_id ''alice''" id "''oidc''" "''t''" cache_new]
    by (simp add: ttl remembered_def u64_max_def cache_generation_def cache_new_def)
  have s: "spaced (identify_ttl (from_id ''alice'')) 1000 [1200, 1400, 1600]" by (simp add: ttl u64_max_def)
  from cached_identity_is_renewed_by_use [OF c(1) c(2) r s, of example_crypto None] c(1)
  show ?thesis by (simp add: numeral_eq_Suc)
qed

definition open_idp :: AuthMiddleware where
  "open_idp = \<lparr>aw_keys_in_chain = True,
     aw_chain = [(''oidc'', \<lparr>am_cacheable = True, am_authenticate = (\<lambda>t. if t = Some ''t'' then Identify (from_id ''alice'') else Pass)\<rparr>)],
     aw_has_plugin_module = True\<rparr>"

theorem cached_chain_agrees_witness:
  "snd (served alone id example_crypto open_idp [(1000, Some ''t''), (1001, Some ''t''), (1002, None)]
      (Some \<lparr>sh_cache = cache_new, sh_accesses = 0\<rparr>, None))
     = [Identified ''oidc'' (from_id ''alice'') None, Identified ''oidc'' (from_id ''alice'') None, ChainDenied]"
proof -
  have k: "kept_by alone P" for P by (simp add: kept_by_def alone_def)
  have "distinct (map fst (aw_chain open_idp))" "inj_on id {''t''}"
    and "list_all (\<lambda>(now, candidate). set_option candidate \<subseteq> {''t''}) [(1000 :: u64, Some ''t''), (1001, Some ''t''), (1002, None)]"
    by (simp_all add: open_idp_def)
  from cached_chain_agrees [OF k this(2,1,3), of example_crypto 0 None] show ?thesis
    by (simp add: chain_spec_def first_verdict_def open_idp_def)
qed

section \<open>What an identity may do\<close>

lemma add_pools_set: "set (add_pools new pools) = set pools \<union> set new"
  unfolding add_pools_def by (induction new arbitrary: pools) (auto split: if_splits)

lemma pool_union_from:
  "snd (fold union_step bs acc) \<longleftrightarrow> snd acc \<or> (\<exists>b \<in> set bs. rb_allowed_pools b = None)"
  "set (fst (fold union_step bs acc)) = set (fst acc) \<union> {p. \<exists>b new. b \<in> set bs \<and> rb_allowed_pools b = Some new \<and> p \<in> set new}"
  by (induction bs arbitrary: acc) (auto simp: union_step_def add_pools_set split: option.splits)

lemma pool_union_spec:
  "snd (pool_union bs) \<longleftrightarrow> (\<exists>b \<in> set bs. rb_allowed_pools b = None)"
  "set (fst (pool_union bs)) = {p. \<exists>b new. b \<in> set bs \<and> rb_allowed_pools b = Some new \<and> p \<in> set new}"
  using pool_union_from [of bs "([], False)"] by (simp_all add: pool_union_def)

lemma granting_set: "b \<in> set (granting_bindings table p) \<longleftrightarrow> (\<exists>role \<in> set (pn_roles p). table role = Some b)"
  unfolding granting_bindings_def by (auto simp: List.map_filter_def image_iff)

definition binding_grants :: "RoleBindingCfg \<Rightarrow> string \<Rightarrow> bool" where
  "binding_grants b pool \<longleftrightarrow> (case rb_allowed_pools b of None \<Rightarrow> True | Some pools \<Rightarrow> pool \<in> set pools)"

lemma scope_allowed_pools:
  "scope_allowed (principal_key p pools grp) ''pool'' pool \<longleftrightarrow> (case pools of None \<Rightarrow> True | Some ps \<Rightarrow> pool \<in> set ps)"
  by (auto simp: scope_allowed_def principal_key_def scope_pool_def list_ex_iff split: option.splits)

text \<open>The union of the granting bindings, as the pools it lets through.\<close>

lemma union_allows:
  "(\<exists>b \<in> set bs. binding_grants b pool) \<longleftrightarrow> snd (pool_union bs) \<or> pool \<in> set (fst (pool_union bs))"
proof
  assume "\<exists>b \<in> set bs. binding_grants b pool"
  then obtain b where "b \<in> set bs" "binding_grants b pool" by blast
  then show "snd (pool_union bs) \<or> pool \<in> set (fst (pool_union bs))"
    unfolding pool_union_spec by (cases "rb_allowed_pools b") (auto simp: binding_grants_def)
next
  assume "snd (pool_union bs) \<or> pool \<in> set (fst (pool_union bs))"
  then obtain b where "b \<in> set bs" "rb_allowed_pools b = None \<or> (\<exists>new. rb_allowed_pools b = Some new \<and> pool \<in> set new)"
    unfolding pool_union_spec by blast
  then have "b \<in> set bs" "binding_grants b pool" by (auto simp: binding_grants_def)
  then show "\<exists>b \<in> set bs. binding_grants b pool" by blast
qed

text \<open>
  C23: an identity gets what its roles were given. The key synthesised for a principal admits a
  pool exactly when a role it carries is bound, under the provider that identified it, to a
  binding that lists the pool or omits the list; a principal whose id could be taken for a bucket
  of a group or of a minted key gets none.
\<close>

theorem rekey_grants_what_is_bound:
  "(\<exists>key. synthesize_principal_key p bindings = Some key \<and> scope_allowed key ''pool'' pool) \<longleftrightarrow>
   \<not> reserved_id (pn_id p) \<and>
   (\<exists>table role b. bindings = Some table \<and> role \<in> set (pn_roles p) \<and> table role = Some b \<and> binding_grants b pool)"
proof (cases "reserved_id (pn_id p)")
  case False
  show ?thesis
  proof (cases bindings)
    case (Some table)
    let ?bs = "granting_bindings table p"
    obtain pools everything where u: "pool_union ?bs = (pools, everything)" by (meson surj_pair)
    have e: "(\<exists>role b. role \<in> set (pn_roles p) \<and> table role = Some b \<and> binding_grants b pool) \<longleftrightarrow> everything \<or> pool \<in> set pools"
    proof -
      have "(\<exists>role b. role \<in> set (pn_roles p) \<and> table role = Some b \<and> binding_grants b pool) \<longleftrightarrow> (\<exists>b \<in> set ?bs. binding_grants b pool)"
        unfolding Bex_def granting_set by blast
      then show ?thesis using union_allows [of ?bs pool] by (simp add: u)
    qed
    have "?bs = [] \<Longrightarrow> \<not> everything \<and> pools = []" using u by (auto simp: pool_union_def)
    moreover have "synthesize_principal_key p bindings =
        (if ?bs = [] then None else if everything then Some (principal_key p None (first_group ?bs))
         else if pools = [] then None else Some (principal_key p (Some pools) (first_group ?bs)))"
      using False by (simp add: synthesize_principal_key_def Some Let_def u)
    ultimately show ?thesis using e False Some by (auto simp: scope_allowed_pools split: if_splits)
  qed (simp add: synthesize_principal_key_def)
qed (simp add: synthesize_principal_key_def)

end
