(* ===== verification/Sig_V4.thy ===== *)
theory Sig_V4
  imports Breaker_Classify Budget_Window Busbar_Text "HOL-Library.List_Lexorder" "HOL-Library.Char_ord"
begin

text \<open>
  AWS Signature Version 4, \<open>src/crates/busbar/src/sigv4.rs\<close>: the signer of outbound Bedrock
  requests (with \<open>proto/bedrock/writer.rs\<close>, which assembles its headers) and the verifier of inbound
  ones, which recomputes the signature by the same code.

  SHA-256, HMAC and hex are arguments. A header value is visible ASCII, blanks and tabs, so text is
  bytes and trimming concerns blanks and tabs; \<open>HeaderValue::from_str\<close> of the \<open>http\<close>
  crate is the argument \<open>header_ok\<close>.
\<close>

section \<open>Text\<close>

fun split_char :: "char \<Rightarrow> string \<Rightarrow> string list" where
  "split_char c [] = [[]]"
| "split_char c (x # xs) =
     (if x = c then [] # split_char c xs
      else case split_char c xs of [] \<Rightarrow> [[x]] | s # ss \<Rightarrow> (x # s) # ss)"

fun join :: "string \<Rightarrow> string list \<Rightarrow> string" where
  "join sep [] = []"
| "join sep [x] = x"
| "join sep (x # y # xs) = x @ sep @ join sep (y # xs)"

definition lower :: "char \<Rightarrow> char" where
  "lower c = (let n = (of_char c :: nat) in if 65 \<le> n \<and> n \<le> 90 then char_of (n + 32) else c)"

definition ascii_lowercase :: "string \<Rightarrow> string" where "ascii_lowercase = map lower"

text \<open>\<open>{:0w}\<close> of a number.\<close>

definition padded :: "nat \<Rightarrow> nat \<Rightarrow> string" where
  "padded w n = replicate (w - length (to_decimal n)) (CHR ''0'') @ to_decimal n"

section \<open>Signing\<close>

record SigCrypto =
  sc_sha256_hex :: "string \<Rightarrow> string"
  sc_hmac :: "string \<Rightarrow> string \<Rightarrow> string"
  sc_hex :: "string \<Rightarrow> string"

definition SIGV4_ALGORITHM :: string where "SIGV4_ALGORITHM = ''AWS4-HMAC-SHA256''"
definition SIGV4_TERMINATION :: string where "SIGV4_TERMINATION = ''aws4_request''"
definition SIGV4_KEY_PREFIX :: string where "SIGV4_KEY_PREFIX = ''AWS4''"
definition X_AMZ_DATE :: string where "X_AMZ_DATE = ''x-amz-date''"
definition X_AMZ_CONTENT_SHA256 :: string where "X_AMZ_CONTENT_SHA256 = ''x-amz-content-sha256''"
definition X_AMZ_SECURITY_TOKEN :: string where "X_AMZ_SECURITY_TOKEN = ''x-amz-security-token''"
definition CLOCK_SKEW_SECS :: u64 where "CLOCK_SKEW_SECS = 300"
definition SECS_PER_HOUR :: u64 where "SECS_PER_HOUR = 3600"

definition signing_key :: "SigCrypto \<Rightarrow> string \<Rightarrow> string \<Rightarrow> string \<Rightarrow> string \<Rightarrow> string" where
  "signing_key cr secret datestamp region service =
     (let k_date = sc_hmac cr (SIGV4_KEY_PREFIX @ secret) datestamp;
          k_region = sc_hmac cr k_date region;
          k_service = sc_hmac cr k_region service
      in sc_hmac cr k_service SIGV4_TERMINATION)"

definition hex_upper :: "nat \<Rightarrow> char" where
  "hex_upper n = ''0123456789ABCDEF'' ! n"

definition unreserved :: "char \<Rightarrow> bool" where
  "unreserved c \<longleftrightarrow> (let n = (of_char c :: nat) in 65 \<le> n \<and> n \<le> 90 \<or> 97 \<le> n \<and> n \<le> 122 \<or> 48 \<le> n \<and> n \<le> 57)
     \<or> c \<in> {CHR ''-'', CHR ''_'', CHR ''.'', CHR ''~'', CHR ''/''}"

definition uri_encode_path :: "string \<Rightarrow> string" where
  "uri_encode_path path = concat (map (\<lambda>c.
     if unreserved c then [c]
     else let n = (of_char c :: nat) in [CHR ''%'', hex_upper (n div 16), hex_upper (n mod 16)]) path)"

text \<open>The date arithmetic of the two conversions, written out there; on days it is that of the calendar.\<close>

definition amz_civil :: "i64 \<Rightarrow> i64 \<times> i64 \<times> i64" where
  "amz_civil days =
     (let z = days + 719468;
          era = quot (if z \<ge> 0 then z else z - 146096) 146097;
          doe = z - era * 146097;
          yoe = quot (doe - quot doe 1460 + quot doe 36524 - quot doe 146096) 365;
          year = yoe + era * 400;
          doy = doe - (365 * yoe + quot yoe 4 - quot yoe 100);
          mp = quot (5 * doy + 2) 153;
          day = doy - quot (153 * mp + 2) 5 + 1;
          month = (if mp < 10 then mp + 3 else mp - 9)
      in (if month \<le> 2 then year + 1 else year, month, day))"

lemma amz_civil_eq: "amz_civil = civil_from_days"
  by (simp add: fun_eq_iff amz_civil_def civil_from_days_def Let_def)

definition format_amz_time :: "u64 \<Rightarrow> string \<times> string" where
  "format_amz_time epoch_secs =
     (let sod = epoch_secs mod SECS_PER_DAY;
          (year, month, day) = amz_civil (int (epoch_secs div SECS_PER_DAY));
          datestamp = padded 4 (nat year) @ padded 2 (nat month) @ padded 2 (nat day)
      in (datestamp @ ''T'' @ padded 2 (sod div SECS_PER_HOUR) @ padded 2 (sod mod SECS_PER_HOUR div 60)
            @ padded 2 (sod mod 60) @ ''Z'', datestamp))"

text \<open>Only blanks count as white space of a header value; runs of them become one.\<close>

fun collapse_blanks :: "string \<Rightarrow> bool \<Rightarrow> string \<Rightarrow> string" where
  "collapse_blanks out pending [] = out"
| "collapse_blanks out pending (c # cs) =
     (if c = CHR '' '' then collapse_blanks out True cs
      else collapse_blanks ((if pending \<and> out \<noteq> [] then out @ '' '' else out) @ [c]) False cs)"

definition canonicalize_header_value :: "string \<Rightarrow> string" where
  "canonicalize_header_value v = collapse_blanks [] False v"

definition canonical_headers :: "(string \<times> string) list \<Rightarrow> (string \<times> string) list" where
  "canonical_headers headers = sort_key fst (map (\<lambda>(k, v). (ascii_lowercase k, canonicalize_header_value v)) headers)"

definition newline :: string where "newline = [CHR 0x0A]"

definition canonical_request :: "string \<Rightarrow> string \<Rightarrow> string \<Rightarrow> (string \<times> string) list \<Rightarrow> string \<Rightarrow> string" where
  "canonical_request verb uri query h payload_hash =
     verb @ newline @ uri @ newline @ query @ newline @ concat (map (\<lambda>(k, v). k @ '':'' @ v @ newline) h) @ newline
       @ join '';'' (map fst h) @ newline @ payload_hash"

definition sign_v4 ::
  "SigCrypto \<Rightarrow> string \<Rightarrow> string \<Rightarrow> string \<Rightarrow> string \<Rightarrow> string \<Rightarrow> string \<Rightarrow> (string \<times> string) list \<Rightarrow> string \<Rightarrow> string \<Rightarrow> string
   \<Rightarrow> string \<times> string" where
  "sign_v4 cr secret region service verb uri query headers payload_hash amzdate datestamp =
     (let h = canonical_headers headers;
          scope = datestamp @ ''/'' @ region @ ''/'' @ service @ ''/'' @ SIGV4_TERMINATION;
          string_to_sign = SIGV4_ALGORITHM @ newline @ amzdate @ newline @ scope @ newline
            @ sc_sha256_hex cr (canonical_request verb uri query h payload_hash);
          key = signing_key cr secret datestamp region service
      in (sc_hex cr (sc_hmac cr key string_to_sign), join '';'' (map fst h)))"

section \<open>Verifying\<close>

datatype SigError =
    MissingAuthorization | MalformedAuthorization | MissingDate | SigExpired | SignedHeadersMismatch | SignatureMismatch

record ParsedAuthHeader =
  pa_access_key_id :: string
  pa_datestamp :: string
  pa_region :: string
  pa_service :: string
  pa_signed_headers :: string
  pa_signature :: string

text \<open>The sections of the header; of one that comes twice the later counts.\<close>

fun auth_sections ::
  "string list \<Rightarrow> string option \<times> string option \<times> string option \<Rightarrow> (string option \<times> string option \<times> string option) option" where
  "auth_sections [] acc = Some acc"
| "auth_sections (s # ss) (credential, signed_headers, signature) =
     (case split_once (CHR ''='') (header_trim s) of
        None \<Rightarrow> None
      | Some (k, v) \<Rightarrow>
          auth_sections ss
            (if header_trim k = ''Credential'' then (Some (header_trim v), signed_headers, signature)
             else if header_trim k = ''SignedHeaders'' then (credential, Some (header_trim v), signature)
             else if header_trim k = ''Signature'' then (credential, signed_headers, Some (header_trim v))
             else (credential, signed_headers, signature)))"

definition parse_credential :: "string \<Rightarrow> (string \<times> string \<times> string \<times> string) option" where
  "parse_credential credential = (case split_char (CHR ''/'') credential of
     [access_key_id, datestamp, region, service, termination] \<Rightarrow>
       if termination \<noteq> SIGV4_TERMINATION then None
       else if access_key_id = [] \<or> datestamp = [] \<or> region = [] \<or> service = [] then None
       else Some (access_key_id, datestamp, region, service)
   | _ \<Rightarrow> None)"

definition parse_authorization_header :: "string \<Rightarrow> SigError + ParsedAuthHeader" where
  "parse_authorization_header value0 =
     (case split_once (CHR '' '') (header_trim value0) of
        None \<Rightarrow> Inl MissingAuthorization
      | Some (algo, rest) \<Rightarrow>
          if algo \<noteq> SIGV4_ALGORITHM then Inl MissingAuthorization
          else case auth_sections (split_char (CHR '','') rest) (None, None, None) of
            Some (Some credential, Some signed_headers, Some signature) \<Rightarrow>
              if signature = [] \<or> signed_headers = [] then Inl MalformedAuthorization
              else (case parse_credential credential of
                  None \<Rightarrow> Inl MalformedAuthorization
                | Some (access_key_id, datestamp, region, service) \<Rightarrow>
                    Inr \<lparr>pa_access_key_id = access_key_id, pa_datestamp = datestamp, pa_region = region, pa_service = service,
                         pa_signed_headers = signed_headers, pa_signature = signature\<rparr>)
          | _ \<Rightarrow> Inl MalformedAuthorization)"

definition amz_digits :: "string \<Rightarrow> int option" where
  "amz_digits s = (if list_all Busbar_Text.is_digit s then Some (int (digits_value 0 s)) else None)"

definition amz_days :: "i64 \<Rightarrow> i64 \<Rightarrow> i64 \<Rightarrow> i64" where
  "amz_days year month day =
     (let y = (if month \<le> 2 then year - 1 else year);
          era = quot (if y \<ge> 0 then y else y - 399) 400;
          yoe = y - era * 400;
          doy = quot (153 * (if month > 2 then month - 3 else month + 9) + 2) 5 + day - 1;
          doe = yoe * 365 + quot yoe 4 - quot yoe 100 + doy
      in era * 146097 + doe - 719468)"

lemma amz_days_eq: "amz_days = days_from_civil"
  by (simp add: fun_eq_iff amz_days_def days_from_civil_def Let_def)

definition parse_amz_date :: "string \<Rightarrow> u64 option" where
  "parse_amz_date d =
     (if length d \<noteq> 16 \<or> d ! 8 \<noteq> CHR ''T'' \<or> d ! 15 \<noteq> CHR ''Z'' then None
      else if \<not> list_all (\<lambda>c. (of_char c :: nat) < 128) d then None
      else do {
        year \<leftarrow> amz_digits (take 4 d);
        month \<leftarrow> amz_digits (take 2 (drop 4 d));
        day \<leftarrow> amz_digits (take 2 (drop 6 d));
        hour \<leftarrow> amz_digits (take 2 (drop 9 d));
        mi \<leftarrow> amz_digits (take 2 (drop 11 d));
        sec \<leftarrow> amz_digits (take 2 (drop 13 d));
        if \<not> (1 \<le> month \<and> month \<le> 12) \<or> \<not> (1 \<le> day \<and> day \<le> 31) \<or> hour > 23 \<or> mi > 59 \<or> sec > 60 then None
        else let epoch = amz_days year month day * int SECS_PER_DAY + hour * int SECS_PER_HOUR + mi * 60 + sec
             in if epoch < 0 then None else Some (nat epoch) })"

record InboundRequest =
  ir_verb :: string
  ir_canonical_uri :: string
  ir_canonical_querystring :: string
  ir_headers :: "(string \<times> string) list"
  ir_payload_hash :: string
  ir_amzdate :: string

fun select_headers :: "(string \<times> string) list \<Rightarrow> string list \<Rightarrow> (string \<times> string) list option" where
  "select_headers headers [] = Some []"
| "select_headers headers (name # names) =
     (case find (\<lambda>(k, v). ascii_lowercase k = ascii_lowercase name) headers of
        None \<Rightarrow> None
      | Some (k, v) \<Rightarrow> map_option (Cons (ascii_lowercase name, v)) (select_headers headers names))"

definition abs_diff :: "u64 \<Rightarrow> u64 \<Rightarrow> u64" where
  "abs_diff a b = (if a < b then b - a else a - b)"

definition verify_inbound_sigv4 :: "SigCrypto \<Rightarrow> ParsedAuthHeader \<Rightarrow> InboundRequest \<Rightarrow> string \<Rightarrow> u64 \<Rightarrow> SigError option" where
  "verify_inbound_sigv4 cr parsed req secret now =
     (case parse_amz_date (ir_amzdate req) of
        None \<Rightarrow> Some MissingDate
      | Some req_epoch \<Rightarrow>
          if abs_diff req_epoch now > CLOCK_SKEW_SECS then Some SigExpired
          else if length (ir_amzdate req) < 8 \<or> pa_datestamp parsed \<noteq> take 8 (ir_amzdate req) then Some MalformedAuthorization
          else let names = split_char (CHR '';'') (pa_signed_headers parsed) in
            if \<not> list_ex (\<lambda>h. ascii_lowercase h = ''host'') names then Some SignedHeadersMismatch
            else (case select_headers (ir_headers req) names of
                None \<Rightarrow> Some SignedHeadersMismatch
              | Some selected \<Rightarrow>
                  let (computed_sig, computed_signed_headers) =
                        sign_v4 cr secret (pa_region parsed) (pa_service parsed) (ir_verb req) (ir_canonical_uri req)
                          (ir_canonical_querystring req) selected (ir_payload_hash req) (ir_amzdate req) (pa_datestamp parsed)
                  in if computed_signed_headers = pa_signed_headers parsed \<and> computed_sig = pa_signature parsed
                     then None else Some SignatureMismatch))"

section \<open>The signer of Bedrock requests\<close>

text \<open>A label of the host that follows a Bedrock service label and looks like a region.\<close>

definition ascii_digit :: "char \<Rightarrow> bool" where
  "ascii_digit c \<longleftrightarrow> (let n = (of_char c :: nat) in 48 \<le> n \<and> n \<le> 57)"

definition ascii_alphabetic :: "char \<Rightarrow> bool" where
  "ascii_alphabetic c \<longleftrightarrow> (let n = (of_char c :: nat) in 65 \<le> n \<and> n \<le> 90 \<or> 97 \<le> n \<and> n \<le> 122)"

definition looks_like_region :: "string \<Rightarrow> bool" where
  "looks_like_region label =
     (let parts = split_char (CHR ''-'') label in
      3 \<le> length parts \<and> list_all (\<lambda>p. p \<noteq> []) parts \<and> list_all ascii_digit (last parts)
      \<and> list_all (list_all ascii_alphabetic) (butlast parts))"

fun region_label :: "string list \<Rightarrow> string option" where
  "region_label (l # nxt # ls) =
     (if l \<in> {''bedrock-runtime'', ''bedrock-runtime-fips'', ''bedrock'', ''bedrock-fips''} \<and> looks_like_region nxt
      then Some nxt else region_label (nxt # ls))"
| "region_label ls = None"

definition derive_sigv4_region :: "string \<Rightarrow> string option" where
  "derive_sigv4_region host = region_label (split_char (CHR ''.'') host)"

text \<open>\<open>splitn(3, ':')\<close>: access key, secret and the rest, which is the session token.\<close>

definition lane_key_parts :: "string \<Rightarrow> (string \<times> string \<times> string option) option" where
  "lane_key_parts key = (case split_once (CHR '':'') key of
     None \<Rightarrow> None
   | Some (access, rest) \<Rightarrow>
       (let (secret, token) = (case split_once (CHR '':'') rest of None \<Rightarrow> (rest, None) | Some (s, t) \<Rightarrow> (s, Some t)) in
        if access = [] \<or> secret = [] then None else Some (access, secret, token)))"

definition signed_header_list :: "string \<Rightarrow> string \<Rightarrow> string \<Rightarrow> string option \<Rightarrow> (string \<times> string) list" where
  "signed_header_list host payload_hash amzdate token =
     [(''content-type'', ''application/json''), (''host'', host), (X_AMZ_CONTENT_SHA256, payload_hash), (X_AMZ_DATE, amzdate)]
     @ (case token of None \<Rightarrow> [] | Some t \<Rightarrow> [(X_AMZ_SECURITY_TOKEN, t)])"

definition authorization_value :: "string \<Rightarrow> string \<Rightarrow> string \<Rightarrow> string \<Rightarrow> string \<Rightarrow> string \<Rightarrow> string" where
  "authorization_value access datestamp region service signed_headers signature =
     SIGV4_ALGORITHM @ '' Credential='' @ access @ ''/'' @ datestamp @ ''/'' @ region @ ''/'' @ service @ ''/'' @ SIGV4_TERMINATION
       @ '', SignedHeaders='' @ signed_headers @ '', Signature='' @ signature"

definition sigv4_sign_headers ::
  "SigCrypto \<Rightarrow> (string \<Rightarrow> bool) \<Rightarrow> string \<Rightarrow> string \<Rightarrow> string \<Rightarrow> string \<Rightarrow> u64 \<Rightarrow> (string \<times> string) list" where
  "sigv4_sign_headers cr header_ok key host canonical_uri body timestamp =
     (case lane_key_parts key of
        None \<Rightarrow> []
      | Some (access, secret, token) \<Rightarrow>
          let region = (case derive_sigv4_region host of Some r \<Rightarrow> r | None \<Rightarrow> ''us-east-1'');
              service = ''bedrock'';
              (amzdate, datestamp) = format_amz_time timestamp;
              payload_hash = sc_sha256_hex cr body
          in if (case token of Some t \<Rightarrow> \<not> header_ok t | None \<Rightarrow> False) then []
             else
               let (signature, signed_headers) =
                     sign_v4 cr secret region service ''POST'' canonical_uri []
                       (signed_header_list host payload_hash amzdate token) payload_hash amzdate datestamp;
                   authorization = authorization_value access datestamp region service signed_headers signature
               in if \<not> header_ok authorization \<or> \<not> header_ok amzdate \<or> \<not> header_ok payload_hash then []
                  else [(''authorization'', authorization), (X_AMZ_DATE, amzdate), (X_AMZ_CONTENT_SHA256, payload_hash)]
                    @ (case token of None \<Rightarrow> [] | Some t \<Rightarrow> [(X_AMZ_SECURITY_TOKEN, t)]))"

section \<open>Dates\<close>

lemma padded_digits: "list_all Busbar_Text.is_digit (padded w n) \<and> digits_value 0 (padded w n) = n"
proof -
  have z: "digits_value 0 (replicate k (CHR ''0'') @ s) = digits_value 0 s" for k s
    by (induction k) simp_all
  have "list_all Busbar_Text.is_digit (replicate k (CHR ''0''))" for k
    by (induction k) (simp_all add: Busbar_Text.is_digit_def)
  then show ?thesis using to_decimal_digits [of n] by (simp add: padded_def z digits_value_decimal)
qed

lemma to_decimal_length: "0 < w \<Longrightarrow> n < 10 ^ w \<Longrightarrow> length (to_decimal n) \<le> w"
proof (induction w arbitrary: n)
  case (Suc w)
  show ?case
  proof (cases "n < 10")
    case True
    then show ?thesis by (simp add: to_decimal.simps [of n])
  next
    case False
    with Suc.prems have "n div 10 < 10 ^ w" by (simp add: div_less_iff_less_mult mult.commute)
    moreover have "0 < w" using False Suc.prems by (cases w) simp_all
    ultimately show ?thesis using Suc.IH [of "n div 10"] False by (simp add: to_decimal.simps [of n])
  qed
qed simp

lemma padded_length: "0 < w \<Longrightarrow> n < 10 ^ w \<Longrightarrow> length (padded w n) = w"
  using to_decimal_length [of w n] by (simp add: padded_def)

lemma amz_digits_padded: "amz_digits (padded w n) = Some (int n)"
  by (simp add: amz_digits_def padded_digits)

lemma year_range:
  assumes "0 \<le> z" and "z < 2932897" and "civil_from_days z = (y, m, d)"
  shows "1 \<le> y \<and> y \<le> 9999 \<and> 1 \<le> m \<and> m \<le> 12 \<and> 1 \<le> d \<and> d \<le> 31"
proof -
  have v: "valid_date y m d" and z: "days_from_civil y m d = z"
    using civil_calendar_bijection [of z 0 0 0] assms(3) by auto
  have b: "1 \<le> m" "m \<le> 12" "1 \<le> d" "d \<le> 31"
    using v by (auto simp: valid_date_def days_in_month_def split: if_splits)
  have mm: "0 \<le> march_month m" "march_month m \<le> 11" using civil_month_march [OF b(1,2)] by simp_all
  have md: "0 \<le> month_days (march_month m)" "month_days (march_month m) \<le> 337"
    using mm by (auto simp: month_days_def intro!: order.trans [OF zdiv_mono1 [of _ "153 * 11 + 2" 5]])
  have s: "year_days (march_year y m) + month_days (march_month m) + d - 1 - 719468 = z"
    using days_from_civil_eq [OF b(1), of y d] z by simp
  have low: "1 \<le> march_year y m"
  proof (rule ccontr)
    assume "\<not> ?thesis"
    then have "year_days (march_year y m) \<le> year_days 0" by (intro year_days_mono) simp
    with s md b(4) assms(1) show False by (simp add: year_days_def)
  qed
  have high: "march_year y m \<le> 9999"
  proof (rule ccontr)
    assume "\<not> ?thesis"
    then have "year_days 10000 \<le> year_days (march_year y m)" by (intro year_days_mono) simp
    with s md b(3) assms(2) show False by (simp add: year_days_def)
  qed
  have "y \<noteq> 10000"
  proof
    assume y: "y = 10000"
    with high have m: "m \<le> 2" by (simp add: march_year_def split: if_splits)
    with y b have "march_year y m = 9999" "306 \<le> month_days (march_month m)"
      by (auto simp: march_year_def march_month_def month_days_def)
    with s b(3) assms(2) show False by (simp add: year_days_def)
  qed
  with low high b show ?thesis by (auto simp: march_year_def split: if_splits)
qed

lemma amz_date_roundtrip:
  assumes "t < 253402300800"
  shows "parse_amz_date (fst (format_amz_time t)) = Some t"
    and "take 8 (fst (format_amz_time t)) = snd (format_amz_time t)" and "length (fst (format_amz_time t)) = 16"
proof -
  define days sod where "days = t div 86400" and "sod = t mod 86400"
  obtain y m d where c: "civil_from_days (int days) = (y, m, d)" by (metis prod.collapse)
  have days: "0 \<le> int days" "int days < 2932897" using assms by (simp_all add: days_def)
  note r = year_range [OF days c]
  define Y M D where "Y = nat y" and "M = nat m" and "D = nat d"
  have n: "int Y = y" "int M = m" "int D = d" using r by (simp_all add: Y_def M_def D_def)
  have sod: "sod < 86400" by (simp add: sod_def)
  define h mi se where "h = sod div 3600" and "mi = sod mod 3600 div 60" and "se = sod mod 60"
  have b: "h < 24" "mi < 60" "se < 60" using sod by (simp_all add: h_def mi_def se_def less_mult_imp_div_less)
  have sum: "h * 3600 + mi * 60 + se = sod"
  proof -
    have "sod mod 3600 mod 60 = se" by (simp add: se_def mod_mod_cancel)
    moreover have "h * 3600 + sod mod 3600 = sod" unfolding h_def by (rule div_mult_mod_eq)
    moreover have "mi * 60 + sod mod 3600 mod 60 = sod mod 3600" unfolding mi_def by (rule div_mult_mod_eq)
    ultimately show ?thesis by (simp only:)
  qed
  let ?A = "padded 4 Y" and ?B = "padded 2 M" and ?C = "padded 2 D" and ?H = "padded 2 h" and ?I = "padded 2 mi" and ?S = "padded 2 se"
  have bounds: "Y < 10 ^ 4" "M < 10 ^ 2" "D < 10 ^ 2" "h < 10 ^ 2" "mi < 10 ^ 2" "se < 10 ^ 2"
    using r n b by simp_all
  have l: "length ?A = 4" "length ?B = 2" "length ?C = 2" "length ?H = 2" "length ?I = 2" "length ?S = 2"
    by (rule padded_length, simp, rule bounds)+
  have f: "fst (format_amz_time t) = ?A @ ?B @ ?C @ ''T'' @ ?H @ ?I @ ?S @ ''Z''" "snd (format_amz_time t) = ?A @ ?B @ ?C"
    using c by (simp_all add: format_amz_time_def amz_civil_eq SECS_PER_DAY_def SECS_PER_HOUR_def Let_def days_def [symmetric]
        sod_def [symmetric] Y_def M_def D_def h_def mi_def se_def)
  show "length (fst (format_amz_time t)) = 16" by (simp add: f l)
  show "take 8 (fst (format_amz_time t)) = snd (format_amz_time t)" by (simp add: f l)
  have ascii: "list_all (\<lambda>c. (of_char c :: nat) < 128) (padded w k)" for w k
    using conjunct1 [OF padded_digits [of w k]] by (auto simp: list_all_iff Busbar_Text.is_digit_def)
  have days_back: "days_from_civil y m d = int days"
    using civil_calendar_bijection [of "int days" 0 0 0] c by simp
  have epoch: "int days * 86400 + int h * 3600 + int mi * 60 + int se = int t"
    using sum div_mult_mod_eq [of t 86400] by (simp add: days_def sod_def [symmetric])
  have "take 4 (fst (format_amz_time t)) = ?A" "take 2 (drop 4 (fst (format_amz_time t))) = ?B"
    "take 2 (drop 6 (fst (format_amz_time t))) = ?C" "take 2 (drop 9 (fst (format_amz_time t))) = ?H"
    "take 2 (drop 11 (fst (format_amz_time t))) = ?I" "take 2 (drop 13 (fst (format_amz_time t))) = ?S"
    "fst (format_amz_time t) ! 8 = CHR ''T''" "fst (format_amz_time t) ! 15 = CHR ''Z''"
    by (simp_all add: f l nth_append)
  moreover have "list_all (\<lambda>c. (of_char c :: nat) < 128) (fst (format_amz_time t))" by (simp add: f ascii)
  moreover have "length (fst (format_amz_time t)) = 16" by (simp add: f l)
  ultimately show "parse_amz_date (fst (format_amz_time t)) = Some t"
    using r b epoch by (simp add: parse_amz_date_def amz_digits_padded n amz_days_eq days_back SECS_PER_DAY_def SECS_PER_HOUR_def Let_def)
qed

section \<open>What the signer writes the verifier reads\<close>

lemma split_char_step: "c \<notin> set s \<Longrightarrow> split_char c (s @ c # rest) = s # split_char c rest"
  by (induction s) auto

lemma split_char_last: "c \<notin> set s \<Longrightarrow> split_char c s = [s]"
  by (induction s) auto

lemma split_char_chars: "c \<notin> (\<Union>s \<in> set (split_char c xs). set s) \<and> set xs \<subseteq> {c} \<union> (\<Union>s \<in> set (split_char c xs). set s)"
proof (induction xs)
  case (Cons x xs)
  then show ?case by (cases "split_char c xs") auto
qed simp

lemma trim_blank: "header_trim (CHR '' '' # s) = header_trim s"
  by (simp add: header_trim_def header_space_def)

lemma trim_clean:
  assumes "s = [] \<or> \<not> header_space (hd s) \<and> \<not> header_space (last s)"
  shows "header_trim s = s"
proof (cases s rule: rev_cases)
  case (snoc xs x)
  then have x: "\<not> header_space x" and h: "\<not> header_space (hd s)" using assms by simp_all
  then have "dropWhile header_space s = s" by (cases s) simp_all
  then show ?thesis using x by (simp add: header_trim_def snoc)
qed (simp add: header_trim_def)

definition plain :: "string \<Rightarrow> bool" where
  "plain s \<longleftrightarrow> s \<noteq> [] \<and> list_all (\<lambda>c. \<not> header_space c \<and> c \<noteq> CHR '','' \<and> c \<noteq> CHR ''/'') s"

lemma plainD: "plain s \<Longrightarrow> s \<noteq> [] \<and> CHR '','' \<notin> set s \<and> CHR ''/'' \<notin> set s"
  by (auto simp: plain_def list_all_iff)

lemma plain_ends: "plain s \<Longrightarrow> \<not> header_space (hd s) \<and> \<not> header_space (last s)"
  by (auto simp: plain_def list_all_iff)

lemma trim_plain: "plain s \<Longrightarrow> header_trim s = s"
  using plain_ends trim_clean by blast

lemma parse_written:
  assumes "plain access" "plain datestamp" "plain region" "plain service" "plain signed_headers" "plain signature"
  shows "parse_authorization_header (authorization_value access datestamp region service signed_headers signature) =
    Inr \<lparr>pa_access_key_id = access, pa_datestamp = datestamp, pa_region = region, pa_service = service,
         pa_signed_headers = signed_headers, pa_signature = signature\<rparr>"
proof -
  let ?cred = "access @ ''/'' @ datestamp @ ''/'' @ region @ ''/'' @ service @ ''/'' @ SIGV4_TERMINATION"
  let ?rest = "''Credential='' @ ?cred @ '', SignedHeaders='' @ signed_headers @ '', Signature='' @ signature"
  let ?written = "authorization_value access datestamp region service signed_headers signature"
  have v: "?written = SIGV4_ALGORITHM @ CHR '' '' # ?rest" by (simp add: authorization_value_def)
  have lv: "last ?written = last signature" using plainD [OF assms(6)] by (simp add: authorization_value_def)
  have "header_trim ?written = ?written"
    by (rule trim_clean) (use plain_ends [OF assms(6)] lv in \<open>simp add: v SIGV4_ALGORITHM_def header_space_def\<close>)
  moreover have "split_once (CHR '' '') ?written = Some (SIGV4_ALGORITHM, ?rest)"
    unfolding v by (rule split_once_first) (simp add: SIGV4_ALGORITHM_def)
  moreover have "split_char (CHR '','') ?rest =
      [''Credential='' @ ?cred, '' SignedHeaders='' @ signed_headers, '' Signature='' @ signature]"
  proof -
    have nc: "CHR '','' \<notin> set (''Credential='' @ ?cred)" "CHR '','' \<notin> set ('' SignedHeaders='' @ signed_headers)"
      "CHR '','' \<notin> set ('' Signature='' @ signature)"
      using plainD [OF assms(1)] plainD [OF assms(2)] plainD [OF assms(3)] plainD [OF assms(4)] plainD [OF assms(5)]
        plainD [OF assms(6)] by (simp_all add: SIGV4_TERMINATION_def)
    have "?rest = (''Credential='' @ ?cred) @ CHR '','' # ('' SignedHeaders='' @ signed_headers) @ CHR '','' # '' Signature='' @ signature"
      by simp
    then show ?thesis unfolding split_char_step [OF nc(1)] split_char_step [OF nc(2)] split_char_last [OF nc(3)]
      by (simp only: split_char_step [OF nc(1)] split_char_step [OF nc(2)] split_char_last [OF nc(3)])
  qed
  moreover have "auth_sections [''Credential='' @ ?cred, '' SignedHeaders='' @ signed_headers, '' Signature='' @ signature] (None, None, None)
      = Some (Some ?cred, Some signed_headers, Some signature)"
  proof -
    have lc: "last ?cred = CHR ''t''" by (simp add: SIGV4_TERMINATION_def)
    have t1: "header_trim (''Credential='' @ ?cred) = ''Credential='' @ ?cred"
      by (rule trim_clean) (simp add: header_space_def SIGV4_TERMINATION_def)
    have t2: "header_trim ('' SignedHeaders='' @ signed_headers) = ''SignedHeaders='' @ signed_headers"
      using trim_clean [of "''SignedHeaders='' @ signed_headers"] plain_ends [OF assms(5)] plainD [OF assms(5)]
      by (simp add: trim_blank header_space_def)
    have t3: "header_trim ('' Signature='' @ signature) = ''Signature='' @ signature"
      using trim_clean [of "''Signature='' @ signature"] plain_ends [OF assms(6)] plainD [OF assms(6)]
      by (simp add: trim_blank header_space_def)
    have s: "split_once (CHR ''='') (k @ CHR ''='' # v) = Some (k, v)" if "CHR ''='' \<notin> set k" for k v
      using that by (rule split_once_first)
    have s1: "split_once (CHR ''='') (''Credential='' @ ?cred) = Some (''Credential'', ?cred)"
      using s [of "''Credential''" ?cred] by simp
    have s2: "split_once (CHR ''='') (''SignedHeaders='' @ signed_headers) = Some (''SignedHeaders'', signed_headers)"
      using s [of "''SignedHeaders''" signed_headers] by simp
    have s3: "split_once (CHR ''='') (''Signature='' @ signature) = Some (''Signature'', signature)"
      using s [of "''Signature''" signature] by simp
    have k: "header_trim ''Credential'' = ''Credential''" "header_trim ''SignedHeaders'' = ''SignedHeaders''"
      "header_trim ''Signature'' = ''Signature''" by (rule trim_clean, simp add: header_space_def)+
    have tc: "header_trim ?cred = ?cred"
      by (rule trim_clean) (use plain_ends [OF assms(1)] plainD [OF assms(1)] in \<open>simp add: header_space_def SIGV4_TERMINATION_def\<close>)
    have a1: "auth_sections ((''Credential='' @ ?cred) # ss) (None, None, None) = auth_sections ss (Some ?cred, None, None)" for ss
      by (simp only: auth_sections.simps t1 s1 option.case prod.case k tc refl if_True)
    have a2: "auth_sections (('' SignedHeaders='' @ signed_headers) # ss) (Some ?cred, None, None)
        = auth_sections ss (Some ?cred, Some signed_headers, None)" for ss
      by (simp only: auth_sections.simps t2 s2 option.case prod.case k trim_plain [OF assms(5)]) simp
    have a3: "auth_sections [('' Signature='' @ signature)] (Some ?cred, Some signed_headers, None)
        = Some (Some ?cred, Some signed_headers, Some signature)"
      by (simp only: auth_sections.simps t3 s3 option.case prod.case k trim_plain [OF assms(6)]) simp
    show ?thesis unfolding a1 a2 a3 ..
  qed
  moreover have "split_char (CHR ''/'') ?cred = [access, datestamp, region, service, SIGV4_TERMINATION]"
    using plainD [OF assms(1)] plainD [OF assms(2)] plainD [OF assms(3)] plainD [OF assms(4)]
    by (simp add: split_char_step split_char_last SIGV4_TERMINATION_def)
  ultimately show ?thesis
    using plainD [OF assms(1)] plainD [OF assms(2)] plainD [OF assms(3)] plainD [OF assms(4)] plainD [OF assms(5)] plainD [OF assms(6)]
    by (simp add: parse_authorization_header_def parse_credential_def)
qed

lemma region_plain:
  assumes "looks_like_region r"
  shows "plain r"
proof -
  let ?parts = "split_char (CHR ''-'') r"
  have ne: "?parts \<noteq> []" and dig: "list_all ascii_digit (last ?parts)" and alp: "list_all (list_all ascii_alphabetic) (butlast ?parts)"
    and np: "list_all (\<lambda>p. p \<noteq> []) ?parts"
    using assms by (auto simp: looks_like_region_def Let_def)
  have "ascii_digit c \<or> ascii_alphabetic c" if "p \<in> set ?parts" "c \<in> set p" for p c
  proof -
    have "p \<in> set (butlast ?parts) \<or> p = last ?parts" using that(1) ne by (metis append_butlast_last_id in_set_butlast_appendI rotate1.simps(2) set_ConsD set_rotate1)
    with dig alp that(2) show ?thesis by (auto simp: list_all_iff)
  qed
  then have c: "c = CHR ''-'' \<or> ascii_digit c \<or> ascii_alphabetic c" if "c \<in> set r" for c
    using split_char_chars [of "CHR ''-''" r] that by blast
  have "r \<noteq> []" using np by auto
  moreover have "\<not> header_space c \<and> c \<noteq> CHR '','' \<and> c \<noteq> CHR ''/''" if "c \<in> set r" for c
    using c [OF that] by (auto simp: header_space_def ascii_digit_def ascii_alphabetic_def Let_def)
  ultimately show ?thesis by (simp add: plain_def list_all_iff)
qed

lemma region_label_plain: "region_label ls = Some r \<Longrightarrow> plain r"
  by (induction ls rule: region_label.induct) (auto split: if_splits dest: region_plain)

lemma lower_id: "list_all (\<lambda>c. \<not> (65 \<le> (of_char c :: nat) \<and> (of_char c :: nat) \<le> 90)) s \<Longrightarrow> ascii_lowercase s = s"
  unfolding ascii_lowercase_def by (induction s) (auto simp: lower_def Let_def)

definition signed_names :: "string option \<Rightarrow> string list" where
  "signed_names token = [''content-type'', ''host'', X_AMZ_CONTENT_SHA256, X_AMZ_DATE] @ (if token = None then [] else [X_AMZ_SECURITY_TOKEN])"

lemmas name_defs = X_AMZ_CONTENT_SHA256_def X_AMZ_DATE_def X_AMZ_SECURITY_TOKEN_def

lemma signed_names_lower: "name \<in> set (signed_names token) \<Longrightarrow> ascii_lowercase name = name"
  by (rule lower_id) (auto simp: signed_names_def name_defs split: if_splits)

lemma signed_names_sorted: "sorted (signed_names token)" "distinct (signed_names token)"
  by (simp_all add: signed_names_def name_defs less_eq_char_def)

lemma map_fst_signed: "map fst (signed_header_list host ph d token) = signed_names token"
  by (cases token) (simp_all add: signed_header_list_def signed_names_def)

lemma canonical_signed:
  "map fst (canonical_headers (signed_header_list host ph d token)) = signed_names token"
proof -
  let ?h = "map (\<lambda>(k, v). (ascii_lowercase k, canonicalize_header_value v)) (signed_header_list host ph d token)"
  have "map fst ?h = map ascii_lowercase (signed_names token)"
    unfolding map_fst_signed [of host ph d token, symmetric] by (simp add: case_prod_unfold)
  also have "\<dots> = signed_names token" using signed_names_lower by (simp add: map_idI)
  finally have m: "map fst ?h = signed_names token" .
  then have "sorted (map fst ?h)" using signed_names_sorted by simp
  then have "sort_key fst ?h = ?h" by (rule sort_key_id_if_sorted)
  with m show ?thesis by (simp add: canonical_headers_def)
qed

lemma select_all:
  assumes "set hs \<subseteq> set headers" and "distinct (map fst headers)" and "\<And>k. k \<in> fst ` set headers \<Longrightarrow> ascii_lowercase k = k"
  shows "select_headers headers (map fst hs) = Some hs"
  using assms(1)
proof (induction hs)
  case (Cons x hs)
  obtain k v where x: "x = (k, v)" by (cases x)
  have low: "ascii_lowercase k' = k'" if "(k', v') \<in> set headers" for k' v' using assms(3) that by force
  have mem: "(k, v) \<in> set headers" using Cons.prems x by simp
  have "find (\<lambda>(k', v'). ascii_lowercase k' = ascii_lowercase k) headers = Some (k, v)"
    using assms(2) mem low
  proof (induction headers)
    case (Cons y ys)
    obtain k' v' where y: "y = (k', v')" by (cases y)
    have ly: "ascii_lowercase k' = k'" and lk: "ascii_lowercase k = k" using Cons.prems y by (auto intro: Cons.prems(3))
    show ?case
    proof (cases "k' = k")
      case True
      with Cons.prems y show ?thesis by (auto simp: ly lk rev_image_eqI)
    next
      case False
      have "find (\<lambda>(k', v'). ascii_lowercase k' = ascii_lowercase k) ys = Some (k, v)"
        using Cons.prems False y by (intro Cons.IH) auto
      with False show ?thesis by (simp add: y ly lk)
    qed
  qed simp
  with Cons.IH Cons.prems low [OF mem] show ?case by (simp add: x)
qed simp

lemma join_split:
  assumes "xs \<noteq> []" and "\<And>x. x \<in> set xs \<Longrightarrow> c \<notin> set x"
  shows "split_char c (join [c] xs) = xs"
  using assms
proof (induction xs rule: induct_list012)
  case (3 x y xs)
  then show ?case by (simp add: split_char_step)
qed (simp_all add: split_char_last)

lemma signed_names_join: "split_char (CHR '';'') (join '';'' (signed_names token)) = signed_names token"
  by (rule join_split) (auto simp: signed_names_def name_defs split: if_splits)

lemma signed_names_plain: "plain (join '';'' (signed_names token))"
  by (simp add: plain_def signed_names_def name_defs header_space_def)

text \<open>The request the signer's headers go out with, as the verifier takes it in.\<close>

definition wire_request :: "SigCrypto \<Rightarrow> string \<Rightarrow> string \<Rightarrow> string \<Rightarrow> string option \<Rightarrow> u64 \<Rightarrow> InboundRequest" where
  "wire_request cr host uri body token t =
     (let amzdate = fst (format_amz_time t); payload_hash = sc_sha256_hex cr body in
      \<lparr>ir_verb = ''POST'', ir_canonical_uri = uri, ir_canonical_querystring = [],
       ir_headers = signed_header_list host payload_hash amzdate token, ir_payload_hash = payload_hash, ir_amzdate = amzdate\<rparr>)"

definition hex_digests :: "SigCrypto \<Rightarrow> bool" where
  "hex_digests cr \<longleftrightarrow> (\<forall>k d. plain (sc_hex cr (sc_hmac cr k d)))"

lemma datestamp_plain:
  assumes "t < 253402300800"
  shows "plain (snd (format_amz_time t))"
proof -
  obtain y m d where c: "amz_civil (int (t div SECS_PER_DAY)) = (y, m, d)" by (metis prod.collapse)
  have "list_all Busbar_Text.is_digit (padded w n)" for w n using padded_digits by blast
  then have "list_all Busbar_Text.is_digit (snd (format_amz_time t))" by (simp add: format_amz_time_def c Let_def)
  moreover have "snd (format_amz_time t) \<noteq> []" using amz_date_roundtrip(2,3) [OF assms] by auto
  moreover have "Busbar_Text.is_digit c \<Longrightarrow> \<not> header_space c \<and> c \<noteq> CHR '','' \<and> c \<noteq> CHR ''/''" for c
    by (auto simp: Busbar_Text.is_digit_def header_space_def)
  ultimately show ?thesis by (auto simp: plain_def list_all_iff)
qed

lemma written_request_accepted:
  assumes "lane_key_parts key = Some (access, secret, token)" and "plain access" and "hex_digests cr"
    and "t < 253402300800" and "sigv4_sign_headers cr header_ok key host uri body t = (name, value) # out"
  shows "\<exists>parsed. parse_authorization_header value = Inr parsed \<and> pa_access_key_id parsed = access
    \<and> pa_signed_headers parsed = join '';'' (signed_names token)
    \<and> (\<forall>now. verify_inbound_sigv4 cr parsed (wire_request cr host uri body token t) secret now
        = (if abs_diff t now \<le> 300 then None else Some SigExpired))"
proof -
  obtain amzdate datestamp where d: "format_amz_time t = (amzdate, datestamp)" by (metis prod.collapse)
  define region where "region = (case derive_sigv4_region host of Some r \<Rightarrow> r | None \<Rightarrow> ''us-east-1'')"
  define ph where "ph = sc_sha256_hex cr body"
  let ?hs = "signed_header_list host ph amzdate token"
  obtain sig names where sn: "sign_v4 cr secret region ''bedrock'' ''POST'' uri [] ?hs ph amzdate datestamp = (sig, names)"
    by (metis prod.collapse)
  have names: "names = join '';'' (signed_names token)" and sig: "\<exists>k x. sig = sc_hex cr (sc_hmac cr k x)"
    using sn by (auto simp: sign_v4_def Let_def canonical_signed)
  have v: "value = authorization_value access datestamp region ''bedrock'' names sig"
    using assms(1,5) by (auto simp: sigv4_sign_headers_def d region_def [symmetric] ph_def [symmetric] sn Let_def
        split: if_splits option.splits)
  have "plain region"
    using region_label_plain by (auto simp: region_def derive_sigv4_region_def plain_def header_space_def split: option.splits)
  moreover have "plain datestamp" using datestamp_plain [OF assms(4)] d by simp
  moreover have "plain ''bedrock''" by (simp add: plain_def header_space_def)
  moreover have "plain sig" using sig assms(3) by (auto simp: hex_digests_def)
  ultimately have p: "parse_authorization_header value = Inr \<lparr>pa_access_key_id = access, pa_datestamp = datestamp,
      pa_region = region, pa_service = ''bedrock'', pa_signed_headers = names, pa_signature = sig\<rparr>"
    using parse_written [OF assms(2), of datestamp region "''bedrock''" names sig] signed_names_plain names v by simp
  have sel: "select_headers ?hs (signed_names token) = Some ?hs"
    using select_all [of ?hs ?hs] signed_names_sorted(2) [of token] signed_names_lower
    by (simp add: map_fst_signed flip: set_map) 
  have date: "parse_amz_date amzdate = Some t" "take 8 amzdate = datestamp" "length amzdate = 16"
    using amz_date_roundtrip [OF assms(4)] d by simp_all
  have host: "list_ex (\<lambda>h. ascii_lowercase h = ''host'') (signed_names token)"
    using signed_names_lower [of "''host''" token] by (auto simp: signed_names_def list_ex_iff)
  have "verify_inbound_sigv4 cr \<lparr>pa_access_key_id = access, pa_datestamp = datestamp, pa_region = region, pa_service = ''bedrock'',
      pa_signed_headers = names, pa_signature = sig\<rparr> (wire_request cr host uri body token t) secret now
      = (if abs_diff t now \<le> 300 then None else Some SigExpired)" for now
    using host by (simp add: verify_inbound_sigv4_def wire_request_def d date ph_def [symmetric] names signed_names_join sel
        sn [unfolded names] CLOCK_SKEW_SECS_def Let_def not_le)
  with p names show ?thesis by simp
qed

text \<open>
  The request as it arrives: the content type and the host the client sends, and of the signature
  nothing but the headers that were emitted. The verifier takes the date and the hash of the payload
  from these headers.
\<close>

definition header_of :: "string \<Rightarrow> (string \<times> string) list \<Rightarrow> string" where
  "header_of name headers = (case map_of headers name of Some v \<Rightarrow> v | None \<Rightarrow> [])"

definition received :: "string \<Rightarrow> string \<Rightarrow> (string \<times> string) list \<Rightarrow> InboundRequest" where
  "received host uri emitted =
     \<lparr>ir_verb = ''POST'', ir_canonical_uri = uri, ir_canonical_querystring = [],
      ir_headers = (''content-type'', ''application/json'') # (''host'', host) # emitted,
      ir_payload_hash = header_of X_AMZ_CONTENT_SHA256 emitted, ir_amzdate = header_of X_AMZ_DATE emitted\<rparr>"

lemma emitted_headers:
  assumes "lane_key_parts key = Some (access, secret, token)" and "sigv4_sign_headers cr header_ok key host uri body t = emitted"
    and "emitted \<noteq> []"
  shows "\<exists>auth. emitted = [(''authorization'', auth), (X_AMZ_DATE, fst (format_amz_time t)), (X_AMZ_CONTENT_SHA256, sc_sha256_hex cr body)]
    @ (case token of None \<Rightarrow> [] | Some tk \<Rightarrow> [(X_AMZ_SECURITY_TOKEN, tk)])"
  using assms by (auto simp: sigv4_sign_headers_def Let_def case_prod_unfold split: if_splits)

lemma received_verifies:
  assumes "emitted = [(''authorization'', auth), (X_AMZ_DATE, fst (format_amz_time t)), (X_AMZ_CONTENT_SHA256, sc_sha256_hex cr body)]
      @ (case token of None \<Rightarrow> [] | Some tk \<Rightarrow> [(X_AMZ_SECURITY_TOKEN, tk)])"
    and "pa_signed_headers parsed = join '';'' (signed_names token)"
  shows "verify_inbound_sigv4 cr parsed (received host uri emitted) secret now
    = verify_inbound_sigv4 cr parsed (wire_request cr host uri body token t) secret now"
proof -
  let ?hs = "signed_header_list host (sc_sha256_hex cr body) (fst (format_amz_time t)) token"
  have read: "header_of X_AMZ_CONTENT_SHA256 emitted = sc_sha256_hex cr body" "header_of X_AMZ_DATE emitted = fst (format_amz_time t)"
    by (simp_all add: assms(1) header_of_def name_defs)
  have mine: "select_headers ?hs (signed_names token) = Some ?hs"
    using select_all [of ?hs ?hs] signed_names_sorted(2) [of token] signed_names_lower
    by (simp add: map_fst_signed flip: set_map)
  let ?in = "ir_headers (received host uri emitted)"
  have names: "map fst ?in = [''content-type'', ''host'', ''authorization'', X_AMZ_DATE, X_AMZ_CONTENT_SHA256]
      @ (case token of None \<Rightarrow> [] | Some tk \<Rightarrow> [X_AMZ_SECURITY_TOKEN])"
    by (simp add: received_def assms(1) split: option.split)
  have "set ?hs \<subseteq> set ?in"
    by (cases token) (simp_all add: received_def assms(1) signed_header_list_def)
  moreover have "distinct (map fst ?in)" unfolding names by (cases token) (simp_all add: name_defs)
  moreover have "ascii_lowercase k = k" if "k \<in> fst ` set ?in" for k
  proof (rule lower_id)
    from that have "k \<in> set (map fst ?in)" by simp
    then show "list_all (\<lambda>c. \<not> (65 \<le> (of_char c :: nat) \<and> (of_char c :: nat) \<le> 90)) k"
      unfolding names by (cases token) (auto simp: name_defs)
  qed
  ultimately have "select_headers ?in (map fst ?hs) = Some ?hs" by (rule select_all)
  then have "select_headers (ir_headers (received host uri emitted)) (signed_names token) = Some ?hs" by (simp add: map_fst_signed)
  with mine read show ?thesis
    by (cases "parse_amz_date (fst (format_amz_time t))")
      (simp_all add: verify_inbound_sigv4_def received_def wire_request_def assms(2) signed_names_join Let_def)
qed

text \<open>
  C27: signer and verifier agree. The headers the signer of Bedrock requests emits, for any host, path,
  body and session token, are the authorization, the date, the hash of the body and the
  session token. The authorization parses back to the access key, and a request that carries
  just these headers beside its content type and host is accepted under the same secret exactly while
  the verifier's clock is within five minutes of the signer's.
\<close>

theorem signed_requests_verify:
  assumes "lane_key_parts key = Some (access, secret, token)" and "plain access" and "hex_digests cr"
    and "t < 253402300800" and "sigv4_sign_headers cr header_ok key host uri body t = emitted" and "emitted \<noteq> []"
  shows "map_of emitted X_AMZ_DATE = Some (fst (format_amz_time t))
    \<and> map_of emitted X_AMZ_CONTENT_SHA256 = Some (sc_sha256_hex cr body)
    \<and> map_of emitted X_AMZ_SECURITY_TOKEN = token
    \<and> (\<exists>auth parsed. map_of emitted ''authorization'' = Some auth
        \<and> parse_authorization_header auth = Inr parsed \<and> pa_access_key_id parsed = access
        \<and> (\<forall>now. verify_inbound_sigv4 cr parsed (received host uri emitted) secret now
             = (if abs_diff t now \<le> 300 then None else Some SigExpired)))"
proof -
  obtain auth where e: "emitted = [(''authorization'', auth), (X_AMZ_DATE, fst (format_amz_time t)),
      (X_AMZ_CONTENT_SHA256, sc_sha256_hex cr body)] @ (case token of None \<Rightarrow> [] | Some tk \<Rightarrow> [(X_AMZ_SECURITY_TOKEN, tk)])"
    using emitted_headers [OF assms(1,5,6)] by blast
  then obtain out where "sigv4_sign_headers cr header_ok key host uri body t = (''authorization'', auth) # out"
    using assms(5) by simp
  from written_request_accepted [OF assms(1-4) this] obtain parsed where p: "parse_authorization_header auth = Inr parsed"
    "pa_access_key_id parsed = access" "pa_signed_headers parsed = join '';'' (signed_names token)"
    "\<And>now. verify_inbound_sigv4 cr parsed (wire_request cr host uri body token t) secret now
      = (if abs_diff t now \<le> 300 then None else Some SigExpired)" by blast
  have "map_of emitted ''authorization'' = Some auth" by (simp add: e)
  moreover have "\<forall>now. verify_inbound_sigv4 cr parsed (received host uri emitted) secret now
      = (if abs_diff t now \<le> 300 then None else Some SigExpired)"
    by (simp add: received_verifies [OF e p(3)] p(4))
  ultimately show ?thesis
    using p(1,2) by (auto simp: e name_defs split: option.split)
qed

section \<open>What an accepted signature binds\<close>

definition selected :: "ParsedAuthHeader \<Rightarrow> InboundRequest \<Rightarrow> (string \<times> string) list" where
  "selected parsed req = (case select_headers (ir_headers req) (split_char (CHR '';'') (pa_signed_headers parsed)) of
     Some hs \<Rightarrow> canonical_headers hs | None \<Rightarrow> [])"

definition request_text :: "ParsedAuthHeader \<Rightarrow> InboundRequest \<Rightarrow> string" where
  "request_text parsed req = canonical_request (ir_verb req) (ir_canonical_uri req) (ir_canonical_querystring req)
     (selected parsed req) (ir_payload_hash req)"

definition text_to_sign :: "SigCrypto \<Rightarrow> ParsedAuthHeader \<Rightarrow> InboundRequest \<Rightarrow> string" where
  "text_to_sign cr parsed req = SIGV4_ALGORITHM @ newline @ ir_amzdate req @ newline
     @ (pa_datestamp parsed @ ''/'' @ pa_region parsed @ ''/'' @ pa_service parsed @ ''/'' @ SIGV4_TERMINATION) @ newline
     @ sc_sha256_hex cr (request_text parsed req)"

definition mac :: "SigCrypto \<Rightarrow> ParsedAuthHeader \<Rightarrow> string \<Rightarrow> string \<Rightarrow> string" where
  "mac cr parsed secret text = sc_hex cr (sc_hmac cr (signing_key cr secret (pa_datestamp parsed) (pa_region parsed) (pa_service parsed)) text)"

text \<open>No part of an HTTP request holds a newline.\<close>

definition one_line :: "string \<Rightarrow> bool" where "one_line s \<longleftrightarrow> CHR 0x0A \<notin> set s"

definition http_text :: "InboundRequest \<Rightarrow> bool" where
  "http_text req \<longleftrightarrow> one_line (ir_verb req) \<and> one_line (ir_canonical_uri req) \<and> one_line (ir_canonical_querystring req)
     \<and> one_line (ir_payload_hash req) \<and> list_all (\<lambda>(k, v). one_line k \<and> one_line v) (ir_headers req)"

lemma accepted:
  assumes "verify_inbound_sigv4 cr parsed req secret now = None"
  shows "pa_signature parsed = mac cr parsed secret (text_to_sign cr parsed req)"
    and "join '';'' (map fst (selected parsed req)) = pa_signed_headers parsed"
    and "\<exists>hs. select_headers (ir_headers req) (split_char (CHR '';'') (pa_signed_headers parsed)) = Some hs"
    and "\<exists>t. parse_amz_date (ir_amzdate req) = Some t \<and> abs_diff t now \<le> CLOCK_SKEW_SECS"
    and "list_ex (\<lambda>h. ascii_lowercase h = ''host'') (split_char (CHR '';'') (pa_signed_headers parsed))"
proof -
  obtain t hs where a: "parse_amz_date (ir_amzdate req) = Some t" "abs_diff t now \<le> CLOCK_SKEW_SECS"
    "select_headers (ir_headers req) (split_char (CHR '';'') (pa_signed_headers parsed)) = Some hs"
    "list_ex (\<lambda>h. ascii_lowercase h = ''host'') (split_char (CHR '';'') (pa_signed_headers parsed))"
    and r: "sign_v4 cr secret (pa_region parsed) (pa_service parsed) (ir_verb req) (ir_canonical_uri req)
       (ir_canonical_querystring req) hs (ir_payload_hash req) (ir_amzdate req) (pa_datestamp parsed)
       = (pa_signature parsed, pa_signed_headers parsed)"
    using assms by (auto simp: verify_inbound_sigv4_def Let_def not_less case_prod_unfold prod_eq_iff split: option.splits if_splits)
  then show "pa_signature parsed = mac cr parsed secret (text_to_sign cr parsed req)"
    "join '';'' (map fst (selected parsed req)) = pa_signed_headers parsed"
    by (auto simp: sign_v4_def Let_def mac_def text_to_sign_def request_text_def selected_def)
qed (use assms in \<open>auto simp: verify_inbound_sigv4_def Let_def not_less case_prod_unfold split: option.splits if_splits\<close>)

lemma canonical_lines:
  "canonical_request verb uri query h ph =
     join newline ([verb, uri, query] @ map (\<lambda>(k, v). k @ '':'' @ v) h @ [[], join '';'' (map fst h), ph])"
proof -
  have j: "join newline (xs @ [[], a, b]) = concat (map (\<lambda>x. x @ newline) xs) @ newline @ a @ newline @ b" for xs a b
  proof (induction xs)
    case (Cons x xs)
    then show ?case by (cases "xs @ [[], a, b]") auto
  qed simp
  have "concat (map (\<lambda>x. x @ newline) (map (\<lambda>(k, v). k @ '':'' @ v) h)) = concat (map (\<lambda>(k, v). k @ '':'' @ v @ newline) h)"
    by (induction h) auto
  then show ?thesis using j [of "[verb, uri, query] @ map (\<lambda>(k, v). k @ '':'' @ v) h" "join '';'' (map fst h)" ph]
    by (simp add: canonical_request_def)
qed

lemma collapse_chars: "set (collapse_blanks out pending s) \<subseteq> set out \<union> set s \<union> {CHR '' ''}"
proof (induction s arbitrary: out pending)
  case (Cons a s)
  let ?out = "(if pending \<and> out \<noteq> [] then out @ '' '' else out) @ [a]"
  show ?case
  proof (cases "a = CHR '' ''")
    case True
    with Cons.IH [of out True] show ?thesis by auto
  next
    case False
    have "set ?out \<subseteq> set out \<union> {a, CHR '' ''}" by auto
    with False Cons.IH [of ?out False] show ?thesis by (simp only: collapse_blanks.simps if_False list.set) blast
  qed
qed auto

lemma lower_special: "lower c = CHR 0x0A \<Longrightarrow> c = CHR 0x0A" "lower c = CHR '';'' \<Longrightarrow> c = CHR '';''"
proof -
  have big: "97 \<le> (of_char (lower c) :: nat)" if "lower c \<noteq> c"
  proof -
    have n: "65 \<le> (of_char c :: nat)" "(of_char c :: nat) \<le> 90" using that by (auto simp: lower_def Let_def split: if_splits)
    then have "(of_char (char_of ((of_char c :: nat) + 32) :: char) :: nat) = of_char c + 32"
      by (simp add: take_bit_eq_mod)
    with n show ?thesis by (simp add: lower_def Let_def)
  qed
  show "lower c = CHR 0x0A \<Longrightarrow> c = CHR 0x0A" using big by (cases "lower c = c") auto
  show "lower c = CHR '';'' \<Longrightarrow> c = CHR '';''" using big by (cases "lower c = c") auto
qed

lemma selected_clean:
  assumes "select_headers headers names = Some hs" and "(k, v) \<in> set (canonical_headers hs)"
    and "list_all (\<lambda>(k, v). one_line k \<and> one_line v) headers" and "\<And>n. n \<in> set names \<Longrightarrow> CHR '';'' \<notin> set n"
    and "\<And>n. n \<in> set names \<Longrightarrow> one_line n"
  shows "one_line k \<and> one_line v \<and> CHR '';'' \<notin> set k"
proof -
  have "one_line k' \<and> one_line v' \<and> CHR '';'' \<notin> set k'" if "(k', v') \<in> set hs" for k' v'
    using assms(1,4,5) that
  proof (induction names arbitrary: hs)
    case (Cons n ns)
    obtain x w hs' where f: "find (\<lambda>(k, v). ascii_lowercase k = ascii_lowercase n) headers = Some (x, w)"
      and h: "select_headers headers ns = Some hs'" "hs = (ascii_lowercase n, w) # hs'"
      using Cons.prems(1) by (auto split: option.splits)
    have "one_line w" using f assms(3) by (auto simp: find_Some_iff list_all_iff) (metis case_prodD nth_mem)
    moreover have "one_line (ascii_lowercase n)" "CHR '';'' \<notin> set (ascii_lowercase n)"
      using Cons.prems(2,3) lower_special by (auto simp: one_line_def ascii_lowercase_def) metis+
    ultimately show ?case using Cons.IH [OF h(1)] Cons.prems(2,3,4) h(2) by auto
  qed simp
  moreover obtain k' v' where kv: "(k', v') \<in> set hs" "k = ascii_lowercase k'" "v = canonicalize_header_value v'"
    using assms(2) by (auto simp: canonical_headers_def)
  ultimately have c: "one_line k'" "one_line v'" "CHR '';'' \<notin> set k'" by auto
  have "one_line k" "CHR '';'' \<notin> set k" using c lower_special by (auto simp: kv(2) one_line_def ascii_lowercase_def) metis+
  moreover have "one_line v" using c(2) collapse_chars [of "[]" False v'] by (auto simp: kv(3) one_line_def canonicalize_header_value_def)
  ultimately show ?thesis by simp
qed

lemma split_char_parts: "x \<in> set (split_char c s) \<Longrightarrow> c \<notin> set x \<and> set x \<subseteq> set s"
proof (induction s arbitrary: x)
  case (Cons a s)
  show ?case
  proof (cases "a = c \<or> split_char c s = []")
    case True
    with Cons show ?thesis by (auto split: if_splits)
  next
    case False
    then obtain y ys where y: "split_char c s = y # ys" by (cases "split_char c s") auto
    with Cons.IH [of y] Cons.IH [of x] Cons.prems False show ?thesis by auto
  qed
qed simp

lemma amz_date_length: "parse_amz_date d = Some t \<Longrightarrow> length d = 16"
  by (rule ccontr) (simp add: parse_amz_date_def)

lemma lines_inj:
  "map (\<lambda>(k, v). k @ '':'' @ v) xs = map (\<lambda>(k, v). k @ '':'' @ v) ys \<Longrightarrow> map fst xs = map fst ys \<Longrightarrow> xs = ys"
  for xs ys :: "(string \<times> string) list"
  by (induction xs arbitrary: ys) (auto simp: Cons_eq_map_conv)

lemma select_names: "select_headers headers names = Some hs \<Longrightarrow> map fst hs = map ascii_lowercase names"
  by (induction names arbitrary: hs) (auto split: option.splits)

lemma host_selected:
  assumes "select_headers (ir_headers req) (split_char (CHR '';'') (pa_signed_headers parsed)) = Some hs"
    and "list_ex (\<lambda>h. ascii_lowercase h = ''host'') (split_char (CHR '';'') (pa_signed_headers parsed))"
  shows "''host'' \<in> set (map fst (selected parsed req))"
proof -
  have "''host'' \<in> set (map fst hs)" using assms(2) unfolding select_names [OF assms(1)] by (force simp: list_ex_iff)
  then obtain v where "(''host'', v) \<in> set hs" by auto
  then have "(ascii_lowercase ''host'', canonicalize_header_value v) \<in> set (selected parsed req)"
    by (force simp: selected_def assms(1) canonical_headers_def)
  moreover have "ascii_lowercase ''host'' = ''host''" by (rule lower_id) simp
  ultimately show ?thesis by force
qed

lemma request_lines:
  assumes "http_text req" and "one_line (join '';'' (map fst (selected parsed req)))"
    and "\<And>k v. (k, v) \<in> set (selected parsed req) \<Longrightarrow> one_line k \<and> one_line v"
  shows "split_char (CHR 0x0A) (request_text parsed req) =
    [ir_verb req, ir_canonical_uri req, ir_canonical_querystring req]
      @ map (\<lambda>(k, v). k @ '':'' @ v) (selected parsed req) @ [[], join '';'' (map fst (selected parsed req)), ir_payload_hash req]"
proof -
  have nl: "newline = [CHR 0x0A]" by (simp add: newline_def)
  have "CHR 0x0A \<notin> set (k @ '':'' @ v)" if "(k, v) \<in> set (selected parsed req)" for k v
    using assms(3) [OF that] by (simp add: one_line_def)
  then have m: "CHR 0x0A \<notin> set l" if "l \<in> set (map (\<lambda>(k, v). k @ '':'' @ v) (selected parsed req))" for l
    using that by auto
  have r: "CHR 0x0A \<notin> set (ir_verb req)" "CHR 0x0A \<notin> set (ir_canonical_uri req)" "CHR 0x0A \<notin> set (ir_canonical_querystring req)"
    "CHR 0x0A \<notin> set (ir_payload_hash req)" "CHR 0x0A \<notin> set (join '';'' (map fst (selected parsed req)))"
    using assms(1,2) by (simp_all add: http_text_def one_line_def)
  show ?thesis
    unfolding request_text_def canonical_lines nl
    by (rule join_split) (simp, use m r in \<open>simp only: set_append Un_iff list.set insert_iff empty_iff, metis empty_iff list.set(1)\<close>)
qed

text \<open>
  C28: an accepted signature binds the request. Of two requests that the verifier accepts with
  one authorization header under one secret, everything that was signed is the same: method,
  path, query, date, payload hash, and every signed header, the host among them, up to runs of
  blanks, as long as digest and MAC do not collide on what the two hold; and each was
  dated within five minutes of the clock that accepted it.
\<close>

theorem accepted_signature_binds:
  assumes "verify_inbound_sigv4 cr parsed req1 secret now1 = None" and "verify_inbound_sigv4 cr parsed req2 secret now2 = None"
    and "http_text req1" and "http_text req2" and "one_line (pa_signed_headers parsed)"
    and "inj_on (mac cr parsed secret) {text_to_sign cr parsed req1, text_to_sign cr parsed req2}"
    and "inj_on (sc_sha256_hex cr) {request_text parsed req1, request_text parsed req2}"
  shows "ir_verb req1 = ir_verb req2 \<and> ir_canonical_uri req1 = ir_canonical_uri req2
    \<and> ir_canonical_querystring req1 = ir_canonical_querystring req2 \<and> ir_amzdate req1 = ir_amzdate req2
    \<and> ir_payload_hash req1 = ir_payload_hash req2 \<and> selected parsed req1 = selected parsed req2
    \<and> ''host'' \<in> set (map fst (selected parsed req1))
    \<and> (\<exists>t. parse_amz_date (ir_amzdate req1) = Some t \<and> abs_diff t now1 \<le> 300 \<and> abs_diff t now2 \<le> 300)"
proof -
  note a1 = accepted [OF assms(1)] and a2 = accepted [OF assms(2)]
  have "text_to_sign cr parsed req1 = text_to_sign cr parsed req2"
    by (rule inj_onD [OF assms(6)]) (simp_all flip: a1(1) add: a2(1) [symmetric])
  moreover have "length (ir_amzdate req1) = 16" "length (ir_amzdate req2) = 16"
    using a1(4) a2(4) amz_date_length by blast+
  ultimately have "ir_amzdate req1 = ir_amzdate req2
      \<and> sc_sha256_hex cr (request_text parsed req1) = sc_sha256_hex cr (request_text parsed req2)"
    unfolding text_to_sign_def by simp
  then have date: "ir_amzdate req1 = ir_amzdate req2"
    and sha: "sc_sha256_hex cr (request_text parsed req1) = sc_sha256_hex cr (request_text parsed req2)"
    by (rule conjunct1, rule conjunct2)
  have same_text: "request_text parsed req1 = request_text parsed req2" by (rule inj_onD [OF assms(7) sha]) simp_all
  define names where "names = split_char (CHR '';'') (pa_signed_headers parsed)"
  have names: "CHR '';'' \<notin> set n" "one_line n" if "n \<in> set names" for n
    using split_char_parts [of n "CHR '';''" "pa_signed_headers parsed"] that assms(5) by (auto simp: names_def one_line_def)
  have clean: "one_line k \<and> one_line v \<and> CHR '';'' \<notin> set k" if kv: "(k, v) \<in> set (selected parsed req)" and http: "http_text req"
    and sel: "\<exists>hs. select_headers (ir_headers req) names = Some hs" for k v req
  proof -
    obtain hs where hs: "select_headers (ir_headers req) names = Some hs" using sel by blast
    then have "(k, v) \<in> set (canonical_headers hs)" using kv by (simp add: selected_def names_def)
    from selected_clean [OF hs this _ names] http show ?thesis by (simp add: http_text_def)
  qed
  have c1: "one_line k \<and> one_line v \<and> CHR '';'' \<notin> set k" if "(k, v) \<in> set (selected parsed req1)" for k v
    using clean [OF that assms(3)] a1(3) by (simp add: names_def)
  have c2: "one_line k \<and> one_line v \<and> CHR '';'' \<notin> set k" if "(k, v) \<in> set (selected parsed req2)" for k v
    using clean [OF that assms(4)] a2(3) by (simp add: names_def)
  have "split_char (CHR 0x0A) (request_text parsed req1) = split_char (CHR 0x0A) (request_text parsed req2)" by (simp add: same_text)
  then have eq: "ir_verb req1 = ir_verb req2" "ir_canonical_uri req1 = ir_canonical_uri req2"
    "ir_canonical_querystring req1 = ir_canonical_querystring req2" "ir_payload_hash req1 = ir_payload_hash req2"
    and lines: "map (\<lambda>(k, v). k @ '':'' @ v) (selected parsed req1) = map (\<lambda>(k, v). k @ '':'' @ v) (selected parsed req2)"
    using request_lines [OF assms(3), of parsed] request_lines [OF assms(4), of parsed] a1(2) a2(2) assms(5) c1 c2 by auto
  have host: "''host'' \<in> set (map fst (selected parsed req1))" using host_selected a1(3,5) by blast
  then have ne: "selected parsed req1 \<noteq> []" "selected parsed req2 \<noteq> []" using lines by auto
  have k: "map fst (selected parsed req1) = map fst (selected parsed req2)"
  proof -
    have j: "split_char (CHR '';'') (join '';'' (map fst hs)) = map fst hs"
      if "hs \<noteq> []" "\<And>k v. (k, v) \<in> set hs \<Longrightarrow> one_line k \<and> one_line v \<and> CHR '';'' \<notin> set k" for hs :: "(string \<times> string) list"
      by (rule join_split) (use that in auto)
    show ?thesis using j [OF ne(1) c1] j [OF ne(2) c2] a1(2) a2(2) by simp
  qed
  have sel: "selected parsed req1 = selected parsed req2" by (rule lines_inj [OF lines k])
  have "\<exists>t. parse_amz_date (ir_amzdate req1) = Some t \<and> abs_diff t now1 \<le> 300 \<and> abs_diff t now2 \<le> 300"
    using a1(4) a2(4) by (auto simp: date CLOCK_SKEW_SECS_def)
  with eq date sel host show ?thesis by blast
qed

section \<open>A signed request\<close>

definition plain_crypto :: SigCrypto where
  "plain_crypto = \<lparr>sc_sha256_hex = (\<lambda>x. x), sc_hmac = (\<lambda>k d. k @ d),
     sc_hex = (\<lambda>x. CHR ''x'' # concat (map (\<lambda>c. let n = (of_char c :: nat) in [hex_upper (n div 16), hex_upper (n mod 16)]) x))\<rparr>"

lemma hex_upper_in: "n < 16 \<Longrightarrow> hex_upper n \<in> set ''0123456789ABCDEF''"
  unfolding hex_upper_def by (rule nth_mem) simp

lemma plain_crypto_hex: "hex_digests plain_crypto"
proof -
  have d: "(of_char c :: nat) div 16 < 16" for c
  proof -
    have "(of_char c :: nat) < 256" by simp
    then show ?thesis by (simp add: div_less_iff_less_mult)
  qed
  have "plain (CHR ''x'' # s)" if "set s \<subseteq> set ''0123456789ABCDEF''" for s
    using that by (auto simp: plain_def list_all_iff header_space_def)
  moreover have "set (concat (map (\<lambda>c. let n = (of_char c :: nat) in [hex_upper (n div 16), hex_upper (n mod 16)]) x))
      \<subseteq> set ''0123456789ABCDEF''" for x
  proof -
    have "set [hex_upper ((of_char c :: nat) div 16), hex_upper ((of_char c :: nat) mod 16)] \<subseteq> set ''0123456789ABCDEF''" for c
      using hex_upper_in [OF d [of c]] hex_upper_in [of "(of_char c :: nat) mod 16"] by (simp only: list.set) simp
    then show ?thesis unfolding Let_def set_concat set_map by blast
  qed
  ultimately show ?thesis unfolding hex_digests_def plain_crypto_def by simp
qed

definition sample_host :: string where "sample_host = ''bedrock-runtime.us-east-1.amazonaws.com''"

lemma sample_signed:
  "\<exists>name v out. sigv4_sign_headers plain_crypto (\<lambda>s. True) ''AK:secret'' sample_host ''/model/m/converse'' ''{}'' 1000 = (name, v) # out"
  by (simp add: sigv4_sign_headers_def lane_key_parts_def case_prod_unfold Let_def)

abbreviation sample_wire :: InboundRequest where
  "sample_wire \<equiv> wire_request plain_crypto sample_host ''/model/m/converse'' ''{}'' None 1000"

lemma sample_key: "lane_key_parts ''AK:secret'' = Some (''AK'', ''secret'', None)"
  by (simp add: lane_key_parts_def)

lemma sample_access: "plain ''AK''"
  by (simp add: plain_def header_space_def)

theorem signed_requests_verify_witness:
  "let emitted = sigv4_sign_headers plain_crypto (\<lambda>s. True) ''AK:secret:token'' sample_host ''/model/m/converse'' ''{}'' 1000 in
    map_of emitted X_AMZ_SECURITY_TOKEN = Some ''token''
    \<and> (\<exists>auth parsed. map_of emitted ''authorization'' = Some auth \<and> parse_authorization_header auth = Inr parsed
        \<and> verify_inbound_sigv4 plain_crypto parsed (received sample_host ''/model/m/converse'' emitted) ''secret'' 1200 = None
        \<and> verify_inbound_sigv4 plain_crypto parsed (received sample_host ''/model/m/converse'' emitted) ''secret'' 1301 = Some SigExpired)"
proof -
  let ?emitted = "sigv4_sign_headers plain_crypto (\<lambda>s. True) ''AK:secret:token'' sample_host ''/model/m/converse'' ''{}'' 1000"
  have key: "lane_key_parts ''AK:secret:token'' = Some (''AK'', ''secret'', Some ''token'')"
    by (simp add: lane_key_parts_def)
  have t: "(1000 :: nat) < 253402300800" by simp
  have "?emitted \<noteq> []" by (simp add: sigv4_sign_headers_def key case_prod_unfold Let_def)
  from signed_requests_verify [OF key sample_access plain_crypto_hex t refl this] show ?thesis
    by (auto simp: abs_diff_def Let_def)
qed

lemma amz_one_line: "one_line (fst (format_amz_time t))"
proof -
  have "CHR 0x0A \<notin> set (padded w n)" for w n
    using conjunct1 [OF padded_digits [of w n]] by (auto simp: list_all_iff Busbar_Text.is_digit_def)
  moreover obtain y m d where "amz_civil (int (t div SECS_PER_DAY)) = (y, m, d)" by (metis prod.collapse)
  ultimately show ?thesis by (simp add: one_line_def format_amz_time_def Let_def)
qed

theorem accepted_signature_binds_witness:
  "\<exists>parsed. verify_inbound_sigv4 plain_crypto parsed sample_wire ''secret'' 1200 = None
     \<and> ''host'' \<in> set (map fst (selected parsed sample_wire))
     \<and> (\<exists>t. abs_diff t 800 \<le> 300 \<and> abs_diff t 1200 \<le> 300)"
proof -
  obtain name v out where h: "sigv4_sign_headers plain_crypto (\<lambda>s. True) ''AK:secret'' sample_host ''/model/m/converse'' ''{}'' 1000
      = (name, v) # out" using sample_signed by blast
  have t: "(1000 :: nat) < 253402300800" by simp
  obtain parsed where names: "pa_signed_headers parsed = join '';'' (signed_names None)"
    and v: "verify_inbound_sigv4 plain_crypto parsed sample_wire ''secret'' 800 = None"
      "verify_inbound_sigv4 plain_crypto parsed sample_wire ''secret'' 1200 = None"
    using written_request_accepted [OF sample_key sample_access plain_crypto_hex t h] by (auto simp: abs_diff_def)
  have "http_text sample_wire"
    using amz_one_line [of 1000]
    by (simp add: http_text_def wire_request_def one_line_def plain_crypto_def signed_header_list_def sample_host_def name_defs Let_def)
  moreover have "one_line (pa_signed_headers parsed)" by (simp add: names one_line_def signed_names_def name_defs)
  ultimately show ?thesis using accepted_signature_binds [OF v, unfolded insert_absorb2] v(2) by (auto simp: inj_on_def)
qed

end
