(* ===== verification/Auth_Exchange.thy ===== *)
theory Auth_Exchange
  imports Auth_Chain Key_Machine Sig_V4
begin

text \<open>
  The token exchange \<open>POST /auth/token\<close> of \<open>auth/exchange.rs\<close>, the form login \<open>auth/token.rs\<close> completes at
  the same path, and \<open>auth/self_keys.rs\<close>: who may have a key of their own, in whose name, for which
  pools, and the mint itself, which is that of \<open>Gov_Keys\<close>.

  Arguments: whether the personal group could be provisioned, the parsed form of the request, the
  decoding of the login cookie (base64 and JSON), and the check of a submitted credential by the
  login plugin. The pages of the browser login and its redirect flow are not modelled.
\<close>

section \<open>The token exchange\<close>

datatype ExchangeError = StaticKeyPresented | ExchangeUnauthorized | Unbound | BadSubject | MintFailed

text \<open>\<open>char::is_control\<close> on the bytes of UTF-8: C0, DEL, and the two-byte codes of C1.\<close>

fun has_control :: "string \<Rightarrow> bool" where
  "has_control [] = False"
| "has_control (a # rest) =
     ((of_char a :: nat) < 32 \<or> (of_char a :: nat) = 127
      \<or> (of_char a :: nat) = 194 \<and> (case rest of b # _ \<Rightarrow> 128 \<le> (of_char b :: nat) \<and> (of_char b :: nat) < 160 | [] \<Rightarrow> False)
      \<or> has_control rest)"

definition sanitize_self_sub :: "string \<Rightarrow> ExchangeError option" where
  "sanitize_self_sub sub =
     (if sub = [] \<or> CHR ''/'' \<in> set sub \<or> has_control sub
         \<or> strip_prefix ''vk_'' sub \<noteq> None \<or> strip_prefix ''user:'' sub \<noteq> None \<or> strip_prefix ''group:'' sub \<noteq> None
      then Some BadSubject else None)"

definition resolve_exchange :: "ChainVerdict \<Rightarrow> RoleBindings \<Rightarrow> ExchangeError + Principal \<times> string \<times> string list option" where
  "resolve_exchange verdict role_bindings =
     (case verdict of
        Identified name p resolved \<Rightarrow>
          if resolved \<noteq> None then Inl StaticKeyPresented
          else (case role_bindings name of
              None \<Rightarrow> Inl Unbound
            | Some table \<Rightarrow>
                let granting = granting_bindings table p in
                if granting = [] then Inl Unbound
                else (case first_group granting of
                    None \<Rightarrow> Inl Unbound
                  | Some team \<Rightarrow>
                      (case sanitize_self_sub (pn_id p) of
                         Some refusal \<Rightarrow> Inl refusal
                       | None \<Rightarrow> let (pools, everything) = pool_union granting in
                           Inr (p, team, if everything then None else Some pools))))
      | OpenDoor \<Rightarrow> Inl ExchangeUnauthorized
      | ChainDenied \<Rightarrow> Inl ExchangeUnauthorized)"

section \<open>The mint of a personal key\<close>

record IssuedKey =
  ik_secret :: string
  ik_key_id :: string
  ik_group :: string
  ik_exp :: u64

definition issued :: "u64 \<Rightarrow> VirtualKey \<times> string \<Rightarrow> IssuedKey" where
  "issued expiry out = \<lparr>ik_secret = snd out, ik_key_id = vk_id (fst out),
     ik_group = (case vk_group (fst out) of Some g \<Rightarrow> g | None \<Rightarrow> []), ik_exp = expiry\<rparr>"

definition self_group :: "Principal \<Rightarrow> string" where
  "self_group p = SELF_KEY_GROUP_PREFIX @ pn_id p"

text \<open>
  \<open>issue\<close> and \<open>refresh\<close> of \<open>DeterministicEd25519Keys\<close>: the personal group first, then the key.
\<close>

definition self_mint ::
  "(u64 \<Rightarrow> KeyState \<Rightarrow> KeyState \<times> (KeyError + VirtualKey \<times> string)) \<Rightarrow> (string \<Rightarrow> string \<Rightarrow> bool) \<Rightarrow> Principal \<Rightarrow> string
   \<Rightarrow> u64 \<Rightarrow> u64 \<Rightarrow> KeyState \<Rightarrow> KeyState \<times> IssuedKey option" where
  "self_mint op ensure_leaf p team ttl now ks =
     (let expiry = saturating_add now ttl in
      if \<not> ensure_leaf (self_group p) team then (ks, None)
      else case op expiry ks of (ks1, Inl _) \<Rightarrow> (ks1, None) | (ks1, Inr out) \<Rightarrow> (ks1, Some (issued expiry out)))"

definition self_issue ::
  "Env \<Rightarrow> (string \<Rightarrow> string \<Rightarrow> bool) \<Rightarrow> Principal \<Rightarrow> string \<Rightarrow> string list option \<Rightarrow> u64 \<Rightarrow> u64 \<Rightarrow> KeyState
   \<Rightarrow> KeyState \<times> IssuedKey option" where
  "self_issue e ensure_leaf p team pools ttl now =
     self_mint (\<lambda>expiry. issue_self e (pn_id p) pools expiry now) ensure_leaf p team ttl now"

definition self_refresh ::
  "Env \<Rightarrow> (string \<Rightarrow> string \<Rightarrow> bool) \<Rightarrow> Principal \<Rightarrow> string \<Rightarrow> string list option \<Rightarrow> u64 \<Rightarrow> u64 \<Rightarrow> KeyState
   \<Rightarrow> KeyState \<times> IssuedKey option" where
  "self_refresh e ensure_leaf p team pools ttl now =
     self_mint (\<lambda>expiry. refresh_self e (pn_id p) pools expiry now) ensure_leaf p team ttl now"

definition issue_key ::
  "Env \<Rightarrow> (string \<Rightarrow> string \<Rightarrow> bool) \<Rightarrow> Principal \<Rightarrow> string \<Rightarrow> string list option \<Rightarrow> u64 \<Rightarrow> u64 \<Rightarrow> bool \<Rightarrow> KeyState
   \<Rightarrow> KeyState \<times> (ExchangeError + IssuedKey)" where
  "issue_key e ensure_leaf p team pools ttl now again ks =
     (case (if again then self_refresh e ensure_leaf p team pools ttl now ks else self_issue e ensure_leaf p team pools ttl now ks) of
        (ks1, None) \<Rightarrow> (ks1, Inl MintFailed) | (ks1, Some k) \<Rightarrow> (ks1, Inr k))"

section \<open>The form login\<close>

definition LOGIN_COOKIE :: string where "LOGIN_COOKIE = ''busbar_login''"
definition FORM_STATE_FIELD :: string where "FORM_STATE_FIELD = ''__state''"

text \<open>
  \<open>HeaderValue::to_str\<close> admits the blank and the tab as the only white space, so \<open>trim\<close> is that of
  a header. The first part that is the login cookie wins.
\<close>

fun cookie_part :: "string list \<Rightarrow> string option" where
  "cookie_part [] = None"
| "cookie_part (part # rest) =
     (case strip_prefix (LOGIN_COOKIE @ ''='') (header_trim part) of Some v \<Rightarrow> Some v | None \<Rightarrow> cookie_part rest)"

definition read_cookie :: "string option \<Rightarrow> string option" where
  "read_cookie raw = Option.bind raw (\<lambda>r. cookie_part (split_char (CHR '';'') r))"

record LoginCookie =
  lc_method :: string
  lc_code_verifier :: string
  lc_state :: string
  lc_nonce :: string
  lc_refresh :: bool

datatype LoginKind = Redirect | Credential

text \<open>What \<open>Prompt\<close> and \<open>Exchange\<close> carry is never read on this path and is left out.\<close>

datatype LoginOutcome = LoginAuthorize string | LoginPrompt | LoginExchange | LoginIdentify Principal | LoginReject

record LoginMethod =
  lm_complete_login :: "(string \<times> string) list \<Rightarrow> LoginOutcome"
  lm_has_button :: bool
  lm_login_kind :: LoginKind

type_synonym LoginMethods = "string \<rightharpoonup> LoginMethod"

text \<open>\<open>joined\<close>: a permit came in time and the plugin did not panic.\<close>

definition offload_login_call :: "bool \<Rightarrow> LoginMethods \<Rightarrow> string \<Rightarrow> (LoginMethod \<Rightarrow> LoginOutcome) \<Rightarrow> LoginOutcome" where
  "offload_login_call joined methods name call =
     (if \<not> joined then LoginReject else case methods name of Some m \<Rightarrow> call m | None \<Rightarrow> LoginReject)"

text \<open>The error pages, in the order the code comes to them.\<close>

datatype LoginError =
    SessionExpired
  | SecurityCheckFailed
  | MethodNotFound
  | SignInUnavailable
  | Declined
  | DidNotFinish
  | NoAccessYet
  | IssuingUnavailable
  | CouldNotIssue

record ExchangeApp =
  xa_auth :: AuthMiddleware
  xa_role_bindings :: RoleBindings
  xa_login_methods :: LoginMethods
  xa_self_key_ttl_secs :: u64

definition issue_and_render ::
  "Env \<Rightarrow> (string \<Rightarrow> string \<Rightarrow> bool) \<Rightarrow> ExchangeApp \<Rightarrow> u64 \<Rightarrow> string \<Rightarrow> Principal \<Rightarrow> bool \<Rightarrow> KeyState option
   \<Rightarrow> KeyState option \<times> (LoginError + IssuedKey)" where
  "issue_and_render e ensure_leaf app mint_now name p again gov =
     (case resolve_exchange (Identified name p None) (xa_role_bindings app) of
        Inl _ \<Rightarrow> (gov, Inl NoAccessYet)
      | Inr (p1, team, pools) \<Rightarrow>
          (case gov of
             None \<Rightarrow> (gov, Inl IssuingUnavailable)
           | Some ks \<Rightarrow>
               (case issue_key e ensure_leaf p1 team pools (xa_self_key_ttl_secs app) mint_now again ks of
                  (ks1, Inl _) \<Rightarrow> (Some ks1, Inl CouldNotIssue)
                | (ks1, Inr k) \<Rightarrow> (Some ks1, Inr k))))"

definition submitted_state :: "(string \<times> string) list \<Rightarrow> string" where
  "submitted_state form = (case find (\<lambda>(k, _). k = FORM_STATE_FIELD) form of Some (_, v) \<Rightarrow> v | None \<Rightarrow> [])"

definition submitted :: "(string \<times> string) list \<Rightarrow> (string \<times> string) list" where
  "submitted form = filter (\<lambda>(k, _). k \<noteq> FORM_STATE_FIELD) form"

definition credential_submit ::
  "Env \<Rightarrow> (string \<Rightarrow> string \<Rightarrow> bool) \<Rightarrow> (string \<Rightarrow> LoginCookie option) \<Rightarrow> bool \<Rightarrow> ExchangeApp \<Rightarrow> u64 \<Rightarrow> string
   \<Rightarrow> (string \<times> string) list \<Rightarrow> KeyState option \<Rightarrow> KeyState option \<times> (LoginError + IssuedKey)" where
  "credential_submit e ensure_leaf decode joined app mint_now cookie_raw form gov =
     (case decode cookie_raw of
        None \<Rightarrow> (gov, Inl SessionExpired)
      | Some cookie \<Rightarrow>
          if submitted_state form \<noteq> lc_state cookie then (gov, Inl SecurityCheckFailed)
          else case xa_login_methods app (lc_method cookie) of
            None \<Rightarrow> (gov, Inl MethodNotFound)
          | Some m \<Rightarrow>
              if \<not> lm_has_button m then (gov, Inl MethodNotFound)
              else if lm_login_kind m \<noteq> Credential then (gov, Inl SignInUnavailable)
              else case offload_login_call joined (xa_login_methods app) (lc_method cookie)
                     (\<lambda>m. lm_complete_login m (submitted form)) of
                     LoginIdentify p \<Rightarrow> issue_and_render e ensure_leaf app mint_now (lc_method cookie) p (lc_refresh cookie) gov
                   | LoginReject \<Rightarrow> (gov, Inl Declined)
                   | _ \<Rightarrow> (gov, Inl DidNotFinish))"

section \<open>The exchange\<close>

record ExchangeRequest =
  xr_cookie :: "string option"
  xr_form :: "(string \<times> string) list"
  xr_candidate :: "string option"

datatype ExchangeRefusal = Refusal ExchangeError | ErrorPage LoginError

text \<open>
  The world the request runs in: the other users of the credential cache, the plugin offloads that
  worked, the provisioner, the clocks of the chain and of the mint.
\<close>

record ExchangeWorld =
  xw_env :: Env
  xw_peers :: Peers
  xw_sha :: "string \<Rightarrow> string"
  xw_decode :: "string \<Rightarrow> LoginCookie option"
  xw_ensure_leaf :: "string \<Rightarrow> string \<Rightarrow> bool"
  xw_offloaded :: bool
  xw_login_ran :: bool
  xw_now :: u64
  xw_mint_now :: u64

definition exchange ::
  "ExchangeWorld \<Rightarrow> ExchangeApp \<Rightarrow> ExchangeRequest \<Rightarrow> SharedCache \<times> KeyState option
   \<Rightarrow> (SharedCache \<times> KeyState option) \<times> (ExchangeRefusal + IssuedKey)" where
  "exchange w app req s =
     (case read_cookie (xr_cookie req) of
        Some cookie \<Rightarrow>
          (case credential_submit (xw_env w) (xw_ensure_leaf w) (xw_decode w) (xw_login_ran w) app (xw_mint_now w) cookie (xr_form req) (snd s) of
             (gov1, Inl page) \<Rightarrow> ((fst s, gov1), Inl (ErrorPage page))
           | (gov1, Inr k) \<Rightarrow> ((fst s, gov1), Inr k))
      | None \<Rightarrow>
          let ((c1, gov1), verdict) = run_chain_on_request_path (xw_peers w) (xw_sha w) (en_crypto (xw_env w)) (xw_now w)
                (xw_offloaded w) (xa_auth app) (xr_candidate req) s in
          (case resolve_exchange verdict (xa_role_bindings app) of
             Inl refusal \<Rightarrow> ((c1, gov1), Inl (Refusal refusal))
           | Inr (p, team, pools) \<Rightarrow>
               (case gov1 of
                  None \<Rightarrow> ((c1, gov1), Inl (Refusal MintFailed))
                | Some ks \<Rightarrow>
                    (case issue_key (xw_env w) (xw_ensure_leaf w) p team pools (xa_self_key_ttl_secs app) (xw_mint_now w) False ks of
                       (ks1, Inl refusal) \<Rightarrow> ((c1, Some ks1), Inl (Refusal refusal))
                     | (ks1, Inr k) \<Rightarrow> ((c1, Some ks1), Inr k)))))"

section \<open>What a mint leaves behind\<close>

text \<open>
  The node serves the row the mint reports, up to the revision the store gave it, and the token
  names it with the generation it has.
\<close>

definition minted :: "Env \<Rightarrow> SigningMaterial \<Rightarrow> string \<Rightarrow> string list option \<Rightarrow> u64 \<Rightarrow> VirtualKey \<times> string \<Rightarrow> KeyState \<Rightarrow> bool" where
  "minted e m sub pools expiry out s \<longleftrightarrow>
     (\<exists>row. ks_by_id s (vk_id (fst out)) = Some row
        \<and> vk_group row = Some (SELF_KEY_GROUP_PREFIX @ sub) \<and> vk_group (fst out) = vk_group row
        \<and> vk_allowed_scopes row = map_option (map scope_pool) pools \<and> vk_enabled row
        \<and> snd out = mint (en_crypto e) (sm_signer m) (vk_id (fst out)) expiry (binding_generation (vk_generation_hash row)))
     \<and> ks_signing s = Some m"

text \<open>Every row of the cache stands under its id, as every load of the caches leaves it.\<close>

definition cached_by_id :: "KeyState \<Rightarrow> bool" where
  "cached_by_id s \<longleftrightarrow> (\<forall>k \<in> dom (ks_by_id s). vk_id (the (ks_by_id s k)) = k)"

lemma load_cached_by_id: "mem_wf (ks_store s) \<Longrightarrow> ks_by_id s = load (ks_store s) \<Longrightarrow> cached_by_id s"
  by (auto simp: cached_by_id_def dom_def load_get_key get_key_def mem_wf_def split: option.splits if_splits dest!: map_of_SomeD)

lemma put_reloads:
  assumes "write_call e (result_of (put_key (en_clock e) key)) s = (s1, Inr ())" and "refresh e s1 = (s2, Inr ())"
    and "mem_wf (ks_store s)" and "vk_deleted_at key = None"
  shows "ks_by_id s2 (vk_id key) = Some (key\<lparr>vk_revision := next_revision (ks_store s)\<rparr>) \<and> ks_signing s2 = ks_signing s
    \<and> mem_wf (ks_store s2)"
proof -
  obtain st where st: "put_key (en_clock e) key (ks_store s) = Inr st" "ks_store s1 = st" "ks_signing s1 = ks_signing s"
    using assms(1) by (auto simp: step_iff)
  have "mem_wf st" using wf_step_cases [of "en_clock e" "PutKey key", OF _ assms(3)] st(1) by simp
  moreover have "ks_by_id s2 = load st" "ks_store s2 = st" "ks_signing s2 = ks_signing s" using assms(2) st by (auto simp: step_iff)
  ultimately show ?thesis using put_key_row [OF st(1) assms(4)] assms(4) by (simp add: load_get_key)
qed

lemma probe_result:
  "probe_epochs e seed user_sub start n stride s = (s1, Inr (k, epoch)) \<Longrightarrow>
     (\<exists>n. s1 = s\<lparr>ks_calls := n\<rparr>) \<and> k = derive_self_subject (en_crypto e) seed user_sub epoch"
proof (induction n arbitrary: start stride s)
  case 0
  then show ?case by (simp add: step_iff)
next
  case (Suc n)
  let ?s = "s\<lparr>ks_calls := Suc (ks_calls s)\<rparr>"
  from Suc.prems consider next_stride where "probe_epochs e seed user_sub start n next_stride ?s = (s1, Inr (k, epoch))"
    | "s1 = ?s" "k = derive_self_subject (en_crypto e) seed user_sub epoch"
    by (auto simp: step_iff Let_def split: if_splits)
  then show ?case
  proof cases
    case 1
    then show ?thesis using Suc.IH by fastforce
  qed auto
qed

lemma write_self_minted:
  assumes "write_self_binding e m sub pools epoch expiry now s = (s1, Inr out)"
    and "crypto_laws (en_crypto e)" and "mem_wf (ks_store s)" and "ks_signing s = Some m"
  shows "minted e m sub pools expiry out s1 \<and> mem_wf (ks_store s1) \<and> vk_deleted_at (fst out) = None"
proof -
  obtain s2 k free where probe: "first_free_self_epoch e (sg_key (sm_signer m)) sub epoch s = (s2, Inr (k, free))"
    using assms(1) by (auto simp: write_self_binding_def step_iff)
  then obtain n where s2: "s2 = s\<lparr>ks_calls := n\<rparr>" and k: "k = derive_self_subject (en_crypto e) (sg_key (sm_signer m)) sub free"
    by (auto simp: first_free_self_epoch_def dest!: probe_result)
  define b where "b = binding_row k (to_decimal free) (''self-serve key ('' @ sub @ '')'') pools (Some (SELF_KEY_GROUP_PREFIX @ sub)) [] now"
  obtain s3 where put: "write_call e (result_of (put_key (en_clock e) b)) s2 = (s3, Inr ())" "refresh e s3 = (s1, Inr ())"
    and out: "out = (b, mint (en_crypto e) (sm_signer m) k expiry (Some (to_decimal free)))"
    using assms(1) probe by (auto simp: write_self_binding_def and_then_Inr ok_Inr Let_def b_def)
  have colon: "CHR '':'' \<notin> set k" using assms(2) by (simp add: k derive_self_subject_def VK_ID_PREFIX_def crypto_laws_def)
  have b: "vk_id b = k" "vk_deleted_at b = None" by (simp_all add: b_def binding_row_def)
  from put_reloads [OF put _ b(2)] assms(3) s2 have "ks_by_id s1 k = Some (b\<lparr>vk_revision := next_revision (ks_store s)\<rparr>)"
    "ks_signing s1 = ks_signing s" "mem_wf (ks_store s1)" by (simp_all add: b(1))
  then show ?thesis using assms(4) colon b by (simp add: minted_def out b_def binding_row_def)
qed

lemma issue_existing_minted:
  assumes "issue_existing e m pools expiry row s = (s1, Inr out)"
    and "mem_wf (ks_store s)" and "ks_signing s = Some m" and "ks_by_id s (vk_id row) = Some row"
    and "vk_enabled row" and "vk_deleted_at row = None" and "vk_group row = Some (SELF_KEY_GROUP_PREFIX @ sub)"
  shows "minted e m sub pools expiry out s1"
proof (cases "map_option (map scope_pool) pools = vk_allowed_scopes row")
  case True
  then show ?thesis using assms by (auto simp: issue_existing_def ok_Inr minted_def remint_def Let_def)
next
  case False
  let ?row = "row\<lparr>vk_allowed_scopes := map_option (map scope_pool) pools\<rparr>"
  obtain s2 where put: "write_call e (result_of (put_key (en_clock e) ?row)) s = (s2, Inr ())" "refresh e s2 = (s1, Inr ())"
    and out: "out = (?row, remint e m ?row expiry)"
    using assms(1) False by (auto simp: issue_existing_def and_then_Inr ok_Inr Let_def)
  from put_reloads [OF put assms(2)] assms(6) show ?thesis
    using assms(3,5,7) by (simp add: minted_def out remint_def)
qed

lemma current_self_binding_row:
  assumes "current_self_binding e sub s = Some row" and "cached_by_id s"
  shows "ks_by_id s (vk_id row) = Some row \<and> vk_enabled row \<and> vk_deleted_at row = None \<and> vk_group row = Some (SELF_KEY_GROUP_PREFIX @ sub)"
proof -
  have "row \<in> set (List.map_filter (ks_by_id s) (en_order e))" using assms(1) by (auto simp: current_self_binding_def find_Some_iff)
  then obtain k where "ks_by_id s k = Some row" by (auto simp: List.map_filter_def)
  then have "ks_by_id s (vk_id row) = Some row" using assms(2) by (auto simp: cached_by_id_def dom_def)
  then show ?thesis using assms(1) by (auto simp: current_self_binding_def find_Some_iff)
qed

lemma issue_self_minted:
  assumes "issue_self e sub pools expiry now s = (s1, Inr out)"
    and "crypto_laws (en_crypto e)" and "mem_wf (ks_store s)" and "cached_by_id s" and "ks_signing s = Some m"
  shows "minted e m sub pools expiry out s1"
proof (cases "current_self_binding e sub s")
  case None
  then have "write_self_binding e m sub pools 0 expiry now s = (s1, Inr out)"
    using assms(1,5) by (simp add: issue_self_def and_then_def signer_of_def)
  from write_self_minted [OF this assms(2,3,5)] show ?thesis by simp
next
  case (Some row)
  then have "issue_existing e m pools expiry row s = (s1, Inr out)"
    using assms(1,5) by (simp add: issue_self_def and_then_def signer_of_def)
  from issue_existing_minted [OF this assms(3,5)] current_self_binding_row [OF Some assms(4)] show ?thesis by simp
qed

text \<open>Tombstoning the old binding leaves the new one as it is.\<close>

lemma delete_other_row: "delete_key now old st = Inr st' \<Longrightarrow> k \<noteq> old \<Longrightarrow> get_key k st' = get_key k st"
  by (auto simp: delete_key_def get_key_def Let_def update_conv' split: option.splits if_splits)

lemma retire_minted:
  assumes "retire_binding e old out s = (s1, Inr out')" and "minted e m sub pools expiry out s"
    and "mem_wf (ks_store s)" and "ks_by_id s = load (ks_store s)" and "old \<noteq> vk_id (fst out)"
  shows "minted e m sub pools expiry out' s1"
proof -
  obtain s2 where del: "write_call e (result_of (delete_key (en_clock e) old)) s = (s2, Inr ())" "refresh e s2 = (s1, Inr ())"
    and out: "out' = out"
    using assms(1) by (auto simp: retire_binding_def attempt_def and_then_Inr fail_Inr ok_Inr split: prod.splits sum.splits)
  obtain st where st: "delete_key (en_clock e) old (ks_store s) = Inr st" "ks_store s2 = st" "ks_signing s2 = ks_signing s"
    using del(1) by (auto simp: step_iff)
  have wf: "mem_wf st" using wf_step_cases [of "en_clock e" "DeleteKey old", OF _ assms(3)] st(1) by simp
  have "get_key (vk_id (fst out)) st = get_key (vk_id (fst out)) (ks_store s)" by (rule delete_other_row [OF st(1)]) (use assms(5) in simp)
  then have "ks_by_id s1 (vk_id (fst out)) = ks_by_id s (vk_id (fst out))" "ks_signing s1 = ks_signing s"
    using refresh_frame [OF del(2)] st wf assms(3,4) by (simp_all add: load_get_key)
  then show ?thesis using assms(2) by (simp add: minted_def out)
qed

lemma write_self_loaded:
  "write_self_binding e m sub pools epoch expiry now s = (s1, Inr out) \<Longrightarrow> ks_by_id s1 = load (ks_store s1)"
  by (auto simp: write_self_binding_def and_then_Inr refresh_Inr ok_Inr Let_def)

lemma refresh_self_minted:
  assumes "refresh_self e sub pools expiry now s = (s1, Inr out)"
    and "crypto_laws (en_crypto e)" and "mem_wf (ks_store s)" and "ks_signing s = Some m"
  shows "minted e m sub pools expiry out s1"
proof (cases "current_self_binding e sub s")
  case None
  then have "write_self_binding e m sub pools 0 expiry now s = (s1, Inr out)"
    using assms(1,4) by (simp add: refresh_self_def and_then_def signer_of_def)
  from write_self_minted [OF this assms(2,3,4)] show ?thesis by simp
next
  case (Some row)
  obtain s2 new where w: "write_self_binding e m sub pools (next_epoch row) expiry now s = (s2, Inr new)"
    and r: "(if vk_id row = vk_id (fst new) then ok new else retire_binding e (vk_id row) new) s2 = (s1, Inr out)"
    using assms(1,4) Some by (auto simp: refresh_self_def and_then_Inr signer_Inr)
  note new = write_self_minted [OF w assms(2-4)]
  show ?thesis
  proof (cases "vk_id row = vk_id (fst new)")
    case True
    then show ?thesis using r new by (simp add: ok_Inr)
  next
    case False
    then have "retire_binding e (vk_id row) new s2 = (s1, Inr out)" using r by simp
    from retire_minted [OF this _ _ write_self_loaded [OF w] False] new show ?thesis by blast
  qed
qed

text \<open>A minted token is taken for the row it was minted for until it expires or is revoked.\<close>

lemma minted_verifies:
  assumes "minted e (signing_material_new (en_crypto e) signer) sub pools expiry out s" and "crypto_laws (en_crypto e)" and "expiry \<le> u64_max"
  shows "\<exists>row. ks_by_id s (vk_id (fst out)) = Some row \<and> vk_group row = Some (SELF_KEY_GROUP_PREFIX @ sub) \<and> vk_enabled row
    \<and> vk_group (fst out) = vk_group row \<and> vk_allowed_scopes row = map_option (map scope_pool) pools
    \<and> (\<forall>now. snd (verify_token (en_crypto e) (snd out) now s)
          = (if now < expiry \<and> \<not> rv_contains (vk_id (fst out)) (ks_denylist s) then Some row else None))"
proof -
  let ?m = "signing_material_new (en_crypto e) signer"
  obtain row where row: "ks_by_id s (vk_id (fst out)) = Some row" "vk_group row = Some (SELF_KEY_GROUP_PREFIX @ sub)" "vk_enabled row"
    "vk_group (fst out) = vk_group row" "vk_allowed_scopes row = map_option (map scope_pool) pools"
    "snd out = mint (en_crypto e) (sm_signer ?m) (vk_id (fst out)) expiry (binding_generation (vk_generation_hash row))"
    and m: "ks_signing s = Some ?m"
    using assms(1) unfolding minted_def by blast
  have "token_claims (en_crypto e) s (snd out) now = (if now < expiry then Some \<lparr>tc_sub = vk_id (fst out), tc_exp = expiry,
      tc_kid = sg_kid signer, tc_generation = binding_generation (vk_generation_hash row)\<rparr> else None)" for now
    using assms(2,3) by (simp add: token_claims_def m row(6) verify_mint signing_material_new_def verifier_single_def verifying_key_def
        crypto_laws_def Let_def)
  then have "snd (verify_token (en_crypto e) (snd out) now s)
      = (if now < expiry \<and> \<not> rv_contains (vk_id (fst out)) (ks_denylist s) then Some row else None)" for now
    using row(1,3) by (simp add: verify_token_result generation_matches_def)
  then show ?thesis using row by blast
qed

lemma issue_key_minted:
  assumes "issue_key e ensure_leaf p team pools ttl now again ks = (ks1, Inr k)"
    and "crypto_laws (en_crypto e)" and "mem_wf (ks_store ks)" and "cached_by_id ks"
    and "ks_signing ks = Some (signing_material_new (en_crypto e) signer)"
  shows "\<exists>row. lookup_by_sub (ik_key_id k) ks1 = Some row \<and> vk_group row = Some (self_group p) \<and> vk_enabled row
    \<and> ik_group k = self_group p \<and> vk_allowed_scopes row = map_option (map scope_pool) pools
    \<and> (\<forall>now. snd (verify_token (en_crypto e) (ik_secret k) now ks1)
          = (if now < ik_exp k \<and> \<not> rv_contains (ik_key_id k) (ks_denylist ks1) then Some row else None))"
proof -
  let ?expiry = "saturating_add now ttl"
  obtain out where k: "k = issued ?expiry out"
    and op: "issue_self e (pn_id p) pools ?expiry now ks = (ks1, Inr out) \<or> refresh_self e (pn_id p) pools ?expiry now ks = (ks1, Inr out)"
    using assms(1) by (auto simp: issue_key_def self_issue_def self_refresh_def self_mint_def Let_def split: if_splits prod.splits sum.splits option.splits)
  have "minted e (signing_material_new (en_crypto e) signer) (pn_id p) pools ?expiry out ks1"
    using op issue_self_minted [OF _ assms(2-5)] refresh_self_minted [OF _ assms(2,3,5)] by blast
  moreover have "?expiry \<le> u64_max" by (simp add: saturating_add_def)
  ultimately show ?thesis
    using minted_verifies [OF _ assms(2)] unfolding k by (fastforce simp: issued_def lookup_by_sub_def self_group_def)
qed

lemma chain_frame:
  "run_chain_on_request_path peers sha cr now offloaded aw candidate (c, Some ks) = ((c1, gov1), verdict) \<Longrightarrow>
     \<exists>d. gov1 = Some (ks\<lparr>ks_denylist := d\<rparr>)"
proof -
  have same: "\<exists>d. ks = ks\<lparr>ks_denylist := d\<rparr>" by (rule exI [of _ "ks_denylist ks"]) simp
  have token: "\<exists>d. fst (verify_token cr token now ks) = ks\<lparr>ks_denylist := d\<rparr>" for token
    using verify_token_state [of cr token now ks] same by (auto simp: sync_revocations_if_stale_def)
  have keys: "\<exists>d. fst (keys_arm_verdict cr (Some ks) candidate now) = Some (ks\<lparr>ks_denylist := d\<rparr>)"
    using same token by (auto simp: keys_arm_verdict_def split: option.split prod.split) (metis fst_conv)+
  then have "\<exists>d. snd (fst (run_chain_cached peers sha cr now aw candidate (c0, Some ks))) = Some (ks\<lparr>ks_denylist := d\<rparr>)" for c0
    using same by (auto simp: run_chain_cached_def Let_def split: prod.split option.split)
  from this [of "Some c"] same show "run_chain_on_request_path peers sha cr now offloaded aw candidate (c, Some ks) = ((c1, gov1), verdict) \<Longrightarrow> ?thesis"
    by (auto simp: run_chain_on_request_path_def Let_def split: if_splits prod.splits)
qed

text \<open>Who a request comes from: the chain's word, or the word of the login plugin on the form.\<close>

definition identified ::
  "ExchangeWorld \<Rightarrow> ExchangeApp \<Rightarrow> ExchangeRequest \<Rightarrow> SharedCache \<times> KeyState option \<Rightarrow> string \<Rightarrow> Principal \<Rightarrow> bool" where
  "identified w app req s name p \<longleftrightarrow>
     (case read_cookie (xr_cookie req) of
        None \<Rightarrow> snd (run_chain_on_request_path (xw_peers w) (xw_sha w) (en_crypto (xw_env w)) (xw_now w) (xw_offloaded w)
                    (xa_auth app) (xr_candidate req) s) = Identified name p None
      | Some cookie \<Rightarrow> (\<exists>c m. xw_decode w cookie = Some c \<and> lc_method c = name \<and> lc_state c = submitted_state (xr_form req)
          \<and> xa_login_methods app name = Some m \<and> lm_has_button m \<and> lm_login_kind m = Credential
          \<and> lm_complete_login m (submitted (xr_form req)) = LoginIdentify p))"

definition bound_pools :: "ExchangeApp \<Rightarrow> string \<Rightarrow> Principal \<Rightarrow> string \<Rightarrow> bool" where
  "bound_pools app name p pool \<longleftrightarrow>
     (\<exists>table. xa_role_bindings app name = Some table \<and> (\<exists>b \<in> set (granting_bindings table p). binding_grants b pool))"

lemma resolved_pools:
  assumes "resolve_exchange verdict bindings = Inr (p, team, pools)"
  shows "\<exists>name table. verdict = Identified name p None \<and> bindings name = Some table \<and> sanitize_self_sub (pn_id p) = None
    \<and> pools = (if snd (pool_union (granting_bindings table p)) then None else Some (fst (pool_union (granting_bindings table p))))"
  using assms by (auto simp: resolve_exchange_def case_prod_unfold Let_def split: ChainVerdict.splits if_splits option.splits)

lemma submit_result:
  assumes "credential_submit e ensure_leaf decode joined app mint_now cookie form gov = (gov1, Inr k)"
  shows "\<exists>c m p. decode cookie = Some c \<and> submitted_state form = lc_state c \<and> xa_login_methods app (lc_method c) = Some m
    \<and> lm_has_button m \<and> lm_login_kind m = Credential \<and> lm_complete_login m (submitted form) = LoginIdentify p
    \<and> issue_and_render e ensure_leaf app mint_now (lc_method c) p (lc_refresh c) gov = (gov1, Inr k)"
  using assms
  by (auto simp: credential_submit_def offload_login_call_def split: option.splits if_splits LoginOutcome.splits)

text \<open>Whichever way a request is identified, a key comes out of \<open>issue_key\<close> for that identity.\<close>

lemma exchange_result:
  assumes "exchange w app req (c, Some ks) = ((c1, gov1), Inr k)"
  shows "\<exists>name p team pools again d ks1. identified w app req (c, Some ks) name p
    \<and> resolve_exchange (Identified name p None) (xa_role_bindings app) = Inr (p, team, pools) \<and> gov1 = Some ks1
    \<and> issue_key (xw_env w) (xw_ensure_leaf w) p team pools (xa_self_key_ttl_secs app) (xw_mint_now w) again (ks\<lparr>ks_denylist := d\<rparr>) = (ks1, Inr k)"
proof (cases "read_cookie (xr_cookie req)")
  case None
  obtain c2 gov2 verdict where v: "run_chain_on_request_path (xw_peers w) (xw_sha w) (en_crypto (xw_env w)) (xw_now w)
      (xw_offloaded w) (xa_auth app) (xr_candidate req) (c, Some ks) = ((c2, gov2), verdict)" by (metis prod.collapse)
  from chain_frame [OF v] obtain d where d: "gov2 = Some (ks\<lparr>ks_denylist := d\<rparr>)" by blast
  obtain p team pools where r: "resolve_exchange verdict (xa_role_bindings app) = Inr (p, team, pools)"
    using assms None by (auto simp: exchange_def v split: sum.splits)
  from resolved_pools [OF r] obtain name where n: "verdict = Identified name p None" by blast
  obtain ks1 where "gov1 = Some ks1" "issue_key (xw_env w) (xw_ensure_leaf w) p team pools (xa_self_key_ttl_secs app)
      (xw_mint_now w) False (ks\<lparr>ks_denylist := d\<rparr>) = (ks1, Inr k)"
    using assms None by (auto simp: exchange_def v r d split: prod.splits sum.splits)
  moreover have "identified w app req (c, Some ks) name p" by (simp add: identified_def None v n)
  ultimately show ?thesis using r n by blast
next
  case (Some cookie)
  then have "credential_submit (xw_env w) (xw_ensure_leaf w) (xw_decode w) (xw_login_ran w) app (xw_mint_now w) cookie
      (xr_form req) (Some ks) = (gov1, Inr k)"
    using assms by (auto simp: exchange_def split: prod.splits sum.splits)
  from submit_result [OF this] obtain lc m p where lc: "xw_decode w cookie = Some lc" "submitted_state (xr_form req) = lc_state lc"
    "xa_login_methods app (lc_method lc) = Some m" "lm_has_button m" "lm_login_kind m = Credential"
    "lm_complete_login m (submitted (xr_form req)) = LoginIdentify p"
    and i: "issue_and_render (xw_env w) (xw_ensure_leaf w) app (xw_mint_now w) (lc_method lc) p (lc_refresh lc) (Some ks) = (gov1, Inr k)"
    by blast
  obtain p1 team pools where r: "resolve_exchange (Identified (lc_method lc) p None) (xa_role_bindings app) = Inr (p1, team, pools)"
    using i by (auto simp: issue_and_render_def split: sum.splits)
  have p1: "p1 = p" using resolved_pools [OF r] by auto
  obtain ks1 where "gov1 = Some ks1" "issue_key (xw_env w) (xw_ensure_leaf w) p team pools (xa_self_key_ttl_secs app)
      (xw_mint_now w) (lc_refresh lc) (ks\<lparr>ks_denylist := ks_denylist ks\<rparr>) = (ks1, Inr k)"
    using i r p1 by (auto simp: issue_and_render_def split: prod.splits sum.splits)
  moreover have "identified w app req (c, Some ks) (lc_method lc) p" using lc by (auto simp: identified_def Some)
  ultimately show ?thesis using r p1 by blast
qed

text \<open>
  C24: the exchange mints for the caller and nobody else. A key is only issued to an identity that the
  chain established, not from a key of the gateway, or that a login method with a form verified from
  the submitted form, after the form's state matched the cookie's. The node then serves, under the id
  it handed out, an enabled row that charges the personal group of that identity, whose name cannot
  be taken for a reserved bucket or another route, and admits exactly the pools the roles of the
  identity are bound to under that provider. The secret it handed out is accepted as that row until
  it expires, unless the id is revoked. This holds for a first key, a returning caller whose bindings
  changed, and a rotation.
\<close>

theorem exchange_mints_for_the_caller:
  assumes "exchange w app req (c, Some ks) = ((c1, gov1), Inr k)"
    and "crypto_laws (en_crypto (xw_env w))" and "reach key_init key_step ks" and "cached_by_id ks"
    and "ks_signing ks = Some (signing_material_new (en_crypto (xw_env w)) signer)"
  shows "\<exists>name p ks1 row. identified w app req (c, Some ks) name p \<and> sanitize_self_sub (pn_id p) = None
    \<and> gov1 = Some ks1 \<and> lookup_by_sub (ik_key_id k) ks1 = Some row \<and> vk_enabled row
    \<and> vk_group row = Some (self_group p) \<and> ik_group k = self_group p
    \<and> (\<forall>pool. scope_allowed row ''pool'' pool = bound_pools app name p pool)
    \<and> (\<forall>now. snd (verify_token (en_crypto (xw_env w)) (ik_secret k) now ks1)
          = (if now < ik_exp k \<and> \<not> rv_contains (ik_key_id k) (ks_denylist ks1) then Some row else None))"
proof -
  obtain name p team pools again d ks1 where id: "identified w app req (c, Some ks) name p"
    and r: "resolve_exchange (Identified name p None) (xa_role_bindings app) = Inr (p, team, pools)" and gov: "gov1 = Some ks1"
    and k: "issue_key (xw_env w) (xw_ensure_leaf w) p team pools (xa_self_key_ttl_secs app) (xw_mint_now w) again (ks\<lparr>ks_denylist := d\<rparr>) = (ks1, Inr k)"
    using exchange_result [OF assms(1)] by blast
  from key_sys.reach_inv [OF assms(3)] have wf: "mem_wf (ks_store (ks\<lparr>ks_denylist := d\<rparr>))" "cached_by_id (ks\<lparr>ks_denylist := d\<rparr>)"
    using assms(4) by (simp_all add: cached_by_id_def)
  obtain row where row: "lookup_by_sub (ik_key_id k) ks1 = Some row" "vk_group row = Some (self_group p)" "vk_enabled row"
    "ik_group k = self_group p" and scopes: "vk_allowed_scopes row = map_option (map scope_pool) pools"
    and token: "\<forall>now. snd (verify_token (en_crypto (xw_env w)) (ik_secret k) now ks1)
          = (if now < ik_exp k \<and> \<not> rv_contains (ik_key_id k) (ks_denylist ks1) then Some row else None)"
    using issue_key_minted [OF k assms(2) wf] assms(5) by auto
  obtain table where t: "xa_role_bindings app name = Some table" "sanitize_self_sub (pn_id p) = None"
    and pools: "pools = (if snd (pool_union (granting_bindings table p)) then None else Some (fst (pool_union (granting_bindings table p))))"
    using resolved_pools [OF r] by auto
  have "scope_allowed row ''pool'' pool = bound_pools app name p pool" for pool
    unfolding bound_pools_def t(1) using union_allows [of "granting_bindings table p" pool]
    by (auto simp: scope_allowed_def scopes pools scope_pool_def list_ex_iff)
  with id t(2) gov row token show ?thesis by blast
qed

text \<open>
  Alice comes back for her key, with the token of her provider or by the form of the same provider:
  she is given the key she has.
\<close>

definition alice :: Principal where
  "alice = \<lparr>pn_id = ''corp:alice'', pn_name = None, pn_roles = [''dev''], pn_ttl_secs = None\<rparr>"

definition alice_app :: ExchangeApp where
  "alice_app = \<lparr>xa_auth = \<lparr>aw_keys_in_chain = True,
       aw_chain = [(''corp'', \<lparr>am_cacheable = False, am_authenticate = (\<lambda>t. if t = Some ''id-token'' then Identify alice else Pass)\<rparr>)],
       aw_has_plugin_module = True\<rparr>,
     xa_role_bindings = [''corp'' \<mapsto> [''dev'' \<mapsto> \<lparr>rb_allowed_pools = Some [''fast''], rb_group = Some ''team'', rb_admin_scope = None\<rparr>]],
     xa_login_methods = [''corp'' \<mapsto> \<lparr>lm_complete_login = (\<lambda>fields. if (''password'', ''pw'') \<in> set fields then LoginIdentify alice else LoginReject),
       lm_has_button = True, lm_login_kind = Credential\<rparr>],
     xa_self_key_ttl_secs = 3600\<rparr>"

definition alice_key :: VirtualKey where
  "alice_key = (binding_row ''vk_a'' ''0'' ''self-serve key (corp:alice)'' (Some [''fast'']) (Some ''user:corp:alice'') [] 50)\<lparr>vk_revision := 1\<rparr>"

definition alice_keys :: KeyState where
  "alice_keys =
     \<lparr>ks_store = memory_new\<lparr>ms_keys := [(''vk_a'', alice_key)], ms_revision := 1, ms_keys_sweep_ticker := 1\<rparr>,
      ks_calls = 0, ks_by_id = [''vk_a'' \<mapsto> alice_key], ks_by_credential = Map.empty,
      ks_signing = Some (signing_material_new example_crypto example_signer), ks_denylist = revocation_new [] 100,
      ks_gov = \<lparr>gs_budget = Map.empty, gs_sweep_ticker = (\<lambda>_. 0), gs_concurrent = Map.empty\<rparr>\<rparr>"

definition alice_world :: ExchangeWorld where
  "alice_world = \<lparr>xw_env = \<lparr>en_crypto = example_crypto, en_fault = (\<lambda>_. Answered), en_clock = 100, en_order = [''vk_a'']\<rparr>,
     xw_peers = alone, xw_sha = id,
     xw_decode = (\<lambda>raw. if raw = ''c1'' then Some \<lparr>lc_method = ''corp'', lc_code_verifier = ''v'', lc_state = ''s'', lc_nonce = ''n'', lc_refresh = False\<rparr> else None),
     xw_ensure_leaf = (\<lambda>leaf team. True), xw_offloaded = True, xw_login_ran = True, xw_now = 100, xw_mint_now = 100\<rparr>"

definition by_token :: ExchangeRequest where
  "by_token = \<lparr>xr_cookie = Some ''theme=dark'', xr_form = [], xr_candidate = Some ''id-token''\<rparr>"

definition by_form :: ExchangeRequest where
  "by_form = \<lparr>xr_cookie = Some ''theme=dark; busbar_login=c1'', xr_form = [(''__state'', ''s''), (''password'', ''pw'')], xr_candidate = None\<rparr>"

lemma alice_keys_reach: "reach key_init key_step alice_keys"
proof (rule reach_init)
  have "put_key 100 (alice_key\<lparr>vk_revision := 0\<rparr>) memory_new = Inr (ks_store alice_keys)"
    by (simp add: alice_keys_def alice_key_def binding_row_def put_key_def memory_new_def next_revision_def wrap_u64_def
        sweep_due_def SWEEP_INTERVAL_def Let_def)
  then have "mem_step memory_new (100, PutKey (alice_key\<lparr>vk_revision := 0\<rparr>)) (ks_store alice_keys)"
    by (intro mem_step.applied) simp
  then show "key_init alice_keys" unfolding key_init_def by (rule reach_step [OF mem_start])
qed

definition alice_out :: IssuedKey where
  "alice_out = issued 3700 (alice_key, remint (xw_env alice_world) (signing_material_new example_crypto example_signer) alice_key 3700)"

lemma alice_issue:
  "issue_key (xw_env alice_world) (xw_ensure_leaf alice_world) alice ''team'' (Some [''fast'']) 3600 100 False alice_keys = (alice_keys, Inr alice_out)"
proof -
  have "issue_self (xw_env alice_world) (pn_id alice) (Some [''fast'']) 3700 100 alice_keys
      = (alice_keys, Inr (alice_key, remint (xw_env alice_world) (signing_material_new example_crypto example_signer) alice_key 3700))"
    by (simp add: issue_self_def and_then_def signer_of_def alice_keys_def current_self_binding_def alice_world_def alice_def
        List.map_filter_def alice_key_def binding_row_def SELF_KEY_GROUP_PREFIX_def issue_existing_def ok_def Let_def)
  then show ?thesis
    by (simp add: issue_key_def self_issue_def self_mint_def alice_out_def alice_world_def saturating_add_def u64_max_def)
qed

lemma alice_resolves: "resolve_exchange (Identified ''corp'' alice None) (xa_role_bindings alice_app) = Inr (alice, ''team'', Some [''fast''])"
  by (simp add: resolve_exchange_def alice_app_def granting_bindings_def first_group_def List.map_filter_def sanitize_self_sub_def alice_def
      pool_union_def union_step_def add_pools_def)

lemma alice_exchange:
  "\<exists>c. exchange alice_world alice_app by_token (\<lparr>sh_cache = cache_new, sh_accesses = 0\<rparr>, Some alice_keys) = ((c, Some alice_keys), Inr alice_out)"
proof -
  have none: "read_cookie (xr_cookie by_token) = None"
    by (simp add: by_token_def read_cookie_def LOGIN_COOKIE_def header_trim_def header_space_def)
  have chain: "\<exists>c. run_chain_on_request_path (xw_peers alice_world) (xw_sha alice_world) (en_crypto (xw_env alice_world)) (xw_now alice_world)
      (xw_offloaded alice_world) (xa_auth alice_app) (xr_candidate by_token) (\<lparr>sh_cache = cache_new, sh_accesses = 0\<rparr>, Some alice_keys)
        = ((c, Some alice_keys), Identified ''corp'' alice None)"
    by (simp add: run_chain_on_request_path_def run_chain_cached_def alice_app_def alice_world_def by_token_def chain_generation_def
        shared_def alone_def chain_lookup_def chain_commit_def cache_here_def Let_def)
  have "xa_self_key_ttl_secs alice_app = 3600" "xw_mint_now alice_world = 100" by (simp_all add: alice_app_def alice_world_def)
  then show ?thesis using chain alice_resolves alice_issue by (auto simp: exchange_def none)
qed

lemma alice_logs_in:
  "exchange alice_world alice_app by_form (c, Some alice_keys) = ((c, Some alice_keys), Inr alice_out)"
proof -
  have "read_cookie (xr_cookie by_form) = Some ''c1''"
    by (simp add: by_form_def read_cookie_def LOGIN_COOKIE_def header_trim_def header_space_def)
  moreover have "credential_submit (xw_env alice_world) (xw_ensure_leaf alice_world) (xw_decode alice_world) True alice_app 100 ''c1''
      (xr_form by_form) (Some alice_keys)
      = issue_and_render (xw_env alice_world) (xw_ensure_leaf alice_world) alice_app 100 ''corp'' alice False (Some alice_keys)"
    by (simp add: credential_submit_def alice_world_def alice_app_def by_form_def submitted_state_def submitted_def FORM_STATE_FIELD_def
        offload_login_call_def)
  moreover have "issue_and_render (xw_env alice_world) (xw_ensure_leaf alice_world) alice_app 100 ''corp'' alice False (Some alice_keys)
      = (Some alice_keys, Inr alice_out)"
    using alice_resolves alice_issue by (simp add: issue_and_render_def) (simp add: alice_app_def)
  moreover have "xw_login_ran alice_world" "xw_mint_now alice_world = 100" by (simp_all add: alice_world_def)
  ultimately show ?thesis by (simp add: exchange_def)
qed

theorem exchange_mints_for_the_caller_witness:
  "\<exists>c p row. identified alice_world alice_app by_form (c, Some alice_keys) ''corp'' p
     \<and> exchange alice_world alice_app by_form (c, Some alice_keys) = ((c, Some alice_keys), Inr alice_out)
     \<and> lookup_by_sub (ik_key_id alice_out) alice_keys = Some row \<and> scope_allowed row ''pool'' ''fast'' = bound_pools alice_app ''corp'' p ''fast''
     \<and> snd (verify_token example_crypto (ik_secret alice_out) 3699 alice_keys) = Some row"
proof -
  let ?c = "\<lparr>sh_cache = cache_new, sh_accesses = 0\<rparr>"
  have env: "en_crypto (xw_env alice_world) = example_crypto" by (simp add: alice_world_def)
  have hyps: "crypto_laws example_crypto" "cached_by_id alice_keys" "ks_signing alice_keys = Some (signing_material_new example_crypto example_signer)"
    by (simp_all add: example_crypto_laws cached_by_id_def alice_keys_def alice_key_def binding_row_def)
  have out: "\<not> rv_contains (ik_key_id alice_out) (ks_denylist alice_keys)" "ik_exp alice_out = 3700"
    by (simp_all add: alice_keys_def revocation_new_def rv_contains_def alice_out_def issued_def)
  have cookie: "identified alice_world alice_app by_form (?c, Some alice_keys) name p \<Longrightarrow> name = ''corp''" for name p
    by (auto simp: identified_def by_form_def read_cookie_def LOGIN_COOKIE_def header_trim_def header_space_def alice_world_def split: if_splits)
  obtain name p ks1 row where run: "identified alice_world alice_app by_form (?c, Some alice_keys) name p" "Some alice_keys = Some ks1"
    "lookup_by_sub (ik_key_id alice_out) ks1 = Some row" "\<forall>pool. scope_allowed row ''pool'' pool = bound_pools alice_app name p pool"
    "\<forall>now. snd (verify_token example_crypto (ik_secret alice_out) now ks1)
          = (if now < ik_exp alice_out \<and> \<not> rv_contains (ik_key_id alice_out) (ks_denylist ks1) then Some row else None)"
    using exchange_mints_for_the_caller [OF alice_logs_in, of example_signer ?c] hyps alice_keys_reach unfolding env by blast
  have ks1: "ks1 = alice_keys" and name: "name = ''corp''" using run(2) cookie [OF run(1)] by simp_all
  have "snd (verify_token example_crypto (ik_secret alice_out) 3699 alice_keys) = Some row" using run(5) out by (simp add: ks1)
  then show ?thesis
    using run(1,3,4) alice_logs_in [of ?c] unfolding ks1 name by blast
qed

end
