(* ===== verification/Admin_Rate.thy ===== *)
theory Admin_Rate
  imports Cost_Model "HOL-Library.Sublist"
begin

text \<open>
  The rate limits of admin mutations, \<open>src/crates/busbar/src/admin/rate.rs\<close>: which class a path
  belongs to, and the fixed one-minute windows of every principal and class.

  The map of windows is a function; the sweep of a check keeps the entries of the window the check
  falls in. The counters are \<open>u32\<close>; that of the refusals can wrap.
\<close>

section \<open>Classes\<close>

datatype MutationClass = ConfigClass | Crud | PluginInspect | Forbidden

definition MUTATION_RATE_WINDOW_SECS :: u64 where "MUTATION_RATE_WINDOW_SECS = 60"

fun class_limit :: "MutationClass \<Rightarrow> u32" where
  "class_limit ConfigClass = 10"
| "class_limit Crud = 60"
| "class_limit PluginInspect = 30"
| "class_limit Forbidden = 0"

fun class_label :: "MutationClass \<Rightarrow> string" where
  "class_label ConfigClass = ''config''"
| "class_label Crud = ''crud''"
| "class_label PluginInspect = ''plugin-inspect''"
| "class_label Forbidden = ''forbidden''"

datatype PathRule = Exact string | Prefix string

fun rule_matches :: "string \<Rightarrow> PathRule \<Rightarrow> bool" where
  "rule_matches rel (Exact p) = (rel = p)"
| "rule_matches rel (Prefix p) = prefix p rel"

definition PATH_ADMIN_AUTH :: string where "PATH_ADMIN_AUTH = ''/admin-auth''"
definition PATH_CONFIG_VALIDATE :: string where "PATH_CONFIG_VALIDATE = ''/config/validate''"
definition PATH_PLUGINS_INSPECT :: string where "PATH_PLUGINS_INSPECT = ''/plugins/inspect''"

definition CONFIG_CLASS_RULES :: "PathRule list" where
  "CONFIG_CLASS_RULES = [Prefix ''/config/'', Exact PATH_ADMIN_AUTH, Prefix ''/overlay/'', Exact ''/plugins/reload'',
     Exact ''/plugins/rollback'', Exact ''/restart'']"

datatype NamedMapSection = IdentityProviders | ExportSection

definition all_sections :: "NamedMapSection list" where "all_sections = [IdentityProviders, ExportSection]"

fun path_root :: "NamedMapSection \<Rightarrow> string" where
  "path_root IdentityProviders = ''/identity-providers''"
| "path_root ExportSection = ''/export''"

definition classify_mutation :: "string \<Rightarrow> MutationClass" where
  "classify_mutation rel =
     (if rel = PATH_CONFIG_VALIDATE then Crud
      else if rel = PATH_PLUGINS_INSPECT then PluginInspect
      else if list_ex (\<lambda>s. prefix (path_root s) rel) all_sections then ConfigClass
      else if list_ex (rule_matches rel) CONFIG_CLASS_RULES then ConfigClass
      else Crud)"

text \<open>No path earns the class that is no budget, and only the preview of an archive its own.\<close>

lemma classify_mutation_cases:
  "classify_mutation rel \<noteq> Forbidden \<and> (classify_mutation rel = PluginInspect \<longleftrightarrow> rel = PATH_PLUGINS_INSPECT)"
  by (simp add: classify_mutation_def PATH_CONFIG_VALIDATE_def PATH_PLUGINS_INSPECT_def)

section \<open>The limiter\<close>

text \<open>A window: its start, the attempts spent, the refusals.\<close>

type_synonym Window = "u64 \<times> u32 \<times> u32"
type_synonym Limiter = "string \<times> MutationClass \<rightharpoonup> Window"

datatype RateCheck = Admitted | Denied bool

definition limiter_new :: Limiter where "limiter_new = Map.empty"

definition rate_window :: "u64 \<Rightarrow> u64" where
  "rate_window now = now - now mod MUTATION_RATE_WINDOW_SECS"

definition sweep_past :: "u64 \<Rightarrow> Limiter \<Rightarrow> Limiter" where
  "sweep_past window m = (\<lambda>k. case m k of Some (w, spent, denied) \<Rightarrow> (if w = window then m k else None) | None \<Rightarrow> None)"

definition rate_check :: "string \<Rightarrow> MutationClass \<Rightarrow> u64 \<Rightarrow> Limiter \<Rightarrow> Limiter \<times> RateCheck" where
  "rate_check who c now m =
     (let window = rate_window now;
          m1 = sweep_past window m;
          (w, spent, denied) = (case m1 (who, c) of Some entry \<Rightarrow> entry | None \<Rightarrow> (window, 0, 0))
      in if class_limit c \<le> spent
         then let denied1 = wrap_u32 (denied + 1)
              in (m1((who, c) \<mapsto> (w, spent, denied1)), Denied (denied1 = 1))
         else (m1((who, c) \<mapsto> (w, spent + 1, denied)), Admitted))"

text \<open>A run of checks, each with its principal, class and clock.\<close>

type_synonym Check = "string \<times> MutationClass \<times> u64"

definition check_slot :: "Check \<Rightarrow> string \<times> MutationClass \<times> u64" where
  "check_slot e = (case e of (p, c, now) \<Rightarrow> (p, c, rate_window now))"

definition check_window :: "Check \<Rightarrow> u64" where
  "check_window e = rate_window (snd (snd e))"

fun run_checks :: "Check list \<Rightarrow> Limiter \<Rightarrow> Limiter \<times> RateCheck list" where
  "run_checks [] m = (m, [])"
| "run_checks ((p, c, now) # es) m =
     (let (m1, r) = rate_check p c now m; (m2, rs) = run_checks es m1 in (m2, r # rs))"

section \<open>What the windows count\<close>

text \<open>The answer a class and the number of earlier attempts determine.\<close>

definition verdict_of :: "MutationClass \<Rightarrow> nat \<Rightarrow> RateCheck" where
  "verdict_of c n = (if n < class_limit c then Admitted else Denied (n = class_limit c))"

definition attempts :: "Check list \<Rightarrow> string \<times> MutationClass \<times> u64 \<Rightarrow> nat" where
  "attempts es slot = length (filter (\<lambda>e. check_slot e = slot) es)"

text \<open>
  The limiter after \<open>es\<close>, the last of which fell into the window \<open>w\<close>: the entries are
  those of \<open>w\<close>, and they count the attempts of \<open>es\<close>.
\<close>

definition counts :: "Check list \<Rightarrow> u64 \<Rightarrow> Limiter \<Rightarrow> bool" where
  "counts es w m \<longleftrightarrow> (\<forall>p c. m (p, c) =
     (let n = attempts es (p, c, w) in
      if n = 0 then None else Some (w, min n (class_limit c), n - class_limit c)))"

lemma attempts_snoc: "attempts (es @ [e]) slot = attempts es slot + (if check_slot e = slot then 1 else 0)"
  by (simp add: attempts_def)

lemma attempts_later:
  assumes "list_all (\<lambda>e. check_window e < w) es"
  shows "attempts es (p, c, w) = 0"
  using assms by (induction es) (auto simp: attempts_def check_slot_def check_window_def)

lemma sweep_counts:
  assumes "counts es w0 m" and "list_all (\<lambda>e. check_window e \<le> w0) es" and "w0 \<le> w"
  shows "counts es w (sweep_past w m)"
proof (cases "w0 = w")
  case True
  with assms(1) show ?thesis by (simp add: counts_def sweep_past_def Let_def)
next
  case False
  with assms have l: "list_all (\<lambda>e. check_window e < w) es" by (auto simp: list_all_iff)
  from False assms(1) attempts_later [OF l] show ?thesis by (auto simp: counts_def sweep_past_def Let_def)
qed

lemma attempts_bound: "attempts es slot \<le> length es"
  by (simp add: attempts_def)

lemma rate_check_counts:
  assumes "counts es w (sweep_past w m)" and "w = rate_window now" and "length es < u32_max"
  shows "counts (es @ [(p, c, now)]) w (fst (rate_check p c now m))
    \<and> snd (rate_check p c now m) = verdict_of c (attempts es (p, c, w))"
proof -
  let ?n = "attempts es (p, c, w)"
  let ?e = "case sweep_past w m (p, c) of Some entry \<Rightarrow> entry | None \<Rightarrow> (w, 0, 0)"
  have e: "?e = (w, min ?n (class_limit c), ?n - class_limit c)"
    using assms(1) by (simp add: counts_def Let_def)
  have b: "wrap_u32 (?n - class_limit c + 1) = ?n - class_limit c + 1"
  proof -
    have "?n - class_limit c + 1 < 4294967296"
      using attempts_bound [of es "(p, c, w)"] assms(3) by (simp add: u32_max_def)
    then show ?thesis unfolding wrap_u32_def by (rule mod_less)
  qed
  have r: "rate_check p c now m =
      (if class_limit c \<le> ?n then ((sweep_past w m)((p, c) \<mapsto> (w, class_limit c, ?n - class_limit c + 1)), Denied (?n = class_limit c))
       else ((sweep_past w m)((p, c) \<mapsto> (w, ?n + 1, 0)), Admitted))"
    unfolding rate_check_def Let_def assms(2) [symmetric] e
    using b by (simp add: min_def)
  have s: "check_slot (p, c, now) = (p, c, w)" by (simp add: check_slot_def assms(2))
  show ?thesis
    using assms(1) by (auto simp: r counts_def attempts_snoc s verdict_of_def Let_def min_def)
qed

text \<open>The checks of a run come in the order of their windows: nobody's clock was read long before.\<close>

definition in_order :: "Check list \<Rightarrow> bool" where
  "in_order es \<longleftrightarrow> sorted (map check_window es)"

fun answers_from :: "Check list \<Rightarrow> Check list \<Rightarrow> RateCheck list" where
  "answers_from es [] = []"
| "answers_from es (e # fs) = verdict_of (fst (snd e)) (attempts es (check_slot e)) # answers_from (es @ [e]) fs"

lemma run_checks_counts:
  assumes "counts es w0 m" and "list_all (\<lambda>e. check_window e \<le> w0) es"
    and "sorted (w0 # map check_window fs)" and "length es + length fs \<le> u32_max"
  shows "snd (run_checks fs m) = answers_from es fs"
  using assms
proof (induction fs arbitrary: es w0 m)
  case (Cons e fs)
  obtain p c now where e: "e = (p, c, now)" by (cases e)
  let ?w = "rate_window now"
  have w: "check_window e = ?w" "check_slot e = (p, c, ?w)" by (simp_all add: e check_window_def check_slot_def)
  have le: "w0 \<le> ?w" and so: "sorted (?w # map check_window fs)" using Cons.prems(3) w by auto
  from sweep_counts [OF Cons.prems(1,2) le] have "counts es ?w (sweep_past ?w m)" .
  with Cons.prems(4) rate_check_counts [OF this refl, of p c]
  have r: "counts (es @ [e]) ?w (fst (rate_check p c now m))" "snd (rate_check p c now m) = verdict_of c (attempts es (p, c, ?w))"
    by (simp_all add: e)
  have l: "list_all (\<lambda>e. check_window e \<le> ?w) (es @ [e])"
    using Cons.prems(2) le w by (auto simp: list_all_iff)
  from Cons.IH [OF r(1) l so] Cons.prems(4) r(2) show ?case
    by (simp add: e w(2) [unfolded e] case_prod_unfold Let_def)
qed simp

lemma nth_answers: "i < length fs \<Longrightarrow> answers_from es fs ! i = verdict_of (fst (snd (fs ! i))) (attempts (es @ take i fs) (check_slot (fs ! i)))"
  by (induction fs arbitrary: es i) (auto simp: nth_Cons' take_Cons')

lemma counts_new: "counts [] w limiter_new"
  by (simp add: counts_def limiter_new_def attempts_def)

text \<open>
  The rate limit is exact. While the checks come in the order of their windows, a check is
  admitted exactly when its principal made fewer attempts in its class and minute than the
  class allows, refused attempts counted or not; of the refusals exactly the first of every
  minute is reported as such.
\<close>

lemma rate_limit_is_exact:
  assumes "in_order es" and "length es \<le> u32_max" and "i < length es" and "es ! i = (p, c, now)"
  shows "snd (run_checks es limiter_new) ! i =
    (let n = length (filter (\<lambda>e. check_slot e = (p, c, rate_window now)) (take i es))
     in if n < class_limit c then Admitted else Denied (n = class_limit c))"
proof -
  have "sorted (0 # map check_window es)" using assms(1) by (simp add: in_order_def)
  with run_checks_counts [OF counts_new, of 0 es] assms(2)
  have "snd (run_checks es limiter_new) = answers_from [] es" by simp
  then show ?thesis
    using nth_answers [OF assms(3), of "[]"] assms(4)
    by (simp add: attempts_def verdict_of_def check_slot_def Let_def)
qed

lemma replicate_ten: "replicate 10 x = [x, x, x, x, x, x, x, x, x, x]"
  by (simp add: numeral_nat)

text \<open>
  The order matters. The clock is read before the lock is taken: a check stamped before a minute
  ended that gets the lock after the first checks of the next one sweeps the counters of
  that minute, and the budget starts anew.
\<close>

definition racing_checks :: "Check list" where
  "racing_checks = replicate 10 (''ops'', ConfigClass, 120) @ [(''ops'', ConfigClass, 120), (''x'', Crud, 119), (''ops'', ConfigClass, 121)]"

lemma stale_check_refills:
  "snd (run_checks racing_checks limiter_new) = replicate 10 Admitted @ [Denied True, Admitted, Admitted]"
  by (simp add: racing_checks_def replicate_ten rate_check_def limiter_new_def sweep_past_def rate_window_def
      MUTATION_RATE_WINDOW_SECS_def wrap_u32_def Let_def)

end
