(* ===== verification/Auth_Admin.thy ===== *)
theory Auth_Admin
  imports Auth_Chain Admin_Rate Audit_Log "HOL-Library.Word"
begin

unbundle bit_operations_syntax

text \<open>
  Who may do what on the admin plane: the two scopes and the sets of them (\<open>Scope\<close>, \<open>Grants\<close> and
  \<open>required_scope\<close> of \<open>src/crates/busbar/src/admin/v1/contract/mod.rs\<close>), the operator token
  (\<open>src/crates/auth-admin-tokens\<close>), the admin chain with the credential cache, the scope of an
  identity, and the admin branch of \<open>auth_middleware\<close> (\<open>src/crates/busbar/src/auth/mod.rs\<close>) with its
  rate limits and audit records.

  The configuration the branch reads is the record \<open>AdminPlane\<close>. A module is its answer; the
  cache is shared with other requests as in the data-plane chain.
\<close>

section \<open>Scopes and grants\<close>

datatype Scope = ReadOnly | Full

fun scope_str :: "Scope \<Rightarrow> string" where
  "scope_str ReadOnly = ''read-only''"
| "scope_str Full = ''full''"

definition scope_parse :: "string \<Rightarrow> Scope option" where
  "scope_parse token = (if token = ''read-only'' then Some ReadOnly else if token = ''full'' then Some Full else None)"

fun scope_allows :: "Scope \<Rightarrow> Scope \<Rightarrow> bool" where
  "scope_allows held ReadOnly = True"
| "scope_allows held Full = (held = Full)"

definition all_scopes :: "Scope list" where "all_scopes = [ReadOnly, Full]"

definition scope_bit :: "Scope \<Rightarrow> 8 word" where
  "scope_bit s = push_bit (length (takeWhile (\<lambda>t. t \<noteq> s) all_scopes)) 1"

definition dominates :: "Scope \<Rightarrow> Scope \<Rightarrow> bool" where
  "dominates a b \<longleftrightarrow> list_all (\<lambda>n. \<not> scope_allows b n \<or> scope_allows a n) all_scopes"

definition scope_meet :: "Scope \<Rightarrow> Scope \<Rightarrow> Scope" where
  "scope_meet a b = (if dominates a b then b else if dominates b a then a else ReadOnly)"

type_synonym Grants = "8 word"

definition no_grants :: Grants where "no_grants = 0"

definition grants_of :: "Scope \<Rightarrow> Grants" where "grants_of s = scope_bit s"

definition grants_with :: "Grants \<Rightarrow> Scope \<Rightarrow> Grants" where "grants_with g s = g OR scope_bit s"

definition grants_contains :: "Grants \<Rightarrow> Scope \<Rightarrow> bool" where
  "grants_contains g s \<longleftrightarrow> g AND scope_bit s \<noteq> 0"

definition capped_by :: "Grants \<Rightarrow> Scope \<Rightarrow> Grants" where
  "capped_by g cap =
     foldl (\<lambda>acc s. grants_with acc (scope_meet s cap)) no_grants (filter (grants_contains g) all_scopes)"

definition grants_allows :: "Grants \<Rightarrow> Scope \<Rightarrow> bool" where
  "grants_allows g needed \<longleftrightarrow> list_ex (\<lambda>s. grants_contains g s \<and> scope_allows s needed) all_scopes"

text \<open>The bits behave as sets of scopes, and the ceiling as the meet of every member.\<close>

lemma scope_bits: "scope_bit ReadOnly = 1" "scope_bit Full = 2"
  by (simp_all add: scope_bit_def all_scopes_def)

lemma contains_with: "grants_contains (grants_with g s) t \<longleftrightarrow> s = t \<or> grants_contains g t"
proof -
  have d: "(g OR a) AND b = (g AND b) OR (a AND b)" for a b :: "8 word" by (simp add: bit.conj_disj_distrib2)
  have z: "x OR y = 0 \<longleftrightarrow> x = 0 \<and> y = 0" for x y :: "8 word" by (fact or_eq_0_iff)
  have "(1 :: 8 word) AND 2 = 0" "(2 :: 8 word) AND 1 = 0" by simp_all
  then show ?thesis
    by (cases s; cases t) (simp_all add: grants_contains_def grants_with_def d z scope_bits)
qed

lemma contains_none: "\<not> grants_contains no_grants s"
  by (simp add: grants_contains_def no_grants_def)

lemma contains_of: "grants_contains (grants_of s) t \<longleftrightarrow> s = t"
  using contains_with [of no_grants s t] contains_none [of t] by (simp add: grants_of_def grants_with_def no_grants_def)

lemma meet_Full: "scope_meet s Full = s" "scope_meet s ReadOnly = ReadOnly" "scope_meet ReadOnly s = ReadOnly"
  by (cases s; simp add: scope_meet_def dominates_def all_scopes_def)+

lemma contains_capped: "grants_contains (capped_by g cap) t \<longleftrightarrow> (\<exists>s. grants_contains g s \<and> t = scope_meet s cap)"
proof -
  have ex: "(\<exists>s. P s) \<longleftrightarrow> P ReadOnly \<or> P Full" for P by (metis Scope.exhaust)
  show ?thesis
    by (auto simp: capped_by_def all_scopes_def contains_with contains_none ex)
qed

lemma allows_iff:
  "grants_allows g ReadOnly \<longleftrightarrow> (\<exists>s. grants_contains g s)" "grants_allows g Full \<longleftrightarrow> grants_contains g Full"
proof -
  have ex: "(\<exists>s. P s) \<longleftrightarrow> P ReadOnly \<or> P Full" for P by (metis Scope.exhaust)
  show "grants_allows g ReadOnly \<longleftrightarrow> (\<exists>s. grants_contains g s)" "grants_allows g Full \<longleftrightarrow> grants_contains g Full"
    by (auto simp: grants_allows_def all_scopes_def ex)
qed

text \<open>A ceiling never adds: what a capped set allows, the set and the ceiling both allow.\<close>

lemma capped_allows: "grants_allows (capped_by g cap) n \<longleftrightarrow> grants_allows g n \<and> scope_allows cap n"
proof (cases n)
  case ReadOnly
  then show ?thesis by (auto simp: allows_iff contains_capped)
next
  case Full
  have "(\<exists>s. grants_contains g s \<and> Full = scope_meet s cap) \<longleftrightarrow> grants_contains g Full \<and> cap = Full"
    by (cases cap) (auto simp: meet_Full)
  with Full show ?thesis by (simp add: allows_iff contains_capped)
qed

section \<open>The admin chain\<close>

record AdminPlane =
  ad_chain :: "string list"
  ad_modules :: "string \<rightharpoonup> AuthModule"
  ad_has_plugin :: bool
  ad_scope_caps :: "string \<rightharpoonup> string"
  ad_role_bindings :: RoleBindings
  ad_token_hash :: "string option"

definition ADMIN_TOKENS_MODULE :: string where "ADMIN_TOKENS_MODULE = ''admin-tokens''"
definition ADMIN_TOKENS_PRINCIPAL_ID :: string where "ADMIN_TOKENS_PRINCIPAL_ID = ''admin''"

definition authenticate_admin_tokens :: "(string \<Rightarrow> string) \<Rightarrow> string option \<Rightarrow> string option \<Rightarrow> string option \<Rightarrow> AuthOutcome" where
  "authenticate_admin_tokens sha configured_hash bearer header =
     (case configured_hash of
        None \<Rightarrow> Pass
      | Some hash \<Rightarrow>
          if bearer = None \<and> header = None then Pass
          else let bearer_match = (case bearer of Some b \<Rightarrow> sha b = hash | None \<Rightarrow> False);
                   header_match = (case header of Some h \<Rightarrow> sha h = hash | None \<Rightarrow> False)
               in if bearer_match \<or> header_match then Identify (from_id ADMIN_TOKENS_PRINCIPAL_ID) else Reject)"

text \<open>What was presented: both carriers, joined for the key of the cache.\<close>

definition composite_credential :: "string option \<Rightarrow> string option \<Rightarrow> string option" where
  "composite_credential bearer header =
     (if bearer = None \<and> header = None then None
      else Some (''b:'' @ (case bearer of Some b \<Rightarrow> b | None \<Rightarrow> []) @ [CHR 0x0A] @ ''h:'' @ (case header of Some h \<Rightarrow> h | None \<Rightarrow> [])))"

definition module_admin_scope_cap :: "AdminPlane \<Rightarrow> string \<Rightarrow> Scope option" where
  "module_admin_scope_cap ad name =
     (if name = ADMIN_TOKENS_MODULE then None
      else Some (case ad_scope_caps ad name of
        None \<Rightarrow> ReadOnly
      | Some token \<Rightarrow> (case scope_parse token of Some s \<Rightarrow> s | None \<Rightarrow> ReadOnly)))"

text \<open>\<open>bearer.or(header)\<close>.\<close>

definition either :: "string option \<Rightarrow> string option \<Rightarrow> string option" where
  "either bearer header = (case bearer of Some b \<Rightarrow> Some b | None \<Rightarrow> header)"

definition consult_admin_module :: "(string \<Rightarrow> string) \<Rightarrow> AdminPlane \<Rightarrow> string \<Rightarrow> string option \<Rightarrow> string option \<Rightarrow> AuthOutcome" where
  "consult_admin_module sha ad name bearer header =
     (if name = ADMIN_TOKENS_MODULE then authenticate_admin_tokens sha (ad_token_hash ad) bearer header
      else case ad_modules ad name of Some m \<Rightarrow> am_authenticate m (either bearer header) | None \<Rightarrow> Pass)"

definition admin_lookup ::
  "Peers \<Rightarrow> (string \<Rightarrow> string) \<Rightarrow> u64 \<Rightarrow> string \<Rightarrow> string option \<Rightarrow> SharedCache \<Rightarrow> SharedCache \<times> AuthOutcome option" where
  "admin_lookup peers sha now name cred c =
     (case cred of None \<Rightarrow> (c, None) | Some x \<Rightarrow> shared peers (cache_get sha name x now) c)"

definition admin_remember ::
  "Peers \<Rightarrow> (string \<Rightarrow> string) \<Rightarrow> u64 \<Rightarrow> u64 \<Rightarrow> string \<Rightarrow> string option \<Rightarrow> AuthOutcome \<Rightarrow> SharedCache \<Rightarrow> SharedCache" where
  "admin_remember peers sha now gen name cred outcome c =
     (case cred of None \<Rightarrow> c | Some x \<Rightarrow> shared_put peers sha x outcome now gen name c)"

fun admin_loop ::
  "Peers \<Rightarrow> (string \<Rightarrow> string) \<Rightarrow> u64 \<Rightarrow> u64 \<Rightarrow> AdminPlane \<Rightarrow> string option \<Rightarrow> string option \<Rightarrow> string list \<Rightarrow> SharedCache
   \<Rightarrow> SharedCache \<times> ChainVerdict \<times> Scope option" where
  "admin_loop peers sha now gen ad bearer header [] c = (c, ChainDenied, None)"
| "admin_loop peers sha now gen ad bearer header (name # rest) c =
     (let cred = (if name = ADMIN_TOKENS_MODULE then None else composite_credential bearer header);
          (c1, hit) = admin_lookup peers sha now name cred c;
          outcome = (case hit of Some o' \<Rightarrow> o' | None \<Rightarrow> consult_admin_module sha ad name bearer header);
          c2 = (if hit = None then admin_remember peers sha now gen name cred outcome c1 else c1)
      in case outcome of
           Identify p \<Rightarrow> (c2, Identified name p None, module_admin_scope_cap ad name)
         | Reject \<Rightarrow> (c2, ChainDenied, None)
         | Pass \<Rightarrow> admin_loop peers sha now gen ad bearer header rest c2)"

definition run_admin_chain ::
  "Peers \<Rightarrow> (string \<Rightarrow> string) \<Rightarrow> u64 \<Rightarrow> AdminPlane \<Rightarrow> string option \<Rightarrow> string option \<Rightarrow> SharedCache
   \<Rightarrow> SharedCache \<times> ChainVerdict \<times> Scope option" where
  "run_admin_chain peers sha now ad bearer header c =
     (if ad_chain ad = [] then (c, OpenDoor, None)
      else let (c1, gen) = shared peers (\<lambda>s. (s, cache_generation s)) c
           in admin_loop peers sha now gen ad bearer header (ad_chain ad) c1)"

text \<open>
  With a plugin the chain runs on another thread: no permit in time, no answer in time or a
  panic are denials. What an abandoned run does to the cache later is a matter of \<open>peers\<close>.
\<close>

definition run_admin_chain_maybe_offloaded ::
  "Peers \<Rightarrow> (string \<Rightarrow> string) \<Rightarrow> u64 \<Rightarrow> bool \<Rightarrow> AdminPlane \<Rightarrow> string option \<Rightarrow> string option \<Rightarrow> SharedCache
   \<Rightarrow> SharedCache \<times> ChainVerdict \<times> Scope option" where
  "run_admin_chain_maybe_offloaded peers sha now offloaded ad bearer header c =
     (if ad_has_plugin ad \<and> \<not> offloaded then (c, ChainDenied, None)
      else run_admin_chain peers sha now ad bearer header c)"

definition role_scopes :: "RoleTable \<Rightarrow> Principal \<Rightarrow> Scope list" where
  "role_scopes table p =
     List.map_filter scope_parse (List.map_filter rb_admin_scope (List.map_filter table (pn_roles p)))"

definition admin_scope_for :: "string option \<Rightarrow> Principal option \<Rightarrow> RoleBindings \<Rightarrow> Grants" where
  "admin_scope_for name who role_bindings =
     (case who of
        None \<Rightarrow> grants_of Full
      | Some p \<Rightarrow>
          if pn_roles p = []
          then (if name = Some ADMIN_TOKENS_MODULE \<and> pn_id p = ADMIN_TOKENS_PRINCIPAL_ID then grants_of Full else no_grants)
          else (case Option.bind name role_bindings of
              None \<Rightarrow> no_grants
            | Some table \<Rightarrow> foldl grants_with no_grants (role_scopes table p)))"

definition capped :: "Scope option \<Rightarrow> Grants \<Rightarrow> Grants" where
  "capped cap g = (case cap of Some c \<Rightarrow> capped_by g c | None \<Rightarrow> g)"

definition dry_run_admin_scope ::
  "Peers \<Rightarrow> (string \<Rightarrow> string) \<Rightarrow> u64 \<Rightarrow> AdminPlane \<Rightarrow> string option \<Rightarrow> string option \<Rightarrow> SharedCache \<Rightarrow> SharedCache \<times> Grants" where
  "dry_run_admin_scope peers sha now ad bearer header c =
     (let (c1, verdict, cap) = run_admin_chain peers sha now ad bearer header c in
      (c1, case verdict of
         Identified name p _ \<Rightarrow> capped cap (admin_scope_for (Some name) (Some p) (ad_role_bindings ad))
       | OpenDoor \<Rightarrow> capped cap (admin_scope_for None None (ad_role_bindings ad))
       | ChainDenied \<Rightarrow> no_grants))"

section \<open>The admin branch of the middleware\<close>

definition ADMIN_PREFIX :: string where "ADMIN_PREFIX = ''/api/v1/admin''"

definition admin_relative :: "string \<Rightarrow> string" where
  "admin_relative path = (case strip_prefix ADMIN_PREFIX path of Some rel \<Rightarrow> rel | None \<Rightarrow> path)"

definition required_scope :: "string \<Rightarrow> string \<Rightarrow> Scope" where
  "required_scope verb path =
     (if verb = ''GET'' \<or> verb = ''HEAD'' then ReadOnly
      else let rel = admin_relative path in
        if rel = PATH_CONFIG_VALIDATE \<or> rel = PATH_PLUGINS_INSPECT then ReadOnly else Full)"

record AdminRequest =
  aq_verb :: string
  aq_path :: string
  aq_bearer :: "string option"
  aq_header :: "string option"
  aq_now :: u64
  aq_limit_now :: u64
  aq_offloaded :: bool

datatype AdminAnswer = AdminNext "Principal option" | AdminUnauthorized | AdminForbidden Scope | AdminRateLimited

definition is_mutation :: "string \<Rightarrow> bool" where
  "is_mutation verb \<longleftrightarrow> verb = ''POST'' \<or> verb = ''PUT'' \<or> verb = ''PATCH'' \<or> verb = ''DELETE''"

definition actor_of :: "Principal option \<Rightarrow> string" where
  "actor_of who = (case who of Some p \<Rightarrow> pn_id p | None \<Rightarrow> ''anonymous'')"

fun identity_of :: "ChainVerdict \<Rightarrow> (string option \<times> Principal option) option" where
  "identity_of (Identified name p _) = Some (Some name, Some p)"
| "identity_of OpenDoor = Some (None, None)"
| "identity_of ChainDenied = None"

definition effective_scope :: "AdminPlane \<Rightarrow> string option \<Rightarrow> Principal option \<Rightarrow> Scope option \<Rightarrow> Grants" where
  "effective_scope ad name who cap = capped cap (admin_scope_for name who (ad_role_bindings ad))"

text \<open>The record of a refusal, kept only for the first of its window.\<close>

definition refusal_record :: "RateCheck \<Rightarrow> string \<Rightarrow> string \<Rightarrow> string \<Rightarrow> Mutation option" where
  "refusal_record r action resource actor =
     (if r = Denied True
      then Some \<lparr>mu_action = action, mu_resource = resource, mu_outcome = OUTCOME_REJECTED, mu_principal = actor\<rparr>
      else None)"

definition meter_mutation :: "AdminRequest \<Rightarrow> Principal option \<Rightarrow> Limiter \<Rightarrow> Limiter \<times> AdminAnswer \<times> Mutation option" where
  "meter_mutation q who m =
     (if is_mutation (aq_verb q)
      then let c = classify_mutation (admin_relative (aq_path q));
               actor = actor_of who;
               (m1, r) = rate_check actor c (aq_limit_now q) m
           in case r of
                Denied _ \<Rightarrow> (m1, AdminRateLimited, refusal_record r ''admin.rate_limited'' (class_label c @ '':'' @ aq_path q) actor)
              | Admitted \<Rightarrow> (m1, AdminNext who, None)
      else (m, AdminNext who, None))"

definition admin_gate ::
  "Peers \<Rightarrow> (string \<Rightarrow> string) \<Rightarrow> AdminPlane \<Rightarrow> AdminRequest \<Rightarrow> SharedCache \<times> Limiter
   \<Rightarrow> (SharedCache \<times> Limiter) \<times> AdminAnswer \<times> Mutation option" where
  "admin_gate peers sha ad q s =
     (let (c1, verdict, cap) =
            run_admin_chain_maybe_offloaded peers sha (aq_now q) (aq_offloaded q) ad (aq_bearer q) (aq_header q) (fst s)
      in case identity_of verdict of
           None \<Rightarrow> ((c1, snd s), AdminUnauthorized, None)
         | Some (name, who) \<Rightarrow>
             let required = required_scope (aq_verb q) (aq_path q) in
             if \<not> grants_allows (effective_scope ad name who cap) required
             then (let actor = actor_of who; (m1, r) = rate_check actor Forbidden (aq_limit_now q) (snd s)
                   in ((c1, m1), AdminForbidden required, refusal_record r ''admin.forbidden'' (aq_path q) actor))
             else (let (m1, answer, noted) = meter_mutation q who (snd s) in ((c1, m1), answer, noted)))"

text \<open>\<open>PUT /admin-auth\<close>: the new chain, refused when it would not give its author full scope.\<close>

datatype AdminAuthError = UnknownModule | LockOut

definition put_admin_auth ::
  "Peers \<Rightarrow> (string \<Rightarrow> string) \<Rightarrow> u64 \<Rightarrow> AdminPlane \<Rightarrow> string list \<Rightarrow> string option \<Rightarrow> string option \<Rightarrow> SharedCache
   \<Rightarrow> SharedCache \<times> (AdminAuthError + AdminPlane)" where
  "put_admin_auth peers sha now ad names bearer header c =
     (if \<not> list_all (\<lambda>name. name = ADMIN_TOKENS_MODULE) names then (c, Inl UnknownModule)
      else let candidate = ad\<lparr>ad_chain := names\<rparr>;
               (c1, grants) = dry_run_admin_scope peers sha now candidate bearer header c
           in (c1, if grants_contains grants Full then Inr candidate else Inl LockOut))"

section \<open>Authority is bounded\<close>

lemma fold_grants:
  "grants_contains (foldl grants_with g ss) s \<longleftrightarrow> s \<in> set ss \<or> grants_contains g s"
  by (induction ss arbitrary: g) (auto simp: contains_with)

lemma set_map_filter: "y \<in> set (List.map_filter f xs) \<longleftrightarrow> (\<exists>x \<in> set xs. f x = Some y)"
  by (induction xs) (auto simp: List.map_filter_simps split: option.splits)

lemma role_scopes_iff:
  "s \<in> set (role_scopes table p) \<longleftrightarrow>
     (\<exists>role \<in> set (pn_roles p). \<exists>b token. table role = Some b \<and> rb_admin_scope b = Some token \<and> scope_parse token = Some s)"
  unfolding role_scopes_def Bex_def set_map_filter by blast

lemma grants_need: "grants_allows g n \<longleftrightarrow> (\<exists>s. grants_contains g s \<and> scope_allows s n)"
  by (cases n) (auto simp: allows_iff)

text \<open>A role of the principal, bound for its module, carries a scope that suffices.\<close>

definition role_suffices :: "AdminPlane \<Rightarrow> string \<Rightarrow> Principal \<Rightarrow> Scope \<Rightarrow> bool" where
  "role_suffices ad name p needed \<longleftrightarrow>
     (\<exists>role \<in> set (pn_roles p). \<exists>table b token s. ad_role_bindings ad name = Some table \<and> table role = Some b
        \<and> rb_admin_scope b = Some token \<and> scope_parse token = Some s \<and> scope_allows s needed)"

lemma admin_scope_roles:
  assumes "grants_allows (admin_scope_for (Some name) (Some p) (ad_role_bindings ad)) needed"
  shows "name = ADMIN_TOKENS_MODULE \<and> pn_roles p = [] \<and> pn_id p = ADMIN_TOKENS_PRINCIPAL_ID \<or> role_suffices ad name p needed"
proof (cases "pn_roles p = []")
  case True
  with assms show ?thesis by (auto simp: admin_scope_for_def grants_need contains_none split: if_splits)
next
  case False
  with assms obtain table where "ad_role_bindings ad name = Some table"
      "grants_allows (foldl grants_with no_grants (role_scopes table p)) needed"
    by (auto simp: admin_scope_for_def grants_need contains_none split: option.splits)
  then show ?thesis by (auto simp: role_suffices_def grants_need fold_grants contains_none role_scopes_iff)
qed

lemma admin_loop_identifies:
  assumes "admin_loop peers sha now gen ad bearer header names c = (c1, Identified name p k, cap)"
  shows "name \<in> set names \<and> k = None \<and> cap = module_admin_scope_cap ad name
    \<and> (name = ADMIN_TOKENS_MODULE \<longrightarrow> consult_admin_module sha ad name bearer header = Identify p)"
  using assms
proof (induction names arbitrary: c)
  case (Cons x rest)
  let ?cred = "if x = ADMIN_TOKENS_MODULE then None else composite_credential bearer header"
  obtain c2 hit where l: "admin_lookup peers sha now x ?cred c = (c2, hit)" by (meson surj_pair)
  have h: "x = ADMIN_TOKENS_MODULE \<Longrightarrow> hit = None" using l by (simp add: admin_lookup_def)
  let ?o = "case hit of Some o' \<Rightarrow> o' | None \<Rightarrow> consult_admin_module sha ad x bearer header"
  show ?case
    using Cons l h by (cases ?o) (auto simp: Let_def split: if_splits)
qed simp

lemma admin_loop_verdict: "admin_loop peers sha now gen ad bearer header names c \<noteq> (c1, OpenDoor, cap)"
  by (induction names arbitrary: c) (auto simp: case_prod_unfold Let_def split: AuthOutcome.splits)

text \<open>The operator token: presented on one of the carriers, by its hash.\<close>

definition operator_presented :: "(string \<Rightarrow> string) \<Rightarrow> AdminPlane \<Rightarrow> AdminRequest \<Rightarrow> bool" where
  "operator_presented sha ad q \<longleftrightarrow>
     (\<exists>t. (aq_bearer q = Some t \<or> aq_header q = Some t) \<and> ad_token_hash ad = Some (sha t))"

lemma operator_identifies:
  assumes "consult_admin_module sha ad ADMIN_TOKENS_MODULE (aq_bearer q) (aq_header q) = Identify p"
  shows "p = from_id ADMIN_TOKENS_PRINCIPAL_ID \<and> operator_presented sha ad q"
  using assms
  by (auto simp: consult_admin_module_def authenticate_admin_tokens_def operator_presented_def Let_def
      split: option.splits if_splits)

text \<open>
  Authority on the admin plane is bounded. A request reaches an admin handler only under the
  explicit open posture (an empty chain), or with the operator token on one of its carriers, or as
  an identity of a configured module one of whose roles is bound for that module with a scope the
  endpoint requires at most, and only within the ceiling of that module.
\<close>

lemma admin_authority_is_bounded:
  assumes "admin_gate peers sha ad q s = (s1, AdminNext who, noted)"
  shows "ad_chain ad = [] \<and> who = None
    \<or> ADMIN_TOKENS_MODULE \<in> set (ad_chain ad) \<and> operator_presented sha ad q \<and> who = Some (from_id ADMIN_TOKENS_PRINCIPAL_ID)
    \<or> (\<exists>name ceiling p. who = Some p \<and> name \<in> set (ad_chain ad) \<and> name \<noteq> ADMIN_TOKENS_MODULE
         \<and> role_suffices ad name p (required_scope (aq_verb q) (aq_path q))
         \<and> module_admin_scope_cap ad name = Some ceiling \<and> scope_allows ceiling (required_scope (aq_verb q) (aq_path q)))"
proof -
  let ?need = "required_scope (aq_verb q) (aq_path q)"
  obtain c1 verdict cap where r: "run_admin_chain_maybe_offloaded peers sha (aq_now q) (aq_offloaded q) ad (aq_bearer q) (aq_header q) (fst s)
      = (c1, verdict, cap)" by (metis prod_cases3)
  have i: "identity_of verdict \<noteq> None" using assms by (cases "identity_of verdict") (simp_all add: admin_gate_def r)
  then obtain name' who' where v: "identity_of verdict = Some (name', who')" by auto
  have ok: "grants_allows (effective_scope ad name' who' cap) ?need" and w: "who' = who"
    using assms by (auto simp: admin_gate_def r v meter_mutation_def case_prod_unfold Let_def split: if_splits RateCheck.splits)
  show ?thesis
  proof (cases verdict)
    case OpenDoor
    with r v w show ?thesis
      by (auto simp: run_admin_chain_maybe_offloaded_def run_admin_chain_def admin_loop_verdict case_prod_unfold Let_def
          split: if_splits)
  next
    case ChainDenied
    with v show ?thesis by simp
  next
    case (Identified name p k)
    from r obtain gen c0 where l: "admin_loop peers sha (aq_now q) gen ad (aq_bearer q) (aq_header q) (ad_chain ad) c0 = (c1, Identified name p k, cap)"
      unfolding Identified run_admin_chain_maybe_offloaded_def run_admin_chain_def
      by (auto simp: case_prod_unfold Let_def split: if_splits)
    note id = admin_loop_identifies [OF l]
    from v w Identified have n: "name' = Some name" "who' = Some p" "who = Some p" by auto
    show ?thesis
    proof (cases "name = ADMIN_TOKENS_MODULE")
      case True
      with id operator_identifies [of sha ad q p] n show ?thesis by auto
    next
      case False
      then obtain ceiling where c: "module_admin_scope_cap ad name = Some ceiling" by (simp add: module_admin_scope_cap_def)
      have "grants_allows (admin_scope_for (Some name) (Some p) (ad_role_bindings ad)) ?need" "scope_allows ceiling ?need"
        using ok id c n by (auto simp: effective_scope_def capped_def capped_allows)
      with admin_scope_roles [of name p ad ?need] False c n id show ?thesis by auto
    qed
  qed
qed

text \<open>A read-only auditor of an identity provider, and the operator.\<close>

definition sample_sha :: "string \<Rightarrow> string" where "sample_sha t = ''#'' @ t"

definition auditor :: Principal where
  "auditor = \<lparr>pn_id = ''ann'', pn_name = None, pn_roles = [''audit''], pn_ttl_secs = None\<rparr>"

definition sample_plane :: AdminPlane where
  "sample_plane = \<lparr>ad_chain = [''corp'', ''admin-tokens''],
     ad_modules = [''corp'' \<mapsto> \<lparr>am_cacheable = True, am_authenticate = (\<lambda>t. if t = Some ''ann-pw'' then Identify auditor else Pass)\<rparr>],
     ad_has_plugin = True, ad_scope_caps = Map.empty,
     ad_role_bindings = [''corp'' \<mapsto> [''audit'' \<mapsto> \<lparr>rb_allowed_pools = None, rb_group = None, rb_admin_scope = Some ''full''\<rparr>]],
     ad_token_hash = Some ''#root''\<rparr>"

definition sample_admin_request :: "string \<Rightarrow> string \<Rightarrow> string \<Rightarrow> AdminRequest" where
  "sample_admin_request verb path token = \<lparr>aq_verb = verb, aq_path = path, aq_bearer = Some token, aq_header = None,
     aq_now = 100, aq_limit_now = 100, aq_offloaded = True\<rparr>"

definition sample_answer :: "string \<Rightarrow> string \<Rightarrow> string \<Rightarrow> AdminAnswer" where
  "sample_answer verb path token =
     fst (snd (admin_gate alone sample_sha sample_plane (sample_admin_request verb path token) (\<lparr>sh_cache = cache_new, sh_accesses = 0\<rparr>, limiter_new)))"

lemma sample_answers:
  "sample_answer ''GET'' ''/api/v1/admin/keys'' ''ann-pw'' = AdminNext (Some auditor)"
  "sample_answer ''POST'' ''/api/v1/admin/keys'' ''ann-pw'' = AdminForbidden Full"
  "sample_answer ''POST'' ''/api/v1/admin/keys'' ''root'' = AdminNext (Some (from_id ''admin''))"
  "sample_answer ''GET'' ''/api/v1/admin/keys'' ''guess'' = AdminUnauthorized"
  by (simp_all add: sample_answer_def sample_admin_request_def admin_gate_def run_admin_chain_maybe_offloaded_def run_admin_chain_def
      sample_plane_def shared_def alone_def ADMIN_TOKENS_MODULE_def composite_credential_def admin_lookup_def cache_get_def cache_new_def
      consult_admin_module_def either_def admin_remember_def shared_put_def cache_put_def cacheable_verdict_def cache_generation_def
      auditor_def make_room_def MAX_ENTRIES_def authenticate_admin_tokens_def sample_sha_def from_id_def ADMIN_TOKENS_PRINCIPAL_ID_def
      module_admin_scope_cap_def required_scope_def admin_relative_def ADMIN_PREFIX_def PATH_CONFIG_VALIDATE_def PATH_PLUGINS_INSPECT_def
      effective_scope_def capped_def grants_allows_def capped_by_def all_scopes_def admin_scope_for_def contains_with contains_none contains_of
      role_scopes_def List.map_filter_simps meet_Full scope_parse_def meter_mutation_def is_mutation_def rate_check_def rate_window_def sweep_past_def limiter_new_def MUTATION_RATE_WINDOW_SECS_def
      actor_of_def classify_mutation_def all_sections_def CONFIG_CLASS_RULES_def PATH_ADMIN_AUTH_def Let_def)

text \<open>
  The admin chain puts what a module passed on at once, so a denied run leaves rows in the shared
  cache, unlike that of the data plane; and it never asks a module whether it may be cached.
\<close>

lemma denied_admin_run_is_cached:
  "fst (snd (run_admin_chain alone sample_sha 100 sample_plane (Some ''guess'') None \<lparr>sh_cache = cache_new, sh_accesses = 0\<rparr>)) = ChainDenied
    \<and> map fst (cc_entries (sh_cache (fst (run_admin_chain alone sample_sha 100 sample_plane (Some ''guess'') None
          \<lparr>sh_cache = cache_new, sh_accesses = 0\<rparr>)))) = [(''corp'', sample_sha (the (composite_credential (Some ''guess'') None)))]"
  by (simp add: run_admin_chain_def sample_plane_def shared_def alone_def ADMIN_TOKENS_MODULE_def composite_credential_def admin_lookup_def
      cache_get_def cache_new_def consult_admin_module_def either_def admin_remember_def shared_put_def cache_put_def cacheable_verdict_def
      cache_generation_def make_room_def MAX_ENTRIES_def authenticate_admin_tokens_def sample_sha_def Let_def)

lemma admin_remember_ignores_cacheable:
  "run_admin_chain peers sha now (ad\<lparr>ad_modules := map_option (\<lambda>m. m\<lparr>am_cacheable := b\<rparr>) \<circ> ad_modules ad\<rparr>) bearer header c
    = run_admin_chain peers sha now ad bearer header c"
proof -
  have k: "consult_admin_module sha (ad\<lparr>ad_modules := map_option (\<lambda>m. m\<lparr>am_cacheable := b\<rparr>) \<circ> ad_modules ad\<rparr>) name bearer header
      = consult_admin_module sha ad name bearer header" for name
    by (simp add: consult_admin_module_def split: option.splits)
  have "admin_loop peers sha now gen (ad\<lparr>ad_modules := map_option (\<lambda>m. m\<lparr>am_cacheable := b\<rparr>) \<circ> ad_modules ad\<rparr>) bearer header names c2
      = admin_loop peers sha now gen ad bearer header names c2" for gen names c2
    by (induction names arbitrary: c2) (simp_all add: k module_admin_scope_cap_def case_prod_unfold Let_def cong: AuthOutcome.case_cong option.case_cong)
  then show ?thesis by (simp add: run_admin_chain_def)
qed

section \<open>Mutations are metered\<close>

text \<open>The admin requests of a run, in the order in which they get the lock of the limiter.\<close>

fun serve_admin ::
  "Peers \<Rightarrow> (string \<Rightarrow> string) \<Rightarrow> AdminPlane \<Rightarrow> AdminRequest list \<Rightarrow> SharedCache \<times> Limiter \<Rightarrow> AdminAnswer list" where
  "serve_admin peers sha ad [] s = []"
| "serve_admin peers sha ad (q # qs) s =
     (let (s1, answer, noted) = admin_gate peers sha ad q s in answer # serve_admin peers sha ad qs s1)"

text \<open>What one request does to the limiter: at most one check, and a mutation let through was admitted by it.\<close>

definition let_through :: "string \<Rightarrow> MutationClass \<Rightarrow> u64 \<Rightarrow> AdminRequest \<times> AdminAnswer \<Rightarrow> bool" where
  "let_through actor c w x = (case x of (q, answer) \<Rightarrow>
     is_mutation (aq_verb q) \<and> classify_mutation (admin_relative (aq_path q)) = c \<and> rate_window (aq_limit_now q) = w
     \<and> (case answer of AdminNext who \<Rightarrow> actor_of who = actor | _ \<Rightarrow> False))"

lemma gate_meters:
  assumes "admin_gate peers sha ad q (c, m) = ((c1, m1), answer, noted)"
  shows "m1 = m \<and> (\<forall>actor k w. \<not> let_through actor k w (q, answer))
    \<or> (\<exists>actor k r. rate_check actor k (aq_limit_now q) m = (m1, r)
         \<and> (\<forall>actor' k' w. let_through actor' k' w (q, answer)
              \<longrightarrow> r = Admitted \<and> actor' = actor \<and> k' = k \<and> w = rate_window (aq_limit_now q)))"
proof -
  obtain c2 verdict cap where r: "run_admin_chain_maybe_offloaded peers sha (aq_now q) (aq_offloaded q) ad (aq_bearer q) (aq_header q) c
      = (c2, verdict, cap)" by (metis prod_cases3)
  show ?thesis
  proof (cases "identity_of verdict")
    case None
    with assms show ?thesis by (simp add: admin_gate_def r let_through_def)
  next
    case (Some i)
    then obtain name who where v: "identity_of verdict = Some (name, who)" by (cases i) auto
    let ?ok = "grants_allows (effective_scope ad name who cap) (required_scope (aq_verb q) (aq_path q))"
    consider "\<not> ?ok" | "?ok" "\<not> is_mutation (aq_verb q)" | "?ok" "is_mutation (aq_verb q)" by blast
    then show ?thesis
    proof cases
      case 1
      with assms have "rate_check (actor_of who) Forbidden (aq_limit_now q) m = (m1, snd (rate_check (actor_of who) Forbidden (aq_limit_now q) m))"
        and "answer = AdminForbidden (required_scope (aq_verb q) (aq_path q))"
        by (auto simp: admin_gate_def r v Let_def split: prod.splits)
      then show ?thesis by (auto simp: let_through_def intro!: exI)
    next
      case 2
      with assms show ?thesis by (simp add: admin_gate_def r v meter_mutation_def let_through_def)
    next
      case 3
      let ?k = "classify_mutation (admin_relative (aq_path q))"
      obtain m2 r2 where k: "rate_check (actor_of who) ?k (aq_limit_now q) m = (m2, r2)" by (meson surj_pair)
      from assms 3 have "m1 = m2" "answer = (case r2 of Denied _ \<Rightarrow> AdminRateLimited | Admitted \<Rightarrow> AdminNext who)"
        by (auto simp: admin_gate_def r v meter_mutation_def k Let_def split: RateCheck.splits)
      then show ?thesis
        using k by (intro disjI2 exI [of _ "actor_of who"] exI [of _ ?k] exI [of _ r2])
          (auto simp: let_through_def split: RateCheck.splits)
    qed
  qed
qed

definition through :: "string \<Rightarrow> MutationClass \<Rightarrow> u64 \<Rightarrow> AdminRequest list \<Rightarrow> AdminAnswer list \<Rightarrow> nat" where
  "through actor c w qs answers = length (filter (let_through actor c w) (zip qs answers))"

lemma through_Cons:
  "through actor c w (q # qs) (a # as) = (if let_through actor c w (q, a) then 1 else 0) + through actor c w qs as"
  by (simp add: through_def)

text \<open>How often a sequence of clocks enters a window: once, unless a stale clock takes it back.\<close>

fun visits_from :: "bool \<Rightarrow> u64 \<Rightarrow> u64 list \<Rightarrow> nat" where
  "visits_from inside w [] = 0"
| "visits_from inside w (x # xs) = (if x = w \<and> \<not> inside then 1 else 0) + visits_from (x = w) w xs"

definition visits :: "u64 \<Rightarrow> AdminRequest list \<Rightarrow> nat" where
  "visits w qs = visits_from False w (map (\<lambda>q. rate_window (aq_limit_now q)) qs)"

lemma visits_past: "list_all (\<lambda>x. w < x) xs \<Longrightarrow> visits_from inside w xs = 0"
  by (induction xs arbitrary: inside) auto

lemma visits_sorted: "sorted (w' # xs) \<Longrightarrow> (inside \<Longrightarrow> w \<le> w') \<Longrightarrow> visits_from inside w xs \<le> (if inside then 0 else 1)"
proof (induction xs arbitrary: inside w')
  case (Cons x xs)
  then have so: "sorted (x # xs)" "w' \<le> x" by simp_all
  show ?case
  proof (cases "x = w")
    case True
    with Cons.IH [of x True] so show ?thesis by simp
  next
    case False
    show ?thesis
    proof (cases "w < x")
      case True
      with so have "list_all (\<lambda>y. w < y) xs" by (auto simp: list_all_iff)
      with False show ?thesis by (simp add: visits_past)
    next
      case lower: False
      with Cons.prems(2) so(2) False have "\<not> inside" by auto
      with False Cons.IH [of x False] so show ?thesis by simp
    qed
  qed
qed simp

text \<open>What a principal has spent of a class in a window, and what a check makes of it.\<close>

definition spent_in :: "string \<Rightarrow> MutationClass \<Rightarrow> u64 \<Rightarrow> Limiter \<Rightarrow> nat" where
  "spent_in who c w m = (case m (who, c) of Some (w', spent, denied) \<Rightarrow> (if w' = w then spent else 0) | None \<Rightarrow> 0)"

lemma rate_check_spent:
  assumes "rate_check who k now m = (m1, r)" and "rate_window now = w"
  shows "r = Admitted \<Longrightarrow> spent_in who k w m < class_limit k \<and> spent_in who k w m1 = spent_in who k w m + 1"
    and "spent_in actor c w m \<le> spent_in actor c w m1"
  using assms
  by (auto simp: rate_check_def spent_in_def sweep_past_def Let_def split: option.splits prod.splits if_splits)

lemma served_within:
  "through actor c w qs (serve_admin peers sha ad qs (ch, m))
     \<le> class_limit c * visits_from inside w (map (\<lambda>q. rate_window (aq_limit_now q)) qs)
       + (if inside then class_limit c - spent_in actor c w m else 0)"
proof (induction qs arbitrary: inside m ch)
  case Nil
  then show ?case by (simp add: through_def)
next
  case (Cons q qs)
  let ?w = "rate_window (aq_limit_now q)"
  obtain ch1 m1 answer noted where g: "admin_gate peers sha ad q (ch, m) = ((ch1, m1), answer, noted)" by (metis prod_cases3 surj_pair)
  note ih = Cons.IH [where m = m1 and ch = ch1 and inside = "?w = w"]
  have counted: "?w = w" "spent_in actor c w m < class_limit c" "spent_in actor c w m1 = spent_in actor c w m + 1"
    if "let_through actor c w (q, answer)"
    using gate_meters [OF g] that rate_check_spent(1) by metis+
  have grows: "spent_in actor c w m \<le> spent_in actor c w m1" if "?w = w"
    using gate_meters [OF g] that rate_check_spent(2) by (metis order_refl)
  show ?case
  proof (cases "?w = w")
    case True
    with ih counted grows show ?thesis by (auto simp: g through_Cons algebra_simps)
  next
    case False
    with ih counted(1) show ?thesis by (auto simp: g through_Cons)
  qed
qed

text \<open>
  C25: admin mutations are metered. Of the mutations of one class and principal, at most as many as the
  class allows reach a handler each time the clocks of the checks enter a minute, whatever chain,
  cache, paths and credentials: ten that change the configuration, sixty others, thirty
  previews of an archive. A minute is entered once when the checks come in the order of their
  clocks, so that this is the budget of the minute. The code reads the clock before it takes the
  lock, and a check with a stale clock lets a minute be entered again, with a new budget.
\<close>

theorem admin_mutations_are_metered:
  "length (filter (let_through actor c w) (zip qs (serve_admin peers sha ad qs (ch, limiter)))) \<le> class_limit c * visits w qs
   \<and> (sorted (map (\<lambda>q. rate_window (aq_limit_now q)) qs) \<longrightarrow>
        length (filter (let_through actor c w) (zip qs (serve_admin peers sha ad qs (ch, limiter)))) \<le> class_limit c)"
proof -
  have "length (filter (let_through actor c w) (zip qs (serve_admin peers sha ad qs (ch, limiter)))) \<le> class_limit c * visits w qs"
    using served_within [of actor c w qs peers sha ad ch limiter False] by (simp add: through_def visits_def)
  moreover have "visits w qs \<le> 1" if "sorted (map (\<lambda>q. rate_window (aq_limit_now q)) qs)"
    using visits_sorted [of 0 "map (\<lambda>q. rate_window (aq_limit_now q)) qs" False w] that by (simp add: visits_def)
  ultimately show ?thesis by (metis le_trans mult_le_mono2 nat_mult_1_right)
qed

theorem admin_mutations_are_metered_witness:
  "length (filter (let_through ''admin'' ConfigClass 60)
     (zip (replicate 10 (sample_admin_request ''POST'' ''/api/v1/admin/restart'' ''root''))
        (serve_admin alone sample_sha sample_plane (replicate 10 (sample_admin_request ''POST'' ''/api/v1/admin/restart'' ''root''))
          (\<lparr>sh_cache = cache_new, sh_accesses = 0\<rparr>, limiter_new)))) \<le> 10"
proof -
  let ?qs = "replicate 10 (sample_admin_request ''POST'' ''/api/v1/admin/restart'' ''root'')"
  have "sorted (map (\<lambda>q. rate_window (aq_limit_now q)) ?qs)" by (simp add: replicate_ten)
  with admin_mutations_are_metered [of "''admin''" ConfigClass 60 ?qs alone sample_sha sample_plane
      "\<lparr>sh_cache = cache_new, sh_accesses = 0\<rparr>" limiter_new]
  show ?thesis by (simp only: class_limit.simps)
qed

section \<open>No lock-out\<close>

lemma admin_tokens_loop:
  assumes "list_all (\<lambda>name. name = ADMIN_TOKENS_MODULE) names" and "names \<noteq> []"
  shows "admin_loop peers sha now gen ad bearer header names c =
    (c, (case authenticate_admin_tokens sha (ad_token_hash ad) bearer header of
           Identify p \<Rightarrow> Identified ADMIN_TOKENS_MODULE p None | _ \<Rightarrow> ChainDenied), None)"
  using assms
proof (induction names)
  case (Cons x rest)
  then show ?case
    by (cases rest)
      (auto simp: admin_lookup_def admin_remember_def consult_admin_module_def module_admin_scope_cap_def split: AuthOutcome.splits)
qed simp

lemma admin_tokens_chain:
  assumes "list_all (\<lambda>name. name = ADMIN_TOKENS_MODULE) (ad_chain ad)"
  shows "snd (run_admin_chain peers sha now ad bearer header c) =
    ((if ad_chain ad = [] then OpenDoor
      else case authenticate_admin_tokens sha (ad_token_hash ad) bearer header of
             Identify p \<Rightarrow> Identified ADMIN_TOKENS_MODULE p None | _ \<Rightarrow> ChainDenied), None)"
  using assms by (simp add: run_admin_chain_def admin_tokens_loop case_prod_unfold Let_def)

text \<open>
  Nobody locks himself out. When \<open>PUT /admin-auth\<close> takes a new chain, its author's credentials
  reach every admin endpoint under that chain: from then on they are never answered with 401 or
  403, whatever the cache holds, as long as a chain with plugins still gets its thread.
\<close>

lemma admin_chain_change_keeps_its_author:
  assumes "put_admin_auth peers sha now ad names bearer header c = (c1, Inr ad1)"
    and "aq_bearer q = bearer" and "aq_header q = header" and "ad_has_plugin ad \<longrightarrow> aq_offloaded q"
  shows "ad_chain ad1 = names
    \<and> (\<exists>who. fst (snd (admin_gate peers2 sha ad1 q s)) = AdminNext who
         \<or> is_mutation (aq_verb q) \<and> fst (snd (admin_gate peers2 sha ad1 q s)) = AdminRateLimited)"
proof -
  from assms(1) have l: "list_all (\<lambda>name. name = ADMIN_TOKENS_MODULE) names" and a: "ad1 = ad\<lparr>ad_chain := names\<rparr>"
    and full: "grants_contains (snd (dry_run_admin_scope peers sha now (ad\<lparr>ad_chain := names\<rparr>) bearer header c)) Full"
    by (auto simp: put_admin_auth_def Let_def split: prod.splits if_splits)
  have ch: "list_all (\<lambda>name. name = ADMIN_TOKENS_MODULE) (ad_chain ad1)" using l a by simp
  let ?v = "if names = [] then OpenDoor else case authenticate_admin_tokens sha (ad_token_hash ad) bearer header of
             Identify p \<Rightarrow> Identified ADMIN_TOKENS_MODULE p None | _ \<Rightarrow> ChainDenied"
  have v: "snd (run_admin_chain p2 sha t ad1 bearer header c2) = (?v, None)" for p2 t c2
    using admin_tokens_chain [OF ch] a by simp
  obtain name who where i: "identity_of ?v = Some (name, who)"
    and g: "grants_contains (admin_scope_for name who (ad_role_bindings ad)) Full"
    using full v [of peers now c] unfolding dry_run_admin_scope_def a [symmetric]
    by (cases ?v) (auto simp: a capped_def contains_none split: prod.splits)
  from g have allow: "grants_allows (effective_scope ad1 name who None) n" for n
    by (cases n) (auto simp: effective_scope_def capped_def a allows_iff)
  obtain c2 where r: "run_admin_chain_maybe_offloaded peers2 sha (aq_now q) (aq_offloaded q) ad1 (aq_bearer q) (aq_header q) (fst s) = (c2, ?v, None)"
    using v [of peers2 "aq_now q" "fst s"] assms(2-4) a unfolding run_admin_chain_maybe_offloaded_def
    by (cases "run_admin_chain peers2 sha (aq_now q) ad1 bearer header (fst s)") auto
  have "fst (snd (admin_gate peers2 sha ad1 q s)) = fst (snd (meter_mutation q who (snd s)))"
    unfolding admin_gate_def r using i allow by (simp add: case_prod_unfold Let_def)
  moreover have "ad_chain ad1 = names" by (simp add: a)
  ultimately show ?thesis
    by (auto simp: meter_mutation_def case_prod_unfold Let_def split: RateCheck.splits)
qed

end
