(* ===== verification/Plugin_Routes.thy ===== *)
theory Plugin_Routes
  imports Cost_Model "HOL-Library.Sublist" "HOL-Library.List_Lexorder" "HOL-Library.Char_ord"
begin

text \<open>
  The HTTP routes of plugins, \<open>src/crates/busbar/src/plugin_routes.rs\<close>, with the declarations of
  \<open>plugin-abi/src/http_endpoint.rs\<close>: a route stays in the name space of its plugin, the first
  claim of a path and method owns it, and the table of one configuration says which level of
  authentication a request needs and who answers it.

  The table is a list of its entries in the order of the claims, one per path and method. A
  dispatcher is the function from a request to the reply of the plugin; whether a status or a header of
  a reply is valid is a matter of the \<open>http\<close> crate, an argument.
\<close>

section \<open>Declarations\<close>

datatype RouteMethod = RouteGet | RoutePost | RoutePut | RoutePatch | RouteDelete

fun route_method_str :: "RouteMethod \<Rightarrow> string" where
  "route_method_str RouteGet = ''GET''"
| "route_method_str RoutePost = ''POST''"
| "route_method_str RoutePut = ''PUT''"
| "route_method_str RoutePatch = ''PATCH''"
| "route_method_str RouteDelete = ''DELETE''"

datatype RouteAuth = RouteOpen | RouteKey | RouteAdmin

datatype RouteKind = ExportRoute | HookRoute

record PluginRoute =
  rt_path :: string
  rt_method :: RouteMethod
  rt_auth :: RouteAuth

record EndpointRequest =
  ep_method :: string
  ep_path :: string
  ep_query :: string
  ep_headers :: "(string \<times> string) list"
  ep_body :: string

record EndpointResponse =
  er_status :: nat
  er_headers :: "(string \<times> string) list"
  er_body :: string

record RouteDecl =
  rd_owner :: string
  rd_kind :: RouteKind
  rd_route :: PluginRoute
  rd_dispatch :: "EndpointRequest \<Rightarrow> EndpointResponse"

record Registered =
  rg_auth :: RouteAuth
  rg_owner :: string
  rg_dispatch :: "EndpointRequest \<Rightarrow> EndpointResponse"

type_synonym RouteTable = "((string \<times> RouteMethod) \<times> Registered) list"

section \<open>Confinement and the table\<close>

definition reserved_exact_paths :: "string list" where
  "reserved_exact_paths = [''/healthz'', ''/stats'', ''/metrics/hooks'', ''/v1/models'', ''/v1beta/models'', ''/auth/token'']"

datatype RouteError = AdminSurface | ReservedRoute | OutsideHooks | OutsideExports | AlreadyRegistered string

definition under :: "string \<Rightarrow> string \<Rightarrow> bool" where
  "under base path \<longleftrightarrow> path = base \<or> prefix (base @ ''/'') path"

definition confine :: "RouteKind \<Rightarrow> string \<Rightarrow> string \<Rightarrow> RouteError option" where
  "confine kind owner path =
     (if under ''/api'' path then Some AdminSurface
      else if path \<in> set reserved_exact_paths then Some ReservedRoute
      else case kind of
        HookRoute \<Rightarrow> if under (''/hooks/'' @ owner) path then None else Some OutsideHooks
      | ExportRoute \<Rightarrow>
          if path = ''/metrics'' then None
          else if under (''/exports/'' @ owner) path then None else Some OutsideExports)"

definition route_key :: "PluginRoute \<Rightarrow> string \<times> RouteMethod" where
  "route_key r = (rt_path r, rt_method r)"

fun preflight_loop :: "(string \<times> RouteMethod \<rightharpoonup> string) \<Rightarrow> (string \<times> RouteKind \<times> PluginRoute) list \<Rightarrow> RouteError option" where
  "preflight_loop owned [] = None"
| "preflight_loop owned ((owner, kind, r) # decls) =
     (case confine kind owner (rt_path r) of
        Some refusal \<Rightarrow> Some refusal
      | None \<Rightarrow> (case owned (route_key r) of
          Some existing \<Rightarrow> Some (AlreadyRegistered existing)
        | None \<Rightarrow> preflight_loop (owned(route_key r \<mapsto> owner)) decls))"

definition preflight_route_collisions :: "(string \<times> RouteKind \<times> PluginRoute) list \<Rightarrow> RouteError option" where
  "preflight_route_collisions decls = preflight_loop Map.empty decls"

definition registered :: "RouteDecl \<Rightarrow> Registered" where
  "registered d = \<lparr>rg_auth = rt_auth (rd_route d), rg_owner = rd_owner d, rg_dispatch = rd_dispatch d\<rparr>"

fun build_loop :: "RouteTable \<Rightarrow> RouteDecl list \<Rightarrow> RouteError + RouteTable" where
  "build_loop t [] = Inr t"
| "build_loop t (d # decls) =
     (case confine (rd_kind d) (rd_owner d) (rt_path (rd_route d)) of
        Some refusal \<Rightarrow> Inl refusal
      | None \<Rightarrow> (case map_of t (route_key (rd_route d)) of
          Some existing \<Rightarrow> Inl (AlreadyRegistered (rg_owner existing))
        | None \<Rightarrow> build_loop (t @ [(route_key (rd_route d), registered d)]) decls))"

definition build_route_table :: "RouteDecl list \<Rightarrow> RouteError + RouteTable" where
  "build_route_table decls = build_loop [] decls"

section \<open>The table at work\<close>

text \<open>\<open>HEAD\<close> counts as \<open>GET\<close>, as the router has it.\<close>

definition route_method_of :: "string \<Rightarrow> RouteMethod option" where
  "route_method_of verb =
     (if verb = ''GET'' \<or> verb = ''HEAD'' then Some RouteGet
      else if verb = ''POST'' then Some RoutePost
      else if verb = ''PUT'' then Some RoutePut
      else if verb = ''PATCH'' then Some RoutePatch
      else if verb = ''DELETE'' then Some RouteDelete
      else None)"

definition declared_auth :: "RouteTable \<Rightarrow> string \<Rightarrow> string \<Rightarrow> RouteAuth option" where
  "declared_auth t path verb =
     (case route_method_of verb of None \<Rightarrow> None | Some rm \<Rightarrow> map_option rg_auth (map_of t (path, rm)))"

definition paths :: "RouteTable \<Rightarrow> string list" where
  "paths t = remdups (map (fst \<circ> fst) t)"

definition on_plane :: "bool \<Rightarrow> RouteTable \<Rightarrow> RouteTable" where
  "on_plane admin t = filter (\<lambda>(_, r). (rg_auth r = RouteAdmin) = admin) t"

definition mounts_for_plane :: "bool \<Rightarrow> RouteTable \<Rightarrow> (string \<times> RouteMethod list) list" where
  "mounts_for_plane admin t =
     map (\<lambda>p. (p, sort_key route_method_str (map (snd \<circ> fst) (filter (\<lambda>((q, _), _). q = p) (on_plane admin t)))))
       (sort (paths (on_plane admin t)))"

definition paths_awaiting_restart :: "RouteTable \<Rightarrow> RouteTable \<Rightarrow> string set \<Rightarrow> string list" where
  "paths_awaiting_restart installed previous boot_mounted =
     sort (filter (\<lambda>p. p \<notin> boot_mounted \<and> p \<notin> set (paths previous)) (paths installed))"

definition MAX_RELAY_RESPONSE_HEADERS :: nat where "MAX_RELAY_RESPONSE_HEADERS = 64"

text \<open>\<open>readable\<close>: \<open>HeaderValue::to_str\<close> succeeds.\<close>

definition project_request_headers :: "(string \<Rightarrow> bool) \<Rightarrow> (string \<times> string) list \<Rightarrow> (string \<times> string) list" where
  "project_request_headers readable headers =
     take MAX_RELAY_RESPONSE_HEADERS (filter (\<lambda>(name, v). readable v) (filter (\<lambda>(name, v). name \<noteq> ''authorization'') headers))"

definition relay_response :: "(nat \<Rightarrow> bool) \<Rightarrow> (string \<times> string \<Rightarrow> bool) \<Rightarrow> EndpointResponse \<Rightarrow> nat \<times> (string \<times> string) list \<times> string" where
  "relay_response status_ok header_ok resp =
     (if status_ok (er_status resp) then er_status resp else 502,
      filter header_ok (take MAX_RELAY_RESPONSE_HEADERS (er_headers resp)), er_body resp)"

text \<open>\<open>returned\<close>: the thread of the plugin did not panic.\<close>

definition plugin_route_dispatch ::
  "(string \<Rightarrow> bool) \<Rightarrow> (nat \<Rightarrow> bool) \<Rightarrow> (string \<times> string \<Rightarrow> bool) \<Rightarrow> bool \<Rightarrow> RouteTable \<Rightarrow> string \<Rightarrow> string \<Rightarrow> string option
   \<Rightarrow> (string \<times> string) list \<Rightarrow> string \<Rightarrow> nat \<times> (string \<times> string) list \<times> string" where
  "plugin_route_dispatch readable status_ok header_ok returned t verb path query headers body =
     (case route_method_of verb of
        None \<Rightarrow> (405, [], [])
      | Some rm \<Rightarrow>
          let req = \<lparr>ep_method = route_method_str rm, ep_path = path, ep_query = (case query of Some x \<Rightarrow> x | None \<Rightarrow> []),
                     ep_headers = project_request_headers readable headers, ep_body = body\<rparr>
          in if \<not> returned then (502, [], [])
             else (case map_of t (path, rm) of
                 None \<Rightarrow> (404, [], [])
               | Some reg \<Rightarrow> relay_response status_ok header_ok (rg_dispatch reg req)))"

section \<open>What a built table holds\<close>

lemma build_loop_table:
  assumes "build_loop t decls = Inr t1" and "distinct (map fst t)"
  shows "t1 = t @ map (\<lambda>d. (route_key (rd_route d), registered d)) decls \<and> distinct (map fst t1)
    \<and> list_all (\<lambda>d. confine (rd_kind d) (rd_owner d) (rt_path (rd_route d)) = None) decls"
  using assms
proof (induction decls arbitrary: t)
  case (Cons d decls)
  from Cons.prems(1) have c: "confine (rd_kind d) (rd_owner d) (rt_path (rd_route d)) = None"
    and n: "map_of t (route_key (rd_route d)) = None"
    and b: "build_loop (t @ [(route_key (rd_route d), registered d)]) decls = Inr t1"
    by (auto split: option.splits)
  have "distinct (map fst (t @ [(route_key (rd_route d), registered d)]))"
    using Cons.prems(2) n by (auto simp: map_of_eq_None_iff)
  note ih = Cons.IH [OF b this]
  show ?case
  proof (intro conjI)
    show "t1 = t @ map (\<lambda>d. (route_key (rd_route d), registered d)) (d # decls)" using ih by simp
    show "distinct (map fst t1)" using ih by blast
  qed (use ih c in simp)
qed simp

lemma preflight_agrees:
  assumes "owned = map_option rg_owner \<circ> map_of t"
  shows "preflight_loop owned (map (\<lambda>d. (rd_owner d, rd_kind d, rd_route d)) decls) =
    (case build_loop t decls of Inl refusal \<Rightarrow> Some refusal | Inr _ \<Rightarrow> None)"
  using assms
proof (induction decls arbitrary: t owned)
  case (Cons d decls)
  let ?k = "route_key (rd_route d)"
  show ?case
  proof (cases "confine (rd_kind d) (rd_owner d) (rt_path (rd_route d)) = None \<and> map_of t ?k = None")
    case True
    have "owned(?k \<mapsto> rd_owner d) = map_option rg_owner \<circ> map_of (t @ [(?k, registered d)])"
      using True by (auto simp: Cons.prems registered_def map_add_def fun_eq_iff split: option.splits)
    note ih = Cons.IH [OF this]
    have "owned ?k = None" using True by (simp add: Cons.prems)
    with True ih show ?thesis by (simp add: fun_upd_def)
  next
    case False
    then show ?thesis by (auto simp: Cons.prems split: option.splits)
  qed
qed simp

lemma confine_admin: "confine kind owner path = None \<Longrightarrow> \<not> under ''/api'' path"
  by (simp add: confine_def split: if_splits)

lemma declared_in_table:
  assumes "declared_auth t path verb = Some a"
  shows "\<exists>rm r. ((path, rm), r) \<in> set t \<and> rg_auth r = a"
  using assms map_of_SomeD by (fastforce simp: declared_auth_def split: option.splits)

definition name_space :: "RouteKind \<Rightarrow> string \<Rightarrow> string \<Rightarrow> bool" where
  "name_space kind owner path \<longleftrightarrow>
     (case kind of HookRoute \<Rightarrow> under (''/hooks/'' @ owner) path
      | ExportRoute \<Rightarrow> path = ''/metrics'' \<or> under (''/exports/'' @ owner) path)"

lemma confine_name_space:
  "confine kind owner path = None \<longleftrightarrow> \<not> under ''/api'' path \<and> path \<notin> set reserved_exact_paths \<and> name_space kind owner path"
  by (auto simp: confine_def name_space_def split: RouteKind.splits)

lemma mounted_iff:
  "(\<exists>ms. (path, ms) \<in> set (mounts_for_plane admin t) \<and> rm \<in> set ms)
    \<longleftrightarrow> (\<exists>r. ((path, rm), r) \<in> set t \<and> (rg_auth r = RouteAdmin) = admin)"
proof -
  have m: "(path, ms) \<in> set (mounts_for_plane admin t) \<longleftrightarrow> path \<in> set (paths (on_plane admin t))
      \<and> ms = sort_key route_method_str (map (snd \<circ> fst) (filter (\<lambda>((q, _), _). q = path) (on_plane admin t)))" for ms
    by (auto simp: mounts_for_plane_def)
  have "rm \<in> set (sort_key route_method_str (map (snd \<circ> fst) (filter (\<lambda>((q, _), _). q = path) (on_plane admin t))))
      \<longleftrightarrow> (\<exists>r. ((path, rm), r) \<in> set (on_plane admin t))" by force
  moreover have "((path, rm), r) \<in> set (on_plane admin t) \<Longrightarrow> path \<in> set (paths (on_plane admin t))" for r
    by (force simp: paths_def)
  moreover have "((path, rm), r) \<in> set (on_plane admin t) \<longleftrightarrow> ((path, rm), r) \<in> set t \<and> (rg_auth r = RouteAdmin) = admin" for r
    by (simp add: on_plane_def)
  ultimately show ?thesis unfolding m by blast
qed

text \<open>
  C26: plugin routes are confined. A table is built exactly when the check of the manifests alone
  passes; then it holds every declared route and no other, no path and method twice, and each
  route lies in the name space of the plugin that declared it, outside the admin surface and the
  reserved routes of the gateway. Each of its routes is mounted on one of the two listeners, those for
  operators on that of operators alone.
\<close>

theorem plugin_routes_are_confined:
  "(preflight_route_collisions (map (\<lambda>d. (rd_owner d, rd_kind d, rd_route d)) decls) = None \<longleftrightarrow> (\<exists>t. build_route_table decls = Inr t))
   \<and> (case build_route_table decls of Inl _ \<Rightarrow> True | Inr t \<Rightarrow>
        t = map (\<lambda>d. (route_key (rd_route d), registered d)) decls \<and> distinct (map fst t)
        \<and> list_all (\<lambda>d. name_space (rd_kind d) (rd_owner d) (rt_path (rd_route d))
             \<and> \<not> under ''/api'' (rt_path (rd_route d)) \<and> rt_path (rd_route d) \<notin> set reserved_exact_paths) decls
        \<and> (\<forall>path rm admin. (\<exists>ms. (path, ms) \<in> set (mounts_for_plane admin t) \<and> rm \<in> set ms)
             \<longleftrightarrow> (\<exists>r. ((path, rm), r) \<in> set t \<and> (rg_auth r = RouteAdmin) = admin)))"
proof -
  have "preflight_route_collisions (map (\<lambda>d. (rd_owner d, rd_kind d, rd_route d)) decls) =
      (case build_route_table decls of Inl refusal \<Rightarrow> Some refusal | Inr _ \<Rightarrow> None)"
    unfolding preflight_route_collisions_def build_route_table_def by (rule preflight_agrees) (simp add: fun_eq_iff)
  then have p: "preflight_route_collisions (map (\<lambda>d. (rd_owner d, rd_kind d, rd_route d)) decls) = None
      \<longleftrightarrow> (\<exists>t. build_route_table decls = Inr t)" by (auto split: sum.splits)
  show ?thesis
  proof (cases "build_route_table decls")
    case (Inr t)
    have n: "distinct (map fst ([] :: RouteTable))" by simp
    note b = build_loop_table [OF Inr [unfolded build_route_table_def] n]
    have "t = map (\<lambda>d. (route_key (rd_route d), registered d)) decls" using b by simp
    moreover have "distinct (map fst t)" using b by blast
    moreover have l: "list_all (\<lambda>d. confine (rd_kind d) (rd_owner d) (rt_path (rd_route d)) = None) decls" using b by blast
    ultimately show ?thesis 
      using l [unfolded confine_name_space] p mounted_iff unfolding Inr sum.case list_all_iff by (intro conjI) blast+
  qed (use p in simp)
qed

text \<open>Only the header of one carrier is withheld from a plugin; an operator token on the other goes through.\<close>

lemma admin_token_reaches_the_plugin:
  "readable token \<Longrightarrow> (''x-admin-token'', token) \<in> set (project_request_headers readable [(''host'', h), (''x-admin-token'', token)])"
  by (simp add: project_request_headers_def MAX_RELAY_RESPONSE_HEADERS_def)

end
