(* ===== verification/Auth_Gate.thy ===== *)
theory Auth_Gate
  imports Auth_Admin Plugin_Routes Sig_V4 "HOL-Library.Product_Lexorder"
begin

text \<open>
  The front door, \<open>auth_middleware\<close> of \<open>src/crates/busbar/src/auth/mod.rs\<close>: which paths pass
  unasked, which go to the admin branch, how the credentials are taken from a request, the Bedrock
  ingress whose AWS signature is checked against the credentials of the key store, and the single gate of
  the data plane behind the chain.

  A request is its method, path, query, headers and body, the header names in lower case as the \<open>http\<close>
  crate keeps them; \<open>readable\<close> is its \<open>to_str\<close>. The chain is that of \<open>Auth_Chain\<close>, the key store that
  of \<open>Gov_Keys\<close>.
\<close>

section \<open>Requests and their credentials\<close>

record HttpRequest =
  hq_verb :: string
  hq_path :: string
  hq_query :: "string option"
  hq_headers :: "(string \<times> string) list"
  hq_body :: string

definition X_API_KEY :: string where "X_API_KEY = ''x-api-key''"
definition X_GOOG_API_KEY :: string where "X_GOOG_API_KEY = ''x-goog-api-key''"
definition X_ADMIN_TOKEN :: string where "X_ADMIN_TOKEN = ''x-admin-token''"
definition AUTH_SCHEME_BEARER :: string where "AUTH_SCHEME_BEARER = ''bearer''"
definition HEALTHZ_PATH :: string where "HEALTHZ_PATH = ''/healthz''"
definition ADMIN_PATH :: string where "ADMIN_PATH = ''/api''"
definition ADMIN_PATH_PREFIX :: string where "ADMIN_PATH_PREFIX = ''/api/''"
definition AUTH_TOKEN_PATH :: string where "AUTH_TOKEN_PATH = ''/auth/token''"
definition DUMMY_SECRET :: string where "DUMMY_SECRET = ''AWS4-DUMMY-SECRET-FOR-CONSTANT-TIME-REJECT-PATH''"

definition header_str :: "(string \<Rightarrow> bool) \<Rightarrow> string \<Rightarrow> HttpRequest \<Rightarrow> string option" where
  "header_str readable name q =
     (case map_of (hq_headers q) name of None \<Rightarrow> None | Some v \<Rightarrow> (if readable v then Some v else None))"

definition extract_bearer_token :: "string \<Rightarrow> string option" where
  "extract_bearer_token auth_header =
     (case split_once (CHR '' '') auth_header of
        None \<Rightarrow> None
      | Some (scheme, token) \<Rightarrow>
          if ascii_lowercase scheme = AUTH_SCHEME_BEARER \<and> token \<noteq> [] then Some token else None)"

definition nonempty :: "string option \<Rightarrow> string option" where
  "nonempty t = (case t of Some (c # cs) \<Rightarrow> Some (c # cs) | _ \<Rightarrow> None)"

definition bearer_of :: "(string \<Rightarrow> bool) \<Rightarrow> HttpRequest \<Rightarrow> string option" where
  "bearer_of readable q = Option.bind (header_str readable ''authorization'' q) extract_bearer_token"

definition extract_client_token :: "(string \<Rightarrow> bool) \<Rightarrow> HttpRequest \<Rightarrow> string option" where
  "extract_client_token readable q =
     (case bearer_of readable q of
        Some t \<Rightarrow> Some t
      | None \<Rightarrow> (case nonempty (header_str readable X_API_KEY q) of
          Some t \<Rightarrow> Some t
        | None \<Rightarrow> nonempty (header_str readable X_GOOG_API_KEY q)))"

definition extract_admin_header_token :: "(string \<Rightarrow> bool) \<Rightarrow> HttpRequest \<Rightarrow> string option" where
  "extract_admin_header_token readable q = nonempty (header_str readable X_ADMIN_TOKEN q)"

definition has_sigv4_authorization :: "(string \<Rightarrow> bool) \<Rightarrow> HttpRequest \<Rightarrow> bool" where
  "has_sigv4_authorization readable q =
     (case header_str readable ''authorization'' q of
        None \<Rightarrow> False | Some v \<Rightarrow> prefix SIGV4_ALGORITHM (dropWhile header_space v))"

text \<open>The protocol of a path, and the answer a client of that protocol expects to a bad credential.\<close>

datatype Proto = ProtoGemini | ProtoOpenai | ProtoBedrock | ProtoAnthropic | ProtoCohere | ProtoResponses

definition GEMINI_ACTIONS :: "string list" where
  "GEMINI_ACTIONS = ['':generateContent'', '':streamGenerateContent'', '':countTokens'', '':embedContent'',
     '':batchGenerateContent'', '':generateAnswer'', '':batchEmbedContents'']"

definition proto_for_path :: "string \<Rightarrow> Proto" where
  "proto_for_path path =
     (if prefix ''/v1beta/models'' path then ProtoGemini
      else if prefix ''/v1/models/'' path
      then (let last_segment = last (split_char (CHR ''/'') path) in
            if list_ex (\<lambda>a. suffix a last_segment) GEMINI_ACTIONS then ProtoGemini else ProtoOpenai)
      else if prefix ''/model/'' path \<and> (suffix ''/converse'' path \<or> suffix ''/converse-stream'' path) then ProtoBedrock
      else if path = ''/v1/messages'' \<or> suffix ''/v1/messages'' path then ProtoAnthropic
      else if path = ''/v1/chat/completions'' then ProtoOpenai
      else if path = ''/v2/chat'' then ProtoCohere
      else if path = ''/v1/responses'' then ProtoResponses
      else ProtoOpenai)"

fun uses_sigv4_ingress_auth :: "Proto \<Rightarrow> bool" where
  "uses_sigv4_ingress_auth ProtoBedrock = True"
| "uses_sigv4_ingress_auth _ = False"

fun auth_failure_status_and_kind :: "Proto \<Rightarrow> nat \<times> string" where
  "auth_failure_status_and_kind ProtoBedrock = (403, ''auth'')"
| "auth_failure_status_and_kind ProtoGemini = (400, ''invalid_request_error'')"
| "auth_failure_status_and_kind _ = (401, ''authentication_error'')"

section \<open>The Bedrock ingress\<close>

definition query_pair :: "string \<Rightarrow> string \<times> string" where
  "query_pair s = (case split_once (CHR ''='') s of Some kv \<Rightarrow> kv | None \<Rightarrow> (s, []))"

definition canonical_query_string :: "string option \<Rightarrow> string" where
  "canonical_query_string query =
     (case nonempty query of
        None \<Rightarrow> []
      | Some q \<Rightarrow> join ''&'' (map (\<lambda>(k, v). k @ ''='' @ v)
          (sort (map query_pair (filter (\<lambda>s. s \<noteq> []) (split_char (CHR ''&'') q))))))"

text \<open>The headers a request signed, by name.\<close>

definition signed_name_set :: "ParsedAuthHeader \<Rightarrow> string list" where
  "signed_name_set parsed =
     filter (\<lambda>h. h \<noteq> []) (map (\<lambda>h. ascii_lowercase (header_trim h)) (split_char (CHR '';'') (pa_signed_headers parsed)))"

definition signed_values :: "(string \<Rightarrow> bool) \<Rightarrow> ParsedAuthHeader \<Rightarrow> HttpRequest \<Rightarrow> (string \<times> string) list" where
  "signed_values readable parsed q =
     filter (\<lambda>(name, v). readable v)
       (filter (\<lambda>(name, v). name \<in> set (signed_name_set parsed)) (map (\<lambda>(name, v). (ascii_lowercase name, v)) (hq_headers q)))"

definition inbound_of :: "HttpRequest \<Rightarrow> (string \<times> string) list \<Rightarrow> string \<Rightarrow> string \<Rightarrow> InboundRequest" where
  "inbound_of q headers payload_hash amzdate =
     \<lparr>ir_verb = hq_verb q, ir_canonical_uri = uri_encode_path (hq_path q),
      ir_canonical_querystring = canonical_query_string (hq_query q), ir_headers = headers,
      ir_payload_hash = payload_hash, ir_amzdate = amzdate\<rparr>"

text \<open>The secret to check against, and the key with the liveness of the credential, if it is known.\<close>

definition sigv4_secret :: "u64 \<Rightarrow> string \<Rightarrow> KeyState \<Rightarrow> string \<times> (VirtualKey \<times> bool) option" where
  "sigv4_secret now access_key_id ks =
     (case lookup_credential ''sigv4'' access_key_id ks of
        Some (key, cred) \<Rightarrow>
          (case plaintext cred of Some secret \<Rightarrow> secret | None \<Rightarrow> DUMMY_SECRET, Some (key, cred_is_live (cs_meta cred) now))
      | None \<Rightarrow> (DUMMY_SECRET, None))"

definition verify_bedrock_sigv4 ::
  "(string \<Rightarrow> bool) \<Rightarrow> SigCrypto \<Rightarrow> u64 \<Rightarrow> u64 \<Rightarrow> HttpRequest \<Rightarrow> KeyState \<Rightarrow> KeyState \<times> VirtualKey option" where
  "verify_bedrock_sigv4 readable cr now revoked_now q ks =
     (case parse_authorization_header (case header_str readable ''authorization'' q of Some v \<Rightarrow> v | None \<Rightarrow> []) of
        Inl _ \<Rightarrow> (ks, None)
      | Inr parsed \<Rightarrow>
          let headers = signed_values readable parsed q in
          (case map_of headers X_AMZ_CONTENT_SHA256 of
             None \<Rightarrow> (ks, None)
           | Some payload_hash \<Rightarrow>
               if ascii_lowercase payload_hash = ''unsigned-payload'' then (ks, None)
               else if sc_sha256_hex cr (hq_body q) \<noteq> ascii_lowercase payload_hash then (ks, None)
               else (case map_of headers X_AMZ_DATE of
                   None \<Rightarrow> (ks, None)
                 | Some amzdate \<Rightarrow>
                     let (secret, resolved) = sigv4_secret now (pa_access_key_id parsed) ks
                     in case (verify_inbound_sigv4 cr parsed (inbound_of q headers payload_hash amzdate) secret now, resolved) of
                          (None, Some (key, True)) \<Rightarrow>
                            if vk_enabled key
                            then (let (ks1, revoked) = is_revoked_at (vk_id key) revoked_now ks
                                  in (ks1, if revoked then None else Some key))
                            else (ks, None)
                        | _ \<Rightarrow> (ks, None))))"

section \<open>The middleware\<close>

record GateApp =
  ga_auth :: AuthMiddleware
  ga_admin :: AdminPlane
  ga_routes :: RouteTable

record GateEnv =
  ge_peers :: Peers
  ge_sha :: "string \<Rightarrow> string"
  ge_crypto :: Crypto
  ge_sig :: SigCrypto
  ge_readable :: "string \<Rightarrow> bool"
  ge_now :: u64
  ge_later :: u64
  ge_offloaded :: bool
  ge_body_read :: bool

record GateState =
  gt_cache :: SharedCache
  gt_keys :: "KeyState option"
  gt_limiter :: Limiter

datatype GateAnswer =
    Passed
  | AdminHandled "Principal option"
  | AdminRefused AdminAnswer "Mutation option"
  | Handled "Principal option" "VirtualKey option"
  | Unauthorized nat string

definition unauthorized :: "string \<Rightarrow> GateAnswer" where
  "unauthorized path = (let (status, kind) = auth_failure_status_and_kind (proto_for_path path) in Unauthorized status kind)"

text \<open>The single gate: what a verdict of the chain is worth.\<close>

definition data_gate :: "RoleBindings \<Rightarrow> string \<Rightarrow> ChainVerdict \<Rightarrow> GateAnswer" where
  "data_gate role_bindings path verdict =
     (case verdict of
        OpenDoor \<Rightarrow> Handled None None
      | ChainDenied \<Rightarrow> unauthorized path
      | Identified name p resolved \<Rightarrow>
          let bindings = role_bindings name;
              gov_key = (case resolved of Some k \<Rightarrow> Some k | None \<Rightarrow> synthesize_principal_key p bindings)
          in if gov_key = None \<and> pn_roles p \<noteq> [] \<and> bindings \<noteq> None then unauthorized path
             else Handled (Some p) gov_key)"

definition takes_sigv4 :: "GateEnv \<Rightarrow> GateApp \<Rightarrow> HttpRequest \<Rightarrow> bool" where
  "takes_sigv4 e app q \<longleftrightarrow> aw_keys_in_chain (ga_auth app) \<and> uses_sigv4_ingress_auth (proto_for_path (hq_path q))
     \<and> has_sigv4_authorization (ge_readable e) q"

text \<open>Before the body is read: the header must parse, and the two headers it needs must be there.\<close>

definition structurally_valid :: "GateEnv \<Rightarrow> HttpRequest \<Rightarrow> bool" where
  "structurally_valid e q \<longleftrightarrow>
     (case parse_authorization_header (case header_str (ge_readable e) ''authorization'' q of Some v \<Rightarrow> v | None \<Rightarrow> []) of
        Inl _ \<Rightarrow> False | Inr _ \<Rightarrow> True)
     \<and> map_of (hq_headers q) X_AMZ_CONTENT_SHA256 \<noteq> None \<and> map_of (hq_headers q) X_AMZ_DATE \<noteq> None"

definition sigv4_verdict :: "GateEnv \<Rightarrow> HttpRequest \<Rightarrow> GateState \<Rightarrow> GateState \<times> ChainVerdict" where
  "sigv4_verdict e q s =
     (if \<not> structurally_valid e q \<or> \<not> ge_body_read e then (s, ChainDenied)
      else case gt_keys s of
        None \<Rightarrow> (s, ChainDenied)
      | Some ks \<Rightarrow>
          (case verify_bedrock_sigv4 (ge_readable e) (ge_sig e) (ge_now e) (ge_later e) q ks of
             (ks1, Some key) \<Rightarrow> (s\<lparr>gt_keys := Some ks1\<rparr>, Identified KEYS_MODULE (principal_from_vkey key) (Some key))
           | (ks1, None) \<Rightarrow> (s\<lparr>gt_keys := Some ks1\<rparr>, ChainDenied)))"

definition data_verdict :: "GateEnv \<Rightarrow> GateApp \<Rightarrow> HttpRequest \<Rightarrow> GateState \<Rightarrow> GateState \<times> ChainVerdict" where
  "data_verdict e app q s =
     (if takes_sigv4 e app q then sigv4_verdict e q s
      else let ((c1, gov1), verdict) =
                 run_chain_on_request_path (ge_peers e) (ge_sha e) (ge_crypto e) (ge_now e) (ge_offloaded e) (ga_auth app)
                   (extract_client_token (ge_readable e) q) (gt_cache s, gt_keys s)
           in (s\<lparr>gt_cache := c1, gt_keys := gov1\<rparr>, verdict))"

definition admin_request :: "GateEnv \<Rightarrow> HttpRequest \<Rightarrow> AdminRequest" where
  "admin_request e q = \<lparr>aq_verb = hq_verb q, aq_path = hq_path q, aq_bearer = bearer_of (ge_readable e) q,
     aq_header = extract_admin_header_token (ge_readable e) q, aq_now = ge_now e, aq_limit_now = ge_later e, aq_offloaded = ge_offloaded e\<rparr>"

definition admin_branch :: "GateEnv \<Rightarrow> GateApp \<Rightarrow> HttpRequest \<Rightarrow> GateState \<Rightarrow> GateState \<times> GateAnswer" where
  "admin_branch e app q s =
     (let ((c1, m1), answer, noted) = admin_gate (ge_peers e) (ge_sha e) (ga_admin app) (admin_request e q) (gt_cache s, gt_limiter s)
      in (s\<lparr>gt_cache := c1, gt_limiter := m1\<rparr>, case answer of AdminNext who \<Rightarrow> AdminHandled who | _ \<Rightarrow> AdminRefused answer noted))"

definition is_admin_path :: "string \<Rightarrow> bool" where
  "is_admin_path path \<longleftrightarrow> path = ADMIN_PATH \<or> prefix ADMIN_PATH_PREFIX path"

definition auth_middleware :: "GateEnv \<Rightarrow> GateApp \<Rightarrow> HttpRequest \<Rightarrow> GateState \<Rightarrow> GateState \<times> GateAnswer" where
  "auth_middleware e app q s =
     (let path = hq_path q; declared = declared_auth (ga_routes app) path (hq_verb q) in
      if path = HEALTHZ_PATH \<or> path = AUTH_TOKEN_PATH \<or> declared = Some RouteOpen then (s, Passed)
      else if is_admin_path path \<or> declared = Some RouteAdmin then admin_branch e app q s
      else let (s1, verdict) = data_verdict e app q s
           in (s1, data_gate (ad_role_bindings (ga_admin app)) path verdict))"

section \<open>What the Bedrock ingress admits\<close>

lemma sigv4_ingress_facts:
  assumes "verify_bedrock_sigv4 readable cr now later q ks = (ks1, Some key)"
  shows "\<exists>parsed cred payload_hash amzdate.
    parse_authorization_header (the (header_str readable ''authorization'' q)) = Inr parsed
    \<and> lookup_credential ''sigv4'' (pa_access_key_id parsed) ks = Some (key, cred)
    \<and> cred_is_live (cs_meta cred) now \<and> vk_enabled key \<and> \<not> rv_contains (vk_id key) (ks_denylist ks1)
    \<and> verify_inbound_sigv4 cr parsed (inbound_of q (signed_values readable parsed q) payload_hash amzdate)
        (case plaintext cred of Some secret \<Rightarrow> secret | None \<Rightarrow> DUMMY_SECRET) now = None
    \<and> map_of (signed_values readable parsed q) X_AMZ_CONTENT_SHA256 = Some payload_hash
    \<and> X_AMZ_CONTENT_SHA256 \<in> set (signed_name_set parsed) \<and> X_AMZ_DATE \<in> set (signed_name_set parsed)
    \<and> sc_sha256_hex cr (hq_body q) = ascii_lowercase payload_hash"
proof -
  let ?v = "case header_str readable ''authorization'' q of Some v \<Rightarrow> v | None \<Rightarrow> []"
  obtain parsed where p: "parse_authorization_header ?v = Inr parsed"
    using assms by (auto simp: verify_bedrock_sigv4_def split: sum.splits)
  have "parse_authorization_header [] = Inl MissingAuthorization"
    by (simp add: parse_authorization_header_def header_trim_def)
  with p have v: "?v = the (header_str readable ''authorization'' q)" by (cases "header_str readable ''authorization'' q") auto
  let ?h = "signed_values readable parsed q"
  obtain payload_hash where h: "map_of ?h X_AMZ_CONTENT_SHA256 = Some payload_hash"
    using assms by (auto simp: verify_bedrock_sigv4_def p Let_def split: option.splits)
  have b: "sc_sha256_hex cr (hq_body q) = ascii_lowercase payload_hash"
    using assms by (auto simp: verify_bedrock_sigv4_def p h Let_def split: if_splits)
  obtain amzdate where d: "map_of ?h X_AMZ_DATE = Some amzdate"
    using assms by (auto simp: verify_bedrock_sigv4_def p h Let_def split: option.splits if_splits)
  obtain secret resolved where s: "sigv4_secret now (pa_access_key_id parsed) ks = (secret, resolved)" by (meson surj_pair)
  have ok: "verify_inbound_sigv4 cr parsed (inbound_of q ?h payload_hash amzdate) secret now = None"
    and r: "resolved = Some (key, True)" and e: "vk_enabled key"
    and n: "is_revoked_at (vk_id key) later ks = (ks1, False)"
    using assms by (auto simp: verify_bedrock_sigv4_def p h d s Let_def split: if_splits option.splits bool.splits prod.splits)
  from s r obtain cred where c: "lookup_credential ''sigv4'' (pa_access_key_id parsed) ks = Some (key, cred)"
      "cred_is_live (cs_meta cred) now" "secret = (case plaintext cred of Some secret \<Rightarrow> secret | None \<Rightarrow> DUMMY_SECRET)"
    by (auto simp: sigv4_secret_def split: option.splits)
  have names: "name \<in> set (signed_name_set parsed)" if "map_of ?h name = Some x" for name x
    using map_of_SomeD [OF that] by (auto simp: signed_values_def)
  from n have "\<not> rv_contains (vk_id key) (ks_denylist ks1)" by (auto simp: is_revoked_at_def Let_def)
  with p v c e ok h b names [OF h] names [OF d] show ?thesis by (auto intro!: exI [of _ parsed] exI [of _ cred] exI [of _ payload_hash] exI [of _ amzdate])
qed

lemma sigv4_ingress_key:
  "verify_bedrock_sigv4 readable cr now later q ks = (ks1, Some key) \<Longrightarrow> vk_enabled key"
  using sigv4_ingress_facts by blast

text \<open>
  C19: a signed request comes in only under a live credential. The ingress admits a key only when the
  access key of the request is a live credential of it, the key is enabled and not revoked, the
  signature verifies against the secret of that credential over the request as it came, and the
  body hashes to a payload hash that is among the signed headers.
\<close>

theorem sigv4_ingress_is_governed:
  assumes "verify_bedrock_sigv4 readable cr now later q ks = (ks1, Some key)"
  shows "\<exists>parsed cred payload_hash amzdate.
    parse_authorization_header (the (header_str readable ''authorization'' q)) = Inr parsed
    \<and> lookup_credential ''sigv4'' (pa_access_key_id parsed) ks = Some (key, cred)
    \<and> cred_is_live (cs_meta cred) now \<and> vk_enabled key \<and> \<not> rv_contains (vk_id key) (ks_denylist ks1)
    \<and> verify_inbound_sigv4 cr parsed (inbound_of q (signed_values readable parsed q) payload_hash amzdate)
        (case plaintext cred of Some secret \<Rightarrow> secret | None \<Rightarrow> DUMMY_SECRET) now = None
    \<and> map_of (signed_values readable parsed q) X_AMZ_CONTENT_SHA256 = Some payload_hash
    \<and> X_AMZ_CONTENT_SHA256 \<in> set (signed_name_set parsed) \<and> X_AMZ_DATE \<in> set (signed_name_set parsed)
    \<and> sc_sha256_hex cr (hq_body q) = ascii_lowercase payload_hash"
  by (rule sigv4_ingress_facts [OF assms])

text \<open>
  The converse side of the fixed dummy: a credential whose secret is not in the plain form is checked
  against the published constant and is admitted under it like under a secret of its own.
\<close>

lemma dummy_secret_admits:
  assumes "parse_authorization_header (the (header_str readable ''authorization'' q)) = Inr parsed"
    and "header_str readable ''authorization'' q = Some v"
    and "map_of (signed_values readable parsed q) X_AMZ_CONTENT_SHA256 = Some payload_hash"
    and "ascii_lowercase payload_hash \<noteq> ''unsigned-payload''" and "sc_sha256_hex cr (hq_body q) = ascii_lowercase payload_hash"
    and "map_of (signed_values readable parsed q) X_AMZ_DATE = Some amzdate"
    and "lookup_credential ''sigv4'' (pa_access_key_id parsed) ks = Some (key, cred)" and "cred_is_live (cs_meta cred) now"
    and "vk_enabled key" and "\<not> snd (is_revoked_at (vk_id key) later ks)" and "plaintext cred = None"
    and "verify_inbound_sigv4 cr parsed (inbound_of q (signed_values readable parsed q) payload_hash amzdate) DUMMY_SECRET now = None"
  shows "snd (verify_bedrock_sigv4 readable cr now later q ks) = Some key"
  using assms by (simp add: verify_bedrock_sigv4_def sigv4_secret_def case_prod_unfold Let_def)

text \<open>What the signer of the gateway itself writes comes in, under a live credential with its secret.\<close>

definition signed_request :: "SigCrypto \<Rightarrow> string \<Rightarrow> string \<Rightarrow> string \<Rightarrow> string \<Rightarrow> string option \<Rightarrow> u64 \<Rightarrow> HttpRequest" where
  "signed_request cr authorization host path body token t =
     \<lparr>hq_verb = ''POST'', hq_path = path, hq_query = None,
      hq_headers = (''authorization'', authorization) # signed_header_list host (sc_sha256_hex cr body) (fst (format_amz_time t)) token,
      hq_body = body\<rparr>"

lemma signed_name_set_written:
  assumes "pa_signed_headers parsed = join '';'' (signed_names token)"
  shows "signed_name_set parsed = signed_names token"
proof -
  have "map (\<lambda>h. ascii_lowercase (header_trim h)) (signed_names token) = signed_names token"
  proof (rule map_idI)
    fix h assume h: "h \<in> set (signed_names token)"
    then have "header_trim h = h"
      by (intro trim_clean) (auto simp: signed_names_def name_defs header_space_def split: if_splits)
    with signed_names_lower [OF h] show "ascii_lowercase (header_trim h) = h" by simp
  qed
  moreover have "filter (\<lambda>h. h \<noteq> []) (signed_names token) = signed_names token"
    by (simp add: signed_names_def name_defs)
  ultimately show ?thesis by (simp add: signed_name_set_def assms signed_names_join)
qed

lemma signed_values_written:
  assumes "pa_signed_headers parsed = join '';'' (signed_names token)"
    and "list_all (\<lambda>x. readable (snd x)) (hq_headers (signed_request cr v host path body token t))"
  shows "signed_values readable parsed (signed_request cr v host path body token t)
    = signed_header_list host (sc_sha256_hex cr body) (fst (format_amz_time t)) token"
proof -
  let ?hs = "signed_header_list host (sc_sha256_hex cr body) (fst (format_amz_time t)) token"
  have n: "fst x \<in> set (signed_names token)" if "x \<in> set ?hs" for x
    using that map_fst_signed [of host "sc_sha256_hex cr body" "fst (format_amz_time t)" token] by (metis image_eqI list.set_map)
  have "map (\<lambda>(name, v). (ascii_lowercase name, v)) ?hs = ?hs"
  proof (rule map_idI)
    fix x assume "x \<in> set ?hs"
    from signed_names_lower [OF n [OF this]] show "(\<lambda>(name, v). (ascii_lowercase name, v)) x = x" by (cases x) simp
  qed
  moreover have "ascii_lowercase ''authorization'' \<notin> set (signed_names token)"
    by (subst lower_id) (simp_all add: signed_names_def name_defs)
  moreover have "filter (\<lambda>(name, v). name \<in> set (signed_names token)) ?hs = ?hs"
    using n by (auto simp: filter_id_conv case_prod_unfold)
  moreover have "filter (\<lambda>(name, v). readable v) ?hs = ?hs"
    using assms(2) by (auto simp: filter_id_conv signed_request_def list_all_iff)
  ultimately show ?thesis
    by (simp add: signed_values_def signed_name_set_written [OF assms(1)] signed_request_def)
qed

lemma signed_client_admitted:
  assumes "lane_key_parts text = Some (access, secret, token)" and "plain access" and "hex_digests cr" and "t < 253402300800"
    and "sigv4_sign_headers cr header_ok text host (uri_encode_path path) body t = (name, v) # out"
    and "list_all (\<lambda>x. readable (snd x)) (hq_headers (signed_request cr v host path body token t))"
    and "ascii_lowercase (sc_sha256_hex cr body) = sc_sha256_hex cr body" and "sc_sha256_hex cr body \<noteq> ''unsigned-payload''"
    and "lookup_credential ''sigv4'' access ks = Some (key, cred)" and "plaintext cred = Some secret"
    and "cred_is_live (cs_meta cred) now" and "vk_enabled key" and "\<not> snd (is_revoked_at (vk_id key) later ks)"
    and "abs_diff t now \<le> 300"
  shows "snd (verify_bedrock_sigv4 readable cr now later (signed_request cr v host path body token t) ks) = Some key"
proof -
  let ?q = "signed_request cr v host path body token t" and ?ph = "sc_sha256_hex cr body" and ?d = "fst (format_amz_time t)"
  obtain parsed where p: "parse_authorization_header v = Inr parsed" "pa_access_key_id parsed = access"
      "pa_signed_headers parsed = join '';'' (signed_names token)"
    and w: "verify_inbound_sigv4 cr parsed (wire_request cr host (uri_encode_path path) body token t) secret now = None"
    using written_request_accepted [OF assms(1-5)] assms(14) by auto
  note vals = signed_values_written [OF p(3) assms(6)]
  have h: "header_str readable ''authorization'' ?q = Some v"
    using assms(6) by (simp add: header_str_def signed_request_def)
  have m: "map_of (signed_header_list host ?ph ?d token) X_AMZ_CONTENT_SHA256 = Some ?ph"
    "map_of (signed_header_list host ?ph ?d token) X_AMZ_DATE = Some ?d"
    by (simp_all add: signed_header_list_def name_defs)
  have i: "inbound_of ?q (signed_header_list host ?ph ?d token) ?ph ?d = wire_request cr host (uri_encode_path path) body token t"
    by (simp add: inbound_of_def signed_request_def wire_request_def canonical_query_string_def nonempty_def Let_def)
  have s: "sigv4_secret now access ks = (secret, Some (key, True))"
    using assms(9-11) by (simp add: sigv4_secret_def)
  have b: "hq_body ?q = body" by (simp add: signed_request_def)
  show ?thesis
    using assms(7,8,12,13) unfolding verify_bedrock_sigv4_def h option.case p(1) sum.case Let_def vals m i b p(2) s prod.case w
    by (simp add: case_prod_unfold)
qed

section \<open>Who comes in\<close>

lemma chain_loop_identifies:
  assumes "chain_loop peers sha now gen candidate chain pending c = (c1, Some (Identified name p k))"
  shows "name \<in> set (map fst chain) \<and> k = None"
  using assms
proof (induction chain arbitrary: pending c)
  case (Cons x rest)
  obtain n m where x: "x = (n, m)" by (cases x)
  obtain c2 hit where l: "chain_lookup peers sha now n m candidate c = (c2, hit)" by (meson surj_pair)
  let ?o = "case hit of Some o' \<Rightarrow> o' | None \<Rightarrow> am_authenticate m candidate"
  show ?case
    using Cons by (cases ?o) (auto simp: x l Let_def)
qed simp

lemma chain_loop_open: "chain_loop peers sha now gen candidate chain pending c \<noteq> (c1, Some OpenDoor)"
proof (induction chain arbitrary: pending c)
  case (Cons x rest)
  obtain n m where x: "x = (n, m)" by (cases x)
  obtain c2 hit where l: "chain_lookup peers sha now n m candidate c = (c2, hit)" by (meson surj_pair)
  let ?o = "case hit of Some o' \<Rightarrow> o' | None \<Rightarrow> am_authenticate m candidate"
  show ?case
    using Cons by (cases ?o) (auto simp: x l Let_def)
qed simp

lemma keys_arm_identifies:
  assumes "keys_arm_verdict cr gov candidate now = (gov1, Identified name p k)"
  shows "\<exists>ks token key. gov = Some ks \<and> candidate = Some token \<and> snd (verify_token cr token now ks) = Some key
    \<and> name = KEYS_MODULE \<and> p = principal_from_vkey key \<and> k = Some key"
  using assms by (auto simp: keys_arm_verdict_def split: option.splits if_splits prod.splits)

lemma keys_arm_not_open: "keys_arm_verdict cr gov candidate now \<noteq> (gov1, OpenDoor)"
  by (auto simp: keys_arm_verdict_def split: option.splits prod.splits)

text \<open>The three ways the chain admits.\<close>

lemma path_chain_cases:
  assumes "run_chain_on_request_path peers sha cr now offloaded aw candidate (c, gov) = (s1, verdict)" and "verdict \<noteq> ChainDenied"
  shows "verdict = OpenDoor \<and> aw_chain aw = [] \<and> \<not> aw_keys_in_chain aw
    \<or> (\<exists>name p. verdict = Identified name p None \<and> name \<in> set (map fst (aw_chain aw)))
    \<or> aw_keys_in_chain aw \<and> (\<exists>ks token key. gov = Some ks \<and> candidate = Some token \<and> snd (verify_token cr token now ks) = Some key
        \<and> verdict = Identified KEYS_MODULE (principal_from_vkey key) (Some key))"
proof (cases "aw_chain aw = [] \<and> \<not> aw_keys_in_chain aw")
  case True
  with assms show ?thesis by (simp add: run_chain_on_request_path_def)
next
  case False
  obtain c1 gen where g: "chain_generation peers (Some c) = (c1, gen)" by (meson surj_pair)
  obtain c2 v where l: "chain_loop peers sha now gen candidate (aw_chain aw) [] c1 = (c2, v)" by (meson surj_pair)
  obtain gov1 w where k: "keys_arm_verdict cr gov candidate now = (gov1, w)" by (meson surj_pair)
  have verdict: "verdict = (case v of Some x \<Rightarrow> x | None \<Rightarrow> if aw_keys_in_chain aw then w else ChainDenied)"
    using assms False by (auto simp: run_chain_on_request_path_def run_chain_cached_def g l k Let_def split: option.splits if_splits)
  show ?thesis
  proof (cases v)
    case None
    with verdict assms(2) have w: "aw_keys_in_chain aw" "verdict = w" by (auto split: if_splits)
    show ?thesis
    proof (cases w)
      case (Identified name p kk)
      from keys_arm_identifies [OF k [unfolded Identified]] obtain ks token key
        where "gov = Some ks" "candidate = Some token" "snd (verify_token cr token now ks) = Some key"
          "name = KEYS_MODULE" "p = principal_from_vkey key" "kk = Some key" by blast
      then show ?thesis unfolding w(2) Identified using w(1) by simp
    next
      case OpenDoor
      with k keys_arm_not_open show ?thesis by blast
    next
      case ChainDenied
      with w assms(2) show ?thesis by simp
    qed
  next
    case (Some x)
    with verdict l chain_loop_open chain_loop_identifies assms(2) show ?thesis by (cases x) auto
  qed
qed

text \<open>What a presented key must be: enabled, and found by a token or by a signature.\<close>

definition key_presented :: "GateEnv \<Rightarrow> HttpRequest \<Rightarrow> GateState \<Rightarrow> VirtualKey \<Rightarrow> bool" where
  "key_presented e q s key \<longleftrightarrow> (\<exists>ks. gt_keys s = Some ks \<and>
     ((\<exists>token. extract_client_token (ge_readable e) q = Some token \<and> snd (verify_token (ge_crypto e) token (ge_now e) ks) = Some key)
      \<or> snd (verify_bedrock_sigv4 (ge_readable e) (ge_sig e) (ge_now e) (ge_later e) q ks) = Some key))"

lemma data_verdict_cases:
  assumes "data_verdict e app q s = (s1, verdict)" and "verdict \<noteq> ChainDenied"
  shows "verdict = OpenDoor \<and> aw_chain (ga_auth app) = [] \<and> \<not> aw_keys_in_chain (ga_auth app)
    \<or> (\<exists>name p. verdict = Identified name p None \<and> name \<in> set (map fst (aw_chain (ga_auth app))))
    \<or> aw_keys_in_chain (ga_auth app) \<and> (\<exists>key. key_presented e q s key
        \<and> verdict = Identified KEYS_MODULE (principal_from_vkey key) (Some key))"
proof (cases "takes_sigv4 e app q")
  case True
  with assms have "sigv4_verdict e q s = (s1, verdict)" by (simp add: data_verdict_def)
  then obtain ks ks1 key where "gt_keys s = Some ks"
      "verify_bedrock_sigv4 (ge_readable e) (ge_sig e) (ge_now e) (ge_later e) q ks = (ks1, Some key)"
      "verdict = Identified KEYS_MODULE (principal_from_vkey key) (Some key)"
    using assms(2) by (auto simp: sigv4_verdict_def split: if_splits option.splits prod.splits)
  with True show ?thesis by (auto simp: key_presented_def takes_sigv4_def)
next
  case False
  then obtain c1 where "run_chain_on_request_path (ge_peers e) (ge_sha e) (ge_crypto e) (ge_now e) (ge_offloaded e) (ga_auth app)
      (extract_client_token (ge_readable e) q) (gt_cache s, gt_keys s) = (c1, verdict)"
    using assms(1) by (auto simp: data_verdict_def Let_def split: prod.splits)
  from path_chain_cases [OF this assms(2)] show ?thesis unfolding key_presented_def by blast
qed

lemma verify_token_enabled:
  "snd (verify_token cr token now ks) = Some key \<Longrightarrow> vk_enabled key"
  by (auto simp: verify_token_def Let_def split: option.splits sum.splits if_splits)

lemma presented_enabled: "key_presented e q s key \<Longrightarrow> vk_enabled key"
proof -
  assume a: "key_presented e q s key"
  have "vk_enabled key" if "snd (verify_bedrock_sigv4 readable cr now later q ks) = Some key" for readable cr now later q ks
    using sigv4_ingress_key [of readable cr now later q ks "fst (verify_bedrock_sigv4 readable cr now later q ks)" key] that
    by (metis prod.collapse)
  with a verify_token_enabled show ?thesis by (auto simp: key_presented_def)
qed

lemma gate_identity:
  assumes "data_gate role_bindings path (Identified name p None) = Handled who key"
  shows "who = Some p \<and> key = synthesize_principal_key p (role_bindings name) \<and> (key \<noteq> None \<or> pn_roles p = [] \<or> role_bindings name = None)"
  using assms by (auto simp: data_gate_def unauthorized_def case_prod_unfold Let_def split: if_splits)

lemma gate_lets_through:
  assumes "auth_middleware e app q s = (s1, Handled who key)"
  shows "who = None \<and> key = None \<and> aw_chain (ga_auth app) = [] \<and> \<not> aw_keys_in_chain (ga_auth app)
    \<or> (\<exists>name p. who = Some p \<and> name \<in> set (map fst (aw_chain (ga_auth app)))
        \<and> key = synthesize_principal_key p (ad_role_bindings (ga_admin app) name)
        \<and> (key \<noteq> None \<or> pn_roles p = [] \<or> ad_role_bindings (ga_admin app) name = None))
    \<or> aw_keys_in_chain (ga_auth app) \<and> (\<exists>k. key = Some k \<and> who = Some (principal_from_vkey k) \<and> vk_enabled k \<and> key_presented e q s k)"
proof -
  obtain s2 verdict where v: "data_verdict e app q s = (s2, verdict)" by (meson surj_pair)
  have g: "data_gate (ad_role_bindings (ga_admin app)) (hq_path q) verdict = Handled who key"
    using assms by (auto simp: auth_middleware_def admin_branch_def v Let_def split: if_splits prod.splits AdminAnswer.splits)
  have "verdict \<noteq> ChainDenied"
    using g by (auto simp: data_gate_def unauthorized_def case_prod_unfold Let_def)
  from data_verdict_cases [OF v this] show ?thesis
  proof (elim disjE conjE exE)
    fix name p assume v: "verdict = Identified name p None" and n: "name \<in> set (map fst (aw_chain (ga_auth app)))"
    from gate_identity [OF g [unfolded v]] n show ?thesis by blast
  next
    fix k assume "aw_keys_in_chain (ga_auth app)" "key_presented e q s k"
      "verdict = Identified KEYS_MODULE (principal_from_vkey k) (Some k)"
    with g presented_enabled show ?thesis by (auto simp: data_gate_def)
  qed (use g in \<open>simp add: data_gate_def\<close>)
qed

text \<open>The answers that let a request through to a handler.\<close>

fun reaches_handler :: "GateAnswer \<Rightarrow> bool" where
  "reaches_handler Passed = True"
| "reaches_handler (AdminHandled _) = True"
| "reaches_handler (Handled _ _) = True"
| "reaches_handler _ = False"

lemma admin_path_declares_nothing:
  assumes "build_route_table decls = Inr t" and "is_admin_path path"
  shows "declared_auth t path verb = None"
proof (rule ccontr)
  assume "declared_auth t path verb \<noteq> None"
  then obtain rm r where r: "((path, rm), r) \<in> set t" using declared_in_table by fastforce
  have n: "distinct (map fst ([] :: RouteTable))" by simp
  note b = build_loop_table [OF assms(1) [unfolded build_route_table_def] n]
  from r b obtain d where "d \<in> set decls" "rt_path (rd_route d) = path" by (auto simp: route_key_def)
  with b confine_admin have "\<not> under ''/api'' path" by (auto simp: list_all_iff)
  with assms(2) show False by (simp add: is_admin_path_def under_def ADMIN_PATH_def ADMIN_PATH_PREFIX_def)
qed

text \<open>What opens the admin plane to an identity: the explicit open posture, the operator token, a bound role.\<close>

definition operator_entitled :: "GateEnv \<Rightarrow> GateApp \<Rightarrow> HttpRequest \<Rightarrow> Principal option \<Rightarrow> bool" where
  "operator_entitled e app q who \<longleftrightarrow>
     ad_chain (ga_admin app) = [] \<and> who = None
     \<or> ADMIN_TOKENS_MODULE \<in> set (ad_chain (ga_admin app))
       \<and> (\<exists>t. (bearer_of (ge_readable e) q = Some t \<or> extract_admin_header_token (ge_readable e) q = Some t)
              \<and> ad_token_hash (ga_admin app) = Some (ge_sha e t))
       \<and> who = Some (from_id ADMIN_TOKENS_PRINCIPAL_ID)
     \<or> (\<exists>name ceiling p. who = Some p \<and> name \<in> set (ad_chain (ga_admin app)) \<and> name \<noteq> ADMIN_TOKENS_MODULE
         \<and> role_suffices (ga_admin app) name p (required_scope (hq_verb q) (hq_path q))
         \<and> module_admin_scope_cap (ga_admin app) name = Some ceiling \<and> scope_allows ceiling (required_scope (hq_verb q) (hq_path q)))"

lemma admin_branch_entitled:
  assumes "admin_branch e app q s = (s1, answer)" and "reaches_handler answer"
  shows "\<exists>who. answer = AdminHandled who \<and> operator_entitled e app q who"
proof -
  obtain s2 reply noted where g: "admin_gate (ge_peers e) (ge_sha e) (ga_admin app) (admin_request e q) (gt_cache s, gt_limiter s) = (s2, reply, noted)"
    by (metis prod_cases3)
  from assms obtain who where w: "reply = AdminNext who" "answer = AdminHandled who"
    by (cases reply) (auto simp: admin_branch_def g case_prod_unfold Let_def)
  from admin_authority_is_bounded [OF g [unfolded w(1)]] w(2) show ?thesis
    by (simp add: operator_entitled_def operator_presented_def admin_request_def)
qed

text \<open>A route a plugin declared for a request, with its level, inside the name space of the plugin.\<close>

definition declared_route :: "RouteDecl list \<Rightarrow> HttpRequest \<Rightarrow> RouteAuth \<Rightarrow> bool" where
  "declared_route decls q level \<longleftrightarrow>
     list_ex (\<lambda>d. rt_path (rd_route d) = hq_path q \<and> route_method_of (hq_verb q) = Some (rt_method (rd_route d))
       \<and> rt_auth (rd_route d) = level \<and> name_space (rd_kind d) (rd_owner d) (hq_path q)
       \<and> hq_path q \<notin> set reserved_exact_paths \<and> \<not> under ''/api'' (hq_path q)) decls"

lemma declared_auth_route:
  assumes "build_route_table decls = Inr t" and "declared_auth t (hq_path q) (hq_verb q) = Some level"
  shows "declared_route decls q level"
proof -
  obtain rm r where rm: "route_method_of (hq_verb q) = Some rm" "((hq_path q, rm), r) \<in> set t" "rg_auth r = level"
    using assms(2) map_of_SomeD by (fastforce simp: declared_auth_def split: option.splits)
  have n: "distinct (map fst ([] :: RouteTable))" by simp
  note b = build_loop_table [OF assms(1) [unfolded build_route_table_def] n]
  from rm(2) b obtain d where d: "d \<in> set decls" "route_key (rd_route d) = (hq_path q, rm)" "registered d = r" by auto
  with b have "confine (rd_kind d) (rd_owner d) (rt_path (rd_route d)) = None" by (simp add: list_all_iff)
  with d rm show ?thesis
    by (auto simp: declared_route_def list_ex_iff confine_name_space route_key_def registered_def intro!: bexI [of _ d])
qed

text \<open>
  C18: nobody comes in uninvited. A request that reaches any handler is one of three. It passes
  unasked only at the two paths of the gateway that carry no authority, or at a path that a plugin
  declared open in its own name space, which no path of the gateway's data or admin plane is. It
  reaches an admin handler only at an admin path or a route declared for operators, and only
  entitled. It reaches a data-plane handler only through an open door (no chain at all), or as an
  identity of a provider of the chain, with the key its roles are worth, which it lacks only when it
  carries no roles or its provider binds none, or with an enabled key of the gateway, presented as
  a verified token or by a verified signature.
\<close>

theorem nobody_enters_uninvited:
  assumes "build_route_table decls = Inr (ga_routes app)"
    and "auth_middleware e app q s = (s1, answer)" and "reaches_handler answer"
  shows "answer = Passed \<and> (hq_path q = ''/healthz'' \<or> hq_path q = ''/auth/token'' \<or> declared_route decls q RouteOpen)
    \<or> (\<exists>who. answer = AdminHandled who \<and> operator_entitled e app q who
         \<and> (under ''/api'' (hq_path q) \<or> declared_route decls q RouteAdmin))
    \<or> (\<exists>who key. answer = Handled who key \<and>
        (who = None \<and> key = None \<and> aw_chain (ga_auth app) = [] \<and> \<not> aw_keys_in_chain (ga_auth app)
         \<or> (\<exists>name p. who = Some p \<and> name \<in> set (map fst (aw_chain (ga_auth app)))
             \<and> key = synthesize_principal_key p (ad_role_bindings (ga_admin app) name)
             \<and> (key \<noteq> None \<or> pn_roles p = [] \<or> ad_role_bindings (ga_admin app) name = None))
         \<or> aw_keys_in_chain (ga_auth app) \<and> (\<exists>k. key = Some k \<and> who = Some (principal_from_vkey k) \<and> vk_enabled k \<and> key_presented e q s k)))"
proof -
  let ?declared = "declared_auth (ga_routes app) (hq_path q) (hq_verb q)"
  note route = declared_auth_route [OF assms(1)]
  consider (pass) "hq_path q = HEALTHZ_PATH \<or> hq_path q = AUTH_TOKEN_PATH \<or> ?declared = Some RouteOpen"
    | (admin) "is_admin_path (hq_path q) \<or> ?declared = Some RouteAdmin" "admin_branch e app q s = (s1, answer)"
    | (data) "\<not> (hq_path q = HEALTHZ_PATH \<or> hq_path q = AUTH_TOKEN_PATH \<or> ?declared = Some RouteOpen)"
        "\<not> (is_admin_path (hq_path q) \<or> ?declared = Some RouteAdmin)"
    using assms(2) by (auto simp: auth_middleware_def Let_def split: if_splits)
  then show ?thesis
  proof cases
    case pass
    then have "answer = Passed" using assms(2) by (auto simp: auth_middleware_def Let_def)
    with pass route show ?thesis by (auto simp: HEALTHZ_PATH_def AUTH_TOKEN_PATH_def)
  next
    case admin
    from admin_branch_entitled [OF admin(2) assms(3)] obtain who where "answer = AdminHandled who" "operator_entitled e app q who" by blast
    moreover have "under ''/api'' (hq_path q) \<or> declared_route decls q RouteAdmin"
      using admin(1) route by (auto simp: is_admin_path_def under_def ADMIN_PATH_def ADMIN_PATH_PREFIX_def)
    ultimately show ?thesis by blast
  next
    case data
    obtain s2 verdict where "data_verdict e app q s = (s2, verdict)" by (meson surj_pair)
    with data assms(2) have "answer = data_gate (ad_role_bindings (ga_admin app)) (hq_path q) verdict"
      by (auto simp: auth_middleware_def Let_def)
    with assms(3) obtain who key where h: "answer = Handled who key"
      by (auto simp: data_gate_def unauthorized_def case_prod_unfold Let_def split: ChainVerdict.splits if_splits)
    with gate_lets_through [OF assms(2) [unfolded h]] show ?thesis by blast
  qed
qed

text \<open>
  C20: the admin plane is gated. Whatever routes plugins have declared, a request under the admin
  surface reaches a handler only through the admin chain: under the explicit open posture, or with
  the operator token as its bearer or in its admin header, or as an identity of a configured module one
  of whose roles is bound for that module with a scope the endpoint requires at most, and only within
  the ceiling of that module.
\<close>

theorem admin_plane_is_gated:
  assumes "build_route_table decls = Inr (ga_routes app)" and "is_admin_path (hq_path q)"
    and "auth_middleware e app q s = (s1, answer)" and "reaches_handler answer"
  shows "\<exists>who. answer = AdminHandled who \<and>
    (ad_chain (ga_admin app) = [] \<and> who = None
     \<or> ADMIN_TOKENS_MODULE \<in> set (ad_chain (ga_admin app))
       \<and> (\<exists>t. (bearer_of (ge_readable e) q = Some t \<or> extract_admin_header_token (ge_readable e) q = Some t)
              \<and> ad_token_hash (ga_admin app) = Some (ge_sha e t))
       \<and> who = Some (from_id ADMIN_TOKENS_PRINCIPAL_ID)
     \<or> (\<exists>name ceiling p. who = Some p \<and> name \<in> set (ad_chain (ga_admin app)) \<and> name \<noteq> ADMIN_TOKENS_MODULE
         \<and> role_suffices (ga_admin app) name p (required_scope (hq_verb q) (hq_path q))
         \<and> module_admin_scope_cap (ga_admin app) name = Some ceiling \<and> scope_allows ceiling (required_scope (hq_verb q) (hq_path q))))"
proof -
  have "hq_path q \<noteq> HEALTHZ_PATH \<and> hq_path q \<noteq> AUTH_TOKEN_PATH"
    using assms(2) by (auto simp: is_admin_path_def HEALTHZ_PATH_def AUTH_TOKEN_PATH_def ADMIN_PATH_def ADMIN_PATH_PREFIX_def)
  with admin_path_declares_nothing [OF assms(1,2)] assms(2,3) have b: "admin_branch e app q s = (s1, answer)"
    by (simp add: auth_middleware_def Let_def)
  from admin_branch_entitled [OF b assms(4)] show ?thesis by (simp add: operator_entitled_def)
qed

section \<open>Examples\<close>

definition sample_gate_env :: GateEnv where
  "sample_gate_env = \<lparr>ge_peers = alone, ge_sha = sample_sha, ge_crypto = example_crypto, ge_sig = plain_crypto,
     ge_readable = (\<lambda>v. True), ge_now = 1000, ge_later = 1000, ge_offloaded = True, ge_body_read = True\<rparr>"

definition sample_gate_app :: GateApp where
  "sample_gate_app = \<lparr>ga_auth = \<lparr>aw_keys_in_chain = False,
       aw_chain = [(''corp'', \<lparr>am_cacheable = False, am_authenticate = (\<lambda>t. if t = Some ''ann-pw'' then Identify auditor else Pass)\<rparr>)],
       aw_has_plugin_module = True\<rparr>,
     ga_admin = sample_plane, ga_routes = []\<rparr>"

definition sample_gate_state :: GateState where
  "sample_gate_state = \<lparr>gt_cache = \<lparr>sh_cache = cache_new, sh_accesses = 0\<rparr>, gt_keys = None, gt_limiter = limiter_new\<rparr>"

definition sample_http :: "string \<Rightarrow> string \<Rightarrow> string \<Rightarrow> HttpRequest" where
  "sample_http path name v = \<lparr>hq_verb = ''GET'', hq_path = path, hq_query = None, hq_headers = [(name, v)], hq_body = []\<rparr>"

lemma sample_chat:
  "snd (auth_middleware sample_gate_env sample_gate_app (sample_http ''/v1/messages'' ''x-api-key'' ''ann-pw'') sample_gate_state)
     = Handled (Some auditor) (Some (principal_key auditor None None))"
  by (simp add: auth_middleware_def sample_gate_env_def sample_gate_app_def sample_http_def sample_gate_state_def declared_auth_def
      route_method_of_def HEALTHZ_PATH_def AUTH_TOKEN_PATH_def is_admin_path_def ADMIN_PATH_def ADMIN_PATH_PREFIX_def data_verdict_def
      takes_sigv4_def run_chain_on_request_path_def run_chain_cached_def chain_generation_def shared_def alone_def extract_client_token_def
      bearer_of_def header_str_def X_API_KEY_def X_GOOG_API_KEY_def nonempty_def chain_lookup_def chain_commit_def cache_here_def
      data_gate_def synthesize_principal_key_def sample_plane_def auditor_def reserved_id_def granting_bindings_def pool_union_def
      union_step_def first_group_def List.map_filter_simps GROUP_BUCKET_PREFIX_def VK_ID_PREFIX_def Let_def)

theorem nobody_enters_uninvited_witness:
  "\<exists>key. snd (auth_middleware sample_gate_env sample_gate_app (sample_http ''/v1/messages'' ''x-api-key'' ''ann-pw'') sample_gate_state)
      = Handled (Some auditor) (Some key) \<and> synthesize_principal_key auditor (ad_role_bindings sample_plane ''corp'') = Some key"
proof -
  obtain s1 where g: "auth_middleware sample_gate_env sample_gate_app (sample_http ''/v1/messages'' ''x-api-key'' ''ann-pw'') sample_gate_state
      = (s1, Handled (Some auditor) (Some (principal_key auditor None None)))"
    using sample_chat by (metis prod.collapse)
  have t: "build_route_table [] = Inr (ga_routes sample_gate_app)" by (simp add: build_route_table_def sample_gate_app_def)
  from nobody_enters_uninvited [OF t g]
  have "Some (principal_key auditor None None) = synthesize_principal_key auditor (ad_role_bindings sample_plane ''corp'')"
    by (auto simp: sample_gate_app_def)
  with g show ?thesis by (metis snd_conv)
qed

lemma sample_admin:
  "snd (auth_middleware sample_gate_env sample_gate_app (sample_http ''/api/v1/admin/keys'' ''x-admin-token'' ''root'') sample_gate_state)
     = AdminHandled (Some (from_id ''admin''))"
  by (simp add: auth_middleware_def sample_gate_env_def sample_gate_app_def sample_http_def sample_gate_state_def declared_auth_def
      route_method_of_def HEALTHZ_PATH_def AUTH_TOKEN_PATH_def is_admin_path_def ADMIN_PATH_def ADMIN_PATH_PREFIX_def admin_branch_def
      admin_request_def bearer_of_def header_str_def extract_admin_header_token_def X_ADMIN_TOKEN_def nonempty_def
      admin_gate_def run_admin_chain_maybe_offloaded_def run_admin_chain_def sample_plane_def shared_def alone_def ADMIN_TOKENS_MODULE_def
      composite_credential_def admin_lookup_def cache_get_def cache_new_def consult_admin_module_def either_def admin_remember_def
      shared_put_def cache_put_def cacheable_verdict_def cache_generation_def make_room_def MAX_ENTRIES_def authenticate_admin_tokens_def
      sample_sha_def from_id_def ADMIN_TOKENS_PRINCIPAL_ID_def module_admin_scope_cap_def required_scope_def effective_scope_def capped_def
      admin_scope_for_def allows_iff contains_of meter_mutation_def is_mutation_def Let_def)

theorem admin_plane_is_gated_witness:
  "snd (auth_middleware sample_gate_env sample_gate_app (sample_http ''/api/v1/admin/keys'' ''x-admin-token'' ''root'') sample_gate_state)
      = AdminHandled (Some (from_id ''admin''))
    \<and> (\<exists>t. extract_admin_header_token (ge_readable sample_gate_env) (sample_http ''/api/v1/admin/keys'' ''x-admin-token'' ''root'') = Some t
          \<and> sample_sha t = ''#root'')"
proof -
  let ?q = "sample_http ''/api/v1/admin/keys'' ''x-admin-token'' ''root''"
  obtain s1 where g: "auth_middleware sample_gate_env sample_gate_app ?q sample_gate_state = (s1, AdminHandled (Some (from_id ''admin'')))"
    using sample_admin by (metis prod.collapse)
  have t: "build_route_table [] = Inr (ga_routes sample_gate_app)" "is_admin_path (hq_path ?q)"
    by (simp_all add: build_route_table_def sample_gate_app_def is_admin_path_def sample_http_def ADMIN_PATH_def ADMIN_PATH_PREFIX_def)
  have b: "bearer_of (ge_readable sample_gate_env) ?q = None"
    by (simp add: bearer_of_def header_str_def sample_http_def)
  from admin_plane_is_gated [OF t g] sample_admin b show ?thesis
    by (auto simp: sample_gate_app_def sample_plane_def sample_gate_env_def from_id_def role_suffices_def)
qed

definition bedrock_key :: VirtualKey where
  "bedrock_key = principal_key (from_id ''vk_b'') None None"

definition bedrock_credential :: CredentialSecret where
  "bedrock_credential = \<lparr>cs_meta = \<lparr>cr_id = ''c'', cr_key_id = ''vk_b'', cr_kind = ''sigv4'', cr_slot = 1, cr_public_id = ''AK'',
       cr_secret_form = Recoverable, cr_created_at = 0, cr_updated_at = 0, cr_expires_at = None, cr_revoked_at = None, cr_revoke_reason = None, cr_revision = 0\<rparr>,
     cs_secret = ''v1:plain:secret''\<rparr>"

definition bedrock_keys :: KeyState where
  "bedrock_keys =
     \<lparr>ks_store = memory_new, ks_calls = 0, ks_by_id = [''vk_b'' \<mapsto> bedrock_key],
      ks_by_credential = [(''sigv4'', ''AK'') \<mapsto> (bedrock_key, bedrock_credential)], ks_signing = None,
      ks_denylist = revocation_new [] 1000,
      ks_gov = \<lparr>gs_budget = Map.empty, gs_sweep_ticker = (\<lambda>_. 0), gs_concurrent = Map.empty\<rparr>\<rparr>"

lemma sample_path: "uri_encode_path ''/model/m/converse'' = ''/model/m/converse''"
  by (simp add: uri_encode_path_def unreserved_def)

theorem sigv4_ingress_is_governed_witness:
  "\<exists>v. snd (verify_bedrock_sigv4 (\<lambda>v. True) plain_crypto 1200 1200
        (signed_request plain_crypto v sample_host ''/model/m/converse'' ''{}'' None 1000) bedrock_keys) = Some bedrock_key
     \<and> vk_enabled bedrock_key \<and> cred_is_live (cs_meta bedrock_credential) 1200"
proof -
  obtain name v out where h: "sigv4_sign_headers plain_crypto (\<lambda>s. True) ''AK:secret'' sample_host (uri_encode_path ''/model/m/converse'') ''{}'' 1000
      = (name, v) # out" using sample_signed unfolding sample_path by blast
  let ?q = "signed_request plain_crypto v sample_host ''/model/m/converse'' ''{}'' None 1000"
  have "ascii_lowercase ''{}'' = ''{}''" by (rule lower_id) simp
  then have a: "snd (verify_bedrock_sigv4 (\<lambda>v. True) plain_crypto 1200 1200 ?q bedrock_keys) = Some bedrock_key"
    by (intro signed_client_admitted [OF sample_key sample_access plain_crypto_hex _ h, of "\<lambda>v. True" bedrock_keys bedrock_key bedrock_credential])
      (simp_all add: plain_crypto_def lookup_credential_def bedrock_keys_def plaintext_def bedrock_credential_def cred_is_live_def
        bedrock_key_def principal_key_def is_revoked_at_def sync_revocations_if_stale_def refresh_if_stale_def revocation_new_def
        saturating_sub_def rv_contains_def REVOCATION_SYNC_TTL_SECS_def abs_diff_def Let_def list.pred_True)
  then obtain ks1 where g: "verify_bedrock_sigv4 (\<lambda>v. True) plain_crypto 1200 1200 ?q bedrock_keys = (ks1, Some bedrock_key)"
    by (metis prod.collapse)
  from sigv4_ingress_is_governed [OF g] obtain cred access where "vk_enabled bedrock_key" "cred_is_live (cs_meta cred) 1200"
      "lookup_credential ''sigv4'' access bedrock_keys = Some (bedrock_key, cred)" by blast
  moreover from this(3) have "cred = bedrock_credential"
    by (auto simp: lookup_credential_def bedrock_keys_def split: if_splits)
  ultimately show ?thesis using a by blast
qed

end
