(* ===== verification/Spec2Isabelle.thy ===== *)
theory Spec2Isabelle
  imports Breaker_Classify Cell_Machine Breaker_Config Lane_Restore Lane_Select Event_Stream
    Key_Machine Audit_Valve Probe_Schedule Auth_Exchange Auth_Gate
begin

text \<open>
  A verification development for Busbar, a gateway that routes requests to pools of upstream
  model lanes. It covers four cores of \<open>src/crates\<close>. The reliability core: how an upstream failure
  is classified, how the circuit breaker of a (pool, lane) pair reacts, how the lane store keeps
  health, permits and budget, how a request picks its lane, and how lanes are probed. The request
  engine: how a request passes its gates, is ordered, fails over, waits for capacity, falls back
  to other pools and answers, and what it leaves in the accounts on every way out. The governance
  core: how the limits of nested groups become enforcement buckets, how a request is admitted
  against them and its usage accounted, how several engines flush their counters into one durable
  store, what the in-memory store keeps of keys and credentials, and the audit log. Authentication:
  who a caller is, what the credential cache may say of it, which pools and admin endpoints that
  opens, the signatures of AWS requests, and the front door that composes them.

  \<^bold>\<open>The parts and their theories.\<close>

  \<^item> \<open>Busbar_Prelude\<close>: machine arithmetic as the source uses it (saturating and wrapping
    operations on naturals and integers, \<open>clamp\<close> with its panic, the quotient of two
    counters as \<open>f64\<close>), traces of a step relation, and the locale \<open>invariant_system\<close>
    that every state machine interprets.
  \<^item> \<open>Breaker_Classify\<close>: \<open>breaker.rs\<close>, the normaliser and the classifier of upstream errors.
  \<^item> \<open>Breaker_Cell\<close>: \<open>store/in_memory/breaker.rs\<close>, one breaker cell as a record of its
    atomics and one function per critical section.
  \<^item> \<open>Cell_Machine\<close>: the operations of a cell in any order, as a step relation; the
    invariant, the single-flight probe, owner tokens, and the refinement of the three-state
    breaker.
  \<^item> \<open>Breaker_Config\<close>: the parsed breaker block, its conversion and rule 6 of
    \<open>config_validate\<close>; what a validated configuration guarantees of cooldowns and trips.
  \<^item> \<open>Lane_Store\<close>: \<open>HealthState\<close> of \<open>store/in_memory/mod.rs\<close> and the recording operations
    of \<open>availability.rs\<close>: lanes, lazily created per-pool cells, permits, the lifetime budget.
    The locale \<open>cell_directory\<close> is the contract between the cells and their users.
  \<^item> \<open>Lane_Availability\<close>: classification, admission and the \<open>/stats\<close> snapshot of
    \<open>availability.rs\<close>.
  \<^item> \<open>Lane_Swrr\<close>: \<open>select_weighted_for\<close>, the reference algorithm on a vector of accumulators
    and its fairness.
  \<^item> \<open>Store_Machine\<close>: the store as a state machine; the store invariant, the budget meter,
    isolation of pools, hard-down and recovery of a whole lane.
  \<^item> \<open>Lane_Restore\<close>: \<open>export_health\<close> and the restore by lane identity.
  \<^item> \<open>Lane_Select\<close>: \<open>proxy/select.rs\<close>: request context, compliance restricts, \<open>pick_among\<close>.
  \<^item> \<open>Event_Stream\<close>: \<open>eventstream.rs\<close>: decoder and encoder of AWS event-stream frames, their
    round trip, and independence of how the network cuts the stream.
  \<^item> \<open>Budget_Window\<close>: the accounting windows of \<open>governance/mod.rs\<close> and the calendar under them;
    the windows partition time, the day conversions are the Gregorian calendar.
  \<^item> \<open>Cost_Model\<close>: \<open>cost.rs\<close> and the groups of \<open>config/groups.rs\<close>: buckets, chains, derived
    spend, validation; chains are complete and bucket ids identify their buckets.
  \<^item> \<open>Gov_Ledger\<close>: the limit engine of \<open>governance/state.rs\<close>: token ledger cells, concurrency
    gauges, the sharded sweep, admission in two passes, refunds.
  \<^item> \<open>Usage_Flush\<close>: the write-behind flush and boot hydration, and the ledger deltas of
    \<open>api/src/store.rs\<close>. The locale \<open>usage_store\<close> is what the flush needs of a store; in it the
    fleet of engines is a machine and the flush is proved additive.
  \<^item> \<open>Gov_Machine\<close>: the limit engine as a state machine: caps are hard, gauges count live
    grants, an admission is all or nothing, eviction is not observable.
  \<^item> \<open>Memory_Store\<close>: \<open>store-memory/src/lib.rs\<close>: keys with tombstones, credentials, usage,
    metering, the denylist and the retention sweeps; the store interprets \<open>usage_store\<close>.
  \<^item> \<open>Gov_Token\<close>: \<open>governance/signing.rs\<close> and \<open>governance/revocation.rs\<close>: signed tokens, binding
    generations, and the re-sync of the denylist as a machine.
  \<^item> \<open>Gov_Keys\<close>: the key caches and key operations of \<open>governance/state.rs\<close>: verification of a
    token, minting, revocation, deletion, rotation, update, and the self-serve keys, over the
    modelled store, with every store call answered, refused, or carried out and its
    acknowledgement lost.
  \<^item> \<open>Key_Machine\<close>: these operations in any order, with peers and restarts. The locale
    \<open>op_frame\<close> states what each primitive effect keeps of a relation between states; its
    interpretations give that a revocation and a deletion are final.
  \<^item> \<open>Engine_World\<close>: what surrounds a request (clock, jitter, upstream replies, the work of other
    requests between its steps), the state of one request's run, and the calls of the store it makes.
  \<^item> \<open>Response_Body\<close>: \<open>proxy/response_body.rs\<close>, the streamed body that bills, reports and releases.
  \<^item> \<open>Engine_Attempt\<close>: one hop of \<open>proxy/engine/mod.rs\<close>: key, upstream call, every disposition.
  \<^item> \<open>Engine_Walk\<close>: the exhaustion modes of \<open>proxy/engine/walk.rs\<close>: degraded paths, the queue,
    the chain of fallback pools.
  \<^item> \<open>Engine_Accounts\<close>, \<open>Engine_Books\<close>, \<open>Engine_Total\<close>, \<open>Engine_Log\<close>: what one step keeps of permits,
    probes and budget, whatever other requests do in between; that whole walks keep it; that they
    end; and what they add to the log of attempts and bills.
  \<^item> \<open>Hook_Ranking\<close>, \<open>Engine_Gates\<close>: the native policies of \<open>hooks\<close>, the decisions of gates with
    their \<open>on_error\<close> chains, and the three passes that reconcile them.
  \<^item> \<open>Engine_Entry\<close>, \<open>Engine_Request\<close>: the request from the rewrite verdicts to its response, and
    the theorems about the whole of it.
  \<^item> \<open>Health_Probe\<close>, \<open>Probe_Schedule\<close>: \<open>health.rs\<close>: one probe and what it does to the cells of its
    lane; the deadline that the probers of successive configurations share.
  \<^item> \<open>Busbar_Text\<close>: splitting of text and decimal numbers, shared by tokens and the audit log.
  \<^item> \<open>Audit_Log\<close>: \<open>admin/audit.rs\<close>: the hash-chained ring of admin mutations, its restore, the
    write-through to the durable store and the pressure valve of the recorder.
  \<^item> \<open>Audit_Machine\<close>: recorders, one write-through a store call at a time, faults and restarts in
    any interleaving, over a store of the locale \<open>audit_store\<close>; the invariant that ring and durable
    log are pieces of one chain.
  \<^item> \<open>Audit_Trail\<close>, \<open>Audit_Valve\<close>: the durable log only grows, restores, and is the history of the
    mutations; with an answering store nothing is lost; what the chain detects. The locales are
    interpreted on the defaults of the store contract and on the keyed store of the source.
  \<^item> \<open>Auth_Cache\<close>: \<open>auth_cache.rs\<close>, the credential cache, and its use by authentications in flight
    as a step relation: a flush is instant, space and time are bounded.
  \<^item> \<open>Auth_Chain\<close>: the data-plane chain of \<open>auth/mod.rs\<close> over the shared cache and the re-key of an
    identity by its role bindings (\<open>governance/mod.rs\<close>); the cache changes no verdict.
  \<^item> \<open>Auth_Exchange\<close>: the token exchange, \<open>auth/exchange.rs\<close> and \<open>auth/self_keys.rs\<close>, which mints
    through the key operations of \<open>Gov_Keys\<close>.
  \<^item> \<open>Admin_Rate\<close>, \<open>Auth_Admin\<close>: the classes and windows of \<open>admin/rate.rs\<close>; scopes and grants of
    \<open>admin/v1/contract\<close>, the admin chain and the admin branch of the middleware: what bounds
    authority, how mutations are metered, that a change of the chain does not lock its author out.
  \<^item> \<open>Sig_V4\<close>: \<open>sigv4.rs\<close> and the header assembly of Bedrock requests: signer and verifier agree, and
    what an accepted signature binds.
  \<^item> \<open>Plugin_Routes\<close>: \<open>plugin_routes.rs\<close> with the declarations of \<open>plugin-abi/src/http_endpoint.rs\<close>: the
    table of the HTTP routes of plugins, its confinement, and the dispatch of a request to a plugin.
  \<^item> \<open>Auth_Gate\<close>: the front door, \<open>auth_middleware\<close>: which requests pass unasked, go to the admin
    branch or through the chain, the Bedrock ingress, and the gate of the data plane. It rests on
    all the theories of authentication and on the key store of \<open>Gov_Keys\<close>.

  \<^bold>\<open>How the model reads.\<close> A struct is a record, an enum a datatype. A value of type \<open>u64\<close>,
  \<open>u32\<close> or \<open>usize\<close> is a natural, one of type \<open>i64\<close> an integer; where the source can leave
  the range of the type, the wrap-around or the saturation is written out. A panic is \<open>None\<close>
  of an option, an error value the left side of a sum. The store is passed explicitly; the
  clock is an argument of every operation that reads it. One operation of a cell is one
  critical section under the cell's transition lock. In the store one operation is one step,
  except admission, whose two critical sections are separate definitions so that the race
  between them is in the model. An admission of the limit engine holds every shard lock it needs
  from its check to its charge and is one step; a flush takes its snapshot, writes and
  acknowledges in separate steps, and other work falls between them.

  Random bytes, cryptographic functions and encodings are arguments of the key operations, with the
  laws \<open>crypto_laws\<close>, which a concrete record of functions satisfies.

  The concurrency semaphore belongs to the \<open>tokio\<close> crate and the HTTP-date parser to
  \<open>httpdate\<close>: they are arguments, the semaphore with the laws \<open>semaphore_laws\<close>, which a
  counting semaphore satisfies.

  \<^bold>\<open>Fuel.\<close> The retry loop of \<open>pick_among\<close> is run with one round more than there are
  candidates. Every round that does not return excludes a candidate, so the fuel is enough;
  this is part of what is proved of it. The failover loop runs over the configured hops. The queue
  loop has one round more than lanes it waits for, the retries inside a fallback pool one more than
  candidates, the chain of fallback pools (\<open>exhaustion_fuel\<close>) one more link than there are
  fallback pools: a refused lane leaves the wait set, a pool is visited once; that no reachable run
  uses the fuel up is
  part of \<open>every_request_is_answered\<close>.

  \<^bold>\<open>What is not modelled.\<close> The translation between vendor protocols (JSON over a third-party
  library; the engine takes it as an argument), the JSON side of request rewriting, the answers of
  hook plugins, the projection of prompts and identities to them, taps; the HTTP ingress past its
  authentication and the admin handlers other than the one that replaces the admin chain; the parsing and migration of configuration files; loading of plugins; the browser
  login and its calls to identity providers; the metering accumulator and the read-only usage views
  of governance, the rounding of configured rates. Logging and metrics have no counterpart.
\<close>

end
